(* ===== verification/Prelude.thy ===== *)
theory Prelude
  imports Main "HOL-Library.Word" "HOL-Library.List_Lexorder" "HOL-Library.Char_ord"
    "HOL-Library.Product_Lexorder" "HOL-Library.Sublist"
begin

text \<open>
  What every theory of the development shares: the machine integers, results (\<open>Inl\<close> is the error
  of a Rust \<open>Result\<close>), the fallible iterations that \<open>collect::<Result<_>>()\<close> and the \<open>?\<close>
  operator make, ordered maps as association lists, ASCII text, decimal text and the saturating
  arithmetic of weights. A Rust \<open>str\<close> is its UTF-8 bytes, so it is a \<^typ>\<open>string\<close>.
\<close>

named_theorems result_simps \<open>laws of results and of fallible iteration\<close>
named_theorems ascii_defs \<open>definitions of the ASCII character classes\<close>

type_synonym u8 = "8 word"
type_synonym u16 = "16 word"
type_synonym u32 = "32 word"
type_synonym u64 = "64 word"
type_synonym u128 = "128 word"

type_synonym ('k, 'v) omap = "('k \<times> 'v) list"


section \<open>Results\<close>

definition and_then :: "'e + 'a \<Rightarrow> ('a \<Rightarrow> 'e + 'b) \<Rightarrow> 'e + 'b" where
  "and_then r f = (case r of Inl e \<Rightarrow> Inl e | Inr x \<Rightarrow> f x)"

definition ensure :: "bool \<Rightarrow> 'e \<Rightarrow> 'e + unit" where
  "ensure c e = (if c then Inr () else Inl e)"

definition ok_or :: "'e \<Rightarrow> 'a option \<Rightarrow> 'e + 'a" where
  "ok_or e x = (case x of None \<Rightarrow> Inl e | Some y \<Rightarrow> Inr y)"

fun ok :: "'e + 'a \<Rightarrow> 'a option" where
  "ok (Inl _) = None"
| "ok (Inr x) = Some x"

fun try_collect :: "('a \<Rightarrow> 'e + 'b) \<Rightarrow> 'a list \<Rightarrow> 'e + 'b list" where
  "try_collect f [] = Inr []"
| "try_collect f (x # xs) =
     and_then (f x) (\<lambda>y. and_then (try_collect f xs) (\<lambda>ys. Inr (y # ys)))"

fun try_fold :: "('a \<Rightarrow> 's \<Rightarrow> 'e + 's) \<Rightarrow> 'a list \<Rightarrow> 's \<Rightarrow> 'e + 's" where
  "try_fold f [] s = Inr s"
| "try_fold f (x # xs) s = and_then (f x s) (try_fold f xs)"

fun try_for_each :: "('a \<Rightarrow> 'e + unit) \<Rightarrow> 'a list \<Rightarrow> 'e + unit" where
  "try_for_each f [] = Inr ()"
| "try_for_each f (x # xs) = and_then (f x) (\<lambda>_. try_for_each f xs)"

lemma and_then_simps [simp]:
  "and_then (Inl e) f = Inl e"
  "and_then (Inr x) f = f x"
  by (simp_all add: and_then_def)

lemma and_then_cong [fundef_cong]:
  "r = r' \<Longrightarrow> (\<And>x. r' = Inr x \<Longrightarrow> f x = g x) \<Longrightarrow> and_then r f = and_then r' g"
  by (cases r') (simp_all add: and_then_def)

lemma and_then_Inr_iff [result_simps]:
  "and_then r f = Inr y \<longleftrightarrow> (\<exists>x. r = Inr x \<and> f x = Inr y)"
  by (cases r) simp_all

lemma and_then_Inl_iff:
  "and_then r f = Inl e \<longleftrightarrow> r = Inl e \<or> (\<exists>x. r = Inr x \<and> f x = Inl e)"
  by (cases r) auto

lemma ensure_Inr_iff [simp]: "ensure c e = Inr u \<longleftrightarrow> c"
  by (simp add: ensure_def)

lemma ensure_Inl_iff [simp]: "ensure c e = Inl e' \<longleftrightarrow> \<not> c \<and> e' = e"
  by (auto simp: ensure_def)

lemma ensure_True [simp]: "ensure True e = Inr ()"
  by simp

lemma ok_or_Inr_iff [simp]: "ok_or e x = Inr y \<longleftrightarrow> x = Some y"
  by (cases x) (simp_all add: ok_or_def)

lemma ok_or_Inl_iff [simp]: "ok_or e x = Inl e' \<longleftrightarrow> x = None \<and> e' = e"
  by (cases x) (auto simp: ok_or_def)

lemma ok_or_simps [simp]: "ok_or e None = Inl e" "ok_or e (Some y) = Inr y"
  by (simp_all add: ok_or_def)

lemma ok_eq_Some [simp]: "ok r = Some x \<longleftrightarrow> r = Inr x"
  by (cases r) simp_all

lemma try_collect_Inr_iff [result_simps]:
  "try_collect f xs = Inr ys \<longleftrightarrow> list_all2 (\<lambda>x y. f x = Inr y) xs ys"
proof (induction xs arbitrary: ys)
  case Nil
  then show ?case by auto
next
  case (Cons x xs)
  then show ?case by (auto simp: and_then_Inr_iff list_all2_Cons1)
qed

lemma try_collect_length: "try_collect f xs = Inr ys \<Longrightarrow> length ys = length xs"
  by (auto simp: try_collect_Inr_iff dest: list_all2_lengthD)

lemma try_collect_total:
  "(\<And>x. x \<in> set xs \<Longrightarrow> f x = Inr (g x)) \<Longrightarrow> try_collect f xs = Inr (map g xs)"
  by (induction xs) auto

lemma try_collect_cong [fundef_cong]:
  "xs = ys \<Longrightarrow> (\<And>x. x \<in> set ys \<Longrightarrow> f x = g x) \<Longrightarrow> try_collect f xs = try_collect g ys"
  by (induction ys arbitrary: xs) auto

lemma try_collect_append:
  "try_collect f (xs @ ys) =
     and_then (try_collect f xs) (\<lambda>as. and_then (try_collect f ys) (\<lambda>bs. Inr (as @ bs)))"
proof (induction xs)
  case Nil
  then show ?case by (cases "try_collect f ys") simp_all
next
  case (Cons x xs)
  then show ?case
    by (cases "f x"; cases "try_collect f xs"; cases "try_collect f ys") simp_all
qed

lemma try_for_each_Inr_iff [result_simps]:
  "try_for_each f xs = Inr u \<longleftrightarrow> (\<forall>x \<in> set xs. f x = Inr ())"
  by (induction xs) (auto simp: and_then_Inr_iff)

lemma try_fold_append:
  "try_fold f (xs @ ys) s = and_then (try_fold f xs s) (try_fold f ys)"
proof (induction xs arbitrary: s)
  case Nil
  then show ?case by simp
next
  case (Cons x xs)
  then show ?case by (cases "f x s") simp_all
qed

lemma try_fold_cong [fundef_cong]:
  "xs = ys \<Longrightarrow> s = t \<Longrightarrow> (\<And>x s. x \<in> set ys \<Longrightarrow> f x s = g x s)
     \<Longrightarrow> try_fold f xs s = try_fold g ys t"
proof (induction ys arbitrary: xs s t)
  case Nil
  then show ?case by simp
next
  case (Cons y ys)
  from Cons.prems have "f y t = g y t" by simp
  moreover have "try_fold f ys u = try_fold g ys u" for u
    using Cons by simp
  ultimately show ?case
    using Cons.prems by (cases "g y t") simp_all
qed

lemma list_all2_left: "list_all2 P xs ys \<Longrightarrow> x \<in> set xs \<Longrightarrow> \<exists>y \<in> set ys. P x y"
  by (induction rule: list_all2_induct) auto

lemma list_all2_right: "list_all2 P xs ys \<Longrightarrow> y \<in> set ys \<Longrightarrow> \<exists>x \<in> set xs. P x y"
  by (induction rule: list_all2_induct) auto

text \<open>An invariant of the state that every step keeps holds at the end of a fallible fold.\<close>

lemma try_fold_invariant:
  assumes "try_fold f xs s = Inr t" and "P s"
    and "\<And>x s s'. x \<in> set xs \<Longrightarrow> P s \<Longrightarrow> f x s = Inr s' \<Longrightarrow> P s'"
  shows "P t"
  using assms
proof (induction xs arbitrary: s)
  case Nil
  then show ?case by simp
next
  case (Cons x xs)
  from Cons.prems(1) obtain s' where s': "f x s = Inr s'" "try_fold f xs s' = Inr t"
    by (auto simp: and_then_Inr_iff)
  from Cons.prems(2,3) s'(1) have "P s'" by auto
  with s'(2) Cons.prems(3) show ?case by (intro Cons.IH) auto
qed


section \<open>Maps that keep an order\<close>

text \<open>
  An \<open>IndexMap\<close> iterates in insertion order and a \<open>BTreeMap\<close> in key order; a \<open>HashMap\<close> that is
  iterated at all is sorted first. All three are association lists with distinct keys, read by
  \<^const>\<open>map_of\<close>.
\<close>

definition keys :: "('k, 'v) omap \<Rightarrow> 'k list" where
  "keys m = map fst m"

definition contains_key :: "('k, 'v) omap \<Rightarrow> 'k \<Rightarrow> bool" where
  "contains_key m k = list_ex (\<lambda>p. fst p = k) m"

fun omap_update :: "'k \<Rightarrow> ('v option \<Rightarrow> 'v) \<Rightarrow> ('k, 'v) omap \<Rightarrow> ('k, 'v) omap" where
  "omap_update k f [] = [(k, f None)]"
| "omap_update k f ((k', v) # m) =
     (if k' = k then (k', f (Some v)) # m else (k', v) # omap_update k f m)"

definition omap_insert :: "'k \<Rightarrow> 'v \<Rightarrow> ('k, 'v) omap \<Rightarrow> ('k, 'v) omap" where
  "omap_insert k v = omap_update k (\<lambda>_. v)"

definition omap_ok :: "('k, 'v) omap \<Rightarrow> bool" where
  "omap_ok m = distinct (keys m)"

lemma contains_key_iff [simp]: "contains_key m k \<longleftrightarrow> k \<in> set (keys m)"
  by (auto simp: contains_key_def keys_def list_ex_iff)

lemma contains_key_map_of: "contains_key m k \<longleftrightarrow> map_of m k \<noteq> None"
  by (auto simp: keys_def map_of_eq_None_iff)

lemma map_of_omap_update: "map_of (omap_update k f m) =
    (map_of m)(k \<mapsto> f (map_of m k))"
  by (induction m) (auto simp: fun_eq_iff)

lemma map_of_omap_insert [simp]: "map_of (omap_insert k v m) = (map_of m)(k \<mapsto> v)"
  by (simp add: omap_insert_def map_of_omap_update)

lemma set_keys_omap_update [simp]: "set (keys (omap_update k f m)) = insert k (set (keys m))"
proof (induction m)
  case Nil
  then show ?case by (simp add: keys_def)
next
  case (Cons p m)
  then show ?case by (cases p) (auto simp: keys_def image_iff)
qed

lemma omap_ok_update [simp]: "omap_ok m \<Longrightarrow> omap_ok (omap_update k f m)"
proof (induction m)
  case Nil
  then show ?case by (simp add: omap_ok_def keys_def)
next
  case (Cons p m)
  obtain k' v where p: "p = (k', v)" by (cases p)
  from Cons have "omap_ok (omap_update k f m)" by (simp add: omap_ok_def keys_def)
  with Cons.prems p show ?case
    using set_keys_omap_update [of k f m] by (auto simp: omap_ok_def keys_def)
qed

lemma omap_ok_insert [simp]: "omap_ok m \<Longrightarrow> omap_ok (omap_insert k v m)"
  by (simp add: omap_insert_def)

lemma set_omap_update:
  "e \<in> set (omap_update k f m) \<Longrightarrow> e \<in> set m \<or> e = (k, f (map_of m k))"
  by (induction m) (auto split: if_splits)

lemma omap_ok_map_of: "omap_ok m \<Longrightarrow> (k, v) \<in> set m \<Longrightarrow> map_of m k = Some v"
  by (simp add: omap_ok_def keys_def)

lemma omap_ok_Nil [simp]: "omap_ok []"
  by (simp add: omap_ok_def keys_def)


section \<open>Lists\<close>

fun index_of :: "'a list \<Rightarrow> 'a \<Rightarrow> nat option" where
  "index_of [] x = None"
| "index_of (y # ys) x = (if y = x then Some 0 else map_option Suc (index_of ys x))"

fun find_position :: "('a \<Rightarrow> bool) \<Rightarrow> 'a list \<Rightarrow> nat option" where
  "find_position p [] = None"
| "find_position p (x # xs) = (if p x then Some 0 else map_option Suc (find_position p xs))"

definition push_new :: "'a \<Rightarrow> 'a list \<Rightarrow> 'a list" where
  "push_new x xs = (if x \<in> set xs then xs else xs @ [x])"

definition partition_point :: "('a \<Rightarrow> bool) \<Rightarrow> 'a list \<Rightarrow> nat" where
  "partition_point p xs = length (takeWhile p xs)"

definition get :: "'a list \<Rightarrow> nat \<Rightarrow> 'a option" where
  "get xs i = (if i < length xs then Some (xs ! i) else None)"

lemma index_of_Some: "index_of xs x = Some i \<Longrightarrow> i < length xs \<and> xs ! i = x"
  by (induction xs arbitrary: i) (auto split: if_splits)

lemma index_of_None [simp]: "index_of xs x = None \<longleftrightarrow> x \<notin> set xs"
  by (induction xs) auto

lemma find_position_Some:
  "find_position p xs = Some i \<Longrightarrow> i < length xs \<and> p (xs ! i) \<and> (\<forall>j < i. \<not> p (xs ! j))"
proof (induction xs arbitrary: i)
  case Nil
  then show ?case by simp
next
  case (Cons x xs)
  show ?case
  proof (cases "p x")
    case True
    with Cons.prems show ?thesis by simp
  next
    case False
    with Cons.prems obtain j where j: "find_position p xs = Some j" "i = Suc j" by auto
    with Cons.IH [OF j(1)] False show ?thesis by (auto simp: nth_Cons split: nat.splits)
  qed
qed

lemma find_position_None [simp]: "find_position p xs = None \<longleftrightarrow> (\<forall>x \<in> set xs. \<not> p x)"
  by (induction xs) auto

lemma set_push_new [simp]: "set (push_new x xs) = insert x (set xs)"
  by (auto simp: push_new_def)

lemma set_fold_push_new: "set (fold push_new ns acc) = set ns \<union> set acc"
  by (induction ns arbitrary: acc) auto

lemma distinct_push_new [simp]: "distinct (push_new x xs) \<longleftrightarrow> distinct xs"
  by (auto simp: push_new_def)

lemma get_Some_iff: "get xs i = Some x \<longleftrightarrow> i < length xs \<and> xs ! i = x"
  by (auto simp: get_def)

lemma get_None_iff: "get xs i = None \<longleftrightarrow> length xs \<le> i"
  by (auto simp: get_def)

text \<open>Binary search over an ascending list: the least element at or above a bound.\<close>

lemma distinct_sorted_adj: "sorted xs \<Longrightarrow> distinct (remdups_adj xs)"
  by (induction xs rule: remdups_adj.induct) auto

lemma partition_point_le: "partition_point p xs \<le> length xs"
  by (simp add: partition_point_def length_takeWhile_le)

lemma partition_point_sorted_get:
  fixes xs :: "'a :: linorder list"
  assumes "sorted xs"
  shows "(case get xs (partition_point (\<lambda>x. x < lo) xs) of None \<Rightarrow> True | Some x \<Rightarrow> hi < x)
     \<longleftrightarrow> (\<forall>x \<in> set xs. x < lo \<or> hi < x)"
  using assms
proof (induction xs)
  case Nil
  then show ?case by (simp add: get_def)
next
  case (Cons y ys)
  show ?case
  proof (cases "y < lo")
    case True
    then have "get (y # ys) (partition_point (\<lambda>x. x < lo) (y # ys)) =
        get ys (partition_point (\<lambda>x. x < lo) ys)"
      by (simp add: partition_point_def get_def)
    with True Cons show ?thesis by simp
  next
    case False
    then have "get (y # ys) (partition_point (\<lambda>x. x < lo) (y # ys)) = Some y"
      by (simp add: partition_point_def get_def)
    with False Cons.prems show ?thesis by (fastforce simp: not_less)
  qed
qed


section \<open>ASCII text and bytes\<close>

definition code :: "char \<Rightarrow> nat" where
  "code c = of_char c"

definition is_ascii_uppercase :: "char \<Rightarrow> bool" where
  [ascii_defs]: "is_ascii_uppercase c = (65 \<le> code c \<and> code c \<le> 90)"

definition to_ascii_lowercase :: "char \<Rightarrow> char" where
  [ascii_defs]: "to_ascii_lowercase c = (if is_ascii_uppercase c then char_of (code c + 32) else c)"

definition to_ascii_uppercase :: "char \<Rightarrow> char" where
  [ascii_defs]: "to_ascii_uppercase c = (if 97 \<le> code c \<and> code c \<le> 122 then char_of (code c - 32) else c)"

definition is_ascii_digit :: "char \<Rightarrow> bool" where
  [ascii_defs]: "is_ascii_digit c = (48 \<le> code c \<and> code c \<le> 57)"

definition is_ascii_hexdigit :: "char \<Rightarrow> bool" where
  [ascii_defs]: "is_ascii_hexdigit c =
     (is_ascii_digit c \<or> (65 \<le> code c \<and> code c \<le> 70) \<or> (97 \<le> code c \<and> code c \<le> 102))"

definition byte_of :: "char \<Rightarrow> u8" where
  "byte_of c = of_char c"

definition as_bytes :: "string \<Rightarrow> u8 list" where
  "as_bytes = map byte_of"

definition lowercase :: "string \<Rightarrow> string" where
  "lowercase = map to_ascii_lowercase"

lemma code_less [simp]: "code c < 256"
  by (simp add: code_def)

lemma code_char_of [simp]: "n < 256 \<Longrightarrow> code (char_of n) = n"
  by (simp add: code_def)

lemma char_of_code [simp]: "char_of (code c) = c"
  by (simp add: code_def)

lemma code_inject [simp]: "code c = code d \<longleftrightarrow> c = d"
  by (metis char_of_code)

lemma code_to_ascii_lowercase:
  "code (to_ascii_lowercase c) = (if is_ascii_uppercase c then code c + 32 else code c)"
  by (simp add: to_ascii_lowercase_def is_ascii_uppercase_def)

lemma to_ascii_lowercase_not_upper [simp]: "\<not> is_ascii_uppercase (to_ascii_lowercase c)"
  by (auto simp: is_ascii_uppercase_def code_to_ascii_lowercase)

lemma to_ascii_lowercase_idem [simp]: "to_ascii_lowercase (to_ascii_lowercase c) = to_ascii_lowercase c"
  by (simp add: to_ascii_lowercase_def [of "to_ascii_lowercase c"])

lemma lowercase_idem [simp]: "lowercase (lowercase s) = lowercase s"
  by (simp add: lowercase_def)

lemma length_lowercase [simp]: "length (lowercase s) = length s"
  by (simp add: lowercase_def)

lemma unat_byte_of [simp]: "unat (byte_of c) = code c"
proof -
  have "byte_of c = word_of_nat (code c)"
    by (simp add: byte_of_def code_def of_nat_of_char)
  then show ?thesis
    using code_less [of c] by (simp add: unat_of_nat)
qed

lemma byte_of_inject [simp]: "byte_of c = byte_of d \<longleftrightarrow> c = d"
  by (metis unat_byte_of code_inject)

lemma as_bytes_inject [simp]: "as_bytes s = as_bytes t \<longleftrightarrow> s = t"
proof -
  have "inj byte_of" by (auto intro: injI)
  then show ?thesis by (simp add: as_bytes_def inj_map_eq_map)
qed


section \<open>Decimal text\<close>

fun show_nat :: "nat \<Rightarrow> string" where
  "show_nat n = (if n < 10 then [char_of (48 + n)] else show_nat (n div 10) @ [char_of (48 + n mod 10)])"

declare show_nat.simps [simp del]

definition digit_value :: "char \<Rightarrow> nat" where
  "digit_value c = code c - 48"

definition decimal_value :: "string \<Rightarrow> nat" where
  "decimal_value = foldl (\<lambda>n c. n * 10 + digit_value c) 0"

definition parse_usize :: "string \<Rightarrow> nat option" where
  "parse_usize s =
     (let ds = (case s of [] \<Rightarrow> [] | c # cs \<Rightarrow> if c = CHR ''+'' then cs else s) in
      if ds \<noteq> [] \<and> list_all is_ascii_digit ds \<and> decimal_value ds < 2 ^ 64
      then Some (decimal_value ds) else None)"

lemma digit_char: "n < 10 \<Longrightarrow> is_ascii_digit (char_of (48 + n)) \<and> digit_value (char_of (48 + n)) = n"
  by (simp add: is_ascii_digit_def digit_value_def)

lemma show_nat_digits: "list_all is_ascii_digit (show_nat n) \<and> show_nat n \<noteq> []"
proof (induction n rule: show_nat.induct)
  case (1 n)
  then show ?case
    using digit_char [of n] digit_char [of "n mod 10"]
    by (subst (1 2) show_nat.simps) (auto simp: show_nat.simps [of n])
qed

lemma decimal_value_snoc: "decimal_value (s @ [c]) = decimal_value s * 10 + digit_value c"
  by (simp add: decimal_value_def)

lemma decimal_value_show_nat [simp]: "decimal_value (show_nat n) = n"
proof (induction n rule: show_nat.induct)
  case (1 n)
  show ?case
  proof (cases "n < 10")
    case True
    then show ?thesis
      using digit_char [of n] by (simp add: show_nat.simps [of n] decimal_value_def)
  next
    case False
    then show ?thesis
      using 1 digit_char [of "n mod 10"]
      by (simp add: show_nat.simps [of n] decimal_value_snoc)
  qed
qed

lemma show_nat_inject [simp]: "show_nat m = show_nat n \<longleftrightarrow> m = n"
  by (metis decimal_value_show_nat)

lemma parse_usize_show_nat [simp]: "n < 2 ^ 64 \<Longrightarrow> parse_usize (show_nat n) = Some n"
proof -
  assume n: "n < 2 ^ 64"
  from show_nat_digits [of n] obtain c cs where s: "show_nat n = c # cs" "is_ascii_digit c"
    by (cases "show_nat n") auto
  then have "c \<noteq> CHR ''+''" by (auto simp: is_ascii_digit_def code_def)
  with s n show_nat_digits [of n] show ?thesis
    using decimal_value_show_nat [of n] by (simp add: parse_usize_def)
qed


section \<open>Unsigned arithmetic that saturates\<close>

definition u64_max :: nat where
  "u64_max = 2 ^ 64 - 1"

definition saturating_add :: "nat \<Rightarrow> nat \<Rightarrow> nat" where
  "saturating_add a b = min (a + b) u64_max"

lemma saturating_add_le [simp]: "saturating_add a b \<le> u64_max"
  by (simp add: saturating_add_def)

lemma saturating_add_0 [simp]: "a \<le> u64_max \<Longrightarrow> saturating_add a 0 = a"
  by (simp add: saturating_add_def)

lemma saturating_add_assoc: "saturating_add (saturating_add a b) c = saturating_add a (saturating_add b c)"
  by (simp add: saturating_add_def min_def)

lemma saturating_add_commute: "saturating_add a b = saturating_add b a"
  by (simp add: saturating_add_def add.commute)

lemma saturating_add_mono: "a \<le> c \<Longrightarrow> b \<le> d \<Longrightarrow> saturating_add a b \<le> saturating_add c d"
  by (auto simp: saturating_add_def min_def)

lemma saturating_add_increasing: "a \<le> u64_max \<Longrightarrow> a \<le> saturating_add a b"
  by (simp add: saturating_add_def)

lemma fold_saturating_add:
  "a \<le> u64_max \<Longrightarrow> foldl saturating_add a ws = min (a + sum_list ws) u64_max"
proof (induction ws arbitrary: a)
  case Nil
  then show ?case by simp
next
  case (Cons w ws)
  then show ?case
    by (simp add: Cons.IH [OF saturating_add_le]) (simp add: saturating_add_def min_def)
qed

end
