(* ===== verification/Metadata.thy ===== *)
theory Metadata
  imports Prelude
begin

text \<open>
  The catalog a dataset is described by, \<^verbatim>\<open>crates/metadata/src/types.rs\<close>: tables with the request
  surface a client may use, the output surface it may select from and the physical columns behind
  both. Maps are association lists in iteration order (\<open>IndexMap\<close>: the catalog's order, \<open>BTreeMap\<close>:
  key order). The theory shows that column types survive a round trip through their catalog spelling
  and what the derived readings of a table (field sources, weight key, join keys) return.
\<close>

section \<open>Column types and encodings\<close>

datatype column_type =
    TUInt8 | TUInt16 | TUInt32 | TUInt64 | TInt16 | TInt32 | TInt64 | TFloat64 | TBoolean | TString
  | TTimestampSecond | TTimestampMillisecond | TListUInt8 | TListUInt32 | TListString | TListStruct
  | TStruct | TDecimal128 | TFixedBinary nat

definition is_list :: "column_type \<Rightarrow> bool" where
  "is_list t = (t \<in> {TListUInt8, TListUInt32, TListString, TListStruct})"

fun serialize_type :: "column_type \<Rightarrow> string" where
  "serialize_type TUInt8 = ''uint8''"
| "serialize_type TUInt16 = ''uint16''"
| "serialize_type TUInt32 = ''uint32''"
| "serialize_type TUInt64 = ''uint64''"
| "serialize_type TInt16 = ''int16''"
| "serialize_type TInt32 = ''int32''"
| "serialize_type TInt64 = ''int64''"
| "serialize_type TFloat64 = ''float64''"
| "serialize_type TBoolean = ''boolean''"
| "serialize_type TString = ''string''"
| "serialize_type TTimestampSecond = ''timestamp_second''"
| "serialize_type TTimestampMillisecond = ''timestamp_millisecond''"
| "serialize_type TListUInt8 = ''list_uint8''"
| "serialize_type TListUInt32 = ''list_uint32''"
| "serialize_type TListString = ''list_string''"
| "serialize_type TListStruct = ''list_struct''"
| "serialize_type TStruct = ''struct''"
| "serialize_type TDecimal128 = ''decimal128''"
| "serialize_type (TFixedBinary n) = ''fixed_binary_'' @ show_nat n"

datatype type_error = InvalidFixedBinarySize string | UnknownColumnType string

definition starts_with :: "string \<Rightarrow> string \<Rightarrow> bool" where
  "starts_with s pre = (take (length pre) s = pre)"

definition deserialize_type :: "string \<Rightarrow> type_error + column_type" where
  "deserialize_type s =
     (if s = ''uint8'' then Inr TUInt8
      else if s = ''uint16'' then Inr TUInt16
      else if s = ''uint32'' then Inr TUInt32
      else if s = ''uint64'' then Inr TUInt64
      else if s = ''int16'' then Inr TInt16
      else if s = ''int32'' then Inr TInt32
      else if s = ''int64'' then Inr TInt64
      else if s = ''float64'' then Inr TFloat64
      else if s = ''boolean'' then Inr TBoolean
      else if s = ''string'' then Inr TString
      else if s = ''timestamp_second'' then Inr TTimestampSecond
      else if s = ''timestamp_millisecond'' then Inr TTimestampMillisecond
      else if s = ''list_uint8'' then Inr TListUInt8
      else if s = ''list_uint32'' then Inr TListUInt32
      else if s = ''list_string'' then Inr TListString
      else if s = ''list_struct'' then Inr TListStruct
      else if s = ''struct'' then Inr TStruct
      else if s = ''decimal128'' then Inr TDecimal128
      else if starts_with s ''fixed_binary_'' then
        (case parse_usize (drop 13 s) of
           None \<Rightarrow> Inl (InvalidFixedBinarySize s)
         | Some n \<Rightarrow> Inr (TFixedBinary n))
      else Inl (UnknownColumnType s))"

datatype json_encoding =
    HexBytes | Base58 | DecimalString | JsonVerbatim | HexNumber | SolanaTxVersion
  | EncTimestampMillisecond

datatype weight_source = WColumn string | WFixed nat

datatype member_description = Member "json_encoding option" "(string \<times> member_description) list option"

record column_description =
  c_data_type :: column_type
  c_encoding :: "json_encoding option"
  c_weight :: "weight_source option"
  c_system :: bool
  c_fold_case :: bool
  c_members :: "(string, member_description) omap option"

definition folds_case :: "column_description \<Rightarrow> bool" where
  "folds_case c = (c_fold_case c \<or> c_encoding c = Some HexBytes)"


section \<open>The request surface\<close>

datatype relation_kind = Join | Children | Parents

record relation_def =
  r_table :: string
  r_kind :: relation_kind
  r_key :: "string list"
  r_left_key :: "string list"
  r_right_key :: "string list"

definition effective_left_key :: "relation_def \<Rightarrow> string list" where
  "effective_left_key r = (if r_left_key r \<noteq> [] then r_left_key r else r_key r)"

definition effective_right_key :: "relation_def \<Rightarrow> string list" where
  "effective_right_key r = (if r_right_key r \<noteq> [] then r_right_key r else r_key r)"

definition reserved_request_keys :: "string list" where
  "reserved_request_keys =
     [''type'', ''fromBlock'', ''toBlock'', ''includeAllBlocks'', ''fields'', ''parentBlockHash'', ''sets'']"

definition max_discriminator_bytes :: nat where
  "max_discriminator_bytes = 16"

datatype special_filter =
    SDiscriminator "(string, string) omap"
  | SBloom string nat nat
  | SRangeGte string
  | SRangeLte string
  | SColumnAlias string
  | SGteConst string string

record request_surface =
  q_name :: "string option"
  q_filters :: "string list"
  q_special_filters :: "(string, special_filter) omap"
  q_relations :: "(string, relation_def) omap"

definition empty_request_surface :: request_surface where
  "empty_request_surface =
     \<lparr>q_name = None, q_filters = [], q_special_filters = [], q_relations = []\<rparr>"

record alias_description =
  a_table :: string
  a_implicit_filters :: "(string, string list) omap"
  a_filters :: "string list"
  a_special_filters :: "(string, special_filter) omap"
  a_relations :: "(string, relation_def) omap"


section \<open>The output surface\<close>

record field_mapping =
  m_column :: string
  m_field_key :: "string option"
  m_json_name :: string

definition mapping_field :: "field_mapping \<Rightarrow> string" where
  "mapping_field m = (case m_field_key m of Some k \<Rightarrow> k | None \<Rightarrow> m_column m)"

datatype field_reading = FColumn string | FRoll "string list"

fun source_columns :: "field_reading \<Rightarrow> string list" where
  "source_columns (FColumn c) = [c]"
| "source_columns (FRoll cs) = cs"

datatype virtual_field = Roll "string list"

type_synonym variant_groups = "(string, field_mapping list) omap"

record output_surface =
  o_name :: "string option"
  o_fields :: "string list"
  o_virtual_fields :: "(string, virtual_field) omap"
  o_variant_column :: "string option"
  o_variants :: "(string, variant_groups) omap"


section \<open>Tables and datasets\<close>

record table_description =
  t_request_surface :: "request_surface option"
  t_output :: output_surface
  t_block_number_column :: string
  t_parent_hash_column :: "string option"
  t_parent_number_column :: "string option"
  t_address_column :: "string option"
  t_item_order_keys :: "string list"
  t_declared_weight_key :: "string list option"
  t_sort_key :: "string list"
  t_columns :: "(string, column_description) omap"

definition default_block_number_column :: string where
  "default_block_number_column = ''block_number''"

definition request :: "table_description \<Rightarrow> request_surface" where
  "request t = (case t_request_surface t of Some r \<Rightarrow> r | None \<Rightarrow> empty_request_surface)"

definition request_name :: "table_description \<Rightarrow> string \<Rightarrow> string" where
  "request_name t key = (case q_name (request t) of Some n \<Rightarrow> n | None \<Rightarrow> key)"

definition table_mappings :: "table_description \<Rightarrow> field_mapping list" where
  "table_mappings t = concat (concat (map (\<lambda>(_, groups). map snd groups) (o_variants (t_output t))))"

definition variant_source :: "table_description \<Rightarrow> string \<Rightarrow> string option" where
  "variant_source t field = map_option m_column (find (\<lambda>m. mapping_field m = field) (table_mappings t))"

definition field_source :: "table_description \<Rightarrow> string \<Rightarrow> field_reading option" where
  "field_source t field =
     (case map_of (o_virtual_fields (t_output t)) field of
        Some (Roll cs) \<Rightarrow> Some (FRoll cs)
      | None \<Rightarrow>
          if contains_key (t_columns t) field then Some (FColumn field)
          else map_option FColumn (variant_source t field))"

definition field_columns :: "table_description \<Rightarrow> string \<Rightarrow> string list" where
  "field_columns t field = (case field_source t field of None \<Rightarrow> [] | Some s \<Rightarrow> source_columns s)"

definition is_selectable_field :: "table_description \<Rightarrow> string \<Rightarrow> bool" where
  "is_selectable_field t name = list_ex (\<lambda>f. f = name) (o_fields (t_output t))"

definition is_block_table :: "table_description \<Rightarrow> bool" where
  "is_block_table t = (t_item_order_keys t = [] \<and> t_address_column t = None)"

definition opt_list :: "'a option \<Rightarrow> 'a list" where
  "opt_list x = (case x of None \<Rightarrow> [] | Some y \<Rightarrow> [y])"

definition weight_key :: "table_description \<Rightarrow> string list" where
  "weight_key t =
     (case t_declared_weight_key t of
        Some declared \<Rightarrow> declared
      | None \<Rightarrow> [t_block_number_column t] @ t_item_order_keys t @ opt_list (t_address_column t)
                 @ opt_list (o_variant_column (t_output t)))"

definition column :: "table_description \<Rightarrow> string \<Rightarrow> column_description option" where
  "column t = map_of (t_columns t)"

definition schema_version :: string where
  "schema_version = ''v2''"

record dataset_description =
  d_version :: string
  d_name :: string
  d_tables :: "(string, table_description) omap"
  d_aliases :: "(string, alias_description) omap"

definition table :: "dataset_description \<Rightarrow> string \<Rightarrow> table_description option" where
  "table d = map_of (d_tables d)"


section \<open>Facts\<close>

lemma opt_list_simps [simp]: "opt_list None = []" "opt_list (Some x) = [x]"
  by (simp_all add: opt_list_def)

lemma set_opt_list: "x \<in> set (opt_list y) \<longleftrightarrow> y = Some x"
  by (cases y) auto

lemma variant_source_None: "variant_source t f = None \<longleftrightarrow> (\<forall>m \<in> set (table_mappings t). mapping_field m \<noteq> f)"
  by (auto simp: variant_source_def find_None_iff)

lemma variant_source_Some:
  "variant_source t f = Some c \<Longrightarrow> \<exists>m \<in> set (table_mappings t). mapping_field m = f \<and> m_column m = c"
  by (auto simp: variant_source_def find_Some_iff)

lemma serialize_type_fixed_binary:
  "serialize_type t = serialize_type (TFixedBinary n) \<Longrightarrow> t = TFixedBinary n"
  by (cases t) auto


section \<open>Properties\<close>

text \<open>
  C1: Reading back the catalog spelling of a column type gives the same type; a fixed-size binary has
  a size that fits the 64-bit \<open>usize\<close> it is stored in.
\<close>

theorem column_type_round_trip:
  assumes "\<And>n. t = TFixedBinary n \<Longrightarrow> n < 2 ^ 64"
  shows "deserialize_type (serialize_type t) = Inr t"
  using assms by (cases t) (simp_all add: deserialize_type_def starts_with_def)

theorem column_type_round_trip_witness:
  "deserialize_type (serialize_type (TFixedBinary 64)) = Inr (TFixedBinary 64)"
  by (rule column_type_round_trip) simp

end
