(* ===== verification/Sample.thy ===== *)
theory Sample
  imports Metadata
begin

text \<open>
  A small catalog in the shape of the repository's own (blocks, transactions and logs with a roll, a
  weighed column, a system column, a join and an alias), on which the witnesses evaluate the model.
\<close>

definition plain_column :: "column_type \<Rightarrow> column_description" where
  "plain_column ty = \<lparr>c_data_type = ty, c_encoding = None, c_weight = None, c_system = False,
     c_fold_case = False, c_members = None\<rparr>"

definition no_variants :: "string option \<Rightarrow> string list \<Rightarrow> (string, virtual_field) omap \<Rightarrow> output_surface" where
  "no_variants nm fs virtual =
     \<lparr>o_name = nm, o_fields = fs, o_virtual_fields = virtual, o_variant_column = None, o_variants = []\<rparr>"

definition sample_blocks :: table_description where
  "sample_blocks =
     \<lparr>t_request_surface = None,
      t_output = no_variants (Some ''block'') [''number'', ''hash''] [],
      t_block_number_column = ''number'',
      t_parent_hash_column = Some ''parent_hash'',
      t_parent_number_column = None,
      t_address_column = None,
      t_item_order_keys = [],
      t_declared_weight_key = None,
      t_sort_key = [''number''],
      t_columns = [(''number'', plain_column TUInt64), (''hash'', plain_column TString),
                   (''parent_hash'', plain_column TString)]\<rparr>"

definition sample_transactions :: table_description where
  "sample_transactions =
     \<lparr>t_request_surface = Some \<lparr>q_name = None, q_filters = [''from''], q_special_filters = [], q_relations = []\<rparr>,
      t_output = no_variants (Some ''transaction'') [''transaction_index'', ''from''] [],
      t_block_number_column = ''block_number'',
      t_parent_hash_column = None,
      t_parent_number_column = None,
      t_address_column = None,
      t_item_order_keys = [''transaction_index''],
      t_declared_weight_key = None,
      t_sort_key = [''block_number'', ''transaction_index''],
      t_columns = [(''block_number'', plain_column TUInt64), (''transaction_index'', plain_column TUInt32),
                   (''from'', plain_column TString)]\<rparr>"

definition sample_logs :: table_description where
  "sample_logs =
     \<lparr>t_request_surface = Some
        \<lparr>q_name = None, q_filters = [''address'', ''first_topic''],
         q_special_filters = [(''first_topic'', SColumnAlias ''topic0'')],
         q_relations = [(''transaction'',
            \<lparr>r_table = ''transactions'', r_kind = Join, r_key = [''block_number'', ''transaction_index''],
             r_left_key = [], r_right_key = []\<rparr>)]\<rparr>,
      t_output = no_variants (Some ''log'') [''address'', ''topics'', ''data'']
        [(''topics'', Roll [''topic0'', ''topic1''])],
      t_block_number_column = ''block_number'',
      t_parent_hash_column = None,
      t_parent_number_column = None,
      t_address_column = None,
      t_item_order_keys = [''transaction_index'', ''log_index''],
      t_declared_weight_key = None,
      t_sort_key = [''address'', ''block_number''],
      t_columns = [(''block_number'', plain_column TUInt64), (''transaction_index'', plain_column TUInt32),
                   (''log_index'', plain_column TUInt32),
                   (''address'', plain_column TString \<lparr>c_encoding := Some HexBytes\<rparr>),
                   (''topic0'', plain_column TString), (''topic1'', plain_column TString),
                   (''data'', plain_column TString \<lparr>c_weight := Some (WColumn ''data_size'')\<rparr>),
                   (''data_size'', plain_column TUInt64 \<lparr>c_system := True\<rparr>)]\<rparr>"

definition sample_catalog :: dataset_description where
  "sample_catalog =
     \<lparr>d_version = ''v2'',
      d_name = ''sample'',
      d_tables = [(''blocks'', sample_blocks), (''transactions'', sample_transactions), (''logs'', sample_logs)],
      d_aliases = [(''tokenLogs'',
        \<lparr>a_table = ''logs'', a_implicit_filters = [(''topic0'', [''0xdd''])], a_filters = [''address''],
         a_special_filters = [], a_relations = []\<rparr>)]\<rparr>"

end
