(* ===== verification/Loader.thy ===== *)
theory Loader
  imports Sample
begin

text \<open>
  The checks a catalog passes before the engine reads it, \<^verbatim>\<open>crates/metadata/src/loader.rs\<close>: the
  definitions follow \<open>validate\<close> and its helpers check by check, in the source's order, with one error
  per \<open>ensure!\<close> or \<open>bail!\<close> (the message reduced to the names it is about). The YAML reading itself is
  left out. The lemmas turn an accepted catalog into the facts the engine relies on: one block table,
  unambiguous request names, fields that read existing public columns in one way, relations whose
  keys pair up and stay within a block.
\<close>

section \<open>Errors\<close>

text \<open>One constructor per check, grouped by what the check is about; the owner is a table or an alias.\<close>

datatype column_error =
    BlockNumberColumnMissing
  | ItemOrderKeyMissing string
  | WeightKeyMissing string
  | WeightKeyWeighedBySize string
  | WeightKeyIsSystem string
  | SortKeyMissing string
  | WeightColumnMissing string
  | MembersOnNonStruct string
  | HexNumberNotUnsigned string
  | NoRequestBlock
  | AddressColumnMissing
  | ForkColumnMissing string

datatype filter_error =
    FilterColumnMissing string
  | FilterIsSystemColumn string
  | SpecialFilterUnlisted string
  | SpecialFilterColumnMissing string
  | BloomNotFixedBinary string
  | BloomWidthDiffers string
  | DiscriminatorLength string
  | AliasFilterNotRename string
  | AliasColumnMissing string
  | ImplicitColumnMissing string

datatype field_error =
    NoOutputFields
  | FieldNamesNothing string
  | FieldSourceMissing string string
  | FieldSourceIsSystem string string
  | RollColumnMissing string
  | VirtualFieldSharesName string
  | RollListNotLast string

datatype variant_error =
    VariantsWithoutColumn
  | VariantColumnMissing
  | VariantColumnUnknown string
  | VariantMapsIdentity string
  | VariantKeyIsColumn string
  | VariantKeyReadsTwo string
  | VariantRendersTwice string
  | BlockTableHasVariants

datatype relation_error =
    RelationTargetMissing
  | RelationWithoutKey
  | RelationKeyLengths
  | RelationKeyMissing
  | RelationAcrossBlocks
  | RelationWithoutAddress
  | RelationGroupsDiffer

datatype load_error =
    UnsupportedVersion string
  | ColumnError string column_error
  | FilterError string filter_error
  | FieldError string field_error
  | VariantError string variant_error
  | RelationError string string relation_error
  | AliasTableMissing string
  | BlockTableCount string
  | BlockTableNotFirst string
  | NameClaimedTwice string
  | CatalogPanic


section \<open>Checks of one table\<close>

definition has_column :: "table_description \<Rightarrow> string \<Rightarrow> bool" where
  "has_column t c = contains_key (t_columns t) c"

definition check_item_key :: "string \<Rightarrow> table_description \<Rightarrow> load_error + unit" where
  "check_item_key name t =
     and_then (ensure (has_column t (t_block_number_column t)) (ColumnError name BlockNumberColumnMissing)) (\<lambda>_.
     and_then (try_for_each (\<lambda>k. ensure (has_column t k) (ColumnError name (ItemOrderKeyMissing k)))
       (t_item_order_keys t)) (\<lambda>_.
     try_for_each (\<lambda>k. ensure (has_column t k) (ColumnError name (WeightKeyMissing k)))
       (concat (opt_list (t_declared_weight_key t)))))"

definition check_weight_key :: "string \<Rightarrow> table_description \<Rightarrow> string \<Rightarrow> load_error + unit" where
  "check_weight_key name t key =
     (case column t key of
        None \<Rightarrow> Inr ()
      | Some c \<Rightarrow>
          (case c_weight c of
             Some (WColumn _) \<Rightarrow> Inl (ColumnError name (WeightKeyWeighedBySize key))
           | _ \<Rightarrow> ensure (\<not> c_system c) (ColumnError name (WeightKeyIsSystem key))))"

definition check_sort_key :: "string \<Rightarrow> table_description \<Rightarrow> load_error + unit" where
  "check_sort_key name t =
     try_for_each (\<lambda>k. ensure (has_column t k) (ColumnError name (SortKeyMissing k))) (t_sort_key t)"

definition check_weights :: "string \<Rightarrow> table_description \<Rightarrow> load_error + unit" where
  "check_weights name t =
     try_for_each (\<lambda>(col, c). case c_weight c of
         Some (WColumn w) \<Rightarrow> ensure (has_column t w) (ColumnError name (WeightColumnMissing col))
       | _ \<Rightarrow> Inr ()) (t_columns t)"

definition check_members :: "string \<Rightarrow> table_description \<Rightarrow> load_error + unit" where
  "check_members name t =
     try_for_each (\<lambda>(col, c).
       if c_members c \<noteq> None
       then ensure (c_data_type c \<in> {TStruct, TListStruct}) (ColumnError name (MembersOnNonStruct col))
       else Inr ()) (t_columns t)"

definition check_hex_numbers :: "string \<Rightarrow> table_description \<Rightarrow> load_error + unit" where
  "check_hex_numbers name t =
     try_for_each (\<lambda>(col, c).
       if c_encoding c = Some HexNumber
       then ensure (c_data_type c \<in> {TUInt8, TUInt16, TUInt32, TUInt64}) (ColumnError name (HexNumberNotUnsigned col))
       else Inr ()) (t_columns t)"

definition check_filter_surface ::
    "string \<Rightarrow> string list \<Rightarrow> string list \<Rightarrow> table_description \<Rightarrow> load_error + unit" where
  "check_filter_surface owner filters special t =
     try_for_each (\<lambda>f.
       if f \<in> set special then Inr ()
       else and_then (ok_or (FilterError owner (FilterColumnMissing f)) (column t f)) (\<lambda>c.
         ensure (\<not> c_system c) (FilterError owner (FilterIsSystemColumn f)))) filters"

definition check_public_field_source ::
    "string \<Rightarrow> string \<Rightarrow> string \<Rightarrow> table_description \<Rightarrow> load_error + unit" where
  "check_public_field_source name field physical t =
     and_then (ok_or (FieldError name (FieldSourceMissing field physical)) (column t physical)) (\<lambda>c.
     ensure (\<not> c_system c) (FieldError name (FieldSourceIsSystem field physical)))"

definition check_field_surface :: "string \<Rightarrow> table_description \<Rightarrow> load_error + unit" where
  "check_field_surface name t =
     and_then (ensure (o_name (t_output t) = None \<or> o_fields (t_output t) \<noteq> []) (FieldError name NoOutputFields)) (\<lambda>_.
     try_for_each (\<lambda>field.
       and_then (ok_or (FieldError name (FieldNamesNothing field)) (field_source t field)) (\<lambda>source.
       try_for_each (\<lambda>physical. check_public_field_source name field physical t)
         (source_columns source))) (o_fields (t_output t)))"

fun special_columns :: "special_filter \<Rightarrow> string list" where
  "special_columns (SDiscriminator by_length) = map snd by_length"
| "special_columns (SBloom c _ _) = [c]"
| "special_columns (SRangeGte c) = [c]"
| "special_columns (SRangeLte c) = [c]"
| "special_columns (SColumnAlias c) = [c]"
| "special_columns (SGteConst c _) = [c]"

definition check_length_key :: "string \<Rightarrow> string \<Rightarrow> string \<Rightarrow> load_error + unit" where
  "check_length_key name filter_name length_key =
     ensure (case parse_usize length_key of
         None \<Rightarrow> False
       | Some n \<Rightarrow> 1 \<le> n \<and> n \<le> max_discriminator_bytes \<and> show_nat n = length_key)
       (FilterError name (DiscriminatorLength filter_name))"

definition check_special_filter ::
    "string \<Rightarrow> table_description \<Rightarrow> string \<Rightarrow> special_filter \<Rightarrow> load_error + unit" where
  "check_special_filter name t filter_name special =
     and_then (ensure (filter_name \<in> set (q_filters (request t))) (FilterError name (SpecialFilterUnlisted filter_name))) (\<lambda>_.
     and_then (try_for_each (\<lambda>c. ensure (has_column t c) (FilterError name (SpecialFilterColumnMissing filter_name)))
       (special_columns special)) (\<lambda>_.
     and_then (case special of
         SBloom c bytes hashes \<Rightarrow>
           (case column t c of
              None \<Rightarrow> Inl CatalogPanic
            | Some col \<Rightarrow>
                (case c_data_type col of
                   TFixedBinary width \<Rightarrow> ensure (width = bytes) (FilterError name (BloomWidthDiffers filter_name))
                 | _ \<Rightarrow> Inl (FilterError name (BloomNotFixedBinary filter_name))))
       | _ \<Rightarrow> Inr ()) (\<lambda>_.
     case special of
         SDiscriminator by_length \<Rightarrow> try_for_each (check_length_key name filter_name) (keys by_length)
       | _ \<Rightarrow> Inr ())))"

definition check_virtual_field ::
    "string \<Rightarrow> table_description \<Rightarrow> string \<Rightarrow> virtual_field \<Rightarrow> load_error + unit" where
  "check_virtual_field name t field vf = (case vf of Roll cs \<Rightarrow>
     and_then (try_for_each (\<lambda>c. ensure (has_column t c) (FieldError name (RollColumnMissing field))) cs) (\<lambda>_.
     and_then (ensure (\<not> (has_column t field \<or> variant_source t field \<noteq> None))
       (FieldError name (VirtualFieldSharesName field))) (\<lambda>_.
     try_for_each (\<lambda>c.
       ensure (\<not> (case column t c of None \<Rightarrow> False | Some d \<Rightarrow> is_list (c_data_type d)))
         (FieldError name (RollListNotLast field))) (butlast cs))))"

text \<open>
  The two hash maps of \<open>check_variant_mappings\<close>: the column each field key reads, across all
  variants, and the names rendered so far in the current group.
\<close>

definition check_mapping ::
    "string \<Rightarrow> table_description \<Rightarrow> string list \<Rightarrow> field_mapping \<Rightarrow>
     (string, string) omap \<times> (string, string) omap \<Rightarrow>
     load_error + (string, string) omap \<times> (string, string) omap" where
  "check_mapping name t identity m maps = (case maps of (source_of, rendered) \<Rightarrow>
     and_then (ensure (has_column t (m_column m)) (VariantError name (VariantColumnUnknown (m_column m)))) (\<lambda>_.
     let field = mapping_field m in
     and_then (ensure (field \<notin> set identity) (VariantError name (VariantMapsIdentity field))) (\<lambda>_.
     and_then (ensure (field = m_column m \<or> \<not> has_column t field) (VariantError name (VariantKeyIsColumn field))) (\<lambda>_.
     and_then (case map_of source_of field of
         Some other \<Rightarrow> ensure (other = m_column m) (VariantError name (VariantKeyReadsTwo field))
       | None \<Rightarrow> Inr ()) (\<lambda>_.
     and_then (ensure (map_of rendered (m_json_name m) = None) (VariantError name (VariantRendersTwice field))) (\<lambda>_.
     Inr (omap_insert field (m_column m) source_of, omap_insert (m_json_name m) field rendered)))))))"

definition check_group ::
    "string \<Rightarrow> table_description \<Rightarrow> string list \<Rightarrow> field_mapping list \<Rightarrow>
     (string, string) omap \<Rightarrow> load_error + (string, string) omap" where
  "check_group name t identity mappings source_of =
     and_then (try_fold (check_mapping name t identity) mappings (source_of, [])) (\<lambda>r. Inr (fst r))"

definition variant_identity :: "table_description \<Rightarrow> string list" where
  "variant_identity t =
     [t_block_number_column t] @ t_item_order_keys t @ opt_list (t_address_column t)
       @ opt_list (o_variant_column (t_output t))"

definition check_variant_mappings :: "string \<Rightarrow> table_description \<Rightarrow> load_error + unit" where
  "check_variant_mappings name t =
     and_then (try_fold (\<lambda>(_, groups). try_fold (\<lambda>(_, ms). check_group name t (variant_identity t) ms) groups)
       (o_variants (t_output t)) []) (\<lambda>_. Inr ())"

definition check_variants :: "string \<Rightarrow> table_description \<Rightarrow> load_error + unit" where
  "check_variants name t =
     (let output = t_output t; dispatches = (o_variant_column output \<noteq> None) in
      and_then (ensure (dispatches = (o_variants output \<noteq> [])) (VariantError name VariantsWithoutColumn)) (\<lambda>_.
      and_then (case o_variant_column output of
          Some c \<Rightarrow> ensure (has_column t c) (VariantError name VariantColumnMissing)
        | None \<Rightarrow> Inr ()) (\<lambda>_.
      and_then (check_variant_mappings name t) (\<lambda>_.
      ensure (\<not> (dispatches \<and> is_block_table t)) (VariantError name BlockTableHasVariants)))))"


section \<open>Relations\<close>

definition relation_group :: "table_description \<Rightarrow> string list \<Rightarrow> string list" where
  "relation_group target ks = filter (\<lambda>k. Some k \<noteq> t_address_column target) ks"

definition check_relation_side ::
    "string \<Rightarrow> string \<Rightarrow> string list \<times> table_description \<Rightarrow> load_error + unit" where
  "check_relation_side owner relation_name side = (case side of (ks, t) \<Rightarrow>
     and_then (try_for_each (\<lambda>k. ensure (has_column t k) (RelationError owner relation_name RelationKeyMissing)) ks) (\<lambda>_.
     ensure (get ks 0 = Some (t_block_number_column t)) (RelationError owner relation_name RelationAcrossBlocks)))"

definition check_relation ::
    "string \<Rightarrow> string \<Rightarrow> relation_def \<Rightarrow> table_description \<Rightarrow> dataset_description \<Rightarrow> load_error + unit" where
  "check_relation owner relation_name relation source d =
     and_then (ok_or (RelationError owner relation_name RelationTargetMissing) (table d (r_table relation))) (\<lambda>target.
     let left = effective_left_key relation; right = effective_right_key relation in
     and_then (ensure (left \<noteq> [] \<and> right \<noteq> []) (RelationError owner relation_name RelationWithoutKey)) (\<lambda>_.
     and_then (ensure (length left = length right) (RelationError owner relation_name RelationKeyLengths)) (\<lambda>_.
     and_then (try_for_each (check_relation_side owner relation_name) [(left, source), (right, target)]) (\<lambda>_.
     if r_kind relation \<in> {Children, Parents} then
       and_then (try_for_each (\<lambda>t. ensure (t_address_column t \<noteq> None) (RelationError owner relation_name RelationWithoutAddress))
         [source, target]) (\<lambda>_.
       ensure (relation_group target left = relation_group target right)
         (RelationError owner relation_name RelationGroupsDiffer))
     else Inr ()))))"

definition check_fork_columns :: "string \<Rightarrow> table_description \<Rightarrow> load_error + unit" where
  "check_fork_columns name t =
     try_for_each (\<lambda>(label, col). case col of
         Some c \<Rightarrow> ensure (has_column t c) (ColumnError name (ForkColumnMissing label))
       | None \<Rightarrow> Inr ())
       [(''parent_hash_column'', t_parent_hash_column t),
        (''parent_number_column'', t_parent_number_column t)]"


section \<open>The whole catalog\<close>

definition check_table :: "dataset_description \<Rightarrow> string \<times> table_description \<Rightarrow> load_error + unit" where
  "check_table d entry = (case entry of (name, t) \<Rightarrow>
     and_then (check_item_key name t) (\<lambda>_.
     and_then (try_for_each (check_weight_key name t) (weight_key t)) (\<lambda>_.
     and_then (check_sort_key name t) (\<lambda>_.
     and_then (check_weights name t) (\<lambda>_.
     and_then (check_members name t) (\<lambda>_.
     and_then (check_hex_numbers name t) (\<lambda>_.
     and_then (ensure (is_block_table t \<or> t_request_surface t \<noteq> None) (ColumnError name NoRequestBlock)) (\<lambda>_.
     and_then (check_filter_surface name (q_filters (request t)) (keys (q_special_filters (request t))) t) (\<lambda>_.
     and_then (check_field_surface name t) (\<lambda>_.
     and_then (try_for_each (\<lambda>(f, special). check_special_filter name t f special)
       (q_special_filters (request t))) (\<lambda>_.
     and_then (case t_address_column t of
         Some c \<Rightarrow> ensure (has_column t c) (ColumnError name AddressColumnMissing)
       | None \<Rightarrow> Inr ()) (\<lambda>_.
     and_then (try_for_each (\<lambda>(f, vf). check_virtual_field name t f vf)
       (o_virtual_fields (t_output t))) (\<lambda>_.
     and_then (check_variants name t) (\<lambda>_.
     and_then (try_for_each (\<lambda>(r, rel). check_relation name r rel t d) (q_relations (request t))) (\<lambda>_.
     check_fork_columns name t)))))))))))))))"

definition check_alias_filter ::
    "string \<Rightarrow> alias_description \<Rightarrow> table_description \<Rightarrow> string \<times> special_filter \<Rightarrow> load_error + unit" where
  "check_alias_filter name a t entry = (case entry of (key, special) \<Rightarrow>
     and_then (ensure (key \<in> set (a_filters a)) (FilterError name (SpecialFilterUnlisted key))) (\<lambda>_.
     case special of
       SColumnAlias c \<Rightarrow> ensure (has_column t c) (FilterError name (AliasColumnMissing key))
     | _ \<Rightarrow> Inl (FilterError name (AliasFilterNotRename key))))"

definition check_alias :: "dataset_description \<Rightarrow> string \<times> alias_description \<Rightarrow> load_error + unit" where
  "check_alias d entry = (case entry of (name, a) \<Rightarrow>
     and_then (ok_or (AliasTableMissing name) (table d (a_table a))) (\<lambda>t.
     and_then (check_filter_surface name (a_filters a)
       (keys (a_special_filters a) @ keys (q_special_filters (request t))) t) (\<lambda>_.
     and_then (try_for_each (check_alias_filter name a t) (a_special_filters a)) (\<lambda>_.
     and_then (try_for_each (\<lambda>c. ensure (has_column t c) (FilterError name (ImplicitColumnMissing c)))
       (keys (a_implicit_filters a))) (\<lambda>_.
     try_for_each (\<lambda>(r, rel). check_relation name r rel t d) (a_relations a))))))"

definition check_block_table :: "dataset_description \<Rightarrow> load_error + unit" where
  "check_block_table d =
     (let block_tables = map fst (filter (\<lambda>(_, t). is_block_table t) (d_tables d)) in
      and_then (ensure (length block_tables = 1) (BlockTableCount (d_name d))) (\<lambda>_.
      ensure (get (keys (d_tables d)) 0 = Some (block_tables ! 0)) (BlockTableNotFirst (d_name d))))"

definition claim :: "string \<Rightarrow> string \<Rightarrow> (string, string) omap \<Rightarrow> load_error + (string, string) omap" where
  "claim name owner seen =
     (case map_of seen name of
        Some _ \<Rightarrow> Inl (NameClaimedTwice name)
      | None \<Rightarrow> Inr (omap_insert name owner seen))"

definition claim_table ::
    "string \<times> table_description \<Rightarrow> (string, string) omap \<times> (string, string) omap \<Rightarrow>
     load_error + (string, string) omap \<times> (string, string) omap" where
  "claim_table entry names = (case (entry, names) of ((name, t), (request_names, output_names)) \<Rightarrow>
     and_then (claim (request_name t name) name request_names) (\<lambda>rs.
     case o_name (t_output t) of
       None \<Rightarrow> Inr (rs, output_names)
     | Some n \<Rightarrow> and_then (claim n name output_names) (\<lambda>os. Inr (rs, os))))"

definition check_names_are_unique :: "dataset_description \<Rightarrow> load_error + unit" where
  "check_names_are_unique d =
     and_then (try_fold claim_table (d_tables d)
       (map (\<lambda>k. (k, ''a reserved key of every request'')) reserved_request_keys, [])) (\<lambda>names.
     and_then (try_fold (\<lambda>a. claim a a) (keys (d_aliases d)) (fst names)) (\<lambda>_. Inr ()))"

definition validate :: "dataset_description \<Rightarrow> load_error + unit" where
  "validate d =
     and_then (ensure (d_version d = schema_version) (UnsupportedVersion (d_version d))) (\<lambda>_.
     and_then (try_for_each (check_table d) (d_tables d)) (\<lambda>_.
     and_then (try_for_each (check_alias d) (d_aliases d)) (\<lambda>_.
     and_then (check_block_table d) (\<lambda>_.
     check_names_are_unique d))))"


section \<open>What an accepted catalog promises\<close>

definition relation_ok :: "dataset_description \<Rightarrow> table_description \<Rightarrow> relation_def \<Rightarrow> bool" where
  "relation_ok d source r =
     (case table d (r_table r) of
        None \<Rightarrow> False
      | Some target \<Rightarrow>
          effective_left_key r \<noteq> [] \<and>
          length (effective_left_key r) = length (effective_right_key r) \<and>
          hd (effective_left_key r) = t_block_number_column source \<and>
          hd (effective_right_key r) = t_block_number_column target \<and>
          list_all (has_column source) (effective_left_key r) \<and>
          list_all (has_column target) (effective_right_key r) \<and>
          (r_kind r \<noteq> Join \<longrightarrow>
             t_address_column source \<noteq> None \<and> t_address_column target \<noteq> None \<and>
             relation_group target (effective_left_key r) = relation_group target (effective_right_key r)))"

text \<open>Every answer any of the three lookups of \<^const>\<open>field_source\<close> could give for a name.\<close>

definition field_answers :: "table_description \<Rightarrow> string \<Rightarrow> field_reading set" where
  "field_answers t f =
     {FRoll cs |cs. map_of (o_virtual_fields (t_output t)) f = Some (Roll cs)} \<union>
     (if has_column t f then {FColumn f} else {}) \<union>
     {FColumn (m_column m) |m. m \<in> set (table_mappings t) \<and> mapping_field m = f}"

definition public_column :: "table_description \<Rightarrow> string \<Rightarrow> bool" where
  "public_column t c = (case column t c of None \<Rightarrow> False | Some d \<Rightarrow> \<not> c_system d)"

definition fixed_weight :: "table_description \<Rightarrow> string \<Rightarrow> bool" where
  "fixed_weight t c = (case column t c of
     None \<Rightarrow> False
   | Some d \<Rightarrow> \<not> c_system d \<and> (case c_weight d of Some (WColumn _) \<Rightarrow> False | _ \<Rightarrow> True))"

definition request_names :: "dataset_description \<Rightarrow> string list" where
  "request_names d = map (\<lambda>(n, t). request_name t n) (d_tables d) @ keys (d_aliases d)"


section \<open>Facts\<close>

lemma column_Some_iff: "(\<exists>c. column t k = Some c) \<longleftrightarrow> has_column t k"
  by (auto simp: column_def has_column_def keys_def map_of_eq_None_iff
      simp flip: not_None_eq dest: map_of_SomeD)

lemma try_for_each_unit [simp]: "(try_for_each f xs = Inr ()) \<longleftrightarrow> (\<forall>x \<in> set xs. f x = Inr ())"
  by (simp add: try_for_each_Inr_iff)

lemma and_then_unit: "(and_then r (\<lambda>_. s) = Inr u) \<longleftrightarrow> (\<exists>x. r = Inr x) \<and> s = Inr u"
  by (cases r) simp_all

lemma validate_tables: "validate d = Inr () \<Longrightarrow> e \<in> set (d_tables d) \<Longrightarrow> check_table d e = Inr ()"
  by (auto simp: validate_def and_then_unit)

lemma validate_aliases: "validate d = Inr () \<Longrightarrow> e \<in> set (d_aliases d) \<Longrightarrow> check_alias d e = Inr ()"
  by (auto simp: validate_def and_then_unit)

text \<open>The checks of a table, one fact each.\<close>

lemma check_table_Inr:
  assumes "check_table d (name, t) = Inr ()"
  shows "check_item_key name t = Inr ()"
    and "\<forall>k \<in> set (weight_key t). check_weight_key name t k = Inr ()"
    and "check_field_surface name t = Inr ()"
    and "\<forall>(f, s) \<in> set (q_special_filters (request t)). check_special_filter name t f s = Inr ()"
    and "\<forall>c. t_address_column t = Some c \<longrightarrow> has_column t c"
    and "\<forall>(f, vf) \<in> set (o_virtual_fields (t_output t)). check_virtual_field name t f vf = Inr ()"
    and "check_variants name t = Inr ()"
    and "\<forall>(r, rel) \<in> set (q_relations (request t)). check_relation name r rel t d = Inr ()"
  using assms by (auto simp: check_table_def and_then_unit split: option.splits)

lemma get_0: "get xs 0 = Some x \<longleftrightarrow> xs \<noteq> [] \<and> hd xs = x"
  by (cases xs) (auto simp: get_def)

lemma check_relation_ok:
  assumes "check_relation owner name r source d = Inr ()"
  shows "relation_ok d source r"
proof -
  have kind: "r_kind r \<noteq> Join \<longleftrightarrow> r_kind r \<in> {Children, Parents}"
    by (cases "r_kind r") auto
  from assms show ?thesis
    unfolding relation_ok_def kind
    by (auto simp: check_relation_def check_relation_side_def and_then_Inr_iff Let_def get_0
        list_all_iff split: if_splits)
qed

text \<open>Claims: a fold of \<^const>\<open>claim\<close> succeeds only on new names, and records them.\<close>

lemma claim_Inr:
  "claim n owner seen = Inr seen' \<longleftrightarrow> n \<notin> set (keys seen) \<and> seen' = omap_insert n owner seen"
proof (cases "map_of seen n")
  case None
  then have "n \<notin> set (keys seen)" by (simp add: keys_def map_of_eq_None_iff)
  with None show ?thesis by (auto simp: claim_def)
next
  case (Some v)
  then have "n \<in> set (keys seen)" by (auto simp: keys_def rev_image_eqI dest: map_of_SomeD)
  with Some show ?thesis by (simp add: claim_def)
qed

lemma keys_omap_insert_new: "n \<notin> set (keys m) \<Longrightarrow> keys (omap_insert n v m) = keys m @ [n]"
  by (induction m) (auto simp: keys_def omap_insert_def)

lemma claim_keys:
  "claim n owner seen = Inr seen' \<Longrightarrow> n \<notin> set (keys seen) \<and> keys seen' = keys seen @ [n]"
  by (auto simp: claim_Inr keys_omap_insert_new)

lemma claims_distinct:
  assumes "try_fold (\<lambda>a. claim a a) ns seen = Inr seen'" and "distinct (keys seen)"
  shows "distinct (keys seen @ ns)"
  using assms
proof (induction ns arbitrary: seen)
  case Nil
  then show ?case by simp
next
  case (Cons n ns)
  from Cons.prems(1) obtain s where s: "claim n n seen = Inr s" "try_fold (\<lambda>a. claim a a) ns s = Inr seen'"
    by (auto simp: and_then_Inr_iff)
  with claim_keys [OF s(1)] Cons.prems(2) have "distinct (keys s)" by simp
  with Cons.IH [OF s(2)] claim_keys [OF s(1)] show ?case by auto
qed

lemma claim_tables_distinct:
  assumes "try_fold claim_table ts names = Inr names'" and "distinct (keys (fst names))"
  shows "keys (fst names') = keys (fst names) @ map (\<lambda>(n, t). request_name t n) ts \<and>
     distinct (keys (fst names'))"
  using assms
proof (induction ts arbitrary: names)
  case Nil
  then show ?case by simp
next
  case (Cons e ts)
  obtain n t where e: "e = (n, t)" by (cases e)
  from Cons.prems(1) obtain s where s: "claim_table e names = Inr s" "try_fold claim_table ts s = Inr names'"
    by (auto simp: and_then_Inr_iff)
  then have k: "claim (request_name t n) n (fst names) = Inr (fst s)"
    by (auto simp: claim_table_def e and_then_Inr_iff split: option.splits prod.splits)
  with claim_keys [OF k] Cons.prems(2) have "distinct (keys (fst s))" by simp
  from Cons.IH [OF s(2) this]
  have "keys (fst names') = keys (fst s) @ map (\<lambda>(n, t). request_name t n) ts"
    and d: "distinct (keys (fst names'))" by (rule conjunct1, rule conjunct2)
  with claim_keys [OF k]
  have "keys (fst names') = keys (fst names) @ map (\<lambda>(n, t). request_name t n) (e # ts)"
    by (simp add: e)
  with d show ?case by (rule conjI [rotated])
qed

lemma check_names_distinct:
  assumes "check_names_are_unique d = Inr ()"
  shows "distinct (reserved_request_keys @ request_names d)"
proof -
  let ?r = "map (\<lambda>k. (k, ''a reserved key of every request'')) reserved_request_keys"
  from assms obtain names seen where n: "try_fold claim_table (d_tables d) (?r, []) = Inr names"
    and a: "try_fold (\<lambda>a. claim a a) (keys (d_aliases d)) (fst names) = Inr seen"
    by (auto simp: check_names_are_unique_def and_then_Inr_iff)
  have r: "keys ?r = reserved_request_keys" by (simp add: keys_def comp_def)
  have "distinct (keys (fst (?r, [] :: (string, string) omap)))"
    by (simp only: fst_conv r) (simp add: reserved_request_keys_def)
  with claim_tables_distinct [OF n this]
  have t1: "keys (fst names) = reserved_request_keys @ map (\<lambda>(n, t). request_name t n) (d_tables d)"
    by (simp only: fst_conv r)
  from claim_tables_distinct [OF n] r have "distinct (keys (fst names))"
    by (metis \<open>distinct (keys (fst (?r, [])))\<close>)
  from claims_distinct [OF a this] show ?thesis
    by (simp only: t1 request_names_def append_assoc)
qed

text \<open>Mappings: the map built so far holds every mapping already read.\<close>

definition maps_agree :: "(string, string) omap \<Rightarrow> field_mapping \<Rightarrow> bool" where
  "maps_agree source_of m = (map_of source_of (mapping_field m) = Some (m_column m))"

definition mapping_ok :: "table_description \<Rightarrow> field_mapping \<Rightarrow> bool" where
  "mapping_ok t m = (has_column t (m_column m) \<and> mapping_field m \<notin> set (variant_identity t) \<and>
     (mapping_field m = m_column m \<or> \<not> has_column t (mapping_field m)))"

lemma check_mapping_step:
  assumes "check_mapping name t (variant_identity t) m (so, re) = Inr (so', re')"
  shows "mapping_ok t m \<and> maps_agree so' m \<and> (\<forall>m'. maps_agree so m' \<longrightarrow> maps_agree so' m')"
  using assms
  by (auto simp: check_mapping_def and_then_Inr_iff Let_def mapping_ok_def maps_agree_def
      split: option.splits)

lemma check_mappings_fold:
  assumes "try_fold (check_mapping name t (variant_identity t)) ms (so, re) = Inr (so', re')"
  shows "(\<forall>m \<in> set ms. mapping_ok t m \<and> maps_agree so' m) \<and> (\<forall>m. maps_agree so m \<longrightarrow> maps_agree so' m)"
  using assms
proof (induction ms arbitrary: so re)
  case Nil
  then show ?case by simp
next
  case (Cons m ms)
  from Cons.prems obtain s1 r1 where
    s: "check_mapping name t (variant_identity t) m (so, re) = Inr (s1, r1)"
      "try_fold (check_mapping name t (variant_identity t)) ms (s1, r1) = Inr (so', re')"
    by (auto simp: and_then_Inr_iff)
  from check_mapping_step [OF s(1)] Cons.IH [OF s(2)] show ?case by auto
qed

lemma check_group_fold:
  assumes "check_group name t (variant_identity t) ms so = Inr so'"
  shows "(\<forall>m \<in> set ms. mapping_ok t m \<and> maps_agree so' m) \<and> (\<forall>m. maps_agree so m \<longrightarrow> maps_agree so' m)"
  using assms check_mappings_fold [of name t ms so "[]"]
  by (fastforce simp: check_group_def and_then_Inr_iff)

text \<open>The same statement lifts through a fold over anything that holds mappings.\<close>

lemma agree_fold:
  assumes step: "\<And>x so so'. f x so = Inr so' \<Longrightarrow>
      (\<forall>m \<in> set (ms x). ok_m m \<and> maps_agree so' m) \<and> (\<forall>m. maps_agree so m \<longrightarrow> maps_agree so' m)"
    and "try_fold f xs so = Inr so'"
  shows "(\<forall>m \<in> set (concat (map ms xs)). ok_m m \<and> maps_agree so' m) \<and>
    (\<forall>m. maps_agree so m \<longrightarrow> maps_agree so' m)"
  using assms(2)
proof (induction xs arbitrary: so)
  case Nil
  then show ?case by simp
next
  case (Cons x xs)
  from Cons.prems obtain s1 where s: "f x so = Inr s1" "try_fold f xs s1 = Inr so'"
    by (auto simp: and_then_Inr_iff)
  from step [OF s(1)] Cons.IH [OF s(2)] show ?case by auto
qed

lemma check_variant_mappings_ok:
  assumes "check_variant_mappings name t = Inr ()"
  shows "(\<forall>m \<in> set (table_mappings t). mapping_ok t m) \<and>
    (\<forall>m \<in> set (table_mappings t). \<forall>m' \<in> set (table_mappings t).
       mapping_field m = mapping_field m' \<longrightarrow> m_column m = m_column m')"
proof -
  let ?f = "\<lambda>(_ :: string, ms). check_group name t (variant_identity t) ms"
  let ?g = "\<lambda>(_ :: string, groups). try_fold ?f groups"
  from assms obtain so where so: "try_fold ?g (o_variants (t_output t)) [] = Inr so"
    by (auto simp: check_variant_mappings_def and_then_Inr_iff)
  have inner: "(\<forall>m \<in> set (snd x). mapping_ok t m \<and> maps_agree so' m) \<and>
      (\<forall>m. maps_agree so m \<longrightarrow> maps_agree so' m)" if "?f x so = Inr so'" for x so so'
    using that check_group_fold by (cases x) auto
  have outer: "(\<forall>m \<in> set (concat (map snd (snd x))). mapping_ok t m \<and> maps_agree so' m) \<and>
      (\<forall>m. maps_agree so m \<longrightarrow> maps_agree so' m)" if "?g x so = Inr so'" for x so so'
    using that agree_fold [of ?f snd "mapping_ok t", OF inner] by (cases x) auto
  let ?ms = "\<lambda>x :: string \<times> variant_groups. concat (map snd (snd x))"
  have eq: "set (concat (map ?ms (o_variants (t_output t)))) = set (table_mappings t)"
    by (force simp: table_mappings_def)
  have "(\<forall>m \<in> set (concat (map ?ms (o_variants (t_output t)))). mapping_ok t m \<and> maps_agree so m) \<and>
      (\<forall>m. maps_agree [] m \<longrightarrow> maps_agree so m)"
    by (rule agree_fold [OF _ so]) (rule outer)
  then have "\<forall>m \<in> set (table_mappings t). mapping_ok t m \<and> maps_agree so m"
    unfolding eq by (rule conjunct1)
  then show ?thesis unfolding maps_agree_def by (metis option.inject)
qed


lemma special_filter_names:
  "check_virtual_field name t f (Roll cs) = Inr () \<Longrightarrow> \<not> has_column t f \<and> variant_source t f = None"
  by (auto simp: check_virtual_field_def and_then_unit)

lemma check_variants_ok:
  assumes "check_variants name t = Inr ()"
  shows "check_variant_mappings name t = Inr ()"
    and "\<forall>c. o_variant_column (t_output t) = Some c \<longrightarrow> has_column t c"
    and "o_variant_column (t_output t) \<noteq> None \<longleftrightarrow> o_variants (t_output t) \<noteq> []"
    and "is_block_table t \<Longrightarrow> o_variants (t_output t) = []"
  using assms by (auto simp: check_variants_def and_then_unit Let_def split: option.splits)

lemma field_source_answers:
  assumes v: "\<And>cs. map_of (o_virtual_fields (t_output t)) f = Some (Roll cs) \<Longrightarrow>
      \<not> has_column t f \<and> variant_source t f = None"
    and one: "\<And>m m'. m \<in> set (table_mappings t) \<Longrightarrow> m' \<in> set (table_mappings t) \<Longrightarrow>
      mapping_field m = mapping_field m' \<Longrightarrow> m_column m = m_column m'"
    and own: "\<And>m. m \<in> set (table_mappings t) \<Longrightarrow> mapping_ok t m"
  shows "field_answers t f = set (opt_list (field_source t f))"
proof (cases "map_of (o_virtual_fields (t_output t)) f")
  case (Some vf)
  then obtain cs where cs: "map_of (o_virtual_fields (t_output t)) f = Some (Roll cs)"
    by (cases vf) simp
  with v [OF this] show ?thesis
    by (auto simp: field_answers_def field_source_def variant_source_None)
next
  case None
  show ?thesis
  proof (cases "has_column t f")
    case True
    then have "field_source t f = Some (FColumn f)"
      using None by (simp add: field_source_def has_column_def)
    moreover have "m_column m = f" if "m \<in> set (table_mappings t)" "mapping_field m = f" for m
      using own [OF that(1)] that True by (auto simp: mapping_ok_def)
    ultimately show ?thesis
      using None True by (auto simp: field_answers_def)
  next
    case no_column: False
    show ?thesis
    proof (cases "variant_source t f")
      case no_variant: None
      then have "\<forall>m \<in> set (table_mappings t). mapping_field m \<noteq> f"
        by (simp add: variant_source_None)
      with no_variant None no_column show ?thesis
        by (auto simp: field_answers_def field_source_def has_column_def)
    next
      case (Some c)
      then obtain m where m: "m \<in> set (table_mappings t)" "mapping_field m = f" "m_column m = c"
        using variant_source_Some by blast
      then have "m_column m' = c" if "m' \<in> set (table_mappings t)" "mapping_field m' = f" for m'
        using one that by metis
      with m Some None no_column show ?thesis
        by (auto simp: field_answers_def field_source_def has_column_def)
    qed
  qed
qed

lemma weight_key_fixed:
  assumes "check_table d (name, t) = Inr ()" and "k \<in> set (weight_key t)"
  shows "fixed_weight t k"
proof -
  note c = check_table_Inr [OF assms(1)]
  from c(1) have "has_column t (t_block_number_column t)" "\<forall>k \<in> set (t_item_order_keys t). has_column t k"
    "\<forall>ks. t_declared_weight_key t = Some ks \<longrightarrow> (\<forall>k \<in> set ks. has_column t k)"
    by (auto simp: check_item_key_def and_then_unit)
  with c(5) check_variants_ok(2) [OF c(7)] assms(2) have "has_column t k"
    by (auto simp: weight_key_def set_opt_list split: option.splits)
  then obtain col where "column t k = Some col"
    using column_Some_iff by blast
  with c(2) assms(2) show ?thesis
    by (fastforce simp: check_weight_key_def fixed_weight_def split: option.splits weight_source.splits)
qed

lemma public_field_columns:
  assumes "check_field_surface name t = Inr ()" and "is_selectable_field t f"
  shows "field_source t f \<noteq> None \<and> list_all (public_column t) (field_columns t f)"
  using assms
  by (fastforce simp: check_field_surface_def and_then_Inr_iff is_selectable_field_def list_ex_iff
      list_all_iff check_public_field_source_def public_column_def field_columns_def)


section \<open>Properties\<close>

text \<open>
  C36: In an accepted catalog every relation of every table and of every alias reaches a table of the
  dataset, its key columns pair up one to one and exist on their side, both keys start with the
  side's block number, so a join never crosses a block, and a hierarchical relation has an address on
  both sides and the same remaining key columns.
\<close>

theorem validate_relations:
  assumes "validate d = Inr ()"
  shows "(\<forall>(n, t) \<in> set (d_tables d). \<forall>(r, rel) \<in> set (q_relations (request t)). relation_ok d t rel) \<and>
    (\<forall>(n, a) \<in> set (d_aliases d). \<forall>t. table d (a_table a) = Some t \<longrightarrow>
       (\<forall>(r, rel) \<in> set (a_relations a). relation_ok d t rel))"
proof (rule conjI)
  show "\<forall>(n, t) \<in> set (d_tables d). \<forall>(r, rel) \<in> set (q_relations (request t)). relation_ok d t rel"
    using check_table_Inr(8) [OF validate_tables [OF assms]] check_relation_ok by fast
  show "\<forall>(n, a) \<in> set (d_aliases d). \<forall>t. table d (a_table a) = Some t \<longrightarrow>
       (\<forall>(r, rel) \<in> set (a_relations a). relation_ok d t rel)"
    using validate_aliases [OF assms] check_relation_ok
    by (fastforce simp: check_alias_def and_then_Inr_iff)
qed

theorem validate_relations_witness:
  "relation_ok sample_catalog sample_logs (snd (hd (q_relations (request sample_logs))))"
proof -
  have "validate sample_catalog = Inr ()" by code_simp
  moreover have "(''logs'', sample_logs) \<in> set (d_tables sample_catalog)"
    by (simp add: sample_catalog_def)
  ultimately have "\<forall>(r, rel) \<in> set (q_relations (request sample_logs)). relation_ok sample_catalog sample_logs rel"
    using validate_relations [of sample_catalog] by blast
  then show ?thesis by (simp add: sample_logs_def request_def)
qed

text \<open>
  In an accepted catalog no two tables or aliases answer to one request name, and none of them has
  the name of a reserved key of the request, so which table a request addresses does not depend on the
  order of the catalog.
\<close>

theorem validate_names_unique:
  assumes "validate d = Inr ()"
  shows "distinct (reserved_request_keys @ request_names d)"
  using assms check_names_distinct by (auto simp: validate_def and_then_unit simp del: distinct_append)

theorem validate_names_unique_witness:
  "distinct (reserved_request_keys @ request_names sample_catalog)"
  by (rule validate_names_unique) code_simp

text \<open>
  C1: In an accepted catalog the order of the three lookups behind a field is moot: whatever a virtual
  field, a column or any variant mapping would answer for a name, it is what \<open>field_source\<close> answers.
\<close>

theorem validate_field_source:
  assumes "validate d = Inr ()" and "(n, t) \<in> set (d_tables d)"
  shows "field_answers t f = set (opt_list (field_source t f))"
proof (rule field_source_answers)
  note c = check_table_Inr [OF validate_tables [OF assms]]
  show "\<not> has_column t f \<and> variant_source t f = None"
    if "map_of (o_virtual_fields (t_output t)) f = Some (Roll cs)" for cs
    using c(6) map_of_SomeD [OF that] special_filter_names by fast
  show "m_column m = m_column m'" if "m \<in> set (table_mappings t)" "m' \<in> set (table_mappings t)"
    "mapping_field m = mapping_field m'" for m m'
    using check_variant_mappings_ok [OF check_variants_ok(1) [OF c(7)]] that by blast
  show "mapping_ok t m" if "m \<in> set (table_mappings t)" for m
    using check_variant_mappings_ok [OF check_variants_ok(1) [OF c(7)]] that by blast
qed

theorem validate_field_source_witness:
  "field_answers sample_logs ''topics'' = {FRoll [''topic0'', ''topic1'']}"
proof -
  have "validate sample_catalog = Inr ()" by code_simp
  moreover have "(''logs'', sample_logs) \<in> set (d_tables sample_catalog)"
    by (simp add: sample_catalog_def)
  ultimately have "field_answers sample_logs ''topics'' = set (opt_list (field_source sample_logs ''topics''))"
    by (rule validate_field_source)
  also have "field_source sample_logs ''topics'' = Some (FRoll [''topic0'', ''topic1''])"
    by code_simp
  finally show ?thesis by simp
qed

text \<open>
  C39: In an accepted catalog every field a client may select is answered from existing columns none of
  which is a system column, and every column that is charged in every row exists, is public and weighs
  a fixed amount.
\<close>

theorem validate_columns_public:
  assumes "validate d = Inr ()" and "(n, t) \<in> set (d_tables d)"
  shows "(is_selectable_field t f \<longrightarrow> field_source t f \<noteq> None \<and> list_all (public_column t) (field_columns t f)) \<and>
    list_all (fixed_weight t) (weight_key t)"
proof -
  note c = check_table_Inr [OF validate_tables [OF assms]]
  from public_field_columns [OF c(3)] weight_key_fixed [OF validate_tables [OF assms]] show ?thesis
    by (auto simp: list_all_iff)
qed

theorem validate_columns_public_witness:
  "list_all (public_column sample_logs) (field_columns sample_logs ''topics'') \<and>
   list_all (fixed_weight sample_logs) (weight_key sample_logs)"
proof -
  have "validate sample_catalog = Inr ()" by code_simp
  moreover have "(''logs'', sample_logs) \<in> set (d_tables sample_catalog)"
    by (simp add: sample_catalog_def)
  moreover have "is_selectable_field sample_logs ''topics''" by code_simp
  ultimately show ?thesis using validate_columns_public by blast
qed

text \<open>
  An accepted catalog has exactly one table whose rows a block number alone identifies, and that
  table is declared first.
\<close>

theorem validate_block_table:
  assumes "validate d = Inr ()" and "omap_ok (d_tables d)"
  shows "\<exists>n t rest. d_tables d = (n, t) # rest \<and> is_block_table t \<and>
     list_all (\<lambda>(n', t'). \<not> is_block_table t') rest"
proof -
  let ?p = "\<lambda>(n :: string, t). is_block_table t"
  from assms(1) have c: "check_block_table d = Inr ()"
    by (auto simp: validate_def and_then_unit)
  then obtain e where e: "filter ?p (d_tables d) = [e]"
    by (auto simp: check_block_table_def and_then_unit Let_def length_Suc_conv)
  with c obtain n t rest where d: "d_tables d = (n, t) # rest" and n: "n = fst e"
    by (cases "d_tables d") (auto simp: check_block_table_def and_then_unit Let_def get_0 keys_def)
  have "e \<in> set (filter ?p (d_tables d))" by (simp add: e)
  then have p: "?p e" and "e \<in> set (d_tables d)" by (simp_all only: set_filter mem_Collect_eq)
  with assms(2) d n have "e = (n, t)"
    by (auto simp: omap_ok_def keys_def rev_image_eqI)
  with p have t: "is_block_table t" by simp
  with e d have "filter ?p rest = []" by simp
  with d t show ?thesis by (auto simp: filter_empty_conv list_all_iff)
qed

theorem validate_block_table_witness:
  "\<exists>n t rest. d_tables sample_catalog = (n, t) # rest \<and> is_block_table t \<and>
     list_all (\<lambda>(n', t'). \<not> is_block_table t') rest"
  by (rule validate_block_table) code_simp+

end
