(* ===== verification/Errors.thy ===== *)
theory Errors
  imports Prelude
begin

text \<open>
  The error kinds of \<^verbatim>\<open>src/error.rs\<close>: the kinds a client switches on, their wire spelling, the
  split into validation and execution kinds, and how the kind of an error on its way out is
  recovered. Messages are left out: by the file's own contract clients never read them. The one
  error that carries data, \<open>UnexpectedBaseBlock\<close>, keeps it.
\<close>

datatype error_kind =
    MalformedRequest
  | UnknownDataset
  | UnknownTable
  | UnknownFilter
  | UnknownFieldGroup
  | UnknownField
  | InvalidBlockRange
  | InvalidBlockNumber
  | TooManyItemRequests
  | TooManyBloomValues
  | ConflictingFilters
  | InvalidHex
  | DiscriminatorTooLong
  | InvalidFilterValue
  | UnknownSet
  | InvalidSet
  | SetCanaryMismatch
  | SetFieldNotSelected
  | RequestTooLarge
  | UnsupportedRequestField
  | TableNotFound
  | ColumnNotFound
  | UnexpectedBaseBlockKind
  | UnsupportedKeyType
  | MalformedChunkData

fun as_str :: "error_kind \<Rightarrow> string" where
  "as_str MalformedRequest = ''MalformedRequest''"
| "as_str UnknownDataset = ''UnknownDataset''"
| "as_str UnknownTable = ''UnknownTable''"
| "as_str UnknownFilter = ''UnknownFilter''"
| "as_str UnknownFieldGroup = ''UnknownFieldGroup''"
| "as_str UnknownField = ''UnknownField''"
| "as_str InvalidBlockRange = ''InvalidBlockRange''"
| "as_str InvalidBlockNumber = ''InvalidBlockNumber''"
| "as_str TooManyItemRequests = ''TooManyItemRequests''"
| "as_str TooManyBloomValues = ''TooManyBloomValues''"
| "as_str ConflictingFilters = ''ConflictingFilters''"
| "as_str InvalidHex = ''InvalidHex''"
| "as_str DiscriminatorTooLong = ''DiscriminatorTooLong''"
| "as_str InvalidFilterValue = ''InvalidFilterValue''"
| "as_str UnknownSet = ''UnknownSet''"
| "as_str InvalidSet = ''InvalidSet''"
| "as_str SetCanaryMismatch = ''SetCanaryMismatch''"
| "as_str SetFieldNotSelected = ''SetFieldNotSelected''"
| "as_str RequestTooLarge = ''RequestTooLarge''"
| "as_str UnsupportedRequestField = ''UnsupportedRequestField''"
| "as_str TableNotFound = ''TableNotFound''"
| "as_str ColumnNotFound = ''ColumnNotFound''"
| "as_str UnexpectedBaseBlockKind = ''UnexpectedBaseBlock''"
| "as_str UnsupportedKeyType = ''UnsupportedKeyType''"
| "as_str MalformedChunkData = ''MalformedChunkData''"

fun is_validation :: "error_kind \<Rightarrow> bool" where
  "is_validation TableNotFound = False"
| "is_validation ColumnNotFound = False"
| "is_validation UnexpectedBaseBlockKind = False"
| "is_validation UnsupportedKeyType = False"
| "is_validation MalformedChunkData = False"
| "is_validation _ = True"

text \<open>
  An \<open>anyhow::Error\<close> as the engine makes one: an \<open>EngineError\<close> with its kind, the fork error with the
  expected hash and the recent blocks, or an error of no kind. \<open>Panic\<close> is no value of the code: it is
  the outcome of an \<open>unwrap\<close> on nothing or an index out of bounds, kept so that it can be excluded.
\<close>

datatype engine_error =
    EngineError error_kind
  | UnexpectedBaseBlock string "(nat \<times> string) list"
  | Untyped
  | Panic

fun error_kind_of :: "engine_error \<Rightarrow> error_kind option" where
  "error_kind_of (EngineError k) = Some k"
| "error_kind_of (UnexpectedBaseBlock _ _) = Some UnexpectedBaseBlockKind"
| "error_kind_of Untyped = None"
| "error_kind_of Panic = None"

text \<open>A validation error: one raised from the request and the catalog alone.\<close>

definition validation_error :: "engine_error \<Rightarrow> bool" where
  "validation_error e = (case error_kind_of e of None \<Rightarrow> False | Some k \<Rightarrow> is_validation k)"

lemma validation_error_EngineError [simp]:
  "validation_error (EngineError k) = is_validation k"
  by (simp add: validation_error_def)

end
