(* ===== verification/Arrow.thy ===== *)
theory Arrow
  imports Errors
begin

text \<open>
  The columns the program reads. Arrow is a library the sources only call, so this theory holds no
  code of the program: it describes the arrays as data (the physical type, one slot per row, and the
  validity buffer, where a null row still has whatever its slot holds) and names the Arrow compute
  kernels the program calls as the fields of a record. The program's definitions take such a record
  as an argument; \<open>kernels_ok\<close> states the documented behaviour of the kernels, and
  \<open>plain_kernels\<close> is an instance that has it.
\<close>

datatype int_type = UInt64 | UInt32 | UInt16 | UInt8 | Int64 | Int32 | Int16 | Int8

datatype text_type = Utf8 | LargeUtf8 | Utf8View

datatype bytes_type = FixedSizeBinary nat | Binary | LargeBinary

datatype data_type =
    DInt int_type
  | DBoolean
  | DText text_type
  | DBytes bytes_type
  | DList bool data_type
  | DDictionary data_type
  | DOther string

text \<open>\<open>Some v\<close> is a null buffer: \<open>v ! i\<close> says that row \<open>i\<close> is valid.\<close>

type_synonym nulls = "bool list option"

text \<open>
  \<open>AList\<close> has the flag of 64-bit offsets, the offsets and the child array; \<open>ADictionary\<close> the keys and the
  dictionary's values; \<open>AOther\<close> stands for every type the modelled code does not read.
\<close>

datatype array =
    AInt int_type "int list" nulls
  | ABoolean "bool list" nulls
  | AText text_type "string list" nulls
  | ABytes bytes_type "u8 list list" nulls
  | AList bool "nat list" array nulls
  | ADictionary "nat list" nulls array
  | AOther string nat nulls

primrec nulls_of :: "array \<Rightarrow> nulls" where
  "nulls_of (AInt _ _ n) = n"
| "nulls_of (ABoolean _ n) = n"
| "nulls_of (AText _ _ n) = n"
| "nulls_of (ABytes _ _ n) = n"
| "nulls_of (AList _ _ _ n) = n"
| "nulls_of (ADictionary _ n _) = n"
| "nulls_of (AOther _ _ n) = n"

primrec len :: "array \<Rightarrow> nat" where
  "len (AInt _ vs _) = length vs"
| "len (ABoolean vs _) = length vs"
| "len (AText _ vs _) = length vs"
| "len (ABytes _ vs _) = length vs"
| "len (AList _ os _ _) = length os - 1"
| "len (ADictionary ks _ _) = length ks"
| "len (AOther _ n _) = n"

primrec data_type_of :: "array \<Rightarrow> data_type" where
  "data_type_of (AInt t _ _) = DInt t"
| "data_type_of (ABoolean _ _) = DBoolean"
| "data_type_of (AText t _ _) = DText t"
| "data_type_of (ABytes t _ _) = DBytes t"
| "data_type_of (AList large _ a _) = DList large (data_type_of a)"
| "data_type_of (ADictionary _ _ a) = DDictionary (data_type_of a)"
| "data_type_of (AOther s _ _) = DOther s"

primrec empty_array :: "data_type \<Rightarrow> array" where
  "empty_array (DInt t) = AInt t [] None"
| "empty_array DBoolean = ABoolean [] None"
| "empty_array (DText t) = AText t [] None"
| "empty_array (DBytes t) = ABytes t [] None"
| "empty_array (DList large t) = AList large [0] (empty_array t) None"
| "empty_array (DDictionary t) = ADictionary [] None (empty_array t)"
| "empty_array (DOther s) = AOther s 0 None"

definition valid_at :: "nulls \<Rightarrow> nat \<Rightarrow> bool" where
  "valid_at n i = (case n of None \<Rightarrow> True | Some v \<Rightarrow> v ! i)"

definition is_null :: "array \<Rightarrow> nat \<Rightarrow> bool" where
  "is_null a i = (\<not> valid_at (nulls_of a) i)"

definition null_count :: "array \<Rightarrow> nat" where
  "null_count a = (case nulls_of a of None \<Rightarrow> 0 | Some v \<Rightarrow> length (filter Not v))"

text \<open>The rows of a column as optional values: what a kernel sees.\<close>

definition masked :: "nulls \<Rightarrow> 'a list \<Rightarrow> 'a option list" where
  "masked n xs = map (\<lambda>i. if valid_at n i then Some (xs ! i) else None) [0..<length xs]"

lemma length_masked [simp]: "length (masked n xs) = length xs"
  by (simp add: masked_def)

lemma masked_nth [simp]:
  "i < length xs \<Longrightarrow> masked n xs ! i = (if valid_at n i then Some (xs ! i) else None)"
  by (simp add: masked_def)

lemma masked_None [simp]: "masked None xs = map Some xs"
  by (rule nth_equalityI) (simp_all add: valid_at_def)

lemma data_type_of_empty_array [simp]: "data_type_of (empty_array t) = t"
  by (induction t) simp_all


section \<open>Record batches\<close>

record batch =
  b_columns :: "(string \<times> array) list"
  b_num_rows :: nat

definition column_by_name :: "batch \<Rightarrow> string \<Rightarrow> array option" where
  "column_by_name b = map_of (b_columns b)"

text \<open>A boolean array: \<open>None\<close> is a null.\<close>

type_synonym mask = "bool option list"

definition all_mask :: "nat \<Rightarrow> bool \<Rightarrow> mask" where
  "all_mask n v = replicate n (Some v)"

definition true_count :: "mask \<Rightarrow> nat" where
  "true_count m = length (filter (\<lambda>v. v = Some True) m)"

lemma length_all_mask [simp]: "length (all_mask n v) = n"
  by (simp add: all_mask_def)

lemma all_mask_nth [simp]: "i < n \<Longrightarrow> all_mask n v ! i = Some v"
  by (simp add: all_mask_def)

lemma true_count_0 [simp]: "true_count m = 0 \<longleftrightarrow> Some True \<notin> set m"
  by (auto simp: true_count_def filter_empty_conv)


section \<open>Compute kernels\<close>

record kernels =
  k_and :: "mask \<Rightarrow> mask \<Rightarrow> mask"
  k_or_kleene :: "mask \<Rightarrow> mask \<Rightarrow> mask"
  k_eq_bool :: "bool option list \<Rightarrow> bool \<Rightarrow> mask"
  k_gt_eq_int :: "int option list \<Rightarrow> int \<Rightarrow> mask"
  k_lt_eq_int :: "int option list \<Rightarrow> int \<Rightarrow> mask"
  k_gt_eq_text :: "string option list \<Rightarrow> string \<Rightarrow> mask"
  k_lt_eq_text :: "string option list \<Rightarrow> string \<Rightarrow> mask"
  k_take :: "mask \<Rightarrow> nat option list \<Rightarrow> mask"

fun and3 :: "bool option \<Rightarrow> bool option \<Rightarrow> bool option" where
  "and3 (Some a) (Some b) = Some (a \<and> b)"
| "and3 _ _ = None"

fun or3 :: "bool option \<Rightarrow> bool option \<Rightarrow> bool option" where
  "or3 (Some a) (Some b) = Some (a \<or> b)"
| "or3 (Some True) None = Some True"
| "or3 None (Some True) = Some True"
| "or3 _ _ = None"

definition kernels_ok :: "kernels \<Rightarrow> bool" where
  "kernels_ok K \<longleftrightarrow>
     (\<forall>a b. length a = length b \<longrightarrow> k_and K a b = map2 and3 a b) \<and>
     (\<forall>a b. length a = length b \<longrightarrow> k_or_kleene K a b = map2 or3 a b) \<and>
     (\<forall>xs v. k_eq_bool K xs v = map (map_option (\<lambda>x. x = v)) xs) \<and>
     (\<forall>xs v. k_gt_eq_int K xs v = map (map_option (\<lambda>x. v \<le> x)) xs) \<and>
     (\<forall>xs v. k_lt_eq_int K xs v = map (map_option (\<lambda>x. x \<le> v)) xs) \<and>
     (\<forall>xs v. k_gt_eq_text K xs v = map (map_option (\<lambda>x. v \<le> x)) xs) \<and>
     (\<forall>xs v. k_lt_eq_text K xs v = map (map_option (\<lambda>x. x \<le> v)) xs) \<and>
     (\<forall>m ks. (\<forall>k. Some k \<in> set ks \<longrightarrow> k < length m) \<longrightarrow>
        k_take K m ks = map (\<lambda>k. case k of None \<Rightarrow> None | Some i \<Rightarrow> m ! i) ks)"

definition plain_kernels :: kernels where
  "plain_kernels =
     \<lparr>k_and = map2 and3,
      k_or_kleene = map2 or3,
      k_eq_bool = (\<lambda>xs v. map (map_option (\<lambda>x. x = v)) xs),
      k_gt_eq_int = (\<lambda>xs v. map (map_option (\<lambda>x. v \<le> x)) xs),
      k_lt_eq_int = (\<lambda>xs v. map (map_option (\<lambda>x. x \<le> v)) xs),
      k_gt_eq_text = (\<lambda>xs v. map (map_option (\<lambda>x. v \<le> x)) xs),
      k_lt_eq_text = (\<lambda>xs v. map (map_option (\<lambda>x. x \<le> v)) xs),
      k_take = (\<lambda>m. map (\<lambda>k. case k of None \<Rightarrow> None | Some i \<Rightarrow> m ! i))\<rparr>"

lemma kernels_ok_plain [simp]: "kernels_ok plain_kernels"
  by (simp add: kernels_ok_def plain_kernels_def)

lemma kernel_simps:
  assumes "kernels_ok K"
  shows "length a = length b \<Longrightarrow> k_and K a b = map2 and3 a b"
    and "length a = length b \<Longrightarrow> k_or_kleene K a b = map2 or3 a b"
    and "k_eq_bool K bs v = map (map_option (\<lambda>x. x = v)) bs"
    and "k_gt_eq_int K xs w = map (map_option (\<lambda>x. w \<le> x)) xs"
    and "k_lt_eq_int K xs w = map (map_option (\<lambda>x. x \<le> w)) xs"
    and "k_gt_eq_text K ts t = map (map_option (\<lambda>x. t \<le> x)) ts"
    and "k_lt_eq_text K ts t = map (map_option (\<lambda>x. x \<le> t)) ts"
  using assms by (simp_all add: kernels_ok_def)

lemma kernel_take:
  "kernels_ok K \<Longrightarrow> (\<And>k. Some k \<in> set ks \<Longrightarrow> k < length m) \<Longrightarrow>
     k_take K m ks = map (\<lambda>k. case k of None \<Rightarrow> None | Some i \<Rightarrow> m ! i) ks"
  by (simp add: kernels_ok_def)

lemma and3_Some_True [simp]: "and3 a b = Some True \<longleftrightarrow> a = Some True \<and> b = Some True"
  by (cases "(a, b)" rule: and3.cases) auto

lemma or3_Some_True [simp]: "or3 a b = Some True \<longleftrightarrow> a = Some True \<or> b = Some True"
  by (cases a; cases b) (auto split: bool.splits elim: or3.elims)

text \<open>Only the true rows of a mask are kept, so that is how the results are stated.\<close>

definition keeps :: "mask \<Rightarrow> nat \<Rightarrow> bool" where
  "keeps m i = (i < length m \<and> m ! i = Some True)"

lemma keeps_and:
  "kernels_ok K \<Longrightarrow> length a = length b \<Longrightarrow> keeps (k_and K a b) i \<longleftrightarrow> keeps a i \<and> keeps b i"
  by (auto simp: keeps_def kernel_simps)

lemma keeps_or:
  "kernels_ok K \<Longrightarrow> length a = length b \<Longrightarrow> keeps (k_or_kleene K a b) i \<longleftrightarrow> keeps a i \<or> keeps b i"
  by (auto simp: keeps_def kernel_simps)

lemma length_and [simp]:
  "kernels_ok K \<Longrightarrow> length a = length b \<Longrightarrow> length (k_and K a b) = length b"
  by (simp add: kernel_simps)

lemma length_or [simp]:
  "kernels_ok K \<Longrightarrow> length a = length b \<Longrightarrow> length (k_or_kleene K a b) = length b"
  by (simp add: kernel_simps)

lemma keeps_all_mask [simp]: "keeps (all_mask n v) i \<longleftrightarrow> i < n \<and> v"
  by (auto simp: keeps_def)

end
