(* ===== verification/Integers.thy ===== *)
theory Integers
  imports Arrow
begin

text \<open>
  Integer columns at every stored width, \<^verbatim>\<open>src/integers.rs\<close>. A stored value is an exact \<^typ>\<open>int\<close>
  (the source widens to \<open>i128\<close>), a block number is the value's bits read unsigned, and a join key is
  the value sign-extended to a 64-bit word. The central fact is that the keys a filter list narrows
  to a stored width select exactly the rows whose bits, read at the declared signedness, are listed.
\<close>

unbundle bit_operations_syntax

section \<open>Widths\<close>

fun bits_of :: "int_type \<Rightarrow> nat" where
  "bits_of UInt64 = 64"
| "bits_of UInt32 = 32"
| "bits_of UInt16 = 16"
| "bits_of UInt8 = 8"
| "bits_of Int64 = 64"
| "bits_of Int32 = 32"
| "bits_of Int16 = 16"
| "bits_of Int8 = 8"

fun signed_of :: "int_type \<Rightarrow> bool" where
  "signed_of UInt64 = False"
| "signed_of UInt32 = False"
| "signed_of UInt16 = False"
| "signed_of UInt8 = False"
| "signed_of Int64 = True"
| "signed_of Int32 = True"
| "signed_of Int16 = True"
| "signed_of Int8 = True"

fun width_of :: "data_type \<Rightarrow> (nat \<times> bool) option" where
  "width_of (DInt t) = Some (bits_of t, signed_of t)"
| "width_of _ = None"

definition is_integer :: "data_type \<Rightarrow> bool" where
  "is_integer t = (width_of t \<noteq> None)"

fun is_text :: "data_type \<Rightarrow> bool" where
  "is_text (DText _) = True"
| "is_text _ = False"

definition in_range :: "int_type \<Rightarrow> int \<Rightarrow> bool" where
  "in_range t x =
     (if signed_of t then - (2 ^ (bits_of t - 1)) \<le> x \<and> x < 2 ^ (bits_of t - 1)
      else 0 \<le> x \<and> x < 2 ^ bits_of t)"

text \<open>Every slot of a well-formed array fits its type, and the buffers have one entry per row.\<close>

definition nulls_fit :: "nulls \<Rightarrow> nat \<Rightarrow> bool" where
  "nulls_fit n k = (case n of None \<Rightarrow> True | Some v \<Rightarrow> length v = k)"

primrec wf_array :: "array \<Rightarrow> bool" where
  "wf_array (AInt t vs n) = (list_all (in_range t) vs \<and> nulls_fit n (length vs))"
| "wf_array (ABoolean vs n) = nulls_fit n (length vs)"
| "wf_array (AText _ vs n) = nulls_fit n (length vs)"
| "wf_array (ABytes t vs n) =
     (nulls_fit n (length vs) \<and>
      (case t of FixedSizeBinary w \<Rightarrow> list_all (\<lambda>b. length b = w) vs | _ \<Rightarrow> True))"
| "wf_array (AList _ os a n) =
     (wf_array a \<and> os \<noteq> [] \<and> sorted os \<and> last os \<le> len a \<and> nulls_fit n (length os - 1))"
| "wf_array (ADictionary ks n a) =
     (wf_array a \<and> nulls_fit n (length ks) \<and>
      (\<forall>i < length ks. valid_at n i \<longrightarrow> ks ! i < len a))"
| "wf_array (AOther _ k n) = nulls_fit n k"


section \<open>Columns\<close>

text \<open>
  \<open>IntColumn\<close> and \<open>StringColumn\<close> are an array resolved by its type: the type, the slots and the
  validity of the rows.
\<close>

type_synonym int_column = "int_type \<times> int list \<times> nulls"
type_synonym string_column = "text_type \<times> string list \<times> nulls"

fun resolve_int :: "array \<Rightarrow> int_column option" where
  "resolve_int (AInt t vs n) = Some (t, vs, n)"
| "resolve_int _ = None"

fun resolve_text :: "array \<Rightarrow> string_column option" where
  "resolve_text (AText t vs n) = Some (t, vs, n)"
| "resolve_text _ = None"

fun int_value :: "int_column \<Rightarrow> nat \<Rightarrow> int" where
  "int_value (t, vs, n) i = vs ! i"

fun int_is_null :: "int_column \<Rightarrow> nat \<Rightarrow> bool" where
  "int_is_null (t, vs, n) i = (\<not> valid_at n i)"

fun int_len :: "int_column \<Rightarrow> nat" where
  "int_len (t, vs, n) = length vs"

fun text_value :: "string_column \<Rightarrow> nat \<Rightarrow> string option" where
  "text_value (t, vs, n) i = (if valid_at n i then Some (vs ! i) else None)"

fun text_len :: "string_column \<Rightarrow> nat" where
  "text_len (t, vs, n) = length vs"

definition unsigned_bits :: "int_type \<Rightarrow> int \<Rightarrow> nat" where
  "unsigned_bits t x = nat (x mod 2 ^ bits_of t)"

fun block_number :: "int_column \<Rightarrow> nat \<Rightarrow> nat" where
  "block_number (t, vs, n) i = unsigned_bits t (vs ! i)"

definition stored_key :: "int \<Rightarrow> u64" where
  "stored_key x = word_of_int x"

definition join_key :: "int_column \<Rightarrow> nat \<Rightarrow> u64" where
  "join_key c i = stored_key (int_value c i)"

fun join_keys :: "int_column \<Rightarrow> u64 list" where
  "join_keys (t, vs, n) = map stored_key vs"

definition to_be_bytes :: "u64 \<Rightarrow> u8 list" where
  "to_be_bytes w = map (\<lambda>i. ucast (drop_bit (8 * i) w)) (rev [0..<8])"

definition to_le_bytes :: "u64 \<Rightarrow> u8 list" where
  "to_le_bytes w = map (\<lambda>i. ucast (drop_bit (8 * i) w)) [0..<8]"

fun join_key_bytes :: "int_column \<Rightarrow> u8 list" where
  "join_key_bytes (t, vs, n) = concat (map (\<lambda>v. to_be_bytes (stored_key v)) vs)"

fun block_number_at :: "data_type \<Rightarrow> int \<Rightarrow> nat option" where
  "block_number_at (DInt t) stat = Some (unsigned_bits t stat)"
| "block_number_at _ stat = None"


section \<open>Block bounds\<close>

text \<open>
  \<open>within\<close> runs on the column's bits read unsigned at \<open>bits\<close> bits. A lower bound the width cannot
  hold matches nothing, nulls included; an upper bound it cannot hold constrains nothing.
\<close>

definition within :: "kernels \<Rightarrow> nat \<Rightarrow> int list \<Rightarrow> nulls \<Rightarrow> nat option \<Rightarrow> nat option \<Rightarrow> mask" where
  "within K bits vs n lo_bound hi_bound =
     (let rows = masked n vs;
          fits = (\<lambda>b. b < 2 ^ bits);
          lo = (case lo_bound of None \<Rightarrow> None | Some b \<Rightarrow> if b > 0 then Some b else None) in
      case lo of
        Some b \<Rightarrow>
          if \<not> fits b then all_mask (length vs) False
          else (case hi_bound of
              Some h \<Rightarrow>
                if fits h then k_and K (k_gt_eq_int K rows (int b)) (k_lt_eq_int K rows (int h))
                else k_gt_eq_int K rows (int b)
            | None \<Rightarrow> k_gt_eq_int K rows (int b))
      | None \<Rightarrow>
          (case hi_bound of
              Some h \<Rightarrow>
                if fits h then k_lt_eq_int K rows (int h)
                else masked n (map (\<lambda>_. True) vs)
            | None \<Rightarrow> masked n (map (\<lambda>_. True) vs)))"

fun block_numbers_within :: "kernels \<Rightarrow> int_column \<Rightarrow> nat option \<Rightarrow> nat option \<Rightarrow> mask" where
  "block_numbers_within K (t, vs, n) lo hi =
     within K (bits_of t) (map (\<lambda>v. int (unsigned_bits t v)) vs) n lo hi"


section \<open>Block-number columns\<close>

definition block_numbers_resolve :: "array \<Rightarrow> engine_error + int_column" where
  "block_numbers_resolve a =
     and_then (ok_or (EngineError MalformedChunkData) (resolve_int a)) (\<lambda>c.
     and_then (ensure (null_count a = 0) (EngineError MalformedChunkData)) (\<lambda>_. Inr c))"


section \<open>The values a filter carries\<close>

datatype int_values = Unsigned "u64 list" | Signed "int list"

fun values_signed :: "int_values \<Rightarrow> bool" where
  "values_signed (Signed _) = True"
| "values_signed (Unsigned _) = False"

fun int_values_of_array :: "array \<Rightarrow> int_values option" where
  "int_values_of_array (AInt t vs n) =
     Some (if signed_of t then Signed vs else Unsigned (map word_of_int vs))"
| "int_values_of_array _ = None"

definition int_types :: nat where
  "int_types = 8"

definition slot_of :: "data_type \<Rightarrow> nat option" where
  "slot_of t = map_option (\<lambda>(bits, signed).
     let width = (if bits = 8 then 0 else if bits = 16 then 1 else if bits = 32 then 2 else 3) in
     if signed then width + 4 else width) (width_of t)"

definition fits_unsigned :: "u64 \<Rightarrow> nat \<Rightarrow> bool" where
  "fits_unsigned v bits = (bits = 64 \<or> drop_bit bits v = 0)"

definition fits_signed :: "int \<Rightarrow> nat \<Rightarrow> bool" where
  "fits_signed v bits = (bits = 64 \<or> (- (2 ^ (bits - 1)) \<le> v \<and> v < 2 ^ (bits - 1)))"

definition sign_extend :: "u64 \<Rightarrow> nat \<Rightarrow> u64" where
  "sign_extend v bits = signed_drop_bit (64 - bits) (push_bit (64 - bits) v)"

definition zero_extend :: "u64 \<Rightarrow> nat \<Rightarrow> u64" where
  "zero_extend v bits = (if bits = 64 then v else v AND (push_bit bits 1 - 1))"

fun stored_keys :: "int_values \<Rightarrow> data_type \<Rightarrow> u64 list option" where
  "stored_keys (Unsigned vs) t = map_option (\<lambda>(bits, signed).
     map (\<lambda>v. if signed then sign_extend v bits else v) (filter (\<lambda>v. fits_unsigned v bits) vs)) (width_of t)"
| "stored_keys (Signed vs) t = map_option (\<lambda>(bits, signed).
     map (\<lambda>v. if signed then stored_key v else zero_extend (stored_key v) bits)
       (filter (\<lambda>v. fits_signed v bits) vs)) (width_of t)"

definition declared_value :: "int \<Rightarrow> nat \<Rightarrow> bool \<Rightarrow> int" where
  "declared_value stored bits declared_signed =
     (let key = stored_key stored in
      if declared_signed then sint (sign_extend key bits) else uint (zero_extend key bits))"

text \<open>What a row's block number has to meet.\<close>

definition within_bounds :: "nat option \<Rightarrow> nat option \<Rightarrow> nat \<Rightarrow> bool" where
  "within_bounds lo hi b =
     ((case lo of None \<Rightarrow> True | Some l \<Rightarrow> l \<le> b) \<and> (case hi of None \<Rightarrow> True | Some h \<Rightarrow> b \<le> h))"

text \<open>The values of a list as exact integers, and what a well-formed list holds.\<close>

fun listed_ints :: "int_values \<Rightarrow> int list" where
  "listed_ints (Unsigned vs) = map uint vs"
| "listed_ints (Signed vs) = vs"

fun values_ok :: "int_values \<Rightarrow> bool" where
  "values_ok (Unsigned vs) = True"
| "values_ok (Signed vs) = list_all (\<lambda>v. - (2 ^ 63) \<le> v \<and> v < 2 ^ 63) vs"


section \<open>Facts\<close>

lemma bits_of_cases: "bits_of t = 8 \<or> bits_of t = 16 \<or> bits_of t = 32 \<or> bits_of t = 64"
  by (cases t) simp_all

lemma bits_of_bounds [simp]: "0 < bits_of t" "bits_of t \<le> 64"
  using bits_of_cases [of t] by auto

lemma is_integer_iff: "is_integer t \<longleftrightarrow> (\<exists>i. t = DInt i)"
  by (cases t) (simp_all add: is_integer_def)

lemma resolve_int_Some: "resolve_int a = Some (t, vs, n) \<longleftrightarrow> a = AInt t vs n"
  by (cases a) auto

lemma resolve_text_Some: "resolve_text a = Some (t, vs, n) \<longleftrightarrow> a = AText t vs n"
  by (cases a) auto

lemma zero_extend_eq: "bits \<le> 64 \<Longrightarrow> zero_extend v bits = take_bit bits v"
proof (cases "bits = 64")
  case True
  have "take_bit 64 v = v"
    by (rule bit_word_eqI) (simp add: bit_take_bit_iff)
  with True show ?thesis by (simp add: zero_extend_def)
next
  case False
  then show ?thesis
    by (simp add: zero_extend_def take_bit_eq_mask mask_eq_exp_minus_1 push_bit_of_1)
qed

lemma sign_extend_eq:
  assumes "0 < bits" and "bits \<le> 64"
  shows "sign_extend v bits = word_of_int (signed_take_bit (bits - 1) (uint v))"
proof (rule bit_word_eqI)
  fix i
  assume i: "i < LENGTH(64)"
  show "bit (sign_extend v bits) i = bit (word_of_int (signed_take_bit (bits - 1) (uint v)) :: u64) i"
  proof (cases "bits \<le> i")
    case True
    with i assms show ?thesis
      by (simp add: sign_extend_def bit_signed_drop_bit_iff bit_push_bit_iff bit_word_of_int_iff
          bit_signed_take_bit_iff bit_uint_iff min_def) (auto simp: bit_simps)
  next
    case False
    show ?thesis
    proof (cases "i = bits - 1")
      case True
      from assms have "64 - bits \<le> 63" by arith
      with True i assms show ?thesis
        by (simp add: sign_extend_def bit_signed_drop_bit_iff bit_push_bit_iff bit_word_of_int_iff
            bit_signed_take_bit_iff bit_uint_iff min_def)
    next
      case other: False
      with False have "i < bits - 1" by simp
      with i assms have "64 - bits \<le> 64 + i - bits" "64 + i - bits < 64" "\<not> bits \<le> i" by arith+
      with i assms \<open>i < bits - 1\<close> show ?thesis
        by (simp add: sign_extend_def bit_signed_drop_bit_iff bit_push_bit_iff bit_word_of_int_iff
            bit_signed_take_bit_iff bit_uint_iff min_def)
    qed
  qed
qed

lemma uint_stored_key: "uint (stored_key x) = take_bit 64 x"
  by (simp add: stored_key_def uint_word_of_int_eq)

lemma sint_stored_key: "sint (stored_key x) = signed_take_bit 63 x"
  by (simp add: stored_key_def sint_sbintrunc')

lemma declared_unsigned:
  assumes "bits \<le> 64"
  shows "declared_value x bits False = x mod 2 ^ bits"
proof -
  have "declared_value x bits False = uint (take_bit bits (stored_key x))"
    using assms by (simp add: declared_value_def zero_extend_eq)
  also have "\<dots> = take_bit bits (take_bit 64 x)"
    by (simp only: unsigned_take_bit_eq uint_stored_key)
  also have "\<dots> = take_bit bits x"
    using assms by (simp only: take_bit_take_bit min_absorb1)
  finally show ?thesis by (simp only: take_bit_eq_mod)
qed

lemma declared_signed:
  assumes "0 < bits" and "bits \<le> 64"
  shows "declared_value x bits True = signed_take_bit (bits - 1) x"
proof -
  have "declared_value x bits True = signed_take_bit 63 (signed_take_bit (bits - 1) (take_bit 64 x))"
    using assms by (simp add: declared_value_def sign_extend_eq uint_stored_key sint_sbintrunc')
  also have "\<dots> = signed_take_bit (bits - 1) (take_bit 64 x)"
  proof -
    from assms have "min 63 (bits - 1) = bits - 1" by simp
    then show ?thesis by (simp only: signed_take_bit_signed_take_bit)
  qed
  also have "\<dots> = signed_take_bit (bits - 1) x"
    using assms by (intro bit_eqI) (auto simp: bit_signed_take_bit_iff bit_take_bit_iff min_def)
  finally show ?thesis .
qed


lemma in_range_signed_64:
  assumes "signed_of t" and "in_range t x"
  shows "- (2 ^ 63) \<le> x \<and> x < 2 ^ 63"
proof -
  from bits_of_bounds(2) [of t] have "bits_of t - 1 \<le> 63" by arith
  then have "(2 :: int) ^ (bits_of t - 1) \<le> 2 ^ 63" by (rule power_increasing) simp
  with assms show ?thesis by (auto simp: in_range_def)
qed

lemma in_range_unsigned_64:
  assumes "\<not> signed_of t" and "in_range t x"
  shows "0 \<le> x \<and> x < 2 ^ 64"
proof -
  have "(2 :: int) ^ bits_of t \<le> 2 ^ 64" by (rule power_increasing) simp_all
  with assms show ?thesis by (auto simp: in_range_def)
qed

lemma signed_take_bit_in_range:
  "signed_of t \<Longrightarrow> in_range t x \<Longrightarrow> signed_take_bit (bits_of t - 1) x = x"
  by (simp add: in_range_def signed_take_bit_int_eq_self)

lemma in_range_mod: "\<not> signed_of t \<Longrightarrow> in_range t x \<Longrightarrow> x mod 2 ^ bits_of t = x"
  by (simp add: in_range_def)

lemma stored_key_inject_signed:
  assumes "- (2 ^ 63) \<le> x" "x < 2 ^ 63" "- (2 ^ 63) \<le> y" "y < 2 ^ 63"
  shows "stored_key x = stored_key y \<longleftrightarrow> x = y"
proof
  assume "stored_key x = stored_key y"
  then have "signed_take_bit 63 x = signed_take_bit 63 y"
    by (metis sint_stored_key)
  moreover have "signed_take_bit 63 x = x" "signed_take_bit 63 y = y"
    using assms by (simp_all add: signed_take_bit_int_eq_self)
  ultimately show "x = y" by simp
qed simp

lemma stored_key_inject_unsigned:
  assumes "0 \<le> x" "x < 2 ^ 64" "0 \<le> y" "y < 2 ^ 64"
  shows "stored_key x = stored_key y \<longleftrightarrow> x = y"
proof
  assume "stored_key x = stored_key y"
  then have "take_bit 64 x = take_bit 64 y"
    by (metis uint_stored_key)
  moreover have "take_bit 64 x = x" "take_bit 64 y = y"
    using assms by (simp_all add: take_bit_int_eq_self)
  ultimately show "x = y" by simp
qed simp

lemma fits_unsigned_iff:
  assumes "bits \<le> 64"
  shows "fits_unsigned v bits \<longleftrightarrow> uint v < 2 ^ bits"
proof (cases "bits = 64")
  case True
  then show ?thesis using uint_lt2p [of v] by (simp add: fits_unsigned_def)
next
  case False
  have "drop_bit bits v = 0 \<longleftrightarrow> uint (drop_bit bits v) = 0"
    by (simp add: uint_0_iff)
  also have "\<dots> \<longleftrightarrow> uint v div 2 ^ bits = 0"
  proof -
    have "take_bit 64 (uint v) = uint v"
      using uint_lt2p [of v] by (simp add: take_bit_int_eq_self_iff)
    then have "uint (drop_bit bits v) = drop_bit bits (uint v)"
      by (simp only: unsigned_drop_bit_eq len_num0 len_num1 len_bit0 len_bit1) simp
    then show ?thesis by (simp only: drop_bit_eq_div)
  qed
  also have "\<dots> \<longleftrightarrow> uint v < 2 ^ bits"
    by (simp add: div_int_pos_iff zdiv_eq_0_iff) (metis not_less uint_ge_0 zero_less_numeral zero_less_power)
  finally show ?thesis using False by (simp add: fits_unsigned_def)
qed


lemma sign_extend_stored_key_iff:
  assumes t: "signed_of t" "in_range t x" and v: "uint v < 2 ^ bits_of t"
  shows "sign_extend v (bits_of t) = stored_key x \<longleftrightarrow> uint v = x mod 2 ^ bits_of t"
proof -
  let ?n = "bits_of t - 1"
  let ?y = "signed_take_bit ?n (uint v)"
  have n: "Suc ?n = bits_of t" using bits_of_bounds(1) [of t] by arith
  have "?n \<le> 63" using bits_of_bounds(2) [of t] by arith
  then have p: "(2 :: int) ^ ?n \<le> 2 ^ 63" by (rule power_increasing) simp
  have "- (2 ^ ?n) \<le> ?y" "?y < 2 ^ ?n"
    by (rule signed_take_bit_int_greater_eq_minus_exp, rule signed_take_bit_int_less_exp)
  with p have y: "- (2 ^ 63) \<le> ?y" "?y < 2 ^ 63" by linarith+
  have "sign_extend v (bits_of t) = stored_key ?y"
    by (simp add: sign_extend_eq stored_key_def)
  with y in_range_signed_64 [OF t]
  have "sign_extend v (bits_of t) = stored_key x \<longleftrightarrow> ?y = x"
    by (simp only: stored_key_inject_signed)
  also have "\<dots> \<longleftrightarrow> ?y = signed_take_bit ?n x"
    by (simp only: signed_take_bit_in_range [OF t])
  also have "\<dots> \<longleftrightarrow> take_bit (bits_of t) (uint v) = take_bit (bits_of t) x"
    by (simp only: signed_take_bit_eq_iff_take_bit_eq n)
  also have "take_bit (bits_of t) (uint v) = uint v"
    using v by (simp add: take_bit_int_eq_self)
  finally show ?thesis by (simp only: take_bit_eq_mod)
qed

lemma zero_extend_stored_key_iff:
  assumes t: "\<not> signed_of t" "in_range t x"
    and v: "- (2 ^ (bits_of t - 1)) \<le> v" "v < 2 ^ (bits_of t - 1)"
  shows "zero_extend (stored_key v) (bits_of t) = stored_key x \<longleftrightarrow>
     v = signed_take_bit (bits_of t - 1) x"
proof -
  let ?b = "bits_of t"
  have n: "Suc (?b - 1) = ?b" using bits_of_bounds(1) [of t] by arith
  have "zero_extend (stored_key v) ?b = stored_key x \<longleftrightarrow>
      uint (zero_extend (stored_key v) ?b) = uint (stored_key x)"
    by (rule word_uint_eq_iff)
  also have "uint (zero_extend (stored_key v) ?b) = take_bit ?b (take_bit 64 v)"
    by (simp only: zero_extend_eq [OF bits_of_bounds(2)] unsigned_take_bit_eq uint_stored_key)
  also have "\<dots> = take_bit ?b v"
    by (simp only: take_bit_take_bit min_absorb1 [OF bits_of_bounds(2)])
  also have "uint (stored_key x) = x"
    using in_range_unsigned_64 [OF t] by (simp add: uint_stored_key take_bit_int_eq_self)
  also have "take_bit ?b v = x \<longleftrightarrow> take_bit ?b v = take_bit ?b x"
    using in_range_mod [OF t] by (simp only: take_bit_eq_mod)
  also have "\<dots> \<longleftrightarrow> signed_take_bit (?b - 1) v = signed_take_bit (?b - 1) x"
    by (simp only: signed_take_bit_eq_iff_take_bit_eq n)
  also have "signed_take_bit (?b - 1) v = v"
    using v by (simp add: signed_take_bit_int_eq_self)
  finally show ?thesis .
qed

lemma declared_unsigned_range: "declared_value x (bits_of t) False < 2 ^ bits_of t"
  by (simp add: declared_unsigned)

lemma declared_signed_range:
  "- (2 ^ (bits_of t - 1)) \<le> declared_value x (bits_of t) True"
  "declared_value x (bits_of t) True < 2 ^ (bits_of t - 1)"
  unfolding declared_signed [OF bits_of_bounds]
  by (rule signed_take_bit_int_greater_eq_minus_exp, rule signed_take_bit_int_less_exp)

lemma fits_signed_iff:
  assumes "- (2 ^ 63) \<le> v" "v < 2 ^ 63"
  shows "fits_signed v (bits_of t) \<longleftrightarrow> - (2 ^ (bits_of t - 1)) \<le> v \<and> v < 2 ^ (bits_of t - 1)"
  using assms by (auto simp: fits_signed_def)

text \<open>Unsigned lists: the kept keys are those of the rows whose bits, read unsigned, are listed.\<close>

lemma stored_keys_unsigned:
  assumes "in_range t x"
  shows "stored_key x \<in> set (map (\<lambda>v. if signed_of t then sign_extend v (bits_of t) else v)
       (filter (\<lambda>v. fits_unsigned v (bits_of t)) vs))
     \<longleftrightarrow> declared_value x (bits_of t) False \<in> uint ` set vs"
proof (cases "signed_of t")
  case True
  have "(\<exists>v \<in> set vs. uint v < 2 ^ bits_of t \<and> sign_extend v (bits_of t) = stored_key x) \<longleftrightarrow>
      (\<exists>v \<in> set vs. uint v = x mod 2 ^ bits_of t)"
    using sign_extend_stored_key_iff [OF True assms]
    by (metis pos_mod_bound zero_less_numeral zero_less_power)
  with True show ?thesis
    by (simp add: declared_unsigned fits_unsigned_iff image_iff) metis
next
  case False
  have "(\<exists>v \<in> set vs. uint v < 2 ^ bits_of t \<and> v = stored_key x) \<longleftrightarrow> (\<exists>v \<in> set vs. uint v = x)"
    using in_range_unsigned_64 [OF False assms] assms False
    by (auto simp: uint_stored_key take_bit_int_eq_self word_uint_eq_iff in_range_def)
  with False assms show ?thesis
    by (simp add: declared_unsigned fits_unsigned_iff image_iff in_range_mod) metis
qed

lemma stored_keys_signed:
  assumes "in_range t x" and "list_all (\<lambda>v. - (2 ^ 63) \<le> v \<and> v < 2 ^ 63) vs"
  shows "stored_key x \<in> set (map (\<lambda>v. if signed_of t then stored_key v
         else zero_extend (stored_key v) (bits_of t)) (filter (\<lambda>v. fits_signed v (bits_of t)) vs))
     \<longleftrightarrow> declared_value x (bits_of t) True \<in> set vs"
proof -
  let ?b = "bits_of t"
  have fits: "v \<in> set vs \<Longrightarrow> fits_signed v ?b \<longleftrightarrow> - (2 ^ (?b - 1)) \<le> v \<and> v < 2 ^ (?b - 1)" for v
    using assms(2) by (simp only: list_all_iff fits_signed_iff)
  have key: "(if signed_of t then stored_key v else zero_extend (stored_key v) ?b) = stored_key x \<longleftrightarrow>
      v = declared_value x ?b True" if "- (2 ^ (?b - 1)) \<le> v" "v < 2 ^ (?b - 1)" for v
  proof (cases "signed_of t")
    case True
    from that have "in_range t v" using True by (simp add: in_range_def)
    then show ?thesis
      using True stored_key_inject_signed [of v x] in_range_signed_64 [OF True] assms(1)
      by (simp only: declared_signed [OF bits_of_bounds] signed_take_bit_in_range if_True)
  next
    case False
    then show ?thesis
      using zero_extend_stored_key_iff [OF False assms(1) that]
      by (simp only: declared_signed [OF bits_of_bounds] if_False)
  qed
  have "(\<exists>v \<in> set vs. fits_signed v ?b \<and>
        (if signed_of t then stored_key v else zero_extend (stored_key v) ?b) = stored_key x)
      \<longleftrightarrow> declared_value x ?b True \<in> set vs"
    using fits key declared_signed_range by metis
  then show ?thesis by (auto simp: image_iff)
qed

lemma stored_keys_iff:
  assumes "in_range t x" and "values_ok vs" and "stored_keys vs (DInt t) = Some ks"
  shows "stored_key x \<in> set ks \<longleftrightarrow>
     declared_value x (bits_of t) (values_signed vs) \<in> set (listed_ints vs)"
  using assms stored_keys_unsigned [OF assms(1)] stored_keys_signed [OF assms(1)]
  by (cases vs) auto


lemma unsigned_bits_less: "unsigned_bits t x < 2 ^ bits_of t"
proof -
  have "x mod 2 ^ bits_of t < 2 ^ bits_of t" "0 \<le> x mod 2 ^ bits_of t" by simp_all
  then show ?thesis
    by (simp add: unsigned_bits_def nat_less_iff)
qed

lemma keeps_masked_map:
  "keeps (map (map_option p) (masked n xs)) i \<longleftrightarrow> i < length xs \<and> valid_at n i \<and> p (xs ! i)"
  by (auto simp: keeps_def split: if_splits)

lemma keeps_masked: "keeps (masked n xs) i \<longleftrightarrow> i < length xs \<and> valid_at n i \<and> xs ! i"
  by (auto simp: keeps_def split: if_splits)

lemma within_top: "0 \<le> v \<Longrightarrow> v < 2 ^ bits \<Longrightarrow> \<not> h < 2 ^ bits \<Longrightarrow> v \<le> int h"
  by (metis le_less_trans less_imp_le not_less of_nat_le_iff of_nat_numeral of_nat_power)

lemma within_bottom: "0 \<le> v \<Longrightarrow> v < 2 ^ bits \<Longrightarrow> \<not> b < 2 ^ bits \<Longrightarrow> \<not> int b \<le> v"
  by (metis not_less of_nat_le_iff of_nat_numeral of_nat_power order_trans)

lemma keeps_within:
  assumes K: "kernels_ok K" and vs: "\<And>v. v \<in> set vs \<Longrightarrow> 0 \<le> v \<and> v < 2 ^ bits"
  shows "keeps (within K bits vs n lo hi) i \<longleftrightarrow>
     i < length vs \<and> valid_at n i \<and> within_bounds lo hi (nat (vs ! i))"
proof (cases "i < length vs")
  case False
  then show ?thesis
    using K by (auto simp: within_def Let_def keeps_def kernel_simps split: option.splits)
next
  case True
  with vs [of "vs ! i"] have v: "0 \<le> vs ! i" "vs ! i < 2 ^ bits" by auto
  let ?rows = "masked n vs"
  have ge: "keeps (k_gt_eq_int K ?rows (int b)) i \<longleftrightarrow> valid_at n i \<and> b \<le> nat (vs ! i)" for b
    using True v by (simp add: kernel_simps [OF K] keeps_masked_map le_nat_iff)
  have le: "keeps (k_lt_eq_int K ?rows (int h)) i \<longleftrightarrow> valid_at n i \<and> nat (vs ! i) \<le> h" for h
    using True v by (simp add: kernel_simps [OF K] keeps_masked_map nat_le_iff)
  have both: "keeps (k_and K (k_gt_eq_int K ?rows (int b)) (k_lt_eq_int K ?rows (int h))) i \<longleftrightarrow>
      valid_at n i \<and> b \<le> nat (vs ! i) \<and> nat (vs ! i) \<le> h" for b h
    by (subst keeps_and [OF K]) (auto simp: kernel_simps [OF K] ge [unfolded kernel_simps [OF K]] le [unfolded kernel_simps [OF K]])
  have all: "keeps (masked n (map (\<lambda>_. True) vs)) i \<longleftrightarrow> valid_at n i"
    using True by (simp add: keeps_masked)
  have top: "\<not> h < 2 ^ bits \<Longrightarrow> nat (vs ! i) \<le> h" for h
    using within_top [OF v] by (simp add: nat_le_iff)
  have bot: "\<not> b < 2 ^ bits \<Longrightarrow> \<not> b \<le> nat (vs ! i)" for b
    using within_bottom [OF v] v by (simp add: le_nat_iff)
  show ?thesis
    using True top bot
    by (cases lo; cases hi) (auto simp: within_def Let_def within_bounds_def ge le both all)
qed

lemma length_within:
  "kernels_ok K \<Longrightarrow> length (within K bits vs n lo hi) = length vs"
  by (auto simp: within_def Let_def kernel_simps split: option.splits)

lemma slot_of_less: "slot_of t = Some s \<Longrightarrow> s < int_types"
  by (cases t) (auto simp: slot_of_def int_types_def Let_def split: if_splits)

lemma slot_of_int: "slot_of (DInt a) = slot_of (DInt b) \<longleftrightarrow> a = b"
  by (cases a; cases b) (simp_all add: slot_of_def)

lemma slot_of_width: "slot_of s = slot_of t \<Longrightarrow> slot_of s \<noteq> None \<Longrightarrow> s = t"
  using slot_of_int by (cases s; cases t) (auto simp: slot_of_def)

lemma int_unsigned_bits_range: "0 \<le> int (unsigned_bits t x) \<and> int (unsigned_bits t x) < 2 ^ bits_of t"
  by (metis of_nat_0_le_iff of_nat_less_iff of_nat_numeral of_nat_power unsigned_bits_less)

lemma keeps_block_numbers_within:
  assumes "kernels_ok K"
  shows "keeps (block_numbers_within K (t, vs, n) lo hi) i \<longleftrightarrow>
     i < length vs \<and> valid_at n i \<and> within_bounds lo hi (block_number (t, vs, n) i)"
proof -
  have r: "v \<in> set (map (\<lambda>v. int (unsigned_bits t v)) vs) \<Longrightarrow> 0 \<le> v \<and> v < 2 ^ bits_of t" for v
    using int_unsigned_bits_range by auto
  have "keeps (within K (bits_of t) (map (\<lambda>v. int (unsigned_bits t v)) vs) n lo hi) i \<longleftrightarrow>
      i < length (map (\<lambda>v. int (unsigned_bits t v)) vs) \<and> valid_at n i \<and>
      within_bounds lo hi (nat (map (\<lambda>v. int (unsigned_bits t v)) vs ! i))"
    by (rule keeps_within [OF assms r])
  then show ?thesis
    by (cases "i < length vs") auto
qed


section \<open>Properties\<close>

text \<open>
  C1: A filter list of integers, narrowed to the stored width by \<open>stored_keys\<close>, selects a stored row
  by its join key exactly when the row's bits, read at the list's own signedness and the stored
  width, are one of the listed integers: a value the stored width cannot hold selects nothing, and
  bits stored at the other signedness are never confused with a listed value.
\<close>

theorem stored_keys_select:
  assumes "in_range t x" and "values_ok vs" and "stored_keys vs (DInt t) = Some ks"
  shows "stored_key x \<in> set ks \<longleftrightarrow>
     declared_value x (bits_of t) (values_signed vs) \<in> set (listed_ints vs)"
  using assms by (rule stored_keys_iff)

theorem stored_keys_select_witness:
  "stored_key (-1) \<in> set (the (stored_keys (Unsigned [255, 256]) (DInt Int8))) \<longleftrightarrow>
     declared_value (-1) 8 False \<in> set [255, 256]"
proof -
  have "in_range Int8 (-1)" by (simp add: in_range_def)
  moreover have "values_ok (Unsigned [255, 256])" by simp
  moreover obtain ks where ks: "stored_keys (Unsigned [255, 256]) (DInt Int8) = Some ks" by simp
  ultimately show ?thesis
    using stored_keys_select [of Int8 "-1" "Unsigned [255, 256]" ks] by simp
qed

text \<open>
  The block bounds of a scan keep exactly the valid rows whose block number, the stored bits read
  unsigned, lies between the bounds, at every stored width; a lower bound that the width cannot hold
  keeps no row and an upper bound that it cannot hold excludes none.
\<close>

theorem block_numbers_within_keeps:
  assumes "kernels_ok K"
  shows "keeps (block_numbers_within K (t, vs, n) lo hi) i \<longleftrightarrow>
     i < length vs \<and> valid_at n i \<and> within_bounds lo hi (block_number (t, vs, n) i)"
  using assms by (rule keeps_block_numbers_within)

theorem block_numbers_within_keeps_witness:
  "keeps (block_numbers_within plain_kernels (Int8, [-1, 5], None) (Some 200) (Some 300)) 0 \<longleftrightarrow>
     within_bounds (Some 200) (Some 300) 255"
  using block_numbers_within_keeps [OF kernels_ok_plain, of Int8 "[-1, 5]" None "Some 200" "Some 300" 0]
  by (simp add: unsigned_bits_def valid_at_def)

end
