(* ===== verification/Json.thy ===== *)
theory Json
  imports Errors
begin

text \<open>
  Requests as data, and the libraries a request passes through. \<open>serde_json::Value\<close> keeps an object's
  entries in the request's order and its numbers in three forms (unsigned, negative, float; a float is
  never looked into). JSON text, base 64, hexadecimal and XXH3 are other crates' code: they are the
  fields of \<open>externals\<close>, an argument of the definitions that use them.
\<close>

datatype json =
    JNull
  | JBool bool
  | JPosInt nat
  | JNegInt int
  | JFloat string
  | JString string
  | JArray "json list"
  | JObject "(string \<times> json) list"

fun as_u64 :: "json \<Rightarrow> nat option" where
  "as_u64 (JPosInt n) = Some n"
| "as_u64 _ = None"

fun as_i64 :: "json \<Rightarrow> int option" where
  "as_i64 (JPosInt n) = (if n < 2 ^ 63 then Some (int n) else None)"
| "as_i64 (JNegInt i) = Some i"
| "as_i64 _ = None"

fun as_bool :: "json \<Rightarrow> bool option" where
  "as_bool (JBool b) = Some b"
| "as_bool _ = None"

fun as_str :: "json \<Rightarrow> string option" where
  "as_str (JString s) = Some s"
| "as_str _ = None"

fun as_array :: "json \<Rightarrow> json list option" where
  "as_array (JArray vs) = Some vs"
| "as_array _ = None"

fun as_object :: "json \<Rightarrow> (string \<times> json) list option" where
  "as_object (JObject es) = Some es"
| "as_object _ = None"

definition is_json_null :: "json \<Rightarrow> bool" where
  "is_json_null v = (v = JNull)"

text \<open>Numbers are of the widths the crate stores them at, and an object's keys are distinct.\<close>

fun json_ok :: "json \<Rightarrow> bool" where
  "json_ok (JPosInt n) = (n < 2 ^ 64)"
| "json_ok (JNegInt i) = (- (2 ^ 63) \<le> i \<and> i < 0)"
| "json_ok (JArray vs) = list_all json_ok vs"
| "json_ok (JObject es) = (distinct (map fst es) \<and> list_all (\<lambda>e. json_ok (snd e)) es)"
| "json_ok _ = True"

record externals =
  x_from_slice :: "u8 list \<Rightarrow> json option"
  x_base64_decode :: "string \<Rightarrow> u8 list option"
  x_hex_decode :: "u8 list \<Rightarrow> u8 list option"
  x_hex_encode :: "u8 list \<Rightarrow> u8 list"
  x_xxh3 :: "u8 list \<Rightarrow> u64"
  x_xxh3_seeded :: "u64 \<Rightarrow> u8 list \<Rightarrow> u64"

text \<open>What the crate documents of \<open>hex_decode\<close>: two digits of either case make one byte.\<close>

definition hex_digit_value :: "u8 \<Rightarrow> nat" where
  "hex_digit_value b =
     (let n = unat b in if n \<le> 57 then n - 48 else if n \<le> 70 then n - 55 else n - 87)"

fun hex_bytes :: "u8 list \<Rightarrow> u8 list" where
  "hex_bytes (a # b # ds) = word_of_nat (hex_digit_value a * 16 + hex_digit_value b) # hex_bytes ds"
| "hex_bytes _ = []"

definition hex_decode_ok :: "externals \<Rightarrow> bool" where
  "hex_decode_ok X \<longleftrightarrow> (\<forall>s. even (length s) \<and> list_all is_ascii_hexdigit s \<longrightarrow>
     x_hex_decode X (as_bytes s) = Some (hex_bytes (as_bytes s)))"

text \<open>And of \<open>hex_encode\<close>: two lowercase digits for each byte.\<close>

definition hex_digit :: "nat \<Rightarrow> u8" where
  "hex_digit n = word_of_nat (if n < 10 then 48 + n else 87 + n)"

definition hex_text :: "u8 list \<Rightarrow> u8 list" where
  "hex_text bs = concat (map (\<lambda>b. [hex_digit (unat b div 16), hex_digit (unat b mod 16)]) bs)"

definition hex_encode_ok :: "externals \<Rightarrow> bool" where
  "hex_encode_ok X \<longleftrightarrow> (\<forall>bs. x_hex_encode X bs = hex_text bs)"

definition plain_externals :: externals where
  "plain_externals =
     \<lparr>x_from_slice = (\<lambda>_. None), x_base64_decode = (\<lambda>s. Some (as_bytes s)),
      x_hex_decode = (\<lambda>ds. Some (hex_bytes ds)), x_hex_encode = hex_text,
      x_xxh3 = (\<lambda>bs. word_of_nat (length bs)),
      x_xxh3_seeded = (\<lambda>seed bs. seed + word_of_nat (length bs))\<rparr>"

lemma hex_decode_ok_plain [simp]: "hex_decode_ok plain_externals"
  by (simp add: hex_decode_ok_def plain_externals_def)

lemma hex_encode_ok_plain [simp]: "hex_encode_ok plain_externals"
  by (simp add: hex_encode_ok_def plain_externals_def)

lemma length_hex_bytes [simp]: "length (hex_bytes ds) = length ds div 2"
  by (induction ds rule: hex_bytes.induct) simp_all

lemma as_u64_Some: "as_u64 v = Some n \<longleftrightarrow> v = JPosInt n"
  by (cases v) auto

lemma as_bool_Some: "as_bool v = Some b \<longleftrightarrow> v = JBool b"
  by (cases v) auto

lemma as_str_Some: "as_str v = Some s \<longleftrightarrow> v = JString s"
  by (cases v) auto

lemma as_array_Some: "as_array v = Some vs \<longleftrightarrow> v = JArray vs"
  by (cases v) auto

lemma as_object_Some: "as_object v = Some es \<longleftrightarrow> v = JObject es"
  by (cases v) auto

lemmas json_views = as_u64_Some as_bool_Some as_str_Some as_array_Some as_object_Some

end
