(* ===== verification/Sets.thy ===== *)
theory Sets
  imports Json
begin

text \<open>
  The sets a request declares, \<^verbatim>\<open>src/sets.rs\<close>: a binary fuse filter read from bytes the client sends,
  and its membership lookup. An index past the fingerprints would take the process down, so the lookup
  is modelled with that outcome (\<^const>\<open>None\<close>), and the theory shows that no bytes that \<open>from_bytes\<close>
  accepts reach it.
\<close>

unbundle bit_operations_syntax

definition max_set_canaries :: nat where
  "max_set_canaries = 64"

definition max_set_references :: nat where
  "max_set_references = 64"

record fuse8 =
  f_seed :: u64
  f_segment_length :: u64
  f_segment_mask :: u64
  f_segment_count_length :: u64
  f_fingerprints :: "u8 list"
  f_digest :: u64

record set_filter =
  s_fuse8 :: fuse8
  s_canaries :: "string list"

type_synonym sets = "(string, set_filter) omap"

definition header_bytes :: nat where
  "header_bytes = 20"

definition max_segment_length :: u64 where
  "max_segment_length = push_bit 18 1"

datatype set_error =
    ShorterThanHeader | UnsoundHeader | SetNotObject | SetUnknownKey string | NoStructure
  | Fuse8NotString | NotBase64 | CanariesNotStrings | CanaryCount nat

definition le_value :: "u8 list \<Rightarrow> nat" where
  "le_value bs = foldr (\<lambda>b n. unat b + 256 * n) bs 0"

definition from_le_bytes :: "u8 list \<Rightarrow> u64" where
  "from_le_bytes bs = word_of_nat (le_value bs)"

definition is_power_of_two :: "u64 \<Rightarrow> bool" where
  "is_power_of_two w = list_ex (\<lambda>k. w = push_bit k 1) [0..<64]"

definition header_word :: "u8 list \<Rightarrow> nat \<Rightarrow> u64" where
  "header_word header at_byte = from_le_bytes (take 4 (drop at_byte header))"

definition from_bytes :: "externals \<Rightarrow> u8 list \<Rightarrow> set_error + fuse8" where
  "from_bytes X bytes =
     (if length bytes < header_bytes then Inl ShorterThanHeader
      else
        let header = take header_bytes bytes;
            fps = drop header_bytes bytes;
            seed = from_le_bytes (take 8 header);
            seg_len = header_word header 8;
            mask = header_word header 12;
            count_len = header_word header 16;
            sound = is_power_of_two seg_len \<and> seg_len \<le> max_segment_length \<and> mask = seg_len - 1 \<and>
              0 < count_len \<and> count_len mod seg_len = 0 \<and>
              unat (count_len + 2 * seg_len) \<le> length fps
        in if \<not> sound then Inl UnsoundHeader
           else Inr \<lparr>f_seed = seed, f_segment_length = seg_len, f_segment_mask = mask,
             f_segment_count_length = count_len, f_fingerprints = fps, f_digest = x_xxh3 X bytes\<rparr>)"

definition mix :: "u64 \<Rightarrow> u64" where
  "mix x0 =
     (let x1 = x0 XOR drop_bit 33 x0;
          x2 = x1 * 0xff51afd7ed558ccd;
          x3 = x2 XOR drop_bit 33 x2;
          x4 = x3 * 0xc4ceb9fe1a85ec53
      in x4 XOR drop_bit 33 x4)"

definition slot_indices :: "fuse8 \<Rightarrow> u64 \<Rightarrow> u64 \<times> u64 \<times> u64" where
  "slot_indices f hash =
     (let i0 = ucast (drop_bit 64 ((ucast hash :: u128) * ucast (f_segment_count_length f))) in
      (i0,
       (i0 + f_segment_length f) XOR (drop_bit 18 hash AND f_segment_mask f),
       (i0 + 2 * f_segment_length f) XOR (hash AND f_segment_mask f)))"

text \<open>\<^const>\<open>None\<close> is the panic of an index past the fingerprints.\<close>

definition fuse_contains :: "externals \<Rightarrow> fuse8 \<Rightarrow> u8 list \<Rightarrow> bool option" where
  "fuse_contains X f v =
     (let hash = mix (x_xxh3 X v + f_seed f);
          fingerprint = (ucast (hash XOR drop_bit 32 hash) :: u8);
          fps = f_fingerprints f
      in case slot_indices f hash of (i0, i1, i2) \<Rightarrow>
        case (get fps (unat i0), get fps (unat i1), get fps (unat i2)) of
          (Some a, Some b, Some c) \<Rightarrow> Some (fingerprint XOR a XOR b XOR c = 0)
        | _ \<Rightarrow> None)"

definition parse_set :: "externals \<Rightarrow> json \<Rightarrow> set_error + set_filter" where
  "parse_set X v =
     and_then (ok_or SetNotObject (as_object v)) (\<lambda>obj.
     case find (\<lambda>k. k \<notin> {''fuse8'', ''canaries''}) (keys obj) of
       Some k \<Rightarrow> Inl (SetUnknownKey k)
     | None \<Rightarrow>
       and_then (ok_or NoStructure (map_of obj ''fuse8'')) (\<lambda>structure.
       and_then (ok_or Fuse8NotString (as_str structure)) (\<lambda>encoded.
       and_then (ok_or NotBase64 (x_base64_decode X encoded)) (\<lambda>bytes.
       and_then (from_bytes X bytes) (\<lambda>f.
       and_then (ok_or CanariesNotStrings
          (case map_of obj ''canaries'' of
             None \<Rightarrow> None
           | Some c \<Rightarrow> (case as_array c of
               None \<Rightarrow> None
             | Some vs \<Rightarrow> those (map as_str vs)))) (\<lambda>canaries.
       and_then (ensure (1 \<le> length canaries \<and> length canaries \<le> max_set_canaries)
         (CanaryCount (length canaries))) (\<lambda>_.
       Inr \<lparr>s_fuse8 = f, s_canaries = canaries\<rparr>)))))))"

definition parse_sets :: "externals \<Rightarrow> json option \<Rightarrow> engine_error + sets" where
  "parse_sets X v =
     (case v of
        None \<Rightarrow> Inr []
      | Some JNull \<Rightarrow> Inr []
      | Some w \<Rightarrow>
          and_then (ok_or (EngineError MalformedRequest) (as_object w)) (\<lambda>declared.
          try_collect (\<lambda>(name, s).
            case parse_set X s of
              Inl _ \<Rightarrow> Inl (EngineError InvalidSet)
            | Inr f \<Rightarrow> Inr (name, f)) declared))"


section \<open>Facts\<close>

text \<open>What \<^const>\<open>from_bytes\<close> establishes, in natural numbers.\<close>

definition fuse8_ok :: "fuse8 \<Rightarrow> bool" where
  "fuse8_ok f \<longleftrightarrow>
     (\<exists>k c. k \<le> 18 \<and> 0 < c \<and> unat (f_segment_length f) = 2 ^ k \<and>
        unat (f_segment_mask f) = 2 ^ k - 1 \<and> unat (f_segment_count_length f) = c * 2 ^ k \<and>
        c * 2 ^ k < 2 ^ 32 \<and> (c + 2) * 2 ^ k \<le> length (f_fingerprints f))"

lemma le_value_less: "le_value bs < 256 ^ length bs"
proof (induction bs)
  case Nil
  then show ?case by (simp add: le_value_def)
next
  case (Cons b bs)
  have "unat b < 256" using unsigned_less [of b] by simp
  with Cons show ?case by (simp add: le_value_def)
qed

lemma from_le_bytes_less:
  assumes "length bs \<le> 4"
  shows "unat (from_le_bytes bs) < 2 ^ 32"
proof -
  from assms have "(256 :: nat) ^ length bs \<le> 256 ^ 4" by (intro power_increasing) simp_all
  with le_value_less [of bs] have l: "le_value bs < 2 ^ 32" by simp
  then show ?thesis by (simp add: from_le_bytes_def unat_of_nat)
qed

lemma header_word_less: "unat (header_word header i) < 2 ^ 32"
  by (simp only: header_word_def) (rule from_le_bytes_less, simp)

lemma is_power_of_two_iff: "is_power_of_two w \<longleftrightarrow> (\<exists>k < 64. w = push_bit k 1)"
  by (auto simp: is_power_of_two_def list_ex_iff)

lemma unat_push_bit_1:
  assumes "k < 64"
  shows "unat (push_bit k 1 :: u64) = 2 ^ k"
proof -
  from assms have "(2 :: nat) ^ k < 2 ^ 64" by (intro power_strict_increasing) simp_all
  moreover have "unat (push_bit k 1 :: u64) = take_bit 64 (push_bit k 1 :: nat)"
    by (simp only: unsigned_push_bit_eq unsigned_1) simp
  ultimately show ?thesis using assms by (simp add: push_bit_of_1)
qed

lemma from_bytes_ok:
  assumes "from_bytes X bytes = Inr f"
  shows "fuse8_ok f"
proof -
  let ?h = "take header_bytes bytes"
  let ?l = "header_word ?h 8" and ?m = "header_word ?h 12" and ?n = "header_word ?h 16"
  let ?fps = "drop header_bytes bytes"
  from assms have sound: "is_power_of_two ?l" "?l \<le> max_segment_length" "?m = ?l - 1" "0 < ?n"
      "?n mod ?l = 0" "unat (?n + 2 * ?l) \<le> length ?fps"
    and f: "f_segment_length f = ?l" "f_segment_mask f = ?m" "f_segment_count_length f = ?n"
      "f_fingerprints f = ?fps"
    by (auto simp: from_bytes_def Let_def split: if_splits)
  from sound(1) obtain k where k: "k < 64" "?l = push_bit k 1" by (auto simp: is_power_of_two_iff)
  have l: "unat ?l = 2 ^ k" by (simp only: k(2) unat_push_bit_1 [OF k(1)])
  have "unat ?l \<le> unat max_segment_length" using sound(2) by (simp add: word_le_nat_alt)
  then have "(2 :: nat) ^ k \<le> 2 ^ 18" by (simp only: l max_segment_length_def) (simp only: unat_push_bit_1)
  then have k18: "k \<le> 18" by (rule power_le_imp_le_exp [rotated]) simp
  have "unat ?m = 2 ^ k - 1"
    using sound(3) l by (metis gr0_conv_Suc diff_Suc_1 unat_eq_zero unat_minus_one zero_less_numeral zero_less_power not_gr_zero)
  moreover have n32: "unat ?n < 2 ^ 32" by (rule header_word_less)
  moreover have "unat ?n mod 2 ^ k = 0"
    using sound(5) l by (metis unat_0 unat_mod)
  then obtain c where c: "unat ?n = c * 2 ^ k" by (metis mod_0_imp_dvd dvdE mult.commute)
  moreover have "0 < c" using sound(4) c by (metis mult_is_0 not_gr_zero unat_0 word_less_nat_alt)
  moreover have "unat (?n + 2 * ?l) = unat ?n + 2 * unat ?l"
  proof -
    have "unat ?l < 2 ^ 32" by (rule header_word_less)
    then have "unat (2 * ?l) = 2 * unat ?l" by (simp add: unat_mult_lem [THEN iffD1])
    with n32 \<open>unat ?l < 2 ^ 32\<close> show ?thesis by (simp add: unat_add_lem [THEN iffD1])
  qed
  ultimately show ?thesis
    using f l k18 sound(6) unfolding fuse8_ok_def
    by (intro exI [of _ k] exI [of _ c]) (simp add: algebra_simps)
qed


lemma unat_drop_bit_div: "unat (drop_bit k w) = unat w div 2 ^ k"
  by (rule trans [OF unat_drop_bit_eq drop_bit_eq_div])

text \<open>An exclusive or below a power of two stays in the same block of that size.\<close>

lemma xor_in_block:
  fixes x m :: u64
  assumes m: "unat m < 2 ^ k" and x: "unat x < c * 2 ^ k"
  shows "unat (x XOR m) < c * 2 ^ k"
proof -
  have "unat (drop_bit k m) = unat m div 2 ^ k"
    by (rule unat_drop_bit_div)
  also have "\<dots> = 0" using m by simp
  finally have "unat (drop_bit k m) = 0" .
  then have "drop_bit k m = 0" by (simp only: unat_eq_zero)
  then have "drop_bit k (x XOR m) = drop_bit k x" by simp
  then have "unat (x XOR m) div 2 ^ k = unat x div 2 ^ k"
    by (metis unat_drop_bit_div)
  also have "\<dots> < c"
    using x by (simp add: less_mult_imp_div_less)
  finally show ?thesis by (simp add: div_less_iff_less_mult)
qed

lemma and_mask_less:
  fixes x m :: u64
  assumes "unat m = 2 ^ k - 1"
  shows "unat (x AND m) < 2 ^ k"
proof -
  have "unat (x AND m) \<le> unat m"
    using word_and_le1 [of x m] by (simp only: word_le_nat_alt)
  also have "\<dots> < 2 ^ k" using assms by simp
  finally show ?thesis .
qed

text \<open>The high half of a product of two words is below either of them.\<close>

lemma high_half_less:
  fixes h n :: u64
  assumes "0 < unat n"
  shows "unat (ucast (drop_bit 64 ((ucast h :: u128) * ucast n)) :: u64) < unat n"
proof -
  let ?p = "(ucast h :: u128) * ucast n"
  have h: "unat h < 2 ^ 64" and n: "unat n < 2 ^ 64"
    using unsigned_less [of h] unsigned_less [of n] by simp_all
  have u: "unat (ucast w :: u128) = unat w" for w :: u64
  proof -
    have "unat w < 2 ^ 64" using unsigned_less [of w] by simp
    then have "unat w < 2 ^ 128" by simp
    then show ?thesis by (simp add: unsigned_ucast_eq take_bit_nat_eq_self)
  qed
  have "unat h * unat n < 2 ^ 64 * unat n"
    using h assms by (rule mult_strict_right_mono)
  then have q: "unat h * unat n div 2 ^ 64 < unat n"
    by (simp add: less_mult_imp_div_less mult.commute)
  have "unat h * unat n < 2 ^ 64 * 2 ^ 64"
    using h n by (intro mult_strict_mono) simp_all
  then have "unat ?p = unat h * unat n"
    using u by (simp add: unat_mult_lem [THEN iffD1])
  then have "unat (drop_bit 64 ?p) = unat h * unat n div 2 ^ 64"
    by (simp only: unat_drop_bit_div)
  moreover have "unat (ucast w :: u64) \<le> unat w" for w :: u128
    by (simp only: unsigned_ucast_eq) (rule take_bit_nat_less_eq_self)
  from this [of "drop_bit 64 ?p"]
  have "unat (ucast (drop_bit 64 ?p) :: u64) \<le> unat (drop_bit 64 ?p)" .
  ultimately have "unat (ucast (drop_bit 64 ?p) :: u64) \<le> unat h * unat n div 2 ^ 64"
    by (simp only:)
  then show ?thesis using q by (rule le_less_trans)
qed

lemma slot_indices_less:
  assumes "fuse8_ok f" and "slot_indices f hash = (i0, i1, i2)"
  shows "unat i0 < length (f_fingerprints f) \<and> unat i1 < length (f_fingerprints f) \<and>
    unat i2 < length (f_fingerprints f)"
proof -
  from assms(1) obtain k c where k: "k \<le> 18" "0 < c" and l: "unat (f_segment_length f) = 2 ^ k"
    and m: "unat (f_segment_mask f) = 2 ^ k - 1"
    and n: "unat (f_segment_count_length f) = c * 2 ^ k" "c * 2 ^ k < 2 ^ 32"
    and fps: "(c + 2) * 2 ^ k \<le> length (f_fingerprints f)"
    by (auto simp: fuse8_ok_def)
  let ?N = "f_segment_count_length f"
  have "0 < unat ?N" using n(1) k(2) by simp
  from high_half_less [OF this, of hash] have i0: "unat i0 < c * 2 ^ k"
    using assms(2) n(1) by (auto simp: slot_indices_def Let_def)
  have k32: "(2 :: nat) ^ k \<le> 2 ^ 18" using k(1) by (intro power_increasing) simp_all
  have a1: "unat (i0 + f_segment_length f) = unat i0 + 2 ^ k"
    using i0 n(2) k32 l by (simp add: unat_add_lem [THEN iffD1])
  have "unat (2 * f_segment_length f) = 2 * 2 ^ k"
    using k32 l by (simp add: unat_mult_lem [THEN iffD1])
  then have a2: "unat (i0 + 2 * f_segment_length f) = unat i0 + 2 * 2 ^ k"
    using i0 n(2) k32 by (simp add: unat_add_lem [THEN iffD1])
  from assms(2) have i: "i1 = (i0 + f_segment_length f) XOR (drop_bit 18 hash AND f_segment_mask f)"
      "i2 = (i0 + 2 * f_segment_length f) XOR (hash AND f_segment_mask f)"
    by (auto simp: slot_indices_def Let_def)
  have "unat i1 < (c + 1) * 2 ^ k"
    unfolding i using a1 i0 by (intro xor_in_block and_mask_less [OF m]) simp
  moreover have "unat i2 < (c + 2) * 2 ^ k"
    unfolding i using a2 i0 by (intro xor_in_block and_mask_less [OF m]) simp
  ultimately show ?thesis using i0 fps by (simp add: algebra_simps)
qed


lemma fuse_contains_total: "fuse8_ok f \<Longrightarrow> fuse_contains X f v \<noteq> None"
  using slot_indices_less [of f] by (auto simp: fuse_contains_def Let_def get_def split: prod.splits)

definition set_ok :: "set_filter \<Rightarrow> bool" where
  "set_ok s = (fuse8_ok (s_fuse8 s) \<and> 1 \<le> length (s_canaries s) \<and> length (s_canaries s) \<le> max_set_canaries)"

lemma parse_set_ok: "parse_set X v = Inr s \<Longrightarrow> set_ok s"
  by (auto simp: parse_set_def set_ok_def and_then_Inr_iff from_bytes_ok split: option.splits)

lemma parse_sets_ok: "parse_sets X v = Inr ss \<Longrightarrow> list_all (\<lambda>(n, s). set_ok s) ss"
proof -
  assume ss: "parse_sets X v = Inr ss"
  have "list_all (\<lambda>(n, s). set_ok s) ss"
    if "try_collect (\<lambda>(name, s). case parse_set X s of Inl _ \<Rightarrow> Inl (EngineError InvalidSet)
          | Inr f \<Rightarrow> Inr (name, f)) es = Inr ss" for es
    using that
  proof (induction es arbitrary: ss)
    case Nil
    then show ?case by simp
  next
    case (Cons e es)
    obtain n s where "e = (n, s)" by (cases e)
    with Cons show ?case
      by (cases "parse_set X s") (auto simp: and_then_Inr_iff parse_set_ok)
  qed
  with ss show ?thesis
    by (auto simp: parse_sets_def and_then_Inr_iff split: option.splits json.splits)
qed


section \<open>Properties\<close>

text \<open>
  C1: No set a client can send makes a lookup read past the set's fingerprints: whatever bytes
  \<open>parse_sets\<close> accepts and whatever value is looked up, \<open>contains\<close> returns a verdict; and an accepted
  set carries between one and sixty-four canaries.
\<close>

theorem parse_sets_safe:
  assumes "parse_sets X v = Inr ss"
  shows "list_all (\<lambda>(name, s). (\<forall>value. fuse_contains X (s_fuse8 s) value \<noteq> None) \<and>
     1 \<le> length (s_canaries s) \<and> length (s_canaries s) \<le> max_set_canaries) ss"
  using parse_sets_ok [OF assms] fuse_contains_total
  by (auto simp: list_all_iff set_ok_def)

definition sample_fuse8 :: "u8 list" where
  "sample_fuse8 = [0, 0, 0, 0, 0, 0, 0, 0,  1, 0, 0, 0,  0, 0, 0, 0,  1, 0, 0, 0,  7, 7, 7]"

definition sample_externals :: externals where
  "sample_externals = plain_externals\<lparr>x_base64_decode := (\<lambda>_. Some sample_fuse8)\<rparr>"

definition sample_sets :: json where
  "sample_sets = JObject [(''holders'', JObject
     [(''fuse8'', JString ''AAAAAAAAAAABAAAAAAAAAAEAAAAHBwc=''), (''canaries'', JArray [JString ''0xaa''])])]"

lemma sample_from_bytes: "\<exists>f. from_bytes sample_externals sample_fuse8 = Inr f"
  by (simp add: from_bytes_def sample_fuse8_def header_bytes_def header_word_def from_le_bytes_def
      le_value_def is_power_of_two_def max_segment_length_def Let_def upt_rec)

theorem parse_sets_safe_witness:
  "\<exists>ss. parse_sets sample_externals (Some sample_sets) = Inr ss \<and> length ss = 1 \<and>
     list_all (\<lambda>(name, s). \<forall>value. fuse_contains sample_externals (s_fuse8 s) value \<noteq> None) ss"
proof -
  obtain f where f: "from_bytes sample_externals sample_fuse8 = Inr f"
    using sample_from_bytes by blast
  have "x_base64_decode sample_externals s = Some sample_fuse8" for s
    by (simp add: sample_externals_def)
  with f obtain ss where ss: "parse_sets sample_externals (Some sample_sets) = Inr ss" "length ss = 1"
    by (simp add: parse_sets_def sample_sets_def parse_set_def keys_def max_set_canaries_def)
  from parse_sets_safe [OF ss(1)] ss show ?thesis by (auto simp: list_all_iff)
qed

end
