(* ===== verification/Encoder.thy ===== *)
theory Encoder
  imports Json
begin

text \<open>
  How bytes render as text in a response, the part of \<^verbatim>\<open>src/output/encoder.rs\<close> that filters share
  with it: the quoted hexadecimal and base 58 renderings a set is looked up by, and the camel case of
  field names. Base 58 is shown injective: two keys never render alike, leading zeros included.
\<close>

definition quote :: u8 where
  "quote = 34"

definition encode_hex_bytes :: "externals \<Rightarrow> u8 list \<Rightarrow> u8 list" where
  "encode_hex_bytes X bytes = [quote] @ as_bytes ''0x'' @ x_hex_encode X bytes @ [quote]"

definition base58_alphabet :: string where
  "base58_alphabet = ''123456789ABCDEFGHJKLMNPQRSTUVWXYZabcdefghijkmnopqrstuvwxyz''"

text \<open>
  The digits are base 58, least significant first. \<open>mul_add\<close> is the pass over the digits already
  there, which leaves the carry, and \<open>push_carry\<close> the loop that turns it into further digits.
\<close>

fun mul_add :: "nat list \<Rightarrow> nat \<Rightarrow> nat list \<times> nat" where
  "mul_add [] carry = ([], carry)"
| "mul_add (d # ds) carry =
     (let c = carry + d * 256; r = mul_add ds (c div 58) in (c mod 58 # fst r, snd r))"

fun push_carry :: "nat \<Rightarrow> nat list" where
  "push_carry carry = (if carry = 0 then [] else carry mod 58 # push_carry (carry div 58))"

declare push_carry.simps [simp del]

definition base58_step :: "u8 \<Rightarrow> nat list \<Rightarrow> nat list" where
  "base58_step b digits = (let r = mul_add digits (unat b) in fst r @ push_carry (snd r))"

definition base58_digits :: "u8 list \<Rightarrow> nat list" where
  "base58_digits bytes = fold base58_step bytes []"

definition leading_zeros :: "u8 list \<Rightarrow> nat" where
  "leading_zeros bytes = length (takeWhile (\<lambda>b. b = 0) bytes)"

definition encode_base58_bytes :: "u8 list \<Rightarrow> u8 list" where
  "encode_base58_bytes bytes =
     (let zeros = leading_zeros bytes in
      [quote] @ replicate zeros (byte_of (CHR ''1''))
        @ map (\<lambda>d. byte_of (base58_alphabet ! d)) (rev (base58_digits (drop zeros bytes))) @ [quote])"

text \<open>The flag is \<open>capitalize_next\<close>; text of several bytes per character holds no underscore byte.\<close>

fun camel_from :: "bool \<Rightarrow> string \<Rightarrow> string" where
  "camel_from capitalize_next [] = []"
| "camel_from capitalize_next (c # cs) =
     (if c = CHR ''_'' then camel_from True cs
      else if capitalize_next then to_ascii_uppercase c # camel_from False cs
      else c # camel_from False cs)"

definition snake_to_camel :: "string \<Rightarrow> string" where
  "snake_to_camel s = camel_from False s"


section \<open>Facts\<close>

fun le_number :: "nat \<Rightarrow> nat list \<Rightarrow> nat" where
  "le_number b [] = 0"
| "le_number b (d # ds) = d + b * le_number b ds"

definition be_number :: "u8 list \<Rightarrow> nat" where
  "be_number bs = foldl (\<lambda>n b. n * 256 + unat b) 0 bs"

definition canonical :: "nat \<Rightarrow> nat list \<Rightarrow> bool" where
  "canonical b ds = (list_all (\<lambda>d. d < b) ds \<and> (ds = [] \<or> last ds \<noteq> 0))"

lemma le_number_append: "le_number b (xs @ ys) = le_number b xs + b ^ length xs * le_number b ys"
  by (induction xs) (simp_all add: algebra_simps)

lemma mul_add_number:
  "le_number 58 (fst (mul_add ds c)) + 58 ^ length ds * snd (mul_add ds c) = c + 256 * le_number 58 ds
   \<and> length (fst (mul_add ds c)) = length ds \<and> list_all (\<lambda>d. d < 58) (fst (mul_add ds c))"
proof (induction ds arbitrary: c)
  case Nil
  then show ?case by simp
next
  case (Cons d ds)
  let ?c = "c + d * 256"
  from Cons [of "?c div 58"]
  have ih: "le_number 58 (fst (mul_add ds (?c div 58))) + 58 ^ length ds * snd (mul_add ds (?c div 58)) =
      ?c div 58 + 256 * le_number 58 ds" by blast
  have "?c mod 58 + 58 * (le_number 58 (fst (mul_add ds (?c div 58)))) + 58 * 58 ^ length ds * snd (mul_add ds (?c div 58))
      = ?c mod 58 + 58 * (?c div 58 + 256 * le_number 58 ds)"
    by (simp only: ih [symmetric]) (simp add: algebra_simps)
  also have "\<dots> = ?c + 58 * 256 * le_number 58 ds"
    using mod_mult_div_eq [of ?c 58] by (simp add: algebra_simps)
  finally show ?case using Cons [of "?c div 58"] by (simp add: Let_def algebra_simps)
qed

lemma push_carry_number: "le_number 58 (push_carry c) = c \<and> canonical 58 (push_carry c)"
proof (induction c rule: push_carry.induct)
  case (1 c)
  show ?case
  proof (cases "c = 0")
    case True
    then show ?thesis by (simp add: push_carry.simps canonical_def)
  next
    case False
    with 1 have ih: "le_number 58 (push_carry (c div 58)) = c div 58" "canonical 58 (push_carry (c div 58))"
      by simp_all
    have "push_carry (c div 58) = [] \<Longrightarrow> c div 58 = 0"
      using ih(1) by simp
    with False ih show ?thesis
      by (auto simp: push_carry.simps [of c] canonical_def)
  qed
qed


text \<open>A number has one canonical digit list in each base.\<close>

lemma canonical_Cons: "canonical b (d # ds) \<Longrightarrow> canonical b ds \<and> d < b \<and> (ds = [] \<longrightarrow> d \<noteq> 0)"
  by (auto simp: canonical_def split: if_splits)

lemma canonical_pos: "0 < b \<Longrightarrow> canonical b ds \<Longrightarrow> ds \<noteq> [] \<Longrightarrow> b ^ (length ds - 1) \<le> le_number b ds"
proof (induction ds)
  case Nil
  then show ?case by simp
next
  case (Cons d ds)
  show ?case
  proof (cases "ds = []")
    case True
    with canonical_Cons [OF Cons.prems(2)] show ?thesis by simp
  next
    case False
    with Cons.IH Cons.prems(1) canonical_Cons [OF Cons.prems(2)] have "b ^ (length ds - 1) \<le> le_number b ds" by simp
    then have "b * b ^ (length ds - 1) \<le> b * le_number b ds" by simp
    moreover have "b * b ^ (length ds - 1) = b ^ length ds"
      using False by (cases ds) simp_all
    ultimately have "b ^ length ds \<le> b * le_number b ds" by (simp only:)
    then show ?thesis by (simp add: trans_le_add2)
  qed
qed

lemma canonical_unique:
  "0 < b \<Longrightarrow> canonical b xs \<Longrightarrow> canonical b ys \<Longrightarrow> le_number b xs = le_number b ys \<Longrightarrow> xs = ys"
proof (induction xs arbitrary: ys)
  case Nil
  then show ?case using canonical_pos [of b ys] by (cases ys) auto
next
  case (Cons x xs)
  then obtain y zs where ys: "ys = y # zs"
    using canonical_pos [of b "x # xs"] by (cases ys) auto
  note x = canonical_Cons [OF Cons.prems(2)] and y = canonical_Cons [OF Cons.prems(3) [unfolded ys]]
  from Cons.prems(4) ys have e: "x + b * le_number b xs = y + b * le_number b zs" by simp
  then have "(x + b * le_number b xs) mod b = (y + b * le_number b zs) mod b"
    "(x + b * le_number b xs) div b = (y + b * le_number b zs) div b" by simp_all
  with x y Cons.prems(1) have "x = y" "le_number b xs = le_number b zs" by simp_all
  with Cons.IH [OF Cons.prems(1), of zs] x y ys show ?case by simp
qed

lemma base58_step_ok:
  assumes "canonical 58 ds"
  shows "le_number 58 (base58_step b ds) = unat b + 256 * le_number 58 ds \<and> canonical 58 (base58_step b ds)"
proof -
  let ?r = "mul_add ds (unat b)"
  note m = mul_add_number [of ds "unat b"] and p = push_carry_number [of "snd ?r"]
  have n: "le_number 58 (base58_step b ds) = unat b + 256 * le_number 58 ds"
    using m p by (simp add: base58_step_def Let_def le_number_append)
  have "push_carry (snd ?r) = [] \<Longrightarrow> fst ?r = []"
  proof (rule ccontr)
    assume e: "push_carry (snd ?r) = []" "fst ?r \<noteq> []"
    with p have "snd ?r = 0" by auto
    with m have v: "le_number 58 (fst ?r) = unat b + 256 * le_number 58 ds" by simp
    from e m have "ds \<noteq> []" by auto
    with canonical_pos [OF _ assms] have "58 ^ (length ds - 1) \<le> le_number 58 ds" by simp
    moreover have "(58 :: nat) ^ length ds = 58 * 58 ^ (length ds - 1)"
      using \<open>ds \<noteq> []\<close> by (cases ds) simp_all
    ultimately have "58 ^ length ds \<le> le_number 58 (fst ?r)" using v by simp
    moreover have "le_number 58 xs < 58 ^ length xs" if "list_all (\<lambda>d. d < 58) xs" for xs
      using that by (induction xs) auto
    ultimately show False using m by fastforce
  qed
  then have "canonical 58 (base58_step b ds)"
    using m p by (cases "push_carry (snd ?r) = []")
      (auto simp: base58_step_def Let_def canonical_def last_append)
  with n show ?thesis by blast
qed

lemma base58_digits_snoc: "base58_digits (bs @ [b]) = base58_step b (base58_digits bs)"
  by (simp add: base58_digits_def)

lemma base58_digits_ok: "le_number 58 (base58_digits bs) = be_number bs \<and> canonical 58 (base58_digits bs)"
proof (induction bs rule: rev_induct)
  case Nil
  then show ?case by (simp add: base58_digits_def be_number_def canonical_def)
next
  case (snoc b bs)
  with base58_step_ok [of "base58_digits bs" b] show ?case
    by (simp add: base58_digits_snoc be_number_def)
qed

lemma be_number_le_number: "be_number bs = le_number 256 (map unat (rev bs))"
proof (induction bs rule: rev_induct)
  case Nil
  then show ?case by (simp add: be_number_def)
next
  case (snoc b bs)
  then show ?case by (simp add: be_number_def)
qed

lemma canonical_bytes:
  fixes bs :: "u8 list"
  assumes "bs = [] \<or> hd bs \<noteq> 0"
  shows "canonical 256 (map unat (rev bs))"
proof -
  have "unat b < 256" for b :: u8 using unsigned_less [of b] by simp
  moreover have "bs \<noteq> [] \<Longrightarrow> last (map unat (rev bs)) = unat (hd bs)"
    by (simp add: last_map last_rev)
  ultimately show ?thesis
    using assms by (cases "bs = []") (auto simp: canonical_def list_all_iff unat_eq_zero)
qed

lemma be_number_inject:
  assumes "bs = [] \<or> hd bs \<noteq> 0" "cs = [] \<or> hd cs \<noteq> 0" "be_number bs = be_number cs"
  shows "bs = cs"
proof -
  have "map unat (rev bs) = map unat (rev cs)"
    using assms by (intro canonical_unique [of 256] canonical_bytes) (simp_all add: be_number_le_number)
  then have "rev bs = rev cs" by (rule map_injective) (auto intro: injI)
  then show ?thesis by simp
qed

lemma length_base58_alphabet: "length base58_alphabet = 58"
  by (simp add: base58_alphabet_def)

lemma base58_alphabet_inject: "i < 58 \<Longrightarrow> j < 58 \<Longrightarrow> base58_alphabet ! i = base58_alphabet ! j \<longleftrightarrow> i = j"
proof -
  have "distinct base58_alphabet" by (simp add: base58_alphabet_def)
  moreover assume "i < 58" "j < 58"
  ultimately show ?thesis by (simp add: nth_eq_iff_index_eq length_base58_alphabet)
qed

lemma base58_alphabet_0: "base58_alphabet ! 0 = CHR ''1''"
  by (simp add: base58_alphabet_def)

text \<open>The text of a canonical digit list does not start with the digit zero.\<close>

lemma rendered_digits:
  assumes "canonical 58 ds"
  shows "takeWhile (\<lambda>b. b = byte_of (CHR ''1''))
      (replicate z (byte_of (CHR ''1'')) @ map (\<lambda>d. byte_of (base58_alphabet ! d)) (rev ds)) =
    replicate z (byte_of (CHR ''1''))"
proof (cases ds rule: rev_cases)
  case Nil
  then show ?thesis by (simp add: takeWhile_append)
next
  case (snoc es d)
  with assms have "base58_alphabet ! d \<noteq> CHR ''1''"
    using base58_alphabet_inject [of d 0] by (simp add: canonical_def base58_alphabet_0)
  with snoc show ?thesis by (simp add: takeWhile_append)
qed

lemma rendered_digits_inject:
  assumes "canonical 58 ds" "canonical 58 es"
    "map (\<lambda>d. byte_of (base58_alphabet ! d)) (rev ds) = map (\<lambda>d. byte_of (base58_alphabet ! d)) (rev es)"
  shows "ds = es"
proof -
  have "inj_on (\<lambda>d. byte_of (base58_alphabet ! d)) {..<58}"
    by (auto intro!: inj_onI simp: base58_alphabet_inject)
  moreover have "set (rev ds) \<union> set (rev es) \<subseteq> {..<58}"
    using assms(1,2) by (auto simp: canonical_def list_all_iff)
  ultimately have "rev ds = rev es"
    using assms(3) inj_on_subset by (metis inj_on_map_eq_map)
  then show ?thesis by simp
qed

lemma drop_leading_zeros:
  "drop (leading_zeros bs) bs = [] \<or> hd (drop (leading_zeros bs) bs) \<noteq> 0"
  unfolding leading_zeros_def dropWhile_eq_drop [symmetric]
  by (metis (mono_tags, lifting) hd_dropWhile)

lemma take_leading_zeros: "replicate (leading_zeros bs) 0 @ drop (leading_zeros bs) bs = bs"
  by (induction bs) (simp_all add: leading_zeros_def)


section \<open>Properties\<close>

text \<open>
  The base 58 rendering of bytes is injective, leading zero bytes included: two keys that differ
  never render as the same text, so a set that holds one rendering never stands for another key.
\<close>

theorem encode_base58_injective:
  "encode_base58_bytes a = encode_base58_bytes b \<longleftrightarrow> a = b"
proof
  let ?one = "byte_of (CHR ''1'')"
  let ?ds = "\<lambda>bs. base58_digits (drop (leading_zeros bs) bs)"
  let ?text = "\<lambda>bs. map (\<lambda>d. byte_of (base58_alphabet ! d)) (rev (?ds bs))"
  assume "encode_base58_bytes a = encode_base58_bytes b"
  then have e: "replicate (leading_zeros a) ?one @ ?text a = replicate (leading_zeros b) ?one @ ?text b"
    by (simp add: encode_base58_bytes_def Let_def flip: append_assoc)
  have canon: "canonical 58 (?ds bs)" for bs
    using base58_digits_ok by blast
  have "replicate (leading_zeros a) ?one = replicate (leading_zeros b) ?one"
    using rendered_digits [OF canon] e by metis
  then have z: "leading_zeros a = leading_zeros b" by (metis length_replicate)
  with e have "?text a = ?text b" by simp
  then have "?ds a = ?ds b" by (rule rendered_digits_inject [OF canon canon])
  then have "be_number (drop (leading_zeros a) a) = be_number (drop (leading_zeros b) b)"
    using base58_digits_ok by metis
  then have "drop (leading_zeros a) a = drop (leading_zeros b) b"
    by (rule be_number_inject [OF drop_leading_zeros drop_leading_zeros])
  with z show "a = b" using take_leading_zeros by metis
qed simp

end
