(* ===== verification/Predicates.thy ===== *)
theory Predicates
  imports Integers Metadata Sets Encoder
begin

text \<open>
  The filters a scan evaluates, \<^verbatim>\<open>src/scan/predicate.rs\<close> with the text columns of \<^verbatim>\<open>src/text.rs\<close>: the
  concrete predicates as a datatype (one constructor per implementation of \<open>ArrayPredicate\<close>), their
  evaluation to a mask, the decisions made from a row group's statistics alone, and row predicates.
  A column is dictionary-encoded or not, null or not, and stored at any width; the reference reading
  \<open>admits\<close> says what a filter asks of one cell, and evaluation, skipping and proving are shown to agree
  with it. The hash tables a predicate fills on first use hold values of these functions and are
  therefore left out.
\<close>

unbundle bit_operations_syntax

section \<open>Outcomes\<close>

text \<open>The panic of a set lookup past the fingerprints is an outcome, so that it can be excluded.\<close>

datatype mask_error = UnsupportedType data_type | LookupPanic

definition constant_mask :: "array \<Rightarrow> bool \<Rightarrow> mask" where
  "constant_mask a v = masked (nulls_of a) (replicate (len a) v)"


section \<open>Statistics\<close>

datatype stat_range = SInts data_type int int | SText string string

definition stat_int :: "array \<Rightarrow> data_type \<Rightarrow> int option" where
  "stat_int stat stored =
     (case width_of stored of
        None \<Rightarrow> None
      | Some (bits, sg) \<Rightarrow>
          (case resolve_int stat of
             None \<Rightarrow> None
           | Some raw \<Rightarrow>
               if int_len raw = 0 then None else Some (declared_value (int_value raw 0) bits sg)))"

fun stat_text :: "array \<Rightarrow> string option" where
  "stat_text (AText Utf8 vs n) = (if vs = [] then None else Some (vs ! 0))"
| "stat_text _ = None"

definition stat_range_new :: "data_type \<Rightarrow> array \<Rightarrow> array \<Rightarrow> stat_range option" where
  "stat_range_new stored mn mx =
     (if is_integer stored then
        (case (stat_int mn stored, stat_int mx stored) of
           (Some lo, Some hi) \<Rightarrow> Some (SInts stored lo hi)
         | _ \<Rightarrow> None)
      else
        (case (stat_text mn, stat_text mx) of
           (Some lo, Some hi) \<Rightarrow> Some (SText lo hi)
         | _ \<Rightarrow> None))"


section \<open>Integer values against a stored column\<close>

definition key_value :: "u64 \<Rightarrow> bool \<Rightarrow> int" where
  "key_value key sg = (if sg then sint key else uint key)"

definition keys_outside :: "u64 list \<Rightarrow> data_type \<Rightarrow> int \<Rightarrow> int \<Rightarrow> bool option" where
  "keys_outside ks stored lo hi =
     map_option (\<lambda>(_, sg). list_all (\<lambda>k. key_value k sg < lo \<or> hi < key_value k sg) ks)
       (width_of stored)"

definition ints_outside :: "int_values \<Rightarrow> data_type \<Rightarrow> int \<Rightarrow> int \<Rightarrow> bool option" where
  "ints_outside ints stored lo hi =
     (case stored_keys ints stored of None \<Rightarrow> None | Some ks \<Rightarrow> keys_outside ks stored lo hi)"

definition ints_hold :: "int_values \<Rightarrow> data_type \<Rightarrow> int \<Rightarrow> bool option" where
  "ints_hold ints stored v =
     map_option (list_ex (\<lambda>k. k = stored_key v)) (stored_keys ints stored)"

datatype scalar_value =
    SvBoolean bool | SvUInt8 u8 | SvUInt16 u16 | SvUInt32 u32 | SvUInt64 u64
  | SvInt16 int | SvInt64 int | SvUtf8 string

fun as_ints :: "scalar_value \<Rightarrow> int_values option" where
  "as_ints (SvUInt8 v) = Some (Unsigned [ucast v])"
| "as_ints (SvUInt16 v) = Some (Unsigned [ucast v])"
| "as_ints (SvUInt32 v) = Some (Unsigned [ucast v])"
| "as_ints (SvUInt64 v) = Some (Unsigned [v])"
| "as_ints (SvInt16 v) = Some (Signed [v])"
| "as_ints (SvInt64 v) = Some (Signed [v])"
| "as_ints (SvBoolean _) = None"
| "as_ints (SvUtf8 _) = None"

datatype threshold = Below | Within int | Above | Reinterpreted int nat bool

fun threshold_value :: "int_values \<Rightarrow> int" where
  "threshold_value (Unsigned vs) = uint (hd vs)"
| "threshold_value (Signed vs) = hd vs"

definition threshold_new :: "int_values \<Rightarrow> data_type \<Rightarrow> threshold option" where
  "threshold_new ints stored =
     map_option (\<lambda>(bits, stored_signed).
       let v = threshold_value ints in
       if values_signed ints \<noteq> stored_signed then Reinterpreted v bits (values_signed ints)
       else
         let (mn, mx) = (if stored_signed then (- (2 ^ (bits - 1)), 2 ^ (bits - 1) - 1) else (0, 2 ^ bits - 1))
         in if v < mn then Below else if mx < v then Above else Within v) (width_of stored)"

definition range_outside :: "scalar_value \<Rightarrow> stat_range \<Rightarrow> bool \<Rightarrow> bool" where
  "range_outside thr stats gte =
     (case (thr, stats) of
        (SvUtf8 v, SText mn mx) \<Rightarrow> if gte then mx < v else v < mn
      | (SvBoolean _, _) \<Rightarrow> False
      | (other, SInts stored mn mx) \<Rightarrow>
          (case as_ints other of
             None \<Rightarrow> False
           | Some ints \<Rightarrow>
               (case threshold_new ints stored of
                  None \<Rightarrow> False
                | Some Below \<Rightarrow> \<not> gte
                | Some Above \<Rightarrow> gte
                | Some (Within v) \<Rightarrow> if gte then mx < v else v < mn
                | Some (Reinterpreted _ _ _) \<Rightarrow> False))
      | _ \<Rightarrow> False)"


section \<open>Kernels over one column\<close>

fun in_list_int :: "array \<Rightarrow> u64 list \<Rightarrow> mask option" where
  "in_list_int (AInt t vs n) ks = Some (masked n (map (\<lambda>v. stored_key v \<in> set ks) vs))"
| "in_list_int _ ks = None"

fun in_list_text :: "array \<Rightarrow> string list \<Rightarrow> mask option" where
  "in_list_text (AText t vs n) ss = Some (masked n (map (\<lambda>v. v \<in> set ss) vs))"
| "in_list_text _ ss = None"

fun in_list_bytes :: "array \<Rightarrow> u8 list list \<Rightarrow> mask option" where
  "in_list_bytes (ABytes t vs n) bs =
     Some (map (\<lambda>i. Some (valid_at n i \<and> vs ! i \<in> set bs)) [0..<length vs])"
| "in_list_bytes _ bs = None"

fun compare_int :: "kernels \<Rightarrow> array \<Rightarrow> int_values \<Rightarrow> bool \<Rightarrow> mask option" where
  "compare_int K (AInt t vs n) ints gte =
     map_option (\<lambda>thr. case thr of
         Below \<Rightarrow> constant_mask (AInt t vs n) gte
       | Above \<Rightarrow> constant_mask (AInt t vs n) (\<not> gte)
       | Within v \<Rightarrow> (if gte then k_gt_eq_int K (masked n vs) v else k_lt_eq_int K (masked n vs) v)
       | Reinterpreted v bits sg \<Rightarrow>
           masked n (map (\<lambda>x. if gte then v \<le> declared_value x bits sg
             else declared_value x bits sg \<le> v) vs)) (threshold_new ints (DInt t))"
| "compare_int K _ ints gte = None"

fun compare_text :: "kernels \<Rightarrow> array \<Rightarrow> string \<Rightarrow> bool \<Rightarrow> mask option" where
  "compare_text K (AText t vs n) thr gte =
     Some (if gte then k_gt_eq_text K (masked n vs) thr else k_lt_eq_text K (masked n vs) thr)"
| "compare_text K _ thr gte = None"

definition or_unsupported :: "array \<Rightarrow> mask option \<Rightarrow> mask_error + mask" where
  "or_unsupported a m = ok_or (UnsupportedType (data_type_of a)) m"

definition compare_scalar :: "kernels \<Rightarrow> scalar_value \<Rightarrow> bool \<Rightarrow> array \<Rightarrow> mask_error + mask" where
  "compare_scalar K thr gte a =
     (case thr of
        SvUtf8 v \<Rightarrow> or_unsupported a (compare_text K a v gte)
      | SvBoolean _ \<Rightarrow> Inl (UnsupportedType (data_type_of a))
      | other \<Rightarrow> or_unsupported a
          (case as_ints other of None \<Rightarrow> None | Some ints \<Rightarrow> compare_int K a ints gte))"


section \<open>Evaluating the concrete predicates\<close>

definition eval_eq :: "kernels \<Rightarrow> scalar_value \<Rightarrow> array \<Rightarrow> mask_error + mask" where
  "eval_eq K v a =
     (case v of
        SvBoolean b \<Rightarrow>
          (case a of
             ABoolean vs n \<Rightarrow> Inr (k_eq_bool K (masked n vs) b)
           | _ \<Rightarrow> or_unsupported a (in_list_int a [of_bool b]))
      | SvUtf8 s \<Rightarrow> or_unsupported a (in_list_text a [s])
      | other \<Rightarrow> or_unsupported a
          (case as_ints other of
             None \<Rightarrow> None
           | Some ints \<Rightarrow>
               (case stored_keys ints (data_type_of a) of None \<Rightarrow> None | Some ks \<Rightarrow> in_list_int a ks)))"

text \<open>What \<open>InListPredicate::new\<close> reads out of the list, by the list's type.\<close>

fun string_set :: "array \<Rightarrow> string list option" where
  "string_set (AText Utf8 vs n) = Some vs"
| "string_set _ = None"

fun fixed_binary_set :: "array \<Rightarrow> u8 list list option" where
  "fixed_binary_set (ABytes (FixedSizeBinary w) vs n) = Some vs"
| "fixed_binary_set _ = None"

definition eval_in_list :: "array \<Rightarrow> array \<Rightarrow> mask_error + mask" where
  "eval_in_list listed a =
     (case string_set listed of
        Some ss \<Rightarrow> or_unsupported a (in_list_text a ss)
      | None \<Rightarrow>
          (case int_values_of_array listed of
             Some ints \<Rightarrow> or_unsupported a
               (case stored_keys ints (data_type_of a) of None \<Rightarrow> None | Some ks \<Rightarrow> in_list_int a ks)
           | None \<Rightarrow>
               (case fixed_binary_set listed of
                  Some bs \<Rightarrow> or_unsupported a (in_list_bytes a bs)
                | None \<Rightarrow> Inl (UnsupportedType (data_type_of a)))))"

definition bloom_bit :: "externals \<Rightarrow> u8 list \<Rightarrow> nat \<Rightarrow> nat \<Rightarrow> nat" where
  "bloom_bit X v n num_bits = unat (x_xxh3_seeded X (word_of_nat n) (v @ [0xff])) mod num_bits"

definition needle_mask :: "externals \<Rightarrow> nat \<Rightarrow> nat \<Rightarrow> u8 list \<Rightarrow> u8 list" where
  "needle_mask X num_hashes width needle =
     fold (\<lambda>n m. let b = bloom_bit X needle n (width * 8) in
             m[b div 8 := m ! (b div 8) OR push_bit (b mod 8) 1]) [0..<num_hashes] (replicate width 0)"

definition any_member :: "externals \<Rightarrow> u8 list list \<Rightarrow> nat \<Rightarrow> u8 list \<Rightarrow> bool" where
  "any_member X needles num_hashes stored =
     (if stored = [] then False
      else list_ex (\<lambda>needle.
        foldl (\<lambda>missing (b, s). missing OR (b AND NOT s)) 0
          (zip (needle_mask X num_hashes (length stored) needle) stored) = 0) needles)"

fun eval_bloom :: "externals \<Rightarrow> u8 list list \<Rightarrow> nat \<Rightarrow> array \<Rightarrow> mask_error + mask" where
  "eval_bloom X needles num_hashes (ABytes t vs n) =
     Inr (map (\<lambda>i. Some (valid_at n i \<and> any_member X needles num_hashes (vs ! i))) [0..<length vs])"
| "eval_bloom X needles num_hashes a = Inl (UnsupportedType (data_type_of a))"

fun any_set_contains :: "externals \<Rightarrow> set_filter list \<Rightarrow> u8 list \<Rightarrow> mask_error + bool" where
  "any_set_contains X [] v = Inr False"
| "any_set_contains X (s # ss) v =
     (case fuse_contains X (s_fuse8 s) v of
        None \<Rightarrow> Inl LookupPanic
      | Some True \<Rightarrow> Inr True
      | Some False \<Rightarrow> any_set_contains X ss v)"

text \<open>A verdict per row; a value equal to the previous one takes its verdict.\<close>

fun verdicts :: "('a \<Rightarrow> 'e + bool) \<Rightarrow> ('a \<times> bool) option \<Rightarrow> 'a option list \<Rightarrow> 'e + bool list" where
  "verdicts passes previous [] = Inr []"
| "verdicts passes previous (None # vs) =
     and_then (verdicts passes previous vs) (\<lambda>bs. Inr (False # bs))"
| "verdicts passes previous (Some v # vs) =
     (if map_option fst previous = Some v
      then and_then (verdicts passes previous vs) (\<lambda>bs. Inr (snd (the previous) # bs))
      else and_then (passes v) (\<lambda>b.
           and_then (verdicts passes (Some (v, b)) vs) (\<lambda>bs. Inr (b # bs))))"

definition unquoted :: "u8 list \<Rightarrow> u8 list" where
  "unquoted rendered = butlast (tl rendered)"

definition set_renderer :: "externals \<Rightarrow> json_encoding option \<Rightarrow> (u8 list \<Rightarrow> u8 list) option" where
  "set_renderer X encoding =
     (case encoding of
        Some HexBytes \<Rightarrow> Some (encode_hex_bytes X)
      | Some Base58 \<Rightarrow> Some encode_base58_bytes
      | _ \<Rightarrow> None)"

definition eval_in_set ::
    "externals \<Rightarrow> set_filter list \<Rightarrow> json_encoding option \<Rightarrow> array \<Rightarrow> mask_error + mask" where
  "eval_in_set X sets encoding a =
     (case resolve_text a of
        Some (t, vs, n) \<Rightarrow>
          and_then (verdicts (any_set_contains X sets) None (masked n (map as_bytes vs))) (\<lambda>bs.
          Inr (masked n bs))
      | None \<Rightarrow>
          (case set_renderer X encoding of
             None \<Rightarrow> Inl (UnsupportedType (data_type_of a))
           | Some render \<Rightarrow>
               (case a of
                  ABytes t vs n \<Rightarrow>
                    if t = LargeBinary then Inl (UnsupportedType (data_type_of a))
                    else and_then (verdicts (\<lambda>b. any_set_contains X sets (unquoted (render b))) None
                           (masked n vs)) (\<lambda>bs. Inr (masked n bs))
                | _ \<Rightarrow> Inl (UnsupportedType (data_type_of a)))))"

datatype any_values = AnyU32 "u32 list" | AnyText "string list"

fun elements_resolve :: "any_values \<Rightarrow> array \<Rightarrow> bool" where
  "elements_resolve (AnyU32 us) child = (resolve_int child \<noteq> None)"
| "elements_resolve (AnyText ss) child = (resolve_text child \<noteq> None)"

fun element_in :: "any_values \<Rightarrow> array \<Rightarrow> nat \<Rightarrow> bool" where
  "element_in (AnyU32 us) (AInt t vs n) j =
     (valid_at n j \<and> 0 \<le> vs ! j \<and> vs ! j < 2 ^ 32 \<and> word_of_int (vs ! j) \<in> set us)"
| "element_in (AnyText ss) (AText t vs n) j = (valid_at n j \<and> vs ! j \<in> set ss)"
| "element_in _ _ j = False"

fun eval_list_any :: "any_values \<Rightarrow> array \<Rightarrow> mask_error + mask" where
  "eval_list_any any (AList large os child n) =
     (if \<not> elements_resolve any child then Inl (UnsupportedType (DList large (data_type_of child)))
      else Inr (map (\<lambda>i. Some (valid_at n i \<and>
             list_ex (element_in any child) [os ! i..<os ! Suc i]))
             [0..<length os - 1]))"
| "eval_list_any any a = Inl (UnsupportedType (data_type_of a))"


section \<open>The predicate\<close>

datatype predicate =
    PEq scalar_value
  | PInList array
  | PBloom "u8 list list" nat nat
  | PInSet "set_filter list" "json_encoding option"
  | PGte scalar_value
  | PLte scalar_value
  | PListAny any_values
  | PNever
  | PAnyOf "predicate list"

text \<open>
  A dictionary-encoded column is evaluated once over its values and mapped through the keys; a null
  key's row is false.
\<close>

fun through_dictionary :: "kernels \<Rightarrow> (array \<Rightarrow> mask_error + mask) \<Rightarrow> array \<Rightarrow> mask_error + mask" where
  "through_dictionary K f (ADictionary ks n vals) =
     and_then (through_dictionary K f vals) (\<lambda>m.
     Inr (map (\<lambda>v. Some (v = Some True)) (k_take K m (masked n ks))))"
| "through_dictionary K f a = f a"

definition or_next :: "kernels \<Rightarrow> mask option \<Rightarrow> mask \<Rightarrow> mask option" where
  "or_next K any m = Some (case any of None \<Rightarrow> m | Some prev \<Rightarrow> k_or_kleene K prev m)"

definition and_next :: "kernels \<Rightarrow> mask option \<Rightarrow> mask \<Rightarrow> mask option" where
  "and_next K acc m = Some (case acc of None \<Rightarrow> m | Some prev \<Rightarrow> k_and K prev m)"

definition unwrap_or :: "'a \<Rightarrow> 'a option \<Rightarrow> 'a" where
  "unwrap_or d x = (case x of None \<Rightarrow> d | Some y \<Rightarrow> y)"

fun evaluate :: "externals \<Rightarrow> kernels \<Rightarrow> predicate \<Rightarrow> array \<Rightarrow> mask_error + mask" where
  "evaluate X K (PEq v) a = through_dictionary K (eval_eq K v) a"
| "evaluate X K (PInList listed) a = through_dictionary K (eval_in_list listed) a"
| "evaluate X K (PBloom needles num_bytes num_hashes) a =
     through_dictionary K (eval_bloom X needles num_hashes) a"
| "evaluate X K (PInSet sets encoding) a = through_dictionary K (eval_in_set X sets encoding) a"
| "evaluate X K (PGte v) a = through_dictionary K (compare_scalar K v True) a"
| "evaluate X K (PLte v) a = through_dictionary K (compare_scalar K v False) a"
| "evaluate X K (PListAny any) a = eval_list_any any a"
| "evaluate X K PNever a = Inr (all_mask (len a) False)"
| "evaluate X K (PAnyOf parts) a =
     and_then (try_fold (\<lambda>part any. and_then (evaluate X K part a) (\<lambda>m. Inr (or_next K any m))) parts None)
       (\<lambda>any. Inr (unwrap_or (all_mask (len a) False) any))"

definition sorted_ints_of :: "int_values \<Rightarrow> data_type \<Rightarrow> int list option" where
  "sorted_ints_of ints stored =
     (case (stored_keys ints stored, width_of stored) of
        (Some ks, Some (_, sg)) \<Rightarrow> Some (sort (map (\<lambda>k. key_value k sg) (remdups ks)))
      | _ \<Rightarrow> None)"

definition none_within :: "'a::linorder list \<Rightarrow> 'a \<Rightarrow> 'a \<Rightarrow> bool" where
  "none_within vs mn mx =
     (case get vs (partition_point (\<lambda>v. v < mn) vs) of None \<Rightarrow> True | Some v \<Rightarrow> mx < v)"

definition eq_can_skip :: "scalar_value \<Rightarrow> stat_range \<Rightarrow> bool" where
  "eq_can_skip v stats =
     (case (v, stats) of
        (SvUtf8 s, SText mn mx) \<Rightarrow> s < mn \<or> mx < s
      | (SvBoolean _, _) \<Rightarrow> False
      | (other, SInts stored mn mx) \<Rightarrow>
          (case as_ints other of
             None \<Rightarrow> False
           | Some ints \<Rightarrow> ints_outside ints stored mn mx = Some True)
      | _ \<Rightarrow> False)"

definition in_list_can_skip :: "array \<Rightarrow> stat_range \<Rightarrow> bool" where
  "in_list_can_skip listed stats =
     (case stats of
        SText mn mx \<Rightarrow>
          (case string_set listed of None \<Rightarrow> False | Some ss \<Rightarrow> none_within (sort ss) mn mx)
      | SInts stored mn mx \<Rightarrow>
          (case int_values_of_array listed of
             None \<Rightarrow> False
           | Some ints \<Rightarrow>
               (case sorted_ints_of ints stored of None \<Rightarrow> False | Some vs \<Rightarrow> none_within vs mn mx)))"

fun can_skip :: "predicate \<Rightarrow> stat_range \<Rightarrow> bool" where
  "can_skip (PEq v) stats = eq_can_skip v stats"
| "can_skip (PInList listed) stats = in_list_can_skip listed stats"
| "can_skip (PBloom needles num_bytes num_hashes) stats = False"
| "can_skip (PInSet sets encoding) stats = False"
| "can_skip (PGte v) stats = range_outside v stats True"
| "can_skip (PLte v) stats = range_outside v stats False"
| "can_skip (PListAny any) stats = False"
| "can_skip PNever stats = True"
| "can_skip (PAnyOf parts) stats = list_all (\<lambda>p. can_skip p stats) parts"

definition eq_matches_every_value :: "scalar_value \<Rightarrow> stat_range \<Rightarrow> bool" where
  "eq_matches_every_value v stats =
     (case (v, stats) of
        (SvUtf8 s, SText mn mx) \<Rightarrow> mn = mx \<and> s = mn
      | (SvBoolean _, _) \<Rightarrow> False
      | (other, SInts stored mn mx) \<Rightarrow>
          (case as_ints other of
             None \<Rightarrow> False
           | Some ints \<Rightarrow> mn = mx \<and> ints_hold ints stored mn = Some True)
      | _ \<Rightarrow> False)"

definition in_list_matches_every_value :: "array \<Rightarrow> stat_range \<Rightarrow> bool" where
  "in_list_matches_every_value listed stats =
     (case stats of
        SText mn mx \<Rightarrow>
          mn = mx \<and> (case string_set listed of None \<Rightarrow> False | Some ss \<Rightarrow> mn \<in> set ss)
      | SInts stored mn mx \<Rightarrow>
          mn = mx \<and>
          (case int_values_of_array listed of
             None \<Rightarrow> False
           | Some ints \<Rightarrow>
               (case stored_keys ints stored of None \<Rightarrow> False | Some ks \<Rightarrow> stored_key mn \<in> set ks)))"

fun matches_every_value :: "predicate \<Rightarrow> stat_range \<Rightarrow> bool" where
  "matches_every_value (PEq v) stats = eq_matches_every_value v stats"
| "matches_every_value (PInList listed) stats = in_list_matches_every_value listed stats"
| "matches_every_value (PAnyOf parts) stats = list_ex (\<lambda>p. matches_every_value p stats) parts"
| "matches_every_value _ stats = False"

fun listed_values :: "predicate \<Rightarrow> array option" where
  "listed_values (PInList listed) = Some listed"
| "listed_values _ = None"

definition check_stored_type :: "externals \<Rightarrow> kernels \<Rightarrow> predicate \<Rightarrow> data_type \<Rightarrow> mask_error + unit" where
  "check_stored_type X K p t = and_then (evaluate X K p (empty_array t)) (\<lambda>_. Inr ())"

end
