(* ===== verification/Predicate_Correct.thy ===== *)
theory Predicate_Correct
  imports Predicates
begin

text \<open>
  What the predicates of \<^verbatim>\<open>src/scan/predicate.rs\<close> mean. \<open>cell_at\<close> reads one row of a column through its
  dictionary and its validity, \<open>admits\<close> says which cells a filter lets through, and the lemmas show
  that a mask keeps exactly the admitted rows whatever the encoding, that statistics never skip an
  admitted row, and that they never prove a row the filter would drop. \<open>array_predicate\<close> is the
  contract between a predicate and the scan.
\<close>

unbundle bit_operations_syntax

section \<open>Cells\<close>

datatype cell =
    CNull
  | CInt int_type int
  | CBool bool
  | CText string
  | CBytes bytes_type "u8 list"
  | CList "cell list"
  | COther

primrec cell_at :: "array \<Rightarrow> nat \<Rightarrow> cell" where
  "cell_at (AInt t vs n) i = (if valid_at n i then CInt t (vs ! i) else CNull)"
| "cell_at (ABoolean vs n) i = (if valid_at n i then CBool (vs ! i) else CNull)"
| "cell_at (AText t vs n) i = (if valid_at n i then CText (vs ! i) else CNull)"
| "cell_at (ABytes t vs n) i = (if valid_at n i then CBytes t (vs ! i) else CNull)"
| "cell_at (AList large os a n) i =
     (if valid_at n i then CList (map (cell_at a) [os ! i..<os ! Suc i]) else CNull)"
| "cell_at (ADictionary ks n a) i = (if valid_at n i then cell_at a (ks ! i) else CNull)"
| "cell_at (AOther s k n) i = (if valid_at n i then COther else CNull)"


section \<open>What a filter asks of a cell\<close>

definition listed_hold :: "int_values \<Rightarrow> int_type \<Rightarrow> int \<Rightarrow> bool" where
  "listed_hold ints t x = (declared_value x (bits_of t) (values_signed ints) \<in> set (listed_ints ints))"

definition bloom_may_hold :: "externals \<Rightarrow> u8 list list \<Rightarrow> nat \<Rightarrow> u8 list \<Rightarrow> bool" where
  "bloom_may_hold X needles num_hashes stored =
     (stored \<noteq> [] \<and>
      list_ex (\<lambda>needle. list_all (\<lambda>n. let b = bloom_bit X needle n (length stored * 8) in
         bit (stored ! (b div 8)) (b mod 8)) [0..<num_hashes]) needles)"

definition sets_hold :: "externals \<Rightarrow> set_filter list \<Rightarrow> u8 list \<Rightarrow> bool" where
  "sets_hold X sets v = list_ex (\<lambda>s. fuse_contains X (s_fuse8 s) v = Some True) sets"

definition eq_admits :: "scalar_value \<Rightarrow> cell \<Rightarrow> bool" where
  "eq_admits v c =
     (case v of
        SvBoolean b \<Rightarrow> (case c of CBool d \<Rightarrow> d = b | CInt t x \<Rightarrow> x = of_bool b | _ \<Rightarrow> False)
      | SvUtf8 s \<Rightarrow> (case c of CText u \<Rightarrow> u = s | _ \<Rightarrow> False)
      | other \<Rightarrow>
          (case c of
             CInt t x \<Rightarrow> (case as_ints other of None \<Rightarrow> False | Some ints \<Rightarrow> listed_hold ints t x)
           | _ \<Rightarrow> False))"

definition in_list_admits :: "array \<Rightarrow> cell \<Rightarrow> bool" where
  "in_list_admits listed c =
     (case c of
        CText s \<Rightarrow> (case string_set listed of None \<Rightarrow> False | Some ss \<Rightarrow> s \<in> set ss)
      | CInt t x \<Rightarrow> (case int_values_of_array listed of None \<Rightarrow> False | Some ints \<Rightarrow> listed_hold ints t x)
      | CBytes t b \<Rightarrow> (case fixed_binary_set listed of None \<Rightarrow> False | Some bs \<Rightarrow> b \<in> set bs)
      | _ \<Rightarrow> False)"

definition range_admits :: "scalar_value \<Rightarrow> bool \<Rightarrow> cell \<Rightarrow> bool" where
  "range_admits thr gte c =
     (case (thr, c) of
        (SvUtf8 v, CText s) \<Rightarrow> if gte then v \<le> s else s \<le> v
      | (other, CInt t x) \<Rightarrow>
          (case as_ints other of
             None \<Rightarrow> False
           | Some ints \<Rightarrow>
               let d = declared_value x (bits_of t) (values_signed ints) in
               if gte then threshold_value ints \<le> d else d \<le> threshold_value ints)
      | _ \<Rightarrow> False)"

fun in_set_admits :: "externals \<Rightarrow> set_filter list \<Rightarrow> json_encoding option \<Rightarrow> cell \<Rightarrow> bool" where
  "in_set_admits X sets encoding (CText s) = sets_hold X sets (as_bytes s)"
| "in_set_admits X sets encoding (CBytes t b) =
     (t \<noteq> LargeBinary \<and>
      (case set_renderer X encoding of None \<Rightarrow> False | Some render \<Rightarrow> sets_hold X sets (unquoted (render b))))"
| "in_set_admits X sets encoding _ = False"

fun element_admits :: "any_values \<Rightarrow> cell \<Rightarrow> bool" where
  "element_admits (AnyU32 us) (CInt t x) = (0 \<le> x \<and> x < 2 ^ 32 \<and> word_of_int x \<in> set us)"
| "element_admits (AnyText ss) (CText s) = (s \<in> set ss)"
| "element_admits _ _ = False"

fun list_any_admits :: "any_values \<Rightarrow> cell \<Rightarrow> bool" where
  "list_any_admits any (CList cs) = list_ex (element_admits any) cs"
| "list_any_admits any _ = False"

fun admits :: "externals \<Rightarrow> predicate \<Rightarrow> cell \<Rightarrow> bool" where
  "admits X (PEq v) c = eq_admits v c"
| "admits X (PInList listed) c = in_list_admits listed c"
| "admits X (PBloom needles num_bytes num_hashes) c =
     (case c of CBytes t b \<Rightarrow> bloom_may_hold X needles num_hashes b | _ \<Rightarrow> False)"
| "admits X (PInSet sets encoding) c = in_set_admits X sets encoding c"
| "admits X (PGte v) c = range_admits v True c"
| "admits X (PLte v) c = range_admits v False c"
| "admits X (PListAny any) c = list_any_admits any c"
| "admits X PNever c = False"
| "admits X (PAnyOf parts) c = list_ex (\<lambda>p. admits X p c) parts"

text \<open>The integers a predicate is built from are of their types.\<close>

fun scalar_ok :: "scalar_value \<Rightarrow> bool" where
  "scalar_ok (SvInt16 v) = (- (2 ^ 15) \<le> v \<and> v < 2 ^ 15)"
| "scalar_ok (SvInt64 v) = (- (2 ^ 63) \<le> v \<and> v < 2 ^ 63)"
| "scalar_ok _ = True"

fun predicate_ok :: "predicate \<Rightarrow> bool" where
  "predicate_ok (PEq v) = scalar_ok v"
| "predicate_ok (PInList listed) = wf_array listed"
| "predicate_ok (PGte v) = scalar_ok v"
| "predicate_ok (PLte v) = scalar_ok v"
| "predicate_ok (PAnyOf parts) = list_all predicate_ok parts"
| "predicate_ok _ = True"


section \<open>Facts: integers\<close>

lemma as_ints_ok: "as_ints v = Some ints \<Longrightarrow> scalar_ok v \<Longrightarrow> values_ok ints"
  by (cases v) auto

lemma list_ints_ok:
  assumes "wf_array listed" and "int_values_of_array listed = Some ints"
  shows "values_ok ints"
proof -
  from assms(2) obtain t vs n where l: "listed = AInt t vs n"
    by (cases listed) auto
  show ?thesis
  proof (cases "signed_of t")
    case True
    then have "list_all (\<lambda>v. - (2 ^ 63) \<le> v \<and> v < 2 ^ 63) vs"
      using assms(1) l in_range_signed_64 [of t] by (auto simp: list_all_iff)
    with assms(2) l True show ?thesis by auto
  next
    case False
    with assms(2) l show ?thesis by auto
  qed
qed

lemma stored_keys_hold:
  "in_range t x \<Longrightarrow> values_ok ints \<Longrightarrow> stored_keys ints (DInt t) = Some ks \<Longrightarrow>
     stored_key x \<in> set ks \<longleftrightarrow> listed_hold ints t x"
  unfolding listed_hold_def by (rule stored_keys_iff)

lemma stored_keys_DInt: "\<exists>ks. stored_keys ints (DInt t) = Some ks"
  by (cases ints) simp_all

lemma stored_keys_Some: "stored_keys ints ty = Some ks \<Longrightarrow> \<exists>t. ty = DInt t"
  by (cases ints; cases ty) simp_all

lemma of_bool_key: "in_range t x \<Longrightarrow> stored_key x = of_bool b \<longleftrightarrow> x = of_bool b"
proof -
  assume r: "in_range t x"
  have "stored_key x = of_bool b \<longleftrightarrow> stored_key x = stored_key (of_bool b)"
    by (simp add: stored_key_def)
  also have "\<dots> \<longleftrightarrow> x = of_bool b"
  proof (cases "signed_of t")
    case True
    from in_range_signed_64 [OF True r] show ?thesis
      by (intro stored_key_inject_signed) (auto simp: of_bool_def)
  next
    case False
    from in_range_unsigned_64 [OF False r] show ?thesis
      by (intro stored_key_inject_unsigned) (auto simp: of_bool_def)
  qed
  finally show ?thesis .
qed

text \<open>The value a key stands for, at the signedness the column has.\<close>

lemma key_value_stored_key: "in_range t x \<Longrightarrow> key_value (stored_key x) (signed_of t) = x"
  using in_range_signed_64 [of t x] in_range_unsigned_64 [of t x]
  by (auto simp: key_value_def sint_stored_key uint_stored_key signed_take_bit_int_eq_self
      take_bit_int_eq_self)

text \<open>A threshold compares as it would against the value read at the declared signedness.\<close>

lemma threshold_new_DInt: "\<exists>thr. threshold_new ints (DInt t) = Some thr"
  by (simp add: threshold_new_def)

lemma threshold_cases:
  assumes "threshold_new ints (DInt t) = Some thr" and "in_range t x"
  shows "case thr of
      Below \<Rightarrow> threshold_value ints < x \<and> declared_value x (bits_of t) (values_signed ints) = x
    | Above \<Rightarrow> x < threshold_value ints \<and> declared_value x (bits_of t) (values_signed ints) = x
    | Within v \<Rightarrow> v = threshold_value ints \<and> declared_value x (bits_of t) (values_signed ints) = x
    | Reinterpreted v bits sg \<Rightarrow> v = threshold_value ints \<and> bits = bits_of t \<and> sg = values_signed ints"
proof -
  have d: "declared_value x (bits_of t) (signed_of t) = x"
  proof (cases "signed_of t")
    case True
    then show ?thesis
      using assms(2) by (simp only: declared_signed [OF bits_of_bounds] signed_take_bit_in_range)
  next
    case False
    then show ?thesis
      using assms(2) in_range_mod [OF False] by (metis declared_unsigned bits_of_bounds(2))
  qed
  show ?thesis
    using assms d by (auto simp: threshold_new_def Let_def in_range_def split: if_splits)
qed


section \<open>Facts: one column\<close>

text \<open>A kernel computes a reading of cells when its mask keeps exactly the rows that have it.\<close>

definition computes :: "(array \<Rightarrow> mask_error + mask) \<Rightarrow> (cell \<Rightarrow> bool) \<Rightarrow> array \<Rightarrow> bool" where
  "computes f P a \<longleftrightarrow> (\<forall>m. f a = Inr m \<longrightarrow>
     length m = len a \<and> (\<forall>i < len a. m ! i = Some True \<longleftrightarrow> P (cell_at a i)))"

fun is_dictionary :: "array \<Rightarrow> bool" where
  "is_dictionary (ADictionary _ _ _) = True"
| "is_dictionary _ = False"

lemma masked_eq_True: "i < length bs \<Longrightarrow> masked n bs ! i = Some True \<longleftrightarrow> valid_at n i \<and> bs ! i"
  by (auto split: if_splits)

lemma in_list_int_Some: "in_list_int a ks = Some m \<Longrightarrow> \<exists>t vs n. a = AInt t vs n"
  by (cases a) auto

lemma wf_in_range: "wf_array (AInt t vs n) \<Longrightarrow> i < length vs \<Longrightarrow> in_range t (vs ! i)"
  by (simp add: list_all_length)

lemma in_list_int_computes:
  assumes "wf_array a" and "in_list_int a ks = Some m"
    and "\<And>t x. data_type_of a = DInt t \<Longrightarrow> in_range t x \<Longrightarrow>
      stored_key x \<in> set ks \<longleftrightarrow> P (CInt t x)"
    and "\<not> P CNull"
  shows "length m = len a \<and> (\<forall>i < len a. m ! i = Some True \<longleftrightarrow> P (cell_at a i))"
proof -
  from in_list_int_Some [OF assms(2)] obtain t vs n where a: "a = AInt t vs n" by blast
  show ?thesis
  proof (intro conjI allI impI)
    show "length m = len a" using a assms(2) by auto
    fix i assume i: "i < len a"
    then have "in_range t (vs ! i)" using wf_in_range [of t vs n i] assms(1) a by simp
    with assms(3) a have "stored_key (vs ! i) \<in> set ks \<longleftrightarrow> P (CInt t (vs ! i))" by simp
    with a i assms(2,4) show "m ! i = Some True \<longleftrightarrow> P (cell_at a i)"
      by (auto simp: masked_eq_True)
  qed
qed

lemma in_list_text_computes:
  assumes "in_list_text a ss = Some m" and P: "\<And>s. P (CText s) \<longleftrightarrow> s \<in> set ss" "\<not> P CNull"
  shows "length m = len a \<and> (\<forall>i < len a. m ! i = Some True \<longleftrightarrow> P (cell_at a i))"
proof -
  from assms(1) obtain t vs n where a: "a = AText t vs n" by (cases a) simp_all
  with assms(1) have m: "m = masked n (map (\<lambda>v. v \<in> set ss) vs)" by simp
  show ?thesis by (simp add: a m P)
qed

lemma in_list_bytes_computes:
  assumes "in_list_bytes a bs = Some m" and P: "\<And>t b. P (CBytes t b) \<longleftrightarrow> b \<in> set bs" "\<not> P CNull"
  shows "length m = len a \<and> (\<forall>i < len a. m ! i = Some True \<longleftrightarrow> P (cell_at a i))"
proof -
  from assms(1) obtain t vs n where a: "a = ABytes t vs n" by (cases a) simp_all
  with assms(1) have m: "m = map (\<lambda>i. Some (valid_at n i \<and> vs ! i \<in> set bs)) [0..<length vs]" by simp
  show ?thesis by (simp add: a m P)
qed

lemma eq_admits_simps [simp]:
  "eq_admits (SvBoolean b) c = (case c of CBool d \<Rightarrow> d = b | CInt t x \<Rightarrow> x = of_bool b | _ \<Rightarrow> False)"
  "eq_admits (SvUtf8 s) c = (case c of CText u \<Rightarrow> u = s | _ \<Rightarrow> False)"
  by (simp_all add: eq_admits_def)

lemma eq_admits_ints:
  "as_ints v = Some ints \<Longrightarrow>
     eq_admits v c = (case c of CInt t x \<Rightarrow> listed_hold ints t x | _ \<Rightarrow> False)"
  by (cases v; cases c) (simp_all add: eq_admits_def)

lemma eq_admits_CNull [simp]: "\<not> eq_admits v CNull"
  by (cases v) (simp_all add: eq_admits_def)

lemma eval_eq_ints:
  assumes "as_ints v = Some ints"
  shows "eval_eq K v a = or_unsupported a
    (case stored_keys ints (data_type_of a) of None \<Rightarrow> None | Some ks \<Rightarrow> in_list_int a ks)"
  using assms by (cases v) (simp_all add: eval_eq_def)

lemma eval_eq_computes:
  assumes K: "kernels_ok K" and "wf_array a" and "scalar_ok v"
  shows "computes (eval_eq K v) (eq_admits v) a"
  unfolding computes_def
proof (intro allI impI)
  fix m assume m: "eval_eq K v a = Inr m"
  consider (bool) b where "v = SvBoolean b" | (text_v) s where "v = SvUtf8 s"
    | (ints) ints where "as_ints v = Some ints"
    by (cases v) auto
  then show "length m = len a \<and> (\<forall>i < len a. m ! i = Some True \<longleftrightarrow> eq_admits v (cell_at a i))"
  proof cases
    case bool
    show ?thesis
    proof (cases "\<exists>vs n. a = ABoolean vs n")
      case True
      with m bool show ?thesis by (auto simp: eval_eq_def kernel_simps [OF K] split: if_splits)
    next
      case False
      with m bool have "in_list_int a [of_bool b] = Some m"
        by (cases a) (auto simp: eval_eq_def or_unsupported_def)
      then show ?thesis
        by (rule in_list_int_computes [OF assms(2)]) (simp_all add: bool of_bool_key)
    qed
  next
    case text_v
    with m have "in_list_text a [s] = Some m"
      by (simp add: eval_eq_def or_unsupported_def)
    then show ?thesis
      by (rule in_list_text_computes) (simp_all add: text_v)
  next
    case ints
    with m obtain ks where ks: "stored_keys ints (data_type_of a) = Some ks" "in_list_int a ks = Some m"
      by (auto simp: eval_eq_ints [OF ints] or_unsupported_def split: option.splits)
    from ks(2) show ?thesis
    proof (rule in_list_int_computes [OF assms(2)])
      fix t x assume "data_type_of a = DInt t" "in_range t x"
      with ks(1) ints assms(3) show "stored_key x \<in> set ks \<longleftrightarrow> eq_admits v (CInt t x)"
        by (simp add: eq_admits_ints stored_keys_hold as_ints_ok)
    qed simp
  qed
qed

lemma eval_in_list_computes:
  assumes "wf_array a" and "wf_array listed"
  shows "computes (eval_in_list listed) (in_list_admits listed) a"
  unfolding computes_def
proof (intro allI impI)
  fix m assume m: "eval_in_list listed a = Inr m"
  have null: "\<not> in_list_admits listed CNull" by (simp add: in_list_admits_def)
  consider (texts) ss where "string_set listed = Some ss"
    | (ints) ints where "string_set listed = None" "int_values_of_array listed = Some ints"
    | (bytes) bs where "string_set listed = None" "int_values_of_array listed = None"
        "fixed_binary_set listed = Some bs"
    using m by (auto simp: eval_in_list_def split: option.splits)
  then show "length m = len a \<and> (\<forall>i < len a. m ! i = Some True \<longleftrightarrow> in_list_admits listed (cell_at a i))"
  proof cases
    case texts
    with m have "in_list_text a ss = Some m" by (simp add: eval_in_list_def or_unsupported_def)
    then show ?thesis
      by (rule in_list_text_computes) (simp_all add: texts in_list_admits_def)
  next
    case ints
    with m obtain ks where ks: "stored_keys ints (data_type_of a) = Some ks" "in_list_int a ks = Some m"
      by (auto simp: eval_in_list_def or_unsupported_def split: option.splits)
    from ks(2) show ?thesis
    proof (rule in_list_int_computes [OF assms(1)])
      fix t x assume "data_type_of a = DInt t" "in_range t x"
      with ks(1) ints assms(2) show "stored_key x \<in> set ks \<longleftrightarrow> in_list_admits listed (CInt t x)"
        by (simp add: in_list_admits_def stored_keys_hold list_ints_ok)
    qed (simp add: null)
  next
    case bytes
    with m have "in_list_bytes a bs = Some m" by (simp add: eval_in_list_def or_unsupported_def)
    then show ?thesis
      by (rule in_list_bytes_computes) (simp_all add: bytes in_list_admits_def)
  qed
qed


lemma range_admits_CNull [simp]: "\<not> range_admits v gte CNull"
  by (cases v) (simp_all add: range_admits_def)

lemma range_admits_ints:
  "as_ints v = Some ints \<Longrightarrow> range_admits v gte (CInt t x) \<longleftrightarrow>
     (let d = declared_value x (bits_of t) (values_signed ints) in
      if gte then threshold_value ints \<le> d else d \<le> threshold_value ints)"
  by (cases v) (auto simp: range_admits_def Let_def)

lemma compare_int_computes:
  assumes K: "kernels_ok K" and "wf_array a" and ints: "as_ints v = Some ints"
    and m: "compare_int K a ints gte = Some m"
  shows "length m = len a \<and> (\<forall>i < len a. m ! i = Some True \<longleftrightarrow> range_admits v gte (cell_at a i))"
proof -
  obtain t vs n where a: "a = AInt t vs n" using m by (cases a) auto
  obtain thr where thr: "threshold_new ints (DInt t) = Some thr" using threshold_new_DInt by blast
  show ?thesis
  proof (intro conjI allI impI)
    show "length m = len a"
      using m a thr by (auto simp: constant_mask_def kernel_simps [OF K] split: threshold.splits)
    fix i assume i: "i < len a"
    then have "in_range t (vs ! i)" using wf_in_range [of t vs n i] assms(2) a by simp
    from threshold_cases [OF thr this] i a m thr
    show "m ! i = Some True \<longleftrightarrow> range_admits v gte (cell_at a i)"
      by (cases thr) (auto simp: constant_mask_def kernel_simps [OF K] masked_eq_True
          range_admits_ints [OF ints] Let_def split: if_splits)
  qed
qed

lemma compare_scalar_computes:
  assumes K: "kernels_ok K" and "wf_array a"
  shows "computes (compare_scalar K v gte) (range_admits v gte) a"
  unfolding computes_def
proof (intro allI impI)
  fix m assume m: "compare_scalar K v gte a = Inr m"
  consider (bool) b where "v = SvBoolean b" | (text_v) s where "v = SvUtf8 s"
    | (ints) ints where "as_ints v = Some ints"
    by (cases v) auto
  then show "length m = len a \<and> (\<forall>i < len a. m ! i = Some True \<longleftrightarrow> range_admits v gte (cell_at a i))"
  proof cases
    case bool
    with m show ?thesis by (simp add: compare_scalar_def)
  next
    case text_v
    with m show ?thesis
      by (cases a) (auto simp: compare_scalar_def or_unsupported_def kernel_simps [OF K]
          range_admits_def split: if_splits)
  next
    case ints
    then have "compare_scalar K v gte a = or_unsupported a (compare_int K a ints gte)"
      by (cases v) (simp_all add: compare_scalar_def)
    with m have "compare_int K a ints gte = Some m" by (simp add: or_unsupported_def)
    from compare_int_computes [OF K assms(2) ints this] show ?thesis .
  qed
qed

text \<open>The cache of the previous verdict changes nothing.\<close>

definition verdict :: "('a \<Rightarrow> 'e + bool) \<Rightarrow> 'a option \<Rightarrow> 'e + bool" where
  "verdict passes v = (case v of None \<Rightarrow> Inr False | Some w \<Rightarrow> passes w)"

lemma verdicts_eq:
  "(\<forall>v b. previous = Some (v, b) \<longrightarrow> passes v = Inr b) \<Longrightarrow>
     verdicts passes previous vs = try_collect (verdict passes) vs"
proof (induction passes previous vs rule: verdicts.induct)
  case (3 passes previous v vs)
  show ?case
  proof (cases "map_option fst previous = Some v")
    case True
    with 3 show ?thesis by (auto simp: verdict_def)
  next
    case False
    with 3 show ?thesis by (cases "passes v") (auto simp: verdict_def)
  qed
qed (auto simp: verdict_def)

lemma any_set_contains_Inr: "any_set_contains X sets v = Inr b \<Longrightarrow> b \<longleftrightarrow> sets_hold X sets v"
  by (induction X sets v rule: any_set_contains.induct)
    (auto simp: sets_hold_def split: option.splits bool.splits)

lemma verdicts_hold:
  assumes "verdicts passes None (masked n vs) = Inr bs"
    and "\<And>v b. passes v = Inr b \<Longrightarrow> b \<longleftrightarrow> P v"
  shows "length bs = length vs \<and> (\<forall>i < length vs. bs ! i \<longleftrightarrow> valid_at n i \<and> P (vs ! i))"
proof -
  have "list_all2 (\<lambda>v b. verdict passes v = Inr b) (masked n vs) bs"
    using assms(1) verdicts_eq [of None passes "masked n vs"] by (simp add: try_collect_Inr_iff)
  then show ?thesis
    using assms(2) by (force simp: list_all2_conv_all_nth verdict_def split: if_splits)
qed

lemma eval_in_set_computes:
  "computes (eval_in_set X sets encoding) (in_set_admits X sets encoding) a"
  unfolding computes_def
proof (intro allI impI)
  fix m assume m: "eval_in_set X sets encoding a = Inr m"
  let ?P = "sets_hold X sets"
  show "length m = len a \<and> (\<forall>i < len a. m ! i = Some True \<longleftrightarrow> in_set_admits X sets encoding (cell_at a i))"
  proof (cases "resolve_text a")
    case (Some c)
    then obtain t vs n where a: "a = AText t vs n" by (cases c) (simp add: resolve_text_Some)
    with m obtain bs where bs: "verdicts (any_set_contains X sets) None (masked n (map as_bytes vs)) = Inr bs"
      "m = masked n bs"
      by (auto simp: eval_in_set_def and_then_Inr_iff)
    from verdicts_hold [OF bs(1) any_set_contains_Inr] a bs(2) show ?thesis
      by (auto simp: masked_eq_True)
  next
    case None
    with m obtain render t vs n bs where r: "set_renderer X encoding = Some render"
      and a: "a = ABytes t vs n" "t \<noteq> LargeBinary"
      and bs: "verdicts (\<lambda>b. any_set_contains X sets (unquoted (render b))) None (masked n vs) = Inr bs"
        "m = masked n bs"
      by (auto simp: eval_in_set_def and_then_Inr_iff split: option.splits array.splits if_splits)
    from verdicts_hold [OF bs(1), of "\<lambda>b. ?P (unquoted (render b))"] any_set_contains_Inr
    have "length bs = length vs \<and> (\<forall>i < length vs. bs ! i \<longleftrightarrow> valid_at n i \<and> ?P (unquoted (render (vs ! i))))"
      by blast
    with a bs(2) r show ?thesis by (auto simp: masked_eq_True)
  qed
qed


section \<open>Facts: blooms\<close>

text \<open>A needle's mask has exactly the bits its hashes name.\<close>

lemma needle_mask_fold:
  assumes "\<forall>n \<in> set ns. bloom_bit X needle n (width * 8) < width * 8" and "length m = width"
  shows "length (fold (\<lambda>n m. let b = bloom_bit X needle n (width * 8) in
      m[b div 8 := m ! (b div 8) OR push_bit (b mod 8) 1]) ns m) = width \<and>
    (\<forall>j < width. \<forall>k < 8. bit ((fold (\<lambda>n m. let b = bloom_bit X needle n (width * 8) in
      m[b div 8 := m ! (b div 8) OR push_bit (b mod 8) 1]) ns m :: u8 list) ! j) k \<longleftrightarrow>
      bit (m ! j) k \<or> (\<exists>n \<in> set ns. bloom_bit X needle n (width * 8) = j * 8 + k))"
  using assms
proof (induction ns arbitrary: m)
  case Nil
  then show ?case by simp
next
  case (Cons n ns)
  let ?b = "bloom_bit X needle n (width * 8)"
  let ?m = "m[?b div 8 := m ! (?b div 8) OR 2 ^ (?b mod 8)]"
  have b: "?b div 8 < width" using Cons.prems(1) by (simp add: less_mult_imp_div_less)
  have here: "bit (?m ! j) k \<longleftrightarrow> bit (m ! j) k \<or> ?b = j * 8 + k" if "j < width" "k < 8" for j k
  proof -
    have "?b = j * 8 + k \<longleftrightarrow> ?b div 8 = j \<and> ?b mod 8 = k"
      using that(2) by auto
    then show ?thesis
      using that b Cons.prems(2) by (auto simp: nth_list_update bit_or_iff bit_exp_iff)
  qed
  have "\<forall>n \<in> set ns. bloom_bit X needle n (width * 8) < width * 8" "length ?m = width"
    using Cons.prems by simp_all
  from Cons.IH [OF this] show ?case
    by (simp add: Let_def here disj_assoc del: length_list_update)
qed

lemma needle_mask_bit:
  assumes "0 < width" "j < width" "k < 8"
  shows "bit (needle_mask X num_hashes width needle ! j) k \<longleftrightarrow>
    (\<exists>n < num_hashes. bloom_bit X needle n (width * 8) = j * 8 + k)"
proof -
  have "bloom_bit X needle n (width * 8) < width * 8" for n
    using assms(1) by (simp add: bloom_bit_def)
  with needle_mask_fold [of "[0..<num_hashes]" X needle width "replicate width 0"] assms
  show ?thesis by (auto simp: needle_mask_def)
qed

lemma length_needle_mask: "0 < width \<Longrightarrow> length (needle_mask X num_hashes width needle) = width"
  using needle_mask_fold [of "[0..<num_hashes]" X needle width "replicate width 0"]
  by (simp add: needle_mask_def bloom_bit_def)

lemma missing_fold:
  "foldl (\<lambda>missing (b, s). missing OR (b AND NOT s)) acc ps = (0 :: u8) \<longleftrightarrow>
     acc = 0 \<and> (\<forall>(b, s) \<in> set ps. b AND NOT s = 0)"
proof (induction ps arbitrary: acc)
  case Nil
  then show ?case by simp
next
  case (Cons p ps)
  have "x OR y = 0 \<longleftrightarrow> x = 0 \<and> y = 0" for x y :: u8
    by (auto simp: bit_eq_iff bit_or_iff)
  with Cons show ?case by (cases p) simp
qed

lemma and_not_zero: "(b AND NOT s = (0 :: u8)) \<longleftrightarrow> (\<forall>k < 8. bit b k \<longrightarrow> bit s k)"
proof -
  have "(b AND NOT s = 0) \<longleftrightarrow> (\<forall>k < 8. \<not> bit (b AND NOT s) k)"
    by (auto intro: bit_word_eqI)
  then show ?thesis by (auto simp: bit_and_iff bit_not_iff)
qed

lemma any_member_iff: "any_member X needles num_hashes stored \<longleftrightarrow> bloom_may_hold X needles num_hashes stored"
proof (cases "stored = []")
  case True
  then show ?thesis by (simp add: any_member_def bloom_may_hold_def)
next
  case False
  let ?w = "length stored"
  have w: "0 < ?w" using False by simp
  have "(\<forall>(b, s) \<in> set (zip (needle_mask X num_hashes ?w needle) stored). b AND NOT s = 0) \<longleftrightarrow>
      (\<forall>n < num_hashes. let b = bloom_bit X needle n (?w * 8) in bit (stored ! (b div 8)) (b mod 8))"
    (is "?L \<longleftrightarrow> ?R") for needle
  proof -
    have "?L \<longleftrightarrow> (\<forall>j < ?w. \<forall>k < 8. (\<exists>n < num_hashes. bloom_bit X needle n (?w * 8) = j * 8 + k)
        \<longrightarrow> bit (stored ! j) k)"
      using w by (force simp: set_zip length_needle_mask and_not_zero needle_mask_bit)
    also have "\<dots> \<longleftrightarrow> ?R"
    proof
      assume a: "\<forall>j < ?w. \<forall>k < 8. (\<exists>n < num_hashes. bloom_bit X needle n (?w * 8) = j * 8 + k)
        \<longrightarrow> bit (stored ! j) k"
      show ?R
      proof (intro allI impI)
        fix n assume n: "n < num_hashes"
        let ?b = "bloom_bit X needle n (?w * 8)"
        have "?b < ?w * 8" using w by (simp add: bloom_bit_def)
        then have "?b div 8 < ?w" by (simp add: less_mult_imp_div_less)
        moreover have "?b = ?b div 8 * 8 + ?b mod 8" by simp
        ultimately show "let b = ?b in bit (stored ! (b div 8)) (b mod 8)"
          using a n by (metis mod_less_divisor zero_less_numeral)
      qed
    next
      assume r: ?R
      show "\<forall>j < ?w. \<forall>k < 8. (\<exists>n < num_hashes. bloom_bit X needle n (?w * 8) = j * 8 + k)
        \<longrightarrow> bit (stored ! j) k"
        using r by (auto simp: Let_def)
    qed
    finally show ?thesis .
  qed
  moreover have "(\<forall>n \<in> {0..<num_hashes}. Q n) \<longleftrightarrow> (\<forall>n < num_hashes. Q n)" for Q by auto
  ultimately show ?thesis
    using False by (simp add: any_member_def bloom_may_hold_def missing_fold list_ex_iff list_all_iff Let_def)
qed

lemma eval_bloom_computes:
  "computes (eval_bloom X needles num_hashes)
     (\<lambda>c. case c of CBytes t b \<Rightarrow> bloom_may_hold X needles num_hashes b | _ \<Rightarrow> False) a"
  by (cases a) (simp_all add: computes_def any_member_iff)


section \<open>Facts: lists and dictionaries\<close>

lemma element_in_iff:
  "elements_resolve any child \<Longrightarrow> element_in any child j \<longleftrightarrow> element_admits any (cell_at child j)"
  by (cases any; cases child) simp_all

lemma eval_list_any_computes: "computes (eval_list_any any) (list_any_admits any) a"
proof (cases "\<exists>large os child n. a = AList large os child n")
  case True
  then obtain large os child n where a: "a = AList large os child n" by blast
  show ?thesis
  proof (cases "elements_resolve any child")
    case True
    then have "list_ex (element_in any child) js = list_ex (element_admits any) (map (cell_at child) js)" for js
      by (simp add: list_ex_iff element_in_iff)
    with True show ?thesis by (simp add: computes_def a)
  next
    case False
    then show ?thesis by (simp add: computes_def a)
  qed
next
  case False
  then show ?thesis by (cases a) (auto simp: computes_def)
qed

lemma dictionary_keys_fit:
  "wf_array (ADictionary ks n vals) \<Longrightarrow> Some k \<in> set (masked n ks) \<Longrightarrow> k < len vals"
  by (auto simp: in_set_conv_nth split: if_splits)

lemma computes_through: "\<not> is_dictionary a \<Longrightarrow> computes (through_dictionary K f) P a = computes f P a"
  by (cases a) (simp_all add: computes_def)

lemma through_dictionary_computes:
  assumes K: "kernels_ok K" and "\<not> P CNull"
    and f: "\<And>b. wf_array b \<Longrightarrow> \<not> is_dictionary b \<Longrightarrow> computes f P b"
  shows "wf_array a \<Longrightarrow> computes (through_dictionary K f) P a"
proof (induction a)
  case (ADictionary ks n vals)
  from ADictionary have ih: "computes (through_dictionary K f) P vals" by simp
  show ?case
    unfolding computes_def
  proof (intro allI impI)
    fix m assume "through_dictionary K f (ADictionary ks n vals) = Inr m"
    then obtain m' where m': "through_dictionary K f vals = Inr m'"
      and m: "m = map (\<lambda>v. Some (v = Some True)) (k_take K m' (masked n ks))"
      by (auto simp: and_then_Inr_iff)
    from ih m' have l: "length m' = len vals"
      and v: "\<And>j. j < len vals \<Longrightarrow> m' ! j = Some True \<longleftrightarrow> P (cell_at vals j)"
      by (auto simp: computes_def)
    have "k_take K m' (masked n ks) = map (\<lambda>k. case k of None \<Rightarrow> None | Some i \<Rightarrow> m' ! i) (masked n ks)"
      by (rule kernel_take [OF K]) (use dictionary_keys_fit [OF ADictionary.prems] l in simp)
    with m have m: "m = map (\<lambda>k. Some ((case k of None \<Rightarrow> None | Some i \<Rightarrow> m' ! i) = Some True)) (masked n ks)"
      by simp
    show "length m = len (ADictionary ks n vals) \<and> (\<forall>i < len (ADictionary ks n vals).
        m ! i = Some True \<longleftrightarrow> P (cell_at (ADictionary ks n vals) i))"
      using ADictionary.prems v assms(2) by (auto simp: m)
  qed
qed (simp_all add: computes_through f)


section \<open>Facts: masks combined\<close>

text \<open>A mask built up by \<open>or\<close> (or by \<open>and\<close>), \<^const>\<open>None\<close> before the first one.\<close>

definition or_state :: "mask option \<Rightarrow> nat \<Rightarrow> (nat \<Rightarrow> bool) \<Rightarrow> bool" where
  "or_state any n R = (case any of
     None \<Rightarrow> \<forall>i < n. \<not> R i
   | Some m \<Rightarrow> length m = n \<and> (\<forall>i < n. m ! i = Some True \<longleftrightarrow> R i))"

definition and_state :: "mask option \<Rightarrow> nat \<Rightarrow> (nat \<Rightarrow> bool) \<Rightarrow> bool" where
  "and_state acc n R = (case acc of
     None \<Rightarrow> \<forall>i < n. R i
   | Some m \<Rightarrow> length m = n \<and> (\<forall>i < n. m ! i = Some True \<longleftrightarrow> R i))"

definition keeps_rows :: "mask \<Rightarrow> nat \<Rightarrow> (nat \<Rightarrow> bool) \<Rightarrow> bool" where
  "keeps_rows m n R \<longleftrightarrow> length m = n \<and> (\<forall>i < n. m ! i = Some True \<longleftrightarrow> R i)"

lemma keeps_rowsD: "keeps_rows m n R \<Longrightarrow> i < n \<Longrightarrow> m ! i = Some True \<longleftrightarrow> R i"
  by (simp add: keeps_rows_def)

lemma keeps_rows_cong: "keeps_rows m n R \<Longrightarrow> (\<And>i. i < n \<Longrightarrow> R i \<longleftrightarrow> S i) \<Longrightarrow> keeps_rows m n S"
  by (simp add: keeps_rows_def)

lemma keeps_rows_or:
  "kernels_ok K \<Longrightarrow> keeps_rows a n R \<Longrightarrow> keeps_rows b n S \<Longrightarrow> keeps_rows (k_or_kleene K a b) n (\<lambda>i. R i \<or> S i)"
  by (simp add: keeps_rows_def kernel_simps)

lemma keeps_rows_and:
  "kernels_ok K \<Longrightarrow> keeps_rows a n R \<Longrightarrow> keeps_rows b n S \<Longrightarrow> keeps_rows (k_and K a b) n (\<lambda>i. R i \<and> S i)"
  by (simp add: keeps_rows_def kernel_simps)

lemma keeps_rows_all: "keeps_rows (all_mask n v) n (\<lambda>i. v)"
  by (simp add: keeps_rows_def)

lemma or_state_keeps: "or_state any n R \<Longrightarrow> keeps_rows (unwrap_or (all_mask n False) any) n R"
  by (auto simp: or_state_def keeps_rows_def unwrap_or_def split: option.splits)

lemma and_state_keeps: "and_state acc n R \<Longrightarrow> keeps_rows (unwrap_or (all_mask n True) acc) n R"
  by (auto simp: and_state_def keeps_rows_def unwrap_or_def split: option.splits)

lemma or_next_state:
  assumes "kernels_ok K" "or_state any n R" "keeps_rows m n S"
  shows "or_state (or_next K any m) n (\<lambda>i. R i \<or> S i)"
proof (cases any)
  case None
  with assms(2,3) show ?thesis by (auto simp: or_state_def or_next_def keeps_rows_def)
next
  case (Some a)
  with assms(2) have "keeps_rows a n R" by (simp add: or_state_def keeps_rows_def)
  from keeps_rows_or [OF assms(1) this assms(3)] Some show ?thesis
    by (simp add: or_state_def or_next_def keeps_rows_def)
qed

lemma and_next_state:
  assumes "kernels_ok K" "and_state acc n R" "keeps_rows m n S"
  shows "and_state (and_next K acc m) n (\<lambda>i. R i \<and> S i)"
proof (cases acc)
  case None
  with assms(2,3) show ?thesis by (auto simp: and_state_def and_next_def keeps_rows_def)
next
  case (Some a)
  with assms(2) have "keeps_rows a n R" by (simp add: and_state_def keeps_rows_def)
  from keeps_rows_and [OF assms(1) this assms(3)] Some show ?thesis
    by (simp add: and_state_def and_next_def keeps_rows_def)
qed

lemma or_fold:
  assumes K: "kernels_ok K"
    and "try_fold (\<lambda>x any. and_then (g x) (\<lambda>m. Inr (or_next K any m))) xs any = Inr any'"
    and "or_state any n R"
    and "\<And>x m. x \<in> set xs \<Longrightarrow> g x = Inr m \<Longrightarrow> keeps_rows m n (S x)"
  shows "or_state any' n (\<lambda>i. R i \<or> (\<exists>x \<in> set xs. S x i))"
  using assms(2-)
proof (induction xs arbitrary: any R)
  case Nil
  then show ?case by simp
next
  case (Cons x xs)
  from Cons.prems(1) obtain m where m: "g x = Inr m"
    and rest: "try_fold (\<lambda>x any. and_then (g x) (\<lambda>m. Inr (or_next K any m))) xs (or_next K any m) = Inr any'"
    by (auto simp: and_then_Inr_iff)
  from Cons.prems(3) [OF _ m] have "keeps_rows m n (S x)" by simp
  from Cons.IH [OF rest or_next_state [OF K Cons.prems(2) this]] Cons.prems(3)
  have "or_state any' n (\<lambda>i. (R i \<or> S x i) \<or> (\<exists>x \<in> set xs. S x i))" by simp
  then show ?case by (simp add: disj_assoc)
qed


section \<open>Facts: evaluation\<close>

lemma computes_keeps: "computes f P a \<Longrightarrow> f a = Inr m \<Longrightarrow> keeps_rows m (len a) (\<lambda>i. P (cell_at a i))"
  by (simp add: computes_def keeps_rows_def)

lemma in_set_admits_CNull [simp]: "\<not> in_set_admits X sets encoding CNull"
  by simp

lemma in_list_admits_CNull [simp]: "\<not> in_list_admits listed CNull"
  by (simp add: in_list_admits_def)

lemma evaluate_computes:
  assumes K: "kernels_ok K" and a: "wf_array a"
  shows "predicate_ok p \<Longrightarrow> computes (evaluate X K p) (admits X p) a"
proof (induction p)
  case (PEq v)
  then have "computes (through_dictionary K (eval_eq K v)) (eq_admits v) a"
    by (intro through_dictionary_computes [OF K _ _ a] eval_eq_computes [OF K]) simp_all
  then show ?case by (simp add: computes_def)
next
  case (PInList listed)
  then have "computes (through_dictionary K (eval_in_list listed)) (in_list_admits listed) a"
    by (intro through_dictionary_computes [OF K _ _ a] eval_in_list_computes) simp_all
  then show ?case by (simp add: computes_def)
next
  case (PBloom needles num_bytes num_hashes)
  have "computes (through_dictionary K (eval_bloom X needles num_hashes))
      (\<lambda>c. case c of CBytes t b \<Rightarrow> bloom_may_hold X needles num_hashes b | _ \<Rightarrow> False) a"
    by (intro through_dictionary_computes [OF K _ _ a] eval_bloom_computes) simp_all
  then show ?case by (simp add: computes_def)
next
  case (PInSet sets encoding)
  have "computes (through_dictionary K (eval_in_set X sets encoding)) (in_set_admits X sets encoding) a"
    by (intro through_dictionary_computes [OF K _ _ a] eval_in_set_computes) simp_all
  then show ?case by (simp add: computes_def)
next
  case (PGte v)
  then have "computes (through_dictionary K (compare_scalar K v True)) (range_admits v True) a"
    by (intro through_dictionary_computes [OF K _ _ a] compare_scalar_computes [OF K]) simp_all
  then show ?case by (simp add: computes_def)
next
  case (PLte v)
  then have "computes (through_dictionary K (compare_scalar K v False)) (range_admits v False) a"
    by (intro through_dictionary_computes [OF K _ _ a] compare_scalar_computes [OF K]) simp_all
  then show ?case by (simp add: computes_def)
next
  case (PListAny any)
  then show ?case using eval_list_any_computes [of any a] by (simp add: computes_def)
next
  case PNever
  then show ?case by (simp add: computes_def)
next
  case (PAnyOf parts)
  show ?case
    unfolding computes_def
  proof (intro allI impI)
    fix m assume "evaluate X K (PAnyOf parts) a = Inr m"
    then obtain any where f: "try_fold (\<lambda>part any. and_then (evaluate X K part a) (\<lambda>m. Inr (or_next K any m)))
        parts None = Inr any" and m: "m = unwrap_or (all_mask (len a) False) any"
      by (auto simp: and_then_Inr_iff)
    have "or_state any (len a) (\<lambda>i. False \<or> (\<exists>p \<in> set parts. admits X p (cell_at a i)))"
    proof (rule or_fold [OF K f])
      show "or_state None (len a) (\<lambda>i. False)" by (simp add: or_state_def)
      fix p m' assume p: "p \<in> set parts" "evaluate X K p a = Inr m'"
      then have "predicate_ok p" using PAnyOf.prems by (simp add: list_all_iff)
      from computes_keeps [OF PAnyOf.IH [OF p(1) this] p(2)]
      show "keeps_rows m' (len a) (\<lambda>i. admits X p (cell_at a i))" .
    qed
    from or_state_keeps [OF this] m
    show "length m = len a \<and> (\<forall>i < len a. m ! i = Some True \<longleftrightarrow> admits X (PAnyOf parts) (cell_at a i))"
      by (simp add: keeps_rows_def list_ex_iff)
  qed
qed

lemma admits_CNull: "\<not> admits X p CNull"
  by (induction p) (simp_all add: list_ex_iff)


section \<open>Statistics\<close>

text \<open>A row group's statistics cover a cell: what the writer recorded bounds every value of the group.\<close>

fun covers :: "stat_range \<Rightarrow> cell \<Rightarrow> bool" where
  "covers (SInts stored lo hi) c =
     (case c of
        CNull \<Rightarrow> True
      | CInt t x \<Rightarrow> stored = DInt t \<and> in_range t x \<and> lo \<le> x \<and> x \<le> hi
      | _ \<Rightarrow> False)"
| "covers (SText lo hi) c =
     (case c of CNull \<Rightarrow> True | CText s \<Rightarrow> lo \<le> s \<and> s \<le> hi | _ \<Rightarrow> False)"

text \<open>
  The contract of a filter with the scan: statistics skip only what no row of the group would pass,
  prove only what every value of the group passes, and a null passes nothing.
\<close>

locale array_predicate =
  fixes admit :: "'p \<Rightarrow> 'c \<Rightarrow> bool"
    and skip :: "'p \<Rightarrow> 's \<Rightarrow> bool"
    and prove_all :: "'p \<Rightarrow> 's \<Rightarrow> bool"
    and cover :: "'s \<Rightarrow> 'c \<Rightarrow> bool"
    and null :: 'c
    and wf :: "'p \<Rightarrow> bool"
  assumes skip_sound: "wf p \<Longrightarrow> skip p s \<Longrightarrow> cover s c \<Longrightarrow> \<not> admit p c"
    and prove_sound: "wf p \<Longrightarrow> prove_all p s \<Longrightarrow> cover s c \<Longrightarrow> c \<noteq> null \<Longrightarrow> admit p c"
    and null_sound: "\<not> admit p null"
begin

text \<open>A conjunction of filters, each on a column of its own, over a row group's statistics.\<close>

lemma skip_conjunction:
  assumes "\<And>k p. (k, p) \<in> set ps \<Longrightarrow> wf p"
    and "\<And>k s. stats k = Some s \<Longrightarrow> cover s (row k)"
    and "list_ex (\<lambda>(k, p). case stats k of None \<Rightarrow> False | Some s \<Rightarrow> skip p s) ps"
  shows "\<not> list_all (\<lambda>(k, p). admit p (row k)) ps"
  using assms skip_sound by (force simp: list_ex_iff list_all_iff split: option.splits)

text \<open>A filter that does not skip a group is one the group's rows still have to be asked about.\<close>

lemma not_both:
  "wf p \<Longrightarrow> skip p s \<Longrightarrow> prove_all p s \<Longrightarrow> cover s c \<Longrightarrow> c = null"
  using skip_sound prove_sound by blast

text \<open>Dropping the filters that are proved for a row leaves its verdict as it was.\<close>

lemma drop_proved:
  assumes "\<And>k p. (k, p) \<in> set ps \<Longrightarrow> wf p"
    and "\<And>k p. (k, p) \<in> set ps \<Longrightarrow> proved (k, p) \<Longrightarrow> admit p (row k)"
  shows "list_all (\<lambda>(k, p). admit p (row k)) (filter (\<lambda>e. \<not> proved e) ps) \<longleftrightarrow>
     list_all (\<lambda>(k, p). admit p (row k)) ps"
  using assms(2) by (force simp: list_all_iff)

end

lemma none_within_iff: "none_within (sort vs) lo hi \<longleftrightarrow> (\<forall>v \<in> set vs. v < lo \<or> hi < v)"
  unfolding none_within_def using partition_point_sorted_get [OF sorted_sort, where lo = lo and hi = hi and xs1 = vs] by simp

lemma key_in_range_of_listed:
  assumes "in_range t x" "stored_key x \<in> set ks"
    "\<forall>k \<in> set ks. key_value k (signed_of t) < lo \<or> hi < key_value k (signed_of t)"
  shows "x < lo \<or> hi < x"
  using assms key_value_stored_key [OF assms(1)] by metis

lemma ints_outside_sound:
  assumes "ints_outside ints stored lo hi = Some True" "values_ok ints" "covers (SInts stored lo hi) (CInt t x)"
  shows "\<not> listed_hold ints t x"
proof -
  obtain ks where ks: "stored_keys ints (DInt t) = Some ks" using stored_keys_DInt by blast
  from assms(3) have s: "stored = DInt t" "in_range t x" "lo \<le> x" "x \<le> hi" by simp_all
  with assms(1) ks have "\<forall>k \<in> set ks. key_value k (signed_of t) < lo \<or> hi < key_value k (signed_of t)"
    by (simp add: ints_outside_def keys_outside_def list_all_iff)
  with key_in_range_of_listed [OF s(2) _ this] s(3,4) have "stored_key x \<notin> set ks" by auto
  with stored_keys_hold [OF s(2) assms(2) ks] show ?thesis by simp
qed

lemma sorted_ints_sound:
  assumes "sorted_ints_of ints stored = Some vs" "none_within vs lo hi" "values_ok ints"
    "covers (SInts stored lo hi) (CInt t x)"
  shows "\<not> listed_hold ints t x"
proof (rule ints_outside_sound [OF _ assms(3,4)])
  from assms(4) have s: "stored = DInt t" by simp
  obtain ks where ks: "stored_keys ints (DInt t) = Some ks" using stored_keys_DInt by blast
  with assms(1) s have "vs = sort (map (\<lambda>k. key_value k (signed_of t)) (remdups ks))"
    by (simp add: sorted_ints_of_def)
  with assms(2) have "\<forall>k \<in> set ks. key_value k (signed_of t) < lo \<or> hi < key_value k (signed_of t)"
    by (simp add: none_within_iff)
  with ks s show "ints_outside ints stored lo hi = Some True"
    by (simp add: ints_outside_def keys_outside_def list_all_iff)
qed

lemma covers_text: "covers stats (CText s) \<Longrightarrow> \<exists>lo hi. stats = SText lo hi \<and> lo \<le> s \<and> s \<le> hi"
  by (cases stats) simp_all

lemma covers_int: "covers stats (CInt t x) \<Longrightarrow>
    \<exists>lo hi. stats = SInts (DInt t) lo hi \<and> in_range t x \<and> lo \<le> x \<and> x \<le> hi"
  by (cases stats) simp_all

lemma covers_other:
  "covers stats c \<Longrightarrow> c = CNull \<or> (\<exists>s. c = CText s) \<or> (\<exists>t x. c = CInt t x)"
  by (cases stats; cases c) simp_all

lemma eq_can_skip_ints:
  "as_ints v = Some ints \<Longrightarrow> eq_can_skip v (SInts stored lo hi) \<longleftrightarrow> ints_outside ints stored lo hi = Some True"
  by (cases v) (simp_all add: eq_can_skip_def)

lemma eq_can_skip_sound:
  assumes "eq_can_skip v stats" "scalar_ok v" "covers stats c"
  shows "\<not> eq_admits v c"
proof
  assume adm: "eq_admits v c"
  consider (bool) b where "v = SvBoolean b" | (text_v) s where "v = SvUtf8 s"
    | (ints) ints where "as_ints v = Some ints"
    by (cases v) auto
  then show False
  proof cases
    case bool
    with assms(1) show False by (cases stats) (simp_all add: eq_can_skip_def)
  next
    case text_v
    with adm have "c = CText s" by (cases c) simp_all
    with text_v assms(1,3) covers_text [of stats s] show False
      by (auto simp: eq_can_skip_def)
  next
    case ints
    with adm obtain t x where c: "c = CInt t x" "listed_hold ints t x"
      by (cases c) (simp_all add: eq_admits_ints)
    with assms(3) covers_int [of stats t x] obtain lo hi where s: "stats = SInts (DInt t) lo hi" by blast
    with assms(1) ints have "ints_outside ints (DInt t) lo hi = Some True"
      by (simp add: eq_can_skip_ints)
    with ints_outside_sound [OF this as_ints_ok [OF ints assms(2)]] assms(3) s c show False by simp
  qed
qed

lemma in_list_can_skip_sound:
  assumes "in_list_can_skip listed stats" "wf_array listed" "covers stats c"
  shows "\<not> in_list_admits listed c"
proof -
  from covers_other [OF assms(3)] consider "c = CNull" | (t) s where "c = CText s" | (i) t x where "c = CInt t x"
    by blast
  then show ?thesis
  proof cases
    case t
    with assms covers_text [of stats s] show ?thesis
      by (auto simp: in_list_can_skip_def in_list_admits_def none_within_iff simp flip: not_less
          split: option.splits)
  next
    case i
    with assms(3) covers_int [of stats t x] obtain lo hi where s: "stats = SInts (DInt t) lo hi" by blast
    show ?thesis
    proof (cases "int_values_of_array listed")
      case None
      with i show ?thesis by (simp add: in_list_admits_def)
    next
      case (Some ints)
      with assms(1) s obtain vs where "sorted_ints_of ints (DInt t) = Some vs" "none_within vs lo hi"
        by (auto simp: in_list_can_skip_def split: option.splits)
      from sorted_ints_sound [OF this list_ints_ok [OF assms(2) Some]] assms(3) s i Some show ?thesis
        by (simp add: in_list_admits_def)
    qed
  qed (simp add: in_list_admits_def)
qed

lemma range_outside_ints:
  "as_ints v = Some ints \<Longrightarrow> range_outside v (SInts stored lo hi) gte \<longleftrightarrow>
     (case threshold_new ints stored of
        None \<Rightarrow> False | Some Below \<Rightarrow> \<not> gte | Some Above \<Rightarrow> gte
      | Some (Within w) \<Rightarrow> if gte then hi < w else w < lo
      | Some (Reinterpreted _ _ _) \<Rightarrow> False)"
  by (cases v) (simp_all add: range_outside_def)

lemma range_outside_sound:
  assumes "range_outside v stats gte" "covers stats c"
  shows "\<not> range_admits v gte c"
proof
  assume adm: "range_admits v gte c"
  consider (bool) b where "v = SvBoolean b" | (text_v) s where "v = SvUtf8 s"
    | (ints) ints where "as_ints v = Some ints"
    by (cases v) auto
  then show False
  proof cases
    case bool
    with assms(1) show False by (cases stats) (simp_all add: range_outside_def)
  next
    case text_v
    with adm obtain u where "c = CText u" by (cases c) (simp_all add: range_admits_def)
    with text_v assms adm covers_text [of stats u] show False
      by (auto simp: range_outside_def range_admits_def split: if_splits)
  next
    case ints
    with adm obtain t x where c: "c = CInt t x"
      by (cases c; cases v) (simp_all add: range_admits_def)
    with assms(2) covers_int [of stats t x] obtain lo hi where
      s: "stats = SInts (DInt t) lo hi" "in_range t x" "lo \<le> x" "x \<le> hi" by blast
    obtain thr where thr: "threshold_new ints (DInt t) = Some thr" using threshold_new_DInt by blast
    from threshold_cases [OF thr s(2)] assms(1) s adm c show False
      by (cases thr) (auto simp: range_outside_ints [OF ints] thr range_admits_ints [OF ints] Let_def
          split: if_splits)
  qed
qed

lemma can_skip_sound:
  "predicate_ok p \<Longrightarrow> can_skip p stats \<Longrightarrow> covers stats c \<Longrightarrow> \<not> admits X p c"
  by (induction p)
    (auto simp: eq_can_skip_sound in_list_can_skip_sound range_outside_sound list_ex_iff list_all_iff)

lemma covers_point_int: "covers (SInts stored lo lo) (CInt t x) \<Longrightarrow> x = lo \<and> stored = DInt t \<and> in_range t x"
  by simp

lemma eq_matches_sound:
  assumes "eq_matches_every_value v stats" "scalar_ok v" "covers stats c" "c \<noteq> CNull"
  shows "eq_admits v c"
proof -
  consider (bool) b where "v = SvBoolean b" | (text_v) s where "v = SvUtf8 s"
    | (ints) ints where "as_ints v = Some ints"
    by (cases v) auto
  then show ?thesis
  proof cases
    case bool
    with assms(1) show ?thesis by (cases stats) (simp_all add: eq_matches_every_value_def)
  next
    case text_v
    with assms(1) obtain lo where "stats = SText lo lo" "s = lo"
      by (cases stats) (simp_all add: eq_matches_every_value_def)
    with assms(3,4) text_v show ?thesis by (cases c) (auto intro: antisym)
  next
    case ints
    then obtain stored lo where s: "stats = SInts stored lo lo" "ints_hold ints stored lo = Some True"
      using assms(1) by (cases v; cases stats) (simp_all add: eq_matches_every_value_def)
    with assms(3,4) obtain t where c: "c = CInt t lo" "stored = DInt t" "in_range t lo"
      by (cases c) auto
    obtain ks where ks: "stored_keys ints (DInt t) = Some ks" using stored_keys_DInt by blast
    with s(2) c have "stored_key lo \<in> set ks" by (auto simp: ints_hold_def list_ex_iff)
    with stored_keys_hold [OF c(3) as_ints_ok [OF ints assms(2)] ks] c ints show ?thesis
      by (simp add: eq_admits_ints)
  qed
qed

lemma in_list_matches_sound:
  assumes "in_list_matches_every_value listed stats" "wf_array listed" "covers stats c" "c \<noteq> CNull"
  shows "in_list_admits listed c"
proof (cases stats)
  case (SText lo hi)
  with assms show ?thesis
    by (cases c) (auto simp: in_list_matches_every_value_def in_list_admits_def split: option.splits)
next
  case (SInts stored lo hi)
  with assms(1) obtain ints ks where i: "int_values_of_array listed = Some ints"
    "stored_keys ints stored = Some ks" "stored_key lo \<in> set ks" "lo = hi"
    by (auto simp: in_list_matches_every_value_def split: option.splits)
  with assms(3,4) SInts obtain t where c: "c = CInt t lo" "stored = DInt t" "in_range t lo"
    by (cases c) auto
  with stored_keys_hold [OF c(3) list_ints_ok [OF assms(2) i(1)], of ks] i show ?thesis
    by (simp add: in_list_admits_def)
qed

lemma matches_sound:
  "predicate_ok p \<Longrightarrow> matches_every_value p stats \<Longrightarrow> covers stats c \<Longrightarrow> c \<noteq> CNull \<Longrightarrow> admits X p c"
  by (induction p) (auto simp: eq_matches_sound in_list_matches_sound list_ex_iff list_all_iff)

interpretation scan: array_predicate "admits X" can_skip matches_every_value covers CNull predicate_ok
  for X :: externals
  by unfold_locales (auto simp: can_skip_sound matches_sound admits_CNull)


section \<open>Stored types\<close>

text \<open>A refusal depends on the column's type alone.\<close>

definition refuses :: "(array \<Rightarrow> mask_error + mask) \<Rightarrow> bool" where
  "refuses f \<longleftrightarrow> (\<forall>a b. data_type_of a = data_type_of b \<longrightarrow> (\<forall>e. f a = Inl e \<longleftrightarrow> f b = Inl e))"

fun sets_of :: "predicate \<Rightarrow> set_filter list" where
  "sets_of (PInSet sets encoding) = sets"
| "sets_of (PAnyOf parts) = concat (map sets_of parts)"
| "sets_of _ = []"

lemma refusesD: "refuses f \<Longrightarrow> data_type_of a = data_type_of b \<Longrightarrow> f a = Inl e \<longleftrightarrow> f b = Inl e"
  unfolding refuses_def by blast

lemma refuses_cong:
  assumes "refuses f" and "\<And>a. g a = f a"
  shows "refuses g"
proof -
  from assms(2) have "g = f" by (rule ext)
  with assms(1) show ?thesis by simp
qed

lemma in_list_int_None: "in_list_int a ks = None \<longleftrightarrow> (\<forall>t. data_type_of a \<noteq> DInt t)"
  by (cases a) simp_all

lemma in_list_text_None: "in_list_text a ss = None \<longleftrightarrow> (\<forall>t. data_type_of a \<noteq> DText t)"
  by (cases a) simp_all

lemma in_list_bytes_None: "in_list_bytes a bs = None \<longleftrightarrow> (\<forall>t. data_type_of a \<noteq> DBytes t)"
  by (cases a) simp_all

lemma or_unsupported_Inl: "or_unsupported a m = Inl e \<longleftrightarrow> m = None \<and> e = UnsupportedType (data_type_of a)"
  by (auto simp: or_unsupported_def)

lemma stored_keys_None: "stored_keys ints ty = None \<longleftrightarrow> (\<forall>t. ty \<noteq> DInt t)"
  by (cases ints; cases ty) simp_all

lemma int_keys_None:
  "(case stored_keys ints (data_type_of a) of None \<Rightarrow> None | Some ks \<Rightarrow> in_list_int a ks) = None \<longleftrightarrow>
     (\<forall>t. data_type_of a \<noteq> DInt t)"
  by (auto simp: in_list_int_None stored_keys_None split: option.splits)

lemma eval_eq_refuses: "refuses (eval_eq K v)"
proof -
  consider (bool) b where "v = SvBoolean b" | (text_v) s where "v = SvUtf8 s"
    | (ints) ints where "as_ints v = Some ints"
    by (cases v) auto
  then show ?thesis
  proof cases
    case bool
    have "eval_eq K v a = Inl e \<longleftrightarrow> data_type_of a \<noteq> DBoolean \<and> (\<forall>t. data_type_of a \<noteq> DInt t) \<and>
        e = UnsupportedType (data_type_of a)" for a e
      unfolding bool by (cases a) (auto simp: eval_eq_def or_unsupported_Inl)
    then show ?thesis by (simp add: refuses_def)
  next
    case text_v
    then show ?thesis by (simp add: refuses_def eval_eq_def or_unsupported_Inl in_list_text_None)
  next
    case ints
    have "eval_eq K v a = Inl e \<longleftrightarrow> (\<forall>t. data_type_of a \<noteq> DInt t) \<and> e = UnsupportedType (data_type_of a)"
      for a e
      unfolding eval_eq_ints [OF ints] or_unsupported_Inl int_keys_None ..
    then show ?thesis by (simp add: refuses_def)
  qed
qed

lemma eval_in_list_refuses: "refuses (eval_in_list listed)"
proof -
  consider (texts) ss where "string_set listed = Some ss"
    | (ints) ints where "string_set listed = None" "int_values_of_array listed = Some ints"
    | (bytes) bs where "string_set listed = None" "int_values_of_array listed = None"
        "fixed_binary_set listed = Some bs"
    | (other) "string_set listed = None" "int_values_of_array listed = None" "fixed_binary_set listed = None"
    by (cases "string_set listed"; cases "int_values_of_array listed"; cases "fixed_binary_set listed") auto
  then show ?thesis
  proof cases
    case texts
    then show ?thesis by (simp add: refuses_def eval_in_list_def or_unsupported_Inl in_list_text_None)
  next
    case ints
    have "eval_in_list listed a = Inl e \<longleftrightarrow> (\<forall>t. data_type_of a \<noteq> DInt t) \<and> e = UnsupportedType (data_type_of a)"
      for a e
      unfolding eval_in_list_def ints option.case or_unsupported_Inl int_keys_None ..
    then show ?thesis by (simp add: refuses_def)
  next
    case bytes
    then show ?thesis by (simp add: refuses_def eval_in_list_def or_unsupported_Inl in_list_bytes_None)
  next
    case other
    then show ?thesis by (simp add: refuses_def eval_in_list_def)
  qed
qed

lemma eval_bloom_refuses: "refuses (eval_bloom X needles num_hashes)"
proof -
  have "eval_bloom X needles num_hashes a = Inl e \<longleftrightarrow>
      (\<forall>t. data_type_of a \<noteq> DBytes t) \<and> e = UnsupportedType (data_type_of a)" for a e
    by (cases a) auto
  then show ?thesis by (simp add: refuses_def)
qed

lemma any_set_contains_total:
  "list_all (\<lambda>s. fuse8_ok (s_fuse8 s)) sets \<Longrightarrow> \<exists>b. any_set_contains X sets v = Inr b"
proof (induction sets)
  case Nil
  have "any_set_contains X [] v = Inr False" by simp
  then show ?case by blast
next
  case (Cons s ss)
  then obtain c where c: "any_set_contains X ss v = Inr c" by auto
  obtain b where "fuse_contains X (s_fuse8 s) v = Some b"
    using fuse_contains_total [of "s_fuse8 s"] Cons.prems by auto
  with c have "any_set_contains X (s # ss) v = Inr (b \<or> c)" by (cases b) simp_all
  then show ?case by blast
qed

lemma verdicts_total: "(\<And>v. \<exists>b. passes v = Inr b) \<Longrightarrow> \<exists>bs. verdicts passes previous vs = Inr bs"
proof (induction passes previous vs rule: verdicts.induct)
  case (3 passes previous v vs)
  from 3(3) [of v] obtain b where b: "passes v = Inr b" by blast
  with 3 show ?case by (cases "map_option fst previous = Some v") (auto simp: and_then_Inr_iff)
qed (auto simp: and_then_Inr_iff)

lemma eval_in_set_refuses:
  assumes "list_all (\<lambda>s. fuse8_ok (s_fuse8 s)) sets"
  shows "refuses (eval_in_set X sets encoding)"
proof -
  have v: "\<exists>bs. verdicts (\<lambda>w. any_set_contains X sets (g w)) None vs = Inr bs"
    for g :: "'w \<Rightarrow> u8 list" and vs
    by (rule verdicts_total) (rule any_set_contains_total [OF assms])
  have "eval_in_set X sets encoding a = Inl e \<longleftrightarrow> e = UnsupportedType (data_type_of a) \<and>
      (\<forall>t. data_type_of a \<noteq> DText t) \<and>
      (set_renderer X encoding = None \<or>
       (\<forall>t. data_type_of a = DBytes t \<longrightarrow> t = LargeBinary))" for a e
  proof (cases a)
    case (AText t vs n)
    with v [of "\<lambda>w. w" "masked n (map as_bytes vs)"] show ?thesis
      by (auto simp: eval_in_set_def)
  next
    case (ABytes t vs n)
    show ?thesis
    proof (cases "set_renderer X encoding")
      case None
      with ABytes show ?thesis by (auto simp: eval_in_set_def)
    next
      case (Some render)
      with v [of "\<lambda>w. unquoted (render w)" "masked n vs"] ABytes show ?thesis
        by (auto simp: eval_in_set_def)
    qed
  qed (auto simp: eval_in_set_def split: option.splits)
  then show ?thesis by (simp add: refuses_def)
qed

lemma compare_int_None: "compare_int K a ints gte = None \<longleftrightarrow> (\<forall>t. data_type_of a \<noteq> DInt t)"
  using threshold_new_DInt [of ints] by (cases a) auto

lemma compare_text_None: "compare_text K a s gte = None \<longleftrightarrow> (\<forall>t. data_type_of a \<noteq> DText t)"
  by (cases a) simp_all

lemma compare_scalar_refuses: "refuses (compare_scalar K v gte)"
  unfolding refuses_def compare_scalar_def
  by (cases v) (auto simp: or_unsupported_Inl compare_int_None compare_text_None)

lemma eval_list_any_refuses: "refuses (eval_list_any any)"
proof -
  have "elements_resolve any child \<longleftrightarrow> (case any of AnyU32 _ \<Rightarrow> \<exists>t. data_type_of child = DInt t
      | AnyText _ \<Rightarrow> \<exists>t. data_type_of child = DText t)" for child
    by (cases any; cases child) simp_all
  then have "eval_list_any any a = Inl e \<longleftrightarrow> e = UnsupportedType (data_type_of a) \<and>
      \<not> (\<exists>large ty. data_type_of a = DList large ty \<and>
        (case any of AnyU32 _ \<Rightarrow> \<exists>t. ty = DInt t | AnyText _ \<Rightarrow> \<exists>t. ty = DText t))" for a e
    by (cases a) auto
  then show ?thesis by (simp add: refuses_def)
qed

lemma is_dictionary_iff: "is_dictionary a \<longleftrightarrow> (\<exists>t. data_type_of a = DDictionary t)"
  by (cases a) simp_all

lemma through_plain: "\<not> is_dictionary a \<Longrightarrow> through_dictionary K f a = f a"
  by (cases a) simp_all

lemma through_dictionary_Inl:
  "through_dictionary K f (ADictionary ks n vals) = Inl e \<longleftrightarrow> through_dictionary K f vals = Inl e"
  by (simp add: and_then_Inl_iff)

lemma through_dictionary_refuses:
  assumes "refuses f"
  shows "refuses (through_dictionary K f)"
proof -
  have plain: "through_dictionary K f a = Inl e \<longleftrightarrow> through_dictionary K f b = Inl e"
    if "\<not> is_dictionary a" "data_type_of a = data_type_of b" for a b e
  proof -
    from that have "\<not> is_dictionary b" by (simp add: is_dictionary_iff)
    with that assms show ?thesis unfolding refuses_def by (metis through_plain)
  qed
  have "data_type_of a = data_type_of b \<Longrightarrow>
      through_dictionary K f a = Inl e \<longleftrightarrow> through_dictionary K f b = Inl e" for a b e
  proof (induction a arbitrary: b)
    case (ADictionary ks n vals)
    then obtain ks' n' vals' where b: "b = ADictionary ks' n' vals'" "data_type_of vals = data_type_of vals'"
      by (cases b) auto
    show ?case
      unfolding b(1) through_dictionary_Inl by (rule ADictionary.IH [OF b(2)])
  qed (rule plain; simp)+
  then show ?thesis unfolding refuses_def by blast
qed

lemma fold_refuses:
  assumes "\<And>x. x \<in> set xs \<Longrightarrow> refuses (g x)" and ab: "data_type_of a = data_type_of b"
  shows "try_fold (\<lambda>x any. and_then (g x a) (\<lambda>m. Inr (h any m))) xs s = Inl e \<longleftrightarrow>
    try_fold (\<lambda>x any. and_then (g x b) (\<lambda>m. Inr (h any m))) xs s' = Inl e"
  using assms(1)
proof (induction xs arbitrary: s s')
  case Nil
  then show ?case by simp
next
  case (Cons x xs)
  have "refuses (g x)" using Cons.prems by simp
  from refusesD [OF this ab] have r: "g x a = Inl e \<longleftrightarrow> g x b = Inl e" for e .
  show ?case
  proof (cases "g x a")
    case (Inl e')
    with r have "g x b = Inl e'" by blast
    with Inl show ?thesis by simp
  next
    case (Inr m)
    then obtain m' where "g x b = Inr m'" using r by (cases "g x b") auto
    with Inr Cons.IH Cons.prems show ?thesis by simp
  qed
qed

lemma evaluate_any_Inl:
  "evaluate X K (PAnyOf parts) a = Inl e \<longleftrightarrow>
     try_fold (\<lambda>part any. and_then (evaluate X K part a) (\<lambda>m. Inr (or_next K any m))) parts None = Inl e"
  by (simp add: and_then_Inl_iff)

lemma evaluate_refuses:
  "list_all (\<lambda>s. fuse8_ok (s_fuse8 s)) (sets_of p) \<Longrightarrow> refuses (evaluate X K p)"
proof (induction p)
  case (PEq v)
  show ?case by (rule refuses_cong [OF through_dictionary_refuses [OF eval_eq_refuses]]) simp
next
  case (PInList listed)
  show ?case by (rule refuses_cong [OF through_dictionary_refuses [OF eval_in_list_refuses]]) simp
next
  case (PBloom needles num_bytes num_hashes)
  show ?case by (rule refuses_cong [OF through_dictionary_refuses [OF eval_bloom_refuses]]) simp
next
  case (PInSet sets encoding)
  then have ok: "list_all (\<lambda>s. fuse8_ok (s_fuse8 s)) sets" by simp
  show ?case by (rule refuses_cong [OF through_dictionary_refuses [OF eval_in_set_refuses [OF ok]]]) simp
next
  case (PGte v)
  show ?case by (rule refuses_cong [OF through_dictionary_refuses [OF compare_scalar_refuses]]) simp
next
  case (PLte v)
  show ?case by (rule refuses_cong [OF through_dictionary_refuses [OF compare_scalar_refuses]]) simp
next
  case (PListAny any)
  show ?case by (rule refuses_cong [OF eval_list_any_refuses]) simp
next
  case PNever
  show ?case by (simp add: refuses_def)
next
  case (PAnyOf parts)
  then have each: "p \<in> set parts \<Longrightarrow> refuses (evaluate X K p)" for p
    by (auto simp: list_all_iff)
  have "try_fold (\<lambda>part any. and_then (evaluate X K part a) (\<lambda>m. Inr (or_next K any m))) parts None = Inl e \<longleftrightarrow>
      try_fold (\<lambda>part any. and_then (evaluate X K part b) (\<lambda>m. Inr (or_next K any m))) parts None = Inl e"
    if "data_type_of a = data_type_of b" for a b e
    by (rule fold_refuses [OF each that])
  then show ?case unfolding refuses_def evaluate_any_Inl by blast
qed

lemma data_type_decides:
  assumes "list_all (\<lambda>s. fuse8_ok (s_fuse8 s)) (sets_of p)" "data_type_of a = data_type_of b"
  shows "(\<exists>m. evaluate X K p a = Inr m) \<longleftrightarrow> (\<exists>m. evaluate X K p b = Inr m)"
proof -
  have "evaluate X K p a = Inl e \<longleftrightarrow> evaluate X K p b = Inl e" for e
    by (rule refusesD [OF evaluate_refuses [OF assms(1)] assms(2)])
  then have "(\<exists>e. evaluate X K p a = Inl e) \<longleftrightarrow> (\<exists>e. evaluate X K p b = Inl e)" by blast
  moreover have "(\<exists>m. evaluate X K p c = Inr m) \<longleftrightarrow> \<not> (\<exists>e. evaluate X K p c = Inl e)" for c
    by (cases "evaluate X K p c") simp_all
  ultimately show ?thesis by blast
qed


section \<open>Properties\<close>

text \<open>
  C3: A filter's mask keeps exactly the rows it admits: on a well-formed column of any width, any text
  or bytes type and any number of dictionary levels, the mask has one entry per row, and an entry is
  true exactly when the row has a value and that value, read at the signedness the filter declares it,
  is one the filter lets through.
\<close>

theorem evaluate_admits:
  assumes "kernels_ok K" and "wf_array a" and "predicate_ok p" and "evaluate X K p a = Inr m"
  shows "length m = len a \<and> (\<forall>i < len a. m ! i = Some True \<longleftrightarrow> admits X p (cell_at a i))"
  using evaluate_computes [OF assms(1,2,3), of X] assms(4) by (simp add: computes_def)

definition sample_column :: array where
  "sample_column = ADictionary [1, 0, 1] (Some [True, True, False]) (AInt Int8 [-1, 5] None)"

theorem evaluate_admits_witness:
  "\<exists>m. evaluate plain_externals plain_kernels (PEq (SvUInt8 255)) sample_column = Inr m \<and>
     (\<forall>i < 3. m ! i = Some True \<longleftrightarrow> admits plain_externals (PEq (SvUInt8 255)) (cell_at sample_column i))"
proof -
  have wf: "wf_array sample_column"
    by (auto simp: sample_column_def in_range_def nulls_fit_def less_Suc_eq)
  obtain m where m: "evaluate plain_externals plain_kernels (PEq (SvUInt8 255)) sample_column = Inr m"
    by (auto simp: sample_column_def eval_eq_def or_unsupported_def ok_or_def)
  from evaluate_admits [OF kernels_ok_plain wf _ m] m show ?thesis
    by (auto simp: sample_column_def)
qed

text \<open>
  C4: Statistics never change an answer: a row group is skipped only when no cell its statistics cover
  passes the filter, and proved only when every such cell that has a value does.
\<close>

theorem statistics_sound:
  assumes "predicate_ok p" and "covers stats c"
  shows "(can_skip p stats \<longrightarrow> \<not> admits X p c) \<and>
    (matches_every_value p stats \<longrightarrow> c \<noteq> CNull \<longrightarrow> admits X p c)"
  using scan.skip_sound [OF assms(1) _ assms(2)] scan.prove_sound [OF assms(1) _ assms(2)] by blast

theorem statistics_sound_witness:
  "\<not> admits plain_externals (PInList (AInt UInt64 [7, 300] None)) (CInt UInt8 9)"
proof -
  have "predicate_ok (PInList (AInt UInt64 [7, 300] None))"
    by (simp add: in_range_def nulls_fit_def)
  moreover have "covers (SInts (DInt UInt8) 8 20) (CInt UInt8 9)" by (simp add: in_range_def)
  moreover have "can_skip (PInList (AInt UInt64 [7, 300] None)) (SInts (DInt UInt8) 8 20)"
    by (simp add: in_list_can_skip_def sorted_ints_of_def none_within_def partition_point_def get_def
        fits_unsigned_def key_value_def drop_bit_eq_div)
  ultimately show ?thesis using statistics_sound by blast
qed

text \<open>
  Probing a filter against an empty column of a type answers for every column of that type: whether
  the filter refuses a column depends on the column's type alone, so a chunk that passes the probe is
  never refused, and never brings the lookup of a set down, while its rows are read.
\<close>

theorem check_stored_type_decides:
  assumes "list_all (\<lambda>s. fuse8_ok (s_fuse8 s)) (sets_of p)"
  shows "check_stored_type X K p (data_type_of a) = Inr () \<longleftrightarrow> (\<exists>m. evaluate X K p a = Inr m)"
proof -
  have "check_stored_type X K p (data_type_of a) = Inr () \<longleftrightarrow>
      (\<exists>m. evaluate X K p (empty_array (data_type_of a)) = Inr m)"
    by (auto simp: check_stored_type_def and_then_Inr_iff)
  also have "\<dots> \<longleftrightarrow> (\<exists>m. evaluate X K p a = Inr m)"
    by (rule data_type_decides [OF assms]) simp
  finally show ?thesis .
qed

theorem check_stored_type_decides_witness:
  "check_stored_type plain_externals plain_kernels PNever DBoolean = Inr () \<longleftrightarrow>
     (\<exists>m. evaluate plain_externals plain_kernels PNever (ABoolean [True] None) = Inr m)"
  using check_stored_type_decides [of PNever plain_externals plain_kernels "ABoolean [True] None"] by simp

end
