(* ===== verification/Row_Predicate.thy ===== *)
theory Row_Predicate
  imports Predicate_Correct
begin

text \<open>
  Row predicates, the second half of \<^verbatim>\<open>src/scan/predicate.rs\<close>: an item request's filters as a
  conjunction over columns with the alternatives of a discriminator, evaluated over a batch, skipped or
  reduced by statistics, and summarised by a cheaper filter every matching row also passes. The lemmas
  relate each to one reading of a row.
\<close>

type_synonym column_predicate = "string \<times> predicate"

record row_predicate =
  rp_columns :: "column_predicate list"
  rp_alternatives :: "column_predicate list list"

definition with_alternatives :: "column_predicate list \<Rightarrow> column_predicate list list \<Rightarrow> row_predicate" where
  "with_alternatives cols alts = \<lparr>rp_columns = cols, rp_alternatives = alts\<rparr>"

definition row_predicate_new :: "column_predicate list \<Rightarrow> row_predicate" where
  "row_predicate_new cols = with_alternatives cols []"

definition matches_every_row :: "row_predicate \<Rightarrow> bool" where
  "matches_every_row r = (rp_columns r = [] \<and> rp_alternatives r = [])"

definition column_predicates :: "row_predicate \<Rightarrow> column_predicate list" where
  "column_predicates r = rp_columns r @ concat (rp_alternatives r)"

definition required_columns :: "row_predicate \<Rightarrow> string list" where
  "required_columns r = map fst (column_predicates r)"

text \<open>A column the batch does not hold is passed over.\<close>

definition evaluate_all ::
    "externals \<Rightarrow> kernels \<Rightarrow> column_predicate list \<Rightarrow> batch \<Rightarrow> mask_error + mask" where
  "evaluate_all X K cols b =
     and_then (try_fold (\<lambda>(k, p) acc.
         case column_by_name b k of
           None \<Rightarrow> Inr acc
         | Some a \<Rightarrow> and_then (evaluate X K p a) (\<lambda>m. Inr (and_next K acc m))) cols None)
       (\<lambda>acc. Inr (unwrap_or (all_mask (b_num_rows b) True) acc))"

definition row_evaluate :: "externals \<Rightarrow> kernels \<Rightarrow> row_predicate \<Rightarrow> batch \<Rightarrow> mask_error + mask" where
  "row_evaluate X K r b =
     and_then (evaluate_all X K (rp_columns r) b) (\<lambda>result.
     if rp_alternatives r = [] then Inr result
     else and_then (try_fold (\<lambda>group any.
            and_then (evaluate_all X K group b) (\<lambda>m. Inr (or_next K any m))) (rp_alternatives r) None) (\<lambda>any.
          Inr (k_and K result (the any))))"

type_synonym column_stats = "string \<Rightarrow> stat_range option"

definition any_can_skip :: "column_predicate list \<Rightarrow> column_stats \<Rightarrow> bool" where
  "any_can_skip cols stats =
     list_ex (\<lambda>(k, p). case stats k of None \<Rightarrow> False | Some s \<Rightarrow> can_skip p s) cols"

definition can_skip_row_group :: "row_predicate \<Rightarrow> column_stats \<Rightarrow> bool" where
  "can_skip_row_group r stats =
     (let no_alternative_can_match =
            (rp_alternatives r \<noteq> [] \<and> list_all (\<lambda>g. any_can_skip g stats) (rp_alternatives r))
      in any_can_skip (rp_columns r) stats \<or> no_alternative_can_match)"

definition without_proven :: "(column_predicate \<Rightarrow> bool) \<Rightarrow> row_predicate \<Rightarrow> row_predicate option" where
  "without_proven proven r =
     (if \<not> list_ex proven (column_predicates r) then None
      else
        let unproven = filter (\<lambda>p. \<not> proven p);
            alts = map unproven (rp_alternatives r)
        in Some (with_alternatives (unproven (rp_columns r)) (if [] \<in> set alts then [] else alts)))"

definition or_row_predicates ::
    "externals \<Rightarrow> kernels \<Rightarrow> row_predicate list \<Rightarrow> batch \<Rightarrow> mask_error + mask" where
  "or_row_predicates X K ps b =
     and_then (try_fold (\<lambda>p any. and_then (row_evaluate X K p b) (\<lambda>m. Inr (or_next K any m))) ps None)
       (\<lambda>any. Inr (unwrap_or (all_mask (b_num_rows b) False) any))"

definition or_masks :: "kernels \<Rightarrow> mask list \<Rightarrow> nat list \<Rightarrow> nat \<Rightarrow> mask" where
  "or_masks K masks items n =
     unwrap_or (all_mask n False) (foldl (or_next K) None (map ((!) masks) items))"

definition is_listed :: "column_predicate \<Rightarrow> bool" where
  "is_listed p = (listed_values (snd p) \<noteq> None)"

definition demand_of :: "row_predicate list \<Rightarrow> (string, nat) omap" where
  "demand_of items =
     fold (\<lambda>k. omap_update k (\<lambda>n. unwrap_or 0 n + 1))
       (concat (map (\<lambda>r. map fst (filter is_listed (rp_columns r))) items)) []"

text \<open>\<open>max_by_key\<close> takes the last of several maxima.\<close>

fun max_by_key :: "('a \<Rightarrow> nat) \<Rightarrow> 'a list \<Rightarrow> 'a option" where
  "max_by_key f [] = None"
| "max_by_key f (x # xs) =
     (case max_by_key f xs of
        None \<Rightarrow> Some x
      | Some y \<Rightarrow> Some (if f x \<le> f y then y else x))"

definition most_demanded ::
    "column_predicate list \<Rightarrow> (string, nat) omap \<Rightarrow> column_predicate option" where
  "most_demanded ps demand = max_by_key (\<lambda>p. unwrap_or 0 (map_of demand (fst p))) (filter is_listed ps)"

definition choose_lists ::
    "(string, nat) omap \<Rightarrow> row_predicate \<Rightarrow> column_predicate list option" where
  "choose_lists demand r =
     (case most_demanded (rp_columns r) demand of
        Some p \<Rightarrow> Some [p]
      | None \<Rightarrow>
          if rp_alternatives r = [] then None
          else those (map (\<lambda>g. most_demanded g demand) (rp_alternatives r)))"

definition add_union :: "column_predicate \<Rightarrow> (string, array list) omap \<Rightarrow> (string, array list) omap option" where
  "add_union p unions =
     (case listed_values (snd p) of
        None \<Rightarrow> None
      | Some vs \<Rightarrow> Some (omap_update (fst p) (\<lambda>ls. unwrap_or [] ls @ [vs]) unions))"

fun add_unions :: "column_predicate list \<Rightarrow> (string, array list) omap \<Rightarrow> (string, array list) omap option" where
  "add_unions [] unions = Some unions"
| "add_unions (p # ps) unions =
     (case add_union p unions of None \<Rightarrow> None | Some u \<Rightarrow> add_unions ps u)"

text \<open>\<open>cat\<close> is Arrow's \<open>concat\<close> of arrays.\<close>

definition listed_union :: "(array list \<Rightarrow> array option) \<Rightarrow> row_predicate list \<Rightarrow> row_predicate option" where
  "listed_union cat items =
     (case those (map (choose_lists (demand_of items)) items) of
        None \<Rightarrow> None
      | Some chosen \<Rightarrow>
          (case add_unions (concat chosen) [] of
             None \<Rightarrow> None
           | Some unions \<Rightarrow>
               (case those (map (\<lambda>(k, lists). map_option (\<lambda>vs. [(k, PInList vs)]) (cat lists)) unions) of
                  None \<Rightarrow> None
                | Some groups \<Rightarrow>
                    Some (case groups of
                        [g] \<Rightarrow> row_predicate_new g
                      | _ \<Rightarrow> with_alternatives [] groups))))"


section \<open>What a row predicate asks of a row\<close>

definition all_admit :: "externals \<Rightarrow> (string \<Rightarrow> cell option) \<Rightarrow> column_predicate list \<Rightarrow> bool" where
  "all_admit X row ps =
     list_all (\<lambda>(k, p). case row k of None \<Rightarrow> True | Some c \<Rightarrow> admits X p c) ps"

definition row_admits :: "externals \<Rightarrow> row_predicate \<Rightarrow> (string \<Rightarrow> cell option) \<Rightarrow> bool" where
  "row_admits X r row =
     (all_admit X row (rp_columns r) \<and>
      (rp_alternatives r = [] \<or> list_ex (all_admit X row) (rp_alternatives r)))"

definition batch_row :: "batch \<Rightarrow> nat \<Rightarrow> string \<Rightarrow> cell option" where
  "batch_row b i k = map_option (\<lambda>a. cell_at a i) (column_by_name b k)"

definition batch_ok :: "batch \<Rightarrow> bool" where
  "batch_ok b = list_all (\<lambda>(k, a). wf_array a \<and> len a = b_num_rows b) (b_columns b)"

definition row_predicate_ok :: "row_predicate \<Rightarrow> bool" where
  "row_predicate_ok r = list_all (\<lambda>(k, p). predicate_ok p) (column_predicates r)"


section \<open>Facts\<close>

lemma batch_column: "batch_ok b \<Longrightarrow> column_by_name b k = Some a \<Longrightarrow> wf_array a \<and> len a = b_num_rows b"
  by (auto simp: batch_ok_def column_by_name_def list_all_iff dest!: map_of_SomeD)

lemma evaluate_all_fold:
  assumes K: "kernels_ok K" and b: "batch_ok b"
    and "try_fold (\<lambda>(k, p) acc. case column_by_name b k of
           None \<Rightarrow> Inr acc
         | Some a \<Rightarrow> and_then (evaluate X K p a) (\<lambda>m. Inr (and_next K acc m))) ps acc = Inr acc'"
    and "and_state acc (b_num_rows b) R"
    and "list_all (\<lambda>(k, p). predicate_ok p) ps"
  shows "and_state acc' (b_num_rows b) (\<lambda>i. R i \<and> all_admit X (batch_row b i) ps)"
  using assms(3-)
proof (induction ps arbitrary: acc R)
  case Nil
  then show ?case by (simp add: all_admit_def)
next
  case (Cons e ps)
  obtain k p where e: "e = (k, p)" by (cases e)
  show ?case
  proof (cases "column_by_name b k")
    case None
    with Cons e have "and_state acc' (b_num_rows b) (\<lambda>i. R i \<and> all_admit X (batch_row b i) ps)" by simp
    with None e show ?thesis by (simp add: all_admit_def batch_row_def)
  next
    case (Some a)
    with Cons.prems(1) e obtain m where m: "evaluate X K p a = Inr m"
      and rest: "try_fold (\<lambda>(k, p) acc. case column_by_name b k of
           None \<Rightarrow> Inr acc
         | Some a \<Rightarrow> and_then (evaluate X K p a) (\<lambda>m. Inr (and_next K acc m))) ps (and_next K acc m) = Inr acc'"
      by (auto simp: and_then_Inr_iff)
    note a = batch_column [OF b Some]
    have p: "predicate_ok p" using Cons.prems(3) e by simp
    have "computes (evaluate X K p) (admits X p) a"
      using evaluate_computes [OF K _ p] a by blast
    from computes_keeps [OF this m] a have "keeps_rows m (b_num_rows b) (\<lambda>i. admits X p (cell_at a i))" by simp
    from Cons.IH [OF rest and_next_state [OF K Cons.prems(2) this]] Cons.prems(3) e
    have "and_state acc' (b_num_rows b) (\<lambda>i. (R i \<and> admits X p (cell_at a i)) \<and> all_admit X (batch_row b i) ps)"
      by simp
    with Some e show ?thesis by (simp add: all_admit_def batch_row_def conj_assoc)
  qed
qed

lemma evaluate_all_keeps:
  assumes "kernels_ok K" "batch_ok b" "evaluate_all X K ps b = Inr m"
    "list_all (\<lambda>(k, p). predicate_ok p) ps"
  shows "keeps_rows m (b_num_rows b) (\<lambda>i. all_admit X (batch_row b i) ps)"
proof -
  from assms(3) obtain acc where f: "try_fold (\<lambda>(k, p) acc. case column_by_name b k of
           None \<Rightarrow> Inr acc
         | Some a \<Rightarrow> and_then (evaluate X K p a) (\<lambda>m. Inr (and_next K acc m))) ps None = Inr acc"
    and m: "m = unwrap_or (all_mask (b_num_rows b) True) acc"
    by (auto simp: evaluate_all_def and_then_Inr_iff)
  have "and_state acc (b_num_rows b) (\<lambda>i. True \<and> all_admit X (batch_row b i) ps)"
    by (rule evaluate_all_fold [OF assms(1,2) f _ assms(4)]) (simp add: and_state_def)
  from and_state_keeps [OF this] m show ?thesis by simp
qed

lemma row_predicate_ok_groups:
  "row_predicate_ok r \<Longrightarrow> list_all (\<lambda>(k, p). predicate_ok p) (rp_columns r) \<and>
     (\<forall>g \<in> set (rp_alternatives r). list_all (\<lambda>(k, p). predicate_ok p) g)"
  by (auto simp: row_predicate_ok_def column_predicates_def list_all_iff)

lemma or_next_fold_Some:
  "xs \<noteq> [] \<Longrightarrow> try_fold (\<lambda>x any. and_then (g x) (\<lambda>m. Inr (or_next K any m))) xs any = Inr any' \<Longrightarrow> any' \<noteq> None"
proof (induction xs arbitrary: any)
  case Nil
  then show ?case by simp
next
  case (Cons x xs)
  then show ?case by (cases "xs = []") (auto simp: and_then_Inr_iff or_next_def)
qed

lemma row_evaluate_keeps:
  assumes K: "kernels_ok K" and b: "batch_ok b" and r: "row_predicate_ok r" and e: "row_evaluate X K r b = Inr m"
  shows "keeps_rows m (b_num_rows b) (\<lambda>i. row_admits X r (batch_row b i))"
proof -
  note ok = row_predicate_ok_groups [OF r]
  from e obtain m0 where m0: "evaluate_all X K (rp_columns r) b = Inr m0"
    by (auto simp: row_evaluate_def and_then_Inr_iff)
  note k0 = evaluate_all_keeps [OF K b m0 conjunct1 [OF ok]]
  show ?thesis
  proof (cases "rp_alternatives r = []")
    case True
    with e m0 k0 show ?thesis by (simp add: row_evaluate_def row_admits_def)
  next
    case False
    with e m0 obtain any where f: "try_fold (\<lambda>g any. and_then (evaluate_all X K g b) (\<lambda>m. Inr (or_next K any m)))
        (rp_alternatives r) None = Inr any" and m: "m = k_and K m0 (the any)"
      by (auto simp: row_evaluate_def and_then_Inr_iff)
    have "or_state any (b_num_rows b)
        (\<lambda>i. False \<or> (\<exists>g \<in> set (rp_alternatives r). all_admit X (batch_row b i) g))"
    proof (rule or_fold [OF K f])
      show "or_state None (b_num_rows b) (\<lambda>i. False)" by (simp add: or_state_def)
      show "keeps_rows m' (b_num_rows b) (\<lambda>i. all_admit X (batch_row b i) g)"
        if "g \<in> set (rp_alternatives r)" "evaluate_all X K g b = Inr m'" for g m'
        using evaluate_all_keeps [OF K b that(2)] ok that(1) by blast
    qed
    moreover obtain a where "any = Some a" using or_next_fold_Some [OF False f] by blast
    ultimately have "keeps_rows (the any) (b_num_rows b)
        (\<lambda>i. \<exists>g \<in> set (rp_alternatives r). all_admit X (batch_row b i) g)"
      by (simp add: or_state_def keeps_rows_def)
    from keeps_rows_and [OF K k0 this] m False show ?thesis
      by (simp add: row_admits_def list_ex_iff)
  qed
qed


lemma or_row_predicates_keeps:
  assumes K: "kernels_ok K" and b: "batch_ok b" and ps: "list_all row_predicate_ok ps"
    and m: "or_row_predicates X K ps b = Inr m"
  shows "keeps_rows m (b_num_rows b) (\<lambda>i. list_ex (\<lambda>r. row_admits X r (batch_row b i)) ps)"
proof -
  from m obtain any where f: "try_fold (\<lambda>p any. and_then (row_evaluate X K p b) (\<lambda>m. Inr (or_next K any m)))
      ps None = Inr any" and m: "m = unwrap_or (all_mask (b_num_rows b) False) any"
    by (auto simp: or_row_predicates_def and_then_Inr_iff)
  have "or_state any (b_num_rows b) (\<lambda>i. False \<or> (\<exists>r \<in> set ps. row_admits X r (batch_row b i)))"
  proof (rule or_fold [OF K f])
    show "or_state None (b_num_rows b) (\<lambda>i. False)" by (simp add: or_state_def)
    show "keeps_rows m' (b_num_rows b) (\<lambda>i. row_admits X r (batch_row b i))"
      if "r \<in> set ps" "row_evaluate X K r b = Inr m'" for r m'
      using row_evaluate_keeps [OF K b _ that(2)] ps that(1) by (simp add: list_all_iff)
  qed
  from or_state_keeps [OF this] m show ?thesis by (simp add: list_ex_iff)
qed

text \<open>Statistics of a row group bound a row: each column they speak of holds a cell they cover.\<close>

definition stats_cover :: "column_stats \<Rightarrow> (string \<Rightarrow> cell option) \<Rightarrow> bool" where
  "stats_cover stats row \<longleftrightarrow> (\<forall>k s. stats k = Some s \<longrightarrow> (\<exists>c. row k = Some c \<and> covers s c))"

lemma any_can_skip_sound:
  assumes "any_can_skip ps stats" "stats_cover stats row" "list_all (\<lambda>(k, p). predicate_ok p) ps"
  shows "\<not> all_admit X row ps"
proof -
  let ?row = "\<lambda>k. unwrap_or CNull (row k)"
  let ?ps = "filter (\<lambda>(k, p). row k \<noteq> None) ps"
  have "list_ex (\<lambda>(k, p). case stats k of None \<Rightarrow> False | Some s \<Rightarrow> can_skip p s) ?ps"
    using assms(1,2)
    by (force simp: any_can_skip_def list_ex_iff stats_cover_def split: option.splits)
  moreover have "covers s (?row k)" if k: "stats k = Some s" for k s
  proof -
    from assms(2) k obtain c where "row k = Some c" "covers s c" unfolding stats_cover_def by blast
    then show ?thesis by (simp add: unwrap_or_def)
  qed
  ultimately have "\<not> list_all (\<lambda>(k, p). admits X p (?row k)) ?ps"
    using assms(3) by (intro scan.skip_conjunction) (auto simp: list_all_iff)
  then show ?thesis
    by (force simp: all_admit_def list_all_iff unwrap_or_def split: option.splits)
qed

lemma can_skip_row_group_sound:
  assumes "can_skip_row_group r stats" "stats_cover stats row" "row_predicate_ok r"
  shows "\<not> row_admits X r row"
  using assms any_can_skip_sound row_predicate_ok_groups [OF assms(3)]
  by (auto simp: can_skip_row_group_def Let_def row_admits_def list_ex_iff list_all_iff)

definition holds_at :: "externals \<Rightarrow> (string \<Rightarrow> cell option) \<Rightarrow> column_predicate \<Rightarrow> bool" where
  "holds_at X row e = (case e of (k, p) \<Rightarrow> case row k of None \<Rightarrow> True | Some c \<Rightarrow> admits X p c)"

lemma all_admit_holds: "all_admit X row ps \<longleftrightarrow> list_all (holds_at X row) ps"
  by (simp add: all_admit_def holds_at_def [abs_def])

lemma unproven_admits:
  assumes "\<forall>e \<in> set ps. proven e \<longrightarrow> holds_at X row e"
  shows "all_admit X row (filter (\<lambda>p. \<not> proven p) ps) \<longleftrightarrow> all_admit X row ps"
  using assms by (auto simp: all_admit_holds list_all_iff)

lemma without_proven_admits:
  assumes "without_proven proven r = Some r'"
    and "\<forall>e \<in> set (column_predicates r). proven e \<longrightarrow> holds_at X row e"
  shows "row_admits X r' row \<longleftrightarrow> row_admits X r row"
proof -
  let ?un = "filter (\<lambda>p. \<not> proven p)"
  have cols: "all_admit X row (?un (rp_columns r)) \<longleftrightarrow> all_admit X row (rp_columns r)"
    using assms(2) by (intro unproven_admits) (simp add: column_predicates_def)
  have alt: "all_admit X row (?un g) \<longleftrightarrow> all_admit X row g" if "g \<in> set (rp_alternatives r)" for g
    using assms(2) that by (intro unproven_admits) (auto simp: column_predicates_def)
  have r': "r' = with_alternatives (?un (rp_columns r))
      (if [] \<in> set (map ?un (rp_alternatives r)) then [] else map ?un (rp_alternatives r))"
    using assms(1) by (simp add: without_proven_def Let_def split: if_splits)
  show ?thesis
  proof (cases "[] \<in> set (map ?un (rp_alternatives r))")
    case True
    then obtain g where g: "g \<in> set (rp_alternatives r)" "?un g = []" by auto
    with alt [OF g(1)] have "all_admit X row g" by (simp add: all_admit_def)
    with g(1) have "list_ex (all_admit X row) (rp_alternatives r)" by (auto simp: list_ex_iff)
    with True r' cols show ?thesis by (simp add: row_admits_def with_alternatives_def)
  next
    case False
    with r' cols alt show ?thesis
      by (auto simp: row_admits_def with_alternatives_def list_ex_iff)
  qed
qed

text \<open>What the scan proves from statistics, for a row whose columns hold values.\<close>

definition proven_by :: "column_stats \<Rightarrow> column_predicate \<Rightarrow> bool" where
  "proven_by stats e = (case stats (fst e) of None \<Rightarrow> False | Some s \<Rightarrow> matches_every_value (snd e) s)"

lemma proven_by_holds:
  assumes "row_predicate_ok r" "stats_cover stats row"
    and "\<And>k s. stats k = Some s \<Longrightarrow> row k \<noteq> Some CNull"
    and "e \<in> set (column_predicates r)" "proven_by stats e"
  shows "holds_at X row e"
proof -
  from assms(5) obtain s where s: "stats (fst e) = Some s" "matches_every_value (snd e) s"
    by (auto simp: proven_by_def split: option.splits)
  with assms(2) obtain c where c: "row (fst e) = Some c" "covers s c" by (auto simp: stats_cover_def)
  with assms(3) [OF s(1)] have "c \<noteq> CNull" by auto
  moreover have "predicate_ok (snd e)"
    using assms(1,4) by (auto simp: row_predicate_ok_def list_all_iff case_prod_beta')
  ultimately show ?thesis
    using scan.prove_sound s c by (cases e) (simp add: holds_at_def)
qed


section \<open>Facts: the union of the listed values\<close>

lemma those_Some: "those xs = Some ys \<longleftrightarrow> xs = map Some ys"
proof (induction xs arbitrary: ys)
  case Nil
  then show ?case by auto
next
  case (Cons x xs)
  then show ?case by (cases x; cases ys) (auto split: option.splits)
qed

fun int_slots :: "array \<Rightarrow> int list" where
  "int_slots (AInt t vs n) = vs"
| "int_slots _ = []"

fun text_slots :: "array \<Rightarrow> string list" where
  "text_slots (AText t vs n) = vs"
| "text_slots _ = []"

fun bytes_slots :: "array \<Rightarrow> u8 list list" where
  "bytes_slots (ABytes t vs n) = vs"
| "bytes_slots _ = []"

text \<open>What Arrow documents of \<open>concat\<close>: one array of the parts' type, holding their slots in order.\<close>

definition concat_ok :: "(array list \<Rightarrow> array option) \<Rightarrow> bool" where
  "concat_ok cat \<longleftrightarrow> (\<forall>ls a. cat ls = Some a \<longrightarrow>
     (\<forall>l \<in> set ls. data_type_of l = data_type_of a) \<and>
     int_slots a = concat (map int_slots ls) \<and>
     text_slots a = concat (map text_slots ls) \<and>
     bytes_slots a = concat (map bytes_slots ls))"

lemma concat_admits:
  assumes "concat_ok cat" "cat ls = Some a" "l \<in> set ls" "in_list_admits l c"
  shows "in_list_admits a c"
proof -
  from assms(1-3) have t: "data_type_of l = data_type_of a"
    and s: "set (int_slots l) \<subseteq> set (int_slots a)" "set (text_slots l) \<subseteq> set (text_slots a)"
      "set (bytes_slots l) \<subseteq> set (bytes_slots a)"
    by (auto simp: concat_ok_def)
  show ?thesis
  proof (cases l)
    case (AInt t vs n)
    with t obtain us m where a: "a = AInt t us m" by (cases a) auto
    from assms(4) AInt obtain t' x where c: "c = CInt t' x"
      by (cases c) (auto simp: in_list_admits_def)
    from s(1) AInt a have sub: "set vs \<subseteq> set us" by simp
    show ?thesis
    proof (cases "signed_of t")
      case True
      with sub assms(4) AInt a c show ?thesis by (auto simp: in_list_admits_def listed_hold_def)
    next
      case False
      have "uint ` set (map word_of_int vs :: u64 list) \<subseteq> uint ` set (map word_of_int us :: u64 list)"
        unfolding set_map by (rule image_mono [OF image_mono [OF sub]])
      with False assms(4) AInt a c show ?thesis
        by (simp add: in_list_admits_def listed_hold_def) blast
    qed
  next
    case (AText t vs n)
    with t obtain us m where a: "a = AText t us m" by (cases a) auto
    from s(2) AText a have "set vs \<subseteq> set us" by simp
    with assms(4) AText a show ?thesis
      by (cases c; cases t) (auto simp: in_list_admits_def)
  next
    case (ABytes t vs n)
    with t obtain us m where a: "a = ABytes t us m" by (cases a) auto
    from s(3) ABytes a have "set vs \<subseteq> set us" by simp
    with assms(4) ABytes a show ?thesis
      by (cases c; cases t) (auto simp: in_list_admits_def)
  qed (use assms(4) in \<open>auto simp: in_list_admits_def split: cell.splits\<close>)
qed

lemma max_by_key_in: "max_by_key f xs = Some x \<Longrightarrow> x \<in> set xs"
  by (induction xs arbitrary: x) (auto split: option.splits if_splits)

lemma most_demanded_in: "most_demanded ps demand = Some p \<Longrightarrow> p \<in> set ps \<and> is_listed p"
  using max_by_key_in by (fastforce simp: most_demanded_def)

text \<open>Every list chosen ends up in the union of its column.\<close>

definition union_has :: "(string, array list) omap \<Rightarrow> string \<Rightarrow> array \<Rightarrow> bool" where
  "union_has unions k vs = (\<exists>ls. map_of unions k = Some ls \<and> vs \<in> set ls)"

lemma add_union_has:
  "add_union p unions = Some u \<Longrightarrow>
     (\<forall>k vs. union_has unions k vs \<longrightarrow> union_has u k vs) \<and>
     (\<forall>vs. listed_values (snd p) = Some vs \<longrightarrow> union_has u (fst p) vs)"
  by (auto simp: add_union_def union_has_def map_of_omap_update unwrap_or_def split: option.splits)

lemma add_unions_has:
  "add_unions ps unions = Some u \<Longrightarrow>
     (\<forall>k vs. union_has unions k vs \<longrightarrow> union_has u k vs) \<and>
     (\<forall>p \<in> set ps. \<forall>vs. listed_values (snd p) = Some vs \<longrightarrow> union_has u (fst p) vs)"
proof (induction ps arbitrary: unions)
  case Nil
  then show ?case by simp
next
  case (Cons p ps)
  then obtain u' where u': "add_union p unions = Some u'" "add_unions ps u' = Some u"
    by (auto split: option.splits)
  from add_union_has [OF u'(1)] Cons.IH [OF u'(2)] show ?case by auto
qed

lemma listed_union_admits:
  assumes cat: "concat_ok cat" and u: "listed_union cat items = Some u" and r: "r \<in> set items"
    and row: "row_admits X r row"
  shows "row_admits X u row"
proof -
  let ?d = "demand_of items"
  from u obtain chosen unions groups where c: "map (choose_lists ?d) items = map Some chosen"
    and un: "add_unions (concat chosen) [] = Some unions"
    and g: "map (\<lambda>(k, lists). map_option (\<lambda>vs. [(k, PInList vs)]) (cat lists)) unions = map Some groups"
    and u: "u = (case groups of [g] \<Rightarrow> row_predicate_new g | _ \<Rightarrow> with_alternatives [] groups)"
    by (auto simp: listed_union_def those_Some split: option.splits)
  from c r have "choose_lists ?d r \<in> Some ` set chosen"
    by (metis image_eqI image_set)
  then obtain ps where ps: "ps \<in> set chosen" "choose_lists ?d r = Some ps" by auto
  have "\<exists>p \<in> set ps. is_listed p \<and> holds_at X row p"
  proof (cases "most_demanded (rp_columns r) ?d")
    case (Some p)
    with ps row most_demanded_in [OF Some] show ?thesis
      by (auto simp: choose_lists_def row_admits_def all_admit_holds list_all_iff)
  next
    case None
    with ps(2) have ne: "rp_alternatives r \<noteq> []"
      and m: "map (\<lambda>g. most_demanded g ?d) (rp_alternatives r) = map Some ps"
      by (auto simp: choose_lists_def those_Some split: if_splits)
    from row ne obtain g where g: "g \<in> set (rp_alternatives r)" "all_admit X row g"
      by (auto simp: row_admits_def list_ex_iff)
    with m have "most_demanded g ?d \<in> Some ` set ps" by (metis image_eqI image_set)
    then obtain p where p: "p \<in> set ps" "most_demanded g ?d = Some p" by auto
    from g(2) have "\<forall>e \<in> set g. holds_at X row e" by (simp add: all_admit_holds list_all_iff)
    with most_demanded_in [OF p(2)] p(1) show ?thesis by blast
  qed
  then obtain p where p0: "p \<in> set ps" "is_listed p" "holds_at X row p" by blast
  from p0(2) obtain vs where p: "snd p = PInList vs" by (cases "snd p") (simp_all add: is_listed_def)
  from p0(1) ps(1) have in_chosen: "p \<in> set (concat chosen)" by auto
  from p have "listed_values (snd p) = Some vs" by simp
  with conjunct2 [OF add_unions_has [OF un]] in_chosen have "union_has unions (fst p) vs" by blast
  then obtain ls where ls: "(fst p, ls) \<in> set unions" "vs \<in> set ls"
    by (auto simp: union_has_def dest: map_of_SomeD)
  then have "map_option (\<lambda>vs. [(fst p, PInList vs)]) (cat ls) \<in> set (map Some groups)"
    unfolding g [symmetric] by force
  then obtain a where a: "cat ls = Some a" "[(fst p, PInList a)] \<in> set groups" by auto
  have "all_admit X row [(fst p, PInList a)]"
    using p p0(3) concat_admits [OF cat a(1) ls(2)]
    by (cases p) (auto simp: all_admit_def holds_at_def split: option.splits)
  with a(2) show ?thesis
    by (cases groups rule: remdups_adj.cases)
      (auto simp: u row_admits_def row_predicate_new_def with_alternatives_def list_ex_iff all_admit_def [of _ _ "[]"])
qed


section \<open>Properties\<close>

text \<open>
  C5: The mask of an item request's filters keeps exactly the rows of the batch that pass every column
  filter and, where a discriminator gives alternatives, at least one of them in full; the mask of
  several items keeps exactly the rows that pass one of them.
\<close>

theorem or_row_predicates_admits:
  assumes "kernels_ok K" and "batch_ok b" and "list_all row_predicate_ok ps"
    and "or_row_predicates X K ps b = Inr m"
  shows "length m = b_num_rows b \<and>
    (\<forall>i < b_num_rows b. m ! i = Some True \<longleftrightarrow> list_ex (\<lambda>r. row_admits X r (batch_row b i)) ps)"
  using or_row_predicates_keeps [OF assms] by (simp add: keeps_rows_def)

definition sample_batch :: batch where
  "sample_batch = \<lparr>b_columns = [(''kind'', AText LargeUtf8 [''a'', ''b'', ''c''] None),
     (''n'', AInt UInt16 [1, 2, 3] None)], b_num_rows = 3\<rparr>"

definition sample_row_predicate :: row_predicate where
  "sample_row_predicate = with_alternatives [(''kind'', PInList (AText Utf8 [''b'', ''c''] None))]
     [[(''n'', PInList (AInt UInt8 [2] None))], [(''n'', PInList (AInt UInt16 [700] None))]]"

lemma sample_row_predicate_ok: "row_predicate_ok sample_row_predicate"
  by (simp add: row_predicate_ok_def sample_row_predicate_def with_alternatives_def column_predicates_def
      in_range_def nulls_fit_def)

theorem or_row_predicates_admits_witness:
  "\<exists>m. or_row_predicates plain_externals plain_kernels [sample_row_predicate] sample_batch = Inr m \<and>
     length m = 3 \<and> (\<forall>i < 3. m ! i = Some True \<longleftrightarrow>
       list_ex (\<lambda>r. row_admits plain_externals r (batch_row sample_batch i)) [sample_row_predicate])"
proof -
  have b: "batch_ok sample_batch"
    by (simp add: batch_ok_def sample_batch_def in_range_def nulls_fit_def)
  obtain m where m: "or_row_predicates plain_externals plain_kernels [sample_row_predicate] sample_batch = Inr m"
    by (simp add: or_row_predicates_def row_evaluate_def evaluate_all_def sample_row_predicate_def
        with_alternatives_def sample_batch_def column_by_name_def eval_in_list_def or_unsupported_def)
  from or_row_predicates_admits [OF kernels_ok_plain b _ m] m sample_row_predicate_ok show ?thesis
    by (simp add: sample_batch_def)
qed

text \<open>
  C6: Reading a row group through its statistics gives the same rows as reading it in full: a group that
  is skipped holds no matching row, and where no column is null the filters left after those its
  statistics prove are dropped
  match the same rows of the group.
\<close>

theorem row_group_statistics:
  assumes "row_predicate_ok r" and "stats_cover stats row"
  shows "(can_skip_row_group r stats \<longrightarrow> \<not> row_admits X r row) \<and>
    ((\<forall>k. stats k \<noteq> None \<longrightarrow> row k \<noteq> Some CNull) \<longrightarrow>
     (\<forall>r'. without_proven (proven_by stats) r = Some r' \<longrightarrow> row_admits X r' row = row_admits X r row))"
proof -
  have "\<forall>e \<in> set (column_predicates r). proven_by stats e \<longrightarrow> holds_at X row e"
    if "\<forall>k. stats k \<noteq> None \<longrightarrow> row k \<noteq> Some CNull"
    using proven_by_holds [OF assms(1,2)] that by blast
  then show ?thesis
    using can_skip_row_group_sound [OF _ assms(2,1)] without_proven_admits by blast
qed

theorem row_group_statistics_witness:
  "\<not> row_admits plain_externals sample_row_predicate (\<lambda>k. if k = ''kind'' then Some (CText ''x'') else None)"
proof -
  let ?stats = "\<lambda>k. if k = ''kind'' then Some (SText ''d'' ''z'') else None"
  let ?row = "\<lambda>k. if k = ''kind'' then Some (CText ''x'') else None"
  have "stats_cover ?stats ?row"
    by (auto simp: stats_cover_def)
  moreover have "can_skip_row_group sample_row_predicate ?stats"
    by (simp add: can_skip_row_group_def any_can_skip_def sample_row_predicate_def with_alternatives_def
        in_list_can_skip_def none_within_def partition_point_def get_def)
  ultimately show ?thesis
    using row_group_statistics [OF sample_row_predicate_ok, of ?stats ?row plain_externals] by blast
qed

text \<open>
  The cheap filter built from the lists of several items never drops a row that one of them
  matches, whatever lists were chosen and however the columns repeat.
\<close>

theorem listed_union_sound:
  assumes "concat_ok cat" and "listed_union cat items = Some u" and "r \<in> set items" and "row_admits X r row"
  shows "row_admits X u row"
  using assms by (rule listed_union_admits)

definition sample_concat :: "array list \<Rightarrow> array option" where
  "sample_concat ls = (case ls of [l] \<Rightarrow> Some l | _ \<Rightarrow> None)"

theorem listed_union_sound_witness:
  "row_admits plain_externals (row_predicate_new [(''kind'', PInList (AText Utf8 [''b'', ''c''] None))])
     (\<lambda>k. if k = ''kind'' then Some (CText ''b'') else Some (CInt UInt8 2))"
proof (rule listed_union_sound [where cat = sample_concat and items = "[sample_row_predicate]"
      and r = sample_row_predicate])
  show "concat_ok sample_concat"
    by (auto simp: concat_ok_def sample_concat_def split: list.splits)
  show "listed_union sample_concat [sample_row_predicate] =
      Some (row_predicate_new [(''kind'', PInList (AText Utf8 [''b'', ''c''] None))])"
    by (simp add: listed_union_def sample_row_predicate_def with_alternatives_def choose_lists_def
        most_demanded_def is_listed_def add_union_def sample_concat_def unwrap_or_def)
  show "row_admits plain_externals sample_row_predicate (\<lambda>k. if k = ''kind'' then Some (CText ''b'') else Some (CInt UInt8 2))"
    by (simp add: row_admits_def sample_row_predicate_def with_alternatives_def all_admit_def
        in_list_admits_def listed_hold_def declared_unsigned)
qed simp

end
