(* ===== verification/Query_Parse.thy ===== *)
theory Query_Parse
  imports Loader Predicates Sample
begin

text \<open>
  Reading a request, \<^verbatim>\<open>src/query/parse.rs\<close>: camel case to snake case, hexadecimal literals, block
  bounds, the fields selected of each table and the item requests, each against the surface the catalog
  declares. The lemmas show that what is accepted lies within the limits and within the declared
  surface, and that a refusal is always the client's error.
\<close>

record query_item =
  i_filters :: "(string \<times> json) list"
  i_relations :: "string list"
  i_alias :: "string option"

record query =
  u_from_block :: nat
  u_to_block :: "nat option"
  u_include_all_blocks :: bool
  u_parent_block_hash :: "string option"
  u_fields :: "(string, string list) omap"
  u_items :: "(string, query_item list) omap"
  u_sets :: sets


section \<open>Names and literals\<close>

definition camel_to_snake :: "string \<Rightarrow> string" where
  "camel_to_snake s =
     concat (map (\<lambda>(i, c). (if is_ascii_uppercase c \<and> 0 < i then ''_'' else []) @ [to_ascii_lowercase c])
       (enumerate 0 s))"

definition strip_prefix :: "string \<Rightarrow> string \<Rightarrow> string option" where
  "strip_prefix pre s = (if starts_with s pre then Some (drop (length pre) s) else None)"

definition is_hex_literal :: "string \<Rightarrow> bool" where
  "is_hex_literal s =
     (case (case strip_prefix ''0x'' s of Some ds \<Rightarrow> Some ds | None \<Rightarrow> strip_prefix ''0X'' s) of
        None \<Rightarrow> False
      | Some digits \<Rightarrow> even (length digits) \<and> list_all is_ascii_hexdigit digits)"

definition parse_hex :: "externals \<Rightarrow> string \<Rightarrow> u8 list option" where
  "parse_hex X s = (if \<not> is_hex_literal s then None else x_hex_decode X (drop 2 (as_bytes s)))"

definition max_item_requests :: nat where
  "max_item_requests = 100"

definition max_request_bytes :: nat where
  "max_request_bytes = 16 * 1024 * 1024"

definition max_in_list :: nat where
  "max_in_list = 100000"

definition parse_block_bound :: "json option \<Rightarrow> engine_error + nat option" where
  "parse_block_bound v =
     (case v of
        None \<Rightarrow> Inr None
      | Some w \<Rightarrow>
          if is_json_null w then Inr None
          else ok_or (EngineError InvalidBlockNumber) (map_option Some (as_u64 w)))"


section \<open>The selected fields\<close>

definition parse_field ::
    "table_description \<Rightarrow> string \<times> json \<Rightarrow> string list \<Rightarrow> engine_error + string list" where
  "parse_field t = (\<lambda>(field_key, selected) columns.
     let c = camel_to_snake field_key in
     and_then (ensure (is_selectable_field t c) (EngineError UnknownField)) (\<lambda>_.
     and_then (ok_or (EngineError MalformedRequest) (as_bool selected)) (\<lambda>on.
     Inr (if on then columns @ [c] else columns))))"

definition parse_field_group ::
    "dataset_description \<Rightarrow> (string, string) omap \<Rightarrow> string \<times> json \<Rightarrow> (string, string list) omap
     \<Rightarrow> engine_error + (string, string list) omap" where
  "parse_field_group d output_name_to_table = (\<lambda>(key, v) result.
     and_then (ok_or (EngineError UnknownFieldGroup) (map_of output_name_to_table key)) (\<lambda>table_name.
     and_then (ok_or (EngineError MalformedRequest) (as_object v)) (\<lambda>field_obj.
     and_then (ok_or (EngineError UnknownFieldGroup) (table d table_name)) (\<lambda>t.
     and_then (try_fold (parse_field t) field_obj []) (\<lambda>columns.
     Inr (omap_insert table_name columns result))))))"

definition parse_fields ::
    "json option \<Rightarrow> dataset_description \<Rightarrow> (string, string) omap
     \<Rightarrow> engine_error + (string, string list) omap" where
  "parse_fields fields_value d output_name_to_table =
     and_then (case fields_value of
         None \<Rightarrow> Inr ()
       | Some v \<Rightarrow> ensure (is_json_null v \<or> as_object v \<noteq> None) (EngineError MalformedRequest)) (\<lambda>_.
     case Option.bind fields_value as_object of
       None \<Rightarrow> Inr []
     | Some fields_obj \<Rightarrow> try_fold (parse_field_group d output_name_to_table) fields_obj [])"


section \<open>Item requests\<close>

definition declared_relations :: "table_description \<Rightarrow> alias_description option \<Rightarrow> (string, relation_def) omap" where
  "declared_relations t al = (case al of Some a \<Rightarrow> a_relations a | None \<Rightarrow> q_relations (request t))"

definition declared_filters :: "table_description \<Rightarrow> alias_description option \<Rightarrow> string list" where
  "declared_filters t al = (case al of Some a \<Rightarrow> a_filters a | None \<Rightarrow> q_filters (request t))"

text \<open>The column an alias renames a filter to.\<close>

definition alias_column :: "alias_description option \<Rightarrow> string \<Rightarrow> string option" where
  "alias_column al k =
     (case al of
        None \<Rightarrow> None
      | Some a \<Rightarrow>
          (case map_of (a_special_filters a) k of Some (SColumnAlias c) \<Rightarrow> Some c | _ \<Rightarrow> None))"

definition parse_item_entry ::
    "table_description \<Rightarrow> alias_description option \<Rightarrow> string \<times> json \<Rightarrow> (string \<times> json) list \<times> string list
     \<Rightarrow> engine_error + (string \<times> json) list \<times> string list" where
  "parse_item_entry t al = (\<lambda>(key, val) (filters, relations).
     let snake_key = camel_to_snake key in
     and_then (case as_array val of
         None \<Rightarrow> Inr ()
       | Some vs \<Rightarrow> ensure (length vs \<le> max_in_list) (EngineError RequestTooLarge)) (\<lambda>_.
     if contains_key (declared_relations t al) snake_key then
       and_then (ok_or (EngineError InvalidFilterValue) (as_bool val)) (\<lambda>enabled.
       Inr (filters, if enabled then relations @ [snake_key] else relations))
     else
       and_then (ensure (snake_key \<in> set (declared_filters t al)) (EngineError UnknownFilter)) (\<lambda>_.
       case alias_column al snake_key of
         Some c \<Rightarrow> Inr (filters @ [(c, val)], relations)
       | None \<Rightarrow>
           if contains_key (q_special_filters (request t)) snake_key
           then Inr (filters @ [(snake_key, val)], relations)
           else and_then (ensure (contains_key (t_columns t) snake_key) (EngineError UnknownFilter)) (\<lambda>_.
             Inr (filters @ [(snake_key, val)], relations)))))"

definition implicit_entries :: "alias_description option \<Rightarrow> (string \<times> json) list" where
  "implicit_entries al =
     (case al of
        None \<Rightarrow> []
      | Some a \<Rightarrow> map (\<lambda>(col_name, vs). (col_name, JArray (map JString vs))) (a_implicit_filters a))"

definition parse_query_item ::
    "json \<Rightarrow> table_description \<Rightarrow> alias_description option \<Rightarrow> engine_error + query_item" where
  "parse_query_item v t al =
     and_then (ok_or (EngineError MalformedRequest) (as_object v)) (\<lambda>obj.
     and_then (try_fold (parse_item_entry t al) obj ([], [])) (\<lambda>(filters, relations).
     Inr \<lparr>i_filters = filters @ implicit_entries al, i_relations = relations, i_alias = None\<rparr>))"


section \<open>The request\<close>

definition collect_map :: "('k \<times> 'v) list \<Rightarrow> ('k, 'v) omap" where
  "collect_map es = fold (\<lambda>(k, v). omap_insert k v) es []"

definition request_name_to_table :: "dataset_description \<Rightarrow> (string, string) omap" where
  "request_name_to_table d =
     collect_map (map (\<lambda>(name, t). (request_name t name, name))
       (filter (\<lambda>(_, t). t_request_surface t \<noteq> None) (d_tables d)))"

definition output_name_to_table :: "dataset_description \<Rightarrow> (string, string) omap" where
  "output_name_to_table d =
     collect_map (List.map_filter (\<lambda>(name, t). map_option (\<lambda>on. (on, name)) (o_name (t_output t))) (d_tables d))"

text \<open>The table a key reads, with the alias it was reached through.\<close>

definition resolve_request_key ::
    "dataset_description \<Rightarrow> string \<Rightarrow> engine_error + string \<times> (string \<times> alias_description) option" where
  "resolve_request_key d key =
     (case map_of (request_name_to_table d) key of
        Some t \<Rightarrow> Inr (t, None)
      | None \<Rightarrow>
          (case map_of (d_aliases d) key of
             Some a \<Rightarrow> Inr (a_table a, Some (key, a))
           | None \<Rightarrow> Inl (EngineError UnknownTable)))"

definition parse_table_items ::
    "dataset_description \<Rightarrow> string \<times> json \<Rightarrow> (string, query_item list) omap
     \<Rightarrow> engine_error + (string, query_item list) omap" where
  "parse_table_items d = (\<lambda>(key, v) items.
     if key \<in> set reserved_request_keys then Inr items
     else
       and_then (resolve_request_key d key) (\<lambda>(table_name, alias_entry).
       and_then (ok_or Panic (table d table_name)) (\<lambda>t.
       and_then (ok_or (EngineError MalformedRequest) (as_array v)) (\<lambda>arr.
       and_then (try_collect (\<lambda>item_value.
           and_then (parse_query_item item_value t (map_option snd alias_entry)) (\<lambda>item.
           Inr (item\<lparr>i_alias := map_option fst alias_entry\<rparr>))) arr) (\<lambda>table_items.
       Inr (omap_update table_name (\<lambda>old. (case old of None \<Rightarrow> [] | Some xs \<Rightarrow> xs) @ table_items) items))))))"

definition total_items :: "(string, query_item list) omap \<Rightarrow> nat" where
  "total_items items = sum_list (map (\<lambda>(_, v). length v) items)"

definition optional :: "engine_error \<Rightarrow> (json \<Rightarrow> 'a option) \<Rightarrow> 'b \<Rightarrow> ('a \<Rightarrow> 'b) \<Rightarrow> json option \<Rightarrow> engine_error + 'b" where
  "optional e read absent present v =
     (case v of
        None \<Rightarrow> Inr absent
      | Some w \<Rightarrow> if is_json_null w then Inr absent else ok_or e (map_option present (read w)))"

definition parse_query :: "externals \<Rightarrow> u8 list \<Rightarrow> dataset_description \<Rightarrow> engine_error + query" where
  "parse_query X json_bytes d =
     and_then (ensure (length json_bytes \<le> max_request_bytes) (EngineError RequestTooLarge)) (\<lambda>_.
     and_then (ok_or (EngineError MalformedRequest) (x_from_slice X json_bytes)) (\<lambda>raw.
     and_then (ok_or (EngineError MalformedRequest) (as_object raw)) (\<lambda>obj.
     and_then (ok_or (EngineError UnknownDataset) (Option.bind (map_of obj ''type'') as_str)) (\<lambda>dataset_type.
     and_then (ensure (dataset_type = d_name d) (EngineError UnknownDataset)) (\<lambda>_.
     and_then (parse_block_bound (map_of obj ''fromBlock'')) (\<lambda>from_bound.
     let from_block = (case from_bound of None \<Rightarrow> 0 | Some n \<Rightarrow> n) in
     and_then (parse_block_bound (map_of obj ''toBlock'')) (\<lambda>to_block.
     and_then (case to_block of
         None \<Rightarrow> Inr ()
       | Some bound \<Rightarrow> ensure (from_block \<le> bound) (EngineError InvalidBlockRange)) (\<lambda>_.
     and_then (optional (EngineError MalformedRequest) as_bool False id
       (map_of obj ''includeAllBlocks'')) (\<lambda>include_all_blocks.
     and_then (optional (EngineError MalformedRequest) as_str None Some
       (map_of obj ''parentBlockHash'')) (\<lambda>parent_block_hash.
     and_then (parse_fields (map_of obj ''fields'') d (output_name_to_table d)) (\<lambda>fields.
     and_then (parse_sets X (map_of obj ''sets'')) (\<lambda>sets.
     and_then (try_fold (parse_table_items d) obj []) (\<lambda>items.
     and_then (ensure (total_items items \<le> max_item_requests) (EngineError TooManyItemRequests)) (\<lambda>_.
     Inr \<lparr>u_from_block = from_block, u_to_block = to_block, u_include_all_blocks = include_all_blocks,
       u_parent_block_hash = parent_block_hash, u_fields = fields, u_items = items, u_sets = sets\<rparr>))))))))))))))"


section \<open>What a request may say\<close>

text \<open>
  A snake name whose every underscore starts a word: the names of fields, filters and relations that
  survive being written in camel case.
\<close>

fun words_ok :: "string \<Rightarrow> bool" where
  "words_ok [] = True"
| "words_ok [c] = (c \<noteq> CHR ''_'' \<and> \<not> is_ascii_uppercase c)"
| "words_ok (c # d # cs) =
     (if c = CHR ''_'' then 97 \<le> code d \<and> code d \<le> 122 \<and> words_ok cs
      else \<not> is_ascii_uppercase c \<and> words_ok (d # cs))"

definition snake_name :: "string \<Rightarrow> bool" where
  "snake_name s = (words_ok s \<and> (case s of [] \<Rightarrow> True | c # cs \<Rightarrow> c \<noteq> CHR ''_''))"

text \<open>An item's filter: one the catalog's alias implies, or a declared one, renamed and of bounded length.\<close>

definition filter_declared ::
    "table_description \<Rightarrow> alias_description option \<Rightarrow> string \<times> json \<Rightarrow> bool" where
  "filter_declared t al e =
     (e \<in> set (implicit_entries al) \<or>
      (\<exists>key \<in> set (declared_filters t al).
         fst e = (case alias_column al key of Some c \<Rightarrow> c | None \<Rightarrow> key) \<and>
         (alias_column al key = None \<longrightarrow>
            contains_key (q_special_filters (request t)) key \<or> has_column t key) \<and>
         (case as_array (snd e) of None \<Rightarrow> True | Some vs \<Rightarrow> length vs \<le> max_in_list)))"

definition item_within :: "table_description \<Rightarrow> alias_description option \<Rightarrow> query_item \<Rightarrow> bool" where
  "item_within t al i =
     (list_all (filter_declared t al) (i_filters i) \<and>
      list_all (contains_key (declared_relations t al)) (i_relations i))"

definition item_declared :: "dataset_description \<Rightarrow> string \<Rightarrow> query_item \<Rightarrow> bool" where
  "item_declared d table_name i =
     (case table d table_name of
        None \<Rightarrow> False
      | Some t \<Rightarrow>
          (case i_alias i of
             None \<Rightarrow> t_request_surface t \<noteq> None \<and> item_within t None i
           | Some key \<Rightarrow>
               (case map_of (d_aliases d) key of
                  None \<Rightarrow> False
                | Some a \<Rightarrow> a_table a = table_name \<and> item_within t (Some a) i)))"

definition fields_selectable :: "dataset_description \<Rightarrow> string \<times> string list \<Rightarrow> bool" where
  "fields_selectable d = (\<lambda>(table_name, columns).
     case table d table_name of
       None \<Rightarrow> False
     | Some t \<Rightarrow> o_name (t_output t) \<noteq> None \<and> list_all (is_selectable_field t) columns)"


section \<open>Facts\<close>

text \<open>Camel case and back.\<close>

definition snake_tail :: "string \<Rightarrow> string" where
  "snake_tail cs =
     concat (map (\<lambda>c. (if is_ascii_uppercase c then ''_'' else []) @ [to_ascii_lowercase c]) cs)"

lemma snake_tail_simps [simp]:
  "snake_tail [] = []"
  "snake_tail (c # cs) =
     (if is_ascii_uppercase c then ''_'' else []) @ [to_ascii_lowercase c] @ snake_tail cs"
  by (simp_all add: snake_tail_def)

lemma snake_enumerate:
  "0 < n \<Longrightarrow> concat (map (\<lambda>(i, c). (if is_ascii_uppercase c \<and> 0 < i then ''_'' else [])
       @ [to_ascii_lowercase c]) (enumerate n cs)) = snake_tail cs"
  by (induction cs arbitrary: n) simp_all

lemma camel_to_snake_simps [simp]:
  "camel_to_snake [] = []"
  "camel_to_snake (c # cs) = to_ascii_lowercase c # snake_tail cs"
  by (simp_all add: camel_to_snake_def snake_enumerate)

lemma upper_lower:
  assumes "97 \<le> code d" and "code d \<le> 122"
  shows "is_ascii_uppercase (to_ascii_uppercase d) \<and> to_ascii_lowercase (to_ascii_uppercase d) = d \<and>
    d \<noteq> CHR ''_''"
proof -
  have "code (to_ascii_uppercase d) = code d - 32" using assms by (simp add: to_ascii_uppercase_def)
  with assms have u: "is_ascii_uppercase (to_ascii_uppercase d)"
    unfolding is_ascii_uppercase_def by arith
  then have "to_ascii_lowercase (to_ascii_uppercase d) = char_of (code d)"
    using assms \<open>code (to_ascii_uppercase d) = code d - 32\<close> by (simp add: to_ascii_lowercase_def)
  moreover have "d \<noteq> CHR ''_''" using assms by (auto simp: code_def)
  ultimately show ?thesis using u by simp
qed

lemma snake_tail_camel: "words_ok s \<Longrightarrow> snake_tail (camel_from False s) = s"
proof (induction s rule: words_ok.induct)
  case (3 c d cs)
  then show ?case
    using upper_lower [of d] by (auto simp: to_ascii_lowercase_def split: if_splits)
qed (simp_all add: to_ascii_lowercase_def)

text \<open>Hexadecimal text and back.\<close>

lemma hex_digit_of_value:
  assumes "is_ascii_hexdigit c"
  shows "hex_digit_value (byte_of c) < 16 \<and> hex_digit (hex_digit_value (byte_of c)) = byte_of (to_ascii_lowercase c)"
proof -
  have b: "byte_of e = word_of_nat (code e)" for e
    by (simp add: word_unat_eq_iff unat_of_nat)
  from assms consider "48 \<le> code c \<and> code c \<le> 57" | "65 \<le> code c \<and> code c \<le> 70" | "97 \<le> code c \<and> code c \<le> 102"
    by (auto simp: is_ascii_hexdigit_def is_ascii_digit_def)
  then show ?thesis
    by cases (auto simp: hex_digit_value_def Let_def hex_digit_def b [of "to_ascii_lowercase c"]
        code_to_ascii_lowercase is_ascii_uppercase_def)
qed

lemma hex_text_of_bytes:
  "even (length ds) \<Longrightarrow> list_all is_ascii_hexdigit ds \<Longrightarrow>
     hex_text (hex_bytes (as_bytes ds)) = as_bytes (lowercase ds)"
proof (induction ds rule: induct_list012)
  case (3 a b ds)
  let ?a = "hex_digit_value (byte_of a)" and ?b = "hex_digit_value (byte_of b)"
  from 3 hex_digit_of_value [of a] hex_digit_of_value [of b]
  have a: "?a < 16" "hex_digit ?a = byte_of (to_ascii_lowercase a)"
    and b: "?b < 16" "hex_digit ?b = byte_of (to_ascii_lowercase b)" by simp_all
  then have "unat (word_of_nat (?a * 16 + ?b) :: u8) = ?a * 16 + ?b"
    by (simp add: unat_of_nat del: of_nat_add of_nat_mult)
  with a b 3 show ?case
    by (simp add: hex_text_def as_bytes_def lowercase_def del: of_nat_add of_nat_mult)
qed (simp_all add: hex_text_def as_bytes_def lowercase_def)

lemma hex_digit_inject: "m < 16 \<Longrightarrow> n < 16 \<Longrightarrow> hex_digit m = hex_digit n \<Longrightarrow> m = n"
proof -
  assume m: "m < 16" and n: "n < 16" and e: "hex_digit m = hex_digit n"
  have "unat (word_of_nat x :: u8) = x" if "x < 256" for x
    using that by (simp add: unat_of_nat)
  from this [of "if k < 10 then 48 + k else 87 + k" for k]
  have "unat (hex_digit k) = (if k < 10 then 48 + k else 87 + k)" if "k < 16" for k
    using that unfolding hex_digit_def by force
  from this [OF m] this [OF n] e
  have "(if m < 10 then 48 + m else 87 + m) = (if n < 10 then 48 + n else 87 + n)" by simp
  then show "m = n" using m n by (simp split: if_splits)
qed

lemma hex_text_inject: "hex_text as = hex_text bs \<Longrightarrow> as = bs"
proof (induction as arbitrary: bs)
  case Nil
  then show ?case by (cases bs) (simp_all add: hex_text_def)
next
  case (Cons a as)
  then obtain b bs' where bs: "bs = b # bs'" by (cases bs) (simp_all add: hex_text_def)
  have lt: "unat w div 16 < 16" for w :: u8
  proof -
    have "unat w < 256" using unsigned_less [of w] by simp
    then show ?thesis by (simp add: less_mult_imp_div_less)
  qed
  from Cons.prems bs have e: "hex_digit (unat a div 16) = hex_digit (unat b div 16)"
      "hex_digit (unat a mod 16) = hex_digit (unat b mod 16)" "hex_text as = hex_text bs'"
    by (simp_all add: hex_text_def)
  from hex_digit_inject [OF lt lt e(1)] hex_digit_inject [OF _ _ e(2)]
  have "unat a = unat b" by (metis div_mult_mod_eq mod_less_divisor zero_less_numeral)
  with Cons.IH [OF e(3)] bs show ?case by (simp add: word_unat_eq_iff)
qed


text \<open>Maps collected from pairs.\<close>

lemma collect_map_Some: "map_of (collect_map es) k = Some v \<Longrightarrow> (k, v) \<in> set es"
proof -
  have "map_of (fold (\<lambda>(k, v). omap_insert k v) es m) k = Some v \<Longrightarrow> (k, v) \<in> set es \<or> map_of m k = Some v" for m
  proof (induction es arbitrary: m)
    case (Cons e es)
    obtain k' v' where e: "e = (k', v')" by (cases e)
    with Cons.prems have "map_of (fold (\<lambda>(k, v). omap_insert k v) es (omap_insert k' v' m)) k = Some v" by simp
    from Cons.IH [OF this] e show ?case by (auto split: if_splits)
  qed simp
  from this [of "[]"] show "map_of (collect_map es) k = Some v \<Longrightarrow> (k, v) \<in> set es"
    by (simp add: collect_map_def)
qed

lemma request_name_to_table_Some:
  "map_of (request_name_to_table d) key = Some n \<Longrightarrow>
     \<exists>t. (n, t) \<in> set (d_tables d) \<and> t_request_surface t \<noteq> None \<and> key = request_name t n"
  unfolding request_name_to_table_def by (drule collect_map_Some) auto

lemma output_name_to_table_Some:
  "map_of (output_name_to_table d) key = Some n \<Longrightarrow>
     \<exists>t. (n, t) \<in> set (d_tables d) \<and> o_name (t_output t) = Some key"
  unfolding output_name_to_table_def by (drule collect_map_Some) (auto simp: map_filter_def)

text \<open>Selected fields.\<close>

lemma parse_field_selectable:
  assumes "try_fold (parse_field t) es [] = Inr columns"
  shows "list_all (is_selectable_field t) columns"
proof (rule try_fold_invariant [OF assms])
  show "list_all (is_selectable_field t) s'"
    if "list_all (is_selectable_field t) s" "parse_field t e s = Inr s'" for e s s'
    using that by (auto simp: parse_field_def and_then_Inr_iff Let_def split: prod.splits if_splits)
qed simp

lemma parse_fields_selectable:
  assumes ok: "omap_ok (d_tables d)" and p: "parse_fields v d (output_name_to_table d) = Inr fs"
  shows "list_all (fields_selectable d) fs \<and> omap_ok fs"
proof (cases "Option.bind v as_object")
  case None
  with p show ?thesis by (auto simp: parse_fields_def and_then_Inr_iff)
next
  case (Some es)
  with p have f: "try_fold (parse_field_group d (output_name_to_table d)) es [] = Inr fs"
    by (auto simp: parse_fields_def and_then_Inr_iff)
  show ?thesis
  proof (rule try_fold_invariant [OF f])
    fix e s s'
    assume s: "list_all (fields_selectable d) s \<and> omap_ok s"
      and e: "parse_field_group d (output_name_to_table d) e s = Inr s'"
    from e obtain n t columns where n: "map_of (output_name_to_table d) (fst e) = Some n" "table d n = Some t"
      and c: "list_all (is_selectable_field t) columns" and s': "s' = omap_insert n columns s"
      by (cases e) (auto simp: parse_field_group_def and_then_Inr_iff dest!: parse_field_selectable)
    from output_name_to_table_Some [OF n(1)] omap_ok_map_of [OF ok] n(2) have "o_name (t_output t) \<noteq> None"
      by (auto simp: table_def)
    with c n(2) have "fields_selectable d (n, columns)" by (simp add: fields_selectable_def)
    with s s' show "list_all (fields_selectable d) s' \<and> omap_ok s'"
      by (auto simp: list_all_iff omap_insert_def dest!: set_omap_update)
  qed simp
qed

text \<open>Items.\<close>

lemma parse_item_entry_within:
  assumes "parse_item_entry t al e s = Inr s'"
    and "list_all (filter_declared t al) (fst s)" "list_all (contains_key (declared_relations t al)) (snd s)"
  shows "list_all (filter_declared t al) (fst s') \<and> list_all (contains_key (declared_relations t al)) (snd s')"
proof -
  obtain k v where e: "e = (k, v)" by (cases e)
  obtain fs rs where s: "s = (fs, rs)" by (cases s)
  let ?k = "camel_to_snake k"
  from assms(1) have lim: "case as_array v of None \<Rightarrow> True | Some vs \<Rightarrow> length vs \<le> max_in_list"
    by (auto simp: parse_item_entry_def e s Let_def and_then_Inr_iff split: option.splits)
  show ?thesis
  proof (cases "contains_key (declared_relations t al) ?k")
    case True
    with assms show ?thesis
      by (auto simp: parse_item_entry_def e s Let_def and_then_Inr_iff split: if_splits)
  next
    case False
    with assms(1) have d: "?k \<in> set (declared_filters t al)"
      and s': "s' = (fs @ [(case alias_column al ?k of Some c \<Rightarrow> c | None \<Rightarrow> ?k, v)], rs)"
      and c: "alias_column al ?k = None \<longrightarrow> contains_key (q_special_filters (request t)) ?k \<or> has_column t ?k"
      by (auto simp: parse_item_entry_def e s Let_def and_then_Inr_iff has_column_def
          split: option.splits if_splits)
    have "filter_declared t al (case alias_column al ?k of Some c \<Rightarrow> c | None \<Rightarrow> ?k, v)"
      unfolding filter_declared_def using d c lim by (intro disjI2 bexI [of _ ?k]) simp_all
    with assms(2,3) s' s show ?thesis by simp
  qed
qed

lemma parse_query_item_within:
  assumes "parse_query_item v t al = Inr i"
  shows "item_within t al i"
proof -
  from assms obtain obj fs rs where f: "try_fold (parse_item_entry t al) obj ([], []) = Inr (fs, rs)"
    and i: "i = \<lparr>i_filters = fs @ implicit_entries al, i_relations = rs, i_alias = None\<rparr>"
    by (auto simp: parse_query_item_def and_then_Inr_iff)
  have "list_all (filter_declared t al) (fst (fs, rs)) \<and>
      list_all (contains_key (declared_relations t al)) (snd (fs, rs))"
    by (rule try_fold_invariant [OF f]) (simp, rule parse_item_entry_within, blast+)
  moreover have "list_all (filter_declared t al) (implicit_entries al)"
    by (simp add: list_all_iff filter_declared_def)
  ultimately show ?thesis by (simp add: item_within_def i)
qed

lemma resolve_request_key_table:
  assumes "resolve_request_key d key = Inr (n, al)" and "omap_ok (d_tables d)" and "table d n = Some t"
  shows "case al of None \<Rightarrow> t_request_surface t \<noteq> None
     | Some (k, a) \<Rightarrow> map_of (d_aliases d) k = Some a \<and> a_table a = n"
  using assms omap_ok_map_of [OF assms(2)]
  by (auto simp: resolve_request_key_def table_def split: option.splits
      dest!: request_name_to_table_Some)

definition items_declared :: "dataset_description \<Rightarrow> (string, query_item list) omap \<Rightarrow> bool" where
  "items_declared d items = list_all (\<lambda>(n, is). list_all (item_declared d n) is) items"

lemma parse_table_items_declared:
  assumes ok: "omap_ok (d_tables d)" and e: "parse_table_items d e items = Inr items'"
    and items: "items_declared d items"
  shows "items_declared d items'"
proof -
  obtain key v where kv: "e = (key, v)" by (cases e)
  show ?thesis
  proof (cases "key \<in> set reserved_request_keys")
    case True
    with e items kv show ?thesis by (simp add: parse_table_items_def)
  next
    case False
    with e kv obtain n al t arr new where r: "resolve_request_key d key = Inr (n, al)"
      and t: "table d n = Some t"
      and c: "try_collect (\<lambda>item_value. and_then (parse_query_item item_value t (map_option snd al)) (\<lambda>item.
           Inr (item\<lparr>i_alias := map_option fst al\<rparr>))) arr = Inr new"
      and i': "items' = omap_update n (\<lambda>old. (case old of None \<Rightarrow> [] | Some xs \<Rightarrow> xs) @ new) items"
      by (auto simp: parse_table_items_def and_then_Inr_iff)
    have "item_declared d n i" if "i \<in> set new" for i
    proof -
      from c that obtain w i0 where i0: "parse_query_item w t (map_option snd al) = Inr i0"
        and i: "i = i0\<lparr>i_alias := map_option fst al\<rparr>"
        by (auto simp: try_collect_Inr_iff list_all2_conv_all_nth in_set_conv_nth and_then_Inr_iff)
      from parse_query_item_within [OF i0] resolve_request_key_table [OF r ok t] t i show ?thesis
        by (cases al) (auto simp: item_declared_def item_within_def)
    qed
    then show ?thesis
      using items unfolding items_declared_def i'
      by (fastforce simp: list_all_iff dest!: set_omap_update split: option.splits dest: map_of_SomeD sym [of "Some _"])
  qed
qed


lemma parse_query_Inr:
  assumes "parse_query X bytes d = Inr q"
  obtains obj b where "length bytes \<le> max_request_bytes" and "x_from_slice X bytes = Some (JObject obj)"
    and "map_of obj ''type'' = Some (JString (d_name d))"
    and "parse_block_bound (map_of obj ''fromBlock'') = Inr b" and "u_from_block q = unwrap_or 0 b"
    and "parse_block_bound (map_of obj ''toBlock'') = Inr (u_to_block q)"
    and "parse_fields (map_of obj ''fields'') d (output_name_to_table d) = Inr (u_fields q)"
    and "parse_sets X (map_of obj ''sets'') = Inr (u_sets q)"
    and "try_fold (parse_table_items d) obj [] = Inr (u_items q)"
    and "case u_to_block q of None \<Rightarrow> True | Some n \<Rightarrow> u_from_block q \<le> n"
    and "total_items (u_items q) \<le> max_item_requests"
proof -
  from assms obtain raw obj ty b u x y fs ss its where
    p: "length bytes \<le> max_request_bytes" "x_from_slice X bytes = Some raw" "as_object raw = Some obj"
      "Option.bind (map_of obj ''type'') as_str = Some ty" "ty = d_name d"
      "parse_block_bound (map_of obj ''fromBlock'') = Inr b"
      "parse_block_bound (map_of obj ''toBlock'') = Inr u"
      "case u of None \<Rightarrow> True | Some n \<Rightarrow> unwrap_or 0 b \<le> n"
      "parse_fields (map_of obj ''fields'') d (output_name_to_table d) = Inr fs"
      "parse_sets X (map_of obj ''sets'') = Inr ss"
      "try_fold (parse_table_items d) obj [] = Inr its" "total_items its \<le> max_item_requests"
    and q: "q = \<lparr>u_from_block = unwrap_or 0 b, u_to_block = u, u_include_all_blocks = x,
       u_parent_block_hash = y, u_fields = fs, u_items = its, u_sets = ss\<rparr>"
    unfolding parse_query_def and_then_Inr_iff Let_def unwrap_or_def [symmetric] ok_or_Inr_iff ensure_Inr_iff
    by (auto split: option.splits)
  from p(4,5) have "map_of obj ''type'' = Some (JString (d_name d))"
    by (auto simp: Option.bind_eq_Some_conv as_str_Some)
  with p q show ?thesis by (intro that [of obj b]) (simp_all add: as_object_Some split: option.splits)
qed

lemma parse_query_items:
  assumes "parse_query X bytes d = Inr q" and "omap_ok (d_tables d)"
  shows "items_declared d (u_items q)"
  using assms(1)
proof (rule parse_query_Inr)
  fix obj
  assume f: "try_fold (parse_table_items d) obj [] = Inr (u_items q)"
  show ?thesis
    by (rule try_fold_invariant [OF f]) (simp add: items_declared_def, rule parse_table_items_declared [OF assms(2)])
qed

lemma parse_query_fields:
  assumes "parse_query X bytes d = Inr q" and "omap_ok (d_tables d)"
  shows "list_all (fields_selectable d) (u_fields q) \<and> omap_ok (u_fields q)"
  using assms(1) by (rule parse_query_Inr) (rule parse_fields_selectable [OF assms(2)])

text \<open>A refusal is a validation error.\<close>

definition refuses_as :: "(engine_error \<Rightarrow> bool) \<Rightarrow> engine_error + 'a \<Rightarrow> bool" where
  "refuses_as P r = (case r of Inl e \<Rightarrow> P e | Inr _ \<Rightarrow> True)"

lemma refuses_as_simps [simp]:
  "refuses_as P (Inl e) = P e" "refuses_as P (Inr x) = True"
  by (simp_all add: refuses_as_def)

lemma refuses_as_ensure [simp]: "refuses_as P (ensure c e) \<longleftrightarrow> c \<or> P e"
  by (simp add: ensure_def)

lemma refuses_as_ok_or [simp]: "refuses_as P (ok_or e y) \<longleftrightarrow> y \<noteq> None \<or> P e"
  by (cases y) simp_all

lemma refuses_as_and_then [intro]:
  "refuses_as P r \<Longrightarrow> (\<And>x. r = Inr x \<Longrightarrow> refuses_as P (f x)) \<Longrightarrow> refuses_as P (and_then r f)"
  by (cases r) simp_all

lemma refuses_as_try_fold:
  "(\<And>x s. x \<in> set xs \<Longrightarrow> refuses_as P (f x s)) \<Longrightarrow> refuses_as P (try_fold f xs s)"
  by (induction xs arbitrary: s) (auto intro!: refuses_as_and_then)

lemma refuses_as_try_collect:
  "(\<And>x. x \<in> set xs \<Longrightarrow> refuses_as P (f x)) \<Longrightarrow> refuses_as P (try_collect f xs)"
  by (induction xs) (auto intro!: refuses_as_and_then)

lemma refuses_as_try_for_each:
  "(\<And>x. x \<in> set xs \<Longrightarrow> refuses_as P (f x)) \<Longrightarrow> refuses_as P (try_for_each f xs)"
  by (induction xs) (auto intro!: refuses_as_and_then)

lemma parse_block_bound_refuses: "refuses_as validation_error (parse_block_bound v)"
  by (auto simp: parse_block_bound_def split: option.splits)

lemma parse_fields_refuses: "refuses_as validation_error (parse_fields v d names)"
  unfolding parse_fields_def parse_field_group_def parse_field_def Let_def
  by (auto intro!: refuses_as_and_then refuses_as_try_fold split: option.splits prod.splits)

lemma parse_sets_refuses: "refuses_as validation_error (parse_sets X v)"
  unfolding parse_sets_def
  by (auto intro!: refuses_as_and_then refuses_as_try_collect split: option.splits json.splits sum.splits)

lemma parse_query_item_refuses: "refuses_as validation_error (parse_query_item v t al)"
  unfolding parse_query_item_def parse_item_entry_def Let_def
  by (auto intro!: refuses_as_and_then refuses_as_try_fold split: option.splits prod.splits)

lemma resolve_request_key_known:
  assumes v: "validate d = Inr ()" and r: "resolve_request_key d key = Inr (n, al)"
  shows "table d n \<noteq> None"
proof (cases "map_of (request_name_to_table d) key")
  case (Some m)
  with r have "m = n" by (simp add: resolve_request_key_def)
  with request_name_to_table_Some [OF Some] show ?thesis
    by (auto simp: table_def map_of_eq_None_iff rev_image_eqI)
next
  case None
  with r obtain a where a: "map_of (d_aliases d) key = Some a" "n = a_table a"
    by (auto simp: resolve_request_key_def split: option.splits)
  from validate_aliases [OF v map_of_SomeD [OF a(1)]] a(2) show ?thesis
    by (auto simp: check_alias_def and_then_Inr_iff)
qed

lemma parse_table_items_refuses:
  assumes "validate d = Inr ()"
  shows "refuses_as validation_error (parse_table_items d e items)"
proof -
  obtain key v where e: "e = (key, v)" by (cases e)
  have "refuses_as validation_error (resolve_request_key d key)"
    by (simp add: resolve_request_key_def split: option.splits)
  moreover have "table d n \<noteq> None" if "resolve_request_key d key = Inr (n, al)" for n al
    using resolve_request_key_known [OF assms that] .
  ultimately show ?thesis
    unfolding parse_table_items_def e
    by (auto intro!: refuses_as_and_then refuses_as_try_collect parse_query_item_refuses)
qed

lemma parse_query_refuses:
  assumes "validate d = Inr ()"
  shows "refuses_as validation_error (parse_query X bytes d)"
  unfolding parse_query_def Let_def optional_def
  by (intro refuses_as_and_then parse_block_bound_refuses parse_fields_refuses parse_sets_refuses
      refuses_as_try_fold parse_table_items_refuses [OF assms])
    (simp_all split: option.split)




section \<open>Properties\<close>

text \<open>
  A catalog name written in camel case, as responses write it, is read back as the same name, for
  every name whose underscores each start a word with a letter: the spelling a client copies from a
  response addresses the field, filter or relation it came from.
\<close>

theorem camel_case_round_trip:
  assumes "snake_name s"
  shows "camel_to_snake (snake_to_camel s) = s"
proof (cases s)
  case (Cons c cs)
  with assms have w: "words_ok (c # cs)" and c: "c \<noteq> CHR ''_''" by (simp_all add: snake_name_def)
  with snake_tail_camel [OF w] show ?thesis
    by (cases cs) (auto simp: Cons snake_to_camel_def to_ascii_lowercase_def)
qed (simp add: snake_to_camel_def)

theorem camel_case_round_trip_witness:
  "camel_to_snake (snake_to_camel ''transaction_index'') = ''transaction_index'' \<and>
   snake_to_camel ''transaction_index'' = ''transactionIndex''"
proof
  show "camel_to_snake (snake_to_camel ''transaction_index'') = ''transaction_index''"
    by (rule camel_case_round_trip) code_simp
qed code_simp

text \<open>
  C1: \<open>parse_hex\<close> accepts exactly the well-formed literals, and the bytes it reads are the ones that
  render as the literal in lower case: no sign, no odd digit and no other text is read as bytes, and
  two different byte strings never come from one literal.
\<close>

theorem parse_hex_renders:
  assumes "hex_decode_ok X" and "hex_encode_ok X"
  shows "parse_hex X s = Some bs \<longleftrightarrow>
    is_hex_literal s \<and> encode_hex_bytes X bs = [quote] @ as_bytes (lowercase s) @ [quote]"
proof (cases "is_hex_literal s")
  case True
  then obtain x ds where s: "s = CHR ''0'' # x # ds" "to_ascii_lowercase x = CHR ''x''"
    and ds: "even (length ds)" "list_all is_ascii_hexdigit ds"
  proof -
    from True obtain ds where d: "even (length ds)" "list_all is_ascii_hexdigit ds"
      and "strip_prefix ''0x'' s = Some ds \<or> strip_prefix ''0X'' s = Some ds"
      by (auto simp: is_hex_literal_def split: option.splits)
    then have "s = ''0x'' @ ds \<or> s = ''0X'' @ ds"
      by (auto simp: strip_prefix_def starts_with_def split: if_splits)
        (metis append_Cons append_Nil append_take_drop_id length_Cons list.size(3) One_nat_def numeral_2_eq_2)+
    moreover have "to_ascii_lowercase (CHR ''x'') = CHR ''x''" "to_ascii_lowercase (CHR ''X'') = CHR ''x''"
      by code_simp+
    ultimately show ?thesis using that d by auto
  qed
  have z: "to_ascii_lowercase (CHR ''0'') = CHR ''0''" by code_simp
  from True ds assms(1) have p: "parse_hex X s = Some (hex_bytes (as_bytes ds))"
    by (simp add: parse_hex_def hex_decode_ok_def s as_bytes_def)
  from assms(2) hex_text_of_bytes [OF ds]
  have "encode_hex_bytes X (hex_bytes (as_bytes ds)) = [quote] @ as_bytes (lowercase s) @ [quote]"
    by (simp add: encode_hex_bytes_def hex_encode_ok_def s(1) as_bytes_def lowercase_def s(2) z)
  moreover have "encode_hex_bytes X as = encode_hex_bytes X bs \<Longrightarrow> as = bs" for as
    using assms(2) hex_text_inject by (simp add: encode_hex_bytes_def hex_encode_ok_def)
  ultimately show ?thesis using p True by auto
qed (simp add: parse_hex_def)

theorem parse_hex_renders_witness:
  "parse_hex plain_externals ''0xAb'' = Some [0xab]"
proof -
  have "is_hex_literal ''0xAb''" by code_simp
  moreover have "encode_hex_bytes plain_externals [0xab] = [quote] @ as_bytes (lowercase ''0xAb'') @ [quote]"
    by code_simp
  ultimately show ?thesis
    using parse_hex_renders [OF hex_decode_ok_plain hex_encode_ok_plain] by blast
qed

definition sample_request :: json where
  "sample_request = JObject
     [(''type'', JString ''sample''), (''fromBlock'', JPosInt 10), (''toBlock'', JPosInt 20),
      (''fields'', JObject [(''log'', JObject [(''address'', JBool True), (''data'', JBool False)])]),
      (''logs'', JArray [JObject [(''address'', JArray [JString ''0xAB'']), (''transaction'', JBool True)]]),
      (''tokenLogs'', JArray [JObject [(''address'', JString ''0xcd'')]])]"

definition request_externals :: externals where
  "request_externals = plain_externals\<lparr>x_from_slice := (\<lambda>_. Some sample_request)\<rparr>"

definition sample_query :: query where
  "sample_query =
     \<lparr>u_from_block = 10, u_to_block = Some 20, u_include_all_blocks = False, u_parent_block_hash = None,
      u_fields = [(''logs'', [''address''])],
      u_items = [(''logs'',
        [\<lparr>i_filters = [(''address'', JArray [JString ''0xAB''])], i_relations = [''transaction''], i_alias = None\<rparr>,
         \<lparr>i_filters = [(''address'', JString ''0xcd''), (''topic0'', JArray [JString ''0xdd''])],
          i_relations = [], i_alias = Some ''tokenLogs''\<rparr>])],
      u_sets = []\<rparr>"

definition sample_alias :: alias_description where
  "sample_alias = snd (hd (d_aliases sample_catalog))"

lemma sample_resolve:
  "resolve_request_key sample_catalog ''tokenLogs'' = Inr (''logs'', Some (''tokenLogs'', sample_alias))"
  "resolve_request_key sample_catalog ''logs'' = Inr (''logs'', None)"
  "table sample_catalog ''logs'' = Some sample_logs"
  "d_name sample_catalog = ''sample''"
  by code_simp+

lemma sample_items:
  "parse_query_item (JObject [(''address'', JArray [JString ''0xAB'']), (''transaction'', JBool True)])
     sample_logs None =
   Inr \<lparr>i_filters = [(''address'', JArray [JString ''0xAB''])], i_relations = [''transaction''], i_alias = None\<rparr>"
  "parse_query_item (JObject [(''address'', JString ''0xcd'')]) sample_logs (Some sample_alias) =
   Inr \<lparr>i_filters = [(''address'', JString ''0xcd''), (''topic0'', JArray [JString ''0xdd''])],
     i_relations = [], i_alias = None\<rparr>"
  by (simp add: parse_query_item_def parse_item_entry_def max_in_list_def, code_simp)+

lemma sample_fields:
  "parse_fields (Some (JObject [(''log'', JObject [(''address'', JBool True), (''data'', JBool False)])]))
     sample_catalog (output_name_to_table sample_catalog) = Inr [(''logs'', [''address''])]"
  by code_simp

lemma sample_parse: "parse_query request_externals [] sample_catalog = Inr sample_query"
  by (simp add: parse_query_def request_externals_def sample_request_def max_request_bytes_def
      parse_block_bound_def is_json_null_def optional_def sample_fields parse_sets_def parse_table_items_def
      reserved_request_keys_def sample_resolve sample_items sample_query_def total_items_def
      max_item_requests_def)

text \<open>The crate's promise about the numbers and keys of a parsed value.\<close>

definition json_reader_ok :: "externals \<Rightarrow> bool" where
  "json_reader_ok X \<longleftrightarrow> (\<forall>bytes v. x_from_slice X bytes = Some v \<longrightarrow> json_ok v)"

lemma parse_block_bound_less:
  "json_ok (JObject obj) \<Longrightarrow> parse_block_bound (map_of obj k) = Inr (Some n) \<Longrightarrow> n < 2 ^ 64"
  by (auto simp: parse_block_bound_def as_u64_Some list_all_iff split: option.splits if_splits
      dest!: map_of_SomeD)

text \<open>
  C34: An accepted request is within every limit whatever it holds: its bytes, the number of item
  requests over all tables and aliases together, and block bounds that are 64-bit numbers in order; a
  bound left out starts at zero and never ends.
\<close>

theorem parse_query_limits:
  assumes "json_reader_ok X" and "parse_query X bytes d = Inr q"
  shows "length bytes \<le> 16777216 \<and> total_items (u_items q) \<le> 100 \<and> u_from_block q < 2 ^ 64 \<and>
    (case u_to_block q of None \<Rightarrow> True | Some n \<Rightarrow> u_from_block q \<le> n \<and> n < 2 ^ 64)"
  using assms(2)
proof (rule parse_query_Inr)
  fix obj b
  assume p: "length bytes \<le> max_request_bytes" "x_from_slice X bytes = Some (JObject obj)"
      "total_items (u_items q) \<le> max_item_requests" "u_from_block q = unwrap_or 0 b"
      "case u_to_block q of None \<Rightarrow> True | Some n \<Rightarrow> u_from_block q \<le> n"
    and b: "parse_block_bound (map_of obj ''fromBlock'') = Inr b"
      "parse_block_bound (map_of obj ''toBlock'') = Inr (u_to_block q)"
  from assms(1) p(2) have j: "json_ok (JObject obj)"
    unfolding json_reader_ok_def by blast
  have "unwrap_or 0 b < 2 ^ 64"
    using parse_block_bound_less [OF j] b(1) by (cases b) (auto simp: unwrap_or_def)
  with p parse_block_bound_less [OF j] b(2) show ?thesis
    by (auto simp: max_request_bytes_def max_item_requests_def split: option.splits)
qed

lemma request_externals_ok: "json_reader_ok request_externals"
  by (simp add: json_reader_ok_def request_externals_def sample_request_def)

theorem parse_query_limits_witness:
  "total_items (u_items sample_query) \<le> 100 \<and> u_from_block sample_query < 2 ^ 64"
  using parse_query_limits [OF request_externals_ok sample_parse] by blast

text \<open>
  C33: An accepted request stays on the surface the catalog publishes: every field it selects is a
  declared field of a table with an output name; every item reads a table with a request surface or
  comes through an alias of it, carries only relations that surface (the alias's own, if it came
  through one) declares, and only filters that it declares, renamed as it says and with at most a
  hundred thousand values each, or that the alias itself implies.
\<close>

theorem parse_query_surface:
  assumes "omap_ok (d_tables d)" and "parse_query X bytes d = Inr q"
  shows "list_all (fields_selectable d) (u_fields q) \<and>
    list_all (\<lambda>(table_name, its). list_all (item_declared d table_name) its) (u_items q)"
  using parse_query_fields [OF assms(2,1)] parse_query_items [OF assms(2,1)]
  by (simp add: items_declared_def)

theorem parse_query_surface_witness:
  "list_all (\<lambda>(table_name, its). list_all (item_declared sample_catalog table_name) its) (u_items sample_query)"
proof -
  have "omap_ok (d_tables sample_catalog)" by code_simp
  from parse_query_surface [OF this sample_parse] show ?thesis by simp
qed

text \<open>
  C35: On an accepted catalog reading a request never panics and never fails for the server's reasons:
  every refusal is of a validation kind, which names what is wrong with the request.
\<close>

theorem parse_query_refusals:
  assumes "validate d = Inr ()" and "parse_query X bytes d = Inl e"
  shows "validation_error e"
  using parse_query_refuses [OF assms(1), of X bytes] assms(2) by simp

theorem parse_query_refusals_witness:
  "validation_error (EngineError UnknownDataset)"
proof -
  have "validate sample_catalog = Inr ()" by code_simp
  moreover have "parse_query (plain_externals\<lparr>x_from_slice := (\<lambda>_. Some (JObject []))\<rparr>) [] sample_catalog =
      Inl (EngineError UnknownDataset)"
    by (simp add: parse_query_def)
  ultimately show ?thesis by (rule parse_query_refusals)
qed

end
