(* ===== verification/List_Filter.thy ===== *)
theory List_Filter
  imports Query_Parse Row_Predicate
begin

text \<open>
  From a filter's value to the filter of one column, the second half of \<^verbatim>\<open>src/query/plan.rs\<close>: a list of
  values becomes an array of the column's declared type, a discriminator dispatches its prefixes by
  length, a bloom filter keeps its needles and a range its bound. The lemmas state which cells of a
  column each compiled filter admits, in terms of what the values of the request denote.
\<close>

section \<open>Values\<close>

definition is_filter_scalar :: "json \<Rightarrow> bool" where
  "is_filter_scalar v = (as_str v \<noteq> None \<or> as_u64 v \<noteq> None \<or> as_i64 v \<noteq> None)"

definition list_of :: "json \<Rightarrow> json list" where
  "list_of v = (case as_array v of Some vs \<Rightarrow> vs | None \<Rightarrow> [v])"

definition fold_for_column :: "string \<Rightarrow> column_description \<Rightarrow> string" where
  "fold_for_column s c = (if folds_case c then lowercase s else s)"

definition add_split_value ::
    "externals \<Rightarrow> json \<Rightarrow> u8 list list \<times> int list \<Rightarrow> engine_error + u8 list list \<times> int list" where
  "add_split_value X v = (\<lambda>(hex, numbers).
     case as_str v of
       Some s \<Rightarrow> Inr (hex @ opt_list (parse_hex X s), numbers)
     | None \<Rightarrow>
         (case as_u64 v of
            Some n \<Rightarrow> Inr (hex, numbers @ [int n])
          | None \<Rightarrow>
              (case as_i64 v of
                 Some n \<Rightarrow> Inr (hex, numbers @ [n])
               | None \<Rightarrow> Inl (EngineError InvalidFilterValue))))"

definition split_binary_in_list :: "externals \<Rightarrow> json list \<Rightarrow> engine_error + u8 list list \<times> int list" where
  "split_binary_in_list X vs = try_fold (add_split_value X) vs ([], [])"

definition in_list_of :: "string \<Rightarrow> array \<Rightarrow> column_predicate option" where
  "in_list_of col a = (if len a = 0 then None else Some (col, PInList a))"

text \<open>\<open>n as i64\<close> keeps the low 64 bits.\<close>

definition compile_signed_in_list ::
    "externals \<Rightarrow> string \<Rightarrow> json list \<Rightarrow> int \<Rightarrow> int \<Rightarrow> engine_error + column_predicate option" where
  "compile_signed_in_list X col vs lo hi =
     and_then (ensure (\<not> list_ex (\<lambda>v. as_str v \<noteq> None) vs) (EngineError InvalidFilterValue)) (\<lambda>_.
     and_then (split_binary_in_list X vs) (\<lambda>(_, numbers).
     let vals = map (signed_take_bit 63) (filter (\<lambda>n. lo \<le> n \<and> n \<le> hi) numbers) in
     Inr (in_list_of col (AInt Int64 vals None))))"

text \<open>The branch each unsigned width has of its own: big-endian bytes of that width, then the numbers.\<close>

definition compile_unsigned_in_list ::
    "externals \<Rightarrow> string \<Rightarrow> json list \<Rightarrow> int_type \<Rightarrow> engine_error + column_predicate option" where
  "compile_unsigned_in_list X col vs t =
     and_then (split_binary_in_list X vs) (\<lambda>(hex, numbers).
     let vals = map (\<lambda>b. int (be_number b)) (filter (\<lambda>b. length b = bits_of t div 8) hex)
           @ filter (\<lambda>n. 0 \<le> n \<and> n < 2 ^ bits_of t) numbers in
     Inr (in_list_of col (AInt t vals None)))"

text \<open>
  Arrow's fixed-size builder: the width is an \<open>i32\<close>, a negative one panics, and appending a value of
  another length is an error.
\<close>

definition fixed_size_builder :: "u8 list list \<Rightarrow> nat \<Rightarrow> engine_error + array" where
  "fixed_size_builder vals width =
     (let w = sint (word_of_nat width :: u32) in
      if w < 0 then Inl Panic
      else and_then (try_for_each (\<lambda>v. ensure (int (length v) = w) Untyped) vals) (\<lambda>_.
        Inr (ABytes (FixedSizeBinary (nat w)) vals None)))"

definition compile_fixed_in_list ::
    "externals \<Rightarrow> string \<Rightarrow> json list \<Rightarrow> nat \<Rightarrow> engine_error + column_predicate option" where
  "compile_fixed_in_list X col vs width =
     and_then (split_binary_in_list X vs) (\<lambda>(hex, numbers).
     and_then (ensure (numbers = []) (EngineError InvalidFilterValue)) (\<lambda>_.
     and_then (fixed_size_builder (filter (\<lambda>b. length b = width) hex) width) (\<lambda>a.
     Inr (in_list_of col a))))"

definition strings_of :: "json list \<Rightarrow> engine_error + string list" where
  "strings_of = try_collect (\<lambda>v. ok_or (EngineError InvalidFilterValue) (as_str v))"

definition compile_in_list ::
    "externals \<Rightarrow> string \<Rightarrow> json list \<Rightarrow> column_description \<Rightarrow> engine_error + column_predicate option" where
  "compile_in_list X col vs c =
     (case c_data_type c of
        TString \<Rightarrow>
          and_then (strings_of vs) (\<lambda>ss.
          Inr (in_list_of col (AText Utf8 (map (\<lambda>s. fold_for_column s c) ss) None)))
      | TUInt8 \<Rightarrow> compile_unsigned_in_list X col vs UInt8
      | TUInt16 \<Rightarrow> compile_unsigned_in_list X col vs UInt16
      | TUInt32 \<Rightarrow> compile_unsigned_in_list X col vs UInt32
      | TUInt64 \<Rightarrow> compile_unsigned_in_list X col vs UInt64
      | TInt16 \<Rightarrow> compile_signed_in_list X col vs (- (2 ^ 15)) (2 ^ 15 - 1)
      | TInt32 \<Rightarrow> compile_signed_in_list X col vs (- (2 ^ 31)) (2 ^ 31 - 1)
      | TInt64 \<Rightarrow> compile_signed_in_list X col vs (- (2 ^ 63)) (2 ^ 63 - 1)
      | TFixedBinary width \<Rightarrow> compile_fixed_in_list X col vs width
      | TListUInt32 \<Rightarrow>
          and_then (try_collect (\<lambda>v. ok_or (EngineError InvalidFilterValue) (as_u64 v)) vs) (\<lambda>ns.
          let vals = map word_of_nat (filter (\<lambda>n. n < 2 ^ 32) ns) in
          Inr (if vals = [] then None else Some (col, PListAny (AnyU32 vals))))
      | TListString \<Rightarrow>
          and_then (strings_of vs) (\<lambda>ss.
          let vals = map (\<lambda>s. fold_for_column s c) ss in
          Inr (if vals = [] then None else Some (col, PListAny (AnyText vals))))
      | _ \<Rightarrow> Inl (EngineError InvalidFilterValue))"


section \<open>Discriminators, bloom filters and ranges\<close>

definition parse_discriminator_value :: "externals \<Rightarrow> json \<Rightarrow> engine_error + u8 list" where
  "parse_discriminator_value X v =
     and_then (ok_or (EngineError InvalidFilterValue) (as_str v)) (\<lambda>s.
     and_then (ok_or (EngineError InvalidHex) (parse_hex X s)) (\<lambda>bytes.
     and_then (ensure (length bytes \<le> max_discriminator_bytes) (EngineError DiscriminatorTooLong)) (\<lambda>_.
     Inr bytes)))"

definition add_prefix ::
    "externals \<Rightarrow> json \<Rightarrow> (nat, u8 list list) omap \<times> bool \<Rightarrow> engine_error + (nat, u8 list list) omap \<times> bool" where
  "add_prefix X v = (\<lambda>(by_length, matches_every_row).
     and_then (parse_discriminator_value X v) (\<lambda>bytes.
     Inr (if bytes = [] then (by_length, True)
          else (omap_update (length bytes) (\<lambda>old. unwrap_or [] old @ [bytes]) by_length, matches_every_row))))"

definition discriminator_array :: "nat \<Rightarrow> u8 list list \<Rightarrow> engine_error + array" where
  "discriminator_array n vals =
     (let ints = map (\<lambda>b. int (be_number b)) vals in
      if n = 1 then Inr (AInt UInt8 ints None)
      else if n = 2 then Inr (AInt UInt16 ints None)
      else if n = 4 then Inr (AInt UInt32 ints None)
      else if n = 8 then Inr (AInt UInt64 ints None)
      else fixed_size_builder vals n)"

definition discriminator_group ::
    "(string, string) omap \<Rightarrow> nat \<times> u8 list list \<Rightarrow> engine_error + column_predicate list" where
  "discriminator_group columns = (\<lambda>(n, vals).
     and_then (ok_or (EngineError InvalidFilterValue) (map_of columns (show_nat n))) (\<lambda>col_name.
     and_then (discriminator_array n vals) (\<lambda>a.
     Inr [(col_name, PInList a)])))"

definition compile_discriminator ::
    "externals \<Rightarrow> json \<Rightarrow> (string, string) omap \<Rightarrow> engine_error + column_predicate list list option" where
  "compile_discriminator X v columns =
     and_then (ok_or (EngineError InvalidFilterValue) (as_array v)) (\<lambda>arr.
     and_then (try_fold (add_prefix X) arr ([], False)) (\<lambda>(by_length, matches_every_row).
     and_then (try_collect (discriminator_group columns) (sort_key fst by_length)) (\<lambda>groups.
     Inr (if matches_every_row then None else Some groups))))"

definition compile_bloom_filter :: "json \<Rightarrow> string \<Rightarrow> nat \<Rightarrow> nat \<Rightarrow> engine_error + column_predicate" where
  "compile_bloom_filter v col num_bytes num_hashes =
     and_then (ok_or (EngineError InvalidFilterValue) (as_array v)) (\<lambda>arr.
     and_then (strings_of arr) (\<lambda>ss.
     let needles = map as_bytes ss in
     Inr (if needles = [] then (col, PNever) else (col, PBloom needles num_bytes num_hashes))))"

definition range_bound :: "json \<Rightarrow> string \<Rightarrow> table_description \<Rightarrow> engine_error + u64" where
  "range_bound v col t =
     and_then (ok_or (EngineError UnknownFilter) (column t col)) (\<lambda>c.
     and_then (ok_or (EngineError InvalidFilterValue) (as_u64 v)) (\<lambda>n.
     if c_data_type c = TUInt64 then Inr (word_of_nat n) else Inl (EngineError InvalidFilterValue)))"

definition compile_range_gte :: "json \<Rightarrow> string \<Rightarrow> table_description \<Rightarrow> engine_error + column_predicate option" where
  "compile_range_gte v col t =
     and_then (range_bound v col t) (\<lambda>n. Inr (Some (col, PGte (SvUInt64 n))))"

definition compile_range_lte :: "json \<Rightarrow> string \<Rightarrow> table_description \<Rightarrow> engine_error + column_predicate option" where
  "compile_range_lte v col t =
     and_then (range_bound v col t) (\<lambda>n. Inr (Some (col, PLte (SvUInt64 n))))"


section \<open>What a value denotes\<close>

text \<open>
  Whether the cell is the value \<open>v\<close> denotes on a column of this description, the reading of a list
  filter: text after case folding, a number as itself, a hexadecimal literal of exactly the column's
  width as its big-endian number or its bytes.
\<close>

fun number_of :: "json \<Rightarrow> int option" where
  "number_of (JPosInt n) = Some (int n)"
| "number_of (JNegInt i) = Some i"
| "number_of _ = None"

definition literal_bytes :: "externals \<Rightarrow> json \<Rightarrow> u8 list option" where
  "literal_bytes X v = Option.bind (as_str v) (parse_hex X)"

definition unsigned_denotes :: "externals \<Rightarrow> nat \<Rightarrow> json \<Rightarrow> int \<Rightarrow> bool" where
  "unsigned_denotes X bits v x =
     (number_of v = Some x \<or>
      (case literal_bytes X v of
         None \<Rightarrow> False
       | Some b \<Rightarrow> length b = bits div 8 \<and> int (be_number b) = x))"

definition element_denotes :: "column_description \<Rightarrow> json \<Rightarrow> cell \<Rightarrow> bool" where
  "element_denotes c v e =
     (case (c_data_type c, e) of
        (TListUInt32, CInt t x) \<Rightarrow> number_of v = Some x \<and> 0 \<le> x \<and> x < 2 ^ 32
      | (TListString, CText s) \<Rightarrow> map_option (\<lambda>u. fold_for_column u c) (as_str v) = Some s
      | _ \<Rightarrow> False)"

fun unsigned_bits_of :: "column_type \<Rightarrow> nat option" where
  "unsigned_bits_of TUInt8 = Some 8"
| "unsigned_bits_of TUInt16 = Some 16"
| "unsigned_bits_of TUInt32 = Some 32"
| "unsigned_bits_of TUInt64 = Some 64"
| "unsigned_bits_of _ = None"

fun signed_bits_of :: "column_type \<Rightarrow> nat option" where
  "signed_bits_of TInt16 = Some 16"
| "signed_bits_of TInt32 = Some 32"
| "signed_bits_of TInt64 = Some 64"
| "signed_bits_of _ = None"

text \<open>
  An integer column may be stored at another width or signedness than declared; the value compared is
  the declared reading of what is stored.
\<close>

definition value_denotes :: "externals \<Rightarrow> column_description \<Rightarrow> json \<Rightarrow> cell \<Rightarrow> bool" where
  "value_denotes X c v e =
     (case e of
        CText s \<Rightarrow> c_data_type c = TString \<and> map_option (\<lambda>u. fold_for_column u c) (as_str v) = Some s
      | CInt t x \<Rightarrow>
          (case unsigned_bits_of (c_data_type c) of
             Some bits \<Rightarrow>
               (let y = declared_value x (bits_of t) False in y < 2 ^ bits \<and> unsigned_denotes X bits v y)
           | None \<Rightarrow>
               (case signed_bits_of (c_data_type c) of
                  Some bits \<Rightarrow>
                    (let y = declared_value x (bits_of t) True in
                     - (2 ^ (bits - 1)) \<le> y \<and> y < 2 ^ (bits - 1) \<and> number_of v = Some y)
                | None \<Rightarrow> False))
      | CBytes t b \<Rightarrow>
          (case c_data_type c of
             TFixedBinary width \<Rightarrow> length b = width \<and> literal_bytes X v = Some b
           | _ \<Rightarrow> False)
      | CList es \<Rightarrow> list_ex (element_denotes c v) es
      | _ \<Rightarrow> False)"


section \<open>Facts\<close>

text \<open>A compiled list filter: of its column, of well-formed values, admitting exactly the cells of \<open>P\<close>.\<close>

definition filters_exactly ::
    "externals \<Rightarrow> string \<Rightarrow> column_predicate option \<Rightarrow> (cell \<Rightarrow> bool) \<Rightarrow> bool" where
  "filters_exactly X col r P =
     (case r of
        None \<Rightarrow> (\<forall>c. \<not> P c)
      | Some (k, p) \<Rightarrow> k = col \<and> predicate_ok p \<and> (\<forall>c. admits X p c \<longleftrightarrow> P c))"

definition any_denotes :: "externals \<Rightarrow> column_description \<Rightarrow> json list \<Rightarrow> cell \<Rightarrow> bool" where
  "any_denotes X c vs e = list_ex (\<lambda>v. value_denotes X c v e) vs"

lemma in_list_admits_empty: "len a = 0 \<Longrightarrow> \<not> in_list_admits a e"
  by (cases a; cases e) (auto simp: in_list_admits_def listed_hold_def elim: string_set.elims fixed_binary_set.elims
      split: option.splits)

lemma filters_exactlyI:
  assumes "wf_array a" and "\<And>e. in_list_admits a e \<longleftrightarrow> P e"
  shows "filters_exactly X col (in_list_of col a) P"
  using assms in_list_admits_empty [of a] by (auto simp: filters_exactly_def in_list_of_def)

lemma number_of_as_u64: "as_u64 v = Some n \<Longrightarrow> number_of v = Some (int n)"
  by (cases v) auto

lemma number_of_as_i64: "as_i64 v = Some n \<Longrightarrow> number_of v = Some n"
  by (cases v) (auto split: if_splits)

lemma number_of_range: "json_ok v \<Longrightarrow> number_of v = Some n \<Longrightarrow> - (2 ^ 63) \<le> n \<and> n < 2 ^ 64"
  by (cases v) auto

lemma add_split_value_Inr:
  "add_split_value X v hn = Inr r \<Longrightarrow>
     r = (fst hn @ opt_list (literal_bytes X v), snd hn @ opt_list (number_of v))"
  by (cases v; cases hn) (auto simp: add_split_value_def literal_bytes_def split: if_splits)

lemma add_split_values_Inr:
  "try_fold (add_split_value X) vs hn = Inr r \<Longrightarrow>
     r = (fst hn @ concat (map (\<lambda>v. opt_list (literal_bytes X v)) vs),
          snd hn @ concat (map (\<lambda>v. opt_list (number_of v)) vs))"
proof (induction vs arbitrary: hn)
  case (Cons v vs)
  from Cons.prems obtain hn' where s: "add_split_value X v hn = Inr hn'"
      "try_fold (add_split_value X) vs hn' = Inr r"
    by (auto simp: and_then_Inr_iff)
  from Cons.IH [OF s(2)] add_split_value_Inr [OF s(1)] show ?case by simp
qed simp

lemma split_binary_in_list_Inr:
  assumes "split_binary_in_list X vs = Inr (hex, numbers)"
  shows "hex = concat (map (\<lambda>v. opt_list (literal_bytes X v)) vs)"
    and "numbers = concat (map (\<lambda>v. opt_list (number_of v)) vs)"
  using add_split_values_Inr [of X vs "([], [])"] assms by (simp_all add: split_binary_in_list_def)

lemma split_binary_mem:
  assumes "split_binary_in_list X vs = Inr (hex, numbers)"
  shows "b \<in> set hex \<longleftrightarrow> (\<exists>v \<in> set vs. literal_bytes X v = Some b)"
    and "n \<in> set numbers \<longleftrightarrow> (\<exists>v \<in> set vs. number_of v = Some n)"
  using split_binary_in_list_Inr [OF assms] by (auto simp: set_opt_list)

lemma be_number_snoc: "be_number (bs @ [b]) = be_number bs * 256 + unat b"
  by (simp add: be_number_def)

lemma be_number_less: "be_number bs < 256 ^ length bs"
proof (induction bs rule: rev_induct)
  case Nil
  then show ?case by (simp add: be_number_def)
next
  case (snoc b bs)
  have "unat b < 256" using unsigned_less [of b] by simp
  with snoc show ?case by (simp add: be_number_snoc)
qed

lemma bits_of_bytes: "(256 :: nat) ^ (bits_of t div 8) = 2 ^ bits_of t"
  by (cases t) simp_all

lemma uint_word_of_int_id: "0 \<le> x \<Longrightarrow> x < 2 ^ 64 \<Longrightarrow> uint (word_of_int x :: u64) = x"
  by (simp add: uint_word_of_int take_bit_int_eq_self)

lemma uint_image_id:
  "(\<And>x. x \<in> A \<Longrightarrow> 0 \<le> x \<and> x < 2 ^ 64) \<Longrightarrow> (\<lambda>x. uint (word_of_int x :: u64)) ` A = A"
  by (auto simp: uint_word_of_int_id image_iff intro: rev_bexI)

lemma unsigned_list_admits:
  assumes "\<not> signed_of t" and "list_all (in_range t) vals"
  shows "in_list_admits (AInt t vals None) e \<longleftrightarrow>
    (case e of CInt t' x \<Rightarrow> declared_value x (bits_of t') False \<in> set vals | _ \<Rightarrow> False)"
proof -
  from assms have r: "0 \<le> x \<and> x < 2 ^ 64" if "x \<in> set vals" for x
    using that in_range_unsigned_64 [OF assms(1), of x] by (auto simp: list_all_iff in_range_def)
  have "(\<lambda>x. uint (word_of_int x :: u64)) ` set vals = set vals"
    by (rule uint_image_id) (rule r)
  with assms(1) show ?thesis
    by (cases e) (simp_all add: in_list_admits_def listed_hold_def image_image)
qed

lemma unsigned_denotes_iff:
  "unsigned_denotes X bits v x \<longleftrightarrow> number_of v = Some x \<or>
     (\<exists>b. literal_bytes X v = Some b \<and> length b = bits div 8 \<and> int (be_number b) = x)"
  by (auto simp: unsigned_denotes_def split: option.splits)

lemma compile_unsigned_exact:
  assumes c: "compile_unsigned_in_list X col vs t = Inr r" and t: "\<not> signed_of t"
    and d: "unsigned_bits_of (c_data_type c) = Some (bits_of t)"
  shows "filters_exactly X col r (any_denotes X c vs)"
proof -
  from c obtain hex numbers where s: "split_binary_in_list X vs = Inr (hex, numbers)"
    and r: "r = in_list_of col (AInt t (map (\<lambda>b. int (be_number b)) (filter (\<lambda>b. length b = bits_of t div 8) hex)
           @ filter (\<lambda>n. 0 \<le> n \<and> n < 2 ^ bits_of t) numbers) None)" (is "r = in_list_of col (AInt t ?vals None)")
    by (auto simp: compile_unsigned_in_list_def and_then_Inr_iff Let_def)
  have be: "int (be_number b) < 2 ^ bits_of t" if "length b = bits_of t div 8" for b
    using be_number_less [of b] bits_of_bytes [of t] that by (metis of_nat_less_iff of_nat_numeral of_nat_power)
  then have wf: "list_all (in_range t) ?vals"
    using t by (auto simp: list_all_iff in_range_def)
  have mem: "y \<in> set ?vals \<longleftrightarrow> (\<exists>v \<in> set vs. y < 2 ^ bits_of t \<and> unsigned_denotes X (bits_of t) v y)"
    if "0 \<le> y" for y
  proof -
    have "y \<in> set ?vals \<longleftrightarrow> (\<exists>b \<in> set hex. length b = bits_of t div 8 \<and> int (be_number b) = y) \<or>
        (y \<in> set numbers \<and> y < 2 ^ bits_of t)"
      using that by auto
    also have "\<dots> \<longleftrightarrow> (\<exists>v \<in> set vs. y < 2 ^ bits_of t \<and> unsigned_denotes X (bits_of t) v y)"
      using be split_binary_mem [OF s] unfolding unsigned_denotes_iff by blast
    finally show ?thesis .
  qed
  have "in_list_admits (AInt t ?vals None) e \<longleftrightarrow> any_denotes X c vs e" for e
  proof (cases e)
    case (CInt t' x)
    have "0 \<le> declared_value x (bits_of t') False" by (simp add: declared_unsigned)
    from mem [OF this] d show ?thesis
      unfolding unsigned_list_admits [OF t wf]
      by (simp add: CInt any_denotes_def value_denotes_def Let_def list_ex_iff)
  next
    case (CList es)
    with d show ?thesis
      unfolding unsigned_list_admits [OF t wf]
      by (cases "c_data_type c") (simp_all add: any_denotes_def value_denotes_def element_denotes_def list_ex_iff)
  qed (use d in \<open>unfold unsigned_list_admits [OF t wf], cases "c_data_type c";
      simp add: any_denotes_def value_denotes_def list_ex_iff\<close>)+
  with wf show ?thesis unfolding r by (intro filters_exactlyI) (simp_all add: nulls_fit_def)
qed


lemma compile_signed_exact:
  assumes c: "compile_signed_in_list X col vs (- (2 ^ (bits - 1))) (2 ^ (bits - 1) - 1) = Inr r"
    and d: "signed_bits_of (c_data_type c) = Some bits"
  shows "filters_exactly X col r (any_denotes X c vs)"
proof -
  from d have b: "bits \<in> {16, 32, 64}" and u: "unsigned_bits_of (c_data_type c) = None"
    by (cases "c_data_type c"; simp)+
  let ?in = "\<lambda>n. - (2 ^ (bits - 1)) \<le> n \<and> n \<le> (2 ^ (bits - 1) - 1 :: int)"
  from c obtain hex numbers where s: "split_binary_in_list X vs = Inr (hex, numbers)"
    and r: "r = in_list_of col (AInt Int64 (map (signed_take_bit 63) (filter ?in numbers)) None)"
    by (auto simp: compile_signed_in_list_def and_then_Inr_iff Let_def)
  have in64: "- (2 ^ 63) \<le> n \<and> n < 2 ^ 63" if "?in n" for n
    using b that by auto
  have "map (signed_take_bit 63) (filter ?in numbers) = map id (filter ?in numbers)"
    by (rule map_cong) (use in64 in \<open>auto simp: signed_take_bit_int_eq_self\<close>)
  then have r': "r = in_list_of col (AInt Int64 (filter ?in numbers) None)" using r by simp
  have wf: "list_all (in_range Int64) (filter ?in numbers)"
    unfolding list_all_iff using in64 by (auto simp: in_range_def)
  have "in_list_admits (AInt Int64 (filter ?in numbers) None) e \<longleftrightarrow> any_denotes X c vs e" for e
  proof (cases e)
    case (CInt t x)
    show ?thesis
      using split_binary_mem(2) [OF s, of "declared_value x (bits_of t) True"] d u
      by (auto simp: CInt in_list_admits_def listed_hold_def any_denotes_def value_denotes_def Let_def list_ex_iff)
  next
    case (CList es)
    with d show ?thesis
      by (cases "c_data_type c")
        (simp_all add: in_list_admits_def any_denotes_def value_denotes_def element_denotes_def list_ex_iff)
  qed (use d in \<open>cases "c_data_type c";
      simp add: in_list_admits_def any_denotes_def value_denotes_def list_ex_iff\<close>)+
  with wf show ?thesis
    unfolding r' by (intro filters_exactlyI) (simp_all add: nulls_fit_def)
qed

lemma fixed_size_builder_Inr:
  assumes "fixed_size_builder vals width = Inr a" and "width < 2 ^ 31"
  shows "a = ABytes (FixedSizeBinary width) vals None \<and> (\<forall>v \<in> set vals. length v = width)"
proof -
  from assms(2) have "sint (word_of_nat width :: u32) = int width"
    by (simp add: signed_of_nat signed_take_bit_int_eq_self)
  with assms(1) show ?thesis
    by (auto simp: fixed_size_builder_def Let_def and_then_Inr_iff split: if_splits)
qed

lemma compile_fixed_exact:
  assumes c: "compile_fixed_in_list X col vs width = Inr r" and w: "width < 2 ^ 31"
    and d: "c_data_type c = TFixedBinary width"
  shows "filters_exactly X col r (any_denotes X c vs)"
proof -
  from c obtain hex numbers a where s: "split_binary_in_list X vs = Inr (hex, numbers)"
    and a: "fixed_size_builder (filter (\<lambda>b. length b = width) hex) width = Inr a" and r: "r = in_list_of col a"
    by (auto simp: compile_fixed_in_list_def and_then_Inr_iff)
  from fixed_size_builder_Inr [OF a w] have a': "a = ABytes (FixedSizeBinary width) (filter (\<lambda>b. length b = width) hex) None"
    by simp
  have "in_list_admits a e \<longleftrightarrow> any_denotes X c vs e" for e
    using split_binary_mem(1) [OF s] d
    by (cases e) (auto simp: a' in_list_admits_def any_denotes_def value_denotes_def element_denotes_def list_ex_iff)
  moreover have "wf_array a" by (simp add: a' list_all_iff nulls_fit_def)
  ultimately show ?thesis
    unfolding r by (intro filters_exactlyI)
qed

lemma strings_of_Inr: "strings_of vs = Inr ss \<longleftrightarrow> map as_str vs = map Some ss"
  by (auto simp: strings_of_def try_collect_Inr_iff list_all2_conv_all_nth list_eq_iff_nth_eq)

lemma as_str_mem: "map as_str vs = map Some ss \<Longrightarrow> s \<in> set ss \<longleftrightarrow> (\<exists>v \<in> set vs. as_str v = Some s)"
  by (metis (no_types, lifting) image_iff image_set option.inject)

lemma folded_mem:
  assumes "map as_str vs = map Some ss"
  shows "u \<in> set (map (\<lambda>s. fold_for_column s c) ss) \<longleftrightarrow>
    (\<exists>v \<in> set vs. map_option (\<lambda>s. fold_for_column s c) (as_str v) = Some u)"
  unfolding set_map image_iff map_option_eq_Some using as_str_mem [OF assms] by metis

lemma compile_text_exact:
  assumes "strings_of vs = Inr ss" and "c_data_type c = TString"
  shows "filters_exactly X col (in_list_of col (AText Utf8 (map (\<lambda>s. fold_for_column s c) ss) None)) (any_denotes X c vs)"
proof (rule filters_exactlyI)
  let ?a = "AText Utf8 (map (\<lambda>s. fold_for_column s c) ss) None"
  note m = folded_mem [OF assms(1) [unfolded strings_of_Inr]]
  show e: "in_list_admits ?a e \<longleftrightarrow> any_denotes X c vs e" for e
  proof (cases e)
    case (CText u)
    with assms(2) m [of u c] show ?thesis
      by (simp add: in_list_admits_def any_denotes_def value_denotes_def list_ex_iff)
  qed (use assms(2) in \<open>simp_all add: in_list_admits_def any_denotes_def value_denotes_def element_denotes_def list_ex_iff\<close>)
qed (simp add: nulls_fit_def)


lemma compile_list_u32_exact:
  assumes n: "try_collect (\<lambda>v. ok_or e0 (as_u64 v)) vs = Inr ns" and d: "c_data_type c = TListUInt32"
    and vals: "vals = map word_of_nat (filter (\<lambda>n. n < 2 ^ 32) ns)"
  shows "filters_exactly X col (if vals = [] then None else Some (col, PListAny (AnyU32 vals))) (any_denotes X c vs)"
proof -
  from n have m: "map as_u64 vs = map Some ns"
    by (auto simp: try_collect_Inr_iff list_all2_conv_all_nth list_eq_iff_nth_eq)
  have num: "number_of v = map_option int (as_u64 v)" if "v \<in> set vs" for v
  proof -
    from m that have "as_u64 v \<in> Some ` set ns" by (metis image_eqI image_set)
    then show ?thesis by (cases v) auto
  qed
  have mem: "n \<in> set ns \<longleftrightarrow> (\<exists>v \<in> set vs. as_u64 v = Some n)" for n
    using m by (metis (no_types, lifting) image_iff image_set option.inject)
  have w: "(word_of_int x :: u32) \<in> set vals \<longleftrightarrow> (\<exists>v \<in> set vs. number_of v = Some x)"
    if "0 \<le> x" "x < 2 ^ 32" for x
  proof -
    have "(word_of_int x :: u32) = word_of_nat n \<longleftrightarrow> x = int n" if "n < 2 ^ 32" for n
      using that \<open>0 \<le> x\<close> \<open>x < 2 ^ 32\<close>
      by (auto simp: word_uint_eq_iff uint_word_of_int unsigned_of_nat take_bit_int_eq_self take_bit_nat_eq_self)
    then have "(word_of_int x :: u32) \<in> set vals \<longleftrightarrow> (\<exists>n \<in> set ns. n < 2 ^ 32 \<and> x = int n)"
      unfolding vals by (auto simp: image_iff)
    also have "\<dots> \<longleftrightarrow> (\<exists>n. int n = x \<and> (\<exists>v \<in> set vs. as_u64 v = Some n))"
      using that by (auto simp: mem [symmetric])
    also have "\<dots> \<longleftrightarrow> (\<exists>v \<in> set vs. number_of v = Some x)"
      using num by fastforce
    finally show ?thesis .
  qed
  have e: "element_admits (AnyU32 vals) e \<longleftrightarrow> (\<exists>v \<in> set vs. element_denotes c v e)" for e
    using w d by (cases e) (auto simp: element_denotes_def)
  have a: "list_any_admits (AnyU32 vals) e \<longleftrightarrow> any_denotes X c vs e" for e
    using d e by (cases e) (auto simp: any_denotes_def value_denotes_def list_ex_iff)
  moreover have "vals = [] \<Longrightarrow> \<not> list_any_admits (AnyU32 vals) e" for e
    by (cases e) (auto simp: list_ex_iff elim: element_admits.elims)
  ultimately show ?thesis by (auto simp: filters_exactly_def)
qed

lemma compile_list_text_exact:
  assumes "strings_of vs = Inr ss" and d: "c_data_type c = TListString"
    and vals: "vals = map (\<lambda>s. fold_for_column s c) ss"
  shows "filters_exactly X col (if vals = [] then None else Some (col, PListAny (AnyText vals))) (any_denotes X c vs)"
proof -
  note m = folded_mem [OF assms(1) [unfolded strings_of_Inr], of _ c, folded vals]
  have e: "element_admits (AnyText vals) e \<longleftrightarrow> (\<exists>v \<in> set vs. element_denotes c v e)" for e
    using m d by (cases e) (auto simp: element_denotes_def)
  have a: "list_any_admits (AnyText vals) e \<longleftrightarrow> any_denotes X c vs e" for e
    using d e by (cases e) (auto simp: any_denotes_def value_denotes_def list_ex_iff)
  moreover have "vals = [] \<Longrightarrow> \<not> list_any_admits (AnyText vals) e" for e
    by (cases e) (auto simp: list_ex_iff elim: element_admits.elims)
  ultimately show ?thesis by (auto simp: filters_exactly_def)
qed

definition fixed_size_ok :: "column_description \<Rightarrow> bool" where
  "fixed_size_ok c = (case c_data_type c of TFixedBinary n \<Rightarrow> n < 2 ^ 31 | _ \<Rightarrow> True)"

lemma compile_in_list_exact:
  assumes c: "compile_in_list X col vs c = Inr r" and w: "fixed_size_ok c"
  shows "filters_exactly X col r (any_denotes X c vs)"
proof (cases "c_data_type c")
  case (TFixedBinary width)
  with c w show ?thesis
    by (auto simp: compile_in_list_def fixed_size_ok_def intro: compile_fixed_exact)
next
  case TListUInt32
  with c obtain ns where "try_collect (\<lambda>v. ok_or (EngineError InvalidFilterValue) (as_u64 v)) vs = Inr ns"
    and r: "r = (let vals = map word_of_nat (filter (\<lambda>n. n < 2 ^ 32) ns) in
       if vals = [] then None else Some (col, PListAny (AnyU32 vals)))"
    by (auto simp: compile_in_list_def and_then_Inr_iff Let_def)
  from compile_list_u32_exact [OF this(1) TListUInt32 refl] show ?thesis by (simp only: r Let_def)
next
  case TListString
  with c obtain ss where "strings_of vs = Inr ss"
    and r: "r = (let vals = map (\<lambda>s. fold_for_column s c) ss in
       if vals = [] then None else Some (col, PListAny (AnyText vals)))"
    by (auto simp: compile_in_list_def and_then_Inr_iff Let_def)
  from compile_list_text_exact [OF this(1) TListString refl] show ?thesis by (simp only: r Let_def)
next
  case TString
  with c show ?thesis
    by (auto simp: compile_in_list_def and_then_Inr_iff intro: compile_text_exact)
next
  case TInt16
  with c compile_signed_exact [of X col vs 16 r c] show ?thesis by (simp add: compile_in_list_def)
next
  case TInt32
  with c compile_signed_exact [of X col vs 32 r c] show ?thesis by (simp add: compile_in_list_def)
next
  case TInt64
  with c compile_signed_exact [of X col vs 64 r c] show ?thesis by (simp add: compile_in_list_def)
qed (use c in \<open>auto simp: compile_in_list_def intro: compile_unsigned_exact\<close>)


text \<open>Discriminators: which rows the groups of a list of prefixes admit.\<close>

definition prefix_denotes :: "u8 list \<Rightarrow> cell \<Rightarrow> bool" where
  "prefix_denotes bs e =
     (case e of
        CInt t x \<Rightarrow> length bs \<in> {1, 2, 4, 8} \<and> declared_value x (bits_of t) False = int (be_number bs)
      | CBytes t b \<Rightarrow> length bs \<notin> {1, 2, 4, 8} \<and> b = bs
      | _ \<Rightarrow> False)"

definition prefix_passes ::
    "externals \<Rightarrow> (string, string) omap \<Rightarrow> (string \<Rightarrow> cell) \<Rightarrow> json \<Rightarrow> bool" where
  "prefix_passes X columns row v =
     (case literal_bytes X v of
        None \<Rightarrow> False
      | Some bs \<Rightarrow> bs = [] \<or>
          (case map_of columns (show_nat (length bs)) of
             None \<Rightarrow> False
           | Some col \<Rightarrow> prefix_denotes bs (row col)))"

lemma prefix_passes_iff:
  "prefix_passes X columns row v \<longleftrightarrow> (\<exists>bs. literal_bytes X v = Some bs \<and>
     (bs = [] \<or> (\<exists>col. map_of columns (show_nat (length bs)) = Some col \<and> prefix_denotes bs (row col))))"
  by (auto simp: prefix_passes_def split: option.splits)

lemma parse_discriminator_value_Inr:
  "parse_discriminator_value X v = Inr bs \<Longrightarrow> literal_bytes X v = Some bs \<and> length bs \<le> 16"
  by (auto simp: parse_discriminator_value_def literal_bytes_def and_then_Inr_iff max_discriminator_bytes_def)

text \<open>The values collected under each length, and that no length is there without one.\<close>

definition prefixes_at :: "(nat, u8 list list) omap \<Rightarrow> nat \<Rightarrow> u8 list set" where
  "prefixes_at m n = set (unwrap_or [] (map_of m n))"

definition lengths_ok :: "(nat, u8 list list) omap \<Rightarrow> bool" where
  "lengths_ok m = (omap_ok m \<and>
     list_all (\<lambda>(n, vals). vals \<noteq> [] \<and> 0 < n \<and> n \<le> 16 \<and> list_all (\<lambda>b. length b = n) vals) m)"

lemma lengths_at: "lengths_ok m \<Longrightarrow> b \<in> prefixes_at m n \<Longrightarrow> length b = n"
  by (cases "map_of m n") (auto simp: lengths_ok_def prefixes_at_def unwrap_or_def list_all_iff dest!: map_of_SomeD)

lemma add_prefix_Inr:
  assumes "add_prefix X v (m, b) = Inr (m', b')" and "lengths_ok m"
  obtains bs where "literal_bytes X v = Some bs" and "lengths_ok m'" and "b' \<longleftrightarrow> b \<or> bs = []"
    and "\<And>n. prefixes_at m' n = prefixes_at m n \<union> (if bs \<noteq> [] \<and> length bs = n then {bs} else {})"
proof -
  from assms(1) obtain bs where p: "parse_discriminator_value X v = Inr bs"
    and r: "(m', b') = (if bs = [] then (m, True)
       else (omap_update (length bs) (\<lambda>old. unwrap_or [] old @ [bs]) m, b))"
    by (auto simp: add_prefix_def and_then_Inr_iff)
  note l = parse_discriminator_value_Inr [OF p]
  show ?thesis
  proof (rule that)
    show "literal_bytes X v = Some bs" using l by simp
    show "b' \<longleftrightarrow> b \<or> bs = []" using r by (auto split: if_splits)
    show "prefixes_at m' n = prefixes_at m n \<union> (if bs \<noteq> [] \<and> length bs = n then {bs} else {})" for n
      using r by (auto simp: prefixes_at_def map_of_omap_update unwrap_or_def split: if_splits option.splits)
    show "lengths_ok m'"
      using r assms(2) l lengths_at [OF assms(2)]
      by (auto simp: lengths_ok_def list_all_iff prefixes_at_def split: if_splits dest!: set_omap_update)
  qed
qed

lemma add_prefixes_Inr:
  assumes "try_fold (add_prefix X) vs (m, b) = Inr (m', b')" and "lengths_ok m"
  shows "lengths_ok m' \<and> (b' \<longleftrightarrow> b \<or> (\<exists>v \<in> set vs. literal_bytes X v = Some [])) \<and>
    (\<forall>n bs. bs \<in> prefixes_at m' n \<longleftrightarrow> bs \<in> prefixes_at m n \<or>
       (bs \<noteq> [] \<and> length bs = n \<and> (\<exists>v \<in> set vs. literal_bytes X v = Some bs)))"
  using assms
proof (induction vs arbitrary: m b)
  case Nil
  then show ?case by simp
next
  case (Cons v vs)
  from Cons.prems(1) obtain m1 b1 where s: "add_prefix X v (m, b) = Inr (m1, b1)"
      "try_fold (add_prefix X) vs (m1, b1) = Inr (m', b')"
    by (auto simp: and_then_Inr_iff)
  from s(1) Cons.prems(2) obtain bs where a: "literal_bytes X v = Some bs" "lengths_ok m1" "b1 \<longleftrightarrow> b \<or> bs = []"
    "\<And>n. prefixes_at m1 n = prefixes_at m n \<union> (if bs \<noteq> [] \<and> length bs = n then {bs} else {})"
    by (rule add_prefix_Inr) blast
  from Cons.IH [OF s(2) a(2)] a(1,3,4) show ?case by auto
qed

lemma discriminator_array_admits:
  assumes a: "discriminator_array n vals = Inr a" and n: "n \<le> 16"
    and l: "list_all (\<lambda>b. length b = n) vals"
  shows "wf_array a \<and> (in_list_admits a e \<longleftrightarrow> (\<exists>bs \<in> set vals. prefix_denotes bs e))"
proof -
  have wide: "wf_array (AInt t (map (\<lambda>b. int (be_number b)) vals) None) \<and>
      (in_list_admits (AInt t (map (\<lambda>b. int (be_number b)) vals) None) e \<longleftrightarrow> (\<exists>bs \<in> set vals. prefix_denotes bs e))"
    if t: "\<not> signed_of t" "bits_of t = 8 * n" and n: "n \<in> {1, 2, 4, 8}" for t
  proof -
    have "int (be_number b) < 2 ^ bits_of t" if "b \<in> set vals" for b
    proof -
      have "be_number b < 256 ^ n" using be_number_less [of b] l that by (simp add: list_all_iff)
      also have "(256 :: nat) ^ n = 2 ^ bits_of t" using n t(2) by auto
      finally show ?thesis by (metis of_nat_less_iff of_nat_numeral of_nat_power)
    qed
    then have r: "list_all (in_range t) (map (\<lambda>b. int (be_number b)) vals)"
      using t(1) by (auto simp: list_all_iff in_range_def)
    with l n show ?thesis
      unfolding unsigned_list_admits [OF t(1) r]
      by (cases e) (auto simp: prefix_denotes_def list_all_iff nulls_fit_def image_iff)
  qed
  show ?thesis
  proof (cases "n \<in> {1, 2, 4, 8}")
    case True
    with a wide [of UInt8] wide [of UInt16] wide [of UInt32] wide [of UInt64] show ?thesis
      by (auto simp: discriminator_array_def Let_def)
  next
    case False
    with a have "fixed_size_builder vals n = Inr a" by (auto simp: discriminator_array_def Let_def)
    from fixed_size_builder_Inr [OF this] n have a': "a = ABytes (FixedSizeBinary n) vals None" by simp
    with False l show ?thesis
      by (cases e) (auto simp: in_list_admits_def prefix_denotes_def list_all_iff nulls_fit_def)
  qed
qed

lemma discriminator_group_admits:
  assumes "discriminator_group columns (n, vals) = Inr g" and "n \<le> 16" "list_all (\<lambda>b. length b = n) vals"
  obtains col a where "map_of columns (show_nat n) = Some col" and "g = [(col, PInList a)]" and "wf_array a"
    and "\<And>e. in_list_admits a e \<longleftrightarrow> (\<exists>bs \<in> set vals. prefix_denotes bs e)"
  using assms discriminator_array_admits [OF _ assms(2,3)]
  by (auto simp: discriminator_group_def and_then_Inr_iff)

lemma compile_discriminator_admits:
  assumes "compile_discriminator X v columns = Inr r"
  obtains vs where "as_array v = Some vs"
    and "r = None \<longleftrightarrow> (\<exists>w \<in> set vs. literal_bytes X w = Some [])"
    and "\<And>groups. r = Some groups \<Longrightarrow>
      (vs \<noteq> [] \<longrightarrow> groups \<noteq> []) \<and>
      list_all (list_all (\<lambda>(k, p). predicate_ok p)) groups \<and>
      (\<forall>row. list_ex (all_admit X (\<lambda>k. Some (row k))) groups \<longleftrightarrow> list_ex (prefix_passes X columns row) vs)"
proof -
  from assms obtain vs m b groups where a: "as_array v = Some vs"
    and f: "try_fold (add_prefix X) vs ([], False) = Inr (m, b)"
    and g: "try_collect (discriminator_group columns) (sort_key fst m) = Inr groups"
    and r: "r = (if b then None else Some groups)"
    by (auto simp: compile_discriminator_def and_then_Inr_iff)
  have "lengths_ok []" by (simp add: lengths_ok_def)
  note add_prefixes_Inr [OF f this]
  then have m: "lengths_ok m" and b: "b \<longleftrightarrow> (\<exists>w \<in> set vs. literal_bytes X w = Some [])"
    and p: "bs \<in> prefixes_at m n \<longleftrightarrow> bs \<noteq> [] \<and> length bs = n \<and> (\<exists>w \<in> set vs. literal_bytes X w = Some bs)" for n bs
    by (auto simp: prefixes_at_def unwrap_or_def)
  have entry: "n \<le> 16 \<and> list_all (\<lambda>b. length b = n) vals \<and> vals \<noteq> [] \<and> set vals = prefixes_at m n"
    if "(n, vals) \<in> set m" for n vals
    using m that omap_ok_map_of [of m n vals]
    by (auto simp: lengths_ok_def list_all_iff prefixes_at_def unwrap_or_def)
  have l2: "list_all2 (\<lambda>e g. discriminator_group columns e = Inr g) (sort_key fst m) groups"
    using g by (simp add: try_collect_Inr_iff)
  show ?thesis
  proof (rule that [OF a])
    show "r = None \<longleftrightarrow> (\<exists>w \<in> set vs. literal_bytes X w = Some [])" using r b by simp
    fix gs
    assume "r = Some gs"
    with r have gs: "gs = groups" and nb: "\<not> b" by (auto split: if_splits)
    have ok: "list_all (\<lambda>(k, p). predicate_ok p) g" if "g \<in> set groups" for g
    proof -
      from l2 that obtain n vals where e: "(n, vals) \<in> set m" "discriminator_group columns (n, vals) = Inr g"
        by (auto dest: list_all2_right)
      from e(2) entry [OF e(1)] show ?thesis
        by (auto elim!: discriminator_group_admits)
    qed
    have "groups \<noteq> []" if "vs \<noteq> []"
    proof -
      from that obtain w ws where vs: "vs = w # ws" by (cases vs) auto
      with f obtain s where "add_prefix X w ([], False) = Inr s" by (auto simp: and_then_Inr_iff)
      then obtain bs where "literal_bytes X w = Some bs"
        by (auto simp: add_prefix_def and_then_Inr_iff dest: parse_discriminator_value_Inr)
      with nb b vs p [of bs "length bs"] have "prefixes_at m (length bs) \<noteq> {}" by auto
      then have "m \<noteq> []" by (auto simp: prefixes_at_def unwrap_or_def)
      then have "sort_key fst m \<noteq> []" by (metis length_0_conv length_sort)
      with l2 show ?thesis by (cases groups) auto
    qed
    moreover have "list_ex (all_admit X (\<lambda>k. Some (row k))) groups \<longleftrightarrow> list_ex (prefix_passes X columns row) vs" for row
    proof
      assume "list_ex (all_admit X (\<lambda>k. Some (row k))) groups"
      then obtain g where "g \<in> set groups" and ad: "all_admit X (\<lambda>k. Some (row k)) g" by (auto simp: list_ex_iff)
      with l2 obtain n vals where e: "(n, vals) \<in> set m" "discriminator_group columns (n, vals) = Inr g"
        by (auto dest: list_all2_right)
      from e(2) entry [OF e(1)] obtain col a where col: "map_of columns (show_nat n) = Some col" "g = [(col, PInList a)]"
        and adm: "in_list_admits a (row col) \<longleftrightarrow> (\<exists>bs \<in> set vals. prefix_denotes bs (row col))"
        by (auto elim!: discriminator_group_admits)
      from ad col adm obtain bs where bs: "bs \<in> set vals" "prefix_denotes bs (row col)"
        by (auto simp: all_admit_def)
      with entry [OF e(1)] p have "length bs = n" "\<exists>w \<in> set vs. literal_bytes X w = Some bs" by auto
      with col bs show "list_ex (prefix_passes X columns row) vs"
        by (auto simp: list_ex_iff prefix_passes_def intro!: bexI)
    next
      assume "list_ex (prefix_passes X columns row) vs"
      then obtain w bs col where w: "w \<in> set vs" "literal_bytes X w = Some bs"
        and c: "bs = [] \<or> (map_of columns (show_nat (length bs)) = Some col \<and> prefix_denotes bs (row col))"
        unfolding list_ex_iff prefix_passes_iff by blast
      with nb b have ne: "bs \<noteq> []" by auto
      with w p [of bs "length bs"] have at: "bs \<in> prefixes_at m (length bs)" by auto
      then obtain vals where vals: "(length bs, vals) \<in> set m" "bs \<in> set vals"
        by (cases "map_of m (length bs)") (auto simp: prefixes_at_def unwrap_or_def dest: map_of_SomeD)
      with l2 obtain g where g: "g \<in> set groups" "discriminator_group columns (length bs, vals) = Inr g"
        by (auto dest: list_all2_left)
      from g(2) entry [OF vals(1)] obtain col' a where "map_of columns (show_nat (length bs)) = Some col'"
        "g = [(col', PInList a)]" "in_list_admits a (row col') \<longleftrightarrow> (\<exists>bs \<in> set vals. prefix_denotes bs (row col'))"
        by (auto elim!: discriminator_group_admits)
      with c ne vals(2) have "all_admit X (\<lambda>k. Some (row k)) g" by (auto simp: all_admit_def)
      with g(1) show "list_ex (all_admit X (\<lambda>k. Some (row k))) groups" by (auto simp: list_ex_iff)
    qed
    ultimately show "(vs \<noteq> [] \<longrightarrow> gs \<noteq> []) \<and> list_all (list_all (\<lambda>(k, p). predicate_ok p)) gs \<and>
      (\<forall>row. list_ex (all_admit X (\<lambda>k. Some (row k))) gs \<longleftrightarrow> list_ex (prefix_passes X columns row) vs)"
      using gs ok by (auto simp: list_all_iff)
  qed
qed


section \<open>Properties\<close>

text \<open>
  A list filter compiles to exactly what its values denote on the column's declared type: a cell
  passes when some value of the list is that cell (text after case folding, a number as itself, a
  hexadecimal literal only at the column's own width), and a list whose values the column cannot hold
  compiles to no filter at all and matches nothing; no value is ever truncated into another.
\<close>

theorem compile_in_list_means:
  assumes "compile_in_list X col vs c = Inr r" and "fixed_size_ok c"
  shows "(case r of None \<Rightarrow> False | Some (k, p) \<Rightarrow> k = col \<and> admits X p e) \<longleftrightarrow>
    list_ex (\<lambda>v. value_denotes X c v e) vs"
  using compile_in_list_exact [OF assms]
  by (auto simp: filters_exactly_def any_denotes_def split: option.splits)

theorem compile_in_list_means_witness:
  "list_ex (\<lambda>v. value_denotes plain_externals (plain_column TUInt16) v (CInt Int64 513))
     [JPosInt 66049, JString ''0x0201'']"
proof -
  have "parse_hex plain_externals ''0x0201'' = Some [2, 1]" by code_simp
  then have "compile_in_list plain_externals ''kind'' [JPosInt 66049, JString ''0x0201''] (plain_column TUInt16) =
      Inr (Some (''kind'', PInList (AInt UInt16 [513] None)))"
    by (simp add: compile_in_list_def plain_column_def compile_unsigned_in_list_def split_binary_in_list_def
        add_split_value_def be_number_def in_list_of_def)
  from compile_in_list_means [OF this, of "CInt Int64 513"] show ?thesis
    by (simp add: fixed_size_ok_def plain_column_def in_list_admits_def listed_hold_def declared_unsigned)
qed

end
