(* ===== verification/Item_Filter.thy ===== *)
theory Item_Filter
  imports List_Filter
begin

text \<open>
  One item request's filters as one row predicate, \<^verbatim>\<open>compile_item_predicates\<close> of \<^verbatim>\<open>src/query/plan.rs\<close>: the
  limits checked first, references to the request's sets with their canaries, special filters by kind
  and plain columns. The lemmas show that the predicate admits exactly the rows that pass every filter
  of the item, and that an item found unsatisfiable admits none.
\<close>

definition max_bloom_values :: nat where
  "max_bloom_values = 10"

definition max_discriminator_filters :: nat where
  "max_discriminator_filters = 1"

datatype compiled_item = Unsatisfiable | Compiled row_predicate

record references =
  rf_named :: "string list"
  rf_count :: nat

definition no_references :: references where
  "no_references = \<lparr>rf_named = [], rf_count = 0\<rparr>"

text \<open>\<open>names\<close> is a set kept in insertion order, so its length is the count of one list.\<close>

definition add_references :: "string list \<Rightarrow> references \<Rightarrow> engine_error + references" where
  "add_references names r =
     (let n = rf_count r + length names in
      and_then (ensure (n \<le> max_set_references) (EngineError RequestTooLarge)) (\<lambda>_.
      Inr \<lparr>rf_named = fold push_new names (rf_named r), rf_count = n\<rparr>))"

record set_scope =
  sc_sets :: sets
  sc_selected :: "string list"


section \<open>Limits of an item\<close>

definition discriminator_family :: "table_description \<Rightarrow> string list" where
  "discriminator_family t =
     concat (map (\<lambda>(name, special). case special of
         SDiscriminator by_length \<Rightarrow> name # map snd by_length
       | _ \<Rightarrow> []) (q_special_filters (request t)))"

definition check_item_limits :: "query_item \<Rightarrow> table_description \<Rightarrow> engine_error + unit" where
  "check_item_limits i t =
     (let family = discriminator_family t;
          discriminators = length (filter (\<lambda>(key, _). key \<in> set family) (i_filters i))
      in and_then (ensure (discriminators \<le> max_discriminator_filters) (EngineError ConflictingFilters)) (\<lambda>_.
         try_for_each (\<lambda>(key, v). case map_of (q_special_filters (request t)) key of
             Some (SBloom _ _ _) \<Rightarrow>
               ensure ((case as_array v of None \<Rightarrow> 0 | Some vs \<Rightarrow> length vs) \<le> max_bloom_values)
                 (EngineError TooManyBloomValues)
           | _ \<Rightarrow> Inr ()) (i_filters i)))"


section \<open>References to sets\<close>

definition add_set_name :: "json \<Rightarrow> string list \<Rightarrow> engine_error + string list" where
  "add_set_name element names =
     (case as_object element of
        None \<Rightarrow> Inr names
      | Some obj \<Rightarrow>
          (case (length obj = 1, Option.bind (map_of obj ''set'') as_str) of
             (True, Some name) \<Rightarrow> Inr (push_new name names)
           | _ \<Rightarrow> Inl (EngineError InvalidFilterValue)))"

definition set_references :: "json \<Rightarrow> engine_error + string list" where
  "set_references v = try_fold add_set_name (list_of v) []"

definition check_canary ::
    "externals \<Rightarrow> string \<Rightarrow> set_filter \<Rightarrow> column_description \<Rightarrow> engine_error + unit" where
  "check_canary X canary s c =
     (let v = fold_for_column canary c;
          renderable = (case c_encoding c of
              Some HexBytes \<Rightarrow> is_hex_literal v
            | Some Base58 \<Rightarrow> v \<noteq> [] \<and> list_all (\<lambda>b. b \<in> set base58_alphabet) v
            | _ \<Rightarrow> True)
      in and_then (ensure renderable (EngineError SetCanaryMismatch)) (\<lambda>_.
         and_then (ok_or Panic (fuse_contains X (s_fuse8 s) (as_bytes v))) (\<lambda>present.
         ensure present (EngineError SetCanaryMismatch))))"

definition renders_text :: "column_description \<Rightarrow> bool" where
  "renders_text c =
     (case (c_encoding c, c_data_type c) of
        (None, TString) \<Rightarrow> True
      | (Some e, TString) \<Rightarrow> e \<in> {HexBytes, Base58}
      | (Some e, TFixedBinary _) \<Rightarrow> e \<in> {HexBytes, Base58}
      | _ \<Rightarrow> False)"

definition set_filter_column :: "string \<Rightarrow> table_description \<Rightarrow> engine_error + string" where
  "set_filter_column key t =
     (case map_of (q_special_filters (request t)) key of
        None \<Rightarrow> Inr key
      | Some (SColumnAlias col) \<Rightarrow> Inr col
      | Some _ \<Rightarrow> Inl (EngineError InvalidFilterValue))"

definition compile_set_filter ::
    "externals \<Rightarrow> string \<Rightarrow> json \<Rightarrow> string list \<Rightarrow> table_description \<Rightarrow> set_scope
     \<Rightarrow> engine_error + column_predicate" where
  "compile_set_filter X key v names t scope =
     and_then (set_filter_column key t) (\<lambda>col.
     and_then (ok_or (EngineError UnknownFilter) (column t col)) (\<lambda>c.
     and_then (ensure (renders_text c) (EngineError InvalidFilterValue)) (\<lambda>_.
     let vals = filter (\<lambda>element. as_object element = None) (list_of v) in
     and_then (if vals = [] then Inr None else compile_in_list X col vals c) (\<lambda>listed.
     and_then (try_collect (\<lambda>name. ok_or (EngineError UnknownSet) (map_of (sc_sets scope) name)) names) (\<lambda>fs.
     and_then (ensure (list_ex (\<lambda>field. col \<in> set (field_columns t field)) (sc_selected scope))
       (EngineError SetFieldNotSelected)) (\<lambda>_.
     and_then (try_for_each (\<lambda>s. try_for_each (\<lambda>canary. check_canary X canary s c) (s_canaries s)) fs) (\<lambda>_.
     let in_sets = PInSet fs (c_encoding c) in
     Inr (col, case listed of Some (_, p) \<Rightarrow> PAnyOf [p, in_sets] | None \<Rightarrow> in_sets))))))))"


section \<open>One filter\<close>

text \<open>
  What one entry of the item adds: nothing, a column's filter, the groups of a discriminator (which
  replace the ones before), or the verdict that no row passes.
\<close>

datatype filter_effect =
    NoEffect
  | ColumnEffect column_predicate
  | GroupsEffect "column_predicate list list option"
  | NoRowPasses

definition compile_column_filter ::
    "externals \<Rightarrow> string \<Rightarrow> json \<Rightarrow> column_description \<Rightarrow> engine_error + filter_effect" where
  "compile_column_filter X col v c =
     (case (as_bool v, c_data_type c) of
        (Some b, TBoolean) \<Rightarrow> Inr (ColumnEffect (col, PEq (SvBoolean b)))
      | _ \<Rightarrow>
          if is_filter_scalar v \<or> as_array v \<noteq> None then
            and_then (compile_in_list X col (list_of v) c) (\<lambda>r.
            Inr (case r of Some p \<Rightarrow> ColumnEffect p | None \<Rightarrow> NoRowPasses))
          else Inl (EngineError InvalidFilterValue))"

definition takes_value_list :: "table_description \<Rightarrow> string \<Rightarrow> bool" where
  "takes_value_list t key =
     (case map_of (q_special_filters (request t)) key of
        Some (SRangeGte _) \<Rightarrow> False
      | Some (SRangeLte _) \<Rightarrow> False
      | Some (SGteConst _ _) \<Rightarrow> False
      | _ \<Rightarrow> True)"

definition range_effect :: "column_predicate option \<Rightarrow> filter_effect" where
  "range_effect r = (case r of Some p \<Rightarrow> ColumnEffect p | None \<Rightarrow> NoEffect)"

definition compile_special ::
    "externals \<Rightarrow> table_description \<Rightarrow> special_filter \<Rightarrow> json \<Rightarrow> engine_error + filter_effect" where
  "compile_special X t special v =
     (case special of
        SDiscriminator by_length \<Rightarrow>
          and_then (compile_discriminator X v by_length) (\<lambda>groups. Inr (GroupsEffect groups))
      | SBloom col bytes hashes \<Rightarrow>
          and_then (compile_bloom_filter v col bytes hashes) (\<lambda>p. Inr (ColumnEffect p))
      | SRangeGte col \<Rightarrow> and_then (compile_range_gte v col t) (\<lambda>r. Inr (range_effect r))
      | SRangeLte col \<Rightarrow> and_then (compile_range_lte v col t) (\<lambda>r. Inr (range_effect r))
      | SColumnAlias col \<Rightarrow>
          and_then (ok_or (EngineError UnknownFilter) (column t col)) (\<lambda>c.
          compile_column_filter X col v c)
      | SGteConst col konst \<Rightarrow>
          and_then (ok_or (EngineError InvalidFilterValue) (as_bool v)) (\<lambda>enabled.
          if enabled then
            and_then (ok_or (EngineError UnknownFilter) (column t col)) (\<lambda>_.
            Inr (ColumnEffect (col, PGte (SvUtf8 konst))))
          else Inr NoEffect))"

definition compile_filter ::
    "externals \<Rightarrow> table_description \<Rightarrow> set_scope \<Rightarrow> string \<times> json \<Rightarrow> references
     \<Rightarrow> engine_error + filter_effect \<times> references" where
  "compile_filter X t scope = (\<lambda>(key, v) referred.
     and_then (set_references v) (\<lambda>names.
     if names \<noteq> [] then
       and_then (add_references names referred) (\<lambda>referred'.
       and_then (compile_set_filter X key v names t scope) (\<lambda>p. Inr (ColumnEffect p, referred')))
     else if takes_value_list t key \<and> as_array v = Some [] then Inr (NoRowPasses, referred)
     else
       (case map_of (q_special_filters (request t)) key of
          Some special \<Rightarrow> and_then (compile_special X t special v) (\<lambda>e. Inr (e, referred))
        | None \<Rightarrow>
            and_then (ok_or (EngineError UnknownFilter) (column t key)) (\<lambda>c.
            and_then (compile_column_filter X key v c) (\<lambda>e. Inr (e, referred))))))"


section \<open>The item\<close>

record item_state =
  is_columns :: "column_predicate list"
  is_groups :: "column_predicate list list option"
  is_unsatisfiable :: bool
  is_referred :: references

definition apply_effect :: "filter_effect \<Rightarrow> item_state \<Rightarrow> item_state" where
  "apply_effect e s =
     (case e of
        NoEffect \<Rightarrow> s
      | ColumnEffect p \<Rightarrow> s\<lparr>is_columns := is_columns s @ [p]\<rparr>
      | GroupsEffect g \<Rightarrow> s\<lparr>is_groups := g\<rparr>
      | NoRowPasses \<Rightarrow> s\<lparr>is_unsatisfiable := True\<rparr>)"

definition item_step ::
    "externals \<Rightarrow> table_description \<Rightarrow> set_scope \<Rightarrow> string \<times> json \<Rightarrow> item_state \<Rightarrow> engine_error + item_state" where
  "item_step X t scope f s =
     and_then (compile_filter X t scope f (is_referred s)) (\<lambda>(e, referred).
     Inr (apply_effect e (s\<lparr>is_referred := referred\<rparr>)))"

definition finish_item :: "item_state \<Rightarrow> compiled_item" where
  "finish_item s =
     (if is_unsatisfiable s then Unsatisfiable
      else Compiled (case is_groups s of
          Some groups \<Rightarrow>
            if length groups > 1 then with_alternatives (is_columns s) groups
            else row_predicate_new (is_columns s @ concat groups)
        | None \<Rightarrow> row_predicate_new (is_columns s)))"

definition compile_item_predicates ::
    "externals \<Rightarrow> query_item \<Rightarrow> table_description \<Rightarrow> set_scope \<Rightarrow> references
     \<Rightarrow> engine_error + compiled_item \<times> references" where
  "compile_item_predicates X i t scope referred =
     and_then (check_item_limits i t) (\<lambda>_.
     and_then (try_fold (item_step X t scope) (i_filters i)
       \<lparr>is_columns = [], is_groups = None, is_unsatisfiable = False, is_referred = referred\<rparr>) (\<lambda>s.
     Inr (finish_item s, is_referred s)))"



section \<open>What an item asks of a row\<close>

text \<open>
  The reading of an item request, from the request's values alone: the sets an element names, a column
  filter (a boolean on a boolean column, any other value as a list), and the special filters by kind.
\<close>

definition set_name_of :: "json \<Rightarrow> string option" where
  "set_name_of v = (case v of JObject [(k, JString n)] \<Rightarrow> if k = ''set'' then Some n else None | _ \<Rightarrow> None)"

definition set_names :: "json \<Rightarrow> string list" where
  "set_names v = List.map_filter set_name_of (list_of v)"

definition column_passes :: "externals \<Rightarrow> column_description \<Rightarrow> json \<Rightarrow> cell \<Rightarrow> bool" where
  "column_passes X c v e =
     (case (as_bool v, c_data_type c) of
        (Some b, TBoolean) \<Rightarrow> (case e of CBool d \<Rightarrow> d = b | CInt t x \<Rightarrow> x = of_bool b | _ \<Rightarrow> False)
      | _ \<Rightarrow> any_denotes X c (list_of v) e)"

definition special_passes ::
    "externals \<Rightarrow> table_description \<Rightarrow> special_filter \<Rightarrow> json \<Rightarrow> (string \<Rightarrow> cell) \<Rightarrow> bool" where
  "special_passes X t special v row =
     (case special of
        SDiscriminator by_length \<Rightarrow> list_ex (prefix_passes X by_length row) (list_of v)
      | SBloom col bytes hashes \<Rightarrow>
          (case row col of
             CBytes ty b \<Rightarrow> bloom_may_hold X (List.map_filter (\<lambda>w. map_option as_bytes (as_str w)) (list_of v)) hashes b
           | _ \<Rightarrow> False)
      | SRangeGte col \<Rightarrow>
          (case (row col, as_u64 v) of
             (CInt ty x, Some n) \<Rightarrow> int n \<le> declared_value x (bits_of ty) False
           | _ \<Rightarrow> False)
      | SRangeLte col \<Rightarrow>
          (case (row col, as_u64 v) of
             (CInt ty x, Some n) \<Rightarrow> declared_value x (bits_of ty) False \<le> int n
           | _ \<Rightarrow> False)
      | SColumnAlias col \<Rightarrow>
          (case column t col of None \<Rightarrow> False | Some c \<Rightarrow> column_passes X c v (row col))
      | SGteConst col konst \<Rightarrow>
          (as_bool v = Some True \<longrightarrow> (case row col of CText s \<Rightarrow> konst \<le> s | _ \<Rightarrow> False)))"

definition set_passes ::
    "externals \<Rightarrow> string \<Rightarrow> json \<Rightarrow> table_description \<Rightarrow> sets \<Rightarrow> (string \<Rightarrow> cell) \<Rightarrow> bool" where
  "set_passes X key v t ss row =
     (let col = (case map_of (q_special_filters (request t)) key of Some (SColumnAlias c) \<Rightarrow> c | _ \<Rightarrow> key) in
      case column t col of
        None \<Rightarrow> False
      | Some c \<Rightarrow>
          any_denotes X c (filter (\<lambda>w. as_object w = None) (list_of v)) (row col) \<or>
          in_set_admits X (List.map_filter (map_of ss) (set_names v)) (c_encoding c) (row col))"

definition filter_passes ::
    "externals \<Rightarrow> table_description \<Rightarrow> sets \<Rightarrow> (string \<Rightarrow> cell) \<Rightarrow> string \<times> json \<Rightarrow> bool" where
  "filter_passes X t ss row = (\<lambda>(key, v).
     if set_names v \<noteq> [] then set_passes X key v t ss row
     else
       (case map_of (q_special_filters (request t)) key of
          Some special \<Rightarrow> special_passes X t special v row
        | None \<Rightarrow> (case column t key of None \<Rightarrow> False | Some c \<Rightarrow> column_passes X c v (row key))))"

definition sizes_ok :: "table_description \<Rightarrow> bool" where
  "sizes_ok t = list_all (\<lambda>(k, c). fixed_size_ok c) (t_columns t)"


section \<open>Facts\<close>

definition present :: "(string \<Rightarrow> cell) \<Rightarrow> string \<Rightarrow> cell option" where
  "present row k = Some (row k)"

lemma all_admit_present [simp]:
  "all_admit X (present row) [] = True"
  "all_admit X (present row) ((k, p) # ps) \<longleftrightarrow> admits X p (row k) \<and> all_admit X (present row) ps"
  by (simp_all add: all_admit_def present_def)

lemma all_admit_append [simp]:
  "all_admit X row (ps @ qs) \<longleftrightarrow> all_admit X row ps \<and> all_admit X row qs"
  by (simp add: all_admit_def)

text \<open>The effect of a filter, and of a state, on a row.\<close>

definition effect_admits :: "externals \<Rightarrow> (string \<Rightarrow> cell) \<Rightarrow> filter_effect \<Rightarrow> bool" where
  "effect_admits X row e =
     (case e of
        NoEffect \<Rightarrow> True
      | ColumnEffect (k, p) \<Rightarrow> admits X p (row k)
      | GroupsEffect None \<Rightarrow> True
      | GroupsEffect (Some gs) \<Rightarrow> list_ex (all_admit X (present row)) gs
      | NoRowPasses \<Rightarrow> False)"

fun effect_ok :: "filter_effect \<Rightarrow> bool" where
  "effect_ok (ColumnEffect (k, p)) = predicate_ok p"
| "effect_ok (GroupsEffect (Some gs)) = (gs \<noteq> [] \<and> list_all (list_all (\<lambda>(k, p). predicate_ok p)) gs)"
| "effect_ok _ = True"

lemma effect_admits_simps [simp]:
  "effect_admits X row NoEffect = True"
  "effect_admits X row (ColumnEffect p) = admits X (snd p) (row (fst p))"
  "effect_admits X row (GroupsEffect None) = True"
  "effect_admits X row (GroupsEffect (Some gs)) = list_ex (all_admit X (present row)) gs"
  "effect_admits X row NoRowPasses = False"
  by (simp_all add: effect_admits_def split: prod.splits)

lemma sizes_ok_column: "sizes_ok t \<Longrightarrow> column t k = Some c \<Longrightarrow> fixed_size_ok c"
  by (auto simp: sizes_ok_def column_def list_all_iff dest!: map_of_SomeD)

text \<open>References.\<close>

lemma add_set_name_Inr:
  assumes "add_set_name w names = Inr names'"
  shows "as_object w = None \<and> names' = names \<or>
    (\<exists>n. w = JObject [(''set'', JString n)] \<and> names' = push_new n names)"
proof (cases "as_object w")
  case None
  with assms show ?thesis by (simp add: add_set_name_def)
next
  case (Some obj)
  with assms obtain n where n: "length obj = 1" "map_of obj ''set'' = Some (JString n)" "names' = push_new n names"
    by (auto simp: add_set_name_def Option.bind_eq_Some_conv as_str_Some split: bool.splits option.splits)
  then obtain k u where "obj = [(k, u)]" by (cases obj) auto
  with n(2) have "obj = [(''set'', JString n)]" by (simp split: if_splits)
  with Some n(3) show ?thesis by (simp add: as_object_Some)
qed

lemma set_name_of_plain [simp]: "as_object w = None \<Longrightarrow> set_name_of w = None"
  by (cases w) (simp_all add: set_name_of_def)

lemma set_name_of_reference [simp]: "set_name_of (JObject [(''set'', JString n)]) = Some n"
  by (simp add: set_name_of_def)

lemma add_set_names_Inr:
  "try_fold add_set_name ws names = Inr names' \<Longrightarrow>
     set names' = set names \<union> set (List.map_filter set_name_of ws) \<and>
     (\<forall>w \<in> set ws. as_object w \<noteq> None \<longrightarrow> set_name_of w \<noteq> None)"
proof (induction ws arbitrary: names)
  case Nil
  then show ?case by (simp add: map_filter_def)
next
  case (Cons w ws)
  from Cons.prems obtain n1 where s: "add_set_name w names = Inr n1" "try_fold add_set_name ws n1 = Inr names'"
    by (auto simp: and_then_Inr_iff)
  from add_set_name_Inr [OF s(1)] Cons.IH [OF s(2)] show ?case
    by (auto simp: map_filter_def)
qed

lemma set_references_Inr:
  assumes "set_references v = Inr names"
  shows "set names = set (set_names v)" and "names = [] \<longleftrightarrow> set_names v = []"
    and "set_names v = [] \<Longrightarrow> filter (\<lambda>w. as_object w = None) (list_of v) = list_of v"
proof -
  from assms have f: "try_fold add_set_name (list_of v) [] = Inr names" by (simp add: set_references_def)
  note a = add_set_names_Inr [OF f]
  then show s: "set names = set (set_names v)" by (simp add: set_names_def)
  then show "names = [] \<longleftrightarrow> set_names v = []" by (metis set_empty)
  assume "set_names v = []"
  with a have "\<forall>w \<in> set (list_of v). as_object w = None"
    by (auto simp: set_names_def map_filter_def filter_empty_conv)
  then show "filter (\<lambda>w. as_object w = None) (list_of v) = list_of v"
    by (simp add: filter_id_conv)
qed


text \<open>Each kind of filter.\<close>

lemma list_effect:
  assumes "compile_in_list X col vs c = Inr r" and "fixed_size_ok c"
    and e: "e = (case r of Some p \<Rightarrow> ColumnEffect p | None \<Rightarrow> NoRowPasses)"
  shows "effect_ok e \<and> (effect_admits X row e \<longleftrightarrow> any_denotes X c vs (row col))"
  using compile_in_list_exact [OF assms(1,2)] e
  by (auto simp: filters_exactly_def split: option.splits)

lemma compile_column_filter_exact:
  assumes "compile_column_filter X col v c = Inr e" and "fixed_size_ok c"
  shows "effect_ok e \<and> (effect_admits X row e \<longleftrightarrow> column_passes X c v (row col))"
proof (cases "\<exists>b. as_bool v = Some b \<and> c_data_type c = TBoolean")
  case True
  then obtain b where b: "as_bool v = Some b" "c_data_type c = TBoolean" by blast
  with assms(1) have "e = ColumnEffect (col, PEq (SvBoolean b))" by (simp add: compile_column_filter_def)
  with b show ?thesis by (simp add: column_passes_def eq_admits_def split: cell.split)
next
  case False
  then have n: "compile_column_filter X col v c =
      (if is_filter_scalar v \<or> as_array v \<noteq> None then
         and_then (compile_in_list X col (list_of v) c) (\<lambda>r.
         Inr (case r of Some p \<Rightarrow> ColumnEffect p | None \<Rightarrow> NoRowPasses))
       else Inl (EngineError InvalidFilterValue))"
    and p: "column_passes X c v (row col) = any_denotes X c (list_of v) (row col)"
    by (auto simp: compile_column_filter_def column_passes_def split: option.splits column_type.splits)
  from assms(1) n obtain r where "compile_in_list X col (list_of v) c = Inr r"
    "e = (case r of Some p \<Rightarrow> ColumnEffect p | None \<Rightarrow> NoRowPasses)"
    by (auto simp: and_then_Inr_iff split: if_splits)
  from list_effect [OF this(1) assms(2) this(2)] p show ?thesis by simp
qed

lemma strings_needles:
  assumes "strings_of vs = Inr ss"
  shows "List.map_filter (\<lambda>w. map_option as_bytes (as_str w)) vs = map as_bytes ss"
proof -
  from assms have "map as_str vs = map Some ss" by (simp add: strings_of_Inr)
  then show ?thesis
    by (induction vs arbitrary: ss) (auto simp: map_filter_def)
qed

lemma compile_bloom_exact:
  assumes "compile_bloom_filter v col bytes hashes = Inr p"
  shows "predicate_ok (snd p) \<and> (admits X (snd p) (row (fst p)) \<longleftrightarrow> special_passes X t (SBloom col bytes hashes) v row)"
proof -
  from assms obtain vs ss where v: "as_array v = Some vs" "strings_of vs = Inr ss"
    and p: "p = (if map as_bytes ss = [] then (col, PNever) else (col, PBloom (map as_bytes ss) bytes hashes))"
    by (auto simp: compile_bloom_filter_def and_then_Inr_iff Let_def)
  have "\<not> bloom_may_hold X [] hashes b" for b by (simp add: bloom_may_hold_def)
  with v p strings_needles [OF v(2)] show ?thesis
    by (auto simp: special_passes_def list_of_def split: cell.splits)
qed

lemma range_bound_Inr:
  "range_bound v col t = Inr w \<Longrightarrow> json_ok v \<Longrightarrow> \<exists>n. as_u64 v = Some n \<and> uint w = int n"
  by (auto simp: range_bound_def and_then_Inr_iff as_u64_Some unsigned_of_nat take_bit_nat_eq_self split: if_splits)

lemma compile_special_exact:
  assumes c: "compile_special X t special v = Inr e" and j: "json_ok v" and z: "sizes_ok t"
    and ne: "\<And>by. special = SDiscriminator by \<Longrightarrow> as_array v \<noteq> Some []"
  shows "effect_ok e \<and> (effect_admits X row e \<longleftrightarrow> special_passes X t special v row)"
proof (cases special)
  case (SDiscriminator by_length)
  with c obtain r where r: "compile_discriminator X v by_length = Inr r" and e: "e = GroupsEffect r"
    by (auto simp: compile_special_def and_then_Inr_iff)
  from r obtain vs where vs: "as_array v = Some vs"
    and n: "r = None \<longleftrightarrow> (\<exists>w \<in> set vs. literal_bytes X w = Some [])"
    and g: "\<And>groups. r = Some groups \<Longrightarrow> (vs \<noteq> [] \<longrightarrow> groups \<noteq> []) \<and>
      list_all (list_all (\<lambda>(k, p). predicate_ok p)) groups \<and>
      (\<forall>row. list_ex (all_admit X (\<lambda>k. Some (row k))) groups \<longleftrightarrow> list_ex (prefix_passes X by_length row) vs)"
    by (rule compile_discriminator_admits) blast
  have p: "special_passes X t special v row = list_ex (prefix_passes X by_length row) vs"
    using vs by (simp add: SDiscriminator special_passes_def list_of_def)
  show ?thesis
  proof (cases r)
    case None
    with n have "list_ex (prefix_passes X by_length row) vs" by (auto simp: list_ex_iff prefix_passes_iff)
    with None e p show ?thesis by simp
  next
    case (Some groups)
    with g [OF Some] e p ne [OF SDiscriminator] vs show ?thesis
      by (simp add: present_def [abs_def])
  qed
next
  case (SBloom col bytes hashes)
  with c obtain p where "compile_bloom_filter v col bytes hashes = Inr p" "e = ColumnEffect p"
    by (auto simp: compile_special_def and_then_Inr_iff)
  with compile_bloom_exact [OF this(1), of X row t] show ?thesis by (cases p) (simp add: SBloom)
next
  case (SRangeGte col)
  with c obtain w where w: "range_bound v col t = Inr w" "e = ColumnEffect (col, PGte (SvUInt64 w))"
    by (auto simp: compile_special_def compile_range_gte_def and_then_Inr_iff range_effect_def)
  with range_bound_Inr [OF w(1) j] show ?thesis
    by (auto simp: SRangeGte special_passes_def range_admits_def Let_def split: cell.splits)
next
  case (SRangeLte col)
  with c obtain w where w: "range_bound v col t = Inr w" "e = ColumnEffect (col, PLte (SvUInt64 w))"
    by (auto simp: compile_special_def compile_range_lte_def and_then_Inr_iff range_effect_def)
  with range_bound_Inr [OF w(1) j] show ?thesis
    by (auto simp: SRangeLte special_passes_def range_admits_def Let_def split: cell.splits)
next
  case (SColumnAlias col)
  with c obtain d where d: "column t col = Some d" "compile_column_filter X col v d = Inr e"
    by (auto simp: compile_special_def and_then_Inr_iff)
  with compile_column_filter_exact [OF d(2) sizes_ok_column [OF z d(1)], of row] show ?thesis
    by (simp add: SColumnAlias special_passes_def)
next
  case (SGteConst col konst)
  with c show ?thesis
    by (auto simp: compile_special_def special_passes_def and_then_Inr_iff range_admits_def
        split: if_splits cell.splits)
qed

lemma in_set_admits_cong: "set ss = set ss' \<Longrightarrow> in_set_admits X ss c e = in_set_admits X ss' c e"
  by (cases e) (simp_all add: sets_hold_def list_ex_iff split: option.splits)

lemma compile_set_filter_exact:
  assumes c: "compile_set_filter X key v names t scope = Inr p" and z: "sizes_ok t"
    and n: "set names = set (set_names v)"
  shows "predicate_ok (snd p) \<and> (admits X (snd p) (row (fst p)) \<longleftrightarrow> set_passes X key v t (sc_sets scope) row)"
proof -
  let ?vs = "filter (\<lambda>w. as_object w = None) (list_of v)"
  from c obtain col d listed fs where col: "set_filter_column key t = Inr col" "column t col = Some d"
    and l: "(if ?vs = [] then Inr None else compile_in_list X col ?vs d) = Inr listed"
    and fs: "try_collect (\<lambda>name. ok_or (EngineError UnknownSet) (map_of (sc_sets scope) name)) names = Inr fs"
    and p: "p = (col, case listed of Some (_, p) \<Rightarrow> PAnyOf [p, PInSet fs (c_encoding d)] | None \<Rightarrow> PInSet fs (c_encoding d))"
    by (auto simp: compile_set_filter_def and_then_Inr_iff Let_def)
  have key: "(case map_of (q_special_filters (request t)) key of Some (SColumnAlias c) \<Rightarrow> c | _ \<Rightarrow> key) = col"
    using col(1) by (auto simp: set_filter_column_def split: option.splits special_filter.splits)
  have "filters_exactly X col listed (any_denotes X d ?vs)"
  proof (cases "?vs = []")
    case True
    with l show ?thesis by (simp add: filters_exactly_def any_denotes_def)
  next
    case False
    with l have "compile_in_list X col ?vs d = Inr listed" by simp
    then show ?thesis by (rule compile_in_list_exact [OF _ sizes_ok_column [OF z col(2)]])
  qed
  moreover have "set fs = set (List.map_filter (map_of (sc_sets scope)) (set_names v))"
  proof -
    from fs have l2: "list_all2 (\<lambda>name f. map_of (sc_sets scope) name = Some f) names fs"
      by (simp add: try_collect_Inr_iff)
    have "f \<in> set fs \<longleftrightarrow> (\<exists>name \<in> set names. map_of (sc_sets scope) name = Some f)" for f
      using list_all2_left [OF l2] list_all2_right [OF l2] by force
    then show ?thesis unfolding n map_filter_def by force
  qed
  then have "in_set_admits X fs (c_encoding d) (row col) \<longleftrightarrow>
      in_set_admits X (List.map_filter (map_of (sc_sets scope)) (set_names v)) (c_encoding d) (row col)"
    by (rule in_set_admits_cong)
  ultimately show ?thesis
    unfolding set_passes_def key
    by (auto simp: p col(2) filters_exactly_def split: option.splits prod.splits)
qed

lemma compile_filter_exact:
  assumes c: "compile_filter X t scope f referred = Inr (e, referred')" and j: "json_ok (snd f)"
    and z: "sizes_ok t"
  shows "effect_ok e \<and> (effect_admits X row e \<longleftrightarrow> filter_passes X t (sc_sets scope) row f)"
proof -
  obtain key v where f: "f = (key, v)" by (cases f)
  from c f obtain names where n: "set_references v = Inr names"
    by (auto simp: compile_filter_def and_then_Inr_iff)
  note r = set_references_Inr [OF n]
  let ?s = "map_of (q_special_filters (request t)) key"
  consider (sets) "names \<noteq> []" | (empty) "names = []" "takes_value_list t key" "as_array v = Some []"
    | (special) special where "names = []" "\<not> (takes_value_list t key \<and> as_array v = Some [])" "?s = Some special"
    | (plain) "names = []" "\<not> (takes_value_list t key \<and> as_array v = Some [])" "?s = None"
    by (cases ?s) blast+
  then show ?thesis
  proof cases
    case sets
    with c n f obtain p where p: "compile_set_filter X key v names t scope = Inr p" "e = ColumnEffect p"
      by (auto simp: compile_filter_def and_then_Inr_iff)
    from compile_set_filter_exact [OF p(1) z r(1), of row] sets r(2) p(2) show ?thesis
      by (cases p) (simp add: f filter_passes_def)
  next
    case empty
    with c n f have "e = NoRowPasses" by (auto simp: compile_filter_def)
    moreover have "set_names v = []" using empty(1) r(2) by simp
    moreover have "list_of v = []" using empty(3) by (simp add: list_of_def)
    moreover have "as_bool v = None" "as_u64 v = None" using empty(3) by (simp_all add: as_array_Some)
    ultimately show ?thesis
      using empty(2)
      by (auto simp: f filter_passes_def special_passes_def column_passes_def any_denotes_def takes_value_list_def
          map_filter_def bloom_may_hold_def split: option.splits special_filter.splits cell.splits)
  next
    case special
    with c n f have "compile_special X t special v = Inr e"
      by (auto simp: compile_filter_def and_then_Inr_iff)
    moreover have "as_array v \<noteq> Some []" if "special = SDiscriminator by" for "by"
      using special that by (auto simp: takes_value_list_def)
    ultimately show ?thesis
      using compile_special_exact [of X t special v e row] j z special r(2) by (auto simp: f filter_passes_def)
  next
    case plain
    with c n f obtain d where d: "column t key = Some d" "compile_column_filter X key v d = Inr e"
      by (auto simp: compile_filter_def and_then_Inr_iff)
    from compile_column_filter_exact [OF d(2) sizes_ok_column [OF z d(1)], of row] plain r(2) d(1) show ?thesis
      by (simp add: f filter_passes_def)
  qed
qed


text \<open>The fold over an item's filters: at most one of them is of the discriminator family.\<close>

definition state_admits :: "externals \<Rightarrow> (string \<Rightarrow> cell) \<Rightarrow> item_state \<Rightarrow> bool" where
  "state_admits X row s =
     (\<not> is_unsatisfiable s \<and> all_admit X (present row) (is_columns s) \<and>
      (case is_groups s of None \<Rightarrow> True | Some gs \<Rightarrow> list_ex (all_admit X (present row)) gs))"

definition state_ok :: "item_state \<Rightarrow> bool" where
  "state_ok s =
     (list_all (\<lambda>(k, p). predicate_ok p) (is_columns s) \<and>
      (case is_groups s of
         None \<Rightarrow> True
       | Some gs \<Rightarrow> gs \<noteq> [] \<and> list_all (list_all (\<lambda>(k, p). predicate_ok p)) gs))"

definition is_discriminator :: "table_description \<Rightarrow> string \<times> json \<Rightarrow> bool" where
  "is_discriminator t f = (fst f \<in> set (discriminator_family t))"

lemma groups_effect_family:
  assumes "compile_filter X t scope f referred = Inr (GroupsEffect g, referred')"
  shows "is_discriminator t f"
proof -
  obtain key v where f: "f = (key, v)" by (cases f)
  from assms f obtain special where s: "map_of (q_special_filters (request t)) key = Some special"
    and c: "compile_special X t special v = Inr (GroupsEffect g)"
    by (auto simp: compile_filter_def compile_column_filter_def and_then_Inr_iff
        split: if_splits option.splits column_type.splits)
  from c obtain by_length where "special = SDiscriminator by_length"
    by (cases special) (auto simp: compile_special_def compile_column_filter_def range_effect_def and_then_Inr_iff
        split: if_splits option.splits column_type.splits)
  with s have "(key, SDiscriminator by_length) \<in> set (q_special_filters (request t))"
    by (auto dest: map_of_SomeD)
  then show ?thesis by (force simp: is_discriminator_def f discriminator_family_def)
qed

lemma item_step_exact:
  assumes s: "item_step X t scope f s = Inr s'" and j: "json_ok (snd f)" and z: "sizes_ok t"
    and g: "is_discriminator t f \<Longrightarrow> is_groups s = None" and ok: "state_ok s"
  shows "state_ok s' \<and> (is_groups s' \<noteq> None \<longrightarrow> is_groups s \<noteq> None \<or> is_discriminator t f) \<and>
    (state_admits X row s' \<longleftrightarrow> state_admits X row s \<and> filter_passes X t (sc_sets scope) row f)"
proof -
  from s obtain e r where c: "compile_filter X t scope f (is_referred s) = Inr (e, r)"
    and s': "s' = apply_effect e (s\<lparr>is_referred := r\<rparr>)"
    by (auto simp: item_step_def and_then_Inr_iff)
  note x = compile_filter_exact [OF c j z, of row]
  show ?thesis
  proof (cases e)
    case (GroupsEffect gs)
    with c have "is_discriminator t f" by (auto intro: groups_effect_family)
    with g have "is_groups s = None" "is_discriminator t f" by simp_all
    with x ok GroupsEffect show ?thesis
      by (cases gs) (auto simp: s' apply_effect_def state_admits_def state_ok_def)
  qed (use x ok in \<open>auto simp: s' apply_effect_def state_admits_def state_ok_def split: option.splits\<close>)
qed

lemma item_steps_exact:
  assumes "try_fold (item_step X t scope) fs s = Inr s'" and "list_all (\<lambda>f. json_ok (snd f)) fs"
    and "sizes_ok t" and "state_ok s"
    and "is_groups s \<noteq> None \<Longrightarrow> filter (is_discriminator t) fs = []"
    and "length (filter (is_discriminator t) fs) \<le> 1"
  shows "state_ok s' \<and> (state_admits X row s' \<longleftrightarrow>
    state_admits X row s \<and> list_all (filter_passes X t (sc_sets scope) row) fs)"
  using assms
proof (induction fs arbitrary: s)
  case Nil
  then show ?case by simp
next
  case (Cons f fs)
  from Cons.prems(1) obtain s1 where s1: "item_step X t scope f s = Inr s1"
      "try_fold (item_step X t scope) fs s1 = Inr s'"
    by (auto simp: and_then_Inr_iff)
  have "is_groups s = None" if "is_discriminator t f" using Cons.prems(5) that by force
  note st = item_step_exact [OF s1(1) _ Cons.prems(3) this Cons.prems(4), of row]
  from st Cons.prems(2) have ok: "state_ok s1"
    and g: "is_groups s1 \<noteq> None \<longrightarrow> is_groups s \<noteq> None \<or> is_discriminator t f"
    and a: "state_admits X row s1 \<longleftrightarrow> state_admits X row s \<and> filter_passes X t (sc_sets scope) row f"
    by auto
  have "filter (is_discriminator t) fs = []" if "is_groups s1 \<noteq> None"
    using g that Cons.prems(5,6) by (auto split: if_splits)
  moreover have "length (filter (is_discriminator t) fs) \<le> 1"
    using Cons.prems(6) by (auto split: if_splits)
  ultimately show ?case
    using Cons.IH [OF s1(2)] Cons.prems(2,3) ok a by auto
qed

lemma all_admit_concat: "all_admit X row (concat [g]) = all_admit X row g"
  by simp

lemma finish_item_exact:
  assumes "state_ok s"
  shows "case finish_item s of
      Unsatisfiable \<Rightarrow> \<not> state_admits X row s
    | Compiled r \<Rightarrow> row_predicate_ok r \<and> (row_admits X r (present row) \<longleftrightarrow> state_admits X row s)"
proof (cases "is_groups s")
  case None
  with assms show ?thesis
    by (auto simp: finish_item_def state_admits_def state_ok_def row_admits_def row_predicate_new_def
        with_alternatives_def row_predicate_ok_def column_predicates_def)
next
  case (Some gs)
  with assms obtain g gs' where gs: "gs = g # gs'" by (cases gs) (auto simp: state_ok_def)
  show ?thesis
  proof (cases gs')
    case Nil
    with assms Some gs show ?thesis
      by (auto simp: finish_item_def state_admits_def state_ok_def row_admits_def row_predicate_new_def
          with_alternatives_def row_predicate_ok_def column_predicates_def)
  next
    case (Cons g' gs'')
    with assms Some gs show ?thesis
      by (auto simp: finish_item_def state_admits_def state_ok_def row_admits_def
          with_alternatives_def row_predicate_ok_def column_predicates_def list_all_iff)
  qed
qed

lemma check_item_limits_family:
  "check_item_limits i t = Inr () \<Longrightarrow> length (filter (is_discriminator t) (i_filters i)) \<le> 1"
  by (auto simp: check_item_limits_def and_then_Inr_iff Let_def max_discriminator_filters_def
      is_discriminator_def [abs_def] case_prod_beta')

lemma compile_item_exact:
  assumes c: "compile_item_predicates X i t scope referred = Inr (ci, referred')"
    and j: "list_all (\<lambda>f. json_ok (snd f)) (i_filters i)" and z: "sizes_ok t"
  shows "case ci of
      Unsatisfiable \<Rightarrow> \<not> list_all (filter_passes X t (sc_sets scope) row) (i_filters i)
    | Compiled r \<Rightarrow> row_predicate_ok r \<and>
        (row_admits X r (present row) \<longleftrightarrow> list_all (filter_passes X t (sc_sets scope) row) (i_filters i))"
proof -
  let ?s0 = "\<lparr>is_columns = [], is_groups = None, is_unsatisfiable = False, is_referred = referred\<rparr>"
  from c obtain s where l: "check_item_limits i t = Inr ()"
    and f: "try_fold (item_step X t scope) (i_filters i) ?s0 = Inr s" and ci: "ci = finish_item s"
    by (auto simp: compile_item_predicates_def and_then_Inr_iff)
  have "state_ok ?s0" by (simp add: state_ok_def)
  from item_steps_exact [OF f j z this _ check_item_limits_family [OF l], of row]
  have "state_ok s" "state_admits X row s \<longleftrightarrow> list_all (filter_passes X t (sc_sets scope) row) (i_filters i)"
    by (simp_all add: state_admits_def all_admit_def)
  with finish_item_exact [of s X row] show ?thesis by (simp add: ci split: compiled_item.splits)
qed


text \<open>
  What acceptance says of a reference: the set is declared and referred, a selected field shows the
  column, and the set passes every canary as the column folds it.
\<close>

definition reference_sound ::
    "externals \<Rightarrow> table_description \<Rightarrow> set_scope \<Rightarrow> string \<Rightarrow> string \<Rightarrow> bool" where
  "reference_sound X t scope key name =
     (case (map_of (sc_sets scope) name, set_filter_column key t) of
        (Some s, Inr col) \<Rightarrow>
          (case column t col of
             None \<Rightarrow> False
           | Some c \<Rightarrow>
               list_ex (\<lambda>field. col \<in> set (field_columns t field)) (sc_selected scope) \<and>
               list_all (\<lambda>canary. fuse_contains X (s_fuse8 s) (as_bytes (fold_for_column canary c)) = Some True)
                 (s_canaries s))
      | _ \<Rightarrow> False)"

lemma compile_set_filter_sound:
  assumes "compile_set_filter X key v names t scope = Inr p" and "name \<in> set names"
  shows "reference_sound X t scope key name"
proof -
  from assms(1) obtain col c fs where col: "set_filter_column key t = Inr col" "column t col = Some c"
    and fs: "try_collect (\<lambda>name. ok_or (EngineError UnknownSet) (map_of (sc_sets scope) name)) names = Inr fs"
    and sel: "list_ex (\<lambda>field. col \<in> set (field_columns t field)) (sc_selected scope)"
    and can: "\<forall>s \<in> set fs. \<forall>canary \<in> set (s_canaries s). check_canary X canary s c = Inr ()"
    by (auto simp: compile_set_filter_def and_then_Inr_iff Let_def)
  from fs have "list_all2 (\<lambda>name f. map_of (sc_sets scope) name = Some f) names fs"
    by (simp add: try_collect_Inr_iff)
  from list_all2_left [OF this assms(2)] obtain s where s: "s \<in> set fs" "map_of (sc_sets scope) name = Some s"
    by blast
  have "fuse_contains X (s_fuse8 s) (as_bytes (fold_for_column canary c)) = Some True"
    if "canary \<in> set (s_canaries s)" for canary
  proof -
    from can s(1) that have "check_canary X canary s c = Inr ()" by blast
    then show ?thesis by (auto simp: check_canary_def and_then_Inr_iff Let_def)
  qed
  with col sel s(2) show ?thesis by (simp add: reference_sound_def list_all_iff)
qed

lemma add_references_Inr:
  "add_references names r = Inr r' \<Longrightarrow>
     set (rf_named r') = set names \<union> set (rf_named r) \<and> rf_count r' = rf_count r + length names \<and> rf_count r' \<le> 64"
  by (auto simp: add_references_def and_then_Inr_iff Let_def set_fold_push_new max_set_references_def)

lemma compile_filter_references:
  assumes "compile_filter X t scope f r = Inr (e, r')"
  shows "set (rf_named r') = set (set_names (snd f)) \<union> set (rf_named r) \<and>
    (rf_count r \<le> 64 \<longrightarrow> rf_count r' \<le> 64) \<and>
    list_all (reference_sound X t scope (fst f)) (set_names (snd f))"
proof -
  obtain key v where f: "f = (key, v)" by (cases f)
  from assms f obtain names where n: "set_references v = Inr names"
    by (auto simp: compile_filter_def and_then_Inr_iff)
  note s = set_references_Inr [OF n]
  show ?thesis
  proof (cases "names = []")
    case True
    with assms n f have "r' = r"
      by (auto simp: compile_filter_def and_then_Inr_iff split: if_splits option.splits)
    with True s(2) show ?thesis by (simp add: f)
  next
    case False
    with assms n f obtain p where a: "add_references names r = Inr r'"
      and c: "compile_set_filter X key v names t scope = Inr p"
      by (auto simp: compile_filter_def and_then_Inr_iff)
    from add_references_Inr [OF a] compile_set_filter_sound [OF c] s(1) show ?thesis
      by (auto simp: f list_all_iff)
  qed
qed

lemma item_steps_references:
  "try_fold (item_step X t scope) fs s = Inr s' \<Longrightarrow>
     set (rf_named (is_referred s')) = (\<Union>f \<in> set fs. set (set_names (snd f))) \<union> set (rf_named (is_referred s)) \<and>
     (rf_count (is_referred s) \<le> 64 \<longrightarrow> rf_count (is_referred s') \<le> 64) \<and>
     list_all (\<lambda>f. list_all (reference_sound X t scope (fst f)) (set_names (snd f))) fs"
proof (induction fs arbitrary: s)
  case Nil
  then show ?case by simp
next
  case (Cons f fs)
  from Cons.prems obtain s1 where s1: "item_step X t scope f s = Inr s1"
      "try_fold (item_step X t scope) fs s1 = Inr s'"
    by (auto simp: and_then_Inr_iff)
  from s1(1) obtain e r where c: "compile_filter X t scope f (is_referred s) = Inr (e, r)"
    and s': "s1 = apply_effect e (s\<lparr>is_referred := r\<rparr>)"
    by (auto simp: item_step_def and_then_Inr_iff)
  then have "is_referred s1 = r" by (simp add: apply_effect_def split: filter_effect.splits)
  with compile_filter_references [OF c] Cons.IH [OF s1(2)] show ?case by auto
qed

lemma compile_item_references:
  assumes "compile_item_predicates X i t scope r = Inr (ci, r')"
  shows "set (rf_named r') = (\<Union>f \<in> set (i_filters i). set (set_names (snd f))) \<union> set (rf_named r) \<and>
    (rf_count r \<le> 64 \<longrightarrow> rf_count r' \<le> 64) \<and>
    list_all (\<lambda>f. list_all (reference_sound X t scope (fst f)) (set_names (snd f))) (i_filters i)"
proof -
  from assms obtain s where "try_fold (item_step X t scope) (i_filters i)
      \<lparr>is_columns = [], is_groups = None, is_unsatisfiable = False, is_referred = r\<rparr> = Inr s"
    and "r' = is_referred s"
    by (auto simp: compile_item_predicates_def and_then_Inr_iff)
  from item_steps_references [OF this(1)] this(2) show ?thesis by simp
qed


section \<open>Properties\<close>

text \<open>
  An item request compiles to exactly what its filters say: a row passes the compiled predicate when
  it passes every filter of the item (a list by any of its values, a list with set references also by
  any of the sets, a discriminator by any of its prefixes at their own length, a bloom filter, a range,
  a constant bound), the predicate is well formed for the scan, and an item reported unsatisfiable has
  no row that passes.
\<close>

theorem compile_item_admits:
  assumes "compile_item_predicates X i t scope referred = Inr (ci, referred')"
    and "list_all (\<lambda>f. json_ok (snd f)) (i_filters i)" and "sizes_ok t"
  shows "case ci of
      Unsatisfiable \<Rightarrow> \<not> list_all (filter_passes X t (sc_sets scope) row) (i_filters i)
    | Compiled r \<Rightarrow> row_predicate_ok r \<and>
        (row_admits X r (\<lambda>k. Some (row k)) \<longleftrightarrow> list_all (filter_passes X t (sc_sets scope) row) (i_filters i))"
proof -
  have "(\<lambda>k. Some (row k)) = present row" by (simp add: present_def fun_eq_iff)
  then show ?thesis using compile_item_exact [OF assms, of row] by (simp only:)
qed

definition sample_item :: query_item where
  "sample_item = \<lparr>i_filters = [(''address'', JArray [JString ''0xAB''])], i_relations = [''transaction''], i_alias = None\<rparr>"

definition sample_scope :: set_scope where
  "sample_scope = \<lparr>sc_sets = [], sc_selected = [''address'']\<rparr>"

definition sample_row :: "string \<Rightarrow> cell" where
  "sample_row k = (if k = ''address'' then CText ''0xab'' else CNull)"

lemma sample_item_compiles:
  "compile_item_predicates plain_externals sample_item sample_logs sample_scope no_references =
     Inr (Compiled (row_predicate_new [(''address'', PInList (AText Utf8 [''0xab''] None))]), no_references)"
proof -
  have c: "column sample_logs ''address'' = Some (plain_column TString \<lparr>c_encoding := Some HexBytes\<rparr>)"
    "lowercase ''0xAB'' = ''0xab''" by code_simp+
  have l: "check_item_limits sample_item sample_logs = Inr ()"
    by (simp add: check_item_limits_def sample_item_def sample_logs_def discriminator_family_def request_def
        max_discriminator_filters_def)
  have s: "map_of (q_special_filters (request sample_logs)) ''address'' = None"
    by (simp add: sample_logs_def request_def)
  show ?thesis
    unfolding compile_item_predicates_def l
    by (simp add: sample_item_def item_step_def compile_filter_def set_references_def list_of_def add_set_name_def s
        c compile_column_filter_def compile_in_list_def strings_of_def plain_column_def fold_for_column_def
        folds_case_def in_list_of_def apply_effect_def finish_item_def no_references_def row_predicate_new_def)
qed

lemma sample_logs_sizes: "sizes_ok sample_logs"
  by (simp add: sizes_ok_def sample_logs_def fixed_size_ok_def plain_column_def)

theorem compile_item_admits_witness:
  "list_all (filter_passes plain_externals sample_logs [] sample_row) (i_filters sample_item)"
proof -
  have "list_all (\<lambda>f. json_ok (snd f)) (i_filters sample_item)" by (simp add: sample_item_def)
  from compile_item_admits [OF sample_item_compiles this sample_logs_sizes, of sample_row] show ?thesis
    by (simp add: row_admits_def row_predicate_new_def with_alternatives_def all_admit_def sample_row_def
        in_list_admits_def sample_scope_def)
qed

text \<open>
  Whatever an item refers to is checked before it is scanned for: every set a list names is declared
  and counted among the request's references, of which there are at most sixty-four, a selected field
  shows the filtered column, and the set passes each of its own canaries in the text the response
  renders.
\<close>

theorem compile_item_sets:
  assumes "compile_item_predicates X i t scope r = Inr (ci, r')" and "rf_count r \<le> 64"
  shows "set (rf_named r') = (\<Union>f \<in> set (i_filters i). set (set_names (snd f))) \<union> set (rf_named r) \<and>
    rf_count r' \<le> 64 \<and>
    list_all (\<lambda>f. list_all (reference_sound X t scope (fst f)) (set_names (snd f))) (i_filters i)"
  using compile_item_references [OF assms(1)] assms(2) by blast

definition sample_set :: set_filter where
  "sample_set =
     \<lparr>s_fuse8 = \<lparr>f_seed = 0, f_segment_length = 1, f_segment_mask = 0, f_segment_count_length = 1,
        f_fingerprints = [29, 0, 0], f_digest = 0\<rparr>, s_canaries = [''0xAB'']\<rparr>"

definition sample_set_scope :: set_scope where
  "sample_set_scope = \<lparr>sc_sets = [(''holders'', sample_set)], sc_selected = [''address'']\<rparr>"

definition sample_set_item :: query_item where
  "sample_set_item =
     \<lparr>i_filters = [(''address'', JArray [JObject [(''set'', JString ''holders'')]])], i_relations = [], i_alias = None\<rparr>"

lemma sample_canary: "fuse_contains plain_externals (s_fuse8 sample_set) (as_bytes ''0xab'') = Some True"
proof -
  have x: "x_xxh3 plain_externals (as_bytes ''0xab'') = 4"
    by (simp add: plain_externals_def as_bytes_def)
  have m: "mix 4 = 5156626420896634997" by (simp add: mix_def Let_def drop_bit_eq_div)
  show ?thesis
    by (simp add: fuse_contains_def Let_def x m sample_set_def slot_indices_def get_def)
qed

lemma sample_set_item_compiles:
  "compile_item_predicates plain_externals sample_set_item sample_logs sample_set_scope no_references =
     Inr (Compiled (row_predicate_new [(''address'', PInSet [sample_set] (Some HexBytes))]),
       \<lparr>rf_named = [''holders''], rf_count = 1\<rparr>)"
proof -
  have c: "column sample_logs ''address'' = Some (plain_column TString \<lparr>c_encoding := Some HexBytes\<rparr>)"
    "lowercase ''0xAB'' = ''0xab''" "is_hex_literal ''0xab''" "field_columns sample_logs ''address'' = [''address'']"
    by code_simp+
  have l: "check_item_limits sample_set_item sample_logs = Inr ()"
    by (simp add: check_item_limits_def sample_set_item_def sample_logs_def discriminator_family_def request_def
        max_discriminator_filters_def)
  have s: "map_of (q_special_filters (request sample_logs)) ''address'' = None"
    by (simp add: sample_logs_def request_def)
  have n: "s_canaries sample_set = [''0xAB'']" by (simp add: sample_set_def)
  show ?thesis
    unfolding compile_item_predicates_def l
    by (simp add: sample_set_item_def item_step_def compile_filter_def set_references_def list_of_def
        add_set_name_def push_new_def add_references_def max_set_references_def compile_set_filter_def
        set_filter_column_def s c renders_text_def plain_column_def sample_set_scope_def n check_canary_def
        fold_for_column_def folds_case_def sample_canary apply_effect_def finish_item_def no_references_def
        row_predicate_new_def Let_def)
qed

theorem compile_item_sets_witness:
  "reference_sound plain_externals sample_logs sample_set_scope ''address'' ''holders''"
  using compile_item_sets [OF sample_set_item_compiles]
  by (simp add: no_references_def sample_set_item_def set_names_def list_of_def map_filter_def set_name_of_def)

end
