(* ===== verification/Query_Plan.thy ===== *)
theory Query_Plan
  imports Item_Filter "HOL-Library.Option_ord" "HOL-Library.Multiset"
begin

text \<open>
  The plan of a request, \<^verbatim>\<open>compile\<close> of \<^verbatim>\<open>src/query/plan.rs\<close>: the tables in catalog order, each with its
  items' predicates, output columns in catalog order and relations, two names of one join planned once.
  The lemmas show which rows follow a planned relation, that output columns are the selected ones, that
  every declared set is used, and that a refusal is the client's error.
\<close>

datatype plan_kind = PJoin | PChildren | PParents

fun plan_kind_of :: "relation_kind \<Rightarrow> plan_kind" where
  "plan_kind_of Join = PJoin"
| "plan_kind_of Children = PChildren"
| "plan_kind_of Parents = PParents"

record relation_plan =
  rl_target :: string
  rl_kind :: plan_kind
  rl_left_key :: "string list"
  rl_right_key :: "string list"
  rl_output_columns :: "string list"
  rl_source_items :: "nat list option"

record table_plan =
  tp_table :: string
  tp_output_columns :: "string list"
  tp_predicates :: "row_predicate list"
  tp_relations :: "relation_plan list"

record plan =
  pl_from_block :: nat
  pl_to_block :: "nat option"
  pl_include_all_blocks :: bool
  pl_parent_block_hash :: "string option"
  pl_block_table :: string
  pl_block_output_columns :: "string list"
  pl_table_plans :: "table_plan list"

definition same_join :: "relation_plan \<Rightarrow> relation_plan \<Rightarrow> bool" where
  "same_join r s =
     (rl_target r = rl_target s \<and> rl_kind r = rl_kind s \<and> rl_left_key r = rl_left_key s \<and>
      rl_right_key r = rl_right_key s \<and> rl_output_columns r = rl_output_columns s)"

definition relation_def_of ::
    "dataset_description \<Rightarrow> table_description \<Rightarrow> query_item \<Rightarrow> string \<Rightarrow> relation_def option" where
  "relation_def_of d t i name =
     (case i_alias i of
        Some al \<Rightarrow> Option.bind (map_of (d_aliases d) al) (\<lambda>a. map_of (a_relations a) name)
      | None \<Rightarrow> map_of (q_relations (request t)) name)"

definition order_columns_by_metadata :: "string list \<Rightarrow> table_description option \<Rightarrow> string list" where
  "order_columns_by_metadata cols t =
     (case t of
        None \<Rightarrow> cols
      | Some desc \<Rightarrow>
          let first = filter (\<lambda>k. k \<in> set cols) (keys (t_columns desc));
              second = first @ filter (\<lambda>k. k \<in> set cols) (keys (o_virtual_fields (t_output desc)))
          in foldl (\<lambda>result col. if col \<in> set result then result else result @ [col]) second cols)"

definition output_columns_of ::
    "query \<Rightarrow> string \<Rightarrow> table_description option \<Rightarrow> string list" where
  "output_columns_of q name t =
     (case map_of (u_fields q) name of None \<Rightarrow> [] | Some cols \<Rightarrow> order_columns_by_metadata cols t)"


section \<open>Relations of the items\<close>

text \<open>The planned relations with, for each, the items that asked for it (a \<open>BTreeSet\<close>).\<close>

type_synonym planned = "(relation_plan \<times> nat list) list"

definition set_insert :: "nat \<Rightarrow> nat list \<Rightarrow> nat list" where
  "set_insert x xs = (if x \<in> set xs then xs else insort x xs)"

definition relation_plan_of :: "dataset_description \<Rightarrow> query \<Rightarrow> relation_def \<Rightarrow> relation_plan" where
  "relation_plan_of d q r =
     \<lparr>rl_target = r_table r, rl_kind = plan_kind_of (r_kind r), rl_left_key = effective_left_key r,
      rl_right_key = effective_right_key r,
      rl_output_columns = output_columns_of q (r_table r) (table d (r_table r)),
      rl_source_items = None\<rparr>"

fun add_source :: "relation_plan \<Rightarrow> nat \<Rightarrow> planned \<Rightarrow> planned" where
  "add_source p i [] = [(p, set_insert i [])]"
| "add_source p i ((r, sources) # rs) =
     (if same_join r p then (r, set_insert i sources) # rs else (r, sources) # add_source p i rs)"

definition plan_relation ::
    "dataset_description \<Rightarrow> query \<Rightarrow> table_description \<Rightarrow> query_item \<Rightarrow> nat \<Rightarrow> string \<Rightarrow> planned
     \<Rightarrow> engine_error + planned" where
  "plan_relation d q t i item_index rel_name planned =
     and_then (ok_or (EngineError UnknownFilter) (relation_def_of d t i rel_name)) (\<lambda>r.
     Inr (add_source (relation_plan_of d q r) item_index planned))"

definition finish_relation :: "nat \<Rightarrow> relation_plan \<times> nat list \<Rightarrow> relation_plan" where
  "finish_relation n_items = (\<lambda>(r, sources).
     r\<lparr>rl_source_items := (if length sources = n_items then None else Some sources)\<rparr>)"


section \<open>A table\<close>

record table_state =
  ts_predicates :: "row_predicate list"
  ts_planned :: planned
  ts_referred :: references

definition plan_item ::
    "externals \<Rightarrow> dataset_description \<Rightarrow> query \<Rightarrow> table_description \<Rightarrow> set_scope \<Rightarrow> query_item
     \<Rightarrow> table_state \<Rightarrow> engine_error + table_state" where
  "plan_item X d q t scope i s =
     and_then (compile_item_predicates X i t scope (ts_referred s)) (\<lambda>(ci, referred).
     case ci of
       Unsatisfiable \<Rightarrow> Inr (s\<lparr>ts_referred := referred\<rparr>)
     | Compiled predicate \<Rightarrow>
         and_then (try_fold (plan_relation d q t i (length (ts_predicates s))) (i_relations i) (ts_planned s)) (\<lambda>planned.
         Inr \<lparr>ts_predicates = ts_predicates s @ [predicate], ts_planned = planned, ts_referred = referred\<rparr>))"

definition scope_of :: "query \<Rightarrow> string \<Rightarrow> set_scope" where
  "scope_of q name =
     \<lparr>sc_sets = u_sets q, sc_selected = (case map_of (u_fields q) name of None \<Rightarrow> [] | Some fs \<Rightarrow> fs)\<rparr>"

definition plan_table ::
    "externals \<Rightarrow> dataset_description \<Rightarrow> query \<Rightarrow> string \<times> query_item list \<Rightarrow> references
     \<Rightarrow> engine_error + table_plan option \<times> references" where
  "plan_table X d q = (\<lambda>(table_name, its) referred.
     and_then (ok_or (EngineError UnknownTable) (table d table_name)) (\<lambda>t.
     and_then (try_fold (plan_item X d q t (scope_of q table_name)) its
       \<lparr>ts_predicates = [], ts_planned = [], ts_referred = referred\<rparr>) (\<lambda>s.
     let n_items = length (ts_predicates s) in
     Inr (if n_items = 0 then None
          else Some \<lparr>tp_table = table_name,
            tp_output_columns = output_columns_of q table_name (Some t),
            tp_predicates = ts_predicates s,
            tp_relations = map (finish_relation n_items) (ts_planned s)\<rparr>, ts_referred s))))"


section \<open>The plan\<close>

definition block_table_name :: "dataset_description \<Rightarrow> string" where
  "block_table_name d =
     (case find (\<lambda>(_, t). is_block_table t) (d_tables d) of Some (name, _) \<Rightarrow> name | None \<Rightarrow> ''blocks'')"

definition requested_tables :: "dataset_description \<Rightarrow> query \<Rightarrow> (string \<times> query_item list) list" where
  "requested_tables d q =
     sort_key (\<lambda>(name, _). (index_of (keys (d_tables d)) name, name)) (u_items q)"

definition plan_tables ::
    "externals \<Rightarrow> dataset_description \<Rightarrow> query \<Rightarrow> engine_error + table_plan list \<times> references" where
  "plan_tables X d q =
     try_fold (\<lambda>entry (plans, referred).
       and_then (plan_table X d q entry referred) (\<lambda>(p, referred').
       Inr (plans @ opt_list p, referred'))) (requested_tables d q) ([], no_references)"

definition compile :: "externals \<Rightarrow> query \<Rightarrow> dataset_description \<Rightarrow> engine_error + plan" where
  "compile X q d =
     (let block_table = block_table_name d; desc = table d block_table in
      and_then (ensure (u_parent_block_hash q = None \<or>
          (case desc of None \<Rightarrow> False | Some b \<Rightarrow> t_parent_hash_column b \<noteq> None))
        (EngineError UnsupportedRequestField)) (\<lambda>_.
      and_then (plan_tables X d q) (\<lambda>(plans, referred).
      and_then (ensure (list_all (\<lambda>name. name \<in> set (rf_named referred)) (keys (u_sets q)))
        (EngineError InvalidSet)) (\<lambda>_.
      Inr \<lparr>pl_from_block = u_from_block q, pl_to_block = u_to_block q,
        pl_include_all_blocks = u_include_all_blocks q, pl_parent_block_hash = u_parent_block_hash q,
        pl_block_table = block_table, pl_block_output_columns = output_columns_of q block_table desc,
        pl_table_plans = plans\<rparr>))))"


section \<open>What a plan answers\<close>

text \<open>The items whose rows feed a relation, and whether an item asked for a relation that is this join.\<close>

definition follows :: "relation_plan \<Rightarrow> nat \<Rightarrow> bool" where
  "follows r i = (case rl_source_items r of None \<Rightarrow> True | Some sources \<Rightarrow> i \<in> set sources)"

definition asked_among ::
    "dataset_description \<Rightarrow> query \<Rightarrow> table_description \<Rightarrow> query_item \<Rightarrow> string list \<Rightarrow> relation_plan \<Rightarrow> bool" where
  "asked_among d q t i names rp =
     list_ex (\<lambda>name. case relation_def_of d t i name of
         None \<Rightarrow> False
       | Some r \<Rightarrow> same_join rp (relation_plan_of d q r)) names"

definition asks ::
    "dataset_description \<Rightarrow> query \<Rightarrow> table_description \<Rightarrow> query_item \<Rightarrow> relation_plan \<Rightarrow> bool" where
  "asks d q t i rp = asked_among d q t i (i_relations i) rp"

text \<open>A row answers an item when it passes every filter of it.\<close>

definition item_matches ::
    "externals \<Rightarrow> table_description \<Rightarrow> sets \<Rightarrow> (string \<Rightarrow> cell) \<Rightarrow> query_item \<Rightarrow> bool" where
  "item_matches X t ss row i = list_all (filter_passes X t ss row) (i_filters i)"

definition items_ok :: "(string, query_item list) omap \<Rightarrow> bool" where
  "items_ok items = list_all (\<lambda>(n, its). list_all (\<lambda>i. list_all (\<lambda>f. json_ok (snd f)) (i_filters i)) its) items"

definition catalog_sizes_ok :: "dataset_description \<Rightarrow> bool" where
  "catalog_sizes_ok d = list_all (\<lambda>(n, t). sizes_ok t) (d_tables d)"


section \<open>Facts\<close>

lemma same_join_refl [simp]: "same_join r r"
  by (simp add: same_join_def)

lemma same_join_sym: "same_join r s \<Longrightarrow> same_join s r"
  by (simp add: same_join_def)

lemma same_join_trans: "same_join r s \<Longrightarrow> same_join s u \<Longrightarrow> same_join r u"
  by (simp add: same_join_def)

lemma same_join_cong: "same_join r s \<Longrightarrow> same_join r u = same_join s u"
  by (simp add: same_join_def)

lemma asked_among_cong:
  assumes "same_join r s"
  shows "asked_among d q t i names r = asked_among d q t i names s"
  by (simp add: asked_among_def same_join_cong [OF assms] cong: option.case_cong)

lemma plan_relation_Inr:
  "plan_relation d q t i n name planned = Inr planned' \<longleftrightarrow>
     (\<exists>r. relation_def_of d t i name = Some r \<and> planned' = add_source (relation_plan_of d q r) n planned)"
  by (auto simp: plan_relation_def and_then_Inr_iff)

lemma set_set_insert [simp]: "set (set_insert i xs) = insert i (set xs)"
  by (auto simp: set_insert_def set_insort_key)

lemma sorted_set_insert: "sorted xs \<and> distinct xs \<Longrightarrow> sorted (set_insert i xs) \<and> distinct (set_insert i xs)"
  by (auto simp: set_insert_def sorted_insort distinct_insort)

text \<open>
  The planned relations of a table: no two of one join, each with exactly the items of a set that
  asked for it, and one for each relation asked for.
\<close>

definition planned_ok :: "(nat \<Rightarrow> relation_plan \<Rightarrow> bool) \<Rightarrow> nat \<Rightarrow> planned \<Rightarrow> bool" where
  "planned_ok A n planned \<longleftrightarrow>
     sorted_wrt (\<lambda>a b. \<not> same_join (fst a) (fst b)) planned \<and>
     (\<forall>(r, sources) \<in> set planned. sorted sources \<and> distinct sources \<and> set sources = {i. i < n \<and> A i r}) \<and>
     (\<forall>i < n. \<forall>r. A i r \<longrightarrow> (\<exists>s \<in> fst ` set planned. same_join s r))"

lemma add_source_fst: "fst ` set (add_source p i rs) \<subseteq> insert p (fst ` set rs)"
  by (induction p i rs rule: add_source.induct) auto

lemma add_source_keys: "fst ` set rs \<subseteq> fst ` set (add_source p i rs)"
  by (induction p i rs rule: add_source.induct) auto

lemma add_source_new: "\<exists>s \<in> fst ` set (add_source p i rs). same_join s p"
  by (induction p i rs rule: add_source.induct) auto

lemma add_source_distinct:
  "sorted_wrt (\<lambda>a b. \<not> same_join (fst a) (fst b)) rs \<Longrightarrow>
     sorted_wrt (\<lambda>a b. \<not> same_join (fst a) (fst b)) (add_source p i rs)"
proof (induction p i rs rule: add_source.induct)
  case (2 p i r sources rs)
  have "\<not> same_join r (fst e)" if "e \<in> set (add_source p i rs)" "\<not> same_join r p" for e
  proof -
    from add_source_fst [of p i rs] that(1) have "fst e = p \<or> fst e \<in> fst ` set rs" by blast
    with 2(2) that(2) show ?thesis by auto
  qed
  with 2 show ?case by auto
qed simp

lemma add_source_sources:
  assumes "sorted_wrt (\<lambda>a b. \<not> same_join (fst a) (fst b)) rs"
    and "(r, sources) \<in> set (add_source p i rs)"
  shows "(\<exists>old. (r, old) \<in> set rs \<and> sources = (if same_join r p then set_insert i old else old)) \<or>
    (r = p \<and> sources = set_insert i [] \<and> (\<forall>s \<in> fst ` set rs. \<not> same_join s p))"
  using assms
proof (induction p i rs rule: add_source.induct)
  case (2 p i r' s' rs)
  show ?case
  proof (cases "same_join r' p")
    case True
    have "\<not> same_join (fst e) p" if "e \<in> set rs" for e
    proof -
      from 2(2) that have "\<not> same_join r' (fst e)" by simp
      with True show ?thesis using same_join_trans same_join_sym by blast
    qed
    from True 2(3) consider "r = r'" "sources = set_insert i s'" | "(r, sources) \<in> set rs" by auto
    then show ?thesis
    proof cases
      case 1
      with True show ?thesis by auto
    next
      case r: 2
      with \<open>\<And>e. e \<in> set rs \<Longrightarrow> \<not> same_join (fst e) p\<close> [OF r] show ?thesis by auto
    qed
  next
    case False
    from False 2(3) consider "r = r'" "sources = s'" | "(r, sources) \<in> set (add_source p i rs)" by auto
    then show ?thesis
    proof cases
      case 1
      with False show ?thesis by auto
    next
      case r: 2
      from 2(2) have "sorted_wrt (\<lambda>a b. \<not> same_join (fst a) (fst b)) rs" by simp
      from 2(1) [OF False this r] False show ?thesis by auto
    qed
  qed
qed simp

lemma planned_ok_add:
  assumes ok: "planned_ok A n planned" and i: "i < n"
    and cong: "\<And>k r s. same_join r s \<Longrightarrow> A k r = A k s"
  shows "planned_ok (\<lambda>k r. A k r \<or> (k = i \<and> same_join r p)) n (add_source p i planned)"
  unfolding planned_ok_def
proof (intro conjI ballI allI impI)
  from ok have d: "sorted_wrt (\<lambda>a b. \<not> same_join (fst a) (fst b)) planned"
    and src: "\<And>r s. (r, s) \<in> set planned \<Longrightarrow> sorted s \<and> distinct s \<and> set s = {i. i < n \<and> A i r}"
    and cov: "\<And>k r. k < n \<Longrightarrow> A k r \<Longrightarrow> \<exists>s \<in> fst ` set planned. same_join s r"
    by (auto simp: planned_ok_def)
  show "sorted_wrt (\<lambda>a b. \<not> same_join (fst a) (fst b)) (add_source p i planned)"
    by (rule add_source_distinct [OF d])
  show "case e of (r, s) \<Rightarrow> sorted s \<and> distinct s \<and> set s = {k. k < n \<and> (A k r \<or> (k = i \<and> same_join r p))}"
    if "e \<in> set (add_source p i planned)" for e
  proof -
    obtain r s where e: "e = (r, s)" by (cases e)
    from add_source_sources [OF d] that e consider
      (old) old where "(r, old) \<in> set planned" "s = (if same_join r p then set_insert i old else old)"
    | (new) "r = p" "s = set_insert i []" "\<forall>u \<in> fst ` set planned. \<not> same_join u p" by blast
    then show ?thesis
    proof cases
      case old
      with src [OF old(1)] sorted_set_insert [of old i] i show ?thesis by (auto simp: e)
    next
      case new
      have "\<not> A k r" if "k < n" for k using cov [OF that] new(1,3) by blast
      with new i show ?thesis by (auto simp: e set_insert_def)
    qed
  qed
  show "\<exists>s \<in> fst ` set (add_source p i planned). same_join s r"
    if "k < n" "A k r \<or> (k = i \<and> same_join r p)" for k r
  proof (cases "A k r")
    case True
    with cov [OF that(1)] add_source_keys [of planned p i] show ?thesis by blast
  next
    case False
    with that(2) add_source_new [of p i planned] show ?thesis
      using same_join_trans same_join_sym by blast
  qed
qed

lemma plan_relations_ok:
  assumes "try_fold (plan_relation d q t i n) names planned = Inr planned'"
    and "planned_ok (\<lambda>k r. A k r \<or> (k = n \<and> asked_among d q t i done r)) (Suc n) planned"
    and "\<And>k r s. same_join r s \<Longrightarrow> A k r = A k s"
  shows "planned_ok (\<lambda>k r. A k r \<or> (k = n \<and> asked_among d q t i (done @ names) r)) (Suc n) planned'"
  using assms
proof (induction names arbitrary: planned "done")
  case Nil
  then show ?case by simp
next
  case (Cons name names)
  from Cons.prems(1) obtain r where r: "relation_def_of d t i name = Some r"
    and f: "try_fold (plan_relation d q t i n) names (add_source (relation_plan_of d q r) n planned) = Inr planned'"
    by (auto simp: and_then_Inr_iff plan_relation_Inr)
  have "planned_ok (\<lambda>k s. (A k s \<or> (k = n \<and> asked_among d q t i done s)) \<or>
      (k = n \<and> same_join s (relation_plan_of d q r))) (Suc n) (add_source (relation_plan_of d q r) n planned)"
    using Cons.prems(3) asked_among_cong by (intro planned_ok_add [OF Cons.prems(2)]) blast+
  moreover have "(\<lambda>k s. (A k s \<or> (k = n \<and> asked_among d q t i done s)) \<or>
      (k = n \<and> same_join s (relation_plan_of d q r))) =
      (\<lambda>k s. A k s \<or> (k = n \<and> asked_among d q t i (done @ [name]) s))"
    using r by (auto simp: asked_among_def fun_eq_iff)
  ultimately have "planned_ok (\<lambda>k s. A k s \<or> (k = n \<and> asked_among d q t i (done @ [name]) s)) (Suc n)
      (add_source (relation_plan_of d q r) n planned)" by simp
  from Cons.IH [OF f this Cons.prems(3)] show ?case by simp
qed


text \<open>
  How an item compiles does not depend on the references counted before it, so the items that have a
  plan can be told one by one.
\<close>

definition satisfiable ::
    "externals \<Rightarrow> table_description \<Rightarrow> set_scope \<Rightarrow> query_item \<Rightarrow> bool" where
  "satisfiable X t scope i =
     (case compile_item_predicates X i t scope no_references of Inr (Compiled _, _) \<Rightarrow> True | _ \<Rightarrow> False)"

lemma add_references_restart:
  "add_references names r = Inr r' \<Longrightarrow> rf_count r0 \<le> rf_count r \<Longrightarrow>
     \<exists>r0'. add_references names r0 = Inr r0' \<and> rf_count r0' \<le> rf_count r'"
  by (auto simp: add_references_def and_then_Inr_iff Let_def)

lemma compile_filter_restart:
  assumes "compile_filter X t scope f r = Inr (e, r')" and "rf_count r0 \<le> rf_count r"
  shows "\<exists>r0'. compile_filter X t scope f r0 = Inr (e, r0') \<and> rf_count r0' \<le> rf_count r'"
proof -
  obtain key v where f: "f = (key, v)" by (cases f)
  from assms f obtain names where n: "set_references v = Inr names"
    by (auto simp: compile_filter_def and_then_Inr_iff)
  show ?thesis
  proof (cases "names = []")
    case True
    with assms n f show ?thesis
      by (auto simp: compile_filter_def and_then_Inr_iff split: if_splits option.splits)
  next
    case False
    with assms n f obtain p where a: "add_references names r = Inr r'"
      and c: "compile_set_filter X key v names t scope = Inr p" "e = ColumnEffect p"
      by (auto simp: compile_filter_def and_then_Inr_iff)
    from add_references_restart [OF a assms(2)] False n c show ?thesis
      by (auto simp: compile_filter_def f and_then_Inr_iff)
  qed
qed

lemma apply_effect_referred: "apply_effect e (s\<lparr>is_referred := r\<rparr>) = (apply_effect e s)\<lparr>is_referred := r\<rparr>"
  by (cases s) (simp add: apply_effect_def split: filter_effect.splits)

lemma item_steps_restart:
  "try_fold (item_step X t scope) fs s = Inr s' \<Longrightarrow> rf_count r0 \<le> rf_count (is_referred s) \<Longrightarrow>
     \<exists>r0'. try_fold (item_step X t scope) fs (s\<lparr>is_referred := r0\<rparr>) = Inr (s'\<lparr>is_referred := r0'\<rparr>) \<and>
       rf_count r0' \<le> rf_count (is_referred s')"
proof (induction fs arbitrary: s r0)
  case Nil
  then show ?case by auto
next
  case (Cons f fs)
  from Cons.prems obtain e r where c: "compile_filter X t scope f (is_referred s) = Inr (e, r)"
    and s': "try_fold (item_step X t scope) fs ((apply_effect e s)\<lparr>is_referred := r\<rparr>) = Inr s'"
    by (auto simp: and_then_Inr_iff item_step_def [of _ _ _ f] apply_effect_referred)
  from compile_filter_restart [OF c Cons.prems(2)] obtain r0'
    where c0: "compile_filter X t scope f r0 = Inr (e, r0')" "rf_count r0' \<le> rf_count r" by blast
  have "rf_count r0' \<le> rf_count (is_referred ((apply_effect e s)\<lparr>is_referred := r\<rparr>))" using c0 by simp
  from Cons.IH [OF s' this] c0 show ?case
    by (simp add: item_step_def [of _ _ _ f] apply_effect_referred)
qed

lemma compile_item_restart:
  assumes "compile_item_predicates X i t scope r = Inr (ci, r')"
  shows "satisfiable X t scope i \<longleftrightarrow> ci \<noteq> Unsatisfiable"
proof -
  from assms obtain s where l: "check_item_limits i t = Inr ()"
    and f: "try_fold (item_step X t scope) (i_filters i)
      \<lparr>is_columns = [], is_groups = None, is_unsatisfiable = False, is_referred = r\<rparr> = Inr s"
    and ci: "ci = finish_item s"
    by (auto simp: compile_item_predicates_def and_then_Inr_iff)
  from item_steps_restart [OF f, of no_references]
  obtain r0' where "try_fold (item_step X t scope) (i_filters i)
      \<lparr>is_columns = [], is_groups = None, is_unsatisfiable = False, is_referred = no_references\<rparr> =
        Inr (s\<lparr>is_referred := r0'\<rparr>)"
    by (auto simp: no_references_def)
  with l have "compile_item_predicates X i t scope no_references = Inr (ci, r0')"
    by (simp add: compile_item_predicates_def ci finish_item_def split: option.splits)
  then show ?thesis by (auto simp: satisfiable_def split: compiled_item.splits)
qed


section \<open>The invariant of a table's items\<close>

text \<open>
  After some of a table's items: one predicate for each that can match, in their order, and the relations
  those items asked for, each with the positions of the items that did.
\<close>

definition table_inv ::
    "externals \<Rightarrow> dataset_description \<Rightarrow> query \<Rightarrow> table_description \<Rightarrow> set_scope \<Rightarrow> query_item list
     \<Rightarrow> table_state \<Rightarrow> bool" where
  "table_inv X d q t scope its s \<longleftrightarrow>
     (let sats = filter (satisfiable X t scope) its in
      list_all2 (\<lambda>i p. \<exists>r r'. compile_item_predicates X i t scope r = Inr (Compiled p, r'))
        sats (ts_predicates s) \<and>
      planned_ok (\<lambda>k. asks d q t (sats ! k)) (length sats) (ts_planned s))"

lemma planned_ok_Suc:
  "planned_ok A n planned \<Longrightarrow> planned_ok (\<lambda>k r. k < n \<and> A k r) (Suc n) planned"
  by (auto simp: planned_ok_def less_Suc_eq)

lemma planned_ok_cong:
  "(\<And>k r. k < n \<Longrightarrow> A k r = B k r) \<Longrightarrow> planned_ok A n planned = planned_ok B n planned"
  by (simp add: planned_ok_def cong: conj_cong)

lemma asks_cong: "same_join r s \<Longrightarrow> asks d q t i r = asks d q t i s"
  by (simp add: asks_def asked_among_cong)

lemma plan_item_inv:
  assumes step: "plan_item X d q t scope i s = Inr s'" and inv: "table_inv X d q t scope its s"
  shows "table_inv X d q t scope (its @ [i]) s'"
proof -
  let ?sats = "filter (satisfiable X t scope) its"
  from inv have len: "length ?sats = length (ts_predicates s)"
    and all: "list_all2 (\<lambda>i p. \<exists>r r'. compile_item_predicates X i t scope r = Inr (Compiled p, r'))
        ?sats (ts_predicates s)"
    and ok: "planned_ok (\<lambda>k. asks d q t (?sats ! k)) (length ?sats) (ts_planned s)"
    by (auto simp: table_inv_def Let_def dest: list_all2_lengthD)
  from step obtain ci referred where
    c: "compile_item_predicates X i t scope (ts_referred s) = Inr (ci, referred)"
    by (auto simp: plan_item_def and_then_Inr_iff)
  show ?thesis
  proof (cases ci)
    case Unsatisfiable
    with step c inv compile_item_restart [OF c] show ?thesis
      by (auto simp: plan_item_def table_inv_def Let_def)
  next
    case (Compiled p)
    with step c obtain planned where
      f: "try_fold (plan_relation d q t i (length (ts_predicates s))) (i_relations i) (ts_planned s) = Inr planned"
      and s': "s' = \<lparr>ts_predicates = ts_predicates s @ [p], ts_planned = planned, ts_referred = referred\<rparr>"
      by (auto simp: plan_item_def and_then_Inr_iff)
    let ?n = "length ?sats" and ?A = "\<lambda>k r. k < length ?sats \<and> asks d q t (?sats ! k) r"
    have "planned_ok (\<lambda>k r. ?A k r \<or> (k = ?n \<and> asked_among d q t i [] r)) (Suc ?n) (ts_planned s)"
      using planned_ok_Suc [OF ok] by (simp add: asked_among_def)
    from plan_relations_ok [OF f [folded len] this] asks_cong
    have "planned_ok (\<lambda>k r. ?A k r \<or> (k = ?n \<and> asks d q t i r)) (Suc ?n) planned"
      by (fastforce simp: asks_def)
    then have "planned_ok (\<lambda>k. asks d q t ((?sats @ [i]) ! k)) (Suc ?n) planned"
      by (rule planned_ok_cong [THEN iffD1, rotated]) (auto simp: nth_append less_Suc_eq)
    moreover have "satisfiable X t scope i" using compile_item_restart [OF c] Compiled by simp
    ultimately show ?thesis
      using all c Compiled by (auto simp: table_inv_def s' Let_def intro!: list_all2_appendI)
  qed
qed

lemma plan_items_inv:
  "try_fold (plan_item X d q t scope) its s = Inr s' \<Longrightarrow> table_inv X d q t scope done s \<Longrightarrow>
     table_inv X d q t scope (done @ its) s'"
proof (induction its arbitrary: s "done")
  case (Cons i its)
  from Cons.prems(1) obtain s1 where "plan_item X d q t scope i s = Inr s1"
    "try_fold (plan_item X d q t scope) its s1 = Inr s'" by (auto simp: and_then_Inr_iff)
  with Cons.IH [OF this(2) plan_item_inv [OF this(1) Cons.prems(2)]] show ?case by simp
qed simp


section \<open>A planned table\<close>

definition planned_items ::
    "externals \<Rightarrow> dataset_description \<Rightarrow> query \<Rightarrow> string \<Rightarrow> query_item list \<Rightarrow> query_item list" where
  "planned_items X d q name its =
     (case table d name of None \<Rightarrow> [] | Some t \<Rightarrow> filter (satisfiable X t (scope_of q name)) its)"

lemma finish_relation_follows:
  assumes "sorted sources \<and> distinct sources \<and> set sources = {k. k < n \<and> P k}" and "k < n"
  shows "follows (finish_relation n (r, sources)) k \<longleftrightarrow> P k"
proof (cases "length sources = n")
  case True
  from assms(1) have "card {k. k < n \<and> P k} = length sources" by (metis distinct_card)
  with True have "card {k. k < n \<and> P k} = card {k. k < n}" by simp
  moreover have "{k. k < n \<and> P k} \<subseteq> {k. k < n}" by auto
  ultimately have "{k. k < n \<and> P k} = {k. k < n}" by (intro card_subset_eq) auto
  with assms(2) True show ?thesis by (auto simp: follows_def finish_relation_def)
next
  case False
  with assms show ?thesis by (auto simp: follows_def finish_relation_def)
qed

lemma finish_relation_join: "same_join (finish_relation n (r, sources)) u = same_join r u"
  by (simp add: finish_relation_def same_join_def)

lemma finish_relations_join: "same_join (finish_relation n x) (finish_relation n y) = same_join (fst x) (fst y)"
  by (simp add: finish_relation_def same_join_def case_prod_beta')

text \<open>A plan of the relations that the items of a list, by position, asked for.\<close>

definition relations_planned ::
    "dataset_description \<Rightarrow> query \<Rightarrow> table_description \<Rightarrow> query_item list \<Rightarrow> relation_plan list \<Rightarrow> bool" where
  "relations_planned d q t its rels \<longleftrightarrow>
     sorted_wrt (\<lambda>a b. \<not> same_join a b) rels \<and>
     (\<forall>rp \<in> set rels. \<forall>k < length its. follows rp k \<longleftrightarrow> asks d q t (its ! k) rp) \<and>
     (\<forall>i \<in> set its. \<forall>name \<in> set (i_relations i). \<exists>r. relation_def_of d t i name = Some r \<and>
        (\<exists>rp \<in> set rels. same_join rp (relation_plan_of d q r)))"

lemma plan_item_relations_known:
  assumes "plan_item X d q t scope i s = Inr s'" and "satisfiable X t scope i" and "name \<in> set (i_relations i)"
  shows "\<exists>r. relation_def_of d t i name = Some r"
proof -
  from assms(1) obtain ci referred where
    c: "compile_item_predicates X i t scope (ts_referred s) = Inr (ci, referred)"
    by (auto simp: plan_item_def and_then_Inr_iff)
  from compile_item_restart [OF c] assms(2) obtain p where "ci = Compiled p" by (cases ci) auto
  with assms(1) c obtain n planned planned' where
    "try_fold (plan_relation d q t i n) (i_relations i) planned = Inr planned'"
    by (auto simp: plan_item_def and_then_Inr_iff)
  with assms(3) show ?thesis
  proof (induction "i_relations i" arbitrary: planned rule: list.induct)
    case Nil
    then show ?case by simp
  next
    case (Cons x xs)
    have "\<exists>r. relation_def_of d t i name = Some r"
      if "try_fold (plan_relation d q t i n) names planned = Inr planned'" "name \<in> set names" for names planned
      using that
      by (induction names arbitrary: planned) (auto simp: and_then_Inr_iff plan_relation_Inr)
    with Cons.prems show ?case by blast
  qed
qed

lemma plan_items_relations_known:
  "try_fold (plan_item X d q t scope) its s = Inr s' \<Longrightarrow> i \<in> set its \<Longrightarrow> satisfiable X t scope i \<Longrightarrow>
     name \<in> set (i_relations i) \<Longrightarrow> \<exists>r. relation_def_of d t i name = Some r"
  by (induction its arbitrary: s) (auto simp: and_then_Inr_iff dest: plan_item_relations_known)

lemma asks_own:
  "name \<in> set (i_relations i) \<Longrightarrow> relation_def_of d t i name = Some r \<Longrightarrow> asks d q t i (relation_plan_of d q r)"
  by (auto simp: asks_def asked_among_def list_ex_iff intro!: bexI [of _ name])

lemma relations_planned_finish:
  assumes ok: "planned_ok (\<lambda>k. asks d q t (its ! k)) (length its) planned"
    and known: "\<And>i name. i \<in> set its \<Longrightarrow> name \<in> set (i_relations i) \<Longrightarrow> \<exists>r. relation_def_of d t i name = Some r"
  shows "relations_planned d q t its (map (finish_relation (length its)) planned)"
  unfolding relations_planned_def
proof (intro conjI ballI allI impI)
  show "sorted_wrt (\<lambda>a b. \<not> same_join a b) (map (finish_relation (length its)) planned)"
    using ok by (simp add: planned_ok_def sorted_wrt_map finish_relations_join)
next
  fix rp k
  assume "rp \<in> set (map (finish_relation (length its)) planned)" "k < length its"
  then obtain r sources where rp: "rp = finish_relation (length its) (r, sources)" "(r, sources) \<in> set planned" by auto
  with ok have "sorted sources \<and> distinct sources \<and> set sources = {k. k < length its \<and> asks d q t (its ! k) r}"
    by (auto simp: planned_ok_def)
  from finish_relation_follows [OF this \<open>k < length its\<close>] rp
  show "follows rp k \<longleftrightarrow> asks d q t (its ! k) rp"
    using asks_cong [of rp r d q t] by (simp add: finish_relation_join)
next
  fix i name
  assume i: "i \<in> set its" and n: "name \<in> set (i_relations i)"
  from known [OF i n] obtain r where r: "relation_def_of d t i name = Some r" by blast
  from i obtain k where k: "k < length its" "its ! k = i" by (auto simp: in_set_conv_nth)
  have "\<exists>s \<in> fst ` set planned. same_join s (relation_plan_of d q r)"
    using ok k asks_own [OF n r, of q] by (simp add: planned_ok_def)
  then obtain u sources where "(u, sources) \<in> set planned" "same_join u (relation_plan_of d q r)" by auto
  then have "\<exists>rp \<in> set (map (finish_relation (length its)) planned). same_join rp (relation_plan_of d q r)"
    by (intro bexI [of _ "finish_relation (length its) (u, sources)"]) (auto simp: finish_relation_join)
  with r show "\<exists>r. relation_def_of d t i name = Some r \<and>
      (\<exists>rp \<in> set (map (finish_relation (length its)) planned). same_join rp (relation_plan_of d q r))" by blast
qed

lemma plan_table_ok:
  assumes "plan_table X d q (name, its) r = Inr (tp, r')"
  shows "\<exists>t. table d name = Some t \<and>
    (case tp of
       None \<Rightarrow> planned_items X d q name its = []
     | Some p \<Rightarrow> tp_table p = name \<and> tp_output_columns p = output_columns_of q name (Some t) \<and>
         planned_items X d q name its \<noteq> [] \<and>
         list_all2 (\<lambda>i rp. \<exists>r r'. compile_item_predicates X i t (scope_of q name) r = Inr (Compiled rp, r'))
           (planned_items X d q name its) (tp_predicates p) \<and>
         relations_planned d q t (planned_items X d q name its) (tp_relations p))"
proof -
  from assms obtain t s where t: "table d name = Some t"
    and f: "try_fold (plan_item X d q t (scope_of q name)) its
      \<lparr>ts_predicates = [], ts_planned = [], ts_referred = r\<rparr> = Inr s"
    and tp: "tp = (if ts_predicates s = [] then None
          else Some \<lparr>tp_table = name, tp_output_columns = output_columns_of q name (Some t),
            tp_predicates = ts_predicates s,
            tp_relations = map (finish_relation (length (ts_predicates s))) (ts_planned s)\<rparr>)"
    by (auto simp: plan_table_def and_then_Inr_iff Let_def)
  let ?its = "filter (satisfiable X t (scope_of q name)) its"
  have "table_inv X d q t (scope_of q name) [] \<lparr>ts_predicates = [], ts_planned = [], ts_referred = r\<rparr>"
    by (simp add: table_inv_def planned_ok_def)
  from plan_items_inv [OF f this] have all: "list_all2 (\<lambda>i rp. \<exists>r r'.
      compile_item_predicates X i t (scope_of q name) r = Inr (Compiled rp, r')) ?its (ts_predicates s)"
    and ok: "planned_ok (\<lambda>k. asks d q t (?its ! k)) (length ?its) (ts_planned s)"
    by (simp_all add: table_inv_def Let_def)
  from all have l: "length ?its = length (ts_predicates s)" by (rule list_all2_lengthD)
  have "relations_planned d q t ?its (map (finish_relation (length ?its)) (ts_planned s))"
    using ok plan_items_relations_known [OF f] by (intro relations_planned_finish) auto
  moreover have "?its = [] \<longleftrightarrow> ts_predicates s = []" using l by (metis length_0_conv)
  ultimately show ?thesis using t all l by (simp add: tp planned_items_def)
qed


section \<open>The plan of a request\<close>

lemma plan_items_compiled:
  "try_fold (plan_item X d q t scope) its s = Inr s' \<Longrightarrow> i \<in> set its \<Longrightarrow>
     \<exists>r ci r'. compile_item_predicates X i t scope r = Inr (ci, r')"
  by (induction its arbitrary: s) (auto simp: and_then_Inr_iff plan_item_def)

lemma plan_table_compiled:
  assumes "plan_table X d q (name, its) r = Inr (tp, r')" and "table d name = Some t" and "i \<in> set its"
  shows "\<exists>r ci r'. compile_item_predicates X i t (scope_of q name) r = Inr (ci, r')"
proof -
  from assms(1,2) obtain s s' where "try_fold (plan_item X d q t (scope_of q name)) its s = Inr s'"
    by (auto simp: plan_table_def and_then_Inr_iff)
  from plan_items_compiled [OF this assms(3)] show ?thesis .
qed

lemma plan_tables_Inr:
  assumes "plan_tables X d q = Inr (plans, referred)"
  shows "\<exists>ps. list_all2 (\<lambda>e tp. \<exists>r r'. plan_table X d q e r = Inr (tp, r')) (requested_tables d q) ps \<and>
    plans = concat (map opt_list ps)"
proof -
  have "\<exists>ps. list_all2 (\<lambda>e tp. \<exists>r r'. plan_table X d q e r = Inr (tp, r')) entries ps \<and>
      plans = plans0 @ concat (map opt_list ps)"
    if "try_fold (\<lambda>entry (plans, referred). and_then (plan_table X d q entry referred) (\<lambda>(p, referred').
        Inr (plans @ opt_list p, referred'))) entries (plans0, r0) = Inr (plans, referred)" for entries plans0 r0
    using that
  proof (induction entries arbitrary: plans0 r0)
    case (Cons e entries)
    then obtain p r1 where p: "plan_table X d q e r0 = Inr (p, r1)"
      and f: "try_fold (\<lambda>entry (plans, referred). and_then (plan_table X d q entry referred) (\<lambda>(p, referred').
        Inr (plans @ opt_list p, referred'))) entries (plans0 @ opt_list p, r1) = Inr (plans, referred)"
      by (auto simp: and_then_Inr_iff)
    from Cons.IH [OF f] obtain ps where
      "list_all2 (\<lambda>e tp. \<exists>r r'. plan_table X d q e r = Inr (tp, r')) entries ps"
      "plans = (plans0 @ opt_list p) @ concat (map opt_list ps)" by blast
    with p show ?case by (intro exI [of _ "p # ps"]) auto
  qed simp
  from this [OF assms [unfolded plan_tables_def]] show ?thesis by simp
qed

lemma set_requested_tables [simp]: "set (requested_tables d q) = set (u_items q)"
  by (simp add: requested_tables_def)

lemma compile_Inr:
  assumes "compile X q d = Inr p"
  shows "\<exists>ps. list_all2 (\<lambda>e tp. \<exists>r r'. plan_table X d q e r = Inr (tp, r')) (requested_tables d q) ps \<and>
    pl_table_plans p = concat (map opt_list ps)"
proof -
  from assms obtain plans referred where "plan_tables X d q = Inr (plans, referred)" "pl_table_plans p = plans"
    by (auto simp: compile_def and_then_Inr_iff Let_def)
  with plan_tables_Inr show ?thesis by blast
qed

text \<open>A planned table is one of the request's, and a table of the request has at most one plan.\<close>

lemma plan_of_table:
  assumes c: "compile X q d = Inr p" and tp: "tp \<in> set (pl_table_plans p)"
  shows "\<exists>its r r'. (tp_table tp, its) \<in> set (u_items q) \<and>
    plan_table X d q (tp_table tp, its) r = Inr (Some tp, r')"
proof -
  from compile_Inr [OF c] obtain ps where
    ps: "list_all2 (\<lambda>e tp. \<exists>r r'. plan_table X d q e r = Inr (tp, r')) (requested_tables d q) ps"
    and pl: "pl_table_plans p = concat (map opt_list ps)" by blast
  from tp pl have "Some tp \<in> set ps" by (auto simp: set_opt_list)
  from list_all2_right [OF ps this] obtain name its r r' where
    "(name, its) \<in> set (u_items q)" "plan_table X d q (name, its) r = Inr (Some tp, r')" by auto
  with plan_table_ok [OF this(2)] show ?thesis by auto
qed

lemma plan_of_items:
  assumes c: "compile X q d = Inr p" and tp: "tp \<in> set (pl_table_plans p)"
    and u: "omap_ok (u_items q)" and e: "(tp_table tp, its) \<in> set (u_items q)"
  shows "\<exists>r r'. plan_table X d q (tp_table tp, its) r = Inr (Some tp, r')"
proof -
  from plan_of_table [OF c tp] obtain its' r r' where o: "(tp_table tp, its') \<in> set (u_items q)"
    "plan_table X d q (tp_table tp, its') r = Inr (Some tp, r')" by blast
  from omap_ok_map_of [OF u o(1)] omap_ok_map_of [OF u e] have "its' = its" by simp
  with o(2) show ?thesis by blast
qed

lemma table_of_plan:
  assumes c: "compile X q d = Inr p" and e: "(name, its) \<in> set (u_items q)"
  shows "\<exists>r r' tpo. plan_table X d q (name, its) r = Inr (tpo, r') \<and>
    (\<forall>tp. tpo = Some tp \<longrightarrow> tp \<in> set (pl_table_plans p))"
proof -
  from compile_Inr [OF c] obtain ps where
    ps: "list_all2 (\<lambda>e tp. \<exists>r r'. plan_table X d q e r = Inr (tp, r')) (requested_tables d q) ps"
    and pl: "pl_table_plans p = concat (map opt_list ps)" by blast
  from e have "(name, its) \<in> set (requested_tables d q)" by simp
  from list_all2_left [OF ps this] obtain tpo r r' where
    "tpo \<in> set ps" "plan_table X d q (name, its) r = Inr (tpo, r')" by blast
  with pl show ?thesis by (force simp: set_opt_list)
qed

definition item_filters_ok :: "query_item \<Rightarrow> bool" where
  "item_filters_ok i = list_all (\<lambda>f. json_ok (snd f)) (i_filters i)"

lemma compiled_matches:
  assumes "compile_item_predicates X i t (scope_of q name) r = Inr (Compiled rp, r')"
    and "item_filters_ok i" and "sizes_ok t"
  shows "row_admits X rp (present row) = item_matches X t (u_sets q) row i"
  using compile_item_exact [OF assms(1) _ assms(3), of row] assms(2)
  by (simp add: item_matches_def item_filters_ok_def scope_of_def)

lemma unplanned_matches:
  assumes "compile_item_predicates X i t (scope_of q name) r = Inr (ci, r')"
    and "\<not> satisfiable X t (scope_of q name) i"
    and "item_filters_ok i" and "sizes_ok t"
  shows "\<not> item_matches X t (u_sets q) row i"
  using compile_item_exact [OF assms(1) _ assms(4), of row] assms(3) compile_item_restart [OF assms(1)] assms(2)
  by (simp add: item_matches_def item_filters_ok_def scope_of_def)

text \<open>The rows of a table plan, position by position.\<close>

lemma plan_table_matches:
  assumes p: "plan_table X d q (name, its) r = Inr (tpo, r')" and t: "table d name = Some t"
    and j: "list_all item_filters_ok its" and z: "sizes_ok t"
  shows "\<And>i. i \<in> set its \<Longrightarrow> item_matches X t (u_sets q) row i \<Longrightarrow> i \<in> set (planned_items X d q name its)"
    and "\<And>tp k. tpo = Some tp \<Longrightarrow> k < length (tp_predicates tp) \<Longrightarrow> k < length (planned_items X d q name its) \<and>
      row_admits X (tp_predicates tp ! k) (present row) =
      item_matches X t (u_sets q) row (planned_items X d q name its ! k)"
    and "\<And>tp. tpo = Some tp \<Longrightarrow> length (tp_predicates tp) = length (planned_items X d q name its)"
    and "tpo = None \<Longrightarrow> planned_items X d q name its = []"
proof -
  show "i \<in> set (planned_items X d q name its)" if "i \<in> set its" "item_matches X t (u_sets q) row i" for i
  proof -
    from plan_table_compiled [OF p t that(1)] obtain r ci r' where
      c: "compile_item_predicates X i t (scope_of q name) r = Inr (ci, r')" by blast
    from j that(1) have "item_filters_ok i" by (simp add: list_all_iff)
    from unplanned_matches [OF c _ this z] that show ?thesis by (auto simp: planned_items_def t)
  qed
  note ok = plan_table_ok [OF p]
  show "tpo = None \<Longrightarrow> planned_items X d q name its = []" using ok by auto
  have all: "list_all2 (\<lambda>i rp. \<exists>r r'. compile_item_predicates X i t (scope_of q name) r = Inr (Compiled rp, r'))
      (planned_items X d q name its) (tp_predicates tp)" if "tpo = Some tp" for tp
    using ok that t by auto
  show l: "\<And>tp. tpo = Some tp \<Longrightarrow> length (tp_predicates tp) = length (planned_items X d q name its)"
    using list_all2_lengthD [OF all] by simp
  show "k < length (planned_items X d q name its) \<and> row_admits X (tp_predicates tp ! k) (present row) =
      item_matches X t (u_sets q) row (planned_items X d q name its ! k)"
    if "tpo = Some tp" "k < length (tp_predicates tp)" for tp k
  proof -
    have k: "k < length (planned_items X d q name its)" using l that by simp
    from list_all2_nthD [OF all [OF that(1)] k] obtain r r' where
      c: "compile_item_predicates X (planned_items X d q name its ! k) t (scope_of q name) r =
        Inr (Compiled (tp_predicates tp ! k), r')" by blast
    have "planned_items X d q name its ! k \<in> set its"
      using nth_mem [OF k] t by (simp add: planned_items_def)
    with j have "item_filters_ok (planned_items X d q name its ! k)" by (simp add: list_all_iff)
    from compiled_matches [OF c this z] k show ?thesis by simp
  qed
qed


section \<open>Properties\<close>

text \<open>
  C1: A plan answers exactly the request. For every table the request names, a row is admitted by the
  predicates planned for that table if and only if it passes every filter of one of the table's items;
  items and tables left out of the plan because no value can match are items no row matches.
\<close>

theorem plan_answers:
  assumes c: "compile X q d = Inr p" and e: "(name, its) \<in> set (u_items q)" and u: "omap_ok (u_items q)"
    and t: "table d name = Some t" and j: "list_all item_filters_ok its" and z: "sizes_ok t"
  shows "list_ex (\<lambda>tp. tp_table tp = name \<and>
        list_ex (\<lambda>r. row_admits X r (\<lambda>k. Some (row k))) (tp_predicates tp)) (pl_table_plans p) \<longleftrightarrow>
    list_ex (item_matches X t (u_sets q) row) its"
proof -
  have row: "(\<lambda>k. Some (row k)) = present row" by (simp add: present_def fun_eq_iff)
  have "list_ex (item_matches X t (u_sets q) row) its"
    if "tp \<in> set (pl_table_plans p)" "tp_table tp = name" "r \<in> set (tp_predicates tp)" "row_admits X r (present row)"
    for tp r
  proof -
    from plan_of_items [OF c that(1) u, of its] that(2) e obtain r1 r2 where
      pt: "plan_table X d q (name, its) r1 = Inr (Some tp, r2)" by auto
    from that(3) obtain k where "k < length (tp_predicates tp)" "tp_predicates tp ! k = r"
      by (auto simp: in_set_conv_nth)
    with plan_table_matches(2) [OF pt t j z refl, of k row] that(4)
    have "k < length (planned_items X d q name its)"
      "item_matches X t (u_sets q) row (planned_items X d q name its ! k)" by auto
    with nth_mem t show ?thesis by (fastforce simp: planned_items_def list_ex_iff)
  qed
  moreover have "list_ex (\<lambda>tp. tp_table tp = name \<and> list_ex (\<lambda>r. row_admits X r (present row)) (tp_predicates tp))
      (pl_table_plans p)" if "i \<in> set its" "item_matches X t (u_sets q) row i" for i
  proof -
    from table_of_plan [OF c e] obtain r1 r2 tpo where
      pt: "plan_table X d q (name, its) r1 = Inr (tpo, r2)"
      and tp: "\<And>tp. tpo = Some tp \<Longrightarrow> tp \<in> set (pl_table_plans p)" by blast
    note m = plan_table_matches [OF pt t j z]
    from m(1) [OF that] obtain k where k: "k < length (planned_items X d q name its)"
      "planned_items X d q name its ! k = i" by (auto simp: in_set_conv_nth)
    with m(4) obtain tq where tq: "tpo = Some tq" by (cases tpo) auto
    with m(2) [OF tq, of k row] m(3) [OF tq] k that(2) have
      "tp_predicates tq ! k \<in> set (tp_predicates tq)" "row_admits X (tp_predicates tq ! k) (present row)" by auto
    moreover from plan_table_ok [OF pt] tq have "tp_table tq = name" by auto
    ultimately show ?thesis using tp [OF tq] by (auto simp: list_ex_iff)
  qed
  ultimately show ?thesis unfolding row by (fastforce simp: list_ex_iff)
qed

text \<open>
  C2: A planned relation follows exactly the rows whose item asked for it: under whatever name, through
  whatever alias, a row of the table feeds the relation if and only if an item it matches asks for that
  join. No join is planned twice for a table, and every relation of an item some row can match is planned.
\<close>

theorem plan_relations_follow:
  assumes c: "compile X q d = Inr p" and tp: "tp \<in> set (pl_table_plans p)"
    and e: "(tp_table tp, its) \<in> set (u_items q)" and u: "omap_ok (u_items q)"
    and t: "table d (tp_table tp) = Some t" and j: "list_all item_filters_ok its" and z: "sizes_ok t"
  shows "sorted_wrt (\<lambda>a b. \<not> same_join a b) (tp_relations tp) \<and>
    list_all (\<lambda>rp. list_ex (\<lambda>(k, r). follows rp k \<and> row_admits X r (\<lambda>k. Some (row k))) (enumerate 0 (tp_predicates tp)) \<longleftrightarrow>
      list_ex (\<lambda>i. asks d q t i rp \<and> item_matches X t (u_sets q) row i) its) (tp_relations tp) \<and>
    list_all (\<lambda>i. item_matches X t (u_sets q) row i \<longrightarrow>
      list_all (\<lambda>name. case relation_def_of d t i name of
          None \<Rightarrow> False
        | Some r \<Rightarrow> list_ex (\<lambda>rp. same_join rp (relation_plan_of d q r)) (tp_relations tp)) (i_relations i)) its"
proof -
  have row: "(\<lambda>k. Some (row k)) = present row" by (simp add: present_def fun_eq_iff)
  from plan_of_items [OF c tp u e] obtain r1 r2 where
    pt: "plan_table X d q (tp_table tp, its) r1 = Inr (Some tp, r2)" by blast
  let ?its = "planned_items X d q (tp_table tp) its"
  from plan_table_ok [OF pt] t have r: "relations_planned d q t ?its (tp_relations tp)" by simp
  note m = plan_table_matches [OF pt t j z]
  have sub: "set ?its \<subseteq> set its" using t by (auto simp: planned_items_def)
  have "list_ex (\<lambda>(k, r). follows rp k \<and> row_admits X r (present row)) (enumerate 0 (tp_predicates tp)) \<longleftrightarrow>
      list_ex (\<lambda>i. asks d q t i rp \<and> item_matches X t (u_sets q) row i) its" if rp: "rp \<in> set (tp_relations tp)" for rp
  proof -
    have "list_ex (\<lambda>(k, r). follows rp k \<and> row_admits X r (present row)) (enumerate 0 (tp_predicates tp)) \<longleftrightarrow>
        (\<exists>k < length (tp_predicates tp). follows rp k \<and> row_admits X (tp_predicates tp ! k) (present row))"
      by (auto simp: list_ex_iff in_set_enumerate_eq)
    also have "\<dots> \<longleftrightarrow> (\<exists>k < length ?its. asks d q t (?its ! k) rp \<and> item_matches X t (u_sets q) row (?its ! k))"
      using r rp m(2) [OF refl, of _ row] m(3) [OF refl] by (auto simp: relations_planned_def)
    also have "\<dots> \<longleftrightarrow> (\<exists>i \<in> set ?its. asks d q t i rp \<and> item_matches X t (u_sets q) row i)"
      by (simp flip: list_ex_length [of "\<lambda>i. asks d q t i rp \<and> item_matches X t (u_sets q) row i"] add: list_ex_iff)
    also have "\<dots> \<longleftrightarrow> (\<exists>i \<in> set its. asks d q t i rp \<and> item_matches X t (u_sets q) row i)"
      using m(1) [of _ row] sub by blast
    finally show ?thesis by (simp add: list_ex_iff)
  qed
  moreover have "list_all (\<lambda>name. case relation_def_of d t i name of
          None \<Rightarrow> False
        | Some r \<Rightarrow> list_ex (\<lambda>rp. same_join rp (relation_plan_of d q r)) (tp_relations tp)) (i_relations i)"
    if "i \<in> set its" "item_matches X t (u_sets q) row i" for i
    using r m(1) [OF that] by (fastforce simp: relations_planned_def list_all_iff list_ex_iff)
  ultimately show ?thesis
    using r unfolding row by (simp add: relations_planned_def list_all_iff)
qed


text \<open>The sample request: of the two items of its logs only the first asks for the transactions.\<close>

definition sample_alias_item :: query_item where
  "sample_alias_item =
     \<lparr>i_filters = [(''address'', JString ''0xcd''), (''topic0'', JArray [JString ''0xdd''])],
      i_relations = [], i_alias = Some ''tokenLogs''\<rparr>"

definition sample_predicates :: "row_predicate list" where
  "sample_predicates =
     [row_predicate_new [(''address'', PInList (AText Utf8 [''0xab''] None))],
      row_predicate_new [(''address'', PInList (AText Utf8 [''0xcd''] None)),
        (''topic0'', PInList (AText Utf8 [''0xdd''] None))]]"

definition sample_join :: relation_plan where
  "sample_join =
     \<lparr>rl_target = ''transactions'', rl_kind = PJoin, rl_left_key = [''block_number'', ''transaction_index''],
      rl_right_key = [''block_number'', ''transaction_index''], rl_output_columns = [],
      rl_source_items = Some [0]\<rparr>"

definition sample_table_plan :: table_plan where
  "sample_table_plan =
     \<lparr>tp_table = ''logs'', tp_output_columns = [''address''], tp_predicates = sample_predicates,
      tp_relations = [sample_join]\<rparr>"

definition sample_plan :: plan where
  "sample_plan =
     \<lparr>pl_from_block = 10, pl_to_block = Some 20, pl_include_all_blocks = False, pl_parent_block_hash = None,
      pl_block_table = ''blocks'', pl_block_output_columns = [], pl_table_plans = [sample_table_plan]\<rparr>"

lemma sample_scope_of: "scope_of sample_query ''logs'' = sample_scope"
  by (simp add: scope_of_def sample_query_def sample_scope_def)

lemma sample_alias_item_compiles:
  "compile_item_predicates plain_externals sample_alias_item sample_logs sample_scope no_references =
     Inr (Compiled (sample_predicates ! 1), no_references)"
proof -
  have c: "column sample_logs ''address'' = Some (plain_column TString \<lparr>c_encoding := Some HexBytes\<rparr>)"
    "column sample_logs ''topic0'' = Some (plain_column TString)"
    "lowercase ''0xcd'' = ''0xcd''" by code_simp+
  have l: "check_item_limits sample_alias_item sample_logs = Inr ()"
    by (simp add: check_item_limits_def sample_alias_item_def sample_logs_def discriminator_family_def request_def
        max_discriminator_filters_def)
  have s: "map_of (q_special_filters (request sample_logs)) ''address'' = None"
    "map_of (q_special_filters (request sample_logs)) ''topic0'' = None"
    by (simp_all add: sample_logs_def request_def)
  show ?thesis
    unfolding compile_item_predicates_def l
    by (simp add: sample_alias_item_def item_step_def compile_filter_def set_references_def list_of_def
        add_set_name_def s c compile_column_filter_def is_filter_scalar_def compile_in_list_def strings_of_def
        plain_column_def fold_for_column_def folds_case_def in_list_of_def apply_effect_def finish_item_def
        no_references_def row_predicate_new_def takes_value_list_def sample_predicates_def)
qed

lemma sample_plan_table:
  "plan_table plain_externals sample_catalog sample_query (''logs'', [sample_item, sample_alias_item]) no_references =
     Inr (Some sample_table_plan, no_references)"
proof -
  have t: "table sample_catalog ''logs'' = Some sample_logs" by (simp add: table_def sample_catalog_def)
  have i1: "compile_item_predicates plain_externals sample_item sample_logs sample_scope no_references =
     Inr (Compiled (sample_predicates ! 0), no_references)"
    using sample_item_compiles by (simp add: sample_predicates_def)
  have r: "relation_def_of sample_catalog sample_logs sample_item ''transaction'' = Some \<lparr>r_table = ''transactions'',
      r_kind = Join, r_key = [''block_number'', ''transaction_index''], r_left_key = [], r_right_key = []\<rparr>"
    by (simp add: relation_def_of_def sample_item_def sample_logs_def request_def)
  have o: "output_columns_of sample_query ''logs'' (Some sample_logs) = [''address'']"
    "output_columns_of sample_query ''transactions'' tr = []" for tr by code_simp+
  have n: "i_relations sample_item = [''transaction'']" "i_relations sample_alias_item = []"
    by (simp_all add: sample_item_def sample_alias_item_def)
  show ?thesis
    by (simp add: plan_table_def t sample_scope_of plan_item_def i1 sample_alias_item_compiles n
        plan_relation_def r relation_plan_of_def o effective_left_key_def effective_right_key_def
        set_insert_def finish_relation_def sample_table_plan_def sample_predicates_def sample_join_def)
qed

lemma sample_items_of_query: "u_items sample_query = [(''logs'', [sample_item, sample_alias_item])]"
  by (simp add: sample_query_def sample_item_def sample_alias_item_def)

lemma sample_compiles: "compile plain_externals sample_query sample_catalog = Inr sample_plan"
proof -
  have b: "block_table_name sample_catalog = ''blocks''" by code_simp
  have q: "u_sets sample_query = []" "u_parent_block_hash sample_query = None"
    "u_from_block sample_query = 10" "u_to_block sample_query = Some 20" "\<not> u_include_all_blocks sample_query"
    "\<And>t. output_columns_of sample_query ''blocks'' t = []"
    by (simp_all add: sample_query_def output_columns_of_def)
  show ?thesis
    by (simp add: compile_def b q plan_tables_def requested_tables_def sample_items_of_query sample_plan_table
        no_references_def [symmetric] sample_plan_def keys_def)
qed

theorem plan_answers_witness:
  "list_ex (item_matches plain_externals sample_logs (u_sets sample_query) sample_row) [sample_item, sample_alias_item]"
proof -
  have "(''logs'', [sample_item, sample_alias_item]) \<in> set (u_items sample_query)" "omap_ok (u_items sample_query)"
    "table sample_catalog ''logs'' = Some sample_logs"
    "list_all item_filters_ok [sample_item, sample_alias_item]"
    by (simp_all add: sample_items_of_query omap_ok_def keys_def table_def sample_catalog_def item_filters_ok_def
        sample_item_def sample_alias_item_def)
  from plan_answers [OF sample_compiles this sample_logs_sizes, of sample_row] show ?thesis
    by (simp add: sample_plan_def sample_table_plan_def sample_predicates_def row_admits_def row_predicate_new_def
        with_alternatives_def all_admit_def sample_row_def in_list_admits_def)
qed

theorem plan_relations_follow_witness:
  "list_ex (\<lambda>i. asks sample_catalog sample_query sample_logs i sample_join \<and>
      item_matches plain_externals sample_logs (u_sets sample_query) sample_row i) [sample_item, sample_alias_item]"
proof -
  have t: "tp_table sample_table_plan = ''logs''" by (simp add: sample_table_plan_def)
  have "sample_table_plan \<in> set (pl_table_plans sample_plan)"
    "(tp_table sample_table_plan, [sample_item, sample_alias_item]) \<in> set (u_items sample_query)"
    "omap_ok (u_items sample_query)" "table sample_catalog (tp_table sample_table_plan) = Some sample_logs"
    "list_all item_filters_ok [sample_item, sample_alias_item]"
    by (simp_all add: t sample_plan_def sample_items_of_query omap_ok_def keys_def table_def sample_catalog_def
        item_filters_ok_def sample_item_def sample_alias_item_def)
  from plan_relations_follow [OF sample_compiles this sample_logs_sizes, of sample_row] show ?thesis
    by (simp add: sample_table_plan_def sample_predicates_def row_admits_def row_predicate_new_def
        with_alternatives_def all_admit_def sample_row_def in_list_admits_def sample_join_def follows_def)
qed



section \<open>Order, sets and refusals\<close>

lemma foldl_no_new:
  "set cols \<subseteq> set acc \<Longrightarrow> foldl (\<lambda>result col. if col \<in> set result then result else result @ [col]) acc cols = acc"
  by (induction cols) auto

text \<open>Selected columns the table declares come out in the order it declares them.\<close>

lemma order_columns_declared:
  assumes "set cols \<subseteq> set (keys (t_columns t)) \<union> set (keys (o_virtual_fields (t_output t)))"
  shows "order_columns_by_metadata cols (Some t) =
    filter (\<lambda>k. k \<in> set cols) (keys (t_columns t) @ keys (o_virtual_fields (t_output t)))"
proof -
  have "set cols \<subseteq> set (filter (\<lambda>k. k \<in> set cols) (keys (t_columns t)) @
      filter (\<lambda>k. k \<in> set cols) (keys (o_virtual_fields (t_output t))))" using assms by auto
  from foldl_no_new [OF this] show ?thesis by (simp add: order_columns_by_metadata_def Let_def)
qed

definition fields_declared :: "table_description \<Rightarrow> string list \<Rightarrow> bool" where
  "fields_declared t cols =
     list_all (\<lambda>k. contains_key (t_columns t) k \<or> contains_key (o_virtual_fields (t_output t)) k) cols"

lemma output_columns_declared:
  assumes "map_of (u_fields q) name = Some cols" and "fields_declared t cols"
  shows "output_columns_of q name (Some t) =
    filter (\<lambda>k. k \<in> set cols) (keys (t_columns t) @ keys (o_virtual_fields (t_output t)))"
  using assms order_columns_declared [of cols t]
  by (auto simp: output_columns_of_def fields_declared_def list_all_iff subset_iff)

lemma index_of_nth_less: "index_of xs x = Some i \<Longrightarrow> index_of xs y = Some j \<Longrightarrow> x \<noteq> y \<Longrightarrow> i \<noteq> j"
  by (metis index_of_Some)

text \<open>The planned tables are a subsequence of the requested ones.\<close>

lemma planned_names_subseq:
  "list_all2 (\<lambda>e tp. \<exists>r r'. plan_table X d q e r = Inr (tp, r')) es ps \<Longrightarrow>
     sorted_wrt P (map fst es) \<Longrightarrow> sorted_wrt P (map tp_table (concat (map opt_list ps)))"
proof (induction es ps rule: list_all2_induct)
  case (Cons e es tp ps)
  obtain name its where e: "e = (name, its)" by (cases e)
  have "tp_table y \<in> fst ` set es" if "Some y \<in> set ps" for y
  proof -
    from list_all2_right [OF Cons(2) that] obtain n i r r' where
      "(n, i) \<in> set es" "plan_table X d q (n, i) r = Inr (Some y, r')" by auto
    with plan_table_ok [OF this(2)] show ?thesis by force
  qed
  moreover have "tp_table y = name" if "tp = Some y" for y
    using Cons(1) plan_table_ok that unfolding e by fastforce
  ultimately show ?case
    using Cons by (cases tp) (fastforce simp: e set_opt_list)+
qed simp

lemma table_index:
  "table d n = Some t \<Longrightarrow> \<exists>i. index_of (keys (d_tables d)) n = Some i"
  by (cases "index_of (keys (d_tables d)) n") (force simp: table_def keys_def dest: map_of_SomeD)+

lemma requested_tables_sorted:
  assumes "omap_ok (u_items q)"
  shows "sorted_wrt (\<lambda>m n. (index_of (keys (d_tables d)) m, m) < (index_of (keys (d_tables d)) n, n))
    (map fst (requested_tables d q))"
proof -
  let ?f = "\<lambda>n. (index_of (keys (d_tables d)) n, n)"
  have k: "(\<lambda>(name, _). (index_of (keys (d_tables d)) name, name)) = ?f \<circ> fst" by (auto simp: fun_eq_iff)
  have "sorted (map (?f \<circ> fst) (requested_tables d q))"
    by (simp add: requested_tables_def k del: comp_apply map_map)
  moreover have "distinct (map fst (requested_tables d q))"
  proof -
    have "mset (map fst (requested_tables d q)) = mset (map fst (u_items q))"
      by (simp add: requested_tables_def)
    then show ?thesis using assms by (metis omap_ok_def keys_def mset_eq_imp_distinct_iff)
  qed
  then have "distinct (map (?f \<circ> fst) (requested_tables d q))"
    by (auto simp: distinct_map inj_on_def)
  ultimately have "sorted_wrt (<) (map (?f \<circ> fst) (requested_tables d q))"
    by (simp only: strict_sorted_iff)
  then show ?thesis by (simp add: sorted_wrt_map)
qed

text \<open>
  A plan is laid out in the catalog's order: its tables are distinct and come as the catalog declares
  them, and each table's output columns are the selected ones and no others, its stored columns first
  and then its virtual fields, each as declared.
\<close>

theorem plan_catalog_order:
  assumes "compile X q d = Inr p" and "omap_ok (u_items q)"
  shows "sorted_wrt (\<lambda>a b. index_of (keys (d_tables d)) (tp_table a) < index_of (keys (d_tables d)) (tp_table b))
      (pl_table_plans p) \<and>
    list_all (\<lambda>tp. case (map_of (u_fields q) (tp_table tp), table d (tp_table tp)) of
        (Some cols, Some t) \<Rightarrow> fields_declared t cols \<longrightarrow>
          tp_output_columns tp =
            filter (\<lambda>k. k \<in> set cols) (keys (t_columns t) @ keys (o_virtual_fields (t_output t)))
      | (None, _) \<Rightarrow> tp_output_columns tp = []
      | _ \<Rightarrow> False) (pl_table_plans p)"
proof
  let ?x = "index_of (keys (d_tables d))"
  from compile_Inr [OF assms(1)] obtain ps where
    ps: "list_all2 (\<lambda>e tp. \<exists>r r'. plan_table X d q e r = Inr (tp, r')) (requested_tables d q) ps"
    and pl: "pl_table_plans p = concat (map opt_list ps)" by blast
  have ts: "\<exists>t. table d (tp_table tp) = Some t \<and> tp_output_columns tp = output_columns_of q (tp_table tp) (Some t)"
    if "tp \<in> set (pl_table_plans p)" for tp
    using plan_of_table [OF assms(1) that] plan_table_ok by fastforce
  have "sorted_wrt (\<lambda>a b. (?x (tp_table a), tp_table a) < (?x (tp_table b), tp_table b)) (pl_table_plans p)"
    using planned_names_subseq [OF ps requested_tables_sorted [OF assms(2)]] by (simp add: pl sorted_wrt_map)
  then show "sorted_wrt (\<lambda>a b. ?x (tp_table a) < ?x (tp_table b)) (pl_table_plans p)"
  proof (rule sorted_wrt_mono_rel [rotated])
    fix a b
    assume ab: "a \<in> set (pl_table_plans p)" "b \<in> set (pl_table_plans p)"
      and l: "(?x (tp_table a), tp_table a) < (?x (tp_table b), tp_table b)"
    from ts [OF ab(1)] ts [OF ab(2)] table_index obtain i j where "?x (tp_table a) = Some i" "?x (tp_table b) = Some j"
      by metis
    moreover with l have "i \<noteq> j" by (metis index_of_nth_less less_irrefl)
    ultimately show "?x (tp_table a) < ?x (tp_table b)" using l by (auto simp: less_prod_def')
  qed
  show "list_all (\<lambda>tp. case (map_of (u_fields q) (tp_table tp), table d (tp_table tp)) of
        (Some cols, Some t) \<Rightarrow> fields_declared t cols \<longrightarrow>
          tp_output_columns tp =
            filter (\<lambda>k. k \<in> set cols) (keys (t_columns t) @ keys (o_virtual_fields (t_output t)))
      | (None, _) \<Rightarrow> tp_output_columns tp = []
      | _ \<Rightarrow> False) (pl_table_plans p)"
    unfolding list_all_iff
  proof
    fix tp
    assume "tp \<in> set (pl_table_plans p)"
    from ts [OF this] show "case (map_of (u_fields q) (tp_table tp), table d (tp_table tp)) of
        (Some cols, Some t) \<Rightarrow> fields_declared t cols \<longrightarrow>
          tp_output_columns tp =
            filter (\<lambda>k. k \<in> set cols) (keys (t_columns t) @ keys (o_virtual_fields (t_output t)))
      | (None, _) \<Rightarrow> tp_output_columns tp = []
      | _ \<Rightarrow> False"
      using output_columns_declared by (auto split: option.splits simp: output_columns_of_def)
  qed
qed

theorem plan_catalog_order_witness: "tp_output_columns sample_table_plan = [''address'']"
proof -
  have "fields_declared sample_logs [''address'']" "map_of (u_fields sample_query) ''logs'' = Some [''address'']"
    "table sample_catalog ''logs'' = Some sample_logs" "omap_ok (u_items sample_query)"
    by (simp_all add: sample_logs_def fields_declared_def sample_query_def table_def sample_catalog_def omap_ok_def
        keys_def contains_key_def no_variants_def)
  moreover have "keys (t_columns sample_logs) =
      [''block_number'', ''transaction_index'', ''log_index'', ''address'', ''topic0'', ''topic1'', ''data'', ''data_size'']"
    "keys (o_virtual_fields (t_output sample_logs)) = [''topics'']"
    by (simp_all add: sample_logs_def keys_def no_variants_def)
  ultimately show ?thesis using plan_catalog_order [OF sample_compiles]
    by (simp add: sample_plan_def sample_table_plan_def)
qed


text \<open>The references of a request, counted as the code counts them: a name once for each list.\<close>

definition item_references :: "query_item \<Rightarrow> nat" where
  "item_references i = sum_list (map (\<lambda>f. card (set (set_names (snd f)))) (i_filters i))"

definition request_references :: "(string, query_item list) omap \<Rightarrow> nat" where
  "request_references items = sum_list (map (\<lambda>(name, its). sum_list (map item_references its)) items)"

lemma add_set_names_distinct:
  "try_fold add_set_name ws names = Inr names' \<Longrightarrow> distinct names \<Longrightarrow> distinct names'"
  by (induction ws arbitrary: names)
    (auto simp: and_then_Inr_iff add_set_name_def split: option.splits if_splits bool.splits)

lemma compile_filter_count:
  assumes "compile_filter X t scope f r = Inr (e, r')"
  shows "rf_count r' = rf_count r + card (set (set_names (snd f)))"
proof -
  obtain key v where f: "f = (key, v)" by (cases f)
  from assms f obtain names where n: "set_references v = Inr names"
    by (auto simp: compile_filter_def and_then_Inr_iff)
  then have "distinct names" by (auto simp: set_references_def dest: add_set_names_distinct)
  then have l: "length names = card (set (set_names v))"
    using set_references_Inr(1) [OF n] by (metis distinct_card)
  show ?thesis
  proof (cases "names = []")
    case True
    with assms n f have "r' = r"
      by (auto simp: compile_filter_def and_then_Inr_iff split: if_splits option.splits)
    with True l show ?thesis by (simp add: f)
  next
    case False
    with assms n f l show ?thesis
      by (auto simp: compile_filter_def and_then_Inr_iff dest!: add_references_Inr)
  qed
qed

lemma compile_item_count:
  assumes "compile_item_predicates X i t scope r = Inr (ci, r')"
  shows "rf_count r' = rf_count r + item_references i"
proof -
  have steps: "rf_count (is_referred s') = rf_count (is_referred s) +
      sum_list (map (\<lambda>f. card (set (set_names (snd f)))) fs)"
    if "try_fold (item_step X t scope) fs s = Inr s'" for fs s s'
    using that
  proof (induction fs arbitrary: s)
    case (Cons f fs)
    from Cons.prems obtain e r where c: "compile_filter X t scope f (is_referred s) = Inr (e, r)"
      and s': "try_fold (item_step X t scope) fs ((apply_effect e s)\<lparr>is_referred := r\<rparr>) = Inr s'"
      by (auto simp: and_then_Inr_iff item_step_def [of _ _ _ f] apply_effect_referred)
    from Cons.IH [OF s'] compile_filter_count [OF c] show ?case by simp
  qed simp
  from assms show ?thesis
    by (auto simp: compile_item_predicates_def and_then_Inr_iff item_references_def dest!: steps)
qed

definition item_sets_sound ::
    "externals \<Rightarrow> table_description \<Rightarrow> set_scope \<Rightarrow> query_item \<Rightarrow> bool" where
  "item_sets_sound X t scope i =
     list_all (\<lambda>f. list_all (reference_sound X t scope (fst f)) (set_names (snd f))) (i_filters i)"

definition item_set_names :: "query_item \<Rightarrow> string set" where
  "item_set_names i = (\<Union>f \<in> set (i_filters i). set (set_names (snd f)))"

lemma plan_item_references:
  assumes "plan_item X d q t scope i s = Inr s'"
  shows "set (rf_named (ts_referred s')) = item_set_names i \<union> set (rf_named (ts_referred s)) \<and>
    rf_count (ts_referred s') = rf_count (ts_referred s) + item_references i \<and>
    (rf_count (ts_referred s) \<le> 64 \<longrightarrow> rf_count (ts_referred s') \<le> 64) \<and> item_sets_sound X t scope i"
proof -
  from assms obtain ci r where c: "compile_item_predicates X i t scope (ts_referred s) = Inr (ci, r)"
    by (auto simp: plan_item_def and_then_Inr_iff)
  with assms have r: "ts_referred s' = r"
    by (cases ci) (auto simp: plan_item_def and_then_Inr_iff)
  from compile_item_references [OF c] compile_item_count [OF c] show ?thesis
    by (simp add: r item_set_names_def item_sets_sound_def)
qed

lemma plan_items_references:
  "try_fold (plan_item X d q t scope) its s = Inr s' \<Longrightarrow>
     set (rf_named (ts_referred s')) = (\<Union>i \<in> set its. item_set_names i) \<union> set (rf_named (ts_referred s)) \<and>
     rf_count (ts_referred s') = rf_count (ts_referred s) + sum_list (map item_references its) \<and>
     (rf_count (ts_referred s) \<le> 64 \<longrightarrow> rf_count (ts_referred s') \<le> 64) \<and> list_all (item_sets_sound X t scope) its"
proof (induction its arbitrary: s)
  case (Cons i its)
  from Cons.prems obtain s1 where "plan_item X d q t scope i s = Inr s1"
    "try_fold (plan_item X d q t scope) its s1 = Inr s'" by (auto simp: and_then_Inr_iff)
  with plan_item_references [OF this(1)] Cons.IH [OF this(2)] show ?case by auto
qed simp

definition table_sets_sound ::
    "externals \<Rightarrow> dataset_description \<Rightarrow> query \<Rightarrow> string \<times> query_item list \<Rightarrow> bool" where
  "table_sets_sound X d q = (\<lambda>(name, its).
     case table d name of None \<Rightarrow> False | Some t \<Rightarrow> list_all (item_sets_sound X t (scope_of q name)) its)"

lemma plan_table_references:
  assumes "plan_table X d q (name, its) r = Inr (tp, r')"
  shows "set (rf_named r') = (\<Union>i \<in> set its. item_set_names i) \<union> set (rf_named r) \<and>
    rf_count r' = rf_count r + sum_list (map item_references its) \<and>
    (rf_count r \<le> 64 \<longrightarrow> rf_count r' \<le> 64) \<and> table_sets_sound X d q (name, its)"
  using assms
  by (auto simp: plan_table_def and_then_Inr_iff Let_def table_sets_sound_def dest!: plan_items_references)

lemma plan_tables_references:
  assumes "try_fold (\<lambda>entry (plans, referred). and_then (plan_table X d q entry referred) (\<lambda>(p, referred').
      Inr (plans @ opt_list p, referred'))) entries (plans0, r) = Inr (plans, r')"
  shows "set (rf_named r') = (\<Union>(name, its) \<in> set entries. \<Union>i \<in> set its. item_set_names i) \<union> set (rf_named r) \<and>
    rf_count r' = rf_count r + request_references entries \<and>
    (rf_count r \<le> 64 \<longrightarrow> rf_count r' \<le> 64) \<and> list_all (table_sets_sound X d q) entries"
  using assms
proof (induction entries arbitrary: plans0 r)
  case Nil
  then show ?case by (simp add: request_references_def)
next
  case (Cons e entries)
  obtain name its where e: "e = (name, its)" by (cases e)
  from Cons.prems obtain p r1 where p: "plan_table X d q (name, its) r = Inr (p, r1)"
    and f: "try_fold (\<lambda>entry (plans, referred). and_then (plan_table X d q entry referred) (\<lambda>(p, referred').
      Inr (plans @ opt_list p, referred'))) entries (plans0 @ opt_list p, r1) = Inr (plans, r')"
    by (auto simp: and_then_Inr_iff e)
  from plan_table_references [OF p] Cons.IH [OF f] show ?case
    by (auto simp: e request_references_def)
qed

lemma request_references_requested:
  "request_references (requested_tables d q) = request_references (u_items q)"
proof -
  have "mset (map g (requested_tables d q)) = mset (map g (u_items q))" for g :: "_ \<Rightarrow> nat"
    by (simp add: requested_tables_def)
  then show ?thesis unfolding request_references_def by (metis sum_mset_sum_list)
qed

text \<open>
  C30: Every set a request declares is put to use and every use of one is sound: each declared set is
  named by some filter; each reference is to a declared set, on a column a selected field shows, and the
  set passes its own canaries in the text that column renders; and a plan looks rows up in at most
  sixty-four sets in all.
\<close>

theorem plan_sets_used:
  assumes "compile X q d = Inr p"
  shows "set (keys (u_sets q)) \<subseteq> (\<Union>(name, its) \<in> set (u_items q). \<Union>i \<in> set its. item_set_names i) \<and>
    request_references (u_items q) \<le> 64 \<and>
    list_all (table_sets_sound X d q) (u_items q)"
proof -
  from assms obtain plans referred where f: "plan_tables X d q = Inr (plans, referred)"
    and n: "set (keys (u_sets q)) \<subseteq> set (rf_named referred)"
    by (auto simp: compile_def and_then_Inr_iff Let_def list_all_iff)
  from plan_tables_references [OF f [unfolded plan_tables_def]] n show ?thesis
    by (simp add: request_references_requested no_references_def list_all_iff)
qed


text \<open>Every refusal of the compiler is the client's error.\<close>

lemma fixed_size_builder_total:
  assumes "width < 2 ^ 31" and "list_all (\<lambda>b. length b = width) vals"
  shows "refuses_as P (fixed_size_builder vals width)"
proof -
  from assms(1) have "sint (word_of_nat width :: u32) = int width"
    by (simp add: signed_of_nat signed_take_bit_int_eq_self)
  with assms(2) show ?thesis
    by (auto simp: fixed_size_builder_def Let_def list_all_iff intro!: refuses_as_and_then refuses_as_try_for_each)
qed

lemma split_binary_refuses: "refuses_as validation_error (split_binary_in_list X vs)"
  unfolding split_binary_in_list_def add_split_value_def
  by (auto intro!: refuses_as_try_fold split: option.splits)

lemma compile_in_list_refuses: "fixed_size_ok c \<Longrightarrow> refuses_as validation_error (compile_in_list X col vs c)"
  unfolding compile_in_list_def strings_of_def compile_unsigned_in_list_def compile_signed_in_list_def
    compile_fixed_in_list_def Let_def fixed_size_ok_def
  by (auto intro!: refuses_as_and_then refuses_as_try_collect split_binary_refuses fixed_size_builder_total
      simp: list_all_iff split: column_type.splits)

lemma compile_discriminator_refuses: "refuses_as validation_error (compile_discriminator X v columns)"
proof -
  have p: "refuses_as validation_error (add_prefix X w s)" for w s
    unfolding add_prefix_def parse_discriminator_value_def
    by (auto intro!: refuses_as_and_then split: prod.splits)
  have g: "refuses_as validation_error (discriminator_group columns (n, vals))"
    if "n \<le> 16" "list_all (\<lambda>b. length b = n) vals" for n vals
    unfolding discriminator_group_def discriminator_array_def Let_def
    using that by (auto intro!: refuses_as_and_then fixed_size_builder_total)
  have "lengths_ok []" by (simp add: lengths_ok_def)
  then have l: "n \<le> 16 \<and> list_all (\<lambda>b. length b = n) vals"
    if "try_fold (add_prefix X) vs ([], False) = Inr (m, b)" "(n, vals) \<in> set m" for vs m b n vals
    using add_prefixes_Inr [OF that(1)] that(2) by (auto simp: lengths_ok_def list_all_iff)
  show ?thesis
    unfolding compile_discriminator_def
    by (auto intro!: refuses_as_and_then refuses_as_try_fold refuses_as_try_collect p split: prod.splits)
      (metis g l)
qed

lemma compile_special_refuses:
  assumes "sizes_ok t"
  shows "refuses_as validation_error (compile_special X t special v)"
  unfolding compile_special_def compile_bloom_filter_def compile_range_gte_def compile_range_lte_def
    range_bound_def compile_column_filter_def strings_of_def Let_def
  using sizes_ok_column [OF assms]
  by (auto intro!: refuses_as_and_then refuses_as_try_collect compile_discriminator_refuses compile_in_list_refuses
      split: special_filter.splits option.splits column_type.splits)


lemma compile_set_filter_refuses:
  assumes t: "sizes_ok t" and ss: "list_all (\<lambda>(n, s). set_ok s) (sc_sets scope)"
  shows "refuses_as validation_error (compile_set_filter X key v names t scope)"
proof -
  have col: "refuses_as validation_error (set_filter_column key t)"
    by (simp add: set_filter_column_def split: option.splits special_filter.splits)
  have "refuses_as validation_error (check_canary X canary s c)" if "set_ok s" for canary s c
    using that fuse_contains_total [of "s_fuse8 s" X]
    by (auto simp: check_canary_def Let_def set_ok_def intro!: refuses_as_and_then)
  moreover have "set_ok s" if "try_collect (\<lambda>name. ok_or (EngineError UnknownSet) (map_of (sc_sets scope) name)) names
      = Inr fs" "s \<in> set fs" for fs s
    using that ss by (fastforce simp: try_collect_Inr_iff list_all_iff dest: list_all2_right map_of_SomeD)
  ultimately show ?thesis
    unfolding compile_set_filter_def Let_def
    using sizes_ok_column [OF t]
    by (auto intro!: refuses_as_and_then refuses_as_try_collect refuses_as_try_for_each col compile_in_list_refuses
        split: option.splits)
qed

lemma compile_filter_refuses:
  assumes t: "sizes_ok t" and ss: "list_all (\<lambda>(n, s). set_ok s) (sc_sets scope)"
  shows "refuses_as validation_error (compile_filter X t scope f r)"
proof -
  have n: "refuses_as validation_error (set_references v)" for v
    unfolding set_references_def add_set_name_def
    by (auto intro!: refuses_as_try_fold split: option.splits bool.splits)
  have c: "refuses_as validation_error (compile_column_filter X key v c)" if "column t key = Some c" for key v c
    unfolding compile_column_filter_def
    using sizes_ok_column [OF t that]
    by (auto intro!: refuses_as_and_then compile_in_list_refuses split: option.splits column_type.splits)
  show ?thesis
    unfolding compile_filter_def add_references_def Let_def
    using c
    by (auto intro!: refuses_as_and_then n compile_set_filter_refuses [OF t ss] compile_special_refuses [OF t]
        split: prod.splits option.splits)
qed

lemma plan_item_refuses:
  assumes t: "sizes_ok t" and ss: "list_all (\<lambda>(n, s). set_ok s) (sc_sets scope)"
  shows "refuses_as validation_error (plan_item X d q t scope i s)"
proof -
  have "refuses_as validation_error (check_item_limits i t)"
    unfolding check_item_limits_def Let_def
    by (auto intro!: refuses_as_and_then refuses_as_try_for_each split: option.splits special_filter.splits)
  moreover have "refuses_as validation_error (plan_relation d q t i n name planned)" for n name planned
    unfolding plan_relation_def by (auto intro!: refuses_as_and_then)
  ultimately show ?thesis
    unfolding plan_item_def compile_item_predicates_def item_step_def
    by (auto intro!: refuses_as_and_then refuses_as_try_fold compile_filter_refuses [OF t ss]
        split: compiled_item.splits)
qed

lemma compile_refuses:
  assumes z: "catalog_sizes_ok d" and ss: "list_all (\<lambda>(n, s). set_ok s) (u_sets q)"
  shows "refuses_as validation_error (compile X q d)"
proof -
  have t: "sizes_ok t" if "table d n = Some t" for n t
    using z that by (auto simp: catalog_sizes_ok_def table_def list_all_iff dest: map_of_SomeD)
  have "refuses_as validation_error (plan_table X d q e r)" for e r
    unfolding plan_table_def Let_def
    using t ss by (auto intro!: refuses_as_and_then refuses_as_try_fold plan_item_refuses
        simp: scope_of_def split: prod.splits)
  then show ?thesis
    unfolding compile_def plan_tables_def Let_def
    by (auto intro!: refuses_as_and_then refuses_as_try_fold split: option.splits)
qed

text \<open>
  The width of a fixed-size binary column reaches Arrow as an \<open>i32\<close>, and no check of the catalog bounds it: a catalog with
  a column of \<open>2 ^ 31\<close> bytes is accepted, and a list filter on that column panics.
\<close>

lemma fixed_size_builder_panics:
  assumes "2 ^ 31 \<le> width" and "width < 2 ^ 32"
  shows "fixed_size_builder vals width = Inl Panic"
proof -
  have "width div 2 ^ 31 = 1" using assms by (intro div_nat_eqI) simp_all
  then have "bit width 31" by (simp add: bit_iff_odd)
  then have "sint (word_of_nat width :: u32) < 0"
    by (simp add: signed_of_nat signed_take_bit_negative_iff bit_of_nat_iff)
  then show ?thesis by (simp add: fixed_size_builder_def)
qed

lemma wide_list_panics:
  assumes "2 ^ 31 \<le> width" and "width < 2 ^ 32" and "c_data_type c = TFixedBinary width"
    and "split_binary_in_list X vs = Inr (hex, [])"
  shows "compile_in_list X col vs c = Inl Panic"
  using assms fixed_size_builder_panics by (simp add: compile_in_list_def compile_fixed_in_list_def)

definition wide_transactions :: "nat \<Rightarrow> table_description" where
  "wide_transactions width = sample_transactions
     \<lparr>t_columns := [(''block_number'', plain_column TUInt64), (''transaction_index'', plain_column TUInt32),
        (''from'', plain_column (TFixedBinary width))]\<rparr>"

definition wide_catalog :: "nat \<Rightarrow> dataset_description" where
  "wide_catalog width = sample_catalog\<lparr>d_tables := [(''blocks'', sample_blocks), (''transactions'', wide_transactions width), (''logs'', sample_logs)]\<rparr>"

lemma wide_catalog_accepted: "validate (wide_catalog width) = Inr ()"
  by code_simp

definition wide_query :: query where
  "wide_query = sample_query\<lparr>u_fields := [], u_items := [(''transactions'',
     [\<lparr>i_filters = [(''from'', JArray [JString ''0xab''])], i_relations = [], i_alias = None\<rparr>])]\<rparr>"

lemma wide_item_panics:
  assumes "2 ^ 31 \<le> width" and "width < 2 ^ 32"
  shows "compile_item_predicates plain_externals \<lparr>i_filters = [(''from'', JArray [JString ''0xab''])], i_relations = [], i_alias = None\<rparr>
    (wide_transactions width) scope no_references = Inl Panic"
proof -
  have c: "column (wide_transactions width) ''from'' = Some (plain_column (TFixedBinary width))" by code_simp
  have s: "split_binary_in_list plain_externals [JString ''0xab''] = Inr ([[171]], [])" by code_simp
  have l: "check_item_limits \<lparr>i_filters = [(''from'', JArray [JString ''0xab''])], i_relations = [], i_alias = None\<rparr>
      (wide_transactions width) = Inr ()" by code_simp
  have p: "compile_in_list plain_externals ''from'' [JString ''0xab''] (plain_column (TFixedBinary width)) = Inl Panic"
    by (rule wide_list_panics [OF assms _ s]) (simp add: plain_column_def)
  have q: "map_of (q_special_filters (request (wide_transactions width))) ''from'' = None" by code_simp
  show ?thesis
    unfolding compile_item_predicates_def l
    by (simp add: item_step_def compile_filter_def set_references_def list_of_def
        add_set_name_def q c compile_column_filter_def is_filter_scalar_def p takes_value_list_def)
qed

lemma wide_fixed_binary_panics:
  assumes "2 ^ 31 \<le> width" and "width < 2 ^ 32"
  shows "validate (wide_catalog width) = Inr () \<and> compile plain_externals wide_query (wide_catalog width) = Inl Panic"
proof -
  have t: "table (wide_catalog width) ''transactions'' = Some (wide_transactions width)" by code_simp
  have b: "block_table_name (wide_catalog width) = ''blocks''" by code_simp
  have q: "u_parent_block_hash wide_query = None"
    "u_items wide_query = [(''transactions'', [\<lparr>i_filters = [(''from'', JArray [JString ''0xab''])], i_relations = [], i_alias = None\<rparr>])]"
    by (simp_all add: wide_query_def sample_query_def)
  have "compile plain_externals wide_query (wide_catalog width) = Inl Panic"
    by (simp add: compile_def b q plan_tables_def requested_tables_def plan_table_def t plan_item_def wide_item_panics [OF assms])
  with wide_catalog_accepted show ?thesis by blast
qed

text \<open>
  C31: On a catalog whose fixed-size binary columns are narrower than \<open>2 ^ 31\<close> bytes, the widths an Arrow array can
  have, a request the parser accepted is planned or refused for the client's own fault: the compiler does not panic and
  does not fail for the server's reasons, whatever the request and its sets hold. The loader does not check that
  width, and \<open>wide_fixed_binary_panics\<close> shows that a list filter on a wider column does panic.
\<close>

theorem compile_refusals:
  assumes "parse_query X bytes d = Inr q" and "catalog_sizes_ok d"
  shows "case compile X q d of Inl e \<Rightarrow> validation_error e | Inr _ \<Rightarrow> True"
proof -
  from assms(1) obtain v where "parse_sets X v = Inr (u_sets q)"
    by (auto simp: parse_query_def and_then_Inr_iff Let_def)
  from compile_refuses [OF assms(2) parse_sets_ok [OF this]] show ?thesis by (simp add: refuses_as_def)
qed

theorem compile_refusals_witness:
  "case compile request_externals sample_query sample_catalog of Inl e \<Rightarrow> validation_error e | Inr _ \<Rightarrow> True"
proof -
  have "catalog_sizes_ok sample_catalog"
    by (simp add: catalog_sizes_ok_def sizes_ok_def sample_catalog_def sample_blocks_def sample_transactions_def
        sample_logs_def fixed_size_ok_def plain_column_def)
  from compile_refusals [OF sample_parse this] show ?thesis .
qed

lemma plan_table_items [simp]: "plan_table X d (q\<lparr>u_items := items\<rparr>) = plan_table X d q"
proof -
  have o: "output_columns_of (q\<lparr>u_items := items\<rparr>) = output_columns_of q" by (simp add: output_columns_of_def fun_eq_iff)
  from o have p: "plan_relation d (q\<lparr>u_items := items\<rparr>) = plan_relation d q"
    by (simp add: plan_relation_def relation_plan_of_def fun_eq_iff)
  have i: "plan_item X d (q\<lparr>u_items := items\<rparr>) = plan_item X d q"
    by (intro ext) (simp only: plan_item_def p)
  show ?thesis by (simp add: plan_table_def scope_of_def o i cong: if_cong)
qed

text \<open>
  The order of a request's tables, which its map does not keep, changes nothing: not the plan, and
  not which of two faults is reported.
\<close>

theorem compile_order_free:
  assumes "mset items = mset (u_items q)" and "omap_ok (u_items q)"
  shows "compile X (q\<lparr>u_items := items\<rparr>) d = compile X q d"
proof -
  let ?f = "\<lambda>(name, _ :: query_item list). (index_of (keys (d_tables d)) name, name)"
  have "inj_on fst (set items)"
    using assms(2) mset_eq_setD [OF assms(1)] by (simp add: omap_ok_def keys_def distinct_map)
  then have "inj_on ?f (set items)"
    unfolding inj_on_def by (metis (no_types, lifting) case_prod_beta snd_conv)
  then have "sort_key ?f items = sort_key ?f (u_items q)"
    using assms(1) by (intro sort_key_inj_key_eq) auto
  moreover have "output_columns_of (q\<lparr>u_items := items\<rparr>) = output_columns_of q"
    by (simp add: output_columns_of_def fun_eq_iff)
  ultimately show ?thesis
    by (simp add: compile_def plan_tables_def requested_tables_def)
qed


definition two_tables :: "(string, query_item list) omap" where
  "two_tables = [(''transactions'', []), (''logs'', [sample_item])]"

theorem compile_order_free_witness:
  "compile plain_externals (sample_query\<lparr>u_items := rev two_tables\<rparr>) sample_catalog =
     compile plain_externals (sample_query\<lparr>u_items := two_tables\<rparr>) sample_catalog"
  using compile_order_free [of "rev two_tables" "sample_query\<lparr>u_items := two_tables\<rparr>"]
  by (simp add: two_tables_def omap_ok_def keys_def)


text \<open>The sample set, declared and used once.\<close>

definition sample_set_query :: query where
  "sample_set_query =
     sample_query\<lparr>u_items := [(''logs'', [sample_set_item])], u_sets := [(''holders'', sample_set)]\<rparr>"

lemma sample_set_compiles: "\<exists>p. compile plain_externals sample_set_query sample_catalog = Inr p"
proof -
  have t: "table sample_catalog ''logs'' = Some sample_logs" by (simp add: table_def sample_catalog_def)
  have s: "scope_of sample_set_query ''logs'' = sample_set_scope"
    by (simp add: scope_of_def sample_set_query_def sample_query_def sample_set_scope_def)
  have n: "i_relations sample_set_item = []" by (simp add: sample_set_item_def)
  have q: "keys (u_sets sample_set_query) = [''holders'']" "u_parent_block_hash sample_set_query = None"
    "u_items sample_set_query = [(''logs'', [sample_set_item])]"
    by (simp_all add: sample_set_query_def sample_query_def keys_def)
  show ?thesis
    by (simp add: compile_def Let_def q plan_tables_def requested_tables_def plan_table_def t s plan_item_def
        sample_set_item_compiles n)
qed

theorem plan_sets_used_witness: "request_references (u_items sample_set_query) \<le> 64"
proof -
  obtain p where "compile plain_externals sample_set_query sample_catalog = Inr p"
    using sample_set_compiles by blast
  from plan_sets_used [OF this] show ?thesis by blast
qed

end
