(* ===== verification/Array_Rows.thy ===== *)
theory Array_Rows
  imports Row_Predicate
begin

text \<open>
  The rows of an array at some places, in their order, as an array of the same type: what Arrow's \<open>take\<close>
  gives. The concrete instances of Arrow's operations on batches and the store in memory are made of it.
\<close>

section \<open>Rows of an array\<close>

definition take_nulls :: "nat list \<Rightarrow> nulls \<Rightarrow> nulls" where
  "take_nulls ks = map_option (\<lambda>v. map ((!) v) ks)"

definition slots :: "nat list \<Rightarrow> nat list \<Rightarrow> nat list list" where
  "slots os ks = map (\<lambda>k. [os ! k..<os ! Suc k]) ks"

definition ends :: "'a list list \<Rightarrow> nat list" where
  "ends xss = map (\<lambda>n. sum_list (map length (take n xss))) [0..<Suc (length xss)]"

primrec take_rows :: "array \<Rightarrow> nat list \<Rightarrow> array" where
  "take_rows (AInt t vs n) ks = AInt t (map ((!) vs) ks) (take_nulls ks n)"
| "take_rows (ABoolean vs n) ks = ABoolean (map ((!) vs) ks) (take_nulls ks n)"
| "take_rows (AText t vs n) ks = AText t (map ((!) vs) ks) (take_nulls ks n)"
| "take_rows (ABytes t vs n) ks = ABytes t (map ((!) vs) ks) (take_nulls ks n)"
| "take_rows (AList large os a n) ks =
     AList large (ends (slots os ks)) (take_rows a (concat (slots os ks))) (take_nulls ks n)"
| "take_rows (ADictionary is n a) ks = ADictionary (map ((!) is) ks) (take_nulls ks n) a"
| "take_rows (AOther s k n) ks = AOther s (length ks) (take_nulls ks n)"

lemma length_ends [simp]: "length (ends xss) = Suc (length xss)"
  by (simp add: ends_def)

lemma ends_at: "k \<le> length xss \<Longrightarrow> ends xss ! k = sum_list (map length (take k xss))"
  by (simp add: ends_def nth_append)

lemma sorted_ends: "sorted (ends xss)"
proof -
  have "sum_list (map length (take i xss)) \<le> sum_list (map length (take j xss))" if "i \<le> j" for i j
  proof -
    have "take j xss = take i xss @ take (j - i) (drop i xss)" using that by (metis le_add_diff_inverse take_add)
    then show ?thesis by simp
  qed
  then show ?thesis by (simp add: sorted_iff_nth_mono ends_at)
qed

lemma last_ends: "last (ends xss) = length (concat xss)"
  by (simp add: ends_def length_concat)

lemma slice_between_ends:
  assumes "k < length xss"
  shows "map ((!) (concat xss)) [ends xss ! k..<ends xss ! Suc k] = xss ! k"
proof -
  let ?l = "length (concat (take k xss))"
  have split: "concat xss = concat (take k xss) @ xss ! k @ concat (drop (Suc k) xss)"
    using arg_cong [OF id_take_nth_drop [OF assms], of concat] by simp
  have e: "ends xss ! k = ?l" "ends xss ! Suc k = ?l + length (xss ! k)"
    using assms by (simp_all add: ends_at length_concat take_Suc_conv_app_nth)
  show ?thesis unfolding e by (rule nth_equalityI) (simp_all add: split nth_append)
qed

lemma take_nulls_fit: "nulls_fit n m \<Longrightarrow> nulls_fit (take_nulls ks n) (length ks)"
  by (simp add: nulls_fit_def take_nulls_def split: option.splits)

lemma take_nulls_valid: "i < length ks \<Longrightarrow> valid_at (take_nulls ks n) i = valid_at n (ks ! i)"
  by (cases n) (simp_all add: valid_at_def take_nulls_def)

lemma take_rows_type [simp]: "data_type_of (take_rows a ks) = data_type_of a"
  by (induction a arbitrary: ks) simp_all

lemma take_rows_len [simp]: "len (take_rows a ks) = length ks"
  by (cases a) (simp_all add: slots_def)

lemma take_rows_wf: "wf_array a \<Longrightarrow> \<forall>k \<in> set ks. k < len a \<Longrightarrow> wf_array (take_rows a ks)"
proof (induction a arbitrary: ks)
  case (AList large os a n)
  have "j < len a" if "j \<in> set (concat (slots os ks))" for j
  proof -
    from that obtain k where k: "k \<in> set ks" "j < os ! Suc k" by (auto simp: slots_def)
    have "os ! Suc k \<le> os ! (length os - 1)"
      using AList.prems k(1) by (intro sorted_nth_mono) auto
    also have "\<dots> = last os" using AList.prems(1) by (simp add: last_conv_nth)
    also have "\<dots> \<le> len a" using AList.prems(1) by simp
    finally show ?thesis using k(2) by simp
  qed
  with AList show ?case
    by (auto simp: sorted_ends last_ends slots_def take_nulls_fit length_concat intro: take_nulls_fit) (metis length_0_conv length_ends nat.distinct(1))
next
  case (ABytes t vs n)
  then show ?case by (cases t) (auto simp: list_all_iff take_nulls_fit)
next
  case (ADictionary "is" n a)
  then show ?case by (auto simp: take_nulls_fit take_nulls_valid)
qed (auto simp: list_all_iff take_nulls_fit)

lemma take_rows_cells: "i < length ks \<Longrightarrow> cell_at (take_rows a ks) i = cell_at a (ks ! i)"
proof (induction a arbitrary: ks i)
  case (AList large os a n)
  let ?s = "slots os ks"
  have l: "length ?s = length ks" by (simp add: slots_def)
  have "map (cell_at (take_rows a (concat ?s))) [ends ?s ! i..<ends ?s ! Suc i] =
      map (\<lambda>p. cell_at a (concat ?s ! p)) [ends ?s ! i..<ends ?s ! Suc i]"
  proof (rule map_cong [OF refl])
    fix p assume p: "p \<in> set [ends ?s ! i..<ends ?s ! Suc i]"
    have "ends ?s ! Suc i \<le> last (ends ?s)"
      using AList.prems l sorted_ends [of ?s] by (subst last_conv_nth) (auto intro!: sorted_nth_mono simp del: length_0_conv simp flip: length_greater_0_conv)
    with p have "p < length (concat ?s)" by (simp add: last_ends)
    then show "cell_at (take_rows a (concat ?s)) p = cell_at a (concat ?s ! p)" by (rule AList.IH)
  qed
  also have "\<dots> = map (cell_at a) (map ((!) (concat ?s)) [ends ?s ! i..<ends ?s ! Suc i])" by simp
  also have "\<dots> = map (cell_at a) [os ! (ks ! i)..<os ! Suc (ks ! i)]"
    using AList.prems l by (simp only: slice_between_ends) (simp add: slots_def)
  finally show ?case using AList.prems by (simp add: take_nulls_valid)
qed (simp_all add: take_nulls_valid)

section \<open>Types of columns\<close>

definition column_types :: "batch \<Rightarrow> (string \<times> data_type) list" where
  "column_types b = map (\<lambda>(name, a). (name, data_type_of a)) (b_columns b)"

lemma column_by_name_types: "map_option data_type_of (column_by_name b name) = map_of (column_types b) name"
proof -
  have "map_option data_type_of (map_of cs name) = map_of (map (\<lambda>(name, a). (name, data_type_of a)) cs) name" for cs
    by (induction cs) auto
  then show ?thesis by (simp add: column_by_name_def column_types_def)
qed

definition gather :: "nat list \<Rightarrow> batch \<Rightarrow> batch" where
  "gather ks b = \<lparr>b_columns = map (\<lambda>(name, a). (name, take_rows a ks)) (b_columns b), b_num_rows = length ks\<rparr>"

lemma gather_ok: "batch_ok b \<Longrightarrow> \<forall>k \<in> set ks. k < b_num_rows b \<Longrightarrow> batch_ok (gather ks b)"
  by (auto simp: batch_ok_def gather_def list_all_iff take_rows_wf)

lemma gather_types [simp]: "column_types (gather ks b) = column_types b"
  by (simp add: column_types_def gather_def comp_def case_prod_beta')

end
