(* ===== verification/Rows.thy ===== *)
theory Rows
  imports Array_Rows
begin

text \<open>
  The rows a scan returns (\<^verbatim>\<open>src/scan/rows.rs\<close>): batches, when the scan recorded them the physical position
  of every row, and for a request's item tags which rows they matched. Arrow's batch kernels are an
  argument. A row list is read as the list of its rows, each with its cells and position, and every
  operation is shown to do on that list what its name says.
\<close>

section \<open>Arrow's kernels on batches\<close>

record batch_kernels =
  bk_filter :: "batch \<Rightarrow> mask \<Rightarrow> engine_error + batch"
  bk_filter_positions :: "nat list \<Rightarrow> mask \<Rightarrow> engine_error + nat list"
  bk_filter_mask :: "mask \<Rightarrow> mask \<Rightarrow> engine_error + mask"
  bk_slice :: "batch \<Rightarrow> nat \<Rightarrow> nat \<Rightarrow> batch"
  bk_project :: "batch \<Rightarrow> nat list \<Rightarrow> engine_error + batch"

text \<open>A row by the names of its columns, and a batch by its rows.\<close>

type_synonym row = "string \<Rightarrow> cell option"

definition row_at :: "batch \<Rightarrow> nat \<Rightarrow> row" where
  "row_at b i name = map_option (\<lambda>a. cell_at a i) (column_by_name b name)"

definition batch_rows :: "batch \<Rightarrow> row list" where
  "batch_rows b = map (row_at b) [0..<b_num_rows b]"

definition select :: "mask \<Rightarrow> 'a list \<Rightarrow> 'a list" where
  "select m xs = map snd (filter (\<lambda>(k, x). k = Some True) (zip m xs))"

definition only :: "string list \<Rightarrow> row \<Rightarrow> row" where
  "only names r = (\<lambda>name. if name \<in> set names then r name else None)"

definition column_names :: "batch \<Rightarrow> string list" where
  "column_names b = map fst (b_columns b)"

text \<open>
  What Arrow documents: filtering keeps the rows a mask of the same length selects, slicing a run of
  rows, and projecting the columns at some indices; a column keeps its type.
\<close>

definition batch_kernels_ok :: "batch_kernels \<Rightarrow> bool" where
  "batch_kernels_ok B \<longleftrightarrow>
     (\<forall>b m. length m = b_num_rows b \<longrightarrow>
        (\<exists>b'. bk_filter B b m = Inr b' \<and> column_names b' = column_names b \<and> batch_rows b' = select m (batch_rows b))) \<and>
     (\<forall>xs m. length m = length xs \<longrightarrow> bk_filter_positions B xs m = Inr (select m xs)) \<and>
     (\<forall>xs m. length m = length xs \<longrightarrow> bk_filter_mask B xs m = Inr (select m xs)) \<and>
     (\<forall>b start n. start + n \<le> b_num_rows b \<longrightarrow>
        batch_rows (bk_slice B b start n) = take n (drop start (batch_rows b))) \<and>
     (\<forall>b ks. list_all (\<lambda>i. i < length (b_columns b)) ks \<longrightarrow>
        bk_project B b ks = Inr \<lparr>b_columns = map ((!) (b_columns b)) ks, b_num_rows = b_num_rows b\<rparr>) \<and>
     (\<forall>b m b'. batch_ok b \<and> length m = b_num_rows b \<and> bk_filter B b m = Inr b' \<longrightarrow>
        batch_ok b' \<and> column_types b' = column_types b) \<and>
     (\<forall>b start n. batch_ok b \<and> start + n \<le> b_num_rows b \<longrightarrow>
        batch_ok (bk_slice B b start n) \<and> column_types (bk_slice B b start n) = column_types b)"


section \<open>Rows\<close>

record rows =
  rs_batches :: "batch list"
  rs_positions :: "nat list list option"

definition no_rows :: rows where
  "no_rows = \<lparr>rs_batches = [], rs_positions = None\<rparr>"

definition rows_new :: "batch list \<Rightarrow> rows" where
  "rows_new bs = \<lparr>rs_batches = bs, rs_positions = None\<rparr>"

definition positions_aligned :: "batch list \<Rightarrow> nat list list \<Rightarrow> bool" where
  "positions_aligned bs ps =
     (length bs = length ps \<and> list_all (\<lambda>(b, p). b_num_rows b = length p) (zip bs ps))"

definition with_positions :: "batch list \<Rightarrow> nat list list \<Rightarrow> engine_error + rows" where
  "with_positions bs ps =
     and_then (ensure (positions_aligned bs ps) Untyped) (\<lambda>_.
     Inr \<lparr>rs_batches = bs, rs_positions = Some ps\<rparr>)"

definition rows_num_rows :: "rows \<Rightarrow> nat" where
  "rows_num_rows r = sum_list (map b_num_rows (rs_batches r))"

definition filter_one ::
    "batch_kernels \<Rightarrow> (nat \<Rightarrow> batch \<Rightarrow> engine_error + mask) \<Rightarrow> nat list list option \<Rightarrow> nat \<times> batch \<Rightarrow> rows
     \<Rightarrow> engine_error + rows" where
  "filter_one B mask_of all = (\<lambda>(index, b) kept.
     and_then (mask_of index b) (\<lambda>m.
     if true_count m = 0 then Inr kept
     else
       and_then (bk_filter B b m) (\<lambda>b'.
       and_then (case (rs_positions kept, all) of
           (Some ps, Some qs) \<Rightarrow>
             and_then (ok_or Panic (get qs index)) (\<lambda>q.
             and_then (bk_filter_positions B q m) (\<lambda>q'. Inr (Some (ps @ [q']))))
         | (ps, _) \<Rightarrow> Inr ps) (\<lambda>ps'.
       Inr \<lparr>rs_batches = rs_batches kept @ [b'], rs_positions = ps'\<rparr>))))"

definition rows_filter ::
    "batch_kernels \<Rightarrow> (nat \<Rightarrow> batch \<Rightarrow> engine_error + mask) \<Rightarrow> rows \<Rightarrow> engine_error + rows" where
  "rows_filter B mask_of r =
     try_fold (filter_one B mask_of (rs_positions r)) (enumerate 0 (rs_batches r))
       \<lparr>rs_batches = [], rs_positions = map_option (\<lambda>_. []) (rs_positions r)\<rparr>"

text \<open>\<open>Schema::index_of\<close> is the first field of a name.\<close>

definition rows_project :: "batch_kernels \<Rightarrow> string list \<Rightarrow> rows \<Rightarrow> engine_error + rows" where
  "rows_project B columns r =
     and_then (try_collect (\<lambda>b. bk_project B b (List.map_filter (index_of (column_names b)) columns)) (rs_batches r)) (\<lambda>bs.
     Inr (r\<lparr>rs_batches := bs\<rparr>))"

definition rows_append :: "rows \<Rightarrow> rows \<Rightarrow> engine_error + rows" where
  "rows_append r other =
     (if rs_batches other = [] then Inr r
      else if rs_batches r = [] then Inr other
      else
        and_then (case (rs_positions r, rs_positions other) of
            (Some mine, Some theirs) \<Rightarrow> Inr (Some (mine @ theirs))
          | (None, None) \<Rightarrow> Inr None
          | _ \<Rightarrow> Inl Untyped) (\<lambda>ps.
        Inr \<lparr>rs_batches = rs_batches r @ rs_batches other, rs_positions = ps\<rparr>))"

definition sorted_positions :: "rows \<Rightarrow> nat list option" where
  "sorted_positions r = map_option (\<lambda>ps. remdups_adj (sort (concat ps))) (rs_positions r)"


section \<open>A scan's result\<close>

text \<open>The parts of a scan request that say what comes back: its item tags, and whether positions do.\<close>

record scan_request =
  rq_item_tags :: "nat list list"
  rq_positions :: bool

record scanned =
  sd_rows :: rows
  sd_tags :: "(nat list \<times> mask list) list"

definition masks_aligned :: "rows \<Rightarrow> mask list \<Rightarrow> bool" where
  "masks_aligned r masks =
     (length masks = length (rs_batches r) \<and>
      list_all (\<lambda>(m, b). length m = b_num_rows b) (zip masks (rs_batches r)))"

definition scanned_new :: "'a scan_request_scheme \<Rightarrow> rows \<Rightarrow> mask list list \<Rightarrow> engine_error + scanned" where
  "scanned_new rq r tags =
     and_then (ensure (length tags = length (rq_item_tags rq)) Untyped) (\<lambda>_.
     and_then (try_for_each (\<lambda>masks. ensure (masks_aligned r masks) Untyped) tags) (\<lambda>_.
     and_then (ensure (\<not> rq_positions rq \<or> rs_positions r \<noteq> None) Untyped) (\<lambda>_.
     Inr \<lparr>sd_rows = r, sd_tags = zip (rq_item_tags rq) tags\<rparr>)))"

text \<open>The inner \<open>expect\<close> is the panic; the outer option says whether the items are a tag.\<close>

definition matched_by :: "batch_kernels \<Rightarrow> scanned \<Rightarrow> nat list \<Rightarrow> (engine_error + batch list) option" where
  "matched_by B s items =
     map_option (\<lambda>(_, masks).
         try_collect (\<lambda>(b, m). case bk_filter B b m of Inl _ \<Rightarrow> Inl Panic | Inr b' \<Rightarrow> Inr b')
           (filter (\<lambda>(_, m). 0 < true_count m) (zip (rs_batches (sd_rows s)) masks)))
       (find (\<lambda>(tag, _). tag = items) (sd_tags s))"

record scanned_batch =
  sb_batch :: batch
  sb_positions :: "nat list option"
  sb_tags :: "mask list"

definition collect_part ::
    "scanned_batch \<Rightarrow> batch list \<times> nat list list option \<times> mask list list
     \<Rightarrow> engine_error + batch list \<times> nat list list option \<times> mask list list" where
  "collect_part part = (\<lambda>(bs, ps, tags).
     and_then (ensure (length (sb_tags part) = length tags) Untyped) (\<lambda>_.
     and_then (case ps of
         None \<Rightarrow> Inr None
       | Some qs \<Rightarrow> and_then (ok_or Untyped (sb_positions part)) (\<lambda>q. Inr (Some (qs @ [q])))) (\<lambda>ps'.
     Inr (bs @ [sb_batch part], ps', map2 (\<lambda>masks m. masks @ [m]) tags (sb_tags part)))))"

definition scanned_collect :: "'a scan_request_scheme \<Rightarrow> scanned_batch list \<Rightarrow> engine_error + scanned" where
  "scanned_collect rq parts =
     and_then (try_fold collect_part parts
       ([], if rq_positions rq then Some [] else None, replicate (length (rq_item_tags rq)) [])) (\<lambda>(bs, ps, tags).
     and_then (case ps of Some qs \<Rightarrow> with_positions bs qs | None \<Rightarrow> Inr (rows_new bs)) (\<lambda>r.
     scanned_new rq r tags))"

definition slice_list :: "'a list \<Rightarrow> nat \<Rightarrow> nat \<Rightarrow> 'a list" where
  "slice_list xs start n = take n (drop start xs)"

definition slice_part :: "batch_kernels \<Rightarrow> scanned_batch \<Rightarrow> nat \<Rightarrow> nat \<Rightarrow> scanned_batch" where
  "slice_part B s start n =
     \<lparr>sb_batch = bk_slice B (sb_batch s) start n,
      sb_positions = map_option (\<lambda>p. slice_list p start n) (sb_positions s),
      sb_tags = map (\<lambda>tag. slice_list tag start n) (sb_tags s)\<rparr>"

definition split_batch :: "batch_kernels \<Rightarrow> scanned_batch \<Rightarrow> nat \<Rightarrow> scanned_batch list" where
  "split_batch B s limit =
     (let step = max limit 1; n = b_num_rows (sb_batch s) in
      if n \<le> step then [s]
      else map (\<lambda>k. slice_part B s (k * step) (min step (n - k * step))) [0..<(n + step - 1) div step])"

definition scanned_filter :: "batch_kernels \<Rightarrow> scanned_batch \<Rightarrow> mask \<Rightarrow> engine_error + scanned_batch" where
  "scanned_filter B s m =
     and_then (case sb_positions s of
         None \<Rightarrow> Inr None
       | Some p \<Rightarrow> and_then (bk_filter_positions B p m) (\<lambda>p'. Inr (Some p'))) (\<lambda>p'.
     and_then (try_collect (\<lambda>tag. bk_filter_mask B tag m) (sb_tags s)) (\<lambda>tags'.
     and_then (bk_filter B (sb_batch s) m) (\<lambda>b'.
     Inr \<lparr>sb_batch = b', sb_positions = p', sb_tags = tags'\<rparr>)))"

definition untagged :: "'a scan_request_scheme \<Rightarrow> batch \<Rightarrow> nat list option \<Rightarrow> scanned_batch" where
  "untagged rq b p =
     \<lparr>sb_batch = b, sb_positions = p, sb_tags = map (\<lambda>_. all_mask (b_num_rows b) False) (rq_item_tags rq)\<rparr>"


section \<open>Rows as a list\<close>

text \<open>Each row with its position: what a row list means.\<close>

definition batch_view :: "batch \<Rightarrow> nat list option \<Rightarrow> (row \<times> nat option) list" where
  "batch_view b p =
     zip (batch_rows b) (case p of None \<Rightarrow> replicate (b_num_rows b) None | Some q \<Rightarrow> map Some q)"

definition rows_parts :: "rows \<Rightarrow> (batch \<times> nat list option) list" where
  "rows_parts r =
     (case rs_positions r of
        None \<Rightarrow> map (\<lambda>b. (b, None)) (rs_batches r)
      | Some ps \<Rightarrow> map2 (\<lambda>b q. (b, Some q)) (rs_batches r) ps)"

definition rows_view :: "rows \<Rightarrow> (row \<times> nat option) list" where
  "rows_view r = concat (map (\<lambda>(b, p). batch_view b p) (rows_parts r))"

definition rows_ok :: "rows \<Rightarrow> bool" where
  "rows_ok r = (case rs_positions r of None \<Rightarrow> True | Some ps \<Rightarrow> positions_aligned (rs_batches r) ps)"

definition part_ok :: "batch \<times> nat list option \<Rightarrow> bool" where
  "part_ok e = (case snd e of None \<Rightarrow> True | Some q \<Rightarrow> length q = b_num_rows (fst e))"

lemma select_Nil [simp]: "select m [] = []" "select [] xs = []"
  by (simp_all add: select_def)

lemma select_Cons [simp]: "select (k # m) (x # xs) = (if k = Some True then x # select m xs else select m xs)"
  by (simp add: select_def)

lemma select_append: "length m = length xs \<Longrightarrow> select (m @ m') (xs @ ys) = select m xs @ select m' ys"
  by (simp add: select_def)

lemma select_none: "true_count m = 0 \<Longrightarrow> select m xs = []"
  by (auto simp: select_def filter_empty_conv dest: set_zip_leftD)

lemma select_map: "select m (map f xs) = map f (select m xs)"
  by (simp add: select_def zip_map2 filter_map comp_def case_prod_beta')

lemma select_zip: "length m = length xs \<Longrightarrow> length xs = length ys \<Longrightarrow> select m (zip xs ys) = zip (select m xs) (select m ys)"
  by (induction m xs ys rule: list_induct3) auto

lemma length_select_eq: "length xs = length ys \<Longrightarrow> length (select m xs) = length (select m ys)"
  by (induction xs ys arbitrary: m rule: list_induct2) (simp, case_tac m, auto)

lemma length_batch_rows [simp]: "length (batch_rows b) = b_num_rows b"
  by (simp add: batch_rows_def)

lemma length_batch_view [simp]: "part_ok (b, p) \<Longrightarrow> length (batch_view b p) = b_num_rows b"
  by (auto simp: batch_view_def part_ok_def split: option.splits)

lemma rows_ok_parts: "rows_ok r \<longleftrightarrow> list_all part_ok (rows_parts r) \<and>
    (case rs_positions r of None \<Rightarrow> True | Some ps \<Rightarrow> length (rs_batches r) = length ps)"
  by (auto simp: rows_ok_def rows_parts_def part_ok_def positions_aligned_def list_all_iff split: option.splits)

lemma rows_ok_new [simp]: "rows_ok (rows_new bs)"
  by (simp add: rows_ok_def rows_new_def)

lemma with_positions_ok: "with_positions bs ps = Inr r \<Longrightarrow> rows_ok r \<and> rs_batches r = bs \<and> rs_positions r = Some ps"
  by (auto simp: with_positions_def and_then_Inr_iff rows_ok_def)

lemma filter_batch_Inr:
  assumes "batch_kernels_ok B" and "length m = b_num_rows b"
  obtains b' where "bk_filter B b m = Inr b'" and "batch_rows b' = select m (batch_rows b)"
  using assms unfolding batch_kernels_ok_def by blast

lemma filter_positions_eq:
  "batch_kernels_ok B \<Longrightarrow> length m = length xs \<Longrightarrow> bk_filter_positions B xs m = Inr (select m xs)"
  by (simp add: batch_kernels_ok_def)

lemma batch_view_select:
  assumes p: "part_ok (b, p)" and m: "length m = b_num_rows b" and b': "batch_rows b' = select m (batch_rows b)"
  shows "part_ok (b', map_option (select m) p) \<and> batch_view b' (map_option (select m) p) = select m (batch_view b p)"
proof -
  have l: "b_num_rows b' = length (select m (batch_rows b))" by (simp flip: b')
  show ?thesis
  proof (cases p)
    case None
    have "length (select m (replicate (b_num_rows b) (None :: nat option))) = b_num_rows b'"
      unfolding l by (rule length_select_eq) simp
    moreover have "set (select m (replicate (b_num_rows b) (None :: nat option))) \<subseteq> {None}"
      by (auto simp: select_def dest: set_zip_rightD)
    ultimately have "select m (replicate (b_num_rows b) None) = replicate (b_num_rows b') (None :: nat option)"
      by (metis replicate_eqI singletonD subsetD)
    with None m b' show ?thesis by (simp add: part_ok_def batch_view_def select_zip)
  next
    case (Some q)
    with p have q: "length q = b_num_rows b" by (simp add: part_ok_def)
    then have "length (select m q) = b_num_rows b'" unfolding l by (intro length_select_eq) simp
    with Some q m b' show ?thesis by (simp add: part_ok_def batch_view_def select_zip select_map)
  qed
qed

text \<open>The fold of a filter, with the index each batch is visited at.\<close>

lemma rows_view_snoc:
  assumes "rows_ok r"
  shows "rs_positions r = None \<Longrightarrow> rows_view (r\<lparr>rs_batches := rs_batches r @ [b]\<rparr>) = rows_view r @ batch_view b None"
    and "rs_positions r = Some ps \<Longrightarrow> rows_view (r\<lparr>rs_batches := rs_batches r @ [b], rs_positions := Some (ps @ [q])\<rparr>) =
      rows_view r @ batch_view b (Some q)"
  using assms by (auto simp: rows_view_def rows_parts_def rows_ok_def positions_aligned_def)

lemma rows_ok_snoc:
  assumes "rows_ok r"
  shows "rs_positions r = None \<Longrightarrow> rows_ok (r\<lparr>rs_batches := rs_batches r @ [b]\<rparr>)"
    and "rs_positions r = Some ps \<Longrightarrow> length q = b_num_rows b \<Longrightarrow>
      rows_ok (r\<lparr>rs_batches := rs_batches r @ [b], rs_positions := Some (ps @ [q])\<rparr>)"
  using assms by (auto simp: rows_ok_def positions_aligned_def)

lemma filter_one_view:
  assumes B: "batch_kernels_ok B" and kept: "rows_ok kept" and same: "rs_positions kept = None \<longleftrightarrow> all = None"
    and part: "part_ok (b, p)" and p: "p = map_option (\<lambda>qs. qs ! i) all" and i: "\<And>qs. all = Some qs \<Longrightarrow> i < length qs"
    and m: "mask_of i b = Inr m" "length m = b_num_rows b"
  shows "\<exists>r. filter_one B mask_of all (i, b) kept = Inr r \<and> rows_ok r \<and> (rs_positions r = None \<longleftrightarrow> all = None) \<and>
    rows_view r = rows_view kept @ select m (batch_view b p)"
proof (cases "true_count m = 0")
  case True
  with m kept same select_none [OF True] show ?thesis by (simp add: filter_one_def)
next
  case False
  obtain b' where b': "bk_filter B b m = Inr b'" "batch_rows b' = select m (batch_rows b)"
    using filter_batch_Inr [OF B m(2)] .
  note v = batch_view_select [OF part m(2) b'(2)]
  show ?thesis
  proof (cases all)
    case None
    with same False m b' v p rows_view_snoc(1) [OF kept] rows_ok_snoc(1) [OF kept] show ?thesis
      by (cases kept) (simp add: filter_one_def)
  next
    case (Some qs)
    with same obtain ps where ps: "rs_positions kept = Some ps" by auto
    from part p Some have "length (qs ! i) = b_num_rows b" by (simp add: part_ok_def)
    with m have "bk_filter_positions B (qs ! i) m = Inr (select m (qs ! i))"
      by (intro filter_positions_eq [OF B]) simp
    moreover from i [OF Some] have "get qs i = Some (qs ! i)" by (simp add: get_Some_iff)
    moreover from v p Some have "length (select m (qs ! i)) = b_num_rows b'" by (simp add: part_ok_def)
    ultimately show ?thesis
      using Some ps False m b' v p rows_view_snoc(2) [OF kept ps] rows_ok_snoc(2) [OF kept ps]
      by (cases kept) (simp add: filter_one_def)
  qed
qed


definition part_at :: "rows \<Rightarrow> nat \<Rightarrow> batch \<times> nat list option" where
  "part_at r i = (rs_batches r ! i, map_option (\<lambda>qs. qs ! i) (rs_positions r))"

lemma rows_parts_at: "rows_ok r \<Longrightarrow> rows_parts r = map (part_at r) [0..<length (rs_batches r)]"
  by (rule nth_equalityI)
    (auto simp: rows_parts_def rows_ok_def positions_aligned_def part_at_def split: option.splits)

lemma part_at_ok: "rows_ok r \<Longrightarrow> i < length (rs_batches r) \<Longrightarrow> part_ok (part_at r i)"
  by (auto simp: part_at_def part_ok_def rows_ok_def positions_aligned_def list_all_length split: option.splits)

lemma rows_filter_from:
  assumes B: "batch_kernels_ok B" and r: "rows_ok r"
    and m: "\<And>i. i < length (rs_batches r) \<Longrightarrow> mask_of i (rs_batches r ! i) = Inr (ms ! i) \<and>
      length (ms ! i) = b_num_rows (rs_batches r ! i)"
  shows "k \<le> length (rs_batches r) \<Longrightarrow> rows_ok kept \<Longrightarrow> (rs_positions kept = None \<longleftrightarrow> rs_positions r = None) \<Longrightarrow>
    \<exists>r'. try_fold (filter_one B mask_of (rs_positions r)) (enumerate k (drop k (rs_batches r))) kept = Inr r' \<and>
      rows_ok r' \<and> (rs_positions r' = None \<longleftrightarrow> rs_positions r = None) \<and>
      rows_view r' = rows_view kept @
        concat (map (\<lambda>i. select (ms ! i) (case_prod batch_view (part_at r i))) [k..<length (rs_batches r)])"
proof (induction "length (rs_batches r) - k" arbitrary: k kept)
  case 0
  then show ?case by simp
next
  case (Suc n)
  then have k: "k < length (rs_batches r)" by simp
  have e: "enumerate k (drop k (rs_batches r)) = (k, rs_batches r ! k) # enumerate (Suc k) (drop (Suc k) (rs_batches r))"
    using k by (metis Cons_nth_drop_Suc enumerate_simps(2))
  have q: "k < length qs" if "rs_positions r = Some qs" for qs
    using r k that by (simp add: rows_ok_def positions_aligned_def)
  from filter_one_view [OF B Suc.prems(2,3) part_at_ok [OF r k, unfolded part_at_def] refl q, of mask_of "ms ! k"] m [OF k]
  obtain kept' where s: "filter_one B mask_of (rs_positions r) (k, rs_batches r ! k) kept = Inr kept'" "rows_ok kept'"
      "rs_positions kept' = None \<longleftrightarrow> rs_positions r = None"
    and v: "rows_view kept' = rows_view kept @ select (ms ! k) (case_prod batch_view (part_at r k))"
    by (auto simp: part_at_def)
  from Suc.hyps(2) have "n = length (rs_batches r) - Suc k" by simp
  from Suc.hyps(1) [OF this _ s(2,3)] k obtain r' where
    "try_fold (filter_one B mask_of (rs_positions r)) (enumerate (Suc k) (drop (Suc k) (rs_batches r))) kept' = Inr r'"
    "rows_ok r'" "rs_positions r' = None \<longleftrightarrow> rs_positions r = None"
    "rows_view r' = rows_view kept' @
      concat (map (\<lambda>i. select (ms ! i) (case_prod batch_view (part_at r i))) [Suc k..<length (rs_batches r)])" by auto
  with s v k show ?case by (simp add: e upt_conv_Cons)
qed

lemma select_concat:
  "(\<And>i. i \<in> set is' \<Longrightarrow> length (f i) = length (g i)) \<Longrightarrow>
     select (concat (map f is')) (concat (map g is')) = concat (map (\<lambda>i. select (f i) (g i)) is')"
  by (induction is') (auto simp: select_append)

text \<open>Masks for the batches of some rows: one each, and one entry a row.\<close>

definition masks_for ::
    "(nat \<Rightarrow> batch \<Rightarrow> engine_error + mask) \<Rightarrow> rows \<Rightarrow> mask list \<Rightarrow> bool" where
  "masks_for mask_of r ms =
     (masks_aligned r ms \<and> list_all (\<lambda>((i, b), m). mask_of i b = Inr m) (zip (enumerate 0 (rs_batches r)) ms))"

lemma masks_forD:
  assumes "masks_for mask_of r ms"
  shows "length ms = length (rs_batches r)" and "i < length (rs_batches r) \<Longrightarrow>
    mask_of i (rs_batches r ! i) = Inr (ms ! i) \<and> length (ms ! i) = b_num_rows (rs_batches r ! i)"
  using assms by (auto simp: masks_for_def masks_aligned_def list_all_length nth_enumerate_eq)

lemma rows_filter_view:
  assumes B: "batch_kernels_ok B" and r: "rows_ok r" and m: "masks_for mask_of r ms"
  shows "\<exists>r'. rows_filter B mask_of r = Inr r' \<and> rows_ok r' \<and> rows_view r' = select (concat ms) (rows_view r)"
proof -
  let ?kept = "\<lparr>rs_batches = [], rs_positions = map_option (\<lambda>_. []) (rs_positions r)\<rparr>"
  have kept: "rows_ok ?kept" "rs_positions ?kept = None \<longleftrightarrow> rs_positions r = None" "rows_view ?kept = []"
    by (auto simp: rows_ok_def positions_aligned_def rows_view_def rows_parts_def split: option.splits)
  note md = masks_forD [OF m]
  have fold: "\<exists>r'. try_fold (filter_one B mask_of (rs_positions r)) (enumerate 0 (drop 0 (rs_batches r))) ?kept = Inr r' \<and>
      rows_ok r' \<and> (rs_positions r' = None \<longleftrightarrow> rs_positions r = None) \<and> rows_view r' = rows_view ?kept @
        concat (map (\<lambda>i. select (ms ! i) (case_prod batch_view (part_at r i))) [0..<length (rs_batches r)])"
    by (rule rows_filter_from [OF B r, where ms = ms]) (use kept md(2) in auto)
  from fold kept(3) obtain r' where
    f: "rows_filter B mask_of r = Inr r'" "rows_ok r'" and
    v: "rows_view r' = concat (map (\<lambda>i. select (ms ! i) (case_prod batch_view (part_at r i))) [0..<length (rs_batches r)])"
    by (auto simp: rows_filter_def)
  have l: "length (ms ! i) = length (case_prod batch_view (part_at r i))" if "i \<in> set [0..<length (rs_batches r)]" for i
    using md(2) [of i] part_at_ok [OF r, of i] that by (simp add: part_at_def)
  have "rows_view r' = select (concat (map (\<lambda>i. ms ! i) [0..<length (rs_batches r)]))
      (concat (map (\<lambda>i. case_prod batch_view (part_at r i)) [0..<length (rs_batches r)]))"
    unfolding v by (rule select_concat [symmetric]) (rule l)
  also have "map (\<lambda>i. ms ! i) [0..<length (rs_batches r)] = ms" by (simp flip: md(1) add: map_nth)
  finally show ?thesis using f r by (simp add: rows_view_def rows_parts_at comp_def)
qed

lemma rows_append_view:
  assumes "rows_ok r" and "rows_ok other"
  shows "case rows_append r other of
      Inr r' \<Rightarrow> rows_ok r' \<and> rows_view r' = rows_view r @ rows_view other
    | Inl _ \<Rightarrow> rs_batches r \<noteq> [] \<and> rs_batches other \<noteq> [] \<and> (rs_positions r = None) \<noteq> (rs_positions other = None)"
proof -
  have empty: "rs_batches r = [] \<Longrightarrow> rows_view r = []" for r
    by (auto simp: rows_view_def rows_parts_def split: option.splits)
  show ?thesis
    using assms empty [of r] empty [of other]
    by (auto simp: rows_append_def rows_view_def rows_parts_def rows_ok_def positions_aligned_def split: option.splits)
qed

lemma sorted_positions_eq:
  "sorted_positions r = Some ps \<Longrightarrow>
     sorted ps \<and> distinct ps \<and> set ps = (\<Union>q \<in> set (the (rs_positions r)). set q)"
  by (auto simp: sorted_positions_def distinct_sorted_adj)


section \<open>Slices and tags\<close>

definition sb_view :: "scanned_batch \<Rightarrow> (row \<times> nat option) list" where
  "sb_view s = batch_view (sb_batch s) (sb_positions s)"

definition scanned_batch_ok :: "scanned_batch \<Rightarrow> bool" where
  "scanned_batch_ok s =
     (part_ok (sb_batch s, sb_positions s) \<and> list_all (\<lambda>tag. length tag = b_num_rows (sb_batch s)) (sb_tags s))"

lemma concat_slices:
  assumes "length xs = n" and "0 < step"
  shows "concat (map (\<lambda>k. slice_list xs (k * step) (min step (n - k * step))) [0..<(n + step - 1) div step]) = xs"
proof -
  have "concat (map (\<lambda>k. slice_list xs (k * step) (min step (n - k * step))) [0..<m]) = take (m * step) xs" for m
  proof (induction m)
    case (Suc m)
    have "take (min step (n - m * step)) (drop (m * step) xs) = take step (drop (m * step) xs)"
      using assms(1) by (simp add: min_def)
    with Suc show ?case by (simp add: slice_list_def add.commute [of step] flip: take_add)
  qed simp
  moreover have "n \<le> (n + step - 1) div step * step"
  proof -
    have "n + step - 1 < ((n + step - 1) div step + 1) * step"
      using assms(2) by (simp add: dividend_less_div_times add.commute)
    with assms(2) show ?thesis by (simp add: algebra_simps)
  qed
  ultimately show ?thesis using assms(1) by simp
qed

lemma length_slice_list: "start + n \<le> length xs \<Longrightarrow> length (slice_list xs start n) = n"
  by (simp add: slice_list_def)

lemma slice_part_view:
  assumes B: "batch_kernels_ok B" and s: "scanned_batch_ok s" and le: "start + n \<le> b_num_rows (sb_batch s)"
  shows "scanned_batch_ok (slice_part B s start n) \<and> b_num_rows (sb_batch (slice_part B s start n)) = n \<and>
    sb_view (slice_part B s start n) = slice_list (sb_view s) start n"
proof -
  from B le have b: "batch_rows (bk_slice B (sb_batch s) start n) = slice_list (batch_rows (sb_batch s)) start n"
    by (simp add: batch_kernels_ok_def slice_list_def)
  then have "length (batch_rows (bk_slice B (sb_batch s) start n)) = n"
    using le by (simp add: length_slice_list)
  then have l: "b_num_rows (bk_slice B (sb_batch s) start n) = n" by simp
  have "length q = b_num_rows (sb_batch s)" if "sb_positions s = Some q" for q
    using s that by (simp add: scanned_batch_ok_def part_ok_def)
  with s le b l show ?thesis
    by (cases "sb_positions s")
      (auto simp: scanned_batch_ok_def part_ok_def slice_part_def sb_view_def batch_view_def slice_list_def
        list_all_iff take_zip drop_zip take_map drop_map)
qed

lemma split_batch_slices:
  assumes "scanned_batch_ok s"
  shows "step = max limit 1 \<Longrightarrow> n = b_num_rows (sb_batch s) \<Longrightarrow> step < n \<Longrightarrow>
    split_batch B s limit = map (\<lambda>k. slice_part B s (k * step) (min step (n - k * step))) [0..<(n + step - 1) div step] \<and>
    (\<forall>k < (n + step - 1) div step. k * step + min step (n - k * step) \<le> n)"
proof (intro conjI allI impI)
  assume step: "step = max limit 1" and n: "n = b_num_rows (sb_batch s)" and lt: "step < n"
  show "split_batch B s limit =
      map (\<lambda>k. slice_part B s (k * step) (min step (n - k * step))) [0..<(n + step - 1) div step]"
    using lt unfolding split_batch_def Let_def step [symmetric] n [symmetric] by simp
  fix k
  assume k: "k < (n + step - 1) div step"
  have pos: "0 < step" using step by simp
  from k have "Suc k \<le> (n + step - 1) div step" by simp
  then have "Suc k * step \<le> n + step - 1" by (simp only: less_eq_div_iff_mult_less_eq [OF pos])
  then have "k * step < n" using pos by simp
  then show "k * step + min step (n - k * step) \<le> n" by linarith
qed


lemma split_batch_view:
  assumes B: "batch_kernels_ok B" and s: "scanned_batch_ok s"
  shows "concat (map sb_view (split_batch B s limit)) = sb_view s \<and>
    list_all (\<lambda>p. scanned_batch_ok p \<and> b_num_rows (sb_batch p) \<le> max limit 1 \<and> length (sb_tags p) = length (sb_tags s))
      (split_batch B s limit) \<and>
    list_all (\<lambda>k. concat (map (\<lambda>p. sb_tags p ! k) (split_batch B s limit)) = sb_tags s ! k) [0..<length (sb_tags s)]"
proof (cases "max limit 1 < b_num_rows (sb_batch s)")
  case False
  then have "b_num_rows (sb_batch s) \<le> max limit 1" by (simp only: not_less)
  then have "split_batch B s limit = [s]" unfolding split_batch_def Let_def by (simp only: if_True)
  with s \<open>b_num_rows (sb_batch s) \<le> max limit 1\<close> show ?thesis by (simp add: list_all_iff)
next
  case True
  define step where step: "step = max limit 1"
  define n where n: "n = b_num_rows (sb_batch s)"
  have pos: "0 < step" by (simp add: step)
  from split_batch_slices [OF s step n] True
  have sp: "split_batch B s limit = map (\<lambda>k. slice_part B s (k * step) (min step (n - k * step))) [0..<(n + step - 1) div step]"
    and le: "\<And>k. k < (n + step - 1) div step \<Longrightarrow> k * step + min step (n - k * step) \<le> n"
    by (simp_all add: step n)
  have v: "scanned_batch_ok (slice_part B s (k * step) (min step (n - k * step))) \<and>
      b_num_rows (sb_batch (slice_part B s (k * step) (min step (n - k * step)))) = min step (n - k * step) \<and>
      sb_view (slice_part B s (k * step) (min step (n - k * step))) = slice_list (sb_view s) (k * step) (min step (n - k * step))"
    if "k < (n + step - 1) div step" for k
    using slice_part_view [OF B s le [OF that, unfolded n]] by (simp add: n)
  have "length (sb_view s) = n" using s by (simp add: sb_view_def scanned_batch_ok_def n)
  note whole = concat_slices [OF this pos]
  have "map (\<lambda>k. sb_view (slice_part B s (k * step) (min step (n - k * step)))) [0..<(n + step - 1) div step] =
      map (\<lambda>k. slice_list (sb_view s) (k * step) (min step (n - k * step))) [0..<(n + step - 1) div step]"
    using v by (intro map_cong) auto
  with whole have "concat (map sb_view (split_batch B s limit)) = sb_view s"
    by (simp only: sp map_map comp_def)
  moreover have "concat (map (\<lambda>p. sb_tags p ! k) (split_batch B s limit)) = sb_tags s ! k"
    if "k < length (sb_tags s)" for k
  proof -
    have "length (sb_tags s ! k) = n" using s that by (simp add: scanned_batch_ok_def list_all_length n)
    from concat_slices [OF this pos] that show ?thesis by (simp add: sp comp_def slice_part_def)
  qed
  moreover have "list_all (\<lambda>p. scanned_batch_ok p \<and> b_num_rows (sb_batch p) \<le> max limit 1 \<and>
      length (sb_tags p) = length (sb_tags s)) (split_batch B s limit)"
    using v by (auto simp: sp list_all_iff slice_part_def) (simp add: step)
  ultimately show ?thesis by (simp add: list_all_iff)
qed

lemma batch_rows_view: "scanned_batch_ok s \<Longrightarrow> map fst (sb_view s) = batch_rows (sb_batch s)"
  by (auto simp: sb_view_def batch_view_def scanned_batch_ok_def part_ok_def split: option.splits)

lemma split_batch_rows:
  assumes B: "batch_kernels_ok B" and s: "scanned_batch_ok s"
  shows "concat (map (\<lambda>p. batch_rows (sb_batch p)) (split_batch B s limit)) = batch_rows (sb_batch s)"
proof -
  note v = split_batch_view [OF B s, of limit]
  then have "map (\<lambda>p. batch_rows (sb_batch p)) (split_batch B s limit) =
      map (\<lambda>p. map fst (sb_view p)) (split_batch B s limit)"
    by (intro map_cong refl) (simp add: list_all_iff batch_rows_view)
  also have "concat \<dots> = map fst (concat (map sb_view (split_batch B s limit)))"
    by (simp add: map_concat comp_def)
  finally show ?thesis using v by (simp add: batch_rows_view [OF s])
qed

lemma concat_over:
  "(\<And>p. p \<in> set ps \<Longrightarrow> concat (map f (h p)) = g p) \<Longrightarrow> concat (map f (concat (map h ps))) = concat (map g ps)"
  by (induction ps) auto

lemma collect_parts_Inr:
  assumes "list_all (\<lambda>p. length (sb_tags p) = length tags \<and> (ps \<noteq> None \<longrightarrow> sb_positions p \<noteq> None)) parts"
  shows "\<exists>tags'. try_fold collect_part parts (bs, ps, tags) =
      Inr (bs @ map sb_batch parts, map_option (\<lambda>qs. qs @ map (\<lambda>p. the (sb_positions p)) parts) ps, tags') \<and>
    length tags' = length tags \<and> (\<forall>k < length tags. tags' ! k = tags ! k @ map (\<lambda>p. sb_tags p ! k) parts)"
  using assms
proof (induction parts arbitrary: bs ps tags)
  case Nil
  then show ?case by (cases ps) simp_all
next
  case (Cons p parts)
  let ?ps = "map_option (\<lambda>qs. qs @ [the (sb_positions p)]) ps"
  let ?tags = "map2 (\<lambda>masks m. masks @ [m]) tags (sb_tags p)"
  from Cons.prems have step: "collect_part p (bs, ps, tags) = Inr (bs @ [sb_batch p], ?ps, ?tags)"
    by (cases ps) (auto simp: collect_part_def)
  have "list_all (\<lambda>p. length (sb_tags p) = length ?tags \<and> (?ps \<noteq> None \<longrightarrow> sb_positions p \<noteq> None)) parts"
    using Cons.prems by (auto simp: list_all_iff)
  from Cons.IH [OF this, of "bs @ [sb_batch p]"] obtain tags' where
    "try_fold collect_part parts (bs @ [sb_batch p], ?ps, ?tags) = Inr (bs @ map sb_batch (p # parts),
      map_option (\<lambda>qs. qs @ map (\<lambda>p. the (sb_positions p)) (p # parts)) ps, tags')"
    "length tags' = length ?tags" "\<forall>k < length ?tags. tags' ! k = ?tags ! k @ map (\<lambda>p. sb_tags p ! k) parts"
    by (auto simp: option.map_comp comp_def)
  with step Cons.prems show ?case by auto
qed

definition rows_of_parts :: "bool \<Rightarrow> scanned_batch list \<Rightarrow> rows" where
  "rows_of_parts positions parts =
     \<lparr>rs_batches = map sb_batch parts,
      rs_positions = (if positions then Some (map (\<lambda>p. the (sb_positions p)) parts) else None)\<rparr>"

lemma rows_of_parts_ok:
  assumes "list_all (\<lambda>p. scanned_batch_ok p \<and> (sb_positions p \<noteq> None \<longleftrightarrow> positions)) parts"
  shows "rows_ok (rows_of_parts positions parts) \<and> rows_view (rows_of_parts positions parts) = concat (map sb_view parts)"
proof (cases positions)
  case True
  with assms have "sb_view p = batch_view (sb_batch p) (Some (the (sb_positions p)))"
    "length (the (sb_positions p)) = b_num_rows (sb_batch p)" if "p \<in> set parts" for p
    using that by (auto simp: list_all_iff sb_view_def scanned_batch_ok_def part_ok_def)
  with True show ?thesis
    by (auto simp: rows_of_parts_def rows_ok_def rows_view_def rows_parts_def positions_aligned_def list_all_length
        map2_map_map comp_def intro!: arg_cong [of _ _ concat])
next
  case False
  with assms have "sb_view p = batch_view (sb_batch p) None" if "p \<in> set parts" for p
    using that by (auto simp: list_all_iff sb_view_def)
  with False show ?thesis
    by (auto simp: rows_of_parts_def rows_ok_def rows_view_def rows_parts_def comp_def intro!: arg_cong [of _ _ concat])
qed

lemma scanned_collect_Inr:
  assumes parts: "list_all (\<lambda>p. scanned_batch_ok p \<and> (sb_positions p \<noteq> None \<longleftrightarrow> rq_positions rq) \<and>
    length (sb_tags p) = length (rq_item_tags rq)) parts"
  shows "\<exists>tags. scanned_collect rq parts =
      Inr \<lparr>sd_rows = rows_of_parts (rq_positions rq) parts, sd_tags = zip (rq_item_tags rq) tags\<rparr> \<and>
    length tags = length (rq_item_tags rq) \<and>
    (\<forall>k < length tags. tags ! k = map (\<lambda>p. sb_tags p ! k) parts)"
proof -
  let ?n = "length (rq_item_tags rq)" and ?ps = "if rq_positions rq then Some [] else None"
  from parts have "list_all (\<lambda>p. length (sb_tags p) = length (replicate ?n ([] :: mask list)) \<and>
      (?ps \<noteq> None \<longrightarrow> sb_positions p \<noteq> None)) parts"
    by (auto simp: list_all_iff)
  from collect_parts_Inr [OF this, of "[]"] obtain tags where
    f: "try_fold collect_part parts ([], ?ps, replicate ?n []) = Inr (map sb_batch parts,
      map_option (\<lambda>qs. qs @ map (\<lambda>p. the (sb_positions p)) parts) ?ps, tags)"
    and tags: "length tags = ?n" "\<forall>k < ?n. tags ! k = map (\<lambda>p. sb_tags p ! k) parts" by auto
  have ok: "rows_ok (rows_of_parts (rq_positions rq) parts)"
    using rows_of_parts_ok [of "rq_positions rq" parts] parts by (auto simp: list_all_iff)
  have r: "(case map_option (\<lambda>qs. qs @ map (\<lambda>p. the (sb_positions p)) parts) ?ps of
      Some qs \<Rightarrow> with_positions (map sb_batch parts) qs | None \<Rightarrow> Inr (rows_new (map sb_batch parts))) =
      Inr (rows_of_parts (rq_positions rq) parts)"
    using ok by (auto simp: with_positions_def rows_of_parts_def rows_new_def rows_ok_def)
  have "masks_aligned (rows_of_parts (rq_positions rq) parts) masks" if "masks \<in> set tags" for masks
    using that tags parts by (auto simp: in_set_conv_nth masks_aligned_def rows_of_parts_def list_all_length scanned_batch_ok_def)
  then have "scanned_new rq (rows_of_parts (rq_positions rq) parts) tags =
      Inr \<lparr>sd_rows = rows_of_parts (rq_positions rq) parts, sd_tags = zip (rq_item_tags rq) tags\<rparr>"
    using tags by (auto simp: scanned_new_def rows_of_parts_def and_then_Inr_iff try_for_each_Inr_iff)
  with f r tags show ?thesis by (intro exI [of _ tags]) (simp add: scanned_collect_def)
qed

text \<open>What the rows of a tag are: the rows its masks select.\<close>

lemma matched_by_rows:
  assumes B: "batch_kernels_ok B" and m: "masks_aligned (sd_rows s) masks"
    and f: "find (\<lambda>(tag, _). tag = items) (sd_tags s) = Some (items, masks)"
  shows "\<exists>bs. matched_by B s items = Some (Inr bs) \<and>
    concat (map batch_rows bs) = select (concat masks) (concat (map batch_rows (rs_batches (sd_rows s))))"
proof -
  have "\<exists>bs. try_collect (\<lambda>(b, m). case bk_filter B b m of Inl _ \<Rightarrow> Inl Panic | Inr b' \<Rightarrow> Inr b')
        (filter (\<lambda>(_, m). 0 < true_count m) (zip batches ms)) = Inr bs \<and>
      concat (map batch_rows bs) = select (concat ms) (concat (map batch_rows batches))"
    if "length ms = length batches" "list_all (\<lambda>(m, b). length m = b_num_rows b) (zip ms batches)" for batches ms
    using that
  proof (induction ms batches rule: list_induct2)
    case (Cons m ms b batches)
    then obtain bs where bs: "try_collect (\<lambda>(b, m). case bk_filter B b m of Inl _ \<Rightarrow> Inl Panic | Inr b' \<Rightarrow> Inr b')
        (filter (\<lambda>(_, m). 0 < true_count m) (zip batches ms)) = Inr bs"
      "concat (map batch_rows bs) = select (concat ms) (concat (map batch_rows batches))" by auto
    from Cons.prems have l: "length m = b_num_rows b" by simp
    obtain b' where b': "bk_filter B b m = Inr b'" "batch_rows b' = select m (batch_rows b)"
      using filter_batch_Inr [OF B l] .
    show ?case
    proof (cases "true_count m = 0")
      case True
      with bs l select_none [OF True] show ?thesis by (auto simp: select_append simp del: true_count_0)
    next
      case False
      with bs l b' show ?thesis by (intro exI [of _ "b' # bs"]) (auto simp: select_append)
    qed
  qed simp
  from this [of masks "rs_batches (sd_rows s)"] m f show ?thesis
    by (auto simp: matched_by_def masks_aligned_def)
qed

text \<open>The columns of a batch keep their types through every operation.\<close>

definition shaped :: "(string \<times> data_type) list \<Rightarrow> batch \<Rightarrow> bool" where
  "shaped ts b \<longleftrightarrow> batch_ok b \<and> column_types b = ts"

lemma shaped_filter:
  assumes "batch_kernels_ok B" and "shaped ts b" and "length m = b_num_rows b" and "bk_filter B b m = Inr b'"
  shows "shaped ts b'"
  using assms unfolding batch_kernels_ok_def shaped_def by blast

lemma shaped_split:
  assumes B: "batch_kernels_ok B" and s: "scanned_batch_ok s" and t: "shaped ts (sb_batch s)" and p: "p \<in> set (split_batch B s limit)"
  shows "shaped ts (sb_batch p)"
proof (cases "max limit 1 < b_num_rows (sb_batch s)")
  case False
  then have "b_num_rows (sb_batch s) \<le> max limit 1" by (simp only: not_less)
  then have "split_batch B s limit = [s]" unfolding split_batch_def Let_def by (simp only: if_True)
  with p t show ?thesis by simp
next
  case True
  note sp = split_batch_slices [OF s refl refl True, where B = B]
  let ?step = "max limit 1" and ?n = "b_num_rows (sb_batch s)"
  from p sp obtain k where k: "k < (?n + ?step - 1) div ?step" "p = slice_part B s (k * ?step) (min ?step (?n - k * ?step))" by auto
  have "k * ?step + min ?step (?n - k * ?step) \<le> ?n" using sp k(1) by blast
  with B t show ?thesis unfolding k(2) batch_kernels_ok_def shaped_def by (simp add: slice_part_def)
qed

lemma shaped_matched:
  assumes B: "batch_kernels_ok B" and m: "masks_aligned (sd_rows s) masks"
    and f: "find (\<lambda>(tag, _). tag = items) (sd_tags s) = Some (items, masks)"
    and t: "list_all (shaped ts) (rs_batches (sd_rows s))" and e: "matched_by B s items = Some (Inr bs)"
  shows "list_all (shaped ts) bs"
proof -
  have aligned: "shaped ts b \<and> length k = b_num_rows b" if "(b, k) \<in> set (zip (rs_batches (sd_rows s)) masks)" for b k
    using that m t by (auto simp: masks_aligned_def list_all_length set_zip)
  have "try_collect (\<lambda>(b, m). case bk_filter B b m of Inl _ \<Rightarrow> Inl Panic | Inr b' \<Rightarrow> Inr b')
      (filter (\<lambda>(_, m). 0 < true_count m) (zip (rs_batches (sd_rows s)) masks)) = Inr bs"
    using e f by (simp add: matched_by_def)
  moreover have "list_all (shaped ts) bs"
    if "try_collect (\<lambda>(b, m). case bk_filter B b m of Inl _ \<Rightarrow> Inl Panic | Inr b' \<Rightarrow> Inr b') ps = Inr bs"
      "set ps \<subseteq> set (zip (rs_batches (sd_rows s)) masks)" for ps bs
    using that
  proof (induction ps arbitrary: bs)
    case (Cons p ps)
    obtain b k where p: "p = (b, k)" by (cases p)
    from Cons.prems(1) obtain b' bs' where b': "bk_filter B b k = Inr b'" "bs = b' # bs'"
      "try_collect (\<lambda>(b, m). case bk_filter B b m of Inl _ \<Rightarrow> Inl Panic | Inr b' \<Rightarrow> Inr b') ps = Inr bs'"
      by (auto simp: p and_then_Inr_iff split: sum.splits)
    have "shaped ts b" "length k = b_num_rows b" using aligned [of b k] Cons.prems(2) p by auto
    from shaped_filter [OF B this b'(1)] Cons.IH [OF b'(3)] Cons.prems(2) b'(2) show ?case by simp
  qed simp
  ultimately show ?thesis by (meson filter_is_subset)
qed

lemma project_rows:
  assumes B: "batch_kernels_ok B" and d: "distinct (column_names b)" and ks: "list_all (\<lambda>i. i < length (b_columns b)) ks"
  shows "\<exists>b'. bk_project B b ks = Inr b' \<and> batch_rows b' = map (only (map (\<lambda>i. column_names b ! i) ks)) (batch_rows b)"
proof -
  have "map_of (map ((!) (b_columns b)) ks) name =
      (if name \<in> set (map (\<lambda>i. column_names b ! i) ks) then map_of (b_columns b) name else None)" for name
    using ks
  proof (induction ks)
    case (Cons k ks)
    then have k: "k < length (b_columns b)" by simp
    then have "fst (b_columns b ! k) = column_names b ! k" by (simp add: column_names_def)
    moreover have "map_of (b_columns b) (column_names b ! k) = Some (snd (b_columns b ! k))"
      using d k by (intro map_of_is_SomeI) (auto simp: column_names_def)
    ultimately show ?case using Cons by (cases "b_columns b ! k") auto
  qed simp
  then have "row_at \<lparr>b_columns = map ((!) (b_columns b)) ks, b_num_rows = b_num_rows b\<rparr> i =
      only (map (\<lambda>i. column_names b ! i) ks) (row_at b i)" for i
    by (auto simp: row_at_def column_by_name_def only_def fun_eq_iff)
  then show ?thesis using B ks by (simp add: batch_kernels_ok_def batch_rows_def)
qed

lemma rows_project_view:
  assumes B: "batch_kernels_ok B" and r: "rows_ok r"
    and names: "list_all (\<lambda>b. distinct (column_names b)) (rs_batches r)"
  shows "\<exists>r'. rows_project B columns r = Inr r' \<and> rows_ok r' \<and>
    rows_view r' = map (\<lambda>(row, p). (only columns row, p)) (rows_view r)"
proof -
  let ?ks = "\<lambda>b. List.map_filter (index_of (column_names b)) columns"
  have one: "\<exists>b'. bk_project B b (?ks b) = Inr b' \<and> batch_rows b' = map (only columns) (batch_rows b)"
    if "distinct (column_names b)" for b
  proof -
    have "list_all (\<lambda>i. i < length (b_columns b)) (?ks b)"
      using index_of_Some [of "column_names b"] by (auto simp: list_all_iff map_filter_def column_names_def)
    with B that obtain b' where b': "bk_project B b (?ks b) = Inr b'"
      "batch_rows b' = map (only (map (\<lambda>i. column_names b ! i) (?ks b))) (batch_rows b)"
      using project_rows by blast
    have "set (map (\<lambda>i. column_names b ! i) (?ks b)) = set columns \<inter> set (column_names b)"
    proof -
      have "column_names b ! the (index_of (column_names b) c) = c" if "c \<in> set (column_names b)" for c
        using that index_of_Some [of "column_names b" c] by (cases "index_of (column_names b) c") auto
      then show ?thesis by (force simp: map_filter_def image_iff)
    qed
    moreover have "row_at b i c = None" if "c \<notin> set (column_names b)" for i c
      using that by (auto simp: row_at_def column_by_name_def column_names_def map_of_eq_None_iff)
    ultimately have "only (map (\<lambda>i. column_names b ! i) (?ks b)) x = only columns x" if "x \<in> set (batch_rows b)" for x
      using that by (auto simp: only_def batch_rows_def fun_eq_iff)
    with b' show ?thesis by auto
  qed
  let ?g = "\<lambda>b. projr (bk_project B b (?ks b))"
  from one names have g: "try_collect (\<lambda>b. bk_project B b (?ks b)) (rs_batches r) = Inr (map ?g (rs_batches r))"
    by (intro try_collect_total) (force simp: list_all_iff)
  have rows: "batch_rows (?g b) = map (only columns) (batch_rows b)" if "b \<in> set (rs_batches r)" for b
    using one names that by (force simp: list_all_iff)
  then have num: "b_num_rows (?g b) = b_num_rows b" if "b \<in> set (rs_batches r)" for b
    using that by (metis length_batch_rows length_map)
  have view: "batch_view (?g b) p = map (\<lambda>(row, p). (only columns row, p)) (batch_view b p)"
    if "b \<in> set (rs_batches r)" for b p
    using that by (auto simp: batch_view_def rows num zip_map1 case_prod_beta' split: option.split)
  let ?r = "r\<lparr>rs_batches := map ?g (rs_batches r)\<rparr>"
  have parts: "rows_parts ?r = map (\<lambda>(b, p). (?g b, p)) (rows_parts r)"
    by (auto simp: rows_parts_def zip_map1 comp_def case_prod_beta' split: option.splits)
  have mem: "fst e \<in> set (rs_batches r)" if "e \<in> set (rows_parts r)" for e
    using that by (auto simp: rows_parts_def split: option.splits dest: set_zip_leftD)
  have "rows_view ?r = map (\<lambda>(row, p). (only columns row, p)) (rows_view r)"
    using view mem
    by (auto simp: rows_view_def parts map_concat comp_def case_prod_beta' intro!: arg_cong [of _ _ concat])
  moreover have "rows_ok ?r"
    using r num by (auto simp: rows_ok_def positions_aligned_def list_all_length split: option.splits)
  ultimately show ?thesis using g by (auto simp: rows_project_def)
qed

section \<open>Properties\<close>

text \<open>
  C18: Rows are a list, batches and positions an arrangement of it: filtering keeps the selected rows in
  order and each with its own position, projecting keeps every row and its position, appending puts one
  list after the other and is refused exactly when only one of two nonempty sides has positions.
\<close>

theorem rows_refine:
  assumes "batch_kernels_ok B" and "rows_ok r" and "rows_ok other" and "masks_for mask_of r ms"
    and "list_all (\<lambda>b. distinct (column_names b)) (rs_batches r)"
  shows "(\<exists>r'. rows_filter B mask_of r = Inr r' \<and> rows_ok r' \<and> rows_view r' = select (concat ms) (rows_view r)) \<and>
    (\<exists>r'. rows_project B columns r = Inr r' \<and> rows_ok r' \<and>
      rows_view r' = map (\<lambda>(row, p). (only columns row, p)) (rows_view r)) \<and>
    (case rows_append r other of
       Inr r' \<Rightarrow> rows_ok r' \<and> rows_view r' = rows_view r @ rows_view other
     | Inl _ \<Rightarrow> rs_batches r \<noteq> [] \<and> rs_batches other \<noteq> [] \<and> (rs_positions r = None) \<noteq> (rs_positions other = None))"
  using rows_filter_view [OF assms(1,2,4)] rows_project_view [OF assms(1,2,5)] rows_append_view [OF assms(2,3)]
  by blast

text \<open>
  However a reader slices what it reads, a scan reports every row once, in order and with its own
  position, and the rows of an item tag are exactly those the reader marked: nothing is lost at a slice's
  edge, no mask slips by a row, and looking a tag up never panics.
\<close>

theorem scan_slices_agree:
  assumes B: "batch_kernels_ok B" and tags: "distinct (rq_item_tags rq)"
    and parts: "list_all (\<lambda>p. scanned_batch_ok p \<and> (sb_positions p \<noteq> None \<longleftrightarrow> rq_positions rq) \<and>
      length (sb_tags p) = length (rq_item_tags rq)) parts"
  shows "\<exists>sd. scanned_collect rq (concat (map (\<lambda>p. split_batch B p limit) parts)) = Inr sd \<and>
    rows_ok (sd_rows sd) \<and> rows_view (sd_rows sd) = concat (map sb_view parts) \<and>
    list_all (\<lambda>k. case matched_by B sd (rq_item_tags rq ! k) of
        Some (Inr bs) \<Rightarrow> concat (map batch_rows bs) =
          select (concat (map (\<lambda>p. sb_tags p ! k) parts)) (concat (map (\<lambda>p. batch_rows (sb_batch p)) parts))
      | _ \<Rightarrow> False) [0..<length (rq_item_tags rq)]"
proof -
  let ?slices = "concat (map (\<lambda>p. split_batch B p limit) parts)"
  have split: "concat (map sb_view (split_batch B p limit)) = sb_view p \<and>
      list_all (\<lambda>q. scanned_batch_ok q \<and> b_num_rows (sb_batch q) \<le> max limit 1 \<and> length (sb_tags q) = length (sb_tags p))
        (split_batch B p limit) \<and>
      list_all (\<lambda>k. concat (map (\<lambda>q. sb_tags q ! k) (split_batch B p limit)) = sb_tags p ! k) [0..<length (sb_tags p)]"
    if "p \<in> set parts" for p
    using split_batch_view [OF B, of p] parts that by (auto simp: list_all_iff)
  have pos: "(sb_positions q = None) = (sb_positions p = None)" if "q \<in> set (split_batch B p limit)" for p q
    using that by (auto simp: split_batch_def slice_part_def Let_def split: if_splits)
  have slices: "list_all (\<lambda>p. scanned_batch_ok p \<and> (sb_positions p \<noteq> None \<longleftrightarrow> rq_positions rq) \<and>
      length (sb_tags p) = length (rq_item_tags rq)) ?slices"
    using split pos parts by (fastforce simp: list_all_iff)
  from scanned_collect_Inr [OF slices] obtain ts where
    sd: "scanned_collect rq ?slices =
      Inr \<lparr>sd_rows = rows_of_parts (rq_positions rq) ?slices, sd_tags = zip (rq_item_tags rq) ts\<rparr>"
    and ts: "length ts = length (rq_item_tags rq)" "\<forall>k < length ts. ts ! k = map (\<lambda>p. sb_tags p ! k) ?slices" by blast
  let ?sd = "\<lparr>sd_rows = rows_of_parts (rq_positions rq) ?slices, sd_tags = zip (rq_item_tags rq) ts\<rparr>"
  have view: "rows_ok (sd_rows ?sd)" "rows_view (sd_rows ?sd) = concat (map sb_view ?slices)"
    using rows_of_parts_ok [of "rq_positions rq" ?slices] slices by (auto simp: list_all_iff)
  have "\<exists>bs. matched_by B ?sd (rq_item_tags rq ! k) = Some (Inr bs) \<and> concat (map batch_rows bs) =
      select (concat (map (\<lambda>p. sb_tags p ! k) parts)) (concat (map (\<lambda>p. batch_rows (sb_batch p)) parts))"
    if k: "k < length (rq_item_tags rq)" for k
  proof -
    have "find (\<lambda>(tag, _). tag = rq_item_tags rq ! k) (zip (rq_item_tags rq) ts) = Some (rq_item_tags rq ! k, ts ! k)"
      using tags ts(1) k by (auto simp: find_Some_iff nth_eq_iff_index_eq intro!: exI [of _ k])
    moreover have "masks_aligned (sd_rows ?sd) (ts ! k)"
      using ts k slices by (auto simp: masks_aligned_def rows_of_parts_def list_all_length scanned_batch_ok_def)
    ultimately obtain bs where "matched_by B ?sd (rq_item_tags rq ! k) = Some (Inr bs)"
      "concat (map batch_rows bs) = select (concat (ts ! k)) (concat (map batch_rows (rs_batches (sd_rows ?sd))))"
      using matched_by_rows [OF B, of ?sd "ts ! k" "rq_item_tags rq ! k"] by auto
    moreover have "concat (ts ! k) = concat (map (\<lambda>p. sb_tags p ! k) parts)"
      using ts k concat_over [of parts "\<lambda>p. sb_tags p ! k" "\<lambda>p. split_batch B p limit" "\<lambda>p. sb_tags p ! k"] split parts
      by (simp add: list_all_iff)
    moreover have "concat (map batch_rows (rs_batches (sd_rows ?sd))) = concat (map (\<lambda>p. batch_rows (sb_batch p)) parts)"
      using concat_over [of parts "\<lambda>p. batch_rows (sb_batch p)" "\<lambda>p. split_batch B p limit" "\<lambda>p. batch_rows (sb_batch p)"]
        split_batch_rows [OF B] parts by (simp add: rows_of_parts_def comp_def list_all_iff)
    ultimately show ?thesis by simp
  qed
  moreover have "concat (map sb_view ?slices) = concat (map sb_view parts)"
    using concat_over [of parts sb_view "\<lambda>p. split_batch B p limit" sb_view] split by blast
  ultimately show ?thesis using sd view by (intro exI [of _ ?sd]) (fastforce simp: list_all_iff)
qed

text \<open>
  An instance of the kernels: a column of chosen rows is a dictionary of their indices into the column.
\<close>

definition plain_batch_kernels :: batch_kernels where
  "plain_batch_kernels =
     \<lparr>bk_filter = (\<lambda>b m. Inr (gather (select m [0..<b_num_rows b]) b)),
      bk_filter_positions = (\<lambda>xs m. Inr (select m xs)),
      bk_filter_mask = (\<lambda>xs m. Inr (select m xs)),
      bk_slice = (\<lambda>b start n. gather [start..<start + n] b),
      bk_project = (\<lambda>b ks. Inr \<lparr>b_columns = map ((!) (b_columns b)) ks, b_num_rows = b_num_rows b\<rparr>)\<rparr>"

lemma batch_rows_gather: "batch_rows (gather ks b) = map (row_at b) ks"
proof -
  have "row_at (gather ks b) i = row_at b (ks ! i)" if "i < length ks" for i
    using that
    by (auto simp: fun_eq_iff row_at_def gather_def column_by_name_def take_rows_cells map_of_map option.map_comp comp_def)
  then show ?thesis by (intro nth_equalityI) (simp_all add: batch_rows_def gather_def)
qed

lemma set_select: "set (select m xs) \<subseteq> set xs"
  by (auto simp: select_def dest: set_zip_rightD)

lemma batch_kernels_ok_plain [simp]: "batch_kernels_ok plain_batch_kernels"
  unfolding batch_kernels_ok_def
proof (intro conjI allI impI)
  show "\<exists>b'. bk_filter plain_batch_kernels b m = Inr b' \<and> column_names b' = column_names b \<and> batch_rows b' = select m (batch_rows b)" for b m
    using batch_rows_gather [of "select m [0..<b_num_rows b]" b]
    by (simp add: plain_batch_kernels_def select_map [symmetric] batch_rows_def [symmetric])
      (simp add: gather_def column_names_def comp_def case_prod_beta')
  show "batch_rows (bk_slice plain_batch_kernels b start n) = take n (drop start (batch_rows b))" if "start + n \<le> b_num_rows b" for b start n
    using that batch_rows_gather [of "[start..<start + n]" b]
    by (simp add: plain_batch_kernels_def) (simp add: batch_rows_def drop_map take_map)
  fix b m b' assume a: "batch_ok b \<and> length m = b_num_rows b \<and> bk_filter plain_batch_kernels b m = Inr b'"
  then have b': "b' = gather (select m [0..<b_num_rows b]) b" by (simp add: plain_batch_kernels_def)
  then show "column_types b' = column_types b" by simp
  have "k < b_num_rows b" if "k \<in> set (select m [0..<b_num_rows b])" for k
    using subsetD [OF set_select that] by simp
  with a b' show "batch_ok b'" by (simp add: gather_ok)
next
  show "batch_ok (bk_slice plain_batch_kernels b start n)" if "batch_ok b \<and> start + n \<le> b_num_rows b" for b start n
    using that by (auto simp: plain_batch_kernels_def intro!: gather_ok)
qed (simp_all add: plain_batch_kernels_def)

definition numbered_batch :: batch where
  "numbered_batch = \<lparr>b_columns = [(''block_number'', AInt UInt64 [7, 7, 9] None)], b_num_rows = 3\<rparr>"

definition sample_rows :: rows where
  "sample_rows = \<lparr>rs_batches = [numbered_batch], rs_positions = Some [[4, 5, 8]]\<rparr>"

theorem rows_refine_witness:
  "\<exists>r. rows_filter plain_batch_kernels (\<lambda>_ _. Inr [Some True, None, Some True]) sample_rows = Inr r \<and>
    map snd (rows_view r) = [Some 4, Some 8]"
proof -
  have ok: "rows_ok sample_rows" "list_all (\<lambda>b. distinct (column_names b)) (rs_batches sample_rows)"
    by (simp_all add: rows_ok_def positions_aligned_def sample_rows_def numbered_batch_def column_names_def)
  have "masks_for (\<lambda>_ _. Inr [Some True, None, Some True]) sample_rows [[Some True, None, Some True]]"
    by (simp add: masks_for_def masks_aligned_def sample_rows_def numbered_batch_def)
  from rows_refine [OF batch_kernels_ok_plain ok(1) ok(1) this ok(2)] obtain r where
    "rows_filter plain_batch_kernels (\<lambda>_ _. Inr [Some True, None, Some True]) sample_rows = Inr r"
    "rows_view r = select (concat [[Some True, None, Some True]]) (rows_view sample_rows)" by blast
  then show ?thesis
    by (simp add: rows_view_def rows_parts_def sample_rows_def batch_view_def batch_rows_def numbered_batch_def upt_rec)
qed

definition sample_part :: scanned_batch where
  "sample_part = \<lparr>sb_batch = numbered_batch, sb_positions = Some [4, 5, 8], sb_tags = [[Some True, Some False, Some True]]\<rparr>"

theorem scan_slices_agree_witness:
  "\<exists>sd. scanned_collect \<lparr>rq_item_tags = [[0]], rq_positions = True\<rparr>
      (concat (map (\<lambda>p. split_batch plain_batch_kernels p 2) [sample_part])) = Inr sd \<and>
    map snd (rows_view (sd_rows sd)) = [Some 4, Some 5, Some 8]"
proof -
  have "list_all (\<lambda>p. scanned_batch_ok p \<and>
      (sb_positions p \<noteq> None \<longleftrightarrow> rq_positions \<lparr>rq_item_tags = [[0]], rq_positions = True\<rparr>) \<and>
      length (sb_tags p) = length (rq_item_tags \<lparr>rq_item_tags = [[0]], rq_positions = True\<rparr>)) [sample_part]"
    by (simp add: scanned_batch_ok_def part_ok_def sample_part_def numbered_batch_def)
  from scan_slices_agree [OF batch_kernels_ok_plain _ this, of 2] obtain sd where
    "scanned_collect \<lparr>rq_item_tags = [[0]], rq_positions = True\<rparr>
      (concat (map (\<lambda>p. split_batch plain_batch_kernels p 2) [sample_part])) = Inr sd"
    "rows_view (sd_rows sd) = concat (map sb_view [sample_part])" by auto
  then show ?thesis
    by (simp add: sb_view_def batch_view_def batch_rows_def sample_part_def numbered_batch_def upt_rec)
qed

end
