(* ===== verification/Projection.thy ===== *)
theory Projection
  imports Loader Errors Sample
begin

text \<open>
  A table's selected fields resolved once against its catalog entry (\<^verbatim>\<open>src/output/projection.rs\<close>), and what
  a row of them weighs (\<open>RowWeight\<close> of \<^verbatim>\<open>src/output/weight.rs\<close>). The lemmas show that the fields of an
  accepted request always resolve, what each list of columns holds, and that a weight does not depend on
  the order fields are selected in.
\<close>

definition push_unique :: "string list \<Rightarrow> string list \<Rightarrow> string list" where
  "push_unique columns extra = fold push_new extra columns"

definition row_key :: "table_description \<Rightarrow> string list" where
  "row_key t =
     push_unique (push_unique [t_block_number_column t] (t_item_order_keys t)) (opt_list (t_address_column t))"

definition add_required :: "table_description \<Rightarrow> string \<Rightarrow> string list \<Rightarrow> string list" where
  "add_required t col required =
     (case column t col of
        None \<Rightarrow> required
      | Some declared \<Rightarrow>
          if c_system declared then required
          else
            (let named = push_unique required [col] in
             case c_weight declared of
               Some (WColumn companion) \<Rightarrow> push_unique named [companion]
             | _ \<Rightarrow> named))"

definition required_columns :: "string list \<Rightarrow> table_description \<Rightarrow> string list" where
  "required_columns rendered t = fold (add_required t) rendered []"


section \<open>What a row weighs\<close>

definition default_row_weight :: nat where
  "default_row_weight = 32"

record row_weight =
  rw_fixed :: nat
  rw_columns :: "string list"

definition charge :: "table_description \<Rightarrow> string \<Rightarrow> row_weight \<Rightarrow> row_weight" where
  "charge t col w =
     (case column t col of
        None \<Rightarrow> w
      | Some declared \<Rightarrow>
          if c_system declared then w
          else
            (case c_weight declared of
               Some (WColumn companion) \<Rightarrow> w\<lparr>rw_columns := rw_columns w @ [companion]\<rparr>
             | Some (WFixed n) \<Rightarrow> w\<lparr>rw_fixed := saturating_add (rw_fixed w) n\<rparr>
             | None \<Rightarrow> w\<lparr>rw_fixed := saturating_add (rw_fixed w) default_row_weight\<rparr>))"

definition weight_of_columns :: "string list \<Rightarrow> table_description \<Rightarrow> row_weight" where
  "weight_of_columns columns t = fold (charge t) columns \<lparr>rw_fixed = 0, rw_columns = []\<rparr>"

definition row_weight_of :: "string list \<Rightarrow> table_description \<Rightarrow> row_weight" where
  "row_weight_of rendered t = weight_of_columns (push_unique (push_unique [] (weight_key t)) rendered) t"


section \<open>A resolved projection\<close>

record selected_field =
  sf_name :: string
  sf_source :: field_reading

record resolved_projection =
  rp_table :: string
  rp_desc :: table_description
  rp_names :: "string list"
  rp_fields :: "selected_field list"
  rp_rendered :: "string list"
  rp_required :: "string list"
  rp_weight :: row_weight
  rp_row_columns :: "string list"
  rp_size_columns :: "string list"

definition resolve_field :: "table_description \<Rightarrow> string \<Rightarrow> engine_error + selected_field" where
  "resolve_field t name =
     and_then (ok_or (EngineError UnknownField) (field_source t name)) (\<lambda>source.
     Inr \<lparr>sf_name = name, sf_source = source\<rparr>)"

definition resolve_projection ::
    "string \<Rightarrow> table_description \<Rightarrow> string list \<Rightarrow> engine_error + resolved_projection" where
  "resolve_projection table_name t names =
     and_then (try_collect (resolve_field t) names) (\<lambda>selected.
     let rendered = fold (\<lambda>f columns. push_unique columns (source_columns (sf_source f))) selected [];
         weight = row_weight_of rendered t
     in Inr
       \<lparr>rp_table = table_name, rp_desc = t, rp_names = names, rp_fields = selected, rp_rendered = rendered,
        rp_required = required_columns rendered t, rp_weight = weight,
        rp_row_columns =
          push_unique (push_unique (push_unique (row_key t) (opt_list (o_variant_column (t_output t)))) rendered)
            (rw_columns weight),
        rp_size_columns = push_unique [t_block_number_column t] (rw_columns weight)\<rparr>)"

definition with_relation_keys :: "resolved_projection \<Rightarrow> string list list \<Rightarrow> string list" where
  "with_relation_keys p left_keys = fold (\<lambda>key columns. push_unique columns key) left_keys (rp_row_columns p)"


section \<open>Facts\<close>

lemma set_push_unique [simp]: "set (push_unique columns extra) = set columns \<union> set extra"
  unfolding push_unique_def by (induction extra arbitrary: columns) auto

lemma distinct_push_unique [simp]: "distinct (push_unique columns extra) = distinct columns"
  unfolding push_unique_def by (induction extra arbitrary: columns) auto

lemma push_unique_prefix: "prefix columns (push_unique columns extra)"
proof (unfold push_unique_def, induction extra arbitrary: columns)
  case (Cons x extra)
  have "prefix columns (push_new x columns)" by (simp add: push_new_def)
  from this Cons.IH show ?case by (auto intro: prefix_order.trans)
qed simp

lemma push_unique_Nil [simp]: "push_unique columns [] = columns"
  by (simp add: push_unique_def)

lemma fold_push_unique:
  "set (fold (\<lambda>f columns. push_unique columns (g f)) fs columns) = set columns \<union> (\<Union>f \<in> set fs. set (g f))"
  "distinct (fold (\<lambda>f columns. push_unique columns (g f)) fs columns) = distinct columns"
  by (induction fs arbitrary: columns) auto

lemma set_row_key:
  "set (row_key t) = insert (t_block_number_column t) (set (t_item_order_keys t) \<union> set (opt_list (t_address_column t)))"
  by (simp add: row_key_def)

lemma distinct_row_key [simp]: "distinct (row_key t)"
  by (simp add: row_key_def)

lemma hd_row_key: "\<exists>rest. row_key t = t_block_number_column t # rest"
proof -
  have "prefix [t_block_number_column t] (row_key t)"
    unfolding row_key_def by (meson push_unique_prefix prefix_order.trans)
  then show ?thesis by (cases "row_key t") auto
qed

text \<open>The size columns of some columns, one entry for each column weighed by its size.\<close>

definition companion_of :: "table_description \<Rightarrow> string \<Rightarrow> string option" where
  "companion_of t col =
     (case column t col of
        None \<Rightarrow> None
      | Some c \<Rightarrow> if c_system c then None else (case c_weight c of Some (WColumn s) \<Rightarrow> Some s | _ \<Rightarrow> None))"

definition fixed_charge :: "table_description \<Rightarrow> string \<Rightarrow> nat" where
  "fixed_charge t col =
     (case column t col of
        None \<Rightarrow> 0
      | Some c \<Rightarrow>
          if c_system c then 0
          else (case c_weight c of Some (WColumn _) \<Rightarrow> 0 | Some (WFixed n) \<Rightarrow> n | None \<Rightarrow> 32))"

lemma charge_simps:
  "rw_columns (charge t col w) = rw_columns w @ opt_list (companion_of t col)"
  "rw_fixed w \<le> u64_max \<Longrightarrow> rw_fixed (charge t col w) = saturating_add (rw_fixed w) (fixed_charge t col)"
  by (auto simp: charge_def companion_of_def fixed_charge_def default_row_weight_def opt_list_def
      split: option.splits weight_source.splits)

lemma fold_charge:
  "rw_fixed w \<le> u64_max \<Longrightarrow>
     rw_columns (fold (charge t) cols w) = rw_columns w @ List.map_filter (companion_of t) cols \<and>
     rw_fixed (fold (charge t) cols w) = foldl saturating_add (rw_fixed w) (map (fixed_charge t) cols)"
proof (induction cols arbitrary: w)
  case Nil
  then show ?case by (simp add: map_filter_def)
next
  case (Cons col cols)
  have "rw_fixed (charge t col w) \<le> u64_max" using charge_simps(2) [OF Cons.prems] by simp
  from Cons.IH [OF this] Cons.prems show ?case
    by (simp add: charge_simps map_filter_def opt_list_def split: option.splits)
qed

lemma weight_of_columns_eq:
  "rw_columns (weight_of_columns cols t) = List.map_filter (companion_of t) cols"
  "rw_fixed (weight_of_columns cols t) = min (sum_list (map (fixed_charge t) cols)) u64_max"
  using fold_charge [of "\<lparr>rw_fixed = 0, rw_columns = []\<rparr>" t cols] fold_saturating_add [of 0]
  by (simp_all add: weight_of_columns_def)

text \<open>The columns a row is charged for, in the code's order and as a set.\<close>

lemma charged_columns:
  "set (push_unique (push_unique [] (weight_key t)) rendered) = set (weight_key t) \<union> set rendered"
  "distinct (push_unique (push_unique [] (weight_key t)) rendered)"
  by simp_all

lemma set_required_columns:
  "set (required_columns rendered t) =
     {c \<in> set rendered. public_column t c} \<union> {s. \<exists>c \<in> set rendered. companion_of t c = Some s}"
  "distinct (required_columns rendered t)"
proof -
  have one: "set (add_required t c acc) = set acc \<union> (if public_column t c then {c} else {}) \<union> {s. companion_of t c = Some s}"
    "distinct acc \<Longrightarrow> distinct (add_required t c acc)" for c acc
    by (auto simp: add_required_def public_column_def companion_of_def Let_def
        split: option.splits weight_source.splits)
  have "set (fold (add_required t) rendered acc) = set acc \<union> {c \<in> set rendered. public_column t c} \<union>
      {s. \<exists>c \<in> set rendered. companion_of t c = Some s}" for acc
  proof (induction rendered arbitrary: acc)
    case (Cons c rendered)
    show ?case unfolding fold_Cons comp_def Cons.IH by (auto simp: one)
  qed simp
  then show "set (required_columns rendered t) =
     {c \<in> set rendered. public_column t c} \<union> {s. \<exists>c \<in> set rendered. companion_of t c = Some s}"
    by (simp add: required_columns_def)
  have "distinct acc \<Longrightarrow> distinct (fold (add_required t) rendered acc)" for acc
    by (induction rendered arbitrary: acc) (auto simp: one)
  then show "distinct (required_columns rendered t)" by (simp add: required_columns_def)
qed


lemma set_map_filter: "set (List.map_filter g xs) = {y. \<exists>x \<in> set xs. g x = Some y}"
  by (force simp: map_filter_def)

lemma row_weight_of_eq:
  "rw_fixed (row_weight_of rendered t) = min (\<Sum>c \<in> set (weight_key t) \<union> set rendered. fixed_charge t c) u64_max"
  "set (rw_columns (row_weight_of rendered t)) = {s. \<exists>c \<in> set (weight_key t) \<union> set rendered. companion_of t c = Some s}"
proof -
  let ?cs = "push_unique (push_unique [] (weight_key t)) rendered"
  have "sum_list (map (fixed_charge t) ?cs) = (\<Sum>c \<in> set ?cs. fixed_charge t c)"
    by (rule sum_list_distinct_conv_sum_set) simp
  then show "rw_fixed (row_weight_of rendered t) = min (\<Sum>c \<in> set (weight_key t) \<union> set rendered. fixed_charge t c) u64_max"
    by (simp add: row_weight_of_def weight_of_columns_eq)
  show "set (rw_columns (row_weight_of rendered t)) = {s. \<exists>c \<in> set (weight_key t) \<union> set rendered. companion_of t c = Some s}"
    by (simp add: row_weight_of_def weight_of_columns_eq set_map_filter)
qed

text \<open>A size column is listed once for each charged column that is weighed by it.\<close>

lemma count_map_filter:
  assumes "distinct xs"
  shows "count_list (List.map_filter g xs) y = card {x \<in> set xs. g x = Some y}"
proof -
  have "count_list (List.map_filter g xs) y = length (filter (\<lambda>x. g x = Some y) xs)"
    by (induction xs) (simp_all add: List.map_filter_simps split: option.split)
  also have "\<dots> = card (set (filter (\<lambda>x. g x = Some y) xs))"
    by (rule distinct_card [symmetric]) (simp add: assms)
  finally show ?thesis by simp
qed

lemma count_row_weight:
  "count_list (rw_columns (row_weight_of rendered t)) s =
     card {c \<in> set (weight_key t) \<union> set rendered. companion_of t c = Some s}"
  unfolding row_weight_of_def weight_of_columns_eq by (simp add: count_map_filter)

lemma companion_of_fixed: "fixed_weight t k \<Longrightarrow> companion_of t k = None"
  by (auto simp: fixed_weight_def companion_of_def split: option.splits weight_source.splits)

lemma resolve_projection_Inr:
  assumes "resolve_projection n t names = Inr p"
  shows "rp_rendered p = fold (\<lambda>f columns. push_unique columns (field_columns t f)) names []"
    and "rp_weight p = row_weight_of (rp_rendered p) t"
    and "rp_required p = required_columns (rp_rendered p) t"
    and "rp_row_columns p = push_unique (push_unique (push_unique (row_key t) (opt_list (o_variant_column (t_output t))))
      (rp_rendered p)) (rw_columns (rp_weight p))"
    and "rp_size_columns p = push_unique [t_block_number_column t] (rw_columns (rp_weight p))"
proof -
  from assms obtain selected where s: "try_collect (resolve_field t) names = Inr selected"
    and p: "rp_rendered p = fold (\<lambda>f columns. push_unique columns (source_columns (sf_source f))) selected []"
      "rp_weight p = row_weight_of (rp_rendered p) t" "rp_required p = required_columns (rp_rendered p) t"
      "rp_row_columns p = push_unique (push_unique (push_unique (row_key t) (opt_list (o_variant_column (t_output t))))
        (rp_rendered p)) (rw_columns (rp_weight p))"
      "rp_size_columns p = push_unique [t_block_number_column t] (rw_columns (rp_weight p))"
    by (auto simp: resolve_projection_def and_then_Inr_iff Let_def)
  from s have "fold (\<lambda>f columns. push_unique columns (source_columns (sf_source f))) selected acc =
      fold (\<lambda>f columns. push_unique columns (field_columns t f)) names acc" for acc
  proof (induction names arbitrary: selected acc)
    case (Cons f names)
    then show ?case by (auto simp: and_then_Inr_iff resolve_field_def field_columns_def)
  qed simp
  with p show "rp_rendered p = fold (\<lambda>f columns. push_unique columns (field_columns t f)) names []"
    "rp_weight p = row_weight_of (rp_rendered p) t"
    "rp_required p = required_columns (rp_rendered p) t"
    "rp_row_columns p = push_unique (push_unique (push_unique (row_key t) (opt_list (o_variant_column (t_output t))))
      (rp_rendered p)) (rw_columns (rp_weight p))"
    "rp_size_columns p = push_unique [t_block_number_column t] (rw_columns (rp_weight p))"
    by simp_all
qed

lemma resolve_projection_total:
  assumes "\<And>f. f \<in> set names \<Longrightarrow> field_source t f \<noteq> None"
  shows "\<exists>p. resolve_projection n t names = Inr p"
proof -
  have "try_collect (resolve_field t) names =
      Inr (map (\<lambda>f. \<lparr>sf_name = f, sf_source = the (field_source t f)\<rparr>) names)"
    using assms by (intro try_collect_total) (force simp: resolve_field_def)
  then show ?thesis by (auto simp: resolve_projection_def Let_def)
qed

lemma take_length_prefix: "prefix xs ys \<Longrightarrow> take (length xs) ys = xs"
  by (auto simp: prefix_def)


section \<open>Properties\<close>

text \<open>
  C32: The fields of a request on an accepted catalog always resolve, and the steps of a query read what
  they need: only public columns are rendered, each once; the columns of one pass start with the key that
  identifies a row and hold its variant tag, the rendered columns and every size column it is weighed by;
  a chunk must hold exactly the rendered and the size columns. A row's fixed weight is what its key and
  rendered columns cost, each once, and a size column is charged exactly once for every rendered column that
  declares it, whatever the order of the fields and whatever they share.
\<close>

theorem projection_columns:
  assumes v: "validate d = Inr ()" and t: "(n, t) \<in> set (d_tables d)" and names: "list_all (is_selectable_field t) names"
  shows "\<exists>p. resolve_projection n t names = Inr p \<and>
    set (rp_rendered p) = (\<Union>f \<in> set names. set (field_columns t f)) \<and>
    list_all (public_column t) (rp_rendered p) \<and> distinct (rp_rendered p) \<and>
    take (length (row_key t)) (rp_row_columns p) = row_key t \<and> distinct (rp_row_columns p) \<and>
    set (rp_row_columns p) = set (row_key t) \<union> set (opt_list (o_variant_column (t_output t))) \<union>
      set (rp_rendered p) \<union> set (rw_columns (rp_weight p)) \<and>
    set (rp_size_columns p) = insert (t_block_number_column t) (set (rw_columns (rp_weight p))) \<and> distinct (rp_size_columns p) \<and>
    set (rp_required p) = set (rp_rendered p) \<union> set (rw_columns (rp_weight p)) \<and> distinct (rp_required p) \<and>
    rw_fixed (rp_weight p) = min (\<Sum>c \<in> set (weight_key t) \<union> set (rp_rendered p). fixed_charge t c) u64_max \<and>
    (\<forall>s. count_list (rw_columns (rp_weight p)) s = card {c \<in> set (rp_rendered p). companion_of t c = Some s})"
proof -
  note c = check_table_Inr [OF validate_tables [OF v t]]
  have f: "field_source t f \<noteq> None \<and> list_all (public_column t) (field_columns t f)" if "f \<in> set names" for f
    using public_field_columns [OF c(3)] names that unfolding list_all_iff by blast
  obtain p where p: "resolve_projection n t names = Inr p"
    using resolve_projection_total f by blast
  note r = resolve_projection_Inr [OF p]
  have rendered: "set (rp_rendered p) = (\<Union>f \<in> set names. set (field_columns t f))" "distinct (rp_rendered p)"
    by (simp_all add: r(1) fold_push_unique)
  have public: "list_all (public_column t) (rp_rendered p)"
    using f rendered by (auto simp: list_all_iff)
  have key: "prefix (row_key t) (rp_row_columns p)"
    unfolding r(4) by (meson push_unique_prefix prefix_order.trans)
  have unsized: "companion_of t k = None" if "k \<in> set (weight_key t)" for k
    using weight_key_fixed [OF validate_tables [OF v t] that] by (rule companion_of_fixed)
  then have "set (rp_required p) = set (rp_rendered p) \<union> set (rw_columns (rp_weight p))"
    using public by (auto simp: r(2,3) set_required_columns row_weight_of_eq list_all_iff)
  moreover have "distinct (rp_required p)" by (simp add: r(3) set_required_columns(2))
  moreover have "{c \<in> set (weight_key t) \<union> set (rp_rendered p). companion_of t c = Some s} =
      {c \<in> set (rp_rendered p). companion_of t c = Some s}" for s
    using unsized by auto
  then have "\<forall>s. count_list (rw_columns (rp_weight p)) s = card {c \<in> set (rp_rendered p). companion_of t c = Some s}"
    by (simp add: r(2) count_row_weight)
  ultimately show ?thesis
    using p rendered public key by (auto simp: r(2,4,5) row_weight_of_eq take_length_prefix)
qed

theorem projection_columns_witness:
  "\<exists>p. resolve_projection ''logs'' sample_logs [''data'', ''topics''] = Inr p \<and> distinct (rp_row_columns p)"
proof -
  have "validate sample_catalog = Inr ()" "list_all (is_selectable_field sample_logs) [''data'', ''topics'']"
    by code_simp+
  moreover have "(''logs'', sample_logs) \<in> set (d_tables sample_catalog)" by (simp add: sample_catalog_def)
  ultimately show ?thesis using projection_columns by blast
qed

end
