(* ===== verification/Weights.thy ===== *)
theory Weights
  imports Rows Projection "HOL-Library.Multiset"
begin

text \<open>
  What the blocks of a page weigh, and which of them fit (\<^verbatim>\<open>src/output/weight.rs\<close>). The weight of a block is
  shown to be the saturated sum over its distinct rows, whichever sources report them, and a selection to
  be the longest prefix of the offered blocks within the budget, and never empty.
\<close>

section \<open>The weight of a row\<close>

definition weight_columns :: "batch \<Rightarrow> string list \<Rightarrow> int_column list" where
  "weight_columns b names = List.map_filter (\<lambda>name. Option.bind (column_by_name b name) resolve_int) names"

text \<open>A null, a negative or an oversized value weighs nothing.\<close>

definition weight_at :: "int_column \<Rightarrow> nat \<Rightarrow> nat" where
  "weight_at c i =
     (if int_is_null c i then 0
      else let v = int_value c i in if 0 \<le> v \<and> v < 2 ^ 64 then nat v else 0)"

definition batch_blocks :: "batch \<Rightarrow> string \<Rightarrow> int_column option" where
  "batch_blocks b bn = Option.bind (column_by_name b bn) (\<lambda>a. ok (block_numbers_resolve a))"

type_synonym weights = "(nat, nat) omap"

definition add_weight :: "nat \<Rightarrow> nat \<Rightarrow> weights \<Rightarrow> weights" where
  "add_weight block w = omap_update block (\<lambda>old. saturating_add (unwrap_or 0 old) w)"

definition weigh_row :: "row_weight \<Rightarrow> int_column list \<Rightarrow> nat \<Rightarrow> nat" where
  "weigh_row w columns i = foldl (\<lambda>s c. saturating_add s (weight_at c i)) (rw_fixed w) columns"

definition accumulate_batch :: "string \<Rightarrow> row_weight \<Rightarrow> batch \<Rightarrow> weights \<Rightarrow> weights" where
  "accumulate_batch bn w b ws =
     (case batch_blocks b bn of
        None \<Rightarrow> ws
      | Some blocks \<Rightarrow>
          let columns = weight_columns b (rw_columns w) in
          fold (\<lambda>i. add_weight (block_number blocks i) (weigh_row w columns i)) [0..<b_num_rows b] ws)"

definition accumulate_block_weights :: "batch list \<Rightarrow> string \<Rightarrow> row_weight \<Rightarrow> weights \<Rightarrow> weights" where
  "accumulate_block_weights bs bn w ws = fold (accumulate_batch bn w) bs ws"


section \<open>Rows that several sources report\<close>

text \<open>
  \<open>E\<close> is Arrow's comparison of two one-row slices. A hash is the sequence of values written to the hasher.
\<close>

type_synonym slice_eq = "array \<Rightarrow> nat \<Rightarrow> array \<Rightarrow> nat \<Rightarrow> bool"

datatype token = TByte nat | TInt int | TText string | TLen nat

function (sequential) equal_key_value :: "slice_eq \<Rightarrow> array \<Rightarrow> nat \<Rightarrow> array \<Rightarrow> nat \<Rightarrow> bool" where
  "equal_key_value E a ai b bi =
     (if is_null a ai \<or> is_null b bi then is_null a ai \<and> is_null b bi
      else
        (case (a, b) of
           (AInt _ vs _, AInt _ us _) \<Rightarrow> vs ! ai = us ! bi
         | (AText _ vs _, AText _ us _) \<Rightarrow> vs ! ai = us ! bi
         | (AList False os xs _, AList False ps ys _) \<Rightarrow>
             os ! Suc ai - os ! ai = ps ! Suc bi - ps ! bi \<and>
             list_all (\<lambda>i. equal_key_value E xs (os ! ai + i) ys (ps ! bi + i)) [0..<os ! Suc ai - os ! ai]
         | _ \<Rightarrow> E a ai b bi))"
  by pat_completeness auto
termination by (relation "measure (\<lambda>(E, a, ai, b, bi). size a)") auto

function (sequential) hash_array_value :: "array \<Rightarrow> nat \<Rightarrow> token list" where
  "hash_array_value a i =
     (if is_null a i then [TByte 255]
      else
        (case a of
           AInt _ vs _ \<Rightarrow> [TInt (vs ! i)]
         | AText _ vs _ \<Rightarrow> [TText (vs ! i)]
         | AList False os xs _ \<Rightarrow>
             TLen (os ! Suc i - os ! i) #
             concat (map (\<lambda>k. hash_array_value xs (os ! i + k)) [0..<os ! Suc i - os ! i])
         | _ \<Rightarrow> [TByte 254]))"
  by pat_completeness auto
termination by (relation "measure (\<lambda>(a, i). size a)") auto

declare equal_key_value.simps [simp del] hash_array_value.simps [simp del]

type_synonym weight_row = "array option list \<times> nat"

fun equal_cells :: "slice_eq \<Rightarrow> array option \<Rightarrow> nat \<Rightarrow> array option \<Rightarrow> nat \<Rightarrow> bool" where
  "equal_cells E (Some a) i (Some b) j = equal_key_value E a i b j"
| "equal_cells E None i None j = True"
| "equal_cells E _ i _ j = False"

definition weight_row_eq :: "slice_eq \<Rightarrow> weight_row \<Rightarrow> weight_row \<Rightarrow> bool" where
  "weight_row_eq E = (\<lambda>(columns, i) (others, j).
     length columns = length others \<and> list_all (\<lambda>(a, b). equal_cells E a i b j) (zip columns others))"

definition weight_row_hash :: "weight_row \<Rightarrow> token list" where
  "weight_row_hash = (\<lambda>(columns, i).
     concat (map (\<lambda>c. case c of Some a \<Rightarrow> hash_array_value a i | None \<Rightarrow> [TByte 0]) columns))"

text \<open>
  Adding the rows whose key is new. The set of the keys seen is a list read through the keys' equality.
\<close>

definition add_if_new ::
    "('k \<Rightarrow> 'k \<Rightarrow> bool) \<Rightarrow> 'k \<Rightarrow> nat \<Rightarrow> nat \<Rightarrow> weights \<times> 'k list \<Rightarrow> weights \<times> 'k list" where
  "add_if_new eq key block w = (\<lambda>(ws, seen).
     if list_ex (eq key) seen then (ws, seen) else (add_weight block w ws, key # seen))"

definition accumulate_rows ::
    "('k \<Rightarrow> 'k \<Rightarrow> bool) \<Rightarrow> (nat \<Rightarrow> nat \<Rightarrow> 'k) \<Rightarrow> row_weight \<Rightarrow> batch \<Rightarrow> string \<Rightarrow> weights \<times> 'k list
     \<Rightarrow> weights \<times> 'k list" where
  "accumulate_rows eq key w b bn s =
     (case batch_blocks b bn of
        None \<Rightarrow> s
      | Some blocks \<Rightarrow>
          let columns = weight_columns b (rw_columns w) in
          fold (\<lambda>i. add_if_new eq (key i (block_number blocks i)) (block_number blocks i) (weigh_row w columns i))
            [0..<b_num_rows b] s)"

record weight_contribution =
  wc_rows :: rows
  wc_weight :: row_weight

definition accumulate_positioned :: "string \<Rightarrow> weight_contribution \<Rightarrow> weights \<times> nat list \<Rightarrow> weights \<times> nat list" where
  "accumulate_positioned bn c s =
     (case rs_positions (wc_rows c) of
        None \<Rightarrow> s
      | Some ps \<Rightarrow> fold (\<lambda>(b, p). accumulate_rows (=) (\<lambda>i _. p ! i) (wc_weight c) b bn) (zip (rs_batches (wc_rows c)) ps) s)"

definition key_arrays :: "string list \<Rightarrow> batch \<Rightarrow> array option list" where
  "key_arrays names b = map (column_by_name b) names"

definition same_keyed_row :: "slice_eq \<Rightarrow> nat \<times> weight_row \<Rightarrow> nat \<times> weight_row \<Rightarrow> bool" where
  "same_keyed_row E = (\<lambda>(block, r) (block', r'). block = block' \<and> weight_row_eq E r r')"

definition accumulate_keyed ::
    "slice_eq \<Rightarrow> string \<Rightarrow> string list \<Rightarrow> weight_contribution
     \<Rightarrow> weights \<times> (nat \<times> weight_row) list \<Rightarrow> weights \<times> (nat \<times> weight_row) list" where
  "accumulate_keyed E bn names c =
     fold (\<lambda>b. accumulate_rows (same_keyed_row E) (\<lambda>i block. (block, key_arrays names b, i)) (wc_weight c) b bn)
       (rs_batches (wc_rows c))"

definition accumulate_dedup ::
    "slice_eq \<Rightarrow> weight_contribution list \<Rightarrow> string \<Rightarrow> string list \<Rightarrow> weights \<Rightarrow> engine_error + weights" where
  "accumulate_dedup E contributions bn names ws =
     (let sources = filter (\<lambda>c. rs_batches (wc_rows c) \<noteq> []) contributions;
          positioned = length (filter (\<lambda>c. rs_positions (wc_rows c) \<noteq> None) sources)
      in if positioned = length sources then Inr (fst (fold (accumulate_positioned bn) sources (ws, [])))
      else
        and_then (ensure (positioned = 0) Untyped) (\<lambda>_.
        Inr (fst (fold (accumulate_keyed E bn names) sources (ws, [])))))"


section \<open>The weights of a page's blocks\<close>

record weighed_rows =
  wr_projection :: resolved_projection
  wr_rows :: rows

definition group_sources :: "weighed_rows list \<Rightarrow> (string, weighed_rows list) omap" where
  "group_sources sources =
     fold (\<lambda>s. omap_update (rp_table (wr_projection s)) (\<lambda>old. unwrap_or [] old @ [s])) sources []"

definition weigh_table :: "slice_eq \<Rightarrow> string \<times> weighed_rows list \<Rightarrow> weights \<Rightarrow> engine_error + weights" where
  "weigh_table E = (\<lambda>(_, contribs) ws.
     case contribs of
       [] \<Rightarrow> Inr ws
     | first # rest \<Rightarrow>
         let t = rp_desc (wr_projection first); bn = t_block_number_column t in
         if rest = [] then
           Inr (accumulate_block_weights (rs_batches (wr_rows first)) bn (rp_weight (wr_projection first)) ws)
         else
           accumulate_dedup E
             (map (\<lambda>s. \<lparr>wc_rows = wr_rows s, wc_weight = rp_weight (wr_projection s)\<rparr>) contribs)
             bn (tl (row_key t)) ws)"

definition weigh_header_batch :: "resolved_projection \<Rightarrow> nat list \<Rightarrow> batch \<Rightarrow> weights \<Rightarrow> weights" where
  "weigh_header_batch header candidates b ws =
     (case batch_blocks b (t_block_number_column (rp_desc header)) of
        None \<Rightarrow> ws
      | Some blocks \<Rightarrow>
          let w = rp_weight header; columns = weight_columns b (rw_columns w) in
          fold (\<lambda>i. if block_number blocks i \<notin> set candidates then id
              else add_weight (block_number blocks i)
                (saturating_add (rw_fixed w) (foldl (\<lambda>s c. saturating_add s (weight_at c i)) 0 columns)))
            [0..<b_num_rows b] ws)"

definition compute_block_weights ::
    "slice_eq \<Rightarrow> weighed_rows list \<Rightarrow> resolved_projection \<Rightarrow> batch list \<Rightarrow> nat list \<Rightarrow> engine_error + weights" where
  "compute_block_weights E sources header header_batches candidates =
     and_then (try_fold (weigh_table E) (group_sources sources) []) (\<lambda>ws.
     Inr (fold (weigh_header_batch header candidates) header_batches ws))"


section \<open>The blocks that fit\<close>

record block_selection =
  sel_budget :: nat
  sel_cumulative :: nat
  sel_blocks :: "nat list"
  sel_weights :: "nat list"

definition selection_new :: "nat \<Rightarrow> block_selection" where
  "selection_new budget = \<lparr>sel_budget = budget, sel_cumulative = 0, sel_blocks = [], sel_weights = []\<rparr>"

definition weight_in :: "weights \<Rightarrow> nat \<Rightarrow> nat" where
  "weight_in ws block = unwrap_or 0 (map_of ws block)"

definition offer :: "nat \<Rightarrow> nat \<Rightarrow> block_selection \<Rightarrow> block_selection" where
  "offer block w s =
     (let cumulative = saturating_add (sel_cumulative s) w;
          s' = s\<lparr>sel_cumulative := cumulative\<rparr>
      in if sel_blocks s = [] \<or> cumulative \<le> sel_budget s
         then s'\<lparr>sel_blocks := sel_blocks s @ [block], sel_weights := sel_weights s @ [w]\<rparr> else s')"

fun extend_blocks :: "nat list \<Rightarrow> weights \<Rightarrow> block_selection \<Rightarrow> bool \<times> block_selection" where
  "extend_blocks [] ws s = (False, s)"
| "extend_blocks (block # blocks) ws s =
     (let s' = offer block (weight_in ws block) s in
      if sel_cumulative s' > sel_budget s' then (True, s') else extend_blocks blocks ws s')"

fun crossing_block :: "nat \<Rightarrow> (nat \<times> nat) list \<Rightarrow> nat \<Rightarrow> nat option" where
  "crossing_block budget [] cumulative = None"
| "crossing_block budget ((block, w) # rest) cumulative =
     (let c = saturating_add cumulative w in
      if c > budget then Some block else crossing_block budget rest c)"

definition weight_range_end :: "batch list \<Rightarrow> resolved_projection \<Rightarrow> nat \<Rightarrow> nat option" where
  "weight_range_end narrow p budget =
     crossing_block budget
       (sort_key fst (accumulate_block_weights narrow (t_block_number_column (rp_desc p)) (rp_weight p) [])) 0"

section \<open>Sets of keys\<close>

text \<open>
  A hash set finds a key through its hash, so it keeps one of each class only if the keys' equality is one
  and equal keys hash alike.
\<close>

locale hashed_key =
  fixes eq :: "'k \<Rightarrow> 'k \<Rightarrow> bool" and hash :: "'k \<Rightarrow> 'h"
  assumes eq_refl: "eq a a"
    and eq_sym: "eq a b \<Longrightarrow> eq b a"
    and eq_trans: "eq a b \<Longrightarrow> eq b c \<Longrightarrow> eq a c"
    and hash_agrees: "eq a b \<Longrightarrow> hash a = hash b"

text \<open>The entries whose key is new, in order.\<close>

fun fresh :: "('k \<Rightarrow> 'k \<Rightarrow> bool) \<Rightarrow> ('k \<times> 'e) list \<Rightarrow> 'k list \<Rightarrow> ('k \<times> 'e) list" where
  "fresh eq [] seen = []"
| "fresh eq ((k, e) # es) seen =
     (if list_ex (eq k) seen then fresh eq es seen else (k, e) # fresh eq es (k # seen))"

context hashed_key begin

lemma bucket: "list_ex (eq k) seen = list_ex (eq k) (filter (\<lambda>x. hash x = hash k) seen)"
  by (auto simp: list_ex_iff dest: hash_agrees [symmetric])

lemma fresh_new: "(k, e) \<in> set (fresh eq es seen) \<Longrightarrow> s \<in> set seen \<Longrightarrow> \<not> eq s k"
proof (induction es arbitrary: seen)
  case (Cons x es)
  obtain k' e' where x: "x = (k', e')" by (cases x)
  show ?case
    using Cons.IH [of seen] Cons.IH [of "k' # seen"] Cons.prems eq_sym [of s k]
    by (auto simp: x list_ex_iff split: if_splits)
qed simp

lemma fresh_distinct: "sorted_wrt (\<lambda>a b. \<not> eq (fst a) (fst b)) (fresh eq es seen)"
proof (induction es arbitrary: seen)
  case (Cons x es)
  obtain k e where x: "x = (k, e)" by (cases x)
  have "\<not> eq k (fst y)" if "y \<in> set (fresh eq es (k # seen))" for y
    using fresh_new [of "fst y" "snd y" es "k # seen" k] that by simp
  with Cons show ?case by (simp add: x)
qed simp

lemma fresh_covers:
  "(k, e) \<in> set es \<Longrightarrow> (\<exists>s \<in> set seen. eq k s) \<or> (\<exists>x \<in> set (fresh eq es seen). eq k (fst x))"
proof (induction es arbitrary: seen)
  case (Cons x es)
  obtain k' e' where x: "x = (k', e')" by (cases x)
  show ?case
  proof (cases "(k, e) = x")
    case True
    then show ?thesis by (auto simp: x list_ex_iff eq_refl)
  next
    case False
    with Cons.prems have m: "(k, e) \<in> set es" by simp
    show ?thesis using Cons.IH [OF m, of seen] Cons.IH [OF m, of "k' # seen"] by (auto simp: x)
  qed
qed simp

end

lemma subseq_fresh: "subseq (fresh eq es seen) es"
  by (induction eq es seen rule: fresh.induct) auto

interpretation positions: hashed_key "(=) :: nat \<Rightarrow> nat \<Rightarrow> bool" id
  by unfold_locales auto

text \<open>Arrow's comparison is an equivalence, and slices it calls equal have one type.\<close>

definition slice_eq_ok :: "slice_eq \<Rightarrow> bool" where
  "slice_eq_ok E \<longleftrightarrow>
     (\<forall>a i. E a i a i) \<and> (\<forall>a i b j. E a i b j \<longrightarrow> E b j a i \<and> data_type_of a = data_type_of b) \<and>
     (\<forall>a i b j c k. E a i b j \<longrightarrow> E b j c k \<longrightarrow> E a i c k)"

text \<open>The four ways two cells are compared; only cells compared the same way are equal.\<close>

fun comparison_kind :: "data_type \<Rightarrow> nat" where
  "comparison_kind (DInt _) = 2"
| "comparison_kind (DText _) = 3"
| "comparison_kind (DList False _) = 4"
| "comparison_kind _ = 5"

abbreviation kind_of :: "array \<Rightarrow> nat" where
  "kind_of a \<equiv> comparison_kind (data_type_of a)"

lemma kind_of_simps:
  "kind_of a = 2 \<longleftrightarrow> (\<exists>t vs n. a = AInt t vs n)"
  "kind_of a = 3 \<longleftrightarrow> (\<exists>t vs n. a = AText t vs n)"
  "kind_of a = 4 \<longleftrightarrow> (\<exists>os xs n. a = AList False os xs n)"
proof -
  have l: "comparison_kind (DList w t) = (if w then 5 else 4)" for w t by (cases w) simp_all
  show "kind_of a = 2 \<longleftrightarrow> (\<exists>t vs n. a = AInt t vs n)" by (cases a) (simp_all add: l)
  show "kind_of a = 3 \<longleftrightarrow> (\<exists>t vs n. a = AText t vs n)" by (cases a) (simp_all add: l)
  show "kind_of a = 4 \<longleftrightarrow> (\<exists>os xs n. a = AList False os xs n)" by (cases a) (simp_all add: l)
qed

lemma equal_key_value_null:
  "is_null a i \<or> is_null b j \<Longrightarrow> equal_key_value E a i b j = (is_null a i \<and> is_null b j)"
  by (simp add: equal_key_value.simps [of E a])

lemma equal_key_value_int:
  "\<not> is_null (AInt t vs n) i \<Longrightarrow> \<not> is_null (AInt u us m) j \<Longrightarrow>
     equal_key_value E (AInt t vs n) i (AInt u us m) j = (vs ! i = us ! j)"
  by (simp add: equal_key_value.simps)

lemma equal_key_value_text:
  "\<not> is_null (AText t vs n) i \<Longrightarrow> \<not> is_null (AText u us m) j \<Longrightarrow>
     equal_key_value E (AText t vs n) i (AText u us m) j = (vs ! i = us ! j)"
  by (simp add: equal_key_value.simps)

lemma equal_key_value_list:
  "\<not> is_null (AList False os xs n) i \<Longrightarrow> \<not> is_null (AList False ps ys m) j \<Longrightarrow>
     equal_key_value E (AList False os xs n) i (AList False ps ys m) j =
       (os ! Suc i - os ! i = ps ! Suc j - ps ! j \<and>
        (\<forall>k < os ! Suc i - os ! i. equal_key_value E xs (os ! i + k) ys (ps ! j + k)))"
  by (subst equal_key_value.simps) (auto simp: list_all_iff)

lemma equal_key_value_other:
  "\<not> is_null a i \<Longrightarrow> \<not> is_null b j \<Longrightarrow> kind_of a \<noteq> kind_of b \<or> kind_of a \<notin> {2, 3, 4} \<Longrightarrow>
     equal_key_value E a i b j = E a i b j"
  by (subst equal_key_value.simps) (auto split: array.splits bool.splits)

lemma slice_eq_okD:
  assumes "slice_eq_ok E"
  shows "E a i a i" and "E a i b j \<Longrightarrow> E b j a i" and "E a i b j \<Longrightarrow> kind_of a = kind_of b"
    and "E a i b j \<Longrightarrow> E b j c k \<Longrightarrow> E a i c k"
  using assms unfolding slice_eq_ok_def by metis+

lemma equal_key_value_kind:
  assumes "slice_eq_ok E" and "equal_key_value E a i b j" and "\<not> is_null a i" and "\<not> is_null b j"
  shows "kind_of a = kind_of b"
  using equal_key_value_other [OF assms(3,4), of E] assms(2) slice_eq_okD(3) [OF assms(1)] by blast

lemma equal_key_value_refl:
  assumes E: "slice_eq_ok E"
  shows "equal_key_value E a i a i"
proof (induction a arbitrary: i)
  case (AList w os xs n)
  show ?case
  proof (cases "is_null (AList w os xs n) i \<or> w")
    case True
    then show ?thesis
      using equal_key_value_other [of "AList w os xs n" i "AList w os xs n" i E] slice_eq_okD(1) [OF E]
        equal_key_value_null [of "AList w os xs n" i "AList w os xs n" i E]
      by (cases "is_null (AList w os xs n) i") auto
  next
    case False
    with AList show ?thesis by (cases w) (simp_all add: equal_key_value_list)
  qed
qed (simp_all add: equal_key_value.simps slice_eq_okD(1) [OF E])

lemma equal_key_value_sym:
  assumes E: "slice_eq_ok E"
  shows "equal_key_value E a i b j \<Longrightarrow> equal_key_value E b j a i"
proof (induction a arbitrary: i b j rule: measure_induct_rule [of size])
  case (less a)
  show ?case
  proof (cases "is_null a i \<or> is_null b j")
    case True
    with less.prems show ?thesis by (auto simp: equal_key_value_null)
  next
    case False
    then have n: "\<not> is_null a i" "\<not> is_null b j" by simp_all
    from equal_key_value_kind [OF E less.prems n] have k: "kind_of a = kind_of b" .
    consider "kind_of a = 2" | "kind_of a = 3" | "kind_of a = 4" | "kind_of a \<notin> {2, 3, 4}" by auto
    then show ?thesis
    proof cases
      case 3
      with k obtain os xs m ps ys m' where "a = AList False os xs m" "b = AList False ps ys m'"
        by (auto simp: kind_of_simps)
      with less n show ?thesis by (auto simp: equal_key_value_list)
    next
      case 4
      with less.prems n k equal_key_value_other slice_eq_okD(2) [OF E] show ?thesis by metis
    qed (use less.prems n k in \<open>auto simp: kind_of_simps equal_key_value_int equal_key_value_text\<close>)
  qed
qed

lemma equal_key_value_trans:
  assumes E: "slice_eq_ok E"
  shows "equal_key_value E a i b j \<Longrightarrow> equal_key_value E b j c k \<Longrightarrow> equal_key_value E a i c k"
proof (induction a arbitrary: i b j c k rule: measure_induct_rule [of size])
  case (less a)
  show ?case
  proof (cases "is_null a i \<or> is_null b j \<or> is_null c k")
    case True
    with less.prems have "is_null a i \<and> is_null b j \<and> is_null c k" by (metis equal_key_value_null)
    then show ?thesis by (simp add: equal_key_value_null)
  next
    case False
    then have n: "\<not> is_null a i" "\<not> is_null b j" "\<not> is_null c k" by simp_all
    from equal_key_value_kind [OF E less.prems(1) n(1,2)] equal_key_value_kind [OF E less.prems(2) n(2,3)]
    have k: "kind_of a = kind_of b" "kind_of b = kind_of c" .
    consider "kind_of a = 2" | "kind_of a = 3" | "kind_of a = 4" | "kind_of a \<notin> {2, 3, 4}" by auto
    then show ?thesis
    proof cases
      case 3
      with k obtain os xs m ps ys m' qs zs m'' where
        "a = AList False os xs m" "b = AList False ps ys m'" "c = AList False qs zs m''"
        by (auto simp: kind_of_simps)
      with less n show ?thesis by (auto simp: equal_key_value_list)
    next
      case 4
      with less.prems n k equal_key_value_other [of a i b j E] equal_key_value_other [of b j c k E]
        equal_key_value_other [of a i c k E] slice_eq_okD(4) [OF E]
      show ?thesis by auto
    qed (use less.prems n k in \<open>auto simp: kind_of_simps equal_key_value_int equal_key_value_text\<close>)
  qed
qed

lemma hash_array_value_agrees:
  assumes E: "slice_eq_ok E"
  shows "equal_key_value E a i b j \<Longrightarrow> hash_array_value a i = hash_array_value b j"
proof (induction a arbitrary: i b j rule: measure_induct_rule [of size])
  case (less a)
  show ?case
  proof (cases "is_null a i \<or> is_null b j")
    case True
    with less.prems have "is_null a i \<and> is_null b j" by (metis equal_key_value_null)
    then show ?thesis by (simp add: hash_array_value.simps)
  next
    case False
    then have n: "\<not> is_null a i" "\<not> is_null b j" by simp_all
    from equal_key_value_kind [OF E less.prems n] have k: "kind_of a = kind_of b" .
    consider "kind_of a = 2" | "kind_of a = 3" | "kind_of a = 4" | "kind_of a \<notin> {2, 3, 4}" by auto
    then show ?thesis
    proof cases
      case 3
      with k obtain os xs m ps ys m' where ab: "a = AList False os xs m" "b = AList False ps ys m'"
        by (auto simp: kind_of_simps)
      with less.prems n have "os ! Suc i - os ! i = ps ! Suc j - ps ! j"
        "\<forall>k < os ! Suc i - os ! i. equal_key_value E xs (os ! i + k) ys (ps ! j + k)"
        by (auto simp: equal_key_value_list)
      moreover from this less.IH [of xs] ab
      have "\<forall>k < os ! Suc i - os ! i. hash_array_value xs (os ! i + k) = hash_array_value ys (ps ! j + k)" by auto
      ultimately show ?thesis
        using ab n by (auto simp: hash_array_value.simps [of "AList False _ _ _"] intro!: arg_cong [of _ _ concat])
    next
      case 4
      have o: "hash_array_value x i = [TByte 254]" if "\<not> is_null x i" "kind_of x \<notin> {2, 3, 4}" for x i
        using that by (subst hash_array_value.simps) (auto split: array.splits bool.splits)
      from 4 k n show ?thesis by (simp add: o)
    qed (use less.prems n k in \<open>auto simp: kind_of_simps equal_key_value_int equal_key_value_text hash_array_value.simps\<close>)
  qed
qed

lemma equal_cells_laws:
  assumes E: "slice_eq_ok E"
  shows "equal_cells E a i a i" and "equal_cells E a i b j \<Longrightarrow> equal_cells E b j a i"
    and "equal_cells E a i b j \<Longrightarrow> equal_cells E b j c k \<Longrightarrow> equal_cells E a i c k"
proof -
  show "equal_cells E a i a i" by (cases a) (simp_all add: equal_key_value_refl [OF E])
  show "equal_cells E a i b j \<Longrightarrow> equal_cells E b j a i"
    by (cases a; cases b) (simp_all add: equal_key_value_sym [OF E])
  show "equal_cells E a i b j \<Longrightarrow> equal_cells E b j c k \<Longrightarrow> equal_cells E a i c k"
    by (cases a; cases b; cases c) (auto intro: equal_key_value_trans [OF E])
qed

lemma weight_row_eq_nth:
  "weight_row_eq E (cs, i) (ds, j) \<longleftrightarrow> length cs = length ds \<and> (\<forall>k < length cs. equal_cells E (cs ! k) i (ds ! k) j)"
  by (auto simp: weight_row_eq_def list_all_length)

definition keyed_row_hash :: "nat \<times> weight_row \<Rightarrow> nat \<times> token list" where
  "keyed_row_hash = (\<lambda>(block, r). (block, weight_row_hash r))"

lemma keyed_rows_hashed:
  assumes E: "slice_eq_ok E"
  shows "hashed_key (same_keyed_row E) keyed_row_hash"
proof
  note l = equal_cells_laws [OF E]
  show "same_keyed_row E a a" for a
    by (cases a; cases "snd a") (auto simp: same_keyed_row_def weight_row_eq_nth l(1))
  show "same_keyed_row E a b \<Longrightarrow> same_keyed_row E b a" for a b
    by (cases a; cases "snd a"; cases b; cases "snd b") (auto simp: same_keyed_row_def weight_row_eq_nth intro: l(2))
  show "same_keyed_row E a b \<Longrightarrow> same_keyed_row E b c \<Longrightarrow> same_keyed_row E a c" for a b c
    by (cases a; cases "snd a"; cases b; cases "snd b"; cases c; cases "snd c")
      (simp add: same_keyed_row_def weight_row_eq_nth, metis l(3))
  show "keyed_row_hash a = keyed_row_hash b" if ab: "same_keyed_row E a b" for a b
  proof -
    obtain x cs i y ds j where s: "a = (x, cs, i)" "b = (y, ds, j)" by (metis prod.collapse)
    from ab have e: "length cs = length ds" "\<And>k. k < length cs \<Longrightarrow> equal_cells E (cs ! k) i (ds ! k) j" and "x = y"
      by (auto simp: s same_keyed_row_def weight_row_eq_nth)
    let ?h = "\<lambda>i c. case c of Some a \<Rightarrow> hash_array_value a i | None \<Rightarrow> [TByte 0]"
    have "?h i c = ?h j d" if "equal_cells E c i d j" for c d
      using that hash_array_value_agrees [OF E] by (cases c; cases d) auto
    with e have "map (?h i) cs = map (?h j) ds" by (simp add: list_eq_iff_nth_eq)
    then show ?thesis using \<open>x = y\<close> by (simp add: s keyed_row_hash_def weight_row_hash_def)
  qed
qed

section \<open>Sums\<close>

text \<open>A block's weight as what was added for it.\<close>

definition add_all :: "(nat \<times> nat) list \<Rightarrow> weights \<Rightarrow> weights" where
  "add_all es = fold (\<lambda>(block, w). add_weight block w) es"

definition sum_for :: "nat \<Rightarrow> (nat \<times> nat) list \<Rightarrow> nat" where
  "sum_for block es = sum_list (map snd (filter (\<lambda>e. fst e = block) es))"

definition weighs :: "weights \<Rightarrow> (nat \<Rightarrow> nat) \<Rightarrow> bool" where
  "weighs ws expected \<longleftrightarrow> (\<forall>block. weight_in ws block = min (expected block) u64_max)"

lemma weight_in_add: "weight_in (add_weight block w ws) b =
    (if b = block then saturating_add (weight_in ws block) w else weight_in ws b)"
  by (simp add: weight_in_def add_weight_def map_of_omap_update unwrap_or_def)

lemma sum_for_simps [simp]:
  "sum_for b [] = 0" "sum_for b ((x, w) # es) = (if x = b then w + sum_for b es else sum_for b es)"
  "sum_for b (es @ fs) = sum_for b es + sum_for b fs"
  by (simp_all add: sum_for_def)

lemma add_all_append: "add_all (es @ fs) ws = add_all fs (add_all es ws)"
  by (simp add: add_all_def)

lemma weighs_add_all: "weighs ws expected \<Longrightarrow> weighs (add_all es ws) (\<lambda>b. expected b + sum_for b es)"
proof (induction es arbitrary: ws expected)
  case Nil
  then show ?case by (simp add: add_all_def)
next
  case (Cons e es)
  obtain block w where e: "e = (block, w)" by (cases e)
  have "weighs (add_weight block w ws) (\<lambda>b. expected b + (if block = b then w else 0))"
    using Cons.prems by (auto simp: weighs_def weight_in_add saturating_add_def min_def)
  from Cons.IH [OF this] show ?case by (simp add: e add_all_def add.assoc if_distrib cong: if_cong)
      (simp add: weighs_def add.assoc split: if_splits)
qed

lemma weighs_empty [simp]: "weighs [] (\<lambda>_. 0)"
  by (simp add: weighs_def weight_in_def unwrap_or_def)

text \<open>The rows of a source: who they are, their block and their weight.\<close>

type_synonym row_id = "nat option \<times> nat \<times> weight_row"

definition part_rows ::
    "string list \<Rightarrow> string \<Rightarrow> row_weight \<Rightarrow> batch \<times> nat list option \<Rightarrow> (row_id \<times> nat \<times> nat) list" where
  "part_rows names bn w = (\<lambda>(b, p).
     case batch_blocks b bn of
       None \<Rightarrow> []
     | Some blocks \<Rightarrow>
         map (\<lambda>i. ((map_option (\<lambda>q. q ! i) p, block_number blocks i, key_arrays names b, i),
             (block_number blocks i, weigh_row w (weight_columns b (rw_columns w)) i))) [0..<b_num_rows b])"

definition source_rows ::
    "string list \<Rightarrow> string \<Rightarrow> weight_contribution \<Rightarrow> (row_id \<times> nat \<times> nat) list" where
  "source_rows names bn c = concat (map (part_rows names bn (wc_weight c)) (rows_parts (wc_rows c)))"

text \<open>One row: the same position, or without positions the same block and key.\<close>

definition same_row :: "slice_eq \<Rightarrow> row_id \<Rightarrow> row_id \<Rightarrow> bool" where
  "same_row E = (\<lambda>(p, r) (p', r').
     case (p, p') of
       (Some x, Some y) \<Rightarrow> x = y
     | (None, None) \<Rightarrow> same_keyed_row E r r'
     | _ \<Rightarrow> False)"

lemma accumulate_batch_entries:
  "accumulate_batch bn w b ws = add_all (map snd (part_rows names bn w (b, p))) ws"
  by (simp add: accumulate_batch_def part_rows_def add_all_def fold_map comp_def case_prod_beta' Let_def
      split: option.split)

lemma accumulate_block_weights_entries:
  "accumulate_block_weights (rs_batches r) bn w ws =
     add_all (map snd (source_rows names bn \<lparr>wc_rows = r, wc_weight = w\<rparr>)) ws"
  if "rows_ok r"
proof -
  have "fold (accumulate_batch bn w) (map fst parts) ws =
      add_all (map snd (concat (map (part_rows names bn w) parts))) ws" for parts ws
  proof (induction parts arbitrary: ws)
    case Nil
    then show ?case by (simp add: add_all_def)
  next
    case (Cons e parts)
    obtain b p where e: "e = (b, p)" by (cases e)
    from Cons show ?case
      by (simp add: e add_all_append accumulate_batch_entries [where b = b and p = p and names = names])
  qed
  moreover have "map fst (rows_parts r) = rs_batches r"
    using that by (auto simp: rows_parts_at part_at_def comp_def map_nth)
  ultimately show ?thesis by (metis accumulate_block_weights_def source_rows_def weight_contribution.select_convs)
qed

text \<open>Adding the new rows adds the entries \<^const>\<open>fresh\<close> keeps.\<close>

lemma add_if_new_fold:
  "fold (\<lambda>(k, block, w). add_if_new eq k block w) es (ws, seen) =
     (add_all (map snd (fresh eq es seen)) ws, rev (map fst (fresh eq es seen)) @ seen)"
  by (induction eq es seen arbitrary: ws rule: fresh.induct) (auto simp: add_if_new_def add_all_def)

lemma fresh_append:
  "fresh eq (es @ fs) seen = fresh eq es seen @ fresh eq fs (rev (map fst (fresh eq es seen)) @ seen)"
  by (induction eq es seen rule: fresh.induct) auto

lemma fresh_map:
  "(\<And>a b. a \<in> fst ` set es \<union> set seen \<Longrightarrow> b \<in> fst ` set es \<union> set seen \<Longrightarrow> eq (g a) (g b) = eq' a b) \<Longrightarrow>
     fresh eq (map (\<lambda>(k, e). (g k, e)) es) (map g seen) = map (\<lambda>(k, e). (g k, e)) (fresh eq' es seen)"
proof (induction eq' es seen rule: fresh.induct)
  case (2 eq' k e es seen)
  have "list_ex (eq (g k)) (map g seen) = list_ex (eq' k) seen"
    using 2(3) by (auto simp: list_ex_iff)
  with 2 show ?case by auto
qed simp

lemma accumulate_rows_entries:
  "accumulate_rows eq key w b bn s = fold (\<lambda>(k, block, w). add_if_new eq k block w)
     (map (\<lambda>((p, block, cs, i), e). (key i block, e)) (part_rows names bn w (b, q))) s"
  by (simp add: accumulate_rows_def part_rows_def fold_map comp_def Let_def split: option.split)

definition position_of :: "row_id \<Rightarrow> nat" where
  "position_of r = the (fst r)"

lemma accumulate_positioned_entries:
  assumes "rows_ok (wc_rows c)" and "rs_positions (wc_rows c) \<noteq> None"
  shows "accumulate_positioned bn c s = fold (\<lambda>(k, block, w). add_if_new (=) k block w)
    (map (\<lambda>(r, e). (position_of r, e)) (source_rows names bn c)) s"
proof -
  from assms(2) obtain ps where ps: "rs_positions (wc_rows c) = Some ps" by auto
  have one: "map (\<lambda>((p, block, cs, i), e). (q ! i, e)) (part_rows names bn w (b, Some q)) =
      map (\<lambda>(r, e). (position_of r, e)) (part_rows names bn w (b, Some q))" for w b q
    by (auto simp: part_rows_def position_of_def split: option.splits)
  have "fold (\<lambda>(b, p). accumulate_rows (=) (\<lambda>i _. p ! i) w b bn) parts s =
      fold (\<lambda>(k, block, w). add_if_new (=) k block w)
        (map (\<lambda>(r, e). (position_of r, e)) (concat (map (\<lambda>(b, q). part_rows names bn w (b, Some q)) parts))) s" for w parts s
  proof (induction parts arbitrary: s)
    case (Cons e parts)
    obtain b q where e: "e = (b, q)" by (cases e)
    from Cons show ?case
      by (simp add: e accumulate_rows_entries [where names = names and q = "Some q"] one)
  qed simp
  moreover have "source_rows names bn c =
      concat (map (\<lambda>(b, q). part_rows names bn (wc_weight c) (b, Some q)) (zip (rs_batches (wc_rows c)) ps))"
    by (simp add: source_rows_def rows_parts_def ps comp_def case_prod_beta')
  ultimately show ?thesis by (simp add: accumulate_positioned_def ps)
qed

lemma accumulate_keyed_entries:
  assumes "rs_positions (wc_rows c) = None"
  shows "accumulate_keyed E bn names c s = fold (\<lambda>(k, block, w). add_if_new (same_keyed_row E) k block w)
    (map (\<lambda>(r, e). (snd r, e)) (source_rows names bn c)) s"
proof -
  have one: "map (\<lambda>((p, block, cs, i), e). ((block, key_arrays names b, i), e)) (part_rows names bn w (b, None)) =
      map (\<lambda>(r, e). (snd r, e)) (part_rows names bn w (b, None))" for w b
    by (auto simp: part_rows_def split: option.splits)
  have "fold (\<lambda>b. accumulate_rows (same_keyed_row E) (\<lambda>i block. (block, key_arrays names b, i)) w b bn) bs s =
      fold (\<lambda>(k, block, w). add_if_new (same_keyed_row E) k block w)
        (map (\<lambda>(r, e). (snd r, e)) (concat (map (\<lambda>b. part_rows names bn w (b, None)) bs))) s" for w bs s
    by (induction bs arbitrary: s)
      (simp_all add: accumulate_rows_entries [where names = names and q = None] one)
  then show ?thesis
    using assms by (simp add: accumulate_keyed_def source_rows_def rows_parts_def comp_def)
qed

definition row_hash :: "row_id \<Rightarrow> nat option \<times> (nat \<times> token list) option" where
  "row_hash = (\<lambda>(p, r). (p, if p = None then Some (keyed_row_hash r) else None))"

lemma same_row_hashed:
  assumes E: "slice_eq_ok E"
  shows "hashed_key (same_row E) row_hash"
proof
  note h = keyed_rows_hashed [OF E]
  show "same_row E a a" for a
    using hashed_key.eq_refl [OF h] by (auto simp: same_row_def split: option.splits prod.splits)
  show "same_row E a b \<Longrightarrow> same_row E b a" for a b
    using hashed_key.eq_sym [OF h, of "snd a" "snd b"]
    by (cases a; cases b; cases "fst a"; cases "fst b") (simp_all add: same_row_def)
  show "same_row E a b \<Longrightarrow> same_row E b c \<Longrightarrow> same_row E a c" for a b c
    using hashed_key.eq_trans [OF h, of "snd a" "snd b" "snd c"]
    by (cases a; cases b; cases c; cases "fst a"; cases "fst b"; cases "fst c") (simp_all add: same_row_def)
  show "same_row E a b \<Longrightarrow> row_hash a = row_hash b" for a b
    using hashed_key.hash_agrees [OF h] by (auto simp: same_row_def row_hash_def split: option.splits prod.splits)
qed

definition contribution_rows ::
    "string list \<Rightarrow> string \<Rightarrow> weight_contribution list \<Rightarrow> (row_id \<times> nat \<times> nat) list" where
  "contribution_rows names bn cs = concat (map (source_rows names bn) cs)"

lemma fold_concat_entries:
  "(\<And>c s. c \<in> set cs \<Longrightarrow> step c s = fold f (h c) s) \<Longrightarrow> fold step cs s = fold f (concat (map h cs)) s"
  by (induction cs arbitrary: s) auto

lemma source_rows_empty: "rs_batches (wc_rows c) = [] \<Longrightarrow> source_rows names bn c = []"
  by (auto simp: source_rows_def rows_parts_def split: option.splits)

lemma contribution_rows_filter:
  "contribution_rows names bn (filter (\<lambda>c. rs_batches (wc_rows c) \<noteq> []) cs) = contribution_rows names bn cs"
  by (induction cs) (auto simp: contribution_rows_def source_rows_empty)

lemma source_row_position:
  assumes "rows_ok (wc_rows c)" and "(r, e) \<in> set (source_rows names bn c)"
  shows "fst r = None \<longleftrightarrow> rs_positions (wc_rows c) = None"
  using assms(2)
  by (auto simp: source_rows_def rows_parts_def part_rows_def split: option.splits)

lemma fresh_keys:
  assumes same: "\<And>a b. a \<in> fst ` set es \<Longrightarrow> b \<in> fst ` set es \<Longrightarrow> eq (g a) (g b) = eq' a b"
  shows "fst (fold (\<lambda>(k, block, w). add_if_new eq k block w) (map (\<lambda>(r, e). (g r, e)) es) (ws, [])) =
    add_all (map snd (fresh eq' es [])) ws"
proof -
  have "fresh eq (map (\<lambda>(r, e). (g r, e)) es) [] = map (\<lambda>(r, e). (g r, e)) (fresh eq' es [])"
    using fresh_map [of es "[]" eq g eq'] same by simp
  then show ?thesis by (simp only: add_if_new_fold fst_conv) (simp add: comp_def case_prod_beta')
qed

lemma accumulate_dedup_entries:
  assumes "accumulate_dedup E cs bn names ws = Inr ws'" and ok: "list_all (\<lambda>c. rows_ok (wc_rows c)) cs"
  shows "ws' = add_all (map snd (fresh (same_row E) (contribution_rows names bn cs) [])) ws"
proof -
  define ss where ss: "ss = filter (\<lambda>c. rs_batches (wc_rows c) \<noteq> []) cs"
  let ?es = "contribution_rows names bn ss"
  from assms(1) consider
    (positioned) "length (filter (\<lambda>c. rs_positions (wc_rows c) \<noteq> None) ss) = length ss"
      "ws' = fst (fold (accumulate_positioned bn) ss (ws, []))"
  | (keyed) "filter (\<lambda>c. rs_positions (wc_rows c) \<noteq> None) ss = []"
      "ws' = fst (fold (accumulate_keyed E bn names) ss (ws, []))"
    by (auto simp: accumulate_dedup_def Let_def and_then_Inr_iff ss split: if_splits)
  then have "ws' = add_all (map snd (fresh (same_row E) ?es [])) ws"
  proof cases
    case positioned
    have p: "rs_positions (wc_rows c) \<noteq> None" if "c \<in> set ss" for c
      using length_filter_less [OF that, of "\<lambda>c. rs_positions (wc_rows c) \<noteq> None"] positioned(1) by auto
    have okc: "rows_ok (wc_rows c)" if "c \<in> set ss" for c
      using ok that by (auto simp: ss list_all_iff)
    have "fold (accumulate_positioned bn) ss (ws, []) = fold (\<lambda>(k, block, w). add_if_new (=) k block w)
        (concat (map (\<lambda>c. map (\<lambda>(r, e). (position_of r, e)) (source_rows names bn c)) ss)) (ws, [])"
      by (rule fold_concat_entries) (use accumulate_positioned_entries okc p in blast)
    also have "concat (map (\<lambda>c. map (\<lambda>(r, e). (position_of r, e)) (source_rows names bn c)) ss) =
        map (\<lambda>(r, e). (position_of r, e)) ?es"
      by (simp add: contribution_rows_def map_concat comp_def)
    finally have w: "ws' = fst (fold (\<lambda>(k, block, w). add_if_new (=) k block w)
        (map (\<lambda>(r, e). (position_of r, e)) ?es) (ws, []))" using positioned by simp
    have n: "\<exists>x. fst r = Some x" if "r \<in> fst ` set ?es" for r
      using that source_row_position okc p by (fastforce simp: contribution_rows_def)
    have "(position_of a = position_of b) = same_row E a b" if "a \<in> fst ` set ?es" "b \<in> fst ` set ?es" for a b
      using n [OF that(1)] n [OF that(2)] by (cases a; cases b) (auto simp: position_of_def same_row_def)
    from fresh_keys [where es = ?es and g = position_of and eq = "(=)" and eq' = "same_row E", OF this] w
    show ?thesis by simp
  next
    case keyed
    then have p: "\<And>c. c \<in> set ss \<Longrightarrow> rs_positions (wc_rows c) = None" by (simp add: filter_empty_conv)
    have okc: "rows_ok (wc_rows c)" if "c \<in> set ss" for c
      using ok that by (auto simp: ss list_all_iff)
    have "fold (accumulate_keyed E bn names) ss (ws, []) = fold (\<lambda>(k, block, w). add_if_new (same_keyed_row E) k block w)
        (concat (map (\<lambda>c. map (\<lambda>(r, e). (snd r, e)) (source_rows names bn c)) ss)) (ws, [])"
      by (rule fold_concat_entries) (use accumulate_keyed_entries p in blast)
    also have "concat (map (\<lambda>c. map (\<lambda>(r, e). (snd r, e)) (source_rows names bn c)) ss) =
        map (\<lambda>(r, e). (snd r, e)) ?es"
      by (simp add: contribution_rows_def map_concat comp_def)
    finally have w: "ws' = fst (fold (\<lambda>(k, block, w). add_if_new (same_keyed_row E) k block w)
        (map (\<lambda>(r, e). (snd r, e)) ?es) (ws, []))" using keyed by simp
    have n: "fst r = None" if "r \<in> fst ` set ?es" for r
      using that source_row_position okc p by (fastforce simp: contribution_rows_def)
    have "same_keyed_row E (snd a) (snd b) = same_row E a b" if "a \<in> fst ` set ?es" "b \<in> fst ` set ?es" for a b
      using n [OF that(1)] n [OF that(2)] by (cases a; cases b) (simp add: same_row_def)
    from fresh_keys [where es = ?es and g = snd and eq = "same_keyed_row E" and eq' = "same_row E", OF this] w
    show ?thesis by simp
  qed
  then show ?thesis by (simp add: ss contribution_rows_filter)
qed

text \<open>A table's rows, each once.\<close>

definition group_rows :: "weighed_rows list \<Rightarrow> (row_id \<times> nat \<times> nat) list" where
  "group_rows members =
     (let t = rp_desc (wr_projection (hd members)) in
      contribution_rows (tl (row_key t)) (t_block_number_column t)
        (map (\<lambda>s. \<lparr>wc_rows = wr_rows s, wc_weight = rp_weight (wr_projection s)\<rparr>) members))"

definition counted_once :: "slice_eq \<Rightarrow> weighed_rows list \<Rightarrow> (row_id \<times> nat \<times> nat) list \<Rightarrow> bool" where
  "counted_once E members counted \<longleftrightarrow>
     (if length members = 1 then counted = group_rows members
      else
        subseq counted (group_rows members) \<and> sorted_wrt (\<lambda>a b. \<not> same_row E (fst a) (fst b)) counted \<and>
        list_all (\<lambda>r. list_ex (\<lambda>c. same_row E (fst r) (fst c)) counted) (group_rows members))"

lemma weigh_table_counts:
  assumes E: "slice_eq_ok E" and w: "weigh_table E (name, members) ws = Inr ws'" and g: "members \<noteq> []"
    and ok: "list_all (\<lambda>s. rows_ok (wr_rows s)) members" and ws: "weighs ws expected"
  shows "\<exists>counted. counted_once E members counted \<and> weighs ws' (\<lambda>b. expected b + sum_for b (map snd counted))"
proof -
  obtain s rest where s: "members = s # rest" using g by (cases members) auto
  let ?t = "rp_desc (wr_projection s)"
  show ?thesis
  proof (cases "rest = []")
    case True
    from ok s have "rows_ok (wr_rows s)" by simp
    from accumulate_block_weights_entries [OF this] w s True
    have "ws' = add_all (map snd (group_rows members)) ws"
      by (simp add: weigh_table_def Let_def group_rows_def contribution_rows_def)
    with weighs_add_all [OF ws] s True show ?thesis by (auto simp: counted_once_def)
  next
    case False
    let ?cs = "map (\<lambda>s. \<lparr>wc_rows = wr_rows s, wc_weight = rp_weight (wr_projection s)\<rparr>) members"
    from w s False have d: "accumulate_dedup E ?cs (t_block_number_column ?t) (tl (row_key ?t)) ws = Inr ws'"
      by (simp add: weigh_table_def Let_def)
    let ?f = "fresh (same_row E) (group_rows members) []"
    have "list_all (\<lambda>c. rows_ok (wc_rows c)) ?cs" using ok by (simp add: list_all_iff)
    from accumulate_dedup_entries [OF d this] have "ws' = add_all (map snd ?f) ws"
      by (simp add: group_rows_def s Let_def)
    moreover have "\<exists>c \<in> set ?f. same_row E (fst r) (fst c)" if "r \<in> set (group_rows members)" for r
      using hashed_key.fresh_covers [OF same_row_hashed [OF E], of "fst r" "snd r" "group_rows members" "[]"] that by simp
    then have "counted_once E members ?f"
      using s False subseq_fresh [of "same_row E" "group_rows members" "[]"]
        hashed_key.fresh_distinct [OF same_row_hashed [OF E], of "group_rows members" "[]"]
      unfolding counted_once_def by (simp add: list_all_iff list_ex_iff)
    ultimately show ?thesis using weighs_add_all [OF ws] by blast
  qed
qed

lemma group_sources_parts:
  "list_all (\<lambda>(name, members). members \<noteq> [] \<and> set members \<subseteq> set sources) (group_sources sources)"
proof -
  have "list_all (\<lambda>(name, members). members \<noteq> [] \<and> set members \<subseteq> A \<union> set sources)
      (fold (\<lambda>s. omap_update (rp_table (wr_projection s)) (\<lambda>old. unwrap_or [] old @ [s])) sources m)"
    if "list_all (\<lambda>(name, members). members \<noteq> [] \<and> set members \<subseteq> A) m" for m A
    using that
  proof (induction sources arbitrary: m A)
    case (Cons s sources)
    let ?m = "omap_update (rp_table (wr_projection s)) (\<lambda>old. unwrap_or [] old @ [s]) m"
    have "list_all (\<lambda>(name, members). members \<noteq> [] \<and> set members \<subseteq> insert s A) ?m"
      using Cons.prems
      by (induction m) (auto simp: unwrap_or_def list_all_iff split: if_splits prod.splits)
    from Cons.IH [OF this] show ?case by (auto simp: list_all_iff)
  qed simp
  from this [of "{}" "[]"] show ?thesis by (simp add: group_sources_def)
qed

lemma weigh_tables_count:
  assumes E: "slice_eq_ok E"
  shows "try_fold (weigh_table E) groups ws = Inr ws' \<Longrightarrow> weighs ws expected \<Longrightarrow>
    list_all (\<lambda>(name, members). members \<noteq> [] \<and> list_all (\<lambda>s. rows_ok (wr_rows s)) members) groups \<Longrightarrow>
    \<exists>counted. list_all2 (\<lambda>(name, members) c. counted_once E members c) groups counted \<and>
      weighs ws' (\<lambda>b. expected b + sum_for b (map snd (concat counted)))"
proof (induction groups arbitrary: ws expected)
  case Nil
  then show ?case by simp
next
  case (Cons g groups)
  obtain name members where g: "g = (name, members)" by (cases g)
  from Cons.prems obtain ws1 where w: "weigh_table E (name, members) ws = Inr ws1"
    and f: "try_fold (weigh_table E) groups ws1 = Inr ws'"
    by (auto simp: g and_then_Inr_iff)
  from Cons.prems(3) have "members \<noteq> []" "list_all (\<lambda>s. rows_ok (wr_rows s)) members" by (simp_all add: g)
  from weigh_table_counts [OF E w this Cons.prems(2)] obtain c where
    c: "counted_once E members c" "weighs ws1 (\<lambda>b. expected b + sum_for b (map snd c))" by blast
  from Cons.IH [OF f c(2)] Cons.prems(3) obtain cs where
    "list_all2 (\<lambda>(name, members) c. counted_once E members c) groups cs"
    "weighs ws' (\<lambda>b. expected b + sum_for b (map snd c) + sum_for b (map snd (concat cs)))" by auto
  with c(1) show ?case by (intro exI [of _ "c # cs"]) (simp add: g add.assoc)
qed

definition header_rows :: "resolved_projection \<Rightarrow> nat list \<Rightarrow> batch \<Rightarrow> (nat \<times> nat) list" where
  "header_rows header candidates b =
     (case batch_blocks b (t_block_number_column (rp_desc header)) of
        None \<Rightarrow> []
      | Some blocks \<Rightarrow>
          let w = rp_weight header; columns = weight_columns b (rw_columns w) in
          map (\<lambda>i. (block_number blocks i,
              saturating_add (rw_fixed w) (foldl (\<lambda>s c. saturating_add s (weight_at c i)) 0 columns)))
            (filter (\<lambda>i. block_number blocks i \<in> set candidates) [0..<b_num_rows b]))"

lemma weigh_header_entries: "weigh_header_batch header candidates b ws = add_all (header_rows header candidates b) ws"
proof -
  have "fold (\<lambda>i. if P i \<notin> C then id else f i) xs ws = fold f (filter (\<lambda>i. P i \<in> C) xs) ws"
    for P :: "nat \<Rightarrow> nat" and C f xs and ws :: weights
    by (induction xs arbitrary: ws) auto
  then show ?thesis
    by (cases "batch_blocks b (t_block_number_column (rp_desc header))")
      (simp_all add: weigh_header_batch_def header_rows_def add_all_def fold_map comp_def Let_def)
qed

lemma weigh_headers_entries:
  "fold (weigh_header_batch header candidates) bs ws = add_all (concat (map (header_rows header candidates) bs)) ws"
proof (induction bs arbitrary: ws)
  case Nil
  then show ?case by (simp add: add_all_def)
next
  case (Cons b bs)
  then show ?case by (simp add: weigh_header_entries add_all_append)
qed


section \<open>Facts on selections\<close>

definition sat_sum :: "weights \<Rightarrow> nat list \<Rightarrow> nat" where
  "sat_sum ws blocks = min (sum_list (map (weight_in ws) blocks)) u64_max"

definition selected :: "weights \<Rightarrow> nat \<Rightarrow> nat list \<Rightarrow> block_selection \<Rightarrow> bool" where
  "selected ws budget done s =
     (sel_budget s = budget \<and> sel_cumulative s = sat_sum ws done \<and> sat_sum ws done \<le> budget \<and>
      sel_blocks s = done \<and> sel_weights s = map (weight_in ws) done)"

lemma sat_sum_snoc: "sat_sum ws (done @ [b]) = saturating_add (sat_sum ws done) (weight_in ws b)"
  by (simp add: sat_sum_def saturating_add_def min_def)

lemma extend_blocks_selected:
  assumes "selected ws budget done s" and "extend_blocks blocks ws s = (full, s')"
  shows "if full then
      (\<exists>pre b post. blocks = pre @ b # post \<and> sat_sum ws (done @ pre) \<le> budget \<and> budget < sat_sum ws (done @ pre @ [b]) \<and>
        sel_cumulative s' = sat_sum ws (done @ pre @ [b]) \<and>
        sel_blocks s' = (if done @ pre = [] then [b] else done @ pre) \<and>
        sel_weights s' = map (weight_in ws) (sel_blocks s') \<and>
        crossing_block budget (map (\<lambda>b. (b, weight_in ws b)) blocks) (sat_sum ws done) = Some b)
    else selected ws budget (done @ blocks) s' \<and>
      crossing_block budget (map (\<lambda>b. (b, weight_in ws b)) blocks) (sat_sum ws done) = None"
  using assms
proof (induction blocks arbitrary: "done" s)
  case Nil
  then show ?case by auto
next
  case (Cons b blocks)
  let ?s = "offer b (weight_in ws b) s"
  from Cons.prems(1) have c: "sel_cumulative ?s = sat_sum ws (done @ [b])" "sel_budget ?s = budget"
    by (auto simp: selected_def offer_def Let_def sat_sum_snoc)
  show ?case
  proof (cases "budget < sat_sum ws (done @ [b])")
    case True
    with Cons.prems c have "full" "s' = ?s" by auto
    with True Cons.prems(1) show ?thesis
      by (auto simp: selected_def offer_def Let_def sat_sum_snoc intro!: exI [of _ "[]"])
  next
    case False
    with Cons.prems(1) c have "selected ws budget (done @ [b]) ?s"
      by (auto simp: selected_def offer_def Let_def sat_sum_snoc)
    note IH = Cons.IH [OF this]
    from False Cons.prems(2) c have e: "extend_blocks blocks ws ?s = (full, s')" by simp
    have cross: "crossing_block budget (map (\<lambda>b. (b, weight_in ws b)) (b # blocks)) (sat_sum ws done) =
        crossing_block budget (map (\<lambda>b. (b, weight_in ws b)) blocks) (sat_sum ws (done @ [b]))"
      using False by (simp add: sat_sum_snoc Let_def)
    show ?thesis
    proof (cases full)
      case True
      with IH [OF e] obtain pre x post where x: "blocks = pre @ x # post" "sat_sum ws ((done @ [b]) @ pre) \<le> budget"
        "budget < sat_sum ws ((done @ [b]) @ pre @ [x])" "sel_cumulative s' = sat_sum ws ((done @ [b]) @ pre @ [x])"
        "sel_blocks s' = (done @ [b]) @ pre" "sel_weights s' = map (weight_in ws) (sel_blocks s')"
        "crossing_block budget (map (\<lambda>b. (b, weight_in ws b)) blocks) (sat_sum ws (done @ [b])) = Some x" by auto
      with True show ?thesis unfolding cross by (simp, intro exI [of _ "b # pre"]) simp
    next
      case False
      with IH [OF e] show ?thesis unfolding cross by simp
    qed
  qed
qed

lemma selected_new: "selected ws budget [] (selection_new budget)"
  by (simp add: selected_def selection_new_def sat_sum_def)

lemma extend_blocks_append:
  "extend_blocks (xs @ ys) ws s =
     (case extend_blocks xs ws s of (True, s') \<Rightarrow> (True, s') | (False, s') \<Rightarrow> extend_blocks ys ws s')"
  by (induction xs arbitrary: s) (auto simp: Let_def)

section \<open>Properties\<close>

text \<open>
  C17: The blocks of a page are a prefix of those offered, in order, and never none of them: all of them
  while they fit, and otherwise the longest run whose weights together stay within the budget, or the
  first block alone when it does not fit by itself. The selection says it is full exactly when the next
  block crossed the budget, offering the blocks range by range selects the same ones, and the block that
  crosses is the one the size estimate stops at.
\<close>

theorem block_selection_prefix:
  assumes "extend_blocks offered ws (selection_new budget) = (full, s)"
  shows "prefix (sel_blocks s) offered \<and> sel_weights s = map (weight_in ws) (sel_blocks s) \<and>
    (sel_blocks s = [] \<longleftrightarrow> offered = []) \<and>
    (if full then
       (length (sel_blocks s) = 1 \<or> sat_sum ws (sel_blocks s) \<le> budget) \<and>
       (\<exists>b. crossing_block budget (map (\<lambda>b. (b, weight_in ws b)) offered) 0 = Some b \<and> b \<in> set offered \<and>
         (if sel_blocks s = [b] \<and> budget < sat_sum ws [b] then prefix [b] offered
          else prefix (sel_blocks s @ [b]) offered \<and> budget < sat_sum ws (sel_blocks s @ [b])))
     else sel_blocks s = offered \<and> sat_sum ws offered \<le> budget \<and>
       crossing_block budget (map (\<lambda>b. (b, weight_in ws b)) offered) 0 = None)"
proof -
  note r = extend_blocks_selected [OF selected_new assms]
  have z: "sat_sum ws [] = 0" by (simp add: sat_sum_def)
  show ?thesis
  proof (cases full)
    case True
    with r z obtain pre b post where o: "offered = pre @ b # post" "sat_sum ws pre \<le> budget"
      "budget < sat_sum ws (pre @ [b])" "sel_blocks s = (if pre = [] then [b] else pre)"
      "sel_weights s = map (weight_in ws) (sel_blocks s)"
      "crossing_block budget (map (\<lambda>b. (b, weight_in ws b)) offered) 0 = Some b" by auto
    with True show ?thesis by (auto simp: prefix_def)
  next
    case False
    with r z show ?thesis by (auto simp: selected_def)
  qed
qed

theorem block_selection_prefix_witness:
  "sel_blocks (snd (extend_blocks [5, 6, 7] [(5, 30), (6, 40), (7, 50)] (selection_new 80))) = [5, 6]"
proof -
  let ?ws = "[(5, 30), (6, 40), (7, 50)] :: weights"
  have e: "extend_blocks [5, 6, 7] ?ws (selection_new 80) =
      (True, \<lparr>sel_budget = 80, sel_cumulative = 120, sel_blocks = [5, 6], sel_weights = [30, 40]\<rparr>)"
    by (simp add: selection_new_def offer_def weight_in_def unwrap_or_def saturating_add_def u64_max_def)
  from block_selection_prefix [OF e] have "prefix [5, 6] [5, 6, 7 :: nat]" by simp
  with e show ?thesis by simp
qed

text \<open>
  C16: The weight of a block is the sum, saturating at the top of the range, of what its distinct rows and
  its headers weigh. A table's rows are merged over all the sources that report them: of the rows with one
  position, or without positions one block and key, exactly one counts, and every row counts through some
  row it equals.
\<close>

theorem block_weights_exact:
  assumes "slice_eq_ok E" and "compute_block_weights E sources header header_batches candidates = Inr ws"
    and "list_all (\<lambda>s. rows_ok (wr_rows s)) sources"
  shows "\<exists>counted. list_all2 (\<lambda>(name, members) c. counted_once E members c) (group_sources sources) counted \<and>
    (\<forall>block. weight_in ws block =
      min (sum_for block (map snd (concat counted)) +
           sum_for block (concat (map (header_rows header candidates) header_batches))) u64_max)"
proof -
  from assms(2) obtain ws1 where t: "try_fold (weigh_table E) (group_sources sources) [] = Inr ws1"
    and ws: "ws = fold (weigh_header_batch header candidates) header_batches ws1"
    by (auto simp: compute_block_weights_def and_then_Inr_iff)
  have "list_all (\<lambda>(name, members). members \<noteq> [] \<and> list_all (\<lambda>s. rows_ok (wr_rows s)) members) (group_sources sources)"
    using group_sources_parts [of sources] assms(3) by (fastforce simp: list_all_iff)
  from weigh_tables_count [OF assms(1) t weighs_empty this] obtain counted where
    c: "list_all2 (\<lambda>(name, members) c. counted_once E members c) (group_sources sources) counted"
    and w: "weighs ws1 (\<lambda>b. sum_for b (map snd (concat counted)))" by auto
  from weighs_add_all [OF w] c show ?thesis
    by (intro exI [of _ counted]) (simp add: ws weigh_headers_entries weighs_def)
qed

definition plain_slice_eq :: slice_eq where
  "plain_slice_eq a i b j = (data_type_of a = data_type_of b \<and> cell_at a i = cell_at b j)"

lemma slice_eq_ok_plain: "slice_eq_ok plain_slice_eq"
  by (auto simp: slice_eq_ok_def plain_slice_eq_def)

interpretation keyed_rows: hashed_key "same_keyed_row plain_slice_eq" keyed_row_hash
  by (rule keyed_rows_hashed [OF slice_eq_ok_plain])

definition sample_projection :: resolved_projection where
  "sample_projection =
     \<lparr>rp_table = ''logs'', rp_desc = sample_logs, rp_names = [], rp_fields = [], rp_rendered = [], rp_required = [],
      rp_weight = \<lparr>rw_fixed = 32, rw_columns = []\<rparr>, rp_row_columns = [], rp_size_columns = []\<rparr>"

definition sample_source :: weighed_rows where
  "sample_source = \<lparr>wr_projection = sample_projection, wr_rows = sample_rows\<rparr>"

text \<open>The same rows through the table's scan and through a relation count once.\<close>

lemma sample_block_weights:
  "compute_block_weights plain_slice_eq [sample_source, sample_source] sample_projection [] [] = Inr [(7, 64), (9, 32)]"
  by (simp add: compute_block_weights_def group_sources_def sample_source_def sample_projection_def weigh_table_def
      unwrap_or_def accumulate_dedup_def sample_rows_def accumulate_positioned_def accumulate_rows_def batch_blocks_def
      numbered_batch_def column_by_name_def sample_logs_def block_numbers_resolve_def null_count_def weight_columns_def
      map_filter_def upt_rec add_if_new_def add_weight_def weigh_row_def unsigned_bits_def saturating_add_def u64_max_def
      Let_def)

theorem block_weights_exact_witness:
  "\<exists>counted. list_all2 (\<lambda>(name, members) c. counted_once plain_slice_eq members c)
      (group_sources [sample_source, sample_source]) counted \<and> sum_for 7 (map snd (concat counted)) = 64"
proof -
  have "list_all (\<lambda>s. rows_ok (wr_rows s)) [sample_source, sample_source]"
    by (simp add: sample_source_def sample_rows_def rows_ok_def positions_aligned_def numbered_batch_def)
  from block_weights_exact [OF slice_eq_ok_plain sample_block_weights this] obtain counted where
    c: "list_all2 (\<lambda>(name, members) c. counted_once plain_slice_eq members c)
      (group_sources [sample_source, sample_source]) counted"
    and w: "weight_in [(7, 64), (9, 32)] 7 = min (sum_for 7 (map snd (concat counted)) + sum_for 7 []) u64_max"
    by auto
  from w have "sum_for 7 (map snd (concat counted)) = 64"
    by (simp add: weight_in_def unwrap_or_def u64_max_def min_def split: if_splits)
  with c show ?thesis by blast
qed

text \<open>
  The hash set that merges rows keeps one of each: the comparison of two rows' keys, by value across
  stored widths, text layouts and nested lists, is an equivalence, and equal keys write the same values to
  the hasher.
\<close>

theorem weight_keys_hash:
  assumes "slice_eq_ok E"
  shows "equivp (same_keyed_row E) \<and> (\<forall>a b. same_keyed_row E a b \<longrightarrow> keyed_row_hash a = keyed_row_hash b)"
  using keyed_rows_hashed [OF assms] unfolding hashed_key_def
  by (intro conjI equivpI reflpI sympI transpI) blast+

theorem weight_keys_hash_witness: "equivp (same_keyed_row plain_slice_eq)"
  using weight_keys_hash [OF slice_eq_ok_plain] by blast

end
