(* ===== verification/Counting_Sort.thy ===== *)
theory Counting_Sort
  imports Prelude
begin

text \<open>
  The counting sort that orders rows by block and addresses by group: its input is a list of
  \<open>(class, element)\<close>, the classes below \<open>m\<close>; counting, summing and placing leave each class as one run, in
  the order its elements came.
\<close>

section \<open>Classes\<close>

definition class_rows :: "nat \<Rightarrow> (nat \<times> 'a) list \<Rightarrow> 'a list" where
  "class_rows k hs = map snd (filter (\<lambda>h. fst h = k) hs)"

definition below_count :: "nat \<Rightarrow> (nat \<times> 'a) list \<Rightarrow> nat" where
  "below_count k hs = length (filter (\<lambda>h. fst h < k) hs)"

lemma class_rows_append [simp]: "class_rows k (hs @ hs') = class_rows k hs @ class_rows k hs'"
  by (simp add: class_rows_def)

lemma class_rows_single: "class_rows k [(j, x)] = (if j = k then [x] else [])"
  by (simp add: class_rows_def)

lemma below_count_Suc: "below_count (Suc k) hs = below_count k hs + length (class_rows k hs)"
  by (induction hs) (auto simp: below_count_def class_rows_def)

lemma below_count_mono: "j \<le> k \<Longrightarrow> below_count j hs \<le> below_count k hs"
  by (induction hs) (auto simp: below_count_def)

lemma below_count_prefix: "length (class_rows k hs) \<le> length (class_rows k (hs @ hs'))"
  by simp

lemma counted:
  assumes "\<forall>h \<in> set hs. fst h < m" "length s = m + 1"
  shows "fold (\<lambda>h s. s[fst h + 1 := s ! (fst h + 1) + 1]) hs s =
      s ! 0 # map (\<lambda>k. s ! (k + 1) + length (class_rows k hs)) [0..<m]"
  using assms
proof (induction hs arbitrary: s)
  case Nil
  then show ?case by (intro nth_equalityI) (auto simp: class_rows_def nth_Cons split: nat.splits)
next
  case (Cons h hs)
  then show ?case by (auto simp: class_rows_def nth_list_update)
qed

lemma sum_starts_fold:
  fixes c :: "nat list"
  assumes "Suc n \<le> length c"
  shows "fold (\<lambda>k s. s[k := s ! k + s ! (k - 1)]) [1..<Suc n] c =
      map (\<lambda>k. if k \<le> n then sum ((!) c) {..k} else c ! k) [0..<length c]"
  using assms
proof (induction n)
  case 0
  then show ?case by (intro nth_equalityI) auto
next
  case (Suc n)
  let ?L = "\<lambda>n. map (\<lambda>k. if k \<le> n then sum ((!) c) {..k} else c ! k) [0..<length c]"
  have "fold (\<lambda>k s. s[k := s ! k + s ! (k - 1)]) [1..<Suc (Suc n)] c =
      (?L n)[Suc n := ?L n ! Suc n + ?L n ! n]"
    using Suc by simp
  also have "\<dots> = ?L (Suc n)"
    using Suc.prems by (intro nth_equalityI) (auto simp: nth_list_update)
  finally show ?case .
qed

lemma summed_counts:
  assumes "\<forall>h \<in> set hs. fst h < m"
  shows "fold (\<lambda>k s. s[k := s ! k + s ! (k - 1)]) [1..<m + 1]
      (fold (\<lambda>h s. s[fst h + 1 := s ! (fst h + 1) + 1]) hs (replicate (m + 1) 0)) =
      map (\<lambda>k. below_count k hs) [0..<m + 1]"
proof -
  let ?c = "0 # map (\<lambda>k. length (class_rows k hs)) [0..<m]"
  have "sum ((!) ?c) {..k} = below_count k hs" if "k \<le> m" for k
    using that
  proof (induction k)
    case 0
    then show ?case by (simp add: below_count_def)
  next
    case (Suc k)
    then show ?case by (simp add: below_count_Suc)
  qed
  with sum_starts_fold [of m ?c] have "fold (\<lambda>k s. s[k := s ! k + s ! (k - 1)]) [1..<m + 1] ?c = map (\<lambda>k. below_count k hs) [0..<m + 1]"
    by (auto simp del: upt_Suc)
  moreover have "fold (\<lambda>h s. s[fst h + 1 := s ! (fst h + 1) + 1]) hs (replicate (m + 1) 0) = ?c"
  proof -
    have "map (\<lambda>k. replicate (m + 1) 0 ! (k + 1) + length (class_rows k hs)) [0..<m] =
        map (\<lambda>k. length (class_rows k hs)) [0..<m]"
      by (rule map_cong) (auto simp del: replicate_Suc)
    moreover have "replicate (m + 1) 0 ! 0 = (0 :: nat)" by simp
    ultimately show ?thesis using counted [OF assms, of "replicate (m + 1) 0"]
      by (simp del: replicate_Suc)
  qed
  ultimately show ?thesis by simp
qed

definition put_hit :: "nat \<times> 'a \<Rightarrow> nat list \<times> 'a list \<Rightarrow> nat list \<times> 'a list" where
  "put_hit = (\<lambda>(k, x) (nexts, rows). (nexts[k := nexts ! k + 1], rows[nexts ! k := x]))"

lemma put_hit_step [simp]: "put_hit (k, x) (nexts, rows) = (nexts[k := nexts ! k + 1], rows[nexts ! k := x])"
  by (simp add: put_hit_def)

lemma placed:
  assumes m: "\<forall>h \<in> set hs. fst h < m"
    and S: "S = map (\<lambda>k. below_count k hs) [0..<m + 1]" and r: "length r = below_count m hs"
  shows "\<forall>k < m. take (length (class_rows k hs)) (drop (S ! k) (snd (fold put_hit hs (S, r)))) = class_rows k hs"
proof -
  have inv: "length (snd (fold put_hit don (S, r))) = length r \<and>
      length (fst (fold put_hit don (S, r))) = m + 1 \<and>
      (\<forall>k < m. fst (fold put_hit don (S, r)) ! k = below_count k hs + length (class_rows k don)) \<and>
      (\<forall>k < m. \<forall>j < length (class_rows k don).
        snd (fold put_hit don (S, r)) ! (below_count k hs + j) = class_rows k don ! j)"
    if "hs = don @ rest" for don rest
    using that
  proof (induction don arbitrary: rest rule: rev_induct)
    case Nil
    then show ?case by (auto simp: S class_rows_def simp del: upt_Suc)
  next
    case (snoc h don)
    obtain c x where h: "h = (c, x)" by (cases h)
    obtain ns rs where f: "fold put_hit don (S, r) = (ns, rs)" by fastforce
    have ih: "length rs = length r" "length ns = m + 1" "\<And>k. k < m \<Longrightarrow> ns ! k = below_count k hs + length (class_rows k don)"
      "\<And>k j. k < m \<Longrightarrow> j < length (class_rows k don) \<Longrightarrow> rs ! (below_count k hs + j) = class_rows k don ! j"
      using snoc.IH [of "h # rest"] snoc.prems by (simp_all add: f)
    have c: "c < m" using m snoc.prems h by auto
    have within: "below_count k hs + length (class_rows k (don @ [h])) \<le> below_count (Suc k) hs" for k
      by (simp add: below_count_Suc snoc.prems class_rows_def)
    have at: "below_count c hs + length (class_rows c don) < length rs"
      using within [of c] below_count_mono [of "Suc c" m hs] c by (simp add: ih r h class_rows_single)
    have apart: "below_count k hs + j \<noteq> below_count c hs + length (class_rows c don)"
      if "k < m" "j < length (class_rows k don)" for k j
    proof (cases "k = c")
      case False
      with within [of k] within [of c] below_count_mono [of "Suc k" c hs] below_count_mono [of "Suc c" k hs] that
      show ?thesis by (fastforce simp: h class_rows_single)
    qed (use that in simp)
    show ?case
    proof (intro conjI allI impI)
      fix k j assume k: "k < m" and j: "j < length (class_rows k (don @ [h]))"
      show "snd (fold put_hit (don @ [h]) (S, r)) ! (below_count k hs + j) = class_rows k (don @ [h]) ! j"
      proof (cases "j < length (class_rows k don)")
        case True
        with apart [OF k True] ih(4) [OF k True] show ?thesis
          by (simp add: f h ih(3) [OF c] nth_append)
      next
        case False
        with j have "k = c" "j = length (class_rows c don)"
          by (simp_all add: h class_rows_single split: if_splits)
        with at show ?thesis by (simp add: f h ih(3) [OF c] nth_append class_rows_single)
      qed
    qed (use c ih in \<open>auto simp: f h class_rows_single nth_list_update\<close>)
  qed
  show ?thesis
  proof (intro allI impI)
    fix k assume k: "k < m"
    let ?rows = "snd (fold put_hit hs (S, r))"
    have "below_count k hs + length (class_rows k hs) \<le> length ?rows"
      using inv [of hs "[]"] below_count_mono [of "Suc k" m hs] k by (simp add: r below_count_Suc)
    moreover have "S ! k = below_count k hs" using k by (simp add: S del: upt_Suc)
    ultimately show "take (length (class_rows k hs)) (drop (S ! k) ?rows) = class_rows k hs"
      using inv [of hs "[]"] k by (intro nth_equalityI) auto
  qed
qed

end
