(* ===== verification/Block_Index.thy ===== *)
theory Block_Index
  imports Rows Counting_Sort
begin

text \<open>
  Where the rows of a page's blocks are (\<^verbatim>\<open>src/output/block_index.rs\<close>). A block's position is shown to be its
  index in the page's list whichever way it is looked up, and the index, a counting sort, to hold for each
  block its rows in file order.
\<close>

section \<open>Block numbers of batches\<close>

definition visit_batch ::
    "string \<Rightarrow> (nat \<Rightarrow> nat \<Rightarrow> nat \<Rightarrow> 's \<Rightarrow> 's) \<Rightarrow> nat \<times> batch \<Rightarrow> 's \<Rightarrow> engine_error + 's" where
  "visit_batch bn visit = (\<lambda>(batch_idx, b) s.
     case column_by_name b bn of
       None \<Rightarrow> Inr s
     | Some a \<Rightarrow>
         and_then (ok_or (EngineError UnsupportedKeyType) (resolve_int a)) (\<lambda>reader.
         Inr (fold (\<lambda>i. visit batch_idx i (block_number reader i)) [0..<int_len reader] s)))"

definition for_each_block_number ::
    "batch list \<Rightarrow> string \<Rightarrow> (nat \<Rightarrow> nat \<Rightarrow> nat \<Rightarrow> 's \<Rightarrow> 's) \<Rightarrow> 's \<Rightarrow> engine_error + 's" where
  "for_each_block_number bs bn visit = try_fold (visit_batch bn visit) (enumerate 0 bs)"

definition compute_block_range :: "batch list \<Rightarrow> string \<Rightarrow> engine_error + nat option \<times> nat option" where
  "compute_block_range bs bn =
     for_each_block_number bs bn
       (\<lambda>_ _ n (mn, mx). (Some (case mn of None \<Rightarrow> n | Some m \<Rightarrow> min m n), Some (case mx of None \<Rightarrow> n | Some m \<Rightarrow> max m n)))
       (None, None)"

text \<open>The sets are lists without repeats, in insertion order.\<close>

definition collect_block_numbers :: "batch list \<Rightarrow> string \<Rightarrow> nat list \<Rightarrow> engine_error + nat list" where
  "collect_block_numbers bs bn = for_each_block_number bs bn (\<lambda>_ _ n. push_new n)"

definition collect_boundary_blocks :: "batch list \<Rightarrow> string \<Rightarrow> nat list \<Rightarrow> engine_error + nat list" where
  "collect_boundary_blocks bs bn numbers =
     and_then (compute_block_range bs bn) (\<lambda>(mn, mx).
     Inr (fold push_new (opt_list mx) (fold push_new (opt_list mn) numbers)))"


section \<open>Positions\<close>

record block_positions =
  bp_blocks :: "nat list"
  bp_dense :: "nat list option"

definition block_positions_new :: "nat list \<Rightarrow> block_positions" where
  "block_positions_new blocks =
     (let span = (if blocks = [] then 0 else last blocks - hd blocks + 1);
          slots = max (length blocks * 4) (2 ^ 16)
      in \<lparr>bp_blocks = blocks,
          bp_dense =
            (if span \<le> slots then
               Some (fold (\<lambda>(position, block) dense. dense[block - hd blocks := position mod 2 ^ 32 + 1])
                 (enumerate 0 blocks) (replicate span 0))
             else None)\<rparr>)"

definition checked_sub :: "nat \<Rightarrow> nat \<Rightarrow> nat option" where
  "checked_sub a b = (if b \<le> a then Some (a - b) else None)"

text \<open>\<open>binary_search\<close> of a list in order: where the first element not below is, if it is the one.\<close>

definition binary_search :: "nat list \<Rightarrow> nat \<Rightarrow> nat option" where
  "binary_search xs x =
     (let i = partition_point (\<lambda>y. y < x) xs in if get xs i = Some x then Some i else None)"

definition position :: "block_positions \<Rightarrow> nat \<Rightarrow> nat option" where
  "position p block =
     (case bp_dense p of
        Some dense \<Rightarrow>
          Option.bind (get (bp_blocks p) 0) (\<lambda>first.
          Option.bind (checked_sub block first) (\<lambda>i.
          Option.bind (get dense i) (\<lambda>k. checked_sub k 1)))
      | None \<Rightarrow> binary_search (bp_blocks p) block)"


section \<open>The index\<close>

record block_index =
  bi_starts :: "nat list"
  bi_rows :: "(nat \<times> nat) list"

definition count_row :: "block_positions \<Rightarrow> nat \<Rightarrow> nat list \<Rightarrow> nat list" where
  "count_row p block starts =
     (case position p block of None \<Rightarrow> starts | Some k \<Rightarrow> starts[k + 1 := starts ! (k + 1) + 1])"

definition sum_starts :: "nat list \<Rightarrow> nat list" where
  "sum_starts starts = fold (\<lambda>k starts. starts[k := starts ! k + starts ! (k - 1)]) [1..<length starts] starts"

definition put_row ::
    "block_positions \<Rightarrow> nat \<Rightarrow> nat \<Rightarrow> nat \<Rightarrow> nat list \<times> (nat \<times> nat) list \<Rightarrow> nat list \<times> (nat \<times> nat) list" where
  "put_row p batch_idx i block = (\<lambda>(nexts, rows).
     case position p block of
       None \<Rightarrow> (nexts, rows)
     | Some k \<Rightarrow> (nexts[k := nexts ! k + 1], rows[nexts ! k := (batch_idx, i)]))"

definition build_index :: "batch list \<Rightarrow> string \<Rightarrow> block_positions \<Rightarrow> engine_error + block_index" where
  "build_index bs bn p =
     and_then (for_each_block_number bs bn (\<lambda>_ _. count_row p) (replicate (length (bp_blocks p) + 1) 0)) (\<lambda>counts.
     let starts = sum_starts counts in
     and_then (for_each_block_number bs bn (put_row p) (starts, replicate (starts ! length (bp_blocks p)) (0, 0))) (\<lambda>(_, rows).
     Inr \<lparr>bi_starts = starts, bi_rows = rows\<rparr>))"

definition index_rows :: "block_index \<Rightarrow> nat \<Rightarrow> (nat \<times> nat) list" where
  "index_rows idx k =
     take (bi_starts idx ! (k + 1) - bi_starts idx ! k) (drop (bi_starts idx ! k) (bi_rows idx))"

fun split_runs :: "nat list \<Rightarrow> 'a list \<Rightarrow> 'a list list" where
  "split_runs (s # s' # starts) rest =
     take (s' - s) rest # split_runs (s' # starts) (drop (s' - s) rest)"
| "split_runs _ rest = []"

definition runs_mut :: "block_index \<Rightarrow> (nat \<times> nat) list list" where
  "runs_mut idx = split_runs (bi_starts idx) (bi_rows idx)"


section \<open>Facts\<close>

text \<open>Every visit, in order.\<close>

definition block_visits :: "batch list \<Rightarrow> string \<Rightarrow> engine_error + (nat \<times> nat \<times> nat) list" where
  "block_visits bs bn = for_each_block_number bs bn (\<lambda>b i n vs. vs @ [(b, i, n)]) []"

lemma for_each_visits:
  "for_each_block_number bs bn visit s =
     and_then (block_visits bs bn) (\<lambda>vs. Inr (fold (\<lambda>(b, i, n). visit b i n) vs s))"
proof -
  have inner: "fold (\<lambda>i vs. vs @ [g i]) is' acc = acc @ map g is'" for g is' and acc :: "'z list"
    by (induction is' arbitrary: acc) auto
  have "try_fold (visit_batch bn visit) es (fold (\<lambda>(b, i, n). visit b i n) acc s) =
      and_then (try_fold (visit_batch bn (\<lambda>b i n vs. vs @ [(b, i, n)])) es acc)
        (\<lambda>vs. Inr (fold (\<lambda>(b, i, n). visit b i n) vs s))" for es acc
  proof (induction es arbitrary: acc)
    case (Cons e es)
    obtain b x where e: "e = (b, x)" by (cases e)
    show ?case
    proof (cases "column_by_name x bn")
      case None
      with Cons show ?thesis by (simp add: e visit_batch_def)
    next
      case (Some a)
      show ?thesis
      proof (cases "resolve_int a")
        case None
        with Some show ?thesis by (simp add: e visit_batch_def)
      next
        case (Some reader)
        let ?vs = "map (\<lambda>i. (b, i, block_number reader i)) [0..<int_len reader]"
        have "fold (\<lambda>i. visit b i (block_number reader i)) [0..<int_len reader] (fold (\<lambda>(b, i, n). visit b i n) acc s) =
            fold (\<lambda>(b, i, n). visit b i n) (acc @ ?vs) s"
          by (simp add: fold_map comp_def)
        with Cons [of "acc @ ?vs"] Some \<open>column_by_name x bn = Some a\<close> show ?thesis
          by (simp add: e visit_batch_def inner)
      qed
    qed
  qed simp
  from this [of "enumerate 0 bs" "[]"] show ?thesis
    by (simp add: for_each_block_number_def block_visits_def)
qed

text \<open>A block's position is its index, looked up either way.\<close>

lemma index_of_nth: "distinct xs \<Longrightarrow> i < length xs \<Longrightarrow> index_of xs (xs ! i) = Some i"
proof (induction xs arbitrary: i)
  case (Cons x xs)
  then show ?case by (cases i) auto
qed simp

lemma dense_positions:
  assumes "distinct xs" "n + length xs < 2 ^ 32" "\<forall>x \<in> set xs. base \<le> x \<and> x - base < length dense"
    and "j < length dense"
  shows "fold (\<lambda>(position, block) dense. dense[block - base := position mod 2 ^ 32 + 1]) (enumerate n xs) dense ! j =
      (case index_of xs (base + j) of None \<Rightarrow> dense ! j | Some k \<Rightarrow> n + k + 1)"
  using assms
proof (induction xs arbitrary: n dense)
  case (Cons x xs)
  have n: "n mod 4294967296 = n" using Cons.prems(2) by simp
  show ?case
  proof (cases "x = base + j")
    case True
    with Cons.prems(1) have "index_of xs (base + j) = None" by simp
    with Cons.IH [of "Suc n" "dense[x - base := n + 1]"] Cons.prems True show ?thesis by (simp add: n)
  next
    case False
    with Cons.prems(3) have "x - base \<noteq> j" by auto
    with Cons.IH [of "Suc n" "dense[x - base := n + 1]"] Cons.prems False show ?thesis
      by (cases "index_of xs (base + j)") (simp_all add: n del: index_of_None)
  qed
qed simp

lemma binary_search_index:
  assumes "sorted_wrt (<) xs"
  shows "binary_search xs x = index_of xs x"
proof (cases "index_of xs x")
  case None
  then have "get xs i \<noteq> Some x" for i by (auto simp: get_Some_iff set_conv_nth)
  with None show ?thesis by (simp add: binary_search_def Let_def del: index_of_None)
next
  case (Some i)
  then have i: "i < length xs" "xs ! i = x" using index_of_Some [OF Some] by simp_all
  have "takeWhile (\<lambda>y. y < x) xs = take i xs"
  proof (rule takeWhile_eq_take_P_nth)
    fix j assume "j < i"
    with i assms show "xs ! j < x" using sorted_wrt_nth_less [of "(<)" xs j i] by simp
  qed (use i in simp)
  then have "partition_point (\<lambda>y. y < x) xs = i" using i by (simp add: partition_point_def)
  moreover have "get xs i = Some x" using i by (simp add: get_Some_iff)
  ultimately show ?thesis unfolding Some binary_search_def Let_def by simp
qed

lemma position_index:
  assumes s: "sorted_wrt (<) blocks" and l: "length blocks < 2 ^ 32"
  shows "position (block_positions_new blocks) b = index_of blocks b"
proof (cases blocks)
  case Nil
  then show ?thesis by (simp add: position_def block_positions_new_def get_def split: option.splits)
next
  case (Cons x xs)
  then have first: "hd blocks = x" "get blocks 0 = Some x" by (simp_all add: get_def)
  have d: "distinct blocks" using s by (simp add: strict_sorted_iff)
  have bounds: "x \<le> y \<and> y \<le> last blocks" if "y \<in> set blocks" for y
  proof -
    from s have "sorted blocks" by (simp add: strict_sorted_iff)
    moreover from that obtain i where "i < length blocks" "y = blocks ! i" by (auto simp: in_set_conv_nth)
    ultimately show ?thesis
      using sorted_nth_mono [of blocks 0 i] sorted_nth_mono [of blocks i "length blocks - 1"]
        last_conv_nth [of blocks] hd_conv_nth [of blocks] Cons
      by simp
  qed
  define span where "span = last blocks - x + 1"
  show ?thesis
  proof (cases "span \<le> max (length blocks * 4) (2 ^ 16)")
    case True
    define dense where
      "dense = fold (\<lambda>(position, block) dense. dense[block - x := position mod 2 ^ 32 + 1])
         (enumerate 0 blocks) (replicate span 0)"
    have p: "block_positions_new blocks = \<lparr>bp_blocks = blocks, bp_dense = Some dense\<rparr>"
      using True Cons by (simp add: block_positions_new_def dense_def span_def Let_def del: enumerate_simps)
    have len: "length dense = span"
    proof -
      have "length (fold (\<lambda>(position, block) dense. dense[block - x := position mod 2 ^ 32 + 1]) es ds) = length ds"
        for es and ds :: "nat list"
        by (induction es arbitrary: ds) auto
      then show ?thesis by (simp add: dense_def)
    qed
    have at: "dense ! j = (case index_of blocks (x + j) of None \<Rightarrow> 0 | Some k \<Rightarrow> k + 1)" if "j < span" for j
    proof -
      have "\<forall>y \<in> set blocks. x \<le> y \<and> y - x < length (replicate span (0 :: nat))"
        using bounds by (fastforce simp: span_def)
      from dense_positions [OF d _ this, of 0 j] l that show ?thesis
        by (simp add: dense_def cong: option.case_cong)
    qed
    have pos: "position (block_positions_new blocks) b =
        Option.bind (checked_sub b x) (\<lambda>i. Option.bind (get dense i) (\<lambda>k. checked_sub k 1))"
      by (simp add: p position_def first)
    show ?thesis
    proof (cases "x \<le> b \<and> b - x < span")
      case True
      with at [of "b - x"] len show ?thesis
        by (simp add: pos checked_sub_def get_def split: option.splits del: index_of_None)
    next
      case False
      have "b \<notin> set blocks" using False bounds [of b] by (fastforce simp: span_def)
      then have "index_of blocks b = None" by simp
      with False len show ?thesis
        by (auto simp: pos checked_sub_def get_def simp del: index_of_None)
    qed
  next
    case False
    with Cons have p: "bp_dense (block_positions_new blocks) = None" "bp_blocks (block_positions_new blocks) = blocks"
      by (simp_all add: block_positions_new_def span_def Let_def del: enumerate_simps)
    with binary_search_index [OF s] show ?thesis by (simp add: position_def)
  qed
qed

section \<open>The index as a counting sort\<close>

lemma sum_starts_counts:
  assumes "\<forall>h \<in> set hs. fst h < m"
  shows "sum_starts (fold (\<lambda>h s. s[fst h + 1 := s ! (fst h + 1) + 1]) hs (replicate (m + 1) 0)) =
      map (\<lambda>k. below_count k hs) [0..<m + 1]"
proof -
  have "length (fold (\<lambda>h s. s[fst h + 1 := s ! (fst h + 1) + 1]) hs s) = length s" for s :: "nat list"
    by (induction hs arbitrary: s) simp_all
  with summed_counts [OF assms] show ?thesis by (simp add: sum_starts_def del: upt_Suc)
qed


section \<open>What the index holds\<close>

text \<open>
  The rows of a block among the batches, in file order, read off their block-number columns; a batch without
  the column has none.
\<close>

definition batch_numbers :: "string \<Rightarrow> batch \<Rightarrow> nat list" where
  "batch_numbers bn b =
     (case Option.bind (column_by_name b bn) resolve_int of
        None \<Rightarrow> []
      | Some reader \<Rightarrow> map (block_number reader) [0..<int_len reader])"

definition block_rows :: "batch list \<Rightarrow> string \<Rightarrow> nat \<Rightarrow> (nat \<times> nat) list" where
  "block_rows bs bn block =
     concat (map (\<lambda>(k, b). map (\<lambda>(i, _). (k, i)) (filter (\<lambda>(_, n). n = block) (enumerate 0 (batch_numbers bn b))))
       (enumerate 0 bs))"

definition numbered :: "string \<Rightarrow> batch \<Rightarrow> bool" where
  "numbered bn b = (case column_by_name b bn of None \<Rightarrow> True | Some a \<Rightarrow> resolve_int a \<noteq> None)"

definition all_visits :: "batch list \<Rightarrow> string \<Rightarrow> (nat \<times> nat \<times> nat) list" where
  "all_visits bs bn =
     concat (map (\<lambda>(k, b). map (\<lambda>(i, n). (k, i, n)) (enumerate 0 (batch_numbers bn b))) (enumerate 0 bs))"

lemma block_visits_all:
  "block_visits bs bn =
     (if list_all (numbered bn) bs then Inr (all_visits bs bn) else Inl (EngineError UnsupportedKeyType))"
proof -
  have push: "fold (\<lambda>i vs. vs @ [g i]) is' acc = acc @ map g is'" for g is' and acc :: "'z list"
    by (induction is' arbitrary: acc) auto
  have en: "enumerate 0 (map f [0..<l]) = map (\<lambda>i. (i, f i)) [0..<l]" for f :: "nat \<Rightarrow> nat" and l
    by (simp add: enumerate_eq_zip zip_map2 zip_same_conv_map)
  have "try_fold (visit_batch bn (\<lambda>b i n vs. vs @ [(b, i, n)])) (enumerate k bs) acc =
      (if list_all (numbered bn) bs
       then Inr (acc @ concat (map (\<lambda>(k, b). map (\<lambda>(i, n). (k, i, n)) (enumerate 0 (batch_numbers bn b))) (enumerate k bs)))
       else Inl (EngineError UnsupportedKeyType))" for k acc
  proof (induction bs arbitrary: k acc)
    case (Cons b bs)
    show ?case
    proof (cases "column_by_name b bn")
      case None
      with Cons show ?thesis by (simp add: visit_batch_def numbered_def batch_numbers_def)
    next
      case (Some a)
      show ?thesis
      proof (cases "resolve_int a")
        case None
        with Some show ?thesis by (simp add: visit_batch_def numbered_def)
      next
        case (Some reader)
        with Cons \<open>column_by_name b bn = Some a\<close> show ?thesis
          by (simp add: visit_batch_def numbered_def batch_numbers_def push en comp_def)
      qed
    qed
  qed simp
  from this [of 0 "[]"] show ?thesis
    by (simp add: block_visits_def for_each_block_number_def all_visits_def)
qed

lemma block_rows_visits:
  "block_rows bs bn block = map (\<lambda>(b, i, n). (b, i)) (filter (\<lambda>(b, i, n). n = block) (all_visits bs bn))"
proof -
  have "map (\<lambda>(b, i, n). (b, i)) (filter (\<lambda>(b, i, n). n = block) (map (\<lambda>(i, n). (k, i, n)) xs)) =
      map (\<lambda>(i, _). (k, i)) (filter (\<lambda>(_, n). n = block) xs)" for k :: nat and xs :: "(nat \<times> nat) list"
    by (induction xs) auto
  then show ?thesis
    by (simp add: block_rows_def all_visits_def filter_concat map_concat comp_def case_prod_beta')
qed

text \<open>The visits of a page's blocks, each by its block's position.\<close>

definition page_hits :: "block_positions \<Rightarrow> (nat \<times> nat \<times> nat) list \<Rightarrow> (nat \<times> nat \<times> nat) list" where
  "page_hits p = List.map_filter (\<lambda>(b, i, n). map_option (\<lambda>k. (k, b, i)) (position p n))"

lemma count_row_hits:
  "fold (\<lambda>(b, i, n). count_row p n) vs s = fold (\<lambda>h s. s[fst h + 1 := s ! (fst h + 1) + 1]) (page_hits p vs) s"
  by (induction vs arbitrary: s)
    (auto simp: page_hits_def count_row_def List.map_filter_simps split: option.splits)

lemma put_row_hits:
  "fold (\<lambda>(b, i, n). put_row p b i n) vs s = fold put_hit (page_hits p vs) s"
  by (induction vs arbitrary: s)
    (auto simp: page_hits_def put_row_def List.map_filter_simps split: option.splits)

lemma page_hits_rows:
  assumes "sorted_wrt (<) blocks" "length blocks < 2 ^ 32"
  shows "\<forall>h \<in> set (page_hits (block_positions_new blocks) vs). fst h < length blocks"
    and "k < length blocks \<Longrightarrow>
      class_rows k (page_hits (block_positions_new blocks) vs) =
        map (\<lambda>(b, i, n). (b, i)) (filter (\<lambda>(b, i, n). n = blocks ! k) vs)"
proof -
  note p = position_index [OF assms]
  have d: "distinct blocks" using assms(1) by (simp add: strict_sorted_iff)
  show "\<forall>h \<in> set (page_hits (block_positions_new blocks) vs). fst h < length blocks"
    using index_of_Some [of blocks] by (fastforce simp: page_hits_def map_filter_def p)
  assume k: "k < length blocks"
  have "index_of blocks n = Some k \<longleftrightarrow> n = blocks ! k" for n
    using index_of_nth [OF d k] index_of_Some [of blocks n k] by auto
  then show "class_rows k (page_hits (block_positions_new blocks) vs) =
      map (\<lambda>(b, i, n). (b, i)) (filter (\<lambda>(b, i, n). n = blocks ! k) vs)"
    by (induction vs)
      (auto simp: page_hits_def p class_rows_def List.map_filter_simps index_of_nth [OF d k]
        split: option.splits prod.splits simp del: index_of_None)
qed

lemma split_runs_slices:
  "\<forall>k < m. f k \<le> f (Suc k) \<Longrightarrow>
   split_runs (map f [j..<m + 1]) (drop (f j) xs) = map (\<lambda>k. take (f (Suc k) - f k) (drop (f k) xs)) [j..<m]"
proof (induction "m - j" arbitrary: j)
  case 0
  then show ?case by (cases "j = m") auto
next
  case (Suc n)
  then have j: "j < m" by simp
  then have "map f [j..<m + 1] = f j # f (Suc j) # map f [Suc (Suc j)..<m + 1]"
    by (simp add: upt_conv_Cons del: upt_Suc)
  moreover have "map f [Suc j..<m + 1] = f (Suc j) # map f [Suc (Suc j)..<m + 1]"
    using j by (simp add: upt_conv_Cons del: upt_Suc)
  moreover have "drop (f (Suc j) - f j) (drop (f j) xs) = drop (f (Suc j)) xs"
    using Suc.prems j by simp
  ultimately show ?case
    using Suc.hyps(1) [of "Suc j"] Suc.hyps(2) Suc.prems j by (simp add: upt_conv_Cons del: upt_Suc)
qed

text \<open>
  C26: the index of a page's blocks (ascending, fewer than 2^32) either fails because a batch's block-number
  column is not an integer, or holds for each block exactly its rows among the batches in file order, whether
  they are read block by block or as one run after another.
\<close>

theorem block_index_rows:
  assumes s: "sorted_wrt (<) blocks" and l: "length blocks < 2 ^ 32"
  shows "case build_index bs bn (block_positions_new blocks) of
      Inl e \<Rightarrow> e = EngineError UnsupportedKeyType \<and>
        (\<exists>b \<in> set bs. \<exists>a. column_by_name b bn = Some a \<and> resolve_int a = None)
    | Inr idx \<Rightarrow> map (index_rows idx) [0..<length blocks] = map (block_rows bs bn) blocks \<and>
        runs_mut idx = map (block_rows bs bn) blocks"
proof (cases "list_all (numbered bn) bs")
  case False
  then have "\<exists>b \<in> set bs. \<exists>a. column_by_name b bn = Some a \<and> resolve_int a = None"
    by (auto simp: list_all_iff numbered_def split: option.splits simp del: not_None_eq split_paired_All)
  with False show ?thesis by (simp add: build_index_def for_each_visits block_visits_all)
next
  case True
  define p where "p = block_positions_new blocks"
  define m where "m = length blocks"
  define hs where "hs = page_hits p (all_visits bs bn)"
  define S where "S = map (\<lambda>k. below_count k hs) [0..<m + 1]"
  define r where "r = snd (fold put_hit hs (S, replicate (below_count m hs) (0 :: nat, 0 :: nat)))"
  have hs: "\<forall>h \<in> set hs. fst h < m"
    using page_hits_rows(1) [OF s l] by (simp add: hs_def p_def m_def)
  have bp: "bp_blocks p = blocks" by (simp add: p_def block_positions_new_def Let_def)
  have counts: "sum_starts (fold (\<lambda>(b, i, n). count_row p n) (all_visits bs bn) (replicate (length blocks + 1) 0)) = S"
    unfolding count_row_hits hs_def [symmetric] m_def [symmetric] S_def by (rule sum_starts_counts [OF hs])
  have last: "S ! length blocks = below_count m hs"
    by (simp add: S_def m_def nth_append)
  have built: "build_index bs bn p = Inr \<lparr>bi_starts = S, bi_rows = r\<rparr>"
    using True
    by (simp add: build_index_def for_each_visits block_visits_all bp counts [unfolded Suc_eq_plus1 [symmetric]] last
        put_row_hits hs_def [symmetric] r_def Let_def del: replicate_Suc) (simp add: case_prod_beta')
  have rows: "take (S ! Suc k - S ! k) (drop (S ! k) r) = block_rows bs bn (blocks ! k)" if "k < m" for k
  proof -
    have "S ! Suc k - S ! k = length (class_rows k hs)"
      using that unfolding S_def by (simp add: below_count_Suc del: upt_Suc)
    moreover have "take (length (class_rows k hs)) (drop (S ! k) r) = class_rows k hs"
      using placed [OF hs S_def, of "replicate (below_count m hs) (0, 0)"] that by (simp add: r_def)
    moreover have "class_rows k hs = block_rows bs bn (blocks ! k)"
      unfolding hs_def p_def block_rows_visits by (rule page_hits_rows(2) [OF s l]) (use that in \<open>simp add: m_def\<close>)
    ultimately show ?thesis by simp
  qed
  have "map (index_rows \<lparr>bi_starts = S, bi_rows = r\<rparr>) [0..<m] = map (block_rows bs bn) blocks"
    using rows by (intro nth_equalityI) (simp_all add: index_rows_def m_def)
  moreover have "runs_mut \<lparr>bi_starts = S, bi_rows = r\<rparr> = map (block_rows bs bn) blocks"
  proof -
    have "runs_mut \<lparr>bi_starts = S, bi_rows = r\<rparr> = split_runs (map (\<lambda>k. below_count k hs) [0..<m + 1]) (drop (below_count 0 hs) r)"
      by (simp add: runs_mut_def S_def below_count_def del: upt_Suc)
    also have "\<dots> = map (\<lambda>k. take (below_count (Suc k) hs - below_count k hs) (drop (below_count k hs) r)) [0..<m]"
      by (rule split_runs_slices) (simp add: below_count_mono)
    also have "\<dots> = map (block_rows bs bn) blocks"
      using rows by (intro nth_equalityI) (simp_all add: m_def S_def del: upt_Suc)
    finally show ?thesis .
  qed
  ultimately show ?thesis by (simp add: p_def [symmetric] built m_def)
qed

theorem block_index_rows_witness:
  "case build_index [numbered_batch, numbered_batch] ''block_number'' (block_positions_new [3, 7, 9]) of
      Inl e \<Rightarrow> e = EngineError UnsupportedKeyType \<and>
        (\<exists>b \<in> set [numbered_batch, numbered_batch]. \<exists>a. column_by_name b ''block_number'' = Some a \<and> resolve_int a = None)
    | Inr idx \<Rightarrow> map (index_rows idx) [0..<length [3 :: nat, 7, 9]] =
          map (block_rows [numbered_batch, numbered_batch] ''block_number'') [3, 7, 9] \<and>
        runs_mut idx = map (block_rows [numbered_batch, numbered_batch] ''block_number'') [3, 7, 9]"
  by (rule block_index_rows) simp_all

lemma block_rows_sample:
  "map (block_rows [numbered_batch, numbered_batch] ''block_number'') [3, 7, 9] = [[], [(0, 0), (0, 1), (1, 0), (1, 1)], [(0, 2), (1, 2)]]"
  by (simp add: numbered_batch_def block_rows_def batch_numbers_def column_by_name_def unsigned_bits_def upt_rec)

end
