(* ===== verification/Key_Columns.thy ===== *)
theory Key_Columns
  imports Rows
begin

text \<open>
  Join keys read off columns (\<^verbatim>\<open>src/scan/key_columns.rs\<close>), the bytes they are compared by, and the values
  those bytes stand for: for columns of the same kinds, two rows write the same bytes exactly when their
  key values agree, whatever width each side stores.
\<close>

section \<open>Bytes\<close>

definition u32_le_bytes :: "nat \<Rightarrow> u8 list" where
  "u32_le_bytes n = map (\<lambda>i. ucast (drop_bit (8 * i) (of_nat n :: u32))) [0..<4]"


section \<open>Typed key columns\<close>

datatype typed_key_column = KInt int_column | KStr string_column | KList "nat list" nulls "int_column option"

definition resolve_key :: "array \<Rightarrow> typed_key_column option" where
  "resolve_key a =
     (case resolve_int a of
        Some ints \<Rightarrow> Some (KInt ints)
      | None \<Rightarrow>
          (case resolve_text a of
             Some txt \<Rightarrow> Some (KStr txt)
           | None \<Rightarrow>
               (case a of AList False os xs n \<Rightarrow> Some (KList os n (resolve_int xs)) | _ \<Rightarrow> None)))"

fun key_is_null :: "typed_key_column \<Rightarrow> nat \<Rightarrow> bool" where
  "key_is_null (KInt a) i = int_is_null a i"
| "key_is_null (KStr a) i = (text_value a i = None)"
| "key_is_null (KList _ n _) i = (\<not> valid_at n i)"

definition append_to :: "typed_key_column \<Rightarrow> nat \<Rightarrow> u8 list \<Rightarrow> u8 list option" where
  "append_to c i buf =
     (if key_is_null c i then None
      else
        (case c of
           KInt a \<Rightarrow> Some (buf @ to_le_bytes (join_key a i))
         | KStr a \<Rightarrow> map_option (\<lambda>v. buf @ u32_le_bytes (length v) @ as_bytes v) (text_value a i)
         | KList os _ None \<Rightarrow> None
         | KList os _ (Some els) \<Rightarrow>
             Some (buf @ u32_le_bytes (os ! Suc i - os ! i) @
               concat (map (\<lambda>k. to_le_bytes (join_key els k)) [os ! i..<os ! Suc i]))))"

text \<open>The serialized key of a row; \<open>None\<close> as soon as a column is absent or has no value.\<close>

fun append_all :: "typed_key_column option list \<Rightarrow> nat \<Rightarrow> u8 list \<Rightarrow> u8 list option" where
  "append_all [] i buf = Some buf"
| "append_all (None # cs) i buf = None"
| "append_all (Some c # cs) i buf = Option.bind (append_to c i buf) (append_all cs i)"

fun is_integer_key :: "typed_key_column \<Rightarrow> bool" where
  "is_integer_key (KInt _) = True"
| "is_integer_key _ = False"

definition typed_key_columns :: "batch \<Rightarrow> string list \<Rightarrow> typed_key_column option list" where
  "typed_key_columns b names = map (\<lambda>name. Option.bind (column_by_name b name) resolve_key) names"

definition key_readable :: "batch \<Rightarrow> string \<Rightarrow> bool" where
  "key_readable b name =
     (case Option.bind (column_by_name b name) resolve_key of
        Some (KList _ _ els) \<Rightarrow> els \<noteq> None
      | Some _ \<Rightarrow> True
      | None \<Rightarrow> False)"

definition keys_readable :: "batch list \<Rightarrow> string list \<Rightarrow> bool" where
  "keys_readable bs names = list_all (\<lambda>b. list_all (key_readable b) names) (filter (\<lambda>b. b_num_rows b > 0) bs)"

text \<open>Arrow's validity of a column's values, those of a dictionary included, and the union of nulls.\<close>

fun logical_nulls :: "array \<Rightarrow> nulls" where
  "logical_nulls (ADictionary ks n a) =
     (case nulls_of a of
        None \<Rightarrow> n
      | Some v \<Rightarrow> Some (map (\<lambda>i. valid_at n i \<and> v ! (ks ! i)) [0..<length ks]))"
| "logical_nulls a = nulls_of a"

fun nulls_union :: "nulls \<Rightarrow> nulls \<Rightarrow> nulls" where
  "nulls_union None n = n"
| "nulls_union n None = n"
| "nulls_union (Some v) (Some w) = Some (map2 (\<and>) v w)"

definition complete_keys :: "batch \<Rightarrow> string list \<Rightarrow> nulls" where
  "complete_keys b names =
     (case List.map_filter (\<lambda>name. Option.bind (column_by_name b name) logical_nulls) names of
        [] \<Rightarrow> None
      | v # vs \<Rightarrow> Some (foldl (map2 (\<and>)) v vs))"

definition int_nulls :: "int_column \<Rightarrow> nulls" where
  "int_nulls = (\<lambda>(t, vs, n). n)"

definition pair_keys_of :: "batch \<Rightarrow> string list \<Rightarrow> (u64 list \<times> u64 list \<times> nulls) option" where
  "pair_keys_of b columns =
     (case columns of
        [first, second] \<Rightarrow>
          Option.bind (Option.bind (column_by_name b first) resolve_int) (\<lambda>x.
          Option.bind (Option.bind (column_by_name b second) resolve_int) (\<lambda>y.
          Some (join_keys x, join_keys y, nulls_union (int_nulls x) (int_nulls y))))
      | _ \<Rightarrow> None)"


section \<open>What a key says\<close>

text \<open>
  The value of a key column at a row, independent of how it is stored: an integer at its join width, a
  text, a boolean, bytes of a fixed size, or a path of integers.
\<close>

datatype key_value = VInt u64 | VText string | VBool bool | VBytes "u8 list" | VPath "u64 list"

datatype key_kind = IntKey | TextKey | BoolKey | BytesKey nat | PathKey

fun key_kind_of :: "array \<Rightarrow> key_kind option" where
  "key_kind_of (AInt _ _ _) = Some IntKey"
| "key_kind_of (AText _ _ _) = Some TextKey"
| "key_kind_of (ABoolean _ _) = Some BoolKey"
| "key_kind_of (ABytes (FixedSizeBinary w) _ _) = Some (BytesKey w)"
| "key_kind_of (AList False _ (AInt _ _ _) _) = Some PathKey"
| "key_kind_of _ = None"

fun slot_value :: "array \<Rightarrow> nat \<Rightarrow> key_value option" where
  "slot_value (AInt _ vs _) i = Some (VInt (stored_key (vs ! i)))"
| "slot_value (AText _ vs _) i = Some (VText (vs ! i))"
| "slot_value (ABoolean vs _) i = Some (VBool (vs ! i))"
| "slot_value (ABytes (FixedSizeBinary w) vs _) i = Some (VBytes (vs ! i))"
| "slot_value (AList False os (AInt _ vs _) _) i =
     Some (VPath (map (\<lambda>k. stored_key (vs ! k)) [os ! i..<os ! Suc i]))"
| "slot_value _ i = None"

definition key_value_at :: "array \<Rightarrow> nat \<Rightarrow> key_value option" where
  "key_value_at a i = (if is_null a i then None else slot_value a i)"

text \<open>The key of a row: \<open>None\<close> when a component is missing, null or no key.\<close>

definition key_of :: "batch \<Rightarrow> string list \<Rightarrow> nat \<Rightarrow> key_value list option" where
  "key_of b names i = those (map (\<lambda>name. Option.bind (column_by_name b name) (\<lambda>a. key_value_at a i)) names)"

fun value_kind :: "key_value \<Rightarrow> key_kind" where
  "value_kind (VInt _) = IntKey"
| "value_kind (VText _) = TextKey"
| "value_kind (VBool _) = BoolKey"
| "value_kind (VBytes bs) = BytesKey (length bs)"
| "value_kind (VPath _) = PathKey"

text \<open>Texts and paths whose length fits the 32 bits it is written in.\<close>

fun value_fits :: "key_value \<Rightarrow> bool" where
  "value_fits (VText s) = (length s < 2 ^ 32)"
| "value_fits (VPath p) = (length p < 2 ^ 32)"
| "value_fits _ = True"

fun key_bytes_of :: "key_value \<Rightarrow> u8 list" where
  "key_bytes_of (VInt w) = to_le_bytes w"
| "key_bytes_of (VText s) = u32_le_bytes (length s) @ as_bytes s"
| "key_bytes_of (VBool v) = [if v then 1 else 0]"
| "key_bytes_of (VBytes bs) = bs"
| "key_bytes_of (VPath p) = u32_le_bytes (length p) @ concat (map to_le_bytes p)"


section \<open>Facts\<close>

lemma length_to_le_bytes [simp]: "length (to_le_bytes w) = 8"
  by (simp add: to_le_bytes_def)

lemma length_to_be_bytes [simp]: "length (to_be_bytes w) = 8"
  by (simp add: to_be_bytes_def)

lemma length_u32_le_bytes [simp]: "length (u32_le_bytes n) = 4"
  by (simp add: u32_le_bytes_def)

lemma word_eq_bytes:
  fixes v w :: "'a :: len word"
  assumes "\<forall>i < n. (ucast (drop_bit (8 * i) v) :: u8) = ucast (drop_bit (8 * i) w)" and "LENGTH('a) \<le> 8 * n"
  shows "v = w"
proof (rule bit_word_eqI)
  fix k assume k: "k < LENGTH('a)"
  with assms(2) have "k div 8 < n" by linarith
  with assms(1) have "bit (ucast (drop_bit (8 * (k div 8)) v) :: u8) (k mod 8) =
      bit (ucast (drop_bit (8 * (k div 8)) w) :: u8) (k mod 8)" by simp
  with k show "bit v k \<longleftrightarrow> bit w k"
    by (simp add: bit_simps)
qed

lemma to_le_bytes_inject [simp]: "to_le_bytes v = to_le_bytes w \<longleftrightarrow> v = w"
  using word_eq_bytes [of 8 v w] by (auto simp: to_le_bytes_def)

lemma to_be_bytes_inject [simp]: "to_be_bytes v = to_be_bytes w \<longleftrightarrow> v = w"
  using word_eq_bytes [of 8 v w] by (auto simp: to_be_bytes_def)

lemma u32_le_bytes_inject:
  assumes "m < 2 ^ 32" and "n < 2 ^ 32"
  shows "u32_le_bytes m = u32_le_bytes n \<longleftrightarrow> m = n"
proof
  assume "u32_le_bytes m = u32_le_bytes n"
  then have "(of_nat m :: u32) = of_nat n"
    using word_eq_bytes [of 4 "of_nat m :: u32" "of_nat n"] by (auto simp: u32_le_bytes_def)
  then have "unat (of_nat m :: u32) = unat (of_nat n :: u32)" by simp
  with assms show "m = n" by (simp add: unat_of_nat)
qed simp

text \<open>Chunks of one length are read back one by one.\<close>

lemma concat_inject:
  assumes "\<forall>x \<in> set xs \<union> set ys. length (f x) = n" and "inj f" and "length xs = length ys"
  shows "concat (map f xs) @ r = concat (map f ys) @ r' \<longleftrightarrow> xs = ys \<and> r = r'"
  using assms(3) assms(1)
proof (induction xs ys rule: list_induct2)
  case (Cons x xs y ys)
  then have "concat (map f xs) @ r = concat (map f ys) @ r' \<longleftrightarrow> xs = ys \<and> r = r'" by simp
  moreover have "f x = f y \<longleftrightarrow> x = y" using assms(2) by (simp add: inj_eq)
  ultimately show ?case using Cons.prems by auto
qed simp

text \<open>The bytes of a value tell where it ends, so what follows is read off too.\<close>

lemma key_bytes_inject:
  assumes "value_kind v = value_kind w" and "value_fits v" and "value_fits w"
  shows "key_bytes_of v @ r = key_bytes_of w @ r' \<longleftrightarrow> v = w \<and> r = r'"
proof (cases v)
  case (VInt x)
  with assms obtain y where "w = VInt y" by (cases w) auto
  with VInt show ?thesis by auto
next
  case (VText s)
  with assms obtain t where t: "w = VText t" by (cases w) auto
  have "u32_le_bytes (length s) = u32_le_bytes (length t) \<longleftrightarrow> length s = length t"
    using assms VText t by (simp add: u32_le_bytes_inject)
  moreover have "length (as_bytes u) = length u" for u by (simp add: as_bytes_def)
  ultimately show ?thesis using VText t by auto
next
  case (VBool x)
  with assms obtain y where "w = VBool y" by (cases w) auto
  with VBool show ?thesis by auto
next
  case (VBytes bs)
  with assms obtain cs where "w = VBytes cs" "length cs = length bs" by (cases w) auto
  with VBytes show ?thesis by auto
next
  case (VPath p)
  with assms obtain q where q: "w = VPath q" by (cases w) auto
  have "u32_le_bytes (length p) = u32_le_bytes (length q) \<longleftrightarrow> length p = length q"
    using assms VPath q by (simp add: u32_le_bytes_inject)
  moreover have "inj to_le_bytes" by (rule injI) simp
  ultimately show ?thesis
    using VPath q concat_inject [of p q to_le_bytes 8 r r'] by auto
qed

definition row_key_bytes :: "key_value list \<Rightarrow> u8 list" where
  "row_key_bytes vs = concat (map key_bytes_of vs)"

lemma row_key_bytes_inject:
  assumes "map value_kind vs = map value_kind ws" and "list_all value_fits vs" and "list_all value_fits ws"
  shows "row_key_bytes vs = row_key_bytes ws \<longleftrightarrow> vs = ws"
proof -
  from assms(1) have "length vs = length ws" using map_eq_imp_length_eq by blast
  then show ?thesis using assms
    by (induction vs ws rule: list_induct2) (simp_all add: row_key_bytes_def key_bytes_inject)
qed

text \<open>A typed column writes the bytes of its value.\<close>

lemma append_to_value:
  assumes "Option.bind a resolve_key = Some c"
  shows "append_to c i buf = map_option (\<lambda>v. buf @ key_bytes_of v) (Option.bind a (\<lambda>a. key_value_at a i))"
proof -
  from assms obtain x where x: "a = Some x" "resolve_key x = Some c" by (auto simp: bind_eq_Some_conv)
  show ?thesis
  proof (cases x)
    case (AList large os xs n)
    with x have "\<not> large" by (auto simp: resolve_key_def split: bool.splits)
    with x AList show ?thesis
      by (cases xs) (auto simp: resolve_key_def append_to_def key_value_at_def is_null_def join_key_def comp_def)
  qed (use x in \<open>auto simp: resolve_key_def append_to_def key_value_at_def is_null_def join_key_def
      split: bytes_type.splits\<close>)
qed

lemma append_all_append:
  "append_all cs i (buf @ r) = map_option (\<lambda>x. buf @ x) (append_all cs i r)"
proof (induction cs arbitrary: r)
  case (Cons c cs)
  show ?case
  proof (cases c)
    case (Some c)
    have "append_to c i (buf @ r) = map_option (\<lambda>x. buf @ x) (append_to c i r)"
      by (cases c) (auto simp: append_to_def split: option.splits)
    with Cons Some show ?thesis by (cases "append_to c i r") auto
  qed simp
qed simp

text \<open>The columns keys of a relation scan are read from: integers, texts and paths.\<close>

definition scan_key :: "key_kind \<Rightarrow> bool" where
  "scan_key k = (k = IntKey \<or> k = TextKey \<or> k = PathKey)"

definition keyed :: "key_kind list \<Rightarrow> string list \<Rightarrow> batch \<Rightarrow> bool" where
  "keyed kinds names b = (map (\<lambda>name. Option.bind (column_by_name b name) key_kind_of) names = map Some kinds)"

lemma resolve_key_kind: "key_kind_of a = Some k \<Longrightarrow> scan_key k \<Longrightarrow> \<exists>c. resolve_key a = Some c"
  by (cases a rule: key_kind_of.cases) (auto simp: resolve_key_def scan_key_def)

lemma append_all_key:
  assumes "keyed kinds names b" and "list_all scan_key kinds"
  shows "append_all (typed_key_columns b names) i [] = map_option row_key_bytes (key_of b names i)"
  using assms
proof (induction names arbitrary: kinds)
  case Nil
  then show ?case by (simp add: typed_key_columns_def key_of_def row_key_bytes_def)
next
  case (Cons name names)
  then obtain k ks where k: "kinds = k # ks" "keyed ks names b" "scan_key k" "list_all scan_key ks"
    and a: "Option.bind (column_by_name b name) key_kind_of = Some k"
    by (cases kinds) (auto simp: keyed_def)
  then obtain c where c: "Option.bind (column_by_name b name) resolve_key = Some c"
    using resolve_key_kind by (force simp: bind_eq_Some_conv)
  have IH: "append_all (typed_key_columns b names) i [] = map_option row_key_bytes (key_of b names i)"
    using Cons.IH k by blast
  let ?v = "Option.bind (column_by_name b name) (\<lambda>a. key_value_at a i)"
  have "append_all (typed_key_columns b (name # names)) i [] =
      Option.bind (append_to c i []) (append_all (typed_key_columns b names) i)"
    by (simp add: typed_key_columns_def c)
  also have "\<dots> = map_option row_key_bytes (key_of b (name # names) i)"
  proof (cases ?v)
    case None
    then show ?thesis by (simp add: append_to_value [OF c] key_of_def)
  next
    case (Some v)
    have "append_all (typed_key_columns b names) i (key_bytes_of v) =
        map_option (\<lambda>vs. key_bytes_of v @ row_key_bytes vs) (key_of b names i)"
      using append_all_append [of "typed_key_columns b names" i "key_bytes_of v" "[]"]
      by (simp add: IH option.map_comp comp_def)
    then show ?thesis
      by (simp add: append_to_value [OF c] Some key_of_def option.map_comp comp_def row_key_bytes_def)
  qed
  finally show ?case .
qed

end
