(* ===== verification/Joins.thy ===== *)
theory Joins
  imports Key_Columns Row_Predicate "HOL-Library.Sublist"
begin

text \<open>
  The joins relations are read by (\<^verbatim>\<open>src/join/mod.rs\<close>, \<^verbatim>\<open>src/join/semi_join.rs\<close>,
  \<^verbatim>\<open>src/join/hierarchical.rs\<close>): by equal keys, and by addresses one of which extends the other. The masks are
  shown to select exactly the rows related by the values of their keys.
\<close>

section \<open>Masks\<close>

definition keep_one :: "batch_kernels \<Rightarrow> batch \<times> mask \<Rightarrow> engine_error + batch list" where
  "keep_one B = (\<lambda>(b, m).
     if true_count m = 0 then Inr []
     else if true_count m = b_num_rows b then Inr [b]
     else and_then (bk_filter B b m) (\<lambda>b'. Inr [b']))"

definition keep_matching :: "batch_kernels \<Rightarrow> batch list \<Rightarrow> mask list \<Rightarrow> engine_error + batch list" where
  "keep_matching B bs masks = and_then (try_collect (keep_one B) (zip bs masks)) (\<lambda>kept. Inr (concat kept))"

definition no_row_masks :: "batch list \<Rightarrow> mask list" where
  "no_row_masks bs = map (\<lambda>b. all_mask (b_num_rows b) False) bs"


section \<open>Joins by equal keys\<close>

definition resolve_key_indices :: "batch \<Rightarrow> string list \<Rightarrow> engine_error + nat list" where
  "resolve_key_indices b names =
     try_collect (\<lambda>name. ok_or (EngineError ColumnNotFound) (index_of (column_names b) name)) names"

datatype typed_extractor =
    ExInt nat
  | ExText nat
  | ExBoolean nat
  | ExFixedBinary nat
  | ExIntList nat

definition column_at :: "batch \<Rightarrow> nat \<Rightarrow> array" where
  "column_at b i = snd (b_columns b ! i)"

definition extractor_new :: "batch \<Rightarrow> nat \<Rightarrow> engine_error + typed_extractor" where
  "extractor_new b i =
     (case data_type_of (column_at b i) of
        DInt _ \<Rightarrow> Inr (ExInt i)
      | DText _ \<Rightarrow> Inr (ExText i)
      | DBoolean \<Rightarrow> Inr (ExBoolean i)
      | DBytes (FixedSizeBinary _) \<Rightarrow> Inr (ExFixedBinary i)
      | DList False (DInt _) \<Rightarrow> Inr (ExIntList i)
      | _ \<Rightarrow> Inl (EngineError UnsupportedKeyType))"

primrec extractor_index :: "typed_extractor \<Rightarrow> nat" where
  "extractor_index (ExInt i) = i"
| "extractor_index (ExText i) = i"
| "extractor_index (ExBoolean i) = i"
| "extractor_index (ExFixedBinary i) = i"
| "extractor_index (ExIntList i) = i"

text \<open>A column that is not what its extractor was made for is a panic.\<close>

definition extract_append :: "typed_extractor \<Rightarrow> batch \<Rightarrow> nat \<Rightarrow> u8 list \<Rightarrow> engine_error + u8 list option" where
  "extract_append e b row buf =
     (let col = column_at b (extractor_index e) in
      if is_null col row then Inr None
      else
        (case (e, col) of
           (ExInt _, _) \<Rightarrow>
             and_then (ok_or Panic (resolve_int col)) (\<lambda>ints.
             Inr (Some (buf @ to_le_bytes (join_key ints row))))
         | (ExText _, _) \<Rightarrow>
             and_then (ok_or Panic (resolve_text col)) (\<lambda>txt.
             and_then (ok_or Panic (text_value txt row)) (\<lambda>s.
             Inr (Some (buf @ u32_le_bytes (length s) @ as_bytes s))))
         | (ExBoolean _, ABoolean vs _) \<Rightarrow> Inr (Some (buf @ [if vs ! row then 1 else 0]))
         | (ExFixedBinary _, ABytes (FixedSizeBinary _) vs _) \<Rightarrow> Inr (Some (buf @ vs ! row))
         | (ExIntList _, AList False os xs _) \<Rightarrow>
             and_then (ok_or Panic (resolve_int xs)) (\<lambda>els.
             Inr (Some (buf @ u32_le_bytes (os ! Suc row - os ! row) @
               concat (map (\<lambda>k. to_le_bytes (join_key els k)) [os ! row..<os ! Suc row]))))
         | _ \<Rightarrow> Inl Panic))"

fun write_key :: "typed_extractor list \<Rightarrow> batch \<Rightarrow> nat \<Rightarrow> u8 list \<Rightarrow> engine_error + u8 list option" where
  "write_key [] b row buf = Inr (Some buf)"
| "write_key (e # es) b row buf =
     and_then (extract_append e b row buf) (\<lambda>r. case r of None \<Rightarrow> Inr None | Some buf' \<Rightarrow> write_key es b row buf')"

definition batch_keys :: "batch \<Rightarrow> string list \<Rightarrow> engine_error + u8 list option list" where
  "batch_keys b names =
     and_then (resolve_key_indices b names) (\<lambda>indices.
     and_then (try_collect (extractor_new b) indices) (\<lambda>extractors.
     try_collect (\<lambda>row. write_key extractors b row []) [0..<b_num_rows b]))"

definition insert_key :: "u8 list option \<Rightarrow> u8 list list \<Rightarrow> u8 list list" where
  "insert_key k seen = (case k of None \<Rightarrow> seen | Some key \<Rightarrow> push_new key seen)"

definition build_key_set :: "batch list \<Rightarrow> string list \<Rightarrow> engine_error + u8 list list" where
  "build_key_set bs names =
     try_fold (\<lambda>b seen. and_then (batch_keys b names) (\<lambda>ks. Inr (fold insert_key ks seen))) bs []"

definition probe_batch :: "u8 list list \<Rightarrow> string list \<Rightarrow> batch \<Rightarrow> engine_error + mask" where
  "probe_batch key_set names b =
     and_then (batch_keys b names) (\<lambda>ks.
     Inr (map (\<lambda>k. Some (case k of None \<Rightarrow> False | Some key \<Rightarrow> key \<in> set key_set)) ks))"

definition semi_join_masks ::
    "batch list \<Rightarrow> string list \<Rightarrow> batch list \<Rightarrow> string list \<Rightarrow> engine_error + mask list" where
  "semi_join_masks build build_key probe probe_key =
     (if build = [] \<or> probe = [] then Inr (no_row_masks probe)
      else
        and_then (build_key_set build build_key) (\<lambda>key_set.
        if key_set = [] then Inr (no_row_masks probe)
        else try_collect (probe_batch key_set probe_key) probe))"

definition semi_join ::
    "batch_kernels \<Rightarrow> batch list \<Rightarrow> string list \<Rightarrow> batch list \<Rightarrow> string list \<Rightarrow> engine_error + batch list" where
  "semi_join B build build_key probe probe_key =
     and_then (semi_join_masks build build_key probe probe_key) (keep_matching B probe)"

definition lookup_join ::
    "batch_kernels \<Rightarrow> batch list \<Rightarrow> string list \<Rightarrow> batch list \<Rightarrow> string list \<Rightarrow> engine_error + batch list" where
  "lookup_join B input input_key lookup lookup_key = semi_join B input input_key lookup lookup_key"

definition lookup_join_masks ::
    "batch list \<Rightarrow> string list \<Rightarrow> batch list \<Rightarrow> string list \<Rightarrow> engine_error + mask list" where
  "lookup_join_masks input input_key lookup lookup_key = semi_join_masks input input_key lookup lookup_key"

section \<open>Facts on keys\<close>

lemma column_index:
  "column_by_name b name = Some a \<Longrightarrow> \<exists>i. index_of (column_names b) name = Some i \<and> column_at b i = a"
proof -
  have "map_of cs name = Some a \<Longrightarrow> \<exists>i. index_of (map fst cs) name = Some i \<and> snd (cs ! i) = a" for cs :: "(string \<times> array) list"
    by (induction cs) (force split: if_splits)+
  then show "column_by_name b name = Some a \<Longrightarrow> ?thesis"
    by (simp add: column_by_name_def column_names_def column_at_def)
qed

lemma extractor_value:
  assumes "key_kind_of a = Some k" and "column_at b i = a"
  shows "\<exists>e. extractor_new b i = Inr e \<and>
    (\<forall>row buf. extract_append e b row buf = Inr (map_option (\<lambda>v. buf @ key_bytes_of v) (key_value_at a row)))"
  using assms
  by (cases a rule: key_kind_of.cases)
    (auto simp: extractor_new_def extract_append_def key_value_at_def is_null_def Let_def join_key_def comp_def)

lemma write_key_value:
  assumes "list_all2 (\<lambda>e a. \<forall>row buf. extract_append e b row buf =
      Inr (map_option (\<lambda>v. buf @ key_bytes_of v) (key_value_at a row))) es as"
  shows "write_key es b row buf =
    Inr (map_option (\<lambda>vs. buf @ row_key_bytes vs) (those (map (\<lambda>a. key_value_at a row) as)))"
  using assms
proof (induction es as arbitrary: buf rule: list_all2_induct)
  case Nil
  then show ?case by (simp add: row_key_bytes_def)
next
  case (Cons e es a as)
  then show ?case
    by (cases "key_value_at a row") (simp_all add: option.map_comp comp_def row_key_bytes_def)
qed

lemma batch_keys_value:
  assumes "keyed kinds names b"
  shows "batch_keys b names = Inr (map (\<lambda>i. map_option row_key_bytes (key_of b names i)) [0..<b_num_rows b])"
proof -
  have "\<exists>is es as. try_collect (\<lambda>name. ok_or (EngineError ColumnNotFound) (index_of (column_names b) name)) names = Inr is \<and>
      try_collect (extractor_new b) is = Inr es \<and>
      list_all2 (\<lambda>e a. \<forall>row buf. extract_append e b row buf =
        Inr (map_option (\<lambda>v. buf @ key_bytes_of v) (key_value_at a row))) es as \<and>
      map (column_by_name b) names = map Some as"
    using assms
  proof (induction names arbitrary: kinds)
    case Nil
    then show ?case by simp
  next
    case (Cons name names)
    then obtain k ks where k: "keyed ks names b" "Option.bind (column_by_name b name) key_kind_of = Some k"
      by (cases kinds) (auto simp: keyed_def)
    then obtain a where a: "column_by_name b name = Some a" "key_kind_of a = Some k"
      by (auto simp: bind_eq_Some_conv)
    from column_index [OF a(1)] obtain i where i: "index_of (column_names b) name = Some i" "column_at b i = a" by blast
    from extractor_value [OF a(2) i(2)] obtain e where e: "extractor_new b i = Inr e"
      "\<forall>row buf. extract_append e b row buf = Inr (map_option (\<lambda>v. buf @ key_bytes_of v) (key_value_at a row))" by blast
    from Cons.IH [OF k(1)] obtain "is" es as where IH:
      "try_collect (\<lambda>name. ok_or (EngineError ColumnNotFound) (index_of (column_names b) name)) names = Inr is"
      "try_collect (extractor_new b) is = Inr es"
      "list_all2 (\<lambda>e a. \<forall>row buf. extract_append e b row buf =
        Inr (map_option (\<lambda>v. buf @ key_bytes_of v) (key_value_at a row))) es as"
      "map (column_by_name b) names = map Some as" by blast
    show ?case
      by (rule exI [of _ "i # is"], rule exI [of _ "e # es"], rule exI [of _ "a # as"]) (simp add: i e IH a)
  qed
  then obtain "is" es as where *:
    "try_collect (\<lambda>name. ok_or (EngineError ColumnNotFound) (index_of (column_names b) name)) names = Inr is"
    "try_collect (extractor_new b) is = Inr es"
    "list_all2 (\<lambda>e a. \<forall>row buf. extract_append e b row buf =
        Inr (map_option (\<lambda>v. buf @ key_bytes_of v) (key_value_at a row))) es as"
    "map (column_by_name b) names = map Some as" by blast
  have k: "key_of b names row = those (map (\<lambda>a. key_value_at a row) as)" for row
  proof -
    have "map (\<lambda>name. Option.bind (column_by_name b name) (\<lambda>a. key_value_at a row)) names =
        map (\<lambda>c. Option.bind c (\<lambda>a. key_value_at a row)) (map (column_by_name b) names)" by simp
    then show ?thesis by (simp add: key_of_def *(4) comp_def)
  qed
  have "try_collect (\<lambda>row. write_key es b row []) rs = Inr (map (\<lambda>i. map_option row_key_bytes (key_of b names i)) rs)" for rs
    by (induction rs) (simp_all add: write_key_value [OF *(3)] k)
  then show ?thesis by (simp add: batch_keys_def resolve_key_indices_def *)
qed

text \<open>
  A batch whose keys can be joined: its columns are well formed and of the kinds a key is read from, and no
  text or path is too long for the length it is written with.
\<close>

definition joinable :: "key_kind list \<Rightarrow> string list \<Rightarrow> batch \<Rightarrow> bool" where
  "joinable kinds names b \<longleftrightarrow> batch_ok b \<and> keyed kinds names b \<and>
     (\<forall>i < b_num_rows b. \<forall>vs. key_of b names i = Some vs \<longrightarrow> list_all value_fits vs)"

lemma slot_kind:
  "wf_array a \<Longrightarrow> i < len a \<Longrightarrow> key_kind_of a = Some k \<Longrightarrow> slot_value a i = Some v \<Longrightarrow> value_kind v = k"
  by (cases a rule: key_kind_of.cases) (auto simp: list_all_length)

lemma key_kinds:
  assumes "joinable kinds names b" and "i < b_num_rows b" and "key_of b names i = Some vs"
  shows "map value_kind vs = kinds"
proof (rule nth_equalityI)
  have k: "map (\<lambda>name. Option.bind (column_by_name b name) key_kind_of) names = map Some kinds"
    using assms(1) by (simp add: joinable_def keyed_def)
  have v: "map (\<lambda>name. Option.bind (column_by_name b name) (\<lambda>a. key_value_at a i)) names = map Some vs"
    using assms(3) by (simp add: key_of_def those_Some)
  show "length (map value_kind vs) = length kinds"
    using map_eq_imp_length_eq [OF k] map_eq_imp_length_eq [OF v] by simp
  fix j assume j: "j < length (map value_kind vs)"
  with v have n: "j < length names" using map_eq_imp_length_eq [OF v] by simp
  obtain a where a: "column_by_name b (names ! j) = Some a" "key_kind_of a = Some (kinds ! j)"
    using arg_cong [OF k, of "\<lambda>xs. xs ! j"] n map_eq_imp_length_eq [OF k] by (auto simp: bind_eq_Some_conv)
  have "key_value_at a i = Some (vs ! j)"
    using arg_cong [OF v, of "\<lambda>xs. xs ! j"] n map_eq_imp_length_eq [OF v] a by simp
  moreover have "wf_array a" "i < len a"
    using assms(1, 2) batch_column [of b "names ! j" a] a by (simp_all add: joinable_def)
  ultimately show "map value_kind vs ! j = kinds ! j"
    using slot_kind [of a i "kinds ! j" "vs ! j"] a(2) j by (simp add: key_value_at_def split: if_splits)
qed

lemma joined_keys:
  assumes "joinable kinds names b" and "joinable kinds names' b'"
    and "i < b_num_rows b" and "j < b_num_rows b'"
    and "key_of b names i = Some vs" and "key_of b' names' j = Some ws"
  shows "row_key_bytes vs = row_key_bytes ws \<longleftrightarrow> vs = ws"
  using assms key_kinds [OF assms(1, 3, 5)] key_kinds [OF assms(2, 4, 6)]
  by (intro row_key_bytes_inject) (auto simp: joinable_def)

lemma build_key_set_value:
  assumes "list_all (joinable kinds names) bs"
  shows "\<exists>set_of. build_key_set bs names = Inr set_of \<and>
    set set_of = {row_key_bytes vs | b j vs. b \<in> set bs \<and> j < b_num_rows b \<and> key_of b names j = Some vs}"
proof -
  have keys: "set (fold insert_key ks seen) = set seen \<union> {k. Some k \<in> set ks}" for ks seen
    by (induction ks arbitrary: seen) (auto simp: insert_key_def split: option.splits)
  have "\<exists>set_of. try_fold (\<lambda>b seen. and_then (batch_keys b names) (\<lambda>ks. Inr (fold insert_key ks seen))) bs seen = Inr set_of \<and>
      set set_of = set seen \<union> {row_key_bytes vs | b j vs. b \<in> set bs \<and> j < b_num_rows b \<and> key_of b names j = Some vs}" for seen
    using assms
  proof (induction bs arbitrary: seen)
    case (Cons b bs)
    then have k: "batch_keys b names = Inr (map (\<lambda>i. map_option row_key_bytes (key_of b names i)) [0..<b_num_rows b])"
      using batch_keys_value [of kinds names b] by (simp add: joinable_def)
    let ?seen = "fold insert_key (map (\<lambda>i. map_option row_key_bytes (key_of b names i)) [0..<b_num_rows b]) seen"
    have "list_all (joinable kinds names) bs" using Cons.prems by simp
    from Cons.IH [OF this, of ?seen] obtain set_of where
      *: "try_fold (\<lambda>b seen. and_then (batch_keys b names) (\<lambda>ks. Inr (fold insert_key ks seen))) bs ?seen = Inr set_of"
        "set set_of = set ?seen \<union> {row_key_bytes vs | b j vs. b \<in> set bs \<and> j < b_num_rows b \<and> key_of b names j = Some vs}"
      by blast
    have here: "set ?seen = set seen \<union> {row_key_bytes vs | j vs. j < b_num_rows b \<and> key_of b names j = Some vs}"
      unfolding keys by (force simp: image_iff eq_commute [of "Some _"])
    show ?case
      by (rule exI [of _ set_of]) (auto simp: k *(1) *(2) here)
  qed simp
  from this [of "[]"] show ?thesis by (simp add: build_key_set_def)
qed

text \<open>A row has a partner among some batches when its key is complete and one of their rows has the same.\<close>

definition has_partner :: "batch list \<Rightarrow> string list \<Rightarrow> batch \<Rightarrow> string list \<Rightarrow> nat \<Rightarrow> bool" where
  "has_partner bs names b names' i =
     (case key_of b names' i of
        None \<Rightarrow> False
      | Some vs \<Rightarrow> list_ex (\<lambda>s. list_ex (\<lambda>j. key_of s names j = Some vs) [0..<b_num_rows s]) bs)"

lemma has_partner_iff:
  "has_partner bs names b names' i \<longleftrightarrow>
     (\<exists>vs. key_of b names' i = Some vs \<and> (\<exists>s \<in> set bs. \<exists>j < b_num_rows s. key_of s names j = Some vs))"
  by (force simp: has_partner_def list_ex_iff split: option.split)

definition partner_mask :: "batch list \<Rightarrow> string list \<Rightarrow> string list \<Rightarrow> batch \<Rightarrow> mask" where
  "partner_mask bs names names' b = map (\<lambda>i. Some (has_partner bs names b names' i)) [0..<b_num_rows b]"

lemma no_partner_mask:
  "(\<And>i. i < b_num_rows b \<Longrightarrow> \<not> has_partner bs names b names' i) \<Longrightarrow>
     partner_mask bs names names' b = all_mask (b_num_rows b) False"
  by (rule nth_equalityI) (simp_all add: partner_mask_def all_mask_def)

lemma probe_batch_value:
  assumes k: "set key_set = {row_key_bytes vs | s j vs. s \<in> set bs \<and> j < b_num_rows s \<and> key_of s names j = Some vs}"
    and bs: "list_all (joinable kinds names) bs" and b: "joinable kinds names' b"
  shows "probe_batch key_set names' b = Inr (partner_mask bs names names' b)"
proof -
  have "(case map_option row_key_bytes (key_of b names' i) of None \<Rightarrow> False | Some key \<Rightarrow> key \<in> set key_set) =
      has_partner bs names b names' i" if i: "i < b_num_rows b" for i
  proof (cases "key_of b names' i")
    case None
    then show ?thesis by (simp add: has_partner_def)
  next
    case (Some vs)
    have "row_key_bytes vs = row_key_bytes ws \<longleftrightarrow> vs = ws"
      if "s \<in> set bs" "j < b_num_rows s" "key_of s names j = Some ws" for s j ws
      using joined_keys [OF b _ i that(2) Some that(3)] bs that(1) by (auto simp: list_all_iff)
    with Some show ?thesis by (force simp: k has_partner_iff)
  qed
  then show ?thesis
    using b batch_keys_value [of kinds names' b] by (simp add: probe_batch_def partner_mask_def joinable_def)
qed

lemma semi_join_masks_value:
  assumes bs: "list_all (joinable kinds build_key) build" and ps: "list_all (joinable kinds probe_key) probe"
  shows "semi_join_masks build build_key probe probe_key = Inr (map (partner_mask build build_key probe_key) probe)"
proof (cases "build = [] \<or> probe = []")
  case True
  then show ?thesis
    using no_partner_mask [of _ "[]" build_key probe_key] by (auto simp: semi_join_masks_def no_row_masks_def has_partner_iff)
next
  case False
  from build_key_set_value [OF bs] obtain key_set where k: "build_key_set build build_key = Inr key_set"
    "set key_set = {row_key_bytes vs | b j vs. b \<in> set build \<and> j < b_num_rows b \<and> key_of b build_key j = Some vs}" by blast
  show ?thesis
  proof (cases "key_set = []")
    case True
    with k(2) have "\<not> has_partner build build_key b probe_key i" for b i by (auto simp: has_partner_iff)
    with False k(1) True show ?thesis
      using no_partner_mask [of _ build build_key probe_key] by (simp add: semi_join_masks_def no_row_masks_def)
  next
    case key_set: False
    have "try_collect (probe_batch key_set probe_key) probe = Inr (map (partner_mask build build_key probe_key) probe)"
      using ps by (induction probe) (simp_all add: probe_batch_value [OF k(2) bs])
    with False k(1) key_set show ?thesis by (simp add: semi_join_masks_def)
  qed
qed

lemma keep_matching_rows:
  assumes B: "batch_kernels_ok B" and "list_all2 (\<lambda>b m. length m = b_num_rows b) bs ms"
  shows "\<exists>out. keep_matching B bs ms = Inr out \<and>
    concat (map batch_rows out) = concat (map2 (\<lambda>b m. select m (batch_rows b)) bs ms)"
proof -
  have one: "\<exists>out. keep_one B (b, m) = Inr out \<and> concat (map batch_rows out) = select m (batch_rows b)"
    if l: "length m = b_num_rows b" for b m
  proof -
    have all: "select m xs = xs" if "true_count m = length m" "length xs = length m" for xs :: "row list"
      using that
    proof (induction m arbitrary: xs)
      case (Cons k m)
      then obtain y ys where xs: "xs = y # ys" by (cases xs) auto
      have "true_count m \<le> length m" by (simp add: true_count_def)
      with Cons.prems(1) have "k = Some True \<and> true_count m = length m"
        by (cases "k = Some True") (simp_all add: true_count_def)
      with Cons xs show ?case by simp
    qed simp
    obtain b' where "bk_filter B b m = Inr b'" "batch_rows b' = select m (batch_rows b)"
      using B l unfolding batch_kernels_ok_def by blast
    then show ?thesis
      using all [of "batch_rows b"] l select_none [of m "batch_rows b"]
      by (simp add: keep_one_def del: true_count_0)
  qed
  from assms(2) have "\<exists>kept. try_collect (keep_one B) (zip bs ms) = Inr kept \<and>
      concat (map batch_rows (concat kept)) = concat (map2 (\<lambda>b m. select m (batch_rows b)) bs ms)"
  proof (induction rule: list_all2_induct)
    case (Cons b bs m ms)
    with one [of m b] show ?case by force
  qed simp
  then show ?thesis by (auto simp: keep_matching_def)
qed

lemma select_partners:
  "select (map (\<lambda>i. Some (p i)) is) (map f is) = map f (filter p is)"
  by (induction "is") simp_all


section \<open>Joins by address\<close>

text \<open>The path of a row, each element cut to 32 bits; a null or a list of no integers is empty.\<close>

definition extract_address :: "array \<Rightarrow> nat \<Rightarrow> nat list" where
  "extract_address a row =
     (if is_null a row then []
      else
        (case a of
           AList _ os xs _ \<Rightarrow>
             (case resolve_int xs of
                None \<Rightarrow> []
              | Some els \<Rightarrow> map (\<lambda>k. block_number els k mod 2 ^ 32) [os ! row..<os ! Suc row])
         | _ \<Rightarrow> []))"

fun make_group_key :: "batch \<Rightarrow> nat \<Rightarrow> nat list \<Rightarrow> u8 list \<Rightarrow> engine_error + u8 list option" where
  "make_group_key b row [] buf = Inr (Some buf)"
| "make_group_key b row (i # is) buf =
     and_then (ok_or (EngineError UnsupportedKeyType) (resolve_int (column_at b i))) (\<lambda>ints.
     if int_is_null ints row then Inr None
     else make_group_key b row is (buf @ to_le_bytes (join_key ints row)))"

definition resolve_indices :: "batch \<Rightarrow> string list \<Rightarrow> engine_error + nat list" where
  "resolve_indices b names =
     try_collect (\<lambda>name. ok_or (EngineError ColumnNotFound) (index_of (column_names b) name)) names"

definition address_array :: "batch \<Rightarrow> string \<Rightarrow> engine_error + array" where
  "address_array b name =
     and_then (ok_or (EngineError ColumnNotFound) (index_of (column_names b) name)) (\<lambda>i.
     case column_at b i of
       AList False os xs n \<Rightarrow> Inr (AList False os xs n)
     | _ \<Rightarrow> Inl (EngineError UnsupportedKeyType))"

text \<open>A row's group and address; \<open>None\<close> when one of them is null.\<close>

definition grouped_address :: "batch \<Rightarrow> nat list \<Rightarrow> array \<Rightarrow> nat \<Rightarrow> engine_error + (u8 list \<times> nat list) option" where
  "grouped_address b key_indices addresses row =
     (if is_null addresses row then Inr None
      else
        and_then (make_group_key b row key_indices []) (\<lambda>gk.
        Inr (map_option (\<lambda>g. (g, extract_address addresses row)) gk)))"

type_synonym address_index = "(u8 list, nat list list) omap"

definition index_row :: "(u8 list \<times> nat list) option \<Rightarrow> address_index \<Rightarrow> address_index" where
  "index_row r idx =
     (case r of None \<Rightarrow> idx | Some (g, path) \<Rightarrow> omap_update g (\<lambda>old. unwrap_or [] old @ [path]) idx)"

definition batch_addresses ::
    "batch \<Rightarrow> string list \<Rightarrow> string \<Rightarrow> engine_error + (u8 list \<times> nat list) option list" where
  "batch_addresses b group_key_columns address_column =
     and_then (resolve_indices b group_key_columns) (\<lambda>key_indices.
     and_then (address_array b address_column) (\<lambda>addresses.
     try_collect (grouped_address b key_indices addresses) [0..<b_num_rows b]))"

definition index_batch :: "string list \<Rightarrow> string \<Rightarrow> batch \<Rightarrow> address_index \<Rightarrow> engine_error + address_index" where
  "index_batch group_key_columns address_column b idx =
     and_then (batch_addresses b group_key_columns address_column) (\<lambda>rs. Inr (fold index_row rs idx))"

definition probe_addresses ::
    "(nat list \<Rightarrow> nat list \<Rightarrow> bool) \<Rightarrow> address_index \<Rightarrow> string list \<Rightarrow> string \<Rightarrow> batch \<Rightarrow> engine_error + mask" where
  "probe_addresses related idx group_key_columns address_column b =
     and_then (batch_addresses b group_key_columns address_column) (\<lambda>rs.
     Inr (map (\<lambda>r. Some (case r of
             None \<Rightarrow> False
           | Some (g, target) \<Rightarrow> (case map_of idx g of None \<Rightarrow> False | Some addrs \<Rightarrow> list_ex (\<lambda>s. related s target) addrs)))
         rs))"

definition is_child :: "bool \<Rightarrow> nat list \<Rightarrow> nat list \<Rightarrow> bool" where
  "is_child inclusive parent target =
     (if inclusive then length target \<ge> length parent \<and> take (length parent) target = parent
      else length target > length parent \<and> take (length parent) target = parent)"

definition is_parent :: "bool \<Rightarrow> nat list \<Rightarrow> nat list \<Rightarrow> bool" where
  "is_parent inclusive child target =
     (if inclusive then length target \<le> length child \<and> take (length target) child = target
      else length target < length child \<and> take (length target) child = target)"

definition relatives_masks ::
    "(nat list \<Rightarrow> nat list \<Rightarrow> bool) \<Rightarrow> batch list \<Rightarrow> batch list \<Rightarrow> string list \<Rightarrow> string \<Rightarrow> string \<Rightarrow> engine_error + mask list" where
  "relatives_masks related source target group_key_columns source_column target_column =
     (if source = [] \<or> target = [] then Inr (no_row_masks target)
      else
        and_then (try_fold (index_batch group_key_columns source_column) source []) (\<lambda>idx.
        try_collect (probe_addresses related idx group_key_columns target_column) target))"

definition children_masks ::
    "batch list \<Rightarrow> batch list \<Rightarrow> string list \<Rightarrow> string \<Rightarrow> string \<Rightarrow> bool \<Rightarrow> engine_error + mask list" where
  "children_masks source target group_key_columns source_column target_column inclusive =
     relatives_masks (is_child inclusive) source target group_key_columns source_column target_column"

definition parents_masks ::
    "batch list \<Rightarrow> batch list \<Rightarrow> string list \<Rightarrow> string \<Rightarrow> string \<Rightarrow> bool \<Rightarrow> engine_error + mask list" where
  "parents_masks source target group_key_columns source_column target_column inclusive =
     relatives_masks (is_parent inclusive) source target group_key_columns source_column target_column"

definition find_children ::
    "batch_kernels \<Rightarrow> batch list \<Rightarrow> batch list \<Rightarrow> string list \<Rightarrow> string \<Rightarrow> string \<Rightarrow> bool \<Rightarrow> engine_error + batch list" where
  "find_children B source target group_key_columns source_column target_column inclusive =
     and_then (children_masks source target group_key_columns source_column target_column inclusive)
       (keep_matching B target)"

definition find_parents ::
    "batch_kernels \<Rightarrow> batch list \<Rightarrow> batch list \<Rightarrow> string list \<Rightarrow> string \<Rightarrow> string \<Rightarrow> bool \<Rightarrow> engine_error + batch list" where
  "find_parents B source target group_key_columns source_column target_column inclusive =
     and_then (parents_masks source target group_key_columns source_column target_column inclusive)
       (keep_matching B target)"


section \<open>Facts on addresses\<close>

text \<open>
  The address of a row as the values its path stands for, and the rows one relates to: its group's key is
  the same and one address is a prefix of the other.
\<close>

definition path_of :: "batch \<Rightarrow> string \<Rightarrow> nat \<Rightarrow> u64 list option" where
  "path_of b name i =
     (case Option.bind (column_by_name b name) (\<lambda>a. key_value_at a i) of Some (VPath p) \<Rightarrow> Some p | _ \<Rightarrow> None)"

definition relative_of ::
    "(u64 list \<Rightarrow> u64 list \<Rightarrow> bool) \<Rightarrow> batch list \<Rightarrow> string \<Rightarrow> string list \<Rightarrow> batch \<Rightarrow> string \<Rightarrow> nat \<Rightarrow> bool" where
  "relative_of related sources source_column grouping b target_column i =
     (case (key_of b grouping i, path_of b target_column i) of
        (Some g, Some p) \<Rightarrow>
          list_ex (\<lambda>s. list_ex (\<lambda>j. key_of s grouping j = Some g \<and>
              (case path_of s source_column j of None \<Rightarrow> False | Some q \<Rightarrow> related q p)) [0..<b_num_rows s]) sources
      | _ \<Rightarrow> False)"

definition child_path :: "bool \<Rightarrow> u64 list \<Rightarrow> u64 list \<Rightarrow> bool" where
  "child_path inclusive parent target = (prefix parent target \<and> (inclusive \<or> parent \<noteq> target))"

definition parent_path :: "bool \<Rightarrow> u64 list \<Rightarrow> u64 list \<Rightarrow> bool" where
  "parent_path inclusive child target = (prefix target child \<and> (inclusive \<or> target \<noteq> child))"

text \<open>
  A batch with addresses: integer grouping keys and a column of integer paths, whose elements are item
  indices of at most 32 bits.
\<close>

fun index_path :: "array \<Rightarrow> bool" where
  "index_path (AList False os (AInt t vs n) m) = list_all (\<lambda>v. 0 \<le> v \<and> v < 2 ^ 32) vs"
| "index_path _ = False"

definition addressed :: "string list \<Rightarrow> string \<Rightarrow> batch \<Rightarrow> bool" where
  "addressed grouping name b \<longleftrightarrow> batch_ok b \<and> keyed (replicate (length grouping) IntKey) grouping b \<and>
     (case column_by_name b name of None \<Rightarrow> False | Some a \<Rightarrow> index_path a)"

lemma key_of_ints:
  assumes "list_all2 (\<lambda>i a. column_at b i = a \<and> key_kind_of a = Some IntKey) is as"
  shows "make_group_key b row is buf =
    Inr (map_option (\<lambda>vs. buf @ row_key_bytes vs) (those (map (\<lambda>a. key_value_at a row) as)))"
  using assms
proof (induction "is" as arbitrary: buf rule: list_all2_induct)
  case Nil
  then show ?case by (simp add: row_key_bytes_def)
next
  case (Cons i "is" a as)
  then obtain t vs n where a: "a = AInt t vs n" by (cases a rule: key_kind_of.cases) auto
  with Cons show ?case
    by (cases "valid_at n row")
      (simp_all add: key_value_at_def is_null_def join_key_def option.map_comp comp_def row_key_bytes_def)
qed

lemma group_indices:
  assumes "keyed (replicate (length grouping) IntKey) grouping b"
  shows "\<exists>is as. resolve_indices b grouping = Inr is \<and>
    list_all2 (\<lambda>i a. column_at b i = a \<and> key_kind_of a = Some IntKey) is as \<and> map (column_by_name b) grouping = map Some as"
  using assms
proof (induction grouping)
  case Nil
  then show ?case by (simp add: resolve_indices_def)
next
  case (Cons name names)
  from Cons.prems obtain a where a: "column_by_name b name = Some a" "key_kind_of a = Some IntKey"
    and k: "keyed (replicate (length names) IntKey) names b"
    by (auto simp: keyed_def bind_eq_Some_conv)
  from column_index [OF a(1)] obtain i where i: "index_of (column_names b) name = Some i" "column_at b i = a" by blast
  from Cons.IH [OF k] obtain "is" as where IH: "resolve_indices b names = Inr is"
    "list_all2 (\<lambda>i a. column_at b i = a \<and> key_kind_of a = Some IntKey) is as" "map (column_by_name b) names = map Some as"
    by blast
  show ?case
    by (rule exI [of _ "i # is"], rule exI [of _ "a # as"]) (use i IH a in \<open>simp add: resolve_indices_def\<close>)
qed

lemma wf_offsets:
  assumes "wf_array (AList large os xs n)" and "row < length os - 1"
  shows "os ! row \<le> os ! Suc row" and "os ! Suc row \<le> len xs"
proof -
  from assms have "sorted os" "os \<noteq> []" "last os \<le> len xs" by simp_all
  with assms(2) show "os ! row \<le> os ! Suc row" by (simp add: sorted_nth_mono)
  have "os ! Suc row \<le> last os"
    using \<open>sorted os\<close> \<open>os \<noteq> []\<close> assms(2) by (simp add: last_conv_nth sorted_nth_mono)
  with \<open>last os \<le> len xs\<close> show "os ! Suc row \<le> len xs" by simp
qed

lemma index_element:
  assumes "in_range t v" and "0 \<le> v" and "v < 2 ^ 32"
  shows "unsigned_bits t v mod 2 ^ 32 = unat (stored_key v)"
proof -
  have "v < 2 ^ bits_of t" using assms(1) by (cases t) (auto simp: in_range_def)
  then have "unsigned_bits t v = nat v" using assms by (simp add: unsigned_bits_def)
  moreover have "unat (stored_key v) = nat v"
    using assms by (simp add: stored_key_def unsigned_of_int take_bit_int_eq_self)
  ultimately show ?thesis using assms by (simp add: nat_less_iff)
qed

definition row_address :: "string list \<Rightarrow> string \<Rightarrow> batch \<Rightarrow> nat \<Rightarrow> (u8 list \<times> nat list) option" where
  "row_address grouping name b i =
     (case (key_of b grouping i, path_of b name i) of
        (Some g, Some p) \<Rightarrow> Some (row_key_bytes g, map unat p)
      | _ \<Rightarrow> None)"

lemma batch_addresses_value:
  assumes b: "addressed grouping name b"
  shows "batch_addresses b grouping name = Inr (map (row_address grouping name b) [0..<b_num_rows b])"
proof -
  from b group_indices [of grouping b] obtain "is" as where g: "resolve_indices b grouping = Inr is"
    "list_all2 (\<lambda>i a. column_at b i = a \<and> key_kind_of a = Some IntKey) is as" "map (column_by_name b) grouping = map Some as"
    by (auto simp: addressed_def)
  have k: "key_of b grouping row = those (map (\<lambda>a. key_value_at a row) as)" for row
  proof -
    have "map (\<lambda>name. Option.bind (column_by_name b name) (\<lambda>a. key_value_at a row)) grouping =
        map (\<lambda>c. Option.bind c (\<lambda>a. key_value_at a row)) (map (column_by_name b) grouping)" by simp
    then show ?thesis by (simp add: key_of_def g(3) comp_def)
  qed
  from b obtain x where x: "column_by_name b name = Some x" "index_path x"
    by (auto simp: addressed_def split: option.splits)
  from x(2) obtain os t vs n m where "x = AList False os (AInt t vs n) m"
    and small: "list_all (\<lambda>v. 0 \<le> v \<and> v < 2 ^ 32) vs"
    by (cases x rule: index_path.cases) auto
  with x(1) have a: "column_by_name b name = Some (AList False os (AInt t vs n) m)" by simp
  let ?a = "AList False os (AInt t vs n) m"
  have "batch_ok b" using b by (simp add: addressed_def)
  from batch_column [OF this a] have wf: "wf_array ?a" "len ?a = b_num_rows b" by blast+
  have arr: "address_array b name = Inr ?a"
    using column_index [OF a] by (auto simp: address_array_def)
  have path: "extract_address ?a row = map unat (map (\<lambda>k. stored_key (vs ! k)) [os ! row..<os ! Suc row])"
    if "row < b_num_rows b" "\<not> is_null ?a row" for row
  proof -
    have "unsigned_bits t (vs ! k) mod 2 ^ 32 = unat (stored_key (vs ! k))" if "k < os ! Suc row" for k
    proof (rule index_element)
      have "k < length vs" using wf_offsets(2) [OF wf(1), of row] \<open>row < b_num_rows b\<close> wf(2) that by simp
      with small wf(1) show "in_range t (vs ! k)" "0 \<le> vs ! k" "vs ! k < 2 ^ 32" by (simp_all add: list_all_length)
    qed
    with that(2) show ?thesis by (simp add: extract_address_def)
  qed
  have "grouped_address b is ?a row = Inr (row_address grouping name b row)" if "row < b_num_rows b" for row
    using path [OF that] key_of_ints [OF g(2), of row "[]"]
    by (cases "key_of b grouping row")
      (simp_all add: grouped_address_def row_address_def path_of_def a key_value_at_def k)
  then have "try_collect (grouped_address b is ?a) rows = Inr (map (row_address grouping name b) rows)"
    if "set rows \<subseteq> {0..<b_num_rows b}" for rows
    using that by (induction rows) simp_all
  then show ?thesis by (simp add: batch_addresses_def g(1) arr)
qed

lemma row_address_iff:
  "row_address grouping name b i = Some (k, q) \<longleftrightarrow>
     (\<exists>g p. key_of b grouping i = Some g \<and> path_of b name i = Some p \<and> k = row_key_bytes g \<and> q = map unat p)"
  by (auto simp: row_address_def split: option.splits)

text \<open>The index holds the addresses of each group.\<close>

definition indexed :: "address_index \<Rightarrow> u8 list \<Rightarrow> nat list \<Rightarrow> bool" where
  "indexed idx g q = (\<exists>addrs. map_of idx g = Some addrs \<and> q \<in> set addrs)"

lemma indexed_rows: "indexed (fold index_row rs idx) g q \<longleftrightarrow> indexed idx g q \<or> Some (g, q) \<in> set rs"
proof (induction rs arbitrary: idx)
  case (Cons r rs)
  have "indexed (index_row r idx) g q \<longleftrightarrow> indexed idx g q \<or> r = Some (g, q)"
    by (cases r; cases "map_of idx (fst (the r))")
      (auto simp: indexed_def index_row_def map_of_omap_update unwrap_or_def split: if_splits)
  with Cons show ?case by auto
qed simp

lemma indexed_batches:
  assumes "list_all (addressed grouping name) bs"
  shows "\<exists>idx'. try_fold (index_batch grouping name) bs idx = Inr idx' \<and>
    (\<forall>g q. indexed idx' g q \<longleftrightarrow>
       indexed idx g q \<or> (\<exists>b \<in> set bs. \<exists>j < b_num_rows b. row_address grouping name b j = Some (g, q)))"
  using assms
proof (induction bs arbitrary: idx)
  case (Cons b bs)
  let ?idx = "fold index_row (map (row_address grouping name b) [0..<b_num_rows b]) idx"
  from Cons.prems have "list_all (addressed grouping name) bs" by simp
  from Cons.IH [OF this, of ?idx] obtain idx' where *: "try_fold (index_batch grouping name) bs ?idx = Inr idx'"
    "\<forall>g q. indexed idx' g q \<longleftrightarrow>
       indexed ?idx g q \<or> (\<exists>b \<in> set bs. \<exists>j < b_num_rows b. row_address grouping name b j = Some (g, q))" by blast
  have "index_batch grouping name b idx = Inr ?idx"
    using Cons.prems batch_addresses_value [of grouping name b] by (simp add: index_batch_def)
  moreover have "indexed ?idx g q \<longleftrightarrow> indexed idx g q \<or> (\<exists>j < b_num_rows b. row_address grouping name b j = Some (g, q))" for g q
    by (auto simp: indexed_rows image_iff eq_commute [of "Some _"])
  ultimately show ?case by (intro exI [of _ idx']) (simp add: * disj_assoc)
qed simp

lemma prefix_take: "prefix xs ys \<longleftrightarrow> length xs \<le> length ys \<and> take (length xs) ys = xs"
  by (metis append_eq_conv_conj append_take_drop_id prefix_def prefix_length_le)

lemma is_child_path: "is_child inclusive (map unat q) (map unat p) \<longleftrightarrow> child_path inclusive q p" for p q :: "u64 list"
proof -
  have u: "inj (unat :: u64 \<Rightarrow> nat)" by (rule injI) (simp add: word_unat_eq_iff)
  have t: "take n (map unat p) = map unat q \<longleftrightarrow> take n p = q" for n
    by (simp add: take_map inj_map_eq_map [OF u])
  show ?thesis
    by (auto simp: is_child_def child_path_def prefix_take t order_le_less)
qed

lemma is_parent_path: "is_parent inclusive (map unat q) (map unat p) \<longleftrightarrow> parent_path inclusive q p" for p q :: "u64 list"
proof -
  have u: "inj (unat :: u64 \<Rightarrow> nat)" by (rule injI) (simp add: word_unat_eq_iff)
  have t: "take n (map unat q) = map unat p \<longleftrightarrow> take n q = p" for n
    by (simp add: take_map inj_map_eq_map [OF u])
  show ?thesis
    by (auto simp: is_parent_def parent_path_def prefix_take t order_le_less)
qed

definition relative_mask ::
    "(u64 list \<Rightarrow> u64 list \<Rightarrow> bool) \<Rightarrow> batch list \<Rightarrow> string \<Rightarrow> string list \<Rightarrow> string \<Rightarrow> batch \<Rightarrow> mask" where
  "relative_mask related sources source_column grouping target_column b =
     map (\<lambda>i. Some (relative_of related sources source_column grouping b target_column i)) [0..<b_num_rows b]"

lemma group_joinable: "addressed grouping name b \<Longrightarrow> joinable (replicate (length grouping) IntKey) grouping b"
proof -
  assume b: "addressed grouping name b"
  have "value_fits v" if "key_of b grouping i = Some vs" "v \<in> set vs" for i vs v
  proof -
    from that(1) have "map (\<lambda>name. Option.bind (column_by_name b name) (\<lambda>a. key_value_at a i)) grouping = map Some vs"
      by (simp add: key_of_def those_Some)
    with that(2) obtain name' where "name' \<in> set grouping" "Option.bind (column_by_name b name') (\<lambda>a. key_value_at a i) = Some v"
      by (metis (no_types, lifting) image_eqI image_iff list.set_map)
    then obtain a where a: "column_by_name b name' = Some a" "key_value_at a i = Some v" by (auto simp: bind_eq_Some_conv)
    have "Option.bind (column_by_name b name') key_kind_of = Some IntKey"
    proof -
      have "Option.bind (column_by_name b name') key_kind_of \<in> set (map Some (replicate (length grouping) IntKey))"
        using b \<open>name' \<in> set grouping\<close> unfolding addressed_def keyed_def by (metis image_eqI list.set_map)
      then show ?thesis by simp
    qed
    with a show ?thesis by (cases a rule: key_kind_of.cases) (auto simp: key_value_at_def split: if_splits)
  qed
  with b show ?thesis by (auto simp: joinable_def addressed_def list_all_iff)
qed

lemma probe_addresses_value:
  assumes r: "\<And>q p. related' (map unat q) (map unat p) = related q p"
    and idx: "\<forall>g q. indexed idx g q \<longleftrightarrow>
      (\<exists>s \<in> set sources. \<exists>j < b_num_rows s. row_address grouping source_column s j = Some (g, q))"
    and sources: "list_all (addressed grouping source_column) sources" and b: "addressed grouping target_column b"
  shows "probe_addresses related' idx grouping target_column b =
    Inr (relative_mask related sources source_column grouping target_column b)"
proof -
  have "(case row_address grouping target_column b i of
      None \<Rightarrow> False
    | Some (g, target) \<Rightarrow> (case map_of idx g of None \<Rightarrow> False | Some addrs \<Rightarrow> list_ex (\<lambda>s. related' s target) addrs)) =
      relative_of related sources source_column grouping b target_column i" if i: "i < b_num_rows b" for i
  proof (cases "key_of b grouping i")
    case None
    then show ?thesis by (simp add: row_address_def relative_of_def)
  next
    case (Some g)
    show ?thesis
    proof (cases "path_of b target_column i")
      case None
      with Some show ?thesis by (simp add: row_address_def relative_of_def)
    next
      case p: (Some p)
      have same: "row_key_bytes g = row_key_bytes g' \<longleftrightarrow> g = g'"
        if "s \<in> set sources" "j < b_num_rows s" "key_of s grouping j = Some g'" for s j g'
        using joined_keys [OF group_joinable [OF b] group_joinable i that(2) Some that(3)] sources that(1)
        by (auto simp: list_all_iff)
      have "(case map_of idx (row_key_bytes g) of None \<Rightarrow> False | Some addrs \<Rightarrow> list_ex (\<lambda>s. related' s (map unat p)) addrs) =
          (\<exists>q. indexed idx (row_key_bytes g) q \<and> related' q (map unat p))"
        by (auto simp: indexed_def list_ex_iff split: option.split)
      also have "\<dots> = (\<exists>s \<in> set sources. \<exists>j < b_num_rows s. \<exists>q. key_of s grouping j = Some g \<and>
          path_of s source_column j = Some q \<and> related q p)"
      proof
        assume "\<exists>q. indexed idx (row_key_bytes g) q \<and> related' q (map unat p)"
        then obtain q s j where s: "s \<in> set sources" "j < b_num_rows s" "related' q (map unat p)"
          and "row_address grouping source_column s j = Some (row_key_bytes g, q)"
          using idx by blast
        then obtain g' p' where "key_of s grouping j = Some g'" "path_of s source_column j = Some p'"
          "row_key_bytes g = row_key_bytes g'" "q = map unat p'" by (auto simp: row_address_iff)
        moreover from this s have "g = g'" using same by blast
        ultimately show "\<exists>s \<in> set sources. \<exists>j < b_num_rows s. \<exists>q. key_of s grouping j = Some g \<and>
            path_of s source_column j = Some q \<and> related q p"
          using s r by auto
      next
        assume "\<exists>s \<in> set sources. \<exists>j < b_num_rows s. \<exists>q. key_of s grouping j = Some g \<and>
            path_of s source_column j = Some q \<and> related q p"
        then obtain s j q where "s \<in> set sources" "j < b_num_rows s" "related q p"
          "row_address grouping source_column s j = Some (row_key_bytes g, map unat q)"
          by (auto simp: row_address_iff)
        then have "indexed idx (row_key_bytes g) (map unat q) \<and> related' (map unat q) (map unat p)"
          using idx r by blast
        then show "\<exists>q. indexed idx (row_key_bytes g) q \<and> related' q (map unat p)" by blast
      qed
      also have "\<dots> = relative_of related sources source_column grouping b target_column i"
      proof -
        have "(case x of None \<Rightarrow> False | Some q \<Rightarrow> related q p) \<longleftrightarrow> (\<exists>q. x = Some q \<and> related q p)" for x
          by (cases x) simp_all
        then show ?thesis by (simp add: relative_of_def Some p list_ex_iff Bex_def conj_assoc)
      qed
      finally show ?thesis by (simp add: row_address_def Some p)
    qed
  qed
  then show ?thesis
    using batch_addresses_value [OF b] by (simp add: probe_addresses_def relative_mask_def)
qed

lemma relatives_masks_value:
  assumes r: "\<And>q p. related' (map unat q) (map unat p) = related q p"
    and sources: "list_all (addressed grouping source_column) sources"
    and targets: "list_all (addressed grouping target_column) targets"
  shows "relatives_masks related' sources targets grouping source_column target_column =
    Inr (map (relative_mask related sources source_column grouping target_column) targets)"
proof (cases "sources = [] \<or> targets = []")
  case True
  have "relative_mask related [] source_column grouping target_column b = all_mask (b_num_rows b) False" for b
    by (rule nth_equalityI) (simp_all add: relative_mask_def relative_of_def split: option.split)
  with True show ?thesis by (auto simp: relatives_masks_def no_row_masks_def)
next
  case False
  from indexed_batches [OF sources, of "[]"] obtain idx where
    idx: "try_fold (index_batch grouping source_column) sources [] = Inr idx"
      "\<forall>g q. indexed idx g q \<longleftrightarrow>
        (\<exists>s \<in> set sources. \<exists>j < b_num_rows s. row_address grouping source_column s j = Some (g, q))"
    by (auto simp: indexed_def)
  have "probe_addresses related' idx grouping target_column b =
      Inr (relative_mask related sources source_column grouping target_column b)" if "b \<in> set targets" for b
    by (rule probe_addresses_value [where related = related])
      (use r idx(2) sources targets that in \<open>auto simp: list_all_iff\<close>)
  then have "try_collect (probe_addresses related' idx grouping target_column) ts =
      Inr (map (relative_mask related sources source_column grouping target_column) ts)" if "set ts \<subseteq> set targets" for ts
    using that by (induction ts) simp_all
  from this [of targets] have "try_collect (probe_addresses related' idx grouping target_column) targets =
      Inr (map (relative_mask related sources source_column grouping target_column) targets)" by simp
  with False idx(1) show ?thesis by (simp add: relatives_masks_def)
qed

lemma children_masks_value:
  assumes "list_all (addressed grouping source_column) sources" and "list_all (addressed grouping target_column) targets"
  shows "children_masks sources targets grouping source_column target_column inclusive =
    Inr (map (relative_mask (child_path inclusive) sources source_column grouping target_column) targets)"
  unfolding children_masks_def by (rule relatives_masks_value) (simp_all add: is_child_path assms)

lemma parents_masks_value:
  assumes "list_all (addressed grouping source_column) sources" and "list_all (addressed grouping target_column) targets"
  shows "parents_masks sources targets grouping source_column target_column inclusive =
    Inr (map (relative_mask (parent_path inclusive) sources source_column grouping target_column) targets)"
  unfolding parents_masks_def by (rule relatives_masks_value) (simp_all add: is_parent_path assms)


section \<open>Properties\<close>

text \<open>
  C24: joining batches by keys read from columns of the same kinds, each side at its own widths, succeeds and
  returns exactly the probed rows whose key is complete and equals, component by component, the key of
  some built row, in order; a null in a key never matches, not even another null.
\<close>

theorem semi_join_selects:
  assumes "batch_kernels_ok B"
    and "list_all (joinable kinds build_key) build" and "list_all (joinable kinds probe_key) probe"
  shows "\<exists>out. semi_join B build build_key probe probe_key = Inr out \<and>
    concat (map batch_rows out) =
      concat (map (\<lambda>b. map (row_at b) (filter (has_partner build build_key b probe_key) [0..<b_num_rows b])) probe)"
proof -
  have "list_all2 (\<lambda>b m. length m = b_num_rows b) probe (map (partner_mask build build_key probe_key) probe)"
    by (simp add: list_all2_map2 partner_mask_def list.rel_refl)
  from keep_matching_rows [OF assms(1) this] semi_join_masks_value [OF assms(2, 3)] show ?thesis
    by (simp add: semi_join_def zip_map2 zip_same_conv_map comp_def partner_mask_def batch_rows_def select_partners)
qed

text \<open>
  C23: following a hierarchy succeeds and returns exactly the target rows whose group key equals a source
  row's and whose address extends that row's (children) or is extended by it (parents), an equal address
  counting only when the relation is inclusive; a null address relates to nothing, unlike the empty one.
\<close>

theorem hierarchy_selects:
  assumes "batch_kernels_ok B"
    and "list_all (addressed grouping source_column) sources" and "list_all (addressed grouping target_column) targets"
  shows "(\<exists>out. find_children B sources targets grouping source_column target_column inclusive = Inr out \<and>
      concat (map batch_rows out) = concat (map (\<lambda>b. map (row_at b)
        (filter (relative_of (child_path inclusive) sources source_column grouping b target_column) [0..<b_num_rows b])) targets)) \<and>
    (\<exists>out. find_parents B sources targets grouping source_column target_column inclusive = Inr out \<and>
      concat (map batch_rows out) = concat (map (\<lambda>b. map (row_at b)
        (filter (relative_of (parent_path inclusive) sources source_column grouping b target_column) [0..<b_num_rows b])) targets))"
proof -
  have "list_all2 (\<lambda>b m. length m = b_num_rows b) targets (map (relative_mask r sources source_column grouping target_column) targets)" for r
    by (simp add: list_all2_map2 relative_mask_def list.rel_refl)
  note keep = keep_matching_rows [OF assms(1) this]
  show ?thesis
    using keep [of "child_path inclusive"] keep [of "parent_path inclusive"]
      children_masks_value [OF assms(2, 3), of inclusive] parents_masks_value [OF assms(2, 3), of inclusive]
    by (simp add: find_children_def find_parents_def zip_map2 zip_same_conv_map comp_def relative_mask_def
        batch_rows_def select_partners)
qed

text \<open>Two batches of calls, whose writers chose different widths.\<close>

definition wide_calls :: batch where
  "wide_calls =
     \<lparr>b_columns =
        [(''block_number'', AInt UInt64 [7, 7, 9] None),
         (''transaction_index'', AInt UInt32 [0, 1, 0] (Some [True, True, False])),
         (''address'', AList False [0, 1, 1, 3] (AInt UInt32 [2, 2, 5] None) None)],
      b_num_rows = 3\<rparr>"

definition narrow_calls :: batch where
  "narrow_calls =
     \<lparr>b_columns =
        [(''block_number'', AInt Int32 [7, 9] None),
         (''transaction_index'', AInt UInt16 [0, 0] None),
         (''address'', AList False [0, 2, 3] (AInt Int16 [2, 5, 2] None) None)],
      b_num_rows = 2\<rparr>"

lemma calls_addressed:
  "addressed [''block_number'', ''transaction_index''] ''address'' wide_calls"
  "addressed [''block_number'', ''transaction_index''] ''address'' narrow_calls"
  by (simp_all add: addressed_def batch_ok_def keyed_def column_by_name_def wide_calls_def narrow_calls_def
      in_range_def nulls_fit_def)

lemma first_of_two: "p 0 \<Longrightarrow> \<not> p (Suc 0) \<Longrightarrow> filter p [0..<2] = [0]"
  by (simp add: upt_rec)

lemma none_of_two: "\<not> p 0 \<Longrightarrow> \<not> p (Suc 0) \<Longrightarrow> filter p [0..<2] = []"
  by (simp add: upt_rec)

lemma narrow_calls_rows: "b_num_rows narrow_calls = 2"
  by (simp add: narrow_calls_def)

theorem semi_join_selects_witness:
  "\<exists>out. semi_join plain_batch_kernels [wide_calls] [''block_number'', ''transaction_index''] [narrow_calls]
      [''block_number'', ''transaction_index''] = Inr out \<and>
    concat (map batch_rows out) = [row_at narrow_calls 0]"
proof -
  have "filter (has_partner [wide_calls] [''block_number'', ''transaction_index''] narrow_calls
      [''block_number'', ''transaction_index'']) [0..<2] = [0]"
    by (rule first_of_two)
      (simp_all add: has_partner_def key_of_def column_by_name_def key_value_at_def is_null_def valid_at_def
        wide_calls_def narrow_calls_def stored_key_def upt_rec)
  then show ?thesis
    using semi_join_selects [OF batch_kernels_ok_plain, of "replicate 2 IntKey" "[''block_number'', ''transaction_index'']"
        "[wide_calls]" "[''block_number'', ''transaction_index'']" "[narrow_calls]"]
      calls_addressed [THEN group_joinable]
    by (simp add: narrow_calls_rows numeral_2_eq_2)
qed

theorem hierarchy_selects_witness:
  "(\<exists>out. find_children plain_batch_kernels [wide_calls] [narrow_calls] [''block_number'', ''transaction_index'']
      ''address'' ''address'' False = Inr out \<and> concat (map batch_rows out) = [row_at narrow_calls 0]) \<and>
   (\<exists>out. find_parents plain_batch_kernels [wide_calls] [narrow_calls] [''block_number'', ''transaction_index'']
      ''address'' ''address'' False = Inr out \<and> concat (map batch_rows out) = [])"
proof -
  note unfold = relative_of_def key_of_def path_of_def column_by_name_def key_value_at_def is_null_def valid_at_def
    wide_calls_def narrow_calls_def stored_key_def child_path_def parent_path_def upt_rec
  have "filter (relative_of (child_path False) [wide_calls] ''address'' [''block_number'', ''transaction_index'']
      narrow_calls ''address'') [0..<2] = [0]"
    by (rule first_of_two) (simp_all add: unfold)
  moreover have "filter (relative_of (parent_path False) [wide_calls] ''address'' [''block_number'', ''transaction_index'']
      narrow_calls ''address'') [0..<2] = []"
    by (rule none_of_two) (simp_all add: unfold)
  ultimately show ?thesis
    using hierarchy_selects [OF batch_kernels_ok_plain, of "[''block_number'', ''transaction_index'']" "''address''"
        "[wide_calls]" "''address''" "[narrow_calls]" False] calls_addressed
    by (simp add: narrow_calls_rows)
qed

end
