(* ===== verification/Pairs.thy ===== *)
theory Pairs
  imports Prelude "HOL-Library.Product_Lexorder"
begin

text \<open>
  Sets of two-integer join keys (\<^verbatim>\<open>src/scan/pairs.rs\<close>), held as a bitmap per first component when that is no
  larger than a hash set, and as packed 128-bit keys otherwise. Both are shown to be the set of the pairs
  they were built from. A \<open>u64\<close> is a natural number below \<open>2 ^ 64\<close>, with the wrap-around of a subtraction
  and the checks of an addition written out.
\<close>

unbundle bit_operations_syntax

definition pack16 :: "nat \<Rightarrow> nat \<Rightarrow> nat" where
  "pack16 a b = push_bit 64 a OR b"

record slot =
  sl_start :: nat
  sl_low :: nat
  sl_width :: nat

definition default_slot :: slot where
  "default_slot = \<lparr>sl_start = 0, sl_low = 0, sl_width = 0\<rparr>"

record dense_pairs =
  dn_first :: nat
  dn_slots :: "slot list"
  dn_bits :: "u64 list"
  dn_len :: nat

datatype pair_set = Dense dense_pairs | Hashed "nat list"

definition max_slots :: nat where
  "max_slots = 2 ^ 16"

definition key_bytes :: nat where
  "key_bytes = 16"

text \<open>The bytes of a slot: three \<open>u64\<close>.\<close>

definition slot_size :: nat where
  "slot_size = 24"

definition checked_add :: "nat \<Rightarrow> nat \<Rightarrow> nat option" where
  "checked_add a b = (if a + b < 2 ^ 64 then Some (a + b) else None)"

definition saturating_mul :: "nat \<Rightarrow> nat \<Rightarrow> nat" where
  "saturating_mul a b = min (a * b) u64_max"

definition wrapping_sub :: "nat \<Rightarrow> nat \<Rightarrow> nat" where
  "wrapping_sub a b = (a + 2 ^ 64 - b) mod 2 ^ 64"

text \<open>\<open>chunk_by\<close> on the first component: the runs of neighbours that share it.\<close>

fun chunks :: "(nat \<times> nat) list \<Rightarrow> (nat \<times> nat) list list" where
  "chunks [] = []"
| "chunks (p # ps) =
     (case chunks ps of
        (q # g) # gs \<Rightarrow> if fst p = fst q then (p # q # g) # gs else [p] # (q # g) # gs
      | gs \<Rightarrow> [p] # gs)"

definition run_width :: "(nat \<times> nat) list \<Rightarrow> nat option" where
  "run_width g = checked_add (snd (last g) - snd (hd g)) 1"

fun bits_needed :: "(nat \<times> nat) list list \<Rightarrow> nat \<Rightarrow> nat option" where
  "bits_needed [] acc = Some acc"
| "bits_needed (g # gs) acc =
     Option.bind (run_width g) (\<lambda>w. Option.bind (checked_add acc w) (\<lambda>acc'. bits_needed gs acc'))"

definition place_run :: "nat \<Rightarrow> (nat \<times> nat) list \<Rightarrow> slot list \<times> nat \<Rightarrow> slot list \<times> nat" where
  "place_run first g = (\<lambda>(slots, start).
     let w = the (run_width g) in
     (slots[fst (hd g) - first := \<lparr>sl_start = start, sl_low = snd (hd g), sl_width = w\<rparr>], start + w))"

definition set_pair_bit :: "nat \<Rightarrow> slot list \<Rightarrow> nat \<times> nat \<Rightarrow> u64 list \<Rightarrow> u64 list" where
  "set_pair_bit first slots = (\<lambda>(a, b) bits.
     let s = slots ! (a - first); i = sl_start s + (b - sl_low s) in
     bits[i div 64 := bits ! (i div 64) OR push_bit (i mod 64) 1])"

definition ceil_div :: "nat \<Rightarrow> nat \<Rightarrow> nat" where
  "ceil_div a b = (a + b - 1) div b"

definition dense_build :: "(nat \<times> nat) list \<Rightarrow> dense_pairs option" where
  "dense_build pairs =
     (if pairs = [] then Some \<lparr>dn_first = 0, dn_slots = [], dn_bits = [], dn_len = 0\<rparr>
      else
        (let first = fst (hd pairs); final = fst (last pairs) in
         if final - first \<ge> max_slots then None
         else
           (let span = final - first + 1 in
            Option.bind (bits_needed (chunks pairs) 0) (\<lambda>needed.
            let slot_bytes = saturating_mul span slot_size;
                dense_bytes = saturating_add slot_bytes (saturating_mul (ceil_div needed 64) 8)
            in if dense_bytes > saturating_mul (length pairs) key_bytes then None
               else
                 (let (slots, _) = fold (place_run first) (chunks pairs) (replicate span default_slot, 0);
                      bits = fold (set_pair_bit first slots) pairs (replicate (ceil_div needed 64) 0)
                  in Some \<lparr>dn_first = first, dn_slots = slots, dn_bits = bits, dn_len = length pairs\<rparr>)))))"

text \<open>\<open>None\<close> is the panic of an index past the bitmap.\<close>

definition dense_contains :: "dense_pairs \<Rightarrow> nat \<Rightarrow> nat \<Rightarrow> bool option" where
  "dense_contains d a b =
     (case get (dn_slots d) (wrapping_sub a (dn_first d)) of
        None \<Rightarrow> Some False
      | Some s \<Rightarrow>
          let offset = wrapping_sub b (sl_low s) in
          if offset \<ge> sl_width s then Some False
          else
            let i = sl_start s + offset in
            map_option (\<lambda>w. drop_bit (i mod 64) w AND 1 = 1) (get (dn_bits d) (i div 64)))"

definition pair_set_new :: "(nat \<times> nat) list \<Rightarrow> pair_set" where
  "pair_set_new pairs =
     (let ps = remdups_adj (sort pairs) in
      case dense_build ps of Some d \<Rightarrow> Dense d | None \<Rightarrow> Hashed (map (\<lambda>(a, b). pack16 a b) ps))"

definition pair_set_is_empty :: "pair_set \<Rightarrow> bool" where
  "pair_set_is_empty s = (case s of Dense d \<Rightarrow> dn_len d = 0 | Hashed ks \<Rightarrow> ks = [])"

definition pair_set_contains :: "pair_set \<Rightarrow> nat \<Rightarrow> nat \<Rightarrow> bool option" where
  "pair_set_contains s a b =
     (case s of Dense d \<Rightarrow> dense_contains d a b | Hashed ks \<Rightarrow> Some (pack16 a b \<in> set ks))"


section \<open>What a set of keys promises\<close>

text \<open>
  Whatever holds the keys answers for exactly the keys it was built from, without panicking, and is empty
  only if there are none.
\<close>

locale key_membership =
  fixes build :: "'k list \<Rightarrow> 's" and member :: "'s \<Rightarrow> 'k \<Rightarrow> bool option" and vacant :: "'s \<Rightarrow> bool"
    and valid :: "'k \<Rightarrow> bool"
  assumes member_build: "list_all valid ks \<Longrightarrow> valid k \<Longrightarrow> member (build ks) k = Some (k \<in> set ks)"
    and vacant_build: "list_all valid ks \<Longrightarrow> vacant (build ks) \<longleftrightarrow> ks = []"
begin

lemma member_cong:
  "set ks = set ks' \<Longrightarrow> list_all valid ks \<Longrightarrow> valid k \<Longrightarrow> member (build ks) k = member (build ks') k"
  using member_build [of ks k] member_build [of ks' k] by (simp add: list_all_iff)

lemma vacant_member: "list_all valid ks \<Longrightarrow> vacant (build ks) \<Longrightarrow> valid k \<Longrightarrow> member (build ks) k = Some False"
  using member_build [of ks k] vacant_build [of ks] by simp

end


section \<open>Facts\<close>

lemma pack16_inject:
  assumes "b < 2 ^ 64" and "b' < 2 ^ 64"
  shows "pack16 a b = pack16 a' b' \<longleftrightarrow> a = a' \<and> b = b'"
proof
  have t: "take_bit 64 b = b" "take_bit 64 b' = b'" using assms by (simp_all add: take_bit_nat_eq_self)
  have d: "drop_bit 64 b = 0" "drop_bit 64 b' = 0" using assms by (simp_all add: drop_bit_eq_div)
  assume e: "pack16 a b = pack16 a' b'"
  then have "take_bit 64 (pack16 a b) = take_bit 64 (pack16 a' b')" "drop_bit 64 (pack16 a b) = drop_bit 64 (pack16 a' b')"
    by simp_all
  then show "a = a' \<and> b = b'"
    by (simp add: pack16_def take_bit_or drop_bit_or t d take_bit_push_bit drop_bit_push_bit)
qed simp

lemma wrapping_sub_ge: "b \<le> a \<Longrightarrow> a < 2 ^ 64 \<Longrightarrow> wrapping_sub a b = a - b"
  by (simp add: wrapping_sub_def mod_if)

lemma wrapping_sub_less: "a < b \<Longrightarrow> b < 2 ^ 64 \<Longrightarrow> wrapping_sub a b = a + 2 ^ 64 - b"
  by (simp add: wrapping_sub_def)

text \<open>The chunks of sorted pairs: their concatenation, one per first component.\<close>

lemma concat_chunks [simp]: "concat (chunks ps) = ps"
  by (induction ps rule: chunks.induct) (auto split: list.splits)

lemma chunks_nonempty: "g \<in> set (chunks ps) \<Longrightarrow> g \<noteq> []"
  by (induction ps rule: chunks.induct) (auto split: list.splits if_splits)

lemma chunks_fst: "g \<in> set (chunks ps) \<Longrightarrow> p \<in> set g \<Longrightarrow> fst p = fst (hd g)"
  by (induction ps arbitrary: g p rule: chunks.induct) (fastforce split: list.splits if_splits)+

lemma chunks_hd: "chunks (p # ps) = g # gs \<Longrightarrow> hd g = p"
  by (auto split: list.splits if_splits)

lemma chunks_hd_in: "g \<in> set (chunks ps) \<Longrightarrow> hd g \<in> set ps"
  using chunks_nonempty [of g ps] concat_chunks [of ps] by (metis UN_I hd_in_set set_concat)

lemma chunks_sorted:
  assumes "sorted_wrt (<) ps"
  shows "sorted_wrt (\<lambda>g h. fst (hd g) < fst (hd h)) (chunks ps)"
  using assms
proof (induction ps)
  case (Cons p ps)
  then have IH: "sorted_wrt (\<lambda>g h. fst (hd g) < fst (hd h)) (chunks ps)" by simp
  show ?case
  proof (cases ps)
    case (Cons q qs)
    then obtain g gs where g: "chunks ps = g # gs" "hd g = q" "g \<noteq> []"
      using chunks_hd chunks_nonempty by (cases "chunks ps") (force split: list.splits if_splits)+
    have le: "fst p \<le> fst q" "fst p \<noteq> fst q \<Longrightarrow> fst p < fst q"
      using Cons.prems Cons by (auto simp: less_prod_def' order_le_less)
    from g IH have later: "fst q < fst (hd h)" if "h \<in> set gs" for h using that by auto
    obtain q' g' where "g = q' # g'" using g(3) by (cases g) auto
    with g IH le later show ?thesis by (auto intro: le_less_trans)
  qed simp
qed simp

lemma run_sorted: "sorted_wrt (<) ps \<Longrightarrow> g \<in> set (chunks ps) \<Longrightarrow> sorted_wrt (<) g"
  by (metis concat_chunks sorted_wrt_append split_list concat.simps(2) concat_append)

lemma sorted_hd_last:
  fixes xs :: "'a :: linorder list"
  assumes "sorted_wrt (<) xs" and "x \<in> set xs"
  shows "hd xs \<le> x \<and> x \<le> last xs"
  using assms by (induction xs) (auto simp: order_le_less intro: order.strict_trans)

lemma run_bounds:
  assumes "sorted_wrt (<) ps" and g: "g \<in> set (chunks ps)" and p: "p \<in> set g"
  shows "snd (hd g) \<le> snd p \<and> snd p \<le> snd (last g)"
proof -
  have f: "fst q = fst (hd g)" if "q \<in> set g" for q using chunks_fst [OF g that] .
  have ne: "g \<noteq> []" using p by auto
  from sorted_hd_last [OF run_sorted [OF assms(1) g] p] f [OF p] f [of "last g"] ne
  show ?thesis by (auto simp: less_eq_prod_def)
qed

lemma sorted_pairs_range:
  "sorted_wrt (<) (ps :: (nat \<times> nat) list) \<Longrightarrow> p \<in> set ps \<Longrightarrow> fst (hd ps) \<le> fst p \<and> fst p \<le> fst (last ps)"
  using sorted_hd_last [of ps p] by (auto simp: less_eq_prod_def)

lemma chunks_heads_distinct:
  assumes "sorted_wrt (<) ps"
  shows "distinct (map (\<lambda>g. fst (hd g)) (chunks ps))"
proof -
  have "sorted_wrt (<) (map (\<lambda>g. fst (hd g)) (chunks ps))" using chunks_sorted [OF assms] by (simp add: sorted_wrt_map)
  then show ?thesis by (simp add: strict_sorted_iff)
qed

text \<open>Where each run is placed, read off the runs.\<close>

definition width_of_run :: "(nat \<times> nat) list \<Rightarrow> nat" where
  "width_of_run g = the (run_width g)"

fun slot_for :: "(nat \<times> nat) list list \<Rightarrow> nat \<Rightarrow> nat \<Rightarrow> slot option" where
  "slot_for [] start a = None"
| "slot_for (g # gs) start a =
     (if fst (hd g) = a then Some \<lparr>sl_start = start, sl_low = snd (hd g), sl_width = width_of_run g\<rparr>
      else slot_for gs (start + width_of_run g) a)"

lemma slot_for_Some:
  "slot_for gs start a = Some s \<Longrightarrow>
     start \<le> sl_start s \<and> sl_start s + sl_width s \<le> start + sum_list (map width_of_run gs) \<and>
     (\<exists>g \<in> set gs. fst (hd g) = a \<and> sl_low s = snd (hd g) \<and> sl_width s = width_of_run g)"
proof (induction gs arbitrary: start)
  case (Cons g gs)
  then show ?case
    using Cons.IH [of "start + width_of_run g"] by (force split: if_splits)
qed simp

lemma slot_for_None: "slot_for gs start a = None \<longleftrightarrow> a \<notin> (\<lambda>g. fst (hd g)) ` set gs"
  by (induction gs arbitrary: start) auto

lemma slot_for_disjoint:
  "slot_for gs start a = Some s \<Longrightarrow> slot_for gs start a' = Some s' \<Longrightarrow> a \<noteq> a' \<Longrightarrow>
     sl_start s + sl_width s \<le> sl_start s' \<or> sl_start s' + sl_width s' \<le> sl_start s"
proof (induction gs arbitrary: start)
  case (Cons g gs)
  then show ?case
    using slot_for_Some [of gs "start + width_of_run g" a s] slot_for_Some [of gs "start + width_of_run g" a' s']
    by (auto split: if_splits)
qed simp

lemma place_runs:
  assumes "distinct (map (\<lambda>g. fst (hd g)) gs)" and "\<And>g. g \<in> set gs \<Longrightarrow> first \<le> fst (hd g) \<and> fst (hd g) - first < length slots"
    and "fold (place_run first) gs (slots, start) = (slots', start')"
  shows "length slots' = length slots \<and>
    (\<forall>i < length slots. slots' ! i = (case slot_for gs start (first + i) of Some s \<Rightarrow> s | None \<Rightarrow> slots ! i))"
  using assms
proof (induction gs arbitrary: slots start)
  case (Cons g gs)
  let ?s = "\<lparr>sl_start = start, sl_low = snd (hd g), sl_width = width_of_run g\<rparr>"
  let ?slots = "slots[fst (hd g) - first := ?s]"
  from Cons.prems(3) have "fold (place_run first) gs (?slots, start + width_of_run g) = (slots', start')"
    by (simp add: place_run_def [of _ g] width_of_run_def Let_def)
  from Cons.IH [OF _ _ this] Cons.prems(1,2) have IH: "length slots' = length slots"
    "\<And>i. i < length slots \<Longrightarrow> slots' ! i = (case slot_for gs (start + width_of_run g) (first + i) of Some s \<Rightarrow> s | None \<Rightarrow> ?slots ! i)"
    by auto
  have "slots' ! i = (case slot_for (g # gs) start (first + i) of Some s \<Rightarrow> s | None \<Rightarrow> slots ! i)"
    if i: "i < length slots" for i
  proof (cases "first + i = fst (hd g)")
    case True
    then have "slot_for gs (start + width_of_run g) (first + i) = None"
      using Cons.prems(1) by (auto simp: slot_for_None)
    with True IH(2) [OF i] i show ?thesis by (simp flip: True)
  next
    case False
    with Cons.prems(2) [of g] have "fst (hd g) - first \<noteq> i" by auto
    with False IH(2) [OF i] show ?thesis by (auto split: option.split)
  qed
  with IH(1) show ?case by simp
qed simp

text \<open>The bitmap.\<close>

definition bit_at :: "u64 list \<Rightarrow> nat \<Rightarrow> bool" where
  "bit_at bits i = bit (bits ! (i div 64)) (i mod 64)"

lemma mod_64_less: "i mod 64 < LENGTH(64)"
  by simp

lemma bit_test: "(drop_bit n (w :: u64) AND 1 = 1) = bit w n"
  by (simp add: and_one_eq bit_iff_odd_drop_bit odd_iff_mod_2_eq_one)

lemma bit_at_set:
  assumes "i < 64 * length bits" and "j < 64 * length bits"
  shows "bit_at (bits[i div 64 := bits ! (i div 64) OR push_bit (i mod 64) 1]) j \<longleftrightarrow> j = i \<or> bit_at bits j"
proof (cases "j div 64 = i div 64")
  case True
  have "i div 64 < length bits" using assms(1) by (simp add: div_less_iff_less_mult mult.commute)
  moreover have "bit (push_bit (i mod 64) (1 :: u64)) (j mod 64) \<longleftrightarrow> j mod 64 = i mod 64"
    by (auto simp: bit_exp_iff)
  moreover have "j = i \<longleftrightarrow> j mod 64 = i mod 64" using True by (metis div_mult_mod_eq)
  ultimately show ?thesis using True by (auto simp: bit_at_def bit_or_iff)
qed (auto simp: bit_at_def)

definition pair_position :: "(nat \<Rightarrow> slot) \<Rightarrow> nat \<times> nat \<Rightarrow> nat" where
  "pair_position slot_of = (\<lambda>(a, b). sl_start (slot_of a) + (b - sl_low (slot_of a)))"

lemma set_pair_bits:
  assumes "\<And>p. p \<in> set pairs \<Longrightarrow> pair_position (\<lambda>a. slots ! (a - first)) p < 64 * length bits"
  shows "length (fold (set_pair_bit first slots) pairs bits) = length bits \<and>
    (\<forall>j < 64 * length bits. bit_at (fold (set_pair_bit first slots) pairs bits) j \<longleftrightarrow>
      bit_at bits j \<or> j \<in> pair_position (\<lambda>a. slots ! (a - first)) ` set pairs)"
  using assms
proof (induction pairs arbitrary: bits)
  case (Cons p pairs)
  obtain a b where p: "p = (a, b)" by (cases p)
  let ?i = "pair_position (\<lambda>a. slots ! (a - first)) p"
  let ?bits = "set_pair_bit first slots p bits"
  have bits: "?bits = bits[?i div 64 := bits ! (?i div 64) OR push_bit (?i mod 64) 1]"
    by (simp add: p set_pair_bit_def pair_position_def Let_def)
  then have l: "length ?bits = length bits" by simp
  have i: "?i < 64 * length bits" using Cons.prems by simp
  from Cons.IH [of ?bits] Cons.prems l have
    "length (fold (set_pair_bit first slots) pairs ?bits) = length bits"
    "\<forall>j < 64 * length bits. bit_at (fold (set_pair_bit first slots) pairs ?bits) j \<longleftrightarrow>
      bit_at ?bits j \<or> j \<in> pair_position (\<lambda>a. slots ! (a - first)) ` set pairs" by auto
  with bit_at_set [OF i] show ?case by (auto simp: bits)
qed simp

lemma bits_needed_Some:
  "bits_needed gs acc = Some n \<Longrightarrow>
     n = acc + sum_list (map width_of_run gs) \<and>
     (\<forall>g \<in> set gs. width_of_run g = snd (last g) - snd (hd g) + 1)"
proof (induction gs arbitrary: acc)
  case (Cons g gs)
  from Cons.prems obtain w where w: "run_width g = Some w" "bits_needed gs (acc + w) = Some n"
    by (auto simp: bind_eq_Some_conv checked_add_def split: if_splits)
  then have "w = snd (last g) - snd (hd g) + 1" by (auto simp: run_width_def checked_add_def split: if_splits)
  with Cons.IH [OF w(2)] w(1) show ?case by (simp add: width_of_run_def)
qed simp

text \<open>A bitmap built from sorted pairs holds exactly them.\<close>

lemma dense_contains_iff:
  assumes ps: "sorted_wrt (<) pairs" and small: "list_all (\<lambda>(a, b). a < 2 ^ 64 \<and> b < 2 ^ 64) pairs"
    and d: "dense_build pairs = Some d" and a: "a < 2 ^ 64" and b: "b < 2 ^ 64"
  shows "dense_contains d a b = Some ((a, b) \<in> set pairs)"
proof (cases "pairs = []")
  case True
  with d show ?thesis by (auto simp: dense_build_def dense_contains_def get_def)
next
  case False
  define first final where f: "first = fst (hd pairs)" "final = fst (last pairs)"
  from d False obtain n slots e where n: "bits_needed (chunks pairs) 0 = Some n" and span: "final - first < max_slots"
    and pl: "fold (place_run first) (chunks pairs) (replicate (final - first + 1) default_slot, 0) = (slots, e)"
    and d': "d = \<lparr>dn_first = first, dn_slots = slots,
      dn_bits = fold (set_pair_bit first slots) pairs (replicate (ceil_div n 64) 0), dn_len = length pairs\<rparr>"
    by (auto simp: dense_build_def f Let_def bind_eq_Some_conv split: if_splits prod.splits)
  let ?gs = "chunks pairs" and ?bits = "fold (set_pair_bit first slots) pairs (replicate (ceil_div n 64) 0)"
  note n = bits_needed_Some [OF n]
  have range: "first \<le> fst p \<and> fst p \<le> final" if "p \<in> set pairs" for p
    using sorted_pairs_range [OF ps that] by (simp add: f)
  note heads = chunks_heads_distinct [OF ps]
  have "first \<le> fst (hd g) \<and> fst (hd g) - first < length (replicate (final - first + 1) default_slot)"
    if "g \<in> set ?gs" for g
    using range [OF chunks_hd_in [OF that]] by auto
  note pl' = place_runs [OF heads this pl]
  then have len: "length slots = final - first + 1" by simp
  have slot: "slots ! (x - first) = (case slot_for ?gs 0 x of Some s \<Rightarrow> s | None \<Rightarrow> default_slot)"
    if "first \<le> x" "x \<le> final" for x
  proof -
    have "x - first < final - first + 1" using that by simp
    with pl' that nth_replicate [OF this, of default_slot] show ?thesis
      by (auto simp del: replicate_Suc split: option.split)
  qed
  text \<open>The run of a pair.\<close>
  have run: "\<exists>s. slot_for ?gs 0 x = Some s \<and> sl_low s \<le> y \<and> y - sl_low s < sl_width s \<and>
      sl_start s + sl_width s \<le> n" if xy: "(x, y) \<in> set pairs" for x y
  proof -
    from xy obtain g where g: "g \<in> set ?gs" "(x, y) \<in> set g" by (metis concat_chunks UN_E set_concat)
    from chunks_fst [OF g] have x: "fst (hd g) = x" by simp
    then obtain s where s: "slot_for ?gs 0 x = Some s" using g(1) slot_for_None [of ?gs 0 x] by fastforce
    from slot_for_Some [OF s] obtain g' where g': "g' \<in> set ?gs" "fst (hd g') = x" "sl_low s = snd (hd g')"
      "sl_width s = width_of_run g'" and le: "sl_start s + sl_width s \<le> n" using n by auto
    from heads g(1) g'(1,2) x have "g' = g" by (auto simp: distinct_map inj_on_def)
    with g' n g(1) run_bounds [OF ps g] s le show ?thesis by auto
  qed
  have pos: "pair_position (\<lambda>a. slots ! (a - first)) p < 64 * length (replicate (ceil_div n 64) (0 :: u64))"
    if "p \<in> set pairs" for p
  proof -
    obtain x y where p: "p = (x, y)" by (cases p)
    from run that obtain s where "slot_for ?gs 0 x = Some s" "y - sl_low s < sl_width s" "sl_start s + sl_width s \<le> n"
      unfolding p by blast
    with slot [of x] range [OF that] have "pair_position (\<lambda>a. slots ! (a - first)) p < n"
      by (simp add: p pair_position_def)
    moreover have "n \<le> 64 * ceil_div n 64" by (simp add: ceil_div_def)
    ultimately show ?thesis by simp
  qed
  note bits = set_pair_bits [OF pos]
  have final: "final < 2 ^ 64"
    using small last_in_set [OF False] by (auto simp: f list_all_iff case_prod_beta')
  show ?thesis
  proof (cases "first \<le> a \<and> a \<le> final")
    case False
    then have "wrapping_sub a first \<ge> length slots"
      using a len range [of "hd pairs"] \<open>pairs \<noteq> []\<close> final wrapping_sub_ge [of first a] wrapping_sub_less [of a first]
      by (cases "first \<le> a") auto
    then have "get slots (wrapping_sub a first) = None" by (simp add: get_None_iff)
    moreover have "(a, b) \<notin> set pairs" using range [of "(a, b)"] False by auto
    ultimately show ?thesis by (simp add: dense_contains_def d')
  next
    case True
    then have "a - first \<le> final - first" by linarith
    with len a True have "get slots (wrapping_sub a first) = Some (slots ! (a - first))"
      by (simp add: wrapping_sub_ge get_Some_iff)
    then have c: "dense_contains d a b =
        (let s = slots ! (a - first); offset = wrapping_sub b (sl_low s)
         in if offset \<ge> sl_width s then Some False
            else map_option (\<lambda>w. bit w ((sl_start s + offset) mod 64)) (get ?bits ((sl_start s + offset) div 64)))"
      by (simp add: dense_contains_def d' bit_test Let_def)
    show ?thesis
    proof (cases "slot_for ?gs 0 a")
      case None
      with run [of a b] have "(a, b) \<notin> set pairs" by auto
      with c None slot [of a] True show ?thesis by (simp add: default_slot_def)
    next
      case (Some s)
      with slot [of a] True have s: "slots ! (a - first) = s" by simp
      from slot_for_Some [OF Some] n obtain g where g: "g \<in> set ?gs" "fst (hd g) = a" "sl_low s = snd (hd g)"
        "sl_width s = snd (last g) - snd (hd g) + 1" and end_le: "sl_start s + sl_width s \<le> n" by auto
      have last: "last g \<in> set pairs" "hd g \<in> set pairs"
        using g(1) chunks_nonempty [OF g(1)] by (metis concat_chunks UN_I last_in_set set_concat, metis chunks_hd_in)
      then have "snd (last g) < 2 ^ 64" "snd (hd g) < 2 ^ 64" using small by (auto simp: list_all_iff case_prod_beta')
      have mem: "sl_low s \<le> b \<and> b - sl_low s < sl_width s" if "(a, b) \<in> set pairs"
        using run [OF that] Some by auto
      show ?thesis
      proof (cases "sl_low s \<le> b \<and> b - sl_low s < sl_width s")
        case False
        then have "wrapping_sub b (sl_low s) \<ge> sl_width s"
          using b g(3,4) \<open>snd (last g) < 2 ^ 64\<close> \<open>snd (hd g) < 2 ^ 64\<close>
            wrapping_sub_ge [of "sl_low s" b] wrapping_sub_less [of b "sl_low s"]
          by (cases "sl_low s \<le> b") auto
        with c s mem False show ?thesis by (auto simp: Let_def)
      next
        case inside: True
        let ?i = "sl_start s + (b - sl_low s)"
        have i: "?i < n" using inside end_le by linarith
        then have i64: "?i < 64 * length (replicate (ceil_div n 64) (0 :: u64))" by (simp add: ceil_div_def)
        then have "get ?bits (?i div 64) = Some (?bits ! (?i div 64))"
          using bits by (simp add: get_Some_iff div_less_iff_less_mult mult.commute)
        with c s inside b have e: "dense_contains d a b = Some (bit_at ?bits ?i)"
          by (simp add: wrapping_sub_ge bit_at_def)
        have "bit_at (replicate (ceil_div n 64) 0) ?i = False"
          using i64 by (simp add: bit_at_def div_less_iff_less_mult mult.commute)
        with bits i64 have "bit_at ?bits ?i \<longleftrightarrow> ?i \<in> pair_position (\<lambda>a. slots ! (a - first)) ` set pairs" by simp
        also have "\<dots> \<longleftrightarrow> (a, b) \<in> set pairs"
        proof
          assume "?i \<in> pair_position (\<lambda>a. slots ! (a - first)) ` set pairs"
          then obtain x y where xy: "(x, y) \<in> set pairs" "?i = pair_position (\<lambda>a. slots ! (a - first)) (x, y)" by auto
          from run [OF xy(1)] obtain s' where s': "slot_for ?gs 0 x = Some s'" "sl_low s' \<le> y" "y - sl_low s' < sl_width s'"
            by auto
          with slot [of x] range [OF xy(1)] xy(2) have at: "?i = sl_start s' + (y - sl_low s')"
            by (simp add: pair_position_def)
          have "x = a"
          proof (rule ccontr)
            assume "x \<noteq> a"
            from slot_for_disjoint [OF s'(1) Some this] at s'(3) inside show False by linarith
          qed
          with s' Some at inside have "y = b" by auto
          with xy(1) \<open>x = a\<close> show "(a, b) \<in> set pairs" by simp
        next
          assume "(a, b) \<in> set pairs"
          then show "?i \<in> pair_position (\<lambda>a. slots ! (a - first)) ` set pairs"
            by (rule rev_image_eqI) (simp add: pair_position_def s)
        qed
        finally show ?thesis using e by simp
      qed
    qed
  qed
qed

lemma sorted_remdups: "sorted_wrt (<) (remdups_adj (sort (ps :: (nat \<times> nat) list)))"
  by (simp add: strict_sorted_iff distinct_sorted_adj)

definition pair_ok :: "nat \<times> nat \<Rightarrow> bool" where
  "pair_ok = (\<lambda>(a, b). a < 2 ^ 64 \<and> b < 2 ^ 64)"

text \<open>A set of pairs keeps the contract of a set of keys, dense or hashed.\<close>

interpretation pair_keys: key_membership pair_set_new "\<lambda>s (a, b). pair_set_contains s a b" pair_set_is_empty pair_ok
proof
  fix ks k
  assume ok: "list_all pair_ok ks" and k: "pair_ok k"
  obtain a b where ab: "k = (a, b)" by (cases k)
  let ?ps = "remdups_adj (sort ks)"
  have small: "list_all (\<lambda>(a, b). a < 2 ^ 64 \<and> b < 2 ^ 64) ?ps" using ok by (simp add: list_all_iff pair_ok_def)
  have "pair_set_contains (pair_set_new ks) a b = Some ((a, b) \<in> set ks)"
  proof (cases "dense_build ?ps")
    case None
    have "pack16 a b \<in> (\<lambda>(a, b). pack16 a b) ` set ks \<longleftrightarrow> (a, b) \<in> set ks"
      using ok k pack16_inject by (force simp: ab list_all_iff pair_ok_def)
    with None show ?thesis by (simp add: pair_set_contains_def pair_set_new_def Let_def)
  next
    case (Some d)
    with dense_contains_iff [OF sorted_remdups small Some, of a b] k show ?thesis
      by (simp add: pair_set_contains_def pair_set_new_def Let_def ab pair_ok_def)
  qed
  then show "(case k of (a, b) \<Rightarrow> pair_set_contains (pair_set_new ks) a b) = Some (k \<in> set ks)" by (simp add: ab)
next
  fix ks :: "(nat \<times> nat) list"
  assume "list_all pair_ok ks"
  have "remdups_adj (sort ks) = [] \<longleftrightarrow> ks = []" by (metis remdups_adj_Nil_iff set_empty set_sort)
  moreover have "dn_len d = length (remdups_adj (sort ks))" if "dense_build (remdups_adj (sort ks)) = Some d" for d
    using that by (auto simp: dense_build_def Let_def bind_eq_Some_conv split: if_splits prod.splits)
  ultimately show "pair_set_is_empty (pair_set_new ks) = (ks = [])"
    by (auto simp: pair_set_is_empty_def pair_set_new_def Let_def split: option.split)
qed


section \<open>Properties\<close>

text \<open>
  C1: A set of join keys answers membership for exactly the pairs it was built from, at every \<open>u64\<close> and in
  whichever form it is held, the bitmap never reading past its words and the wrapped-around subtraction of
  a component below the bitmap's first never landing in it; and it is empty only when it has no pairs.
\<close>

theorem pair_set_exact:
  assumes "list_all pair_ok ks" and "a < 2 ^ 64" and "b < 2 ^ 64"
  shows "pair_set_contains (pair_set_new ks) a b = Some ((a, b) \<in> set ks) \<and>
    (pair_set_is_empty (pair_set_new ks) \<longleftrightarrow> ks = [])"
  using pair_keys.member_build [OF assms(1), of "(a, b)"] pair_keys.vacant_build [OF assms(1)] assms(2,3)
  by (simp add: pair_ok_def)

theorem pair_set_exact_witness:
  "pair_set_contains (pair_set_new [(7, 3), (7, 1), (8, 2), (7, 3)]) 8 2 = Some True"
  using pair_set_exact [of "[(7, 3), (7, 1), (8, 2), (7, 3)]" 8 2] by (simp add: pair_ok_def)

end
