(* ===== verification/Addresses.thy ===== *)
theory Addresses
  imports Joins Pairs Counting_Sort "HOL-Library.Multiset"
begin

text \<open>
  The index of a relation's source addresses (\<^verbatim>\<open>src/scan/addresses.rs\<close>): addresses grouped by key, sorted
  and unique within a group, deep ones also found by hash. A scan that filters its rows by the index is
  shown to keep exactly the rows the join by address keeps.
\<close>

section \<open>Groups\<close>

datatype group_ids = PairIds "(nat, nat) omap" | ByteIds "(u8 list, nat) omap"

definition as_u32 :: "nat \<Rightarrow> nat" where
  "as_u32 n = n mod 2 ^ 32"

fun groups_len :: "group_ids \<Rightarrow> nat" where
  "groups_len (PairIds ids) = length ids"
| "groups_len (ByteIds ids) = length ids"

definition entry_or_insert :: "'k \<Rightarrow> nat \<Rightarrow> ('k, nat) omap \<Rightarrow> nat \<times> ('k, nat) omap" where
  "entry_or_insert k next ids = (case map_of ids k of Some g \<Rightarrow> (g, ids) | None \<Rightarrow> (next, ids @ [(k, next)]))"

fun pair_key :: "typed_key_column option list \<Rightarrow> nat \<Rightarrow> nat option" where
  "pair_key [Some (KInt first), Some (KInt second)] row =
     (if \<not> int_is_null first row \<and> \<not> int_is_null second row
      then Some (pack16 (unat (join_key first row)) (unat (join_key second row))) else None)"
| "pair_key _ row = None"

definition bytes_key :: "typed_key_column option list \<Rightarrow> nat \<Rightarrow> u8 list option" where
  "bytes_key columns row = append_all columns row []"

definition with_id :: "(('k, nat) omap \<Rightarrow> group_ids) \<Rightarrow> 'k option \<Rightarrow> ('k, nat) omap \<Rightarrow> nat option \<times> group_ids" where
  "with_id mk key ids =
     (case key of
        None \<Rightarrow> (None, mk ids)
      | Some k \<Rightarrow> let (g, ids') = entry_or_insert k (as_u32 (length ids)) ids in (Some g, mk ids'))"

fun group_insert :: "group_ids \<Rightarrow> typed_key_column option list \<Rightarrow> nat \<Rightarrow> nat option \<times> group_ids" where
  "group_insert (PairIds ids) columns row = with_id PairIds (pair_key columns row) ids"
| "group_insert (ByteIds ids) columns row = with_id ByteIds (bytes_key columns row) ids"

fun group_get :: "group_ids \<Rightarrow> typed_key_column option list \<Rightarrow> nat \<Rightarrow> nat option" where
  "group_get (PairIds ids) columns row = Option.bind (pair_key columns row) (map_of ids)"
| "group_get (ByteIds ids) columns row = Option.bind (bytes_key columns row) (map_of ids)"

type_synonym pair_columns = "u64 list \<times> u64 list \<times> nulls"

definition packed_at :: "pair_columns \<Rightarrow> nat \<Rightarrow> nat option" where
  "packed_at = (\<lambda>(first, second, nulls) row.
     if valid_at nulls row then Some (pack16 (unat (first ! row)) (unat (second ! row))) else None)"

fun group_of_source ::
    "pair_columns option \<Rightarrow> typed_key_column option list \<Rightarrow> group_ids \<Rightarrow> nat \<Rightarrow> nat option \<times> group_ids" where
  "group_of_source (Some pairs) columns (PairIds ids) row = with_id PairIds (packed_at pairs row) ids"
| "group_of_source _ columns groups row = group_insert groups columns row"

fun group_of_target ::
    "pair_columns option \<Rightarrow> typed_key_column option list \<Rightarrow> group_ids \<Rightarrow> nat \<Rightarrow> nat option" where
  "group_of_target (Some pairs) columns (PairIds ids) row = Option.bind (packed_at pairs row) (map_of ids)"
| "group_of_target _ columns groups row = group_get groups columns row"

text \<open>The address column's offsets, its elements and its nulls.\<close>

definition address_list :: "batch \<Rightarrow> string \<Rightarrow> (nat list \<times> nulls \<times> int_column) option" where
  "address_list b name =
     Option.bind (column_by_name b name) (\<lambda>a.
     case a of AList False os xs n \<Rightarrow> map_option (\<lambda>els. (os, n, els)) (resolve_int xs) | _ \<Rightarrow> None)"


section \<open>Paths by hash\<close>

record path_index =
  pi_first :: "u64 \<rightharpoonup> nat"
  pi_entries :: "(u64 \<times> nat \<times> nat \<times> nat) list"

definition path_index_new :: "(u64 \<times> nat \<times> nat \<times> nat) list \<Rightarrow> path_index" where
  "path_index_new unsorted =
     (let entries = sort_key fst unsorted in
      \<lparr>pi_first = fold (\<lambda>(index, entry) first. first(fst entry \<mapsto> as_u32 index)) (rev (enumerate 0 entries)) Map.empty,
       pi_entries = entries\<rparr>)"

definition path_bytes :: "u8 list \<Rightarrow> nat \<times> nat \<Rightarrow> u8 list" where
  "path_bytes elements = (\<lambda>(start, n). slice_list elements (start * 8) (n * 8))"

definition path_index_contains :: "path_index \<Rightarrow> u64 \<Rightarrow> nat \<Rightarrow> u8 list \<Rightarrow> u8 list \<Rightarrow> bool" where
  "path_index_contains idx h grp path elements =
     (case pi_first idx h of
        None \<Rightarrow> False
      | Some first \<Rightarrow>
          list_ex (\<lambda>(_, g, start, n). g = grp \<and> path_bytes elements (start, n) = path)
            (takeWhile (\<lambda>entry. fst entry = h) (drop first (pi_entries idx))))"

definition hashed_depth :: nat where
  "hashed_depth = 4"

definition hash_multiplier :: u64 where
  "hash_multiplier = 0x517cc1b727220a95"

definition path_hash_start :: "nat \<Rightarrow> u64" where
  "path_hash_start grp = (of_nat grp XOR 0x9e3779b97f4a7c15) * hash_multiplier"

definition from_be_bytes :: "u8 list \<Rightarrow> u64" where
  "from_be_bytes bs = foldl (\<lambda>w b. push_bit 8 w OR ucast b) 0 bs"

definition path_hash_step :: "u64 \<Rightarrow> u8 list \<Rightarrow> u64" where
  "path_hash_step h element = (word_rotl 5 h XOR from_be_bytes element) * hash_multiplier"

text \<open>\<open>as_chunks::<8>\<close>: the whole chunks of eight bytes.\<close>

function as_chunks :: "u8 list \<Rightarrow> u8 list list" where
  "as_chunks bs = (if length bs < 8 then [] else take 8 bs # as_chunks (drop 8 bs))"
  by pat_completeness auto
termination by (relation "measure length") auto

declare as_chunks.simps [simp del]

definition path_hash :: "nat \<Rightarrow> u8 list \<Rightarrow> u64" where
  "path_hash grp path = foldl path_hash_step (path_hash_start grp) (as_chunks path)"


section \<open>Building the index\<close>

record source_addresses =
  sa_groups :: group_ids
  sa_ranges :: "(nat \<times> nat) list"
  sa_paths :: "(nat \<times> nat) list"
  sa_elements :: "u8 list"
  sa_exact :: "path_index option"

definition uses_pairs :: "batch list \<Rightarrow> string list \<Rightarrow> bool" where
  "uses_pairs bs names =
     (length names = 2 \<and>
      list_all (\<lambda>b. list_all (\<lambda>name. Option.bind (column_by_name b name) resolve_int \<noteq> None) names)
        (filter (\<lambda>b. b_num_rows b > 0) bs))"

type_synonym source_state = "group_ids \<times> (nat \<times> nat \<times> nat) list \<times> u8 list"

definition sub_u32 :: "nat \<Rightarrow> nat \<Rightarrow> nat" where
  "sub_u32 a b = (a + 2 ^ 32 - b) mod 2 ^ 32"

definition source_row ::
    "pair_columns option \<Rightarrow> typed_key_column option list \<Rightarrow> nat list \<Rightarrow> nulls \<Rightarrow> u8 list \<Rightarrow> nat \<Rightarrow> source_state \<Rightarrow> source_state" where
  "source_row pairs columns os n element_bytes row = (\<lambda>(groups, entries, elements).
     if \<not> valid_at n row then (groups, entries, elements)
     else
       (case group_of_source pairs columns groups row of
          (None, groups') \<Rightarrow> (groups', entries, elements)
        | (Some g, groups') \<Rightarrow>
            let start = as_u32 (length elements div 8);
                elements' = elements @ slice_list element_bytes (os ! row * 8) (os ! Suc row * 8 - os ! row * 8)
            in (groups', entries @ [(g, start, sub_u32 (as_u32 (length elements' div 8)) start)], elements')))"

definition source_batch :: "string list \<Rightarrow> string \<Rightarrow> batch \<Rightarrow> source_state \<Rightarrow> source_state" where
  "source_batch group_key_columns address_column b s =
     (case address_list b address_column of
        None \<Rightarrow> s
      | Some (os, n, values) \<Rightarrow>
          fold (source_row (pair_keys_of b group_key_columns) (typed_key_columns b group_key_columns) os n
              (join_key_bytes values))
            [0..<b_num_rows b] s)"

definition count_group :: "nat \<times> nat \<times> nat \<Rightarrow> nat list \<Rightarrow> nat list" where
  "count_group e starts = starts[fst e + 1 := starts ! (fst e + 1) + 1]"

definition sum_groups :: "nat \<Rightarrow> nat list \<Rightarrow> nat list" where
  "sum_groups n starts = fold (\<lambda>g starts. starts[g + 1 := starts ! (g + 1) + starts ! g]) [0..<n] starts"

definition order_entry :: "nat \<times> nat \<times> nat \<Rightarrow> nat list \<times> (nat \<times> nat) list \<Rightarrow> nat list \<times> (nat \<times> nat) list" where
  "order_entry = (\<lambda>(g, start, n) (nexts, ordered). (nexts[g := nexts ! g + 1], ordered[nexts ! g := (start, n)]))"

definition push_path :: "u8 list \<Rightarrow> nat \<Rightarrow> nat \<times> nat \<Rightarrow> (nat \<times> nat) list \<Rightarrow> (nat \<times> nat) list" where
  "push_path elements first entry paths =
     (if as_u32 (length paths) > first \<and> path_bytes elements (last paths) = path_bytes elements entry
      then paths else paths @ [entry])"

text \<open>
  One group's addresses, sorted by their bytes and unique. The sort is unstable, so which of several equal
  addresses is kept is not fixed; all of them hold the same bytes.
\<close>

definition group_paths_step ::
    "u8 list \<Rightarrow> nat list \<Rightarrow> (nat \<times> nat) list \<Rightarrow> nat \<Rightarrow> (nat \<times> nat) list \<times> (nat \<times> nat) list
     \<Rightarrow> (nat \<times> nat) list \<times> (nat \<times> nat) list" where
  "group_paths_step elements starts ordered g = (\<lambda>(ranges, paths).
     let own = sort_key (path_bytes elements) (slice_list ordered (starts ! g) (starts ! (g + 1) - starts ! g));
         first = as_u32 (length paths);
         paths' = fold (push_path elements first) own paths
     in (ranges @ [(first, as_u32 (length paths'))], paths'))"

record path_visit =
  pv_group :: nat
  pv_path :: "nat \<times> nat"
  pv_new_from :: nat
  pv_hashes :: "u64 list"

fun walk_group :: "u8 list \<Rightarrow> nat \<Rightarrow> u64 list \<Rightarrow> u8 list list \<Rightarrow> (nat \<times> nat) list \<Rightarrow> path_visit list" where
  "walk_group elements g hashes previous [] = []"
| "walk_group elements g hashes previous (p # ps) =
     (let path = as_chunks (path_bytes elements p);
          shared = length (takeWhile (\<lambda>(a, b). a = b) (zip previous path));
          new_from = (if shared = length previous then shared else shared + 1);
          hashes' = foldl (\<lambda>hs element. hs @ [path_hash_step (last hs) element]) (take (shared + 1) hashes) (drop shared path)
      in \<lparr>pv_group = g, pv_path = p, pv_new_from = new_from, pv_hashes = hashes'\<rparr> #
         walk_group elements g hashes' path ps)"

definition walk :: "source_addresses \<Rightarrow> path_visit list" where
  "walk sa =
     concat (map (\<lambda>(g, first, next).
         walk_group (sa_elements sa) (as_u32 g) [path_hash_start (as_u32 g)] []
           (slice_list (sa_paths sa) first (next - first)))
       (enumerate 0 (sa_ranges sa)))"

definition exact_index :: "source_addresses \<Rightarrow> path_index" where
  "exact_index sa =
     path_index_new (map (\<lambda>v. (pv_hashes v ! snd (pv_path v), pv_group v, pv_path v)) (walk sa))"

definition prefix_index :: "source_addresses \<Rightarrow> path_index" where
  "prefix_index sa =
     path_index_new (concat (map (\<lambda>v.
         map (\<lambda>(depth, h). (h, pv_group v, fst (pv_path v), as_u32 depth))
           (drop (pv_new_from v) (enumerate 0 (take (snd (pv_path v)) (pv_hashes v)))))
       (walk sa)))"

definition sources_build :: "batch list \<Rightarrow> string list \<Rightarrow> string \<Rightarrow> source_addresses" where
  "sources_build bs group_key_columns address_column =
     (let (groups, entries, elements) =
            fold (source_batch group_key_columns address_column) bs
              (if uses_pairs bs group_key_columns then PairIds [] else ByteIds [], [], []);
          starts = sum_groups (groups_len groups) (fold count_group entries (replicate (groups_len groups + 1) 0));
          (_, ordered) = fold order_entry entries (starts, replicate (length entries) (0, 0));
          (ranges, paths) = fold (group_paths_step elements starts ordered) [0..<groups_len groups] ([], []);
          sa = \<lparr>sa_groups = groups, sa_ranges = ranges, sa_paths = paths, sa_elements = elements, sa_exact = None\<rparr>
      in if sum_list (map snd paths) > hashed_depth * length paths then sa\<lparr>sa_exact := Some (exact_index sa)\<rparr> else sa)"

definition sources_is_empty :: "source_addresses \<Rightarrow> bool" where
  "sources_is_empty sa = (sa_paths sa = [])"


section \<open>Asking the index\<close>

datatype hierarchical_mode = Children | Parents

definition group_paths :: "source_addresses \<Rightarrow> nat \<Rightarrow> u8 list list" where
  "group_paths sa g =
     (let (first, next) = sa_ranges sa ! g in
      map (path_bytes (sa_elements sa)) (slice_list (sa_paths sa) first (next - first)))"

text \<open>\<open>binary_search_by\<close> on the sorted addresses of a group.\<close>

definition found_path :: "u8 list list \<Rightarrow> u8 list \<Rightarrow> bool" where
  "found_path paths target = (get paths (partition_point (\<lambda>p. p < target) paths) = Some target)"

definition holds :: "source_addresses \<Rightarrow> nat \<Rightarrow> u8 list \<Rightarrow> bool" where
  "holds sa g target =
     (case sa_exact sa of
        Some exact \<Rightarrow> path_index_contains exact (path_hash g target) g target (sa_elements sa)
      | None \<Rightarrow> found_path (group_paths sa g) target)"

text \<open>The source that is a prefix of the target, by the hash of each prefix.\<close>

fun prefix_found :: "path_index \<Rightarrow> u8 list \<Rightarrow> nat \<Rightarrow> u8 list \<Rightarrow> bool \<Rightarrow> nat \<Rightarrow> u64 \<Rightarrow> u8 list list \<Rightarrow> bool" where
  "prefix_found exact elements g target inclusive d h [] =
     (inclusive \<and> path_index_contains exact h g (take (d * 8) target) elements)"
| "prefix_found exact elements g target inclusive d h (step # steps) =
     (path_index_contains exact h g (take (d * 8) target) elements \<or>
      prefix_found exact elements g target inclusive (d + 1) (path_hash_step h step) steps)"

definition starts_with :: "u8 list \<Rightarrow> u8 list \<Rightarrow> bool" where
  "starts_with p target = (take (length target) p = target)"

definition relates :: "source_addresses \<Rightarrow> nat \<Rightarrow> u8 list \<Rightarrow> hierarchical_mode \<Rightarrow> bool \<Rightarrow> bool" where
  "relates sa g target mode inclusive =
     (case sa_exact sa of
        Some exact \<Rightarrow>
          (case mode of
             Children \<Rightarrow> prefix_found exact (sa_elements sa) g target inclusive 0 (path_hash_start g) (as_chunks target)
           | Parents \<Rightarrow>
               path_index_contains (prefix_index sa) (path_hash g target) g target (sa_elements sa) \<or>
               inclusive \<and> path_index_contains exact (path_hash g target) g target (sa_elements sa))
      | None \<Rightarrow>
          (let paths = group_paths sa g in
           case mode of
             Children \<Rightarrow>
               list_ex (\<lambda>depth. found_path paths (take (depth * 8) target))
                 [0..<(if inclusive then length target div 8 + 1 else length target div 8)]
           | Parents \<Rightarrow>
               (case drop (partition_point (\<lambda>p. p < target) paths) paths of
                  [] \<Rightarrow> False
                | p # rest \<Rightarrow>
                    if p = target then inclusive \<or> (case rest of [] \<Rightarrow> False | q # _ \<Rightarrow> starts_with q target)
                    else starts_with p target)))"

definition address_mask ::
    "source_addresses \<Rightarrow> batch \<Rightarrow> string list \<Rightarrow> string \<Rightarrow> bool list option \<Rightarrow> (nat \<Rightarrow> u8 list \<Rightarrow> bool) \<Rightarrow> mask" where
  "address_mask sa b group_key_columns address_column candidates related =
     (case address_list b address_column of
        None \<Rightarrow> all_mask (b_num_rows b) False
      | Some (os, n, values) \<Rightarrow>
          let columns = typed_key_columns b group_key_columns;
              pairs = (case sa_groups sa of PairIds _ \<Rightarrow> pair_keys_of b group_key_columns | ByteIds _ \<Rightarrow> None);
              element_bytes = join_key_bytes values
          in map (\<lambda>row.
               let candidate = (case candidates of None \<Rightarrow> True | Some c \<Rightarrow> c ! row) \<and> valid_at n row;
                   grp = (if \<not> candidate then None else group_of_target pairs columns (sa_groups sa) row)
               in Some (case grp of
                    None \<Rightarrow> False
                  | Some g \<Rightarrow> related g (slice_list element_bytes (os ! row * 8) (os ! Suc row * 8 - os ! row * 8))))
             [0..<b_num_rows b])"


section \<open>The filter\<close>

record address_index_set =
  ai_sources :: source_addresses
  ai_group_key_columns :: "string list"
  ai_readable :: bool

record hierarchical_filter =
  hf_sources :: source_addresses
  hf_group_key_columns :: "string list"
  hf_address_column :: string
  hf_mode :: hierarchical_mode
  hf_inclusive :: bool

definition address_index_build :: "batch list \<Rightarrow> string list \<Rightarrow> string \<Rightarrow> address_index_set" where
  "address_index_build bs group_key_columns address_column =
     \<lparr>ai_sources = sources_build bs group_key_columns address_column,
      ai_group_key_columns = group_key_columns,
      ai_readable =
        list_all (\<lambda>b. address_list b address_column \<noteq> None) (filter (\<lambda>b. b_num_rows b > 0) bs) \<and>
        keys_readable bs group_key_columns\<rparr>"

definition address_matches_nothing :: "address_index_set \<Rightarrow> bool" where
  "address_matches_nothing ai = (ai_readable ai \<and> sources_is_empty (ai_sources ai))"

definition address_filter :: "address_index_set \<Rightarrow> string \<Rightarrow> hierarchical_mode \<Rightarrow> bool \<Rightarrow> hierarchical_filter" where
  "address_filter ai address_column mode inclusive =
     \<lparr>hf_sources = ai_sources ai, hf_group_key_columns = ai_group_key_columns ai, hf_address_column = address_column,
      hf_mode = mode, hf_inclusive = inclusive\<rparr>"

definition hierarchical_filter_build ::
    "batch list \<Rightarrow> string list \<Rightarrow> string \<Rightarrow> string \<Rightarrow> hierarchical_mode \<Rightarrow> bool \<Rightarrow> hierarchical_filter" where
  "hierarchical_filter_build bs group_key_columns source_column target_column mode inclusive =
     address_filter (address_index_build bs group_key_columns source_column) target_column mode inclusive"

definition hierarchical_is_empty :: "hierarchical_filter \<Rightarrow> bool" where
  "hierarchical_is_empty f = sources_is_empty (hf_sources f)"

definition hierarchical_mask :: "hierarchical_filter \<Rightarrow> batch \<Rightarrow> bool list option \<Rightarrow> mask" where
  "hierarchical_mask f b candidates =
     address_mask (hf_sources f) b (hf_group_key_columns f) (hf_address_column f) candidates
       (\<lambda>g target. relates (hf_sources f) g target (hf_mode f) (hf_inclusive f))"

section \<open>Facts on paths\<close>

definition encoded_path :: "u64 list \<Rightarrow> u8 list" where
  "encoded_path p = concat (map to_be_bytes p)"

lemma encoded_path_simps [simp]:
  "encoded_path [] = []" "encoded_path (w # p) = to_be_bytes w @ encoded_path p"
  "encoded_path (p @ q) = encoded_path p @ encoded_path q"
  by (simp_all add: encoded_path_def)

lemma length_encoded_path [simp]: "length (encoded_path p) = 8 * length p"
  by (induction p) simp_all

lemma encoded_path_inject [simp]: "encoded_path p = encoded_path q \<longleftrightarrow> p = q"
proof
  assume e: "encoded_path p = encoded_path q"
  from arg_cong [OF e, of length] have "length p = length q" unfolding length_encoded_path by simp
  moreover have "inj to_be_bytes" by (rule injI) simp
  ultimately show "p = q"
    using e concat_inject [of p q to_be_bytes 8 "[]" "[]"] by (simp add: encoded_path_def)
qed simp

lemma take_encoded_path: "take (d * 8) (encoded_path p) = encoded_path (take d p)"
proof (induction p arbitrary: d)
  case (Cons w p)
  then show ?case by (cases d) simp_all
qed simp

lemma drop_encoded_path: "drop (d * 8) (encoded_path p) = encoded_path (drop d p)"
proof (induction p arbitrary: d)
  case (Cons w p)
  then show ?case by (cases d) simp_all
qed simp

lemma as_chunks_encoded [simp]: "as_chunks (encoded_path p) = map to_be_bytes p"
  by (induction p) (simp_all add: as_chunks.simps [of "[]"] as_chunks.simps [of "to_be_bytes _ @ _"])

lemma starts_with_encoded: "starts_with (encoded_path p) (encoded_path q) \<longleftrightarrow> prefix q p"
proof -
  have "take (8 * length q) (encoded_path p) = encoded_path (take (length q) p)"
    using take_encoded_path [of "length q" p] by (simp add: mult.commute)
  then show ?thesis by (auto simp: starts_with_def prefix_take) (metis length_take min.cobounded1)
qed


section \<open>Facts on the hash index\<close>

lemma first_index:
  "fold (\<lambda>(index, entry) first. first(fst entry \<mapsto> as_u32 index)) (rev (enumerate n es)) m h =
     (case find_position (\<lambda>e. fst e = h) es of None \<Rightarrow> m h | Some i \<Rightarrow> Some (as_u32 (n + i)))"
  by (induction es arbitrary: n) (auto split: option.splits simp del: find_position_None)

lemma takeWhile_sorted_filter:
  "sorted (map fst xs) \<Longrightarrow> \<forall>x \<in> set xs. h \<le> fst x \<Longrightarrow> takeWhile (\<lambda>e. fst e = h) xs = filter (\<lambda>e. fst e = h) xs"
proof (induction xs)
  case (Cons x xs)
  show ?case
  proof (cases "fst x = h")
    case False
    with Cons.prems have "h < fst x" by auto
    with Cons.prems(1) have "\<forall>y \<in> set xs. fst y \<noteq> h" by auto
    with False show ?thesis by (auto simp: filter_empty_conv eq_commute [of "[]"])
  qed (use Cons in simp)
qed simp

lemma path_index_iff:
  assumes "length es < 2 ^ 32"
  shows "path_index_contains (path_index_new es) h g path elements \<longleftrightarrow>
    (\<exists>p. (h, g, p) \<in> set es \<and> path_bytes elements p = path)"
proof -
  define ss where "ss = sort_key fst es"
  have s: "sorted (map fst ss)" "set ss = set es" "length ss = length es" by (simp_all add: ss_def)
  show ?thesis
  proof (cases "find_position (\<lambda>e. fst e = h) ss")
    case None
    then have "\<forall>e \<in> set es. fst e \<noteq> h" using s(2) by simp
    moreover have "pi_first (path_index_new es) h = None"
      using None by (simp add: path_index_new_def Let_def ss_def [symmetric] first_index del: find_position_None)
    ultimately show ?thesis by (force simp: path_index_contains_def)
  next
    case (Some i)
    then have i: "i < length ss" "fst (ss ! i) = h" "\<forall>e \<in> set (take i ss). fst e \<noteq> h"
      using find_position_Some [OF Some] by (simp_all add: all_set_conv_all_nth)
    have "as_u32 i = i" using i(1) s(3) assms by (simp add: as_u32_def)
    then have first: "pi_first (path_index_new es) h = Some i"
      using Some by (simp add: path_index_new_def Let_def ss_def [symmetric] first_index)
    have "\<forall>e \<in> set (drop i ss). h \<le> fst e"
    proof
      fix e assume "e \<in> set (drop i ss)"
      then obtain j where "j < length (drop i ss)" "drop i ss ! j = e" by (metis in_set_conv_nth)
      then have "i + j < length ss" "e = ss ! (i + j)" by simp_all
      with s(1) i show "h \<le> fst e" using sorted_nth_mono [of "map fst ss" i "i + j"] by simp
    qed
    moreover have "sorted (map fst (drop i ss))" using s(1) by (simp add: drop_map [symmetric] sorted_wrt_drop)
    ultimately have run: "takeWhile (\<lambda>e. fst e = h) (drop i ss) = filter (\<lambda>e. fst e = h) (drop i ss)"
      by (rule takeWhile_sorted_filter [rotated])
    have "set (filter (\<lambda>e. fst e = h) (drop i ss)) = {e \<in> set es. fst e = h}"
    proof -
      have "set ss = set (take i ss) \<union> set (drop i ss)" by (metis append_take_drop_id set_append)
      with i(3) s(2) show ?thesis by auto
    qed
    moreover have "pi_entries (path_index_new es) = ss" by (simp add: path_index_new_def ss_def Let_def)
    then have "path_index_contains (path_index_new es) h g path elements \<longleftrightarrow>
        (\<exists>e \<in> set (filter (\<lambda>e. fst e = h) (drop i ss)).
          case e of (_, g', start, n) \<Rightarrow> g' = g \<and> path_bytes elements (start, n) = path)"
      by (simp add: path_index_contains_def first run list_ex_iff)
    ultimately show ?thesis by auto
  qed
qed

section \<open>Facts on the walk\<close>

definition prefix_hashes :: "nat \<Rightarrow> u8 list list \<Rightarrow> u64 list" where
  "prefix_hashes g path = map (\<lambda>d. foldl path_hash_step (path_hash_start g) (take d path)) [0..<length path + 1]"

lemma prefix_hashes_extend:
  "foldl (\<lambda>hs element. hs @ [path_hash_step (last hs) element]) (prefix_hashes g p) q = prefix_hashes g (p @ q)"
proof (induction q arbitrary: p)
  case (Cons x q)
  have "prefix_hashes g p @ [path_hash_step (last (prefix_hashes g p)) x] = prefix_hashes g (p @ [x])"
    by (auto intro!: nth_equalityI simp: prefix_hashes_def nth_append less_Suc_eq last_conv_nth simp del: upt_Suc)
  with Cons [of "p @ [x]"] show ?case by simp
qed simp

lemma take_prefix_hashes: "n \<le> length p \<Longrightarrow> take (Suc n) (prefix_hashes g p) = prefix_hashes g (take n p)"
  by (auto intro!: nth_equalityI simp: prefix_hashes_def min_def simp del: upt_Suc)

lemma shared_prefix:
  assumes "shared = length (takeWhile (\<lambda>(a, b). a = b) (zip p q))"
  shows "shared \<le> length p" "shared \<le> length q" "take shared p = take shared q"
  unfolding assms by (induction p q rule: list_induct2') auto

lemma walk_group_hashes:
  assumes "hashes = prefix_hashes g previous"
  shows "v \<in> set (walk_group elements g hashes previous ps) \<Longrightarrow>
    pv_group v = g \<and> pv_path v \<in> set ps \<and> pv_hashes v = prefix_hashes g (as_chunks (path_bytes elements (pv_path v)))"
  using assms
proof (induction ps arbitrary: hashes previous)
  case (Cons p ps)
  define path where "path = as_chunks (path_bytes elements p)"
  define shared where "shared = length (takeWhile (\<lambda>(a, b). a = b) (zip previous path))"
  note sh = shared_prefix [OF shared_def]
  have "foldl (\<lambda>hs element. hs @ [path_hash_step (last hs) element]) (take (shared + 1) hashes) (drop shared path) =
      prefix_hashes g path"
    using sh take_prefix_hashes [of shared previous g] prefix_hashes_extend [of g "take shared path" "drop shared path"]
    by (simp add: Cons.prems(2))
  with Cons.IH [of "prefix_hashes g path" path] Cons.prems(1) show ?case
    by (auto simp: Let_def path_def [symmetric] shared_def [symmetric])
qed simp

text \<open>Every strict prefix of a path is new at some path, unless it is a strict prefix of the one before.\<close>

lemma walk_group_prefixes:
  "p \<in> set ps \<Longrightarrow> d < length (as_chunks (path_bytes elements p)) \<Longrightarrow>
   (d < length previous \<and> take d previous = take d (as_chunks (path_bytes elements p))) \<or>
   (\<exists>v \<in> set (walk_group elements g hashes previous ps). pv_new_from v \<le> d \<and>
      d < length (as_chunks (path_bytes elements (pv_path v))) \<and>
      take d (as_chunks (path_bytes elements (pv_path v))) = take d (as_chunks (path_bytes elements p)))"
proof (induction ps arbitrary: hashes previous)
  case (Cons r ps)
  define path where "path = as_chunks (path_bytes elements r)"
  define shared where "shared = length (takeWhile (\<lambda>(a, b). a = b) (zip previous path))"
  note sh = shared_prefix [OF shared_def]
  obtain hashes' where w: "walk_group elements g hashes previous (r # ps) =
      \<lparr>pv_group = g, pv_path = r, pv_new_from = (if shared = length previous then shared else shared + 1), pv_hashes = hashes'\<rparr> #
      walk_group elements g hashes' path ps"
    by (simp add: Let_def path_def shared_def)
  have here: "(d < length previous \<and> take d previous = take d path) \<or>
      (if shared = length previous then shared else shared + 1) \<le> d" if "d < length path"
  proof (cases "d \<le> shared")
    case True
    with sh have "take d previous = take d path" by (metis min.absorb1 take_take)
    moreover have "d < length previous \<or> shared = length previous \<and> d = shared" using True sh(1) by linarith
    ultimately show ?thesis by auto
  qed simp
  show ?case
  proof (cases "p = r")
    case True
    then have "path = as_chunks (path_bytes elements p)" by (simp add: path_def)
    with here Cons.prems(2) True show ?thesis unfolding w by auto
  next
    case False
    with Cons.IH [of path hashes'] Cons.prems consider
        "d < length path" "take d path = take d (as_chunks (path_bytes elements p))"
      | v where "v \<in> set (walk_group elements g hashes' path ps)" "pv_new_from v \<le> d"
          "d < length (as_chunks (path_bytes elements (pv_path v)))"
          "take d (as_chunks (path_bytes elements (pv_path v))) = take d (as_chunks (path_bytes elements p))"
      by auto
    then show ?thesis
    proof cases
      case 1
      with here show ?thesis unfolding w by (auto simp: path_def [symmetric])
    next
      case 2
      then show ?thesis unfolding w by auto
    qed
  qed
qed simp

section \<open>Facts on the groups of addresses\<close>

lemma push_paths:
  assumes "sorted (map (path_bytes els) own)" "sorted_wrt (<) (map (path_bytes els) ds)"
    and "\<forall>x \<in> set own. \<forall>y \<in> set ds. path_bytes els y \<le> path_bytes els x"
    and "length ps + length ds + length own < 2 ^ 32"
  shows "\<exists>ds'. fold (push_path els (length ps)) own (ps @ ds) = ps @ ds' \<and> sorted_wrt (<) (map (path_bytes els) ds') \<and>
    path_bytes els ` set ds' = path_bytes els ` set ds \<union> path_bytes els ` set own \<and>
    length ds' \<le> length ds + length own \<and> set ds' \<subseteq> set ds \<union> set own \<and>
    sum_list (map snd ds') \<le> sum_list (map snd ds) + sum_list (map snd own)"
  using assms
proof (induction own arbitrary: ds)
  case (Cons x own)
  have some: "as_u32 (length (ps @ ds)) > length ps \<longleftrightarrow> ds \<noteq> []"
    using Cons.prems(4) by (auto simp: as_u32_def)
  show ?case
  proof (cases "ds \<noteq> [] \<and> path_bytes els (last ds) = path_bytes els x")
    case True
    then have "push_path els (length ps) x (ps @ ds) = ps @ ds"
      using some by (simp add: push_path_def)
    moreover from Cons.IH [of ds] Cons.prems obtain ds' where
      "fold (push_path els (length ps)) own (ps @ ds) = ps @ ds'" "sorted_wrt (<) (map (path_bytes els) ds')"
      "path_bytes els ` set ds' = path_bytes els ` set ds \<union> path_bytes els ` set own"
      "length ds' \<le> length ds + length own" "set ds' \<subseteq> set ds \<union> set own" "sum_list (map snd ds') \<le> sum_list (map snd ds) + sum_list (map snd own)"
      by auto
    moreover have "path_bytes els x \<in> path_bytes els ` set ds" using True by (metis imageI last_in_set)
    ultimately show ?thesis by (intro exI [of _ ds']) auto
  next
    case False
    then have step: "push_path els (length ps) x (ps @ ds) = ps @ (ds @ [x])"
      using some by (auto simp: push_path_def)
    have "path_bytes els y < path_bytes els x" if "y \<in> set ds" for y
    proof -
      from that obtain i where i: "i < length ds" "y = ds ! i" by (auto simp: in_set_conv_nth)
      from that have ne: "ds \<noteq> []" by auto
      then have last: "last ds = ds ! (length ds - 1)" by (rule last_conv_nth)
      have "path_bytes els y \<le> path_bytes els (last ds)"
        using i Cons.prems(2) sorted_wrt_nth_less [of "(<)" "map (path_bytes els) ds" i "length ds - 1"]
        unfolding last by (cases "i = length ds - 1") (auto intro: less_imp_le)
      moreover have "path_bytes els (last ds) \<le> path_bytes els x" "path_bytes els (last ds) \<noteq> path_bytes els x"
        using Cons.prems(3) False ne last_in_set [OF ne] by auto
      ultimately show ?thesis by simp
    qed
    then have "sorted_wrt (<) (map (path_bytes els) (ds @ [x]))" using Cons.prems(2) by (simp add: sorted_wrt_append)
    moreover have "\<forall>z \<in> set own. \<forall>y \<in> set (ds @ [x]). path_bytes els y \<le> path_bytes els z" using Cons.prems(1, 3) by auto
    ultimately obtain ds' where "fold (push_path els (length ps)) own (ps @ (ds @ [x])) = ps @ ds'"
      "sorted_wrt (<) (map (path_bytes els) ds')"
      "path_bytes els ` set ds' = path_bytes els ` set (ds @ [x]) \<union> path_bytes els ` set own"
      "length ds' \<le> length (ds @ [x]) + length own" "set ds' \<subseteq> set (ds @ [x]) \<union> set own"
      "sum_list (map snd ds') \<le> sum_list (map snd (ds @ [x])) + sum_list (map snd own)"
      using Cons.IH [of "ds @ [x]"] Cons.prems by auto
    then show ?thesis using step by (intro exI [of _ ds']) auto
  qed
qed simp

text \<open>The ranges tile the paths, each holding its group's addresses, sorted and unique.\<close>

definition range_slice :: "(nat \<times> nat) list \<Rightarrow> nat \<times> nat \<Rightarrow> (nat \<times> nat) list" where
  "range_slice paths = (\<lambda>(first, next). slice_list paths first (next - first))"

definition grouped ::
    "u8 list \<Rightarrow> (nat \<times> nat \<times> nat) list \<Rightarrow> nat \<Rightarrow> (nat \<times> nat) list \<times> (nat \<times> nat) list \<Rightarrow> bool" where
  "grouped els entries n = (\<lambda>(ranges, paths).
     length ranges = n \<and> concat (map (range_slice paths) ranges) = paths \<and>
     (\<forall>r \<in> set ranges. fst r \<le> snd r \<and> snd r \<le> length paths) \<and>
     length paths \<le> below_count n entries \<and> set paths \<subseteq> snd ` set entries \<and>
     sum_list (map snd paths) \<le> sum_list (map (snd \<circ> snd) (filter (\<lambda>e. fst e < n) entries)) \<and>
     (\<forall>g < n. sorted_wrt (<) (map (path_bytes els) (range_slice paths (ranges ! g))) \<and>
        path_bytes els ` set (range_slice paths (ranges ! g)) = path_bytes els ` set (class_rows g entries)))"

lemma below_sum_Suc:
  "sum_list (map (snd \<circ> snd) (filter (\<lambda>e. fst e < Suc n) hs)) =
     sum_list (map (snd \<circ> snd) (filter (\<lambda>e. fst e < n) hs)) + sum_list (map snd (class_rows n hs))"
  for hs :: "(nat \<times> nat \<times> nat) list"
  by (induction hs) (auto simp: class_rows_def)

lemma below_count_length: "below_count n hs \<le> length hs"
  by (simp add: below_count_def)

lemma grouped_step:
  assumes g: "grouped els entries n (ranges, paths)"
    and own: "slice_list ordered (starts ! n) (starts ! (n + 1) - starts ! n) = class_rows n entries"
    and bound: "length entries < 2 ^ 32"
  shows "grouped els entries (Suc n) (group_paths_step els starts ordered n (ranges, paths))"
proof -
  let ?own = "sort_key (path_bytes els) (class_rows n entries)"
  have count: "length paths + length ?own \<le> below_count (Suc n) entries"
    using g by (simp add: grouped_def below_count_Suc)
  then have small: "length paths + length ?own < 2 ^ 32"
    using bound below_count_length [of "Suc n" entries] by linarith
  obtain ds where ds: "fold (push_path els (length paths)) ?own (paths @ []) = paths @ ds"
    "sorted_wrt (<) (map (path_bytes els) ds)" "path_bytes els ` set ds = path_bytes els ` set ?own"
    "length ds \<le> length ?own" "set ds \<subseteq> set (class_rows n entries)" "sum_list (map snd ds) \<le> sum_list (map snd ?own)"
    using push_paths [of els ?own "[]" paths] small by auto
  have u: "as_u32 (length paths) = length paths" "as_u32 (length (paths @ ds)) = length (paths @ ds)"
    using small ds(4) by (simp_all add: as_u32_def)
  have step: "group_paths_step els starts ordered n (ranges, paths) =
      (ranges @ [(length paths, length paths + length ds)], paths @ ds)"
    using ds(1) u unfolding group_paths_step_def prod.case Let_def own by simp
  have old: "range_slice (paths @ ds) r = range_slice paths r" if "r \<in> set ranges" for r
    using g that by (cases r) (auto simp: grouped_def range_slice_def slice_list_def)
  have new: "range_slice (paths @ ds) (length paths, length paths + length ds) = ds"
    by (simp add: range_slice_def slice_list_def)
  have sum: "sum_list (map snd ?own) = sum_list (map snd (class_rows n entries))"
  proof -
    have "mset (map snd ?own) = mset (map snd (class_rows n entries))" by simp
    then show ?thesis by (metis sum_mset_sum_list)
  qed
  have tile: "concat (map (range_slice (paths @ ds)) (ranges @ [(length paths, length paths + length ds)])) = paths @ ds"
  proof -
    have "map (range_slice (paths @ ds)) ranges = map (range_slice paths) ranges" using old by simp
    moreover have "concat (map (range_slice paths) ranges) = paths" using g by (simp add: grouped_def)
    ultimately show ?thesis by (simp only: map_append concat_append list.map concat.simps new append_Nil2)
  qed
  show ?thesis
    unfolding step grouped_def prod.case
  proof (intro conjI allI impI)
    fix k assume k: "k < Suc n"
    let ?r = "(ranges @ [(length paths, length paths + length ds)]) ! k"
    have n: "length ranges = n" using g by (simp add: grouped_def)
    have "range_slice (paths @ ds) ?r = (if k < n then range_slice paths (ranges ! k) else ds)"
      using k n old [of "ranges ! k"] new by (auto simp: nth_append less_Suc_eq)
    with g k ds(2, 3) show "sorted_wrt (<) (map (path_bytes els) (range_slice (paths @ ds) ?r))"
      "path_bytes els ` set (range_slice (paths @ ds) ?r) = path_bytes els ` set (class_rows k entries)"
      by (auto simp: grouped_def less_Suc_eq)
  qed (use g tile count ds(4-6) sum in \<open>auto simp: grouped_def below_count_Suc below_sum_Suc class_rows_def\<close>)
qed

section \<open>Facts on reading the sources\<close>

text \<open>What has been read: the key and the encoded address of each source row, in order.\<close>

definition ids_ok :: "('k, nat) omap \<Rightarrow> bool" where
  "ids_ok ids = (distinct (map fst ids) \<and> map snd ids = [0..<length ids])"

definition reads ::
    "(('k, nat) omap \<Rightarrow> group_ids) \<Rightarrow> ('k \<times> u8 list) list \<Rightarrow> source_state \<Rightarrow> bool" where
  "reads mk L = (\<lambda>(groups, entries, elements).
     \<exists>ids. groups = mk ids \<and> ids_ok ids \<and> length ids \<le> length L \<and>
       8 dvd length elements \<and> length elements = sum_list (map (length \<circ> snd) L) \<and>
       sum_list (map (snd \<circ> snd) entries) * 8 = length elements \<and>
       list_all2 (\<lambda>(g, p) (k, path). (k, g) \<in> set ids \<and> path_bytes elements p = path \<and>
         (fst p + snd p) * 8 \<le> length elements) entries L)"

lemma path_bytes_append: "(fst p + snd p) * 8 \<le> length els \<Longrightarrow> path_bytes (els @ r) p = path_bytes els p"
  by (cases p) (simp add: path_bytes_def slice_list_def)

lemma entry_or_insert_ok:
  assumes "ids_ok ids"
  shows "case entry_or_insert k (length ids) ids of (g, ids') \<Rightarrow>
    ids_ok ids' \<and> (k, g) \<in> set ids' \<and> set ids \<subseteq> set ids' \<and> length ids' \<le> length ids + 1"
  using assms map_of_SomeD [of ids k]
  by (auto simp: entry_or_insert_def ids_ok_def map_of_eq_None_iff split: option.split)

lemma reads_more:
  assumes r: "reads mk L (groups, entries, elements)" and p: "length path = 8 * n"
    and "length L + 1 < 2 ^ 32" and small: "sum_list (map (length \<circ> snd) L) div 8 + n < 2 ^ 32"
    and mk: "groups = mk ids \<Longrightarrow> group_of_source pairs cols groups row = with_id mk (Some k) ids"
    and inj: "inj mk" and groups: "groups = mk ids"
    and path: "slice_list element_bytes (os ! row * 8) (os ! Suc row * 8 - os ! row * 8) = path" and v: "valid_at nl row"
  shows "reads mk (L @ [(k, path)]) (source_row pairs cols os nl element_bytes row (groups, entries, elements))"
proof -
  from r groups inj have ids: "ids_ok ids" "length ids \<le> length L" "8 dvd length elements"
    "length elements = sum_list (map (length \<circ> snd) L)" "sum_list (map (snd \<circ> snd) entries) * 8 = length elements"
    "list_all2 (\<lambda>(g, p) (k, path). (k, g) \<in> set ids \<and> path_bytes elements p = path \<and>
         (fst p + snd p) * 8 \<le> length elements) entries L"
    by (auto simp: reads_def dest: injD)
  obtain g ids' where e: "entry_or_insert k (length ids) ids = (g, ids')" by fastforce
  with entry_or_insert_ok [OF ids(1), of k] have ids': "ids_ok ids'" "(k, g) \<in> set ids'" "set ids \<subseteq> set ids'"
    "length ids' \<le> length ids + 1" by auto
  have "as_u32 (length ids) = length ids" using assms(3) ids(2) by (simp add: as_u32_def)
  then have gs: "group_of_source pairs cols groups row = (Some g, mk ids')"
    using mk [OF groups] by (simp add: with_id_def e)
  obtain q where q: "length elements = 8 * q" using ids(3) by (rule dvdE)
  have start: "as_u32 (length elements div 8) = q" "as_u32 (length (elements @ path) div 8) = q + n"
    using small q p ids(4) by (simp_all add: as_u32_def)
  have len: "sub_u32 (q + n) q = n" using small q ids(4) by (simp add: sub_u32_def)
  have step: "source_row pairs cols os nl element_bytes row (groups, entries, elements) =
      (mk ids', entries @ [(g, q, n)], elements @ path)"
    using v gs start len by (simp add: source_row_def path Let_def)
  have new: "path_bytes (elements @ path) (q, n) = path"
    using q p by (simp add: path_bytes_def slice_list_def mult.commute)
  have "list_all2 (\<lambda>(g, p) (k, path'). (k, g) \<in> set ids' \<and> path_bytes (elements @ path) p = path' \<and>
         (fst p + snd p) * 8 \<le> length (elements @ path)) entries L"
    by (rule list_all2_mono [OF ids(6)]) (use ids'(3) in \<open>auto simp: path_bytes_append\<close>)
  then have "list_all2 (\<lambda>(g, p) (k, path'). (k, g) \<in> set ids' \<and> path_bytes (elements @ path) p = path' \<and>
         (fst p + snd p) * 8 \<le> length (elements @ path)) (entries @ [(g, q, n)]) (L @ [(k, path)])"
    by (rule list_all2_appendI) (use ids'(2) q p new in simp)
  then show ?thesis
    unfolding step reads_def prod.case
    using ids ids' p by (intro exI [of _ ids']) auto
qed

lemma reads_skip:
  assumes "\<not> valid_at nl row \<or> group_of_source pairs cols groups row = (None, groups)"
  shows "source_row pairs cols os nl element_bytes row (groups, entries, elements) = (groups, entries, elements)"
  using assms by (auto simp: source_row_def)

definition keyed_path :: "(batch \<Rightarrow> nat \<Rightarrow> 'k option) \<Rightarrow> string \<Rightarrow> batch \<Rightarrow> nat \<Rightarrow> ('k \<times> u8 list) option" where
  "keyed_path key_at name b i =
     (case (key_at b i, path_of b name i) of (Some k, Some p) \<Rightarrow> Some (k, encoded_path p) | _ \<Rightarrow> None)"

definition batch_reads :: "(batch \<Rightarrow> nat \<Rightarrow> 'k option) \<Rightarrow> string \<Rightarrow> batch \<Rightarrow> ('k \<times> u8 list) list" where
  "batch_reads key_at name b = List.map_filter (keyed_path key_at name b) [0..<b_num_rows b]"

definition small_reads :: "('k \<times> u8 list) list \<Rightarrow> bool" where
  "small_reads L = (length L < 2 ^ 32 \<and> sum_list (map (length \<circ> snd) L) div 8 < 2 ^ 32)"

lemma small_reads_prefix: "small_reads (L @ R) \<Longrightarrow> small_reads L"
  by (simp add: small_reads_def) (meson div_le_mono le_add1 le_less_trans)

text \<open>A batch whose address column holds integer paths.\<close>

definition path_column :: "batch \<Rightarrow> string \<Rightarrow> nat list \<Rightarrow> int_column \<Rightarrow> nulls \<Rightarrow> bool" where
  "path_column b name os els n =
     (case els of (t, vs, m) \<Rightarrow>
        column_by_name b name = Some (AList False os (AInt t vs m) n) \<and>
        wf_array (AList False os (AInt t vs m) n) \<and> len (AList False os (AInt t vs m) n) = b_num_rows b)"

lemma path_column_list: "path_column b name os els n \<Longrightarrow> address_list b name = Some (os, n, els)"
  by (auto simp: path_column_def address_list_def split: prod.splits)

lemma path_column_row:
  assumes c: "path_column b name os els n" and i: "i < b_num_rows b"
  shows "path_of b name i = (if valid_at n i then Some (map (join_key els) [os ! i..<os ! Suc i]) else None)"
    and "slice_list (join_key_bytes els) (os ! i * 8) (os ! Suc i * 8 - os ! i * 8) =
      encoded_path (map (join_key els) [os ! i..<os ! Suc i])"
proof -
  obtain t vs m where els: "els = (t, vs, m)" by (cases els)
  with c have col: "column_by_name b name = Some (AList False os (AInt t vs m) n)"
    and wf: "wf_array (AList False os (AInt t vs m) n)" "len (AList False os (AInt t vs m) n) = b_num_rows b"
    unfolding path_column_def by (simp_all only: prod.case)
  have "i < length os - 1" using i wf(2) by simp
  note os = wf_offsets [OF wf(1) this]
  show "path_of b name i = (if valid_at n i then Some (map (join_key els) [os ! i..<os ! Suc i]) else None)"
    by (simp add: path_of_def col key_value_at_def is_null_def els join_key_def)
  have bytes: "join_key_bytes els = encoded_path (map stored_key vs)"
    by (simp add: els encoded_path_def comp_def)
  have "take (os ! Suc i - os ! i) (drop (os ! i) (map stored_key vs)) = map (join_key els) [os ! i..<os ! Suc i]"
    using os by (intro nth_equalityI) (auto simp: els join_key_def)
  then show "slice_list (join_key_bytes els) (os ! i * 8) (os ! Suc i * 8 - os ! i * 8) =
      encoded_path (map (join_key els) [os ! i..<os ! Suc i])"
    unfolding bytes slice_list_def drop_encoded_path diff_mult_distrib [symmetric] take_encoded_path by simp
qed

definition reads_by :: "(('k, nat) omap \<Rightarrow> group_ids) \<Rightarrow> (batch \<Rightarrow> nat \<Rightarrow> 'k option) \<Rightarrow> string list \<Rightarrow> batch \<Rightarrow> bool" where
  "reads_by mk key_at grouping b \<longleftrightarrow> (\<forall>row < b_num_rows b. \<forall>ids.
     group_of_source (pair_keys_of b grouping) (typed_key_columns b grouping) (mk ids) row = with_id mk (key_at b row) ids)"

lemma source_batch_reads:
  assumes c: "path_column b name os els n" and m: "reads_by mk key_at grouping b" and inj: "inj mk"
    and r: "reads mk L st" and small: "small_reads (L @ batch_reads key_at name b)"
  shows "reads mk (L @ batch_reads key_at name b) (source_batch grouping name b st)"
proof -
  let ?step = "source_row (pair_keys_of b grouping) (typed_key_columns b grouping) os n (join_key_bytes els)"
  have "reads mk (L @ List.map_filter (keyed_path key_at name b) [0..<i]) (fold ?step [0..<i] st)" if "i \<le> b_num_rows b" for i
    using that
  proof (induction i)
    case 0
    with r show ?case by (simp add: map_filter_simps)
  next
    case (Suc i)
    then have i: "i < b_num_rows b" by simp
    let ?L = "L @ List.map_filter (keyed_path key_at name b) [0..<i]"
    from Suc have IH: "reads mk ?L (fold ?step [0..<i] st)" by simp
    obtain groups entries elements where s: "fold ?step [0..<i] st = (groups, entries, elements)" by (cases "fold ?step [0..<i] st")
    with IH obtain ids where ids: "groups = mk ids" by (auto simp: reads_def)
    have g: "group_of_source (pair_keys_of b grouping) (typed_key_columns b grouping) groups i = with_id mk (key_at b i) ids"
      using m i by (simp add: reads_by_def ids)
    have app: "List.map_filter f (xs @ [x]) = List.map_filter f xs @ (case f x of None \<Rightarrow> [] | Some y \<Rightarrow> [y])" for f :: "nat \<Rightarrow> ('k \<times> u8 list) option" and xs x
      by (simp add: map_filter_def split: option.split)
    note row = path_column_row [OF c i]
    show ?case
    proof (cases "keyed_path key_at name b i")
      case None
      then have "\<not> valid_at n i \<or> key_at b i = None"
        using row(1) by (auto simp: keyed_path_def split: option.splits if_splits)
      then have "?step i (groups, entries, elements) = (groups, entries, elements)"
        using g by (intro reads_skip) (auto simp: ids with_id_def)
      with IH None s show ?thesis by (simp add: app)
    next
      case (Some kp)
      then obtain k where k: "key_at b i = Some k" "valid_at n i" "kp = (k, encoded_path (map (join_key els) [os ! i..<os ! Suc i]))"
        using row(1) by (auto simp: keyed_path_def split: option.splits if_splits)
      have "small_reads (?L @ [kp])"
      proof -
        have "[0..<b_num_rows b] = [0..<i] @ [i] @ [Suc i..<b_num_rows b]"
          using i upt_add_eq_append [of 0 i "b_num_rows b - i"] by (simp add: upt_conv_Cons)
        then have "batch_reads key_at name b =
            List.map_filter (keyed_path key_at name b) ([0..<i] @ [i]) @ List.map_filter (keyed_path key_at name b) [Suc i..<b_num_rows b]"
          by (simp add: batch_reads_def map_filter_def)
        with small have "small_reads ((?L @ [kp]) @ List.map_filter (keyed_path key_at name b) [Suc i..<b_num_rows b])"
          by (simp add: app Some)
        then show ?thesis by (rule small_reads_prefix)
      qed
      then have "length ?L + 1 < 2 ^ 32"
        "sum_list (map (length \<circ> snd) ?L) div 8 + length (map (join_key els) [os ! i..<os ! Suc i]) < 2 ^ 32"
        by (simp_all add: small_reads_def k(3) add.assoc [symmetric])
      then have "reads mk (?L @ [(k, encoded_path (map (join_key els) [os ! i..<os ! Suc i]))]) (?step i (groups, entries, elements))"
        using IH g k ids inj row(2) by (intro reads_more) (simp_all add: s)
      with s k(3) Some show ?thesis by (simp add: app)
    qed
  qed
  from this [of "b_num_rows b"] show ?thesis
    by (simp add: source_batch_def path_column_list [OF c] batch_reads_def)
qed

lemma sources_reads:
  assumes bs: "\<forall>b \<in> set bs. (\<exists>os els n. path_column b name os els n) \<and> reads_by mk key_at grouping b" and inj: "inj mk"
    and r: "reads mk L st" and small: "small_reads (L @ concat (map (batch_reads key_at name) bs))"
  shows "reads mk (L @ concat (map (batch_reads key_at name) bs)) (fold (source_batch grouping name) bs st)"
  using bs r small
proof (induction bs arbitrary: L st)
  case (Cons b bs)
  then have "small_reads ((L @ batch_reads key_at name b) @ concat (map (batch_reads key_at name) bs))" by simp
  then have "small_reads (L @ batch_reads key_at name b)" by (rule small_reads_prefix)
  with Cons.prems inj have "reads mk (L @ batch_reads key_at name b) (source_batch grouping name b st)"
    using source_batch_reads by (metis list.set_intros(1))
  with Cons.IH [of "L @ batch_reads key_at name b" "source_batch grouping name b st"] Cons.prems show ?case by simp
qed simp

lemma counting_folds:
  "fold count_group entries s = fold (\<lambda>h s. s[fst h + 1 := s ! (fst h + 1) + 1]) entries s"
  "sum_groups n c = fold (\<lambda>k s. s[k := s ! k + s ! (k - 1)]) [1..<n + 1] c"
  "fold order_entry entries z = fold put_hit entries z"
proof -
  have "count_group = (\<lambda>h s. s[fst h + 1 := s ! (fst h + 1) + 1])" by (auto simp: fun_eq_iff count_group_def)
  then show "fold count_group entries s = fold (\<lambda>h s. s[fst h + 1 := s ! (fst h + 1) + 1]) entries s" by simp
  have "[1..<n + 1] = map Suc [0..<n]" by (simp add: map_Suc_upt)
  then show "sum_groups n c = fold (\<lambda>k s. s[k := s ! k + s ! (k - 1)]) [1..<n + 1] c"
    by (simp add: sum_groups_def fold_map comp_def del: upt_Suc)
  have "order_entry = put_hit" by (auto simp: fun_eq_iff order_entry_def)
  then show "fold order_entry entries z = fold put_hit entries z" by simp
qed

lemma below_count_all: "\<forall>h \<in> set hs. fst h < m \<Longrightarrow> below_count m hs = length hs"
  by (simp add: below_count_def)

lemma grouped_all:
  assumes e: "\<forall>e \<in> set entries. fst e < m" and small: "length entries < 2 ^ 32"
    and S: "S = sum_groups m (fold count_group entries (replicate (m + 1) 0))"
    and O: "Ord = snd (fold order_entry entries (S, replicate (length entries) (0, 0)))"
  shows "grouped els entries m (fold (group_paths_step els S Ord) [0..<m] ([], []))"
proof -
  have s: "S = map (\<lambda>g. below_count g entries) [0..<m + 1]"
    unfolding S counting_folds by (rule summed_counts [OF e])
  have own: "slice_list Ord (S ! g) (S ! (g + 1) - S ! g) = class_rows g entries" if "g < m" for g
  proof -
    have "S ! (g + 1) - S ! g = length (class_rows g entries)"
      using that by (simp add: s below_count_Suc del: upt_Suc)
    then show ?thesis
      using placed [OF e s, of "replicate (length entries) (0, 0)"] that
      by (simp add: slice_list_def O counting_folds(3) below_count_all [OF e])
  qed
  have "n \<le> m \<Longrightarrow> grouped els entries n (fold (group_paths_step els S Ord) [0..<n] ([], []))" for n
  proof (induction n)
    case 0
    then show ?case by (simp add: grouped_def)
  next
    case (Suc n)
    obtain ranges paths where "fold (group_paths_step els S Ord) [0..<n] ([], []) = (ranges, paths)" by fastforce
    with grouped_step [of els entries n ranges paths Ord S] own [of n] small Suc show ?case by simp
  qed
  then show ?thesis by simp
qed

text \<open>What the built index holds.\<close>

definition index_holds :: "(('k, nat) omap \<Rightarrow> group_ids) \<Rightarrow> ('k \<times> u8 list) list \<Rightarrow> source_addresses \<Rightarrow> bool" where
  "index_holds mk L sa \<longleftrightarrow>
     (\<exists>ids. sa_groups sa = mk ids \<and> ids_ok ids \<and> length (sa_ranges sa) = length ids \<and> length ids < 2 ^ 32 \<and>
        (\<forall>(k, p) \<in> set L. k \<in> fst ` set ids) \<and>
        (\<forall>(k, g) \<in> set ids. sorted_wrt (<) (group_paths sa g) \<and> set (group_paths sa g) = {p. (k, p) \<in> set L})) \<and>
     concat (map (range_slice (sa_paths sa)) (sa_ranges sa)) = sa_paths sa \<and>
     length (sa_paths sa) < 2 ^ 32 \<and> (\<forall>p \<in> set (sa_paths sa). length (path_bytes (sa_elements sa) p) = snd p * 8) \<and>
     sum_list (map snd (sa_paths sa)) < 2 ^ 32 \<and>
     (sa_exact sa = None \<or> sa_exact sa = Some (exact_index sa))"

lemma class_reads:
  assumes "list_all2 (\<lambda>(g, p) (k, path). (k, g) \<in> set ids \<and> path_bytes els p = path \<and> Q g p) entries L"
    and "ids_ok ids" and "(k, g) \<in> set ids"
  shows "path_bytes els ` set (class_rows g entries) = {p. (k, p) \<in> set L}"
  using assms(1)
proof (induction rule: list_all2_induct)
  case Nil
  then show ?case by (simp add: class_rows_def)
next
  case (Cons e entries x L)
  obtain g' p where e: "e = (g', p)" by (cases e)
  obtain k' path where x: "x = (k', path)" by (cases x)
  from Cons.hyps e x have in_ids: "(k', g') \<in> set ids" and path: "path_bytes els p = path" by auto
  have "distinct (map fst ids)" "distinct (map snd ids)" using assms(2) by (simp_all add: ids_ok_def)
  then have "k' = k \<longleftrightarrow> g' = g"
    using in_ids assms(3) by (metis eq_key_imp_eq_value distinct_map inj_on_def fst_conv snd_conv)
  with Cons.IH path show ?case by (auto simp: e x class_rows_def)
qed

lemma sources_build_holds:
  assumes bs: "\<forall>b \<in> set bs. (\<exists>os els n. path_column b name os els n) \<and> reads_by mk key_at grouping b" and inj: "inj mk"
    and init: "(if uses_pairs bs grouping then PairIds [] else ByteIds []) = mk []"
    and size_mk: "\<And>ids. groups_len (mk ids) = length ids"
    and L: "L = concat (map (batch_reads key_at name) bs)" and small: "small_reads L"
  shows "index_holds mk L (sources_build bs grouping name)"
proof -
  define st where "st = fold (source_batch grouping name) bs (mk [], [], [])"
  have "reads mk [] (mk [], [], [])" by (auto simp: reads_def ids_ok_def)
  from sources_reads [OF bs inj this, of ] small L have r: "reads mk L st" by (simp add: st_def)
  obtain groups entries els where s: "st = (groups, entries, els)" by (cases st)
  from r s obtain ids where ids: "groups = mk ids" "ids_ok ids" "length ids \<le> length L"
    "length els = sum_list (map (length \<circ> snd) L)" "sum_list (map (snd \<circ> snd) entries) * 8 = length els"
    and all: "list_all2 (\<lambda>(g, p) (k, path). (k, g) \<in> set ids \<and> path_bytes els p = path \<and>
         (fst p + snd p) * 8 \<le> length els) entries L"
    by (auto simp: reads_def)
  define m where "m = length ids"
  have len: "length entries = length L" using all by (rule list_all2_lengthD)
  have id_less: "g < m" if "(k, g) \<in> set ids" for k g
  proof -
    have "g \<in> set (map snd ids)" using that by force
    with ids(2) show ?thesis by (simp add: ids_ok_def m_def)
  qed
  have e: "\<forall>e \<in> set entries. fst e < m"
    using list_all2_left [OF all] id_less by fastforce
  define S where "S = sum_groups m (fold count_group entries (replicate (m + 1) 0))"
  define Ord where "Ord = snd (fold order_entry entries (S, replicate (length entries) (0, 0)))"
  obtain ranges paths where g: "fold (group_paths_step els S Ord) [0..<m] ([], []) = (ranges, paths)" by fastforce
  have small_entries: "length entries < 2 ^ 32" using small len by (simp add: small_reads_def)
  from grouped_all [OF e small_entries S_def Ord_def, of els] g have grouped: "grouped els entries m (ranges, paths)" by simp
  define sa where "sa = \<lparr>sa_groups = groups, sa_ranges = ranges, sa_paths = paths, sa_elements = els, sa_exact = None\<rparr>"
  have built: "sources_build bs grouping name = sa \<or> sources_build bs grouping name = sa\<lparr>sa_exact := Some (exact_index sa)\<rparr>"
    using g s unfolding st_def init [symmetric]
    by (simp add: sources_build_def Let_def sa_def ids(1) size_mk m_def S_def Ord_def case_prod_beta' del: replicate_Suc split: if_splits)
  have lengths: "length (path_bytes els p) = snd p * 8" if "p \<in> set paths" for p
  proof -
    from that grouped obtain g where "(g, p) \<in> set entries" by (auto simp: grouped_def)
    with list_all2_left [OF all] have "(fst p + snd p) * 8 \<le> length els" by fastforce
    then show ?thesis by (cases p) (simp add: path_bytes_def slice_list_def)
  qed
  have sums: "sum_list (map snd paths) < 2 ^ 32"
  proof -
    have "filter (\<lambda>e. fst e < m) entries = entries" using e by simp
    then have "sum_list (map snd paths) \<le> sum_list (map (snd \<circ> snd) entries)" using grouped by (simp add: grouped_def)
    moreover have "sum_list (map (snd \<circ> snd) entries) = sum_list (map (length \<circ> snd) L) div 8" using ids(4, 5) by simp
    ultimately show ?thesis using small by (simp add: small_reads_def)
  qed
  have count: "length paths < 2 ^ 32" "m < 2 ^ 32"
    using grouped below_count_length [of m entries] small_entries ids(3) len by (simp_all add: grouped_def m_def)
  have group: "sorted_wrt (<) (group_paths sa g) \<and> set (group_paths sa g) = {p. (k, p) \<in> set L}" if "(k, g) \<in> set ids" for k g
  proof -
    have "group_paths sa g = map (path_bytes els) (range_slice paths (ranges ! g))"
      by (simp add: group_paths_def sa_def range_slice_def case_prod_beta' Let_def)
    with grouped id_less [OF that] class_reads [OF all ids(2) that] show ?thesis by (simp add: grouped_def)
  qed
  have keys: "k \<in> fst ` set ids" if "(k, p) \<in> set L" for k p
    using list_all2_right [OF all that] by force
  have exact: "exact_index (sa\<lparr>sa_exact := x\<rparr>) = exact_index sa" "group_paths (sa\<lparr>sa_exact := x\<rparr>) = group_paths sa" for x
    by (simp_all add: exact_index_def walk_def group_paths_def fun_eq_iff)
  have "index_holds mk L sa"
    unfolding index_holds_def
    using ids(1, 2) grouped group keys sums count lengths
    by (auto simp: sa_def grouped_def m_def)
  then have "index_holds mk L (sa\<lparr>sa_exact := Some (exact_index sa)\<rparr>)"
    by (simp add: index_holds_def exact)
  with \<open>index_holds mk L sa\<close> built show ?thesis by auto
qed

section \<open>Facts on asking\<close>

lemma partition_drop:
  fixes ps :: "'a :: linorder list"
  assumes "sorted_wrt (<) ps"
  shows "drop (partition_point (\<lambda>p. p < t) ps) ps = filter (\<lambda>p. t \<le> p) ps"
  using assms
proof (induction ps)
  case (Cons p ps)
  show ?case
  proof (cases "p < t")
    case False
    with Cons.prems have "\<forall>q \<in> set ps. t \<le> q" by auto
    with False show ?thesis by (simp add: partition_point_def filter_id_conv)
  qed (use Cons in \<open>simp add: partition_point_def\<close>)
qed (simp add: partition_point_def)

lemma get_drop: "get xs i = (case drop i xs of [] \<Rightarrow> None | x # _ \<Rightarrow> Some x)"
  by (cases "i < length xs") (simp_all add: get_def Cons_nth_drop_Suc [symmetric])

lemma filter_ge_cases:
  fixes ps :: "'a :: linorder list"
  assumes "sorted_wrt (<) ps" and "filter (\<lambda>p. t \<le> p) ps = p # rest"
  shows "p \<in> set ps" "t \<le> p" "\<And>q. q \<in> set ps \<Longrightarrow> t \<le> q \<Longrightarrow> q = p \<or> q \<in> set rest" "\<And>q. q \<in> set rest \<Longrightarrow> q \<in> set ps \<and> p < q"
    "sorted_wrt (<) rest"
proof -
  have s: "sorted_wrt (<) (p # rest)" using assms by (metis sorted_wrt_filter)
  have m: "set (p # rest) = {q \<in> set ps. t \<le> q}" unfolding assms(2) [symmetric] by auto
  show "p \<in> set ps" "t \<le> p" using m by auto
  show "q \<in> set ps \<Longrightarrow> t \<le> q \<Longrightarrow> q = p \<or> q \<in> set rest" for q using m by auto
  show "q \<in> set rest \<Longrightarrow> q \<in> set ps \<and> p < q" for q using m s by auto
  show "sorted_wrt (<) rest" using s by simp
qed

lemma found_path_iff:
  assumes "sorted_wrt (<) ps"
  shows "found_path ps t \<longleftrightarrow> t \<in> set ps"
proof (cases "filter (\<lambda>p. t \<le> p) ps")
  case Nil
  then have "t \<notin> set ps" by (auto simp: filter_empty_conv)
  with Nil show ?thesis by (simp add: found_path_def get_drop partition_drop [OF assms])
next
  case (Cons p rest)
  note c = filter_ge_cases [OF assms Cons]
  have "t \<in> set ps \<longleftrightarrow> p = t" using c by (metis leD order_refl)
  with Cons show ?thesis by (simp add: found_path_def get_drop partition_drop [OF assms])
qed

text \<open>The extensions of a list follow it in the order, with nothing else between.\<close>

lemma starts_with_le: "starts_with q t \<Longrightarrow> t \<le> q"
proof (induction t arbitrary: q)
  case (Cons a t)
  then show ?case by (cases q) (auto simp: starts_with_def)
qed simp

lemma starts_with_between: "t \<le> p \<Longrightarrow> p \<le> q \<Longrightarrow> starts_with q t \<Longrightarrow> starts_with p t"
proof (induction t arbitrary: p q)
  case (Cons a t)
  then obtain q' where q: "q = a # q'" "starts_with q' t" by (cases q) (auto simp: starts_with_def)
  with Cons.prems obtain p' where p: "p = a # p'" "t \<le> p'" "p' \<le> q'" by (cases p) auto
  with Cons.IH [of p' q'] q show ?case by (simp add: starts_with_def)
qed (simp add: starts_with_def)

lemma extensions_iff:
  assumes s: "sorted_wrt (<) ps"
  shows "(case drop (partition_point (\<lambda>p. p < t) ps) ps of
      [] \<Rightarrow> False
    | p # rest \<Rightarrow>
        if p = t then inclusive \<or> (case rest of [] \<Rightarrow> False | q # _ \<Rightarrow> starts_with q t) else starts_with p t) \<longleftrightarrow>
    (\<exists>q \<in> set ps. starts_with q t \<and> (inclusive \<or> q \<noteq> t))"
proof (cases "filter (\<lambda>p. t \<le> p) ps")
  case Nil
  then have "\<not> starts_with q t" if "q \<in> set ps" for q
    using that starts_with_le by (auto simp: filter_empty_conv)
  with Nil show ?thesis by (simp add: partition_drop [OF s])
next
  case (Cons p rest)
  note c = filter_ge_cases [OF s Cons]
  have self: "starts_with t t" by (simp add: starts_with_def)
  show ?thesis
  proof (cases "p = t")
    case True
    show ?thesis
    proof (cases rest)
      case Nil
      then have "q = t" if "q \<in> set ps" "starts_with q t" for q
        using c(3) [OF that(1) starts_with_le [OF that(2)]] True by simp
      with Nil Cons True c(1) self show ?thesis by (auto simp: partition_drop [OF s])
    next
      case r: (Cons r rs)
      have "starts_with r t" if "q \<in> set ps" "starts_with q t" "q \<noteq> t" for q
      proof (rule starts_with_between)
        from that c(3) [OF that(1) starts_with_le [OF that(2)]] True have "q \<in> set rest" by auto
        with r c(5) show "r \<le> q" by auto
        show "t \<le> r" using c(4) [of r] r True by auto
        show "starts_with q t" by fact
      qed
      moreover have "r \<in> set ps" "r \<noteq> t" using c(4) [of r] r True by auto
      ultimately show ?thesis using r Cons True c(1) self by (auto simp: partition_drop [OF s])
    qed
  next
    case False
    have "starts_with p t" if "q \<in> set ps" "starts_with q t" for q
    proof (rule starts_with_between)
      from c(3) [OF that(1) starts_with_le [OF that(2)]] c(4) [of q] show "p \<le> q" by auto
      show "t \<le> p" "starts_with q t" by (fact c(2), fact that(2))
    qed
    with False Cons c(1) show ?thesis by (auto simp: partition_drop [OF s])
  qed
qed

lemma walk_group_paths: "map pv_path (walk_group els g hashes previous ps) = ps"
  by (induction ps arbitrary: hashes previous) (simp_all add: Let_def)

lemma group_paths_slice: "group_paths sa g = map (path_bytes (sa_elements sa)) (range_slice (sa_paths sa) (sa_ranges sa ! g))"
  by (simp add: group_paths_def range_slice_def case_prod_beta' Let_def)

lemma prefix_hashes_start: "[path_hash_start g] = prefix_hashes g []"
  by (simp add: prefix_hashes_def)

text \<open>An index whose addresses all stand for paths of integers.\<close>

definition path_index_ok :: "source_addresses \<Rightarrow> bool" where
  "path_index_ok sa \<longleftrightarrow> length (sa_ranges sa) < 2 ^ 32 \<and>
     concat (map (range_slice (sa_paths sa)) (sa_ranges sa)) = sa_paths sa \<and>
     length (sa_paths sa) < 2 ^ 32 \<and> sum_list (map snd (sa_paths sa)) < 2 ^ 32 \<and>
     (\<forall>p \<in> set (sa_paths sa). \<exists>q. path_bytes (sa_elements sa) p = encoded_path q \<and> snd p = length q) \<and>
     (\<forall>g < length (sa_ranges sa). sorted_wrt (<) (group_paths sa g)) \<and>
     (sa_exact sa = None \<or> sa_exact sa = Some (exact_index sa))"

definition group_walk :: "source_addresses \<Rightarrow> nat \<Rightarrow> path_visit list" where
  "group_walk sa g =
     walk_group (sa_elements sa) g [path_hash_start g] [] (range_slice (sa_paths sa) (sa_ranges sa ! g))"

lemma walk_groups:
  assumes "path_index_ok sa"
  shows "walk sa = concat (map (group_walk sa) [0..<length (sa_ranges sa)])"
proof -
  have "enumerate 0 (sa_ranges sa) = map (\<lambda>g. (g, sa_ranges sa ! g)) [0..<length (sa_ranges sa)]"
    by (intro nth_equalityI) (simp_all add: nth_enumerate_eq)
  moreover have "as_u32 g = g" if "g < length (sa_ranges sa)" for g
    using that assms by (simp add: as_u32_def path_index_ok_def)
  ultimately show ?thesis
    by (auto simp: walk_def group_walk_def range_slice_def comp_def case_prod_beta' intro!: arg_cong [of _ _ concat])
qed

lemma group_slice_mem: "path_index_ok sa \<Longrightarrow> g < length (sa_ranges sa) \<Longrightarrow>
    p \<in> set (range_slice (sa_paths sa) (sa_ranges sa ! g)) \<Longrightarrow> p \<in> set (sa_paths sa)"
  unfolding path_index_ok_def by (metis (no_types, lifting) UN_I list.set_map nth_mem set_concat image_eqI)

text \<open>A visited path: the integers it stands for, and the hashes of its prefixes.\<close>

lemma group_walk_visit:
  assumes ok: "path_index_ok sa" and g: "g < length (sa_ranges sa)" and v: "v \<in> set (group_walk sa g)"
  shows "\<exists>q. path_bytes (sa_elements sa) (pv_path v) = encoded_path q \<and> snd (pv_path v) = length q \<and> pv_group v = g \<and>
    encoded_path q \<in> set (group_paths sa g) \<and> length (pv_hashes v) = length q + 1 \<and>
    (\<forall>d \<le> length q. pv_hashes v ! d = path_hash g (encoded_path (take d q)))"
proof -
  from walk_group_hashes [OF prefix_hashes_start v [unfolded group_walk_def]]
  have w: "pv_group v = g" "pv_path v \<in> set (range_slice (sa_paths sa) (sa_ranges sa ! g))"
    "pv_hashes v = prefix_hashes g (as_chunks (path_bytes (sa_elements sa) (pv_path v)))" by blast+
  from ok group_slice_mem [OF ok g w(2)] obtain q where
    q: "path_bytes (sa_elements sa) (pv_path v) = encoded_path q" "snd (pv_path v) = length q"
    by (auto simp: path_index_ok_def)
  have "encoded_path q \<in> set (group_paths sa g)"
    unfolding group_paths_slice q(1) [symmetric] using w(2) by simp
  moreover have "pv_hashes v ! d = path_hash g (encoded_path (take d q))" if "d \<le> length q" for d
    using that w(3) q by (simp add: prefix_hashes_def path_hash_def take_map del: upt_Suc)
  ultimately show ?thesis
    using q w by (intro exI [of _ q]) (simp add: prefix_hashes_def)
qed

lemma walk_paths:
  assumes "path_index_ok sa"
  shows "map pv_path (walk sa) = sa_paths sa"
proof -
  have "map pv_path (walk sa) = concat (map (\<lambda>g. range_slice (sa_paths sa) (sa_ranges sa ! g)) [0..<length (sa_ranges sa)])"
    by (simp add: walk_groups [OF assms] map_concat group_walk_def walk_group_paths comp_def)
  also have "map (\<lambda>g. range_slice (sa_paths sa) (sa_ranges sa ! g)) [0..<length (sa_ranges sa)] =
      map (range_slice (sa_paths sa)) (map ((!) (sa_ranges sa)) [0..<length (sa_ranges sa)])" by simp
  also have "\<dots> = map (range_slice (sa_paths sa)) (sa_ranges sa)" by (simp only: map_nth)
  finally show ?thesis using assms by (simp add: path_index_ok_def)
qed

lemma exact_index_iff:
  assumes ok: "path_index_ok sa" and g: "g < length (sa_ranges sa)"
  shows "path_index_contains (exact_index sa) (path_hash g (encoded_path q)) g (encoded_path q) (sa_elements sa) \<longleftrightarrow>
    encoded_path q \<in> set (group_paths sa g)"
proof -
  let ?es = "map (\<lambda>v. (pv_hashes v ! snd (pv_path v), pv_group v, pv_path v)) (walk sa)"
  have "length (walk sa) = length (sa_paths sa)" using arg_cong [OF walk_paths [OF ok], of length] by simp
  then have small: "length ?es < 2 ^ 32" using ok by (simp add: path_index_ok_def)
  show ?thesis
  proof
    assume "path_index_contains (exact_index sa) (path_hash g (encoded_path q)) g (encoded_path q) (sa_elements sa)"
    then obtain v where v: "v \<in> set (walk sa)" "pv_group v = g" "path_bytes (sa_elements sa) (pv_path v) = encoded_path q"
      unfolding exact_index_def path_index_iff [OF small] by auto
    then obtain g' where g': "g' < length (sa_ranges sa)" "v \<in> set (group_walk sa g')" by (auto simp: walk_groups [OF ok])
    with group_walk_visit [OF ok g'] v(2, 3) show "encoded_path q \<in> set (group_paths sa g)" by auto
  next
    assume "encoded_path q \<in> set (group_paths sa g)"
    then obtain p where p: "p \<in> set (range_slice (sa_paths sa) (sa_ranges sa ! g))"
      "path_bytes (sa_elements sa) p = encoded_path q" by (auto simp: group_paths_slice)
    have "p \<in> set (map pv_path (group_walk sa g))" using p(1) by (simp only: group_walk_def walk_group_paths)
    then obtain v where v: "v \<in> set (group_walk sa g)" "pv_path v = p" by auto
    from group_walk_visit [OF ok g v(1)] p(2) v(2) have "pv_hashes v ! snd (pv_path v) = path_hash g (encoded_path q)" "pv_group v = g"
      by auto
    moreover have "v \<in> set (walk sa)" using v(1) g by (auto simp: walk_groups [OF ok])
    ultimately have "(path_hash g (encoded_path q), g, p) \<in> set ?es" using v(2) by force
    with p(2) show "path_index_contains (exact_index sa) (path_hash g (encoded_path q)) g (encoded_path q) (sa_elements sa)"
      unfolding exact_index_def path_index_iff [OF small] by blast
  qed
qed

lemma visit_prefix_entries:
  "set (drop n (enumerate 0 (take m hs))) = {(d, hs ! d) | d. n \<le> d \<and> d < min m (length hs)}"
proof -
  have "drop n (enumerate 0 (take m hs)) = map (\<lambda>d. (d, hs ! d)) [n..<min (length hs) m]"
  proof (rule nth_equalityI)
    fix i assume "i < length (drop n (enumerate 0 (take m hs)))"
    then have i: "n + i < length hs" "n + i < m" by simp_all
    then have "[n..<min (length hs) m] ! i = n + i" by (intro nth_upt) simp
    with i show "drop n (enumerate 0 (take m hs)) ! i = map (\<lambda>d. (d, hs ! d)) [n..<min (length hs) m] ! i"
      by (simp add: nth_enumerate_eq)
  qed simp
  then show ?thesis by auto
qed

lemma prefix_index_iff:
  assumes ok: "path_index_ok sa" and g: "g < length (sa_ranges sa)"
  shows "path_index_contains (prefix_index sa) (path_hash g (encoded_path q)) g (encoded_path q) (sa_elements sa) \<longleftrightarrow>
    (\<exists>r. encoded_path r \<in> set (group_paths sa g) \<and> strict_prefix q r)"
proof -
  define es_of where "es_of v = map (\<lambda>(depth, h). (h, pv_group v, fst (pv_path v), as_u32 depth))
      (drop (pv_new_from v) (enumerate 0 (take (snd (pv_path v)) (pv_hashes v))))" for v :: path_visit
  let ?es = "concat (map es_of (walk sa))"
  have "length (es_of v) \<le> snd (pv_path v)" for v by (simp add: es_of_def)
  then have "length ?es \<le> sum_list (map snd (map pv_path (walk sa)))"
    by (simp add: length_concat comp_def sum_list_mono)
  then have small: "length ?es < 2 ^ 32" using ok by (simp add: walk_paths [OF ok] path_index_ok_def)
  have short: "snd p < 2 ^ 32" if "p \<in> set (sa_paths sa)" for p
  proof -
    have "snd p \<le> sum_list (map snd (sa_paths sa))" using that by (simp add: member_le_sum_list)
    with ok show ?thesis by (simp add: path_index_ok_def)
  qed
  have entry: "e \<in> set (es_of v) \<longleftrightarrow>
      (\<exists>d. pv_new_from v \<le> d \<and> d < length r \<and> e = (path_hash g' (encoded_path (take d r)), g', fst (pv_path v), d))"
    if "g' < length (sa_ranges sa)" "v \<in> set (group_walk sa g')"
      "path_bytes (sa_elements sa) (pv_path v) = encoded_path r" for e v g' r
  proof -
    from group_walk_visit [OF ok that(1, 2)] that(3) have w: "snd (pv_path v) = length r" "pv_group v = g'"
      "length (pv_hashes v) = length r + 1" "\<And>d. d \<le> length r \<Longrightarrow> pv_hashes v ! d = path_hash g' (encoded_path (take d r))"
      by auto
    have "v \<in> set (walk sa)" using that(1, 2) by (auto simp: walk_groups [OF ok])
    then have "pv_path v \<in> set (map pv_path (walk sa))" by simp
    with short w(1) have "length r < 2 ^ 32" by (metis walk_paths [OF ok])
    then have "as_u32 d = d" if "d < length r" for d using that by (simp add: as_u32_def)
    then show ?thesis
      using w by (auto simp: es_of_def visit_prefix_entries image_iff)
  qed
  show ?thesis
  proof
    assume "path_index_contains (prefix_index sa) (path_hash g (encoded_path q)) g (encoded_path q) (sa_elements sa)"
    then obtain p v where v: "v \<in> set (walk sa)" "(path_hash g (encoded_path q), g, p) \<in> set (es_of v)"
      "path_bytes (sa_elements sa) p = encoded_path q"
      unfolding prefix_index_def es_of_def [symmetric] path_index_iff [OF small] by auto
    then obtain g' where g': "g' < length (sa_ranges sa)" "v \<in> set (group_walk sa g')" by (auto simp: walk_groups [OF ok])
    with group_walk_visit [OF ok g'] obtain r where r: "path_bytes (sa_elements sa) (pv_path v) = encoded_path r"
      "encoded_path r \<in> set (group_paths sa g')" "snd (pv_path v) = length r" by blast
    from entry [OF g' r(1)] v(2) obtain d where d: "d < length r" "g = g'" "p = (fst (pv_path v), d)" by auto
    have "encoded_path q = take (d * 8) (path_bytes (sa_elements sa) (pv_path v))"
      using v(3) d r(3) by (cases "pv_path v") (simp add: path_bytes_def slice_list_def min_def)
    then have "q = take d r" by (simp add: r(1) take_encoded_path)
    then have "length q = d" "prefix q r" using d(1) take_is_prefix [of d r] by simp_all
    then have "strict_prefix q r" using d(1) by (auto simp: strict_prefix_def)
    with r d show "\<exists>r. encoded_path r \<in> set (group_paths sa g) \<and> strict_prefix q r" by blast
  next
    assume "\<exists>r. encoded_path r \<in> set (group_paths sa g) \<and> strict_prefix q r"
    then obtain r p where r: "strict_prefix q r" and p: "p \<in> set (range_slice (sa_paths sa) (sa_ranges sa ! g))"
      "path_bytes (sa_elements sa) p = encoded_path r" by (auto simp: group_paths_slice)
    define d where "d = length q"
    have d: "d < length r" "take d r = q" using r by (auto simp: d_def strict_prefix_def prefix_def)
    from walk_group_prefixes [of p "range_slice (sa_paths sa) (sa_ranges sa ! g)" d "sa_elements sa" "[]" g "[path_hash_start g]"]
    obtain v where v: "v \<in> set (group_walk sa g)" "pv_new_from v \<le> d"
      "d < length (as_chunks (path_bytes (sa_elements sa) (pv_path v)))"
      "take d (as_chunks (path_bytes (sa_elements sa) (pv_path v))) = take d (as_chunks (encoded_path r))"
      using p d(1) by (auto simp: group_walk_def)
    from group_walk_visit [OF ok g v(1)] obtain r' where r': "path_bytes (sa_elements sa) (pv_path v) = encoded_path r'"
      "snd (pv_path v) = length r'" by blast
    have "inj to_be_bytes" by (rule injI) simp
    with v(3, 4) r'(1) d have "d < length r'" "take d r' = q"
      by (simp_all add: take_map inj_map_eq_map)
    with entry [OF g v(1) r'(1)] v(2) have "(path_hash g (encoded_path q), g, (fst (pv_path v), d)) \<in> set (es_of v)" by auto
    moreover have "path_bytes (sa_elements sa) (fst (pv_path v), d) = encoded_path q"
    proof -
      have "path_bytes (sa_elements sa) (fst (pv_path v), d) = take (d * 8) (path_bytes (sa_elements sa) (pv_path v))"
        using r'(2) \<open>d < length r'\<close> by (cases "pv_path v") (simp add: path_bytes_def slice_list_def min_def)
      with \<open>take d r' = q\<close> show ?thesis by (simp add: r'(1) take_encoded_path)
    qed
    moreover have "v \<in> set (walk sa)" using v(1) g by (auto simp: walk_groups [OF ok])
    ultimately show "path_index_contains (prefix_index sa) (path_hash g (encoded_path q)) g (encoded_path q) (sa_elements sa)"
      unfolding prefix_index_def es_of_def [symmetric] path_index_iff [OF small] by auto
  qed
qed

lemma group_path_encoded:
  assumes "path_index_ok sa" and "g < length (sa_ranges sa)" and "p \<in> set (group_paths sa g)"
  shows "\<exists>q. p = encoded_path q"
  using assms group_slice_mem [OF assms(1, 2)] by (fastforce simp: group_paths_slice path_index_ok_def)

lemma path_hash_snoc: "path_hash_step (path_hash g (encoded_path p)) (to_be_bytes w) = path_hash g (encoded_path (p @ [w]))"
proof -
  have "as_chunks (encoded_path (p @ [w])) = as_chunks (encoded_path p) @ [to_be_bytes w]"
    by (simp only: as_chunks_encoded map_append list.map)
  then show ?thesis by (simp add: path_hash_def)
qed

lemma ex_from: "(\<exists>d'. d \<le> d' \<and> R d') \<longleftrightarrow> R d \<or> (\<exists>d'. Suc d \<le> d' \<and> R d')"
  by (metis Suc_leD le_antisym not_less_eq_eq order_refl)

lemma prefix_found_iff:
  assumes ok: "path_index_ok sa" and g: "g < length (sa_ranges sa)"
  shows "d \<le> length t \<Longrightarrow>
    prefix_found (exact_index sa) (sa_elements sa) g (encoded_path t) inclusive d (path_hash g (encoded_path (take d t)))
      (map to_be_bytes (drop d t)) \<longleftrightarrow>
    (\<exists>d'. d \<le> d' \<and> d' \<le> length t \<and> (inclusive \<or> d' < length t) \<and> encoded_path (take d' t) \<in> set (group_paths sa g))"
proof (induction "length t - d" arbitrary: d)
  case 0
  then have "d = length t" by simp
  then show ?case
    using exact_index_iff [OF ok g, of t] by (auto simp: take_encoded_path [of "length t" t, simplified])
next
  case (Suc n)
  then have d: "d < length t" by simp
  then have split: "drop d t = t ! d # drop (Suc d) t" by (simp add: Cons_nth_drop_Suc)
  have "path_hash_step (path_hash g (encoded_path (take d t))) (to_be_bytes (t ! d)) = path_hash g (encoded_path (take (Suc d) t))"
    using d by (simp only: path_hash_snoc take_Suc_conv_app_nth)
  then have "prefix_found (exact_index sa) (sa_elements sa) g (encoded_path t) inclusive d (path_hash g (encoded_path (take d t)))
      (map to_be_bytes (drop d t)) \<longleftrightarrow>
    encoded_path (take d t) \<in> set (group_paths sa g) \<or>
    prefix_found (exact_index sa) (sa_elements sa) g (encoded_path t) inclusive (Suc d) (path_hash g (encoded_path (take (Suc d) t)))
      (map to_be_bytes (drop (Suc d) t))"
    using exact_index_iff [OF ok g, of "take d t"] by (simp add: split take_encoded_path)
  also have "\<dots> \<longleftrightarrow> (\<exists>d'. d \<le> d' \<and> d' \<le> length t \<and> (inclusive \<or> d' < length t) \<and> encoded_path (take d' t) \<in> set (group_paths sa g))"
  proof -
    have IH: "prefix_found (exact_index sa) (sa_elements sa) g (encoded_path t) inclusive (Suc d) (path_hash g (encoded_path (take (Suc d) t)))
        (map to_be_bytes (drop (Suc d) t)) \<longleftrightarrow>
      (\<exists>d'. Suc d \<le> d' \<and> d' \<le> length t \<and> (inclusive \<or> d' < length t) \<and> encoded_path (take d' t) \<in> set (group_paths sa g))"
      using Suc.hyps(2) d by (intro Suc.hyps(1)) simp_all
    show ?thesis
      unfolding IH using d ex_from [of d "\<lambda>d'. d' \<le> length t \<and> (inclusive \<or> d' < length t) \<and> encoded_path (take d' t) \<in> set (group_paths sa g)"]
      by simp
  qed
  finally show ?case .
qed

lemma holds_iff:
  assumes "path_index_ok sa" and "g < length (sa_ranges sa)"
  shows "holds sa g (encoded_path t) \<longleftrightarrow> encoded_path t \<in> set (group_paths sa g)"
  using assms exact_index_iff [OF assms, of t] found_path_iff [of "group_paths sa g" "encoded_path t"]
  by (auto simp: holds_def path_index_ok_def split: option.split)

lemma take_child: "(\<exists>d \<le> length t. (inclusive \<or> d < length t) \<and> Q (take d t)) \<longleftrightarrow> (\<exists>q. Q q \<and> child_path inclusive q t)"
proof
  assume "\<exists>d \<le> length t. (inclusive \<or> d < length t) \<and> Q (take d t)"
  then obtain d where d: "d \<le> length t" "inclusive \<or> d < length t" "Q (take d t)" by blast
  have "take d t \<noteq> t" if "d < length t" using that by (metis length_take min.absorb4 less_irrefl)
  with d show "\<exists>q. Q q \<and> child_path inclusive q t" by (auto simp: child_path_def take_is_prefix)
next
  assume "\<exists>q. Q q \<and> child_path inclusive q t"
  then obtain q where q: "Q q" "prefix q t" "inclusive \<or> q \<noteq> t" by (auto simp: child_path_def)
  then have "length q \<le> length t" "take (length q) t = q" by (simp_all add: prefix_take)
  moreover have "inclusive \<or> length q < length t" using q calculation by (metis le_neq_implies_less take_all_iff order_refl)
  ultimately show "\<exists>d \<le> length t. (inclusive \<or> d < length t) \<and> Q (take d t)"
    using q(1) by (intro exI [of _ "length q"]) simp
qed

lemma relates_iff:
  assumes ok: "path_index_ok sa" and g: "g < length (sa_ranges sa)"
  shows "relates sa g (encoded_path t) mode inclusive \<longleftrightarrow>
    (\<exists>q. encoded_path q \<in> set (group_paths sa g) \<and>
       (case mode of Children \<Rightarrow> child_path inclusive q t | Parents \<Rightarrow> parent_path inclusive q t))"
proof -
  have s: "sorted_wrt (<) (group_paths sa g)" using ok g by (simp add: path_index_ok_def)
  have parents: "(\<exists>q \<in> set (group_paths sa g). starts_with q (encoded_path t) \<and> (inclusive \<or> q \<noteq> encoded_path t)) \<longleftrightarrow>
      (\<exists>q. encoded_path q \<in> set (group_paths sa g) \<and> parent_path inclusive q t)"
  proof -
    have "(\<exists>q \<in> set (group_paths sa g). P q) \<longleftrightarrow> (\<exists>q. encoded_path q \<in> set (group_paths sa g) \<and> P (encoded_path q))" for P
      using group_path_encoded [OF ok g] by blast
    then show ?thesis by (simp add: starts_with_encoded parent_path_def eq_commute)
  qed
  show ?thesis
  proof (cases "sa_exact sa")
    case None
    show ?thesis
    proof (cases mode)
      case Children
      have "(\<exists>d \<in> set [0..<(if inclusive then length (encoded_path t) div 8 + 1 else length (encoded_path t) div 8)].
            found_path (group_paths sa g) (take (d * 8) (encoded_path t))) \<longleftrightarrow>
          (\<exists>d \<le> length t. (inclusive \<or> d < length t) \<and> encoded_path (take d t) \<in> set (group_paths sa g))"
        by (auto simp: found_path_iff [OF s] take_encoded_path less_Suc_eq_le) (metis less_imp_le_nat)
      then show ?thesis
        using take_child [of t inclusive "\<lambda>q. encoded_path q \<in> set (group_paths sa g)"]
        by (simp add: relates_def None Children list_ex_iff Let_def)
    next
      case Parents
      then show ?thesis
        using parents extensions_iff [OF s, of "encoded_path t" inclusive] by (simp add: relates_def None Let_def)
    qed
  next
    case (Some exact)
    then have e: "exact = exact_index sa" using ok by (simp add: path_index_ok_def)
    show ?thesis
    proof (cases mode)
      case Children
      have "path_hash_start g = path_hash g (encoded_path (take 0 t))" by (simp add: path_hash_def as_chunks.simps)
      then show ?thesis
        using prefix_found_iff [OF ok g, of 0 t inclusive] take_child [of t inclusive "\<lambda>q. encoded_path q \<in> set (group_paths sa g)"]
        by (simp add: relates_def Some e Children)
    next
      case Parents
      have "(\<exists>r. encoded_path r \<in> set (group_paths sa g) \<and> strict_prefix t r) \<or>
          inclusive \<and> encoded_path t \<in> set (group_paths sa g) \<longleftrightarrow>
          (\<exists>q. encoded_path q \<in> set (group_paths sa g) \<and> parent_path inclusive q t)"
        by (auto simp: parent_path_def strict_prefix_def)
      then show ?thesis
        by (simp add: relates_def Some e Parents prefix_index_iff [OF ok g] exact_index_iff [OF ok g])
    qed
  qed
qed

lemma index_holds_ok:
  assumes h: "index_holds mk L sa" and L: "\<forall>(k, p) \<in> set L. \<exists>q. p = encoded_path q"
  shows "path_index_ok sa"
proof -
  from h obtain ids where ids: "ids_ok ids" "length (sa_ranges sa) = length ids" "length ids < 2 ^ 32"
    and groups: "\<forall>(k, g) \<in> set ids. sorted_wrt (<) (group_paths sa g) \<and> set (group_paths sa g) = {p. (k, p) \<in> set L}"
    by (auto simp: index_holds_def)
  have key: "\<exists>k. (k, g) \<in> set ids" if "g < length ids" for g
  proof -
    have "g \<in> set (map snd ids)" using that ids(1) by (simp add: ids_ok_def)
    then show ?thesis by force
  qed
  have "\<exists>q. path_bytes (sa_elements sa) p = encoded_path q \<and> snd p = length q" if "p \<in> set (sa_paths sa)" for p
  proof -
    have tile: "concat (map (range_slice (sa_paths sa)) (sa_ranges sa)) = sa_paths sa"
      and len: "length (path_bytes (sa_elements sa) p) = snd p * 8" using h that by (auto simp: index_holds_def)
    from that have "p \<in> (\<Union>r \<in> set (sa_ranges sa). set (range_slice (sa_paths sa) r))"
      using arg_cong [OF tile, of set] by simp
    then obtain r where "r \<in> set (sa_ranges sa)" "p \<in> set (range_slice (sa_paths sa) r)" by blast
    then obtain g where g: "g < length ids" "p \<in> set (range_slice (sa_paths sa) (sa_ranges sa ! g))"
      using ids(2) by (metis in_set_conv_nth)
    with key obtain k where "(k, g) \<in> set ids" by blast
    with groups have "set (group_paths sa g) = {p. (k, p) \<in> set L}" by auto
    moreover have "path_bytes (sa_elements sa) p \<in> set (group_paths sa g)" using g(2) by (simp add: group_paths_slice)
    ultimately have "(k, path_bytes (sa_elements sa) p) \<in> set L" by simp
    with L obtain q where "path_bytes (sa_elements sa) p = encoded_path q" by auto
    with len show ?thesis by auto
  qed
  moreover have "\<forall>g < length (sa_ranges sa). sorted_wrt (<) (group_paths sa g)" using key groups ids(2) by fastforce
  ultimately show ?thesis using h ids by (auto simp: index_holds_def path_index_ok_def)
qed

section \<open>Facts on the mask\<close>

lemma in_map_filter: "y \<in> set (List.map_filter f xs) \<longleftrightarrow> (\<exists>x \<in> set xs. f x = Some y)"
  by (induction xs) (auto simp: map_filter_simps split: option.splits)

lemma keyed_path_iff:
  "keyed_path key_at name b i = Some (k, p) \<longleftrightarrow>
     (\<exists>q. key_at b i = Some k \<and> path_of b name i = Some q \<and> p = encoded_path q)"
  by (auto simp: keyed_path_def split: option.splits)

text \<open>A relative among the sources, the key columns of the two sides paired in order.\<close>

definition relative_at ::
    "(u64 list \<Rightarrow> u64 list \<Rightarrow> bool) \<Rightarrow> batch list \<Rightarrow> string \<Rightarrow> string list \<Rightarrow> batch \<Rightarrow> string \<Rightarrow> string list \<Rightarrow> nat \<Rightarrow> bool" where
  "relative_at related sources source_column grouping b target_column grouping' i =
     (case (key_of b grouping' i, path_of b target_column i) of
        (Some g, Some p) \<Rightarrow>
          list_ex (\<lambda>s. list_ex (\<lambda>j. key_of s grouping j = Some g \<and>
              (case path_of s source_column j of None \<Rightarrow> False | Some q \<Rightarrow> related q p)) [0..<b_num_rows s]) sources
      | _ \<Rightarrow> False)"

lemma relative_at_same:
  "relative_at related sources source_column grouping b target_column grouping i =
     relative_of related sources source_column grouping b target_column i"
  by (simp add: relative_at_def relative_of_def)

text \<open>What a mask by the index says, for any way the groups' keys are read.\<close>

lemma address_mask_rows:
  assumes h: "index_holds mk L sa" and L: "L = concat (map (batch_reads key_at source_column) sources)"
    and c: "path_column b target_column os els n"
    and target: "\<And>i ids. i < b_num_rows b \<Longrightarrow>
      group_of_target (case sa_groups sa of PairIds _ \<Rightarrow> pair_keys_of b grouping' | ByteIds _ \<Rightarrow> None)
        (typed_key_columns b grouping') (mk ids) i = Option.bind (key_at' b i) (map_of ids)"
    and same: "\<And>s j i. s \<in> set sources \<Longrightarrow> j < b_num_rows s \<Longrightarrow> i < b_num_rows b \<Longrightarrow>
      (\<exists>k. key_at s j = Some k \<and> key_at' b i = Some k) \<longleftrightarrow>
      (\<exists>g. key_of s grouping j = Some g \<and> key_of b grouping' i = Some g)"
    and f: "\<And>g t. g < length (sa_ranges sa) \<Longrightarrow> f g (encoded_path t) \<longleftrightarrow>
      (\<exists>q. encoded_path q \<in> set (group_paths sa g) \<and> related q t)"
  shows "address_mask sa b grouping' target_column candidates f =
    map (\<lambda>i. Some ((case candidates of None \<Rightarrow> True | Some c \<Rightarrow> c ! i) \<and>
      relative_at related sources source_column grouping b target_column grouping' i)) [0..<b_num_rows b]"
proof -
  from h obtain ids where ids: "sa_groups sa = mk ids" "ids_ok ids" "length (sa_ranges sa) = length ids"
    and known: "\<forall>(k, p) \<in> set L. k \<in> fst ` set ids"
    and sorted_groups: "\<forall>(k, g) \<in> set ids. sorted_wrt (<) (group_paths sa g) \<and> set (group_paths sa g) = {p. (k, p) \<in> set L}"
    unfolding index_holds_def by blast
  then have groups: "\<forall>(k, g) \<in> set ids. set (group_paths sa g) = {p. (k, p) \<in> set L}" by auto
  have read: "(k, p) \<in> set L \<longleftrightarrow> (\<exists>s \<in> set sources. \<exists>j < b_num_rows s. \<exists>q.
      key_at s j = Some k \<and> path_of s source_column j = Some q \<and> p = encoded_path q)" for k p
    unfolding L by (simp add: batch_reads_def keyed_path_iff in_map_filter Bex_def)
  have row: "(case (if \<not> ((case candidates of None \<Rightarrow> True | Some c \<Rightarrow> c ! i) \<and> valid_at n i) then None
        else group_of_target (case sa_groups sa of PairIds _ \<Rightarrow> pair_keys_of b grouping' | ByteIds _ \<Rightarrow> None)
          (typed_key_columns b grouping') (sa_groups sa) i) of
      None \<Rightarrow> False
    | Some g \<Rightarrow> f g (slice_list (join_key_bytes els) (os ! i * 8) (os ! Suc i * 8 - os ! i * 8))) \<longleftrightarrow>
    (case candidates of None \<Rightarrow> True | Some c \<Rightarrow> c ! i) \<and> relative_at related sources source_column grouping b target_column grouping' i"
    if i: "i < b_num_rows b" for i
  proof (cases "valid_at n i")
    case False
    then show ?thesis using path_column_row(1) [OF c i] by (simp add: relative_at_def split: option.split)
  next
    case True
    define t where "t = map (join_key els) [os ! i..<os ! Suc i]"
    have p: "path_of b target_column i = Some t"
      "slice_list (join_key_bytes els) (os ! i * 8) (os ! Suc i * 8 - os ! i * 8) = encoded_path t"
      using path_column_row [OF c i] True by (simp_all add: t_def)
    have spec: "relative_at related sources source_column grouping b target_column grouping' i \<longleftrightarrow>
        (\<exists>s \<in> set sources. \<exists>j < b_num_rows s. \<exists>q. (\<exists>g. key_of s grouping j = Some g \<and> key_of b grouping' i = Some g) \<and>
          path_of s source_column j = Some q \<and> related q t)"
    proof (cases "key_of b grouping' i")
      case (Some g)
      have "(case x of None \<Rightarrow> False | Some q \<Rightarrow> related q t) \<longleftrightarrow> (\<exists>q. x = Some q \<and> related q t)" for x by (cases x) simp_all
      then show ?thesis by (simp add: relative_at_def Some p(1) list_ex_iff Bex_def)
    qed (simp add: relative_at_def)
    have "(case Option.bind (key_at' b i) (map_of ids) of None \<Rightarrow> False | Some g \<Rightarrow> f g (encoded_path t)) \<longleftrightarrow>
        (\<exists>s \<in> set sources. \<exists>j < b_num_rows s. \<exists>q. (\<exists>k. key_at s j = Some k \<and> key_at' b i = Some k) \<and>
          path_of s source_column j = Some q \<and> related q t)"
    proof (cases "key_at' b i")
      case (Some k)
      show ?thesis
      proof (cases "map_of ids k")
        case None
        then have "(k, p) \<notin> set L" for p using known by (auto simp: map_of_eq_None_iff)
        then show ?thesis using None Some read by auto
      next
        case g: (Some g)
        then have kg: "(k, g) \<in> set ids" by (rule map_of_SomeD)
        then have "g \<in> set (map snd ids)" by force
        moreover have "map snd ids = [0..<length ids]" using ids(2) by (simp add: ids_ok_def)
        ultimately have "g < length (sa_ranges sa)" using ids(3) by (simp only: set_upt atLeastLessThan_iff)
        moreover have "set (group_paths sa g) = {p. (k, p) \<in> set L}" using groups kg by auto
        ultimately show ?thesis using g Some by (auto simp: f read)
      qed
    qed simp
    also have "\<dots> \<longleftrightarrow> relative_at related sources source_column grouping b target_column grouping' i"
      unfolding spec using same i by (intro bex_cong refl ex_cong conj_cong) auto
    finally show ?thesis unfolding p(2) target [OF i, of ids, folded ids(1)] using True by simp
  qed
  show ?thesis
    unfolding address_mask_def path_column_list [OF c] option.case prod.case Let_def
    by (rule map_cong [OF refl]) (use row in simp)
qed

section \<open>Facts on the two ways groups are keyed\<close>

text \<open>A batch of a relation by address, its group key of some kinds a scan reads keys from.\<close>

definition path_batch :: "key_kind list \<Rightarrow> string list \<Rightarrow> string \<Rightarrow> batch \<Rightarrow> bool" where
  "path_batch kinds grouping name b \<longleftrightarrow> joinable kinds grouping b \<and>
     (case column_by_name b name of Some (AList False os (AInt t vs m) n) \<Rightarrow> True | _ \<Rightarrow> False)"

lemma path_batch_column: "path_batch kinds grouping name b \<Longrightarrow> \<exists>os els n. path_column b name os els n"
proof -
  assume b: "path_batch kinds grouping name b"
  then obtain a where a: "column_by_name b name = Some a" by (auto simp: path_batch_def split: option.splits)
  with b obtain os t vs m n where "a = AList False os (AInt t vs m) n"
    by (auto simp: path_batch_def split: array.splits bool.splits)
  moreover have "batch_ok b" using b by (simp add: path_batch_def joinable_def)
  ultimately show ?thesis using a batch_column [OF _ a] by (auto simp: path_column_def)
qed

definition pair_at :: "string list \<Rightarrow> batch \<Rightarrow> nat \<Rightarrow> nat option" where
  "pair_at grouping b i =
     (case key_of b grouping i of Some [VInt x, VInt y] \<Rightarrow> Some (pack16 (unat x) (unat y)) | _ \<Rightarrow> None)"

definition bytes_at :: "string list \<Rightarrow> batch \<Rightarrow> nat \<Rightarrow> u8 list option" where
  "bytes_at grouping b i = map_option row_key_bytes (key_of b grouping i)"

lemma bytes_keys:
  assumes "joinable kinds grouping b" and "list_all scan_key kinds"
  shows "bytes_key (typed_key_columns b grouping) i = bytes_at grouping b i"
  using append_all_key [of kinds grouping b i] assms by (simp add: bytes_key_def bytes_at_def joinable_def)

lemma length_2: "length xs = 2 \<longleftrightarrow> (\<exists>x y. xs = [x, y])"
  by (auto simp: numeral_2_eq_2 length_Suc_conv)

lemma pair_columns_at:
  assumes b: "batch_ok b" and k: "keyed [IntKey, IntKey] grouping b" and i: "i < b_num_rows b"
  shows "\<exists>p. pair_keys_of b grouping = Some p \<and> packed_at p i = pair_at grouping b i \<and>
    pair_key (typed_key_columns b grouping) i = pair_at grouping b i"
proof -
  from k have "map (\<lambda>name. Option.bind (column_by_name b name) key_kind_of) grouping = [Some IntKey, Some IntKey]"
    by (simp add: keyed_def)
  then obtain f s x y where g: "grouping = [f, s]" "column_by_name b f = Some x" "column_by_name b s = Some y"
    "key_kind_of x = Some IntKey" "key_kind_of y = Some IntKey"
    by (auto simp: map_eq_Cons_conv bind_eq_Some_conv)
  obtain t vs n where x: "x = AInt t vs n" using g(4) by (cases x rule: key_kind_of.cases) auto
  obtain u ws m where y: "y = AInt u ws m" using g(5) by (cases y rule: key_kind_of.cases) auto
  have len: "length vs = b_num_rows b" "length ws = b_num_rows b" "nulls_fit n (length vs)" "nulls_fit m (length ws)"
    using batch_column [OF b g(2)] batch_column [OF b g(3)] unfolding x y wf_array.simps len.simps by auto
  have "valid_at (nulls_union n m) i \<longleftrightarrow> valid_at n i \<and> valid_at m i"
    using i len by (cases n; cases m) (simp_all add: valid_at_def nulls_fit_def)
  then show ?thesis
    using i len
    by (simp add: pair_keys_of_def g x y int_nulls_def packed_at_def pair_at_def key_of_def key_value_at_def
        is_null_def typed_key_columns_def resolve_key_def join_key_def)
qed

lemma source_pairs:
  assumes b: "joinable kinds grouping b" and k: "b_num_rows b > 0 \<longrightarrow> kinds = [IntKey, IntKey]"
  shows "reads_by PairIds (pair_at grouping) grouping b"
  unfolding reads_by_def
proof (intro allI impI)
  fix row ids assume row: "row < b_num_rows b"
  with k b have "keyed [IntKey, IntKey] grouping b" "batch_ok b" by (auto simp: joinable_def)
  with pair_columns_at [of b grouping row] row
  show "group_of_source (pair_keys_of b grouping) (typed_key_columns b grouping) (PairIds ids) row = with_id PairIds (pair_at grouping b row) ids"
    by auto
qed

lemma pair_key_none:
  assumes "(\<forall>v. x \<noteq> Some (KInt v)) \<or> (\<forall>v. y \<noteq> Some (KInt v))"
  shows "pair_key [x, y] i = None"
  using assms by (cases "([x, y], i)" rule: pair_key.cases) auto

lemma target_pairs:
  assumes b: "joinable kinds grouping b" and two: "length grouping = 2" and i: "i < b_num_rows b"
  shows "group_of_target (pair_keys_of b grouping) (typed_key_columns b grouping) (PairIds ids) i =
    Option.bind (pair_at grouping b i) (map_of ids)"
proof (cases "kinds = [IntKey, IntKey]")
  case True
  with b pair_columns_at [of b grouping i] i show ?thesis by (auto simp: joinable_def)
next
  case False
  have kinds: "map (\<lambda>name. Option.bind (column_by_name b name) key_kind_of) grouping = map Some kinds"
    using b by (simp add: joinable_def keyed_def)
  from two obtain f s where g: "grouping = [f, s]" by (auto simp: length_2)
  with kinds obtain c d where cd: "kinds = [c, d]" "Option.bind (column_by_name b f) key_kind_of = Some c"
    "Option.bind (column_by_name b s) key_kind_of = Some d" by (auto simp: Cons_eq_map_conv)
  have int: "Option.bind x resolve_int = None" "\<forall>v. Option.bind x resolve_key \<noteq> Some (KInt v)"
    if kx: "Option.bind x key_kind_of = Some k" "k \<noteq> IntKey" for x k
  proof -
    from kx obtain a where a: "x = Some a" "key_kind_of a = Some k" by (auto simp: bind_eq_Some_conv)
    then have n: "resolve_int a = None" using kx(2) by (cases a rule: key_kind_of.cases) auto
    with a show "Option.bind x resolve_int = None" by simp
    have "resolve_key a \<noteq> Some (KInt v)" for v
      using n by (auto simp: resolve_key_def split: option.splits array.splits bool.splits)
    with a show "\<forall>v. Option.bind x resolve_key \<noteq> Some (KInt v)" by simp
  qed
  have "c \<noteq> IntKey \<or> d \<noteq> IntKey" using False cd(1) by auto
  then have "pair_keys_of b grouping = None"
    using int(1) [OF cd(2)] int(1) [OF cd(3)] \<open>c \<noteq> IntKey \<or> d \<noteq> IntKey\<close>
    by (cases "column_by_name b f"; cases "column_by_name b s") (auto simp: pair_keys_of_def g split: bind_splits)
  moreover have "pair_key (typed_key_columns b grouping) i = None"
    using pair_key_none int(2) [OF cd(2)] int(2) [OF cd(3)] \<open>c \<noteq> IntKey \<or> d \<noteq> IntKey\<close>
    by (auto simp: g typed_key_columns_def)
  moreover have "pair_at grouping b i = None"
  proof (cases "key_of b grouping i")
    case (Some vs)
    with key_kinds [OF b i] have "map value_kind vs = kinds" by simp
    with cd(1) \<open>c \<noteq> IntKey \<or> d \<noteq> IntKey\<close> Some show ?thesis
      by (auto simp: pair_at_def split: list.splits key_value.splits)
  qed (simp add: pair_at_def)
  ultimately show ?thesis by simp
qed

lemma same_pairs:
  assumes s: "joinable kinds grouping s" and b: "joinable kinds grouping' b" and kinds: "b_num_rows s > 0 \<longrightarrow> kinds = [IntKey, IntKey]"
    and j: "j < b_num_rows s" and i: "i < b_num_rows b"
  shows "(\<exists>k. pair_at grouping s j = Some k \<and> pair_at grouping' b i = Some k) \<longleftrightarrow>
    (\<exists>g. key_of s grouping j = Some g \<and> key_of b grouping' i = Some g)"
proof -
  have two: "\<exists>x y. vs = [VInt x, VInt y]" if "map value_kind vs = kinds" for vs
  proof -
    from that kinds j obtain v w where "vs = [v, w]" "value_kind v = IntKey" "value_kind w = IntKey" by auto
    then show ?thesis by (cases v; cases w) auto
  qed
  have lt: "unat w < 2 ^ 64" for w :: u64 by (rule less_le_trans [OF unsigned_less]) simp
  show ?thesis
  proof (cases "key_of s grouping j")
    case (Some vs)
    show ?thesis
    proof (cases "key_of b grouping' i")
      case b': (Some ws)
      from two [OF key_kinds [OF s j Some]] two [OF key_kinds [OF b i b']] obtain x y x' y' where
        v: "vs = [VInt x, VInt y]" "ws = [VInt x', VInt y']" by blast
      have "pack16 (unat x) (unat y) = pack16 (unat x') (unat y') \<longleftrightarrow> x = x' \<and> y = y'"
        unfolding pack16_inject [OF lt lt] by (simp add: word_unat_eq_iff)
      then show ?thesis unfolding pair_at_def Some b' v by auto
    qed (simp add: pair_at_def)
  qed (simp add: pair_at_def)
qed

section \<open>The filter finds the relatives\<close>

text \<open>What a scan's sources are bounded by: their rows and the elements of their addresses are counted in 32 bits.\<close>

definition path_elements :: "batch \<Rightarrow> string \<Rightarrow> nat" where
  "path_elements b name =
     sum_list (map (\<lambda>i. case path_of b name i of None \<Rightarrow> 0 | Some p \<Rightarrow> length p) [0..<b_num_rows b])"

definition small_sources :: "batch list \<Rightarrow> string \<Rightarrow> bool" where
  "small_sources bs name \<longleftrightarrow>
     sum_list (map b_num_rows bs) < 2 ^ 32 \<and> sum_list (map (\<lambda>b. path_elements b name) bs) < 2 ^ 32"

lemma batch_reads_size:
  "length (batch_reads key_at name b) \<le> b_num_rows b"
  "sum_list (map (length \<circ> snd) (batch_reads key_at name b)) \<le> 8 * path_elements b name"
proof -
  have "length (List.map_filter (keyed_path key_at name b) xs) \<le> length xs" for xs
    by (induction xs) (auto simp: map_filter_simps split: option.splits)
  from this [of "[0..<b_num_rows b]"] show "length (batch_reads key_at name b) \<le> b_num_rows b"
    by (simp add: batch_reads_def)
  have "sum_list (map (length \<circ> snd) (List.map_filter (keyed_path key_at name b) xs)) \<le>
      8 * sum_list (map (\<lambda>i. case path_of b name i of None \<Rightarrow> 0 | Some p \<Rightarrow> length p) xs)" for xs
    by (induction xs) (auto simp: map_filter_simps keyed_path_def split: option.splits)
  from this [of "[0..<b_num_rows b]"]
  show "sum_list (map (length \<circ> snd) (batch_reads key_at name b)) \<le> 8 * path_elements b name"
    by (simp add: batch_reads_def path_elements_def)
qed

lemma small_sources_reads:
  assumes "small_sources bs name"
  shows "small_reads (concat (map (batch_reads key_at name) bs))"
proof -
  have "length (concat (map (batch_reads key_at name) bs)) \<le> sum_list (map b_num_rows bs)"
    by (induction bs) (auto intro: add_mono batch_reads_size)
  moreover have "sum_list (map (length \<circ> snd) (concat (map (batch_reads key_at name) bs))) \<le>
      8 * sum_list (map (\<lambda>b. path_elements b name) bs)"
    by (induction bs) (use batch_reads_size(2) in \<open>auto simp: distrib_left comp_def intro: add_mono\<close>)
  ultimately show ?thesis
    using assms unfolding small_reads_def small_sources_def by linarith
qed

text \<open>The index of the sources, for a way its groups are keyed: the mask of a batch by it.\<close>

definition indexes_well :: "source_addresses \<Rightarrow> batch list \<Rightarrow> string \<Rightarrow> string list \<Rightarrow> batch \<Rightarrow> string \<Rightarrow> string list \<Rightarrow> bool list option \<Rightarrow> bool" where
  "indexes_well sa sources source_column grouping b target_column grouping' candidates \<longleftrightarrow> path_index_ok sa \<and>
    (\<forall>f related. (\<forall>g t. g < length (sa_ranges sa) \<longrightarrow>
        f g (encoded_path t) = (\<exists>q. encoded_path q \<in> set (group_paths sa g) \<and> related q t)) \<longrightarrow>
      address_mask sa b grouping' target_column candidates f =
        map (\<lambda>i. Some ((case candidates of None \<Rightarrow> True | Some c \<Rightarrow> c ! i) \<and>
          relative_at related sources source_column grouping b target_column grouping' i)) [0..<b_num_rows b])"

lemma indexes_by:
  assumes c: "path_column b target_column os els n" and small: "small_sources sources source_column"
    and cols: "\<And>s. s \<in> set sources \<Longrightarrow> \<exists>os els n. path_column s source_column os els n"
    and mk: "inj mk" "(if uses_pairs sources grouping then PairIds [] else ByteIds []) = mk []"
      "\<And>ids. groups_len (mk ids) = length ids"
    and reads: "\<And>s. s \<in> set sources \<Longrightarrow> reads_by mk key_at grouping s"
    and target: "\<And>i ids. i < b_num_rows b \<Longrightarrow>
      group_of_target (case mk ids of PairIds _ \<Rightarrow> pair_keys_of b grouping' | ByteIds _ \<Rightarrow> None)
        (typed_key_columns b grouping') (mk ids) i = Option.bind (key_at' b i) (map_of ids)"
    and same: "\<And>s j i. s \<in> set sources \<Longrightarrow> j < b_num_rows s \<Longrightarrow> i < b_num_rows b \<Longrightarrow>
      (\<exists>k. key_at s j = Some k \<and> key_at' b i = Some k) \<longleftrightarrow>
      (\<exists>g. key_of s grouping j = Some g \<and> key_of b grouping' i = Some g)"
    and mk_case: "\<And>ids ids' (x :: pair_columns option) y.
      (case mk ids of PairIds _ \<Rightarrow> x | ByteIds _ \<Rightarrow> y) = (case mk ids' of PairIds _ \<Rightarrow> x | ByteIds _ \<Rightarrow> y)"
  shows "indexes_well (sources_build sources grouping source_column) sources source_column grouping b target_column grouping' candidates"
proof -
  let ?L = "concat (map (batch_reads key_at source_column) sources)" and ?sa = "sources_build sources grouping source_column"
  have "\<forall>s \<in> set sources. (\<exists>os els n. path_column s source_column os els n) \<and> reads_by mk key_at grouping s"
    using cols reads by blast
  then have h: "index_holds mk ?L ?sa"
    by (rule sources_build_holds [OF _ mk refl small_sources_reads [OF small]])
  have encoded: "\<forall>(k, p) \<in> set ?L. \<exists>q. p = encoded_path q"
    by (auto simp: batch_reads_def in_map_filter keyed_path_iff)
  from h obtain ids where ids: "sa_groups ?sa = mk ids" by (auto simp: index_holds_def)
  have "group_of_target (case sa_groups ?sa of PairIds _ \<Rightarrow> pair_keys_of b grouping' | ByteIds _ \<Rightarrow> None)
      (typed_key_columns b grouping') (mk ids') i = Option.bind (key_at' b i) (map_of ids')" if "i < b_num_rows b" for i ids'
    using target [OF that, of ids'] mk_case [of _ _ ids ids'] by (simp add: ids)
  from address_mask_rows [where key_at' = key_at', OF h refl c this same]
  show ?thesis unfolding indexes_well_def using index_holds_ok [OF h encoded] by blast
qed

lemma uses_pairs_kinds:
  assumes "uses_pairs sources grouping" and "s \<in> set sources" and b: "joinable kinds grouping s"
  shows "b_num_rows s > 0 \<longrightarrow> kinds = [IntKey, IntKey]"
proof
  assume "b_num_rows s > 0"
  with assms have u: "length grouping = 2" "\<forall>name \<in> set grouping. Option.bind (column_by_name s name) resolve_int \<noteq> None"
    by (auto simp: uses_pairs_def list_all_iff)
  then obtain f g where g: "grouping = [f, g]" by (auto simp: length_2)
  have int: "k = IntKey" if "Option.bind x resolve_int \<noteq> None" "Option.bind x key_kind_of = Some k" for x k
  proof -
    from that obtain a where a: "x = Some a" "key_kind_of a = Some k" by (auto simp: bind_eq_Some_conv)
    with that(1) show ?thesis by (cases a rule: key_kind_of.cases) auto
  qed
  from b have "map (\<lambda>name. Option.bind (column_by_name s name) key_kind_of) grouping = map Some kinds"
    by (simp add: joinable_def keyed_def)
  then obtain c d where k: "kinds = [c, d]" "Option.bind (column_by_name s f) key_kind_of = Some c"
    "Option.bind (column_by_name s g) key_kind_of = Some d" by (auto simp: g Cons_eq_map_conv)
  with int [of "column_by_name s f" c] int [of "column_by_name s g" d] u(2)
  show "kinds = [IntKey, IntKey]" by (simp add: g)
qed

lemma indexes_all:
  assumes kinds: "list_all scan_key kinds" and sources: "list_all (path_batch kinds grouping source_column) sources"
    and target: "path_batch kinds grouping' target_column b" and small: "small_sources sources source_column"
    and lengths: "length grouping = length grouping'"
  shows "indexes_well (sources_build sources grouping source_column) sources source_column grouping b target_column grouping' candidates"
proof -
  have s: "joinable kinds grouping s" and cols: "\<exists>os els n. path_column s source_column os els n" if "s \<in> set sources" for s
    using sources that path_batch_column by (auto simp: list_all_iff path_batch_def)
  have j: "joinable kinds grouping' b" using target by (simp add: path_batch_def)
  obtain os els n where c: "path_column b target_column os els n" using path_batch_column [OF target] by auto
  show ?thesis
  proof (cases "uses_pairs sources grouping")
    case True
    note kinds2 = uses_pairs_kinds [OF True _ s]
    have two: "length grouping' = 2" using True lengths by (simp add: uses_pairs_def)
    show ?thesis
      by (rule indexes_by [OF c small cols, where mk = PairIds and key_at = "pair_at grouping" and key_at' = "pair_at grouping'"])
        (use True two source_pairs [OF s kinds2] target_pairs [OF j] same_pairs [OF s j kinds2] in \<open>auto simp: inj_def\<close>)
  next
    case False
    have keys: "bytes_key (typed_key_columns s g) i = bytes_at g s i" if "joinable kinds g s" for s g i
      using bytes_keys [OF that kinds] .
    have same: "(\<exists>k. bytes_at grouping s j = Some k \<and> bytes_at grouping' b i = Some k) \<longleftrightarrow>
        (\<exists>g. key_of s grouping j = Some g \<and> key_of b grouping' i = Some g)"
      if "s \<in> set sources" "j < b_num_rows s" "i < b_num_rows b" for s j i
    proof (cases "key_of s grouping j")
      case (Some vs)
      with joined_keys [OF s [OF that(1)] j that(2, 3) Some] show ?thesis
        by (cases "key_of b grouping' i") (auto simp: bytes_at_def)
    qed (simp add: bytes_at_def)
    show ?thesis
      by (rule indexes_by [OF c small cols, where mk = ByteIds and key_at = "bytes_at grouping" and key_at' = "bytes_at grouping'"])
        (use False same keys [OF j] keys [OF s] in \<open>auto simp: inj_def reads_by_def\<close>)
  qed
qed

lemma hierarchical_mask_rows:
  assumes "list_all scan_key kinds" and "list_all (path_batch kinds grouping source_column) sources"
    and "path_batch kinds grouping target_column b" and "small_sources sources source_column"
  shows "hierarchical_mask (hierarchical_filter_build sources grouping source_column target_column mode inclusive) b candidates =
    map (\<lambda>i. Some ((case candidates of None \<Rightarrow> True | Some c \<Rightarrow> c ! i) \<and>
      relative_of (case mode of Children \<Rightarrow> child_path inclusive | Parents \<Rightarrow> parent_path inclusive)
        sources source_column grouping b target_column i)) [0..<b_num_rows b]"
proof -
  let ?related = "case mode of Children \<Rightarrow> child_path inclusive | Parents \<Rightarrow> parent_path inclusive"
  let ?sa = "sources_build sources grouping source_column"
  note w = indexes_all [OF assms refl, of candidates, unfolded indexes_well_def relative_at_same]
  have "relates ?sa g (encoded_path t) mode inclusive \<longleftrightarrow> (\<exists>q. encoded_path q \<in> set (group_paths ?sa g) \<and> ?related q t)"
    if "g < length (sa_ranges ?sa)" for g t
    using relates_iff [OF conjunct1 [OF w] that] by (cases mode) simp_all
  with w show ?thesis
    by (simp add: hierarchical_mask_def hierarchical_filter_build_def address_filter_def address_index_build_def)
qed

text \<open>C19: the scan filter and the join agree. On any batch whose group key is one a scan can hold (integers, texts
or lists of integers) and whose address is a list of integers, the mask the hierarchical filter answers from the sources'
index - grouped by a packed pair or by key bytes, searched or hashed - marks exactly the candidate rows that have a
descendant's (or an ancestor's) address among the sources of their group.\<close>

theorem hierarchical_filter_relates:
  assumes "list_all scan_key kinds" and "list_all (path_batch kinds grouping source_column) sources"
    and "path_batch kinds grouping target_column b" and "small_sources sources source_column"
  shows "hierarchical_mask (hierarchical_filter_build sources grouping source_column target_column mode inclusive) b candidates =
    map (\<lambda>i. Some ((case candidates of None \<Rightarrow> True | Some c \<Rightarrow> c ! i) \<and>
      relative_of (case mode of Children \<Rightarrow> child_path inclusive | Parents \<Rightarrow> parent_path inclusive)
        sources source_column grouping b target_column i)) [0..<b_num_rows b]"
  by (rule hierarchical_mask_rows [OF assms])

theorem hierarchical_filter_relates_witness:
  "hierarchical_mask (hierarchical_filter_build [wide_calls] [''block_number'', ''transaction_index''] ''address'' ''address''
      Children False) narrow_calls None = [Some True, Some False]"
proof -
  note unfold = relative_of_def key_of_def path_of_def column_by_name_def key_value_at_def is_null_def valid_at_def
    wide_calls_def narrow_calls_def stored_key_def child_path_def upt_rec
  let ?g = "[''block_number'', ''transaction_index'']"
  have k: "list_all scan_key [IntKey, IntKey]" by (simp add: scan_key_def)
  have b: "list_all (path_batch [IntKey, IntKey] ?g ''address'') [wide_calls]"
    "path_batch [IntKey, IntKey] ?g ''address'' narrow_calls"
    using group_joinable [OF calls_addressed(1)] group_joinable [OF calls_addressed(2)]
    by (simp_all add: path_batch_def column_by_name_def wide_calls_def narrow_calls_def numeral_2_eq_2)
  have small: "small_sources [wide_calls] ''address''"
    by (simp add: small_sources_def path_elements_def unfold)
  have "relative_of (child_path False) [wide_calls] ''address'' ?g narrow_calls ''address'' 0"
    "\<not> relative_of (child_path False) [wide_calls] ''address'' ?g narrow_calls ''address'' 1"
    "[0..<b_num_rows narrow_calls] = [0, 1]"
    by (simp_all add: unfold)
  then show ?thesis
    unfolding hierarchical_filter_relates [OF k b small] by simp
qed

end
