(* ===== verification/Keys.thy ===== *)
theory Keys
  imports Addresses "HOL-Library.Countable"
begin

text \<open>
  The keys a relation scan keeps its target's rows by, \<^verbatim>\<open>src/scan/keys.rs\<close>: a set of packed pairs, a
  pair with a path of item indices, key bytes, or whole row identities with their nulls. Arrow's row format
  is an argument. Whatever way the keys are held, the scan is shown to keep exactly the rows a semi-join
  with the sources would, and the blocks it skips row groups by to be those of some key.
\<close>

section \<open>Arrow's row format\<close>

text \<open>
  \<open>RowConverter\<close>: made for the types of some columns, it writes each row of columns of these types as bytes.
\<close>

record row_kernels =
  rk_new :: "data_type list \<Rightarrow> engine_error + unit"
  rk_convert :: "data_type list \<Rightarrow> array list \<Rightarrow> engine_error + u8 list list"

text \<open>Two rows of one converter are the same bytes exactly when they hold the same values, nulls included.\<close>

definition row_cells :: "array list \<Rightarrow> nat \<Rightarrow> cell list" where
  "row_cells arrays i = map (\<lambda>a. cell_at a i) arrays"

definition row_kernels_ok :: "row_kernels \<Rightarrow> data_type list \<Rightarrow> bool" where
  "row_kernels_ok R types \<longleftrightarrow> rk_new R types = Inr () \<and>
     (\<exists>bytes_of. inj bytes_of \<and>
        (\<forall>arrays n. map data_type_of arrays = types \<and> (\<forall>a \<in> set arrays. wf_array a \<and> len a = n) \<and> arrays \<noteq> [] \<longrightarrow>
           rk_convert R types arrays = Inr (map (\<lambda>i. bytes_of (row_cells arrays i)) [0..<n])))"

instance int_type :: countable by countable_datatype

instance bytes_type :: countable by countable_datatype

instance cell :: countable by countable_datatype

definition plain_row_kernels :: row_kernels where
  "plain_row_kernels =
     \<lparr>rk_new = (\<lambda>types. Inr ()),
      rk_convert = (\<lambda>types arrays.
        Inr (map (\<lambda>i. replicate (to_nat (row_cells arrays i)) 0) [0..<(case arrays of [] \<Rightarrow> 0 | a # _ \<Rightarrow> len a)]))\<rparr>"

lemma row_kernels_ok_plain [simp]: "row_kernels_ok plain_row_kernels types"
proof -
  have "inj (\<lambda>cells :: cell list. replicate (to_nat cells) (0 :: u8))"
    by (rule injI) (metis length_replicate to_nat_split)
  moreover have "rk_convert plain_row_kernels types arrays = Inr (map (\<lambda>i. replicate (to_nat (row_cells arrays i)) 0) [0..<n])"
    if a: "map data_type_of arrays = types \<and> (\<forall>a \<in> set arrays. wf_array a \<and> len a = n) \<and> arrays \<noteq> []" for arrays n
  proof -
    from a have "(case arrays of [] \<Rightarrow> 0 | a # _ \<Rightarrow> len a) = n" by (cases arrays) simp_all
    then show ?thesis by (simp add: plain_row_kernels_def)
  qed
  ultimately show ?thesis unfolding row_kernels_ok_def
    by (intro conjI exI [of _ "\<lambda>cells. replicate (to_nat cells) 0"]) (simp add: plain_row_kernels_def, blast+)
qed


section \<open>Key sets\<close>

datatype composite_key_set =
    Fixed16 pair_set
  | PairPath source_addresses
  | Wide "u8 list list"
  | RowKeys "data_type list" "u8 list list"

primrec key_set_is_empty :: "composite_key_set \<Rightarrow> bool" where
  "key_set_is_empty (Fixed16 s) = pair_set_is_empty s"
| "key_set_is_empty (PairPath s) = sources_is_empty s"
| "key_set_is_empty (Wide s) = (s = [])"
| "key_set_is_empty (RowKeys types values) = (values = [])"

record key_set =
  ks_key_set :: composite_key_set
  ks_sorted_blocks :: "nat list"
  ks_width :: nat
  ks_readable :: bool

record key_filter =
  kf_columns :: "string list"
  kf_key_set :: composite_key_set
  kf_sorted_blocks :: "nat list"
  kf_block_number_column :: string
  kf_materialization :: bool

definition sorted_blocks :: "nat list \<Rightarrow> nat list" where
  "sorted_blocks blocks = sort (remdups blocks)"

definition extract_block_numbers :: "array \<Rightarrow> nulls \<Rightarrow> nat list \<Rightarrow> nat list" where
  "extract_block_numbers col rows out =
     (case resolve_int col of
        None \<Rightarrow> out
      | Some reader \<Rightarrow>
          fold (\<lambda>row out. if valid_at rows row then push_new (block_number reader row) out else out)
            [0..<int_len reader] out)"

text \<open>The columns of the first batch with rows decide how the keys are held.\<close>

definition first_with_rows :: "batch list \<Rightarrow> batch option" where
  "first_with_rows bs = find (\<lambda>b. b_num_rows b > 0) bs"

definition uses_fixed16 :: "batch list \<Rightarrow> string list \<Rightarrow> bool" where
  "uses_fixed16 bs names =
     (length names = 2 \<and>
      (case first_with_rows bs of
         None \<Rightarrow> False
       | Some b \<Rightarrow> list_all (\<lambda>name. case Option.bind (column_by_name b name) resolve_key of
            None \<Rightarrow> False | Some k \<Rightarrow> is_integer_key k) names))"

definition uses_pair_path :: "batch list \<Rightarrow> string list \<Rightarrow> bool" where
  "uses_pair_path bs names =
     (length names = 3 \<and>
      (case first_with_rows bs of
         None \<Rightarrow> False
       | Some b \<Rightarrow>
           Option.bind (column_by_name b (names ! 0)) resolve_int \<noteq> None \<and>
           Option.bind (column_by_name b (names ! 1)) resolve_int \<noteq> None \<and>
           address_list b (names ! 2) \<noteq> None))"

definition key_blocks :: "string \<Rightarrow> nulls \<Rightarrow> batch \<Rightarrow> nat list \<Rightarrow> nat list" where
  "key_blocks bn complete b out =
     (case column_by_name b bn of None \<Rightarrow> out | Some col \<Rightarrow> extract_block_numbers col complete out)"

definition fixed16_batch :: "string list \<Rightarrow> string \<Rightarrow> batch \<Rightarrow> (nat \<times> nat) list \<times> nat list \<times> bool \<Rightarrow> (nat \<times> nat) list \<times> nat list \<times> bool" where
  "fixed16_batch names bn b = (\<lambda>(pairs, blocks, readable).
     if b_num_rows b = 0 then (pairs, blocks, readable)
     else (case pair_keys_of b names of
         None \<Rightarrow> (pairs, blocks, False)
       | Some (first, second, n) \<Rightarrow>
           (pairs @ map (\<lambda>row. (unat (first ! row), unat (second ! row))) (filter (valid_at n) [0..<b_num_rows b]),
            key_blocks bn n b blocks, readable)))"

definition wide_batch :: "string list \<Rightarrow> string \<Rightarrow> batch \<Rightarrow> u8 list list \<times> nat list \<Rightarrow> u8 list list \<times> nat list" where
  "wide_batch names bn b = (\<lambda>(written, blocks).
     if b_num_rows b = 0 then (written, blocks)
     else
       let columns = typed_key_columns b names in
       (fold (\<lambda>row. insert_key (append_all columns row [])) [0..<b_num_rows b] written,
        key_blocks bn (complete_keys b names) b blocks))"

definition key_set_build :: "batch list \<Rightarrow> string list \<Rightarrow> string \<Rightarrow> key_set" where
  "key_set_build bs left_keys primary_bn_col =
     (let readable = keys_readable bs left_keys;
          (held, blocks, readable') =
            (if uses_pair_path bs left_keys then
               (PairPath (sources_build bs (take 2 left_keys) (left_keys ! 2)),
                fold (\<lambda>b. key_blocks primary_bn_col (complete_keys b left_keys) b) bs [], readable)
             else if uses_fixed16 bs left_keys then
               let (pairs, blocks, readable') = fold (fixed16_batch left_keys primary_bn_col) bs ([], [], readable)
               in (Fixed16 (pair_set_new pairs), blocks, readable')
             else
               let (written, blocks) = fold (wide_batch left_keys primary_bn_col) bs ([], [])
               in (Wide written, blocks, readable))
      in \<lparr>ks_key_set = held, ks_sorted_blocks = sorted_blocks blocks, ks_width = length left_keys, ks_readable = readable'\<rparr>)"

definition key_set_matches_nothing :: "key_set \<Rightarrow> bool" where
  "key_set_matches_nothing ks = (ks_readable ks \<and> key_set_is_empty (ks_key_set ks))"

definition key_set_filter :: "key_set \<Rightarrow> string list \<Rightarrow> string \<Rightarrow> engine_error + key_filter" where
  "key_set_filter ks right_keys target_bn_col =
     and_then (ensure (ks_width ks = length right_keys) Panic) (\<lambda>_.
     Inr \<lparr>kf_columns = right_keys, kf_key_set = ks_key_set ks, kf_sorted_blocks = ks_sorted_blocks ks,
          kf_block_number_column = target_bn_col, kf_materialization = False\<rparr>)"

definition key_filter_build ::
    "batch list \<Rightarrow> string list \<Rightarrow> string list \<Rightarrow> string \<Rightarrow> string \<Rightarrow> engine_error + key_filter" where
  "key_filter_build bs left_keys right_keys primary_bn_col target_bn_col =
     key_set_filter (key_set_build bs left_keys primary_bn_col) right_keys target_bn_col"

definition key_filter_is_empty :: "key_filter \<Rightarrow> bool" where
  "key_filter_is_empty f = key_set_is_empty (kf_key_set f)"

definition has_block_within :: "key_filter \<Rightarrow> nat \<Rightarrow> nat \<Rightarrow> bool" where
  "has_block_within f lo hi =
     (case get (kf_sorted_blocks f) (partition_point (\<lambda>block. block < lo) (kf_sorted_blocks f)) of
        None \<Rightarrow> False
      | Some block \<Rightarrow> block \<le> hi)"

definition checks_blocks_first :: "key_filter \<Rightarrow> bool" where
  "checks_blocks_first f = kf_materialization f"


section \<open>Row identities\<close>

text \<open>\<open>Schema::index_of\<close> with the column at it; a missing column is Arrow's error.\<close>

definition named_arrays :: "batch \<Rightarrow> string list \<Rightarrow> engine_error + array list" where
  "named_arrays b columns = try_collect (\<lambda>name. ok_or Untyped (column_by_name b name)) columns"

definition plain_keys :: "batch list \<Rightarrow> string list \<Rightarrow> bool" where
  "plain_keys bs columns =
     list_all (\<lambda>b. list_all (\<lambda>name.
       case column_by_name b name of
         None \<Rightarrow> False
       | Some a \<Rightarrow> null_count a = 0 \<and> (is_integer (data_type_of a) \<or> data_type_of a = DText Utf8)) columns) bs"

definition identity_batch ::
    "row_kernels \<Rightarrow> data_type list \<Rightarrow> string list \<Rightarrow> string \<Rightarrow> batch \<Rightarrow> u8 list list \<times> nat list \<Rightarrow> engine_error + u8 list list \<times> nat list" where
  "identity_batch R types columns bn b = (\<lambda>(values, blocks).
     and_then (named_arrays b columns) (\<lambda>arrays.
     and_then (rk_convert R types arrays) (\<lambda>rows.
     Inr (fold push_new rows values, key_blocks bn None b blocks))))"

definition key_filter_for_rows :: "row_kernels \<Rightarrow> batch list \<Rightarrow> string list \<Rightarrow> string \<Rightarrow> engine_error + key_filter" where
  "key_filter_for_rows R bs columns block_column =
     (case bs of
        [] \<Rightarrow> Inl (EngineError MalformedChunkData)
      | first # _ \<Rightarrow>
          and_then (named_arrays first columns) (\<lambda>own.
          if plain_keys bs columns then
            and_then (key_filter_build bs columns columns block_column block_column) (\<lambda>f.
            Inr (f\<lparr>kf_materialization := True\<rparr>))
          else
            let types = map data_type_of own in
            and_then (rk_new R types) (\<lambda>_.
            and_then (try_fold (identity_batch R types columns block_column) bs ([], [])) (\<lambda>(values, blocks).
            Inr \<lparr>kf_columns = columns, kf_key_set = RowKeys types values, kf_sorted_blocks = sorted_blocks blocks,
                 kf_block_number_column = block_column, kf_materialization = True\<rparr>))))"


section \<open>Masks\<close>

definition asked :: "bool list option \<Rightarrow> nat \<Rightarrow> bool" where
  "asked candidates i = (case candidates of None \<Rightarrow> True | Some c \<Rightarrow> c ! i)"

definition fixed16_mask :: "pair_set \<Rightarrow> string list \<Rightarrow> batch \<Rightarrow> bool list option \<Rightarrow> engine_error + mask" where
  "fixed16_mask s columns b candidates =
     (case pair_keys_of b columns of
        None \<Rightarrow> Inr (all_mask (b_num_rows b) False)
      | Some (first, second, n) \<Rightarrow>
          and_then (try_collect (\<lambda>row.
              if asked candidates row
              then ok_or Panic (pair_set_contains s (unat (first ! row)) (unat (second ! row)))
              else Inr False) [0..<b_num_rows b]) (\<lambda>found.
          Inr (map Some (case n of None \<Rightarrow> found | Some v \<Rightarrow> map2 (\<and>) found v))))"

definition composite_key_in_set_mask ::
    "row_kernels \<Rightarrow> batch \<Rightarrow> string list \<Rightarrow> composite_key_set \<Rightarrow> bool list option \<Rightarrow> engine_error + mask" where
  "composite_key_in_set_mask R b key_columns held candidates =
     (case held of
        RowKeys types values \<Rightarrow>
          and_then (named_arrays b key_columns) (\<lambda>arrays.
          and_then (rk_convert R types arrays) (\<lambda>rows.
          Inr (map (\<lambda>r. Some (r \<in> set values)) rows)))
      | Fixed16 s \<Rightarrow> fixed16_mask s key_columns b candidates
      | Wide written \<Rightarrow>
          let columns = typed_key_columns b key_columns in
          Inr (map (\<lambda>row. Some (asked candidates row \<and>
              (case append_all columns row [] of None \<Rightarrow> False | Some k \<Rightarrow> k \<in> set written))) [0..<b_num_rows b])
      | PairPath sources \<Rightarrow>
          and_then (ensure (length key_columns \<ge> 3) Panic) (\<lambda>_.
          Inr (address_mask sources b (take 2 key_columns) (key_columns ! 2) candidates (holds sources))))"

definition key_filter_mask :: "row_kernels \<Rightarrow> key_filter \<Rightarrow> batch \<Rightarrow> bool list option \<Rightarrow> engine_error + mask" where
  "key_filter_mask R f b candidates =
     composite_key_in_set_mask R b (kf_columns f) (kf_key_set f) candidates"

section \<open>Facts\<close>

definition present_keys :: "batch list \<Rightarrow> string list \<Rightarrow> key_value list set" where
  "present_keys bs names = {vs. \<exists>s \<in> set bs. \<exists>j < b_num_rows s. key_of s names j = Some vs}"

lemma present_keys_partner:
  "has_partner bs names b names' i \<longleftrightarrow> (\<exists>vs. key_of b names' i = Some vs \<and> vs \<in> present_keys bs names)"
  by (auto simp: has_partner_iff present_keys_def)

lemma present_keys_Cons:
  "present_keys (b # bs) names = {vs. \<exists>j < b_num_rows b. key_of b names j = Some vs} \<union> present_keys bs names"
  by (auto simp: present_keys_def)

lemma first_with_rows_Some: "first_with_rows bs = Some b \<Longrightarrow> b \<in> set bs \<and> b_num_rows b > 0"
  by (auto simp: first_with_rows_def find_Some_iff)

lemma key_kinds_at: "joinable kinds names b \<Longrightarrow> map (\<lambda>name. Option.bind (column_by_name b name) key_kind_of) names = map Some kinds"
  by (simp add: joinable_def keyed_def)

lemma bound_int:
  assumes "Option.bind x resolve_int \<noteq> None" and "Option.bind x key_kind_of = Some k"
  shows "k = IntKey"
  using assms by (cases x; cases "the x" rule: key_kind_of.cases) auto

lemma bound_int_key:
  assumes "(case Option.bind x resolve_key of None \<Rightarrow> False | Some k \<Rightarrow> is_integer_key k)"
  shows "Option.bind x resolve_int \<noteq> None"
proof (cases x)
  case (Some a)
  with assms show ?thesis by (cases a) (auto simp: resolve_key_def split: option.splits if_splits bool.splits)
qed (use assms in simp)

lemma uses_fixed16_kinds:
  assumes bs: "\<forall>b \<in> set bs. joinable kinds names b" and u: "uses_fixed16 bs names"
  shows "kinds = [IntKey, IntKey]"
proof -
  from u obtain b where b: "first_with_rows bs = Some b" and l: "length names = 2"
    and int: "\<forall>name \<in> set names. (case Option.bind (column_by_name b name) resolve_key of None \<Rightarrow> False | Some k \<Rightarrow> is_integer_key k)"
    by (auto simp: uses_fixed16_def list_all_iff split: option.splits)
  from l obtain f g where n: "names = [f, g]" by (auto simp: length_2)
  from key_kinds_at [of kinds names b] bs first_with_rows_Some [OF b] obtain c d where
    "kinds = [c, d]" "Option.bind (column_by_name b f) key_kind_of = Some c" "Option.bind (column_by_name b g) key_kind_of = Some d"
    by (auto simp: n Cons_eq_map_conv)
  with bound_int [OF bound_int_key, of "column_by_name b f" c] bound_int [OF bound_int_key, of "column_by_name b g" d] int n
  show ?thesis by simp
qed

lemma address_list_kind: "address_list b name \<noteq> None \<Longrightarrow> Option.bind (column_by_name b name) key_kind_of = Some k \<Longrightarrow> k = PathKey"
  by (cases "column_by_name b name"; cases "the (column_by_name b name)" rule: key_kind_of.cases)
    (auto simp: address_list_def)

lemma uses_pair_path_kinds:
  assumes bs: "\<forall>b \<in> set bs. joinable kinds names b" and u: "uses_pair_path bs names"
  shows "kinds = [IntKey, IntKey, PathKey]"
proof -
  from u obtain b where b: "first_with_rows bs = Some b" and l: "length names = 3"
    and int: "Option.bind (column_by_name b (names ! 0)) resolve_int \<noteq> None" "Option.bind (column_by_name b (names ! 1)) resolve_int \<noteq> None"
      "address_list b (names ! 2) \<noteq> None"
    by (auto simp: uses_pair_path_def split: option.splits)
  from l obtain f g h where n: "names = [f, g, h]" by (auto simp: numeral_3_eq_3 length_Suc_conv)
  from key_kinds_at [of kinds names b] bs first_with_rows_Some [OF b] obtain c d e where
    "kinds = [c, d, e]" "Option.bind (column_by_name b f) key_kind_of = Some c" "Option.bind (column_by_name b g) key_kind_of = Some d"
    "Option.bind (column_by_name b h) key_kind_of = Some e"
    by (auto simp: n Cons_eq_map_conv)
  with bound_int int address_list_kind n show ?thesis by (simp add: numeral_2_eq_2)
qed

text \<open>Key bytes, row by row.\<close>

lemma inserted_keys: "set (fold (\<lambda>row. insert_key (f row)) rows seen) = set seen \<union> {k. \<exists>row \<in> set rows. f row = Some k}"
  by (induction rows arbitrary: seen) (auto simp: insert_key_def split: option.splits)

lemma written_keys:
  assumes "joinable kinds names b" and "list_all scan_key kinds"
  shows "set (fold (\<lambda>row. insert_key (append_all (typed_key_columns b names) row [])) [0..<b_num_rows b] written) =
    set written \<union> row_key_bytes ` {vs. \<exists>j < b_num_rows b. key_of b names j = Some vs}"
proof -
  have a: "append_all (typed_key_columns b names) i [] = map_option row_key_bytes (key_of b names i)" for i
    using assms append_all_key [of kinds names b] by (simp add: joinable_def)
  have "{k. \<exists>row \<in> set [0..<b_num_rows b]. map_option row_key_bytes (key_of b names row) = Some k} =
      row_key_bytes ` {vs. \<exists>j < b_num_rows b. key_of b names j = Some vs}"
    by (rule set_eqI) (simp only: mem_Collect_eq image_iff map_option_eq_Some set_upt atLeastLessThan_iff Bex_def; blast)
  then show ?thesis unfolding a inserted_keys by (rule arg_cong)
qed

lemma wide_keys:
  assumes "\<forall>b \<in> set bs. joinable kinds names b" and "list_all scan_key kinds"
  shows "set (fst (fold (wide_batch names bn) bs (written, blocks))) = set written \<union> row_key_bytes ` present_keys bs names"
  using assms(1)
proof (induction bs arbitrary: written blocks)
  case Nil
  then show ?case by (simp add: present_keys_def)
next
  case (Cons b bs)
  let ?w = "fst (wide_batch names bn b (written, blocks))"
  have "set ?w = set written \<union> row_key_bytes ` {vs. \<exists>j < b_num_rows b. key_of b names j = Some vs}"
    using written_keys [of kinds names b written] Cons.prems assms(2) by (cases "b_num_rows b = 0") (simp_all add: wide_batch_def Let_def)
  with Cons.IH [of ?w "snd (wide_batch names bn b (written, blocks))"] Cons.prems show ?case
    by (auto simp: present_keys_Cons image_Un)
qed

text \<open>Pairs of integers.\<close>

lemma pair_columns_key:
  assumes b: "joinable [IntKey, IntKey] names b"
  obtains f s n where "pair_keys_of b names = Some (f, s, n)" "length f = b_num_rows b" "length s = b_num_rows b"
    "nulls_fit n (b_num_rows b)"
    "\<And>i. i < b_num_rows b \<Longrightarrow> key_of b names i = (if valid_at n i then Some [VInt (f ! i), VInt (s ! i)] else None)"
proof -
  from b have "map (\<lambda>name. Option.bind (column_by_name b name) key_kind_of) names = [Some IntKey, Some IntKey]"
    using key_kinds_at [OF b] by simp
  then obtain f s x y where g: "names = [f, s]" "column_by_name b f = Some x" "column_by_name b s = Some y"
    "key_kind_of x = Some IntKey" "key_kind_of y = Some IntKey"
    by (auto simp: map_eq_Cons_conv bind_eq_Some_conv)
  obtain t vs n where x: "x = AInt t vs n" using g(4) by (cases x rule: key_kind_of.cases) auto
  obtain u ws m where y: "y = AInt u ws m" using g(5) by (cases y rule: key_kind_of.cases) auto
  have "batch_ok b" using b by (simp add: joinable_def)
  then have len: "length vs = b_num_rows b" "length ws = b_num_rows b" "nulls_fit n (length vs)" "nulls_fit m (length ws)"
    using batch_column [OF _ g(2)] batch_column [OF _ g(3)] unfolding x y wf_array.simps len.simps by auto
  have v: "valid_at (nulls_union n m) i \<longleftrightarrow> valid_at n i \<and> valid_at m i" if "i < b_num_rows b" for i
    using that len by (cases n; cases m) (simp_all add: valid_at_def nulls_fit_def)
  show ?thesis
  proof (rule that [of "map stored_key vs" "map stored_key ws" "nulls_union n m"])
    show "nulls_fit (nulls_union n m) (b_num_rows b)" using len by (cases n; cases m) (simp_all add: nulls_fit_def)
    show "key_of b names i = (if valid_at (nulls_union n m) i then Some [VInt (map stored_key vs ! i), VInt (map stored_key ws ! i)] else None)"
      if "i < b_num_rows b" for i
      using that len v [OF that] by (simp add: g x y key_of_def key_value_at_def is_null_def)
  qed (use len in \<open>simp_all add: pair_keys_of_def g x y int_nulls_def\<close>)
qed

definition pair_of :: "key_value list \<Rightarrow> nat \<times> nat" where
  "pair_of vs = (case vs of [VInt x, VInt y] \<Rightarrow> (unat x, unat y) | _ \<Rightarrow> (0, 0))"

lemma fixed16_pairs:
  assumes "\<forall>b \<in> set bs. joinable [IntKey, IntKey] names b"
  shows "set (fst (fold (fixed16_batch names bn) bs (pairs, blocks, r))) = set pairs \<union> pair_of ` present_keys bs names"
  using assms
proof (induction bs arbitrary: pairs blocks r)
  case Nil
  then show ?case by (simp add: present_keys_def)
next
  case (Cons b bs)
  let ?st = "fixed16_batch names bn b (pairs, blocks, r)"
  from Cons.prems have "joinable [IntKey, IntKey] names b" by simp
  then obtain f s n where p: "pair_keys_of b names = Some (f, s, n)"
    "\<And>i. i < b_num_rows b \<Longrightarrow> key_of b names i = (if valid_at n i then Some [VInt (f ! i), VInt (s ! i)] else None)"
    by (rule pair_columns_key) blast
  have "set (fst ?st) = set pairs \<union> pair_of ` {vs. \<exists>j < b_num_rows b. key_of b names j = Some vs}"
    using p by (force simp: fixed16_batch_def pair_of_def split: if_splits)
  moreover obtain ps' bl' r' where st: "?st = (ps', bl', r')" by (cases ?st)
  ultimately show ?case
    using Cons.IH [of ps' bl' r'] Cons.prems by (auto simp: st present_keys_Cons image_Un)
qed

text \<open>The mask of a batch, for each way the keys are held.\<close>

definition selected_mask :: "(nat \<Rightarrow> bool) \<Rightarrow> batch \<Rightarrow> bool list option \<Rightarrow> mask" where
  "selected_mask p b candidates = map (\<lambda>i. Some (asked candidates i \<and> p i)) [0..<b_num_rows b]"

lemma unat_u64: "unat (w :: u64) < 2 ^ 64"
  by (rule less_le_trans [OF unsigned_less]) simp

lemma pair_of_ok: "pair_ok (pair_of vs)"
  by (auto simp: pair_ok_def pair_of_def unat_u64 [simplified] split: list.splits key_value.splits)

lemma pair_of_inject:
  assumes "map value_kind vs = [IntKey, IntKey]" and "map value_kind ws = [IntKey, IntKey]"
  shows "pair_of vs = pair_of ws \<longleftrightarrow> vs = ws"
proof -
  have two: "\<exists>x y. us = [VInt x, VInt y]" if "map value_kind us = [IntKey, IntKey]" for us
  proof -
    from that obtain v w where u: "us = [v, w]" "value_kind v = IntKey" "value_kind w = IntKey" by auto
    then show ?thesis by (cases v; cases w) auto
  qed
  from two [OF assms(1)] two [OF assms(2)] show ?thesis by (auto simp: pair_of_def word_unat_eq_iff)
qed

lemma present_kinds:
  assumes "\<forall>b \<in> set bs. joinable kinds names b" and "vs \<in> present_keys bs names"
  shows "map value_kind vs = kinds"
  using assms key_kinds by (auto simp: present_keys_def)

lemma fixed16_mask_rows:
  assumes bs: "\<forall>b \<in> set bs. joinable [IntKey, IntKey] names b" and b: "joinable [IntKey, IntKey] names' b"
    and ks: "set ks = pair_of ` present_keys bs names"
  shows "fixed16_mask (pair_set_new ks) names' b candidates = Inr (selected_mask (has_partner bs names b names') b candidates)"
proof -
  from b obtain f s n where p: "pair_keys_of b names' = Some (f, s, n)" "nulls_fit n (b_num_rows b)"
    "\<And>i. i < b_num_rows b \<Longrightarrow> key_of b names' i = (if valid_at n i then Some [VInt (f ! i), VInt (s ! i)] else None)"
    by (rule pair_columns_key) blast
  let ?pair = "\<lambda>i. (unat (f ! i), unat (s ! i))"
  have "list_all pair_ok ks" using ks pair_of_ok by (auto simp: list_all_iff)
  then have found: "pair_set_contains (pair_set_new ks) (unat (f ! i)) (unat (s ! i)) = Some (?pair i \<in> set ks)" for i
    using pair_keys.member_build [of ks "?pair i"] by (simp add: pair_ok_def unat_u64 [simplified])
  have partner: "has_partner bs names b names' i \<longleftrightarrow> valid_at n i \<and> ?pair i \<in> set ks" if "i < b_num_rows b" for i
  proof -
    have "?pair i \<in> set ks \<longleftrightarrow> [VInt (f ! i), VInt (s ! i)] \<in> present_keys bs names"
    proof -
      have "pair_of vs = ?pair i \<longleftrightarrow> vs = [VInt (f ! i), VInt (s ! i)]" if "vs \<in> present_keys bs names" for vs
        using pair_of_inject [OF present_kinds [OF bs that], of "[VInt (f ! i), VInt (s ! i)]"] by (simp add: pair_of_def)
      then show ?thesis by (force simp: ks)
    qed
    then show ?thesis by (simp add: present_keys_partner p(3) [OF that])
  qed
  have collect: "try_collect (\<lambda>row. if asked candidates row
        then ok_or Panic (pair_set_contains (pair_set_new ks) (unat (f ! row)) (unat (s ! row))) else Inr False) rows =
      Inr (map (\<lambda>i. asked candidates i \<and> ?pair i \<in> set ks) rows)" for rows
    by (induction rows) (simp_all add: found)
  let ?found = "map (\<lambda>i. asked candidates i \<and> ?pair i \<in> set ks) [0..<b_num_rows b]"
  have "map Some (case n of None \<Rightarrow> ?found | Some v \<Rightarrow> map2 (\<and>) ?found v) = selected_mask (has_partner bs names b names') b candidates"
    by (rule nth_equalityI)
      (use p(2) partner in \<open>auto simp: selected_mask_def valid_at_def nulls_fit_def split: option.splits\<close>)
  then show ?thesis using collect by (simp add: fixed16_mask_def p(1))
qed

lemma wide_mask_rows:
  assumes bs: "\<forall>b \<in> set bs. joinable kinds names b" and b: "joinable kinds names' b" and kinds: "list_all scan_key kinds"
    and ks: "set ks = row_key_bytes ` present_keys bs names"
  shows "composite_key_in_set_mask R b names' (Wide ks) candidates = Inr (selected_mask (has_partner bs names b names') b candidates)"
proof -
  have "(case append_all (typed_key_columns b names') i [] of None \<Rightarrow> False | Some k \<Rightarrow> k \<in> set ks) \<longleftrightarrow> has_partner bs names b names' i"
    if i: "i < b_num_rows b" for i
  proof (cases "key_of b names' i")
    case None
    then show ?thesis using append_all_key [of kinds names' b i] b kinds by (simp add: joinable_def present_keys_partner)
  next
    case (Some vs)
    have "row_key_bytes ws = row_key_bytes vs \<longleftrightarrow> ws = vs" if "ws \<in> present_keys bs names" for ws
      using that joined_keys [OF _ b _ i _ Some] bs by (auto simp: present_keys_def)
    then have "row_key_bytes vs \<in> set ks \<longleftrightarrow> vs \<in> present_keys bs names" by (force simp: ks)
    then show ?thesis
      using append_all_key [of kinds names' b i] b kinds Some by (simp add: joinable_def present_keys_partner)
  qed
  then show ?thesis by (simp add: composite_key_in_set_mask_def selected_mask_def)
qed

lemma key_of_append:
  "key_of b (xs @ [name]) i = Some vs \<longleftrightarrow>
     (\<exists>us v. key_of b xs i = Some us \<and> Option.bind (column_by_name b name) (\<lambda>a. key_value_at a i) = Some v \<and> vs = us @ [v])"
  by (auto simp: key_of_def those_Some map_eq_append_conv append_eq_map_conv Cons_eq_map_conv)

lemma path_key:
  assumes "joinable (kinds @ [PathKey]) (xs @ [name]) b" and i: "i < b_num_rows b" and "length xs = length kinds"
  shows "key_of b (xs @ [name]) i = Some vs \<longleftrightarrow>
    (\<exists>us p. key_of b xs i = Some us \<and> path_of b name i = Some p \<and> vs = us @ [VPath p])"
proof -
  from key_kinds_at [OF assms(1)] assms(3) obtain a where a: "column_by_name b name = Some a" "key_kind_of a = Some PathKey"
    by (auto simp: bind_eq_Some_conv)
  have "wf_array a" "i < len a" using batch_column [OF _ a(1)] assms(1) i by (auto simp: joinable_def)
  then have "value_kind v = PathKey" if "key_value_at a i = Some v" for v
    using slot_kind [OF _ _ a(2)] that by (auto simp: key_value_at_def split: if_splits)
  then have "key_value_at a i = Some v \<longleftrightarrow> (\<exists>p. path_of b name i = Some p \<and> v = VPath p)" for v
    using a(1) by (cases v) (auto simp: path_of_def split: option.splits key_value.splits)
  then show ?thesis unfolding key_of_append using a(1) by auto
qed

lemma path_batch_of:
  assumes b: "joinable [IntKey, IntKey, PathKey] [f, g, name] b"
  shows "path_batch [IntKey, IntKey] [f, g] name b"
proof -
  from key_kinds_at [OF b] obtain x y a where a: "column_by_name b name = Some a" "key_kind_of a = Some PathKey"
    and x: "column_by_name b f = Some x" "key_kind_of x = Some IntKey" and y: "column_by_name b g = Some y" "key_kind_of y = Some IntKey"
    by (auto simp: bind_eq_Some_conv)
  have fits: "value_fits v" if "key_value_at c i = Some v" "key_kind_of c = Some IntKey" for c i v
    using that by (cases c rule: key_kind_of.cases) (auto simp: key_value_at_def split: if_splits)
  have "list_all value_fits us" if "key_of b [f, g] i = Some us" for us i
    using that fits x y by (auto simp: key_of_def those_Some Cons_eq_map_conv list_all_iff split: option.splits)
  then have "joinable [IntKey, IntKey] [f, g] b" using b x y by (simp add: joinable_def keyed_def)
  moreover from a(2) obtain os t vs m n where "a = AList False os (AInt t vs m) n" by (cases a rule: key_kind_of.cases) auto
  ultimately show ?thesis using a(1) by (simp add: path_batch_def)
qed

lemma path_mask_rows:
  assumes bs: "\<forall>b \<in> set bs. joinable [IntKey, IntKey, PathKey] [f, g, h] b"
    and b: "joinable [IntKey, IntKey, PathKey] [f', g', h'] b" and small: "small_sources bs h"
  shows "composite_key_in_set_mask R b [f', g', h'] (PairPath (sources_build bs [f, g] h)) candidates =
    Inr (selected_mask (has_partner bs [f, g, h] b [f', g', h']) b candidates)"
proof -
  let ?sa = "sources_build bs [f, g] h"
  have pb: "list_all (path_batch [IntKey, IntKey] [f, g] h) bs" using bs path_batch_of by (auto simp: list_all_iff)
  have scan: "list_all scan_key [IntKey, IntKey]" by (simp add: scan_key_def)
  have w: "indexes_well ?sa bs h [f, g] b h' [f', g'] candidates"
    by (rule indexes_all [OF scan pb path_batch_of [OF b] small]) simp
  then have ok: "path_index_ok ?sa" by (simp add: indexes_well_def)
  have "holds ?sa k (encoded_path t) = (\<exists>q. encoded_path q \<in> set (group_paths ?sa k) \<and> q = t)" if "k < length (sa_ranges ?sa)" for k t
    using holds_iff [OF ok that] by simp
  then have m: "address_mask ?sa b [f', g'] h' candidates (holds ?sa) =
      map (\<lambda>i. Some (asked candidates i \<and> relative_at (=) bs h [f, g] b h' [f', g'] i)) [0..<b_num_rows b]"
    using w by (simp add: indexes_well_def asked_def)
  have row: "key_of s [x, y, z] i = Some vs \<longleftrightarrow>
      (\<exists>us p. key_of s [x, y] i = Some us \<and> path_of s z i = Some p \<and> vs = us @ [VPath p])"
    if "joinable [IntKey, IntKey, PathKey] [x, y, z] s" "i < b_num_rows s" for s x y z i vs
    using path_key [of "[IntKey, IntKey]" "[x, y]" z s i vs] that by simp
  have "relative_at (=) bs h [f, g] b h' [f', g'] i \<longleftrightarrow> has_partner bs [f, g, h] b [f', g', h'] i"
    if i: "i < b_num_rows b" for i
  proof -
    have "relative_at (=) bs h [f, g] b h' [f', g'] i \<longleftrightarrow>
        (\<exists>us p. key_of b [f', g'] i = Some us \<and> path_of b h' i = Some p \<and>
          (\<exists>s \<in> set bs. \<exists>j < b_num_rows s. key_of s [f, g] j = Some us \<and> path_of s h j = Some p))"
    proof (cases "key_of b [f', g'] i")
      case (Some us)
      have "(case x of None \<Rightarrow> False | Some q \<Rightarrow> q = p) \<longleftrightarrow> x = Some p" for x and p :: "u64 list" by (cases x) simp_all
      then show ?thesis by (cases "path_of b h' i") (simp_all add: relative_at_def Some list_ex_iff Bex_def)
    qed (simp add: relative_at_def)
    also have "\<dots> \<longleftrightarrow> has_partner bs [f, g, h] b [f', g', h'] i"
    proof -
      have "key_of s [f, g, h] j = Some (us @ [VPath p]) \<longleftrightarrow> key_of s [f, g] j = Some us \<and> path_of s h j = Some p"
        if "s \<in> set bs" "j < b_num_rows s" for s j us p
        using row [of f g h s j "us @ [VPath p]"] bs that by simp
      then have "(\<exists>s \<in> set bs. \<exists>j < b_num_rows s. key_of s [f, g, h] j = Some (us @ [VPath p])) \<longleftrightarrow>
          (\<exists>s \<in> set bs. \<exists>j < b_num_rows s. key_of s [f, g] j = Some us \<and> path_of s h j = Some p)" for us p
        by (intro bex_cong refl ex_cong1 conj_cong) simp_all
      then show ?thesis unfolding has_partner_iff row [OF b i] by blast
    qed
    finally show ?thesis .
  qed
  then show ?thesis by (simp add: composite_key_in_set_mask_def m selected_mask_def numeral_2_eq_2)
qed

text \<open>The blocks of the keys.\<close>

lemma extracted_blocks:
  "resolve_int a = Some c \<Longrightarrow>
     set (extract_block_numbers a n out) = set out \<union> {block_number c j | j. j < int_len c \<and> valid_at n j}"
proof -
  have "set (fold (\<lambda>row out. if valid_at n row then push_new (block_number c row) out else out) rows out) =
      set out \<union> {block_number c j | j. j \<in> set rows \<and> valid_at n j}" for rows out
    by (induction rows arbitrary: out) auto
  then show "resolve_int a = Some c \<Longrightarrow> ?thesis" by (simp add: extract_block_numbers_def)
qed

text \<open>The block of every source row with a complete key is among the blocks.\<close>

definition block_at :: "batch \<Rightarrow> string \<Rightarrow> nat \<Rightarrow> nat option" where
  "block_at b bn j = map_option (\<lambda>c. block_number c j) (Option.bind (column_by_name b bn) resolve_int)"

definition has_blocks :: "batch list \<Rightarrow> string list \<Rightarrow> string \<Rightarrow> nat list \<Rightarrow> bool" where
  "has_blocks bs names bn blocks \<longleftrightarrow>
     (\<forall>b \<in> set bs. \<forall>j < b_num_rows b. key_of b names j \<noteq> None \<longrightarrow> (\<forall>n. block_at b bn j = Some n \<longrightarrow> n \<in> set blocks))"

lemma key_blocks_has:
  assumes "batch_ok b" and "\<And>j. j < b_num_rows b \<Longrightarrow> key_of b names j \<noteq> None \<Longrightarrow> valid_at n j"
  shows "set out \<subseteq> set (key_blocks bn n b out)" and "has_blocks [b] names bn (key_blocks bn n b out)"
proof -
  show "set out \<subseteq> set (key_blocks bn n b out)"
  proof (cases "column_by_name b bn")
    case (Some a)
    show ?thesis
    proof (cases "resolve_int a")
      case None
      then show ?thesis by (simp add: key_blocks_def Some extract_block_numbers_def)
    next
      case c: (Some c)
      show ?thesis using extracted_blocks [OF c] by (auto simp: key_blocks_def Some)
    qed
  qed (simp add: key_blocks_def)
  show "has_blocks [b] names bn (key_blocks bn n b out)"
    unfolding has_blocks_def
  proof (intro ballI allI impI)
    fix s j k assume s: "s \<in> set [b]" "j < b_num_rows s" "key_of s names j \<noteq> None" "block_at s bn j = Some k"
    then obtain a c where a: "column_by_name b bn = Some a" "resolve_int a = Some c" "k = block_number c j"
      by (auto simp: block_at_def bind_eq_Some_conv)
    moreover have "j < int_len c" using batch_column [OF assms(1) a(1)] a(2) s(1,2) by (cases a) auto
    moreover have "valid_at n j" using assms(2) s by auto
    ultimately show "k \<in> set (key_blocks bn n b out)" using extracted_blocks [OF a(2)] by (auto simp: key_blocks_def)
  qed
qed

lemma key_column:
  assumes "joinable kinds names b" and "name \<in> set names"
  shows "\<exists>a k. column_by_name b name = Some a \<and> key_kind_of a = Some k \<and> k \<in> set kinds"
proof -
  have "Option.bind (column_by_name b name) key_kind_of \<in> set (map Some kinds)"
    unfolding key_kinds_at [OF assms(1), symmetric] set_map by (rule imageI) (rule assms(2))
  then show ?thesis by (auto simp: bind_eq_Some_conv)
qed

lemma key_value_present:
  assumes "key_of b names j = Some vs" and "name \<in> set names"
  shows "\<exists>a v. column_by_name b name = Some a \<and> key_value_at a j = Some v"
proof -
  have v: "map (\<lambda>name. Option.bind (column_by_name b name) (\<lambda>a. key_value_at a j)) names = map Some vs"
    using assms(1) by (simp add: key_of_def those_Some)
  have "Option.bind (column_by_name b name) (\<lambda>a. key_value_at a j) \<in> set (map Some vs)"
    unfolding v [symmetric] set_map by (rule imageI) (rule assms(2))
  then show ?thesis by (auto simp: bind_eq_Some_conv)
qed

lemma complete_keys_valid:
  assumes b: "joinable kinds names b" and scan: "list_all scan_key kinds" and j: "j < b_num_rows b" and k: "key_of b names j \<noteq> None"
  shows "valid_at (complete_keys b names) j"
proof -
  let ?ns = "List.map_filter (\<lambda>name. Option.bind (column_by_name b name) logical_nulls) names"
  have ns: "length v = b_num_rows b \<and> v ! j" if "v \<in> set ?ns" for v
  proof -
    from that obtain name a where a: "name \<in> set names" "column_by_name b name = Some a" "logical_nulls a = Some v"
      by (auto simp: in_map_filter bind_eq_Some_conv)
    from key_column [OF b a(1)] scan a(2) obtain kind where kind: "key_kind_of a = Some kind" "scan_key kind"
      by (auto simp: list_all_iff)
    then have n: "nulls_of a = Some v" using a(3) by (cases a rule: key_kind_of.cases) (auto simp: scan_key_def)
    have "wf_array a" "len a = b_num_rows b" using batch_column [OF _ a(2)] b by (simp_all add: joinable_def)
    then have "length v = b_num_rows b" using n kind(1) by (cases a rule: key_kind_of.cases) (auto simp: nulls_fit_def)
    moreover from k key_value_present [OF _ a(1)] a(2) obtain u where "key_value_at a j = Some u" by fastforce
    then have "v ! j" using n by (auto simp: key_value_at_def is_null_def valid_at_def split: if_splits)
    ultimately show ?thesis ..
  qed
  have "length (foldl (map2 (\<and>)) v vs) = b_num_rows b \<and> foldl (map2 (\<and>)) v vs ! j"
    if "\<forall>u \<in> set (v # vs). length u = b_num_rows b \<and> u ! j" for v vs
    using that by (induction vs arbitrary: v) (simp_all add: j)
  with ns show ?thesis by (auto simp: complete_keys_def valid_at_def split: list.splits)
qed

lemma fold_blocks:
  assumes "\<And>b out. b \<in> set bs \<Longrightarrow> set out \<subseteq> set (F b out) \<and> has_blocks [b] names bn (F b out)"
  shows "set out \<subseteq> set (fold F bs out) \<and> has_blocks bs names bn (fold F bs out)"
  using assms
proof (induction bs arbitrary: out)
  case (Cons b bs)
  have "set (F b out) \<subseteq> set (fold F bs (F b out)) \<and> has_blocks bs names bn (fold F bs (F b out))"
    by (rule Cons.IH) (simp add: Cons.prems)
  with Cons.prems [of b out] show ?case by (auto simp: has_blocks_def)
qed (simp add: has_blocks_def)

lemma path_blocks:
  assumes "\<forall>b \<in> set bs. joinable kinds names b" and "list_all scan_key kinds"
  shows "has_blocks bs names bn (fold (\<lambda>b. key_blocks bn (complete_keys b names) b) bs [])"
proof -
  have "set out \<subseteq> set (key_blocks bn (complete_keys b names) b out) \<and> has_blocks [b] names bn (key_blocks bn (complete_keys b names) b out)"
    if "b \<in> set bs" for b out
    using assms that key_blocks_has [of b names "complete_keys b names"] complete_keys_valid [of kinds names b]
    by (simp add: joinable_def)
  then show ?thesis using fold_blocks [of bs "\<lambda>b. key_blocks bn (complete_keys b names) b"] by blast
qed

lemma wide_blocks:
  assumes "\<forall>b \<in> set bs. joinable kinds names b" and "list_all scan_key kinds"
  shows "has_blocks bs names bn (snd (fold (wide_batch names bn) bs ([], [])))"
proof -
  let ?F = "\<lambda>b bl. if b_num_rows b = 0 then bl else key_blocks bn (complete_keys b names) b bl"
  have "snd (fold (wide_batch names bn) bs (w, bl)) = fold ?F bs bl" for w bl
    by (induction bs arbitrary: w bl) (auto simp: wide_batch_def Let_def)
  moreover have "set out \<subseteq> set (?F b out) \<and> has_blocks [b] names bn (?F b out)" if "b \<in> set bs" for b out
    using assms that key_blocks_has [of b names "complete_keys b names"] complete_keys_valid [of kinds names b]
    by (cases "b_num_rows b = 0") (simp_all add: joinable_def has_blocks_def)
  ultimately show ?thesis using fold_blocks [of bs ?F] by simp
qed

lemma fixed16_blocks:
  assumes "\<forall>b \<in> set bs. joinable [IntKey, IntKey] names b"
  shows "has_blocks bs names bn (fst (snd (fold (fixed16_batch names bn) bs (p, [], r))))"
    and "snd (snd (fold (fixed16_batch names bn) bs (p, bl, r))) = r"
proof -
  let ?F = "\<lambda>b bl. if b_num_rows b = 0 then bl else
      (case pair_keys_of b names of None \<Rightarrow> bl | Some (f, s, n) \<Rightarrow> key_blocks bn n b bl)"
  have "fst (snd (fold (fixed16_batch names bn) bs (p, bl, r))) = fold ?F bs bl" for p bl r
    by (induction bs arbitrary: p bl r) (auto simp: fixed16_batch_def split: option.split)
  moreover have "set out \<subseteq> set (?F b out) \<and> has_blocks [b] names bn (?F b out)" if b: "b \<in> set bs" for b out
  proof -
    from assms b have "joinable [IntKey, IntKey] names b" by simp
    then obtain f s n where p: "pair_keys_of b names = Some (f, s, n)"
      "\<And>i. i < b_num_rows b \<Longrightarrow> key_of b names i = (if valid_at n i then Some [VInt (f ! i), VInt (s ! i)] else None)"
      by (rule pair_columns_key) blast
    then have "valid_at n j" if "j < b_num_rows b" "key_of b names j \<noteq> None" for j using that by (simp split: if_splits)
    then show ?thesis
      using p(1) assms b key_blocks_has [of b names n] by (cases "b_num_rows b = 0") (simp_all add: joinable_def has_blocks_def)
  qed
  ultimately show "has_blocks bs names bn (fst (snd (fold (fixed16_batch names bn) bs (p, [], r))))"
    using fold_blocks [of bs ?F] by simp
  have "\<exists>p' bl'. fold (fixed16_batch names bn) cs (p, bl, r) = (p', bl', r)" if "set cs \<subseteq> set bs" for cs
    using that
  proof (induction cs arbitrary: p bl)
    case (Cons b cs)
    with assms have "joinable [IntKey, IntKey] names b" by simp
    then obtain f s n where "pair_keys_of b names = Some (f, s, n)" by (rule pair_columns_key)
    with Cons show ?case by (auto simp: fixed16_batch_def)
  qed simp
  from this [of bs] show "snd (snd (fold (fixed16_batch names bn) bs (p, bl, r))) = r" by auto
qed

text \<open>What a key set holds: any target of its kinds is asked as the semi-join would.\<close>

definition small_paths :: "batch list \<Rightarrow> string list \<Rightarrow> bool" where
  "small_paths bs names \<longleftrightarrow> (uses_pair_path bs names \<longrightarrow> small_sources bs (names ! 2))"

lemma key_set_holds:
  assumes bs: "\<forall>b \<in> set bs. joinable kinds left b" and scan: "list_all scan_key kinds" and small: "small_paths bs left"
    and b: "joinable kinds right b" and l: "length left = length kinds" "length right = length kinds"
  shows "composite_key_in_set_mask R b right (ks_key_set (key_set_build bs left bn)) candidates =
      Inr (selected_mask (has_partner bs left b right) b candidates)"
    and "has_blocks bs left bn (ks_sorted_blocks (key_set_build bs left bn))"
    and "sorted (ks_sorted_blocks (key_set_build bs left bn))"
    and "ks_width (key_set_build bs left bn) = length left"
proof -
  let ?ks = "key_set_build bs left bn"
  have set_sorted: "has_blocks bs left bn (sorted_blocks bl) = has_blocks bs left bn bl" for bl
    by (simp add: has_blocks_def sorted_blocks_def)
  have "composite_key_in_set_mask R b right (ks_key_set ?ks) candidates =
      Inr (selected_mask (has_partner bs left b right) b candidates) \<and> has_blocks bs left bn (ks_sorted_blocks ?ks) \<and>
      sorted (ks_sorted_blocks ?ks) \<and> ks_width ?ks = length left"
  proof (cases "uses_pair_path bs left")
    case True
    from uses_pair_path_kinds [OF bs True] have k: "kinds = [IntKey, IntKey, PathKey]" .
    with l obtain f g h f' g' h' where n: "left = [f, g, h]" "right = [f', g', h']"
      by (auto simp: numeral_3_eq_3 length_Suc_conv)
    have sm: "small_sources bs h" using small True by (simp add: small_paths_def n numeral_2_eq_2)
    show ?thesis
      using path_mask_rows [OF bs [unfolded k n(1)] b [unfolded k n(2)] sm, of R candidates] path_blocks [OF bs scan, of bn] True
      by (simp add: key_set_build_def n numeral_2_eq_2 set_sorted [unfolded n]) (simp add: sorted_blocks_def)
  next
    case np: False
    show ?thesis
    proof (cases "uses_fixed16 bs left")
      case True
      from uses_fixed16_kinds [OF bs True] have k: "kinds = [IntKey, IntKey]" .
      obtain ps bl r where st: "fold (fixed16_batch left bn) bs ([], [], keys_readable bs left) = (ps, bl, r)"
        by (cases "fold (fixed16_batch left bn) bs ([], [], keys_readable bs left)")
      have "set ps = pair_of ` present_keys bs left"
        using fixed16_pairs [OF bs [unfolded k], of bn "[]" "[]" "keys_readable bs left"] by (simp add: st)
      from fixed16_mask_rows [OF bs [unfolded k] b [unfolded k] this, of candidates]
        fixed16_blocks(1) [OF bs [unfolded k], of bn "[]" "keys_readable bs left"]
      show ?thesis using np True by (simp add: key_set_build_def st set_sorted composite_key_in_set_mask_def) (simp add: sorted_blocks_def)
    next
      case False
      obtain w bl where st: "fold (wide_batch left bn) bs ([], []) = (w, bl)" by (cases "fold (wide_batch left bn) bs ([], [])")
      have "set w = row_key_bytes ` present_keys bs left"
        using wide_keys [OF bs scan, of bn "[]" "[]"] by (simp add: st)
      from wide_mask_rows [OF bs b scan this, of R candidates] wide_blocks [OF bs scan, of bn]
      show ?thesis using np False by (simp add: key_set_build_def st set_sorted) (simp add: sorted_blocks_def)
    qed
  qed
  then show "composite_key_in_set_mask R b right (ks_key_set ?ks) candidates =
      Inr (selected_mask (has_partner bs left b right) b candidates)"
    and "has_blocks bs left bn (ks_sorted_blocks ?ks)" and "sorted (ks_sorted_blocks ?ks)" and "ks_width ?ks = length left"
    by simp_all
qed

text \<open>Row identities.\<close>

lemma named_arrays_Inr:
  "named_arrays b columns = Inr arrays \<longleftrightarrow> map (column_by_name b) columns = map Some arrays"
  by (simp add: named_arrays_def try_collect_Inr_iff ok_or_Inr_iff list_all2_conv_all_nth list_eq_iff_nth_eq) auto

text \<open>A batch of a table: every key column is there, of its type.\<close>

definition table_batch :: "data_type list \<Rightarrow> string list \<Rightarrow> batch \<Rightarrow> bool" where
  "table_batch types columns b \<longleftrightarrow>
     batch_ok b \<and> map (\<lambda>name. map_option data_type_of (column_by_name b name)) columns = map Some types"

definition identity_at :: "batch \<Rightarrow> string list \<Rightarrow> nat \<Rightarrow> cell list" where
  "identity_at b columns i = map (\<lambda>name. case column_by_name b name of None \<Rightarrow> CNull | Some a \<Rightarrow> cell_at a i) columns"

definition has_identity :: "batch list \<Rightarrow> string list \<Rightarrow> batch \<Rightarrow> nat \<Rightarrow> bool" where
  "has_identity bs columns b i =
     list_ex (\<lambda>s. list_ex (\<lambda>j. identity_at s columns j = identity_at b columns i) [0..<b_num_rows s]) bs"

lemma table_arrays:
  assumes "table_batch types columns b"
  obtains arrays where "named_arrays b columns = Inr arrays" "map data_type_of arrays = types"
    "\<forall>a \<in> set arrays. wf_array a \<and> len a = b_num_rows b" "\<And>i. row_cells arrays i = identity_at b columns i"
    "length arrays = length columns"
proof -
  have t: "map (\<lambda>name. map_option data_type_of (column_by_name b name)) columns = map Some types" and ok: "batch_ok b"
    using assms by (simp_all add: table_batch_def)
  have there: "column_by_name b name \<noteq> None" if "name \<in> set columns" for name
  proof -
    have "map_option data_type_of (column_by_name b name) \<in> set (map Some types)"
      unfolding t [symmetric] set_map by (rule imageI) (rule that)
    then show ?thesis by auto
  qed
  let ?as = "map (\<lambda>name. the (column_by_name b name)) columns"
  have cols: "map (column_by_name b) columns = map Some ?as" using there by simp
  show ?thesis
  proof (rule that [of ?as])
    show "named_arrays b columns = Inr ?as" using cols by (simp only: named_arrays_Inr)
    have "map Some (map data_type_of ?as) = map Some types"
      unfolding t [symmetric] using there by (fastforce simp: map_eq_conv)
    then show "map data_type_of ?as = types" by (metis inj_Some inj_map_eq_map)
    show "\<forall>a \<in> set ?as. wf_array a \<and> len a = b_num_rows b"
      using there batch_column [OF ok] by auto
    show "row_cells ?as i = identity_at b columns i" for i
      using there by (fastforce simp: row_cells_def identity_at_def)
  qed simp
qed

lemma identity_fold:
  assumes R: "row_kernels_ok R types" and bs: "\<forall>b \<in> set bs. table_batch types columns b" and ne: "columns \<noteq> []"
  shows "\<exists>bytes_of. inj bytes_of \<and>
    (\<forall>b. table_batch types columns b \<longrightarrow> (\<exists>arrays. named_arrays b columns = Inr arrays \<and>
       rk_convert R types arrays = Inr (map (\<lambda>i. bytes_of (identity_at b columns i)) [0..<b_num_rows b]))) \<and>
    (\<forall>kept blocks. \<exists>kept' blocks'.
       try_fold (identity_batch R types columns bn) bs (kept, blocks) = Inr (kept', blocks') \<and>
       set kept' = set kept \<union> {bytes_of (identity_at s columns j) | s j. s \<in> set bs \<and> j < b_num_rows s} \<and>
       blocks' = fold (key_blocks bn None) bs blocks)"
proof -
  from R obtain bytes_of where inj: "inj bytes_of" and conv: "\<And>arrays n. map data_type_of arrays = types \<Longrightarrow>
      (\<forall>a \<in> set arrays. wf_array a \<and> len a = n) \<Longrightarrow> arrays \<noteq> [] \<Longrightarrow>
      rk_convert R types arrays = Inr (map (\<lambda>i. bytes_of (row_cells arrays i)) [0..<n])"
    by (auto simp: row_kernels_ok_def)
  have one: "\<exists>arrays. named_arrays b columns = Inr arrays \<and>
      rk_convert R types arrays = Inr (map (\<lambda>i. bytes_of (identity_at b columns i)) [0..<b_num_rows b])"
    if "table_batch types columns b" for b
  proof -
    from that obtain arrays where a: "named_arrays b columns = Inr arrays" "map data_type_of arrays = types"
      "\<forall>a \<in> set arrays. wf_array a \<and> len a = b_num_rows b" "\<And>i. row_cells arrays i = identity_at b columns i"
      "length arrays = length columns"
      by (rule table_arrays) blast
    then have "arrays \<noteq> []" using ne by auto
    with conv [OF a(2, 3)] a(1, 4) show ?thesis by simp
  qed
  have "\<exists>kept' blocks'. try_fold (identity_batch R types columns bn) cs (kept, blocks) = Inr (kept', blocks') \<and>
      set kept' = set kept \<union> {bytes_of (identity_at s columns j) | s j. s \<in> set cs \<and> j < b_num_rows s} \<and>
      blocks' = fold (key_blocks bn None) cs blocks" if "set cs \<subseteq> set bs" for cs kept blocks
    using that
  proof (induction cs arbitrary: kept blocks)
    case (Cons b cs)
    let ?rows = "map (\<lambda>i. bytes_of (identity_at b columns i)) [0..<b_num_rows b]"
    from Cons.prems bs one [of b] obtain arrays where "named_arrays b columns = Inr arrays" "rk_convert R types arrays = Inr ?rows"
      by auto
    then have step: "identity_batch R types columns bn b (kept, blocks) = Inr (fold push_new ?rows kept, key_blocks bn None b blocks)"
      by (simp add: identity_batch_def)
    from Cons.IH [of "fold push_new ?rows kept" "key_blocks bn None b blocks"] Cons.prems obtain v where
      v: "try_fold (identity_batch R types columns bn) cs (fold push_new ?rows kept, key_blocks bn None b blocks) =
          Inr (v, fold (key_blocks bn None) cs (key_blocks bn None b blocks))"
      "set v = set (fold push_new ?rows kept) \<union> {bytes_of (identity_at s columns j) | s j. s \<in> set cs \<and> j < b_num_rows s}"
      by auto
    then show ?case by (auto simp: step set_fold_push_new) blast
  qed simp
  with inj one show ?thesis by blast
qed

text \<open>Keys without nulls, of integers and texts, tell the cells of a table apart.\<close>

definition plain_type :: "data_type \<Rightarrow> bool" where
  "plain_type t = (is_integer t \<or> t = DText Utf8)"

lemma plain_cell:
  assumes t: "data_type_of a = data_type_of c" "plain_type (data_type_of c)" and wf: "wf_array a" "wf_array c" "i < len a" "j < len c"
    and c: "\<not> is_null c j"
  shows "key_value_at a i = key_value_at c j \<longleftrightarrow> cell_at a i = cell_at c j"
proof -
  have "(\<exists>ty vs n ws m. a = AInt ty vs n \<and> c = AInt ty ws m) \<or> (\<exists>vs n ws m. a = AText Utf8 vs n \<and> c = AText Utf8 ws m)"
    using t by (cases a; cases c) (auto simp: plain_type_def is_integer_def)
  then show ?thesis
  proof (elim disjE exE conjE)
    fix ty vs n ws m assume a: "a = AInt ty vs n" "c = AInt ty ws m"
    then have r: "in_range ty (vs ! i)" "in_range ty (ws ! j)" using wf by (simp_all add: list_all_length)
    have "stored_key (vs ! i) = stored_key (ws ! j) \<longleftrightarrow> vs ! i = ws ! j"
      using r in_range_signed_64 [of ty] in_range_unsigned_64 [of ty] stored_key_inject_signed [of "vs ! i" "ws ! j"]
        stored_key_inject_unsigned [of "vs ! i" "ws ! j"]
      by (cases "signed_of ty") blast+
    then show ?thesis using c by (auto simp: a key_value_at_def is_null_def)
  next
    fix vs n ws m assume "a = AText Utf8 vs n" "c = AText Utf8 ws m"
    then show ?thesis using c by (auto simp: key_value_at_def is_null_def)
  qed
qed

definition plain_kind :: "data_type \<Rightarrow> key_kind" where
  "plain_kind t = (if is_integer t then IntKey else TextKey)"

lemma plain_kind_of: "plain_type (data_type_of a) \<Longrightarrow> key_kind_of a = Some (plain_kind (data_type_of a))"
  by (cases a) (auto simp: plain_type_def plain_kind_def is_integer_def)

definition texts_fit :: "string list \<Rightarrow> batch \<Rightarrow> bool" where
  "texts_fit names b \<longleftrightarrow> (\<forall>i < b_num_rows b. \<forall>vs. key_of b names i = Some vs \<longrightarrow> list_all value_fits vs)"

lemma table_joinable:
  assumes b: "table_batch types columns b" and fits: "texts_fit columns b" and plain: "list_all plain_type types"
  shows "joinable (map plain_kind types) columns b"
proof -
  have t: "map (\<lambda>name. map_option data_type_of (column_by_name b name)) columns = map Some types"
    using b by (simp add: table_batch_def)
  have "Option.bind (column_by_name b name) key_kind_of = map_option plain_kind (map_option data_type_of (column_by_name b name))"
    if "name \<in> set columns" for name
  proof -
    have "map_option data_type_of (column_by_name b name) \<in> Some ` set types"
      unfolding set_map [symmetric] t [symmetric] unfolding set_map by (rule imageI) (rule that)
    then show ?thesis using plain plain_kind_of by (cases "column_by_name b name") (auto simp: list_all_iff)
  qed
  then have "map (\<lambda>name. Option.bind (column_by_name b name) key_kind_of) columns =
      map (map_option plain_kind) (map (\<lambda>name. map_option data_type_of (column_by_name b name)) columns)"
    by (simp add: comp_def)
  also have "\<dots> = map Some (map plain_kind types)" unfolding t by simp
  finally show ?thesis using b fits by (simp add: joinable_def keyed_def table_batch_def texts_fit_def)
qed

lemma plain_types:
  assumes s: "table_batch types columns s" and plain: "plain_keys [s] columns"
  shows "list_all plain_type types"
proof -
  have t: "map (\<lambda>name. map_option data_type_of (column_by_name s name)) columns = map Some types"
    using s by (simp add: table_batch_def)
  have "plain_type t" if "t \<in> set types" for t
  proof -
    from that have "Some t \<in> set (map (\<lambda>name. map_option data_type_of (column_by_name s name)) columns)" by (simp add: t)
    with plain show ?thesis by (auto simp: plain_keys_def plain_type_def list_all_iff split: option.splits)
  qed
  then show ?thesis by (simp add: list_all_iff)
qed

lemma null_count_0: "null_count a = 0 \<Longrightarrow> wf_array a \<Longrightarrow> j < len a \<Longrightarrow> \<not> is_null a j"
  by (cases a) (auto simp: null_count_def is_null_def valid_at_def nulls_fit_def filter_empty_conv split: option.splits)

lemma plain_identity:
  assumes s: "table_batch types columns s" and b: "table_batch types columns b" and plain: "plain_keys [s] columns"
    and j: "j < b_num_rows s" and i: "i < b_num_rows b"
  shows "(\<exists>vs. key_of s columns j = Some vs \<and> key_of b columns i = Some vs) \<longleftrightarrow> identity_at s columns j = identity_at b columns i"
proof -
  have col: "\<exists>c a. column_by_name s name = Some c \<and> column_by_name b name = Some a \<and> (\<exists>v. key_value_at c j = Some v) \<and>
      (key_value_at a i = key_value_at c j \<longleftrightarrow> cell_at a i = cell_at c j)" if n: "name \<in> set columns" for name
  proof -
    from plain n obtain c where c: "column_by_name s name = Some c" "null_count c = 0" "plain_type (data_type_of c)"
      by (auto simp: plain_keys_def plain_type_def list_all_iff split: option.splits)
    have "map (\<lambda>name. map_option data_type_of (column_by_name s name)) columns =
        map (\<lambda>name. map_option data_type_of (column_by_name b name)) columns"
      using s b by (simp add: table_batch_def)
    then have "map_option data_type_of (column_by_name s name) = map_option data_type_of (column_by_name b name)"
      unfolding map_eq_conv using n by (rule bspec)
    then have "map_option data_type_of (column_by_name b name) = Some (data_type_of c)" using c(1) by simp
    then obtain a where a: "column_by_name b name = Some a" "data_type_of a = data_type_of c" by auto
    have wf: "wf_array c" "len c = b_num_rows s" "wf_array a" "len a = b_num_rows b"
      using batch_column [OF _ c(1)] batch_column [OF _ a(1)] s b by (simp_all add: table_batch_def)
    have nn: "\<not> is_null c j" using null_count_0 [OF c(2) wf(1)] j wf(2) by simp
    have "\<exists>v. slot_value c j = Some v" using c(3) by (cases c) (auto simp: plain_type_def is_integer_def)
    then have "\<exists>v. key_value_at c j = Some v" using nn by (simp add: key_value_at_def)
    with c a plain_cell [OF a(2) c(3) wf(3, 1) _ _ nn] wf(2, 4) i j show ?thesis by auto
  qed
  have "(\<exists>vs. map f columns = map Some vs \<and> map g columns = map Some vs) \<longleftrightarrow> map f columns = map g columns"
    if "\<forall>name \<in> set columns. \<exists>v. f name = Some v" for f g :: "string \<Rightarrow> key_value option"
  proof
    assume "map f columns = map g columns"
    moreover from that have "map f columns = map Some (map (\<lambda>n. the (f n)) columns)" by fastforce
    ultimately show "\<exists>vs. map f columns = map Some vs \<and> map g columns = map Some vs" by metis
  qed (elim exE conjE, simp only:)
  note same = this [of "\<lambda>name. Option.bind (column_by_name s name) (\<lambda>a. key_value_at a j)" "\<lambda>name. Option.bind (column_by_name b name) (\<lambda>a. key_value_at a i)"]
  have "(\<exists>vs. key_of s columns j = Some vs \<and> key_of b columns i = Some vs) \<longleftrightarrow>
      (\<forall>name \<in> set columns. Option.bind (column_by_name s name) (\<lambda>a. key_value_at a j) = Option.bind (column_by_name b name) (\<lambda>a. key_value_at a i))"
    unfolding key_of_def those_Some by (subst same) (use col in \<open>fastforce simp: map_eq_conv\<close>)+
  also have "\<dots> \<longleftrightarrow> identity_at s columns j = identity_at b columns i"
    unfolding identity_at_def map_eq_conv by (rule ball_cong [OF refl]) (use col in fastforce)
  finally show ?thesis .
qed

section \<open>Properties\<close>

text \<open>
  C20: However a relation's keys are held - a bitmap or a hash of packed pairs, an index of paths by group, key
  bytes - the scan keeps exactly the candidate rows that a semi-join with the sources keeps.
\<close>

theorem key_filter_keeps:
  assumes "list_all (joinable kinds left) sources" and "joinable kinds right b" and "list_all scan_key kinds"
    and "length left = length right" and "small_paths sources left"
  shows "\<exists>f. key_filter_build sources left right bn target_bn = Inr f \<and>
    key_filter_mask R f b candidates =
      Inr (map (\<lambda>i. Some (asked candidates i \<and> has_partner sources left b right i)) [0..<b_num_rows b])"
proof -
  have "length right = length kinds" using map_eq_imp_length_eq [OF key_kinds_at [OF assms(2)]] by simp
  then show ?thesis
    using key_set_holds(1) [where bs = sources and kinds = kinds and left = left and right = right and b = b and R = R
        and bn = bn and candidates = candidates]
      key_set_holds(4) [where bs = sources and kinds = kinds and left = left and right = right and b = b and bn = bn] assms
    by (simp add: key_filter_build_def key_set_filter_def key_filter_mask_def selected_mask_def list_all_iff ensure_def)
qed

theorem key_filter_keeps_witness:
  "\<exists>f. key_filter_build [wide_calls] [''block_number'', ''transaction_index''] [''block_number'', ''transaction_index'']
      ''block_number'' ''block_number'' = Inr f \<and>
    key_filter_mask plain_row_kernels f narrow_calls (Some [True, True]) = Inr [Some True, Some False]"
proof -
  let ?g = "[''block_number'', ''transaction_index'']"
  note unfold = has_partner_def key_of_def column_by_name_def key_value_at_def is_null_def valid_at_def
    wide_calls_def narrow_calls_def stored_key_def upt_rec
  have j: "joinable [IntKey, IntKey] ?g wide_calls" "joinable [IntKey, IntKey] ?g narrow_calls"
    using group_joinable [OF calls_addressed(1)] group_joinable [OF calls_addressed(2)] by (simp_all add: numeral_2_eq_2)
  have "has_partner [wide_calls] ?g narrow_calls ?g 0" "\<not> has_partner [wide_calls] ?g narrow_calls ?g 1"
    "[0..<b_num_rows narrow_calls] = [0, 1]"
    by (simp_all add: unfold)
  then show ?thesis
    using key_filter_keeps [of "[IntKey, IntKey]" ?g "[wide_calls]" ?g narrow_calls "''block_number''" "''block_number''" plain_row_kernels "Some [True, True]"] j
    by (simp add: scan_key_def small_paths_def uses_pair_path_def asked_def)
qed

text \<open>
  C1: A row group may be skipped by its blocks: if a target row whose block lies in a range has a partner among
  the sources, a source's block lies in the range too. The keys lead with the blocks, which are not negative.
\<close>

definition blocks_from_zero :: "string \<Rightarrow> batch \<Rightarrow> bool" where
  "blocks_from_zero bn b \<longleftrightarrow>
     (\<exists>t vs n. column_by_name b bn = Some (AInt t vs n) \<and> list_all (\<lambda>v. 0 \<le> v) vs)"

lemma leading_block:
  assumes b: "joinable kinds (bn # names) b" and z: "blocks_from_zero bn b" and i: "i < b_num_rows b"
    and k: "key_of b (bn # names) i = Some vs"
  shows "\<exists>w ws. vs = VInt w # ws \<and> block_at b bn i = Some (unat w)"
proof -
  from z obtain t xs n where c: "column_by_name b bn = Some (AInt t xs n)" and nonneg: "list_all (\<lambda>v. 0 \<le> v) xs"
    by (auto simp: blocks_from_zero_def)
  have len: "list_all (in_range t) xs" "length xs = b_num_rows b"
    using batch_column [OF _ c] b by (simp_all add: joinable_def)
  have x: "0 \<le> xs ! i" "in_range t (xs ! i)" using nonneg len i by (simp_all add: list_all_length)
  have w: "xs ! i < 2 ^ bits_of t" "bits_of t \<le> 64"
    using x by (cases t; simp add: in_range_def)+
  then have "xs ! i < 2 ^ 64" by (meson less_le_trans one_le_numeral power_increasing)
  then have "unat (stored_key (xs ! i)) = nat (xs ! i)"
    using x(1) by (simp add: unat_eq_nat_uint uint_stored_key take_bit_int_eq_self)
  moreover have "block_at b bn i = Some (nat (xs ! i))"
    using x(1) w(1) by (simp add: block_at_def c unsigned_bits_def)
  moreover have "\<exists>ws. vs = VInt (stored_key (xs ! i)) # ws"
    using k by (auto simp: key_of_def c key_value_at_def those_Some Cons_eq_map_conv split: if_splits)
  ultimately show ?thesis by auto
qed

lemma has_block_within_iff:
  "sorted (kf_sorted_blocks f) \<Longrightarrow> has_block_within f lo hi \<longleftrightarrow> (\<exists>k \<in> set (kf_sorted_blocks f). lo \<le> k \<and> k \<le> hi)"
  using partition_point_sorted_get [where xs = "kf_sorted_blocks f" and lo = lo and hi = hi]
  by (auto simp: has_block_within_def not_le not_less split: option.splits)

theorem key_blocks_prune:
  assumes "list_all (joinable kinds (bn # left)) sources" and "joinable kinds (target_bn # right) b" and "list_all scan_key kinds"
    and "length left = length right" and "small_paths sources (bn # left)"
    and "list_all (blocks_from_zero bn) sources" and "blocks_from_zero target_bn b"
    and "i < b_num_rows b" and "block_at b target_bn i = Some n" and "lo \<le> n" and "n \<le> hi"
    and "key_filter_build sources (bn # left) (target_bn # right) bn target_bn = Inr f"
    and "has_partner sources (bn # left) b (target_bn # right) i"
  shows "has_block_within f lo hi"
proof -
  have l: "length (target_bn # right) = length kinds" using map_eq_imp_length_eq [OF key_kinds_at [OF assms(2)]] by simp
  have js: "\<forall>s \<in> set sources. joinable kinds (bn # left) s" using assms(1) by (simp add: list_all_iff)
  have l': "length (bn # left) = length kinds" using l assms(4) by simp
  note ks = key_set_holds(2, 3) [OF js assms(3, 5) assms(2) l' l, where bn = bn]
  from assms(12) have f: "kf_sorted_blocks f = ks_sorted_blocks (key_set_build sources (bn # left) bn)"
    by (auto simp: key_filter_build_def key_set_filter_def and_then_Inr_iff)
  from assms(13) obtain vs s j where vs: "key_of b (target_bn # right) i = Some vs" "s \<in> set sources" "j < b_num_rows s"
    "key_of s (bn # left) j = Some vs"
    by (auto simp: has_partner_iff)
  from leading_block [OF assms(2, 7, 8) vs(1)] assms(9) obtain w ws where w: "vs = VInt w # ws" "n = unat w" by auto
  have "blocks_from_zero bn s" using assms(6) vs(2) by (simp add: list_all_iff)
  from leading_block [OF js [rule_format, OF vs(2)] this vs(3, 4)] w have "block_at s bn j = Some n" by auto
  then have "n \<in> set (kf_sorted_blocks f)" using ks(1) vs by (auto simp: has_blocks_def f)
  then show ?thesis using has_block_within_iff [of f lo hi] ks(2) assms(10, 11) by (auto simp: f)
qed

text \<open>The section's example: the keys of the calls, held as pairs.\<close>

text \<open>
  C22: Selecting rows of a table again by their identity keeps exactly the rows whose key columns hold the same
  values as a row already picked, nulls matching nulls, whether the identities are held as plain keys or in
  Arrow's row format. It never fails on batches of the table.
\<close>

theorem row_identities_keep:
  assumes "bs \<noteq> []" and "columns \<noteq> []" and "list_all (table_batch types columns) bs" and "table_batch types columns b"
    and "list_all (texts_fit columns) (b # bs)" and "row_kernels_ok R types"
  shows "\<exists>f m. key_filter_for_rows R bs columns bn = Inr f \<and> checks_blocks_first f \<and> key_filter_mask R f b candidates = Inr m \<and>
    length m = b_num_rows b \<and>
    (\<forall>i < b_num_rows b. asked candidates i \<longrightarrow> m ! i = Some (has_identity bs columns b i))"
proof -
  obtain first rest where bs: "bs = first # rest" using assms(1) by (cases bs) auto
  have tb: "table_batch types columns s" if "s \<in> set bs" for s using assms(3) that by (simp add: list_all_iff)
  from tb [of first] obtain own where own: "named_arrays first columns = Inr own" "map data_type_of own = types"
    unfolding bs by (auto elim: table_arrays)
  show ?thesis
  proof (cases "plain_keys bs columns")
    case True
    have plain: "list_all plain_type types" using plain_types [OF tb [of first]] True by (simp add: bs plain_keys_def)
    have js: "list_all (joinable (map plain_kind types) columns) bs" "joinable (map plain_kind types) columns b"
      using table_joinable [OF _ _ plain] tb assms(4, 5) by (simp_all add: list_all_iff)
    have scan: "list_all scan_key (map plain_kind types)" by (auto simp: list_all_iff scan_key_def plain_kind_def)
    have "PathKey \<notin> set (map plain_kind types)" by (auto simp: plain_kind_def)
    then have "\<not> uses_pair_path bs columns"
      using uses_pair_path_kinds [of bs "map plain_kind types" columns] js(1) by (auto simp: list_all_iff)
    then have small: "small_paths bs columns" by (simp add: small_paths_def)
    have l: "length columns = length (map plain_kind types)" using map_eq_imp_length_eq [OF key_kinds_at [OF js(2)]] by simp
    have "has_partner bs columns b columns i \<longleftrightarrow> has_identity bs columns b i" if i: "i < b_num_rows b" for i
    proof -
      have "plain_keys [s] columns" if "s \<in> set bs" for s using True that by (simp add: plain_keys_def list_all_iff)
      then show ?thesis
        using plain_identity [OF tb assms(4) _ _ i] unfolding has_partner_iff has_identity_def list_ex_iff by fastforce
    qed
    then show ?thesis
      using key_set_holds(1) [OF _ scan small js(2) l l, of R bn candidates] key_set_holds(4) [OF _ scan small js(2) l l, of bn] js(1) True own(1)
      by (simp add: key_filter_for_rows_def bs key_filter_build_def key_set_filter_def key_filter_mask_def selected_mask_def list_all_iff ensure_def
          checks_blocks_first_def)
  next
    case False
    from identity_fold [OF assms(6) _ assms(2), of bs bn] tb obtain bytes_of where inj: "inj bytes_of"
      and conv: "\<And>b. table_batch types columns b \<Longrightarrow> \<exists>arrays. named_arrays b columns = Inr arrays \<and>
         rk_convert R types arrays = Inr (map (\<lambda>i. bytes_of (identity_at b columns i)) [0..<b_num_rows b])"
      and fold: "\<And>kept blocks. \<exists>kept' blocks'. try_fold (identity_batch R types columns bn) bs (kept, blocks) = Inr (kept', blocks') \<and>
         set kept' = set kept \<union> {bytes_of (identity_at s columns j) | s j. s \<in> set bs \<and> j < b_num_rows s} \<and>
         blocks' = fold (key_blocks bn None) bs blocks"
      by blast
    from fold [of "[]" "[]"] obtain kept blocks where k: "try_fold (identity_batch R types columns bn) bs ([], []) = Inr (kept, blocks)"
      "set kept = {bytes_of (identity_at s columns j) | s j. s \<in> set bs \<and> j < b_num_rows s}" by auto
    from conv [OF assms(4)] obtain arrays where a: "named_arrays b columns = Inr arrays"
      "rk_convert R types arrays = Inr (map (\<lambda>i. bytes_of (identity_at b columns i)) [0..<b_num_rows b])" by auto
    have "bytes_of (identity_at b columns i) \<in> set kept \<longleftrightarrow> has_identity bs columns b i" for i
      using inj by (auto simp: k(2) has_identity_def list_ex_iff Bex_def inj_eq) metis+
    then show ?thesis
      using False own k(1) assms(6) a
      by (simp add: key_filter_for_rows_def bs key_filter_mask_def composite_key_in_set_mask_def row_kernels_ok_def checks_blocks_first_def)
  qed
qed

theorem row_identities_keep_witness:
  "\<exists>f m. key_filter_for_rows plain_row_kernels [wide_calls] [''transaction_index''] ''block_number'' = Inr f \<and>
    key_filter_mask plain_row_kernels f wide_calls None = Inr m \<and> m ! 2 = Some True"
proof -
  have "table_batch [DInt UInt32] [''transaction_index''] wide_calls"
    using calls_addressed(1) by (simp add: table_batch_def addressed_def column_by_name_def wide_calls_def)
  moreover have "texts_fit [''transaction_index''] wide_calls"
    by (auto simp: texts_fit_def key_of_def column_by_name_def key_value_at_def wide_calls_def split: if_splits)
  moreover have "2 < b_num_rows wide_calls" by (simp add: wide_calls_def)
  moreover from this have "has_identity [wide_calls] [''transaction_index''] wide_calls 2" by (auto simp: has_identity_def list_ex_iff)
  ultimately show ?thesis
    using row_identities_keep [of "[wide_calls]" "[''transaction_index'']" "[DInt UInt32]" wide_calls plain_row_kernels "''block_number''" None]
    by (auto simp: asked_def)
qed

theorem key_blocks_prune_witness:
  "\<exists>f. key_filter_build [wide_calls] [''block_number'', ''transaction_index''] [''block_number'', ''transaction_index'']
      ''block_number'' ''block_number'' = Inr f \<and> has_block_within f 5 8"
proof -
  let ?g = "[''block_number'', ''transaction_index'']"
  have j: "joinable [IntKey, IntKey] ?g wide_calls" "joinable [IntKey, IntKey] ?g narrow_calls"
    using group_joinable [OF calls_addressed(1)] group_joinable [OF calls_addressed(2)] by (simp_all add: numeral_2_eq_2)
  obtain f where f: "key_filter_build [wide_calls] ?g ?g ''block_number'' ''block_number'' = Inr f"
    by (simp add: key_filter_build_def key_set_filter_def key_set_build_def Let_def split_def ensure_def)
  have "has_partner [wide_calls] ?g narrow_calls ?g 0" "block_at narrow_calls ''block_number'' 0 = Some 7"
    by (simp_all add: has_partner_def key_of_def column_by_name_def key_value_at_def is_null_def valid_at_def
        wide_calls_def narrow_calls_def stored_key_def upt_rec block_at_def unsigned_bits_def)
  moreover have "blocks_from_zero ''block_number'' wide_calls" "blocks_from_zero ''block_number'' narrow_calls"
    by (simp_all add: blocks_from_zero_def column_by_name_def wide_calls_def narrow_calls_def)
  ultimately have "has_block_within f 5 8"
    using key_blocks_prune [of "[IntKey, IntKey]" "''block_number''" "[''transaction_index'']" "[wide_calls]" "''block_number''"
        "[''transaction_index'']" narrow_calls 0 7 5 8 f] j f
    by (simp add: scan_key_def small_paths_def uses_pair_path_def) (simp add: narrow_calls_def)
  with f show ?thesis by blast
qed

end
