(* ===== verification/Row_Order.thy ===== *)
theory Row_Order
  imports Projection Rows Row_Predicate
begin

text \<open>
  The order of a table's rows within a block, \<^verbatim>\<open>src/output/row_order.rs\<close>: by its item order keys and its
  address, then by file order. The keys of a source are prepared in one of three forms - a word a row, columns
  at their stored types, or bytes - and a comparator stays for the rest. Every form is shown to order the rows
  as the values of their key columns do, so the order of a block is the sort by those values.
\<close>

section \<open>Comparisons\<close>

datatype ordering = Less | Equal | Greater

definition cmp :: "'a :: linorder \<Rightarrow> 'a \<Rightarrow> ordering" where
  "cmp x y = (if x < y then Less else if x = y then Equal else Greater)"

fun then_order :: "ordering \<Rightarrow> ordering \<Rightarrow> ordering" where
  "then_order Equal o' = o'"
| "then_order o' _ = o'"

text \<open>\<open>find(is_ne)\<close> with \<open>unwrap_or\<close>.\<close>

fun first_ne :: "ordering list \<Rightarrow> ordering \<Rightarrow> ordering" where
  "first_ne [] otherwise = otherwise"
| "first_ne (o' # os) otherwise = (if o' \<noteq> Equal then o' else first_ne os otherwise)"

text \<open>An optional text: \<open>None\<close> comes before any text.\<close>

fun cmp_text :: "string option \<Rightarrow> string option \<Rightarrow> ordering" where
  "cmp_text None None = Equal"
| "cmp_text None (Some _) = Less"
| "cmp_text (Some _) None = Greater"
| "cmp_text (Some s) (Some t) = cmp s t"

text \<open>\<open>sort_unstable_by\<close>: the list ordered by a comparator.\<close>

fun insert_by :: "('a \<Rightarrow> 'a \<Rightarrow> ordering) \<Rightarrow> 'a \<Rightarrow> 'a list \<Rightarrow> 'a list" where
  "insert_by c x [] = [x]"
| "insert_by c x (y # ys) = (if c x y = Greater then y # insert_by c x ys else x # y # ys)"

definition sort_by :: "('a \<Rightarrow> 'a \<Rightarrow> ordering) \<Rightarrow> 'a list \<Rightarrow> 'a list" where
  "sort_by c xs = foldr (insert_by c) xs []"


section \<open>Stored integers\<close>

type_synonym stored_ints = "int_type \<times> int list"

fun stored_resolve :: "array \<Rightarrow> stored_ints option" where
  "stored_resolve (AInt t vs n) = Some (t, vs)"
| "stored_resolve _ = None"

fun stored_width :: "stored_ints \<Rightarrow> nat" where
  "stored_width (t, vs) = bits_of t div 8"

text \<open>A value's bits at its width, the sign bit of a signed one flipped.\<close>

definition flipped :: "int_type \<Rightarrow> int \<Rightarrow> int" where
  "flipped t v = take_bit (bits_of t) v XOR (if signed_of t then 2 ^ (bits_of t - 1) else 0)"

definition big_endian :: "nat \<Rightarrow> int \<Rightarrow> u8 list" where
  "big_endian w u = map (\<lambda>i. word_of_int (drop_bit (8 * i) u)) (rev [0..<w])"

fun stored_pack :: "stored_ints \<Rightarrow> nat \<Rightarrow> nat \<Rightarrow> u8 list" where
  "stored_pack (t, vs) first next =
     concat (map (\<lambda>v. big_endian (bits_of t div 8) (flipped t v)) (slice_list vs first (next - first)))"

fun stored_word :: "stored_ints \<Rightarrow> nat \<Rightarrow> u64" where
  "stored_word (t, vs) i = word_of_int (flipped t (vs ! i))"

fun stored_value :: "stored_ints \<Rightarrow> nat \<Rightarrow> int" where
  "stored_value (t, vs) i = vs ! i"

fun stored_len :: "stored_ints \<Rightarrow> nat" where
  "stored_len (t, vs) = length vs"

fun compare_one :: "stored_ints \<Rightarrow> nat \<Rightarrow> stored_ints \<Rightarrow> nat \<Rightarrow> ordering" where
  "compare_one (t, vs) a (u, ws) b =
     (if t = u then cmp (vs ! a) (ws ! b) else cmp (stored_value (t, vs) a) (stored_value (u, ws) b))"

text \<open>Two paths, each from its first element up to the next row's.\<close>

fun compare_paths :: "stored_ints \<Rightarrow> nat \<times> nat \<Rightarrow> stored_ints \<Rightarrow> nat \<times> nat \<Rightarrow> ordering" where
  "compare_paths (t, vs) (a, a') (u, ws) (b, b') =
     (if t = u then cmp (slice_list vs a (a' - a)) (slice_list ws b (b' - b))
      else first_ne (map (\<lambda>(i, j). cmp (stored_value (t, vs) i) (stored_value (u, ws) j)) (zip [a..<a'] [b..<b']))
        (cmp (a' - a) (b' - b)))"

definition span :: "nat list \<Rightarrow> nat \<Rightarrow> nat \<times> nat" where
  "span offsets row = (offsets ! row, offsets ! (row + 1))"


section \<open>Sort keys\<close>

record packed_keys =
  pk_ends :: "nat list"
  pk_bytes :: "u8 list"

record typed_keys =
  tk_fixed :: "stored_ints list"
  tk_path :: "(nat list \<times> stored_ints) option"

datatype sort_keys = Words "u64 list list" | Typed "typed_keys list" | Packed "packed_keys list"

definition packed_key :: "packed_keys \<Rightarrow> nat \<Rightarrow> u8 list" where
  "packed_key k row =
     (let start = (if row = 0 then 0 else pk_ends k ! (row - 1)) in slice_list (pk_bytes k) start (pk_ends k ! row - start))"

definition compare_typed :: "typed_keys \<Rightarrow> nat \<Rightarrow> typed_keys \<Rightarrow> nat \<Rightarrow> ordering" where
  "compare_typed a ra b rb =
     first_ne (map (\<lambda>(x, y). compare_one x ra y rb) (zip (tk_fixed a) (tk_fixed b)))
       (case (tk_path a, tk_path b) of
          (Some (oa, va), Some (ob, vb)) \<Rightarrow> compare_paths va (span oa ra) vb (span ob rb)
        | _ \<Rightarrow> Equal)"

fun sort_keys_compare :: "sort_keys \<Rightarrow> nat \<times> nat \<Rightarrow> nat \<times> nat \<Rightarrow> ordering" where
  "sort_keys_compare (Words ks) (ba, ra) (bb, rb) = cmp (ks ! ba ! ra) (ks ! bb ! rb)"
| "sort_keys_compare (Typed ks) (ba, ra) (bb, rb) = compare_typed (ks ! ba) ra (ks ! bb) rb"
| "sort_keys_compare (Packed ks) (ba, ra) (bb, rb) = cmp (packed_key (ks ! ba) ra) (packed_key (ks ! bb) rb)"

definition typed_keys_of :: "array list \<Rightarrow> typed_keys option" where
  "typed_keys_of columns =
     (if columns = [] then None
      else
        let path = (case last columns of AList False os a n \<Rightarrow> Some (os, a) | _ \<Rightarrow> None) in
        Option.bind (those (map stored_resolve (if path \<noteq> None then butlast columns else columns))) (\<lambda>fixed.
        case path of
          None \<Rightarrow> Some \<lparr>tk_fixed = fixed, tk_path = None\<rparr>
        | Some (os, a) \<Rightarrow>
            Option.bind (stored_resolve a) (\<lambda>els. Some \<lparr>tk_fixed = fixed, tk_path = Some (os, els)\<rparr>)))"

definition push_word :: "nat \<Rightarrow> u64 \<Rightarrow> stored_ints \<Rightarrow> u64" where
  "push_word row word c =
     (let bits = stored_width c * 8 in (if bits < 64 then push_bit bits word else 0) OR stored_word c row)"

definition word_keys :: "typed_keys \<Rightarrow> u64 list option" where
  "word_keys k =
     (if tk_path k \<noteq> None \<or> sum_list (map (\<lambda>c. stored_width c * 8) (tk_fixed k)) > 64 then None
      else
        let rows = (case tk_fixed k of [] \<Rightarrow> 0 | c # _ \<Rightarrow> stored_len c) in
        Some (map (\<lambda>row. foldl (push_word row) 0 (tk_fixed k)) [0..<rows]))"

definition packed_row :: "typed_keys \<Rightarrow> nat \<Rightarrow> u8 list" where
  "packed_row k row =
     concat (map (\<lambda>c. stored_pack c row (row + 1)) (tk_fixed k)) @
     (case tk_path k of None \<Rightarrow> [] | Some (os, els) \<Rightarrow> stored_pack els (os ! row) (os ! (row + 1)))"

definition packed_length :: "typed_keys \<Rightarrow> nat \<Rightarrow> nat" where
  "packed_length k row =
     sum_list (map stored_width (tk_fixed k)) +
     (case tk_path k of None \<Rightarrow> 0 | Some (os, els) \<Rightarrow> (os ! (row + 1) - os ! row) * stored_width els)"

definition packed_keys_of :: "typed_keys \<Rightarrow> packed_keys" where
  "packed_keys_of k =
     (let rows = (case tk_fixed k of
            c # _ \<Rightarrow> stored_len c
          | [] \<Rightarrow> (case tk_path k of None \<Rightarrow> 0 | Some (os, els) \<Rightarrow> length os - 1));
          (ends, total) = foldl (\<lambda>(ends, total) row. let total' = total + packed_length k row in (ends @ [total'], total'))
            ([], 0) [0..<rows]
      in \<lparr>pk_ends = ends, pk_bytes = concat (map (packed_row k) [0..<rows])\<rparr>)"

definition packed_depth :: nat where
  "packed_depth = 8"

definition deep_paths :: "typed_keys \<Rightarrow> bool" where
  "deep_paths k =
     (case tk_path k of
        None \<Rightarrow> False
      | Some (os, els) \<Rightarrow> let rows = length os - 1 in os ! rows - os ! 0 \<ge> packed_depth * max rows 1)"

definition row_sort_keys :: "batch list \<Rightarrow> string list \<Rightarrow> sort_keys option" where
  "row_sort_keys bs sort_columns =
     (case bs of
        [] \<Rightarrow> None
      | first # _ \<Rightarrow>
          if sort_columns = [] then None
          else
            Option.bind (those (map (\<lambda>name. map_option data_type_of (column_by_name first name)) sort_columns)) (\<lambda>types.
            Option.bind (those (map (\<lambda>b. those (map (column_by_name b) sort_columns)) bs)) (\<lambda>columns.
            if \<not> list_all (\<lambda>cs. list_all (\<lambda>(c, t). data_type_of c = t) (zip cs types)) columns then None
            else
              Option.bind (those (map typed_keys_of columns)) (\<lambda>typed.
              case those (map word_keys typed) of
                Some words \<Rightarrow> Some (Words words)
              | None \<Rightarrow>
                  Some (if list_ex deep_paths typed then Packed (map packed_keys_of typed) else Typed typed)))))"


section \<open>Resolved columns\<close>

datatype sort_column = IntOrder int_column | TextOrder string_column | ListOrder "nat list" "stored_ints option"

definition sort_column_resolve :: "array \<Rightarrow> sort_column option" where
  "sort_column_resolve a =
     (case resolve_int a of
        Some c \<Rightarrow> Some (IntOrder c)
      | None \<Rightarrow>
          (case resolve_text a of
             Some c \<Rightarrow> Some (TextOrder c)
           | None \<Rightarrow>
               (case a of AList False os els n \<Rightarrow> Some (ListOrder os (stored_resolve els)) | _ \<Rightarrow> None)))"

text \<open>Columns of two kinds order as equal; the source asserts in debug builds that there are none.\<close>

fun cmp_rows :: "sort_column \<Rightarrow> nat \<Rightarrow> sort_column \<Rightarrow> nat \<Rightarrow> ordering" where
  "cmp_rows (IntOrder a) ra (IntOrder b) rb = cmp (int_value a ra) (int_value b rb)"
| "cmp_rows (TextOrder a) ra (TextOrder b) rb = cmp_text (text_value a ra) (text_value b rb)"
| "cmp_rows (ListOrder oa (Some va)) ra (ListOrder ob (Some vb)) rb = compare_paths va (span oa ra) vb (span ob rb)"
| "cmp_rows _ ra _ rb = Equal"

definition orders_rows :: "data_type \<Rightarrow> bool" where
  "orders_rows t = (sort_column_resolve (empty_array t) \<noteq> None)"

definition build_full_sort_columns :: "table_description \<Rightarrow> string list" where
  "build_full_sort_columns t = tl (row_key t)"

definition resolve_sort_columns :: "batch list \<Rightarrow> string list \<Rightarrow> sort_column option list list" where
  "resolve_sort_columns bs sort_columns =
     map (\<lambda>b. map (\<lambda>name. Option.bind (column_by_name b name) sort_column_resolve) sort_columns) bs"

definition compare_resolved :: "sort_column option list \<Rightarrow> nat \<Rightarrow> sort_column option list \<Rightarrow> nat \<Rightarrow> ordering" where
  "compare_resolved res_a ra res_b rb =
     first_ne (map (\<lambda>(a, b). case (a, b) of (Some ca, Some cb) \<Rightarrow> cmp_rows ca ra cb rb | _ \<Rightarrow> Equal) (zip res_a res_b)) Equal"

definition sort_rows_by_order_keys ::
    "sort_column option list list \<Rightarrow> sort_keys option \<Rightarrow> (nat \<times> nat) list \<Rightarrow> (nat \<times> nat) list" where
  "sort_rows_by_order_keys resolved ks rows =
     (if rows = [] then rows
      else (case ks of
          Some (Words words) \<Rightarrow> sort_key (\<lambda>(b, r). (words ! b ! r, b, r)) rows
        | Some k \<Rightarrow> sort_by (\<lambda>a b. then_order (sort_keys_compare k a b) (cmp a b)) rows
        | None \<Rightarrow>
            if (case resolved of [] \<Rightarrow> False | v # _ \<Rightarrow> v \<noteq> [])
            then sort_by (\<lambda>(ba, ra) (bb, rb). then_order (compare_resolved (resolved ! ba) ra (resolved ! bb) rb) (cmp (ba, ra) (bb, rb))) rows
            else sort_key (\<lambda>(b, r). (b, r)) rows))"

record row_order =
  ro_columns :: "string list"
  ro_resolved :: "sort_column option list list"
  ro_keys :: "sort_keys option"

definition row_order_new :: "batch list \<Rightarrow> table_description \<Rightarrow> row_order" where
  "row_order_new bs t =
     (let columns = build_full_sort_columns t in
      \<lparr>ro_columns = columns, ro_resolved = resolve_sort_columns bs columns, ro_keys = row_sort_keys bs columns\<rparr>)"

definition is_keyed :: "row_order \<Rightarrow> bool" where
  "is_keyed o' = (ro_columns o' \<noteq> [])"

definition row_order_sort :: "row_order \<Rightarrow> (nat \<times> nat) list \<Rightarrow> (nat \<times> nat) list" where
  "row_order_sort o' rows = sort_rows_by_order_keys (ro_resolved o') (ro_keys o') rows"

definition row_order_compare :: "row_order \<Rightarrow> nat \<times> nat \<Rightarrow> row_order \<Rightarrow> nat \<times> nat \<Rightarrow> ordering" where
  "row_order_compare o' = (\<lambda>(ba, ra) other (bb, rb). compare_resolved (ro_resolved o' ! ba) ra (ro_resolved other ! bb) rb)"

section \<open>Facts on comparisons\<close>

lemma cmp_cong: "(x < y \<longleftrightarrow> x' < y') \<Longrightarrow> (x = y \<longleftrightarrow> x' = y') \<Longrightarrow> cmp x y = cmp x' y'"
  by (simp add: cmp_def)

lemma cmp_refl [simp]: "cmp x x = Equal"
  by (simp add: cmp_def)

lemma cmp_Equal [simp]: "cmp x y = Equal \<longleftrightarrow> x = y"
  by (simp add: cmp_def)

lemma cmp_Greater: "cmp x y = Greater \<longleftrightarrow> \<not> x \<le> y"
  by (auto simp: cmp_def)

lemma cmp_Cons [simp]: "cmp (x # xs) (y # ys) = then_order (cmp x y) (cmp xs ys)"
  by (auto simp: cmp_def)

lemma cmp_Nil [simp]: "cmp [] (y # ys) = Less" "cmp (x # xs) [] = Greater"
  by (simp_all add: cmp_def)

lemma then_assoc: "then_order (then_order a b) c = then_order a (then_order b c)"
  by (cases a) simp_all

lemma then_Equal [simp]: "then_order a Equal = a"
  by (cases a) simp_all

lemma cmp_append: "length a = length b \<Longrightarrow> cmp (a @ c) (b @ d) = then_order (cmp a b) (cmp c d)"
  by (induction a b rule: list_induct2) (simp_all add: then_assoc)

lemma cmp_pair: "cmp (a, b) (c, d) = then_order (cmp a c) (cmp b d)"
  by (auto simp: cmp_def less_prod_def)

lemma first_ne_then: "first_ne (o' # os) d = then_order o' (first_ne os d)"
  by (cases o') simp_all

lemma first_ne_map: "length xs = length ys \<Longrightarrow> first_ne (map (\<lambda>(x, y). cmp x y) (zip xs ys)) d = then_order (cmp xs ys) d"
  by (induction xs ys rule: list_induct2) (simp_all del: first_ne.simps(2) add: first_ne_then then_assoc)

lemma first_ne_lists: "first_ne (map (\<lambda>(x, y). cmp x y) (zip xs ys)) (cmp (length xs) (length ys)) = cmp xs ys"
proof (induction xs arbitrary: ys)
  case Nil
  then show ?case by (cases ys) (simp_all add: cmp_def)
next
  case (Cons x xs)
  then show ?case
  proof (cases ys)
    case (Cons y ys')
    have "cmp (Suc (length xs)) (Suc (length ys')) = cmp (length xs) (length ys')" by (simp add: cmp_def)
    with Cons.IH [of ys'] Cons show ?thesis by (simp del: first_ne.simps(2) add: first_ne_then)
  qed (simp add: cmp_def)
qed

text \<open>Encodings of one length that keep the order, one after the other.\<close>

definition keeps_order :: "('a :: linorder \<Rightarrow> 'b :: linorder list) \<Rightarrow> nat \<Rightarrow> 'a set \<Rightarrow> bool" where
  "keeps_order f k A \<longleftrightarrow> k > 0 \<and> (\<forall>x \<in> A. length (f x) = k) \<and> (\<forall>x \<in> A. \<forall>y \<in> A. cmp (f x) (f y) = cmp x y)"

lemma cmp_concat:
  assumes f: "keeps_order f k A" and "set xs \<subseteq> A" and "set ys \<subseteq> A"
  shows "cmp (concat (map f xs)) (concat (map f ys)) = cmp xs ys"
  using assms(2,3)
proof (induction xs arbitrary: ys)
  case Nil
  show ?case
  proof (cases ys)
    case (Cons y ys')
    with Nil f have "length (f y) > 0" by (simp add: keeps_order_def)
    then show ?thesis using Cons by (cases "f y") simp_all
  qed simp
next
  case (Cons x xs)
  then have x: "length (f x) = k" "k > 0" using f by (simp_all add: keeps_order_def)
  show ?case
  proof (cases ys)
    case Nil
    with x show ?thesis by (cases "f x") simp_all
  next
    case (Cons y ys')
    then have "length (f x) = length (f y)" "cmp (f x) (f y) = cmp x y" using Cons.prems f by (simp_all add: keeps_order_def)
    then show ?thesis using Cons.IH [of ys'] Cons.prems Cons by (simp add: cmp_append)
  qed
qed

lemma sort_by_key:
  assumes "\<And>x y. x \<in> set xs \<Longrightarrow> y \<in> set xs \<Longrightarrow> c x y = cmp (k x) (k y)"
  shows "sort_by c xs = sort_key k xs"
proof -
  have ins: "insert_by c x ys = insort_key k x ys" if "\<And>y. y \<in> set ys \<Longrightarrow> c x y = cmp (k x) (k y)" for x ys
    using that by (induction ys) (auto simp: cmp_Greater)
  show ?thesis using assms
  proof (induction xs)
    case (Cons x xs)
    then have "sort_by c xs = sort_key k xs" by simp
    then have "sort_by c (x # xs) = insert_by c x (sort_key k xs)" by (simp add: sort_by_def)
    also have "\<dots> = insort_key k x (sort_key k xs)" by (rule ins) (simp add: Cons.prems)
    finally show ?case by simp
  qed (simp add: sort_by_def)
qed


section \<open>Facts on encodings\<close>

definition bias :: "int_type \<Rightarrow> int" where
  "bias t = (if signed_of t then 2 ^ (bits_of t - 1) else 0)"

lemma less_digits:
  fixes x y :: int
  assumes "l < d" and "0 \<le> m" and "0 \<le> d" and "x < y"
  shows "x * d + l < y * d + m"
proof -
  from assms have "(x + 1) * d \<le> y * d" by (intro mult_right_mono) simp_all
  then show ?thesis using assms(1,2) by (simp add: distrib_right)
qed

lemma cmp_digits:
  fixes x y :: int
  assumes "0 \<le> l" and "l < d" and "0 \<le> m" and "m < d"
  shows "cmp (x * d + l) (y * d + m) = then_order (cmp x y) (cmp l m)"
  using less_digits [of l d m x y] less_digits [of m d l y x] assms by (auto simp: cmp_def)

lemma flip_high_bit:
  assumes "- (2 ^ n) \<le> v" and "v < 2 ^ n"
  shows "take_bit (Suc n) v XOR 2 ^ n = (v + 2 ^ n :: int)"
proof -
  have x: "take_bit (Suc n) v XOR 2 ^ n = flip_bit n (take_bit (Suc n) v)" by (simp add: flip_bit_eq_xor)
  show ?thesis
  proof (cases "v < 0")
    case False
    then have t: "take_bit (Suc n) v = v" using assms by (simp add: take_bit_int_eq_self)
    have "\<not> bit v n" using False assms by (simp add: bit_iff_odd)
    with x t show ?thesis by (simp add: flip_bit_eq_if set_bit_eq)
  next
    case True
    have "take_bit (Suc n) v = (v + 2 ^ Suc n) mod 2 ^ Suc n" by (simp add: take_bit_eq_mod)
    also have "\<dots> = v + 2 ^ Suc n" using True assms by (intro mod_pos_pos_trivial) simp_all
    finally have t: "take_bit (Suc n) v = v + 2 ^ Suc n" .
    have "(v + 2 ^ Suc n) div 2 ^ n = 1" using True assms
      by (intro int_div_pos_eq [where r = "v + 2 ^ n"]) simp_all
    then have "bit (v + 2 ^ Suc n) n" by (simp only: bit_iff_odd) simp
    with x t show ?thesis by (simp add: flip_bit_eq_if unset_bit_eq)
  qed
qed

lemma flipped_eq: "in_range t v \<Longrightarrow> flipped t v = v + bias t"
proof -
  assume r: "in_range t v"
  obtain n where n: "bits_of t = Suc n" using bits_of_bounds [of t] by (cases "bits_of t") auto
  show "flipped t v = v + bias t"
  proof (cases "signed_of t")
    case True
    with r n show ?thesis using flip_high_bit [of n v] by (simp add: flipped_def bias_def in_range_def)
  next
    case False
    with r show ?thesis by (simp add: flipped_def bias_def in_range_def take_bit_int_eq_self)
  qed
qed

lemma flipped_bounds: "in_range t v \<Longrightarrow> 0 \<le> flipped t v \<and> flipped t v < 2 ^ bits_of t"
  unfolding flipped_eq by (cases t) (simp_all add: in_range_def bias_def)

lemma cmp_flipped: "in_range t v \<Longrightarrow> in_range t w \<Longrightarrow> cmp (flipped t v) (flipped t w) = cmp v w"
  by (simp add: flipped_eq cmp_def)

lemma length_big_endian [simp]: "length (big_endian w u) = w"
  by (simp add: big_endian_def)

lemma big_endian_Suc: "big_endian (Suc w) u = word_of_int (drop_bit (8 * w) u) # big_endian w (take_bit (8 * w) u)"
proof -
  have "(word_of_int (drop_bit (8 * i) u) :: u8) = word_of_int (drop_bit (8 * i) (take_bit (8 * w) u))" if "i < w" for i
    using that by (intro bit_word_eqI) (simp add: bit_simps)
  then show ?thesis by (simp add: big_endian_def)
qed

lemma cmp_big_endian:
  "0 \<le> u \<Longrightarrow> u < 2 ^ (8 * w) \<Longrightarrow> 0 \<le> v \<Longrightarrow> v < 2 ^ (8 * w) \<Longrightarrow> cmp (big_endian w u) (big_endian w v) = cmp u v"
proof (induction w arbitrary: u v)
  case 0
  then show ?case by (simp add: big_endian_def cmp_def)
next
  case (Suc w)
  let ?d = "2 ^ (8 * w) :: int"
  have hi: "0 \<le> drop_bit (8 * w) x \<and> drop_bit (8 * w) x < 256" if "0 \<le> x" "x < 2 ^ (8 * Suc w)" for x :: int
  proof -
    from that have "take_bit 8 (drop_bit (8 * w) x) = drop_bit (8 * w) x"
      by (simp add: take_bit_drop_bit take_bit_int_eq_self add.commute power_add)
    then show ?thesis using take_bit_int_less_exp [of 8 "drop_bit (8 * w) x"] that(1) by simp
  qed
  have word: "cmp (word_of_int (drop_bit (8 * w) u) :: u8) (word_of_int (drop_bit (8 * w) v)) = cmp (drop_bit (8 * w) u) (drop_bit (8 * w) v)"
    using hi [of u] hi [of v] Suc.prems
    by (intro cmp_cong) (simp_all add: word_less_def word_uint_eq_iff uint_word_of_int_eq take_bit_int_eq_self)
  have low: "cmp (big_endian w (take_bit (8 * w) u)) (big_endian w (take_bit (8 * w) v)) = cmp (take_bit (8 * w) u) (take_bit (8 * w) v)"
    by (rule Suc.IH) simp_all
  have parts: "x = drop_bit (8 * w) x * ?d + take_bit (8 * w) x" for x :: int
    by (simp only: drop_bit_eq_div take_bit_eq_mod div_mult_mod_eq)
  have "cmp u v = then_order (cmp (drop_bit (8 * w) u) (drop_bit (8 * w) v)) (cmp (take_bit (8 * w) u) (take_bit (8 * w) v))"
    using cmp_digits [of "take_bit (8 * w) u" ?d "take_bit (8 * w) v" "drop_bit (8 * w) u" "drop_bit (8 * w) v"]
    unfolding parts [of u, symmetric] parts [of v, symmetric] by simp
  then show ?case unfolding big_endian_Suc by (simp add: word low)
qed

section \<open>The values a row is ordered by\<close>

text \<open>
  A key column's value as a list of integers: an integer alone, a text by its bytes with a null text before
  any other, a path by its elements. A column that orders nothing has the one value.
\<close>

fun sort_value :: "array \<Rightarrow> nat \<Rightarrow> int list" where
  "sort_value (AInt t vs n) i = [vs ! i]"
| "sort_value (AText t vs n) i = (if valid_at n i then 0 # map (\<lambda>c. int (code c)) (vs ! i) else [])"
| "sort_value (AList False os (AInt t vs m) n) i = slice_list vs (os ! i) (os ! (i + 1) - os ! i)"
| "sort_value _ i = []"

definition row_values :: "batch list \<Rightarrow> string list \<Rightarrow> nat \<times> nat \<Rightarrow> int list list" where
  "row_values bs columns = (\<lambda>(b, r).
     map (\<lambda>name. case column_by_name (bs ! b) name of None \<Rightarrow> [] | Some a \<Rightarrow> sort_value a r) columns)"

datatype sort_kind = IntSort | TextSort | PathSort | OpaqueSort

fun sort_kind_of :: "array \<Rightarrow> sort_kind option" where
  "sort_kind_of (AInt _ _ _) = Some IntSort"
| "sort_kind_of (AText _ _ _) = Some TextSort"
| "sort_kind_of (AList False _ (AInt _ _ _) _) = Some PathSort"
| "sort_kind_of (AList False _ _ _) = Some OpaqueSort"
| "sort_kind_of _ = None"

text \<open>Batches of one table: a key column is of one kind in all of them, or orders nothing in any.\<close>

definition same_kinds :: "string list \<Rightarrow> batch \<Rightarrow> batch \<Rightarrow> bool" where
  "same_kinds columns b b' \<longleftrightarrow>
     (\<forall>name \<in> set columns. Option.bind (column_by_name b name) sort_kind_of = Option.bind (column_by_name b' name) sort_kind_of)"

lemma slice_list_map:
  "a \<le> a' \<Longrightarrow> a' \<le> length vs \<Longrightarrow> slice_list vs a (a' - a) = map ((!) vs) [a..<a']"
  by (rule nth_equalityI) (simp_all add: slice_list_def)

lemma compare_paths_value:
  assumes "a \<le> a'" "a' \<le> length vs" "b \<le> b'" "b' \<le> length ws"
  shows "compare_paths (t, vs) (a, a') (u, ws) (b, b') = cmp (slice_list vs a (a' - a)) (slice_list ws b (b' - b))"
  using first_ne_lists [of "map ((!) vs) [a..<a']" "map ((!) ws) [b..<b']"] assms
  by (simp add: slice_list_map zip_map1 zip_map2 comp_def case_prod_beta')

lemma cmp_map_mono: "(\<And>x y. cmp (f x) (f y) = cmp x y) \<Longrightarrow> cmp (map f xs) (map f ys) = cmp xs ys"
proof (induction xs arbitrary: ys)
  case Nil
  then show ?case by (cases ys) simp_all
next
  case (Cons x xs)
  then show ?case by (cases ys) simp_all
qed

lemma cmp_string: "cmp (map (\<lambda>c. int (code c)) s) (map (\<lambda>c. int (code c)) t) = cmp s t"
  by (rule cmp_map_mono) (rule cmp_cong, simp_all add: code_def less_char_def)

lemma list_offsets:
  assumes "wf_array (AList False os els n)" and "i < len (AList False os els n)"
  shows "os ! i \<le> os ! (i + 1) \<and> os ! (i + 1) \<le> len els"
proof -
  have o': "sorted os" "os \<noteq> []" "last os \<le> len els" "i + 1 < length os" using assms by auto
  moreover from o'(4) have "i + 1 \<le> length os - 1" by linarith
  ultimately show ?thesis
    using sorted_nth_mono [of os i "i + 1"] sorted_nth_mono [of os "i + 1" "length os - 1"] by (simp add: last_conv_nth)
qed

lemma cmp_rows_value:
  assumes a: "sort_column_resolve a = Some ca" and b: "sort_column_resolve b = Some cb" and k: "sort_kind_of a = sort_kind_of b"
    and wf: "wf_array a" "wf_array b" "i < len a" "j < len b"
  shows "cmp_rows ca i cb j = cmp (sort_value a i) (sort_value b j)"
proof -
  consider t vs n u ws m where "a = AInt t vs n" "b = AInt u ws m"
    | t vs n u ws m where "a = AText t vs n" "b = AText u ws m"
    | os t vs m n os' u ws m' n' where "a = AList False os (AInt t vs m) n" "b = AList False os' (AInt u ws m') n'"
    | os els n os' els' n' where "a = AList False os els n" "b = AList False os' els' n'" "stored_resolve els = None" "stored_resolve els' = None"
    using a b k
    by (cases a rule: sort_kind_of.cases; cases b rule: sort_kind_of.cases)
      (auto simp: sort_column_resolve_def split: bool.splits)
  then show ?thesis
  proof cases
    case 1
    then show ?thesis using a b by (auto simp: sort_column_resolve_def)
  next
    case 2
    then show ?thesis using a b by (auto simp: sort_column_resolve_def cmp_string)
  next
    case 3
    then show ?thesis
      using a b wf list_offsets [of os "AInt t vs m" n i] list_offsets [of os' "AInt u ws m'" n' j]
      by (auto simp: sort_column_resolve_def span_def simp del: compare_paths.simps intro!: compare_paths_value)
  next
    case 4
    moreover have "sort_value (AList False os els n) i = []" if "stored_resolve els = None" for os els n i
      using that by (cases els) simp_all
    ultimately show ?thesis using a b by (auto simp: sort_column_resolve_def)
  qed
qed

section \<open>The comparator orders by value\<close>

lemma first_ne_cong: "list_all2 (=) os os' \<Longrightarrow> first_ne os d = first_ne os' d"
  by (simp add: list.rel_eq)

lemma compare_resolved_value:
  assumes b: "batch_ok b" "batch_ok b'" and k: "same_kinds columns b b'" and i: "i < b_num_rows b" "j < b_num_rows b'"
  shows "compare_resolved (map (\<lambda>name. Option.bind (column_by_name b name) sort_column_resolve) columns) i
      (map (\<lambda>name. Option.bind (column_by_name b' name) sort_column_resolve) columns) j =
    cmp (map (\<lambda>name. case column_by_name b name of None \<Rightarrow> [] | Some a \<Rightarrow> sort_value a i) columns)
      (map (\<lambda>name. case column_by_name b' name of None \<Rightarrow> [] | Some a \<Rightarrow> sort_value a j) columns)"
proof -
  have kind: "sort_kind_of a = None \<longleftrightarrow> sort_column_resolve a = None" for a
    by (cases a rule: sort_kind_of.cases) (auto simp: sort_column_resolve_def)
  have opaque: "sort_kind_of a = None \<Longrightarrow> sort_value a i = []" for a i
    by (cases a rule: sort_kind_of.cases) auto
  have one: "(case (Option.bind (column_by_name b name) sort_column_resolve, Option.bind (column_by_name b' name) sort_column_resolve) of
        (Some ca, Some cb) \<Rightarrow> cmp_rows ca i cb j | _ \<Rightarrow> Equal) =
      cmp (case column_by_name b name of None \<Rightarrow> [] | Some a \<Rightarrow> sort_value a i)
        (case column_by_name b' name of None \<Rightarrow> [] | Some a \<Rightarrow> sort_value a j)" if n: "name \<in> set columns" for name
  proof (cases "Option.bind (column_by_name b name) sort_kind_of")
    case None
    then have "Option.bind (column_by_name b' name) sort_kind_of = None" using k n by (simp add: same_kinds_def)
    with None show ?thesis
      by (cases "column_by_name b name"; cases "column_by_name b' name") (auto simp: kind opaque)
  next
    case (Some sk)
    with k n have "Option.bind (column_by_name b' name) sort_kind_of = Some sk" by (simp add: same_kinds_def)
    with Some obtain a a' where a: "column_by_name b name = Some a" "column_by_name b' name = Some a'"
      "sort_kind_of a = Some sk" "sort_kind_of a' = Some sk"
      by (auto simp: bind_eq_Some_conv)
    then obtain ca cb where c: "sort_column_resolve a = Some ca" "sort_column_resolve a' = Some cb"
      using kind [of a] kind [of a'] by auto
    have "wf_array a" "len a = b_num_rows b" "wf_array a'" "len a' = b_num_rows b'"
      using batch_column [OF b(1) a(1)] batch_column [OF b(2) a(2)] by simp_all
    then show ?thesis using cmp_rows_value [OF c] a c i by simp
  qed
  show ?thesis
    unfolding compare_resolved_def using one
    by (induction columns) (simp_all del: first_ne.simps(2) add: first_ne_then)
qed

section \<open>The prepared keys order by value\<close>

definition typed_values :: "typed_keys \<Rightarrow> nat \<Rightarrow> int list list" where
  "typed_values k r =
     map (\<lambda>c. [stored_value c r]) (tk_fixed k) @
     (case tk_path k of None \<Rightarrow> [] | Some (os, els) \<Rightarrow> [slice_list (snd els) (os ! r) (os ! (r + 1) - os ! r)])"

definition key_shape :: "typed_keys \<Rightarrow> int_type list \<times> int_type option" where
  "key_shape k = (map fst (tk_fixed k), map_option (fst \<circ> snd) (tk_path k))"

text \<open>Keys of a batch of \<open>n\<close> rows.\<close>

definition typed_ok :: "typed_keys \<Rightarrow> nat \<Rightarrow> bool" where
  "typed_ok k n \<longleftrightarrow> (tk_fixed k = [] \<longrightarrow> tk_path k \<noteq> None) \<and>
     list_all (\<lambda>(t, vs). list_all (in_range t) vs \<and> length vs = n) (tk_fixed k) \<and>
     (case tk_path k of None \<Rightarrow> True | Some (os, t, vs) \<Rightarrow>
        list_all (in_range t) vs \<and> length os = n + 1 \<and> (\<forall>i < n. os ! i \<le> os ! (i + 1) \<and> os ! (i + 1) \<le> length vs))"

lemma stored_resolve_Some: "stored_resolve a = Some c \<longleftrightarrow> (\<exists>t vs n. a = AInt t vs n \<and> c = (t, vs))"
  by (cases a) auto

lemma typed_keys_of_cases:
  assumes "typed_keys_of cs = Some k"
  obtains (ints) fs where "cs \<noteq> []" "map stored_resolve cs = map Some fs" "k = \<lparr>tk_fixed = fs, tk_path = None\<rparr>"
    | (path) xs os t vs m n fs where "cs = xs @ [AList False os (AInt t vs m) n]" "map stored_resolve xs = map Some fs"
        "k = \<lparr>tk_fixed = fs, tk_path = Some (os, t, vs)\<rparr>"
proof -
  have ne: "cs \<noteq> []" using assms by (auto simp: typed_keys_of_def)
  show ?thesis
  proof (cases "\<exists>os a n. last cs = AList False os a n")
    case True
    then obtain os a n where l: "last cs = AList False os a n" by auto
    with assms ne obtain fs c where "those (map stored_resolve (butlast cs)) = Some fs" "stored_resolve a = Some c"
      "k = \<lparr>tk_fixed = fs, tk_path = Some (os, c)\<rparr>"
      by (auto simp: typed_keys_of_def bind_eq_Some_conv)
    with ne l path [of "butlast cs" os] show ?thesis
      by (auto simp: those_Some stored_resolve_Some) (metis append_butlast_last_id)
  next
    case False
    then have "(case last cs of AList False os a n \<Rightarrow> Some (os, a) | _ \<Rightarrow> None) = None"
      by (auto split: array.split bool.split)
    with assms ne obtain fs where "those (map stored_resolve cs) = Some fs" "k = \<lparr>tk_fixed = fs, tk_path = None\<rparr>"
      by (auto simp: typed_keys_of_def bind_eq_Some_conv)
    with ne ints show ?thesis by (auto simp: those_Some)
  qed
qed

fun int_type_of :: "data_type \<Rightarrow> int_type" where
  "int_type_of (DInt t) = t"
| "int_type_of _ = UInt8"

definition shape_of :: "data_type list \<Rightarrow> int_type list \<times> int_type option" where
  "shape_of types =
     (case last types of
        DList _ t \<Rightarrow> (map int_type_of (butlast types), Some (int_type_of t))
      | _ \<Rightarrow> (map int_type_of types, None))"

lemma fixed_columns:
  assumes "map stored_resolve xs = map Some fs"
  shows "map data_type_of xs = map (\<lambda>c. DInt (fst c)) fs"
    and "\<forall>a \<in> set xs. wf_array a \<and> len a = n \<Longrightarrow> list_all (\<lambda>(t, vs). list_all (in_range t) vs \<and> length vs = n) fs"
    and "map (\<lambda>a. sort_value a r) xs = map (\<lambda>c. [stored_value c r]) fs"
  using assms
proof (induction xs arbitrary: fs)
  case (Cons x xs)
  {
    case 1
    then show ?case using Cons.IH(1) [of "tl fs"] by (auto simp: Cons_eq_map_conv stored_resolve_Some)
  next
    case 2
    then show ?case using Cons.IH(2) [of "tl fs"] by (auto simp: Cons_eq_map_conv stored_resolve_Some)
  next
    case 3
    then show ?case using Cons.IH(3) [of "tl fs"] by (auto simp: Cons_eq_map_conv stored_resolve_Some)
  }
qed simp_all

lemma typed_keys_of_shape:
  assumes "typed_keys_of cs = Some k"
  shows "key_shape k = shape_of (map data_type_of cs)"
  using assms
proof (cases rule: typed_keys_of_cases)
  case (ints fs)
  then have "fs \<noteq> []" by auto
  then show ?thesis
    using fixed_columns(1) [OF ints(2)] by (simp add: ints(3) key_shape_def shape_of_def last_map comp_def)
next
  case (path xs os t vs m n fs)
  then show ?thesis
    using fixed_columns(1) [OF path(2)] by (simp add: key_shape_def shape_of_def comp_def)
qed

lemma typed_keys_of_ok:
  assumes k: "typed_keys_of cs = Some k" and wf: "\<forall>a \<in> set cs. wf_array a \<and> len a = n"
  shows "typed_ok k n" and "map (\<lambda>a. sort_value a r) cs = typed_values k r"
proof -
  have "typed_ok k n \<and> map (\<lambda>a. sort_value a r) cs = typed_values k r"
    using k
  proof (cases rule: typed_keys_of_cases)
    case (ints fs)
    then have "fs \<noteq> []" by auto
    then show ?thesis using fixed_columns(2) [OF ints(2) wf] fixed_columns(3) [OF ints(2), of r]
      by (simp add: ints(3) typed_ok_def typed_values_def)
  next
    case (path xs os t vs m k' fs)
    let ?a = "AList False os (AInt t vs m) k'"
    have a: "wf_array ?a" "len ?a = n" and xs: "\<forall>a \<in> set xs. wf_array a \<and> len a = n" using wf path(1) by auto
    have "length os = n + 1" using a by (cases os) auto
    moreover have "os ! i \<le> os ! (i + 1) \<and> os ! (i + 1) \<le> length vs" if "i < n" for i
      using list_offsets [OF a(1)] a(2) that by simp
    ultimately show ?thesis
      using fixed_columns(2) [OF path(2) xs] fixed_columns(3) [OF path(2), of r] a(1)
      by (simp add: path(1,3) typed_ok_def typed_values_def)
  qed
  then show "typed_ok k n" "map (\<lambda>a. sort_value a r) cs = typed_values k r" by simp_all
qed

text \<open>Columns at their stored types.\<close>

lemma fixed_compare:
  assumes "map fst fs = map fst gs"
  shows "first_ne (map (\<lambda>(x, y). compare_one x i y j) (zip fs gs)) d =
    then_order (cmp (map (\<lambda>c. [stored_value c i]) fs) (map (\<lambda>c. [stored_value c j]) gs)) d"
  using assms
proof (induction fs arbitrary: gs)
  case (Cons f fs)
  then obtain t vs ws gs' where "f = (t, vs)" "gs = (t, ws) # gs'" "map fst fs = map fst gs'"
    by (cases f) (auto simp: Cons_eq_map_conv)
  with Cons.IH [of gs'] show ?case by (simp del: first_ne.simps(2) add: first_ne_then then_assoc)
qed simp

lemma typed_ok_path:
  assumes "typed_ok k n" and "tk_path k = Some (os, t, vs)" and "i < n"
  shows "os ! i \<le> os ! (i + 1)" and "os ! (i + 1) \<le> length vs" and "list_all (in_range t) vs"
  using assms by (simp_all add: typed_ok_def)

lemma compare_typed_value:
  assumes a: "typed_ok a n" and b: "typed_ok b m" and s: "key_shape a = key_shape b" and i: "i < n" and j: "j < m"
  shows "compare_typed a i b j = cmp (typed_values a i) (typed_values b j)"
proof -
  have f: "map fst (tk_fixed a) = map fst (tk_fixed b)" using s by (simp add: key_shape_def)
  then have l: "length (map (\<lambda>c. [stored_value c i]) (tk_fixed a)) = length (map (\<lambda>c. [stored_value c j]) (tk_fixed b))"
    using map_eq_imp_length_eq by fastforce
  show ?thesis
  proof (cases "tk_path a")
    case None
    with s have "tk_path b = None" by (simp add: key_shape_def)
    with None show ?thesis using fixed_compare [OF f, of i j Equal] by (simp add: compare_typed_def typed_values_def)
  next
    case (Some p)
    then obtain os t vs where p: "tk_path a = Some (os, t, vs)" by (cases p) auto
    have "map_option (fst \<circ> snd) (tk_path b) = Some t" using s p by (simp add: key_shape_def)
    then obtain os' ws where q: "tk_path b = Some (os', t, ws)" by auto
    have "compare_paths (t, vs) (span os i) (t, ws) (span os' j) =
        cmp (slice_list vs (os ! i) (os ! (i + 1) - os ! i)) (slice_list ws (os' ! j) (os' ! (j + 1) - os' ! j))"
      by (simp add: span_def)
    then show ?thesis
      using fixed_compare [OF f, of i j] l by (simp add: compare_typed_def typed_values_def p q cmp_append)
  qed
qed

text \<open>A word a row.\<close>

lemma uint_stored_word:
  assumes "in_range t (vs ! i)"
  shows "uint (stored_word (t, vs) i) = flipped t (vs ! i)"
proof -
  have "(2 :: int) ^ bits_of t \<le> 2 ^ 64" using bits_of_bounds [of t] by (intro power_increasing) auto
  with flipped_bounds [OF assms] show ?thesis
    by (simp add: uint_word_of_int_eq take_bit_int_eq_self)
qed

lemma stored_width_bits: "stored_width (t, vs) * 8 = bits_of t"
  by (cases t) simp_all

lemma push_word_value:
  assumes r: "in_range t (vs ! i)" and w: "uint word < 2 ^ bits" and s: "bits + bits_of t \<le> 64"
  shows "uint (push_word i word (t, vs)) = uint word * 2 ^ bits_of t + flipped t (vs ! i)"
    and "uint (push_word i word (t, vs)) < 2 ^ (bits + bits_of t)"
proof -
  let ?b = "bits_of t"
  have fl: "0 \<le> flipped t (vs ! i)" "flipped t (vs ! i) < 2 ^ ?b" using flipped_bounds [OF r] by simp_all
  have "uint word * 2 ^ ?b + flipped t (vs ! i) < (uint word + 1) * 2 ^ ?b" using fl by (simp add: distrib_right)
  also have "\<dots> \<le> 2 ^ bits * 2 ^ ?b" using w by (intro mult_right_mono) simp_all
  finally have small: "uint word * 2 ^ ?b + flipped t (vs ! i) < 2 ^ (bits + ?b)" by (simp add: power_add)
  have "uint (push_word i word (t, vs)) = uint word * 2 ^ ?b + flipped t (vs ! i)"
  proof (cases "?b < 64")
    case True
    have "(2 :: int) ^ (bits + ?b) \<le> 2 ^ 64" using s by (intro power_increasing) auto
    moreover have "uint word * 2 ^ ?b < 2 ^ (bits + ?b)" using small fl by linarith
    ultimately have sh: "uint (push_bit ?b word) = uint word * 2 ^ ?b"
      by (simp only: unsigned_push_bit_eq) (simp add: push_bit_eq_mult take_bit_int_eq_self)
    have "push_bit ?b word AND stored_word (t, vs) i = 0"
    proof (rule bit_word_eqI)
      fix n assume "n < LENGTH(64)"
      have "\<not> bit sw n" if "?b \<le> n" "uint sw = flipped t (vs ! i)" for sw :: u64
      proof -
        have "bit (take_bit ?b (uint sw)) n = bit (uint sw) n" using that(2) fl by (simp add: take_bit_int_eq_self)
        then show ?thesis using that(1) \<open>n < LENGTH(64)\<close> by (simp add: bit_take_bit_iff bit_uint_iff)
      qed
      from this [OF _ uint_stored_word [OF r]]
      show "bit (push_bit ?b word AND stored_word (t, vs) i) n = bit 0 n"
        by (auto simp: bit_simps simp del: stored_word.simps)
    qed
    then have "uint (push_bit ?b word OR stored_word (t, vs) i) = uint (push_bit ?b word + stored_word (t, vs) i)"
      by (simp only: disjunctive_add_eq_or)
    also have "\<dots> = uint word * 2 ^ ?b + flipped t (vs ! i)"
      using sh uint_stored_word [OF r] small s fl \<open>(2 :: int) ^ (bits + ?b) \<le> 2 ^ 64\<close>
      by (subst uint_add_lem [THEN iffD1]) simp_all
    finally show ?thesis using True by (simp only: push_word_def stored_width_bits Let_def if_True)
  next
    case False
    with s have "bits = 0" using bits_of_bounds [of t] by simp
    then have "uint word < 1" using w by simp
    then have "uint word = 0" using uint_ge_0 [of word] by linarith
    then have "word = 0" by (simp add: word_uint_eq_iff)
    with False uint_stored_word [OF r] show ?thesis
      by (simp only: push_word_def stored_width_bits Let_def if_False or.left_neutral) simp
  qed
  with small show "uint (push_word i word (t, vs)) = uint word * 2 ^ ?b + flipped t (vs ! i)"
    "uint (push_word i word (t, vs)) < 2 ^ (bits + ?b)" by simp_all
qed

lemma words_compare:
  assumes "map fst fs = map fst gs" and "list_all (\<lambda>(t, vs). list_all (in_range t) vs \<and> length vs = n) fs"
    and "list_all (\<lambda>(t, vs). list_all (in_range t) vs \<and> length vs = m) gs" and "i < n" and "j < m"
    and "sum_list (map (\<lambda>c. bits_of (fst c)) fs) \<le> 64"
  shows "uint (foldl (push_word i) 0 fs) < 2 ^ sum_list (map (\<lambda>c. bits_of (fst c)) fs) \<and>
    uint (foldl (push_word j) 0 gs) < 2 ^ sum_list (map (\<lambda>c. bits_of (fst c)) fs) \<and>
    cmp (foldl (push_word i) 0 fs) (foldl (push_word j) 0 gs) =
      cmp (map (\<lambda>c. [stored_value c i]) fs) (map (\<lambda>c. [stored_value c j]) gs)"
  using assms
proof (induction fs arbitrary: gs rule: rev_induct)
  case (snoc f fs)
  then obtain t vs ws gs' where g: "f = (t, vs)" "gs = gs' @ [(t, ws)]" "map fst fs = map fst gs'"
    by (cases f; cases gs rule: rev_cases) auto
  let ?bits = "sum_list (map (\<lambda>c. bits_of (fst c)) fs)"
  let ?a = "foldl (push_word i) 0 fs" and ?b = "foldl (push_word j) 0 gs'"
  have ih: "uint ?a < 2 ^ ?bits" "uint ?b < 2 ^ ?bits"
    "cmp ?a ?b = cmp (map (\<lambda>c. [stored_value c i]) fs) (map (\<lambda>c. [stored_value c j]) gs')"
    using snoc.IH [OF g(3)] snoc.prems g by simp_all
  have r: "in_range t (vs ! i)" "in_range t (ws ! j)" and s: "?bits + bits_of t \<le> 64"
    using snoc.prems(2-6) unfolding g by (auto simp: list_all_length)
  note a = push_word_value [OF r(1) ih(1) s] and b = push_word_value [where vs = ws and i = j, OF r(2) ih(2) s]
  have "cmp (push_word i ?a (t, vs)) (push_word j ?b (t, ws)) =
      cmp (uint ?a * 2 ^ bits_of t + flipped t (vs ! i)) (uint ?b * 2 ^ bits_of t + flipped t (ws ! j))"
    by (rule cmp_cong) (simp_all only: word_less_def word_uint_eq_iff a(1) b(1))
  also have "\<dots> = then_order (cmp (uint ?a) (uint ?b)) (cmp (flipped t (vs ! i)) (flipped t (ws ! j)))"
    using flipped_bounds [OF r(1)] flipped_bounds [OF r(2)] by (intro cmp_digits) simp_all
  also have "cmp (uint ?a) (uint ?b) = cmp ?a ?b" by (rule cmp_cong) (simp_all only: word_less_def word_uint_eq_iff)
  also have "cmp (flipped t (vs ! i)) (flipped t (ws ! j)) = cmp (vs ! i) (ws ! j)" by (rule cmp_flipped [OF r])
  finally have c: "cmp (push_word i ?a (t, vs)) (push_word j ?b (t, ws)) = then_order (cmp ?a ?b) (cmp (vs ! i) (ws ! j))" .
  have l: "length (map (\<lambda>c. [stored_value c i]) fs) = length (map (\<lambda>c. [stored_value c j]) gs')"
    using map_eq_imp_length_eq [OF g(3)] by simp
  show ?case using c ih(3) a(2) b(2) l by (simp add: g cmp_append del: stored_width.simps)
qed simp

lemma word_keys_value:
  assumes a: "typed_ok a n" and b: "typed_ok b m" and s: "key_shape a = key_shape b" and i: "i < n" and j: "j < m"
    and w: "word_keys a = Some wa" "word_keys b = Some wb"
  shows "cmp (wa ! i) (wb ! j) = cmp (typed_values a i) (typed_values b j)"
proof -
  have bits: "sum_list (map (\<lambda>c. stored_width c * 8) cs) = sum_list (map (\<lambda>c. bits_of (fst c)) cs)" for cs
    by (induction cs) (auto simp only: list.map sum_list.Cons stored_width_bits split_paired_all fst_conv)
  have "tk_path k = None \<and> sum_list (map (\<lambda>c. bits_of (fst c)) (tk_fixed k)) \<le> 64" if "word_keys k = Some wk" for k wk
    using that unfolding word_keys_def bits by (cases "tk_path k") (simp_all split: if_splits)
  with w have p: "tk_path a = None" "tk_path b = None" "sum_list (map (\<lambda>c. bits_of (fst c)) (tk_fixed a)) \<le> 64" by blast+
  have rows: "(case tk_fixed k of [] \<Rightarrow> 0 | c # _ \<Rightarrow> stored_len c) = n" if "typed_ok k n" "tk_path k = None" for k n
    using that by (auto simp: typed_ok_def split: list.split)
  have "wa ! i = foldl (push_word i) 0 (tk_fixed a)" "wb ! j = foldl (push_word j) 0 (tk_fixed b)"
    using w i j rows [OF a p(1)] rows [OF b p(2)] by (auto simp: word_keys_def Let_def split: if_splits)
  then show ?thesis
    using words_compare [of "tk_fixed a" "tk_fixed b" n m i j] a b s i j p
    by (simp add: typed_ok_def key_shape_def typed_values_def)
qed

text \<open>Bytes.\<close>

lemma ends_of:
  "foldl (\<lambda>(ends, total) row. (ends @ [total + f row], total + f row)) ([], 0) [0..<n] =
     (map (\<lambda>r. sum_list (map f [0..<Suc r])) [0..<n], sum_list (map f [0..<n]))"
  by (induction n) simp_all

lemma slice_concat:
  assumes "r < n" and "\<And>i. i < n \<Longrightarrow> length (g i) = f i"
  shows "slice_list (concat (map g [0..<n])) (sum_list (map f [0..<r])) (f r) = g r"
proof -
  have "[0..<n] = [0..<r] @ r # [Suc r..<n]" using assms(1) using upt_add_eq_append [of 0 r "n - r"] by (simp add: upt_conv_Cons)
  then have c: "concat (map g [0..<n]) = concat (map g [0..<r]) @ g r @ concat (map g [Suc r..<n])" by simp
  have "length (concat (map g [0..<r])) = sum_list (map f [0..<r])"
    using assms by (simp add: length_concat comp_def) (rule arg_cong [where f = sum_list], simp)
  then show ?thesis using assms by (simp add: c slice_list_def)
qed

lemma length_stored_pack:
  "a \<le> a' \<Longrightarrow> a' \<le> length vs \<Longrightarrow> length (stored_pack (t, vs) a a') = (a' - a) * stored_width (t, vs)"
  by (simp add: length_concat comp_def sum_list_triv slice_list_def)

lemma packed_row_length:
  assumes k: "typed_ok k n" and i: "i < n"
  shows "length (packed_row k i) = packed_length k i"
proof -
  have "length (concat (map (\<lambda>c. stored_pack c i (i + 1)) fs)) = sum_list (map stored_width fs)"
    if "list_all (\<lambda>(t, vs). list_all (in_range t) vs \<and> length vs = n) fs" for fs
    using that
  proof (induction fs)
    case (Cons f fs)
    obtain t vs where f: "f = (t, vs)" by (cases f)
    with Cons i length_stored_pack [of i "i + 1" vs t] show ?case by (simp del: stored_pack.simps stored_width.simps)
  qed simp
  then have "length (concat (map (\<lambda>c. stored_pack c i (i + 1)) (tk_fixed k))) = sum_list (map stored_width (tk_fixed k))"
    using k by (simp add: typed_ok_def)
  moreover have "length (stored_pack els (os ! i) (os ! (i + 1))) = (os ! (i + 1) - os ! i) * stored_width els"
    if "tk_path k = Some (os, els)" for os els
    using that typed_ok_path(1,2) [OF k _ i, of os "fst els" "snd els"] length_stored_pack [of "os ! i" "os ! (i + 1)" "snd els" "fst els"]
    by (simp del: stored_pack.simps stored_width.simps)
  ultimately show ?thesis
    by (simp add: packed_row_def packed_length_def del: stored_pack.simps stored_width.simps split: option.split)
qed

lemma packed_key_row:
  assumes k: "typed_ok k n" and i: "i < n"
  shows "packed_key (packed_keys_of k) i = packed_row k i"
proof -
  let ?len = "packed_length k"
  have rows: "(case tk_fixed k of c # _ \<Rightarrow> stored_len c | [] \<Rightarrow> (case tk_path k of None \<Rightarrow> 0 | Some (os, els) \<Rightarrow> length os - 1)) = n"
    using k by (auto simp: typed_ok_def split: list.split option.split)
  have p: "packed_keys_of k = \<lparr>pk_ends = map (\<lambda>r. sum_list (map ?len [0..<Suc r])) [0..<n], pk_bytes = concat (map (packed_row k) [0..<n])\<rparr>"
    unfolding packed_keys_of_def Let_def rows ends_of by simp
  have start: "(if i = 0 then 0 else pk_ends (packed_keys_of k) ! (i - 1)) = sum_list (map ?len [0..<i])"
    using i by (cases i) (simp_all add: p)
  have stop: "pk_ends (packed_keys_of k) ! i - sum_list (map ?len [0..<i]) = ?len i" using i by (simp add: p)
  show ?thesis
    unfolding packed_key_def Let_def start stop using slice_concat [OF i, of "packed_row k" ?len] packed_row_length [OF k]
    by (simp add: p)
qed

lemma keeps_order_pack: "keeps_order (\<lambda>v. big_endian (bits_of t div 8) (flipped t v)) (bits_of t div 8) {v. in_range t v}"
proof -
  have b: "8 * (bits_of t div 8) = bits_of t" "bits_of t div 8 > 0" by (cases t; simp)+
  then show ?thesis
    using cmp_big_endian [of _ "bits_of t div 8"] flipped_bounds [of t] cmp_flipped [of t] by (simp add: keeps_order_def)
qed

lemma cmp_pack:
  assumes "list_all (in_range t) vs" and "list_all (in_range t) ws"
  shows "cmp (stored_pack (t, vs) a a') (stored_pack (t, ws) b b') = cmp (slice_list vs a (a' - a)) (slice_list ws b (b' - b))"
proof -
  have "set (slice_list vs a k) \<subseteq> {v. in_range t v}" if "list_all (in_range t) vs" for vs a k
    using that by (auto simp: slice_list_def list_all_iff dest: in_set_takeD in_set_dropD)
  then show ?thesis using cmp_concat [OF keeps_order_pack [of t]] assms by simp
qed

lemma packed_compare:
  assumes "map fst fs = map fst gs" and "list_all (\<lambda>(t, vs). list_all (in_range t) vs \<and> length vs = n) fs"
    and "list_all (\<lambda>(t, vs). list_all (in_range t) vs \<and> length vs = m) gs" and i: "i < n" and j: "j < m"
  shows "length (concat (map (\<lambda>c. stored_pack c i (i + 1)) fs)) = length (concat (map (\<lambda>c. stored_pack c j (j + 1)) gs)) \<and>
    cmp (concat (map (\<lambda>c. stored_pack c i (i + 1)) fs)) (concat (map (\<lambda>c. stored_pack c j (j + 1)) gs)) =
      cmp (map (\<lambda>c. [stored_value c i]) fs) (map (\<lambda>c. [stored_value c j]) gs)"
  using assms(1-3)
proof (induction fs arbitrary: gs)
  case (Cons f fs)
  then obtain t vs ws gs' where g: "f = (t, vs)" "gs = (t, ws) # gs'" "map fst fs = map fst gs'"
    by (cases f) (auto simp: Cons_eq_map_conv)
  have "length (stored_pack (t, vs) i (i + 1)) = length (stored_pack (t, ws) j (j + 1))"
    using length_stored_pack [of i "i + 1" vs t] length_stored_pack [of j "j + 1" ws t] Cons.prems g i j
    by (simp del: stored_pack.simps)
  moreover have "cmp (stored_pack (t, vs) i (i + 1)) (stored_pack (t, ws) j (j + 1)) = cmp (vs ! i) (ws ! j)"
  proof -
    have "slice_list xs k (k + 1 - k) = [xs ! k]" if "k < length xs" for xs :: "int list" and k
      using that by (simp add: slice_list_def take_Suc_conv_app_nth hd_drop_conv_nth take_Suc)
    then show ?thesis using cmp_pack [of t vs ws i "i + 1" j "j + 1"] Cons.prems g i j by (simp del: stored_pack.simps)
  qed
  ultimately show ?case using Cons.IH [OF g(3)] Cons.prems g by (simp add: cmp_append del: stored_pack.simps)
qed simp

lemma packed_keys_value:
  assumes a: "typed_ok a n" and b: "typed_ok b m" and s: "key_shape a = key_shape b" and i: "i < n" and j: "j < m"
  shows "cmp (packed_key (packed_keys_of a) i) (packed_key (packed_keys_of b) j) = cmp (typed_values a i) (typed_values b j)"
proof -
  note f = packed_compare [of "tk_fixed a" "tk_fixed b" n m i j]
  have l: "length (map (\<lambda>c. [stored_value c i]) (tk_fixed a)) = length (map (\<lambda>c. [stored_value c j]) (tk_fixed b))"
    using s map_eq_imp_length_eq by (fastforce simp: key_shape_def)
  show ?thesis
  proof (cases "tk_path a")
    case None
    with s have "tk_path b = None" by (simp add: key_shape_def)
    with None f a b s i j show ?thesis
      by (simp add: packed_key_row [OF a i] packed_key_row [OF b j] packed_row_def typed_values_def typed_ok_def key_shape_def)
  next
    case (Some p)
    then obtain os t vs where p: "tk_path a = Some (os, t, vs)" by (cases p) auto
    have "map_option (fst \<circ> snd) (tk_path b) = Some t" using s p by (simp add: key_shape_def)
    then obtain os' ws where q: "tk_path b = Some (os', t, ws)" by auto
    have "cmp (stored_pack (t, vs) (os ! i) (os ! (i + 1))) (stored_pack (t, ws) (os' ! j) (os' ! (j + 1))) =
        cmp (slice_list vs (os ! i) (os ! (i + 1) - os ! i)) (slice_list ws (os' ! j) (os' ! (j + 1) - os' ! j))"
      by (rule cmp_pack [OF typed_ok_path(3) [OF a p i] typed_ok_path(3) [OF b q j]])
    then show ?thesis
      using f a b s i j l
      by (simp add: packed_key_row [OF a i] packed_key_row [OF b j] packed_row_def typed_values_def p q cmp_append typed_ok_def key_shape_def
          del: stored_pack.simps)
  qed
qed

lemma sort_keys_parts:
  assumes k: "row_sort_keys bs columns = Some k" and ok: "\<forall>b \<in> set bs. batch_ok b"
  obtains typed where "length typed = length bs"
    "\<And>b. b < length bs \<Longrightarrow> typed_ok (typed ! b) (b_num_rows (bs ! b))"
    "\<And>b r. b < length bs \<Longrightarrow> row_values bs columns (b, r) = typed_values (typed ! b) r"
    "\<And>b b'. b < length bs \<Longrightarrow> b' < length bs \<Longrightarrow> key_shape (typed ! b) = key_shape (typed ! b')"
    "(\<exists>words. map word_keys typed = map Some words \<and> k = Words words) \<or> k = Packed (map packed_keys_of typed) \<or> k = Typed typed"
proof -
  from k obtain first rest types cols typed where bs: "bs = first # rest"
    and types: "map (\<lambda>name. map_option data_type_of (column_by_name first name)) columns = map Some types"
    and cols: "map (\<lambda>b. those (map (column_by_name b) columns)) bs = map Some cols"
    and same: "list_all (\<lambda>cs. list_all (\<lambda>(c, t). data_type_of c = t) (zip cs types)) cols"
    and typed: "map typed_keys_of cols = map Some typed"
    and form: "(case those (map word_keys typed) of Some words \<Rightarrow> Some (Words words)
      | None \<Rightarrow> Some (if list_ex deep_paths typed then Packed (map packed_keys_of typed) else Typed typed)) = Some k"
    by (cases bs) (fastforce simp: row_sort_keys_def bind_eq_Some_conv those_Some simp del: list.map those.simps split: if_splits)+
  have len: "length cols = length bs" "length typed = length bs"
    using map_eq_imp_length_eq [OF cols] map_eq_imp_length_eq [OF typed] by simp_all
  have col: "map (column_by_name (bs ! b)) columns = map Some (cols ! b)" if "b < length bs" for b
    using arg_cong [OF cols, of "\<lambda>xs. xs ! b"] that len by (simp add: those_Some)
  have tk: "typed_keys_of (cols ! b) = Some (typed ! b)" if "b < length bs" for b
    using arg_cong [OF typed, of "\<lambda>xs. xs ! b"] that len by simp
  have wf: "\<forall>a \<in> set (cols ! b). wf_array a \<and> len a = b_num_rows (bs ! b)" if b: "b < length bs" for b
  proof
    fix a assume "a \<in> set (cols ! b)"
    then have "Some a \<in> set (map (column_by_name (bs ! b)) columns)" by (simp add: col [OF b])
    then show "wf_array a \<and> len a = b_num_rows (bs ! b)" using ok b batch_column [of "bs ! b" _ a] by auto
  qed
  have dt: "map data_type_of (cols ! b) = types" if b: "b < length bs" for b
  proof (rule nth_equalityI)
    show l: "length (map data_type_of (cols ! b)) = length types"
      using map_eq_imp_length_eq [OF col [OF b]] map_eq_imp_length_eq [OF types] by simp
    have "list_all (\<lambda>(c, t). data_type_of c = t) (zip (cols ! b) types)" using same b len by (simp add: list_all_length)
    then show "map data_type_of (cols ! b) ! i = types ! i" if "i < length (map data_type_of (cols ! b))" for i
      using that l by (simp add: list_all_length)
  qed
  show ?thesis
  proof (rule that [of typed])
    show "length typed = length bs" by (rule len)
    show "typed_ok (typed ! b) (b_num_rows (bs ! b))" if "b < length bs" for b
      using typed_keys_of_ok(1) [OF tk wf] that by simp
    show "row_values bs columns (b, r) = typed_values (typed ! b) r" if b: "b < length bs" for b r
    proof -
      have "row_values bs columns (b, r) = map (case_option [] (\<lambda>a. sort_value a r)) (map (column_by_name (bs ! b)) columns)"
        by (simp add: row_values_def)
      also have "\<dots> = map (\<lambda>a. sort_value a r) (cols ! b)" by (simp add: col [OF b])
      finally show ?thesis using typed_keys_of_ok(2) [OF tk wf] b by simp
    qed
    show "key_shape (typed ! b) = key_shape (typed ! b')" if "b < length bs" "b' < length bs" for b b'
      using typed_keys_of_shape [OF tk] dt that by simp
    show "(\<exists>words. map word_keys typed = map Some words \<and> k = Words words) \<or> k = Packed (map packed_keys_of typed) \<or> k = Typed typed"
      using form by (auto simp: those_Some split: option.splits if_splits)
  qed
qed

lemma sort_keys_value:
  assumes k: "row_sort_keys bs columns = Some k" and ok: "\<forall>b \<in> set bs. batch_ok b"
    and a: "ba < length bs" "ra < b_num_rows (bs ! ba)" and b: "bb < length bs" "rb < b_num_rows (bs ! bb)"
  shows "sort_keys_compare k (ba, ra) (bb, rb) = cmp (row_values bs columns (ba, ra)) (row_values bs columns (bb, rb))"
proof -
  from k ok obtain typed where t: "length typed = length bs"
    "\<And>b. b < length bs \<Longrightarrow> typed_ok (typed ! b) (b_num_rows (bs ! b))"
    "\<And>b r. b < length bs \<Longrightarrow> row_values bs columns (b, r) = typed_values (typed ! b) r"
    "\<And>b b'. b < length bs \<Longrightarrow> b' < length bs \<Longrightarrow> key_shape (typed ! b) = key_shape (typed ! b')"
    and form: "(\<exists>words. map word_keys typed = map Some words \<and> k = Words words) \<or> k = Packed (map packed_keys_of typed) \<or> k = Typed typed"
    by (rule sort_keys_parts) blast
  note args = t(2) [OF a(1)] t(2) [OF b(1)] t(4) [OF a(1) b(1)] a(2) b(2)
  from form show ?thesis
  proof (elim disjE exE conjE)
    fix words assume w: "map word_keys typed = map Some words" "k = Words words"
    have at: "word_keys (typed ! i) = Some (words ! i)" if "i < length bs" for i
      using arg_cong [OF w(1), of "\<lambda>xs. xs ! i"] that t(1) map_eq_imp_length_eq [OF w(1)] by simp
    show ?thesis using word_keys_value [OF args at at] a b by (simp add: w(2) t(3))
  next
    assume "k = Packed (map packed_keys_of typed)"
    then show ?thesis using packed_keys_value [OF args] a b t(1) by (simp add: t(3))
  next
    assume "k = Typed typed"
    then show ?thesis using compare_typed_value [OF args] a b by (simp add: t(3))
  qed
qed

lemma resolved_value:
  assumes ok: "\<forall>b \<in> set bs. batch_ok b" "\<forall>b \<in> set bs'. batch_ok b" and k: "\<forall>b \<in> set bs. \<forall>b' \<in> set bs'. same_kinds columns b b'"
    and a: "ba < length bs" "ra < b_num_rows (bs ! ba)" and b: "bb < length bs'" "rb < b_num_rows (bs' ! bb)"
  shows "compare_resolved (resolve_sort_columns bs columns ! ba) ra (resolve_sort_columns bs' columns ! bb) rb =
    cmp (row_values bs columns (ba, ra)) (row_values bs' columns (bb, rb))"
  using compare_resolved_value [of "bs ! ba" "bs' ! bb" columns ra rb] assms by (simp add: resolve_sort_columns_def row_values_def)

lemma sort_key_same:
  assumes "\<And>x y. x \<in> set xs \<Longrightarrow> y \<in> set xs \<Longrightarrow> cmp (f x) (f y) = cmp (g x) (g y)"
  shows "sort_key f xs = sort_key g xs"
  using sort_by_key [of xs "\<lambda>x y. cmp (f x) (f y)" f] sort_by_key [of xs "\<lambda>x y. cmp (f x) (f y)" g] assms by simp


section \<open>Properties\<close>

definition row_refs_ok :: "batch list \<Rightarrow> (nat \<times> nat) list \<Rightarrow> bool" where
  "row_refs_ok bs rows = list_all (\<lambda>(b, r). b < length bs \<and> r < b_num_rows (bs ! b)) rows"

text \<open>Each way the rows are sorted is the sort by value.\<close>

definition by_value :: "batch list \<Rightarrow> string list \<Rightarrow> nat \<times> nat \<Rightarrow> int list list \<times> nat \<times> nat" where
  "by_value bs columns p = (row_values bs columns p, p)"

lemma row_refs_row:
  "row_refs_ok bs rows \<Longrightarrow> p \<in> set rows \<Longrightarrow> fst p < length bs \<and> snd p < b_num_rows (bs ! fst p)"
  by (auto simp: row_refs_ok_def list_all_iff)

lemma keyed_sort:
  assumes ok: "\<forall>b \<in> set bs. batch_ok b" and k: "row_sort_keys bs columns = Some k" and rows: "row_refs_ok bs rows"
  shows "sort_rows_by_order_keys resolved (Some k) rows = sort_key (by_value bs columns) rows"
proof -
  have k: "sort_keys_compare k p q = cmp (row_values bs columns p) (row_values bs columns q)" if "p \<in> set rows" "q \<in> set rows" for p q
    using sort_keys_value [OF k ok, of "fst p" "snd p" "fst q" "snd q"] row_refs_row [OF rows that(1)] row_refs_row [OF rows that(2)] by simp
  then have "sort_by (\<lambda>a b. then_order (sort_keys_compare k a b) (cmp a b)) rows = sort_key (by_value bs columns) rows"
    by (intro sort_by_key) (simp add: by_value_def cmp_pair [of "row_values _ _ _"])
  moreover have "sort_key (\<lambda>(b, r). (words ! b ! r, b, r)) rows = sort_key (by_value bs columns) rows" if w: "k = Words words" for words
  proof (rule sort_key_same)
    fix p q assume "p \<in> set rows" "q \<in> set rows"
    from k [OF this] show "cmp (case p of (b, r) \<Rightarrow> (words ! b ! r, b, r)) (case q of (b, r) \<Rightarrow> (words ! b ! r, b, r)) =
        cmp (by_value bs columns p) (by_value bs columns q)"
      by (cases p; cases q) (simp add: w by_value_def cmp_pair [of _ "(_, _)"])
  qed
  ultimately show ?thesis by (cases k) (simp_all add: sort_rows_by_order_keys_def)
qed

lemma resolved_sort:
  assumes ok: "\<forall>b \<in> set bs. batch_ok b" and kinds: "\<forall>b \<in> set bs. \<forall>b' \<in> set bs. same_kinds columns b b'"
    and rows: "row_refs_ok bs rows"
  shows "sort_rows_by_order_keys (resolve_sort_columns bs columns) None rows = sort_key (by_value bs columns) rows"
proof (cases "columns = [] \<or> rows = []")
  case True
  have "sort_key (\<lambda>(b, r). (b, r)) rows = sort_key (by_value bs columns) rows"
    using True by (intro sort_key_same) (auto simp: by_value_def row_values_def cmp_pair [of "[]"])
  with True show ?thesis by (auto simp: sort_rows_by_order_keys_def resolve_sort_columns_def split: list.split)
next
  case False
  then have "bs \<noteq> []" using row_refs_row [OF rows, of "hd rows"] by (cases rows) auto
  then have "(case resolve_sort_columns bs columns of [] \<Rightarrow> False | v # _ \<Rightarrow> v \<noteq> [])" using False
    by (cases bs) (simp_all add: resolve_sort_columns_def)
  moreover have "sort_by (\<lambda>(ba, ra) (bb, rb). then_order
      (compare_resolved (resolve_sort_columns bs columns ! ba) ra (resolve_sort_columns bs columns ! bb) rb) (cmp (ba, ra) (bb, rb))) rows =
      sort_key (by_value bs columns) rows"
  proof (rule sort_by_key)
    fix p q assume "p \<in> set rows" "q \<in> set rows"
    then have "fst p < length bs" "snd p < b_num_rows (bs ! fst p)" "fst q < length bs" "snd q < b_num_rows (bs ! fst q)"
      using row_refs_row [OF rows] by auto
    then show "(case p of (ba, ra) \<Rightarrow> \<lambda>(bb, rb). then_order
        (compare_resolved (resolve_sort_columns bs columns ! ba) ra (resolve_sort_columns bs columns ! bb) rb) (cmp (ba, ra) (bb, rb))) q =
        cmp (by_value bs columns p) (by_value bs columns q)"
      using resolved_value [OF ok ok kinds, of "fst p" "snd p" "fst q" "snd q"]
      by (cases p; cases q) (simp add: by_value_def cmp_pair [of "row_values _ _ _"])
  qed
  ultimately show ?thesis using False by (simp add: sort_rows_by_order_keys_def)
qed

text \<open>
  C27: The rows of a block are ordered by the values of their key columns, texts and paths included and whatever
  width an integer is stored at, and then by their place in the file. The prepared forms - words, stored types
  and packed bytes - and the comparator all give this one order.
\<close>

theorem row_order_sorts:
  assumes "list_all batch_ok bs" and "\<forall>b \<in> set bs. \<forall>b' \<in> set bs. same_kinds (build_full_sort_columns t) b b'"
    and "row_refs_ok bs rows"
  shows "row_order_sort (row_order_new bs t) rows = sort_key (by_value bs (build_full_sort_columns t)) rows"
proof -
  have ok: "\<forall>b \<in> set bs. batch_ok b" using assms(1) by (simp add: list_all_iff)
  show ?thesis
    using keyed_sort [OF ok _ assms(3)] resolved_sort [OF ok assms(2,3)]
    by (cases "row_sort_keys bs (build_full_sort_columns t)") (simp_all add: row_order_sort_def row_order_new_def Let_def)
qed

text \<open>
  C28: Rows of two sources of a table compare by the values of their key columns alone, so sorted runs of several
  sources merge in the order a sort of all of them would give.
\<close>

theorem row_order_across_sources:
  assumes "list_all batch_ok bs" and "list_all batch_ok bs'"
    and "\<forall>b \<in> set bs. \<forall>b' \<in> set bs'. same_kinds (build_full_sort_columns t) b b'"
    and "row_refs_ok bs [p]" and "row_refs_ok bs' [q]"
  shows "row_order_compare (row_order_new bs t) p (row_order_new bs' t) q =
    cmp (row_values bs (build_full_sort_columns t) p) (row_values bs' (build_full_sort_columns t) q)"
  using resolved_value [of bs bs' "build_full_sort_columns t" "fst p" "snd p" "fst q" "snd q"] assms
  by (cases p; cases q) (simp add: list_all_iff row_refs_ok_def row_order_compare_def row_order_new_def Let_def)

section \<open>Witnesses\<close>

definition unsorted_logs :: "batch list" where
  "unsorted_logs =
     [\<lparr>b_columns = [(''transaction_index'', AInt UInt32 [2, 0] None), (''log_index'', AInt Int16 [-1, 5] None)], b_num_rows = 2\<rparr>,
      \<lparr>b_columns = [(''transaction_index'', AInt UInt32 [0] None), (''log_index'', AInt Int16 [-3] None)], b_num_rows = 1\<rparr>]"

lemma log_sort_columns: "build_full_sort_columns sample_logs = [''transaction_index'', ''log_index'']"
  by (simp add: build_full_sort_columns_def row_key_def sample_logs_def push_unique_def push_new_def)

lemma unsorted_logs_ok:
  "list_all batch_ok unsorted_logs" "\<forall>b \<in> set unsorted_logs. \<forall>b' \<in> set unsorted_logs. same_kinds [''transaction_index'', ''log_index''] b b'"
  by (simp_all add: unsorted_logs_def batch_ok_def in_range_def nulls_fit_def same_kinds_def column_by_name_def)

lemma unsorted_logs_values:
  "row_values unsorted_logs [''transaction_index'', ''log_index''] (0, 0) = [[2], [-1]]"
  "row_values unsorted_logs [''transaction_index'', ''log_index''] (0, 1) = [[0], [5]]"
  "row_values unsorted_logs [''transaction_index'', ''log_index''] (1, 0) = [[0], [-3]]"
  by (simp_all add: row_values_def unsorted_logs_def column_by_name_def)

theorem row_order_sorts_witness:
  "row_order_sort (row_order_new unsorted_logs sample_logs) [(0, 0), (0, 1), (1, 0)] = [(1, 0), (0, 1), (0, 0)]"
proof -
  have "row_refs_ok unsorted_logs [(0, 0), (0, 1), (1, 0)]" by (simp add: row_refs_ok_def unsorted_logs_def)
  with row_order_sorts [of unsorted_logs sample_logs "[(0, 0), (0, 1), (1, 0)]"] unsorted_logs_ok log_sort_columns
  show ?thesis by (simp add: by_value_def unsorted_logs_values [simplified] less_eq_prod_def less_prod_def)
qed

theorem row_order_across_sources_witness:
  "row_order_compare (row_order_new unsorted_logs sample_logs) (0, 1) (row_order_new (rev unsorted_logs) sample_logs) (0, 0) = Greater"
proof -
  have "row_refs_ok unsorted_logs [(0, 1)]" "row_refs_ok (rev unsorted_logs) [(0, 0)]"
    by (simp_all add: row_refs_ok_def unsorted_logs_def)
  moreover have "row_values (rev unsorted_logs) [''transaction_index'', ''log_index''] (0, 0) = [[0], [-3]]"
    by (simp add: row_values_def unsorted_logs_def column_by_name_def)
  ultimately show ?thesis
    using row_order_across_sources [of unsorted_logs "rev unsorted_logs" sample_logs "(0, 1)" "(0, 0)"] unsorted_logs_ok log_sort_columns
    by (simp add: unsorted_logs_values [simplified] list_all_iff) (simp add: cmp_def)
qed

end
