(* ===== verification/Scan_Request.thy ===== *)
theory Scan_Request
  imports Keys
begin

text \<open>
  What the readers of a chunk share (\<^verbatim>\<open>src/scan/scanner.rs\<close>): a scan request, the checks every scan makes
  before it reads a row, the filters a scan applies beside its items, and the projection of what it read.
  The locale \<open>row_filter\<close> is the contract between a reader and its filters: a mask that picks rows by what
  they hold. Block bounds, keys, addresses and items are shown to keep it.
\<close>

section \<open>Schemas and requests\<close>

record schema_field =
  f_name :: string
  f_type :: data_type
  f_nullable :: bool

type_synonym schema = "schema_field list"

definition field_names :: "schema \<Rightarrow> string list" where
  "field_names = map f_name"

text \<open>\<open>Schema::field_with_name\<close>: the first field of a name.\<close>

definition field_with_name :: "schema \<Rightarrow> string \<Rightarrow> schema_field option" where
  "field_with_name fs name = map_option ((!) fs) (index_of (field_names fs) name)"

text \<open>A request without its cache of decoded columns, which holds what a reader would decode.\<close>

record table_request = scan_request +
  rq_output_columns :: "string list"
  rq_predicates :: "row_predicate list"
  rq_from_block :: "nat option"
  rq_to_block :: "nat option"
  rq_block_number_column :: "string option"
  rq_batch_size :: nat
  rq_key_filter :: "key_filter option"
  rq_hierarchical_filter :: "hierarchical_filter option"
  rq_required_columns :: "string list"
  rq_row_indices :: "nat list option"
  rq_window :: "(nat option \<times> nat option) option"

definition table_request_new :: "string list \<Rightarrow> table_request" where
  "table_request_new columns =
     \<lparr>rq_item_tags = [], rq_positions = False, rq_output_columns = columns, rq_predicates = [], rq_from_block = None,
      rq_to_block = None, rq_block_number_column = None, rq_batch_size = 2 ^ 64 - 1, rq_key_filter = None,
      rq_hierarchical_filter = None, rq_required_columns = [], rq_row_indices = None, rq_window = None\<rparr>"


section \<open>Checks before any row\<close>

definition nullable_block_numbers :: "schema \<Rightarrow> 'a table_request_scheme \<Rightarrow> engine_error + string option" where
  "nullable_block_numbers fs rq =
     (case rq_block_number_column rq of
        None \<Rightarrow> Inr None
      | Some bn \<Rightarrow>
          and_then (ok_or (EngineError ColumnNotFound) (field_with_name fs bn)) (\<lambda>f.
          and_then (ensure (is_integer (f_type f)) (EngineError MalformedChunkData)) (\<lambda>_.
          Inr (if f_nullable f then Some bn else None))))"

definition filter_columns :: "'a table_request_scheme \<Rightarrow> string list" where
  "filter_columns rq =
     (case rq_key_filter rq of None \<Rightarrow> [] | Some kf \<Rightarrow> kf_block_number_column kf # kf_columns kf) @
     (case rq_hierarchical_filter rq of None \<Rightarrow> [] | Some hf \<Rightarrow> hf_group_key_columns hf @ [hf_address_column hf])"

definition ensure_columns_present :: "schema \<Rightarrow> 'a table_request_scheme \<Rightarrow> engine_error + unit" where
  "ensure_columns_present fs rq =
     try_for_each (\<lambda>name. ensure (name \<in> set (field_names fs)) (EngineError ColumnNotFound))
       (rq_required_columns rq @ concat (map required_columns (rq_predicates rq)) @ filter_columns rq)"

text \<open>A filter's failure becomes an error of the scan; the panic of a set lookup stays one.\<close>

fun mask_failure :: "engine_error \<Rightarrow> mask_error \<Rightarrow> engine_error" where
  "mask_failure e (UnsupportedType _) = e"
| "mask_failure e LookupPanic = Panic"

definition or_fail :: "engine_error \<Rightarrow> mask_error + 'a \<Rightarrow> engine_error + 'a" where
  "or_fail e r = (case r of Inl f \<Rightarrow> Inl (mask_failure e f) | Inr x \<Rightarrow> Inr x)"

definition ensure_predicates_comparable ::
    "externals \<Rightarrow> kernels \<Rightarrow> schema \<Rightarrow> 'a table_request_scheme \<Rightarrow> engine_error + unit" where
  "ensure_predicates_comparable X K fs rq =
     try_for_each (\<lambda>(name, p).
         case field_with_name fs name of
           None \<Rightarrow> Inr ()
         | Some f \<Rightarrow> or_fail (EngineError UnsupportedKeyType) (check_stored_type X K p (f_type f)))
       (concat (map column_predicates (rq_predicates rq)))"


section \<open>Filters beside the items\<close>

datatype relation = NoRelation | KeyRelation key_filter | AddressRelation hierarchical_filter

record row_filters =
  rf_blocks :: "(nat option \<times> nat option) option"
  rf_relation :: relation

definition row_filters_of :: "'a table_request_scheme \<Rightarrow> row_filters" where
  "row_filters_of rq =
     (let relation = (case (rq_hierarchical_filter rq, rq_key_filter rq) of
            (Some addresses, _) \<Rightarrow> AddressRelation addresses
          | (None, Some kf) \<Rightarrow> KeyRelation kf
          | (None, None) \<Rightarrow> NoRelation);
          keyed = (case relation of KeyRelation kf \<Rightarrow> \<not> checks_blocks_first kf | _ \<Rightarrow> False);
          from_block = (case rq_from_block rq of None \<Rightarrow> None | Some b \<Rightarrow> if b > 0 then Some b else None);
          bounded = (from_block \<noteq> None \<or> rq_to_block rq \<noteq> None);
          checked = (bounded \<and> \<not> keyed \<and> rq_block_number_column rq \<noteq> None)
      in \<lparr>rf_blocks = (if checked then Some (from_block, rq_to_block rq) else None), rf_relation = relation\<rparr>)"

definition block_range_mask :: "kernels \<Rightarrow> array \<Rightarrow> nat option \<Rightarrow> nat option \<Rightarrow> engine_error + mask" where
  "block_range_mask K a lo hi =
     and_then (ok_or (EngineError UnsupportedKeyType) (resolve_int a)) (\<lambda>c. Inr (block_numbers_within K c lo hi))"


section \<open>Projection\<close>

text \<open>\<open>RecordBatch::try_new\<close> and the slice of an array, as Arrow makes them.\<close>

record table_kernels =
  tk_try_new :: "schema \<Rightarrow> array list \<Rightarrow> engine_error + batch"
  tk_slice :: "array \<Rightarrow> nat \<Rightarrow> nat \<Rightarrow> array"

definition build_output_schema :: "schema \<Rightarrow> string list \<Rightarrow> schema" where
  "build_output_schema fs columns = List.map_filter (field_with_name fs) columns"

definition null_array :: "nat \<Rightarrow> array" where
  "null_array n = AOther ''Null'' n (Some (replicate n False))"

definition project_batch :: "table_kernels \<Rightarrow> batch \<Rightarrow> schema \<Rightarrow> engine_error + batch" where
  "project_batch T b output_schema =
     tk_try_new T output_schema (map (\<lambda>f. unwrap_or (null_array (b_num_rows b)) (column_by_name b (f_name f))) output_schema)"

section \<open>What a filter picks\<close>

text \<open>The rows a mask selects, and the rows kept so far that it selects too.\<close>

definition selected :: "mask \<Rightarrow> bool list" where
  "selected m = map (\<lambda>v. v = Some True) m"

definition narrow :: "bool list \<Rightarrow> mask \<Rightarrow> bool list" where
  "narrow keep m = map2 (\<and>) keep (selected m)"

lemma length_selected [simp]: "length (selected m) = length m"
  by (simp add: selected_def)

lemma selected_nth [simp]: "i < length m \<Longrightarrow> selected m ! i \<longleftrightarrow> m ! i = Some True"
  by (simp add: selected_def)

text \<open>
  A filter of a scan: on a batch it can read its mask picks, of the rows it is asked for, exactly those that
  hold what it looks for, and that is decided by the filter's own columns.
\<close>

locale row_filter =
  fixes mask_of :: "batch \<Rightarrow> bool list option \<Rightarrow> engine_error + mask"
    and picks :: "row \<Rightarrow> bool"
    and columns :: "string list"
    and readable :: "batch \<Rightarrow> bool"
  assumes mask_rows: "readable b \<Longrightarrow> (\<And>c. candidates = Some c \<Longrightarrow> length c = b_num_rows b) \<Longrightarrow>
      \<exists>m. mask_of b candidates = Inr m \<and> length m = b_num_rows b \<and>
        (\<forall>i < b_num_rows b. asked candidates i \<longrightarrow> (m ! i = Some True \<longleftrightarrow> picks (row_at b i)))"
    and picks_only: "set columns \<subseteq> set names \<Longrightarrow> picks (only names row) = picks row"
begin

text \<open>Filters one after the other, each asked for the rows the ones before it kept, keep the rows all of them pick.\<close>

lemma narrowed:
  assumes "readable b" and keep: "length keep = b_num_rows b" "\<And>i. i < b_num_rows b \<Longrightarrow> keep ! i \<longleftrightarrow> P (row_at b i)"
  shows "\<exists>m. mask_of b (Some keep) = Inr m \<and> length (narrow keep m) = b_num_rows b \<and>
    (\<forall>i < b_num_rows b. narrow keep m ! i \<longleftrightarrow> P (row_at b i) \<and> picks (row_at b i))"
proof -
  from mask_rows [OF assms(1), of "Some keep"] keep(1) obtain m where m: "mask_of b (Some keep) = Inr m"
    "length m = b_num_rows b" "\<forall>i < b_num_rows b. keep ! i \<longrightarrow> (m ! i = Some True \<longleftrightarrow> picks (row_at b i))"
    by (auto simp: asked_def)
  with keep show ?thesis by (intro exI [of _ m]) (auto simp: narrow_def selected_def)
qed

lemma unasked:
  assumes "readable b"
  shows "\<exists>m. mask_of b None = Inr m \<and> length m = b_num_rows b \<and> (\<forall>i < b_num_rows b. keeps m i \<longleftrightarrow> picks (row_at b i))"
  using mask_rows [OF assms, of None] by (auto simp: asked_def keeps_def)

end

section \<open>The filters of a scan\<close>

text \<open>Block bounds.\<close>

definition block_mask :: "kernels \<Rightarrow> string \<Rightarrow> nat option \<Rightarrow> nat option \<Rightarrow> batch \<Rightarrow> engine_error + mask" where
  "block_mask K bn lo hi b =
     (case column_by_name b bn of
        None \<Rightarrow> Inr (all_mask (b_num_rows b) True)
      | Some a \<Rightarrow> block_range_mask K a lo hi)"

definition in_blocks :: "string \<Rightarrow> nat option \<Rightarrow> nat option \<Rightarrow> row \<Rightarrow> bool" where
  "in_blocks bn lo hi row =
     (case row bn of
        None \<Rightarrow> True
      | Some (CInt t v) \<Rightarrow> within_bounds lo hi (unsigned_bits t v)
      | _ \<Rightarrow> False)"

definition blocks_readable :: "kernels \<Rightarrow> string \<Rightarrow> batch \<Rightarrow> bool" where
  "blocks_readable K bn b \<longleftrightarrow> kernels_ok K \<and> batch_ok b \<and>
     (\<forall>a. column_by_name b bn = Some a \<longrightarrow> is_integer (data_type_of a))"

lemma length_block_numbers_within: "kernels_ok K \<Longrightarrow> length (block_numbers_within K (t, vs, n) lo hi) = length vs"
  by (auto simp: within_def Let_def kernel_simps split: option.splits)

interpretation blocks: row_filter "\<lambda>b _. block_mask K bn lo hi b" "in_blocks bn lo hi" "[bn]" "blocks_readable K bn"
proof unfold_locales
  fix b :: batch and candidates :: "bool list option"
  assume b: "blocks_readable K bn b"
  then have K: "kernels_ok K" and ok: "batch_ok b" by (simp_all add: blocks_readable_def)
  show "\<exists>m. block_mask K bn lo hi b = Inr m \<and> length m = b_num_rows b \<and>
      (\<forall>i < b_num_rows b. asked candidates i \<longrightarrow> (m ! i = Some True \<longleftrightarrow> in_blocks bn lo hi (row_at b i)))"
  proof (cases "column_by_name b bn")
    case None
    then show ?thesis by (simp add: block_mask_def in_blocks_def row_at_def)
  next
    case (Some a)
    with b obtain t where "data_type_of a = DInt t" by (auto simp: blocks_readable_def is_integer_iff)
    then obtain vs n where a: "a = AInt t vs n" by (cases a) auto
    with batch_column [OF ok Some] have l: "length vs = b_num_rows b" by simp
    let ?m = "block_numbers_within K (t, vs, n) lo hi"
    have "?m ! i = Some True \<longleftrightarrow> in_blocks bn lo hi (row_at b i)" if "i < b_num_rows b" for i
      using keeps_block_numbers_within [OF K, of t vs n lo hi i] length_block_numbers_within [OF K, of t vs n lo hi] that l
      by (auto simp: keeps_def in_blocks_def row_at_def Some a simp del: block_numbers_within.simps)
    with length_block_numbers_within [OF K, of t vs n lo hi] l show ?thesis
      by (simp add: block_mask_def block_range_mask_def Some a del: block_numbers_within.simps)
  qed
qed (simp add: in_blocks_def only_def)

text \<open>Items: the mask of each, and the rows one of some items matched.\<close>

definition item_masks :: "externals \<Rightarrow> kernels \<Rightarrow> row_predicate list \<Rightarrow> batch \<Rightarrow> engine_error + mask list" where
  "item_masks X K items b = try_collect (\<lambda>p. or_fail Untyped (row_evaluate X K p b)) items"

definition items_mask :: "externals \<Rightarrow> kernels \<Rightarrow> row_predicate list \<Rightarrow> batch \<Rightarrow> engine_error + mask" where
  "items_mask X K items b =
     and_then (item_masks X K items b) (\<lambda>masks. Inr (or_masks K masks [0..<length masks] (b_num_rows b)))"

definition comparable :: "externals \<Rightarrow> kernels \<Rightarrow> row_predicate \<Rightarrow> batch \<Rightarrow> bool" where
  "comparable X K r b \<longleftrightarrow>
     (\<forall>(k, p) \<in> set (column_predicates r). list_all (\<lambda>s. fuse8_ok (s_fuse8 s)) (sets_of p) \<and>
        (\<forall>a. column_by_name b k = Some a \<longrightarrow> check_stored_type X K p (data_type_of a) = Inr ()))"

definition items_readable :: "externals \<Rightarrow> kernels \<Rightarrow> row_predicate list \<Rightarrow> batch \<Rightarrow> bool" where
  "items_readable X K items b \<longleftrightarrow> kernels_ok K \<and> batch_ok b \<and>
     (\<forall>r \<in> set items. row_predicate_ok r \<and> comparable X K r b)"

lemma comparable_evaluates:
  assumes "check_stored_type X K p (data_type_of a) = Inr ()" and "list_all (\<lambda>s. fuse8_ok (s_fuse8 s)) (sets_of p)"
  shows "\<exists>m. evaluate X K p a = Inr m"
  using assms(1) data_type_decides [OF assms(2), of a "empty_array (data_type_of a)" X K]
  by (auto simp: check_stored_type_def and_then_Inr_iff)

lemma evaluate_all_total:
  assumes "\<And>k p a. (k, p) \<in> set ps \<Longrightarrow> column_by_name b k = Some a \<Longrightarrow> \<exists>m. evaluate X K p a = Inr m"
  shows "\<exists>m. evaluate_all X K ps b = Inr m"
proof -
  have "\<exists>acc'. try_fold (\<lambda>(k, p) acc.
      case column_by_name b k of
        None \<Rightarrow> Inr acc
      | Some a \<Rightarrow> and_then (evaluate X K p a) (\<lambda>m. Inr (and_next K acc m))) ps acc = Inr acc'" for acc
    using assms
  proof (induction ps arbitrary: acc)
    case (Cons e ps)
    obtain k p where e: "e = (k, p)" by (cases e)
    have IH: "\<exists>acc'. try_fold (\<lambda>(k, p) acc.
        case column_by_name b k of
          None \<Rightarrow> Inr acc
        | Some a \<Rightarrow> and_then (evaluate X K p a) (\<lambda>m. Inr (and_next K acc m))) ps acc = Inr acc'" for acc
      by (rule Cons.IH) (use Cons.prems in auto)
    show ?case
    proof (cases "column_by_name b k")
      case None
      with IH [of acc] show ?thesis by (simp add: e)
    next
      case (Some a)
      with Cons.prems [of k p a] e obtain m where "evaluate X K p a = Inr m" by auto
      with Some IH [of "and_next K acc m"] show ?thesis by (simp add: e)
    qed
  qed simp
  from this [of None] show ?thesis unfolding evaluate_all_def by (auto simp: and_then_Inr_iff)
qed

lemma row_evaluate_total:
  assumes "comparable X K r b"
  shows "\<exists>m. row_evaluate X K r b = Inr m"
proof -
  have all: "\<exists>m. evaluate_all X K ps b = Inr m" if "set ps \<subseteq> set (column_predicates r)" for ps
  proof (rule evaluate_all_total)
    fix k p a
    assume "(k, p) \<in> set ps" and a: "column_by_name b k = Some a"
    with that have "(k, p) \<in> set (column_predicates r)" by blast
    with assms a have "list_all (\<lambda>s. fuse8_ok (s_fuse8 s)) (sets_of p)" "check_stored_type X K p (data_type_of a) = Inr ()"
      by (auto simp: comparable_def)
    then show "\<exists>m. evaluate X K p a = Inr m" by (intro comparable_evaluates)
  qed
  have alternatives: "\<exists>any'. try_fold (\<lambda>g any. and_then (evaluate_all X K g b) (\<lambda>m. Inr (or_next K any m))) gs any = Inr any'"
    if "set gs \<subseteq> set (rp_alternatives r)" for gs any
    using that
  proof (induction gs arbitrary: any)
    case (Cons g gs)
    moreover have "\<exists>m. evaluate_all X K g b = Inr m"
      using Cons.prems by (intro all) (auto simp: column_predicates_def)
    ultimately show ?case by auto
  qed simp
  obtain m where m: "evaluate_all X K (rp_columns r) b = Inr m"
    using all [of "rp_columns r"] by (auto simp: column_predicates_def)
  obtain any where "try_fold (\<lambda>g any. and_then (evaluate_all X K g b) (\<lambda>m. Inr (or_next K any m))) (rp_alternatives r) None = Inr any"
    using alternatives [OF order_refl] by blast
  with m show ?thesis by (simp add: row_evaluate_def)
qed

lemma or_masks_keeps:
  assumes K: "kernels_ok K" and masks: "\<And>k. k \<in> set items \<Longrightarrow> keeps_rows (masks ! k) n (R k)"
  shows "keeps_rows (or_masks K masks items n) n (\<lambda>i. \<exists>k \<in> set items. R k i)"
proof -
  have "or_state (foldl (or_next K) any (map ((!) masks) ks)) n (\<lambda>i. S i \<or> (\<exists>k \<in> set ks. R k i))"
    if "or_state any n S" "set ks \<subseteq> set items" for any S ks
    using that
  proof (induction ks arbitrary: any S)
    case (Cons k ks)
    from or_next_state [OF K Cons.prems(1) masks [of k]] Cons.prems(2)
    have "or_state (or_next K any (masks ! k)) n (\<lambda>i. S i \<or> R k i)" by simp
    from Cons.IH [OF this] Cons.prems(2) show ?case by (simp add: disj_assoc)
  qed simp
  from this [of None "\<lambda>_. False" items] have "or_state (foldl (or_next K) None (map ((!) masks) items)) n (\<lambda>i. \<exists>k \<in> set items. R k i)"
    by (simp add: or_state_def)
  then show ?thesis unfolding or_masks_def by (rule or_state_keeps)
qed

text \<open>What an item asks of a row is decided by its own columns.\<close>

lemma row_admits_only: "set (required_columns r) \<subseteq> set names \<Longrightarrow> row_admits X r (only names row) = row_admits X r row"
proof -
  assume names: "set (required_columns r) \<subseteq> set names"
  have "all_admit X (only names row) ps = all_admit X row ps" if "set ps \<subseteq> set (column_predicates r)" for ps
    using that names by (force simp: all_admit_def list_all_iff only_def required_columns_def)
  then have "all_admit X (only names row) (rp_columns r) = all_admit X row (rp_columns r)"
    "\<And>g. g \<in> set (rp_alternatives r) \<Longrightarrow> all_admit X (only names row) g = all_admit X row g"
    by (auto simp: column_predicates_def)
  then show ?thesis by (simp add: row_admits_def list_ex_iff)
qed

lemma batch_row_at: "batch_row b i = row_at b i"
  by (simp add: fun_eq_iff batch_row_def row_at_def)

lemma item_masks_keep:
  assumes "items_readable X K items b"
  shows "\<exists>masks. item_masks X K items b = Inr masks \<and> length masks = length items \<and>
    (\<forall>k < length items. keeps_rows (masks ! k) (b_num_rows b) (\<lambda>i. row_admits X (items ! k) (row_at b i)))"
proof -
  let ?mask = "\<lambda>r. projr (or_fail Untyped (row_evaluate X K r b))"
  have each: "or_fail Untyped (row_evaluate X K r b) = Inr (?mask r) \<and>
      keeps_rows (?mask r) (b_num_rows b) (\<lambda>i. row_admits X r (row_at b i))" if "r \<in> set items" for r
  proof -
    from assms that have r: "kernels_ok K" "batch_ok b" "row_predicate_ok r" "comparable X K r b"
      by (auto simp: items_readable_def)
    from row_evaluate_total [OF r(4)] obtain m where "row_evaluate X K r b = Inr m" ..
    with row_evaluate_keeps [OF r(1,2,3) this] show ?thesis by (simp add: or_fail_def batch_row_at)
  qed
  then have "item_masks X K items b = Inr (map ?mask items)"
    unfolding item_masks_def by (intro try_collect_total) blast
  with each show ?thesis by simp
qed

interpretation items: row_filter "\<lambda>b _. items_mask X K items b" "\<lambda>row. list_ex (\<lambda>r. row_admits X r row) items"
  "concat (map required_columns items)" "items_readable X K items"
proof unfold_locales
  fix b :: batch and candidates :: "bool list option"
  assume b: "items_readable X K items b"
  then have K: "kernels_ok K" by (simp add: items_readable_def)
  from item_masks_keep [OF b] obtain masks where masks: "item_masks X K items b = Inr masks" "length masks = length items"
    "\<And>k. k < length items \<Longrightarrow> keeps_rows (masks ! k) (b_num_rows b) (\<lambda>i. row_admits X (items ! k) (row_at b i))" by auto
  have "keeps_rows (or_masks K masks [0..<length masks] (b_num_rows b)) (b_num_rows b)
      (\<lambda>i. \<exists>k \<in> set [0..<length masks]. row_admits X (items ! k) (row_at b i))"
    by (rule or_masks_keeps [OF K]) (use masks in simp)
  moreover have "(\<exists>k \<in> set [0..<length masks]. row_admits X (items ! k) (row_at b i)) \<longleftrightarrow> list_ex (\<lambda>r. row_admits X r (row_at b i)) items" for i
    by (auto simp: list_ex_length masks(2))
  ultimately show "\<exists>m. items_mask X K items b = Inr m \<and> length m = b_num_rows b \<and>
      (\<forall>i < b_num_rows b. asked candidates i \<longrightarrow>
        (m ! i = Some True \<longleftrightarrow> list_ex (\<lambda>r. row_admits X r (row_at b i)) items))"
    by (simp add: items_mask_def masks(1) keeps_rows_def del: set_upt)
next
  show "list_ex (\<lambda>r. row_admits X r (only names row)) items = list_ex (\<lambda>r. row_admits X r row) items"
    if "set (concat (map required_columns items)) \<subseteq> set names" for names row
    using that by (auto simp: list_ex_iff row_admits_only UN_subset_iff)
qed

section \<open>What a scan answers\<close>

text \<open>
  A table is the list of its rows: every row has a cell in each column of the schema and in no other, and a
  cell fits its column. A batch shows some of the rows, in some of the columns, at the schema's types.
\<close>

definition typed_cell :: "schema_field \<Rightarrow> cell \<Rightarrow> bool" where
  "typed_cell f c \<longleftrightarrow> (c = CNull \<longrightarrow> f_nullable f) \<and>
     (\<forall>t. f_type f = DInt t \<longrightarrow> c = CNull \<or> (\<exists>v. c = CInt t v \<and> in_range t v))"

definition row_of_schema :: "schema \<Rightarrow> row \<Rightarrow> bool" where
  "row_of_schema fs row \<longleftrightarrow> (\<forall>name. row name \<noteq> None \<longrightarrow> name \<in> set (field_names fs)) \<and>
     (\<forall>f \<in> set fs. \<exists>c. row (f_name f) = Some c \<and> typed_cell f c)"

definition rows_of_schema :: "schema \<Rightarrow> row list \<Rightarrow> bool" where
  "rows_of_schema fs data \<longleftrightarrow> distinct (field_names fs) \<and> list_all (row_of_schema fs) data"

definition shows_rows :: "schema \<Rightarrow> row list \<Rightarrow> string list \<Rightarrow> nat list \<Rightarrow> batch \<Rightarrow> bool" where
  "shows_rows fs data names rs b \<longleftrightarrow> batch_ok b \<and> b_num_rows b = length rs \<and>
     set names \<subseteq> set (field_names fs) \<and> set names \<subseteq> set (column_names b) \<and>
     (\<forall>name a. column_by_name b name = Some a \<longrightarrow> (\<exists>f. field_with_name fs name = Some f \<and> data_type_of a = f_type f)) \<and>
     (\<forall>i < length rs. rs ! i < length data \<and> row_at b i = only names (data ! (rs ! i)))"

text \<open>The rows a request asks for: inside its blocks, picked by its relation, and matched by one of its items if it has any.\<close>

definition in_request_blocks :: "'a table_request_scheme \<Rightarrow> row \<Rightarrow> bool" where
  "in_request_blocks rq row =
     (case rq_block_number_column rq of
        None \<Rightarrow> True
      | Some bn \<Rightarrow> in_blocks bn (rq_from_block rq) (rq_to_block rq) row)"

definition item_asks :: "externals \<Rightarrow> 'a table_request_scheme \<Rightarrow> row \<Rightarrow> bool" where
  "item_asks X rq row \<longleftrightarrow> rq_predicates rq = [] \<or> list_ex (\<lambda>r. row_admits X r row) (rq_predicates rq)"

definition asks_row :: "externals \<Rightarrow> 'a table_request_scheme \<Rightarrow> (row \<Rightarrow> bool) \<Rightarrow> row \<Rightarrow> bool" where
  "asks_row X rq picks row \<longleftrightarrow> in_request_blocks rq row \<and> picks row \<and> item_asks X rq row"

text \<open>Whether one of the items of a tag matched a row.\<close>

definition tag_matches :: "externals \<Rightarrow> 'a table_request_scheme \<Rightarrow> nat list \<Rightarrow> row \<Rightarrow> bool" where
  "tag_matches X rq items row \<longleftrightarrow> (\<exists>k \<in> set items. k < length (rq_predicates rq) \<and> row_admits X (rq_predicates rq ! k) row)"

text \<open>The rows, with the positions when they are asked for, that the request asks for.\<close>

definition answer_rows :: "externals \<Rightarrow> 'a table_request_scheme \<Rightarrow> (row \<Rightarrow> bool) \<Rightarrow> row list \<Rightarrow> nat list" where
  "answer_rows X rq picks data = filter (\<lambda>r. asks_row X rq picks (data ! r)) [0..<length data]"

definition row_view :: "'a table_request_scheme \<Rightarrow> row list \<Rightarrow> nat \<Rightarrow> row \<times> nat option" where
  "row_view rq data r = (only (rq_output_columns rq) (data ! r), if rq_positions rq then Some r else None)"

text \<open>The requests the engine makes: well-formed filters, tags that name items, and no items beside addresses.\<close>

definition request_ok :: "'a table_request_scheme \<Rightarrow> bool" where
  "request_ok rq \<longleftrightarrow> list_all row_predicate_ok (rq_predicates rq) \<and>
     (\<forall>r \<in> set (rq_predicates rq). \<forall>(k, p) \<in> set (column_predicates r). list_all (\<lambda>s. fuse8_ok (s_fuse8 s)) (sets_of p)) \<and>
     (rq_predicates rq \<noteq> [] \<longrightarrow> rq_hierarchical_filter rq = None \<and>
       list_all (list_all (\<lambda>item. item < length (rq_predicates rq))) (rq_item_tags rq))"

fun relation_mask :: "row_kernels \<Rightarrow> relation \<Rightarrow> batch \<Rightarrow> bool list option \<Rightarrow> engine_error + mask" where
  "relation_mask R NoRelation b c = Inr (all_mask (b_num_rows b) True)"
| "relation_mask R (KeyRelation kf) b c = key_filter_mask R kf b c"
| "relation_mask R (AddressRelation hf) b c = Inr (hierarchical_mask hf b c)"

text \<open>
  A request's relation picks rows by what they hold, on every batch that shows its columns. A span of blocks holds
  a picked row only if it holds a block of the request's keys, and keys that bring their own blocks pick only rows inside the request's.
\<close>

definition relation_picks ::
    "row_kernels \<Rightarrow> schema \<Rightarrow> row list \<Rightarrow> 'a table_request_scheme \<Rightarrow> (row \<Rightarrow> bool) \<Rightarrow> (batch \<Rightarrow> bool) \<Rightarrow> bool" where
  "relation_picks R fs data rq picks readable \<longleftrightarrow>
     row_filter (relation_mask R (rf_relation (row_filters_of rq))) picks (filter_columns rq) readable \<and>
     (\<forall>names rs b. set (filter_columns rq) \<subseteq> set names \<and> shows_rows fs data names rs b \<longrightarrow> readable b) \<and>
     (case rq_key_filter rq of
        None \<Rightarrow> True
      | Some kf \<Rightarrow> \<forall>row \<in> set data. picks row \<longrightarrow> (\<exists>t v. row (kf_block_number_column kf) = Some (CInt t v) \<and>
          (\<forall>lo hi. lo \<le> unsigned_bits t v \<and> unsigned_bits t v \<le> hi \<longrightarrow> has_block_within kf lo hi))) \<and>
     (case rf_relation (row_filters_of rq) of
        KeyRelation kf \<Rightarrow> \<not> checks_blocks_first kf \<longrightarrow> (\<forall>row \<in> set data. picks row \<longrightarrow> in_request_blocks rq row)
      | _ \<Rightarrow> True)"

lemma field_with_name_index: "field_with_name fs name = Some f \<longleftrightarrow>
    (\<exists>i. index_of (field_names fs) name = Some i \<and> fs ! i = f)"
  by (auto simp: field_with_name_def)

lemma field_with_name_Some: "field_with_name fs name = Some f \<Longrightarrow> f \<in> set fs \<and> f_name f = name"
  by (auto simp: field_with_name_index field_names_def dest!: index_of_Some)

lemma field_with_name_in: "name \<in> set (field_names fs) \<longleftrightarrow> (\<exists>f. field_with_name fs name = Some f)"
  by (cases "index_of (field_names fs) name") (simp_all add: field_with_name_def del: index_of_None, auto dest: index_of_Some)

text \<open>The rows whose block-number column is complete have a block each.\<close>

definition complete_blocks :: "row list \<Rightarrow> string \<Rightarrow> bool" where
  "complete_blocks data bn \<longleftrightarrow> (\<forall>row \<in> set data. row bn \<noteq> Some CNull)"

lemma row_has_block:
  assumes "row_of_schema fs row" and "field_with_name fs bn = Some f" and "is_integer (f_type f)" and "row bn \<noteq> Some CNull"
  shows "\<exists>t v. f_type f = DInt t \<and> row bn = Some (CInt t v) \<and> in_range t v"
  using assms field_with_name_Some [OF assms(2)]
  by (fastforce simp: row_of_schema_def typed_cell_def is_integer_iff)

lemma checked_blocks:
  assumes row: "row_of_schema fs row" and bn: "rq_block_number_column rq = Some bn" "field_with_name fs bn = Some f"
    "is_integer (f_type f)" "row bn \<noteq> Some CNull"
  shows "in_request_blocks rq row \<longleftrightarrow>
    (let from_block = (case rq_from_block rq of None \<Rightarrow> None | Some b \<Rightarrow> if b > 0 then Some b else None)
     in from_block = None \<and> rq_to_block rq = None \<or> in_blocks bn from_block (rq_to_block rq) row)"
proof -
  from row_has_block [OF row bn(2-4)] obtain t v where v: "row bn = Some (CInt t v)" by blast
  show ?thesis
    by (auto simp: in_request_blocks_def in_blocks_def bn v within_bounds_def Let_def split: option.splits)
qed

text \<open>The block bounds a scan checks, with the keys that need none, hold exactly for the rows of the request's blocks.\<close>

lemma blocks_and_relation:
  assumes row: "row_of_schema fs row" "row \<in> set data" and rel: "relation_picks R fs data rq picks readable"
    and bn: "\<And>bn. rq_block_number_column rq = Some bn \<Longrightarrow>
      \<exists>f. field_with_name fs bn = Some f \<and> is_integer (f_type f) \<and> row bn \<noteq> Some CNull"
  shows "(case rf_blocks (row_filters_of rq) of None \<Rightarrow> True | Some (lo, hi) \<Rightarrow> in_blocks (the (rq_block_number_column rq)) lo hi row) \<and>
      picks row \<longleftrightarrow> in_request_blocks rq row \<and> picks row"
proof (cases "rq_block_number_column rq")
  case None
  then show ?thesis by (simp add: row_filters_of_def Let_def in_request_blocks_def)
next
  case (Some bn)
  with bn obtain f where f: "field_with_name fs bn = Some f" "is_integer (f_type f)" "row bn \<noteq> Some CNull" by blast
  note c = checked_blocks [OF row(1) Some f]
  show ?thesis
  proof (cases "\<exists>kf. rf_relation (row_filters_of rq) = KeyRelation kf \<and> \<not> checks_blocks_first kf")
    case True
    then obtain kf where kf: "rf_relation (row_filters_of rq) = KeyRelation kf" "\<not> checks_blocks_first kf" by blast
    then have "rf_blocks (row_filters_of rq) = None" by (auto simp: row_filters_of_def Let_def split: option.splits)
    moreover have "picks row \<longrightarrow> in_request_blocks rq row" using rel row(2) kf by (simp add: relation_picks_def)
    ultimately show ?thesis by auto
  next
    case False
    define lo where lo: "lo = (case rq_from_block rq of None \<Rightarrow> None | Some b \<Rightarrow> if b > 0 then Some b else None)"
    from False have "\<not> (case rf_relation (row_filters_of rq) of KeyRelation kf \<Rightarrow> \<not> checks_blocks_first kf | _ \<Rightarrow> False)"
      by (auto split: relation.splits)
    then have "rf_blocks (row_filters_of rq) = (if lo \<noteq> None \<or> rq_to_block rq \<noteq> None then Some (lo, rq_to_block rq) else None)"
      by (simp add: row_filters_of_def Let_def lo [symmetric] Some)
    then show ?thesis using c by (auto simp: Some Let_def lo [symmetric])
  qed
qed

section \<open>Facts on the checks\<close>

text \<open>What the checks before any row leave: the filters' columns are there, integers where blocks are, and comparable.\<close>

definition checks_passed :: "externals \<Rightarrow> kernels \<Rightarrow> schema \<Rightarrow> 'a table_request_scheme \<Rightarrow> bool" where
  "checks_passed X K fs rq \<longleftrightarrow> ensure_columns_present fs rq = Inr () \<and> ensure_predicates_comparable X K fs rq = Inr () \<and>
     (\<exists>found. nullable_block_numbers fs rq = Inr found)"

lemma checked_columns:
  assumes "checks_passed X K fs rq"
  shows "set (concat (map required_columns (rq_predicates rq))) \<subseteq> set (field_names fs)"
    and "set (filter_columns rq) \<subseteq> set (field_names fs)"
  using assms by (auto simp: checks_passed_def ensure_columns_present_def try_for_each_Inr_iff)

lemma checked_block_column:
  assumes "checks_passed X K fs rq" and "rq_block_number_column rq = Some bn"
  shows "\<exists>f. field_with_name fs bn = Some f \<and> is_integer (f_type f)"
  using assms by (auto simp: checks_passed_def nullable_block_numbers_def and_then_Inr_iff)

lemma checked_comparable:
  assumes c: "checks_passed X K fs rq" and rq: "request_ok rq" and b: "shows_rows fs data names rs b" and r: "r \<in> set (rq_predicates rq)"
  shows "comparable X K r b"
  unfolding comparable_def
proof (intro ballI, clarify, intro conjI allI impI)
  fix k p assume p: "(k, p) \<in> set (column_predicates r)"
  show "list_all (\<lambda>s. fuse8_ok (s_fuse8 s)) (sets_of p)" using rq r p by (fastforce simp: request_ok_def)
  fix a assume "column_by_name b k = Some a"
  with b obtain f where f: "field_with_name fs k = Some f" "data_type_of a = f_type f" unfolding shows_rows_def by blast
  have "(k, p) \<in> set (concat (map column_predicates (rq_predicates rq)))" using r p by auto
  with c have "(case field_with_name fs k of None \<Rightarrow> Inr ()
      | Some f \<Rightarrow> or_fail (EngineError UnsupportedKeyType) (check_stored_type X K p (f_type f))) = Inr ()"
    unfolding checks_passed_def ensure_predicates_comparable_def try_for_each_Inr_iff by fastforce
  with f show "check_stored_type X K p (data_type_of a) = Inr ()" by (auto simp: or_fail_def split: sum.splits)
qed

lemma row_filter_none: "row_filter (relation_mask R NoRelation) (\<lambda>_. True) [] (\<lambda>_. True)"
  by unfold_locales auto

text \<open>Arrow's constructor of batches and its slices of one value.\<close>

definition fields_fit :: "schema \<Rightarrow> array list \<Rightarrow> bool" where
  "fields_fit fs arrays \<longleftrightarrow> length arrays = length fs \<and> fs \<noteq> [] \<and>
     (\<forall>a \<in> set arrays. len a = len (hd arrays)) \<and>
     list_all (\<lambda>(f, a). data_type_of a = f_type f \<and> (f_nullable f \<or> null_count a = 0)) (zip fs arrays)"

definition table_kernels_ok :: "table_kernels \<Rightarrow> bool" where
  "table_kernels_ok T \<longleftrightarrow>
     (\<forall>fs arrays. tk_try_new T fs arrays =
        (if fields_fit fs arrays then Inr \<lparr>b_columns = zip (map f_name fs) arrays, b_num_rows = len (hd arrays)\<rparr>
         else Inl Untyped)) \<and>
     (\<forall>a i. wf_array a \<and> i < len a \<longrightarrow>
        wf_array (tk_slice T a i 1) \<and> len (tk_slice T a i 1) = 1 \<and> data_type_of (tk_slice T a i 1) = data_type_of a \<and>
        cell_at (tk_slice T a i 1) 0 = cell_at a i)"

section \<open>Facts on what is returned\<close>

text \<open>The types of a request's output columns.\<close>

definition output_types :: "schema \<Rightarrow> 'a table_request_scheme \<Rightarrow> (string \<times> data_type) list" where
  "output_types fs rq = map (\<lambda>f. (f_name f, f_type f)) (build_output_schema fs (rq_output_columns rq))"

definition scan_answers ::
    "externals \<Rightarrow> schema \<Rightarrow> 'a table_request_scheme \<Rightarrow> (row \<Rightarrow> bool) \<Rightarrow> row list \<Rightarrow> scanned_batch list \<Rightarrow> bool" where
  "scan_answers X fs rq picks data parts \<longleftrightarrow>
     list_all (\<lambda>p. shaped (output_types fs rq) (sb_batch p)) parts \<and>
     list_all (\<lambda>p. scanned_batch_ok p \<and> (sb_positions p \<noteq> None \<longleftrightarrow> rq_positions rq) \<and>
       length (sb_tags p) = length (rq_item_tags rq)) parts \<and>
     concat (map sb_view parts) = map (row_view rq data) (answer_rows X rq picks data) \<and>
     (\<forall>k < length (rq_item_tags rq). concat (map (\<lambda>p. sb_tags p ! k) parts) =
        map (\<lambda>r. Some (tag_matches X rq (rq_item_tags rq ! k) (data ! r))) (answer_rows X rq picks data))"

lemma scanned_filter_view:
  assumes B: "batch_kernels_ok B" and s: "scanned_batch_ok s" and m: "length m = b_num_rows (sb_batch s)"
  shows "\<exists>s'. scanned_filter B s m = Inr s' \<and> scanned_batch_ok s' \<and> sb_view s' = select m (sb_view s) \<and>
    sb_tags s' = map (select m) (sb_tags s) \<and> (sb_positions s' = None \<longleftrightarrow> sb_positions s = None)"
proof -
  from filter_batch_Inr [OF B m] obtain b' where b': "bk_filter B (sb_batch s) m = Inr b'" "batch_rows b' = select m (batch_rows (sb_batch s))" .
  have part: "part_ok (sb_batch s, sb_positions s)" using s by (simp add: scanned_batch_ok_def)
  note view = batch_view_select [OF part m b'(2)]
  have tags: "try_collect (\<lambda>tag. bk_filter_mask B tag m) (sb_tags s) = Inr (map (select m) (sb_tags s))"
    using B s m by (intro try_collect_total) (simp add: batch_kernels_ok_def scanned_batch_ok_def list_all_iff)
  have positions: "(case sb_positions s of None \<Rightarrow> Inr None | Some p \<Rightarrow> and_then (bk_filter_positions B p m) (\<lambda>p'. Inr (Some p'))) =
      (Inr (map_option (select m) (sb_positions s)) :: engine_error + nat list option)"
    using part m filter_positions_eq [OF B] by (auto simp: part_ok_def split: option.split)
  let ?s = "\<lparr>sb_batch = b', sb_positions = map_option (select m) (sb_positions s), sb_tags = map (select m) (sb_tags s)\<rparr>"
  have "scanned_filter B s m = Inr ?s" by (simp add: scanned_filter_def positions tags b'(1))
  moreover have "length (select m tag) = b_num_rows b'" if "tag \<in> set (sb_tags s)" for tag
  proof -
    have "length (select m tag) = length (select m (batch_rows (sb_batch s)))"
      using s that by (intro length_select_eq) (simp add: scanned_batch_ok_def list_all_iff)
    also have "\<dots> = b_num_rows b'" by (simp flip: b'(2))
    finally show ?thesis .
  qed
  ultimately show ?thesis using view by (intro exI [of _ ?s]) (simp add: scanned_batch_ok_def sb_view_def list_all_iff)
qed

lemma null_count_none:
  assumes "wf_array a" and "\<And>i. i < len a \<Longrightarrow> cell_at a i \<noteq> CNull"
  shows "null_count a = 0"
proof (cases "nulls_of a")
  case (Some v)
  have "length v = len a" using assms(1) Some by (cases a) (simp_all add: nulls_fit_def)
  moreover have "v ! i" if "i < len a" for i
    using assms(2) [OF that] Some by (cases a) (auto simp: valid_at_def split: if_splits)
  ultimately have "\<forall>x \<in> set v. x" by (auto simp: in_set_conv_nth)
  then show ?thesis by (simp add: null_count_def Some filter_empty_conv)
qed (simp add: null_count_def)

text \<open>Projecting to the output columns keeps every row, in those columns. Without any column there is no batch to make.\<close>

lemma project_batch_rows:
  assumes T: "table_kernels_ok T" and schema: "rows_of_schema fs data" and b: "shows_rows fs data names rs b"
    and names: "set columns \<inter> set (field_names fs) \<subseteq> set names"
    and some: "build_output_schema fs columns \<noteq> []"
  shows "\<exists>b'. project_batch T b (build_output_schema fs columns) = Inr b' \<and> b_num_rows b' = length rs \<and>
    batch_rows b' = map (\<lambda>r. only columns (data ! r)) rs"
proof -
  let ?out = "build_output_schema fs columns"
  have cols: "set columns \<inter> set (field_names fs) \<subseteq> set names" "set names \<subseteq> set (column_names b)"
    using names b by (simp_all add: shows_rows_def)
  define col where "col name = the (column_by_name b name)" for name
  have out: "f \<in> set ?out \<longleftrightarrow> (\<exists>name \<in> set columns. field_with_name fs name = Some f)" for f
    by (auto simp: build_output_schema_def in_map_filter)
  have col: "column_by_name b name = Some (col name)" if "name \<in> set names" for name
    using cols(2) that by (cases "column_by_name b name") (auto simp: col_def column_by_name_def column_names_def map_of_eq_None_iff)
  have named: "f_name f \<in> set names" "f \<in> set fs" "field_with_name fs (f_name f) = Some f" if "f \<in> set ?out" for f
  proof -
    from that out obtain name where name: "name \<in> set columns" "field_with_name fs name = Some f" by blast
    with field_with_name_Some [OF name(2)] field_with_name_in [of name fs] cols(1)
    show "f_name f \<in> set names" "f \<in> set fs" "field_with_name fs (f_name f) = Some f" by auto
  qed
  have ok: "batch_ok b" "b_num_rows b = length rs" and row: "\<And>i. i < length rs \<Longrightarrow> rs ! i < length data \<and> row_at b i = only names (data ! (rs ! i))"
    using b by (auto simp: shows_rows_def)
  have arrays: "map (\<lambda>f. unwrap_or (null_array (b_num_rows b)) (column_by_name b (f_name f))) ?out = map (\<lambda>f. col (f_name f)) ?out"
    using col named by (intro map_cong) (simp_all add: unwrap_or_def)
  have array: "wf_array (col (f_name f)) \<and> len (col (f_name f)) = length rs \<and> data_type_of (col (f_name f)) = f_type f \<and>
      (f_nullable f \<or> null_count (col (f_name f)) = 0)" if f: "f \<in> set ?out" for f
  proof -
    note c = col [OF named(1) [OF f]]
    have wf: "wf_array (col (f_name f))" "len (col (f_name f)) = length rs" using batch_column [OF ok(1) c] ok(2) by simp_all
    moreover from b c obtain f' where "field_with_name fs (f_name f) = Some f'" "data_type_of (col (f_name f)) = f_type f'"
      unfolding shows_rows_def by blast
    moreover have "null_count (col (f_name f)) = 0" if strict: "\<not> f_nullable f"
    proof (rule null_count_none [OF wf(1)])
      fix i assume "i < len (col (f_name f))"
      then have i: "i < length rs" using wf(2) by simp
      have "row_of_schema fs (data ! (rs ! i))" using schema row [OF i] by (simp add: rows_of_schema_def list_all_length)
      then obtain x where x: "(data ! (rs ! i)) (f_name f) = Some x" "typed_cell f x" using named(2) [OF f] by (auto simp: row_of_schema_def)
      moreover have "row_at b i (f_name f) = (data ! (rs ! i)) (f_name f)" using row [OF i] named(1) [OF f] by (simp add: only_def)
      ultimately show "cell_at (col (f_name f)) i \<noteq> CNull" using strict c by (auto simp: row_at_def typed_cell_def)
    qed
    ultimately show ?thesis using named(3) [OF f] by (metis option.inject)
  qed
  have "fields_fit ?out (map (\<lambda>f. col (f_name f)) ?out)"
    using array some by (auto simp: fields_fit_def hd_map list_all_length)
  moreover have "len (hd (map (\<lambda>f. col (f_name f)) ?out)) = length rs" using array some by (simp add: hd_map)
  ultimately have made: "project_batch T b ?out = Inr \<lparr>b_columns = zip (map f_name ?out) (map (\<lambda>f. col (f_name f)) ?out), b_num_rows = length rs\<rparr>"
    using T by (simp add: project_batch_def arrays table_kernels_ok_def)
  let ?b = "\<lparr>b_columns = zip (map f_name ?out) (map (\<lambda>f. col (f_name f)) ?out), b_num_rows = length rs\<rparr>"
  have by_name: "column_by_name ?b name = (if name \<in> f_name ` set ?out then Some (col name) else None)" for name
  proof -
    have "map_of (zip (map f_name xs) (map (\<lambda>f. col (f_name f)) xs)) name = (if name \<in> f_name ` set xs then Some (col name) else None)" for xs
      by (induction xs) auto
    from this [of ?out] show ?thesis unfolding column_by_name_def batch.select_convs .
  qed
  have names_out: "name \<in> f_name ` set ?out \<longleftrightarrow> name \<in> set columns \<and> name \<in> set (field_names fs)" for name
  proof
    assume "name \<in> f_name ` set ?out"
    then obtain f where f: "f \<in> set ?out" "name = f_name f" by blast
    then obtain n where "n \<in> set columns" "field_with_name fs n = Some f" using out by blast
    with f(2) field_with_name_Some [OF this(2)] field_with_name_in [of n fs] show "name \<in> set columns \<and> name \<in> set (field_names fs)" by auto
  next
    assume n: "name \<in> set columns \<and> name \<in> set (field_names fs)"
    then obtain f where f: "field_with_name fs name = Some f" using field_with_name_in [of name fs] by blast
    with n out have "f \<in> set ?out" by blast
    with field_with_name_Some [OF f] show "name \<in> f_name ` set ?out" by blast
  qed
  have "row_at ?b i = only columns (data ! (rs ! i))" if i: "i < length rs" for i
  proof
    fix name
    show "row_at ?b i name = only columns (data ! (rs ! i)) name"
    proof (cases "name \<in> set columns \<and> name \<in> set (field_names fs)")
      case True
      then have n: "name \<in> set names" using cols(1) by blast
      have "row_at b i name = (data ! (rs ! i)) name" using row [OF i] n by (simp add: only_def)
      with True n show ?thesis by (simp add: row_at_def by_name names_out only_def col)
    next
      case False
      have "row_of_schema fs (data ! (rs ! i))" using schema row [OF i] by (simp add: rows_of_schema_def list_all_length)
      then have "name \<notin> set (field_names fs) \<Longrightarrow> (data ! (rs ! i)) name = None" unfolding row_of_schema_def by blast
      with False show ?thesis by (auto simp: row_at_def by_name names_out only_def)
    qed
  qed
  then have "batch_rows ?b = map (\<lambda>r. only columns (data ! r)) rs"
    by (intro nth_equalityI) (simp_all add: batch_rows_def)
  with made show ?thesis by (intro exI [of _ ?b]) simp
qed

lemma project_batch_shaped:
  assumes T: "table_kernels_ok T" and b: "batch_ok b" and p: "project_batch T b out = Inr b'"
  shows "shaped (map (\<lambda>f. (f_name f, f_type f)) out) b'"
proof -
  define arrays where arrays: "arrays = map (\<lambda>f. unwrap_or (null_array (b_num_rows b)) (column_by_name b (f_name f))) out"
  from p T have fit: "fields_fit out arrays" and b': "b' = \<lparr>b_columns = zip (map f_name out) arrays, b_num_rows = len (hd arrays)\<rparr>"
    by (auto simp: project_batch_def table_kernels_ok_def arrays [symmetric] split: if_splits)
  have wf: "wf_array a" if "a \<in> set arrays" for a
    using that batch_column [OF b] by (auto simp: arrays unwrap_or_def null_array_def nulls_fit_def split: option.splits)
  have "wf_array a \<and> len a = len (hd arrays)" if "(name, a) \<in> set (zip (map f_name out) arrays)" for name a
    using set_zip_rightD [OF that] wf fit by (simp add: fields_fit_def)
  then have "batch_ok b'" by (auto simp: b' batch_ok_def list_all_iff)
  moreover have "column_types b' = map (\<lambda>f. (f_name f, f_type f)) out"
    using fit by (intro nth_equalityI) (auto simp: b' column_types_def fields_fit_def list_all_length)
  ultimately show ?thesis by (simp add: shaped_def)
qed

lemma select_filter: "select (map (\<lambda>r. Some (P r)) rs) (map f rs) = map f (filter P rs)"
  by (induction rs) simp_all

text \<open>The batches of a scan, collected: its rows, and for each of its tags the rows its items matched.\<close>

definition scanned_answers ::
    "externals \<Rightarrow> batch_kernels \<Rightarrow> schema \<Rightarrow> 'a table_request_scheme \<Rightarrow> (row \<Rightarrow> bool) \<Rightarrow> row list \<Rightarrow> scanned \<Rightarrow> bool" where
  "scanned_answers X B fs rq picks data sd \<longleftrightarrow> rows_ok (sd_rows sd) \<and>
     list_all (shaped (output_types fs rq)) (rs_batches (sd_rows sd)) \<and>
     rows_view (sd_rows sd) = map (row_view rq data) (answer_rows X rq picks data) \<and>
     (distinct (rq_item_tags rq) \<longrightarrow> (\<forall>items \<in> set (rq_item_tags rq).
        \<exists>bs. matched_by B sd items = Some (Inr bs) \<and> list_all (shaped (output_types fs rq)) bs \<and>
          concat (map batch_rows bs) = map (\<lambda>r. only (rq_output_columns rq) (data ! r))
            (filter (\<lambda>r. tag_matches X rq items (data ! r)) (answer_rows X rq picks data))))"

lemma collected_answers:
  assumes B: "batch_kernels_ok B" and parts: "scan_answers X fs rq picks data parts"
  shows "\<exists>sd. scanned_collect rq parts = Inr sd \<and> scanned_answers X B fs rq picks data sd"
proof -
  let ?n = "length (rq_item_tags rq)"
  have ok: "list_all (\<lambda>p. scanned_batch_ok p \<and> (sb_positions p \<noteq> None \<longleftrightarrow> rq_positions rq) \<and> length (sb_tags p) = ?n) parts"
    and shape: "list_all (\<lambda>p. shaped (output_types fs rq) (sb_batch p)) parts"
    and view: "concat (map sb_view parts) = map (row_view rq data) (answer_rows X rq picks data)"
    and tags: "\<And>k. k < ?n \<Longrightarrow> concat (map (\<lambda>p. sb_tags p ! k) parts) =
      map (\<lambda>r. Some (tag_matches X rq (rq_item_tags rq ! k) (data ! r))) (answer_rows X rq picks data)"
    using parts by (simp_all add: scan_answers_def)
  from scanned_collect_Inr [OF ok] obtain ts where
    sd: "scanned_collect rq parts = Inr \<lparr>sd_rows = rows_of_parts (rq_positions rq) parts, sd_tags = zip (rq_item_tags rq) ts\<rparr>"
    and ts: "length ts = ?n" "\<forall>k < length ts. ts ! k = map (\<lambda>p. sb_tags p ! k) parts" by blast
  let ?sd = "\<lparr>sd_rows = rows_of_parts (rq_positions rq) parts, sd_tags = zip (rq_item_tags rq) ts\<rparr>"
  have rows: "rows_ok (sd_rows ?sd)" "rows_view (sd_rows ?sd) = concat (map sb_view parts)"
    using rows_of_parts_ok [of "rq_positions rq" parts] ok by (auto simp: list_all_iff)
  have "map batch_rows (map sb_batch parts) = map (\<lambda>p. map fst (sb_view p)) parts"
    using ok batch_rows_view by (simp add: list_all_iff)
  then have cells: "concat (map batch_rows (map sb_batch parts)) = map (\<lambda>r. only (rq_output_columns rq) (data ! r)) (answer_rows X rq picks data)"
    using arg_cong [OF view, of "map fst"] by (simp only:) (simp add: map_concat comp_def row_view_def)
  have shapes: "list_all (shaped (output_types fs rq)) (rs_batches (sd_rows ?sd))"
    using shape by (simp add: rows_of_parts_def list_all_iff)
  have "\<exists>bs. matched_by B ?sd items = Some (Inr bs) \<and> list_all (shaped (output_types fs rq)) bs \<and>
      concat (map batch_rows bs) = map (\<lambda>r. only (rq_output_columns rq) (data ! r))
        (filter (\<lambda>r. tag_matches X rq items (data ! r)) (answer_rows X rq picks data))"
    if d: "distinct (rq_item_tags rq)" and items: "items \<in> set (rq_item_tags rq)" for items
  proof -
    from items obtain k where k: "k < ?n" "rq_item_tags rq ! k = items" by (auto simp: in_set_conv_nth)
    have found: "find (\<lambda>(tag, _). tag = items) (zip (rq_item_tags rq) ts) = Some (items, ts ! k)"
      using d ts(1) k by (auto simp: find_Some_iff nth_eq_iff_index_eq intro!: exI [of _ k])
    have aligned: "masks_aligned (sd_rows ?sd) (ts ! k)"
      using ts k ok by (auto simp: masks_aligned_def rows_of_parts_def list_all_length scanned_batch_ok_def)
    from found aligned obtain bs where bs: "matched_by B ?sd items = Some (Inr bs)"
      "concat (map batch_rows bs) = select (concat (ts ! k)) (concat (map batch_rows (map sb_batch parts)))"
      using matched_by_rows [OF B, of ?sd "ts ! k" items] by (auto simp: rows_of_parts_def)
    have "concat (ts ! k) = map (\<lambda>r. Some (tag_matches X rq items (data ! r))) (answer_rows X rq picks data)"
      using ts k tags by simp
    then have "concat (map batch_rows bs) = map (\<lambda>r. only (rq_output_columns rq) (data ! r))
        (filter (\<lambda>r. tag_matches X rq items (data ! r)) (answer_rows X rq picks data))"
      by (simp only: bs(2) cells select_filter)
    moreover have "list_all (shaped (output_types fs rq)) bs"
      by (rule shaped_matched [OF B aligned _ shapes bs(1)]) (simp add: found)
    ultimately show ?thesis using bs(1) by blast
  qed
  with sd rows view shapes show ?thesis by (auto simp: scanned_answers_def)
qed

end
