(* ===== verification/Relation_Rows.thy ===== *)
theory Relation_Rows
  imports Scan_Request
begin

text \<open>
  A relation's filters as filters of a scan. A key is read from the cells of a row, so that which rows have
  a partner, or a relative, among the sources is said of the rows of a table and not of a batch of them. The
  filters built from the sources (\<^verbatim>\<open>src/scan/keys.rs\<close>, \<^verbatim>\<open>src/scan/addresses.rs\<close>) are shown to be instances
  of \<open>row_filter\<close> that pick exactly these.
\<close>

section \<open>Keys of rows\<close>

fun int_cell :: "cell \<Rightarrow> int option" where
  "int_cell (CInt t v) = Some v"
| "int_cell _ = None"

fun cell_key :: "cell \<Rightarrow> key_value option" where
  "cell_key (CInt t v) = Some (VInt (stored_key v))"
| "cell_key (CText s) = Some (VText s)"
| "cell_key (CBool b) = Some (VBool b)"
| "cell_key (CBytes (FixedSizeBinary w) bs) = Some (VBytes bs)"
| "cell_key (CList cs) = map_option (\<lambda>vs. VPath (map stored_key vs)) (those (map int_cell cs))"
| "cell_key _ = None"

definition row_key :: "row \<Rightarrow> string list \<Rightarrow> key_value list option" where
  "row_key row names = those (map (\<lambda>name. Option.bind (row name) cell_key) names)"

definition row_path :: "row \<Rightarrow> string \<Rightarrow> u64 list option" where
  "row_path row name = (case Option.bind (row name) cell_key of Some (VPath p) \<Rightarrow> Some p | _ \<Rightarrow> None)"

text \<open>A path holds no null: the code reads the slot behind one, which no reader promises.\<close>

definition solid_row :: "string list \<Rightarrow> row \<Rightarrow> bool" where
  "solid_row names row \<longleftrightarrow> (\<forall>name \<in> set names. \<forall>cs. row name = Some (CList cs) \<longrightarrow> CNull \<notin> set cs)"

definition solid :: "string list \<Rightarrow> batch \<Rightarrow> bool" where
  "solid names b \<longleftrightarrow> (\<forall>i < b_num_rows b. solid_row names (row_at b i))"

lemma those_int_cells:
  assumes "\<forall>j \<in> set js. valid_at n j"
  shows "those (map int_cell (map (cell_at (AInt t vs n)) js)) = Some (map (\<lambda>j. vs ! j) js)"
  using assms by (induction js) simp_all

lemma cell_key_value:
  assumes "key_kind_of a = Some k" and "\<And>cs. cell_at a i = CList cs \<Longrightarrow> CNull \<notin> set cs"
  shows "cell_key (cell_at a i) = key_value_at a i"
proof (cases "\<exists>os e n. a = AList False os e n \<and> valid_at n i")
  case True
  then obtain os e n where a: "a = AList False os e n" "valid_at n i" by blast
  with assms(1) obtain t vs m where e: "e = AInt t vs m" by (cases e) auto
  have "CNull \<notin> set (map (cell_at e) [os ! i..<os ! Suc i])" using assms(2) by (simp add: a)
  then have "valid_at m j" if "j \<in> set [os ! i..<os ! Suc i]" for j
    using that by (auto simp: e image_iff split: if_splits)
  then have "those (map int_cell (map (cell_at e) [os ! i..<os ! Suc i])) = Some (map (\<lambda>j. vs ! j) [os ! i..<os ! Suc i])"
    unfolding e by (intro those_int_cells) blast
  then show ?thesis by (simp add: a e key_value_at_def is_null_def comp_def)
next
  case False
  with assms(1) show ?thesis
    by (cases a rule: key_kind_of.cases) (auto simp: key_value_at_def is_null_def)
qed

lemma row_value_of:
  assumes "Option.bind (column_by_name b name) key_kind_of \<noteq> None" and "solid names b" and "name \<in> set names"
    and "i < b_num_rows b"
  shows "Option.bind (row_at b i name) cell_key = Option.bind (column_by_name b name) (\<lambda>a. key_value_at a i)"
proof -
  from assms(1) obtain a k where a: "column_by_name b name = Some a" "key_kind_of a = Some k"
    by (auto simp: bind_eq_Some_conv)
  have s: "CNull \<notin> set cs" if "cell_at a i = CList cs" for cs
    using assms(2-4) a(1) that by (auto simp: solid_def solid_row_def row_at_def)
  show ?thesis using cell_key_value [OF a(2) s] by (simp add: row_at_def a)
qed

lemma row_key_of:
  assumes "joinable kinds names b" and "solid names b" and "i < b_num_rows b"
  shows "row_key (row_at b i) names = key_of b names i"
proof -
  note k = key_kinds_at [OF assms(1)]
  have "Option.bind (column_by_name b name) key_kind_of \<noteq> None" if "name \<in> set names" for name
    using arg_cong [OF k, of set] that by force
  then show ?thesis using row_value_of [OF _ assms(2) _ assms(3)]
    unfolding row_key_def key_of_def by (simp cong: map_cong)
qed

lemma row_key_only: "set names \<subseteq> set columns \<Longrightarrow> row_key (only columns row) names = row_key row names"
  unfolding row_key_def by (rule arg_cong [of _ _ those]) (auto simp: only_def)


section \<open>Keys\<close>

text \<open>A row whose key some row of the sources holds.\<close>

definition row_partner :: "batch list \<Rightarrow> string list \<Rightarrow> string list \<Rightarrow> row \<Rightarrow> bool" where
  "row_partner sources left right row =
     (case row_key row right of
        None \<Rightarrow> False
      | Some vs \<Rightarrow> list_ex (\<lambda>s. list_ex (\<lambda>j. key_of s left j = Some vs) [0..<b_num_rows s]) sources)"

definition keys_ok :: "key_kind list \<Rightarrow> batch list \<Rightarrow> string list \<Rightarrow> string list \<Rightarrow> bool" where
  "keys_ok kinds sources left right \<longleftrightarrow>
     list_all (joinable kinds left) sources \<and> list_all scan_key kinds \<and> length left = length right \<and> small_paths sources left"

lemma row_partner_of:
  assumes "joinable kinds right b" and "solid right b" and "i < b_num_rows b"
  shows "row_partner sources left right (row_at b i) = has_partner sources left b right i"
  by (simp add: row_partner_def has_partner_def row_key_of [OF assms])

interpretation joined: row_filter
  "\<lambda>b c. and_then (key_filter_build sources left right bn target_bn) (\<lambda>f. key_filter_mask R f b c)"
  "row_partner sources left right" right
  "\<lambda>b. keys_ok kinds sources left right \<and> joinable kinds right b \<and> solid right b"
proof unfold_locales
  fix b :: batch and candidates :: "bool list option"
  assume b: "keys_ok kinds sources left right \<and> joinable kinds right b \<and> solid right b"
  then have l: "length right = length kinds" using map_eq_imp_length_eq [OF key_kinds_at [of kinds right b]] by simp
  have *: "list_all scan_key kinds" "small_paths sources left" "joinable kinds right b" "solid right b" "length left = length kinds"
    "\<forall>s \<in> set sources. joinable kinds left s"
    using b l by (simp_all add: keys_ok_def list_all_iff)
  from key_set_holds(1, 4) [OF *(6, 1, 2, 3, 5) l] row_partner_of [OF *(3, 4)]
  show "\<exists>m. and_then (key_filter_build sources left right bn target_bn) (\<lambda>f. key_filter_mask R f b candidates) = Inr m \<and>
      length m = b_num_rows b \<and>
      (\<forall>i < b_num_rows b. asked candidates i \<longrightarrow> (m ! i = Some True \<longleftrightarrow> row_partner sources left right (row_at b i)))"
    by (simp add: key_filter_build_def key_set_filter_def key_filter_mask_def selected_mask_def *(5) l)
qed (simp add: row_partner_def row_key_only)

text \<open>A row with a partner is in the partner's block.\<close>

lemma partner_block:
  assumes keys: "keys_ok kinds sources (bn # left) (target_bn # right)" and zero: "list_all (blocks_from_zero bn) sources"
    and row: "row target_bn = Some (CInt t v)" "0 \<le> v" "in_range t v"
    and partner: "row_partner sources (bn # left) (target_bn # right) row"
  shows "\<exists>s \<in> set sources. \<exists>j < b_num_rows s. key_of s (bn # left) j \<noteq> None \<and> block_at s bn j = Some (unsigned_bits t v)"
proof -
  from partner obtain vs s j where vs: "row_key row (target_bn # right) = Some vs" "s \<in> set sources" "j < b_num_rows s"
    "key_of s (bn # left) j = Some vs"
    by (auto simp: row_partner_def list_ex_iff split: option.splits)
  have j: "joinable kinds (bn # left) s" using keys vs(2) by (simp add: keys_ok_def list_all_iff)
  from zero vs(2) have "blocks_from_zero bn s" by (simp add: list_all_iff)
  from leading_block [OF j this vs(3, 4)] obtain w ws where w: "vs = VInt w # ws" "block_at s bn j = Some (unat w)" by blast
  from vs(1) w(1) row(1) have "w = stored_key v" by (auto simp: row_key_def those_Some Cons_eq_map_conv)
  moreover have bounds: "v < 2 ^ bits_of t" "bits_of t \<le> 64" using row(2, 3) by (cases t; simp add: in_range_def)+
  then have "v < 2 ^ 64" by (meson less_le_trans one_le_numeral power_increasing)
  moreover from bounds have "unsigned_bits t v = nat v" using row(2) by (simp add: unsigned_bits_def)
  ultimately have "unat w = unsigned_bits t v"
    using row(2) by (simp add: unat_eq_nat_uint uint_stored_key take_bit_int_eq_self)
  with vs(2-4) w(2) show ?thesis by auto
qed

text \<open>So a span of blocks without any of the filter's blocks holds no such row.\<close>

lemma partner_block_within:
  assumes keys: "keys_ok kinds sources (bn # left) (target_bn # right)"
    and f: "key_filter_build sources (bn # left) (target_bn # right) bn target_bn = Inr f"
    and zero: "list_all (blocks_from_zero bn) sources" and row: "row target_bn = Some (CInt t v)" "0 \<le> v" "in_range t v"
    and partner: "row_partner sources (bn # left) (target_bn # right) row"
    and span: "lo \<le> unsigned_bits t v" "unsigned_bits t v \<le> hi"
  shows "has_block_within f lo hi"
proof -
  from partner_block [OF keys zero row partner] obtain s j where s: "s \<in> set sources" "j < b_num_rows s"
    "key_of s (bn # left) j \<noteq> None" "block_at s bn j = Some (unsigned_bits t v)" by blast
  have js: "\<forall>s \<in> set sources. joinable kinds (bn # left) s" and scan: "list_all scan_key kinds" "small_paths sources (bn # left)"
    using keys by (simp_all add: keys_ok_def list_all_iff)
  have j: "joinable kinds (bn # left) s" using js s(1) by blast
  have l: "length (bn # left) = length kinds" using map_eq_imp_length_eq [OF key_kinds_at [OF j]] by simp
  note ks = key_set_holds(2, 3) [OF js scan j l l, where bn = bn]
  from f have blocks: "kf_sorted_blocks f = ks_sorted_blocks (key_set_build sources (bn # left) bn)"
    by (auto simp: key_filter_build_def key_set_filter_def and_then_Inr_iff)
  have "unsigned_bits t v \<in> set (kf_sorted_blocks f)" using ks(1) s unfolding has_blocks_def blocks by blast
  then show ?thesis using has_block_within_iff [of f lo hi] ks(2) span by (auto simp: blocks)
qed


section \<open>Tables a relation can follow\<close>

fun kind_of_type :: "data_type \<Rightarrow> key_kind option" where
  "kind_of_type (DInt _) = Some IntKey"
| "kind_of_type (DText _) = Some TextKey"
| "kind_of_type DBoolean = Some BoolKey"
| "kind_of_type (DBytes (FixedSizeBinary w)) = Some (BytesKey w)"
| "kind_of_type (DList False (DInt _)) = Some PathKey"
| "kind_of_type _ = None"

lemma kind_of_type: "kind_of_type (data_type_of a) = key_kind_of a"
proof (cases a)
  case (AList large os e n)
  then show ?thesis by (cases large; cases e) simp_all
next
  case (ABytes t vs n)
  then show ?thesis by (cases t) simp_all
qed simp_all

text \<open>The key columns are of some kinds, hold no text or path too long to write, and no path with a null.\<close>

definition keyed_table :: "key_kind list \<Rightarrow> string list \<Rightarrow> schema \<Rightarrow> row list \<Rightarrow> bool" where
  "keyed_table kinds names fs data \<longleftrightarrow>
     map (\<lambda>name. Option.bind (field_with_name fs name) (\<lambda>f. kind_of_type (f_type f))) names = map Some kinds \<and>
     (\<forall>row \<in> set data. solid_row names row \<and> (\<forall>vs. row_key row names = Some vs \<longrightarrow> list_all value_fits vs))"

lemma shown_keys:
  assumes t: "keyed_table kinds names fs data" and b: "shows_rows fs data shown rs b" and n: "set names \<subseteq> set shown"
    and cols: "\<And>name. name \<in> set names \<Longrightarrow> column_by_name b name \<noteq> None"
  shows "joinable kinds names b \<and> solid names b"
proof -
  have row: "rs ! i < length data" "row_at b i = only shown (data ! (rs ! i))" "data ! (rs ! i) \<in> set data" if "i < b_num_rows b" for i
    using b that by (auto simp: shows_rows_def)
  have solid: "solid names b"
    unfolding solid_def
  proof (intro allI impI)
    fix i assume i: "i < b_num_rows b"
    have "solid_row names (data ! (rs ! i))" using t row(3) [OF i] by (simp add: keyed_table_def)
    then show "solid_row names (row_at b i)" using n by (auto simp: row(2) [OF i] solid_row_def only_def)
  qed
  have "Option.bind (column_by_name b name) key_kind_of = Option.bind (field_with_name fs name) (\<lambda>f. kind_of_type (f_type f))"
    if name: "name \<in> set names" for name
  proof -
    from cols [OF name] obtain a where a: "column_by_name b name = Some a" by blast
    with b obtain f where "field_with_name fs name = Some f" "data_type_of a = f_type f" unfolding shows_rows_def by blast
    with a kind_of_type [of a] show ?thesis by simp
  qed
  then have keyed: "keyed kinds names b" using t unfolding keyed_table_def keyed_def by (metis (mono_tags, lifting) map_eq_conv)
  have "list_all value_fits vs" if i: "i < b_num_rows b" and vs: "key_of b names i = Some vs" for i vs
  proof -
    have "row_key (row_at b i) names = key_of b names i"
      unfolding row_key_def key_of_def
    proof (rule arg_cong [of _ _ those], rule map_cong [OF refl])
      fix name assume name: "name \<in> set names"
      have "Option.bind (column_by_name b name) key_kind_of \<noteq> None"
        using arg_cong [OF keyed [unfolded keyed_def], of set] name by force
      from row_value_of [OF this solid name i]
      show "Option.bind (row_at b i name) cell_key = Option.bind (column_by_name b name) (\<lambda>a. key_value_at a i)" .
    qed
    moreover have "row_key (row_at b i) names = row_key (data ! (rs ! i)) names" using n by (simp add: row(2) [OF i] row_key_only)
    ultimately show ?thesis using t row(3) [OF i] vs by (simp add: keyed_table_def)
  qed
  with keyed solid b show ?thesis by (simp add: joinable_def shows_rows_def)
qed

section \<open>Addresses\<close>

text \<open>A row with a relative among the sources of its group.\<close>

definition row_relative ::
    "(u64 list \<Rightarrow> u64 list \<Rightarrow> bool) \<Rightarrow> batch list \<Rightarrow> string \<Rightarrow> string list \<Rightarrow> string \<Rightarrow> row \<Rightarrow> bool" where
  "row_relative related sources source_column grouping target_column row =
     (case (row_key row grouping, row_path row target_column) of
        (Some g, Some p) \<Rightarrow>
          list_ex (\<lambda>s. list_ex (\<lambda>j. key_of s grouping j = Some g \<and>
              (case path_of s source_column j of None \<Rightarrow> False | Some q \<Rightarrow> related q p)) [0..<b_num_rows s]) sources
      | _ \<Rightarrow> False)"

definition mode_relation :: "hierarchical_mode \<Rightarrow> bool \<Rightarrow> u64 list \<Rightarrow> u64 list \<Rightarrow> bool" where
  "mode_relation mode inclusive = (case mode of Children \<Rightarrow> child_path inclusive | Parents \<Rightarrow> parent_path inclusive)"

definition addresses_ok :: "key_kind list \<Rightarrow> batch list \<Rightarrow> string \<Rightarrow> string list \<Rightarrow> bool" where
  "addresses_ok kinds sources source_column grouping \<longleftrightarrow>
     list_all scan_key kinds \<and> list_all (path_batch kinds grouping source_column) sources \<and> small_sources sources source_column"

interpretation related: row_filter
  "\<lambda>b c. Inr (hierarchical_mask (hierarchical_filter_build sources grouping source_column target_column mode inclusive) b c)"
  "row_relative (mode_relation mode inclusive) sources source_column grouping target_column"
  "grouping @ [target_column]"
  "\<lambda>b. addresses_ok kinds sources source_column grouping \<and> path_batch kinds grouping target_column b \<and>
     solid (grouping @ [target_column]) b"
proof unfold_locales
  fix b :: batch and candidates :: "bool list option"
  assume b: "addresses_ok kinds sources source_column grouping \<and> path_batch kinds grouping target_column b \<and>
    solid (grouping @ [target_column]) b"
  then have ok: "list_all scan_key kinds" "list_all (path_batch kinds grouping source_column) sources"
    "path_batch kinds grouping target_column b" "small_sources sources source_column" by (simp_all add: addresses_ok_def)
  have j: "joinable kinds grouping b" using ok(3) by (simp add: path_batch_def)
  obtain os e n where c: "column_by_name b target_column = Some (AList False os e n)" "key_kind_of (AList False os e n) = Some PathKey"
    using ok(3) by (auto simp: path_batch_def split: option.splits array.splits bool.splits)
  have g: "solid grouping b" and s: "solid (grouping @ [target_column]) b" using b by (auto simp: solid_def solid_row_def)
  have "Option.bind (row_at b i target_column) cell_key = Option.bind (column_by_name b target_column) (\<lambda>a. key_value_at a i)"
    if "i < b_num_rows b" for i
    using row_value_of [of b target_column "grouping @ [target_column]" i] s c that by simp
  then have "row_path (row_at b i) target_column = path_of b target_column i" if "i < b_num_rows b" for i
    using that by (simp add: row_path_def path_of_def)
  with row_key_of [OF j g]
  have "relative_of related sources source_column grouping b target_column i =
      row_relative related sources source_column grouping target_column (row_at b i)" if "i < b_num_rows b" for i related
    using that by (simp add: relative_of_def row_relative_def)
  with hierarchical_mask_rows [OF ok, where mode = mode and inclusive = inclusive and candidates = candidates]
  show "\<exists>m. Inr (hierarchical_mask (hierarchical_filter_build sources grouping source_column target_column mode inclusive) b candidates) = Inr m \<and>
      length m = b_num_rows b \<and> (\<forall>i < b_num_rows b. asked candidates i \<longrightarrow>
        (m ! i = Some True \<longleftrightarrow> row_relative (mode_relation mode inclusive) sources source_column grouping target_column (row_at b i)))"
    by (simp add: asked_def mode_relation_def split: option.split)
next
  show "row_relative (mode_relation mode inclusive) sources source_column grouping target_column (only names row) =
      row_relative (mode_relation mode inclusive) sources source_column grouping target_column row"
    if "set (grouping @ [target_column]) \<subseteq> set names" for names row
  proof -
    have "row_key (only names row) grouping = row_key row grouping" "row_path (only names row) target_column = row_path row target_column"
      using that by (simp_all add: row_key_only) (simp add: row_path_def only_def)
    then show ?thesis by (simp add: row_relative_def)
  qed
qed

section \<open>The relations of a request\<close>

lemma row_filter_wider:
  assumes f: "row_filter m picks columns readable" and c: "set columns \<subseteq> set columns'" and m: "\<And>b c. readable b \<Longrightarrow> m' b c = m b c"
  shows "row_filter m' picks columns' readable"
proof
  show "\<exists>x. m' b candidates = Inr x \<and> length x = b_num_rows b \<and>
      (\<forall>i < b_num_rows b. asked candidates i \<longrightarrow> (x ! i = Some True \<longleftrightarrow> picks (row_at b i)))"
    if "readable b" "\<And>c. candidates = Some c \<Longrightarrow> length c = b_num_rows b" for b candidates
    using row_filter.mask_rows [OF f that] m [OF that(1)] by simp
  show "picks (only names row) = picks row" if "set columns' \<subseteq> set names" for names row
    using row_filter.picks_only [OF f order_trans [OF c that]] .
qed

text \<open>The blocks of the sources lie inside the request's, as one pass over the chunk has them.\<close>

definition sources_within :: "batch list \<Rightarrow> string \<Rightarrow> 'a table_request_scheme \<Rightarrow> string \<Rightarrow> bool" where
  "sources_within sources bn rq target_bn \<longleftrightarrow>
     rq_block_number_column rq = None \<or>
     rq_block_number_column rq = Some target_bn \<and>
       (\<forall>s \<in> set sources. \<forall>j < b_num_rows s. \<forall>n. block_at s bn j = Some n \<longrightarrow> within_bounds (rq_from_block rq) (rq_to_block rq) n)"

text \<open>A row with a partner has its block.\<close>

lemma partner_has_block:
  assumes keys: "keys_ok kinds sources (bn # left) (target_bn # right)" and zero: "list_all (blocks_from_zero bn) sources"
    and schema: "rows_of_schema fs data" and keyed: "keyed_table kinds (target_bn # right) fs data"
    and nonneg: "\<forall>row \<in> set data. \<forall>t v. row target_bn = Some (CInt t v) \<longrightarrow> 0 \<le> v"
    and r: "row \<in> set data" and p: "row_partner sources (bn # left) (target_bn # right) row"
  shows "\<exists>t v. row target_bn = Some (CInt t v) \<and> 0 \<le> v \<and> in_range t v"
proof -
  from p obtain vs s where vs: "row_key row (target_bn # right) = Some vs" "s \<in> set sources"
    by (auto simp: row_partner_def list_ex_iff split: option.splits)
  have "blocks_from_zero bn s" "joinable kinds (bn # left) s" using zero keys vs(2) by (simp_all add: list_all_iff keys_ok_def)
  then have k: "hd kinds = IntKey" "kinds \<noteq> []"
    using key_kinds_at [of kinds "bn # left" s] by (auto simp: blocks_from_zero_def Cons_eq_map_conv)
  have "map (\<lambda>name. Option.bind (field_with_name fs name) (\<lambda>f. kind_of_type (f_type f))) (target_bn # right) = map Some kinds"
    using keyed by (simp add: keyed_table_def)
  with k obtain fd where fd: "field_with_name fs target_bn = Some fd" "kind_of_type (f_type fd) = Some IntKey"
    by (cases kinds) (auto simp: bind_eq_Some_conv)
  then obtain t where t: "f_type fd = DInt t" by (cases "f_type fd" rule: kind_of_type.cases) simp_all
  have "row_of_schema fs row" using schema r by (simp add: rows_of_schema_def list_all_iff)
  with field_with_name_Some [OF fd(1)] obtain c where c: "row target_bn = Some c" "typed_cell fd c" by (auto simp: row_of_schema_def)
  have "cell_key c \<noteq> None"
  proof
    assume "cell_key c = None"
    with vs(1) c(1) show False by (simp add: row_key_def)
  qed
  with c(2) t obtain v where v: "c = CInt t v" "in_range t v" by (auto simp: typed_cell_def)
  with nonneg r c(1) show ?thesis by auto
qed

lemma key_relation_picks:
  assumes keys: "keys_ok kinds sources (bn # left) (target_bn # right)"
    and f: "key_filter_build sources (bn # left) (target_bn # right) bn target_bn = Inr f"
    and zero: "list_all (blocks_from_zero bn) sources" and schema: "rows_of_schema fs data"
    and keyed: "keyed_table kinds (target_bn # right) fs data"
    and nonneg: "\<forall>row \<in> set data. \<forall>t v. row target_bn = Some (CInt t v) \<longrightarrow> 0 \<le> v"
    and rq: "rq_key_filter rq = Some f" "rq_hierarchical_filter rq = None" and within: "sources_within sources bn rq target_bn"
  shows "relation_picks R fs data rq (row_partner sources (bn # left) (target_bn # right))
    (\<lambda>b. keys_ok kinds sources (bn # left) (target_bn # right) \<and> joinable kinds (target_bn # right) b \<and> solid (target_bn # right) b)"
proof -
  have fields: "kf_columns f = target_bn # right" "kf_block_number_column f = target_bn" "kf_materialization f = False"
    using f by (auto simp: key_filter_build_def key_set_filter_def and_then_Inr_iff)
  have rel: "rf_relation (row_filters_of rq) = KeyRelation f" using rq by (simp add: row_filters_of_def Let_def)
  have cols: "filter_columns rq = target_bn # target_bn # right" using rq fields by (simp add: filter_columns_def)
  have "row_filter (relation_mask R (KeyRelation f)) (row_partner sources (bn # left) (target_bn # right)) (target_bn # target_bn # right)
      (\<lambda>b. keys_ok kinds sources (bn # left) (target_bn # right) \<and> joinable kinds (target_bn # right) b \<and> solid (target_bn # right) b)"
    by (rule row_filter_wider [OF joined.row_filter_axioms [of sources "bn # left" "target_bn # right" bn target_bn R kinds]]) (simp_all add: f)
  moreover have "keys_ok kinds sources (bn # left) (target_bn # right) \<and> joinable kinds (target_bn # right) b \<and> solid (target_bn # right) b"
    if b: "set (target_bn # target_bn # right) \<subseteq> set names" "shows_rows fs data names rs b" for names rs b
  proof -
    have "column_by_name b name \<noteq> None" if "name \<in> set (target_bn # right)" for name
      using b that by (auto simp: shows_rows_def column_by_name_def column_names_def map_of_eq_None_iff)
    with shown_keys [OF keyed b(2)] b(1) keys show ?thesis by auto
  qed
  moreover have row: "\<exists>t v. row target_bn = Some (CInt t v) \<and> 0 \<le> v \<and> in_range t v"
    if r: "row \<in> set data" and p: "row_partner sources (bn # left) (target_bn # right) row" for row
    by (rule partner_has_block [OF keys zero schema keyed nonneg r p])
  moreover have "in_request_blocks rq row" if r: "row \<in> set data" and p: "row_partner sources (bn # left) (target_bn # right) row" for row
  proof (cases "rq_block_number_column rq")
    case None
    then show ?thesis by (simp add: in_request_blocks_def)
  next
    case (Some name)
    from row [OF r p] obtain t v where v: "row target_bn = Some (CInt t v)" "0 \<le> v" "in_range t v" by blast
    from partner_block [OF keys zero v p] obtain s j where "s \<in> set sources" "j < b_num_rows s" "block_at s bn j = Some (unsigned_bits t v)" by blast
    with within Some v(1) show ?thesis by (auto simp: sources_within_def in_request_blocks_def in_blocks_def)
  qed
  moreover have "\<exists>t v. row target_bn = Some (CInt t v) \<and>
      (\<forall>lo hi. lo \<le> unsigned_bits t v \<and> unsigned_bits t v \<le> hi \<longrightarrow> has_block_within f lo hi)"
    if r: "row \<in> set data" and p: "row_partner sources (bn # left) (target_bn # right) row" for row
  proof -
    from row [OF r p] obtain t v where v: "row target_bn = Some (CInt t v)" "0 \<le> v" "in_range t v" by blast
    with partner_block_within [OF keys f zero v p] show ?thesis by blast
  qed
  ultimately show ?thesis unfolding relation_picks_def rel cols rq relation.case option.case fields by blast
qed

lemma address_relation_picks:
  assumes a: "addresses_ok kinds sources source_column grouping"
    and rq: "rq_hierarchical_filter rq = Some (hierarchical_filter_build sources grouping source_column target_column mode inclusive)"
      "rq_key_filter rq = None"
    and keyed: "keyed_table kinds grouping fs data" "keyed_table [PathKey] [target_column] fs data"
  shows "relation_picks R fs data rq (row_relative (mode_relation mode inclusive) sources source_column grouping target_column)
    (\<lambda>b. addresses_ok kinds sources source_column grouping \<and> path_batch kinds grouping target_column b \<and> solid (grouping @ [target_column]) b)"
proof -
  let ?f = "hierarchical_filter_build sources grouping source_column target_column mode inclusive"
  have fields: "hf_group_key_columns ?f = grouping" "hf_address_column ?f = target_column"
    by (simp_all add: hierarchical_filter_build_def address_filter_def address_index_build_def)
  have rel: "rf_relation (row_filters_of rq) = AddressRelation ?f" using rq by (simp add: row_filters_of_def Let_def)
  have cols: "filter_columns rq = grouping @ [target_column]" using rq fields by (simp add: filter_columns_def)
  have "row_filter (relation_mask R (AddressRelation ?f)) (row_relative (mode_relation mode inclusive) sources source_column grouping target_column)
      (grouping @ [target_column])
      (\<lambda>b. addresses_ok kinds sources source_column grouping \<and> path_batch kinds grouping target_column b \<and> solid (grouping @ [target_column]) b)"
    by (rule row_filter_wider [OF related.row_filter_axioms [of sources grouping source_column target_column mode inclusive kinds]]) simp_all
  moreover have "path_batch kinds grouping target_column b \<and> solid (grouping @ [target_column]) b"
    if b: "set (grouping @ [target_column]) \<subseteq> set names" "shows_rows fs data names rs b" for names rs b
  proof -
    have cols: "column_by_name b name \<noteq> None" if "name \<in> set (grouping @ [target_column])" for name
      using b that by (auto simp: shows_rows_def column_by_name_def column_names_def map_of_eq_None_iff)
    have g: "joinable kinds grouping b \<and> solid grouping b" using b(1) cols by (intro shown_keys [OF keyed(1) b(2)]) auto
    have p: "joinable [PathKey] [target_column] b \<and> solid [target_column] b" using b(1) cols by (intro shown_keys [OF keyed(2) b(2)]) auto
    then obtain a where a: "column_by_name b target_column = Some a" "key_kind_of a = Some PathKey"
      using key_kinds_at [of "[PathKey]" "[target_column]" b] by (auto simp: bind_eq_Some_conv)
    have "solid (grouping @ [target_column]) b" using g p by (auto simp: solid_def solid_row_def)
    with g a show ?thesis by (cases a rule: key_kind_of.cases) (simp_all add: path_batch_def)
  qed
  ultimately show ?thesis unfolding relation_picks_def rel cols rq relation.case option.case using a by blast
qed

text \<open>
  Addresses with the keys of their groups beside them: the addresses decide, and the keys, which a relative's
  group meets, only say which blocks hold one.
\<close>

lemma relative_partner:
  "row_relative r sources source_column grouping target_column row \<Longrightarrow> row_partner sources grouping grouping row"
  by (auto simp: row_relative_def row_partner_def list_ex_iff split: option.splits)

lemma grouped_relation_picks:
  assumes a: "addresses_ok kinds sources source_column (bn # grouping)"
    and rq: "rq_hierarchical_filter rq = Some (hierarchical_filter_build sources (bn # grouping) source_column target_column mode inclusive)"
      "rq_key_filter rq = Some f" and f: "key_filter_build sources (bn # grouping) (bn # grouping) bn bn = Inr f"
    and keys: "keys_ok kinds sources (bn # grouping) (bn # grouping)" and zero: "list_all (blocks_from_zero bn) sources"
    and schema: "rows_of_schema fs data"
    and keyed: "keyed_table kinds (bn # grouping) fs data" "keyed_table [PathKey] [target_column] fs data"
    and nonneg: "\<forall>row \<in> set data. \<forall>t v. row bn = Some (CInt t v) \<longrightarrow> 0 \<le> v"
  shows "relation_picks R fs data rq (row_relative (mode_relation mode inclusive) sources source_column (bn # grouping) target_column)
    (\<lambda>b. addresses_ok kinds sources source_column (bn # grouping) \<and> path_batch kinds (bn # grouping) target_column b \<and>
      solid ((bn # grouping) @ [target_column]) b)"
proof -
  let ?rq = "rq\<lparr>rq_key_filter := None\<rparr>"
  let ?picks = "row_relative (mode_relation mode inclusive) sources source_column (bn # grouping) target_column"
  have fields: "kf_columns f = bn # grouping" "kf_block_number_column f = bn"
    using f by (auto simp: key_filter_build_def key_set_filter_def and_then_Inr_iff)
  have rel: "rf_relation (row_filters_of rq) = rf_relation (row_filters_of ?rq)"
    "rf_relation (row_filters_of ?rq) = AddressRelation (hierarchical_filter_build sources (bn # grouping) source_column target_column mode inclusive)"
    using rq by (simp_all add: row_filters_of_def Let_def)
  have cols: "set (filter_columns ?rq) \<subseteq> set (filter_columns rq)" by (auto simp: filter_columns_def)
  have p: "relation_picks R fs data ?rq ?picks
    (\<lambda>b. addresses_ok kinds sources source_column (bn # grouping) \<and> path_batch kinds (bn # grouping) target_column b \<and>
      solid ((bn # grouping) @ [target_column]) b)"
    by (rule address_relation_picks [OF a _ _ keyed]) (simp_all add: rq)
  have mask: "row_filter (relation_mask R (rf_relation (row_filters_of rq))) ?picks (filter_columns rq)
    (\<lambda>b. addresses_ok kinds sources source_column (bn # grouping) \<and> path_batch kinds (bn # grouping) target_column b \<and>
      solid ((bn # grouping) @ [target_column]) b)"
    unfolding rel(1) by (rule row_filter_wider [OF _ cols]) (use p in \<open>simp_all add: relation_picks_def\<close>)
  have blocks: "\<exists>t v. row bn = Some (CInt t v) \<and> (\<forall>lo hi. lo \<le> unsigned_bits t v \<and> unsigned_bits t v \<le> hi \<longrightarrow> has_block_within f lo hi)"
    if r: "row \<in> set data" "?picks row" for row
  proof -
    note partner = relative_partner [OF r(2)]
    from partner_has_block [OF keys zero schema keyed(1) nonneg r(1) partner] obtain t v where
      v: "row bn = Some (CInt t v)" "0 \<le> v" "in_range t v" by blast
    from partner_block_within [OF keys f zero v partner] v(1) show ?thesis by blast
  qed
  have shown: "addresses_ok kinds sources source_column (bn # grouping) \<and> path_batch kinds (bn # grouping) target_column b \<and>
      solid ((bn # grouping) @ [target_column]) b"
    if "set (filter_columns rq) \<subseteq> set names" "shows_rows fs data names rs b" for names rs b
  proof -
    have readable: "set (filter_columns ?rq) \<subseteq> set names \<and> shows_rows fs data names rs b \<longrightarrow>
        addresses_ok kinds sources source_column (bn # grouping) \<and> path_batch kinds (bn # grouping) target_column b \<and>
        solid ((bn # grouping) @ [target_column]) b" for names rs b
      using p unfolding relation_picks_def by blast
    show ?thesis using readable [of names rs b] order_trans [OF cols that(1)] that(2) by blast
  qed
  show ?thesis
    unfolding relation_picks_def rq option.case fields
  proof (intro conjI)
    let ?readable = "\<lambda>b. addresses_ok kinds sources source_column (bn # grouping) \<and> path_batch kinds (bn # grouping) target_column b \<and>
      solid ((bn # grouping) @ [target_column]) b"
    show "row_filter (relation_mask R (rf_relation (row_filters_of rq))) ?picks (filter_columns rq) ?readable" by (rule mask)
    show "\<forall>names rs b. set (filter_columns rq) \<subseteq> set names \<and> shows_rows fs data names rs b \<longrightarrow> ?readable b"
      by (intro allI impI, elim conjE, rule shown)
    show "\<forall>row \<in> set data. ?picks row \<longrightarrow> (\<exists>t v. row bn = Some (CInt t v) \<and>
        (\<forall>lo hi. lo \<le> unsigned_bits t v \<and> unsigned_bits t v \<le> hi \<longrightarrow> has_block_within f lo hi))"
      by (intro ballI impI, rule blocks)
    show "case rf_relation (row_filters_of rq) of
        KeyRelation kf \<Rightarrow> \<not> checks_blocks_first kf \<longrightarrow> (\<forall>row \<in> set data. ?picks row \<longrightarrow> in_request_blocks rq row)
      | _ \<Rightarrow> True" by (simp add: rel)
  qed
qed

end
