(* ===== verification/Columnar.thy ===== *)
theory Columnar
  imports Scan_Request
begin

text \<open>
  A reader of chunks whose storage reads any column for any rows and may keep the least and greatest value
  of row windows (\<^verbatim>\<open>src/scan/columnar.rs\<close>). The store is an argument, its documented promises the
  hypothesis \<open>table_holds\<close>. A scan reads the candidate rows of every column it needs in one pass and filters
  them in memory; the reader keeps the tables it opened and the block-number columns it found complete.
\<close>

section \<open>The store\<close>

record window_stats =
  ws_offsets :: "nat list"
  ws_min :: array
  ws_max :: array

record columnar_table =
  ct_schema :: schema
  ct_num_rows :: nat
  ct_read :: "nat list \<Rightarrow> (nat \<times> nat) list option \<Rightarrow> engine_error + batch"
  ct_stats :: "nat \<Rightarrow> engine_error + window_stats option"

record columnar_chunk =
  cc_has_table :: "string \<Rightarrow> bool"
  cc_open_table :: "string \<Rightarrow> engine_error + columnar_table option"

record open_table =
  ot_table :: columnar_table
  ot_complete_blocks :: "string list"

record columnar_reader =
  cr_chunk :: columnar_chunk
  cr_tables :: "(string, open_table) omap"

definition columnar_reader_new :: "columnar_chunk \<Rightarrow> columnar_reader" where
  "columnar_reader_new chunk = \<lparr>cr_chunk = chunk, cr_tables = []\<rparr>"

definition reader_table :: "string \<Rightarrow> columnar_reader \<Rightarrow> (engine_error + open_table option) \<times> columnar_reader" where
  "reader_table name r =
     (case map_of (cr_tables r) name of
        Some ot \<Rightarrow> (Inr (Some ot), r)
      | None \<Rightarrow>
          (case cc_open_table (cr_chunk r) name of
             Inl e \<Rightarrow> (Inl e, r)
           | Inr None \<Rightarrow> (Inr None, r)
           | Inr (Some t) \<Rightarrow>
               let ot = \<lparr>ot_table = t, ot_complete_blocks = []\<rparr>
               in (Inr (Some ot), r\<lparr>cr_tables := (name, ot) # cr_tables r\<rparr>)))"


section \<open>Reads\<close>

definition asked_rows :: "columnar_table \<Rightarrow> (nat \<times> nat) list option \<Rightarrow> nat" where
  "asked_rows t ranges = (case ranges of None \<Rightarrow> ct_num_rows t | Some rs \<Rightarrow> sum_list (map (\<lambda>(lo, hi). hi - lo) rs))"

definition returned_column :: "schema \<Rightarrow> batch \<Rightarrow> nat \<Rightarrow> engine_error + nat" where
  "returned_column fs b index =
     and_then (ok_or Panic (get fs index)) (\<lambda>f.
     case index_of (column_names b) (f_name f) of
       None \<Rightarrow> Inl (EngineError MalformedChunkData)
     | Some at \<Rightarrow>
         if data_type_of (snd (b_columns b ! at)) = f_type f then Inr at else Inl (EngineError MalformedChunkData))"

definition checked_read ::
    "batch_kernels \<Rightarrow> columnar_table \<Rightarrow> nat list \<Rightarrow> (nat \<times> nat) list option \<Rightarrow> engine_error + batch" where
  "checked_read B t columns ranges =
     and_then (ct_read t columns ranges) (\<lambda>b.
     and_then (ensure (b_num_rows b = asked_rows t ranges) (EngineError MalformedChunkData)) (\<lambda>_.
     and_then (try_collect (returned_column (ct_schema t) b) columns) (\<lambda>returned.
     bk_project B b returned)))"

definition column_indices :: "schema \<Rightarrow> string list \<Rightarrow> nat list" where
  "column_indices fs names = remdups_adj (sort (List.map_filter (index_of (field_names fs)) names))"

definition read_columns :: "schema \<Rightarrow> 'a table_request_scheme \<Rightarrow> nat list" where
  "read_columns fs rq =
     column_indices fs (rq_output_columns rq @ concat (map required_columns (rq_predicates rq)) @
       (case rq_block_number_column rq of None \<Rightarrow> [] | Some bn \<Rightarrow> [bn]) @ filter_columns rq)"

definition ensure_block_numbers_readable ::
    "batch_kernels \<Rightarrow> 'a table_request_scheme \<Rightarrow> open_table \<Rightarrow> (engine_error + unit) \<times> open_table" where
  "ensure_block_numbers_readable B rq ot =
     (case nullable_block_numbers (ct_schema (ot_table ot)) rq of
        Inl e \<Rightarrow> (Inl e, ot)
      | Inr None \<Rightarrow> (Inr (), ot)
      | Inr (Some bn) \<Rightarrow>
          if bn \<in> set (ot_complete_blocks ot) then (Inr (), ot)
          else
            (case and_then (ok_or Untyped (index_of (field_names (ct_schema (ot_table ot))) bn)) (\<lambda>index.
                 and_then (checked_read B (ot_table ot) [index] None) (\<lambda>b.
                 and_then (ok_or Panic (get (b_columns b) 0)) (\<lambda>(_, a).
                 ensure (null_count a = 0) (EngineError MalformedChunkData)))) of
               Inl e \<Rightarrow> (Inl e, ot)
             | Inr _ \<Rightarrow> (Inr (), ot\<lparr>ot_complete_blocks := bn # ot_complete_blocks ot\<rparr>)))"


section \<open>Candidate rows\<close>

definition windows_cover :: "window_stats \<Rightarrow> nat \<Rightarrow> bool" where
  "windows_cover ws rows =
     (let offsets = ws_offsets ws;
          windows = length offsets - 1;
          from_first_row = (get offsets 0 = Some 0);
          to_last_row = (offsets \<noteq> [] \<and> last offsets = rows);
          in_order = list_all (\<lambda>(a, b). a \<le> b) (zip offsets (tl offsets));
          one_bound_each = (len (ws_min ws) = windows \<and> len (ws_max ws) = windows)
      in from_first_row \<and> to_last_row \<and> in_order \<and> one_bound_each)"

definition wanted_columns :: "'a table_request_scheme \<Rightarrow> string list" where
  "wanted_columns rq =
     remdups_adj (sort ((case rq_block_number_column rq of None \<Rightarrow> [] | Some bn \<Rightarrow> [bn]) @
       (case rq_key_filter rq of None \<Rightarrow> [] | Some kf \<Rightarrow> [kf_block_number_column kf]) @
       concat (map required_columns (rq_predicates rq))))"

type_synonym window_columns = "(string \<rightharpoonup> window_stats) \<times> nat list option"

definition add_stats :: "columnar_table \<Rightarrow> string \<Rightarrow> window_columns \<Rightarrow> engine_error + window_columns" where
  "add_stats t name = (\<lambda>(stats, offsets).
     case index_of (field_names (ct_schema t)) name of
       None \<Rightarrow> Inr (stats, offsets)
     | Some index \<Rightarrow>
         and_then (ct_stats t index) (\<lambda>found.
         case found of
           None \<Rightarrow> Inr (stats, offsets)
         | Some ws \<Rightarrow>
             if \<not> windows_cover ws (ct_num_rows t) then Inr (stats, offsets)
             else
               (case offsets of
                  None \<Rightarrow> Inr (stats(name \<mapsto> ws), Some (ws_offsets ws))
                | Some first \<Rightarrow>
                    if first \<noteq> ws_offsets ws then Inr (stats, offsets) else Inr (stats(name \<mapsto> ws), offsets))))"

definition window_range ::
    "table_kernels \<Rightarrow> schema \<Rightarrow> (string \<rightharpoonup> window_stats) \<Rightarrow> nat \<Rightarrow> column_stats" where
  "window_range T fs stats window name =
     Option.bind (stats name) (\<lambda>ws.
     if is_null (ws_min ws) window \<or> is_null (ws_max ws) window then None
     else Option.bind (field_with_name fs name) (\<lambda>f.
       stat_range_new (f_type f) (tk_slice T (ws_min ws) window 1) (tk_slice T (ws_max ws) window 1)))"

text \<open>The value goes through an \<open>i64\<close>.\<close>

definition window_bound :: "data_type \<Rightarrow> nat \<Rightarrow> array \<Rightarrow> nat option" where
  "window_bound stored window a =
     Option.bind (resolve_int a) (\<lambda>c.
     if int_is_null c window then None else block_number_at stored (signed_take_bit 63 (int_value c window)))"

definition window_blocks :: "schema \<Rightarrow> (string \<rightharpoonup> window_stats) \<Rightarrow> nat \<Rightarrow> string \<Rightarrow> (nat \<times> nat) option" where
  "window_blocks fs stats window name =
     Option.bind (stats name) (\<lambda>ws.
     Option.bind (field_with_name fs name) (\<lambda>f.
     Option.bind (window_bound (f_type f) window (ws_min ws)) (\<lambda>lo.
     Option.bind (window_bound (f_type f) window (ws_max ws)) (\<lambda>hi.
     if lo \<le> hi then Some (lo, hi) else None))))"

definition window_kept ::
    "table_kernels \<Rightarrow> schema \<Rightarrow> 'a table_request_scheme \<Rightarrow> (string \<rightharpoonup> window_stats) \<Rightarrow> nat \<Rightarrow> bool" where
  "window_kept T fs rq stats window =
     (let outside = (case Option.bind (rq_block_number_column rq) (window_blocks fs stats window) of
            None \<Rightarrow> False
          | Some (lo, hi) \<Rightarrow>
              (case rq_from_block rq of None \<Rightarrow> False | Some from_block \<Rightarrow> hi < from_block) \<or>
              (case rq_to_block rq of None \<Rightarrow> False | Some to_block \<Rightarrow> lo > to_block));
          no_item_matches = (rq_predicates rq \<noteq> [] \<and>
            list_all (\<lambda>r. can_skip_row_group r (window_range T fs stats window)) (rq_predicates rq));
          no_key_within = (case rq_key_filter rq of
            None \<Rightarrow> False
          | Some kf \<Rightarrow>
              (case window_blocks fs stats window (kf_block_number_column kf) of
                 None \<Rightarrow> False
               | Some (lo, hi) \<Rightarrow> \<not> has_block_within kf lo hi))
      in \<not> outside \<and> \<not> no_item_matches \<and> \<not> no_key_within)"

definition push_range :: "nat \<times> nat \<Rightarrow> (nat \<times> nat) list \<Rightarrow> (nat \<times> nat) list" where
  "push_range = (\<lambda>(first, next) ranges.
     if ranges \<noteq> [] \<and> snd (last ranges) = first then butlast ranges @ [(fst (last ranges), next)]
     else if \<not> first < next then ranges
     else ranges @ [(first, next)])"

definition candidate_rows ::
    "table_kernels \<Rightarrow> columnar_table \<Rightarrow> 'a table_request_scheme \<Rightarrow> engine_error + (nat \<times> nat) list" where
  "candidate_rows T t rq =
     (if ct_num_rows t = 0 then Inr []
      else
        and_then (try_fold (add_stats t) (wanted_columns rq) (Map.empty, None)) (\<lambda>(stats, offsets).
        case offsets of
          None \<Rightarrow> Inr [(0, ct_num_rows t)]
        | Some os \<Rightarrow>
            Inr (fold (\<lambda>window ranges.
                if window_kept T (ct_schema t) rq stats window then push_range (os ! window, os ! Suc window) ranges else ranges)
              [0..<length os - 1] [])))"


section \<open>The scan\<close>

definition row_masks ::
    "externals \<Rightarrow> kernels \<Rightarrow> row_kernels \<Rightarrow> batch \<Rightarrow> 'a table_request_scheme \<Rightarrow> engine_error + mask \<times> mask list" where
  "row_masks X K R b rq =
     (let rows = b_num_rows b; filters = row_filters_of rq in
      and_then (case (rf_blocks filters, Option.bind (rq_block_number_column rq) (column_by_name b)) of
          (Some (lo, hi), Some a) \<Rightarrow>
            and_then (block_range_mask K a lo hi) (\<lambda>m. Inr (narrow (replicate rows True) m))
        | _ \<Rightarrow> Inr (replicate rows True)) (\<lambda>keep.
      and_then (case rf_relation filters of
          AddressRelation hf \<Rightarrow>
            and_then (ensure (rq_predicates rq = []) Panic) (\<lambda>_.
            Inr (narrow keep (hierarchical_mask hf b (Some keep))))
        | KeyRelation kf \<Rightarrow> and_then (key_filter_mask R kf b (Some keep)) (\<lambda>m. Inr (narrow keep m))
        | NoRelation \<Rightarrow> Inr keep) (\<lambda>keep.
      if rq_predicates rq = [] then Inr (map Some keep, map (\<lambda>_. all_mask rows False) (rq_item_tags rq))
      else
        and_then (item_masks X K (rq_predicates rq) b) (\<lambda>masks.
        and_then (ensure (list_all (list_all (\<lambda>item. item < length masks)) (rq_item_tags rq)) Panic) (\<lambda>_.
        Inr (map Some (narrow keep (or_masks K masks [0..<length masks] rows)),
             map (\<lambda>items. map Some (selected (or_masks K masks items rows))) (rq_item_tags rq)))))))"

definition positions_of :: "(nat \<times> nat) list \<Rightarrow> nat list" where
  "positions_of ranges = concat (map (\<lambda>(first, next). [first..<next]) ranges)"

definition extend_ranges :: "nat \<Rightarrow> (nat \<times> nat) list \<Rightarrow> (nat \<times> nat) list" where
  "extend_ranges row ranges =
     (if ranges \<noteq> [] \<and> snd (last ranges) = row then butlast ranges @ [(fst (last ranges), row + 1)]
      else ranges @ [(row, row + 1)])"

definition read_positions ::
    "batch_kernels \<Rightarrow> table_kernels \<Rightarrow> columnar_table \<Rightarrow> 'a table_request_scheme \<Rightarrow> nat list \<Rightarrow> schema \<Rightarrow> engine_error + scanned_batch list" where
  "read_positions B T t rq rows output_schema =
     and_then (ensure (list_all (\<lambda>(a, b). a < b) (zip rows (tl rows)) \<and> (rows = [] \<or> last rows < ct_num_rows t))
       (EngineError MalformedChunkData)) (\<lambda>_.
     if rows = [] then Inr []
     else
       let ranges = fold extend_ranges rows [] in
       and_then (checked_read B t (column_indices (ct_schema t) (rq_output_columns rq)) (Some ranges)) (\<lambda>b.
       and_then (project_batch T b output_schema) (\<lambda>b.
       Inr (split_batch B (untagged rq b (if rq_positions rq then Some rows else None)) (rq_batch_size rq)))))"

definition filtered_scan ::
    "externals \<Rightarrow> kernels \<Rightarrow> row_kernels \<Rightarrow> batch_kernels \<Rightarrow> table_kernels \<Rightarrow> columnar_table \<Rightarrow> 'a table_request_scheme
     \<Rightarrow> engine_error + scanned_batch list" where
  "filtered_scan X K R B T t rq =
     and_then (candidate_rows T t rq) (\<lambda>ranges.
     if ranges = [] then Inr []
     else
       and_then (checked_read B t (read_columns (ct_schema t) rq) (Some ranges)) (\<lambda>b.
       and_then (row_masks X K R b rq) (\<lambda>(keep, tags).
       if true_count keep = 0 then Inr []
       else
         and_then (project_batch T b (build_output_schema (ct_schema t) (rq_output_columns rq))) (\<lambda>projected.
         and_then (scanned_filter B
             \<lparr>sb_batch = projected, sb_positions = (if rq_positions rq then Some (positions_of ranges) else None),
              sb_tags = tags\<rparr> keep) (\<lambda>scanned.
         Inr (split_batch B scanned (rq_batch_size rq)))))))"

definition columnar_scan ::
    "externals \<Rightarrow> kernels \<Rightarrow> row_kernels \<Rightarrow> batch_kernels \<Rightarrow> table_kernels \<Rightarrow> 'a table_request_scheme \<Rightarrow> open_table
     \<Rightarrow> (engine_error + scanned_batch list) \<times> open_table" where
  "columnar_scan X K R B T rq ot =
     (let t = ot_table ot; fs = ct_schema t in
      case and_then (ensure_columns_present fs rq) (\<lambda>_. ensure_predicates_comparable X K fs rq) of
        Inl e \<Rightarrow> (Inl e, ot)
      | Inr _ \<Rightarrow>
          (case ensure_block_numbers_readable B rq ot of
             (Inl e, ot') \<Rightarrow> (Inl e, ot')
           | (Inr _, ot') \<Rightarrow>
               (case rq_row_indices rq of
                  Some rows \<Rightarrow> read_positions B T t rq rows (build_output_schema fs (rq_output_columns rq))
                | None \<Rightarrow> filtered_scan X K R B T t rq, ot')))"

definition columnar_scan_rows ::
    "externals \<Rightarrow> kernels \<Rightarrow> row_kernels \<Rightarrow> batch_kernels \<Rightarrow> table_kernels \<Rightarrow> string \<Rightarrow> 'a table_request_scheme
     \<Rightarrow> columnar_reader \<Rightarrow> (engine_error + scanned) \<times> columnar_reader" where
  "columnar_scan_rows X K R B T name rq r =
     (case reader_table name r of
        (Inl e, r') \<Rightarrow> (Inl e, r')
      | (Inr None, r') \<Rightarrow> (Inl (EngineError TableNotFound), r')
      | (Inr (Some ot), r') \<Rightarrow>
          (case columnar_scan X K R B T rq ot of
             (batches, ot') \<Rightarrow> (and_then batches (scanned_collect rq), r'\<lparr>cr_tables := (name, ot') # cr_tables r'\<rparr>)))"

definition columnar_has_table :: "string \<Rightarrow> columnar_reader \<Rightarrow> bool" where
  "columnar_has_table name r = cc_has_table (cr_chunk r) name"

definition columnar_table_schema :: "string \<Rightarrow> columnar_reader \<Rightarrow> schema option \<times> columnar_reader" where
  "columnar_table_schema name r =
     (case reader_table name r of
        (Inr (Some ot), r') \<Rightarrow> (Some (ct_schema (ot_table ot)), r')
      | (_, r') \<Rightarrow> (None, r'))"

section \<open>What the store promises\<close>

text \<open>
  The rows a read names, and the least and greatest value of a window: each cell of the column lies between
  them, read at the column's width and signedness whatever type the statistics are held at. A statistic in
  text is a statistic of text.
\<close>

definition named_rows :: "columnar_table \<Rightarrow> (nat \<times> nat) list option \<Rightarrow> nat list" where
  "named_rows t ranges = (case ranges of None \<Rightarrow> [0..<ct_num_rows t] | Some rs \<Rightarrow> positions_of rs)"

definition ranges_ok :: "nat \<Rightarrow> (nat \<times> nat) list \<Rightarrow> bool" where
  "ranges_ok rows rs \<longleftrightarrow> list_all (\<lambda>(lo, hi). lo < hi \<and> hi \<le> rows) rs \<and>
     sorted_wrt (\<lambda>r r'. snd r \<le> fst r') rs"

fun between :: "data_type \<Rightarrow> cell \<Rightarrow> cell \<Rightarrow> cell \<Rightarrow> bool" where
  "between stored (CInt _ lo) (CInt _ hi) c =
     (case (width_of stored, c) of
        (Some (bits, sg), CInt _ x) \<Rightarrow> declared_value lo bits sg \<le> x \<and> x \<le> declared_value hi bits sg
      | _ \<Rightarrow> True)"
| "between stored (CText lo) (CText hi) c =
     (case c of CText s \<Rightarrow> lo \<le> s \<and> s \<le> hi | CNull \<Rightarrow> True | _ \<Rightarrow> is_integer stored)"
| "between stored _ _ c = True"

definition stats_hold :: "data_type \<Rightarrow> string \<Rightarrow> row list \<Rightarrow> window_stats \<Rightarrow> bool" where
  "stats_hold stored name data ws \<longleftrightarrow> wf_array (ws_min ws) \<and> wf_array (ws_max ws) \<and>
     (\<forall>window < length (ws_offsets ws) - 1. \<forall>r \<in> {ws_offsets ws ! window..<ws_offsets ws ! Suc window}.
        \<forall>c. (data ! r) name = Some c \<longrightarrow> between stored (cell_at (ws_min ws) window) (cell_at (ws_max ws) window) c)"

definition table_holds :: "columnar_table \<Rightarrow> row list \<Rightarrow> bool" where
  "table_holds t data \<longleftrightarrow> ct_num_rows t = length data \<and> rows_of_schema (ct_schema t) data \<and>
     (\<forall>columns ranges b. sorted_wrt (<) columns \<and> (\<forall>k \<in> set columns. k < length (ct_schema t)) \<and>
        (case ranges of None \<Rightarrow> True | Some rs \<Rightarrow> ranges_ok (length data) rs) \<and>
        ct_read t columns ranges = Inr b \<and> b_num_rows b = length (named_rows t ranges) \<longrightarrow>
          batch_ok b \<and>
          (\<forall>k \<in> set columns. \<forall>a. column_by_name b (f_name (ct_schema t ! k)) = Some a \<and>
             data_type_of a = f_type (ct_schema t ! k) \<longrightarrow>
               (\<forall>i < b_num_rows b. (data ! (named_rows t ranges ! i)) (f_name (ct_schema t ! k)) = Some (cell_at a i)))) \<and>
     (\<forall>k ws. k < length (ct_schema t) \<and> ct_stats t k = Inr (Some ws) \<and> windows_cover ws (length data) \<longrightarrow>
        stats_hold (f_type (ct_schema t ! k)) (f_name (ct_schema t ! k)) data ws)"

end
