(* ===== verification/Columnar_Correct.thy ===== *)
theory Columnar_Correct
  imports Columnar
begin

text \<open>
  The scan of a columnar table (\<^verbatim>\<open>src/scan/columnar.rs\<close>) returns exactly the rows of the table the request asks
  for: windows are dropped only when their statistics rule out every such row, a read is refused unless it
  shows what it was asked for, and the masks keep the rows asked for. What the reader remembers of a table
  between scans stays true, so a scan answers alike whatever was scanned before.
\<close>

section \<open>Facts on windows\<close>

lemma adjacent_sorted: "list_all (\<lambda>(a, b). a \<le> b) (zip xs (tl xs)) \<longleftrightarrow> sorted (xs :: nat list)"
proof (induction xs)
  case (Cons x xs)
  then show ?case by (cases xs) (auto intro: order_trans)
qed simp

lemma adjacent_ascending: "list_all (\<lambda>(a, b). a < b) (zip xs (tl xs)) \<longleftrightarrow> sorted_wrt (<) (xs :: nat list)"
proof (induction xs)
  case (Cons x xs)
  then show ?case by (cases xs) (auto dest: order_less_trans)
qed simp

lemma windows_cover_iff:
  "windows_cover ws rows \<longleftrightarrow> ws_offsets ws \<noteq> [] \<and> ws_offsets ws ! 0 = 0 \<and> last (ws_offsets ws) = rows \<and> sorted (ws_offsets ws) \<and>
     len (ws_min ws) = length (ws_offsets ws) - 1 \<and> len (ws_max ws) = length (ws_offsets ws) - 1"
  by (auto simp: windows_cover_def Let_def get_def adjacent_sorted)

text \<open>The windows cover the rows once and in order.\<close>

lemma windows_concat:
  assumes "sorted os" and "m < length os" and "os ! 0 = (0 :: nat)"
  shows "concat (map (\<lambda>w. [os ! w..<os ! Suc w]) [0..<m]) = [0..<os ! m]"
  using assms
proof (induction m)
  case (Suc m)
  then have "os ! m \<le> os ! Suc m" by (intro sorted_nth_mono) auto
  with Suc show ?case using upt_add_eq_append [of 0 "os ! m" "os ! Suc m - os ! m"] by simp
qed simp

lemma positions_of_append [simp]: "positions_of (rs @ rs') = positions_of rs @ positions_of rs'"
  by (simp add: positions_of_def)

lemma positions_of_simps [simp]: "positions_of [] = []" "positions_of ((a, b) # rs) = [a..<b] @ positions_of rs"
  by (simp_all add: positions_of_def)

lemma ranges_ok_snoc:
  "ranges_ok n (rs @ [(a, b)]) \<longleftrightarrow> ranges_ok n rs \<and> a < b \<and> b \<le> n \<and> (\<forall>r \<in> set rs. snd r \<le> a)"
  by (auto simp: ranges_ok_def sorted_wrt_append)

lemma ranges_ok_last:
  assumes "ranges_ok n rs" and "rs \<noteq> []" and "r \<in> set rs"
  shows "snd r \<le> snd (last rs)"
proof -
  obtain a b where l: "rs = butlast rs @ [(a, b)]" using append_butlast_last_id [OF assms(2)] by (metis surj_pair)
  then have ok: "ranges_ok n (butlast rs @ [(a, b)])" using assms(1) by metis
  have "last rs = (a, b)" using l by (metis last_snoc)
  moreover have "r \<in> set (butlast rs) \<or> r = (a, b)" using assms(3) by (subst (asm) l) auto
  ultimately show ?thesis using ok by (auto simp: ranges_ok_snoc)
qed

lemma push_range_ok:
  assumes ok: "ranges_ok n rs" and le: "rs \<noteq> [] \<Longrightarrow> snd (last rs) \<le> a" and ab: "a \<le> b" "b \<le> n"
  shows "ranges_ok n (push_range (a, b) rs) \<and> positions_of (push_range (a, b) rs) = positions_of rs @ [a..<b] \<and>
    (push_range (a, b) rs \<noteq> [] \<longrightarrow> snd (last (push_range (a, b) rs)) \<le> b)"
proof (cases "rs \<noteq> [] \<and> snd (last rs) = a")
  case True
  then obtain c where l: "last rs = (c, a)" by (metis prod.collapse)
  then have rs: "rs = butlast rs @ [(c, a)]" using True by (metis append_butlast_last_id)
  have ok': "ranges_ok n (butlast rs @ [(c, a)])" using ok rs by metis
  then have "c < a" by (simp add: ranges_ok_snoc)
  have "push_range (a, b) rs = butlast rs @ [(c, b)]" using True l by (simp add: push_range_def)
  moreover have "positions_of rs = positions_of (butlast rs) @ [c..<a]" by (subst rs) simp
  moreover have "[c..<b] = [c..<a] @ [a..<b]" using \<open>c < a\<close> ab upt_add_eq_append [of c a "b - a"] by simp
  ultimately show ?thesis using ok' ab by (simp add: ranges_ok_snoc)
next
  case False
  have "\<forall>r \<in> set rs. snd r \<le> a" using ranges_ok_last [OF ok] le by (cases "rs = []") force+
  with False assms show ?thesis
    by (cases "a < b") (auto simp: push_range_def ranges_ok_snoc)
qed

lemma candidate_ranges:
  assumes os: "sorted os" "m < length os" "os ! 0 = 0" "os ! m \<le> n"
  shows "let rs = fold (\<lambda>w rs. if kept w then push_range (os ! w, os ! Suc w) rs else rs) [0..<m] [] in
    ranges_ok n rs \<and> (rs \<noteq> [] \<longrightarrow> snd (last rs) \<le> os ! m) \<and>
    positions_of rs = concat (map (\<lambda>w. if kept w then [os ! w..<os ! Suc w] else []) [0..<m])"
  using assms
proof (induction m)
  case 0
  then show ?case by (simp add: ranges_ok_def)
next
  case (Suc m)
  let ?rs = "fold (\<lambda>w rs. if kept w then push_range (os ! w, os ! Suc w) rs else rs) [0..<m] []"
  have mono: "os ! m \<le> os ! Suc m" using Suc.prems by (intro sorted_nth_mono) auto
  with Suc have IH: "ranges_ok n ?rs" "?rs \<noteq> [] \<longrightarrow> snd (last ?rs) \<le> os ! m"
    "positions_of ?rs = concat (map (\<lambda>w. if kept w then [os ! w..<os ! Suc w] else []) [0..<m])" by (simp_all add: Let_def)
  show ?case
  proof (cases "kept m")
    case True
    with push_range_ok [OF IH(1) _ mono Suc.prems(4)] IH show ?thesis by (simp add: Let_def)
  next
    case False
    with IH mono show ?thesis by (auto simp: Let_def)
  qed
qed

text \<open>Dropping windows that hold nothing that is asked for loses nothing.\<close>

lemma candidate_filter:
  assumes os: "sorted os" "m < length os" "os ! 0 = 0" "os ! m = n"
    and kept: "\<And>w r. w < m \<Longrightarrow> r \<in> {os ! w..<os ! Suc w} \<Longrightarrow> P r \<Longrightarrow> kept w"
  shows "filter P (concat (map (\<lambda>w. if kept w then [os ! w..<os ! Suc w] else []) [0..<m])) = filter P [0..<n]"
proof -
  have "filter P (if kept w then [os ! w..<os ! Suc w] else []) = filter P [os ! w..<os ! Suc w]" if "w < m" for w
  proof (cases "kept w")
    case False
    then have "\<forall>r \<in> set [os ! w..<os ! Suc w]. \<not> P r" using kept [OF that] unfolding set_upt by blast
    with False show ?thesis by (simp only: filter_False if_False filter.simps)
  qed simp
  then have "map (\<lambda>w. filter P (if kept w then [os ! w..<os ! Suc w] else [])) [0..<m] =
      map (\<lambda>w. filter P [os ! w..<os ! Suc w]) [0..<m]" by (intro map_cong) auto
  then have "filter P (concat (map (\<lambda>w. if kept w then [os ! w..<os ! Suc w] else []) [0..<m])) =
      filter P (concat (map (\<lambda>w. [os ! w..<os ! Suc w]) [0..<m]))"
    unfolding filter_concat map_map comp_def by (rule arg_cong)
  then show ?thesis by (simp only: windows_concat [OF os(1-3)] os(4))
qed

section \<open>Facts on statistics\<close>

definition stats_from :: "columnar_table \<Rightarrow> window_columns \<Rightarrow> bool" where
  "stats_from t = (\<lambda>(stats, offsets).
     (\<forall>name ws. stats name = Some ws \<longrightarrow> windows_cover ws (ct_num_rows t) \<and> offsets = Some (ws_offsets ws) \<and>
        (\<exists>k. index_of (field_names (ct_schema t)) name = Some k \<and> ct_stats t k = Inr (Some ws))) \<and>
     (\<forall>os. offsets = Some os \<longrightarrow> (\<exists>ws. windows_cover ws (ct_num_rows t) \<and> os = ws_offsets ws)))"

lemma add_stats_from: "add_stats t name s = Inr s' \<Longrightarrow> stats_from t s \<Longrightarrow> stats_from t s'"
proof -
  assume a: "add_stats t name s = Inr s'" and s: "stats_from t s"
  obtain stats offsets where e: "s = (stats, offsets)" by (cases s)
  show "stats_from t s'"
  proof (cases "s' = s")
    case False
    with a e obtain k where k: "index_of (field_names (ct_schema t)) name = Some k"
      by (cases "index_of (field_names (ct_schema t)) name") (auto simp: add_stats_def)
    with False a e obtain ws where ws: "ct_stats t k = Inr (Some ws)"
      by (cases "ct_stats t k") (auto simp: add_stats_def split: option.splits)
    with False a e k have c: "windows_cover ws (ct_num_rows t)" by (auto simp: add_stats_def split: if_splits)
    with False a e k ws have "s' = (stats(name \<mapsto> ws), Some (ws_offsets ws))" "offsets = None \<or> offsets = Some (ws_offsets ws)"
      by (cases offsets; auto simp: add_stats_def split: if_splits)+
    with s e k ws c show ?thesis by (auto simp: stats_from_def)
  qed (use s in simp)
qed

lemma stats_fold_from: "try_fold (add_stats t) names s = Inr s' \<Longrightarrow> stats_from t s \<Longrightarrow> stats_from t s'"
  by (induction names arbitrary: s) (auto simp: and_then_Inr_iff dest: add_stats_from)

text \<open>What the statistics of a column say of a row of a window.\<close>

lemma window_between:
  assumes t: "table_holds t data" and s: "stats_from t (stats, offsets)" and ws: "stats name = Some ws"
    and f: "field_with_name (ct_schema t) name = Some f"
    and w: "window < length (ws_offsets ws) - 1" "r \<in> {ws_offsets ws ! window..<ws_offsets ws ! Suc window}"
    and c: "(data ! r) name = Some c"
  shows "between (f_type f) (cell_at (ws_min ws) window) (cell_at (ws_max ws) window) c \<and>
    wf_array (ws_min ws) \<and> wf_array (ws_max ws) \<and> window < len (ws_min ws) \<and> window < len (ws_max ws)"
proof -
  from s ws obtain k where k: "windows_cover ws (ct_num_rows t)" "index_of (field_names (ct_schema t)) name = Some k"
    "ct_stats t k = Inr (Some ws)"
    unfolding stats_from_def prod.case by blast
  have n: "ct_num_rows t = length data" and promise: "\<And>k ws. k < length (ct_schema t) \<Longrightarrow> ct_stats t k = Inr (Some ws) \<Longrightarrow>
      windows_cover ws (length data) \<Longrightarrow> stats_hold (f_type (ct_schema t ! k)) (f_name (ct_schema t ! k)) data ws"
    using t unfolding table_holds_def by blast+
  have kf: "k < length (ct_schema t)" "f_name (ct_schema t ! k) = name" "ct_schema t ! k = f"
    using index_of_Some [OF k(2)] f k(2) by (auto simp: field_names_def field_with_name_def)
  from promise [OF kf(1) k(3)] k(1) n kf have "stats_hold (f_type f) name data ws" by simp
  with w c k(1) show ?thesis unfolding stats_hold_def windows_cover_iff by simp
qed

lemma int_column_cell:
  "resolve_int a = Some c \<Longrightarrow> i < len a \<Longrightarrow> \<not> is_null a i \<Longrightarrow> \<exists>t. cell_at a i = CInt t (int_value c i)"
  by (cases a) (auto simp: is_null_def)

lemma sliced_int:
  assumes T: "table_kernels_ok T" and a: "wf_array a" "i < len a" "\<not> is_null a i" and v: "stat_int (tk_slice T a i 1) stored = Some v"
  shows "\<exists>t x bits sg. cell_at a i = CInt t x \<and> width_of stored = Some (bits, sg) \<and> v = declared_value x bits sg"
proof -
  let ?s = "tk_slice T a i 1"
  have s: "wf_array ?s" "len ?s = 1" "data_type_of ?s = data_type_of a" "cell_at ?s 0 = cell_at a i"
    using T a(1, 2) unfolding table_kernels_ok_def by blast+
  from v obtain bits sg t vs n where *: "width_of stored = Some (bits, sg)" "?s = AInt t vs n" "v = declared_value (vs ! 0) bits sg"
    by (cases ?s) (auto simp: stat_int_def split: option.splits if_splits)
  from s(3) * obtain us m where "a = AInt t us m" by (cases a) auto
  with a(3) s(4) * show ?thesis by (auto simp: is_null_def split: if_splits)
qed

lemma sliced_text:
  assumes T: "table_kernels_ok T" and a: "wf_array a" "i < len a" "\<not> is_null a i" and v: "stat_text (tk_slice T a i 1) = Some v"
  shows "cell_at a i = CText v"
proof -
  let ?s = "tk_slice T a i 1"
  have s: "len ?s = 1" "data_type_of ?s = data_type_of a" "cell_at ?s 0 = cell_at a i"
    using T a(1, 2) unfolding table_kernels_ok_def by blast+
  from v obtain vs n where *: "?s = AText Utf8 vs n" "v = vs ! 0"
    by (cases ?s rule: stat_text.cases) (auto split: if_splits)
  from s(2) * obtain us m where "a = AText Utf8 us m" by (cases a) auto
  with a(3) s(3) * show ?thesis by (auto simp: is_null_def split: if_splits)
qed

lemma window_range_covers:
  assumes T: "table_kernels_ok T" and t: "table_holds t data" and s: "stats_from t (stats, offsets)"
    and w: "\<And>ws. stats name = Some ws \<Longrightarrow> window < length (ws_offsets ws) - 1 \<and> r \<in> {ws_offsets ws ! window..<ws_offsets ws ! Suc window}"
    and sr: "window_range T (ct_schema t) stats window name = Some sr" and r: "r < length data"
  shows "\<exists>c. (data ! r) name = Some c \<and> covers sr c"
proof -
  from sr obtain ws f where ws: "stats name = Some ws" "\<not> is_null (ws_min ws) window" "\<not> is_null (ws_max ws) window"
    and f: "field_with_name (ct_schema t) name = Some f"
    and new: "stat_range_new (f_type f) (tk_slice T (ws_min ws) window 1) (tk_slice T (ws_max ws) window 1) = Some sr"
    by (auto simp: window_range_def bind_eq_Some_conv split: if_splits)
  have row: "row_of_schema (ct_schema t) (data ! r)" using t r by (simp add: table_holds_def rows_of_schema_def list_all_length)
  with field_with_name_Some [OF f] obtain c where c: "(data ! r) name = Some c" "typed_cell f c" by (force simp: row_of_schema_def)
  from window_between [OF t s ws(1) f _ _ c(1)] w [OF ws(1)]
  have b: "between (f_type f) (cell_at (ws_min ws) window) (cell_at (ws_max ws) window) c"
    "wf_array (ws_min ws)" "wf_array (ws_max ws)" "window < len (ws_min ws)" "window < len (ws_max ws)" by blast+
  have "covers sr c"
  proof (cases "is_integer (f_type f)")
    case True
    with new obtain lo hi where sr: "sr = SInts (f_type f) lo hi" "stat_int (tk_slice T (ws_min ws) window 1) (f_type f) = Some lo"
      "stat_int (tk_slice T (ws_max ws) window 1) (f_type f) = Some hi"
      by (auto simp: stat_range_new_def split: option.splits)
    from sliced_int [OF T b(2, 4) ws(2) sr(2)] sliced_int [OF T b(3, 5) ws(3) sr(3)] b(1) c(2) True
    show ?thesis by (auto simp: sr(1) typed_cell_def is_integer_iff)
  next
    case False
    with new obtain lo hi where sr: "sr = SText lo hi" "stat_text (tk_slice T (ws_min ws) window 1) = Some lo"
      "stat_text (tk_slice T (ws_max ws) window 1) = Some hi"
      by (auto simp: stat_range_new_def split: option.splits)
    from sliced_text [OF T b(2, 4) ws(2) sr(2)] sliced_text [OF T b(3, 5) ws(3) sr(3)] b(1) False
    show ?thesis by (cases c) (simp_all add: sr(1))
  qed
  with c(1) show ?thesis by blast
qed

text \<open>The blocks of a window, read through an \<open>i64\<close> and at the column's width.\<close>

lemma unsigned_bits_through:
  "unsigned_bits t (signed_take_bit 63 v) = unsigned_bits t v"
  "unsigned_bits t (declared_value v (bits_of t) (signed_of t)) = unsigned_bits t v"
proof -
  have b: "0 < bits_of t" "bits_of t \<le> 64" by (cases t; simp)+
  have cut: "take_bit n (signed_take_bit m x) = take_bit n x" if "n \<le> Suc m" for n m :: nat and x :: int
  proof (rule bit_eqI)
    show "bit (take_bit n (signed_take_bit m x)) k \<longleftrightarrow> bit (take_bit n x) k" for k
      using that by (cases "k = m") (auto simp: bit_take_bit_iff bit_signed_take_bit_iff min_def)
  qed
  show "unsigned_bits t (signed_take_bit 63 v) = unsigned_bits t v"
    using b(2) cut [of "bits_of t" 63 v] by (simp add: unsigned_bits_def take_bit_eq_mod)
  show "unsigned_bits t (declared_value v (bits_of t) (signed_of t)) = unsigned_bits t v"
  proof (cases "signed_of t")
    case True
    with declared_signed [OF b] cut [of "bits_of t" "bits_of t - 1" v] b(1) show ?thesis
      by (simp add: unsigned_bits_def take_bit_eq_mod)
  next
    case False
    with declared_unsigned [OF b(2)] show ?thesis by (simp add: unsigned_bits_def)
  qed
qed

lemma in_range_split: "in_range t x \<longleftrightarrow> (if signed_of t then - (2 ^ (bits_of t - 1)) \<le> x \<and> x < 2 ^ (bits_of t - 1) else 0 \<le> x \<and> x < 2 ^ bits_of t)"
  by (cases t) (simp_all add: in_range_def)

text \<open>Bounds that come out in order have one sign.\<close>

lemma unsigned_bits_signed:
  assumes "in_range t x"
  shows "int (unsigned_bits t x) = (if 0 \<le> x then x else x + 2 ^ bits_of t)"
proof -
  have b: "(2 :: int) ^ bits_of t = 2 * 2 ^ (bits_of t - 1)" by (cases t) simp_all
  show ?thesis
  proof (cases "0 \<le> x")
    case True
    with assms have "x < 2 ^ bits_of t" by (auto simp: in_range_split b split: if_splits)
    with True show ?thesis by (simp add: unsigned_bits_def)
  next
    case False
    with assms have x: "0 \<le> x + 2 ^ bits_of t" "x + 2 ^ bits_of t < 2 ^ bits_of t"
      by (auto simp: in_range_split b split: if_splits)
    have "x mod 2 ^ bits_of t = (x + 2 ^ bits_of t) mod 2 ^ bits_of t" by simp
    also have "\<dots> = x + 2 ^ bits_of t" using x by (rule mod_pos_pos_trivial)
    finally show ?thesis using False x by (simp add: unsigned_bits_def)
  qed
qed

lemma unsigned_bits_between:
  assumes "in_range t lo" "in_range t x" "in_range t hi" and "lo \<le> x" "x \<le> hi" and "unsigned_bits t lo \<le> unsigned_bits t hi"
  shows "unsigned_bits t lo \<le> unsigned_bits t x \<and> unsigned_bits t x \<le> unsigned_bits t hi"
proof -
  from assms(6) have le: "int (unsigned_bits t lo) \<le> int (unsigned_bits t hi)" by simp
  have "lo < 0 \<longleftrightarrow> hi < 0"
  proof (cases "signed_of t")
    case True
    have "(2 :: int) ^ bits_of t = 2 * 2 ^ (bits_of t - 1)" by (cases t) simp_all
    with True assms le show ?thesis
      by (auto simp: unsigned_bits_signed [OF assms(1)] unsigned_bits_signed [OF assms(3)] in_range_split split: if_splits)
  qed (use assms in \<open>auto simp: in_range_split\<close>)
  then have "int (unsigned_bits t lo) \<le> int (unsigned_bits t x) \<and> int (unsigned_bits t x) \<le> int (unsigned_bits t hi)"
    using assms(4, 5)
    by (cases "lo < 0") (simp_all add: unsigned_bits_signed [OF assms(1)] unsigned_bits_signed [OF assms(2)] unsigned_bits_signed [OF assms(3)])
  then show ?thesis by simp
qed

lemma declared_in_range: "in_range t (declared_value v (bits_of t) (signed_of t))"
proof -
  have b: "0 < bits_of t" "bits_of t \<le> 64" by (cases t; simp)+
  show ?thesis
  proof (cases "signed_of t")
    case True
    have "Suc (bits_of t - 1) = bits_of t" using b(1) by simp
    with True declared_signed [OF b, of v] show ?thesis
      using signed_take_bit_int_greater_eq_minus_exp [of "bits_of t - 1" v] signed_take_bit_int_less_exp [of "bits_of t - 1" v]
      by (simp add: in_range_split)
  next
    case False
    with declared_unsigned [OF b(2), of v] show ?thesis by (simp add: in_range_split)
  qed
qed

lemma window_bound_cell:
  assumes "window_bound (DInt t) window a = Some n" and "wf_array a" and "window < len a"
  shows "\<exists>t' v. cell_at a window = CInt t' v \<and> n = unsigned_bits t (declared_value v (bits_of t) (signed_of t))"
proof -
  from assms(1) obtain c where c: "resolve_int a = Some c" "\<not> int_is_null c window"
    "n = unsigned_bits t (signed_take_bit 63 (int_value c window))"
    by (auto simp: window_bound_def bind_eq_Some_conv split: if_splits)
  then have "\<not> is_null a window" by (cases a) (auto simp: is_null_def)
  from int_column_cell [OF c(1) assms(3) this] c(3) show ?thesis by (auto simp: unsigned_bits_through)
qed

lemma window_blocks_between:
  assumes t: "table_holds t data" and s: "stats_from t (stats, offsets)"
    and w: "\<And>ws. stats name = Some ws \<Longrightarrow> window < length (ws_offsets ws) - 1 \<and> r \<in> {ws_offsets ws ! window..<ws_offsets ws ! Suc window}"
    and blocks: "window_blocks (ct_schema t) stats window name = Some (lo, hi)" and r: "r < length data"
    and v: "(data ! r) name = Some (CInt ty v)"
  shows "lo \<le> unsigned_bits ty v \<and> unsigned_bits ty v \<le> hi"
proof -
  from blocks obtain ws f where ws: "stats name = Some ws" and f: "field_with_name (ct_schema t) name = Some f"
    and lo: "window_bound (f_type f) window (ws_min ws) = Some lo" and hi: "window_bound (f_type f) window (ws_max ws) = Some hi"
    and le: "lo \<le> hi"
    by (auto simp: window_blocks_def bind_eq_Some_conv split: if_splits)
  from lo obtain ty' where ty': "f_type f = DInt ty'"
    by (cases "f_type f") (auto simp: window_bound_def bind_eq_Some_conv split: if_splits)
  have row: "row_of_schema (ct_schema t) (data ! r)" using t r by (simp add: table_holds_def rows_of_schema_def list_all_length)
  with field_with_name_Some [OF f] v have "typed_cell f (CInt ty v)" by (force simp: row_of_schema_def)
  with ty' have ty: "ty' = ty" "in_range ty v" by (auto simp: typed_cell_def)
  from window_between [OF t s ws f conjunct1 [OF w [OF ws]] conjunct2 [OF w [OF ws]] v]
  have b: "between (DInt ty) (cell_at (ws_min ws) window) (cell_at (ws_max ws) window) (CInt ty v)"
    "wf_array (ws_min ws)" "wf_array (ws_max ws)" "window < len (ws_min ws)" "window < len (ws_max ws)" by (simp_all add: ty' ty)
  from window_bound_cell [OF lo [unfolded ty' ty] b(2, 4)] obtain t1 v1 where 1: "cell_at (ws_min ws) window = CInt t1 v1"
    "lo = unsigned_bits ty (declared_value v1 (bits_of ty) (signed_of ty))" by blast
  from window_bound_cell [OF hi [unfolded ty' ty] b(3, 5)] obtain t2 v2 where 2: "cell_at (ws_max ws) window = CInt t2 v2"
    "hi = unsigned_bits ty (declared_value v2 (bits_of ty) (signed_of ty))" by blast
  from b(1) 1(1) 2(1) have "declared_value v1 (bits_of ty) (signed_of ty) \<le> v" "v \<le> declared_value v2 (bits_of ty) (signed_of ty)"
    by simp_all
  from unsigned_bits_between [OF declared_in_range ty(2) declared_in_range this] le show ?thesis by (simp add: 1(2) 2(2))
qed

text \<open>A window that is not kept holds no row that is asked for.\<close>

lemma window_kept_sound:
  assumes T: "table_kernels_ok T" and t: "table_holds t data" and s: "stats_from t (stats, offsets)"
    and w: "\<And>name ws. stats name = Some ws \<Longrightarrow> window < length (ws_offsets ws) - 1 \<and> r \<in> {ws_offsets ws ! window..<ws_offsets ws ! Suc window}"
    and r: "r < length data" and rq: "request_ok rq" and rel: "relation_picks R (ct_schema t) data rq picks readable"
    and bn: "\<And>bn. rq_block_number_column rq = Some bn \<Longrightarrow>
      \<exists>f. field_with_name (ct_schema t) bn = Some f \<and> is_integer (f_type f) \<and> (data ! r) bn \<noteq> Some CNull"
    and asks: "asks_row X rq picks (data ! r)"
  shows "window_kept T (ct_schema t) rq stats window"
proof -
  let ?row = "data ! r"
  have row: "row_of_schema (ct_schema t) ?row" "?row \<in> set data" using t r by (simp_all add: table_holds_def rows_of_schema_def list_all_length)
  have "\<not> (case Option.bind (rq_block_number_column rq) (window_blocks (ct_schema t) stats window) of
      None \<Rightarrow> False
    | Some (lo, hi) \<Rightarrow> (case rq_from_block rq of None \<Rightarrow> False | Some from_block \<Rightarrow> hi < from_block) \<or>
        (case rq_to_block rq of None \<Rightarrow> False | Some to_block \<Rightarrow> lo > to_block))"
  proof (cases "Option.bind (rq_block_number_column rq) (window_blocks (ct_schema t) stats window)")
    case (Some e)
    then obtain bn lo hi where e: "e = (lo, hi)" "rq_block_number_column rq = Some bn"
      "window_blocks (ct_schema t) stats window bn = Some (lo, hi)" by (cases e) (auto simp: bind_eq_Some_conv)
    from bn [OF e(2)] row_has_block [OF row(1)] obtain ty v where v: "?row bn = Some (CInt ty v)" by blast
    have "lo \<le> unsigned_bits ty v \<and> unsigned_bits ty v \<le> hi" by (rule window_blocks_between [OF t s w e(3) r v])
    moreover have "within_bounds (rq_from_block rq) (rq_to_block rq) (unsigned_bits ty v)"
      using asks by (simp add: asks_row_def in_request_blocks_def in_blocks_def e(2) v)
    ultimately show ?thesis using Some e(1) by (auto simp: within_bounds_def split: option.splits)
  qed simp
  moreover have "\<not> (rq_predicates rq \<noteq> [] \<and>
      list_all (\<lambda>p. can_skip_row_group p (window_range T (ct_schema t) stats window)) (rq_predicates rq))"
  proof
    assume skip: "rq_predicates rq \<noteq> [] \<and>
      list_all (\<lambda>p. can_skip_row_group p (window_range T (ct_schema t) stats window)) (rq_predicates rq)"
    have "stats_cover (window_range T (ct_schema t) stats window) ?row"
      unfolding stats_cover_def
    proof (intro allI impI)
      fix name sr
      assume sr: "window_range T (ct_schema t) stats window name = Some sr"
      show "\<exists>c. ?row name = Some c \<and> covers sr c" by (rule window_range_covers [OF T t s w sr r])
    qed
    with skip rq have "\<not> row_admits X p ?row" if "p \<in> set (rq_predicates rq)" for p
      using can_skip_row_group_sound that by (fastforce simp: request_ok_def list_all_iff)
    with skip asks show False by (auto simp: asks_row_def item_asks_def list_ex_iff)
  qed
  moreover have "\<not> (case rq_key_filter rq of
      None \<Rightarrow> False
    | Some kf \<Rightarrow>
        (case window_blocks (ct_schema t) stats window (kf_block_number_column kf) of
           None \<Rightarrow> False
         | Some (lo, hi) \<Rightarrow> \<not> has_block_within kf lo hi))"
  proof (cases "rq_key_filter rq")
    case (Some kf)
    have "picks ?row" using asks by (simp add: asks_row_def)
    with rel row(2) obtain ty v where v: "?row (kf_block_number_column kf) = Some (CInt ty v)"
      "\<And>lo hi. lo \<le> unsigned_bits ty v \<and> unsigned_bits ty v \<le> hi \<Longrightarrow> has_block_within kf lo hi"
      by (auto simp: relation_picks_def Some)
    have "has_block_within kf lo hi" if "window_blocks (ct_schema t) stats window (kf_block_number_column kf) = Some (lo, hi)" for lo hi
    proof -
      have "lo \<le> unsigned_bits ty v \<and> unsigned_bits ty v \<le> hi" by (rule window_blocks_between [OF t s w that r v(1)])
      then show ?thesis by (rule v(2))
    qed
    then show ?thesis by (auto simp: Some split: option.splits)
  qed simp
  ultimately show ?thesis unfolding window_kept_def Let_def by blast
qed

text \<open>The candidate rows: ranges in order, with every row that is asked for among them.\<close>

lemma candidate_rows_sound:
  assumes T: "table_kernels_ok T" and t: "table_holds t data" and rq: "request_ok rq"
    and rel: "relation_picks R (ct_schema t) data rq picks readable"
    and bn: "\<And>r bn. r < length data \<Longrightarrow> rq_block_number_column rq = Some bn \<Longrightarrow>
      \<exists>f. field_with_name (ct_schema t) bn = Some f \<and> is_integer (f_type f) \<and> (data ! r) bn \<noteq> Some CNull"
    and ranges: "candidate_rows T t rq = Inr ranges"
  shows "ranges_ok (length data) ranges \<and>
    filter (\<lambda>r. asks_row X rq picks (data ! r)) (positions_of ranges) = answer_rows X rq picks data"
proof (cases "ct_num_rows t = 0")
  case True
  with ranges t show ?thesis by (simp add: candidate_rows_def answer_rows_def table_holds_def ranges_ok_def)
next
  case False
  let ?n = "length data" and ?fs = "ct_schema t"
  have n: "ct_num_rows t = ?n" using t by (simp add: table_holds_def)
  from ranges False obtain stats offsets where fold: "try_fold (add_stats t) (wanted_columns rq) (Map.empty, None) = Inr (stats, offsets)"
    and out: "ranges = (case offsets of None \<Rightarrow> [(0, ?n)] | Some os \<Rightarrow>
      fold (\<lambda>window ranges. if window_kept T ?fs rq stats window then push_range (os ! window, os ! Suc window) ranges else ranges)
        [0..<length os - 1] [])"
    by (auto simp: candidate_rows_def and_then_Inr_iff n split: option.splits)
  have s: "stats_from t (stats, offsets)" by (rule stats_fold_from [OF fold]) (simp add: stats_from_def)
  show ?thesis
  proof (cases offsets)
    case None
    with out False show ?thesis by (simp add: answer_rows_def ranges_ok_def n)
  next
    case (Some os)
    with s obtain ws where "windows_cover ws (ct_num_rows t)" "os = ws_offsets ws" by (auto simp: stats_from_def)
    then have os: "os \<noteq> []" "os ! 0 = 0" "last os = ?n" "sorted os" by (auto simp: windows_cover_iff n)
    then have m: "length os - 1 < length os" "os ! (length os - 1) = ?n" by (simp_all add: last_conv_nth)
    have "window_kept T ?fs rq stats window"
      if w: "window < length os - 1" "r \<in> {os ! window..<os ! Suc window}" and asks: "asks_row X rq picks (data ! r)" for window r
    proof -
      have "os ! Suc window \<le> os ! (length os - 1)" using os(4) w(1) by (intro sorted_nth_mono) auto
      then have r: "r < ?n" using w(2) m(2) by simp
      have ws: "window < length (ws_offsets ws) - 1 \<and> r \<in> {ws_offsets ws ! window..<ws_offsets ws ! Suc window}"
        if "stats name = Some ws" for name ws
      proof -
        from s that have "offsets = Some (ws_offsets ws)" unfolding stats_from_def prod.case by blast
        with w Some show ?thesis by simp
      qed
      show ?thesis by (rule window_kept_sound [OF T t s ws r rq rel bn [OF r] asks])
    qed
    from candidate_filter [OF os(4) m(1) os(2) m(2) this] candidate_ranges [OF os(4) m(1) os(2), of ?n "window_kept T ?fs rq stats"] m(2)
    show ?thesis by (simp add: out Some Let_def answer_rows_def)
  qed
qed

section \<open>Facts on reads\<close>

lemma ascending_remdups_adj: "sorted (xs :: nat list) \<Longrightarrow> sorted_wrt (<) (remdups_adj xs)"
  by (induction xs rule: remdups_adj.induct) (auto simp: less_le)

lemma column_indices_ok:
  "sorted_wrt (<) (column_indices fs names) \<and> (\<forall>k \<in> set (column_indices fs names). k < length fs) \<and>
   set (map (\<lambda>k. f_name (fs ! k)) (column_indices fs names)) = set names \<inter> set (field_names fs)"
proof -
  let ?found = "List.map_filter (index_of (field_names fs)) names"
  have found: "set ?found = {k. \<exists>name \<in> set names. index_of (field_names fs) name = Some k}"
    by (rule set_eqI) (simp add: in_map_filter)
  have at: "k < length fs \<and> f_name (fs ! k) = name" if "index_of (field_names fs) name = Some k" for k name
    using index_of_Some [OF that] by (auto simp: field_names_def)
  have "sorted_wrt (<) (remdups_adj (sort ?found))" by (rule ascending_remdups_adj) simp
  moreover have "\<forall>k \<in> set ?found. k < length fs" using at by (auto simp: found)
  moreover have "f_name ` (!) fs ` set ?found = set names \<inter> set (field_names fs)"
  proof
    show "f_name ` (!) fs ` set ?found \<subseteq> set names \<inter> set (field_names fs)"
    proof
      fix x assume "x \<in> f_name ` (!) fs ` set ?found"
      then obtain k name where k: "x = f_name (fs ! k)" "name \<in> set names" "index_of (field_names fs) name = Some k"
        by (auto simp: found)
      with at [OF k(3)] index_of_Some [OF k(3)] show "x \<in> set names \<inter> set (field_names fs)" by (metis IntI nth_mem)
    qed
    show "set names \<inter> set (field_names fs) \<subseteq> f_name ` (!) fs ` set ?found"
    proof
      fix name assume "name \<in> set names \<inter> set (field_names fs)"
      then obtain k where k: "index_of (field_names fs) name = Some k" "name \<in> set names"
        by (cases "index_of (field_names fs) name") auto
      then have "k \<in> set ?found" by (auto simp: found)
      with at [OF k(1)] show "name \<in> f_name ` (!) fs ` set ?found" by force
    qed
  qed
  ultimately show ?thesis by (simp add: column_indices_def image_image)
qed

lemma length_positions_of: "ranges_ok n rs \<Longrightarrow> length (positions_of rs) = sum_list (map (\<lambda>(lo, hi). hi - lo) rs)"
  by (induction rs) (auto simp: ranges_ok_def)

lemma asked_rows_named:
  assumes "case ranges of None \<Rightarrow> True | Some rs \<Rightarrow> ranges_ok n rs"
  shows "asked_rows t ranges = length (named_rows t ranges)"
  using assms length_positions_of by (auto simp: asked_rows_def named_rows_def split: option.splits)

lemma positions_below: "ranges_ok n rs \<Longrightarrow> r \<in> set (positions_of rs) \<Longrightarrow> r < n"
  by (induction rs) (auto simp: ranges_ok_def)

lemma column_at_index:
  "index_of (column_names b) name = Some i \<Longrightarrow> column_by_name b name = Some (snd (b_columns b ! i)) \<and>
     i < length (b_columns b) \<and> fst (b_columns b ! i) = name"
proof -
  have "index_of (map fst cols) name = Some i \<Longrightarrow> map_of cols name = Some (snd (cols ! i))" for cols :: "(string \<times> array) list"
    by (induction cols arbitrary: i) (auto split: if_splits)
  then show "index_of (column_names b) name = Some i \<Longrightarrow> ?thesis"
    using index_of_Some [of "column_names b" name i] by (auto simp: column_by_name_def column_names_def)
qed

text \<open>What a checked read returns shows the rows it was asked for, in exactly the columns it was asked for.\<close>

lemma checked_read_shows:
  assumes B: "batch_kernels_ok B" and t: "table_holds t data"
    and columns: "sorted_wrt (<) columns" "\<forall>k \<in> set columns. k < length (ct_schema t)"
    and ranges: "case ranges of None \<Rightarrow> True | Some rs \<Rightarrow> ranges_ok (length data) rs"
    and read: "checked_read B t columns ranges = Inr b"
  shows "shows_rows (ct_schema t) data (map (\<lambda>k. f_name (ct_schema t ! k)) columns) (named_rows t ranges) b \<and>
    column_names b = map (\<lambda>k. f_name (ct_schema t ! k)) columns"
proof -
  let ?fs = "ct_schema t" and ?rs = "named_rows t ranges"
  let ?name = "\<lambda>k. f_name (?fs ! k)"
  have n: "ct_num_rows t = length data" and schema: "rows_of_schema ?fs data" using t by (simp_all add: table_holds_def)
  from read obtain b0 returned where b0: "ct_read t columns ranges = Inr b0" "b_num_rows b0 = asked_rows t ranges"
    and returned: "list_all2 (\<lambda>k at. returned_column ?fs b0 k = Inr at) columns returned" and b: "bk_project B b0 returned = Inr b"
    by (auto simp: checked_read_def and_then_Inr_iff try_collect_Inr_iff)
  have len: "b_num_rows b0 = length ?rs" using b0(2) asked_rows_named [OF ranges] by simp
  have promise: "batch_ok b0 \<and> (\<forall>k \<in> set columns. \<forall>a. column_by_name b0 (?name k) = Some a \<and> data_type_of a = f_type (?fs ! k) \<longrightarrow>
      (\<forall>i < b_num_rows b0. (data ! (?rs ! i)) (?name k) = Some (cell_at a i)))"
    using t columns ranges b0(1) len unfolding table_holds_def by blast
  have at: "index_of (column_names b0) (?name k) = Some at \<and> data_type_of (snd (b_columns b0 ! at)) = f_type (?fs ! k)"
    if "returned_column ?fs b0 k = Inr at" for k at
  proof -
    from that obtain f where f: "?fs ! k = f" "(case index_of (column_names b0) (f_name f) of
        None \<Rightarrow> Inl (EngineError MalformedChunkData)
      | Some at \<Rightarrow> if data_type_of (snd (b_columns b0 ! at)) = f_type f then Inr at else Inl (EngineError MalformedChunkData)) = Inr at"
      by (auto simp: returned_column_def and_then_Inr_iff get_def split: if_splits)
    then show ?thesis by (cases "index_of (column_names b0) (f_name f)") (auto split: if_splits)
  qed
  define col where "col k = snd (b_columns b0 ! the (index_of (column_names b0) (?name k)))" for k
  have col: "column_by_name b0 (?name k) = Some (col k)" "data_type_of (col k) = f_type (?fs ! k)" "wf_array (col k)"
    "len (col k) = length ?rs" "i < length ?rs \<Longrightarrow> (data ! (?rs ! i)) (?name k) = Some (cell_at (col k) i)"
    if k: "k \<in> set columns" for k i
  proof -
    from k obtain j where "j < length columns" "columns ! j = k" by (auto simp: in_set_conv_nth)
    with returned obtain at where r: "returned_column ?fs b0 k = Inr at" by (auto simp: list_all2_conv_all_nth)
    note a = at [OF r] column_at_index [OF conjunct1 [OF at [OF r]]]
    then show c: "column_by_name b0 (?name k) = Some (col k)" "data_type_of (col k) = f_type (?fs ! k)" by (simp_all add: col_def)
    from promise batch_column [OF _ c(1)] len show "wf_array (col k)" "len (col k) = length ?rs" by simp_all
    from promise k c have "\<forall>i < b_num_rows b0. (data ! (?rs ! i)) (?name k) = Some (cell_at (col k) i)" by blast
    then show "i < length ?rs \<Longrightarrow> (data ! (?rs ! i)) (?name k) = Some (cell_at (col k) i)" by (simp add: len)
  qed
  have "j < length (b_columns b0)" if "j \<in> set returned" for j
  proof -
    from that obtain i where "i < length returned" "returned ! i = j" by (auto simp: in_set_conv_nth)
    with returned have "returned_column ?fs b0 (columns ! i) = Inr j" by (auto simp: list_all2_conv_all_nth)
    with column_at_index [OF conjunct1 [OF at]] show ?thesis by blast
  qed
  with B b have b_eq: "b = \<lparr>b_columns = map ((!) (b_columns b0)) returned, b_num_rows = b_num_rows b0\<rparr>"
    by (auto simp: batch_kernels_ok_def list_all_iff)
  have cols: "b_columns b = map (\<lambda>k. (?name k, col k)) columns"
  proof -
    have "b_columns b0 ! j = (?name k, col k)" if "returned_column ?fs b0 k = Inr j" for k j
      using at [OF that] column_at_index [of b0 "?name k" j] by (simp add: col_def prod_eq_iff)
    with returned have "map ((!) (b_columns b0)) returned = map (\<lambda>k. (?name k, col k)) columns"
      by (auto simp: list_all2_conv_all_nth intro!: nth_equalityI)
    then show ?thesis by (simp add: b_eq)
  qed
  have by_name: "column_by_name b name = Some a \<longleftrightarrow> (\<exists>k \<in> set columns. name = ?name k \<and> a = col k)" for name a
  proof -
    have "map_of (map (\<lambda>k. (?name k, col k)) ks) name = Some a \<longleftrightarrow> (\<exists>k \<in> set ks. name = ?name k \<and> a = col k)"
      if "set ks \<subseteq> set columns" for ks
      using that
    proof (induction ks)
      case (Cons k ks)
      have same: "?name k' = ?name k \<Longrightarrow> col k' = col k" for k' by (simp add: col_def)
      show ?case
      proof (cases "name = ?name k")
        case True
        have "(\<exists>k' \<in> set (k # ks). name = ?name k' \<and> a = col k') \<longleftrightarrow> a = col k"
          using same True by (metis list.set_intros(1))
        moreover have "map_of (map (\<lambda>k. (?name k, col k)) (k # ks)) name = Some (col k)" using True by simp
        ultimately show ?thesis by (simp only: option.inject eq_commute [of a])
      next
        case False
        with Cons show ?thesis by simp
      qed
    qed simp
    from this [of columns] show ?thesis by (simp add: column_by_name_def cols)
  qed
  have none: "column_by_name b name = None \<longleftrightarrow> name \<notin> set (map ?name columns)" for name
    using by_name [of name] by (cases "column_by_name b name") auto
  have rows: "r < length data" if "i < length ?rs" "r = ?rs ! i" for i r
    using that ranges positions_below n by (auto simp: named_rows_def split: option.splits)
  have num: "b_num_rows b = length ?rs" by (simp add: b_eq len)
  have "batch_ok b" using col(3, 4) by (auto simp: batch_ok_def list_all_iff cols num)
  moreover have "set (map ?name columns) \<subseteq> set (field_names ?fs)" using columns(2) by (auto simp: field_names_def)
  moreover have "\<exists>f. field_with_name ?fs name = Some f \<and> data_type_of a = f_type f" if a: "column_by_name b name = Some a" for name a
  proof -
    from a by_name obtain k where k: "k \<in> set columns" "name = ?name k" "a = col k" by blast
    have "index_of (field_names ?fs) name = Some k"
    proof -
      from columns(2) k have kk: "k < length (field_names ?fs)" "field_names ?fs ! k = name" by (simp_all add: field_names_def)
      then obtain j where "index_of (field_names ?fs) name = Some j" by (cases "index_of (field_names ?fs) name") auto
      with index_of_Some [OF this] kk schema show ?thesis by (auto simp: rows_of_schema_def nth_eq_iff_index_eq)
    qed
    with col(2) k show ?thesis by (simp add: field_with_name_def)
  qed
  moreover have "row_at b i = only (map ?name columns) (data ! (?rs ! i))" if i: "i < length ?rs" for i
  proof
    fix name
    show "row_at b i name = only (map ?name columns) (data ! (?rs ! i)) name"
    proof (cases "column_by_name b name")
      case None
      with none show ?thesis by (simp add: row_at_def only_def)
    next
      case (Some a)
      with by_name obtain k where "k \<in> set columns" "name = ?name k" "a = col k" by blast
      with Some col(5) [OF this(1) i] show ?thesis by (simp add: row_at_def only_def)
    qed
  qed
  ultimately show ?thesis using rows num by (simp add: shows_rows_def column_names_def cols comp_def)
qed

section \<open>Facts on the masks\<close>

lemma narrow_all: "length keep = n \<Longrightarrow> narrow keep (all_mask n True) = keep"
  by (rule nth_equalityI) (simp_all add: narrow_def)

text \<open>The mask of a batch: each of its rows is kept exactly when it is asked for.\<close>

lemma row_masks_ask:
  assumes K: "kernels_ok K" and rq: "request_ok rq" and c: "checks_passed X K fs rq" and schema: "rows_of_schema fs data"
    and b: "shows_rows fs data names rs b" and rel: "relation_picks R fs data rq picks readable"
    and names: "set (concat (map required_columns (rq_predicates rq))) \<subseteq> set names" "set (filter_columns rq) \<subseteq> set names"
      "\<And>bn. rq_block_number_column rq = Some bn \<Longrightarrow> bn \<in> set names"
    and complete: "\<And>bn. rq_block_number_column rq = Some bn \<Longrightarrow> complete_blocks data bn"
  shows "\<exists>keep tags. row_masks X K R b rq = Inr (keep, tags) \<and>
    keep = map (\<lambda>r. Some (asks_row X rq picks (data ! r))) rs \<and>
    tags = map (\<lambda>items. map (\<lambda>r. Some (tag_matches X rq items (data ! r))) rs) (rq_item_tags rq)"
proof -
  let ?n = "b_num_rows b" and ?filters = "row_filters_of rq"
  have ok: "batch_ok b" "?n = length rs" and row_at: "\<And>i. i < length rs \<Longrightarrow> row_at b i = only names (data ! (rs ! i))"
    and inside: "\<And>i. i < length rs \<Longrightarrow> rs ! i < length data" using b by (auto simp: shows_rows_def)
  let ?bn = "the (rq_block_number_column rq)"
  define P1 where "P1 row = (case rf_blocks ?filters of None \<Rightarrow> True | Some (lo, hi) \<Rightarrow> in_blocks ?bn lo hi row)" for row
  have step1: "\<exists>keep. (case (rf_blocks ?filters, Option.bind (rq_block_number_column rq) (column_by_name b)) of
        (Some (lo, hi), Some a) \<Rightarrow> and_then (block_range_mask K a lo hi) (\<lambda>m. Inr (narrow (replicate ?n True) m))
      | _ \<Rightarrow> Inr (replicate ?n True)) = (Inr keep :: engine_error + bool list) \<and> length keep = ?n \<and> (\<forall>i < ?n. keep ! i \<longleftrightarrow> P1 (row_at b i))"
  proof (cases "rf_blocks ?filters")
    case None
    then show ?thesis by (simp add: P1_def)
  next
    case (Some e)
    then obtain lo hi where e: "e = (lo, hi)" by (cases e)
    from Some obtain bn where bn: "rq_block_number_column rq = Some bn" by (auto simp: row_filters_of_def Let_def split: if_splits)
    from checked_block_column [OF c bn] obtain f where f: "field_with_name fs bn = Some f" "is_integer (f_type f)" by blast
    have "blocks_readable K bn b" using K ok(1) b f by (fastforce simp: blocks_readable_def shows_rows_def)
    from blocks.unasked [OF this, of lo hi] obtain m where m: "block_mask K bn lo hi b = Inr m" "length m = ?n"
      "\<forall>i < ?n. keeps m i \<longleftrightarrow> in_blocks bn lo hi (row_at b i)" by blast
    show ?thesis
    proof (cases "column_by_name b bn")
      case None
      with m have "m = all_mask ?n True" by (simp add: block_mask_def)
      with m None show ?thesis by (simp add: Some e bn P1_def)
    next
      case a: (Some a)
      with m show ?thesis by (simp add: Some e bn P1_def block_mask_def narrow_def keeps_def)
    qed
  qed
  then obtain keep1 where keep1: "(case (rf_blocks ?filters, Option.bind (rq_block_number_column rq) (column_by_name b)) of
        (Some (lo, hi), Some a) \<Rightarrow> and_then (block_range_mask K a lo hi) (\<lambda>m. Inr (narrow (replicate ?n True) m))
      | _ \<Rightarrow> Inr (replicate ?n True)) = (Inr keep1 :: engine_error + bool list)" "length keep1 = ?n" "\<forall>i < ?n. keep1 ! i \<longleftrightarrow> P1 (row_at b i)" by blast
  have rf: "row_filter (relation_mask R (rf_relation ?filters)) picks (filter_columns rq) readable" and readable: "readable b"
    using rel names(2) b unfolding relation_picks_def by blast+
  from row_filter.narrowed [OF rf readable keep1(2), of P1] keep1(3) obtain m2 where
    m2: "relation_mask R (rf_relation ?filters) b (Some keep1) = Inr m2" "length (narrow keep1 m2) = ?n"
      "\<forall>i < ?n. narrow keep1 m2 ! i \<longleftrightarrow> P1 (row_at b i) \<and> picks (row_at b i)" by blast
  let ?keep2 = "narrow keep1 m2"
  have step2: "(case rf_relation ?filters of
        AddressRelation hf \<Rightarrow>
          and_then (ensure (rq_predicates rq = []) Panic) (\<lambda>_. Inr (narrow keep1 (hierarchical_mask hf b (Some keep1))))
      | KeyRelation kf \<Rightarrow> and_then (key_filter_mask R kf b (Some keep1)) (\<lambda>m. Inr (narrow keep1 m))
      | NoRelation \<Rightarrow> Inr keep1) = (Inr ?keep2 :: engine_error + bool list)"
  proof (cases "rf_relation ?filters")
    case NoRelation
    with m2(1) have "m2 = all_mask ?n True" by simp
    with NoRelation keep1(2) show ?thesis by (simp add: narrow_all)
  next
    case (AddressRelation hf)
    then have "rq_predicates rq = []" using rq by (auto simp: request_ok_def row_filters_of_def Let_def split: option.splits)
    with AddressRelation m2(1) show ?thesis by simp
  qed (use m2(1) in simp)
  have moved: "P1 (row_at b i) \<and> picks (row_at b i) \<longleftrightarrow> in_request_blocks rq (data ! (rs ! i)) \<and> picks (data ! (rs ! i))" if i: "i < length rs" for i
  proof -
    let ?row = "data ! (rs ! i)"
    have row: "row_of_schema fs ?row" "?row \<in> set data" using schema inside [OF i] by (simp_all add: rows_of_schema_def list_all_length)
    have "picks (row_at b i) = picks ?row" using row_filter.picks_only [OF rf names(2)] by (simp add: row_at [OF i])
    moreover have "P1 (row_at b i) = P1 ?row"
    proof (cases "rf_blocks ?filters")
      case (Some e)
      then have "\<exists>bn. rq_block_number_column rq = Some bn" by (auto simp: row_filters_of_def Let_def split: if_splits)
      then have "?bn \<in> set names" using names(3) by auto
      then show ?thesis by (simp add: P1_def Some row_at [OF i] in_blocks_def only_def split: prod.split)
    qed (simp add: P1_def)
    moreover have "P1 ?row \<and> picks ?row \<longleftrightarrow> in_request_blocks rq ?row \<and> picks ?row"
      unfolding P1_def
    proof (rule blocks_and_relation [OF row rel])
      show "\<exists>f. field_with_name fs bn = Some f \<and> is_integer (f_type f) \<and> ?row bn \<noteq> Some CNull"
        if "rq_block_number_column rq = Some bn" for bn
        using checked_block_column [OF c that] complete [OF that] row(2) by (auto simp: complete_blocks_def)
    qed
    ultimately show ?thesis by simp
  qed
  have keep2: "?keep2 = map (\<lambda>r. in_request_blocks rq (data ! r) \<and> picks (data ! r)) rs"
    using m2(2, 3) moved ok(2) by (intro nth_equalityI) simp_all
  show ?thesis
  proof (cases "rq_predicates rq = []")
    case True
    then have "row_masks X K R b rq = Inr (map Some ?keep2, map (\<lambda>_. all_mask ?n False) (rq_item_tags rq))"
      using keep1(1) step2 by (simp add: row_masks_def Let_def)
    moreover have "all_mask ?n False = map (\<lambda>r. Some (tag_matches X rq items (data ! r))) rs" for items
      by (rule nth_equalityI) (simp_all add: tag_matches_def True ok(2))
    ultimately show ?thesis by (simp add: keep2 asks_row_def item_asks_def True comp_def)
  next
    case False
    let ?items = "rq_predicates rq"
    have "items_readable X K ?items b" using K ok(1) rq checked_comparable [OF c rq b]
      by (auto simp: items_readable_def request_ok_def list_all_iff)
    from item_masks_keep [OF this] obtain masks where masks: "item_masks X K ?items b = Inr masks" "length masks = length ?items"
      "\<And>k. k < length ?items \<Longrightarrow> keeps_rows (masks ! k) ?n (\<lambda>i. row_admits X (?items ! k) (row_at b i))" by auto
    have admits: "row_admits X (?items ! k) (row_at b i) = row_admits X (?items ! k) (data ! (rs ! i))"
      if "k < length ?items" "i < length rs" for k i
    proof -
      have "set (required_columns (?items ! k)) \<subseteq> set names" using names(1) that(1) by (auto simp: UN_subset_iff)
      then show ?thesis by (simp add: row_at [OF that(2)] row_admits_only)
    qed
    have "keeps_rows (or_masks K masks items ?n) ?n (\<lambda>i. \<exists>k \<in> set items. row_admits X (?items ! k) (data ! (rs ! i)))"
      if "\<forall>k \<in> set items. k < length ?items" for items
    proof (rule or_masks_keeps [OF K])
      show "keeps_rows (masks ! k) ?n (\<lambda>i. row_admits X (?items ! k) (data ! (rs ! i)))" if k: "k \<in> set items" for k
        using masks(3) \<open>\<forall>k \<in> set items. k < length ?items\<close> k admits
        by (intro keeps_rows_cong [OF masks(3)]) (simp_all add: ok(2))
    qed
    then have tag: "selected (or_masks K masks items ?n) = map (\<lambda>r. tag_matches X rq items (data ! r)) rs"
      if "\<forall>k \<in> set items. k < length ?items" for items
      using that by (intro nth_equalityI) (auto simp: keeps_rows_def tag_matches_def ok(2))
    have tags_ok: "list_all (list_all (\<lambda>item. item < length masks)) (rq_item_tags rq)"
      using rq False by (simp add: request_ok_def masks(2))
    have all: "selected (or_masks K masks [0..<length masks] ?n) = map (\<lambda>r. list_ex (\<lambda>p. row_admits X p (data ! r)) ?items) rs"
      using tag [of "[0..<length masks]"] by (simp add: masks(2) tag_matches_def list_ex_length Bex_def cong: conj_cong)
    have "row_masks X K R b rq = Inr (map Some (narrow ?keep2 (or_masks K masks [0..<length masks] ?n)),
        map (\<lambda>items. map Some (selected (or_masks K masks items ?n))) (rq_item_tags rq))"
      using keep1(1) step2 False masks(1) tags_ok by (simp add: row_masks_def Let_def)
    moreover have "narrow ?keep2 (or_masks K masks [0..<length masks] ?n) = map (\<lambda>r. asks_row X rq picks (data ! r)) rs"
      unfolding keep2 unfolding narrow_def all
      by (rule nth_equalityI) (simp_all add: asks_row_def item_asks_def False)
    moreover have "map (\<lambda>items. map Some (selected (or_masks K masks items ?n))) (rq_item_tags rq) =
        map (\<lambda>items. map (\<lambda>r. Some (tag_matches X rq items (data ! r))) rs) (rq_item_tags rq)"
    proof (rule map_cong [OF refl])
      fix items assume "items \<in> set (rq_item_tags rq)"
      with tags_ok have "\<forall>k \<in> set items. k < length ?items" by (auto simp: list_all_iff masks(2))
      from tag [OF this] show "map Some (selected (or_masks K masks items ?n)) = map (\<lambda>r. Some (tag_matches X rq items (data ! r))) rs"
        by simp
    qed
    ultimately show ?thesis by (simp add: comp_def)
  qed
qed

section \<open>Facts on the scan\<close>

lemma read_columns_names:
  "set (map (\<lambda>k. f_name (fs ! k)) (read_columns fs rq)) =
     (set (rq_output_columns rq) \<union> set (concat (map required_columns (rq_predicates rq))) \<union>
      (case rq_block_number_column rq of None \<Rightarrow> {} | Some bn \<Rightarrow> {bn}) \<union> set (filter_columns rq)) \<inter> set (field_names fs)"
  using column_indices_ok [of fs "rq_output_columns rq @ concat (map required_columns (rq_predicates rq)) @
      (case rq_block_number_column rq of None \<Rightarrow> [] | Some bn \<Rightarrow> [bn]) @ filter_columns rq"]
  by (auto simp: read_columns_def split: option.splits)

lemma true_count_none: "true_count (map (\<lambda>r. Some (P r)) rs) = 0 \<longleftrightarrow> filter P rs = []"
  by (auto simp: true_count_def filter_empty_conv)

lemma scan_answers_none: "answer_rows X rq picks data = [] \<Longrightarrow> scan_answers X fs rq picks data []"
  by (simp add: scan_answers_def)

lemma split_positions: "q \<in> set (split_batch B p limit) \<Longrightarrow> sb_positions q = None \<longleftrightarrow> sb_positions p = None"
  by (auto simp: split_batch_def slice_part_def Let_def split: if_splits)

lemma filtered_scan_answers:
  assumes K: "kernels_ok K" and B: "batch_kernels_ok B" and T: "table_kernels_ok T" and t: "table_holds t data"
    and rq: "request_ok rq" and c: "checks_passed X K (ct_schema t) rq" and rel: "relation_picks R (ct_schema t) data rq picks readable"
    and complete: "\<And>bn. rq_block_number_column rq = Some bn \<Longrightarrow> complete_blocks data bn"
    and scan: "filtered_scan X K R B T t rq = Inr parts"
  shows "scan_answers X (ct_schema t) rq picks data parts"
proof -
  let ?fs = "ct_schema t" and ?asks = "\<lambda>r. asks_row X rq picks (data ! r)"
  have schema: "rows_of_schema ?fs data" using t by (simp add: table_holds_def)
  have bn: "\<exists>f. field_with_name ?fs bn = Some f \<and> is_integer (f_type f) \<and> (data ! r) bn \<noteq> Some CNull"
    if "r < length data" "rq_block_number_column rq = Some bn" for r bn
    using checked_block_column [OF c that(2)] complete [OF that(2)] that(1) by (auto simp: complete_blocks_def)
  from scan obtain ranges where ranges: "candidate_rows T t rq = Inr ranges" by (auto simp: filtered_scan_def and_then_Inr_iff)
  note cand = candidate_rows_sound [OF T t rq rel bn ranges]
  let ?rs = "positions_of ranges"
  have answer: "filter ?asks ?rs = answer_rows X rq picks data" using cand by blast
  show ?thesis
  proof (cases "ranges = []")
    case True
    with scan ranges answer show ?thesis by (simp add: filtered_scan_def scan_answers_none)
  next
    case False
    with scan ranges obtain b keep tags where b: "checked_read B t (read_columns ?fs rq) (Some ranges) = Inr b"
      and masks: "row_masks X K R b rq = Inr (keep, tags)"
      and rest: "(if true_count keep = 0 then Inr []
        else and_then (project_batch T b (build_output_schema ?fs (rq_output_columns rq))) (\<lambda>projected.
          and_then (scanned_filter B \<lparr>sb_batch = projected, sb_positions = (if rq_positions rq then Some ?rs else None),
              sb_tags = tags\<rparr> keep) (\<lambda>scanned. Inr (split_batch B scanned (rq_batch_size rq))))) = Inr parts"
      by (auto simp: filtered_scan_def and_then_Inr_iff)
    let ?names = "map (\<lambda>k. f_name (?fs ! k)) (read_columns ?fs rq)"
    have columns: "sorted_wrt (<) (read_columns ?fs rq)" "\<forall>k \<in> set (read_columns ?fs rq). k < length ?fs"
      using column_indices_ok by (simp_all add: read_columns_def)
    have shows_b: "shows_rows ?fs data ?names ?rs b" "column_names b = ?names"
      using checked_read_shows [OF B t columns _ b] cand by (simp_all add: named_rows_def)
    have names: "set (concat (map required_columns (rq_predicates rq))) \<subseteq> set ?names" "set (filter_columns rq) \<subseteq> set ?names"
      using checked_columns [OF c] unfolding read_columns_names by blast+
    have bn_name: "bn \<in> set ?names" if "rq_block_number_column rq = Some bn" for bn
      using checked_block_column [OF c that] field_with_name_in [of bn ?fs] that unfolding read_columns_names by auto
    from row_masks_ask [OF K rq c schema shows_b(1) rel names bn_name complete] masks
    have keep: "keep = map (\<lambda>r. Some (?asks r)) ?rs"
      and tags: "tags = map (\<lambda>items. map (\<lambda>r. Some (tag_matches X rq items (data ! r))) ?rs) (rq_item_tags rq)" by auto
    show ?thesis
    proof (cases "true_count keep = 0")
      case True
      with rest have "parts = []" by simp
      moreover have "answer_rows X rq picks data = []" using True answer unfolding keep true_count_none by simp
      ultimately show ?thesis by (simp add: scan_answers_none)
    next
      case some: False
      with rest obtain projected scanned where projected: "project_batch T b (build_output_schema ?fs (rq_output_columns rq)) = Inr projected"
        and scanned: "scanned_filter B \<lparr>sb_batch = projected, sb_positions = (if rq_positions rq then Some ?rs else None), sb_tags = tags\<rparr> keep = Inr scanned"
        and parts: "parts = split_batch B scanned (rq_batch_size rq)"
        by (auto simp: and_then_Inr_iff simp del: true_count_0)
      have "build_output_schema ?fs (rq_output_columns rq) \<noteq> []"
        using projected T by (auto simp: project_batch_def table_kernels_ok_def fields_fit_def)
      moreover have "set (rq_output_columns rq) \<inter> set (field_names ?fs) \<subseteq> set ?names" unfolding read_columns_names by blast
      ultimately have rows: "b_num_rows projected = length ?rs" "batch_rows projected = map (\<lambda>r. only (rq_output_columns rq) (data ! r)) ?rs"
        using project_batch_rows [OF T schema shows_b(1), of "rq_output_columns rq"] projected shows_b(2) by auto
      let ?s = "\<lparr>sb_batch = projected, sb_positions = (if rq_positions rq then Some ?rs else None), sb_tags = tags\<rparr>"
      have ok: "scanned_batch_ok ?s" by (auto simp: scanned_batch_ok_def part_ok_def rows(1) tags list_all_iff)
      have "shaped (output_types ?fs rq) projected"
        using project_batch_shaped [OF T _ projected] shows_b(1) by (simp add: shows_rows_def output_types_def)
      then have shape: "shaped (output_types ?fs rq) (sb_batch scanned)"
        using shaped_filter [OF B, of _ projected keep "sb_batch scanned"] scanned rows(1) keep
        by (auto simp: scanned_filter_def and_then_Inr_iff)
      have view: "sb_view ?s = map (row_view rq data) ?rs"
        by (rule nth_equalityI) (simp_all add: sb_view_def batch_view_def rows row_view_def)
      from scanned_filter_view [OF B ok, of keep] scanned rows(1) keep
      have s: "scanned_batch_ok scanned" "sb_view scanned = select keep (sb_view ?s)" "sb_tags scanned = map (select keep) tags"
        "sb_positions scanned = None \<longleftrightarrow> \<not> rq_positions rq" by auto
      have "sb_view scanned = map (row_view rq data) (answer_rows X rq picks data)"
        by (simp only: s(2) view keep select_filter answer)
      moreover have "sb_tags scanned = map (\<lambda>items. map (\<lambda>r. Some (tag_matches X rq items (data ! r))) (answer_rows X rq picks data)) (rq_item_tags rq)"
        by (simp add: s(3) tags keep comp_def select_filter answer)
      moreover have "sb_positions p \<noteq> None \<longleftrightarrow> rq_positions rq" if "p \<in> set parts" for p
        using split_positions [OF that [unfolded parts]] s(4) by simp
      ultimately show ?thesis
        using split_batch_view [OF B s(1), of "rq_batch_size rq"] shaped_split [OF B s(1) shape]
        unfolding scan_answers_def parts by (simp add: list_all_iff)
    qed
  qed
qed

section \<open>The table a reader keeps open\<close>

definition open_ok :: "row list \<Rightarrow> open_table \<Rightarrow> bool" where
  "open_ok data ot \<longleftrightarrow> table_holds (ot_table ot) data \<and> (\<forall>bn \<in> set (ot_complete_blocks ot). complete_blocks data bn)"

lemma read_whole_column:
  assumes B: "batch_kernels_ok B" and t: "table_holds t data" and f: "field_with_name (ct_schema t) bn = Some f" "is_integer (f_type f)"
    and index: "index_of (field_names (ct_schema t)) bn = Some index"
    and read: "checked_read B t [index] None = Inr b" and a: "get (b_columns b) 0 = Some (name, a)" and nulls: "null_count a = 0"
  shows "complete_blocks data bn"
proof -
  let ?fs = "ct_schema t"
  have k: "index < length ?fs" "f_name (?fs ! index) = bn" "?fs ! index = f"
    using index_of_Some [OF index] f(1) index by (auto simp: field_names_def field_with_name_def)
  have n: "ct_num_rows t = length data" using t by (simp add: table_holds_def)
  have b: "shows_rows ?fs data [bn] [0..<length data] b" "column_names b = [bn]"
    using checked_read_shows [OF B t _ _ _ read] k n by (simp_all add: named_rows_def)
  then have cols: "b_columns b = [(bn, a)]" using a by (auto simp: column_names_def get_def split: if_splits)
  then have c: "column_by_name b bn = Some a" by (simp add: column_by_name_def)
  have ok: "batch_ok b" "b_num_rows b = length data" using b(1) by (simp_all add: shows_rows_def)
  note wf = batch_column [OF ok(1) c]
  obtain f' where "field_with_name ?fs bn = Some f'" "data_type_of a = f_type f'" using b(1) c unfolding shows_rows_def by blast
  then obtain ty where ty: "data_type_of a = DInt ty" using f by (auto simp: is_integer_iff)
  have "(data ! i) bn \<noteq> Some CNull" if i: "i < length data" for i
  proof -
    have "row_at b i = only [bn] (data ! i)" using b(1) i by (simp add: shows_rows_def)
    from fun_cong [OF this, of bn] have "(data ! i) bn = Some (cell_at a i)" using c by (simp add: row_at_def only_def)
    moreover have "\<not> is_null a i" using null_count_0 [OF nulls] wf ok(2) i by simp
    ultimately show ?thesis using ty by (cases a) (auto simp: is_null_def)
  qed
  then show ?thesis by (auto simp: complete_blocks_def in_set_conv_nth)
qed

lemma ensure_block_numbers_ok:
  assumes B: "batch_kernels_ok B" and ot: "open_ok data ot" and e: "ensure_block_numbers_readable B rq ot = (res, ot')"
  shows "open_ok data ot' \<and> ot_table ot' = ot_table ot \<and>
    (res = Inr () \<longrightarrow> (\<exists>found. nullable_block_numbers (ct_schema (ot_table ot)) rq = Inr found) \<and>
      (\<forall>bn. rq_block_number_column rq = Some bn \<longrightarrow> complete_blocks data bn))"
proof -
  let ?t = "ot_table ot" let ?fs = "ct_schema ?t"
  have t: "table_holds ?t data" using ot by (simp add: open_ok_def)
  have strict: "complete_blocks data bn"
    if "field_with_name ?fs bn = Some f" "\<not> f_nullable f" for bn f
    using t that field_with_name_Some [OF that(1)]
    by (fastforce simp: table_holds_def rows_of_schema_def list_all_iff row_of_schema_def typed_cell_def complete_blocks_def)
  show ?thesis
  proof (cases "nullable_block_numbers ?fs rq")
    case (Inl x)
    with e ot show ?thesis by (auto simp: ensure_block_numbers_readable_def)
  next
    case (Inr found)
    have found: "(found = None \<longrightarrow> (\<forall>bn. rq_block_number_column rq = Some bn \<longrightarrow> complete_blocks data bn)) \<and>
        (\<forall>bn. found = Some bn \<longrightarrow> rq_block_number_column rq = Some bn \<and> (\<exists>f. field_with_name ?fs bn = Some f \<and> is_integer (f_type f)))"
      using Inr strict by (auto simp: nullable_block_numbers_def and_then_Inr_iff split: option.splits if_splits)
    show ?thesis
    proof (cases found)
      case None
      with e ot Inr found show ?thesis by (auto simp: ensure_block_numbers_readable_def)
    next
      case (Some bn)
      with found obtain f where f: "rq_block_number_column rq = Some bn" "field_with_name ?fs bn = Some f" "is_integer (f_type f)" by blast
      show ?thesis
      proof (cases "bn \<in> set (ot_complete_blocks ot)")
        case True
        with e ot Inr Some f show ?thesis by (auto simp: ensure_block_numbers_readable_def open_ok_def)
      next
        case False
        let ?read = "and_then (ok_or Untyped (index_of (field_names ?fs) bn)) (\<lambda>index.
            and_then (checked_read B ?t [index] None) (\<lambda>b.
            and_then (ok_or Panic (get (b_columns b) 0)) (\<lambda>(_, a). ensure (null_count a = 0) (EngineError MalformedChunkData))))"
        have e': "(case ?read of Inl e \<Rightarrow> (Inl e, ot) | Inr _ \<Rightarrow> (Inr (), ot\<lparr>ot_complete_blocks := bn # ot_complete_blocks ot\<rparr>)) = (res, ot')"
          using e False by (simp add: ensure_block_numbers_readable_def Inr Some)
        show ?thesis
        proof (cases ?read)
          case (Inl x)
          with e' ot show ?thesis by auto
        next
          case r: (Inr u)
          then obtain index b name a where "index_of (field_names ?fs) bn = Some index" "checked_read B ?t [index] None = Inr b"
            "get (b_columns b) 0 = Some (name, a)" "null_count a = 0"
            by (auto simp: and_then_Inr_iff)
          from read_whole_column [OF B t f(2,3) this] e' r ot f(1) Inr show ?thesis by (auto simp: open_ok_def)
        qed
      qed
    qed
  qed
qed

lemma extend_ranges_positions:
  assumes "sorted_wrt (<) (map fst rs' @ rows)" and "ranges_ok n rs" and "\<forall>r \<in> set rows. r < n"
    and "rs \<noteq> [] \<Longrightarrow> \<forall>r \<in> set rows. snd (last rs) \<le> r" and "rs' = []"
  shows "ranges_ok n (fold extend_ranges rows rs) \<and> positions_of (fold extend_ranges rows rs) = positions_of rs @ rows"
  using assms
proof (induction rows arbitrary: rs)
  case (Cons r rows)
  have e: "extend_ranges r rs = push_range (r, r + 1) rs" by (simp add: extend_ranges_def push_range_def)
  have p: "ranges_ok n (extend_ranges r rs) \<and> positions_of (extend_ranges r rs) = positions_of rs @ [r] \<and>
      (extend_ranges r rs \<noteq> [] \<longrightarrow> snd (last (extend_ranges r rs)) \<le> r + 1)"
    using push_range_ok [OF Cons.prems(2), of r "r + 1"] Cons.prems(3, 4) unfolding e by simp
  have "ranges_ok n (fold extend_ranges rows (extend_ranges r rs)) \<and>
      positions_of (fold extend_ranges rows (extend_ranges r rs)) = positions_of (extend_ranges r rs) @ rows"
  proof (rule Cons.IH)
    show "sorted_wrt (<) (map fst rs' @ rows)" using Cons.prems(1, 5) by simp
    show "ranges_ok n (extend_ranges r rs)" using p by blast
    show "\<forall>r \<in> set rows. r < n" using Cons.prems(3) by simp
    show "\<forall>r' \<in> set rows. snd (last (extend_ranges r rs)) \<le> r'" if "extend_ranges r rs \<noteq> []"
      using p that Cons.prems(1, 5) by (auto intro: Suc_leI order_trans)
  qed (rule Cons.prems(5))
  with p show ?case by simp
qed simp

text \<open>Rows read back by position: these rows, in their order, with no row matched by an item.\<close>

definition positions_answer :: "schema \<Rightarrow> 'a table_request_scheme \<Rightarrow> row list \<Rightarrow> nat list \<Rightarrow> scanned_batch list \<Rightarrow> bool" where
  "positions_answer fs rq data rows parts \<longleftrightarrow>
     list_all (\<lambda>p. shaped (output_types fs rq) (sb_batch p)) parts \<and>
     list_all (\<lambda>p. scanned_batch_ok p \<and> (sb_positions p \<noteq> None \<longleftrightarrow> rq_positions rq) \<and>
       length (sb_tags p) = length (rq_item_tags rq)) parts \<and>
     concat (map sb_view parts) = map (row_view rq data) rows \<and>
     (\<forall>k < length (rq_item_tags rq). concat (map (\<lambda>p. sb_tags p ! k) parts) = all_mask (length rows) False)"

lemma read_positions_answer:
  assumes B: "batch_kernels_ok B" and T: "table_kernels_ok T" and t: "table_holds t data"
    and read: "read_positions B T t rq rows (build_output_schema (ct_schema t) (rq_output_columns rq)) = Inr parts"
  shows "sorted_wrt (<) rows \<and> (\<forall>r \<in> set rows. r < length data) \<and> positions_answer (ct_schema t) rq data rows parts"
proof -
  let ?fs = "ct_schema t"
  have n: "ct_num_rows t = length data" and schema: "rows_of_schema ?fs data" using t by (simp_all add: table_holds_def)
  from read have rows: "sorted_wrt (<) rows" "rows = [] \<or> last rows < length data"
    by (auto simp: read_positions_def and_then_Inr_iff adjacent_ascending n)
  have below: "r < length data" if r: "r \<in> set rows" for r
  proof -
    from r have l: "rows = butlast rows @ [last rows]" by (cases rows rule: rev_cases) simp_all
    have "sorted_wrt (<) (butlast rows @ [last rows])" using rows(1) l by simp
    then have "r \<le> last rows" using r by (subst (asm) l) (auto simp: sorted_wrt_append)
    with rows(2) r show ?thesis by auto
  qed
  show ?thesis
  proof (cases "rows = []")
    case True
    with read rows(1) show ?thesis by (simp add: read_positions_def positions_answer_def all_mask_def)
  next
    case False
    let ?ranges = "fold extend_ranges rows []"
    have ranges: "ranges_ok (length data) ?ranges" "positions_of ?ranges = rows"
      using extend_ranges_positions [of "[]" rows "length data" "[]"] rows(1) below by (simp_all add: ranges_ok_def)
    from read False obtain b projected where b: "checked_read B t (column_indices ?fs (rq_output_columns rq)) (Some ?ranges) = Inr b"
      and projected: "project_batch T b (build_output_schema ?fs (rq_output_columns rq)) = Inr projected"
      and parts: "parts = split_batch B (untagged rq projected (if rq_positions rq then Some rows else None)) (rq_batch_size rq)"
      by (auto simp: read_positions_def and_then_Inr_iff Let_def)
    note ci = column_indices_ok [of ?fs "rq_output_columns rq"]
    let ?names = "map (\<lambda>k. f_name (?fs ! k)) (column_indices ?fs (rq_output_columns rq))"
    have s: "shows_rows ?fs data ?names rows b" "column_names b = ?names"
      using checked_read_shows [OF B t _ _ _ b] ci ranges by (simp_all add: named_rows_def)
    have "build_output_schema ?fs (rq_output_columns rq) \<noteq> []"
      using projected T by (auto simp: project_batch_def table_kernels_ok_def fields_fit_def)
    then have p: "b_num_rows projected = length rows" "batch_rows projected = map (\<lambda>r. only (rq_output_columns rq) (data ! r)) rows"
      using project_batch_rows [OF T schema s(1), of "rq_output_columns rq"] projected s(2) ci by auto
    let ?s = "untagged rq projected (if rq_positions rq then Some rows else None)"
    have ok: "scanned_batch_ok ?s" by (auto simp: scanned_batch_ok_def untagged_def part_ok_def p(1) list_all_iff)
    have view: "sb_view ?s = map (row_view rq data) rows"
      by (rule nth_equalityI) (simp_all add: sb_view_def batch_view_def p row_view_def untagged_def)
    have "sb_positions q \<noteq> None \<longleftrightarrow> rq_positions rq" if "q \<in> set parts" for q
      using split_positions [OF that [unfolded parts]] by (simp add: untagged_def)
    moreover have "sb_tags ?s = map (\<lambda>_. all_mask (length rows) False) (rq_item_tags rq)" by (simp add: untagged_def p(1))
    moreover have "shaped (output_types ?fs rq) (sb_batch ?s)"
      using project_batch_shaped [OF T _ projected] s(1) by (simp add: shows_rows_def output_types_def untagged_def)
    ultimately have "positions_answer ?fs rq data rows parts"
      using split_batch_view [OF B ok, of "rq_batch_size rq"] shaped_split [OF B ok, where limit = "rq_batch_size rq"] view unfolding positions_answer_def parts by (simp add: list_all_iff)
    with rows(1) below show ?thesis by blast
  qed
qed

text \<open>A scan keeps what the reader knows of the table, and what it returns answers the request.\<close>

lemma columnar_scan_sound:
  assumes K: "kernels_ok K" and B: "batch_kernels_ok B" and T: "table_kernels_ok T" and ot: "open_ok data ot"
    and rq: "request_ok rq" and rel: "relation_picks R (ct_schema (ot_table ot)) data rq picks readable"
    and scan: "columnar_scan X K R B T rq ot = (res, ot')"
  shows "open_ok data ot' \<and> ot_table ot' = ot_table ot \<and>
    (\<forall>parts. res = Inr parts \<longrightarrow>
      (case rq_row_indices rq of None \<Rightarrow> scan_answers X (ct_schema (ot_table ot)) rq picks data parts
       | Some rows \<Rightarrow> sorted_wrt (<) rows \<and> (\<forall>r \<in> set rows. r < length data) \<and> positions_answer (ct_schema (ot_table ot)) rq data rows parts))"
proof (cases "and_then (ensure_columns_present (ct_schema (ot_table ot)) rq)
    (\<lambda>_. ensure_predicates_comparable X K (ct_schema (ot_table ot)) rq)")
  case (Inl e)
  with scan ot show ?thesis by (auto simp: columnar_scan_def Let_def)
next
  case (Inr u)
  let ?t = "ot_table ot" let ?fs = "ct_schema ?t"
  obtain res' ot'' where e: "ensure_block_numbers_readable B rq ot = (res', ot'')" by (cases "ensure_block_numbers_readable B rq ot")
  note ok = ensure_block_numbers_ok [OF B ot e]
  show ?thesis
  proof (cases res')
    case (Inl x)
    with scan Inr e ok show ?thesis by (auto simp: columnar_scan_def Let_def)
  next
    case r: (Inr v)
    have "ot' = ot''" and res: "res = (case rq_row_indices rq of
          Some rows \<Rightarrow> read_positions B T ?t rq rows (build_output_schema ?fs (rq_output_columns rq))
        | None \<Rightarrow> filtered_scan X K R B T ?t rq)"
      using scan Inr e r by (auto simp: columnar_scan_def Let_def)
    have c: "checks_passed X K ?fs rq" using Inr ok r by (auto simp: checks_passed_def and_then_Inr_iff)
    have t: "table_holds ?t data" using ot by (simp add: open_ok_def)
    have complete: "\<And>bn. rq_block_number_column rq = Some bn \<Longrightarrow> complete_blocks data bn" using ok r by simp
    have "case rq_row_indices rq of None \<Rightarrow> scan_answers X ?fs rq picks data parts
        | Some rows \<Rightarrow> sorted_wrt (<) rows \<and> (\<forall>r \<in> set rows. r < length data) \<and> positions_answer ?fs rq data rows parts"
      if parts: "res = Inr parts" for parts
    proof (cases "rq_row_indices rq")
      case None
      with res parts have "filtered_scan X K R B T ?t rq = Inr parts" by simp
      from filtered_scan_answers [OF K B T t rq c rel complete this] None show ?thesis by simp
    next
      case (Some rows)
      with res parts have "read_positions B T ?t rq rows (build_output_schema ?fs (rq_output_columns rq)) = Inr parts" by simp
      from read_positions_answer [OF B T t this] Some show ?thesis by simp
    qed
    with ok \<open>ot' = ot''\<close> show ?thesis by simp
  qed
qed

section \<open>The reader\<close>

text \<open>A request for a table of the chunk, with a relation that picks rows by what they hold.\<close>

type_synonym chunk_contents = "string \<Rightarrow> (schema \<times> row list) option"

definition well_made :: "row_kernels \<Rightarrow> chunk_contents \<Rightarrow> string \<times> table_request \<Rightarrow> bool" where
  "well_made R contents s \<longleftrightarrow> request_ok (snd s) \<and>
     (\<exists>fs data picks readable. contents (fst s) = Some (fs, data) \<and> relation_picks R fs data (snd s) picks readable)"

text \<open>
  A reader of chunks, as queries use one: it may remember what it read, and what a scan returns are the rows
  of the table that are asked for. \<open>contents\<close> are the tables of the chunk.
\<close>

locale chunk_reader =
  fixes scan_rows :: "string \<Rightarrow> table_request \<Rightarrow> 'r \<Rightarrow> (engine_error + scanned) \<times> 'r"
    and reads :: "chunk_contents \<Rightarrow> 'r \<Rightarrow> bool"
    and X :: externals and R :: row_kernels and B :: batch_kernels
  assumes keeps_reading: "reads contents r \<Longrightarrow> request_ok rq \<Longrightarrow> contents name = Some (fs, data) \<Longrightarrow>
      relation_picks R fs data rq picks readable \<Longrightarrow> reads contents (snd (scan_rows name rq r))"
    and answers: "reads contents r \<Longrightarrow> request_ok rq \<Longrightarrow> contents name = Some (fs, data) \<Longrightarrow>
      relation_picks R fs data rq picks readable \<Longrightarrow> rq_row_indices rq = None \<Longrightarrow>
      fst (scan_rows name rq r) = Inr sd \<Longrightarrow> scanned_answers X B fs rq picks data sd"
begin

text \<open>Scans one after the other, each with the relation it follows.\<close>

lemma scans_read: "reads contents r \<Longrightarrow> \<forall>s \<in> set ss. well_made R contents s \<Longrightarrow>
    reads contents (fold (\<lambda>s r. snd (scan_rows (fst s) (snd s) r)) ss r)"
  by (induction ss arbitrary: r) (auto simp: well_made_def intro: keeps_reading)

lemma answers_whatever_was_scanned:
  assumes "reads contents r" and "\<forall>s \<in> set ss. well_made R contents s" and "request_ok rq" and "contents name = Some (fs, data)"
    and "relation_picks R fs data rq picks readable" and "rq_row_indices rq = None"
    and "fst (scan_rows name rq (fold (\<lambda>s r. snd (scan_rows (fst s) (snd s) r)) ss r)) = Inr sd"
  shows "scanned_answers X B fs rq picks data sd"
  using answers [OF scans_read [OF assms(1, 2)] assms(3-7)] .

end

definition reader_ok :: "chunk_contents \<Rightarrow> columnar_reader \<Rightarrow> bool" where
  "reader_ok contents r \<longleftrightarrow>
     (\<forall>name t. cc_open_table (cr_chunk r) name = Inr (Some t) \<longrightarrow>
        (\<exists>data. contents name = Some (ct_schema t, data) \<and> table_holds t data)) \<and>
     (\<forall>(name, ot) \<in> set (cr_tables r). \<exists>data. contents name = Some (ct_schema (ot_table ot), data) \<and> open_ok data ot)"

lemma reader_table_ok:
  assumes r: "reader_ok contents r" and e: "reader_table name r = (res, r')"
  shows "reader_ok contents r' \<and> (\<forall>ot. res = Inr (Some ot) \<longrightarrow>
    (\<exists>data. contents name = Some (ct_schema (ot_table ot), data) \<and> open_ok data ot))"
proof (cases "map_of (cr_tables r) name")
  case (Some ot)
  with e have "res = Inr (Some ot)" "r' = r" by (simp_all add: reader_table_def)
  moreover from map_of_SomeD [OF Some] r have "\<exists>data. contents name = Some (ct_schema (ot_table ot), data) \<and> open_ok data ot"
    unfolding reader_ok_def by blast
  ultimately show ?thesis using r by auto
next
  case None
  show ?thesis
  proof (cases "\<exists>t. cc_open_table (cr_chunk r) name = Inr (Some t)")
    case True
    then obtain t where t: "cc_open_table (cr_chunk r) name = Inr (Some t)" ..
    let ?ot = "\<lparr>ot_table = t, ot_complete_blocks = []\<rparr>"
    from e None t have "res = Inr (Some ?ot)" "r' = r\<lparr>cr_tables := (name, ?ot) # cr_tables r\<rparr>"
      by (simp_all add: reader_table_def Let_def)
    moreover from r t obtain data where "contents name = Some (ct_schema t, data)" "table_holds t data" unfolding reader_ok_def by blast
    ultimately show ?thesis using r by (auto simp: reader_ok_def open_ok_def)
  next
    case False
    with e None have "r' = r" "\<forall>ot. res \<noteq> Inr (Some ot)" by (auto simp: reader_table_def split: sum.splits option.splits)
    with r show ?thesis by simp
  qed
qed

lemma columnar_scan_rows_sound:
  assumes K: "kernels_ok K" and B: "batch_kernels_ok B" and T: "table_kernels_ok T" and r: "reader_ok contents r"
    and rq: "request_ok rq" and data: "contents name = Some (fs, data)" and rel: "relation_picks R fs data rq picks readable"
    and scan: "columnar_scan_rows X K R B T name rq r = (res, r')"
  shows "reader_ok contents r' \<and>
    (\<forall>sd. res = Inr sd \<and> rq_row_indices rq = None \<longrightarrow> scanned_answers X B fs rq picks data sd)"
proof -
  obtain found r1 where f: "reader_table name r = (found, r1)" by (cases "reader_table name r")
  note ok = reader_table_ok [OF r f]
  show ?thesis
  proof (cases "\<exists>ot. found = Inr (Some ot)")
    case False
    with scan f have "r' = r1" "\<forall>sd. res \<noteq> Inr sd" by (auto simp: columnar_scan_rows_def split: sum.splits option.splits)
    with ok show ?thesis by simp
  next
    case True
    then obtain ot where ot: "found = Inr (Some ot)" ..
    obtain batches ot' where s: "columnar_scan X K R B T rq ot = (batches, ot')" by (cases "columnar_scan X K R B T rq ot")
    have res: "res = and_then batches (scanned_collect rq)" and r': "r' = r1\<lparr>cr_tables := (name, ot') # cr_tables r1\<rparr>"
      using scan f ot s by (simp_all add: columnar_scan_rows_def)
    from ok ot data have o: "ct_schema (ot_table ot) = fs" "open_ok data ot" by auto
    note sound = columnar_scan_sound [OF K B T o(2) rq _ s, unfolded o(1), OF rel]
    have "reader_ok contents r'"
      using ok sound data o(1) by (auto simp: reader_ok_def r')
    moreover have "scanned_answers X B fs rq picks data sd" if "res = Inr sd" "rq_row_indices rq = None" for sd
    proof -
      from that(1) res obtain parts where p: "batches = Inr parts" "scanned_collect rq parts = Inr sd" by (auto simp: and_then_Inr_iff)
      with sound that(2) have "scan_answers X fs rq picks data parts" by simp
      from collected_answers [OF B this] p(2) show ?thesis by auto
    qed
    ultimately show ?thesis by blast
  qed
qed

interpretation columnar: chunk_reader "columnar_scan_rows X K R B T"
  "\<lambda>contents r. kernels_ok K \<and> batch_kernels_ok B \<and> table_kernels_ok T \<and> reader_ok contents r" X R B
proof unfold_locales
  fix contents r and rq :: table_request and name fs data picks readable
  assume r: "kernels_ok K \<and> batch_kernels_ok B \<and> table_kernels_ok T \<and> reader_ok contents r"
    and "request_ok rq" "contents name = Some (fs, data)" "relation_picks R fs data rq picks readable"
  moreover obtain res r' where s: "columnar_scan_rows X K R B T name rq r = (res, r')"
    by (cases "columnar_scan_rows X K R B T name rq r")
  ultimately have "reader_ok contents r' \<and>
      (\<forall>sd. res = Inr sd \<and> rq_row_indices rq = None \<longrightarrow> scanned_answers X B fs rq picks data sd)"
    using columnar_scan_rows_sound [where r = r and r' = r' and res = res] by blast
  with r s show "kernels_ok K \<and> batch_kernels_ok B \<and> table_kernels_ok T \<and> reader_ok contents (snd (columnar_scan_rows X K R B T name rq r))"
    and "rq_row_indices rq = None \<Longrightarrow> fst (columnar_scan_rows X K R B T name rq r) = Inr sd \<Longrightarrow> scanned_answers X B fs rq picks data sd" for sd
    by auto
qed

section \<open>A store that serves its reads\<close>

definition table_serves :: "columnar_table \<Rightarrow> bool" where
  "table_serves t \<longleftrightarrow>
     (\<forall>columns ranges. sorted_wrt (<) columns \<and> (\<forall>k \<in> set columns. k < length (ct_schema t)) \<and>
        (case ranges of None \<Rightarrow> True | Some rs \<Rightarrow> ranges_ok (ct_num_rows t) rs) \<longrightarrow>
        (\<exists>b. ct_read t columns ranges = Inr b \<and> b_num_rows b = length (named_rows t ranges) \<and>
          (\<forall>k \<in> set columns. \<exists>a. column_by_name b (f_name (ct_schema t ! k)) = Some a \<and> data_type_of a = f_type (ct_schema t ! k)))) \<and>
     (\<forall>k < length (ct_schema t). \<exists>found. ct_stats t k = Inr found)"

lemma checked_read_total:
  assumes B: "batch_kernels_ok B" and t: "table_serves t"
    and columns: "sorted_wrt (<) columns" "\<forall>k \<in> set columns. k < length (ct_schema t)"
    and ranges: "case ranges of None \<Rightarrow> True | Some rs \<Rightarrow> ranges_ok (ct_num_rows t) rs"
  shows "\<exists>b. checked_read B t columns ranges = Inr b"
proof -
  let ?fs = "ct_schema t"
  from t columns ranges obtain b where b: "ct_read t columns ranges = Inr b" "b_num_rows b = length (named_rows t ranges)"
    "\<forall>k \<in> set columns. \<exists>a. column_by_name b (f_name (?fs ! k)) = Some a \<and> data_type_of a = f_type (?fs ! k)"
    unfolding table_serves_def by blast
  let ?at = "\<lambda>k. the (index_of (column_names b) (f_name (?fs ! k)))"
  have at: "returned_column ?fs b k = Inr (?at k) \<and> ?at k < length (b_columns b)" if k: "k \<in> set columns" for k
  proof -
    from b(3) k obtain a where a: "column_by_name b (f_name (?fs ! k)) = Some a" "data_type_of a = f_type (?fs ! k)" by blast
    from column_index [OF a(1)] obtain i where i: "index_of (column_names b) (f_name (?fs ! k)) = Some i" by blast
    from column_at_index [OF i] a i columns(2) k show ?thesis by (simp add: returned_column_def get_def)
  qed
  then have r: "try_collect (returned_column ?fs b) columns = Inr (map ?at columns)" by (intro try_collect_total) blast
  have "bk_project B b (map ?at columns) = Inr \<lparr>b_columns = map ((!) (b_columns b)) (map ?at columns), b_num_rows = b_num_rows b\<rparr>"
    using B at by (simp add: batch_kernels_ok_def list_all_iff)
  with b r asked_rows_named [OF ranges, of t] show ?thesis by (simp add: checked_read_def)
qed

lemma stats_fold_total:
  assumes "table_serves t"
  shows "\<exists>s'. try_fold (add_stats t) names s = Inr s'"
proof (induction names arbitrary: s)
  case (Cons name names)
  have "\<exists>s'. add_stats t name s = Inr s'"
  proof (cases "index_of (field_names (ct_schema t)) name")
    case None
    then show ?thesis by (cases s) (simp add: add_stats_def del: index_of_None)
  next
    case (Some k)
    from index_of_Some [OF Some] assms obtain found where "ct_stats t k = Inr found" by (auto simp: table_serves_def field_names_def)
    with Some show ?thesis by (cases s) (auto simp: add_stats_def split: option.splits)
  qed
  then obtain s' where "add_stats t name s = Inr s'" ..
  with Cons.IH [of s'] show ?case by simp
qed simp

lemma filtered_scan_total:
  assumes K: "kernels_ok K" and B: "batch_kernels_ok B" and T: "table_kernels_ok T" and t: "table_holds t data" "table_serves t"
    and rq: "request_ok rq" and c: "checks_passed X K (ct_schema t) rq" and rel: "relation_picks R (ct_schema t) data rq picks readable"
    and complete: "\<And>bn. rq_block_number_column rq = Some bn \<Longrightarrow> complete_blocks data bn"
    and out: "build_output_schema (ct_schema t) (rq_output_columns rq) \<noteq> []"
  shows "\<exists>parts. filtered_scan X K R B T t rq = Inr parts"
proof -
  let ?fs = "ct_schema t"
  have n: "ct_num_rows t = length data" and schema: "rows_of_schema ?fs data" using t(1) by (simp_all add: table_holds_def)
  from stats_fold_total [OF t(2)] obtain stats offsets where
    "try_fold (add_stats t) (wanted_columns rq) (Map.empty, None) = Inr (stats, offsets)" by fastforce
  then have "\<exists>ranges. candidate_rows T t rq = Inr ranges" by (cases offsets) (simp_all add: candidate_rows_def)
  then obtain ranges where ranges: "candidate_rows T t rq = Inr ranges" ..
  show ?thesis
  proof (cases "ranges = []")
    case True
    with ranges show ?thesis by (simp add: filtered_scan_def)
  next
    case False
    have bn: "\<exists>f. field_with_name ?fs bn = Some f \<and> is_integer (f_type f) \<and> (data ! r) bn \<noteq> Some CNull"
      if "r < length data" "rq_block_number_column rq = Some bn" for r bn
      using checked_block_column [OF c that(2)] complete [OF that(2)] that(1) by (auto simp: complete_blocks_def)
    note cand = candidate_rows_sound [OF T t(1) rq rel bn ranges]
    let ?rs = "positions_of ranges" and ?names = "map (\<lambda>k. f_name (?fs ! k)) (read_columns ?fs rq)"
    have columns: "sorted_wrt (<) (read_columns ?fs rq)" "\<forall>k \<in> set (read_columns ?fs rq). k < length ?fs"
      using column_indices_ok by (simp_all add: read_columns_def)
    obtain b where b: "checked_read B t (read_columns ?fs rq) (Some ranges) = Inr b"
      using checked_read_total [OF B t(2) columns, of "Some ranges"] cand n by auto
    have shows_b: "shows_rows ?fs data ?names ?rs b" "column_names b = ?names"
      using checked_read_shows [OF B t(1) columns _ b] cand by (simp_all add: named_rows_def)
    have names: "set (concat (map required_columns (rq_predicates rq))) \<subseteq> set ?names" "set (filter_columns rq) \<subseteq> set ?names"
      using checked_columns [OF c] unfolding read_columns_names by blast+
    have bn_name: "bn \<in> set ?names" if "rq_block_number_column rq = Some bn" for bn
      using checked_block_column [OF c that] field_with_name_in [of bn ?fs] that unfolding read_columns_names by auto
    from row_masks_ask [OF K rq c schema shows_b(1) rel names bn_name complete] obtain keep tags where
      masks: "row_masks X K R b rq = Inr (keep, tags)" "length keep = length ?rs" "\<forall>tag \<in> set tags. length tag = length ?rs" by auto
    have "set (rq_output_columns rq) \<inter> set (field_names ?fs) \<subseteq> set ?names" unfolding read_columns_names by blast
    from project_batch_rows [OF T schema shows_b(1) this out] obtain projected where
      p: "project_batch T b (build_output_schema ?fs (rq_output_columns rq)) = Inr projected" "b_num_rows projected = length ?rs" by auto
    let ?s = "\<lparr>sb_batch = projected, sb_positions = (if rq_positions rq then Some ?rs else None), sb_tags = tags\<rparr>"
    have "scanned_batch_ok ?s" using masks(3) by (auto simp: scanned_batch_ok_def part_ok_def p(2) list_all_iff)
    from scanned_filter_view [OF B this, of keep] masks(2) p(2) obtain s' where "scanned_filter B ?s keep = Inr s'" by auto
    with ranges b masks(1) p(1) show ?thesis
      by (cases "true_count keep = 0") (simp_all add: filtered_scan_def del: true_count_0)
  qed
qed

lemma ensure_block_numbers_total:
  assumes B: "batch_kernels_ok B" and ot: "table_holds (ot_table ot) data" "table_serves (ot_table ot)"
    and found: "nullable_block_numbers (ct_schema (ot_table ot)) rq = Inr found"
    and complete: "\<And>bn. rq_block_number_column rq = Some bn \<Longrightarrow> complete_blocks data bn"
  shows "\<exists>ot'. ensure_block_numbers_readable B rq ot = (Inr (), ot')"
proof (cases found)
  case None
  with found show ?thesis by (simp add: ensure_block_numbers_readable_def)
next
  case (Some bn)
  let ?t = "ot_table ot" let ?fs = "ct_schema ?t"
  from found Some have bn: "rq_block_number_column rq = Some bn" and "\<exists>f. field_with_name ?fs bn = Some f"
    by (auto simp: nullable_block_numbers_def and_then_Inr_iff split: option.splits if_splits)
  then obtain index where index: "index_of (field_names ?fs) bn = Some index" by (auto simp: field_with_name_index)
  have k: "index < length ?fs" "f_name (?fs ! index) = bn" using index_of_Some [OF index] by (auto simp: field_names_def)
  have n: "ct_num_rows ?t = length data" using ot(1) by (simp add: table_holds_def)
  from checked_read_total [OF B ot(2), of "[index]" None] k obtain b where b: "checked_read B ?t [index] None = Inr b" by auto
  have s: "shows_rows ?fs data [bn] [0..<length data] b" "column_names b = [bn]"
    using checked_read_shows [OF B ot(1) _ _ _ b] k n by (simp_all add: named_rows_def)
  then obtain a where cols: "b_columns b = [(bn, a)]" by (auto simp: column_names_def)
  then have c: "column_by_name b bn = Some a" by (simp add: column_by_name_def)
  have ok: "batch_ok b" "b_num_rows b = length data" using s(1) by (simp_all add: shows_rows_def)
  note wf = batch_column [OF ok(1) c]
  have "null_count a = 0"
  proof (rule null_count_none [OF conjunct1 [OF wf]])
    fix i assume "i < len a"
    then have i: "i < length data" using wf ok(2) by simp
    have "row_at b i = only [bn] (data ! i)" using s(1) i by (simp add: shows_rows_def)
    from fun_cong [OF this, of bn] have "(data ! i) bn = Some (cell_at a i)" using c by (simp add: row_at_def only_def)
    with complete [OF bn] i show "cell_at a i \<noteq> CNull" by (auto simp: complete_blocks_def)
  qed
  with b cols index found Some show ?thesis by (simp add: ensure_block_numbers_readable_def get_def)
qed

lemma columnar_scan_total:
  assumes K: "kernels_ok K" and B: "batch_kernels_ok B" and T: "table_kernels_ok T"
    and t: "table_holds (ot_table ot) data" "table_serves (ot_table ot)" and rq: "request_ok rq" "rq_row_indices rq = None"
    and c: "checks_passed X K (ct_schema (ot_table ot)) rq" and rel: "relation_picks R (ct_schema (ot_table ot)) data rq picks readable"
    and complete: "\<And>bn. rq_block_number_column rq = Some bn \<Longrightarrow> complete_blocks data bn"
    and out: "build_output_schema (ct_schema (ot_table ot)) (rq_output_columns rq) \<noteq> []"
  shows "\<exists>parts ot'. columnar_scan X K R B T rq ot = (Inr parts, ot')"
proof -
  from c obtain found where found: "nullable_block_numbers (ct_schema (ot_table ot)) rq = Inr found"
    and checks: "ensure_columns_present (ct_schema (ot_table ot)) rq = Inr ()"
      "ensure_predicates_comparable X K (ct_schema (ot_table ot)) rq = Inr ()" by (auto simp: checks_passed_def)
  from ensure_block_numbers_total [OF B t found complete] obtain ot' where "ensure_block_numbers_readable B rq ot = (Inr (), ot')" by blast
  moreover from filtered_scan_total [OF K B T t rq(1) c rel complete out] obtain parts where "filtered_scan X K R B T (ot_table ot) rq = Inr parts" by blast
  ultimately show ?thesis using checks rq(2) by (simp add: columnar_scan_def Let_def)
qed

end
