(* ===== verification/Memory_Store.thy ===== *)
theory Memory_Store
  imports Columnar_Correct
begin

text \<open>
  A store that holds a table in memory and keeps every promise a columnar reader relies on: it reads the rows
  and columns it is asked for, and it keeps no statistics. The witnesses scan it.
\<close>

section \<open>The store\<close>

definition table_schema :: "batch \<Rightarrow> schema" where
  "table_schema b = map (\<lambda>(name, a). \<lparr>f_name = name, f_type = data_type_of a, f_nullable = list_ex (\<lambda>i. cell_at a i = CNull) [0..<len a]\<rparr>) (b_columns b)"

definition taken :: "batch \<Rightarrow> nat list \<Rightarrow> nat list \<Rightarrow> batch" where
  "taken b columns rs =
     \<lparr>b_columns = map (\<lambda>k. (fst (b_columns b ! k), take_rows (snd (b_columns b ! k)) rs)) columns, b_num_rows = length rs\<rparr>"

definition memory_table :: "batch \<Rightarrow> columnar_table" where
  "memory_table b =
     \<lparr>ct_schema = table_schema b,
      ct_num_rows = b_num_rows b,
      ct_read = (\<lambda>columns ranges. Inr (taken b columns (case ranges of None \<Rightarrow> [0..<b_num_rows b] | Some rs \<Rightarrow> positions_of rs))),
      ct_stats = (\<lambda>_. Inr None)\<rparr>"

lemma memory_schema [simp]: "ct_schema (memory_table b) = table_schema b"
  by (simp add: memory_table_def)

definition plain_table_kernels :: table_kernels where
  "plain_table_kernels =
     \<lparr>tk_try_new = (\<lambda>fs arrays.
        if fields_fit fs arrays then Inr \<lparr>b_columns = zip (map f_name fs) arrays, b_num_rows = len (hd arrays)\<rparr>
        else Inl Untyped),
      tk_slice = (\<lambda>a start n. take_rows a [start..<start + n])\<rparr>"

lemma table_kernels_ok_plain [simp]: "table_kernels_ok plain_table_kernels"
  by (simp add: table_kernels_ok_def plain_table_kernels_def take_rows_wf take_rows_cells)

lemma table_schema_names [simp]: "field_names (table_schema b) = column_names b"
  by (simp add: field_names_def table_schema_def column_names_def comp_def case_prod_beta')

lemma length_table_schema [simp]: "length (table_schema b) = length (b_columns b)"
  by (simp add: table_schema_def)

lemma table_schema_at:
  "k < length (b_columns b) \<Longrightarrow> f_name (table_schema b ! k) = fst (b_columns b ! k) \<and>
    f_type (table_schema b ! k) = data_type_of (snd (b_columns b ! k))"
  by (simp add: table_schema_def case_prod_beta')

lemma column_at:
  assumes "distinct (column_names b)" and "k < length (b_columns b)"
  shows "column_by_name b (fst (b_columns b ! k)) = Some (snd (b_columns b ! k))"
  using assms by (simp add: column_by_name_def column_names_def map_of_eq_Some_iff)

lemma cell_typed:
  assumes "wf_array a" and "i < len a" and "data_type_of a = DInt t"
  shows "cell_at a i = CNull \<or> (\<exists>v. cell_at a i = CInt t v \<and> in_range t v)"
  using assms by (cases a) (auto simp: list_all_iff)

lemma memory_rows_of_schema:
  assumes b: "batch_ok b" and d: "distinct (column_names b)"
  shows "rows_of_schema (table_schema b) (batch_rows b)"
proof -
  have "row_of_schema (table_schema b) (row_at b i)" if i: "i < b_num_rows b" for i
    unfolding row_of_schema_def
  proof (intro conjI allI impI ballI)
    show "name \<in> set (field_names (table_schema b))" if "row_at b i name \<noteq> None" for name
      using that by (auto simp: row_at_def column_by_name_def column_names_def map_of_eq_None_iff)
    fix f assume "f \<in> set (table_schema b)"
    then obtain name a where f: "(name, a) \<in> set (b_columns b)"
      "f = \<lparr>f_name = name, f_type = data_type_of a, f_nullable = list_ex (\<lambda>i. cell_at a i = CNull) [0..<len a]\<rparr>"
      by (auto simp: table_schema_def)
    then have c: "column_by_name b name = Some a"
      using d by (simp add: column_by_name_def column_names_def map_of_eq_Some_iff)
    note wf = batch_column [OF b c]
    have "typed_cell f (cell_at a i)"
      using wf i cell_typed [of a i] by (auto simp: typed_cell_def f(2) list_ex_iff)
    with c f(2) show "\<exists>c. row_at b i (f_name f) = Some c \<and> typed_cell f c" by (simp add: row_at_def)
  qed
  with d show ?thesis by (simp add: rows_of_schema_def batch_rows_def list_all_iff)
qed

lemma taken_column:
  assumes d: "distinct (column_names b)" and k: "k \<in> set columns" "\<forall>k \<in> set columns. k < length (b_columns b)"
  shows "column_by_name (taken b columns rs) (fst (b_columns b ! k)) = Some (take_rows (snd (b_columns b ! k)) rs)"
proof -
  have inj: "j = j'" if "j \<in> set columns" "j' \<in> set columns" "fst (b_columns b ! j) = fst (b_columns b ! j')" for j j'
    using that k(2) d nth_eq_iff_index_eq [of "column_names b" j j'] by (simp add: column_names_def)
  have "map_of (map (\<lambda>k. (fst (b_columns b ! k), take_rows (snd (b_columns b ! k)) rs)) ks) (fst (b_columns b ! k)) =
      Some (take_rows (snd (b_columns b ! k)) rs)" if "k \<in> set ks" "set ks \<subseteq> set columns" for ks
    using that by (induction ks) (auto dest: inj)
  with k(1) show ?thesis by (simp add: column_by_name_def taken_def)
qed

lemma memory_table_holds:
  assumes b: "batch_ok b" and d: "distinct (column_names b)"
  shows "table_holds (memory_table b) (batch_rows b)" and "table_serves (memory_table b)"
proof -
  let ?rs = "\<lambda>ranges. named_rows (memory_table b) ranges"
  have n: "length (batch_rows b) = b_num_rows b" by (simp add: batch_rows_def)
  have read: "ct_read (memory_table b) columns ranges = Inr (taken b columns (?rs ranges))" for columns ranges
    by (simp add: memory_table_def named_rows_def split: option.split)
  have below: "r < b_num_rows b" if "case ranges of None \<Rightarrow> True | Some rs \<Rightarrow> ranges_ok (b_num_rows b) rs" "r \<in> set (?rs ranges)" for ranges r
    using that positions_below by (auto simp: named_rows_def memory_table_def split: option.splits)
  have wf: "wf_array (snd (b_columns b ! k)) \<and> len (snd (b_columns b ! k)) = b_num_rows b" if "k < length (b_columns b)" for k
    using batch_column [OF b column_at [OF d that]] .
  have shows_taken: "batch_ok (taken b columns (?rs ranges)) \<and>
      (\<forall>k \<in> set columns. \<forall>i < length (?rs ranges).
         (batch_rows b ! (?rs ranges ! i)) (fst (b_columns b ! k)) = Some (cell_at (take_rows (snd (b_columns b ! k)) (?rs ranges)) i))"
    if "\<forall>k \<in> set columns. k < length (b_columns b)" "case ranges of None \<Rightarrow> True | Some rs \<Rightarrow> ranges_ok (b_num_rows b) rs"
    for columns ranges
    using that wf below [OF that(2)]
    by (auto simp: batch_ok_def taken_def list_all_iff take_rows_wf take_rows_cells batch_rows_def row_at_def column_at [OF d])
  show "table_holds (memory_table b) (batch_rows b)"
    unfolding table_holds_def
  proof (intro conjI allI impI ballI)
    show "ct_num_rows (memory_table b) = length (batch_rows b)" by (simp add: memory_table_def batch_rows_def)
    show "rows_of_schema (ct_schema (memory_table b)) (batch_rows b)"
      using memory_rows_of_schema [OF b d] by (simp add: memory_table_def)
  next
    fix columns ranges b'
    assume a: "sorted_wrt (<) columns \<and> (\<forall>k \<in> set columns. k < length (ct_schema (memory_table b))) \<and>
        (case ranges of None \<Rightarrow> True | Some rs \<Rightarrow> ranges_ok (length (batch_rows b)) rs) \<and>
        ct_read (memory_table b) columns ranges = Inr b' \<and> b_num_rows b' = length (named_rows (memory_table b) ranges)"
    from this [unfolded n read] have k: "\<forall>k \<in> set columns. k < length (b_columns b)" "case ranges of None \<Rightarrow> True | Some rs \<Rightarrow> ranges_ok (b_num_rows b) rs"
      and b': "b' = taken b columns (?rs ranges)" by simp_all
    show "batch_ok b'" using shows_taken [OF k] b' by simp
    fix j a i
    assume j: "j \<in> set columns" and c: "column_by_name b' (f_name (ct_schema (memory_table b) ! j)) = Some a \<and>
        data_type_of a = f_type (ct_schema (memory_table b) ! j)" and i: "i < b_num_rows b'"
    have n: "f_name (ct_schema (memory_table b) ! j) = fst (b_columns b ! j)" using k(1) j table_schema_at by (simp add: memory_table_def)
    with c taken_column [OF d j k(1)] b' have "a = take_rows (snd (b_columns b ! j)) (?rs ranges)" by simp
    with shows_taken [OF k] j i b' n show "(batch_rows b ! (?rs ranges ! i)) (f_name (ct_schema (memory_table b) ! j)) = Some (cell_at a i)"
      by (simp add: taken_def)
  qed (simp add: memory_table_def)
  show "table_serves (memory_table b)"
    unfolding table_serves_def
  proof (intro conjI allI impI)
    fix columns ranges
    assume a: "sorted_wrt (<) columns \<and> (\<forall>k \<in> set columns. k < length (ct_schema (memory_table b))) \<and>
        (case ranges of None \<Rightarrow> True | Some rs \<Rightarrow> ranges_ok (ct_num_rows (memory_table b)) rs)"
    then have k: "\<forall>k \<in> set columns. k < length (b_columns b)" by (simp add: memory_table_def)
    have "\<exists>a. column_by_name (taken b columns (?rs ranges)) (f_name (ct_schema (memory_table b) ! j)) = Some a \<and>
        data_type_of a = f_type (ct_schema (memory_table b) ! j)" if "j \<in> set columns" for j
      using taken_column [OF d that k] table_schema_at that k by (simp add: memory_table_def)
    then show "\<exists>b'. ct_read (memory_table b) columns ranges = Inr b' \<and> b_num_rows b' = length (?rs ranges) \<and>
        (\<forall>k \<in> set columns. \<exists>a. column_by_name b' (f_name (ct_schema (memory_table b) ! k)) = Some a \<and>
          data_type_of a = f_type (ct_schema (memory_table b) ! k))"
      by (simp add: read) (simp add: taken_def)
  qed (simp add: memory_table_def)
qed

end
