(* ===== verification/Chunk_Scans.thy ===== *)
theory Chunk_Scans
  imports Relation_Rows Memory_Store
begin

text \<open>
  What scans of a chunk through the columnar reader return: the rows asked for, whatever was scanned before,
  and the rows with a partner or a relative when the request brings the keys or the addresses of a relation.
  A chunk that serves its reads is scanned without an error.
\<close>

section \<open>A chunk that serves\<close>

definition opens_as :: "columnar_reader \<Rightarrow> string \<Rightarrow> columnar_table \<Rightarrow> bool" where
  "opens_as r name t \<longleftrightarrow>
     (case map_of (cr_tables r) name of
        None \<Rightarrow> cc_open_table (cr_chunk r) name = Inr (Some t)
      | Some ot \<Rightarrow> ot_table ot = t)"

lemma columnar_scan_rows_total:
  assumes K: "kernels_ok K" and B: "batch_kernels_ok B" and T: "table_kernels_ok T" and r: "opens_as r name t"
    and t: "table_holds t data" "table_serves t" and rq: "request_ok rq" "rq_row_indices rq = None"
    and c: "checks_passed X K (ct_schema t) rq" and rel: "relation_picks R (ct_schema t) data rq picks readable"
    and complete: "\<And>bn. rq_block_number_column rq = Some bn \<Longrightarrow> complete_blocks data bn"
    and out: "build_output_schema (ct_schema t) (rq_output_columns rq) \<noteq> []"
    and known: "\<And>ot. map_of (cr_tables r) name = Some ot \<Longrightarrow> open_ok data ot"
  shows "\<exists>sd r'. columnar_scan_rows X K R B T name rq r = (Inr sd, r') \<and> scanned_answers X B (ct_schema t) rq picks data sd \<and> opens_as r' name t"
proof -
  obtain ot r1 where ot: "reader_table name r = (Inr (Some ot), r1)" "ot_table ot = t" "open_ok data ot"
    using r known t(1) by (cases "map_of (cr_tables r) name") (auto simp: reader_table_def opens_as_def Let_def open_ok_def)
  obtain parts ot' where scan: "columnar_scan X K R B T rq ot = (Inr parts, ot')"
    using columnar_scan_total [OF K B T _ _ rq, of ot data X R picks readable, unfolded ot(2), OF t c rel complete out] by blast
  from columnar_scan_sound [OF K B T ot(3) rq(1) _ scan, unfolded ot(2), OF rel] rq(2)
  have "scan_answers X (ct_schema t) rq picks data parts" by simp
  from collected_answers [OF B this] obtain sd where "scanned_collect rq parts = Inr sd" "scanned_answers X B (ct_schema t) rq picks data sd" by blast
  moreover have "ot_table ot' = t" using columnar_scan_sound [OF K B T ot(3) rq(1) _ scan, unfolded ot(2), OF rel] by blast
  ultimately show ?thesis using ot(1) scan by (simp add: columnar_scan_rows_def opens_as_def)
qed

section \<open>A chunk of calls\<close>

text \<open>A chunk of one table, held in memory, and relations to it from other calls.\<close>

definition sample_chunk :: columnar_chunk where
  "sample_chunk =
     \<lparr>cc_has_table = (\<lambda>name. name = ''calls''),
      cc_open_table = (\<lambda>name. Inr (if name = ''calls'' then Some (memory_table narrow_calls) else None))\<rparr>"

definition sample_contents :: chunk_contents where
  "sample_contents = [''calls'' \<mapsto> (table_schema narrow_calls, batch_rows narrow_calls)]"

definition call_key :: "string list" where
  "call_key = [''block_number'', ''transaction_index'']"

definition key_request :: "key_filter \<Rightarrow> table_request" where
  "key_request f = (table_request_new [''block_number''])\<lparr>rq_key_filter := Some f\<rparr>"

definition called_addresses :: hierarchical_filter where
  "called_addresses = hierarchical_filter_build [wide_calls] call_key ''address'' ''address'' Children False"

definition address_request :: table_request where
  "address_request = (table_request_new [''address''])\<lparr>rq_hierarchical_filter := Some called_addresses\<rparr>"

lemma calls_stored:
  "table_holds (memory_table narrow_calls) (batch_rows narrow_calls)" "table_serves (memory_table narrow_calls)"
  "batch_ok narrow_calls" "distinct (column_names narrow_calls)"
proof -
  show ok: "batch_ok narrow_calls" "distinct (column_names narrow_calls)"
    by (simp_all add: batch_ok_def narrow_calls_def column_names_def in_range_def nulls_fit_def)
  show "table_holds (memory_table narrow_calls) (batch_rows narrow_calls)" "table_serves (memory_table narrow_calls)"
    using memory_table_holds [OF ok] by blast+
qed

lemma sample_reader_ok: "reader_ok sample_contents (columnar_reader_new sample_chunk)"
  using calls_stored(1) by (auto simp: reader_ok_def columnar_reader_new_def sample_chunk_def sample_contents_def memory_table_def)

lemma calls_joined:
  "keys_ok [IntKey, IntKey] [wide_calls] call_key call_key" "joinable [IntKey, IntKey] call_key narrow_calls"
  "addresses_ok [IntKey, IntKey] [wide_calls] ''address'' call_key"
proof -
  have j: "joinable [IntKey, IntKey] call_key wide_calls" "joinable [IntKey, IntKey] call_key narrow_calls"
    using group_joinable [OF calls_addressed(1)] group_joinable [OF calls_addressed(2)] by (simp_all add: numeral_2_eq_2 call_key_def)
  have "small_paths [wide_calls] call_key" and small: "small_sources [wide_calls] ''address''"
    by (simp_all add: small_paths_def small_sources_def path_elements_def path_of_def key_of_def column_by_name_def key_value_at_def
        is_null_def valid_at_def wide_calls_def stored_key_def upt_rec call_key_def)
  with j show "keys_ok [IntKey, IntKey] [wide_calls] call_key call_key" "joinable [IntKey, IntKey] call_key narrow_calls"
    "addresses_ok [IntKey, IntKey] [wide_calls] ''address'' call_key"
    by (simp_all add: keys_ok_def scan_key_def addresses_ok_def path_batch_def column_by_name_def wide_calls_def)
qed

lemma calls_rows: "batch_rows narrow_calls = [row_at narrow_calls 0, row_at narrow_calls (Suc 0)]"
  by (simp add: batch_rows_def narrow_calls_def upt_rec)

lemma call_cells:
  "row_at narrow_calls 0 ''block_number'' = Some (CInt Int32 7)" "row_at narrow_calls (Suc 0) ''block_number'' = Some (CInt Int32 9)"
  "row_at narrow_calls 0 ''transaction_index'' = Some (CInt UInt16 0)" "row_at narrow_calls (Suc 0) ''transaction_index'' = Some (CInt UInt16 0)"
  "row_at narrow_calls 0 ''address'' = Some (CList [CInt Int16 2, CInt Int16 5])"
  "row_at narrow_calls (Suc 0) ''address'' = Some (CList [CInt Int16 2])"
  by (simp_all add: row_at_def column_by_name_def narrow_calls_def valid_at_def upt_rec numeral_2_eq_2)

lemma calls_schema: "table_schema narrow_calls =
    [\<lparr>f_name = ''block_number'', f_type = DInt Int32, f_nullable = False\<rparr>,
     \<lparr>f_name = ''transaction_index'', f_type = DInt UInt16, f_nullable = False\<rparr>,
     \<lparr>f_name = ''address'', f_type = DList False (DInt Int16), f_nullable = False\<rparr>]"
  by (simp add: table_schema_def narrow_calls_def valid_at_def upt_rec)

lemma calls_keyed:
  "keyed_table [IntKey, IntKey] call_key (table_schema narrow_calls) (batch_rows narrow_calls)"
  "keyed_table [PathKey] [''address''] (table_schema narrow_calls) (batch_rows narrow_calls)"
  by (simp_all add: keyed_table_def calls_rows calls_schema call_cells solid_row_def row_key_def call_key_def field_with_name_def
      field_names_def)

lemma called_keys:
  obtains f where "key_filter_build [wide_calls] call_key call_key ''block_number'' ''block_number'' = Inr f"
proof -
  have "solid call_key narrow_calls" using calls_keyed(1) by (simp add: keyed_table_def solid_def batch_rows_def)
  with joined.mask_rows [of "[IntKey, IntKey]" "[wide_calls]" call_key call_key narrow_calls None "''block_number''" "''block_number''" plain_row_kernels]
    calls_joined show ?thesis using that by (auto simp: and_then_Inr_iff)
qed

lemma key_request_picks:
  assumes f: "key_filter_build [wide_calls] call_key call_key ''block_number'' ''block_number'' = Inr f"
  shows "relation_picks R (table_schema narrow_calls) (batch_rows narrow_calls) (key_request f) (row_partner [wide_calls] call_key call_key)
    (\<lambda>b. keys_ok [IntKey, IntKey] [wide_calls] call_key call_key \<and> joinable [IntKey, IntKey] call_key b \<and> solid call_key b)"
  unfolding call_key_def
proof (rule key_relation_picks)
  show "keys_ok [IntKey, IntKey] [wide_calls] [''block_number'', ''transaction_index''] [''block_number'', ''transaction_index'']"
    using calls_joined(1) by (simp add: call_key_def)
  show "key_filter_build [wide_calls] [''block_number'', ''transaction_index''] [''block_number'', ''transaction_index'']
      ''block_number'' ''block_number'' = Inr f" using f by (simp add: call_key_def)
  show "list_all (blocks_from_zero ''block_number'') [wide_calls]"
    by (simp add: blocks_from_zero_def column_by_name_def wide_calls_def)
  show "rows_of_schema (table_schema narrow_calls) (batch_rows narrow_calls)" using calls_stored(1) by (simp add: table_holds_def memory_table_def)
  show "keyed_table [IntKey, IntKey] [''block_number'', ''transaction_index''] (table_schema narrow_calls) (batch_rows narrow_calls)"
    using calls_keyed(1) by (simp add: call_key_def)
qed (simp_all add: calls_rows call_cells key_request_def table_request_new_def sources_within_def)

lemma address_request_picks:
  "relation_picks R (table_schema narrow_calls) (batch_rows narrow_calls) address_request
    (row_relative (mode_relation Children False) [wide_calls] ''address'' call_key ''address'')
    (\<lambda>b. addresses_ok [IntKey, IntKey] [wide_calls] ''address'' call_key \<and> path_batch [IntKey, IntKey] call_key ''address'' b \<and>
      solid (call_key @ [''address'']) b)"
  by (rule address_relation_picks [OF calls_joined(3) _ _ calls_keyed])
    (simp_all add: address_request_def called_addresses_def table_request_new_def)

lemma sample_scan:
  assumes rel: "relation_picks plain_row_kernels (table_schema narrow_calls) (batch_rows narrow_calls) rq picks readable"
    and rq: "request_ok rq" "rq_row_indices rq = None" "rq_predicates rq = []" "rq_required_columns rq = []"
    and bn: "rq_block_number_column rq \<in> {None, Some ''block_number''}"
    and cols: "set (filter_columns rq) \<subseteq> {''block_number'', ''transaction_index'', ''address''}"
    and out: "build_output_schema (table_schema narrow_calls) (rq_output_columns rq) \<noteq> []"
    and r: "reader_ok sample_contents r" "opens_as r ''calls'' (memory_table narrow_calls)"
  shows "\<exists>sd r'. columnar_scan_rows X plain_kernels plain_row_kernels plain_batch_kernels plain_table_kernels ''calls'' rq r = (Inr sd, r') \<and>
    scanned_answers X plain_batch_kernels (table_schema narrow_calls) rq picks (batch_rows narrow_calls) sd \<and> opens_as r' ''calls'' (memory_table narrow_calls)"
proof (rule columnar_scan_rows_total [where readable = readable and t = "memory_table narrow_calls", unfolded memory_schema])
  show "checks_passed X plain_kernels (table_schema narrow_calls) rq"
    using bn cols rq(3, 4)
    by (auto simp: checks_passed_def ensure_columns_present_def ensure_predicates_comparable_def try_for_each_Inr_iff
        nullable_block_numbers_def calls_schema field_with_name_def field_names_def ensure_def is_integer_iff)
  show "complete_blocks (batch_rows narrow_calls) bn" if "rq_block_number_column rq = Some bn" for bn
    using that assms(6) by (auto simp: complete_blocks_def calls_rows call_cells)
  show "open_ok (batch_rows narrow_calls) ot" if "map_of (cr_tables r) ''calls'' = Some ot" for ot
    using r(1) map_of_SomeD [OF that] by (auto simp: reader_ok_def sample_contents_def)
qed (use rel out rq r calls_stored in simp_all)

lemma sample_opens: "opens_as (columnar_reader_new sample_chunk) ''calls'' (memory_table narrow_calls)"
  by (simp add: opens_as_def columnar_reader_new_def sample_chunk_def)

lemma address_request_ok:
  "request_ok address_request" "rq_row_indices address_request = None" "rq_predicates address_request = []"
  "rq_required_columns address_request = []" "rq_block_number_column address_request \<in> {None, Some ''block_number''}"
  "set (filter_columns address_request) \<subseteq> {''block_number'', ''transaction_index'', ''address''}"
  "build_output_schema (table_schema narrow_calls) (rq_output_columns address_request) \<noteq> []"
  by (simp_all add: address_request_def table_request_new_def request_ok_def filter_columns_def called_addresses_def
        hierarchical_filter_build_def address_filter_def address_index_build_def call_key_def build_output_schema_def calls_schema
        field_with_name_def field_names_def List.map_filter_def)

lemma address_request_answer: "answer_rows plain_externals address_request
      (row_relative (mode_relation Children False) [wide_calls] ''address'' call_key ''address'') (batch_rows narrow_calls) = [0]"
    by (simp add: answer_rows_def asks_row_def in_request_blocks_def item_asks_def address_request_def table_request_new_def
        calls_rows row_relative_def row_key_def row_path_def call_cells call_key_def mode_relation_def child_path_def upt_rec
        path_of_def key_of_def column_by_name_def key_value_at_def is_null_def valid_at_def wide_calls_def stored_key_def)

section \<open>Properties\<close>

text \<open>
  C7: Whatever was scanned before through the reader, and whatever it keeps of the tables it opened, a scan
  returns exactly the rows of the table its request asks for, in the order of the table, with their positions
  and the items that matched them.
\<close>

theorem columnar_reader_answers:
  fixes rq :: table_request
  assumes "kernels_ok K" and "batch_kernels_ok B" and "table_kernels_ok T" and "reader_ok contents r"
    and "\<forall>s \<in> set earlier. well_made R contents s"
    and "contents name = Some (fs, data)" and "request_ok rq" and "relation_picks R fs data rq picks readable"
    and "rq_row_indices rq = None"
    and "fst (columnar_scan_rows X K R B T name rq
      (fold (\<lambda>s r. snd (columnar_scan_rows X K R B T (fst s) (snd s) r)) earlier r)) = Inr sd"
  shows "scanned_answers X B fs rq picks data sd"
  by (rule columnar.answers_whatever_was_scanned [where contents = contents and name = name, OF _ assms(5, 7, 6, 8-10)]) (use assms(1-4) in blast)

theorem columnar_reader_answers_witness:
  "\<exists>sd. fst (columnar_scan_rows plain_externals plain_kernels plain_row_kernels plain_batch_kernels plain_table_kernels ''calls'' address_request
      (snd (columnar_scan_rows plain_externals plain_kernels plain_row_kernels plain_batch_kernels plain_table_kernels ''calls'' address_request
        (columnar_reader_new sample_chunk)))) = Inr sd \<and>
    rows_view (sd_rows sd) = [(only [''address''] (row_at narrow_calls 0), None)]"
proof -
  let ?scan = "columnar_scan_rows plain_externals plain_kernels plain_row_kernels plain_batch_kernels plain_table_kernels ''calls'' address_request"
  let ?r = "columnar_reader_new sample_chunk"
  note rel = address_request_picks [of plain_row_kernels]
  note rq = address_request_ok
  have made: "well_made plain_row_kernels sample_contents (''calls'', address_request)"
    using rq(1) rel by (auto simp: well_made_def sample_contents_def)
  from sample_scan [OF rel rq sample_reader_ok sample_opens, of plain_externals] obtain sd' r' where
    scan: "?scan ?r = (Inr sd', r')" and opened: "opens_as r' ''calls'' (memory_table narrow_calls)" by blast
  then have first: "snd (?scan ?r) = r'" by simp
  have "reader_ok sample_contents r'"
    using columnar.keeps_reading [where contents = sample_contents and name = "''calls''", OF _ rq(1) _ rel] sample_reader_ok first
    by (force simp: sample_contents_def)
  from sample_scan [OF rel rq this opened, of plain_externals] obtain sd where sd: "fst (?scan r') = Inr sd" by fastforce
  have "scanned_answers plain_externals plain_batch_kernels (table_schema narrow_calls) address_request
      (row_relative (mode_relation Children False) [wide_calls] ''address'' call_key ''address'') (batch_rows narrow_calls) sd"
    by (rule columnar_reader_answers [where K = plain_kernels and T = plain_table_kernels and r = ?r and name = "''calls''" and earlier = "[(''calls'', address_request)]" and contents = sample_contents, OF _ _ _ sample_reader_ok _ _ rq(1) rel rq(2)])
      (use made sd first(1) in \<open>simp_all add: sample_contents_def\<close>)
  moreover note address_request_answer
  ultimately show ?thesis
    using sd first by (simp add: scanned_answers_def row_view_def calls_rows address_request_def table_request_new_def)
qed

text \<open>
  C13: A chunk that serves its reads is scanned: a request that passes the checks made before any row, on a
  table with every block number, gets its rows and no error.
\<close>

theorem columnar_scan_succeeds:
  assumes "kernels_ok K" and "batch_kernels_ok B" and "table_kernels_ok T"
    and "reader_ok contents r" and "contents name = Some (ct_schema t, data)" and "opens_as r name t"
    and "table_holds t data" and "table_serves t" and "request_ok rq" and "rq_row_indices rq = None"
    and "ensure_columns_present (ct_schema t) rq = Inr ()" and "ensure_predicates_comparable X K (ct_schema t) rq = Inr ()"
    and "nullable_block_numbers (ct_schema t) rq = Inr found"
    and "\<And>bn. rq_block_number_column rq = Some bn \<Longrightarrow> complete_blocks data bn"
    and "relation_picks R (ct_schema t) data rq picks readable" and "build_output_schema (ct_schema t) (rq_output_columns rq) \<noteq> []"
  shows "\<exists>sd r'. columnar_scan_rows X K R B T name rq r = (Inr sd, r') \<and>
    rows_view (sd_rows sd) = map (row_view rq data) (answer_rows X rq picks data)"
proof -
  have "checks_passed X K (ct_schema t) rq" using assms(11-13) by (simp add: checks_passed_def)
  moreover have "open_ok data ot" if "map_of (cr_tables r) name = Some ot" for ot
    using assms(4, 5) map_of_SomeD [OF that] by (auto simp: reader_ok_def)
  ultimately show ?thesis
    using columnar_scan_rows_total [OF assms(1-3, 6-10) _ assms(15, 14, 16), of X] by (auto simp: scanned_answers_def)
qed

theorem columnar_scan_succeeds_witness:
  "\<exists>sd r'. columnar_scan_rows plain_externals plain_kernels plain_row_kernels plain_batch_kernels plain_table_kernels ''calls''
      ((table_request_new [''transaction_index''])\<lparr>rq_from_block := Some 8, rq_block_number_column := Some ''block_number'', rq_positions := True\<rparr>)
      (columnar_reader_new sample_chunk) = (Inr sd, r') \<and>
    rows_view (sd_rows sd) = [(only [''transaction_index''] (row_at narrow_calls (Suc 0)), Some 1)]"
proof -
  let ?rq = "(table_request_new [''transaction_index''])\<lparr>rq_from_block := Some 8, rq_block_number_column := Some ''block_number'', rq_positions := True\<rparr>"
  have t: "ct_schema (memory_table narrow_calls) = table_schema narrow_calls" by (simp add: memory_table_def)
  note unfold = table_request_new_def calls_schema field_with_name_def field_names_def
  have "relation_picks plain_row_kernels (table_schema narrow_calls) (batch_rows narrow_calls) ?rq (\<lambda>_. True) (\<lambda>_. True)"
    using row_filter_none by (simp add: relation_picks_def row_filters_of_def filter_columns_def table_request_new_def)
  moreover have "request_ok ?rq" by (simp add: request_ok_def table_request_new_def)
  moreover have "ensure_columns_present (table_schema narrow_calls) ?rq = Inr ()"
    "ensure_predicates_comparable plain_externals plain_kernels (table_schema narrow_calls) ?rq = Inr ()"
    "nullable_block_numbers (table_schema narrow_calls) ?rq = Inr None" "build_output_schema (table_schema narrow_calls) (rq_output_columns ?rq) \<noteq> []"
    by (simp_all add: ensure_columns_present_def ensure_predicates_comparable_def nullable_block_numbers_def filter_columns_def ensure_def
        is_integer_iff build_output_schema_def List.map_filter_def unfold)
  moreover have "complete_blocks (batch_rows narrow_calls) bn" if "rq_block_number_column ?rq = Some bn" for bn
    using that by (auto simp: complete_blocks_def calls_rows call_cells)
  moreover have "answer_rows plain_externals ?rq (\<lambda>_. True) (batch_rows narrow_calls) = [1]"
    by (simp add: answer_rows_def asks_row_def in_request_blocks_def in_blocks_def item_asks_def calls_rows call_cells upt_rec within_bounds_def
        unsigned_bits_def table_request_new_def)
  ultimately show ?thesis
    using columnar_scan_succeeds [OF kernels_ok_plain batch_kernels_ok_plain table_kernels_ok_plain sample_reader_ok _ sample_opens calls_stored(1, 2),
        where X = plain_externals and R = plain_row_kernels and rq = ?rq and found = None and picks = "\<lambda>_. True" and readable = "\<lambda>_. True", unfolded t]
    by (simp add: sample_contents_def table_request_new_def row_view_def calls_rows)
qed

text \<open>
  C8: A scan for the keys of a relation returns exactly the rows of the target table that a join with the
  sources finds - those whose key columns hold the key of some row of the sources - that its items match.
\<close>

theorem relation_scan_joins:
  fixes rq :: table_request
  assumes "kernels_ok K" and "batch_kernels_ok B" and "table_kernels_ok T" and "reader_ok contents r"
    and "contents name = Some (fs, data)" and "rows_of_schema fs data" and "request_ok rq" and "rq_row_indices rq = None"
    and "keys_ok kinds sources (bn # left) (target_bn # right)" and "list_all (blocks_from_zero bn) sources"
    and "key_filter_build sources (bn # left) (target_bn # right) bn target_bn = Inr f"
    and "rq_key_filter rq = Some f" and "rq_hierarchical_filter rq = None" and "sources_within sources bn rq target_bn"
    and "keyed_table kinds (target_bn # right) fs data" and "\<forall>row \<in> set data. \<forall>t v. row target_bn = Some (CInt t v) \<longrightarrow> 0 \<le> v"
    and "fst (columnar_scan_rows X K R B T name rq r) = Inr sd"
  shows "rows_view (sd_rows sd) = map (row_view rq data)
    (filter (\<lambda>i. in_request_blocks rq (data ! i) \<and> row_partner sources (bn # left) (target_bn # right) (data ! i) \<and>
      item_asks X rq (data ! i)) [0..<length data])"
proof -
  have rel: "relation_picks R fs data rq (row_partner sources (bn # left) (target_bn # right))
      (\<lambda>b. keys_ok kinds sources (bn # left) (target_bn # right) \<and> joinable kinds (target_bn # right) b \<and> solid (target_bn # right) b)"
    by (rule key_relation_picks) (use assms in blast)+
  have "scanned_answers X B fs rq (row_partner sources (bn # left) (target_bn # right)) data sd"
    by (rule columnar.answers [where contents = contents and name = name, OF _ assms(7, 5) rel assms(8, 17)]) (use assms(1-4) in blast)
  then show ?thesis by (simp add: scanned_answers_def answer_rows_def asks_row_def)
qed

theorem relation_scan_joins_witness:
  "\<exists>f sd. key_filter_build [wide_calls] call_key call_key ''block_number'' ''block_number'' = Inr f \<and>
    fst (columnar_scan_rows plain_externals plain_kernels plain_row_kernels plain_batch_kernels plain_table_kernels ''calls'' (key_request f)
      (columnar_reader_new sample_chunk)) = Inr sd \<and>
    rows_view (sd_rows sd) = [(only [''block_number''] (row_at narrow_calls 0), None)]"
proof -
  from called_keys obtain f where f: "key_filter_build [wide_calls] call_key call_key ''block_number'' ''block_number'' = Inr f" .
  note rel = key_request_picks [OF f, of plain_row_kernels]
  have fields: "kf_columns f = call_key" "kf_block_number_column f = ''block_number''"
    using f by (auto simp: key_filter_build_def key_set_filter_def and_then_Inr_iff)
  have rq: "request_ok (key_request f)" "rq_row_indices (key_request f) = None" "rq_predicates (key_request f) = []"
    "rq_required_columns (key_request f) = []" "rq_block_number_column (key_request f) \<in> {None, Some ''block_number''}"
    "set (filter_columns (key_request f)) \<subseteq> {''block_number'', ''transaction_index'', ''address''}"
    "build_output_schema (table_schema narrow_calls) (rq_output_columns (key_request f)) \<noteq> []"
    by (simp_all add: key_request_def table_request_new_def request_ok_def filter_columns_def fields call_key_def
        build_output_schema_def calls_schema field_with_name_def field_names_def List.map_filter_def)
  from sample_scan [OF rel rq sample_reader_ok sample_opens, of plain_externals] obtain sd where
    sd: "fst (columnar_scan_rows plain_externals plain_kernels plain_row_kernels plain_batch_kernels plain_table_kernels ''calls'' (key_request f)
      (columnar_reader_new sample_chunk)) = Inr sd" by fastforce
  have "rows_view (sd_rows sd) = map (row_view (key_request f) (batch_rows narrow_calls))
    (filter (\<lambda>i. in_request_blocks (key_request f) (batch_rows narrow_calls ! i) \<and>
        row_partner [wide_calls] call_key call_key (batch_rows narrow_calls ! i) \<and>
        item_asks plain_externals (key_request f) (batch_rows narrow_calls ! i)) [0..<length (batch_rows narrow_calls)])"
    unfolding call_key_def
  proof (rule relation_scan_joins [OF _ _ _ sample_reader_ok _ _ rq(1, 2) calls_joined(1) [unfolded call_key_def] _ f [unfolded call_key_def]
        _ _ _ calls_keyed(1) [unfolded call_key_def] _ sd])
    show "rows_of_schema (table_schema narrow_calls) (batch_rows narrow_calls)" using calls_stored(1) by (simp add: table_holds_def memory_table_def)
  qed (simp_all add: sample_contents_def blocks_from_zero_def column_by_name_def wide_calls_def key_request_def table_request_new_def
      sources_within_def calls_rows call_cells)
  also have "\<dots> = map (row_view (key_request f) (batch_rows narrow_calls)) [0]"
    by (simp add: in_request_blocks_def item_asks_def key_request_def table_request_new_def calls_rows row_partner_def row_key_def call_cells
        call_key_def upt_rec key_of_def column_by_name_def key_value_at_def is_null_def valid_at_def wide_calls_def stored_key_def)
  finally show ?thesis using f sd by (auto simp: row_view_def calls_rows key_request_def table_request_new_def)
qed

text \<open>
  C9: A scan for the addresses of a relation returns exactly the rows of the target table whose address is a
  descendant, or an ancestor, of an address of their group among the sources.
\<close>

theorem relation_scan_relates:
  fixes rq :: table_request
  assumes "kernels_ok K" and "batch_kernels_ok B" and "table_kernels_ok T" and "reader_ok contents r"
    and "contents name = Some (fs, data)" and "request_ok rq" and "rq_row_indices rq = None"
    and "addresses_ok kinds sources source_column grouping"
    and "rq_hierarchical_filter rq = Some (hierarchical_filter_build sources grouping source_column target_column mode inclusive)"
    and "rq_key_filter rq = None"
    and "keyed_table kinds grouping fs data" and "keyed_table [PathKey] [target_column] fs data"
    and "fst (columnar_scan_rows X K R B T name rq r) = Inr sd"
  shows "rows_view (sd_rows sd) = map (row_view rq data)
    (filter (\<lambda>i. in_request_blocks rq (data ! i) \<and>
      row_relative (mode_relation mode inclusive) sources source_column grouping target_column (data ! i) \<and>
      item_asks X rq (data ! i)) [0..<length data])"
proof -
  have rel: "relation_picks R fs data rq (row_relative (mode_relation mode inclusive) sources source_column grouping target_column)
      (\<lambda>b. addresses_ok kinds sources source_column grouping \<and> path_batch kinds grouping target_column b \<and> solid (grouping @ [target_column]) b)"
    by (rule address_relation_picks) (use assms in blast)+
  have "scanned_answers X B fs rq (row_relative (mode_relation mode inclusive) sources source_column grouping target_column) data sd"
    by (rule columnar.answers [where contents = contents and name = name, OF _ assms(6, 5) rel assms(7, 13)]) (use assms(1-4) in blast)
  then show ?thesis by (simp add: scanned_answers_def answer_rows_def asks_row_def)
qed

theorem relation_scan_relates_witness:
  "\<exists>sd. fst (columnar_scan_rows plain_externals plain_kernels plain_row_kernels plain_batch_kernels plain_table_kernels ''calls'' address_request
      (columnar_reader_new sample_chunk)) = Inr sd \<and>
    rows_view (sd_rows sd) = [(only [''address''] (row_at narrow_calls 0), None)]"
proof -
  note rq = address_request_ok
  from sample_scan [OF address_request_picks rq sample_reader_ok sample_opens, of plain_externals] obtain sd where
    sd: "fst (columnar_scan_rows plain_externals plain_kernels plain_row_kernels plain_batch_kernels plain_table_kernels ''calls'' address_request
      (columnar_reader_new sample_chunk)) = Inr sd" by fastforce
  have "rows_view (sd_rows sd) = map (row_view address_request (batch_rows narrow_calls))
    (filter (\<lambda>i. in_request_blocks address_request (batch_rows narrow_calls ! i) \<and>
        row_relative (mode_relation Children False) [wide_calls] ''address'' call_key ''address'' (batch_rows narrow_calls ! i) \<and>
        item_asks plain_externals address_request (batch_rows narrow_calls ! i)) [0..<length (batch_rows narrow_calls)])"
    by (rule relation_scan_relates [OF _ _ _ sample_reader_ok _ rq(1, 2) calls_joined(3) _ _ calls_keyed sd])
      (simp_all add: sample_contents_def address_request_def called_addresses_def table_request_new_def)
  with sd address_request_answer show ?thesis
    by (simp add: answer_rows_def asks_row_def row_view_def calls_rows address_request_def table_request_new_def)
qed

end
