(* ===== verification/Chunk_Reader.thy ===== *)
theory Chunk_Reader
  imports Chunk_Scans
begin

text \<open>
  A chunk as the executor sees it (the trait \<open>ChunkReader\<close> of \<^verbatim>\<open>src/scan/mod.rs\<close>): its operations as a
  record of functions, since an operation takes the reader by shared reference and what a reader keeps is a
  cache. That the columnar reader's cache is invisible is shown here: a scan returns the same whatever was
  scanned before it. The locale \<open>answering_chunk\<close> is what the executor relies on.
\<close>

section \<open>Operations\<close>

record chunk_ops =
  co_scan_rows :: "string \<Rightarrow> table_request \<Rightarrow> engine_error + scanned"
  co_has_table :: "string \<Rightarrow> bool"
  co_table_schema :: "string \<Rightarrow> schema option"
  co_row_positions :: bool
  co_next_range_end :: "string \<Rightarrow> string \<Rightarrow> nat \<Rightarrow> nat option"
  co_estimate :: "string \<Rightarrow> table_request \<Rightarrow> nat option"

definition chunk_scan :: "chunk_ops \<Rightarrow> string \<Rightarrow> table_request \<Rightarrow> engine_error + batch list" where
  "chunk_scan C name rq = and_then (co_scan_rows C name rq) (\<lambda>sd. Inr (rs_batches (sd_rows sd)))"

text \<open>The columnar reader, opened on a chunk. It takes the trait's defaults for the hints.\<close>

definition columnar_ops :: "externals \<Rightarrow> kernels \<Rightarrow> row_kernels \<Rightarrow> batch_kernels \<Rightarrow> table_kernels \<Rightarrow> columnar_chunk \<Rightarrow> chunk_ops" where
  "columnar_ops X K R B T chunk =
     \<lparr>co_scan_rows = (\<lambda>name rq. fst (columnar_scan_rows X K R B T name rq (columnar_reader_new chunk))),
      co_has_table = (\<lambda>name. columnar_has_table name (columnar_reader_new chunk)),
      co_table_schema = (\<lambda>name. fst (columnar_table_schema name (columnar_reader_new chunk))),
      co_row_positions = True,
      co_next_range_end = (\<lambda>_ _ _. None),
      co_estimate = (\<lambda>_ _. None)\<rparr>"


section \<open>The reader's cache\<close>

text \<open>The check a block-number column passes when it is read whole.\<close>

definition read_whole :: "batch_kernels \<Rightarrow> columnar_table \<Rightarrow> string \<Rightarrow> engine_error + unit" where
  "read_whole B t bn =
     and_then (ok_or Untyped (index_of (field_names (ct_schema t)) bn)) (\<lambda>index.
     and_then (checked_read B t [index] None) (\<lambda>b.
     and_then (ok_or Panic (get (b_columns b) 0)) (\<lambda>(_, a).
     ensure (null_count a = 0) (EngineError MalformedChunkData))))"

lemma ensure_block_numbers_eq:
  "ensure_block_numbers_readable B rq ot =
     (case nullable_block_numbers (ct_schema (ot_table ot)) rq of
        Inl e \<Rightarrow> (Inl e, ot)
      | Inr None \<Rightarrow> (Inr (), ot)
      | Inr (Some bn) \<Rightarrow>
          if bn \<in> set (ot_complete_blocks ot) then (Inr (), ot)
          else
            (case read_whole B (ot_table ot) bn of
               Inl e \<Rightarrow> (Inl e, ot)
             | Inr _ \<Rightarrow> (Inr (), ot\<lparr>ot_complete_blocks := bn # ot_complete_blocks ot\<rparr>)))"
  unfolding ensure_block_numbers_readable_def read_whole_def by (rule refl)

definition cache_ok :: "batch_kernels \<Rightarrow> columnar_reader \<Rightarrow> bool" where
  "cache_ok B r \<longleftrightarrow>
     (\<forall>(name, ot) \<in> set (cr_tables r). cc_open_table (cr_chunk r) name = Inr (Some (ot_table ot)) \<and>
        (\<forall>bn \<in> set (ot_complete_blocks ot). read_whole B (ot_table ot) bn = Inr ()))"

lemma ensure_blocks_cached:
  assumes ot: "\<forall>bn \<in> set (ot_complete_blocks ot). read_whole B (ot_table ot) bn = Inr ()"
    and e: "ensure_block_numbers_readable B rq ot = (res, ot')"
  shows "fst (ensure_block_numbers_readable B rq \<lparr>ot_table = ot_table ot, ot_complete_blocks = []\<rparr>) = res \<and>
    ot_table ot' = ot_table ot \<and> (\<forall>bn \<in> set (ot_complete_blocks ot'). read_whole B (ot_table ot) bn = Inr ())"
  using e ot unfolding ensure_block_numbers_eq by (auto split: sum.splits option.splits if_splits)

lemma columnar_scan_cached:
  assumes ot: "\<forall>bn \<in> set (ot_complete_blocks ot). read_whole B (ot_table ot) bn = Inr ()"
    and s: "columnar_scan X K R B T rq ot = (res, ot')"
  shows "fst (columnar_scan X K R B T rq \<lparr>ot_table = ot_table ot, ot_complete_blocks = []\<rparr>) = res \<and>
    ot_table ot' = ot_table ot \<and> (\<forall>bn \<in> set (ot_complete_blocks ot'). read_whole B (ot_table ot) bn = Inr ())"
proof -
  obtain checked ot1 where e: "ensure_block_numbers_readable B rq ot = (checked, ot1)" by (cases "ensure_block_numbers_readable B rq ot")
  obtain checked' ot2 where e': "ensure_block_numbers_readable B rq \<lparr>ot_table = ot_table ot, ot_complete_blocks = []\<rparr> = (checked', ot2)"
    by (cases "ensure_block_numbers_readable B rq \<lparr>ot_table = ot_table ot, ot_complete_blocks = []\<rparr>")
  from ensure_blocks_cached [OF ot e] e' have "checked' = checked" by simp
  with ensure_blocks_cached [OF ot e] s e e' ot show ?thesis
    by (auto simp: columnar_scan_def Let_def split: sum.splits)
qed

lemma columnar_scan_rows_cached:
  assumes r: "cache_ok B r" and s: "columnar_scan_rows X K R B T name rq r = (res, r')"
  shows "fst (columnar_scan_rows X K R B T name rq (columnar_reader_new (cr_chunk r))) = res \<and>
    cr_chunk r' = cr_chunk r \<and> cache_ok B r'"
proof (cases "map_of (cr_tables r) name")
  case None
  let ?new = "columnar_reader_new (cr_chunk r)"
  show ?thesis
  proof (cases "cc_open_table (cr_chunk r) name")
    case (Inl e)
    with None s r show ?thesis by (auto simp: columnar_scan_rows_def reader_table_def columnar_reader_new_def)
  next
    case (Inr found)
    show ?thesis
    proof (cases found)
      case f: None
      with None Inr s r show ?thesis by (auto simp: columnar_scan_rows_def reader_table_def columnar_reader_new_def)
    next
      case (Some t)
      let ?ot = "\<lparr>ot_table = t, ot_complete_blocks = []\<rparr>"
      obtain batches ot' where b: "columnar_scan X K R B T rq ?ot = (batches, ot')" by (cases "columnar_scan X K R B T rq ?ot")
      from columnar_scan_cached [OF _ b] have "ot_table ot' = t \<and> (\<forall>bn \<in> set (ot_complete_blocks ot'). read_whole B t bn = Inr ())" by simp
      moreover have "res = and_then batches (scanned_collect rq)" "r' = r\<lparr>cr_tables := (name, ot') # (name, ?ot) # cr_tables r\<rparr>"
        using None Inr Some b s by (simp_all add: columnar_scan_rows_def reader_table_def Let_def)
      ultimately show ?thesis using Inr Some b r
        by (simp add: columnar_scan_rows_def reader_table_def columnar_reader_new_def Let_def cache_ok_def)
    qed
  qed
next
  case (Some ot)
  from map_of_SomeD [OF Some] r have o: "cc_open_table (cr_chunk r) name = Inr (Some (ot_table ot))"
    "\<forall>bn \<in> set (ot_complete_blocks ot). read_whole B (ot_table ot) bn = Inr ()" unfolding cache_ok_def by blast+
  obtain batches ot' where b: "columnar_scan X K R B T rq ot = (batches, ot')" by (cases "columnar_scan X K R B T rq ot")
  note c = columnar_scan_cached [OF o(2) b]
  obtain batches' ot2 where b': "columnar_scan X K R B T rq \<lparr>ot_table = ot_table ot, ot_complete_blocks = []\<rparr> = (batches', ot2)"
    by (cases "columnar_scan X K R B T rq \<lparr>ot_table = ot_table ot, ot_complete_blocks = []\<rparr>")
  with c have "batches' = batches" by simp
  moreover have "res = and_then batches (scanned_collect rq)" "r' = r\<lparr>cr_tables := (name, ot') # cr_tables r\<rparr>"
    using Some b s by (simp_all add: columnar_scan_rows_def reader_table_def)
  ultimately show ?thesis using b' c o r
    by (simp add: columnar_scan_rows_def reader_table_def columnar_reader_new_def Let_def cache_ok_def)
qed

lemma cache_ok_new: "cache_ok B (columnar_reader_new chunk)"
  by (simp add: cache_ok_def columnar_reader_new_def)

lemma cache_ok_scans:
  assumes "cache_ok B r"
  shows "cache_ok B (fold (\<lambda>(name, rq) r. snd (columnar_scan_rows X K R B T name rq r)) earlier r) \<and>
    cr_chunk (fold (\<lambda>(name, rq) r. snd (columnar_scan_rows X K R B T name rq r)) earlier r) = cr_chunk r"
  using assms
proof (induction earlier arbitrary: r)
  case (Cons s earlier)
  obtain name rq where s: "s = (name, rq)" by (cases s)
  obtain res r' where e: "columnar_scan_rows X K R B T name rq r = (res, r')" by (cases "columnar_scan_rows X K R B T name rq r")
  from columnar_scan_rows_cached [OF Cons.prems e] Cons.IH [of r'] s e show ?case by simp
qed simp

section \<open>What the executor relies on\<close>

text \<open>Rows read back by their positions: these rows, in their order.\<close>

definition read_back :: "schema \<Rightarrow> table_request \<Rightarrow> row list \<Rightarrow> nat list \<Rightarrow> scanned \<Rightarrow> bool" where
  "read_back fs rq data rows sd \<longleftrightarrow> rows_ok (sd_rows sd) \<and> list_all (shaped (output_types fs rq)) (rs_batches (sd_rows sd)) \<and>
     rows_view (sd_rows sd) = map (row_view rq data) rows"

lemma rows_view_rows:
  assumes "rows_ok r"
  shows "map fst (rows_view r) = concat (map batch_rows (rs_batches r))"
proof -
  have view: "map fst (batch_view b p) = batch_rows b" if "part_ok (b, p)" for b p
    using that by (auto simp: batch_view_def part_ok_def split: option.splits)
  have "map fst (rows_view r) = concat (map (\<lambda>e. batch_rows (fst e)) (rows_parts r))"
    unfolding rows_view_def map_concat map_map comp_def
    by (intro arg_cong [of _ _ concat] map_cong) (use assms view in \<open>force simp: rows_ok_parts list_all_iff\<close>)+
  also have "map (\<lambda>e. batch_rows (fst e)) (rows_parts r) = map batch_rows (rs_batches r)"
    using assms by (auto simp: rows_parts_def rows_ok_def positions_aligned_def comp_def case_prod_beta' split: option.splits
        intro!: nth_equalityI)
  finally show ?thesis .
qed

text \<open>The batches of a scan: shaped as the request's columns, and their rows one after the other those it asks for.\<close>

lemma scanned_batches:
  assumes "scanned_answers X B fs rq picks data sd"
  shows "list_all (shaped (output_types fs rq)) (rs_batches (sd_rows sd))"
    and "concat (map batch_rows (rs_batches (sd_rows sd))) =
      map (only (rq_output_columns rq)) (filter (asks_row X rq picks) data)"
proof -
  show "list_all (shaped (output_types fs rq)) (rs_batches (sd_rows sd))" using assms by (simp add: scanned_answers_def)
  have "map fst (rows_view (sd_rows sd)) = map (\<lambda>r. only (rq_output_columns rq) (data ! r)) (answer_rows X rq picks data)"
    using assms by (simp add: scanned_answers_def row_view_def)
  also have "\<dots> = map (only (rq_output_columns rq)) (map ((!) data) (filter (\<lambda>r. asks_row X rq picks (data ! r)) [0..<length data]))"
    by (simp add: answer_rows_def)
  also have "map ((!) data) (filter (\<lambda>r. asks_row X rq picks (data ! r)) [0..<length data]) = filter (asks_row X rq picks) data"
    using filter_map [of "asks_row X rq picks" "(!) data" "[0..<length data]"] by (simp add: map_nth comp_def)
  finally show "concat (map batch_rows (rs_batches (sd_rows sd))) = map (only (rq_output_columns rq)) (filter (asks_row X rq picks) data)"
    using rows_view_rows [of "sd_rows sd"] assms by (simp add: scanned_answers_def)
qed

text \<open>A request without a relation picks every row.\<close>

lemma no_relation_picks:
  fixes rq :: table_request
  assumes "rq_key_filter rq = None" "rq_hierarchical_filter rq = None"
  shows "relation_picks R fs data rq (\<lambda>_. True) (\<lambda>_. True)"
proof -
  have none: "rf_relation (row_filters_of rq) = NoRelation" "filter_columns rq = []"
    using assms by (simp_all add: row_filters_of_def Let_def filter_columns_def)
  show ?thesis unfolding relation_picks_def none assms using row_filter_none by simp
qed

locale answering_chunk =
  fixes ops :: "'c \<Rightarrow> chunk_ops" and holds :: "chunk_contents \<Rightarrow> 'c \<Rightarrow> bool"
    and X :: externals and R :: row_kernels and B :: batch_kernels
  assumes answers: "holds contents c \<Longrightarrow> contents name = Some (fs, data) \<Longrightarrow> request_ok rq \<Longrightarrow>
      relation_picks R fs data rq picks readable \<Longrightarrow> rq_row_indices rq = None \<Longrightarrow>
      co_scan_rows (ops c) name rq = Inr sd \<Longrightarrow> scanned_answers X B fs rq picks data sd"
    and reads_back: "holds contents c \<Longrightarrow> contents name = Some (fs, data) \<Longrightarrow> request_ok rq \<Longrightarrow>
      relation_picks R fs data rq picks readable \<Longrightarrow> rq_row_indices rq = Some rows \<Longrightarrow>
      co_scan_rows (ops c) name rq = Inr sd \<Longrightarrow> read_back fs rq data rows sd"
    and rows_typed: "holds contents c \<Longrightarrow> contents name = Some (fs, data) \<Longrightarrow> rows_of_schema fs data"
    and schemas: "holds contents c \<Longrightarrow> co_table_schema (ops c) name = map_option fst (contents name)"
    and tables: "holds contents c \<Longrightarrow> co_has_table (ops c) name \<longleftrightarrow> contents name \<noteq> None"
    and absent: "holds contents c \<Longrightarrow> contents name = None \<Longrightarrow> co_scan_rows (ops c) name rq \<noteq> Inr sd"
    and kernels: "holds contents c \<Longrightarrow> batch_kernels_ok B"
begin

text \<open>A scan without a relation: the rows of its blocks that one of its items matches.\<close>

lemma plain_answers:
  assumes "holds contents c" and "contents name = Some (fs, data)" and "request_ok rq"
    and "rq_key_filter rq = None" "rq_hierarchical_filter rq = None" "rq_row_indices rq = None"
    and "co_scan_rows (ops c) name rq = Inr sd"
  shows "scanned_answers X B fs rq (\<lambda>_. True) data sd"
  by (rule answers [OF assms(1-3) no_relation_picks [OF assms(4, 5)] assms(6, 7)])

end

text \<open>A reader that also serves: a scan that passes the checks made before any row gets its rows.\<close>

locale serving_chunk = answering_chunk ops holds X R B
  for ops :: "'c \<Rightarrow> chunk_ops" and holds X R B +
  fixes K :: kernels and serves :: "'c \<Rightarrow> bool"
  assumes scans: "holds contents c \<Longrightarrow> serves c \<Longrightarrow> contents name = Some (fs, data) \<Longrightarrow> request_ok rq \<Longrightarrow>
      rq_row_indices rq = None \<Longrightarrow> checks_passed X K fs rq \<Longrightarrow> relation_picks R fs data rq picks readable \<Longrightarrow>
      (\<And>bn. rq_block_number_column rq = Some bn \<Longrightarrow> complete_blocks data bn) \<Longrightarrow>
      build_output_schema fs (rq_output_columns rq) \<noteq> [] \<Longrightarrow> \<exists>sd. co_scan_rows (ops c) name rq = Inr sd"
begin

lemma plain_scans:
  assumes "holds contents c" and "serves c" and "contents name = Some (fs, data)" and "request_ok rq"
    and "rq_key_filter rq = None" "rq_hierarchical_filter rq = None" "rq_row_indices rq = None"
    and "checks_passed X K fs rq" and "\<And>bn. rq_block_number_column rq = Some bn \<Longrightarrow> complete_blocks data bn"
    and "build_output_schema fs (rq_output_columns rq) \<noteq> []"
  shows "\<exists>sd. co_scan_rows (ops c) name rq = Inr sd \<and> scanned_answers X B fs rq (\<lambda>_. True) data sd"
  using scans [OF assms(1-4, 7, 8) no_relation_picks [OF assms(5, 6)] assms(9, 10)] plain_answers [OF assms(1, 3-7)] by blast

end

definition chunk_holds :: "chunk_contents \<Rightarrow> columnar_chunk \<Rightarrow> bool" where
  "chunk_holds contents chunk \<longleftrightarrow>
     (\<forall>name. cc_has_table chunk name \<longleftrightarrow> contents name \<noteq> None) \<and>
     (\<forall>name. case contents name of
         None \<Rightarrow> \<forall>t. cc_open_table chunk name \<noteq> Inr (Some t)
       | Some (fs, data) \<Rightarrow> \<exists>t. cc_open_table chunk name = Inr (Some t) \<and> ct_schema t = fs \<and> table_holds t data)"

lemma chunk_holds_entry:
  assumes "chunk_holds contents chunk"
  shows "case contents name of None \<Rightarrow> \<forall>t. cc_open_table chunk name \<noteq> Inr (Some t)
    | Some (fs, data) \<Rightarrow> \<exists>t. cc_open_table chunk name = Inr (Some t) \<and> ct_schema t = fs \<and> table_holds t data"
  using assms unfolding chunk_holds_def by blast

lemma chunk_reader_ok:
  assumes h: "chunk_holds contents chunk"
  shows "reader_ok contents (columnar_reader_new chunk)"
proof -
  have "\<exists>data. contents name = Some (ct_schema t, data) \<and> table_holds t data" if t: "cc_open_table chunk name = Inr (Some t)" for name t
    using chunk_holds_entry [OF h, of name] t by (cases "contents name") auto
  then show ?thesis by (simp add: reader_ok_def columnar_reader_new_def)
qed

lemma chunk_holds_table:
  assumes "chunk_holds contents chunk" and "contents name = Some (fs, data)"
  shows "\<exists>t. cc_open_table chunk name = Inr (Some t) \<and> ct_schema t = fs \<and> table_holds t data"
  using chunk_holds_entry [OF assms(1), of name] assms(2) by simp

lemma chunk_holds_none:
  assumes "chunk_holds contents chunk" and "contents name = None"
  shows "cc_open_table chunk name \<noteq> Inr (Some t)"
  using chunk_holds_entry [OF assms(1), of name] assms(2) by simp

lemma columnar_reads_back:
  assumes K: "kernels_ok K" and B: "batch_kernels_ok B" and T: "table_kernels_ok T" and h: "chunk_holds contents chunk"
    and data: "contents name = Some (fs, data)" and rq: "request_ok rq" "rq_row_indices rq = Some rows"
    and rel: "relation_picks R fs data rq picks readable"
    and s: "fst (columnar_scan_rows X K R B T name rq (columnar_reader_new chunk)) = Inr sd"
  shows "read_back fs rq data rows sd"
proof -
  from chunk_holds_table [OF h data] obtain t where t: "cc_open_table chunk name = Inr (Some t)" "ct_schema t = fs" "table_holds t data" by blast
  let ?ot = "\<lparr>ot_table = t, ot_complete_blocks = []\<rparr>"
  obtain batches ot' where b: "columnar_scan X K R B T rq ?ot = (batches, ot')" by (cases "columnar_scan X K R B T rq ?ot")
  with s t(1) obtain parts where p: "batches = Inr parts" "scanned_collect rq parts = Inr sd"
    by (auto simp: columnar_scan_rows_def reader_table_def columnar_reader_new_def Let_def and_then_Inr_iff)
  have "open_ok data ?ot" using t(3) by (simp add: open_ok_def)
  from columnar_scan_sound [OF K B T this rq(1) _ b, of picks readable] rel t(2) p(1) rq(2)
  have a: "positions_answer fs rq data rows parts" by simp
  then have ok: "list_all (\<lambda>p. scanned_batch_ok p \<and> (sb_positions p \<noteq> None \<longleftrightarrow> rq_positions rq) \<and>
      length (sb_tags p) = length (rq_item_tags rq)) parts" by (simp add: positions_answer_def)
  from scanned_collect_Inr [OF ok] p(2) have sd: "sd_rows sd = rows_of_parts (rq_positions rq) parts" by auto
  from rows_of_parts_ok [of "rq_positions rq" parts] ok a show ?thesis
    by (simp add: read_back_def sd positions_answer_def list_all_iff) (simp add: rows_of_parts_def)
qed

interpretation columnar_chunk: answering_chunk "columnar_ops X K R B T"
  "\<lambda>contents chunk. kernels_ok K \<and> batch_kernels_ok B \<and> table_kernels_ok T \<and> chunk_holds contents chunk" X R B
proof unfold_locales
  fix contents chunk name and rq :: table_request and fs data picks readable sd rows
  let ?holds = "kernels_ok K \<and> batch_kernels_ok B \<and> table_kernels_ok T \<and> chunk_holds contents chunk"
  assume h: ?holds
  then have r: "reader_ok contents (columnar_reader_new chunk)" using chunk_reader_ok by blast
  show "co_table_schema (columnar_ops X K R B T chunk) name = map_option fst (contents name)"
  proof (cases "contents name")
    case None
    with h chunk_holds_none [of contents chunk name] show ?thesis
      by (auto simp: columnar_ops_def columnar_table_schema_def reader_table_def columnar_reader_new_def Let_def split: sum.splits option.splits)
  next
    case (Some e)
    with h chunk_holds_table [of contents chunk name "fst e" "snd e"] show ?thesis
      by (auto simp: columnar_ops_def columnar_table_schema_def reader_table_def columnar_reader_new_def Let_def)
  qed
  show "co_has_table (columnar_ops X K R B T chunk) name \<longleftrightarrow> contents name \<noteq> None"
    using h by (simp add: columnar_ops_def columnar_has_table_def columnar_reader_new_def chunk_holds_def)
  show "batch_kernels_ok B" using h by blast
  show "co_scan_rows (columnar_ops X K R B T chunk) name rq \<noteq> Inr sd" if "contents name = None"
    using h chunk_holds_none [of contents chunk name] that
    by (auto simp: columnar_ops_def columnar_scan_rows_def reader_table_def columnar_reader_new_def Let_def split: sum.splits option.splits)
  show "rows_of_schema fs data" if "contents name = Some (fs, data)"
    using h chunk_holds_table [of contents chunk name fs data] that by (auto simp: table_holds_def)
  show "scanned_answers X B fs rq picks data sd"
    if "contents name = Some (fs, data)" "request_ok rq" "relation_picks R fs data rq picks readable" "rq_row_indices rq = None"
      "co_scan_rows (columnar_ops X K R B T chunk) name rq = Inr sd"
    by (rule columnar.answers [where contents = contents and name = name, OF _ that(2, 1, 3, 4)])
      (use h r that(5) in \<open>simp_all add: columnar_ops_def\<close>)
  show "read_back fs rq data rows sd"
    if "contents name = Some (fs, data)" "request_ok rq" "relation_picks R fs data rq picks readable" "rq_row_indices rq = Some rows"
      "co_scan_rows (columnar_ops X K R B T chunk) name rq = Inr sd"
    using columnar_reads_back [of K B T contents chunk name fs data rq rows R picks readable X sd] h that by (simp add: columnar_ops_def)
qed

definition chunk_serves :: "columnar_chunk \<Rightarrow> bool" where
  "chunk_serves chunk \<longleftrightarrow> (\<forall>name t. cc_open_table chunk name = Inr (Some t) \<longrightarrow> table_serves t)"

interpretation serving: serving_chunk "columnar_ops X K R B T"
  "\<lambda>contents chunk. kernels_ok K \<and> batch_kernels_ok B \<and> table_kernels_ok T \<and> chunk_holds contents chunk" X R B K chunk_serves
proof unfold_locales
  fix contents chunk name and rq :: table_request and fs data picks readable
  assume h: "kernels_ok K \<and> batch_kernels_ok B \<and> table_kernels_ok T \<and> chunk_holds contents chunk" and serves: "chunk_serves chunk"
    and data: "contents name = Some (fs, data)" and rq: "request_ok rq" "rq_row_indices rq = None" "checks_passed X K fs rq"
    and rel: "relation_picks R fs data rq picks readable" and complete: "\<And>bn. rq_block_number_column rq = Some bn \<Longrightarrow> complete_blocks data bn"
    and out: "build_output_schema fs (rq_output_columns rq) \<noteq> []"
  from chunk_holds_table [of contents chunk name] h data obtain t where
    t: "cc_open_table chunk name = Inr (Some t)" "ct_schema t = fs" "table_holds t data" by blast
  have o: "opens_as (columnar_reader_new chunk) name t" using t(1) by (simp add: opens_as_def columnar_reader_new_def)
  have s: "table_serves t" using serves t(1) by (simp add: chunk_serves_def)
  from columnar_scan_rows_total [of K B T "columnar_reader_new chunk" name t data rq X R picks readable] h o t s rq rel complete out
  show "\<exists>sd. co_scan_rows (columnar_ops X K R B T chunk) name rq = Inr sd"
    by (auto simp: columnar_ops_def columnar_reader_new_def)
qed

text \<open>A chunk held in memory.\<close>

definition memory_chunk :: "(string \<rightharpoonup> batch) \<Rightarrow> columnar_chunk" where
  "memory_chunk m =
     \<lparr>cc_has_table = (\<lambda>name. m name \<noteq> None), cc_open_table = (\<lambda>name. Inr (map_option memory_table (m name)))\<rparr>"

definition memory_contents :: "(string \<rightharpoonup> batch) \<Rightarrow> chunk_contents" where
  "memory_contents m name = map_option (\<lambda>b. (table_schema b, batch_rows b)) (m name)"

lemma memory_chunk_holds:
  assumes "\<And>name b. m name = Some b \<Longrightarrow> batch_ok b \<and> distinct (column_names b)"
  shows "chunk_holds (memory_contents m) (memory_chunk m)" and "chunk_serves (memory_chunk m)"
proof -
  have "table_holds (memory_table b) (batch_rows b)" "table_serves (memory_table b)" if "m name = Some b" for name b
    using memory_table_holds [of b] assms [OF that] by blast+
  then show "chunk_holds (memory_contents m) (memory_chunk m)" "chunk_serves (memory_chunk m)"
    by (auto simp: chunk_holds_def chunk_serves_def memory_chunk_def memory_contents_def split: option.splits)
qed

section \<open>Properties\<close>

text \<open>
  C15: What a reader keeps between scans is invisible: after any scans of any tables, those that failed
  included, a scan returns what it returns through a reader just opened, errors and all.
\<close>

theorem columnar_scans_independent:
  "fst (columnar_scan_rows X K R B T name rq
      (fold (\<lambda>(name, rq) r. snd (columnar_scan_rows X K R B T name rq r)) earlier (columnar_reader_new chunk))) =
    co_scan_rows (columnar_ops X K R B T chunk) name rq"
proof -
  let ?r = "fold (\<lambda>(name, rq) r. snd (columnar_scan_rows X K R B T name rq r)) earlier (columnar_reader_new chunk)"
  obtain res r' where e: "columnar_scan_rows X K R B T name rq ?r = (res, r')" by (cases "columnar_scan_rows X K R B T name rq ?r")
  have r: "cache_ok B ?r" "cr_chunk ?r = chunk"
    using cache_ok_scans [OF cache_ok_new [of B chunk], where X = X and K = K and R = R and T = T and earlier = earlier]
    by (simp_all add: columnar_reader_new_def)
  from columnar_scan_rows_cached [OF r(1) e] r(2) e show ?thesis by (simp add: columnar_ops_def)
qed

end
