(* ===== verification/Fork.thy ===== *)
theory Fork
  imports Chunk_Reader Query_Plan Sample
begin

text \<open>
  Fork detection (\<^verbatim>\<open>src/output/fork.rs\<close>): the hash a client believes the block before its first one has,
  compared with what the chunk states. The rows behind the first block are read as statements about their
  parents; the one that decides is the lowest row at or above the first block whose parent is below it. The
  check is shown to decide exactly by that row, on any chunk that serves.
\<close>

section \<open>Reading the recent blocks\<close>

type_synonym block_ref = "nat \<times> string"
type_synonym fork_state = "block_ref list \<times> (nat \<times> block_ref) option"

definition fork_window :: nat where
  "fork_window = 100"

definition chunk_has_column :: "chunk_ops \<Rightarrow> string \<Rightarrow> string \<Rightarrow> bool" where
  "chunk_has_column C name col =
     (case co_table_schema C name of None \<Rightarrow> False | Some fs \<Rightarrow> col \<in> set (field_names fs))"

definition chunk_parent_number :: "chunk_ops \<Rightarrow> plan \<Rightarrow> table_description \<Rightarrow> string option" where
  "chunk_parent_number C p t =
     (case t_parent_number_column t of
        None \<Rightarrow> None
      | Some col \<Rightarrow> if chunk_has_column C (pl_block_table p) col then Some col else None)"

definition prev_blocks_request :: "plan \<Rightarrow> table_description \<Rightarrow> string \<Rightarrow> string option \<Rightarrow> table_request" where
  "prev_blocks_request p t hash parent_number =
     (let bn = t_block_number_column t;
          rq = (table_request_new ([bn, hash] @ opt_list parent_number))
            \<lparr>rq_from_block := Some (pl_from_block p - fork_window), rq_block_number_column := Some bn\<rparr>;
          newest = (if pl_from_block p = 0 then None else Some (pl_from_block p - 1))
      in case (parent_number, newest) of
           (Some col, Some n) \<Rightarrow> rq\<lparr>rq_predicates := [row_predicate_new [(col, PLte (SvUInt64 (word_of_nat n)))]]\<rparr>
         | _ \<Rightarrow> rq\<lparr>rq_to_block := Some (pl_from_block p)\<rparr>)"

text \<open>The block a row is about: the number it states as its parent's, or the one before its own.\<close>

definition row_parent :: "array option \<Rightarrow> nat \<Rightarrow> nat \<Rightarrow> nat option" where
  "row_parent parent_numbers row_block row =
     (case parent_numbers of
        Some col \<Rightarrow> if is_null col row then None else map_option (\<lambda>c. block_number c row) (resolve_int col)
      | None \<Rightarrow> Some (row_block - 1))"

definition note_row :: "nat \<Rightarrow> nat \<times> block_ref \<Rightarrow> fork_state \<Rightarrow> fork_state" where
  "note_row from_block = (\<lambda>(row_block, block_ref) (refs, answer).
     (refs @ [block_ref],
      if from_block \<le> row_block \<and> (case answer of None \<Rightarrow> True | Some (b, _) \<Rightarrow> row_block < b)
      then Some (row_block, block_ref) else answer))"

definition read_prev_batch ::
    "plan \<Rightarrow> table_description \<Rightarrow> string \<Rightarrow> string option \<Rightarrow> batch \<Rightarrow> fork_state \<Rightarrow> engine_error + fork_state" where
  "read_prev_batch p t hash parent_number b st =
     (case (column_by_name b (t_block_number_column t), column_by_name b hash) of
        (Some blocks, Some hashes) \<Rightarrow>
          (let parent_numbers = (case parent_number of None \<Rightarrow> None | Some col \<Rightarrow> column_by_name b col) in
           and_then (ok_or (EngineError MalformedChunkData) (resolve_text hashes)) (\<lambda>hs.
           and_then (block_numbers_resolve blocks) (\<lambda>bs.
           Inr (fold (\<lambda>row st.
             case row_parent parent_numbers (block_number bs row) row of
               None \<Rightarrow> st
             | Some number \<Rightarrow>
                 note_row (pl_from_block p) (block_number bs row, number, unwrap_or '''' (text_value hs row)) st)
             [0..<b_num_rows b] st))))
      | _ \<Rightarrow> Inr st)"

definition read_prev_blocks ::
    "plan \<Rightarrow> table_description \<Rightarrow> string \<Rightarrow> chunk_ops \<Rightarrow> engine_error + block_ref list \<times> block_ref option" where
  "read_prev_blocks p t hash C =
     (let parent_number = chunk_parent_number C p t in
      and_then (chunk_scan C (pl_block_table p) (prev_blocks_request p t hash parent_number)) (\<lambda>batches.
      if \<not> chunk_has_column C (pl_block_table p) hash then
        and_then (ensure (\<not> list_ex (\<lambda>b. 0 < b_num_rows b) batches) (EngineError ColumnNotFound)) (\<lambda>_. Inr ([], None))
      else
        and_then (try_fold (read_prev_batch p t hash parent_number) batches ([], None)) (\<lambda>(refs, answer).
        Inr (sort_key fst refs, map_option snd answer))))"

definition check_parent_block :: "plan \<Rightarrow> dataset_description \<Rightarrow> chunk_ops \<Rightarrow> engine_error + unit" where
  "check_parent_block p meta C =
     (case (pl_parent_block_hash p, table meta (pl_block_table p)) of
        (Some expected, Some t) \<Rightarrow>
          (case t_parent_hash_column t of
             None \<Rightarrow> Inr ()
           | Some hash \<Rightarrow>
               and_then (ensure (co_has_table C (pl_block_table p)) (EngineError TableNotFound)) (\<lambda>_.
               and_then (read_prev_blocks p t hash C) (\<lambda>(refs, answer).
               case answer of
                 None \<Rightarrow> Inr ()
               | Some (_, parent_hash) \<Rightarrow>
                   if parent_hash = expected then Inr () else Inl (UnexpectedBaseBlock expected refs))))
      | _ \<Rightarrow> Inr ())"


section \<open>What a row states\<close>

definition row_block :: "string \<Rightarrow> row \<Rightarrow> nat option" where
  "row_block bn row = (case row bn of Some (CInt t v) \<Rightarrow> Some (unsigned_bits t v) | _ \<Rightarrow> None)"

definition row_hash :: "string \<Rightarrow> row \<Rightarrow> string" where
  "row_hash hash row = (case row hash of Some (CText s) \<Rightarrow> s | _ \<Rightarrow> '''')"

definition stated_parent :: "string \<Rightarrow> string option \<Rightarrow> row \<Rightarrow> nat option" where
  "stated_parent bn parent_number row =
     (case parent_number of
        None \<Rightarrow> map_option (\<lambda>n. n - 1) (row_block bn row)
      | Some col \<Rightarrow> row_block col row)"

definition parent_ref :: "string \<Rightarrow> string \<Rightarrow> string option \<Rightarrow> row \<Rightarrow> block_ref option" where
  "parent_ref bn hash parent_number row = map_option (\<lambda>n. (n, row_hash hash row)) (stated_parent bn parent_number row)"

text \<open>
  The recent rows: at most a window behind the first block, about a block below it. For block zero, whose
  parent has no number below it, that is the row of block zero.
\<close>

definition recent_row :: "string \<Rightarrow> string option \<Rightarrow> nat \<Rightarrow> row \<Rightarrow> bool" where
  "recent_row bn parent_number from_block row =
     (case row_block bn row of
        None \<Rightarrow> False
      | Some b \<Rightarrow> from_block - fork_window \<le> b \<and>
          (if from_block = 0 then b = 0
           else (case stated_parent bn parent_number row of None \<Rightarrow> False | Some n \<Rightarrow> n < from_block)))"

text \<open>The least element of a list by a key, the first of several.\<close>

definition least_by :: "('a \<Rightarrow> nat) \<Rightarrow> 'a list \<Rightarrow> 'a option" where
  "least_by f xs = find (\<lambda>x. list_all (\<lambda>y. f x \<le> f y) xs) xs"

text \<open>The row that decides: the lowest of the recent rows at or above the first block that state a parent.\<close>

definition deciding_row :: "string \<Rightarrow> string option \<Rightarrow> nat \<Rightarrow> row list \<Rightarrow> row option" where
  "deciding_row bn parent_number from_block data =
     least_by (\<lambda>row. the (row_block bn row))
       (filter (\<lambda>row. recent_row bn parent_number from_block row \<and> stated_parent bn parent_number row \<noteq> None \<and>
          from_block \<le> the (row_block bn row)) data)"

section \<open>Facts\<close>

lemma least_by_Nil [simp]: "least_by f [] = None"
  by (simp add: least_by_def)

lemma least_by_Some: "least_by f xs = Some x \<Longrightarrow> x \<in> set xs \<and> (\<forall>y \<in> set xs. f x \<le> f y)"
  by (auto simp: least_by_def find_Some_iff list_all_iff)

lemma least_by_None [simp]: "least_by f xs = None \<longleftrightarrow> xs = []"
proof (cases "xs = []")
  case False
  then obtain x where "x \<in> set xs" "f x = Min (f ` set xs)"
    using Min_in [of "f ` set xs"] by (force simp: image_iff)
  then have "list_all (\<lambda>y. f x \<le> f y) xs" by (auto simp: list_all_iff)
  with \<open>x \<in> set xs\<close> False show ?thesis by (auto simp: least_by_def find_None_iff)
qed simp

lemma least_by_snoc:
  "least_by f (xs @ [x]) = (case least_by f xs of None \<Rightarrow> Some x | Some y \<Rightarrow> if f x < f y then Some x else Some y)"
proof (cases "least_by f xs")
  case None
  then have "xs = []" by simp
  then show ?thesis by (simp add: least_by_def)
next
  case (Some y)
  have f: "find P (as @ bs) = (case find P as of None \<Rightarrow> find P bs | Some z \<Rightarrow> Some z)" for P and as bs :: "'a list"
    by (induction as) auto
  note y = least_by_Some [OF Some]
  show ?thesis
  proof (cases "f x < f y")
    case True
    with y have "find (\<lambda>z. list_all (\<lambda>w. f z \<le> f w) (xs @ [x])) xs = None" by (force simp: find_None_iff)
    moreover have "list_all (\<lambda>w. f x \<le> f w) (xs @ [x])" using True y by (force simp: list_all_iff)
    ultimately show ?thesis using True Some by (simp add: least_by_def f)
  next
    case False
    have "list_all (\<lambda>w. f z \<le> f w) (xs @ [x]) \<longleftrightarrow> list_all (\<lambda>w. f z \<le> f w) xs" if "z \<in> set xs" for z
      using that y False by (auto simp: list_all_iff intro: le_trans)
    then have "find (\<lambda>z. list_all (\<lambda>w. f z \<le> f w) (xs @ [x])) xs = least_by f xs"
      unfolding least_by_def by (intro find_cong) auto
    with Some False show ?thesis by (simp add: least_by_def [of f "xs @ [x]"] f)
  qed
qed

lemma least_by_map: "least_by f (map g xs) = map_option g (least_by (\<lambda>x. f (g x)) xs)"
proof -
  have "find P (map g xs) = map_option g (find (\<lambda>x. P (g x)) xs)" for P by (induction xs) auto
  then show ?thesis by (simp add: least_by_def list_all_iff)
qed

lemma fold_note_row:
  "fold (note_row from_block) xs ([], None) = (map snd xs, least_by fst (filter (\<lambda>x. from_block \<le> fst x) xs))"
proof (induction xs rule: rev_induct)
  case (snoc x xs)
  then show ?case
    by (cases x) (auto simp: note_row_def least_by_snoc split: option.splits)
qed simp

definition row_entry :: "string \<Rightarrow> string \<Rightarrow> string option \<Rightarrow> row \<Rightarrow> (nat \<times> block_ref) option" where
  "row_entry bn hash parent_number row =
     (case (row_block bn row, parent_ref bn hash parent_number row) of (Some b, Some r) \<Rightarrow> Some (b, r) | _ \<Rightarrow> None)"

lemma int_cell_block:
  assumes "column_by_name b name = Some (AInt t vs n)"
  shows "row_block name (row_at b i) = (if valid_at n i then Some (unsigned_bits t (vs ! i)) else None)"
  using assms by (simp add: row_block_def row_at_def)

lemma read_prev_batch_rows:
  assumes ok: "batch_ok b" and blocks: "column_by_name b (t_block_number_column t) = Some blocks" "is_integer (data_type_of blocks)"
    and filled: "\<And>i. i < b_num_rows b \<Longrightarrow> row_at b i (t_block_number_column t) \<noteq> Some CNull"
    and hashes: "column_by_name b hash = Some hashes" "is_text (data_type_of hashes)"
    and parent: "\<And>col. parent_number = Some col \<Longrightarrow> \<exists>a. column_by_name b col = Some a \<and> is_integer (data_type_of a)"
  shows "read_prev_batch p t hash parent_number b st =
    Inr (fold (note_row (pl_from_block p)) (List.map_filter (row_entry (t_block_number_column t) hash parent_number) (batch_rows b)) st)"
proof -
  let ?bn = "t_block_number_column t" and ?n = "b_num_rows b"
  from blocks(2) obtain bt vs n where bs: "blocks = AInt bt vs n" by (cases blocks) (auto simp: is_integer_iff)
  from hashes(2) obtain ht ss m where hs: "hashes = AText ht ss m" by (cases hashes) auto
  have l: "len blocks = ?n" "wf_array blocks" using batch_column [OF ok blocks(1)] by simp_all
  have valid: "valid_at n i" if "i < ?n" for i
    using filled [OF that] blocks(1) by (auto simp: bs row_at_def split: if_splits)
  have "null_count blocks = 0"
    by (rule null_count_none [OF l(2)]) (use valid l(1) in \<open>auto simp: bs\<close>)
  then have blocks_at: "block_numbers_resolve blocks = Inr (bt, vs, n)" by (simp add: block_numbers_resolve_def bs)
  let ?pns = "case parent_number of None \<Rightarrow> None | Some col \<Rightarrow> column_by_name b col"
  have block: "row_block ?bn (row_at b i) = Some (block_number (bt, vs, n) i)" if "i < ?n" for i
    using int_cell_block [of b ?bn bt vs n i] blocks(1) bs valid [OF that] by simp
  have hash: "row_hash hash (row_at b i) = unwrap_or '''' (text_value (ht, ss, m) i)" for i
    using hashes(1) by (simp add: row_hash_def row_at_def hs unwrap_or_def)
  have stated: "stated_parent ?bn parent_number (row_at b i) = row_parent ?pns (block_number (bt, vs, n) i) i" if i: "i < ?n" for i
  proof (cases parent_number)
    case None
    then show ?thesis using block [OF i] by (simp add: stated_parent_def row_parent_def)
  next
    case (Some col)
    from parent [OF Some] obtain a where a: "column_by_name b col = Some a" "is_integer (data_type_of a)" by blast
    then obtain pt ps k where "a = AInt pt ps k" by (cases a) (auto simp: is_integer_iff)
    then show ?thesis using int_cell_block [of b col pt ps k i] a(1) Some
      by (simp add: stated_parent_def row_parent_def is_null_def)
  qed
  have entry: "row_entry ?bn hash parent_number (row_at b i) =
      map_option (\<lambda>number. (block_number (bt, vs, n) i, number, unwrap_or '''' (text_value (ht, ss, m) i)))
        (row_parent ?pns (block_number (bt, vs, n) i) i)" if "i < ?n" for i
    using block [OF that] stated [OF that] hash [of i]
    by (simp add: row_entry_def parent_ref_def split: option.splits)
  have "fold (\<lambda>row st. case row_parent ?pns (block_number (bt, vs, n) row) row of
        None \<Rightarrow> st
      | Some number \<Rightarrow> note_row (pl_from_block p) (block_number (bt, vs, n) row, number, unwrap_or '''' (text_value (ht, ss, m) row)) st) rows st =
      fold (note_row (pl_from_block p)) (List.map_filter (row_entry ?bn hash parent_number) (map (row_at b) rows)) st"
    if "set rows \<subseteq> {..<?n}" for rows
    using that
  proof (induction rows arbitrary: st)
    case (Cons row rows)
    then have "row < ?n" by simp
    from entry [OF this] Cons show ?case
      by (cases "row_parent ?pns (block_number (bt, vs, n) row) row") (simp_all del: block_number.simps)
  qed (simp add: List.map_filter_def)
  from this [of "[0..<?n]"] show ?thesis
    using blocks(1) hashes(1) blocks_at
    by (simp add: read_prev_batch_def hs batch_rows_def atLeast0LessThan del: block_number.simps text_value.simps)
qed

lemma read_prev_batches:
  assumes "\<And>b st. b \<in> set bs \<Longrightarrow> read b st = Inr (fold step (List.map_filter entry (batch_rows b)) st)"
  shows "try_fold read bs st = Inr (fold step (List.map_filter entry (concat (map batch_rows bs))) st)"
  using assms
proof (induction bs arbitrary: st)
  case (Cons b bs)
  have "List.map_filter entry (xs @ ys) = List.map_filter entry xs @ List.map_filter entry ys" for xs ys
    by (simp add: List.map_filter_def)
  with Cons show ?case by simp
qed (simp add: List.map_filter_def)

section \<open>The check\<close>

text \<open>The column of parent numbers, when the table the chunk holds has it.\<close>

definition held_parent_number :: "schema \<Rightarrow> table_description \<Rightarrow> string option" where
  "held_parent_number fs t =
     (case t_parent_number_column t of
        None \<Rightarrow> None
      | Some col \<Rightarrow> if col \<in> set (field_names fs) then Some col else None)"

text \<open>What a chunk's block table is read with: blocks and parents are integers, hashes text, and every row has its block.\<close>

definition fork_readable :: "schema \<Rightarrow> row list \<Rightarrow> table_description \<Rightarrow> string \<Rightarrow> bool" where
  "fork_readable fs data t hash \<longleftrightarrow>
     (\<exists>f. field_with_name fs (t_block_number_column t) = Some f \<and> is_integer (f_type f)) \<and>
     (\<forall>f. field_with_name fs hash = Some f \<longrightarrow> is_text (f_type f)) \<and>
     (\<forall>col f. held_parent_number fs t = Some col \<longrightarrow> field_with_name fs col = Some f \<longrightarrow> is_integer (f_type f)) \<and>
     complete_blocks data (t_block_number_column t)"

lemma upto_block_admits:
  assumes c: "c = CNull \<or> (\<exists>t v. c = CInt t v)" and n: "n < 2 ^ 64"
  shows "range_admits (SvUInt64 (word_of_nat n)) False c \<longleftrightarrow> (\<exists>t v. c = CInt t v \<and> unsigned_bits t v \<le> n)"
proof -
  have "uint (word_of_nat n :: u64) = int n" using n by (simp add: uint_nat unat_of_nat)
  moreover have "declared_value v (bits_of t) False \<le> int n \<longleftrightarrow> unsigned_bits t v \<le> n" for t v
    by (simp add: declared_unsigned unsigned_bits_def nat_le_iff)
  ultimately show ?thesis using c by (auto simp: range_admits_def Let_def)
qed

lemma prev_blocks_asks:
  assumes typed: "rows_of_schema fs data" and r: "fork_readable fs data t hash" and row: "row \<in> set data" and n: "pl_from_block p < 2 ^ 64"
  shows "asks_row X (prev_blocks_request p t hash (held_parent_number fs t)) (\<lambda>_. True) row \<longleftrightarrow>
    recent_row (t_block_number_column t) (held_parent_number fs t) (pl_from_block p) row"
proof -
  let ?bn = "t_block_number_column t" and ?pn = "held_parent_number fs t"
  have s: "row_of_schema fs row" using typed row by (auto simp: rows_of_schema_def list_all_iff)
  from r row_has_block [OF s] row obtain bt v where b: "row ?bn = Some (CInt bt v)"
    unfolding fork_readable_def complete_blocks_def by blast
  show ?thesis
  proof (cases ?pn)
    case None
    then show ?thesis using b
      by (auto simp: asks_row_def prev_blocks_request_def Let_def in_request_blocks_def in_blocks_def within_bounds_def item_asks_def
          recent_row_def stated_parent_def row_block_def table_request_new_def)
  next
    case (Some col)
    then have "col \<in> set (field_names fs)" by (auto simp: held_parent_number_def split: option.splits if_splits)
    then obtain f where f: "field_with_name fs col = Some f" using field_with_name_in by blast
    with r Some obtain ft where ft: "f_type f = DInt ft" by (auto simp: fork_readable_def is_integer_iff)
    from field_with_name_Some [OF f] s ft obtain c where c: "row col = Some c" "c = CNull \<or> (\<exists>t v. c = CInt t v)"
      by (fastforce simp: row_of_schema_def typed_cell_def)
    have block: "row_block col row = (case c of CInt t v \<Rightarrow> Some (unsigned_bits t v) | _ \<Rightarrow> None)"
      using c by (auto simp: row_block_def)
    show ?thesis
    proof (cases "pl_from_block p = 0")
      case True
      with Some b c show ?thesis
        by (auto simp: asks_row_def prev_blocks_request_def Let_def in_request_blocks_def in_blocks_def within_bounds_def item_asks_def
            recent_row_def stated_parent_def row_block_def table_request_new_def)
    next
      case False
      have admits: "range_admits (SvUInt64 (word_of_nat (pl_from_block p - 1))) False c \<longleftrightarrow>
          (case c of CInt t v \<Rightarrow> unsigned_bits t v < pl_from_block p | _ \<Rightarrow> False)"
        using upto_block_admits [OF c(2), of "pl_from_block p - 1"] n False c(2) by (auto split: cell.splits)
      from False Some b c(1) block admits show ?thesis
        by (auto simp: asks_row_def prev_blocks_request_def Let_def in_request_blocks_def in_blocks_def within_bounds_def item_asks_def
            recent_row_def stated_parent_def row_block_def [of ?bn] table_request_new_def row_admits_def all_admit_def row_predicate_new_def
            with_alternatives_def split: cell.splits)
    qed
  qed
qed

lemma prev_blocks_request_fields:
  "rq_key_filter (prev_blocks_request p t hash pn) = None" "rq_hierarchical_filter (prev_blocks_request p t hash pn) = None"
  "rq_row_indices (prev_blocks_request p t hash pn) = None" "rq_item_tags (prev_blocks_request p t hash pn) = []"
  "rq_required_columns (prev_blocks_request p t hash pn) = []"
  "rq_block_number_column (prev_blocks_request p t hash pn) = Some (t_block_number_column t)"
  "rq_output_columns (prev_blocks_request p t hash pn) = [t_block_number_column t, hash] @ opt_list pn"
  "rq_predicates (prev_blocks_request p t hash pn) \<in>
    {[]} \<union> {[row_predicate_new [(col, PLte (SvUInt64 n))]] | col n. pn = Some col}"
  by (auto simp: prev_blocks_request_def Let_def table_request_new_def split: option.splits)

lemma upto_block_comparable: "check_stored_type X K (PLte (SvUInt64 n)) (DInt t) = Inr ()"
  using threshold_new_DInt [of "Unsigned [n]" t] by (auto simp: check_stored_type_def compare_scalar_def or_unsupported_def)

lemma prev_blocks_checks:
  assumes r: "fork_readable fs data t hash"
  shows "request_ok (prev_blocks_request p t hash (held_parent_number fs t))"
    and "checks_passed X K fs (prev_blocks_request p t hash (held_parent_number fs t))"
    and "build_output_schema fs (rq_output_columns (prev_blocks_request p t hash (held_parent_number fs t))) \<noteq> []"
proof -
  let ?pn = "held_parent_number fs t" let ?rq = "prev_blocks_request p t hash ?pn"
  note f = prev_blocks_request_fields [of p t hash ?pn]
  from f(8) have items: "rq_predicates ?rq = [] \<or>
      (\<exists>col n. ?pn = Some col \<and> rq_predicates ?rq = [row_predicate_new [(col, PLte (SvUInt64 n))]])" by blast
  note pred = row_predicate_new_def with_alternatives_def column_predicates_def required_columns_def
  show "request_ok ?rq" using items by (auto simp: request_ok_def f(1,2,4) row_predicate_ok_def pred)
  from r obtain b where b: "field_with_name fs (t_block_number_column t) = Some b" "is_integer (f_type b)" by (auto simp: fork_readable_def)
  have col: "col \<in> set (field_names fs) \<and> (\<forall>g. field_with_name fs col = Some g \<longrightarrow> is_integer (f_type g))" if "?pn = Some col" for col
    using that r by (auto simp: held_parent_number_def fork_readable_def split: option.splits if_splits)
  have columns: "ensure_columns_present fs ?rq = Inr ()"
    using items col by (auto simp: ensure_columns_present_def try_for_each_Inr_iff filter_columns_def f pred)
  have "(case field_with_name fs c of None \<Rightarrow> Inr ()
      | Some g \<Rightarrow> or_fail (EngineError UnsupportedKeyType) (check_stored_type X K (PLte (SvUInt64 n)) (f_type g))) = Inr ()" if "?pn = Some c" for c n
    using col [OF that] upto_block_comparable by (auto simp: or_fail_def is_integer_iff split: option.splits)
  with items have "ensure_predicates_comparable X K fs ?rq = Inr ()"
    by (auto simp: ensure_predicates_comparable_def try_for_each_Inr_iff pred)
  with columns b show "checks_passed X K fs ?rq" by (simp add: checks_passed_def nullable_block_numbers_def f(6))
  show "build_output_schema fs (rq_output_columns ?rq) \<noteq> []"
    using b(1) by (simp add: build_output_schema_def f(7) List.map_filter_def)
qed

lemma row_entry_only:
  assumes "bn \<in> set names" "hash \<in> set names" "\<And>col. pn = Some col \<Longrightarrow> col \<in> set names"
  shows "row_entry bn hash pn (only names row) = row_entry bn hash pn row"
  using assms by (auto simp: row_entry_def parent_ref_def stated_parent_def row_block_def row_hash_def only_def split: option.splits)

lemma noted_rows:
  assumes blocks: "\<forall>row \<in> set rows. row_block bn row \<noteq> None"
  shows "map snd (List.map_filter (row_entry bn hash pn) rows) = List.map_filter (parent_ref bn hash pn) rows"
    and "map_option snd (least_by fst (filter (\<lambda>x. from_block \<le> fst x) (List.map_filter (row_entry bn hash pn) rows))) =
      map_option (\<lambda>row. the (parent_ref bn hash pn row))
        (least_by (\<lambda>row. the (row_block bn row)) (filter (\<lambda>row. stated_parent bn pn row \<noteq> None \<and> from_block \<le> the (row_block bn row)) rows))"
proof -
  have entries: "List.map_filter (row_entry bn hash pn) rows =
      map (\<lambda>row. (the (row_block bn row), the (parent_ref bn hash pn row))) (filter (\<lambda>row. stated_parent bn pn row \<noteq> None) rows)"
    using blocks
  proof (induction rows)
    case (Cons row rows)
    then obtain b where "row_block bn row = Some b" by fastforce
    with Cons show ?case by (cases "stated_parent bn pn row") (simp_all add: row_entry_def parent_ref_def)
  qed (simp add: List.map_filter_def)
  have "List.map_filter (parent_ref bn hash pn) rows = map (\<lambda>row. the (parent_ref bn hash pn row)) (filter (\<lambda>row. stated_parent bn pn row \<noteq> None) rows)"
    by (simp add: List.map_filter_def parent_ref_def comp_def)
  then show "map snd (List.map_filter (row_entry bn hash pn) rows) = List.map_filter (parent_ref bn hash pn) rows"
    by (simp add: entries comp_def)
  show "map_option snd (least_by fst (filter (\<lambda>x. from_block \<le> fst x) (List.map_filter (row_entry bn hash pn) rows))) =
      map_option (\<lambda>row. the (parent_ref bn hash pn row))
        (least_by (\<lambda>row. the (row_block bn row)) (filter (\<lambda>row. stated_parent bn pn row \<noteq> None \<and> from_block \<le> the (row_block bn row)) rows))"
    by (simp add: entries filter_map comp_def least_by_map option.map_comp conj_commute)
qed

text \<open>What the check says of the rows of a block table.\<close>

definition fork_verdict :: "schema \<Rightarrow> row list \<Rightarrow> table_description \<Rightarrow> string \<Rightarrow> nat \<Rightarrow> string \<Rightarrow> engine_error + unit" where
  "fork_verdict fs data t hash from_block expected =
     (let bn = t_block_number_column t; pn = held_parent_number fs t; recent = filter (recent_row bn pn from_block) data
      in if hash \<notin> set (field_names fs) then (if recent = [] then Inr () else Inl (EngineError ColumnNotFound))
         else (case deciding_row bn pn from_block data of
             None \<Rightarrow> Inr ()
           | Some row \<Rightarrow>
               if row_hash hash row = expected then Inr ()
               else Inl (UnexpectedBaseBlock expected (sort_key fst (List.map_filter (parent_ref bn hash pn) recent)))))"

lemma recent_has_block: "recent_row bn pn from_block row \<Longrightarrow> row_block bn row \<noteq> None"
  by (auto simp: recent_row_def split: option.splits)

lemma shaped_column:
  assumes "shaped (output_types fs rq) b" and "col \<in> set (rq_output_columns rq)" and "field_with_name fs col = Some f"
    and "distinct (field_names fs)"
  shows "\<exists>a. column_by_name b col = Some a \<and> data_type_of a = f_type f"
proof -
  have out: "f \<in> set (build_output_schema fs (rq_output_columns rq))"
    using assms(2, 3) by (auto simp: build_output_schema_def in_map_filter)
  have name: "f_name f = col" using field_with_name_Some [OF assms(3)] by simp
  have same: "g = f" if g: "g \<in> set (build_output_schema fs (rq_output_columns rq))" "f_name g = col" for g
  proof -
    from g obtain name' where n: "field_with_name fs name' = Some g" by (auto simp: build_output_schema_def in_map_filter)
    with field_with_name_Some [OF n] g(2) assms(3) show ?thesis by simp
  qed
  have "map_of (map (\<lambda>f. (f_name f, f_type f)) xs) col = Some (f_type f)"
    if "f \<in> set xs" "set xs \<subseteq> set (build_output_schema fs (rq_output_columns rq))" for xs
    using that
  proof (induction xs)
    case (Cons x xs)
    then show ?case using same [of x] name by (cases "x = f") auto
  qed simp
  from this [OF out order_refl] assms(1) have "map_option data_type_of (column_by_name b col) = Some (f_type f)"
    by (simp add: column_by_name_types shaped_def output_types_def)
  then show ?thesis by auto
qed

context serving_chunk
begin

lemma fork_decided:
  assumes h: "holds contents c" "serves c" and data: "contents (pl_block_table p) = Some (fs, data)"
    and t: "table meta (pl_block_table p) = Some t" "t_parent_hash_column t = Some hash" and e: "pl_parent_block_hash p = Some expected"
    and n: "pl_from_block p < 2 ^ 64" and r: "fork_readable fs data t hash"
  shows "check_parent_block p meta (ops c) = fork_verdict fs data t hash (pl_from_block p) expected"
proof -
  let ?C = "ops c" and ?bn = "t_block_number_column t" and ?pn = "held_parent_number fs t" and ?from = "pl_from_block p"
  let ?rq = "prev_blocks_request p t hash ?pn" and ?recent = "filter (recent_row (t_block_number_column t) (held_parent_number fs t) (pl_from_block p)) data"
  note f = prev_blocks_request_fields [of p t hash ?pn]
  have typed: "rows_of_schema fs data" by (rule rows_typed [OF h(1) data])
  have schema: "co_table_schema ?C (pl_block_table p) = Some fs" and there: "co_has_table ?C (pl_block_table p)"
    using schemas [OF h(1)] tables [OF h(1)] data by auto
  have columns: "chunk_has_column ?C (pl_block_table p) col \<longleftrightarrow> col \<in> set (field_names fs)" for col
    by (simp add: chunk_has_column_def schema)
  have pn: "chunk_parent_number ?C p t = ?pn" unfolding chunk_parent_number_def held_parent_number_def columns ..
  from plain_scans [OF h data prev_blocks_checks(1) [OF r] f(1-3) prev_blocks_checks(2) [OF r] _ prev_blocks_checks(3) [OF r]] r
  obtain sd where sd: "co_scan_rows ?C (pl_block_table p) ?rq = Inr sd" "scanned_answers X B fs ?rq (\<lambda>_. True) data sd"
    by (auto simp: f(6) fork_readable_def)
  let ?bs = "rs_batches (sd_rows sd)"
  have asks: "filter (asks_row X ?rq (\<lambda>_. True)) data = ?recent"
    using prev_blocks_asks [OF typed r _ n] by (intro filter_cong) simp_all
  have rows: "concat (map batch_rows ?bs) = map (only (rq_output_columns ?rq)) ?recent"
    using scanned_batches(2) [OF sd(2)] by (simp add: asks)
  have shape: "shaped (output_types fs ?rq) b" if "b \<in> set ?bs" for b
    using scanned_batches(1) [OF sd(2)] that by (simp add: list_all_iff)
  have scan: "chunk_scan ?C (pl_block_table p) ?rq = Inr ?bs" by (simp add: chunk_scan_def sd(1))
  show ?thesis
  proof (cases "hash \<in> set (field_names fs)")
    case False
    have "list_ex (\<lambda>b. 0 < b_num_rows b) ?bs \<longleftrightarrow> concat (map batch_rows ?bs) \<noteq> []"
      by (auto simp: list_ex_iff simp flip: length_batch_rows)
    with rows have "list_ex (\<lambda>b. 0 < b_num_rows b) ?bs \<longleftrightarrow> ?recent \<noteq> []" by simp
    with False show ?thesis
      by (simp add: check_parent_block_def e t there read_prev_blocks_def pn scan columns fork_verdict_def Let_def ensure_def)
  next
    case True
    then obtain hf where hf: "field_with_name fs hash = Some hf" "is_text (f_type hf)" using field_with_name_in r by (fastforce simp: fork_readable_def)
    from r obtain bf where bf: "field_with_name fs ?bn = Some bf" "is_integer (f_type bf)" by (auto simp: fork_readable_def)
    have dist: "distinct (field_names fs)" using typed by (simp add: rows_of_schema_def)
    have read: "read_prev_batch p t hash ?pn b st =
        Inr (fold (note_row ?from) (List.map_filter (row_entry ?bn hash ?pn) (batch_rows b)) st)" if b: "b \<in> set ?bs" for b st
    proof -
      from shaped_column [OF shape [OF b] _ bf(1) dist] f(7) obtain blocks where
        blocks: "column_by_name b ?bn = Some blocks" "data_type_of blocks = f_type bf" by auto
      from shaped_column [OF shape [OF b] _ hf(1) dist] f(7) obtain hashes where
        hashes: "column_by_name b hash = Some hashes" "data_type_of hashes = f_type hf" by auto
      show ?thesis
      proof (rule read_prev_batch_rows [OF _ blocks(1) _ _ hashes(1)])
        show "batch_ok b" using shape [OF b] by (simp add: shaped_def)
        show "is_integer (data_type_of blocks)" "is_text (data_type_of hashes)" using blocks(2) hashes(2) bf hf by simp_all
        fix i assume "i < b_num_rows b"
        then have "row_at b i \<in> set (concat (map batch_rows ?bs))" using b by (force simp: batch_rows_def)
        with rows obtain row where "row \<in> set data" "row_at b i = only (rq_output_columns ?rq) row" by auto
        with r show "row_at b i ?bn \<noteq> Some CNull" by (auto simp: only_def f(7) fork_readable_def complete_blocks_def)
      next
        fix col assume col: "?pn = Some col"
        then have "col \<in> set (field_names fs)" by (auto simp: held_parent_number_def split: option.splits if_splits)
        then obtain pf where pf: "field_with_name fs col = Some pf" "is_integer (f_type pf)"
          using field_with_name_in r col by (fastforce simp: fork_readable_def)
        from shaped_column [OF shape [OF b] _ pf(1) dist] col pf(2) f(7)
        show "\<exists>a. column_by_name b col = Some a \<and> is_integer (data_type_of a)" by auto
      qed
    qed
    have "List.map_filter (row_entry ?bn hash ?pn) (concat (map batch_rows ?bs)) = List.map_filter (row_entry ?bn hash ?pn) ?recent"
    proof -
      have "row_entry ?bn hash ?pn (only (rq_output_columns ?rq) row) = row_entry ?bn hash ?pn row" for row
        by (rule row_entry_only) (unfold f(7), auto)
      then show ?thesis unfolding rows List.map_filter_def by (simp add: filter_map comp_def)
    qed
    with read_prev_batches [of ?bs "read_prev_batch p t hash ?pn" "note_row ?from" "row_entry ?bn hash ?pn" "([], None)"] read
    have fold: "try_fold (read_prev_batch p t hash ?pn) ?bs ([], None) =
        Inr (map snd (List.map_filter (row_entry ?bn hash ?pn) ?recent),
          least_by fst (filter (\<lambda>x. ?from \<le> fst x) (List.map_filter (row_entry ?bn hash ?pn) ?recent)))"
      by (simp add: fold_note_row)
    have blocked: "\<forall>row \<in> set ?recent. row_block ?bn row \<noteq> None" using recent_has_block by auto
    note noted = noted_rows [where rows = ?recent and bn = ?bn and hash = hash and pn = ?pn, OF blocked]
    have dec: "least_by (\<lambda>row. the (row_block ?bn row)) (filter (\<lambda>row. stated_parent ?bn ?pn row \<noteq> None \<and> ?from \<le> the (row_block ?bn row)) ?recent) =
        deciding_row ?bn ?pn ?from data"
      unfolding deciding_row_def filter_filter by (rule arg_cong [where f = "least_by _"], rule filter_cong) auto
    have ref: "snd (the (parent_ref ?bn hash ?pn row)) = row_hash hash row" if "deciding_row ?bn ?pn ?from data = Some row" for row
      using least_by_Some [OF that [unfolded deciding_row_def]] by (auto simp: parent_ref_def)
    have "read_prev_blocks p t hash ?C = Inr (sort_key fst (List.map_filter (parent_ref ?bn hash ?pn) ?recent),
        map_option (\<lambda>row. the (parent_ref ?bn hash ?pn row)) (deciding_row ?bn ?pn ?from data))"
      unfolding dec [symmetric] noted(2) [symmetric] noted(1) [symmetric] by (simp add: read_prev_blocks_def pn scan columns True fold Let_def)
    with True ref show ?thesis
      by (auto simp: check_parent_block_def e t there fork_verdict_def Let_def split: option.splits prod.splits)
  qed
qed

end


section \<open>Properties\<close>

text \<open>
  C14: The fork check decides by one row: the lowest row at or above the first block that states a parent below
  it, whatever numbers the chain skipped. The check passes exactly when that row's parent has the hash the
  client sent, or when no such row is there; otherwise the client is told the recent blocks in their order. A
  chunk without the hashes fails exactly when it holds rows behind the first block.
\<close>

theorem fork_check_decides:
  assumes "kernels_ok K" and "batch_kernels_ok B" and "table_kernels_ok T" and "chunk_holds contents chunk" and "chunk_serves chunk"
    and "contents (pl_block_table p) = Some (fs, data)" and "table meta (pl_block_table p) = Some t"
    and "t_parent_hash_column t = Some hash" and "pl_parent_block_hash p = Some expected" and "pl_from_block p < 2 ^ 64"
    and "fork_readable fs data t hash"
  shows "check_parent_block p meta (columnar_ops X K R B T chunk) = fork_verdict fs data t hash (pl_from_block p) expected"
  by (rule serving.fork_decided [where contents = contents and fs = fs and data = data, OF _ assms(5-11)]) (use assms(1-4) in blast)

definition skipping_blocks :: batch where
  "skipping_blocks =
     \<lparr>b_columns = [(''number'', AInt UInt32 [4, 7, 9, 12] None), (''parent'', AInt UInt32 [3, 4, 7, 9] None),
        (''parent_hash'', AText Utf8 [''a'', ''b'', ''c'', ''d''] None)], b_num_rows = 4\<rparr>"

definition skipping_table :: table_description where
  "skipping_table = sample_blocks\<lparr>t_parent_number_column := Some ''parent''\<rparr>"

definition resuming_plan :: plan where
  "resuming_plan =
     \<lparr>pl_from_block = 8, pl_to_block = None, pl_include_all_blocks = False, pl_parent_block_hash = Some ''z'',
      pl_block_table = ''blocks'', pl_block_output_columns = [], pl_table_plans = []\<rparr>"

theorem fork_check_decides_witness:
  "check_parent_block resuming_plan (sample_catalog\<lparr>d_tables := [(''blocks'', skipping_table)]\<rparr>)
      (columnar_ops plain_externals plain_kernels plain_row_kernels plain_batch_kernels plain_table_kernels
        (memory_chunk [''blocks'' \<mapsto> skipping_blocks])) =
    Inl (UnexpectedBaseBlock ''z'' [(3, ''a''), (4, ''b''), (7, ''c'')])"
proof -
  let ?m = "[''blocks'' \<mapsto> skipping_blocks]"
  have ok: "batch_ok b \<and> distinct (column_names b)" if "?m name = Some b" for name b
    using that by (auto simp: batch_ok_def skipping_blocks_def column_names_def in_range_def nulls_fit_def split: if_splits)
  then have holds: "chunk_holds (memory_contents ?m) (memory_chunk ?m)" "chunk_serves (memory_chunk ?m)"
    using memory_chunk_holds [of ?m] by blast+
  have rows: "batch_rows skipping_blocks = map (row_at skipping_blocks) [0, 1, 2, 3]"
    by (simp add: batch_rows_def skipping_blocks_def upt_rec numeral_2_eq_2 numeral_3_eq_3)
  have schema: "table_schema skipping_blocks =
      [\<lparr>f_name = ''number'', f_type = DInt UInt32, f_nullable = False\<rparr>,
       \<lparr>f_name = ''parent'', f_type = DInt UInt32, f_nullable = False\<rparr>,
       \<lparr>f_name = ''parent_hash'', f_type = DText Utf8, f_nullable = False\<rparr>]"
    by (simp add: table_schema_def skipping_blocks_def valid_at_def upt_rec)
  have cells: "row_at skipping_blocks i ''number'' = Some (CInt UInt32 ([4, 7, 9, 12] ! i))"
    "row_at skipping_blocks i ''parent'' = Some (CInt UInt32 ([3, 4, 7, 9] ! i))"
    "row_at skipping_blocks i ''parent_hash'' = Some (CText ([''a'', ''b'', ''c'', ''d''] ! i))" for i
    by (simp_all add: row_at_def column_by_name_def skipping_blocks_def valid_at_def)
  have r: "fork_readable (table_schema skipping_blocks) (batch_rows skipping_blocks) skipping_table ''parent_hash''"
    unfolding fork_readable_def
  proof (intro conjI)
    show "\<exists>f. field_with_name (table_schema skipping_blocks) (t_block_number_column skipping_table) = Some f \<and> is_integer (f_type f)"
      by (intro exI [of _ "table_schema skipping_blocks ! 0"])
        (simp add: schema field_with_name_def field_names_def skipping_table_def sample_blocks_def is_integer_iff)
  qed (simp_all add: schema rows field_with_name_def field_names_def held_parent_number_def skipping_table_def
        sample_blocks_def complete_blocks_def cells is_integer_iff)
  have "check_parent_block resuming_plan (sample_catalog\<lparr>d_tables := [(''blocks'', skipping_table)]\<rparr>)
      (columnar_ops plain_externals plain_kernels plain_row_kernels plain_batch_kernels plain_table_kernels (memory_chunk ?m)) =
    fork_verdict (table_schema skipping_blocks) (batch_rows skipping_blocks) skipping_table ''parent_hash'' (pl_from_block resuming_plan) ''z''"
  proof (rule fork_check_decides [OF kernels_ok_plain batch_kernels_ok_plain table_kernels_ok_plain holds])
    show "memory_contents ?m (pl_block_table resuming_plan) = Some (table_schema skipping_blocks, batch_rows skipping_blocks)"
      by (simp add: memory_contents_def resuming_plan_def)
    show "table (sample_catalog\<lparr>d_tables := [(''blocks'', skipping_table)]\<rparr>) (pl_block_table resuming_plan) = Some skipping_table"
      by (simp add: table_def resuming_plan_def)
  qed (use r in \<open>simp_all add: resuming_plan_def skipping_table_def sample_blocks_def\<close>)
  also have "\<dots> = Inl (UnexpectedBaseBlock ''z'' [(3, ''a''), (4, ''b''), (7, ''c'')])"
    by (simp add: fork_verdict_def schema rows field_names_def held_parent_number_def skipping_table_def sample_blocks_def
        recent_row_def row_block_def cells stated_parent_def fork_window_def unsigned_bits_def deciding_row_def least_by_def
        row_hash_def parent_ref_def List.map_filter_def Let_def resuming_plan_def)
  finally show ?thesis .
qed

end
