(* ===== verification/Execution.thy ===== *)
theory Execution
  imports Fork Weights Block_Index
begin

text \<open>
  What one execution reads (\<^verbatim>\<open>src/execution/prepare.rs\<close>): each planned table with its catalog entries, the
  header fields, the options, and, when payloads are deferred, the reader a page is selected through
  (\<open>SelectionReader\<close> of \<^verbatim>\<open>src/execution/materialize.rs\<close>). And what it writes: the tables of a response and
  the sources that fill them (\<^verbatim>\<open>src/output/sources.rs\<close>).
\<close>

section \<open>Planned tables\<close>

record planned_table =
  pt_plan :: table_plan
  pt_desc :: table_description
  pt_projection :: resolved_projection
  pt_scan_columns :: "string list"
  pt_targets :: "resolved_projection list"

definition catalog_entry :: "dataset_description \<Rightarrow> string \<Rightarrow> engine_error + table_description" where
  "catalog_entry meta name = ok_or (EngineError TableNotFound) (table meta name)"

definition planned_table_resolve :: "table_plan \<Rightarrow> dataset_description \<Rightarrow> engine_error + planned_table" where
  "planned_table_resolve p meta =
     and_then (catalog_entry meta (tp_table p)) (\<lambda>desc.
     and_then (resolve_projection (tp_table p) desc (tp_output_columns p)) (\<lambda>projection.
     and_then (try_collect (\<lambda>relation.
         and_then (catalog_entry meta (rl_target relation)) (\<lambda>target.
         resolve_projection (rl_target relation) target (rl_output_columns relation))) (tp_relations p)) (\<lambda>targets.
     Inr \<lparr>pt_plan = p, pt_desc = desc, pt_projection = projection,
          pt_scan_columns = with_relation_keys projection (map rl_left_key (tp_relations p)), pt_targets = targets\<rparr>)))"

definition pt_relations :: "planned_table \<Rightarrow> (relation_plan \<times> resolved_projection) list" where
  "pt_relations t = zip (tp_relations (pt_plan t)) (pt_targets t)"


section \<open>The reader a page is selected through\<close>

text \<open>Each table it reads, with its catalog entry and the columns read of it.\<close>

type_synonym table_columns = "(string, table_description \<times> string list) omap"

definition push_columns :: "resolved_projection \<Rightarrow> string list \<Rightarrow> table_columns \<Rightarrow> table_columns" where
  "push_columns p extra =
     omap_update (rp_table p) (\<lambda>old. case old of
         None \<Rightarrow> (rp_desc p, push_unique [] extra)
       | Some (desc, columns) \<Rightarrow> (desc, push_unique columns extra))"

definition is_join :: "relation_plan \<Rightarrow> bool" where
  "is_join relation = (rl_kind relation = PJoin)"

record selection_reader =
  sr_columns :: "(string, string list) omap"
  sr_track_positions :: bool
  sr_shared :: "string list"

text \<open>How many scans read most of a table.\<close>

definition count_scan :: "string \<Rightarrow> bool \<Rightarrow> (string, nat) omap \<Rightarrow> (string, nat) omap" where
  "count_scan name broad = omap_update name (\<lambda>n. unwrap_or 0 n + (if broad then 1 else 0))"

definition count_table_scans :: "planned_table \<Rightarrow> (string, nat) omap \<Rightarrow> (string, nat) omap" where
  "count_table_scans t scans =
     (let predicates = tp_predicates (pt_plan t);
          unfiltered = list_all matches_every_row predicates
      in fold (\<lambda>relation. count_scan (rl_target relation)
           (case rl_source_items relation of
              Some items \<Rightarrow> list_all (\<lambda>item. matches_every_row (predicates ! item)) items
            | None \<Rightarrow> unfiltered)) (tp_relations (pt_plan t))
         (count_scan (tp_table (pt_plan t)) unfiltered scans))"

definition primary_columns :: "bool \<Rightarrow> planned_table \<Rightarrow> table_columns \<Rightarrow> table_columns" where
  "primary_columns track_positions t columns =
     (let p = pt_projection t;
          keyed = (if track_positions then push_columns p [] columns else push_columns p (row_key (pt_desc t)) columns)
      in fold (\<lambda>relation columns.
           let joined = push_columns p (rl_left_key relation) columns
           in if is_join relation then joined else push_columns p (opt_list (t_address_column (pt_desc t))) joined)
         (tp_relations (pt_plan t)) (push_columns p (rp_size_columns p) keyed))"

definition target_columns :: "bool \<Rightarrow> relation_plan \<times> resolved_projection \<Rightarrow> table_columns \<Rightarrow> table_columns" where
  "target_columns track_positions = (\<lambda>(relation, p) columns.
     let keyed = (if track_positions then push_columns p [] columns else push_columns p (row_key (rp_desc p)) columns);
         joined = push_columns p (rl_right_key relation) keyed;
         addressed = (if is_join relation then joined else push_columns p (opt_list (t_address_column (rp_desc p))) joined)
     in push_columns p (rp_size_columns p) addressed)"

definition selection_columns :: "bool \<Rightarrow> resolved_projection \<Rightarrow> planned_table list \<Rightarrow> table_columns" where
  "selection_columns track_positions header tables =
     fold (\<lambda>t columns. fold (target_columns track_positions) (pt_relations t) (primary_columns track_positions t columns))
       tables [(rp_table header, (rp_desc header, rp_size_columns header))]"

text \<open>A table without its whole row key is not read through a selection.\<close>

definition complete_row_keys :: "chunk_ops \<Rightarrow> table_columns \<Rightarrow> bool" where
  "complete_row_keys C columns =
     list_all (\<lambda>(name, desc, _). case co_table_schema C name of
         None \<Rightarrow> False
       | Some fs \<Rightarrow> list_all (\<lambda>key. key \<in> set (field_names fs)) (row_key desc)) columns"

definition selection_reader_new ::
    "chunk_ops \<Rightarrow> resolved_projection \<Rightarrow> planned_table list \<Rightarrow> selection_reader option" where
  "selection_reader_new C header tables =
     (let track_positions = co_row_positions C;
          shared = keys (filter (\<lambda>(_, count). count > 1) (fold count_table_scans tables []));
          columns = selection_columns track_positions header tables
      in if \<not> complete_row_keys C columns then None
         else Some \<lparr>sr_columns = map (\<lambda>(name, _, columns). (name, columns)) columns,
                    sr_track_positions = track_positions, sr_shared = shared\<rparr>)"

definition narrowed :: "selection_reader \<Rightarrow> string \<Rightarrow> table_request \<Rightarrow> table_request option" where
  "narrowed sr name rq =
     map_option (\<lambda>columns. rq\<lparr>rq_output_columns := columns, rq_positions := sr_track_positions sr\<rparr>)
       (map_of (sr_columns sr) name)"

text \<open>The trait's defaults stand for the hints: no positions are read back through it, no range is suggested.\<close>

definition selection_ops :: "selection_reader \<Rightarrow> chunk_ops \<Rightarrow> chunk_ops" where
  "selection_ops sr C =
     \<lparr>co_scan_rows = (\<lambda>name rq. co_scan_rows C name (unwrap_or rq (narrowed sr name rq))),
      co_has_table = co_has_table C,
      co_table_schema = co_table_schema C,
      co_row_positions = False,
      co_next_range_end = (\<lambda>_ _ _. None),
      co_estimate = (\<lambda>name rq. co_estimate C name (unwrap_or rq (narrowed sr name rq)))\<rparr>"


section \<open>An execution\<close>

record exec_options =
  eo_weight_budget :: nat
  eo_range_reads :: bool

record execution =
  ex_plan :: plan
  ex_chunk :: chunk_ops
  ex_options :: exec_options
  ex_blocks :: table_description
  ex_header :: resolved_projection
  ex_tables :: "planned_table list"
  ex_selection :: "selection_reader option"

definition scan_reader :: "execution \<Rightarrow> chunk_ops" where
  "scan_reader ex = (case ex_selection ex of Some sr \<Rightarrow> selection_ops sr (ex_chunk ex) | None \<Rightarrow> ex_chunk ex)"

definition ensure_required_tables_present :: "execution \<Rightarrow> engine_error + unit" where
  "ensure_required_tables_present ex =
     (let ensure_present = (\<lambda>name. ensure (co_has_table (ex_chunk ex) name) (EngineError TableNotFound))
      in and_then (ensure_present (pl_block_table (ex_plan ex))) (\<lambda>_.
         try_for_each (\<lambda>t.
           and_then (ensure_present (tp_table (pt_plan t))) (\<lambda>_.
           try_for_each (\<lambda>relation. ensure_present (rl_target relation)) (tp_relations (pt_plan t)))) (ex_tables ex)))"

definition prescanned_table :: "execution \<Rightarrow> planned_table option" where
  "prescanned_table ex =
     (case ex_tables ex of
        [t] \<Rightarrow>
          if \<not> pl_include_all_blocks (ex_plan ex) \<and> tp_relations (pt_plan t) = [] \<and>
            list_all matches_every_row (tp_predicates (pt_plan t))
          then Some t else None
      | _ \<Rightarrow> None)"

definition estimate_range_bytes ::
    "execution \<Rightarrow> chunk_ops \<Rightarrow> string \<Rightarrow> table_description \<Rightarrow> string list \<Rightarrow> row_predicate list \<Rightarrow> nat" where
  "estimate_range_bytes ex C name desc columns predicates =
     unwrap_or u64_max (co_estimate C name
       ((table_request_new columns)\<lparr>rq_predicates := predicates, rq_from_block := Some (pl_from_block (ex_plan ex)),
          rq_to_block := pl_to_block (ex_plan ex), rq_block_number_column := Some (t_block_number_column desc)\<rparr>))"

definition defers_payloads :: "execution \<Rightarrow> bool" where
  "defers_payloads ex =
     (let p = ex_plan ex in
      if list_ex (\<lambda>t. tp_relations t \<noteq> []) (pl_table_plans p) then True
      else if pl_to_block p = Some (pl_from_block p) then False
      else
        (let headers = estimate_range_bytes ex (ex_chunk ex) (pl_block_table p) (ex_blocks ex) (rp_row_columns (ex_header ex)) [];
             estimate =
               (if prescanned_table ex \<noteq> None then headers
                else foldl (\<lambda>estimate t. saturating_add estimate
                    (estimate_range_bytes ex (ex_chunk ex) (tp_table (pt_plan t)) (pt_desc t) (pt_scan_columns t)
                      (tp_predicates (pt_plan t)))) headers (ex_tables ex))
         in estimate > eo_weight_budget (ex_options ex)))"

definition selection_bound :: "execution \<Rightarrow> selection_reader \<Rightarrow> nat" where
  "selection_bound ex sr =
     (let C = selection_ops sr (ex_chunk ex) in
      foldl (\<lambda>bound t.
          foldl (\<lambda>bound (relation, target). saturating_add bound
              (estimate_range_bytes ex C (rl_target relation) (rp_desc target) [] []))
            (saturating_add bound (estimate_range_bytes ex C (tp_table (pt_plan t)) (pt_desc t) [] (tp_predicates (pt_plan t))))
            (pt_relations t)) 0 (ex_tables ex))"

definition selection_fits :: "execution \<Rightarrow> bool" where
  "selection_fits ex =
     (case ex_selection ex of None \<Rightarrow> False | Some sr \<Rightarrow> selection_bound ex sr \<le> eo_weight_budget (ex_options ex))"


section \<open>The tables of a response\<close>

text \<open>The rows read of one table plan, and of each of its relations that followed some.\<close>

record table_output =
  to_rows :: rows
  to_relations :: "(nat, rows) omap"

type_synonym outputs = "(string, table_output) omap"

record output_source =
  os_projection :: resolved_projection
  os_rows :: rows

definition table_sources :: "planned_table \<Rightarrow> table_output \<Rightarrow> output_source list" where
  "table_sources t output =
     \<lparr>os_projection = pt_projection t, os_rows = to_rows output\<rparr> #
     List.map_filter (\<lambda>(index, target).
         map_option (\<lambda>rows. \<lparr>os_projection = target, os_rows = rows\<rparr>) (map_of (to_relations output) index))
       (enumerate 0 (pt_targets t))"

text \<open>An output is taken out of the map by the first table of its name.\<close>

definition output_sources :: "execution \<Rightarrow> outputs \<Rightarrow> output_source list" where
  "output_sources ex outputs =
     fst (fold (\<lambda>t (sources, outputs).
         case map_of outputs (tp_table (pt_plan t)) of
           None \<Rightarrow> (sources, outputs)
         | Some output \<Rightarrow>
             (sources @ table_sources t output, filter (\<lambda>e. fst e \<noteq> tp_table (pt_plan t)) outputs))
       (ex_tables ex) ([], outputs))"

record output_table =
  ot_name :: string
  ot_desc :: table_description
  ot_sources :: "output_source list"

definition add_output_source ::
    "dataset_description \<Rightarrow> output_source \<Rightarrow> (nat \<times> output_table) list \<Rightarrow> (nat \<times> output_table) list" where
  "add_output_source meta source tables =
     (let key = rp_table (os_projection source) in
      case (index_of (keys (d_tables meta)) key, table meta key) of
        (Some place, Some desc) \<Rightarrow>
          omap_update place (\<lambda>old. case old of
              Some output \<Rightarrow> output\<lparr>ot_sources := ot_sources output @ [source]\<rparr>
            | None \<Rightarrow> \<lparr>ot_name = request_name desc key, ot_desc = desc, ot_sources = [source]\<rparr>) tables
      | _ \<Rightarrow> tables)"

definition output_tables :: "dataset_description \<Rightarrow> output_source list \<Rightarrow> output_table list" where
  "output_tables meta sources = map snd (sort_key fst (fold (add_output_source meta) sources []))"

section \<open>Facts\<close>

lemma map_of_keys_again:
  assumes "distinct (map fst m)"
  shows "m = map (\<lambda>k. (k, the (map_of m k))) (map fst m)"
proof (intro nth_equalityI)
  fix i assume "i < length m"
  then have "map_of m (fst (m ! i)) = Some (snd (m ! i))" by (simp add: map_of_eq_Some_iff [OF assms])
  with \<open>i < length m\<close> show "m ! i = map (\<lambda>k. (k, the (map_of m k))) (map fst m) ! i" by simp
qed simp

text \<open>Sorting a map by its keys lists it in the order of its keys.\<close>

lemma sort_keys_listed:
  assumes d: "distinct (map fst m)" and n: "\<forall>k \<in> set (map fst m). k < n"
  shows "sort_key fst m = List.map_filter (\<lambda>k. map_option (Pair k) (map_of m k)) [0..<n]"
proof -
  let ?l = "List.map_filter (\<lambda>k. map_option (Pair k) (map_of m k)) [0..<n]"
  have l: "?l = map (\<lambda>k. (k, the (map_of m k))) (filter (\<lambda>k. map_of m k \<noteq> None) [0..<n])"
    by (auto simp: List.map_filter_def comp_def intro!: map_cong)
  have s: "set (sort_key fst m) = set m" "mset (map fst (sort_key fst m)) = mset (map fst m)"
    by (simp, simp only: mset_map mset_sort)
  have ds: "distinct (map fst (sort_key fst m))" using d s(2) by (metis mset_eq_imp_distinct_iff)
  have "map fst (sort_key fst m) = filter (\<lambda>k. map_of m k \<noteq> None) [0..<n]"
  proof (rule strict_sorted_equal)
    show "sorted_wrt (<) (map fst (sort_key fst m))" using ds sorted_sort_key [of fst m] by (simp add: strict_sorted_iff)
    show "sorted_wrt (<) (filter (\<lambda>k. map_of m k \<noteq> None) [0..<n])" by (intro sorted_wrt_filter sorted_wrt_upt)
    show "set (map fst (sort_key fst m)) = set (filter (\<lambda>k. map_of m k \<noteq> None) [0..<n])"
      using n by (auto simp: map_of_eq_None_iff image_iff) 
  qed
  moreover have "map_of (sort_key fst m) = map_of m" using map_of_inject_set [of "sort_key fst m" m] d ds by simp
  ultimately show ?thesis using map_of_keys_again [OF ds] by (simp add: l)
qed

lemma added_sources:
  assumes cat: "omap_ok (d_tables meta)"
  shows "omap_ok (fold (add_output_source meta) sources []) \<and>
    (\<forall>k. map_of (fold (add_output_source meta) sources []) k =
      (if k < length (d_tables meta) \<and> filter (\<lambda>s. rp_table (os_projection s) = fst (d_tables meta ! k)) sources \<noteq> []
       then Some \<lparr>ot_name = request_name (snd (d_tables meta ! k)) (fst (d_tables meta ! k)), ot_desc = snd (d_tables meta ! k),
         ot_sources = filter (\<lambda>s. rp_table (os_projection s) = fst (d_tables meta ! k)) sources\<rparr>
       else None))"
proof (induction sources rule: rev_induct)
  case (snoc s sources)
  let ?key = "rp_table (os_projection s)"
  let ?m = "fold (add_output_source meta) sources []"
  have d: "distinct (map fst (d_tables meta))" using cat by (simp add: omap_ok_def keys_def)
  show ?case
  proof (cases "index_of (keys (d_tables meta)) ?key")
    case None
    have no: "fst (d_tables meta ! k) \<noteq> ?key" if "k < length (d_tables meta)" for k
    proof
      assume "fst (d_tables meta ! k) = ?key"
      with that nth_mem [of k "map fst (d_tables meta)"] have "?key \<in> set (keys (d_tables meta))" by (simp add: keys_def)
      with None show False by simp
    qed
    have "add_output_source meta s ?m = ?m" using None by (simp add: add_output_source_def Let_def del: index_of_None)
    with snoc no [THEN not_sym] show ?thesis by (simp cong: conj_cong)
  next
    case (Some place)
    then have p: "place < length (d_tables meta)" "fst (d_tables meta ! place) = ?key"
      using index_of_Some [OF Some] by (auto simp: keys_def)
    have only: "k = place" if "k < length (d_tables meta)" "fst (d_tables meta ! k) = ?key" for k
      using d p that by (metis length_map nth_eq_iff_index_eq nth_map)
    have t: "table meta ?key = Some (snd (d_tables meta ! place))"
      unfolding table_def using d p by (metis map_of_eq_Some_iff nth_mem prod.collapse)
    have "add_output_source meta s ?m = omap_update place (\<lambda>old. case old of
        Some output \<Rightarrow> output\<lparr>ot_sources := ot_sources output @ [s]\<rparr>
      | None \<Rightarrow> \<lparr>ot_name = request_name (snd (d_tables meta ! place)) ?key, ot_desc = snd (d_tables meta ! place), ot_sources = [s]\<rparr>) ?m"
      using Some t by (simp add: add_output_source_def Let_def)
    then have m: "fold (add_output_source meta) (sources @ [s]) [] = \<dots>" by simp
    show ?thesis
    proof (intro conjI allI)
      show "omap_ok (fold (add_output_source meta) (sources @ [s]) [])" using snoc unfolding m by (intro omap_ok_update) simp
      fix k
      show "map_of (fold (add_output_source meta) (sources @ [s]) []) k =
        (if k < length (d_tables meta) \<and> filter (\<lambda>s. rp_table (os_projection s) = fst (d_tables meta ! k)) (sources @ [s]) \<noteq> []
         then Some \<lparr>ot_name = request_name (snd (d_tables meta ! k)) (fst (d_tables meta ! k)), ot_desc = snd (d_tables meta ! k),
           ot_sources = filter (\<lambda>s. rp_table (os_projection s) = fst (d_tables meta ! k)) (sources @ [s])\<rparr>
         else None)"
      proof (cases "k = place")
        case True
        have old: "map_of ?m place = (if filter (\<lambda>s. rp_table (os_projection s) = ?key) sources \<noteq> []
           then Some \<lparr>ot_name = request_name (snd (d_tables meta ! place)) ?key, ot_desc = snd (d_tables meta ! place),
             ot_sources = filter (\<lambda>s. rp_table (os_projection s) = ?key) sources\<rparr> else None)"
          using snoc p by (simp only: simp_thms)
        show ?thesis unfolding m True map_of_omap_update fun_upd_same old p(2) using p(1) by simp
      next
        case False
        with only have "k < length (d_tables meta) \<Longrightarrow> ?key \<noteq> fst (d_tables meta ! k)" by metis
        then show ?thesis unfolding m map_of_omap_update using False snoc by (simp cong: conj_cong)
      qed
    qed
  qed
qed simp

section \<open>Properties\<close>

text \<open>
  C29: The tables of a response are exactly the catalog's tables that some source renders, each once, in the
  order of the catalog, with its sources in the order they were given.
\<close>

theorem output_tables_catalog_order:
  assumes "omap_ok (d_tables meta)"
  shows "output_tables meta sources =
    List.map_filter (\<lambda>(key, desc). let own = filter (\<lambda>s. rp_table (os_projection s) = key) sources in
        if own = [] then None else Some \<lparr>ot_name = request_name desc key, ot_desc = desc, ot_sources = own\<rparr>) (d_tables meta)"
proof -
  let ?m = "fold (add_output_source meta) sources []"
  note a = added_sources [OF assms, of sources]
  have "map fst (map (\<lambda>e. e) ?m) = keys ?m" by (simp add: keys_def)
  then have "sort_key fst ?m = List.map_filter (\<lambda>k. map_option (Pair k) (map_of ?m k)) [0..<length (d_tables meta)]"
    using a by (intro sort_keys_listed) (auto simp: omap_ok_def keys_def dest!: weak_map_of_SomeI split: if_splits)
  then have "output_tables meta sources = List.map_filter (map_of ?m) [0..<length (d_tables meta)]"
    by (simp add: output_tables_def List.map_filter_def comp_def filter_map option.map_sel)
  also have "\<dots> = List.map_filter (\<lambda>(key, desc). let own = filter (\<lambda>s. rp_table (os_projection s) = key) sources in
        if own = [] then None else Some \<lparr>ot_name = request_name desc key, ot_desc = desc, ot_sources = own\<rparr>)
      (map ((!) (d_tables meta)) [0..<length (d_tables meta)])"
    using a unfolding List.map_filter_def filter_map map_map comp_def
    by (intro map_cong filter_cong) (auto simp: Let_def case_prod_beta')
  finally show ?thesis by (simp add: map_nth)
qed

definition empty_source :: "string \<Rightarrow> output_source" where
  "empty_source name =
     \<lparr>os_projection =
        \<lparr>rp_table = name, rp_desc = sample_blocks, rp_names = [], rp_fields = [], rp_rendered = [], rp_required = [],
         rp_weight = \<lparr>rw_fixed = 0, rw_columns = []\<rparr>, rp_row_columns = [], rp_size_columns = []\<rparr>,
      os_rows = no_rows\<rparr>"

theorem output_tables_catalog_order_witness:
  "map (\<lambda>t. (ot_name t, length (ot_sources t)))
      (output_tables sample_catalog [empty_source ''logs'', empty_source ''transactions'', empty_source ''logs'']) =
    [(''transactions'', 1), (''logs'', 2)]"
proof -
  have "omap_ok (d_tables sample_catalog)" by (simp add: omap_ok_def keys_def sample_catalog_def)
  from output_tables_catalog_order [OF this] show ?thesis
    by (simp add: sample_catalog_def empty_source_def List.map_filter_def request_name_def request_def
        sample_blocks_def sample_transactions_def sample_logs_def)
qed

end
