(* ===== verification/Tables.thy ===== *)
theory Tables
  imports Execution
begin

text \<open>
  Reading one block range (\<^verbatim>\<open>src/execution/tables.rs\<close>): every table plan's rows, and for each of its
  relations the rows of the target related to the rows the relation follows. What is built from the followed
  rows is built once for all relations that share it. On tables with keys the relation's rows are shown to be
  exactly the target's rows with a partner, or a relative, among the followed rows.
\<close>

section \<open>What a relation follows\<close>

record hierarchical_spec =
  hs_group_keys :: "string list"
  hs_source_address :: string
  hs_target_address :: string
  hs_mode :: hierarchical_mode
  hs_inclusive :: bool

definition group_keys_for_relation :: "string list \<Rightarrow> string option \<Rightarrow> string list" where
  "group_keys_for_relation names address = filter (\<lambda>key. Some key \<noteq> address) names"

definition hierarchical_spec_of ::
    "relation_plan \<Rightarrow> table_description \<Rightarrow> string \<times> table_description \<Rightarrow> hierarchical_spec option" where
  "hierarchical_spec_of relation target = (\<lambda>(source_table, source).
     let spec = (\<lambda>mode. map_option (\<lambda>target_address.
           \<lparr>hs_group_keys = group_keys_for_relation (rl_left_key relation) (Some target_address),
            hs_source_address = unwrap_or target_address (t_address_column source),
            hs_target_address = target_address, hs_mode = mode,
            hs_inclusive = (rl_target relation \<noteq> source_table)\<rparr>) (t_address_column target))
     in case rl_kind relation of
          PChildren \<Rightarrow> spec Addresses.Children
        | PParents \<Rightarrow> spec Addresses.Parents
        | PJoin \<Rightarrow> None)"

definition pushdown_keys :: "relation_plan \<Rightarrow> table_description \<Rightarrow> (string list \<times> string list) option" where
  "pushdown_keys relation target =
     (let (left, right) =
        (case rl_kind relation of
           PJoin \<Rightarrow> (rl_left_key relation, rl_right_key relation)
         | _ \<Rightarrow> (group_keys_for_relation (rl_left_key relation) (t_address_column target),
                 group_keys_for_relation (rl_right_key relation) (t_address_column target)))
      in if left \<noteq> [] \<and> right \<noteq> [] then Some (left, right) else None)"


section \<open>Values built once\<close>

type_synonym ('k, 'v) built_once = "('k \<times> 'v) list"

text \<open>Each distinct key once, in the order of the keys; a build's \<open>expect\<close> is an error of the value.\<close>

definition built_once_try :: "'k list \<Rightarrow> ('k \<Rightarrow> engine_error + 'v) \<Rightarrow> engine_error + ('k, 'v) built_once" where
  "built_once_try names build =
     try_collect (\<lambda>key. and_then (build key) (\<lambda>v. Inr (key, v))) (fold push_new names [])"

definition built_once_get :: "('k, 'v) built_once \<Rightarrow> 'k \<Rightarrow> engine_error + 'v" where
  "built_once_get built key = ok_or Panic (map_of built key)"


section \<open>The inputs of the relations of a table\<close>

record relation_input =
  ri_relation :: relation_plan
  ri_target :: resolved_projection
  ri_hierarchy :: "hierarchical_spec option"
  ri_source :: "batch list"
  ri_key_filter :: "key_filter option"
  ri_hierarchical_filter :: "hierarchical_filter option"
  ri_keyless :: bool

definition follows_nothing :: "relation_input \<Rightarrow> bool" where
  "follows_nothing i = (ri_keyless i \<or> list_all (\<lambda>b. b_num_rows b = 0) (ri_source i))"

type_synonym sources = "(nat list option, batch list) built_once"
type_synonym key_sets = "(nat list option \<times> string list, key_set) built_once"
type_synonym address_indexes = "(nat list option \<times> string list \<times> string, address_index_set) built_once"

definition address_spec ::
    "relation_plan \<Rightarrow> table_description \<Rightarrow> string \<times> table_description \<Rightarrow> hierarchical_spec option" where
  "address_spec relation target source =
     (case hierarchical_spec_of relation target source of
        None \<Rightarrow> None
      | Some spec \<Rightarrow> if hs_group_keys spec = [] then None else Some spec)"

definition build_key_sets :: "planned_table \<Rightarrow> sources \<Rightarrow> engine_error + key_sets" where
  "build_key_sets t sources =
     built_once_try
       (List.map_filter (\<lambda>(relation, p).
           map_option (\<lambda>(left, _). (rl_source_items relation, left)) (pushdown_keys relation (rp_desc p))) (pt_relations t))
       (\<lambda>(items, left).
         and_then (built_once_get sources items) (\<lambda>bs. Inr (key_set_build bs left (t_block_number_column (pt_desc t)))))"

definition build_address_indexes :: "planned_table \<Rightarrow> sources \<Rightarrow> engine_error + address_indexes" where
  "build_address_indexes t sources =
     built_once_try
       (List.map_filter (\<lambda>(relation, p).
           map_option (\<lambda>spec. (rl_source_items relation, hs_group_keys spec, hs_source_address spec))
             (address_spec relation (rp_desc p) (tp_table (pt_plan t), pt_desc t))) (pt_relations t))
       (\<lambda>(items, group_keys, address).
         and_then (built_once_get sources items) (\<lambda>bs. Inr (address_index_build bs group_keys address)))"

definition relation_input_of ::
    "planned_table \<Rightarrow> sources \<Rightarrow> key_sets \<Rightarrow> address_indexes \<Rightarrow> relation_plan \<times> resolved_projection
     \<Rightarrow> engine_error + relation_input" where
  "relation_input_of t sources key_sets address_indexes = (\<lambda>(relation, p).
     let items = rl_source_items relation; target = rp_desc p; target_bn = t_block_number_column target;
         source = (tp_table (pt_plan t), pt_desc t)
     in
     and_then (case pushdown_keys relation target of
         None \<Rightarrow> Inr None
       | Some (left, right) \<Rightarrow> and_then (built_once_get key_sets (items, left)) (\<lambda>ks. Inr (Some (ks, right)))) (\<lambda>joined.
     and_then (case address_spec relation target source of
         None \<Rightarrow> Inr None
       | Some spec \<Rightarrow>
           and_then (built_once_get address_indexes (items, hs_group_keys spec, hs_source_address spec)) (\<lambda>index.
           Inr (Some (index, spec)))) (\<lambda>addresses.
     let keyless = ((case joined of None \<Rightarrow> False | Some (ks, _) \<Rightarrow> key_set_matches_nothing ks) \<or>
           (case addresses of None \<Rightarrow> False | Some (index, _) \<Rightarrow> address_matches_nothing index))
     in
     and_then (case joined of
         None \<Rightarrow> Inr None
       | Some (ks, right) \<Rightarrow>
           and_then (key_set_filter ks right target_bn) (\<lambda>f. Inr (if key_filter_is_empty f then None else Some f))) (\<lambda>kf.
     let hf = (case addresses of
           None \<Rightarrow> None
         | Some (index, spec) \<Rightarrow>
             let f = address_filter index (hs_target_address spec) (hs_mode spec) (hs_inclusive spec)
             in if hierarchical_is_empty f then None else Some f)
     in
     and_then (built_once_get sources items) (\<lambda>followed.
     Inr \<lparr>ri_relation = relation, ri_target = p, ri_hierarchy = hierarchical_spec_of relation target source,
          ri_source = followed, ri_key_filter = kf, ri_hierarchical_filter = hf, ri_keyless = keyless\<rparr>)))))"

definition relation_inputs :: "planned_table \<Rightarrow> sources \<Rightarrow> engine_error + relation_input list" where
  "relation_inputs t sources =
     and_then (build_key_sets t sources) (\<lambda>key_sets.
     and_then (build_address_indexes t sources) (\<lambda>address_indexes.
     try_collect (relation_input_of t sources key_sets address_indexes) (pt_relations t)))"


section \<open>Scans\<close>

type_synonym block_bounds = "nat option \<times> nat option"

definition relation_request :: "relation_input \<Rightarrow> block_bounds \<Rightarrow> block_bounds \<Rightarrow> table_request" where
  "relation_request i window blocks =
     (table_request_new (rp_row_columns (ri_target i)))
       \<lparr>rq_from_block := fst blocks, rq_to_block := snd blocks, rq_window := Some window,
        rq_required_columns := rp_required (ri_target i),
        rq_block_number_column := Some (t_block_number_column (rp_desc (ri_target i))),
        rq_key_filter := ri_key_filter i, rq_hierarchical_filter := ri_hierarchical_filter i\<rparr>"

definition scan_relation ::
    "batch_kernels \<Rightarrow> chunk_ops \<Rightarrow> relation_input \<Rightarrow> block_bounds \<Rightarrow> block_bounds \<Rightarrow> engine_error + rows" where
  "scan_relation B C i window blocks =
     (let relation = ri_relation i in
      and_then (co_scan_rows C (rl_target relation) (relation_request i window blocks)) (\<lambda>sd.
      let target = sd_rows sd;
          filtered_in_scan =
            (if is_join relation then ri_key_filter i \<noteq> None else ri_hierarchical_filter i \<noteq> None);
          keep = (\<lambda>masks. rows_filter B (\<lambda>index _. ok_or Panic (get masks index)) target)
      in if filtered_in_scan then Inr target
         else if is_join relation then
           and_then (lookup_join_masks (ri_source i) (rl_left_key relation) (rs_batches target) (rl_right_key relation)) keep
         else
           (case ri_hierarchy i of
              None \<Rightarrow> Inr no_rows
            | Some spec \<Rightarrow>
                and_then ((case hs_mode spec of Addresses.Children \<Rightarrow> children_masks | Addresses.Parents \<Rightarrow> parents_masks)
                  (ri_source i) (rs_batches target) (hs_group_keys spec) (hs_source_address spec) (hs_target_address spec)
                  (hs_inclusive spec)) keep)))"

definition table_request_of :: "planned_table \<Rightarrow> block_bounds \<Rightarrow> table_request" where
  "table_request_of t window =
     (table_request_new (pt_scan_columns t))
       \<lparr>rq_predicates := tp_predicates (pt_plan t), rq_from_block := fst window, rq_to_block := snd window,
        rq_window := Some window, rq_block_number_column := Some (t_block_number_column (pt_desc t)),
        rq_required_columns := rp_required (pt_projection t),
        rq_item_tags := fold push_new (List.map_filter rl_source_items (tp_relations (pt_plan t))) []\<rparr>"

text \<open>The rows of a table that a relation follows: all of them, or those its own items matched.\<close>

definition followed_rows :: "batch_kernels \<Rightarrow> scanned \<Rightarrow> nat list option \<Rightarrow> engine_error + batch list" where
  "followed_rows B sd items =
     (case items of
        None \<Rightarrow> Inr (rs_batches (sd_rows sd))
      | Some tag \<Rightarrow> (case matched_by B sd tag of None \<Rightarrow> Inl Untyped | Some r \<Rightarrow> r))"

definition scan_relations ::
    "batch_kernels \<Rightarrow> chunk_ops \<Rightarrow> planned_table \<Rightarrow> scanned \<Rightarrow> block_bounds \<Rightarrow> block_bounds \<Rightarrow> engine_error + (nat, rows) omap" where
  "scan_relations B C t sd window blocks =
     and_then (built_once_try (map rl_source_items (tp_relations (pt_plan t))) (followed_rows B sd)) (\<lambda>sources.
     and_then (relation_inputs t sources) (\<lambda>inputs.
     try_collect (\<lambda>index. and_then (scan_relation B C (inputs ! index) window blocks) (\<lambda>rows. Inr (index, rows)))
       (filter (\<lambda>index. \<not> follows_nothing (inputs ! index)) [0..<length inputs])))"

definition scan_table :: "batch_kernels \<Rightarrow> execution \<Rightarrow> planned_table \<Rightarrow> block_bounds \<Rightarrow> engine_error + string \<times> table_output" where
  "scan_table B ex t window =
     (let C = scan_reader ex in
      and_then (co_scan_rows C (tp_table (pt_plan t)) (table_request_of t window)) (\<lambda>sd.
      let primary = rs_batches (sd_rows sd) in
      and_then (compute_block_range primary (t_block_number_column (pt_desc t))) (\<lambda>blocks.
      and_then (if list_ex (\<lambda>b. 0 < b_num_rows b) primary \<and> tp_relations (pt_plan t) \<noteq> []
          then scan_relations B C t sd window blocks else Inr []) (\<lambda>relations.
      Inr (tp_table (pt_plan t), \<lparr>to_rows = sd_rows sd, to_relations = relations\<rparr>)))))"

definition scan_tables :: "batch_kernels \<Rightarrow> execution \<Rightarrow> nat \<Rightarrow> nat option \<Rightarrow> engine_error + outputs" where
  "scan_tables B ex from_block to_block =
     and_then (try_collect (\<lambda>t. scan_table B ex t (Some from_block, to_block)) (ex_tables ex)) (\<lambda>scanned.
     Inr (fold (\<lambda>(name, output). omap_insert name output) scanned []))"

end
