(* ===== verification/Relation_Scans.thy ===== *)
theory Relation_Scans
  imports Tables
begin

text \<open>
  The relations of a table, on rows (\<^verbatim>\<open>src/execution/tables.rs\<close>). What the code builds from the batches a
  scan returned (the key sets, the address indexes, the block range that bounds the target's scan) is read
  as what it says of the rows they show, so that scanning a table is shown to return the rows its items ask
  for and, for each relation, exactly the target's rows with a partner, or a relative, among them.
\<close>

abbreviation key_of_row :: "row \<Rightarrow> string list \<Rightarrow> key_value list option" where
  "key_of_row \<equiv> Relation_Rows.row_key"

lemma list_ex_below: "list_ex p [0..<n] \<longleftrightarrow> (\<exists>i < n. p i)"
  by (auto simp: list_ex_iff)

section \<open>Batches that show rows\<close>

definition showing :: "schema \<Rightarrow> string list \<Rightarrow> row list \<Rightarrow> batch list \<Rightarrow> bool" where
  "showing fs columns rows bs \<longleftrightarrow>
     list_all (shaped (map (\<lambda>f. (f_name f, f_type f)) (build_output_schema fs columns))) bs \<and>
     concat (map batch_rows bs) = map (only columns) rows"

lemma showing_row:
  assumes "showing fs columns rows bs" and "b \<in> set bs" and "i < b_num_rows b"
  shows "\<exists>row \<in> set rows. row_at b i = only columns row"
proof -
  have "row_at b i \<in> set (concat (map batch_rows bs))" using assms(2, 3) by (force simp: batch_rows_def)
  moreover have e: "concat (map batch_rows bs) = map (only columns) rows" using assms(1) unfolding showing_def by blast
  ultimately show ?thesis unfolding e by auto
qed

lemma shown_row:
  assumes "showing fs columns rows bs" and "row \<in> set rows"
  shows "\<exists>b \<in> set bs. \<exists>i < b_num_rows b. row_at b i = only columns row"
proof -
  have "only columns row \<in> set (concat (map batch_rows bs))" using assms by (simp add: showing_def)
  then show ?thesis by (fastforce simp: batch_rows_def)
qed

lemma output_field:
  "f \<in> set (build_output_schema fs columns) \<longleftrightarrow> (\<exists>name \<in> set columns. field_with_name fs name = Some f)"
  by (auto simp: build_output_schema_def in_map_filter)

lemma showing_batch:
  assumes s: "showing fs columns rows bs" and b: "b \<in> set bs" and typed: "\<forall>row \<in> set rows. row_of_schema fs row"
  shows "\<exists>rs. shows_rows fs rows (filter (\<lambda>name. name \<in> set (field_names fs)) columns) rs b"
proof -
  let ?names = "filter (\<lambda>name. name \<in> set (field_names fs)) columns"
  have shape: "batch_ok b" "column_types b = map (\<lambda>f. (f_name f, f_type f)) (build_output_schema fs columns)"
    using s b by (simp_all add: showing_def list_all_iff shaped_def)
  have same: "only columns row = only ?names row" if r: "row \<in> set rows" for row
  proof
    fix name
    have "row name = None" if "name \<notin> set (field_names fs)" using typed r that unfolding row_of_schema_def by blast
    then show "only columns row name = only ?names row name" by (auto simp: only_def)
  qed
  have "\<exists>k < length rows. row_at b i = only ?names (rows ! k)" if "i < b_num_rows b" for i
    using showing_row [OF s b that] same by (auto simp: in_set_conv_nth)
  then obtain g where g: "\<forall>i. i < b_num_rows b \<longrightarrow> g i < length rows \<and> row_at b i = only ?names (rows ! g i)" by metis
  have cols: "set ?names \<subseteq> set (column_names b)"
  proof
    fix name assume "name \<in> set ?names"
    then obtain f where "name \<in> set columns" "field_with_name fs name = Some f" using field_with_name_in by auto
    moreover from this have "f \<in> set (build_output_schema fs columns)" using output_field by blast
    moreover from field_with_name_Some calculation(2) have "f_name f = name" by blast
    ultimately have "name \<in> fst ` set (column_types b)" unfolding shape(2) by force
    then show "name \<in> set (column_names b)" by (force simp: column_types_def column_names_def)
  qed
  have types: "\<exists>f. field_with_name fs name = Some f \<and> data_type_of a = f_type f" if "column_by_name b name = Some a" for name a
  proof -
    have "map_of (column_types b) name = Some (data_type_of a)" using column_by_name_types [of b name] that by simp
    then have "(name, data_type_of a) \<in> set (column_types b)" by (rule map_of_SomeD)
    then obtain f where "f \<in> set (build_output_schema fs columns)" "f_name f = name" "f_type f = data_type_of a" by (auto simp: shape(2))
    moreover from this(1) obtain name' where "field_with_name fs name' = Some f" using output_field by blast
    moreover from field_with_name_Some [OF this] have "f_name f = name'" by blast
    ultimately show ?thesis by auto
  qed
  have "shows_rows fs rows ?names (map g [0..<b_num_rows b]) b"
    unfolding shows_rows_def
  proof (intro conjI)
    show "\<forall>name a. column_by_name b name = Some a \<longrightarrow> (\<exists>f. field_with_name fs name = Some f \<and> data_type_of a = f_type f)"
      using types by blast
    show "\<forall>i < length (map g [0..<b_num_rows b]). map g [0..<b_num_rows b] ! i < length rows \<and>
        row_at b i = only ?names (rows ! (map g [0..<b_num_rows b] ! i))" using g by simp
    show "set ?names \<subseteq> set (field_names fs)" by auto
  qed (use shape(1) cols in simp_all)
  then show ?thesis by blast
qed

lemma keyed_names:
  assumes "keyed_table kinds names fs data"
  shows "set names \<subseteq> set (field_names fs)"
proof
  fix name assume "name \<in> set names"
  then have "Option.bind (field_with_name fs name) (\<lambda>f. kind_of_type (f_type f)) \<in> Some ` set kinds"
    using assms unfolding keyed_table_def by (metis (no_types, lifting) image_eqI list.set_map)
  then show "name \<in> set (field_names fs)" using field_with_name_in by (auto simp: bind_eq_Some_conv)
qed

lemma keyed_table_subset: "keyed_table kinds names fs data \<Longrightarrow> set rows \<subseteq> set data \<Longrightarrow> keyed_table kinds names fs rows"
  by (auto simp: keyed_table_def)

lemma showing_keys:
  assumes s: "showing fs columns rows bs" and b: "b \<in> set bs" and typed: "\<forall>row \<in> set rows. row_of_schema fs row"
    and k: "keyed_table kinds names fs rows" and n: "set names \<subseteq> set columns"
  shows "joinable kinds names b \<and> solid names b"
proof -
  let ?names = "filter (\<lambda>name. name \<in> set (field_names fs)) columns"
  from showing_batch [OF s b typed] obtain rs where rs: "shows_rows fs rows ?names rs b" by blast
  have shown: "set names \<subseteq> set ?names" using keyed_names [OF k] n by auto
  have "column_by_name b name \<noteq> None" if "name \<in> set names" for name
  proof -
    have "name \<in> set (column_names b)" using rs shown that unfolding shows_rows_def by blast
    then show ?thesis by (auto simp: column_by_name_def column_names_def map_of_eq_None_iff)
  qed
  from shown_keys [OF k rs shown this] show ?thesis by blast
qed


section \<open>Partners and relatives among rows\<close>

definition partner_among :: "string list \<Rightarrow> string list \<Rightarrow> row list \<Rightarrow> row \<Rightarrow> bool" where
  "partner_among left right rows row =
     (case key_of_row row right of
        None \<Rightarrow> False
      | Some vs \<Rightarrow> list_ex (\<lambda>source. key_of_row source left = Some vs) rows)"

definition relative_among ::
    "(u64 list \<Rightarrow> u64 list \<Rightarrow> bool) \<Rightarrow> string \<Rightarrow> string list \<Rightarrow> string \<Rightarrow> row list \<Rightarrow> row \<Rightarrow> bool" where
  "relative_among related source_column grouping target_column rows row =
     (case (key_of_row row grouping, row_path row target_column) of
        (Some g, Some p) \<Rightarrow>
          list_ex (\<lambda>source. key_of_row source grouping = Some g \<and>
              (case row_path source source_column of None \<Rightarrow> False | Some q \<Rightarrow> related q p)) rows
      | _ \<Rightarrow> False)"

lemma showing_key:
  assumes s: "showing fs columns rows bs" and typed: "\<forall>row \<in> set rows. row_of_schema fs row"
    and k: "keyed_table kinds names fs rows" and n: "set names \<subseteq> set columns"
    and b: "b \<in> set bs" "i < b_num_rows b" "row_at b i = only columns row"
  shows "key_of b names i = key_of_row row names"
proof -
  from showing_keys [OF s b(1) typed k n] have "key_of_row (row_at b i) names = key_of b names i"
    using row_key_of b(2) by blast
  then show ?thesis by (simp add: b(3) row_key_only [OF n])
qed

lemma row_partner_showing:
  assumes s: "showing fs columns rows bs" and typed: "\<forall>row \<in> set rows. row_of_schema fs row"
    and k: "keyed_table kinds left fs rows" and n: "set left \<subseteq> set columns"
  shows "row_partner bs left right row = partner_among left right rows row"
proof -
  note key = showing_key [OF s typed k n]
  have "(\<exists>b \<in> set bs. \<exists>i < b_num_rows b. key_of b left i = Some vs) \<longleftrightarrow> (\<exists>source \<in> set rows. key_of_row source left = Some vs)" for vs
  proof
    assume "\<exists>b \<in> set bs. \<exists>i < b_num_rows b. key_of b left i = Some vs"
    then obtain b i where b: "b \<in> set bs" "i < b_num_rows b" "key_of b left i = Some vs" by blast
    from showing_row [OF s b(1, 2)] obtain source where r: "source \<in> set rows" "row_at b i = only columns source" by blast
    with key [OF b(1, 2) r(2)] b(3) show "\<exists>source \<in> set rows. key_of_row source left = Some vs" by auto
  next
    assume "\<exists>source \<in> set rows. key_of_row source left = Some vs"
    then obtain source where r: "source \<in> set rows" "key_of_row source left = Some vs" by blast
    from shown_row [OF s r(1)] obtain b i where b: "b \<in> set bs" "i < b_num_rows b" "row_at b i = only columns source" by blast
    with key [OF b] r(2) show "\<exists>b \<in> set bs. \<exists>i < b_num_rows b. key_of b left i = Some vs" by auto
  qed
  then show ?thesis unfolding row_partner_def partner_among_def list_ex_below unfolding list_ex_iff by (simp split: option.split)
qed

text \<open>A path read off a batch is the row's.\<close>

lemma showing_path:
  assumes s: "showing fs columns rows bs" and typed: "\<forall>row \<in> set rows. row_of_schema fs row"
    and k: "keyed_table kinds names fs rows" and n: "set names \<subseteq> set columns" "name \<in> set names"
    and b: "b \<in> set bs" "i < b_num_rows b"
  shows "path_of b name i = row_path (row_at b i) name"
proof -
  from showing_keys [OF s b(1) typed k n(1)] have j: "joinable kinds names b" "solid names b" by simp_all
  from arg_cong [OF key_kinds_at [OF j(1)], of set] n(2)
  have "Option.bind (column_by_name b name) key_kind_of \<noteq> None" by force
  from row_value_of [OF this j(2) n(2) b(2)]
  show ?thesis by (simp add: path_of_def row_path_def)
qed

lemma row_path_only: "name \<in> set columns \<Longrightarrow> row_path (only columns row) name = row_path row name"
  by (simp add: row_path_def only_def)

lemma row_relative_showing:
  assumes s: "showing fs columns rows bs" and typed: "\<forall>row \<in> set rows. row_of_schema fs row"
    and k: "keyed_table kinds grouping fs rows" "keyed_table [PathKey] [source_column] fs rows"
    and n: "set grouping \<subseteq> set columns" "source_column \<in> set columns"
  shows "row_relative related bs source_column grouping target_column row =
    relative_among related source_column grouping target_column rows row"
proof -
  note key = showing_key [OF s typed k(1) n(1)] and path = showing_path [OF s typed k(2) _ _]
  have "(\<exists>b \<in> set bs. \<exists>i < b_num_rows b. key_of b grouping i = Some g \<and> P (path_of b source_column i)) \<longleftrightarrow>
      (\<exists>source \<in> set rows. key_of_row source grouping = Some g \<and> P (row_path source source_column))" for g P
  proof
    assume "\<exists>b \<in> set bs. \<exists>i < b_num_rows b. key_of b grouping i = Some g \<and> P (path_of b source_column i)"
    then obtain b i where b: "b \<in> set bs" "i < b_num_rows b" "key_of b grouping i = Some g" "P (path_of b source_column i)" by blast
    from showing_row [OF s b(1, 2)] obtain source where r: "source \<in> set rows" "row_at b i = only columns source" by blast
    with key [OF b(1, 2) r(2)] path [of source_column b i] n(2) b r(2) row_path_only [OF n(2), of source]
    show "\<exists>source \<in> set rows. key_of_row source grouping = Some g \<and> P (row_path source source_column)" by auto
  next
    assume "\<exists>source \<in> set rows. key_of_row source grouping = Some g \<and> P (row_path source source_column)"
    then obtain source where r: "source \<in> set rows" "key_of_row source grouping = Some g" "P (row_path source source_column)" by blast
    from shown_row [OF s r(1)] obtain b i where b: "b \<in> set bs" "i < b_num_rows b" "row_at b i = only columns source" by blast
    with key [OF b] path [of source_column b i] n(2) b r(2, 3) row_path_only [OF n(2), of source]
    have "key_of b grouping i = Some g \<and> P (path_of b source_column i)" by simp
    with b(1, 2) show "\<exists>b \<in> set bs. \<exists>i < b_num_rows b. key_of b grouping i = Some g \<and> P (path_of b source_column i)" by blast
  qed
  from this [where P = "\<lambda>q. case q of None \<Rightarrow> False | Some q \<Rightarrow> related q p" for p] show ?thesis
    unfolding row_relative_def relative_among_def list_ex_below unfolding list_ex_iff by (simp split: option.split)
qed


section \<open>Blocks among rows\<close>

text \<open>Every row has a block number, none negative.\<close>

definition numbered_rows :: "schema \<Rightarrow> string \<Rightarrow> row list \<Rightarrow> bool" where
  "numbered_rows fs bn rows \<longleftrightarrow> (\<exists>fd t. field_with_name fs bn = Some fd \<and> f_type fd = DInt t) \<and>
     (\<forall>row \<in> set rows. \<exists>t v. row bn = Some (CInt t v) \<and> 0 \<le> v)"

definition block_of_row :: "string \<Rightarrow> row \<Rightarrow> nat option" where
  "block_of_row bn row = (case row bn of Some (CInt t v) \<Rightarrow> Some (unsigned_bits t v) | _ \<Rightarrow> None)"

lemma showing_block_column:
  assumes s: "showing fs columns rows bs" and b: "b \<in> set bs" and typed: "\<forall>row \<in> set rows. row_of_schema fs row"
    and n: "numbered_rows fs bn rows" and c: "bn \<in> set columns"
  shows "\<exists>t vs m. column_by_name b bn = Some (AInt t vs m) \<and> length vs = b_num_rows b"
proof -
  obtain fd t where fd: "field_with_name fs bn = Some fd" "f_type fd = DInt t" using n by (auto simp: numbered_rows_def)
  let ?names = "filter (\<lambda>name. name \<in> set (field_names fs)) columns"
  from showing_batch [OF s b typed] obtain rs where rs: "shows_rows fs rows ?names rs b" by blast
  have "bn \<in> set ?names" using c fd(1) field_with_name_in by auto
  then have "bn \<in> set (column_names b)" using rs unfolding shows_rows_def by blast
  then obtain a where a: "column_by_name b bn = Some a"
    using map_of_eq_None_iff [of "b_columns b" bn] by (auto simp: column_by_name_def column_names_def)
  with rs fd have "data_type_of a = DInt t" unfolding shows_rows_def by fastforce
  moreover have "len a = b_num_rows b" using rs a by (auto simp: shows_rows_def batch_column)
  ultimately show ?thesis using a by (cases a) simp_all
qed

lemma showing_block:
  assumes s: "showing fs columns rows bs" and b: "b \<in> set bs" "i < b_num_rows b" "row_at b i = only columns row"
    and typed: "\<forall>row \<in> set rows. row_of_schema fs row" and n: "numbered_rows fs bn rows" and c: "bn \<in> set columns"
    and r: "row \<in> set rows"
  shows "block_at b bn i = block_of_row bn row" and "block_of_row bn row \<noteq> None"
proof -
  from showing_block_column [OF s b(1) typed n c] obtain t vs m where
    a: "column_by_name b bn = Some (AInt t vs m)" "length vs = b_num_rows b" by blast
  obtain u v where v: "row bn = Some (CInt u v)" using n r by (auto simp: numbered_rows_def)
  have "row_at b i bn = Some (CInt u v)" using b(3) c v by (simp add: only_def)
  with a b(2) have "u = t" "vs ! i = v" by (simp_all add: row_at_def split: if_splits)
  with a v show "block_at b bn i = block_of_row bn row" "block_of_row bn row \<noteq> None"
    by (simp_all add: block_at_def block_of_row_def)
qed

lemma showing_blocks_from_zero:
  assumes s: "showing fs columns rows bs" and typed: "\<forall>row \<in> set rows. row_of_schema fs row"
    and n: "numbered_rows fs bn rows" and c: "bn \<in> set columns"
  shows "list_all (blocks_from_zero bn) bs"
  unfolding list_all_iff
proof
  fix b assume b: "b \<in> set bs"
  from showing_block_column [OF s b typed n c] obtain t vs m where
    a: "column_by_name b bn = Some (AInt t vs m)" "length vs = b_num_rows b" by blast
  have "0 \<le> vs ! i" if i: "i < b_num_rows b" for i
  proof -
    from showing_row [OF s b i] obtain row where r: "row \<in> set rows" "row_at b i = only columns row" by blast
    then obtain u v where v: "row bn = Some (CInt u v)" "0 \<le> v" using n by (auto simp: numbered_rows_def)
    have "row_at b i bn = Some (CInt u v)" using r(2) c v by (simp add: only_def)
    with a i v(2) show ?thesis by (simp add: row_at_def split: if_splits)
  qed
  with a show "blocks_from_zero bn b" by (auto simp: blocks_from_zero_def list_all_length)
qed

text \<open>The block range of the batches bounds the blocks of their rows.\<close>

lemma fold_block_range:
  "fold (\<lambda>n (mn, mx). (Some (case mn of None \<Rightarrow> n | Some m \<Rightarrow> min m n), Some (case mx of None \<Rightarrow> n | Some m \<Rightarrow> max m n)))
      ns (lo, hi) = (lo', hi') \<Longrightarrow>
   (\<forall>m. lo = Some m \<longrightarrow> (\<exists>m'. lo' = Some m' \<and> m' \<le> m)) \<and> (\<forall>m. hi = Some m \<longrightarrow> (\<exists>m'. hi' = Some m' \<and> m \<le> m')) \<and>
   (\<forall>n \<in> set ns. (\<exists>m. lo' = Some m \<and> m \<le> n) \<and> (\<exists>m. hi' = Some m \<and> n \<le> (m :: nat)))"
proof (induction ns arbitrary: lo hi)
  case (Cons n ns)
  let ?lo = "case lo of None \<Rightarrow> n | Some m \<Rightarrow> min m n" and ?hi = "case hi of None \<Rightarrow> n | Some m \<Rightarrow> max m n"
  from Cons.prems have "fold (\<lambda>n (mn, mx). (Some (case mn of None \<Rightarrow> n | Some m \<Rightarrow> min m n), Some (case mx of None \<Rightarrow> n | Some m \<Rightarrow> max m n)))
      ns (Some ?lo, Some ?hi) = (lo', hi')" by simp
  note ih = Cons.IH [OF this]
  from ih [THEN conjunct1, THEN spec, THEN mp, OF refl] obtain a where a: "lo' = Some a \<and> a \<le> ?lo" ..
  from ih [THEN conjunct2, THEN conjunct1, THEN spec, THEN mp, OF refl] obtain b where b: "hi' = Some b \<and> ?hi \<le> b" ..
  note ab = conjunct1 [OF a] conjunct2 [OF a] conjunct1 [OF b] conjunct2 [OF b]
  from ih have "\<forall>k \<in> set ns. (\<exists>m. lo' = Some m \<and> m \<le> k) \<and> (\<exists>m. hi' = Some m \<and> k \<le> m)" by (elim conjE)
  then have rest: "\<forall>k \<in> set ns. a \<le> k \<and> k \<le> b" by (simp add: ab)
  have "a \<le> n" "n \<le> b" using ab(2, 4) by (cases lo; cases hi; simp)+
  moreover have "lo = Some m \<Longrightarrow> a \<le> m" "hi = Some m \<Longrightarrow> m \<le> b" for m using ab(2, 4) by simp_all
  ultimately show ?case using rest by (simp add: ab)
qed auto

lemma compute_block_range_bounds:
  assumes r: "compute_block_range bs bn = Inr (lo, hi)" and b: "b \<in> set bs" "i < b_num_rows b" "block_at b bn i = Some n"
    and l: "\<And>t vs m. column_by_name b bn = Some (AInt t vs m) \<Longrightarrow> length vs = b_num_rows b"
  shows "\<exists>l h. lo = Some l \<and> hi = Some h \<and> l \<le> n \<and> n \<le> h"
proof -
  let ?visits = "all_visits bs bn"
  have "fold (\<lambda>n (mn, mx). (Some (case mn of None \<Rightarrow> n | Some m \<Rightarrow> min m n), Some (case mx of None \<Rightarrow> n | Some m \<Rightarrow> max m n)))
      (map (\<lambda>(_, _, n). n) ?visits) (None, None) = (lo, hi)"
    using r by (simp add: compute_block_range_def for_each_visits block_visits_all fold_map comp_def case_prod_beta' split: if_splits)
  note f = fold_block_range [OF this]
  from b(3) obtain c where c: "Option.bind (column_by_name b bn) resolve_int = Some c" "block_number c i = n"
    by (auto simp: block_at_def)
  then obtain a where a: "column_by_name b bn = Some a" "resolve_int a = Some c" by (auto simp: bind_eq_Some_conv)
  then obtain t vs m where ai: "a = AInt t vs m" "c = (t, vs, m)" by (cases a) simp_all
  have "int_len c = b_num_rows b" using l a(1) ai by simp
  then have "n \<in> set (batch_numbers bn b)" using c b(2) by (auto simp: batch_numbers_def)
  then obtain k where k: "k < length (batch_numbers bn b)" "batch_numbers bn b ! k = n" by (auto simp: in_set_conv_nth)
  obtain j where j: "j < length bs" "bs ! j = b" using b(1) by (auto simp: in_set_conv_nth)
  have "(j, k, n) \<in> set ?visits"
    using j k by (force simp: all_visits_def in_set_enumerate_eq image_iff)
  then have "n \<in> set (map (\<lambda>(_, _, n). n) ?visits)" by force
  with f show ?thesis by blast
qed

lemma showing_block_range:
  assumes s: "showing fs columns rows bs" and typed: "\<forall>row \<in> set rows. row_of_schema fs row"
    and n: "numbered_rows fs bn rows" and c: "bn \<in> set columns"
    and range: "compute_block_range bs bn = Inr (lo, hi)" and r: "row \<in> set rows" and k: "block_of_row bn row = Some k"
  shows "within_bounds lo hi k"
proof -
  from shown_row [OF s r] obtain b i where b: "b \<in> set bs" "i < b_num_rows b" "row_at b i = only columns row" by blast
  have "block_at b bn i = Some k" using showing_block(1) [OF s b typed n c r] k by simp
  moreover from showing_block_column [OF s b(1) typed n c] have
    "column_by_name b bn = Some (AInt t vs m) \<Longrightarrow> length vs = b_num_rows b" for t vs m by auto
  ultimately obtain l h where "lo = Some l" "hi = Some h" "l \<le> k" "k \<le> h"
    using compute_block_range_bounds [OF range b(1, 2)] by blast
  then show ?thesis by (simp add: within_bounds_def)
qed


section \<open>Key sets and address indexes of rows\<close>

text \<open>A set of rows small enough for the indexes, which count rows and path elements in 32 bits.\<close>

definition small_rows :: "string list \<Rightarrow> row list \<Rightarrow> bool" where
  "small_rows names rows \<longleftrightarrow> length rows < 2 ^ 32 \<and>
     (\<forall>name \<in> set names. sum_list (map (\<lambda>row. case row_path row name of None \<Rightarrow> 0 | Some p \<Rightarrow> length p) rows) < 2 ^ 32)"

lemma small_rows_filter: "small_rows names data \<Longrightarrow> small_rows names (filter P data)"
proof -
  assume s: "small_rows names data"
  have "sum_list (map f (filter P data)) \<le> sum_list (map f data)" for f :: "row \<Rightarrow> nat"
    by (induction data) auto
  moreover have "length (filter P data) \<le> length data" by (rule length_filter_le)
  ultimately show ?thesis using s unfolding small_rows_def by (meson le_less_trans)
qed

lemma sum_over_concat: "sum_list (map h (concat xss)) = sum_list (map (\<lambda>xs. sum_list (map h xs)) xss)"
  for h :: "'a \<Rightarrow> nat"
  by (induction xss) simp_all

lemma showing_small:
  assumes s: "showing fs columns rows bs" and typed: "\<forall>row \<in> set rows. row_of_schema fs row"
    and k: "keyed_table kinds names fs rows" and n: "set names \<subseteq> set columns" "name \<in> set names"
    and small: "small_rows names rows"
  shows "small_sources bs name"
proof -
  let ?h = "\<lambda>row. case row_path row name of None \<Rightarrow> 0 | Some p \<Rightarrow> length p"
  have rows: "concat (map batch_rows bs) = map (only columns) rows" using s by (simp add: showing_def)
  have "sum_list (map b_num_rows bs) = length (concat (map batch_rows bs))" by (simp add: length_concat comp_def)
  then have "sum_list (map b_num_rows bs) = length rows" by (simp add: rows)
  moreover have "path_elements b name = sum_list (map ?h (batch_rows b))" if b: "b \<in> set bs" for b
    using showing_path [OF s typed k n b] by (auto simp: path_elements_def batch_rows_def comp_def intro!: arg_cong [of _ _ sum_list])
  then have "map (\<lambda>b. path_elements b name) bs = map (\<lambda>b. sum_list (map ?h (batch_rows b))) bs" by (rule map_cong [OF refl])
  then have "sum_list (map (\<lambda>b. path_elements b name) bs) = sum_list (map ?h (concat (map batch_rows bs)))"
    by (simp only: sum_over_concat map_map comp_def)
  then have "sum_list (map (\<lambda>b. path_elements b name) bs) = sum_list (map ?h rows)"
    using n by (auto simp: rows comp_def row_path_only)
  ultimately show ?thesis using small n(2) by (simp add: small_sources_def small_rows_def)
qed

lemma showing_keys_ok:
  assumes s: "showing fs columns rows bs" and typed: "\<forall>row \<in> set rows. row_of_schema fs row"
    and k: "keyed_table kinds left fs rows" and n: "set left \<subseteq> set columns" and small: "small_rows left rows"
    and kinds: "list_all scan_key kinds" and l: "length left = length right"
  shows "keys_ok kinds bs left right"
proof -
  have "small_sources bs (left ! 2)" if "uses_pair_path bs left"
  proof -
    have "left ! 2 \<in> set left" using that by (simp add: uses_pair_path_def)
    from showing_small [OF s typed k n this small] show ?thesis .
  qed
  then show ?thesis
    using showing_keys [OF s _ typed k n] kinds l by (simp add: keys_ok_def list_all_iff small_paths_def)
qed


text \<open>An index without a path holds none, and a key set without a key was built from rows without one.\<close>

lemma empty_sources:
  assumes "sources_is_empty (sources_build bs grouping name)"
  shows "holds (sources_build bs grouping name) g t = False"
    and "relates (sources_build bs grouping name) g t mode inclusive = False"
proof -
  let ?sa = "sources_build bs grouping name"
  have paths: "sa_paths ?sa = []" using assms by (simp add: sources_is_empty_def)
  then have exact: "sa_exact ?sa = None"
    unfolding sources_build_def Let_def by (auto split: prod.splits if_splits)
  have none: "group_paths ?sa g = []" by (simp add: group_paths_def paths slice_list_def split: prod.split)
  then show "holds ?sa g t = False" by (simp add: holds_def exact found_path_def get_def)
  show "relates ?sa g t mode inclusive = False"
    by (simp add: relates_def exact none found_path_def get_def list_ex_iff split: hierarchical_mode.split)
qed

lemma address_mask_none:
  assumes "\<And>g t. \<not> related g t" and "i < b_num_rows b"
  shows "address_mask sa b grouping name candidates related ! i = Some False"
  using assms by (simp add: address_mask_def all_mask_def Let_def split: option.splits)

lemma empty_key_set:
  assumes bs: "\<forall>b \<in> set bs. joinable kinds left b" and scan: "list_all scan_key kinds" and small: "small_paths bs left"
    and l: "length left = length kinds" and e: "key_set_is_empty (ks_key_set (key_set_build bs left bn))"
  shows "present_keys bs left = {}"
proof (cases "uses_pair_path bs left")
  case True
  let ?sa = "sources_build bs (take 2 left) (left ! 2)"
  have held: "ks_key_set (key_set_build bs left bn) = PairPath ?sa" using True by (simp add: key_set_build_def)
  with e have empty: "sources_is_empty ?sa" by simp
  have "key_of s left j \<noteq> Some vs" if s: "s \<in> set bs" "j < b_num_rows s" for s j vs
  proof
    assume k: "key_of s left j = Some vs"
    have j: "joinable kinds left s" using bs s(1) by blast
    have "composite_key_in_set_mask undefined s left (PairPath ?sa) None = Inr (selected_mask (has_partner bs left s left) s None)"
      using key_set_holds(1) [OF bs scan small j l l, of undefined bn None] held by simp
    then have "address_mask ?sa s (take 2 left) (left ! 2) None (holds ?sa) = selected_mask (has_partner bs left s left) s None"
      by (simp add: composite_key_in_set_mask_def and_then_Inr_iff)
    moreover have "address_mask ?sa s (take 2 left) (left ! 2) None (holds ?sa) ! j = Some False"
      using empty_sources(1) [OF empty] s(2) by (intro address_mask_none) simp_all
    moreover have "selected_mask (has_partner bs left s left) s None ! j = Some (has_partner bs left s left j)"
      using s(2) by (simp add: selected_mask_def asked_def)
    ultimately have "\<not> has_partner bs left s left j" by simp
    with k s show False by (auto simp: has_partner_def list_ex_iff)
  qed
  then show ?thesis by (auto simp: present_keys_def)
next
  case np: False
  show ?thesis
  proof (cases "uses_fixed16 bs left")
    case True
    from uses_fixed16_kinds [OF bs True] have k: "kinds = [IntKey, IntKey]" .
    obtain ps bl r where st: "fold (fixed16_batch left bn) bs ([], [], keys_readable bs left) = (ps, bl, r)"
      by (cases "fold (fixed16_batch left bn) bs ([], [], keys_readable bs left)")
    have ps: "set ps = pair_of ` present_keys bs left"
      using fixed16_pairs [OF bs [unfolded k], of bn "[]" "[]" "keys_readable bs left"] by (simp add: st)
    then have ok: "list_all pair_ok ps" using pair_of_ok by (auto simp: list_all_iff)
    have "pair_set_is_empty (pair_set_new ps)" using e np True by (simp add: key_set_build_def st)
    then have "ps = []" using pair_keys.vacant_build [OF ok] by simp
    with ps show ?thesis by simp
  next
    case False
    obtain w bl where st: "fold (wide_batch left bn) bs ([], []) = (w, bl)" by (cases "fold (wide_batch left bn) bs ([], [])")
    have "set w = row_key_bytes ` present_keys bs left" using wide_keys [OF bs scan, of bn "[]" "[]"] by (simp add: st)
    moreover have "w = []" using e np False by (simp add: key_set_build_def st)
    ultimately show ?thesis by simp
  qed
qed

lemma empty_index:
  assumes kinds: "list_all scan_key kinds" and bs: "list_all (path_batch kinds grouping name) bs" and small: "small_sources bs name"
    and e: "sources_is_empty (sources_build bs grouping name)" and s: "s \<in> set bs" "j < b_num_rows s"
  shows "\<not> (key_of s grouping j \<noteq> None \<and> path_of s name j \<noteq> None)"
proof
  assume "key_of s grouping j \<noteq> None \<and> path_of s name j \<noteq> None"
  then obtain g p where gp: "key_of s grouping j = Some g" "path_of s name j = Some p" by blast
  have ps: "path_batch kinds grouping name s" using bs s(1) by (simp add: list_all_iff)
  let ?f = "hierarchical_filter_build bs grouping name name Addresses.Children True"
  have "hierarchical_mask ?f s None ! j = Some False"
    using empty_sources(2) [OF e] s(2)
    by (simp add: hierarchical_mask_def hierarchical_filter_build_def address_filter_def address_index_build_def address_mask_none)
  moreover have "hierarchical_mask ?f s None ! j = Some (relative_of (child_path True) bs name grouping s name j)"
    using hierarchical_mask_rows [OF kinds bs ps small, where mode = Addresses.Children and inclusive = True and candidates = None] s(2) by simp
  ultimately have "\<not> relative_of (child_path True) bs name grouping s name j" by simp
  moreover have "child_path True p p" by (simp add: child_path_def)
  moreover have "\<exists>j < b_num_rows s. key_of s grouping j = Some g \<and>
      (case path_of s name j of None \<Rightarrow> False | Some q \<Rightarrow> child_path True q p)" if "child_path True p p"
    using gp that s(2) by (intro exI [of _ j]) simp
  ultimately show False using gp s(1) unfolding relative_of_def list_ex_below unfolding list_ex_iff by (simp; blast)
qed


text \<open>Keys of the kinds a scan can hold are readable, so an empty set says that no row has a key.\<close>

lemma joinable_readable:
  assumes bs: "\<forall>b \<in> set bs. joinable kinds names b" and scan: "list_all scan_key kinds"
  shows "keys_readable bs names"
  unfolding keys_readable_def list_all_iff
proof (intro ballI)
  fix b name assume b: "b \<in> set (filter (\<lambda>b. 0 < b_num_rows b) bs)" and name: "name \<in> set names"
  then have "joinable kinds names b" using bs by simp
  from arg_cong [OF key_kinds_at [OF this], of set] name
  have "Option.bind (column_by_name b name) key_kind_of \<in> Some ` set kinds" by (metis image_eqI list.set_map)
  then obtain a k where a: "column_by_name b name = Some a" "key_kind_of a = Some k" "k \<in> set kinds"
    by (auto simp: bind_eq_Some_conv)
  have "scan_key k" using scan a(3) by (simp add: list_all_iff)
  with a show "key_readable b name"
    by (cases a rule: key_kind_of.cases) (auto simp: key_readable_def resolve_key_def scan_key_def)
qed

lemma key_set_readable:
  assumes bs: "\<forall>b \<in> set bs. joinable kinds left b" and scan: "list_all scan_key kinds"
  shows "ks_readable (key_set_build bs left bn)"
proof -
  note r = joinable_readable [OF bs scan]
  have "snd (snd (fold (fixed16_batch left bn) bs (ps, bl, r))) = r"
    if "\<forall>b \<in> set bs. joinable [IntKey, IntKey] left b" for ps bl r
    using that
  proof (induction bs arbitrary: ps bl)
    case (Cons b bs)
    from Cons.prems have "joinable [IntKey, IntKey] left b" by simp
    then obtain f s n where "pair_keys_of b left = Some (f, s, n)" by (rule pair_columns_key)
    then have "\<exists>ps' bl'. fixed16_batch left bn b (ps, bl, r) = (ps', bl', r)" by (simp add: fixed16_batch_def)
    then obtain ps' bl' where "fixed16_batch left bn b (ps, bl, r) = (ps', bl', r)" by blast
    with Cons show ?case by simp
  qed simp
  note kept = this
  show ?thesis
  proof (cases "\<not> uses_pair_path bs left \<and> uses_fixed16 bs left")
    case True
    with uses_fixed16_kinds [OF bs] bs have "\<forall>b \<in> set bs. joinable [IntKey, IntKey] left b" by blast
    from kept [OF this, of "[]" "[]" "keys_readable bs left"] True r show ?thesis
      by (auto simp: key_set_build_def split: prod.split)
  next
    case False
    with r show ?thesis by (auto simp: key_set_build_def split: prod.split)
  qed
qed

lemma address_readable:
  assumes bs: "list_all (path_batch kinds grouping name) bs" and scan: "list_all scan_key kinds"
  shows "ai_readable (address_index_build bs grouping name)"
proof -
  have j: "\<forall>b \<in> set bs. joinable kinds grouping b" using bs by (simp add: list_all_iff path_batch_def)
  have "address_list b name \<noteq> None" if b: "b \<in> set bs" for b
  proof -
    have "path_batch kinds grouping name b" using bs b by (simp add: list_all_iff)
    then obtain os t vs m n where "column_by_name b name = Some (AList False os (AInt t vs m) n)"
      by (auto simp: path_batch_def split: option.splits array.splits bool.splits)
    then show ?thesis by (simp add: address_list_def)
  qed
  with joinable_readable [OF j scan] show ?thesis by (simp add: address_index_build_def list_all_iff)
qed


section \<open>The input of a relation\<close>

lemma built_once_value:
  assumes "built_once_try names build = Inr built" and "k \<in> set names"
  shows "\<exists>v. build k = Inr v \<and> built_once_get built k = Inr v"
proof -
  have all: "list_all2 (\<lambda>x y. and_then (build x) (\<lambda>v. Inr (x, v)) = Inr y) (fold push_new names []) built"
    using assms(1) by (simp add: built_once_try_def try_collect_Inr_iff)
  have "k \<in> set (fold push_new names [])" using assms(2) by (simp add: set_fold_push_new)
  with list_all2_left [OF all] obtain v where v: "build k = Inr v" "(k, v) \<in> set built" by (auto simp: and_then_Inr_iff)
  obtain w where w: "map_of built k = Some w" using v(2) by (metis map_of_eq_None_iff not_Some_eq fst_conv image_eqI)
  from list_all2_right [OF all map_of_SomeD [OF w]] v(1) have "w = v" by (auto simp: and_then_Inr_iff)
  with v(1) w show ?thesis by (simp add: built_once_get_def)
qed

lemma join_input:
  assumes input: "relation_input_of t sources key_sets address_indexes (relation, p) = Inr input"
    and keys: "built_once_get key_sets (rl_source_items relation, left) = Inr (key_set_build bs left bn)"
    and bs: "built_once_get sources (rl_source_items relation) = Inr bs"
    and kind: "rl_kind relation = PJoin" and left: "pushdown_keys relation (rp_desc p) = Some (left, right)"
  shows "ri_relation input = relation \<and> ri_target input = p \<and> ri_source input = bs \<and> ri_hierarchical_filter input = None \<and>
    ri_keyless input = key_set_matches_nothing (key_set_build bs left bn) \<and>
    (\<exists>f. key_filter_build bs left right bn (t_block_number_column (rp_desc p)) = Inr f \<and>
      ri_key_filter input = (if key_filter_is_empty f then None else Some f))"
proof -
  have spec: "address_spec relation (rp_desc p) source = None" for source
    using kind by (simp add: address_spec_def hierarchical_spec_of_def split: prod.split)
  show ?thesis
    using input by (auto simp: relation_input_of_def Let_def left keys bs spec key_filter_build_def and_then_Inr_iff)
qed

lemma address_input:
  assumes input: "relation_input_of t sources key_sets address_indexes (relation, p) = Inr input"
    and keys: "built_once_get key_sets (rl_source_items relation, left) = Inr (key_set_build bs left bn)"
    and index: "built_once_get address_indexes (rl_source_items relation, hs_group_keys spec, hs_source_address spec) =
      Inr (address_index_build bs (hs_group_keys spec) (hs_source_address spec))"
    and bs: "built_once_get sources (rl_source_items relation) = Inr bs"
    and spec: "address_spec relation (rp_desc p) (tp_table (pt_plan t), pt_desc t) = Some spec"
    and left: "pushdown_keys relation (rp_desc p) = Some (left, right)"
  shows "ri_relation input = relation \<and> ri_target input = p \<and> ri_source input = bs \<and>
    ri_keyless input = (key_set_matches_nothing (key_set_build bs left bn) \<or>
      address_matches_nothing (address_index_build bs (hs_group_keys spec) (hs_source_address spec))) \<and>
    (\<exists>f. key_filter_build bs left right bn (t_block_number_column (rp_desc p)) = Inr f \<and>
      ri_key_filter input = (if key_filter_is_empty f then None else Some f)) \<and>
    (let hf = hierarchical_filter_build bs (hs_group_keys spec) (hs_source_address spec) (hs_target_address spec) (hs_mode spec)
        (hs_inclusive spec) in
      ri_hierarchical_filter input = (if hierarchical_is_empty hf then None else Some hf))"
  using input
  by (auto simp: relation_input_of_def Let_def left keys bs spec index key_filter_build_def hierarchical_filter_build_def and_then_Inr_iff)

text \<open>What a table's inputs are made from.\<close>

lemma relation_inputs_at:
  assumes inputs: "relation_inputs t sources = Inr inputs" and i: "i < length (pt_relations t)" "pt_relations t ! i = (relation, p)"
    and bs: "built_once_get sources (rl_source_items relation) = Inr bs"
  shows "\<exists>key_sets address_indexes. i < length inputs \<and>
    relation_input_of t sources key_sets address_indexes (relation, p) = Inr (inputs ! i) \<and>
    (\<forall>left right. pushdown_keys relation (rp_desc p) = Some (left, right) \<longrightarrow>
      built_once_get key_sets (rl_source_items relation, left) =
        Inr (key_set_build bs left (t_block_number_column (pt_desc t)))) \<and>
    (\<forall>spec. address_spec relation (rp_desc p) (tp_table (pt_plan t), pt_desc t) = Some spec \<longrightarrow>
      built_once_get address_indexes (rl_source_items relation, hs_group_keys spec, hs_source_address spec) =
        Inr (address_index_build bs (hs_group_keys spec) (hs_source_address spec)))"
proof -
  obtain ks ai where k: "build_key_sets t sources = Inr ks" "build_address_indexes t sources = Inr ai"
    and all: "try_collect (relation_input_of t sources ks ai) (pt_relations t) = Inr inputs"
    using inputs by (auto simp: relation_inputs_def and_then_Inr_iff)
  have mem: "(relation, p) \<in> set (pt_relations t)" using i by (metis nth_mem)
  have l: "list_all2 (\<lambda>x y. relation_input_of t sources ks ai x = Inr y) (pt_relations t) inputs"
    using all by (simp add: try_collect_Inr_iff)
  then have at: "i < length inputs" "relation_input_of t sources ks ai (relation, p) = Inr (inputs ! i)"
    using i by (auto simp: list_all2_conv_all_nth)
  moreover have "built_once_get ks (rl_source_items relation, left) = Inr (key_set_build bs left (t_block_number_column (pt_desc t)))"
    if left: "pushdown_keys relation (rp_desc p) = Some (left, right)" for left right
  proof -
    have "(rl_source_items relation, left) \<in> set (List.map_filter (\<lambda>(relation, p).
        map_option (\<lambda>(left, _). (rl_source_items relation, left)) (pushdown_keys relation (rp_desc p))) (pt_relations t))"
      using mem left by (auto simp: in_map_filter intro!: bexI [of _ "(relation, p)"])
    from built_once_value [OF k(1) [unfolded build_key_sets_def] this] bs show ?thesis by auto
  qed
  moreover have "built_once_get ai (rl_source_items relation, hs_group_keys spec, hs_source_address spec) =
      Inr (address_index_build bs (hs_group_keys spec) (hs_source_address spec))"
    if spec: "address_spec relation (rp_desc p) (tp_table (pt_plan t), pt_desc t) = Some spec" for spec
  proof -
    have "(rl_source_items relation, hs_group_keys spec, hs_source_address spec) \<in> set (List.map_filter (\<lambda>(relation, p).
        map_option (\<lambda>spec. (rl_source_items relation, hs_group_keys spec, hs_source_address spec))
          (address_spec relation (rp_desc p) (tp_table (pt_plan t), pt_desc t))) (pt_relations t))"
      using mem spec by (auto simp: in_map_filter intro!: bexI [of _ "(relation, p)"])
    from built_once_value [OF k(2) [unfolded build_address_indexes_def] this] bs show ?thesis by auto
  qed
  ultimately show ?thesis by blast
qed


section \<open>The scans of a table\<close>

text \<open>The request a scan through the execution's reader makes: a selection narrows its columns and asks for positions.\<close>

definition as_read :: "execution \<Rightarrow> string \<Rightarrow> table_request \<Rightarrow> table_request" where
  "as_read ex name rq =
     (case ex_selection ex of None \<Rightarrow> rq | Some sr \<Rightarrow> unwrap_or rq (narrowed sr name rq))"

lemma scan_reader_reads: "co_scan_rows (scan_reader ex) name rq = co_scan_rows (ex_chunk ex) name (as_read ex name rq)"
  by (simp add: scan_reader_def as_read_def selection_ops_def split: option.split)

lemma as_read_eq: "\<exists>columns positions. as_read ex name rq = rq\<lparr>rq_output_columns := columns, rq_positions := positions\<rparr>"
proof (cases "\<exists>sr columns. ex_selection ex = Some sr \<and> map_of (sr_columns sr) name = Some columns")
  case True
  then obtain sr columns where "ex_selection ex = Some sr" "map_of (sr_columns sr) name = Some columns" by blast
  then have "as_read ex name rq = rq\<lparr>rq_output_columns := columns, rq_positions := sr_track_positions sr\<rparr>"
    by (simp add: as_read_def narrowed_def unwrap_or_def)
  then show ?thesis by blast
next
  case False
  then have "as_read ex name rq = rq" by (auto simp: as_read_def narrowed_def unwrap_or_def split: option.split)
  moreover have "rq = rq\<lparr>rq_output_columns := rq_output_columns rq, rq_positions := rq_positions rq\<rparr>" by simp
  ultimately show ?thesis by metis
qed

lemma as_read_fields:
  "rq_item_tags (as_read ex name rq) = rq_item_tags rq" "rq_predicates (as_read ex name rq) = rq_predicates rq"
  "rq_from_block (as_read ex name rq) = rq_from_block rq" "rq_to_block (as_read ex name rq) = rq_to_block rq"
  "rq_block_number_column (as_read ex name rq) = rq_block_number_column rq" "rq_key_filter (as_read ex name rq) = rq_key_filter rq"
  "rq_hierarchical_filter (as_read ex name rq) = rq_hierarchical_filter rq" "rq_row_indices (as_read ex name rq) = rq_row_indices rq"
proof -
  obtain columns positions where e: "as_read ex name rq = rq\<lparr>rq_output_columns := columns, rq_positions := positions\<rparr>"
    using as_read_eq by blast
  show "rq_item_tags (as_read ex name rq) = rq_item_tags rq" "rq_predicates (as_read ex name rq) = rq_predicates rq"
    "rq_from_block (as_read ex name rq) = rq_from_block rq" "rq_to_block (as_read ex name rq) = rq_to_block rq"
    "rq_block_number_column (as_read ex name rq) = rq_block_number_column rq" "rq_key_filter (as_read ex name rq) = rq_key_filter rq"
    "rq_hierarchical_filter (as_read ex name rq) = rq_hierarchical_filter rq" "rq_row_indices (as_read ex name rq) = rq_row_indices rq"
    unfolding e by simp_all
qed

text \<open>The rows of a table that a row list shows, in the table's order.\<close>

definition shows_filtered :: "execution \<Rightarrow> string \<Rightarrow> table_request \<Rightarrow> row list \<Rightarrow> (row \<Rightarrow> bool) \<Rightarrow> rows \<Rightarrow> bool" where
  "shows_filtered ex name rq data p rows \<longleftrightarrow>
     rows_view rows = map (row_view (as_read ex name rq) data) (filter (\<lambda>i. p (data ! i)) [0..<length data])"

lemma answers_filtered:
  assumes "scanned_answers X B fs (as_read ex name rq) picks data sd"
    and "\<And>row. row \<in> set data \<Longrightarrow> asks_row X (as_read ex name rq) picks row = p row"
  shows "shows_filtered ex name rq data p (sd_rows sd)"
proof -
  have "answer_rows X (as_read ex name rq) picks data = filter (\<lambda>i. p (data ! i)) [0..<length data]"
    unfolding answer_rows_def by (rule filter_cong [OF refl]) (use assms(2) in simp)
  with assms(1) show ?thesis by (simp add: scanned_answers_def shows_filtered_def)
qed

lemma relation_request_fields [simp]:
  "rq_predicates (relation_request i window blocks) = []" "rq_row_indices (relation_request i window blocks) = None"
  "rq_from_block (relation_request i window blocks) = fst blocks" "rq_to_block (relation_request i window blocks) = snd blocks"
  "rq_block_number_column (relation_request i window blocks) = Some (t_block_number_column (rp_desc (ri_target i)))"
  "rq_key_filter (relation_request i window blocks) = ri_key_filter i"
  "rq_hierarchical_filter (relation_request i window blocks) = ri_hierarchical_filter i"
  by (simp_all add: relation_request_def table_request_new_def)


lemma shows_filtered_none: "shows_filtered ex name rq data p no_rows \<longleftrightarrow> (\<forall>row \<in> set data. \<not> p row)"
  by (auto simp: shows_filtered_def no_rows_def rows_view_def rows_parts_def filter_empty_conv in_set_conv_nth) (metis nth_mem)

lemma shows_filtered_cong:
  "(\<And>row. row \<in> set data \<Longrightarrow> p row = q row) \<Longrightarrow> shows_filtered ex name rq data p rows = shows_filtered ex name rq data q rows"
proof -
  assume "\<And>row. row \<in> set data \<Longrightarrow> p row = q row"
  then have "filter (\<lambda>i. p (data ! i)) [0..<length data] = filter (\<lambda>i. q (data ! i)) [0..<length data]"
    by (intro filter_cong [OF refl]) simp
  then show ?thesis by (simp add: shows_filtered_def)
qed

section \<open>What a table's scan returns\<close>

text \<open>
  A relation whose keys lead with the block number, on columns a scan can hold. A row follows it when the
  items that asked for it match; a target's row is related when it has a partner, or a relative, among those.
\<close>

definition sound_join :: "planned_table \<Rightarrow> schema \<Rightarrow> row list \<Rightarrow> relation_plan \<times> resolved_projection \<Rightarrow> schema \<Rightarrow> row list \<Rightarrow> bool" where
  "sound_join t fs data = (\<lambda>(relation, p) tfs tdata.
     \<exists>kinds left right. rl_left_key relation = t_block_number_column (pt_desc t) # left \<and>
       rl_right_key relation = t_block_number_column (rp_desc p) # right \<and> length left = length right \<and>
       list_all scan_key kinds \<and> keyed_table kinds (rl_left_key relation) fs data \<and>
       keyed_table kinds (rl_right_key relation) tfs tdata \<and> small_rows (rl_left_key relation) data)"

definition sound_hierarchy :: "planned_table \<Rightarrow> schema \<Rightarrow> row list \<Rightarrow> relation_plan \<times> resolved_projection \<Rightarrow> schema \<Rightarrow> row list \<Rightarrow> bool" where
  "sound_hierarchy t fs data = (\<lambda>(relation, p) tfs tdata.
     \<exists>kinds grouping spec. hierarchical_spec_of relation (rp_desc p) (tp_table (pt_plan t), pt_desc t) = Some spec \<and>
       t_block_number_column (rp_desc p) = t_block_number_column (pt_desc t) \<and>
       hs_group_keys spec = t_block_number_column (pt_desc t) # grouping \<and>
       group_keys_for_relation (rl_right_key relation) (t_address_column (rp_desc p)) = hs_group_keys spec \<and>
       list_all scan_key kinds \<and> keyed_table kinds (hs_group_keys spec) fs data \<and> keyed_table [PathKey] [hs_source_address spec] fs data \<and>
       keyed_table kinds (hs_group_keys spec) tfs tdata \<and> keyed_table [PathKey] [hs_target_address spec] tfs tdata \<and>
       small_rows (hs_source_address spec # hs_group_keys spec) data)"

definition sound_relation :: "planned_table \<Rightarrow> schema \<Rightarrow> row list \<Rightarrow> relation_plan \<times> resolved_projection \<Rightarrow> schema \<Rightarrow> row list \<Rightarrow> bool" where
  "sound_relation t fs data rp tfs tdata \<longleftrightarrow>
     numbered_rows fs (t_block_number_column (pt_desc t)) data \<and> numbered_rows tfs (t_block_number_column (rp_desc (snd rp))) tdata \<and>
     (if rl_kind (fst rp) = PJoin then sound_join t fs data rp tfs tdata else sound_hierarchy t fs data rp tfs tdata)"

definition relation_columns :: "planned_table \<Rightarrow> relation_plan \<times> resolved_projection \<Rightarrow> string list" where
  "relation_columns t = (\<lambda>(relation, p).
     t_block_number_column (pt_desc t) #
     (case hierarchical_spec_of relation (rp_desc p) (tp_table (pt_plan t), pt_desc t) of
        None \<Rightarrow> rl_left_key relation
      | Some spec \<Rightarrow> hs_source_address spec # hs_group_keys spec))"

definition related_row :: "planned_table \<Rightarrow> relation_plan \<times> resolved_projection \<Rightarrow> row list \<Rightarrow> row \<Rightarrow> bool" where
  "related_row t = (\<lambda>(relation, p) sources row.
     case hierarchical_spec_of relation (rp_desc p) (tp_table (pt_plan t), pt_desc t) of
       None \<Rightarrow> partner_among (rl_left_key relation) (rl_right_key relation) sources row
     | Some spec \<Rightarrow> relative_among (mode_relation (hs_mode spec) (hs_inclusive spec)) (hs_source_address spec) (hs_group_keys spec)
         (hs_target_address spec) sources row)"

text \<open>A row with a partner, or a relative, has a source in its block.\<close>

lemma row_key_block:
  assumes "key_of_row row (bn # names) = key_of_row source (bn' # names')" and "key_of_row row (bn # names) \<noteq> None"
    and "row bn = Some (CInt t v)" "source bn' = Some (CInt u w)" and "0 \<le> v" "0 \<le> w" "in_range t v" "in_range u w"
  shows "unsigned_bits t v = unsigned_bits u w"
proof -
  from assms(1, 2) obtain vs where "key_of_row row (bn # names) = Some vs" "key_of_row source (bn' # names') = Some vs" by auto
  with assms(3, 4) have e: "stored_key v = stored_key w" by (auto simp: Relation_Rows.row_key_def those_Some Cons_eq_map_conv)
  have "x < 2 ^ 64 \<and> unsigned_bits k x = nat x" if "0 \<le> x" "in_range k x" for k and x :: int
  proof -
    have "x < 2 ^ bits_of k" "bits_of k \<le> 64" using that by (cases k; simp add: in_range_def)+
    then have "x < 2 ^ 64" by (meson less_le_trans one_le_numeral power_increasing)
    moreover have "unsigned_bits k x = nat x" using \<open>x < 2 ^ bits_of k\<close> that(1) by (simp add: unsigned_bits_def)
    ultimately show ?thesis by blast
  qed
  note b = this [OF assms(5, 7)] this [OF assms(6, 8)]
  then have "v = w" using e assms(5, 6) by (metis take_bit_int_eq_self uint_stored_key)
  with b show ?thesis by simp
qed


text \<open>So it lies in the block range of the rows it follows.\<close>

lemma typed_block:
  assumes "rows_of_schema fs data" and "row \<in> set data" and "numbered_rows fs bn data"
  shows "\<exists>t v. row bn = Some (CInt t v) \<and> 0 \<le> v \<and> in_range t v"
proof -
  obtain fd t where fd: "field_with_name fs bn = Some fd" "f_type fd = DInt t" using assms(3) by (auto simp: numbered_rows_def)
  obtain u v where v: "row bn = Some (CInt u v)" "0 \<le> v" using assms(2, 3) by (auto simp: numbered_rows_def)
  have "row_of_schema fs row" using assms(1, 2) by (simp add: rows_of_schema_def list_all_iff)
  with field_with_name_Some [OF fd(1)] obtain c where "row bn = Some c" "typed_cell fd c" by (auto simp: row_of_schema_def)
  with v fd(2) show ?thesis by (auto simp: typed_cell_def)
qed

lemma partner_within:
  assumes "rows_of_schema fs data" "set sources \<subseteq> set data" "numbered_rows fs bn data"
    and "rows_of_schema tfs tdata" "row \<in> set tdata" "numbered_rows tfs tbn tdata"
    and p: "partner_among (bn # left) (tbn # right) sources row"
    and bounds: "\<And>source k. source \<in> set sources \<Longrightarrow> block_of_row bn source = Some k \<Longrightarrow> within_bounds lo hi k"
  shows "in_blocks tbn lo hi row"
proof -
  from p obtain vs source where vs: "key_of_row row (tbn # right) = Some vs" "source \<in> set sources" "key_of_row source (bn # left) = Some vs"
    by (auto simp: partner_among_def list_ex_iff split: option.splits)
  from typed_block [OF assms(4-6)] obtain t v where v: "row tbn = Some (CInt t v)" "0 \<le> v" "in_range t v" by blast
  from typed_block [OF assms(1) _ assms(3), of source] vs(2) assms(2) obtain u w where
    w: "source bn = Some (CInt u w)" "0 \<le> w" "in_range u w" by blast
  have "unsigned_bits t v = unsigned_bits u w"
    by (rule row_key_block [where bn = tbn and bn' = bn and names = right and names' = left and row = row and source = source])
      (use vs v w in simp_all)
  moreover have "within_bounds lo hi (unsigned_bits u w)" using bounds [OF vs(2)] w(1) by (simp add: block_of_row_def)
  ultimately show ?thesis using v(1) by (simp add: in_blocks_def)
qed

lemma relative_has_partner: "relative_among r source_column grouping target_column sources row \<Longrightarrow> partner_among grouping grouping sources row"
  by (auto simp: relative_among_def partner_among_def list_ex_iff split: option.splits)

text \<open>What the followed batches give the relation's scan.\<close>

lemma showing_within:
  assumes s: "showing fs columns sources bs" and typed: "\<forall>row \<in> set sources. row_of_schema fs row"
    and n: "numbered_rows fs bn sources" and c: "bn \<in> set columns"
    and rq: "rq_block_number_column rq = Some target_bn" "rq_from_block rq = lo" "rq_to_block rq = hi"
    and bounds: "\<And>source k. source \<in> set sources \<Longrightarrow> block_of_row bn source = Some k \<Longrightarrow> within_bounds lo hi k"
  shows "sources_within bs bn rq target_bn"
  unfolding sources_within_def
proof (intro disjI2 conjI ballI allI impI)
  fix b j n assume b: "b \<in> set bs" "j < b_num_rows b" "block_at b bn j = Some n"
  from showing_row [OF s b(1, 2)] obtain source where r: "source \<in> set sources" "row_at b j = only columns source" by blast
  from showing_block(1) [OF s b(1, 2) r(2) typed assms(3) c r(1)] b(3) bounds [OF r(1)] rq(2, 3)
  show "within_bounds (rq_from_block rq) (rq_to_block rq) n" by simp
qed (rule rq(1))

lemma numbered_rows_subset: "numbered_rows fs bn data \<Longrightarrow> set rows \<subseteq> set data \<Longrightarrow> numbered_rows fs bn rows"
  by (auto simp: numbered_rows_def)

lemma no_present_partner:
  assumes s: "showing fs columns sources bs" and typed: "\<forall>row \<in> set sources. row_of_schema fs row"
    and k: "keyed_table kinds left fs sources" and n: "set left \<subseteq> set columns" and none: "present_keys bs left = {}"
  shows "\<not> partner_among left right sources row"
proof -
  have "key_of_row source left \<noteq> Some vs" if r: "source \<in> set sources" for source vs
  proof
    assume "key_of_row source left = Some vs"
    moreover from shown_row [OF s r] obtain b i where b: "b \<in> set bs" "i < b_num_rows b" "row_at b i = only columns source" by blast
    ultimately have "vs \<in> present_keys bs left" using showing_key [OF s typed k n b] by (auto simp: present_keys_def)
    with none show False by simp
  qed
  then show ?thesis by (auto simp: partner_among_def list_ex_iff split: option.splits)
qed

lemma no_rows_shown: "showing fs columns sources bs \<Longrightarrow> list_all (\<lambda>b. b_num_rows b = 0) bs \<Longrightarrow> sources = []"
proof (rule ccontr)
  assume s: "showing fs columns sources bs" "list_all (\<lambda>b. b_num_rows b = 0) bs" and "sources \<noteq> []"
  then have "hd sources \<in> set sources" by simp
  from shown_row [OF s(1) this] s(2) show False by (force simp: list_all_iff)
qed


text \<open>
  A relation's input, prepared: either no row of the target is related to what it follows, or its request's filters pick
  exactly the related rows and the scan applies them.
\<close>

definition relation_prepared ::
    "batch_kernels \<Rightarrow> row_kernels \<Rightarrow> execution \<Rightarrow> planned_table \<Rightarrow> relation_plan \<times> resolved_projection \<Rightarrow> schema \<Rightarrow> row list \<Rightarrow> row list
     \<Rightarrow> relation_input \<Rightarrow> block_bounds \<Rightarrow> block_bounds \<Rightarrow> bool" where
  "relation_prepared B R ex t rp tfs tdata sources i window blocks \<longleftrightarrow>
     (if follows_nothing i then \<forall>row \<in> set tdata. \<not> related_row t rp sources row
      else
        (\<forall>C. scan_relation B C i window blocks =
           and_then (co_scan_rows C (rl_target (fst rp)) (relation_request i window blocks)) (\<lambda>sd. Inr (sd_rows sd))) \<and>
        set (filter_columns (relation_request i window blocks)) \<subseteq> set (field_names tfs) \<and>
        (\<exists>picks readable.
           relation_picks R tfs tdata (as_read ex (rl_target (fst rp)) (relation_request i window blocks)) picks readable \<and>
           (\<forall>row \<in> set tdata. in_request_blocks (relation_request i window blocks) row \<and> picks row \<longleftrightarrow> related_row t rp sources row)))"

lemma join_prepared:
  assumes typed: "rows_of_schema fs data" "rows_of_schema tfs tdata"
    and sound: "sound_relation t fs data (relation, p) tfs tdata" and kind: "rl_kind relation = PJoin"
    and bs: "showing fs columns sources bs" "set sources \<subseteq> set data" "small_rows (rl_left_key relation) data \<Longrightarrow> small_rows (rl_left_key relation) sources"
    and read: "set (relation_columns t (relation, p)) \<subseteq> set columns"
    and bounds: "\<And>source k. source \<in> set sources \<Longrightarrow> block_of_row (t_block_number_column (pt_desc t)) source = Some k \<Longrightarrow>
      within_bounds (fst blocks) (snd blocks) k"
    and input: "relation_input_of t followed key_sets address_indexes (relation, p) = Inr i"
    and keys: "\<And>left right. pushdown_keys relation (rp_desc p) = Some (left, right) \<Longrightarrow>
      built_once_get key_sets (rl_source_items relation, left) = Inr (key_set_build bs left (t_block_number_column (pt_desc t)))"
    and followed: "built_once_get followed (rl_source_items relation) = Inr bs"
  shows "relation_prepared B R ex t (relation, p) tfs tdata sources i window blocks"
proof -
  let ?bn = "t_block_number_column (pt_desc t)" and ?tbn = "t_block_number_column (rp_desc p)"
  from sound kind obtain kinds left right where k: "rl_left_key relation = ?bn # left" "rl_right_key relation = ?tbn # right"
    "length left = length right" "list_all scan_key kinds" "keyed_table kinds (?bn # left) fs data" "keyed_table kinds (?tbn # right) tfs tdata"
    "small_rows (?bn # left) data" "numbered_rows fs ?bn data" "numbered_rows tfs ?tbn tdata"
    by (auto simp: sound_relation_def sound_join_def)
  have ts: "\<forall>row \<in> set sources. row_of_schema fs row" using typed(1) bs(2) by (auto simp: rows_of_schema_def list_all_iff)
  have none: "hierarchical_spec_of relation (rp_desc p) src = None" for src using kind by (simp add: hierarchical_spec_of_def split: prod.split)
  have c: "?bn \<in> set columns" "set (?bn # left) \<subseteq> set columns" using read by (simp_all add: relation_columns_def none k(1))
  have keyed: "keyed_table kinds (?bn # left) fs sources" by (rule keyed_table_subset [OF k(5) bs(2)])
  have n: "numbered_rows fs ?bn sources" by (rule numbered_rows_subset [OF k(8) bs(2)])
  have push: "pushdown_keys relation (rp_desc p) = Some (?bn # left, ?tbn # right)" using kind k(1, 2) by (simp add: pushdown_keys_def)
  from join_input [OF input keys [OF push] followed kind push] obtain f where i: "ri_relation i = relation" "ri_target i = p" "ri_source i = bs"
    "ri_hierarchical_filter i = None" "ri_keyless i = key_set_matches_nothing (key_set_build bs (?bn # left) ?bn)"
    and f: "key_filter_build bs (?bn # left) (?tbn # right) ?bn ?tbn = Inr f" "ri_key_filter i = (if key_filter_is_empty f then None else Some f)"
    by blast
  have sm: "small_rows (?bn # left) sources" using bs(3) k(1, 7) by simp
  have l: "length (?bn # left) = length (?tbn # right)" using k(3) by simp
  note ok = showing_keys_ok [OF bs(1) ts keyed c(2) sm k(4) l]
  have j: "\<forall>b \<in> set bs. joinable kinds (?bn # left) b" and sp: "small_paths bs (?bn # left)" using ok by (simp_all add: keys_ok_def list_all_iff)
  have spec: "related_row t (relation, p) sources row = partner_among (?bn # left) (?tbn # right) sources row" for row
    by (simp add: related_row_def none k(1, 2))
  show ?thesis
  proof (cases "follows_nothing i")
    case True
    have "\<not> partner_among (?bn # left) (?tbn # right) sources row" for row
    proof (cases "ri_keyless i")
      case True
      have "length (?bn # left) = length kinds" using map_eq_imp_length_eq [OF k(5) [unfolded keyed_table_def, THEN conjunct1]] by simp
      from empty_key_set [OF j k(4) sp this, of ?bn] True i(5) have "present_keys bs (?bn # left) = {}" by (simp add: key_set_matches_nothing_def)
      have p: "\<not> partner_among (?bn # left) right' sources row" for right'
        by (rule no_present_partner [OF bs(1) ts keyed c(2) \<open>present_keys bs (?bn # left) = {}\<close>])
      show ?thesis by (rule p)
    next
      case False
      with True have "list_all (\<lambda>b. b_num_rows b = 0) bs" by (simp add: follows_nothing_def i(3))
      from no_rows_shown [OF bs(1) this] show ?thesis by (simp add: partner_among_def split: option.split)
    qed
    then show ?thesis using True by (simp add: relation_prepared_def spec)
  next
    case False
    have "\<not> key_filter_is_empty f"
      using False key_set_readable [OF j k(4), of ?bn] i(5) f(1)
      by (auto simp: follows_nothing_def key_set_matches_nothing_def key_filter_is_empty_def key_filter_build_def key_set_filter_def and_then_Inr_iff)
    then have kf: "ri_key_filter i = Some f" using f(2) by simp
    have tbn: "t_block_number_column (rp_desc (ri_target i)) = ?tbn" by (simp add: i(2))
    have zero: "list_all (blocks_from_zero ?bn) bs" by (rule showing_blocks_from_zero [OF bs(1) ts n c(1)])
    have nonneg: "\<forall>row \<in> set tdata. \<forall>t v. row ?tbn = Some (CInt t v) \<longrightarrow> 0 \<le> v" using k(9) by (auto simp: numbered_rows_def)
    have within: "sources_within bs ?bn (relation_request i window blocks) ?tbn"
      by (rule showing_within [OF bs(1) ts n c(1)]) (use bounds i(2) in simp_all)
    let ?rq = "as_read ex (rl_target relation) (relation_request i window blocks)"
    have rel: "relation_picks R tfs tdata ?rq (row_partner bs (?bn # left) (?tbn # right))
        (\<lambda>b. keys_ok kinds bs (?bn # left) (?tbn # right) \<and> joinable kinds (?tbn # right) b \<and> solid (?tbn # right) b)"
      by (rule key_relation_picks [OF ok f(1) zero typed(2) k(6) nonneg])
        (use kf i(4) within in \<open>simp_all add: as_read_fields sources_within_def\<close>)
    have same: "in_request_blocks (relation_request i window blocks) row \<and> row_partner bs (?bn # left) (?tbn # right) row \<longleftrightarrow>
        related_row t (relation, p) sources row" if row: "row \<in> set tdata" for row
    proof -
      have "partner_among (?bn # left) (?tbn # right) sources row \<Longrightarrow> in_blocks ?tbn (fst blocks) (snd blocks) row"
        by (rule partner_within [OF typed(1) bs(2) k(8) typed(2) row k(9)]) (use bounds in blast)+
      then show ?thesis using row_partner_showing [OF bs(1) ts keyed c(2)] by (auto simp: spec in_request_blocks_def i(2))
    qed
    have "kf_columns f = ?tbn # right" "kf_block_number_column f = ?tbn"
      using f(1) by (auto simp: key_filter_build_def key_set_filter_def and_then_Inr_iff)
    then have cols: "set (filter_columns (relation_request i window blocks)) \<subseteq> set (field_names tfs)"
      using keyed_names [OF k(6)] by (simp add: filter_columns_def kf i(4))
    have "scan_relation B C i window blocks =
        and_then (co_scan_rows C (rl_target relation) (relation_request i window blocks)) (\<lambda>sd. Inr (sd_rows sd))" for C
      by (simp add: scan_relation_def i(1) is_join_def kind kf)
    with False cols rel same show ?thesis unfolding relation_prepared_def fst_conv by auto
  qed
qed

lemma hierarchy_prepared:
  assumes typed: "rows_of_schema fs data" "rows_of_schema tfs tdata"
    and sound: "sound_relation t fs data (relation, p) tfs tdata" and kind: "rl_kind relation \<noteq> PJoin"
    and bs: "showing fs columns sources bs" "set sources \<subseteq> set data" "\<And>names. small_rows names data \<Longrightarrow> small_rows names sources"
    and read: "set (relation_columns t (relation, p)) \<subseteq> set columns"
    and bounds: "\<And>source k. source \<in> set sources \<Longrightarrow> block_of_row (t_block_number_column (pt_desc t)) source = Some k \<Longrightarrow>
      within_bounds (fst blocks) (snd blocks) k"
    and input: "relation_input_of t followed key_sets address_indexes (relation, p) = Inr i"
    and keys: "\<And>left right. pushdown_keys relation (rp_desc p) = Some (left, right) \<Longrightarrow>
      built_once_get key_sets (rl_source_items relation, left) = Inr (key_set_build bs left (t_block_number_column (pt_desc t)))"
    and indexes: "\<And>spec. address_spec relation (rp_desc p) (tp_table (pt_plan t), pt_desc t) = Some spec \<Longrightarrow>
      built_once_get address_indexes (rl_source_items relation, hs_group_keys spec, hs_source_address spec) =
        Inr (address_index_build bs (hs_group_keys spec) (hs_source_address spec))"
    and followed: "built_once_get followed (rl_source_items relation) = Inr bs"
  shows "relation_prepared B R ex t (relation, p) tfs tdata sources i window blocks"
proof -
  let ?bn = "t_block_number_column (pt_desc t)" and ?src = "(tp_table (pt_plan t), pt_desc t)"
  from sound kind obtain kinds grouping spec where spec: "hierarchical_spec_of relation (rp_desc p) ?src = Some spec"
    and tbn: "t_block_number_column (rp_desc p) = ?bn" and gk: "hs_group_keys spec = ?bn # grouping"
    and right: "group_keys_for_relation (rl_right_key relation) (t_address_column (rp_desc p)) = ?bn # grouping"
    and k: "list_all scan_key kinds" "keyed_table kinds (?bn # grouping) fs data" "keyed_table [PathKey] [hs_source_address spec] fs data"
      "keyed_table kinds (?bn # grouping) tfs tdata" "keyed_table [PathKey] [hs_target_address spec] tfs tdata"
      "small_rows (hs_source_address spec # ?bn # grouping) data" "numbered_rows fs ?bn data" "numbered_rows tfs ?bn tdata"
    by (auto simp: sound_relation_def sound_hierarchy_def)
  let ?sa = "hs_source_address spec" and ?ta = "hs_target_address spec" and ?g = "?bn # grouping"
  let ?hf = "hierarchical_filter_build bs ?g ?sa ?ta (hs_mode spec) (hs_inclusive spec)"
  have ts: "\<forall>row \<in> set sources. row_of_schema fs row" using typed(1) bs(2) by (auto simp: rows_of_schema_def list_all_iff)
  have c: "?bn \<in> set columns" "set ?g \<subseteq> set columns" "?sa \<in> set columns" "set [?sa] \<subseteq> set columns"
    using read by (simp_all add: relation_columns_def spec gk)
  have keyed: "keyed_table kinds ?g fs sources" "keyed_table [PathKey] [?sa] fs sources"
    by (rule keyed_table_subset [OF _ bs(2)], rule k)+
  have n: "numbered_rows fs ?bn sources" by (rule numbered_rows_subset [OF k(7) bs(2)])
  have aspec: "address_spec relation (rp_desc p) ?src = Some spec" by (simp add: address_spec_def spec gk)
  have left: "group_keys_for_relation (rl_left_key relation) (t_address_column (rp_desc p)) = ?g"
    using spec gk kind by (auto simp: hierarchical_spec_of_def Let_def split: plan_kind.splits)
  have push: "pushdown_keys relation (rp_desc p) = Some (?g, ?g)"
    using kind left right by (cases "rl_kind relation") (simp_all add: pushdown_keys_def)
  note a = address_input [OF input keys [OF push] indexes [OF aspec] followed aspec push]
  have sm: "small_rows (?sa # ?g) sources" by (rule bs(3) [OF k(6)])
  then have sms: "small_rows ?g sources" "small_rows [?sa] sources" by (simp_all add: small_rows_def)
  note ok = showing_keys_ok [OF bs(1) ts keyed(1) c(2) sms(1) k(1) refl]
  have j: "\<forall>b \<in> set bs. joinable kinds ?g b" and sp: "small_paths bs ?g" using ok by (simp_all add: keys_ok_def list_all_iff)
  have pb: "list_all (path_batch kinds ?g ?sa) bs"
    unfolding list_all_iff
  proof
    fix b assume b: "b \<in> set bs"
    from showing_keys [OF bs(1) b ts keyed(2) c(4)] have "joinable [PathKey] [?sa] b" by blast
    from key_kinds_at [OF this] obtain x where "column_by_name b ?sa = Some x" "key_kind_of x = Some PathKey"
      by (auto simp: bind_eq_Some_conv)
    with j b show "path_batch kinds ?g ?sa b" by (cases x rule: key_kind_of.cases) (simp_all add: path_batch_def)
  qed
  have ss: "small_sources bs ?sa" by (rule showing_small [OF bs(1) ts keyed(2) c(4) _ sms(2)]) simp
  have aok: "addresses_ok kinds bs ?sa ?g" using k(1) pb ss by (simp add: addresses_ok_def)
  have rr: "related_row t (relation, p) sources row = relative_among (mode_relation (hs_mode spec) (hs_inclusive spec)) ?sa ?g ?ta sources row" for row
    by (simp add: related_row_def spec gk)
  show ?thesis
  proof (cases "follows_nothing i")
    case True
    have "\<not> relative_among r ?sa ?g ?ta sources row" for r row
    proof (cases "ri_keyless i")
      case False
      with True have "list_all (\<lambda>b. b_num_rows b = 0) bs" using a by (simp add: follows_nothing_def)
      from no_rows_shown [OF bs(1) this] show ?thesis by (simp add: relative_among_def split: option.split)
    next
      case True
      have l: "length ?g = length kinds" using map_eq_imp_length_eq [OF k(2) [unfolded keyed_table_def, THEN conjunct1]] by simp
      from True a have "key_set_is_empty (ks_key_set (key_set_build bs ?g ?bn)) \<or> sources_is_empty (sources_build bs ?g ?sa)"
        by (auto simp: key_set_matches_nothing_def address_matches_nothing_def address_index_build_def gk)
      then show ?thesis
      proof
        assume "key_set_is_empty (ks_key_set (key_set_build bs ?g ?bn))"
        from no_present_partner [OF bs(1) ts keyed(1) c(2) empty_key_set [OF j k(1) sp l this]] relative_has_partner show ?thesis by blast
      next
        assume e: "sources_is_empty (sources_build bs ?g ?sa)"
        have "\<not> (key_of_row source ?g \<noteq> None \<and> row_path source ?sa \<noteq> None)" if r: "source \<in> set sources" for source
        proof -
          from shown_row [OF bs(1) r] obtain b m where b: "b \<in> set bs" "m < b_num_rows b" "row_at b m = only columns source" by blast
          have "path_of b ?sa m = row_path source ?sa"
            using showing_path [OF bs(1) ts keyed(2) c(4) _ b(1, 2)] row_path_only [OF c(3), of source] by (simp add: b(3))
          with empty_index [OF k(1) pb ss e b(1, 2)] showing_key [OF bs(1) ts keyed(1) c(2) b] show ?thesis by simp
        qed
        then show ?thesis by (auto simp: relative_among_def list_ex_iff split: option.splits) fastforce
      qed
    qed
    then show ?thesis using True by (simp add: relation_prepared_def rr)
  next
    case False
    obtain f where f: "key_filter_build bs ?g ?g ?bn ?bn = Inr f" "ri_key_filter i = (if key_filter_is_empty f then None else Some f)"
      using a by (auto simp: tbn)
    have "\<not> key_filter_is_empty f"
      using False key_set_readable [OF j k(1), of ?bn] a f(1)
      by (auto simp: follows_nothing_def key_set_matches_nothing_def key_filter_is_empty_def key_filter_build_def key_set_filter_def and_then_Inr_iff)
    then have kf: "ri_key_filter i = Some f" using f(2) by simp
    have "\<not> hierarchical_is_empty ?hf"
      using False address_readable [OF pb k(1)] a
      by (auto simp: follows_nothing_def address_matches_nothing_def hierarchical_is_empty_def hierarchical_filter_build_def address_filter_def gk)
    then have hf: "ri_hierarchical_filter i = Some ?hf" using a by (simp add: Let_def gk)
    have zero: "list_all (blocks_from_zero ?bn) bs" by (rule showing_blocks_from_zero [OF bs(1) ts n c(1)])
    have nonneg: "\<forall>row \<in> set tdata. \<forall>t v. row ?bn = Some (CInt t v) \<longrightarrow> 0 \<le> v" using k(8) by (auto simp: numbered_rows_def)
    have ri: "ri_relation i = relation" "ri_target i = p" using a by simp_all
    let ?rq = "as_read ex (rl_target relation) (relation_request i window blocks)"
    let ?picks = "row_relative (mode_relation (hs_mode spec) (hs_inclusive spec)) bs ?sa ?g ?ta"
    have rel: "relation_picks R tfs tdata ?rq ?picks
        (\<lambda>b. addresses_ok kinds bs ?sa ?g \<and> path_batch kinds ?g ?ta b \<and> solid (?g @ [?ta]) b)"
      by (rule grouped_relation_picks [OF aok _ _ f(1) ok zero typed(2) k(4, 5) nonneg]) (use kf hf in \<open>simp_all add: as_read_fields\<close>)
    have same: "in_request_blocks (relation_request i window blocks) row \<and> ?picks row \<longleftrightarrow> related_row t (relation, p) sources row"
      if row: "row \<in> set tdata" for row
    proof -
      have "partner_among ?g ?g sources row \<Longrightarrow> in_blocks ?bn (fst blocks) (snd blocks) row"
        by (rule partner_within [OF typed(1) bs(2) k(7) typed(2) row k(8)]) (use bounds in blast)+
      then show ?thesis using row_relative_showing [OF bs(1) ts keyed c(2, 3)] relative_has_partner
        by (auto simp: rr in_request_blocks_def ri(2) tbn)
    qed
    have "kf_columns f = ?g" "kf_block_number_column f = ?bn"
      using f(1) by (auto simp: key_filter_build_def key_set_filter_def and_then_Inr_iff)
    then have cols: "set (filter_columns (relation_request i window blocks)) \<subseteq> set (field_names tfs)"
      using keyed_names [OF k(4)] keyed_names [OF k(5)]
      by (simp add: filter_columns_def kf hf hierarchical_filter_build_def address_filter_def address_index_build_def)
    have "scan_relation B C i window blocks =
        and_then (co_scan_rows C (rl_target relation) (relation_request i window blocks)) (\<lambda>sd. Inr (sd_rows sd))" for C
      using kind by (simp add: scan_relation_def ri(1) is_join_def hf)
    with False cols rel same show ?thesis unfolding relation_prepared_def fst_conv by auto
  qed
qed

lemma shows_filtered_columns:
  assumes "\<not> rq_positions rq"
  shows "shows_filtered ex name rq data p rows = shows_filtered ex name (table_request_new (rq_output_columns rq)) data p rows"
proof -
  have "rq_output_columns (as_read ex name rq) = rq_output_columns (as_read ex name (table_request_new (rq_output_columns rq))) \<and>
      rq_positions (as_read ex name rq) = rq_positions (as_read ex name (table_request_new (rq_output_columns rq)))"
  proof (cases "\<exists>sr columns. ex_selection ex = Some sr \<and> map_of (sr_columns sr) name = Some columns")
    case True
    then obtain sr columns where "ex_selection ex = Some sr" "map_of (sr_columns sr) name = Some columns" by blast
    then show ?thesis by (simp add: as_read_def narrowed_def unwrap_or_def)
  next
    case False
    then have "as_read ex name rq = rq" for rq by (auto simp: as_read_def narrowed_def unwrap_or_def split: option.split)
    with assms show ?thesis by (simp add: table_request_new_def)
  qed
  then show ?thesis by (simp add: shows_filtered_def row_view_def cong: map_cong)
qed

text \<open>The rows a table's scan asks for in a window of blocks, and those of them a relation follows.\<close>

definition asked_in :: "externals \<Rightarrow> planned_table \<Rightarrow> block_bounds \<Rightarrow> row \<Rightarrow> bool" where
  "asked_in X t window row \<longleftrightarrow> in_blocks (t_block_number_column (pt_desc t)) (fst window) (snd window) row \<and>
     (tp_predicates (pt_plan t) = [] \<or> list_ex (\<lambda>r. row_admits X r row) (tp_predicates (pt_plan t)))"

definition followed_in :: "externals \<Rightarrow> planned_table \<Rightarrow> block_bounds \<Rightarrow> nat list option \<Rightarrow> row \<Rightarrow> bool" where
  "followed_in X t window items row \<longleftrightarrow> asked_in X t window row \<and>
     (case items of
        None \<Rightarrow> True
      | Some items \<Rightarrow> list_ex (\<lambda>k. case get (tp_predicates (pt_plan t)) k of None \<Rightarrow> False | Some r \<Rightarrow> row_admits X r row) items)"

lemma table_request_fields [simp]:
  "rq_predicates (table_request_of t window) = tp_predicates (pt_plan t)" "rq_row_indices (table_request_of t window) = None"
  "rq_from_block (table_request_of t window) = fst window" "rq_to_block (table_request_of t window) = snd window"
  "rq_block_number_column (table_request_of t window) = Some (t_block_number_column (pt_desc t))"
  "rq_key_filter (table_request_of t window) = None" "rq_hierarchical_filter (table_request_of t window) = None"
  "rq_output_columns (table_request_of t window) = pt_scan_columns t" "rq_positions (table_request_of t window) = False"
  "rq_item_tags (table_request_of t window) = fold push_new (List.map_filter rl_source_items (tp_relations (pt_plan t))) []"
  by (simp_all add: table_request_of_def table_request_new_def)

lemma asks_row_in: "rq_block_number_column rq = Some (t_block_number_column (pt_desc t)) \<Longrightarrow> rq_predicates rq = tp_predicates (pt_plan t) \<Longrightarrow>
    rq_from_block rq = fst window \<Longrightarrow> rq_to_block rq = snd window \<Longrightarrow> asks_row X rq (\<lambda>_. True) row = asked_in X t window row"
  by (simp add: asks_row_def asked_in_def in_request_blocks_def item_asks_def)

lemma distinct_fold_push_new: "distinct acc \<Longrightarrow> distinct (fold push_new xs acc)"
  by (induction xs arbitrary: acc) simp_all

text \<open>The batches a relation follows show the rows it follows.\<close>

lemma followed_shown:
  assumes a: "scanned_answers X B fs (as_read ex name (table_request_of t window)) (\<lambda>_. True) data sd"
    and items: "items \<in> set (map rl_source_items (tp_relations (pt_plan t)))" and bs: "followed_rows B sd items = Inr bs"
  shows "showing fs (rq_output_columns (as_read ex name (table_request_of t window))) (filter (followed_in X t window items) data) bs"
proof -
  let ?rq = "as_read ex name (table_request_of t window)"
  have asks: "asks_row X ?rq (\<lambda>_. True) = asked_in X t window" by (rule ext, rule asks_row_in) (simp_all add: as_read_fields)
  show ?thesis
  proof (cases items)
    case None
    with bs scanned_batches [OF a] show ?thesis
      by (simp add: followed_rows_def showing_def output_types_def asks followed_in_def [abs_def])
  next
    case (Some tag)
    then have "tag \<in> set (rq_item_tags ?rq)" using items
      by (auto simp: as_read_fields set_fold_push_new in_map_filter image_iff intro!: bexI)
    moreover have "distinct (rq_item_tags ?rq)" by (simp add: as_read_fields distinct_fold_push_new)
    ultimately obtain ms where ms: "matched_by B sd tag = Some (Inr ms)" "list_all (shaped (output_types fs ?rq)) ms"
      "concat (map batch_rows ms) = map (\<lambda>r. only (rq_output_columns ?rq) (data ! r))
        (filter (\<lambda>r. tag_matches X ?rq tag (data ! r)) (answer_rows X ?rq (\<lambda>_. True) data))"
      using a unfolding scanned_answers_def by blast
    have match: "tag_matches X ?rq tag row = list_ex (\<lambda>k. case get (tp_predicates (pt_plan t)) k of None \<Rightarrow> False | Some r \<Rightarrow> row_admits X r row) tag" for row
      by (auto simp: tag_matches_def list_ex_iff get_def as_read_fields)
    have "map (\<lambda>r. only (rq_output_columns ?rq) (data ! r)) (filter (\<lambda>r. tag_matches X ?rq tag (data ! r)) (answer_rows X ?rq (\<lambda>_. True) data)) =
        map (only (rq_output_columns ?rq)) (map ((!) data) (filter (\<lambda>r. followed_in X t window items (data ! r)) [0..<length data]))"
      by (simp add: answer_rows_def asks match Some followed_in_def conj_commute)
    also have "map ((!) data) (filter (\<lambda>r. followed_in X t window items (data ! r)) [0..<length data]) = filter (followed_in X t window items) data"
      using filter_map [of "followed_in X t window items" "(!) data" "[0..<length data]"] by (simp add: map_nth comp_def)
    finally show ?thesis using ms bs Some by (simp add: followed_rows_def showing_def output_types_def)
  qed
qed

lemma keyed_collect:
  assumes "try_collect (\<lambda>k. and_then (f k) (\<lambda>v. Inr (k, v))) ks = Inr m"
  shows "if k \<in> set ks then \<exists>v. f k = Inr v \<and> map_of m k = Some v else map_of m k = None"
  using assms
proof (induction ks arbitrary: m)
  case (Cons k' ks)
  from Cons.prems obtain v m' where v: "f k' = Inr v" "try_collect (\<lambda>k. and_then (f k) (\<lambda>v. Inr (k, v))) ks = Inr m'" "m = (k', v) # m'"
    by (auto simp: and_then_Inr_iff)
  from Cons.IH [OF v(2)] v(1, 3) show ?case by auto
qed simp

lemma relation_inputs_length: "relation_inputs t sources = Inr inputs \<Longrightarrow> length inputs = length (pt_relations t)"
  by (auto simp: relation_inputs_def and_then_Inr_iff dest: try_collect_length)

lemma input_target:
  assumes "relation_input_of t sources key_sets address_indexes (relation, p) = Inr i"
  shows "ri_target i = p"
proof -
  have "\<exists>i'. i' = i \<and> ri_target i' = p" using assms unfolding relation_input_of_def Let_def prod.case and_then_Inr_iff by fastforce
  then show ?thesis by simp
qed

lemma scan_relations_at:
  assumes "scan_relations B C t sd window blocks = Inr relations"
  shows "\<exists>sources inputs. built_once_try (map rl_source_items (tp_relations (pt_plan t))) (followed_rows B sd) = Inr sources \<and>
    relation_inputs t sources = Inr inputs \<and>
    (\<forall>i < length (pt_relations t).
      if follows_nothing (inputs ! i) then unwrap_or no_rows (map_of relations i) = no_rows
      else scan_relation B C (inputs ! i) window blocks = Inr (unwrap_or no_rows (map_of relations i)))"
proof -
  from assms obtain sources inputs where r: "built_once_try (map rl_source_items (tp_relations (pt_plan t))) (followed_rows B sd) = Inr sources"
    "relation_inputs t sources = Inr inputs"
    "try_collect (\<lambda>index. and_then (scan_relation B C (inputs ! index) window blocks) (\<lambda>rows. Inr (index, rows)))
       (filter (\<lambda>index. \<not> follows_nothing (inputs ! index)) [0..<length inputs]) = Inr relations"
    by (auto simp: scan_relations_def and_then_Inr_iff)
  have "if follows_nothing (inputs ! i) then unwrap_or no_rows (map_of relations i) = no_rows
      else scan_relation B C (inputs ! i) window blocks = Inr (unwrap_or no_rows (map_of relations i))" if "i < length (pt_relations t)" for i
    using keyed_collect [OF r(3), of i] that relation_inputs_length [OF r(2)] by (auto simp: unwrap_or_def split: if_splits)
  with r(1, 2) show ?thesis by blast
qed

text \<open>
  What a table needs of the chunk: its own table and its relations' targets hold rows of their schemas, every relation is
  sound on them, and the scan's columns hold what the relations follow.
\<close>

definition table_fits :: "execution \<Rightarrow> chunk_contents \<Rightarrow> planned_table \<Rightarrow> block_bounds \<Rightarrow> schema \<Rightarrow> row list \<Rightarrow> bool" where
  "table_fits ex contents t window fs data \<longleftrightarrow>
     contents (tp_table (pt_plan t)) = Some (fs, data) \<and> request_ok (table_request_of t window) \<and>
     numbered_rows fs (t_block_number_column (pt_desc t)) data \<and>
     (\<forall>rp \<in> set (pt_relations t). \<exists>tfs tdata. contents (rl_target (fst rp)) = Some (tfs, tdata) \<and> sound_relation t fs data rp tfs tdata \<and>
       set (relation_columns t rp) \<subseteq> set (rq_output_columns (as_read ex (tp_table (pt_plan t)) (table_request_of t window))))"

text \<open>Each relation of a table with the rows its target's scan kept.\<close>

definition relation_shown :: "externals \<Rightarrow> execution \<Rightarrow> chunk_contents \<Rightarrow> planned_table \<Rightarrow> block_bounds \<Rightarrow> row list \<Rightarrow>
    relation_plan \<times> resolved_projection \<Rightarrow> rows \<Rightarrow> bool" where
  "relation_shown X ex contents t window data rp rows \<longleftrightarrow>
     (\<exists>tfs tdata. contents (rl_target (fst rp)) = Some (tfs, tdata) \<and>
       shows_filtered ex (rl_target (fst rp)) (table_request_new (rp_row_columns (snd rp))) tdata
         (related_row t rp (filter (followed_in X t window (rl_source_items (fst rp))) data)) rows)"

lemma no_partners: "related_row t rp [] row = False"
  by (cases rp) (simp add: related_row_def partner_among_def relative_among_def split: option.split)

text \<open>What the inputs of a table's relations are, once its own scan has answered.\<close>

lemma inputs_prepared:
  assumes typed: "\<forall>name fs data. contents name = Some (fs, data) \<longrightarrow> rows_of_schema fs data"
    and fits: "table_fits ex contents t window fs data"
    and a: "scanned_answers X B fs (as_read ex (tp_table (pt_plan t)) (table_request_of t window)) (\<lambda>_. True) data sd"
    and blocks: "compute_block_range (rs_batches (sd_rows sd)) (t_block_number_column (pt_desc t)) = Inr blocks"
    and built: "built_once_try (map rl_source_items (tp_relations (pt_plan t))) (followed_rows B sd) = Inr sources"
    and inputs: "relation_inputs t sources = Inr inputs" and i: "i < length (pt_relations t)" "pt_relations t ! i = (relation, p)"
  shows "\<exists>tfs tdata. contents (rl_target relation) = Some (tfs, tdata) \<and>
    relation_prepared B R ex t (relation, p) tfs tdata (filter (followed_in X t window (rl_source_items relation)) data) (inputs ! i) window blocks \<and>
    ri_target (inputs ! i) = p"
proof -
  let ?table = "tp_table (pt_plan t)" and ?bn = "t_block_number_column (pt_desc t)"
  let ?rq = "as_read ex ?table (table_request_of t window)"
  let ?columns = "rq_output_columns ?rq" and ?sources = "filter (followed_in X t window (rl_source_items relation)) data"
  have source: "contents ?table = Some (fs, data)" and n: "numbered_rows fs ?bn data" using fits by (simp_all add: table_fits_def)
  have mem: "(relation, p) \<in> set (pt_relations t)" using i by (metis nth_mem)
  then have rel: "relation \<in> set (tp_relations (pt_plan t))" by (auto simp: pt_relations_def dest: set_zip_leftD)
  obtain tfs tdata where target: "contents (rl_target relation) = Some (tfs, tdata)" and sound: "sound_relation t fs data (relation, p) tfs tdata"
    and read: "set (relation_columns t (relation, p)) \<subseteq> set ?columns"
    using fits mem unfolding table_fits_def by fastforce
  note ty = typed [rule_format, OF source] typed [rule_format, OF target]
  have asks: "asks_row X ?rq (\<lambda>_. True) = asked_in X t window" by (rule ext, rule asks_row_in) (simp_all add: as_read_fields)
  have primary: "showing fs ?columns (filter (asked_in X t window) data) (rs_batches (sd_rows sd))"
    using scanned_batches [OF a] by (simp add: showing_def output_types_def asks)
  have rows: "\<forall>row \<in> set data. row_of_schema fs row" using ty(1) by (simp add: rows_of_schema_def list_all_iff)
  have items: "rl_source_items relation \<in> set (map rl_source_items (tp_relations (pt_plan t)))" using rel by simp
  from built_once_value [OF built items] obtain bs where
    bs: "followed_rows B sd (rl_source_items relation) = Inr bs" "built_once_get sources (rl_source_items relation) = Inr bs" by blast
  from relation_inputs_at [OF inputs i bs(2)] obtain key_sets indexes where
    input: "relation_input_of t sources key_sets indexes (relation, p) = Inr (inputs ! i)"
    and ks: "\<And>left right. pushdown_keys relation (rp_desc p) = Some (left, right) \<Longrightarrow>
      built_once_get key_sets (rl_source_items relation, left) = Inr (key_set_build bs left ?bn)"
    and ai: "\<And>spec. address_spec relation (rp_desc p) (?table, pt_desc t) = Some spec \<Longrightarrow>
      built_once_get indexes (rl_source_items relation, hs_group_keys spec, hs_source_address spec) =
        Inr (address_index_build bs (hs_group_keys spec) (hs_source_address spec))" by blast
  note shown = followed_shown [OF a items bs(1)]
  have sub: "set ?sources \<subseteq> set data" by auto
  have bounds: "within_bounds (fst blocks) (snd blocks) k" if "row \<in> set ?sources" "block_of_row ?bn row = Some k" for row k
  proof (rule showing_block_range [OF primary])
    show "\<forall>row \<in> set (filter (asked_in X t window) data). row_of_schema fs row" using rows by simp
    show "numbered_rows fs ?bn (filter (asked_in X t window) data)" by (rule numbered_rows_subset [OF n]) auto
    show "?bn \<in> set ?columns" using read by (simp add: relation_columns_def)
    show "compute_block_range (rs_batches (sd_rows sd)) ?bn = Inr (fst blocks, snd blocks)" using blocks by simp
    show "row \<in> set (filter (asked_in X t window) data)" using that(1) by (auto simp: followed_in_def)
  qed (rule that(2))
  have "relation_prepared B R ex t (relation, p) tfs tdata ?sources (inputs ! i) window blocks"
  proof (cases "rl_kind relation = PJoin")
    case True
    show ?thesis by (rule join_prepared [OF ty sound True shown sub small_rows_filter read bounds input ks bs(2)])
  next
    case False
    show ?thesis by (rule hierarchy_prepared [OF ty sound False shown sub small_rows_filter read bounds input ks ai bs(2)])
  qed
  with target input_target [OF input] show ?thesis by blast
qed

context answering_chunk
begin

text \<open>The rows of a prepared relation.\<close>

lemma prepared_rows:
  assumes h: "holds contents c" "ex_chunk ex = ops c" and target: "contents (rl_target relation) = Some (tfs, tdata)"
    and ready: "relation_prepared B R ex t (relation, p) tfs tdata sources i window blocks"
    and rows: "if follows_nothing i then rows = no_rows else scan_relation B (scan_reader ex) i window blocks = Inr rows"
  shows "shows_filtered ex (rl_target relation) (relation_request i window blocks) tdata (related_row t (relation, p) sources) rows"
proof (cases "follows_nothing i")
  case True
  with ready rows show ?thesis by (simp add: relation_prepared_def shows_filtered_none)
next
  case False
  let ?rq = "as_read ex (rl_target relation) (relation_request i window blocks)"
  from ready False obtain picks readable where rel: "relation_picks R tfs tdata ?rq picks readable"
    and same: "\<forall>row \<in> set tdata. in_request_blocks (relation_request i window blocks) row \<and> picks row \<longleftrightarrow> related_row t (relation, p) sources row"
    and scan: "scan_relation B (scan_reader ex) i window blocks =
      and_then (co_scan_rows (scan_reader ex) (rl_target relation) (relation_request i window blocks)) (\<lambda>sd. Inr (sd_rows sd))"
    unfolding relation_prepared_def fst_conv by auto
  from rows False have "scan_relation B (scan_reader ex) i window blocks = Inr rows" by simp
  then have "and_then (co_scan_rows (ops c) (rl_target relation) ?rq) (\<lambda>sd. Inr (sd_rows sd)) = Inr rows"
    unfolding scan by (simp add: scan_reader_reads h(2))
  then obtain sd where sd: "co_scan_rows (ops c) (rl_target relation) ?rq = Inr sd" "rows = sd_rows sd"
    by (auto simp: and_then_Inr_iff)
  have "request_ok ?rq" by (simp add: request_ok_def as_read_fields)
  from answers [OF h(1) target this rel _ sd(1)] have "scanned_answers X B tfs ?rq picks tdata sd" by (simp add: as_read_fields)
  then show ?thesis unfolding sd(2)
  proof (rule answers_filtered)
    fix row assume "row \<in> set tdata"
    with same show "asks_row X ?rq picks row = related_row t (relation, p) sources row"
      by (simp add: asks_row_def item_asks_def as_read_fields in_request_blocks_def)
  qed
qed

lemma scan_table_shows:
  assumes h: "holds contents c" "ex_chunk ex = ops c" and fits: "table_fits ex contents t window fs data"
    and scan: "scan_table B ex t window = Inr (name, output)"
  shows "name = tp_table (pt_plan t)"
    and "shows_filtered ex name (table_request_new (pt_scan_columns t)) data (asked_in X t window) (to_rows output)"
    and "i < length (pt_relations t) \<Longrightarrow>
      relation_shown X ex contents t window data (pt_relations t ! i) (unwrap_or no_rows (map_of (to_relations output) i))"
proof -
  let ?table = "tp_table (pt_plan t)" and ?bn = "t_block_number_column (pt_desc t)"
  let ?rq = "as_read ex ?table (table_request_of t window)"
  have source: "contents ?table = Some (fs, data)" and ok: "request_ok (table_request_of t window)" using fits by (simp_all add: table_fits_def)
  from scan obtain sd blocks relations where sd: "co_scan_rows (ops c) ?table ?rq = Inr sd"
    and blocks: "compute_block_range (rs_batches (sd_rows sd)) ?bn = Inr blocks"
    and relations: "(if list_ex (\<lambda>b. 0 < b_num_rows b) (rs_batches (sd_rows sd)) \<and> tp_relations (pt_plan t) \<noteq> []
        then scan_relations B (scan_reader ex) t sd window blocks else Inr []) = Inr relations"
    and out: "name = ?table" "output = \<lparr>to_rows = sd_rows sd, to_relations = relations\<rparr>"
    unfolding scan_table_def Let_def scan_reader_reads h(2) by (auto simp: and_then_Inr_iff)
  have "request_ok ?rq" using ok by (simp add: request_ok_def as_read_fields)
  from plain_answers [OF h(1) source this _ _ _ sd] have a: "scanned_answers X B fs ?rq (\<lambda>_. True) data sd" by (simp add: as_read_fields)
  have asks: "asks_row X ?rq (\<lambda>_. True) = asked_in X t window" by (rule ext, rule asks_row_in) (simp_all add: as_read_fields)
  show "name = ?table" by (rule out(1))
  show "shows_filtered ex name (table_request_new (pt_scan_columns t)) data (asked_in X t window) (to_rows output)"
    using answers_filtered [OF a, of "asked_in X t window"] shows_filtered_columns [of "table_request_of t window"] by (simp add: asks out)
  have primary: "showing fs (rq_output_columns ?rq) (filter (asked_in X t window) data) (rs_batches (sd_rows sd))"
    using scanned_batches [OF a] by (simp add: showing_def output_types_def asks)
  assume i: "i < length (pt_relations t)"
  obtain relation p where rp: "pt_relations t ! i = (relation, p)" by (cases "pt_relations t ! i")
  then have mem: "(relation, p) \<in> set (pt_relations t)" using i by (metis nth_mem)
  then have rel: "relation \<in> set (tp_relations (pt_plan t))" by (auto simp: pt_relations_def dest: set_zip_leftD)
  obtain tfs tdata where target: "contents (rl_target relation) = Some (tfs, tdata)" using fits mem unfolding table_fits_def by fastforce
  let ?sources = "filter (followed_in X t window (rl_source_items relation)) data"
  let ?rows = "unwrap_or no_rows (map_of (to_relations output) i)"
  have "shows_filtered ex (rl_target relation) (table_request_new (rp_row_columns p)) tdata (related_row t (relation, p) ?sources) ?rows"
  proof (cases "list_ex (\<lambda>b. 0 < b_num_rows b) (rs_batches (sd_rows sd))")
    case False
    then have "list_all (\<lambda>b. b_num_rows b = 0) (rs_batches (sd_rows sd))" by (auto simp: list_all_iff list_ex_iff)
    from no_rows_shown [OF primary this] have "?sources = []" by (auto simp: filter_empty_conv followed_in_def)
    moreover have "relations = []" using relations False by simp
    ultimately show ?thesis by (simp add: out shows_filtered_none no_partners unwrap_or_def)
  next
    case True
    with relations rel have "scan_relations B (scan_reader ex) t sd window blocks = Inr relations" by (auto split: if_splits)
    from scan_relations_at [OF this] obtain sources inputs where
      built: "built_once_try (map rl_source_items (tp_relations (pt_plan t))) (followed_rows B sd) = Inr sources"
        "relation_inputs t sources = Inr inputs"
      and all: "\<forall>i < length (pt_relations t).
        if follows_nothing (inputs ! i) then unwrap_or no_rows (map_of relations i) = no_rows
        else scan_relation B (scan_reader ex) (inputs ! i) window blocks = Inr (unwrap_or no_rows (map_of relations i))" by blast
    have "if follows_nothing (inputs ! i) then ?rows = no_rows else scan_relation B (scan_reader ex) (inputs ! i) window blocks = Inr ?rows"
      using all i by (simp add: out(2))
    note at = this
    have typed: "\<forall>name fs data. contents name = Some (fs, data) \<longrightarrow> rows_of_schema fs data" using rows_typed [OF h(1)] by blast
    from inputs_prepared [OF typed fits a blocks built i rp] target
    have ready: "relation_prepared B R ex t (relation, p) tfs tdata ?sources (inputs ! i) window blocks" and p: "ri_target (inputs ! i) = p"
      by auto
    from prepared_rows [OF h target ready at] p show ?thesis
      using shows_filtered_columns [of "relation_request (inputs ! i) window blocks"] by (simp add: relation_request_def table_request_new_def)
  qed
  then show "relation_shown X ex contents t window data (pt_relations t ! i) ?rows" using target by (auto simp: relation_shown_def rp)
qed

end


section \<open>A table's scan succeeds\<close>

definition table_served :: "externals \<Rightarrow> kernels \<Rightarrow> execution \<Rightarrow> chunk_contents \<Rightarrow> planned_table \<Rightarrow> block_bounds \<Rightarrow> schema \<Rightarrow> bool" where
  "table_served X K ex contents t window fs \<longleftrightarrow>
     checks_passed X K fs (as_read ex (tp_table (pt_plan t)) (table_request_of t window)) \<and>
     build_output_schema fs (rq_output_columns (as_read ex (tp_table (pt_plan t)) (table_request_of t window))) \<noteq> [] \<and>
     (\<forall>rp \<in> set (pt_relations t). \<forall>tfs tdata. contents (rl_target (fst rp)) = Some (tfs, tdata) \<longrightarrow>
       set (rp_required (snd rp)) \<subseteq> set (field_names tfs) \<and>
       build_output_schema tfs (rq_output_columns (as_read ex (rl_target (fst rp)) (table_request_new (rp_row_columns (snd rp))))) \<noteq> [])"

lemma as_read_required: "rq_required_columns (as_read ex name rq) = rq_required_columns rq"
proof -
  obtain columns positions where e: "as_read ex name rq = rq\<lparr>rq_output_columns := columns, rq_positions := positions\<rparr>"
    using as_read_eq by blast
  show ?thesis unfolding e by simp
qed

lemma as_read_columns:
  "rq_output_columns rq = rq_output_columns rq' \<Longrightarrow>
    rq_output_columns (as_read ex name rq) = rq_output_columns (as_read ex name rq')"
  by (simp add: as_read_def narrowed_def unwrap_or_def split: option.split)

lemma built_once_total:
  assumes "\<forall>k \<in> set names. \<exists>v. build k = Inr v"
  shows "\<exists>built. built_once_try names build = Inr built"
proof -
  from assms obtain g where g: "\<forall>k \<in> set names. build k = Inr (g k)" by metis
  have "set (fold push_new names []) = set names" by (simp add: set_fold_push_new)
  then have "built_once_try names build = Inr (map (\<lambda>k. (k, g k)) (fold push_new names []))"
    unfolding built_once_try_def using g by (intro try_collect_total) simp
  then show ?thesis by blast
qed

lemma try_collect_ex: "\<forall>x \<in> set xs. \<exists>y. f x = Inr y \<Longrightarrow> \<exists>ys. try_collect f xs = Inr ys"
  by (induction xs) auto

lemma sound_pushdown:
  assumes "sound_relation t fs data (relation, p) tfs tdata"
  shows "\<exists>left right. pushdown_keys relation (rp_desc p) = Some (left, right) \<and> length left = length right"
proof (cases "rl_kind relation = PJoin")
  case True
  with assms show ?thesis by (auto simp: sound_relation_def sound_join_def pushdown_keys_def)
next
  case False
  with assms obtain spec grouping where spec: "hierarchical_spec_of relation (rp_desc p) (tp_table (pt_plan t), pt_desc t) = Some spec"
    "hs_group_keys spec = t_block_number_column (pt_desc t) # grouping"
    "group_keys_for_relation (rl_right_key relation) (t_address_column (rp_desc p)) = hs_group_keys spec"
    by (auto simp: sound_relation_def sound_hierarchy_def)
  have "group_keys_for_relation (rl_left_key relation) (t_address_column (rp_desc p)) = hs_group_keys spec"
    using spec(1) False by (auto simp: hierarchical_spec_of_def Let_def split: plan_kind.splits)
  with False spec(2, 3) show ?thesis by (cases "rl_kind relation") (simp_all add: pushdown_keys_def)
qed

lemma relation_inputs_total:
  assumes sources: "\<And>relation. relation \<in> set (tp_relations (pt_plan t)) \<Longrightarrow> \<exists>bs. built_once_get sources (rl_source_items relation) = Inr bs"
    and push: "\<forall>(relation, p) \<in> set (pt_relations t). \<exists>left right.
      pushdown_keys relation (rp_desc p) = Some (left, right) \<and> length left = length right"
  shows "\<exists>inputs. relation_inputs t sources = Inr inputs"
proof -
  have rel: "relation \<in> set (tp_relations (pt_plan t))" if "(relation, p) \<in> set (pt_relations t)" for relation p
    using that by (auto simp: pt_relations_def dest: set_zip_leftD)
  have "\<exists>key_sets. build_key_sets t sources = Inr key_sets"
    unfolding build_key_sets_def
    by (rule built_once_total) (use sources rel in \<open>fastforce simp: in_map_filter split: prod.splits\<close>)
  then obtain key_sets where ks: "build_key_sets t sources = Inr key_sets" by blast
  have "\<exists>indexes. build_address_indexes t sources = Inr indexes"
    unfolding build_address_indexes_def
    by (rule built_once_total) (use sources rel in \<open>fastforce simp: in_map_filter split: prod.splits\<close>)
  then obtain indexes where ai: "build_address_indexes t sources = Inr indexes" by blast
  have "\<exists>i. relation_input_of t sources key_sets indexes rp = Inr i" if mem: "rp \<in> set (pt_relations t)" for rp
  proof -
    obtain relation p where rp: "rp = (relation, p)" by (cases rp)
    from sources [OF rel] mem rp obtain bs where bs: "built_once_get sources (rl_source_items relation) = Inr bs" by blast
    from push mem rp obtain left right where lr: "pushdown_keys relation (rp_desc p) = Some (left, right)" "length left = length right" by blast
    have "(rl_source_items relation, left) \<in> set (List.map_filter (\<lambda>(relation, p).
        map_option (\<lambda>(left, _). (rl_source_items relation, left)) (pushdown_keys relation (rp_desc p))) (pt_relations t))"
      using mem rp lr by (auto simp: in_map_filter intro!: bexI [of _ "(relation, p)"])
    from built_once_value [OF ks [unfolded build_key_sets_def] this] bs
    have key: "built_once_get key_sets (rl_source_items relation, left) = Inr (key_set_build bs left (t_block_number_column (pt_desc t)))" by auto
    have index: "\<exists>v. built_once_get indexes (rl_source_items relation, hs_group_keys spec, hs_source_address spec) = Inr v"
      if "address_spec relation (rp_desc p) (tp_table (pt_plan t), pt_desc t) = Some spec" for spec
    proof -
      have "(rl_source_items relation, hs_group_keys spec, hs_source_address spec) \<in> set (List.map_filter (\<lambda>(relation, p).
          map_option (\<lambda>spec. (rl_source_items relation, hs_group_keys spec, hs_source_address spec))
            (address_spec relation (rp_desc p) (tp_table (pt_plan t), pt_desc t))) (pt_relations t))"
        using mem rp that by (auto simp: in_map_filter intro!: bexI [of _ "(relation, p)"])
      from built_once_value [OF ai [unfolded build_address_indexes_def] this] show ?thesis by blast
    qed
    have width: "ks_width (key_set_build bs left bn) = length left" for bn
      by (simp add: key_set_build_def Let_def split: prod.split)
    show ?thesis
    proof (cases "address_spec relation (rp_desc p) (tp_table (pt_plan t), pt_desc t)")
      case None
      show ?thesis unfolding rp relation_input_of_def Let_def prod.case lr(1) option.case key None bs
        by (simp add: key_set_filter_def width lr(2))
    next
      case (Some spec)
      from index [OF Some] obtain v where v: "built_once_get indexes (rl_source_items relation, hs_group_keys spec, hs_source_address spec) = Inr v" ..
      show ?thesis unfolding rp relation_input_of_def Let_def prod.case lr(1) option.case key Some bs
        by (simp add: key_set_filter_def width lr(2) v)
    qed
  qed
  then have "\<exists>inputs. try_collect (relation_input_of t sources key_sets indexes) (pt_relations t) = Inr inputs"
    by (intro try_collect_ex) blast
  with ks ai show ?thesis by (simp add: relation_inputs_def)
qed


lemma showing_numbered:
  assumes s: "showing fs columns rows bs" and typed: "\<forall>row \<in> set rows. row_of_schema fs row" and n: "numbered_rows fs bn data"
  shows "list_all (numbered bn) bs"
  unfolding list_all_iff
proof
  fix b assume b: "b \<in> set bs"
  from showing_batch [OF s b typed] obtain rs where
    rs: "shows_rows fs rows (filter (\<lambda>name. name \<in> set (field_names fs)) columns) rs b" by blast
  show "numbered bn b"
  proof (cases "column_by_name b bn")
    case None
    then show ?thesis by (simp add: numbered_def)
  next
    case (Some a)
    with rs n have "\<exists>t. data_type_of a = DInt t" unfolding shows_rows_def numbered_rows_def by fastforce
    then show ?thesis using Some by (cases a) (simp_all add: numbered_def)
  qed
qed

lemma numbered_complete: "numbered_rows fs bn data \<Longrightarrow> complete_blocks data bn"
  by (auto simp: numbered_rows_def complete_blocks_def)

context serving_chunk
begin

lemma prepared_scans:
  assumes h: "holds contents c" "ex_chunk ex = ops c" "serves c" and target: "contents (rl_target relation) = Some (tfs, tdata)"
    and ready: "relation_prepared B R ex t (relation, p) tfs tdata sources i window blocks" and p: "ri_target i = p"
    and n: "numbered_rows tfs (t_block_number_column (rp_desc p)) tdata" and required: "set (rp_required p) \<subseteq> set (field_names tfs)"
    and out: "build_output_schema tfs (rq_output_columns (as_read ex (rl_target relation) (table_request_new (rp_row_columns p)))) \<noteq> []"
    and follows: "\<not> follows_nothing i"
  shows "\<exists>rows. scan_relation B (scan_reader ex) i window blocks = Inr rows"
proof -
  let ?rq = "as_read ex (rl_target relation) (relation_request i window blocks)"
  from ready follows obtain picks readable where rel: "relation_picks R tfs tdata ?rq picks readable"
    and cols: "set (filter_columns (relation_request i window blocks)) \<subseteq> set (field_names tfs)"
    and scan: "scan_relation B (scan_reader ex) i window blocks =
      and_then (co_scan_rows (scan_reader ex) (rl_target relation) (relation_request i window blocks)) (\<lambda>sd. Inr (sd_rows sd))"
    unfolding relation_prepared_def fst_conv by auto
  have columns: "filter_columns ?rq = filter_columns (relation_request i window blocks)" by (simp add: filter_columns_def as_read_fields)
  have req: "rq_required_columns (relation_request i window blocks) = rp_required p" by (simp add: relation_request_def p)
  obtain fd dt where fd: "field_with_name tfs (t_block_number_column (rp_desc p)) = Some fd" "f_type fd = DInt dt"
    using n by (auto simp: numbered_rows_def)
  have checks: "checks_passed X K tfs ?rq"
    using cols required fd
    by (auto simp: checks_passed_def ensure_columns_present_def ensure_predicates_comparable_def try_for_each_Inr_iff columns as_read_fields
        as_read_required req nullable_block_numbers_def p is_integer_iff ensure_def)
  have ok: "request_ok ?rq" by (simp add: request_ok_def as_read_fields)
  have rows: "rq_row_indices ?rq = None" by (simp add: as_read_fields)
  have complete: "complete_blocks tdata bn" if "rq_block_number_column ?rq = Some bn" for bn
    using that numbered_complete [OF n] by (simp add: as_read_fields p)
  have shape: "build_output_schema tfs (rq_output_columns ?rq) \<noteq> []"
    using out as_read_columns [of "relation_request i window blocks" "table_request_new (rp_row_columns p)" ex "rl_target relation"]
    by (simp add: relation_request_def table_request_new_def p)
  from scans [OF h(1, 3) target ok rows checks rel complete shape] obtain sd where "co_scan_rows (ops c) (rl_target relation) ?rq = Inr sd" by blast
  then show ?thesis unfolding scan by (simp add: scan_reader_reads h(2))
qed

lemma scan_table_succeeds:
  assumes h: "holds contents c" "ex_chunk ex = ops c" "serves c" and fits: "table_fits ex contents t window fs data"
    and served: "table_served X K ex contents t window fs"
  shows "\<exists>name output. scan_table B ex t window = Inr (name, output)"
proof -
  let ?table = "tp_table (pt_plan t)" and ?bn = "t_block_number_column (pt_desc t)"
  let ?rq = "as_read ex ?table (table_request_of t window)"
  have source: "contents ?table = Some (fs, data)" and ok: "request_ok (table_request_of t window)" and n: "numbered_rows fs ?bn data"
    using fits by (simp_all add: table_fits_def)
  have rq: "request_ok ?rq" "rq_key_filter ?rq = None" "rq_hierarchical_filter ?rq = None" "rq_row_indices ?rq = None"
    using ok by (simp_all add: request_ok_def as_read_fields)
  have checks: "checks_passed X K fs ?rq" and shape: "build_output_schema fs (rq_output_columns ?rq) \<noteq> []"
    using served by (simp_all add: table_served_def)
  have complete: "complete_blocks data bn" if "rq_block_number_column ?rq = Some bn" for bn
    using that numbered_complete [OF n] by (simp add: as_read_fields)
  from plain_scans [OF h(1, 3) source rq checks complete shape] obtain sd where
    sd: "co_scan_rows (ops c) ?table ?rq = Inr sd" and a: "scanned_answers X B fs ?rq (\<lambda>_. True) data sd" by blast
  have asks: "asks_row X ?rq (\<lambda>_. True) = asked_in X t window" by (rule ext, rule asks_row_in) (simp_all add: as_read_fields)
  have primary: "showing fs (rq_output_columns ?rq) (filter (asked_in X t window) data) (rs_batches (sd_rows sd))"
    using scanned_batches [OF a] by (simp add: showing_def output_types_def asks)
  have typed: "\<forall>row \<in> set (filter (asked_in X t window) data). row_of_schema fs row"
    using rows_typed [OF h(1) source] by (simp add: rows_of_schema_def list_all_iff)
  from showing_numbered [OF primary typed n] obtain blocks where blocks: "compute_block_range (rs_batches (sd_rows sd)) ?bn = Inr blocks"
    by (simp add: compute_block_range_def for_each_visits block_visits_all)
  have "\<exists>relations. scan_relations B (scan_reader ex) t sd window blocks = Inr relations"
  proof -
    have followed: "\<exists>bs. followed_rows B sd items = Inr bs" if items: "items \<in> set (map rl_source_items (tp_relations (pt_plan t)))" for items
    proof (cases items)
      case (Some tag)
      then have "tag \<in> set (rq_item_tags ?rq)" using items
        by (auto simp: as_read_fields set_fold_push_new in_map_filter image_iff intro!: bexI)
      moreover have "distinct (rq_item_tags ?rq)" by (simp add: as_read_fields distinct_fold_push_new)
      ultimately obtain ms where "matched_by B sd tag = Some (Inr ms)" using a unfolding scanned_answers_def by blast
      then show ?thesis by (simp add: followed_rows_def Some)
    qed (simp add: followed_rows_def)
    have "\<forall>items \<in> set (map rl_source_items (tp_relations (pt_plan t))). \<exists>bs. followed_rows B sd items = Inr bs"
      by (rule ballI) (rule followed)
    from built_once_total [OF this] obtain sources where
      built: "built_once_try (map rl_source_items (tp_relations (pt_plan t))) (followed_rows B sd) = Inr sources" ..
    have get: "\<exists>bs. built_once_get sources (rl_source_items relation) = Inr bs" if "relation \<in> set (tp_relations (pt_plan t))" for relation
      using built_once_value [OF built, of "rl_source_items relation"] that by auto
    have "\<forall>(relation, p) \<in> set (pt_relations t). \<exists>left right. pushdown_keys relation (rp_desc p) = Some (left, right) \<and> length left = length right"
    proof (intro ballI, clarify)
      fix relation p assume "(relation, p) \<in> set (pt_relations t)"
      with fits obtain tfs tdata where "sound_relation t fs data (relation, p) tfs tdata" unfolding table_fits_def by fastforce
      from sound_pushdown [OF this]
      show "\<exists>left right. pushdown_keys relation (rp_desc p) = Some (left, right) \<and> length left = length right" .
    qed
    from relation_inputs_total [OF get this] obtain inputs where inputs: "relation_inputs t sources = Inr inputs" by blast
    have "\<exists>rows. scan_relation B (scan_reader ex) (inputs ! i) window blocks = Inr rows"
      if i: "i < length inputs" "\<not> follows_nothing (inputs ! i)" for i
    proof -
      have i': "i < length (pt_relations t)" using i(1) relation_inputs_length [OF inputs] by simp
      obtain relation p where rp: "pt_relations t ! i = (relation, p)" by (cases "pt_relations t ! i")
      have mem: "(relation, p) \<in> set (pt_relations t)" using i' rp by (metis nth_mem)
      have all: "\<forall>name fs data. contents name = Some (fs, data) \<longrightarrow> rows_of_schema fs data" using rows_typed [OF h(1)] by blast
      from inputs_prepared [OF all fits a blocks built inputs i' rp, where R = R] obtain tfs tdata where
        target: "contents (rl_target relation) = Some (tfs, tdata)"
        and ready: "relation_prepared B R ex t (relation, p) tfs tdata (filter (followed_in X t window (rl_source_items relation)) data)
          (inputs ! i) window blocks" and p: "ri_target (inputs ! i) = p" by blast
      have "sound_relation t fs data (relation, p) tfs tdata" using fits mem target unfolding table_fits_def by fastforce
      then have nt: "numbered_rows tfs (t_block_number_column (rp_desc p)) tdata" by (simp add: sound_relation_def)
      have "\<forall>rp \<in> set (pt_relations t). \<forall>tfs tdata. contents (rl_target (fst rp)) = Some (tfs, tdata) \<longrightarrow>
          set (rp_required (snd rp)) \<subseteq> set (field_names tfs) \<and>
          build_output_schema tfs (rq_output_columns (as_read ex (rl_target (fst rp)) (table_request_new (rp_row_columns (snd rp))))) \<noteq> []"
        using served unfolding table_served_def by (elim conjE)
      from bspec [OF this mem] target have "set (rp_required p) \<subseteq> set (field_names tfs) \<and>
          build_output_schema tfs (rq_output_columns (as_read ex (rl_target relation) (table_request_new (rp_row_columns p)))) \<noteq> []"
        by simp
      with prepared_scans [OF h target ready p nt _ _ i(2)] show ?thesis by blast
    qed
    then have "\<exists>relations. try_collect (\<lambda>index. and_then (scan_relation B (scan_reader ex) (inputs ! index) window blocks) (\<lambda>rows. Inr (index, rows)))
        (filter (\<lambda>index. \<not> follows_nothing (inputs ! index)) [0..<length inputs]) = Inr relations"
      by (intro try_collect_ex) fastforce
    with built inputs show ?thesis by (simp add: scan_relations_def)
  qed
  then obtain relations where "scan_relations B (scan_reader ex) t sd window blocks = Inr relations" by blast
  then show ?thesis unfolding scan_table_def Let_def scan_reader_reads h(2) sd using blocks by simp
qed

end

end
