(* ===== verification/Table_Scans.thy ===== *)
theory Table_Scans
  imports Relation_Scans
begin

text \<open>
  What scanning a table and its relations through the columnar reader returns, and that on a chunk that serves
  its reads it does return. The facts are those any reader of the locale \<open>answering_chunk\<close> gives; here they rest
  on its interpretation by the columnar reader.
\<close>

section \<open>A table of traces\<close>

text \<open>Two traces of block 7, the second called by the first, and one of block 8 whose caller is missing.\<close>

definition traces :: batch where
  "traces = \<lparr>b_columns =
     [(''block_number'', AInt Int32 [7, 7, 8] None), (''transaction_index'', AInt UInt16 [0, 0, 0] None),
      (''trace_address'', AList False [0, 0, 1, 2] (AInt Int16 [2, 2] None) None)], b_num_rows = 3\<rparr>"

definition trace_desc :: table_description where
  "trace_desc = sample_transactions
     \<lparr>t_address_column := Some ''trace_address'', t_item_order_keys := [''transaction_index'', ''trace_address'']\<rparr>"

definition trace_key :: "string list" where
  "trace_key = [''block_number'', ''transaction_index'', ''trace_address'']"

definition subtraces :: relation_plan where
  "subtraces = \<lparr>rl_target = ''traces'', rl_kind = PChildren, rl_left_key = trace_key, rl_right_key = trace_key,
     rl_output_columns = [''trace_address''], rl_source_items = None\<rparr>"

definition trace_projection :: resolved_projection where
  "trace_projection = \<lparr>rp_table = ''traces'', rp_desc = trace_desc, rp_names = [''trace_address''], rp_fields = [],
     rp_rendered = [''trace_address''], rp_required = [''trace_address''], rp_weight = \<lparr>rw_fixed = 0, rw_columns = []\<rparr>,
     rp_row_columns = trace_key, rp_size_columns = []\<rparr>"

definition trace_table :: planned_table where
  "trace_table = \<lparr>pt_plan = \<lparr>tp_table = ''traces'', tp_output_columns = [''trace_address''], tp_predicates = [], tp_relations = [subtraces]\<rparr>,
     pt_desc = trace_desc, pt_projection = trace_projection, pt_scan_columns = trace_key, pt_targets = [trace_projection]\<rparr>"

definition trace_chunk :: columnar_chunk where
  "trace_chunk = memory_chunk [''traces'' \<mapsto> traces]"

definition trace_contents :: chunk_contents where
  "trace_contents = memory_contents [''traces'' \<mapsto> traces]"

definition trace_execution :: execution where
  "trace_execution =
     \<lparr>ex_plan = sample_plan,
      ex_chunk = columnar_ops plain_externals plain_kernels plain_row_kernels plain_batch_kernels plain_table_kernels trace_chunk,
      ex_options = \<lparr>eo_weight_budget = 100, eo_range_reads = True\<rparr>, ex_blocks = sample_blocks, ex_header = trace_projection,
      ex_tables = [trace_table], ex_selection = None\<rparr>"

lemma trace_held: "chunk_holds trace_contents trace_chunk" "chunk_serves trace_chunk"
proof -
  have ok: "batch_ok b \<and> distinct (column_names b)" if "[''traces'' \<mapsto> traces] name = Some b" for name b
    using that by (auto simp: traces_def batch_ok_def column_names_def in_range_def nulls_fit_def split: if_splits)
  show "chunk_holds trace_contents trace_chunk" "chunk_serves trace_chunk"
    unfolding trace_contents_def trace_chunk_def by (rule memory_chunk_holds, use ok in blast)+
qed

lemma trace_rows: "batch_rows traces = [row_at traces 0, row_at traces (Suc 0), row_at traces (Suc (Suc 0))]"
  by (simp add: batch_rows_def traces_def upt_rec numeral_3_eq_3)

lemma trace_cells:
  "row_at traces 0 ''block_number'' = Some (CInt Int32 7)" "row_at traces (Suc 0) ''block_number'' = Some (CInt Int32 7)"
  "row_at traces (Suc (Suc 0)) ''block_number'' = Some (CInt Int32 8)"
  "row_at traces 0 ''transaction_index'' = Some (CInt UInt16 0)" "row_at traces (Suc 0) ''transaction_index'' = Some (CInt UInt16 0)"
  "row_at traces (Suc (Suc 0)) ''transaction_index'' = Some (CInt UInt16 0)"
  "row_at traces 0 ''trace_address'' = Some (CList [])" "row_at traces (Suc 0) ''trace_address'' = Some (CList [CInt Int16 2])"
  "row_at traces (Suc (Suc 0)) ''trace_address'' = Some (CList [CInt Int16 2])"
  by (simp_all add: row_at_def column_by_name_def traces_def valid_at_def upt_rec numeral_2_eq_2 numeral_3_eq_3)

lemma trace_schema: "table_schema traces =
    [\<lparr>f_name = ''block_number'', f_type = DInt Int32, f_nullable = False\<rparr>,
     \<lparr>f_name = ''transaction_index'', f_type = DInt UInt16, f_nullable = False\<rparr>,
     \<lparr>f_name = ''trace_address'', f_type = DList False (DInt Int16), f_nullable = False\<rparr>]"
  by (simp add: table_schema_def traces_def valid_at_def upt_rec numeral_2_eq_2 numeral_3_eq_3)

lemma trace_fields: "trace_contents ''traces'' = Some (table_schema traces, batch_rows traces)"
  by (simp add: trace_contents_def memory_contents_def)

lemma trace_parts [simp]:
  "pt_desc trace_table = trace_desc" "tp_table (pt_plan trace_table) = ''traces''" "tp_predicates (pt_plan trace_table) = []"
  "pt_scan_columns trace_table = trace_key" "tp_relations (pt_plan trace_table) = [subtraces]"
  "rp_desc trace_projection = trace_desc" "rp_row_columns trace_projection = trace_key" "rp_required trace_projection = [''trace_address'']"
  "t_block_number_column trace_desc = ''block_number''" "t_address_column trace_desc = Some ''trace_address''"
  "rl_target subtraces = ''traces''" "rl_kind subtraces = PChildren" "rl_left_key subtraces = trace_key" "rl_right_key subtraces = trace_key"
  "rl_source_items subtraces = None"
  by (simp_all add: trace_table_def trace_projection_def trace_desc_def sample_transactions_def subtraces_def)

lemma trace_read [simp]: "as_read trace_execution name rq = rq"
  by (simp add: as_read_def trace_execution_def)

lemma trace_reader: "ex_chunk trace_execution =
    columnar_ops plain_externals plain_kernels plain_row_kernels plain_batch_kernels plain_table_kernels trace_chunk"
  by (simp add: trace_execution_def)

lemma trace_relations: "pt_relations trace_table = [(subtraces, trace_projection)]"
  by (simp add: pt_relations_def trace_table_def)

definition trace_hierarchy :: hierarchical_spec where
  "trace_hierarchy = \<lparr>hs_group_keys = [''block_number'', ''transaction_index''], hs_source_address = ''trace_address'',
     hs_target_address = ''trace_address'', hs_mode = Addresses.Children, hs_inclusive = False\<rparr>"

lemma trace_spec: "hierarchical_spec_of subtraces trace_desc (''traces'', trace_desc) = Some trace_hierarchy"
  by (simp add: hierarchical_spec_of_def trace_hierarchy_def group_keys_for_relation_def trace_key_def unwrap_or_def)

lemma trace_keyed:
  "keyed_table [IntKey, IntKey] [''block_number'', ''transaction_index''] (table_schema traces) (batch_rows traces)"
  "keyed_table [PathKey] [''trace_address''] (table_schema traces) (batch_rows traces)"
  by (simp_all add: keyed_table_def trace_rows trace_schema trace_cells solid_row_def Relation_Rows.row_key_def field_with_name_def field_names_def)

lemma trace_numbered: "numbered_rows (table_schema traces) ''block_number'' (batch_rows traces)"
  by (simp add: numbered_rows_def trace_rows trace_cells trace_schema field_with_name_def field_names_def)

lemma trace_sound: "sound_relation trace_table (table_schema traces) (batch_rows traces) (subtraces, trace_projection)
    (table_schema traces) (batch_rows traces)"
proof -
  have "small_rows [''trace_address'', ''block_number'', ''transaction_index''] (batch_rows traces)"
    by (simp add: small_rows_def trace_rows row_path_def trace_cells)
  moreover have "group_keys_for_relation trace_key (Some ''trace_address'') = [''block_number'', ''transaction_index'']"
    by (simp add: group_keys_for_relation_def trace_key_def)
  ultimately have "sound_hierarchy trace_table (table_schema traces) (batch_rows traces) (subtraces, trace_projection)
      (table_schema traces) (batch_rows traces)"
    unfolding sound_hierarchy_def prod.case
    by (intro exI [of _ "[IntKey, IntKey]"] exI [of _ "[''transaction_index'']"] exI [of _ trace_hierarchy])
      (simp add: trace_spec trace_keyed scan_key_def, simp add: trace_hierarchy_def trace_keyed)
  then show ?thesis using trace_numbered by (simp add: sound_relation_def)
qed

lemma trace_fits: "table_fits trace_execution trace_contents trace_table window (table_schema traces) (batch_rows traces)"
proof -
  have "request_ok (table_request_of trace_table window)" by (simp add: request_ok_def)
  moreover have "set (relation_columns trace_table (subtraces, trace_projection)) \<subseteq> set trace_key"
    by (simp add: relation_columns_def trace_spec) (simp add: trace_key_def trace_hierarchy_def)
  ultimately show ?thesis
    using trace_sound trace_numbered by (simp add: table_fits_def trace_fields trace_relations)
qed

lemma trace_served: "table_served plain_externals plain_kernels trace_execution trace_contents trace_table window (table_schema traces)"
proof -
  have required: "rq_required_columns (table_request_of trace_table window) = [''trace_address'']"
    by (simp add: table_request_of_def table_request_new_def trace_table_def trace_projection_def)
  have "checks_passed plain_externals plain_kernels (table_schema traces) (table_request_of trace_table window)"
    by (simp add: checks_passed_def ensure_columns_present_def ensure_predicates_comparable_def try_for_each_Inr_iff nullable_block_numbers_def
        filter_columns_def required trace_schema field_with_name_def field_names_def is_integer_iff)
  moreover have "build_output_schema (table_schema traces) trace_key \<noteq> []"
    by (simp add: build_output_schema_def List.map_filter_def trace_key_def trace_schema field_with_name_def field_names_def)
  moreover have "''trace_address'' \<in> set (column_names traces)" by (simp add: column_names_def traces_def)
  ultimately show ?thesis by (simp add: table_served_def trace_relations trace_fields table_request_new_def)
qed


lemma trace_followed: "filter (followed_in X trace_table (Some 7, Some 8) None) (batch_rows traces) = batch_rows traces"
  by (simp add: followed_in_def asked_in_def in_blocks_def within_bounds_def trace_rows trace_cells unsigned_bits_def)

lemma trace_related: "related_row trace_table (subtraces, trace_projection) (batch_rows traces) (row_at traces i) \<longleftrightarrow> i = Suc 0"
  if "i \<in> {0, Suc 0, Suc (Suc 0)}"
  using that
  by (auto simp: related_row_def trace_spec trace_hierarchy_def relative_among_def trace_rows Relation_Rows.row_key_def row_path_def trace_cells
      mode_relation_def child_path_def stored_key_def)

lemma trace_places: "[0..<length (batch_rows traces)] = [0, Suc 0, Suc (Suc 0)]"
    "batch_rows traces ! 0 = row_at traces 0" "batch_rows traces ! Suc 0 = row_at traces (Suc 0)"
    "batch_rows traces ! Suc (Suc 0) = row_at traces (Suc (Suc 0))"
  unfolding trace_rows by (simp_all add: upt_rec)

lemma trace_asked: "asked_in X trace_table (Some 7, Some 8) (row_at traces i)" if "i \<in> {0, Suc 0, Suc (Suc 0)}"
  using that by (auto simp: asked_in_def in_blocks_def within_bounds_def trace_cells unsigned_bits_def)

lemma trace_view: "row_view (table_request_new trace_key) data i = (only trace_key (data ! i), None)"
  by (simp add: row_view_def table_request_new_def)

lemma trace_scanned: "\<exists>output. scan_table plain_batch_kernels trace_execution trace_table window = Inr (''traces'', output)"
proof -
  have h: "kernels_ok plain_kernels \<and> batch_kernels_ok plain_batch_kernels \<and> table_kernels_ok plain_table_kernels \<and>
      chunk_holds trace_contents trace_chunk"
    using trace_held by simp
  from serving.scan_table_succeeds [OF h trace_reader trace_held(2) trace_fits trace_served] obtain name out where
    s: "scan_table plain_batch_kernels trace_execution trace_table window = Inr (name, out)" by blast
  from columnar_chunk.scan_table_shows(1) [OF h trace_reader trace_fits s] s show ?thesis by auto
qed

definition table_name :: "planned_table \<Rightarrow> string" where
  "table_name t = tp_table (pt_plan t)"

lemma omap_insert_new: "k \<notin> set (keys m) \<Longrightarrow> omap_insert k v m = m @ [(k, v)]"
proof (induction m)
  case Nil
  then show ?case by (simp add: omap_insert_def)
next
  case (Cons e m)
  then show ?case by (cases e) (auto simp: omap_insert_def keys_def)
qed

lemma inserted_in_order: "distinct (map fst xs) \<Longrightarrow> set (map fst xs) \<inter> set (keys m) = {} \<Longrightarrow>
    fold (\<lambda>(k, v). omap_insert k v) xs m = m @ xs"
proof (induction xs arbitrary: m)
  case (Cons x xs)
  obtain k v where x: "x = (k, v)" by (cases x)
  with Cons.prems have "omap_insert k v m = m @ [(k, v)]" by (intro omap_insert_new) auto
  with Cons x show ?case by (auto simp: keys_def)
qed simp

text \<open>The outputs of the tables, in the order of the plan.\<close>

lemma scan_tables_outputs:
  assumes "\<forall>t \<in> set (ex_tables ex). \<exists>out. scan_table B ex t (Some from_block, to_block) = Inr (table_name t, out)"
    and "distinct (map table_name (ex_tables ex))"
  shows "\<exists>outputs. scan_tables B ex from_block to_block = Inr outputs \<and> keys outputs = map table_name (ex_tables ex) \<and>
    (\<forall>t \<in> set (ex_tables ex). \<exists>out. map_of outputs (table_name t) = Some out \<and>
      scan_table B ex t (Some from_block, to_block) = Inr (table_name t, out))"
proof -
  from assms(1) obtain g where g: "\<forall>t \<in> set (ex_tables ex). scan_table B ex t (Some from_block, to_block) = Inr (table_name t, g t)" by metis
  let ?outputs = "map (\<lambda>t. (table_name t, g t)) (ex_tables ex)"
  have scanned: "try_collect (\<lambda>t. scan_table B ex t (Some from_block, to_block)) (ex_tables ex) = Inr ?outputs"
    by (rule try_collect_total) (use g in blast)
  have names: "map fst ?outputs = map table_name (ex_tables ex)" by simp
  have "fold (\<lambda>(name, out). omap_insert name out) ?outputs [] = ?outputs"
    using inserted_in_order [of ?outputs "[]"] assms(2) by (simp add: comp_def keys_def)
  then have s: "scan_tables B ex from_block to_block = Inr ?outputs" by (simp add: scan_tables_def scanned)
  have "map_of ?outputs (table_name t) = Some (g t)" if "t \<in> set (ex_tables ex)" for t
    using that assms(2) by (intro map_of_is_SomeI) (auto simp: comp_def)
  with g have "\<forall>t \<in> set (ex_tables ex). \<exists>out. map_of ?outputs (table_name t) = Some out \<and>
      scan_table B ex t (Some from_block, to_block) = Inr (table_name t, out)" by simp
  with s show ?thesis by (intro exI [of _ ?outputs]) (simp add: keys_def)
qed

section \<open>Relations joined after the scan\<close>

text \<open>
  A relation that no key and no address narrows is joined after its target's scan. The key of every relation of an
  accepted catalog starts with the block number (\<open>validate_relations\<close>), so this is the branch of relations that
  group by no column; its rows are shown to be those of the scan with a partner, or a relative, among the followed rows.
\<close>

definition related_after :: "relation_input \<Rightarrow> row \<Rightarrow> bool" where
  "related_after i row =
     (if is_join (ri_relation i)
      then row_partner (ri_source i) (rl_left_key (ri_relation i)) (rl_right_key (ri_relation i)) row
      else
        (case ri_hierarchy i of
           None \<Rightarrow> False
         | Some spec \<Rightarrow> row_relative (mode_relation (hs_mode spec) (hs_inclusive spec)) (ri_source i) (hs_source_address spec)
             (hs_group_keys spec) (hs_target_address spec) row))"

definition joins_after :: "relation_input \<Rightarrow> batch list \<Rightarrow> bool" where
  "joins_after i targets =
     (if is_join (ri_relation i)
      then ri_key_filter i = None \<and>
        (\<exists>kinds. list_all (joinable kinds (rl_left_key (ri_relation i))) (ri_source i) \<and>
          list_all (\<lambda>b. joinable kinds (rl_right_key (ri_relation i)) b \<and> solid (rl_right_key (ri_relation i)) b) targets)
      else ri_hierarchical_filter i = None \<and>
        (case ri_hierarchy i of
           None \<Rightarrow> True
         | Some spec \<Rightarrow> list_all (addressed (hs_group_keys spec) (hs_source_address spec)) (ri_source i) \<and>
             list_all (\<lambda>b. addressed (hs_group_keys spec) (hs_target_address spec) b \<and>
               solid (hs_group_keys spec @ [hs_target_address spec]) b) targets))"

definition row_mask :: "(row \<Rightarrow> bool) \<Rightarrow> batch \<Rightarrow> mask" where
  "row_mask p b = map (\<lambda>i. Some (p (row_at b i))) [0..<b_num_rows b]"

lemma rows_filter_rows:
  assumes B: "batch_kernels_ok B" and r: "rows_ok r"
  shows "\<exists>r'. rows_filter B (\<lambda>index _. ok_or Panic (get (map (row_mask p) (rs_batches r)) index)) r = Inr r' \<and> rows_ok r' \<and>
    rows_view r' = filter (\<lambda>(row, _). p row) (rows_view r)"
proof -
  let ?ms = "map (row_mask p) (rs_batches r)"
  have m: "masks_for (\<lambda>index _. ok_or Panic (get ?ms index)) r ?ms"
    by (auto simp: masks_for_def masks_aligned_def list_all_length row_mask_def nth_enumerate_eq get_def)
  have "concat ?ms = map (\<lambda>row. Some (p row)) (concat (map batch_rows (rs_batches r)))"
    by (simp add: row_mask_def [abs_def] batch_rows_def [abs_def] map_concat comp_def)
  also have "\<dots> = map (\<lambda>x. Some (p (fst x))) (rows_view r)" by (simp flip: rows_view_rows [OF r] add: comp_def)
  finally have "select (concat ?ms) (rows_view r) = filter (\<lambda>x. p (fst x)) (rows_view r)"
    using select_partners [of "\<lambda>x. p (fst x)" "rows_view r" id] by simp
  with rows_filter_view [OF B r m] show ?thesis by (simp add: case_prod_beta')
qed

lemma partner_mask_rows:
  assumes "joinable kinds right b" and "solid right b"
  shows "partner_mask sources left right b = row_mask (row_partner sources left right) b"
  unfolding partner_mask_def row_mask_def by (rule map_cong) (simp_all add: row_partner_of [OF assms])

lemma relative_mask_rows:
  assumes a: "addressed grouping target_column b" and s: "solid (grouping @ [target_column]) b"
  shows "relative_mask related sources source_column grouping target_column b =
    row_mask (row_relative related sources source_column grouping target_column) b"
proof -
  have g: "solid grouping b" using s by (auto simp: solid_def solid_row_def)
  note key = row_key_of [OF group_joinable [OF a] g]
  have "Option.bind (column_by_name b target_column) key_kind_of \<noteq> None"
    using a by (auto simp: addressed_def split: option.splits elim!: index_path.elims)
  from row_value_of [OF this s] have "row_path (row_at b i) target_column = path_of b target_column i" if "i < b_num_rows b" for i
    using that by (simp add: row_path_def path_of_def)
  with key show ?thesis
    unfolding relative_mask_def row_mask_def by (intro map_cong) (simp_all add: relative_of_def row_relative_def)
qed

lemma row_masks_cong: "\<forall>b \<in> set bs. f b = row_mask p b \<Longrightarrow> map f bs = map (row_mask p) bs"
  by simp

lemma relation_joined_after_scan:
  assumes B: "batch_kernels_ok B" and scan: "co_scan_rows C (rl_target (ri_relation i)) (relation_request i window blocks) = Inr sd"
    and r: "rows_ok (sd_rows sd)" and j: "joins_after i (rs_batches (sd_rows sd))"
  shows "\<exists>rows. scan_relation B C i window blocks = Inr rows \<and> rows_ok rows \<and>
    rows_view rows = filter (\<lambda>(row, _). related_after i row) (rows_view (sd_rows sd))"
proof -
  let ?bs = "rs_batches (sd_rows sd)" and ?relation = "ri_relation i"
  note kept = rows_filter_rows [OF B r]
  show ?thesis
  proof (cases "is_join ?relation")
    case True
    with j obtain kinds where k: "list_all (joinable kinds (rl_left_key ?relation)) (ri_source i)"
      "list_all (joinable kinds (rl_right_key ?relation)) ?bs" "\<forall>b \<in> set ?bs. joinable kinds (rl_right_key ?relation) b \<and> solid (rl_right_key ?relation) b"
      by (auto simp: joins_after_def list_all_iff)
    have "lookup_join_masks (ri_source i) (rl_left_key ?relation) ?bs (rl_right_key ?relation) = Inr (map (row_mask (related_after i)) ?bs)"
      unfolding lookup_join_masks_def semi_join_masks_value [OF k(1, 2)]
      by (rule arg_cong [of _ _ Inr], rule row_masks_cong)
        (use True k(3) partner_mask_rows in \<open>auto simp: related_after_def [abs_def]\<close>)
    with True j kept [of "related_after i"] scan show ?thesis by (simp add: scan_relation_def joins_after_def Let_def)
  next
    case False
    show ?thesis
    proof (cases "ri_hierarchy i")
      case None
      with False j scan show ?thesis
        by (auto simp: scan_relation_def joins_after_def related_after_def no_rows_def rows_ok_def rows_view_def rows_parts_def)
    next
      case (Some spec)
      let ?g = "hs_group_keys spec" and ?sa = "hs_source_address spec" and ?ta = "hs_target_address spec"
      have k: "list_all (addressed ?g ?sa) (ri_source i)" "list_all (addressed ?g ?ta) ?bs"
        "\<forall>b \<in> set ?bs. addressed ?g ?ta b \<and> solid (?g @ [?ta]) b"
        using False Some j by (auto simp: joins_after_def list_all_iff)
      have m: "map (relative_mask (mode_relation (hs_mode spec) (hs_inclusive spec)) (ri_source i) ?sa ?g ?ta) ?bs =
          map (row_mask (related_after i)) ?bs"
        by (rule row_masks_cong) (use False Some k(3) relative_mask_rows in \<open>auto simp: related_after_def [abs_def]\<close>)
      have "(case hs_mode spec of Addresses.Children \<Rightarrow> children_masks | Addresses.Parents \<Rightarrow> parents_masks)
          (ri_source i) ?bs ?g ?sa ?ta (hs_inclusive spec) = Inr (map (row_mask (related_after i)) ?bs)"
        using children_masks_value [OF k(1, 2)] parents_masks_value [OF k(1, 2)] m
        by (cases "hs_mode spec") (simp_all add: mode_relation_def)
      with False Some j kept [of "related_after i"] scan show ?thesis by (simp add: scan_relation_def joins_after_def Let_def)
    qed
  qed
qed

section \<open>Properties\<close>

text \<open>
  C10: Scanning a table in a window of blocks returns exactly its rows of the window that one of its items asks for, and
  for each of its relations exactly the target's rows that have a partner, an ancestor or a descendant among the rows the
  relation follows: those its own items matched. The relations are those of an accepted catalog, whose keys start with
  the block number (\<open>sound_relation\<close>), so each is answered by its target's scan: the block range of the rows, the key
  set and the address index the scan is narrowed by lose no related row and let no other through, and a target that is
  never opened held none.
\<close>

theorem table_scan_relates:
  assumes "kernels_ok K" and "batch_kernels_ok B" and "table_kernels_ok T" and "chunk_holds contents chunk"
    and "ex_chunk ex = columnar_ops X K R B T chunk" and "table_fits ex contents t window fs data"
    and "scan_table B ex t window = Inr (name, output)"
  shows "name = tp_table (pt_plan t) \<and>
    shows_filtered ex name (table_request_new (pt_scan_columns t)) data (asked_in X t window) (to_rows output) \<and>
    (\<forall>i < length (pt_relations t).
      relation_shown X ex contents t window data (pt_relations t ! i) (unwrap_or no_rows (map_of (to_relations output) i)))"
proof -
  have h: "kernels_ok K \<and> batch_kernels_ok B \<and> table_kernels_ok T \<and> chunk_holds contents chunk" using assms(1-4) by blast
  from columnar_chunk.scan_table_shows [OF h assms(5-7)] show ?thesis by blast
qed

theorem table_scan_relates_witness:
  "\<exists>output. scan_table plain_batch_kernels trace_execution trace_table (Some 7, Some 8) = Inr (''traces'', output) \<and>
    rows_view (to_rows output) = map (\<lambda>i. (only trace_key (row_at traces i), None)) [0, Suc 0, Suc (Suc 0)] \<and>
    rows_view (unwrap_or no_rows (map_of (to_relations output) 0)) = [(only trace_key (row_at traces (Suc 0)), None)]"
proof -
  from trace_scanned obtain out where s: "scan_table plain_batch_kernels trace_execution trace_table (Some 7, Some 8) = Inr (''traces'', out)" ..
  note r = table_scan_relates [OF _ _ _ trace_held(1) trace_reader trace_fits s]
  have "shows_filtered trace_execution ''traces'' (table_request_new trace_key) (batch_rows traces) (asked_in plain_externals trace_table (Some 7, Some 8))
      (to_rows out)"
    "relation_shown plain_externals trace_execution trace_contents trace_table (Some 7, Some 8) (batch_rows traces) (subtraces, trace_projection)
      (unwrap_or no_rows (map_of (to_relations out) 0))"
    using r by (simp_all add: trace_relations)
  then have "shows_filtered trace_execution ''traces'' (table_request_new trace_key) (batch_rows traces)
      (asked_in plain_externals trace_table (Some 7, Some 8)) (to_rows out)"
    "shows_filtered trace_execution ''traces'' (table_request_new trace_key) (batch_rows traces)
      (related_row trace_table (subtraces, trace_projection) (batch_rows traces)) (unwrap_or no_rows (map_of (to_relations out) 0))"
    by (auto simp: relation_shown_def trace_fields trace_followed)
  then have "rows_view (to_rows out) = map (\<lambda>i. (only trace_key (row_at traces i), None)) [0, Suc 0, Suc (Suc 0)]"
    "rows_view (unwrap_or no_rows (map_of (to_relations out) 0)) = [(only trace_key (row_at traces (Suc 0)), None)]"
    unfolding shows_filtered_def trace_read trace_places by (simp_all add: trace_places trace_asked trace_related trace_view)
  with s show ?thesis by blast
qed


text \<open>
  C11: On a chunk that serves its reads, reading a range of blocks succeeds: every planned table gets its output, in the
  order of the plan, whatever its relations follow, provided the stored columns pass the checks made before any row.
\<close>

theorem table_scans_succeed:
  assumes "kernels_ok K" and "batch_kernels_ok B" and "table_kernels_ok T" and "chunk_holds contents chunk" and "chunk_serves chunk"
    and "ex_chunk ex = columnar_ops X K R B T chunk" and "distinct (map table_name (ex_tables ex))"
    and "\<forall>t \<in> set (ex_tables ex). \<exists>fs data. table_fits ex contents t (Some from_block, to_block) fs data \<and>
      table_served X K ex contents t (Some from_block, to_block) fs"
  shows "\<exists>outputs. scan_tables B ex from_block to_block = Inr outputs \<and> keys outputs = map table_name (ex_tables ex) \<and>
    (\<forall>t \<in> set (ex_tables ex). \<exists>out. map_of outputs (table_name t) = Some out \<and>
      scan_table B ex t (Some from_block, to_block) = Inr (table_name t, out))"
proof (rule scan_tables_outputs [OF _ assms(7)], rule ballI)
  fix t assume t: "t \<in> set (ex_tables ex)"
  have h: "kernels_ok K \<and> batch_kernels_ok B \<and> table_kernels_ok T \<and> chunk_holds contents chunk" using assms(1-4) by blast
  from bspec [OF assms(8) t] obtain fs data where f: "table_fits ex contents t (Some from_block, to_block) fs data"
    "table_served X K ex contents t (Some from_block, to_block) fs" by blast
  from serving.scan_table_succeeds [OF h assms(6, 5) f] obtain name out where
    s: "scan_table B ex t (Some from_block, to_block) = Inr (name, out)" by blast
  from columnar_chunk.scan_table_shows(1) [OF h assms(6) f(1) s] s
  show "\<exists>out. scan_table B ex t (Some from_block, to_block) = Inr (table_name t, out)" by (simp add: table_name_def)
qed

theorem table_scans_succeed_witness:
  "\<exists>out. scan_tables plain_batch_kernels trace_execution 7 (Some 8) = Inr [(''traces'', out)]"
proof -
  have t: "ex_tables trace_execution = [trace_table]" "table_name trace_table = ''traces''" by (simp_all add: trace_execution_def table_name_def)
  have "\<forall>t \<in> set (ex_tables trace_execution). \<exists>fs data. table_fits trace_execution trace_contents t (Some 7, Some 8) fs data \<and>
      table_served plain_externals plain_kernels trace_execution trace_contents t (Some 7, Some 8) fs"
    using trace_fits trace_served by (simp add: t) blast
  from table_scans_succeed [OF _ _ _ trace_held trace_reader _ this] obtain outputs where
    o: "scan_tables plain_batch_kernels trace_execution 7 (Some 8) = Inr outputs" "keys outputs = [''traces'']" by (auto simp: t)
  then show ?thesis by (auto simp: keys_def map_eq_Cons_conv)
qed

end
