(* ===== verification/Page.thy ===== *)
theory Page
  imports Table_Scans
begin

text \<open>
  Page selection (\<^verbatim>\<open>src/execution/page.rs\<close>, with what \<^verbatim>\<open>src/execution/materialize.rs\<close> keeps of a range):
  complete block ranges are read from the start of the request and their blocks weighed until the budget is
  spent or the request ends. The loop is shown to end, each next range to start past the end of the one before
  it, and its result to be what a range reached from the start leaves.
\<close>

section \<open>Rows of some blocks\<close>

definition blocks_mask :: "batch \<Rightarrow> string \<Rightarrow> (nat \<Rightarrow> bool) \<Rightarrow> engine_error + mask" where
  "blocks_mask b bn keep =
     (case column_by_name b bn of
        None \<Rightarrow> Inr (replicate (b_num_rows b) (Some True))
      | Some a \<Rightarrow>
          and_then (block_numbers_resolve a) (\<lambda>blocks.
          Inr (map (\<lambda>i. Some (keep (block_number blocks i))) [0..<int_len blocks])))"

definition filter_to_blocks :: "batch_kernels \<Rightarrow> string \<Rightarrow> (nat \<Rightarrow> bool) \<Rightarrow> batch \<Rightarrow> engine_error + batch" where
  "filter_to_blocks B bn keep b =
     (if column_by_name b bn = None then Inr b
      else and_then (blocks_mask b bn keep) (bk_filter B b))"

definition retain_blocks :: "batch_kernels \<Rightarrow> string \<Rightarrow> nat list \<Rightarrow> rows \<Rightarrow> engine_error + rows" where
  "retain_blocks B bn chosen =
     rows_filter B (\<lambda>_ b. blocks_mask b bn (\<lambda>block. binary_search chosen block \<noteq> None))"

definition retain_identity :: "batch_kernels \<Rightarrow> table_description \<Rightarrow> nat list \<Rightarrow> rows \<Rightarrow> engine_error + rows" where
  "retain_identity B desc chosen rows =
     and_then (retain_blocks B (t_block_number_column desc) chosen rows) (rows_project B (row_key desc))"

definition retain_output :: "batch_kernels \<Rightarrow> nat list \<Rightarrow> planned_table \<Rightarrow> table_output \<Rightarrow> engine_error + table_output" where
  "retain_output B chosen t output =
     and_then (retain_identity B (pt_desc t) chosen (to_rows output)) (\<lambda>rows.
     and_then (try_collect (\<lambda>(index, related).
         and_then (ok_or Panic (get (pt_targets t) index)) (\<lambda>target.
         and_then (retain_identity B (rp_desc target) chosen related) (\<lambda>related. Inr (index, related)))) (to_relations output)) (\<lambda>relations.
     Inr \<lparr>to_rows = rows, to_relations = relations\<rparr>))"

definition retain_selected_keys ::
    "batch_kernels \<Rightarrow> planned_table list \<Rightarrow> nat list \<Rightarrow> outputs \<Rightarrow> engine_error + outputs" where
  "retain_selected_keys B tables chosen =
     try_fold (\<lambda>t outputs.
         case map_of outputs (tp_table (pt_plan t)) of
           None \<Rightarrow> Inr outputs
         | Some output \<Rightarrow>
             and_then (retain_output B chosen t output) (\<lambda>output. Inr (omap_insert (tp_table (pt_plan t)) output outputs)))
       tables"


section \<open>Ranges\<close>

definition read_headers :: "execution \<Rightarrow> engine_error + rows" where
  "read_headers ex =
     and_then (co_scan_rows (scan_reader ex) (pl_block_table (ex_plan ex))
       ((table_request_new (rp_row_columns (ex_header ex)))
         \<lparr>rq_from_block := Some (pl_from_block (ex_plan ex)), rq_to_block := pl_to_block (ex_plan ex),
          rq_block_number_column := Some (t_block_number_column (ex_blocks ex)),
          rq_required_columns := rp_required (ex_header ex)\<rparr>)) (\<lambda>sd. Inr (sd_rows sd))"

definition headers_budget_holds :: "nat \<Rightarrow> nat \<Rightarrow> nat \<Rightarrow> nat" where
  "headers_budget_holds budget weight headers_read =
     (if weight = 0 then u64_max
      else min u64_max (((budget - weight) * headers_read + weight - 1) div weight))"

definition unfiltered_span :: nat where "unfiltered_span = 16"

definition selective_span :: nat where "selective_span = 1024"

definition selection_span :: "execution \<Rightarrow> block_selection \<Rightarrow> nat \<Rightarrow> nat \<Rightarrow> nat option" where
  "selection_span ex selection headers_read headers_left =
     (if ex_selection ex = None then None
      else
        let unfiltered = list_ex (\<lambda>t. list_ex matches_every_row (tp_predicates t)) (pl_table_plans (ex_plan ex));
            holds = headers_budget_holds (eo_weight_budget (ex_options ex)) (sel_cumulative selection) headers_read
        in if unfiltered \<and> headers_read = 0 then Some unfiltered_span
           else if unfiltered \<and> holds \<le> selective_span then Some (max holds unfiltered_span)
           else if headers_left > selective_span \<and> selection_fits ex then None
           else Some selective_span)"

text \<open>The tables a range reads, each with its catalog entry; the largest hint decides, and a missing one none.\<close>

definition range_tables :: "execution \<Rightarrow> (string, table_description) omap" where
  "range_tables ex =
     fold (\<lambda>t tables. fold (\<lambda>(relation, target). omap_insert (rl_target relation) (rp_desc target)) (pt_relations t)
         (omap_insert (tp_table (pt_plan t)) (pt_desc t) tables)) (ex_tables ex) []"

fun largest_hint :: "nat option \<Rightarrow> nat option list \<Rightarrow> nat option" where
  "largest_hint end [] = end"
| "largest_hint end (None # hints) = None"
| "largest_hint end (Some hint # hints) =
     largest_hint (Some (case end of None \<Rightarrow> hint | Some e \<Rightarrow> max e hint)) hints"

definition next_range_end :: "execution \<Rightarrow> nat \<Rightarrow> nat option" where
  "next_range_end ex from_block =
     largest_hint None
       (map (\<lambda>(name, desc). co_next_range_end (ex_chunk ex) name (t_block_number_column desc) from_block) (range_tables ex))"

definition initial_range_end :: "execution \<Rightarrow> engine_error + nat option" where
  "initial_range_end ex =
     (let p = ex_plan ex in
      case prescanned_table ex of
        None \<Rightarrow> Inr (next_range_end ex (pl_from_block p))
      | Some t \<Rightarrow>
          and_then (chunk_scan (ex_chunk ex) (tp_table (pt_plan t))
            ((table_request_new (rp_size_columns (pt_projection t)))
              \<lparr>rq_predicates := tp_predicates (pt_plan t), rq_from_block := Some (pl_from_block p),
               rq_to_block := pl_to_block p, rq_block_number_column := Some (t_block_number_column (pt_desc t))\<rparr>)) (\<lambda>bs.
          Inr (weight_range_end bs (pt_projection t) (eo_weight_budget (ex_options ex)))))"

definition span_end :: "nat list \<Rightarrow> nat \<Rightarrow> nat option \<Rightarrow> nat option \<Rightarrow> nat option" where
  "span_end header_numbers first blocks_per_selection hint =
     (case blocks_per_selection of
        None \<Rightarrow> hint
      | Some n \<Rightarrow>
          (case get header_numbers (first + n - 1) of
             None \<Rightarrow> hint
           | Some e \<Rightarrow> Some (case hint of None \<Rightarrow> e | Some h \<Rightarrow> min h e)))"

text \<open>Where a range ends, from the hint that is left once those past the end of the request are dropped.\<close>

definition range_bounds :: "execution \<Rightarrow> nat \<Rightarrow> nat option \<Rightarrow> nat option \<Rightarrow> nat option \<times> bool" where
  "range_bounds ex from_block request_end hint =
     (let hint = (case hint of None \<Rightarrow> None
            | Some e \<Rightarrow> if (case request_end of None \<Rightarrow> True | Some last_block \<Rightarrow> e < last_block) then Some e else None);
          to_block = (case (hint, request_end) of
              (Some h, Some e) \<Rightarrow> Some (min (max h from_block) e)
            | (Some h, None) \<Rightarrow> Some (max h from_block)
            | (None, _) \<Rightarrow> pl_to_block (ex_plan ex))
      in (to_block, hint = None \<or> to_block = request_end))"

definition range_end ::
    "execution \<Rightarrow> block_selection \<Rightarrow> nat \<Rightarrow> bool \<Rightarrow> nat list \<Rightarrow> nat option \<Rightarrow> engine_error + nat option \<times> bool" where
  "range_end ex selection from_block first_range header_numbers request_end =
     and_then (if eo_range_reads (ex_options ex)
         then if first_range then initial_range_end ex else Inr (next_range_end ex from_block)
         else Inr None) (\<lambda>hint.
     let first = partition_point (\<lambda>block. block < from_block) header_numbers;
         headers_left = length header_numbers - first
     in Inr (range_bounds ex from_block request_end
          (span_end header_numbers first (selection_span ex selection first headers_left) hint)))"


section \<open>The blocks of a range\<close>

definition table_blocks :: "table_output \<Rightarrow> planned_table \<Rightarrow> nat list \<Rightarrow> engine_error + nat list" where
  "table_blocks output t numbers =
     and_then (collect_block_numbers (rs_batches (to_rows output)) (t_block_number_column (pt_desc t)) numbers)
       (try_fold (\<lambda>(relation, rows) numbers.
           and_then (ok_or Panic (get (pt_targets t) relation)) (\<lambda>target.
           collect_block_numbers (rs_batches rows) (t_block_number_column (rp_desc target)) numbers)) (to_relations output))"

definition range_blocks ::
    "execution \<Rightarrow> outputs \<Rightarrow> batch list \<Rightarrow> nat list \<Rightarrow> (nat \<Rightarrow> bool) \<Rightarrow> engine_error + nat list" where
  "range_blocks ex outputs headers boundary_blocks inside =
     and_then (try_fold (\<lambda>t numbers.
         case map_of outputs (tp_table (pt_plan t)) of
           None \<Rightarrow> Inr numbers
         | Some output \<Rightarrow> table_blocks output t numbers) (ex_tables ex) []) (\<lambda>numbers.
     and_then (if pl_include_all_blocks (ex_plan ex)
         then collect_block_numbers headers (t_block_number_column (ex_blocks ex)) numbers
         else Inr (fold push_new (filter inside boundary_blocks) numbers)) (\<lambda>numbers.
     Inr (sort numbers)))"

definition weighed_sources :: "execution \<Rightarrow> outputs \<Rightarrow> weighed_rows list" where
  "weighed_sources ex outputs =
     concat (map (\<lambda>t.
         case map_of outputs (tp_table (pt_plan t)) of
           None \<Rightarrow> []
         | Some output \<Rightarrow>
             \<lparr>wr_projection = pt_projection t, wr_rows = to_rows output\<rparr> #
             map (\<lambda>(index, target). \<lparr>wr_projection = target,
                 wr_rows = unwrap_or no_rows (map_of (to_relations output) index)\<rparr>) (enumerate 0 (pt_targets t))) (ex_tables ex))"


section \<open>The loop\<close>

text \<open>What the ranges read so far left: the rows kept of them, the selection, and where the next one starts.\<close>

record page_state =
  ps_tables :: outputs
  ps_selection :: block_selection
  ps_from_block :: nat
  ps_first_range :: bool

record page_input =
  pi_headers :: rows
  pi_boundary :: "nat list"
  pi_header_numbers :: "nat list"
  pi_request_end :: "nat option"

definition append_output :: "string \<times> table_output \<Rightarrow> outputs \<Rightarrow> engine_error + outputs" where
  "append_output = (\<lambda>(name, output) tables.
     let accumulated = unwrap_or \<lparr>to_rows = no_rows, to_relations = []\<rparr> (map_of tables name) in
     and_then (rows_append (to_rows accumulated) (to_rows output)) (\<lambda>rows.
     and_then (try_fold (\<lambda>(relation, related) relations.
         and_then (rows_append (unwrap_or no_rows (map_of relations relation)) related) (\<lambda>related.
         Inr (omap_insert relation related relations))) (to_relations output) (to_relations accumulated)) (\<lambda>relations.
     Inr (omap_insert name \<lparr>to_rows = rows, to_relations = relations\<rparr> tables))))"

definition in_block_range :: "nat \<Rightarrow> nat option \<Rightarrow> nat \<Rightarrow> bool" where
  "in_block_range from_block to_block block =
     (from_block \<le> block \<and> (case to_block of None \<Rightarrow> True | Some e \<Rightarrow> block \<le> e))"

text \<open>One range: whether the budget is exhausted, whether it was the last, where it ended, and what it left.\<close>

definition read_range ::
    "slice_eq \<Rightarrow> batch_kernels \<Rightarrow> execution \<Rightarrow> page_input \<Rightarrow> page_state
     \<Rightarrow> engine_error + (bool \<times> bool \<times> nat option) \<times> page_state" where
  "read_range E B ex input s =
     (let bn = t_block_number_column (ex_blocks ex); from_block = ps_from_block s in
      and_then (range_end ex (ps_selection s) from_block (ps_first_range s) (pi_header_numbers input) (pi_request_end input))
        (\<lambda>(to_block, last_range).
      and_then (scan_tables B ex from_block to_block) (\<lambda>outputs.
      and_then (if ps_first_range s \<and> last_range then Inr (rs_batches (pi_headers input))
          else try_collect (filter_to_blocks B bn (in_block_range from_block to_block)) (rs_batches (pi_headers input))) (\<lambda>headers.
      and_then (range_blocks ex outputs headers (pi_boundary input) (in_block_range from_block to_block)) (\<lambda>blocks.
      and_then (if blocks = [] then Inr (False, ps_selection s)
          else and_then (compute_block_weights E (weighed_sources ex outputs) (ex_header ex) headers blocks) (\<lambda>ws.
            Inr (extend_blocks blocks ws (ps_selection s)))) (\<lambda>(exhausted, selection).
      and_then (if ex_selection ex = None then Inr outputs
          else retain_selected_keys B (ex_tables ex) (sel_blocks selection) outputs) (\<lambda>outputs.
      and_then (try_fold append_output outputs (ps_tables s)) (\<lambda>tables.
      Inr ((exhausted, last_range, to_block), s\<lparr>ps_tables := tables, ps_selection := selection\<rparr>)))))))))"

definition checked_next :: "nat option \<Rightarrow> nat option" where
  "checked_next to_block =
     (case to_block of None \<Rightarrow> None | Some e \<Rightarrow> if e + 1 \<le> u64_max then Some (e + 1) else None)"

text \<open>A range that is not the last ends where it starts or after.\<close>

lemma range_bounds_advance:
  assumes "range_bounds ex from_block request_end hint = (Some to_block, False)"
  shows "from_block \<le> to_block"
proof -
  have "min (max h from_block) e = to_block \<Longrightarrow> h < e \<Longrightarrow> to_block \<noteq> e \<Longrightarrow> from_block \<le> to_block" for h e
    by (auto simp: min_def max_def split: if_splits)
  with assms show ?thesis
    by (auto simp: range_bounds_def Let_def split: option.splits if_splits)
qed

lemma read_range_from:
  assumes "read_range E B ex input s = Inr ((exhausted, last_range, to_block), s')"
  shows "ps_from_block s' = ps_from_block s"
    and "\<exists>hint. range_bounds ex (ps_from_block s) (pi_request_end input) hint = (to_block, last_range)"
  using assms by (auto simp: read_range_def range_end_def Let_def and_then_Inr_iff split: prod.splits)

lemma checked_next_Some: "checked_next to_block = Some n \<longleftrightarrow> (\<exists>e. to_block = Some e \<and> n = e + 1 \<and> e + 1 \<le> u64_max)"
  by (auto simp: checked_next_def split: option.splits)

lemma range_advances:
  assumes "read_range E B ex input s = Inr ((False, False, to_block), s')" and "checked_next to_block = Some n"
  shows "ps_from_block s < n \<and> n \<le> u64_max"
  using read_range_from(2) [OF assms(1)] range_bounds_advance assms(2) by (fastforce simp: checked_next_Some)

function (sequential) select_ranges ::
    "slice_eq \<Rightarrow> batch_kernels \<Rightarrow> execution \<Rightarrow> page_input \<Rightarrow> page_state \<Rightarrow> engine_error + page_state \<times> nat option" where
  "select_ranges E B ex input s =
     and_then (read_range E B ex input s) (\<lambda>((exhausted, last_range, to_block), s').
     if exhausted \<or> last_range then Inr (s', if exhausted \<and> \<not> last_range then to_block else None)
     else
       (case checked_next to_block of
          None \<Rightarrow> Inr (s', None)
        | Some next_block \<Rightarrow>
            select_ranges E B ex input (s'\<lparr>ps_from_block := next_block, ps_first_range := False\<rparr>)))"
  by pat_completeness auto
termination
  by (relation "measure (\<lambda>(_, _, _, _, s). 2 ^ 64 - ps_from_block s)") (auto simp: u64_max_def dest: range_advances)

declare select_ranges.simps [simp del]

record page =
  pg_blocks :: "nat list"
  pg_headers :: rows
  pg_tables :: outputs
  pg_read_through :: "nat option"
  pg_weights :: "nat list"

definition request_end_of :: "plan \<Rightarrow> nat list \<Rightarrow> nat option" where
  "request_end_of p boundary =
     (if boundary = [] then pl_to_block p
      else Some (case pl_to_block p of None \<Rightarrow> Max (set boundary) | Some e \<Rightarrow> min e (Max (set boundary))))"

definition select_page :: "slice_eq \<Rightarrow> batch_kernels \<Rightarrow> execution \<Rightarrow> engine_error + page option" where
  "select_page E B ex =
     (let p = ex_plan ex; bn = t_block_number_column (ex_blocks ex) in
      and_then (read_headers ex) (\<lambda>headers.
      and_then (collect_boundary_blocks (rs_batches headers) bn []) (\<lambda>boundary.
      and_then (if ex_selection ex = None then Inr [] else collect_block_numbers (rs_batches headers) bn []) (\<lambda>numbers.
      and_then (select_ranges E B ex
          \<lparr>pi_headers = headers, pi_boundary = boundary, pi_header_numbers = sort numbers,
           pi_request_end = request_end_of p boundary\<rparr>
          \<lparr>ps_tables = [], ps_selection = selection_new (eo_weight_budget (ex_options ex)),
           ps_from_block = pl_from_block p, ps_first_range = True\<rparr>) (\<lambda>(s, read_through).
      Inr (if sel_blocks (ps_selection s) = [] then None
        else Some \<lparr>pg_blocks = sel_blocks (ps_selection s), pg_headers = headers, pg_tables = ps_tables s,
          pg_read_through = read_through, pg_weights = sel_weights (ps_selection s)\<rparr>))))))"


section \<open>The ranges of a page\<close>

text \<open>One range after another, as states of the loop.\<close>

inductive next_range :: "slice_eq \<Rightarrow> batch_kernels \<Rightarrow> execution \<Rightarrow> page_input \<Rightarrow> page_state \<Rightarrow> page_state \<Rightarrow> bool"
  for E B ex input where
  continue: "read_range E B ex input s = Inr ((False, False, to_block), s') \<Longrightarrow> checked_next to_block = Some n \<Longrightarrow>
    next_range E B ex input s (s'\<lparr>ps_from_block := n, ps_first_range := False\<rparr>)"

inductive_cases next_rangeE: "next_range E B ex input s s'"

lemma next_range_advances: "next_range E B ex input s s' \<Longrightarrow> ps_from_block s < ps_from_block s' \<and> ps_from_block s' \<le> u64_max"
  by (erule next_rangeE) (auto dest: range_advances)

lemma next_ranges_advance: "(next_range E B ex input)\<^sup>*\<^sup>* s s' \<Longrightarrow> s' = s \<or> ps_from_block s < ps_from_block s' \<and> ps_from_block s' \<le> u64_max"
  by (induction rule: rtranclp_induct) (auto dest: next_range_advances)

text \<open>What the loop returns is what a range reached from its start leaves, and that range is the last one read.\<close>

lemma select_ranges_reaches:
  "select_ranges E B ex input s = Inr (s', read_through) \<Longrightarrow>
     \<exists>u exhausted last_range to_block. (next_range E B ex input)\<^sup>*\<^sup>* s u \<and> read_range E B ex input u = Inr ((exhausted, last_range, to_block), s') \<and>
       (exhausted \<or> last_range \<or> checked_next to_block = None) \<and>
       read_through = (if exhausted \<and> \<not> last_range then to_block else None)"
proof (induction E B ex input s rule: select_ranges.induct)
  case (1 E B ex input s)
  note unfolded = "1.prems" [unfolded select_ranges.simps [of E B ex input s] and_then_Inr_iff]
  then obtain x where x: "read_range E B ex input s = Inr x" by blast
  obtain exhausted last_range to_block v where "x = ((exhausted, last_range, to_block), v)" by (metis surj_pair)
  with x have r: "read_range E B ex input s = Inr ((exhausted, last_range, to_block), v)" by simp
  show ?case
  proof (cases "exhausted \<or> last_range \<or> checked_next to_block = None")
    case True
    with r have "v = s'" "read_through = (if exhausted \<and> \<not> last_range then to_block else None)"
      using unfolded by (auto split: if_splits)
    with r True show ?thesis by blast
  next
    case False
    then obtain n where n: "checked_next to_block = Some n" by blast
    let ?v = "v\<lparr>ps_from_block := n, ps_first_range := False\<rparr>"
    have more: "select_ranges E B ex input ?v = Inr (s', read_through)"
      using unfolded r n False by simp
    have "next_range E B ex input s ?v" using r n False by (auto intro: next_range.continue)
    moreover from "1.IH" [OF r refl refl refl _ n more] False obtain u exhausted last_range to_block
      where "(next_range E B ex input)\<^sup>*\<^sup>* ?v u" and "read_range E B ex input u = Inr ((exhausted, last_range, to_block), s')"
        and "exhausted \<or> last_range \<or> checked_next to_block = None"
        and "read_through = (if exhausted \<and> \<not> last_range then to_block else None)" by metis
    ultimately show ?thesis by (blast intro: converse_rtranclp_into_rtranclp)
  qed
qed

text \<open>
  C1: Page selection ends. Every range the loop goes on to starts past the end of the one before it, within \<open>u64\<close>, whatever
  end the reader's hints, the headers or the request suggest, so no sequence of ranges is infinite.
\<close>

theorem page_ranges_end: "wfP (\<lambda>s' s. next_range E B ex input s s')"
proof (rule wfp_if_convertible_to_nat [where f = "\<lambda>s. 2 ^ 64 - ps_from_block s"])
  fix s' s assume "next_range E B ex input s s'"
  from next_range_advances [OF this] show "2 ^ 64 - ps_from_block s' < 2 ^ 64 - ps_from_block s"
    by (intro diff_less_mono2) (simp_all add: u64_max_def)
qed

end
