(* ===== verification/Spec2Isabelle.thy ===== *)
theory Spec2Isabelle
  imports Loader Row_Predicate Query_Parse Query_Plan Weights Block_Index Keys Row_Order Page
begin

text \<open>
  A verification library of the sqd query engine: a request in JSON is read against a dataset's
  catalog, compiled into a plan of filters and relations, evaluated over columnar chunks, and rendered
  block by block within a weight budget.

  Parts and theories (file names are under \<^verbatim>\<open>src/\<close> unless a path is given):

  \<^item> \<open>Prelude\<close>: results (\<open>Inl\<close> is the error of a Rust \<open>Result\<close>), fallible folds, ordered maps as
    association lists, ASCII and decimal text, saturating arithmetic.
  \<^item> \<open>Errors\<close> (\<^verbatim>\<open>error.rs\<close>): error kinds and their validation split. Messages are left out.
  \<^item> \<open>Arrow\<close>: columns as data and the compute kernels the program calls, as a record with the kernels'
    documented behaviour (\<open>kernels_ok\<close>) and an instance of it. No code of the program.
  \<^item> \<open>Integers\<close> (\<^verbatim>\<open>integers.rs\<close>, \<^verbatim>\<open>text.rs\<close>): columns stored at any width and signedness; the lookup keys
    of a filter select the rows whose value at the declared signedness is listed.
  \<^item> \<open>Metadata\<close>, \<open>Loader\<close>, \<open>Sample\<close> (\<^verbatim>\<open>crates/metadata/src\<close>): the catalog, its checks in the code's
    order, and a small catalog the witnesses run on.
  \<^item> \<open>Json\<close>, \<open>Sets\<close>, \<open>Encoder\<close> (\<^verbatim>\<open>sets.rs\<close>, \<^verbatim>\<open>output/encoder.rs\<close>): requests as data, the libraries a request
    passes through as a record \<open>externals\<close>, binary fuse filters, and the renderings filters share.
  \<^item> \<open>Predicates\<close>, \<open>Predicate_Correct\<close>, \<open>Row_Predicate\<close> (\<^verbatim>\<open>scan/predicate.rs\<close>): the filters of a scan,
    with the reading \<open>admits\<close> of a cell that evaluation, skipping by statistics and proving by
    statistics are shown to agree with; the locale \<open>array_predicate\<close> states that contract.
  \<^item> \<open>Query_Parse\<close> (\<^verbatim>\<open>query/parse.rs\<close>): from the request's bytes to a request within its limits and on the
    surface its catalog publishes.
  \<^item> \<open>List_Filter\<close>, \<open>Item_Filter\<close>, \<open>Query_Plan\<close> (\<^verbatim>\<open>query/plan.rs\<close>): one filter, one item, the plan. The plan is
    shown to admit exactly the rows that pass an item's filters, and to follow each relation for exactly
    the rows whose item asked for it.

  \<^item> \<open>Projection\<close>, \<open>Rows\<close>, \<open>Weights\<close> (\<^verbatim>\<open>output/projection.rs\<close>, \<^verbatim>\<open>scan/rows.rs\<close>, \<^verbatim>\<open>output/weight.rs\<close>): the columns
    each step reads, the rows a scan answers with their places in the file, and the weight of a block,
    each distinct row counted once, with the blocks a budget selects.
  \<^item> \<open>Pairs\<close>, \<open>Counting_Sort\<close>, \<open>Block_Index\<close> (\<^verbatim>\<open>scan/pairs.rs\<close>, \<^verbatim>\<open>output/block_index.rs\<close>): sets of pairs of
    integers as bitmaps or hashed, the counting pass two components share, and the rows of each block.
  \<^item> \<open>Key_Columns\<close>, \<open>Joins\<close>, \<open>Addresses\<close>, \<open>Keys\<close> (\<^verbatim>\<open>scan/key_columns.rs\<close>, \<^verbatim>\<open>join\<close>, \<^verbatim>\<open>scan/addresses.rs\<close>,
    \<^verbatim>\<open>scan/keys.rs\<close>): keys compared by value whatever their width, the joins on them, the index of source
    addresses and the set of keys a scan keeps its rows by. The scan's filters and the joins are shown to
    select the same rows.
  \<^item> \<open>Row_Order\<close> (\<^verbatim>\<open>output/row_order.rs\<close>): the order of a page's rows by their key columns, whichever
    encoding the sort takes: words, encoded bytes or column by column.

  \<^item> \<open>Scan_Request\<close>, \<open>Columnar\<close>, \<open>Columnar_Correct\<close> (\<^verbatim>\<open>scan/scanner.rs\<close> in part, \<^verbatim>\<open>scan/columnar.rs\<close>): a scan request, the
    checks before any row, the filters of a scan as instances of the locale \<open>row_filter\<close>, and the reader of
    chunks that read by column and row. The locale \<open>chunk_reader\<close> is what queries rely on.
  \<^item> \<open>Relation_Rows\<close>, \<open>Memory_Store\<close>, \<open>Chunk_Scans\<close>: the keys and addresses of a relation as filters of rows, a
    store in memory that keeps the store's promises (\<open>table_holds\<close>, \<open>table_serves\<close>), and what scans return.
  \<^item> \<open>Array_Rows\<close>, \<open>Chunk_Reader\<close> (\<^verbatim>\<open>scan/mod.rs\<close>): batches as the rows they show, and the \<open>ChunkReader\<close> trait as
    a record of operations; the locales \<open>answering_chunk\<close> and \<open>serving_chunk\<close> say what any reader promises of a
    chunk's data, and the columnar reader keeps both.
  \<^item> \<open>Fork\<close> (\<^verbatim>\<open>output/fork.rs\<close>): the check of the client's parent block, shown to decide by the lowest row at or
    above the first block that states a parent below it, whatever reader serves it.
  \<^item> \<open>Execution\<close>, \<open>Tables\<close> (\<^verbatim>\<open>execution/prepare.rs\<close>, \<^verbatim>\<open>execution/materialize.rs\<close>, \<^verbatim>\<open>execution/tables.rs\<close>,
    \<^verbatim>\<open>output/sources.rs\<close>): the planned tables, the choice to defer payloads and the reader that selects a
    page, the scan of a block range with its relations, and the tables a response carries.
  \<^item> \<open>Relation_Scans\<close>, \<open>Table_Scans\<close>: the scan of a table with its relations answers with the rows of an item and
    the rows related to them. A relation whose key starts with the block number, as an accepted catalog requires, is
    answered by the keys and addresses pushed into its target's scan (\<open>table_scan_relates\<close>); one that groups by no
    column is joined after it (\<open>relation_joined_after_scan\<close>). Both hold over any reader that keeps the promises of
    \<open>answering_chunk\<close>; over one that serves its reads the scan always answers.
  \<^item> \<open>Page\<close> (\<^verbatim>\<open>execution/page.rs\<close>): the blocks of a page, read range by range until the weight budget is
    spent, with the ends the reader's hints, the headers and the budget suggest for a range.

  Third-party code is an argument: \<open>externals\<close> (JSON, base 64, hexadecimal, XXH3), \<open>kernels\<close> (Arrow), and
  Arrow's \<open>concat\<close>. Properties that rely on their behaviour name the law as a hypothesis, and the
  witnesses instantiate them by concrete functions. A panic is an outcome of its own.

  Bounds: a loop that is not structural has its measure in its theory: the eight-byte chunks of a
  hashed path, the lists inside a key, and the ranges of a page, whose starts grow below \<open>2 ^ 64\<close>. No definition takes fuel.

  Not modelled: the Parquet reader and its stages (\<^verbatim>\<open>scan/scanner.rs\<close> past the checks and filters both readers share,
  \<^verbatim>\<open>scan/chunk.rs\<close>, \<^verbatim>\<open>scan/columns.rs\<close>, \<^verbatim>\<open>scan/positions.rs\<close>), which is calls into the Parquet library; the rendering of a
  response (\<^verbatim>\<open>output/row_writer.rs\<close>, \<^verbatim>\<open>output/writer.rs\<close>, \<^verbatim>\<open>output/arrow_out.rs\<close>, and the value encoders of
  \<^verbatim>\<open>output/encoder.rs\<close> beyond those filters share), for which \<open>array\<close> would need structs, timestamps and decimals;
  reading deferred payloads back and the checks of renderability (the rest of \<^verbatim>\<open>execution/materialize.rs\<close> and
  \<^verbatim>\<open>execution/prepare.rs\<close>); thread pools, YAML parsing, error messages and \<open>describe\<close> texts; and the caches a
  predicate fills on first use, which hold values of the modelled functions.
\<close>

end
